(* ===== verification/Prelude.thy ===== *)
theory Prelude
  imports Main "HOL-Library.Multiset" "HOL-Library.Signed_Division"
begin

text \<open>
  Shared ground of the development.

  \<^item> \<open>swrap\<close> and \<open>uwrap\<close> are the two's complement and the unsigned reduction of an
    integer to a width. The components keep their machine integers as \<open>int\<close> and write
    \<open>i64\<close>, \<open>i32\<close>, \<open>u64\<close> or \<open>u32\<close> wherever the C++ code computes a new value of that
    type, so overflow is visible in the definitions. C++'s truncating \<open>/\<close> is \<open>sdiv\<close> of
    \<open>HOL-Library.Signed_Division\<close>.
  \<^item> \<open>transition_system\<close> is the interface the stateful components share: a step
    function on commands and an invariant that every step keeps. Its lemmas lift the
    invariant to whole runs; each component interprets it on its own operations.
  \<^item> Lemmas on sums over lists, on maps and on permutations that several components use.
\<close>

named_theorems wrap_simps \<open>removing wrap-around from values that are in range\<close>
named_theorems keeps \<open>an operation keeps the invariant of its component\<close>

section \<open>Fixed-width integers\<close>

definition swrap :: "nat \<Rightarrow> int \<Rightarrow> int" where
  "swrap w x = (x + 2 ^ (w - 1)) mod 2 ^ w - 2 ^ (w - 1)"

definition uwrap :: "nat \<Rightarrow> int \<Rightarrow> int" where
  "uwrap w x = x mod 2 ^ w"

definition in_srange :: "nat \<Rightarrow> int \<Rightarrow> bool" where
  "in_srange w x \<longleftrightarrow> - (2 ^ (w - 1)) \<le> x \<and> x < 2 ^ (w - 1)"

definition in_urange :: "nat \<Rightarrow> int \<Rightarrow> bool" where
  "in_urange w x \<longleftrightarrow> 0 \<le> x \<and> x < 2 ^ w"

abbreviation i64 :: "int \<Rightarrow> int" where "i64 \<equiv> swrap 64"
abbreviation i32 :: "int \<Rightarrow> int" where "i32 \<equiv> swrap 32"
abbreviation u64 :: "int \<Rightarrow> int" where "u64 \<equiv> uwrap 64"
abbreviation u32 :: "int \<Rightarrow> int" where "u32 \<equiv> uwrap 32"
abbreviation in_i64 :: "int \<Rightarrow> bool" where "in_i64 \<equiv> in_srange 64"
abbreviation in_i32 :: "int \<Rightarrow> bool" where "in_i32 \<equiv> in_srange 32"
abbreviation in_u64 :: "int \<Rightarrow> bool" where "in_u64 \<equiv> in_urange 64"
abbreviation in_u32 :: "int \<Rightarrow> bool" where "in_u32 \<equiv> in_urange 32"

lemma power_half: "0 < w \<Longrightarrow> (2::int) ^ w = 2 * 2 ^ (w - 1)"
  by (cases w) auto

lemma swrap_id [wrap_simps]: "0 < w \<Longrightarrow> in_srange w x \<Longrightarrow> swrap w x = x"
  by (simp add: swrap_def in_srange_def power_half)

lemma uwrap_id [wrap_simps]: "in_urange w x \<Longrightarrow> uwrap w x = x"
  by (simp add: uwrap_def in_urange_def)

lemma swrap_in_range: "0 < w \<Longrightarrow> in_srange w (swrap w x)"
  by (simp add: swrap_def in_srange_def power_half)

lemma uwrap_in_range [simp]: "in_urange w (uwrap w x)"
  by (simp add: uwrap_def in_urange_def)

lemma swrap_congruent: "swrap w x mod 2 ^ w = x mod 2 ^ w"
  by (simp add: swrap_def mod_simps)

lemma swrap_eqI:
  assumes "0 < w" and "x mod 2 ^ w = y mod 2 ^ w"
  shows "swrap w x = swrap w y"
  using assms by (metis swrap_def mod_add_left_eq)

lemma swrap_swrap_add: "0 < w \<Longrightarrow> swrap w (swrap w x + y) = swrap w (x + y)"
  by (rule swrap_eqI) (auto intro: mod_add_cong swrap_congruent)

lemma swrap_swrap_diff: "0 < w \<Longrightarrow> swrap w (swrap w x - y) = swrap w (x - y)"
  by (rule swrap_eqI) (auto intro: mod_diff_cong swrap_congruent)

lemma uwrap_Suc_neq: "1 < w \<Longrightarrow> uwrap w (x + 1) \<noteq> uwrap w x"
proof
  assume w: "1 < w" and "uwrap w (x + 1) = uwrap w x"
  then have "((x + 1) - x) mod 2 ^ w = 0"
    unfolding uwrap_def by (metis mod_eq_dvd_iff dvd_imp_mod_0)
  moreover have "(1::int) < 2 ^ w" using w by (simp add: one_less_power)
  ultimately show False by simp
qed

lemma i64_range: "in_i64 x \<longleftrightarrow> - 9223372036854775808 \<le> x \<and> x \<le> 9223372036854775807"
  by (auto simp: in_srange_def)

lemma i64_small [wrap_simps]: "\<bar>x\<bar> < 9223372036854775808 \<Longrightarrow> i64 x = x"
  by (intro swrap_id) (auto simp: i64_range)

lemma i32_range: "in_i32 x \<longleftrightarrow> - 2147483648 \<le> x \<and> x \<le> 2147483647"
  by (auto simp: in_srange_def)

section \<open>Truncating division\<close>

lemma sdiv_error:
  fixes d x :: int
  assumes d: "0 < d"
  shows "\<bar>(x sdiv d) * d - x\<bar> < d"
proof -
  define q where "q = \<bar>x\<bar> div d * d"
  have "q + \<bar>x\<bar> mod d = \<bar>x\<bar>" and "0 \<le> \<bar>x\<bar> mod d" and "\<bar>x\<bar> mod d < d"
    using d by (simp_all add: q_def)
  then have "q \<le> \<bar>x\<bar>" and "\<bar>x\<bar> - q < d" by linarith+
  moreover have "(x sdiv d) * d = sgn x * q"
    using d by (simp add: signed_divide_int_def q_def)
  ultimately show ?thesis
    using d by (simp add: sgn_if abs_if split: if_splits)
qed

lemma sdiv_nonneg_eq: "0 \<le> x \<Longrightarrow> 0 \<le> d \<Longrightarrow> x sdiv d = (x div d :: int)"
  by (cases "x = 0"; cases "d = 0") (auto simp: signed_divide_int_def)

lemma sdiv_abs_le: "\<bar>x sdiv d\<bar> \<le> \<bar>x :: int\<bar>"
proof -
  have "0 \<le> \<bar>x\<bar> div \<bar>d\<bar>" by (cases "d = 0") (simp_all add: pos_imp_zdiv_nonneg_iff)
  moreover have "\<bar>x\<bar> div \<bar>d\<bar> \<le> \<bar>x\<bar>"
    by (cases "d = 0"; cases "x = 0") (simp_all add: int_div_le_self)
  ultimately show ?thesis by (auto simp: signed_divide_int_def abs_mult sgn_if)
qed

section \<open>Lists and sums\<close>

lemma list_update_Cons_numeral [simp]:
  "(x # xs)[numeral k := y] = x # xs[pred_numeral k := y]"
  by (simp add: numeral_eq_Suc)

lemma replicate_numeral':
  "replicate (numeral k) x = x # replicate (pred_numeral k) x"
  by (simp add: numeral_eq_Suc)

lemma sum_list_nonneg_map:
  "(\<And>x. x \<in> set xs \<Longrightarrow> 0 \<le> f x) \<Longrightarrow> 0 \<le> (sum_list (map f xs) :: int)"
  by (induction xs) auto

lemma sum_list_map_filter_le:
  "(\<And>x. x \<in> set xs \<Longrightarrow> 0 \<le> f x) \<Longrightarrow>
   sum_list (map f (filter P xs)) \<le> (sum_list (map f xs) :: int)"
  by (induction xs) (auto intro: order_trans)

lemma sum_list_take_le:
  "(\<And>x. x \<in> set xs \<Longrightarrow> 0 \<le> f x) \<Longrightarrow>
   sum_list (map f (take n xs)) \<le> (sum_list (map f xs) :: int)"
proof (induction xs arbitrary: n)
  case (Cons x xs)
  then show ?case
    by (cases n) (auto intro!: add_nonneg_nonneg sum_list_nonneg_map)
qed simp

lemma sum_list_mset_cong:
  "mset xs = mset ys \<Longrightarrow> sum_list (map f xs) = (sum_list (map f ys) :: int)"
  by (metis mset_map sum_mset_sum_list)

lemma member_le_sum_list_map:
  "(\<And>y. y \<in> set xs \<Longrightarrow> 0 \<le> f y) \<Longrightarrow> x \<in> set xs \<Longrightarrow> f x \<le> (sum_list (map f xs) :: int)"
  by (induction xs) (auto intro: add_increasing add_increasing2 sum_list_nonneg_map)

section \<open>Sorting with a comparator\<close>

text \<open>
  \<open>std::sort\<close> promises a permutation of its range in which no element is ordered before an
  earlier one, if the comparator is a strict weak order; it says nothing about elements that
  compare equal. Code that sorts takes the sort as an argument \<open>srt\<close>, and the lemmas assume
  only \<open>std_sort srt\<close>. Insertion sort is one such function.
\<close>

definition strict_weak :: "('a \<Rightarrow> 'a \<Rightarrow> bool) \<Rightarrow> bool" where
  "strict_weak lt \<longleftrightarrow> (\<forall>x y. lt x y \<longrightarrow> \<not> lt y x) \<and> (\<forall>x y z. lt x z \<longrightarrow> lt x y \<or> lt y z)"

definition std_sort :: "(('a \<Rightarrow> 'a \<Rightarrow> bool) \<Rightarrow> 'a list \<Rightarrow> 'a list) \<Rightarrow> bool" where
  "std_sort srt \<longleftrightarrow> (\<forall>lt xs. strict_weak lt \<longrightarrow>
     mset (srt lt xs) = mset xs \<and> sorted_wrt (\<lambda>a b. \<not> lt b a) (srt lt xs))"

fun insort_by :: "('a \<Rightarrow> 'a \<Rightarrow> bool) \<Rightarrow> 'a \<Rightarrow> 'a list \<Rightarrow> 'a list" where
  "insort_by lt x [] = [x]"
| "insort_by lt x (y # ys) = (if lt y x then y # insort_by lt x ys else x # y # ys)"

definition sort_by :: "('a \<Rightarrow> 'a \<Rightarrow> bool) \<Rightarrow> 'a list \<Rightarrow> 'a list" where
  "sort_by lt xs = foldr (insort_by lt) xs []"

lemma mset_insort_by [simp]: "mset (insort_by lt x ys) = add_mset x (mset ys)"
  by (induction ys) auto

lemma sorted_insort_by:
  assumes "strict_weak lt" and "sorted_wrt (\<lambda>a b. \<not> lt b a) ys"
  shows "sorted_wrt (\<lambda>a b. \<not> lt b a) (insort_by lt x ys)"
  using assms(2)
proof (induction ys)
  case (Cons y ys)
  have "set (insort_by lt x ys) = insert x (set ys)" by (metis mset_insort_by set_mset_add_mset_insert set_mset_mset)
  moreover have "\<not> lt z x" if "\<not> lt y x" and "z \<in> set ys" for z
    using that Cons.prems assms(1) unfolding strict_weak_def by (metis sorted_wrt.simps(2))
  moreover have "\<not> lt x y" if "lt y x" using that assms(1) unfolding strict_weak_def by blast
  ultimately show ?case using Cons by auto
qed simp

lemma std_sort_by: "std_sort sort_by"
proof -
  have "mset (foldr (insort_by lt) xs []) = mset xs \<and>
      sorted_wrt (\<lambda>a b. \<not> lt b a) (foldr (insort_by lt) xs [])"
    if "strict_weak lt" for lt :: "'a \<Rightarrow> 'a \<Rightarrow> bool" and xs
    by (induction xs) (simp_all add: sorted_insort_by [OF that])
  then show ?thesis unfolding std_sort_def sort_by_def by blast
qed

lemma std_sortD:
  assumes "std_sort srt" and "strict_weak lt"
  shows "mset (srt lt xs) = mset xs" and "set (srt lt xs) = set xs"
    and "sorted_wrt (\<lambda>a b. \<not> lt b a) (srt lt xs)"
  using assms unfolding std_sort_def by (auto dest: mset_eq_setD)

lemma strict_weak_less: "strict_weak (\<lambda>a b. (f a :: 'b :: linorder) < f b)"
  unfolding strict_weak_def by (auto intro: le_less_trans)

lemma strict_weak_greater: "strict_weak (\<lambda>a b. (f a :: 'b :: linorder) > f b)"
  unfolding strict_weak_def by (auto intro: le_less_trans)

section \<open>Components as transition systems\<close>

text \<open>
  A component is a state type, a type of commands (its public operations with their
  arguments) and a function that executes one command. \<open>ok c s\<close> says that the caller may
  issue \<open>c\<close> in state \<open>s\<close>. An invariant that holds at the start and that every permitted
  command keeps holds after any permitted sequence of commands.
\<close>

fun run :: "('c \<Rightarrow> 's \<Rightarrow> 's) \<Rightarrow> 'c list \<Rightarrow> 's \<Rightarrow> 's" where
  "run step [] s = s"
| "run step (c # cs) s = run step cs (step c s)"

fun legal :: "('c \<Rightarrow> 's \<Rightarrow> bool) \<Rightarrow> ('c \<Rightarrow> 's \<Rightarrow> 's) \<Rightarrow> 'c list \<Rightarrow> 's \<Rightarrow> bool" where
  "legal ok step [] s = True"
| "legal ok step (c # cs) s = (ok c s \<and> legal ok step cs (step c s))"

lemma run_append: "run step (cs @ ds) s = run step ds (run step cs s)"
  by (induction cs arbitrary: s) auto

lemma legal_append:
  "legal ok step (cs @ ds) s \<longleftrightarrow> legal ok step cs s \<and> legal ok step ds (run step cs s)"
  by (induction cs arbitrary: s) auto

lemma legal_True [simp]: "legal (\<lambda>_ _. True) step cs s"
  by (induction cs arbitrary: s) auto

locale transition_system =
  fixes step :: "'c \<Rightarrow> 's \<Rightarrow> 's"
    and start :: 's
    and inv :: "'s \<Rightarrow> bool"
    and ok :: "'c \<Rightarrow> 's \<Rightarrow> bool"
  assumes inv_start: "inv start"
    and inv_step: "inv s \<Longrightarrow> ok c s \<Longrightarrow> inv (step c s)"
begin

lemma inv_run_from: "inv s \<Longrightarrow> legal ok step cs s \<Longrightarrow> inv (run step cs s)"
  by (induction cs arbitrary: s) (auto intro: inv_step)

lemma inv_run: "legal ok step cs start \<Longrightarrow> inv (run step cs start)"
  by (rule inv_run_from [OF inv_start])

text \<open>A property of single permitted steps from invariant states holds at every step of a run.\<close>

lemma always:
  assumes "\<And>s c. inv s \<Longrightarrow> ok c s \<Longrightarrow> P s c (step c s)"
    and "legal ok step (cs @ [c]) start"
  shows "P (run step cs start) c (run step (cs @ [c]) start)"
  using assms inv_run [of cs] by (simp add: legal_append run_append)

end

end
