(* ===== verification/Doubles.thy ===== *)
theory Doubles
  imports Complex_Main "HOL-Library.Log_Nat" Prelude
begin

text \<open>
  The \<open>double\<close> arithmetic the router uses for fees, venue quality and pro-rata shares.

  A double is represented by the rational number it denotes and every operation rounds
  its exact result to 53 significant bits, ties to even, as IEEE 754 prescribes. The
  representation covers the finite doubles in the normal range: infinities, NaN and
  subnormals do not occur in it. \<open>ilog2\<close> finds the binary exponent, \<open>rnd\<close> rounds,
  and \<open>of_i64\<close> and \<open>to_i64\<close> are the two \<open>static_cast\<close>s between \<open>int64_t\<close> and
  \<open>double\<close> (the second truncates).

  The lemmas give the error of a rounding (half a unit in the last place, hence a
  relative error of at most \<open>2^-53\<close>), exactness on integers up to \<open>2^53\<close> and the sign
  facts that the allocation code relies on.
\<close>

type_synonym double = rat

definition ilog2 :: "rat \<Rightarrow> int" where
  "ilog2 x = (let (n, d) = quotient_of x;
                  k = int (floorlog 2 (nat n)) - int (floorlog 2 (nat d))
              in if 2 powi k \<le> x then k else k - 1)"

definition round_half_even :: "rat \<Rightarrow> int" where
  "round_half_even y =
     (let f = \<lfloor>y\<rfloor>; r = y - of_int f
      in if r < 1/2 then f else if r > 1/2 then f + 1 else if even f then f else f + 1)"

definition rnd :: "rat \<Rightarrow> double" where
  "rnd x = (if x = 0 then 0
            else let u = 2 powi (ilog2 \<bar>x\<bar> - 52) in of_int (round_half_even (x / u)) * u)"

definition dadd :: "double \<Rightarrow> double \<Rightarrow> double" where "dadd a b = rnd (a + b)"
definition dsub :: "double \<Rightarrow> double \<Rightarrow> double" where "dsub a b = rnd (a - b)"
definition dmul :: "double \<Rightarrow> double \<Rightarrow> double" where "dmul a b = rnd (a * b)"
definition ddiv :: "double \<Rightarrow> double \<Rightarrow> double" where "ddiv a b = rnd (a / b)"

definition of_i64 :: "int \<Rightarrow> double" where "of_i64 n = rnd (of_int n)"

definition to_i64 :: "double \<Rightarrow> int" where
  "to_i64 x = (if 0 \<le> x then \<lfloor>x\<rfloor> else \<lceil>x\<rceil>)"

section \<open>The binary exponent\<close>

lemma floorlog_nat_bounds:
  assumes "0 < n"
  shows "2 powi (int (floorlog 2 n) - 1) \<le> (of_nat n :: rat) \<and>
         (of_nat n :: rat) < 2 powi (int (floorlog 2 n))"
proof -
  have pos: "0 < floorlog 2 n"
    using assms floorlog_eq_zero_iff [of 2 n] by simp
  have b: "2 ^ (floorlog 2 n - 1) \<le> n \<and> n < 2 ^ floorlog 2 n"
    using floorlog_bounds [of n 2] assms by simp
  then have "(2::rat) ^ (floorlog 2 n - 1) \<le> of_nat n \<and> of_nat n < (2::rat) ^ floorlog 2 n"
    by (metis of_nat_le_iff of_nat_less_iff of_nat_numeral of_nat_power)
  moreover have "int (floorlog 2 n) - 1 = int (floorlog 2 n - 1)"
    using pos by simp
  ultimately show ?thesis by (simp only: power_int_of_nat)
qed

lemma ilog2_bounds:
  assumes "0 < x"
  shows "2 powi (ilog2 x) \<le> x \<and> x < 2 powi (ilog2 x + 1)"
proof -
  obtain n d where q: "quotient_of x = (n, d)" by fastforce
  have d: "0 < d" using quotient_of_denom_pos [OF q] .
  have x: "x = of_int n / of_int d" using quotient_of_div [OF q] .
  with assms d have n: "0 < n" by (simp add: zero_less_divide_iff)
  define bn where "bn = int (floorlog 2 (nat n))"
  define bd where "bd = int (floorlog 2 (nat d))"
  have N: "2 powi (bn - 1) \<le> (of_int n :: rat)" "(of_int n :: rat) < 2 powi bn"
    using floorlog_nat_bounds [of "nat n"] n by (auto simp: bn_def)
  have D: "2 powi (bd - 1) \<le> (of_int d :: rat)" "(of_int d :: rat) < 2 powi bd"
    using floorlog_nat_bounds [of "nat d"] d by (auto simp: bd_def)
  have "x < 2 powi bn / 2 powi (bd - 1)"
    unfolding x using N D d n by (intro frac_less) (auto intro: order_less_imp_le)
  also have "\<dots> = 2 powi (bn - bd + 1)"
    by (simp add: power_int_diff power_int_add)
  finally have up: "x < 2 powi (bn - bd + 1)" .
  have "2 powi (bn - 1) / 2 powi bd \<le> x"
    unfolding x using N D d n by (intro frac_le) (auto intro: order_less_imp_le)
  moreover have "2 powi (bn - 1) / 2 powi bd = (2::rat) powi (bn - bd - 1)"
    by (simp add: power_int_diff)
  ultimately have lo: "2 powi (bn - bd - 1) \<le> x" by simp
  have "ilog2 x = (if 2 powi (bn - bd) \<le> x then bn - bd else bn - bd - 1)"
    by (simp add: ilog2_def q bn_def bd_def)
  then show ?thesis using up lo by auto
qed

section \<open>Rounding error and exactness\<close>

lemma round_half_even_error: "\<bar>of_int (round_half_even y) - y\<bar> \<le> 1/2"
proof -
  have "of_int \<lfloor>y\<rfloor> \<le> y" and "y < of_int \<lfloor>y\<rfloor> + 1" by linarith+
  then show ?thesis unfolding round_half_even_def Let_def by (auto split: if_splits)
qed

lemma round_half_even_of_int [simp]: "round_half_even (of_int k) = k"
  by (simp add: round_half_even_def)

lemma round_half_even_nonneg: "0 \<le> y \<Longrightarrow> 0 \<le> round_half_even y"
  by (auto simp: round_half_even_def Let_def)

lemma rnd_0 [simp]: "rnd 0 = 0"
  by (simp add: rnd_def)

lemma rnd_nonneg: "0 \<le> x \<Longrightarrow> 0 \<le> rnd x"
  by (auto simp: rnd_def Let_def intro!: mult_nonneg_nonneg round_half_even_nonneg)

lemma rnd_error: "\<bar>rnd x - x\<bar> \<le> \<bar>x\<bar> / 2 ^ 53"
proof (cases "x = 0")
  case False
  define u :: rat where "u = 2 powi (ilog2 \<bar>x\<bar> - 52)"
  have u: "0 < u" by (simp add: u_def)
  have "rnd x - x = (of_int (round_half_even (x / u)) - x / u) * u"
    using False u by (simp add: rnd_def u_def [symmetric] left_diff_distrib)
  then have "\<bar>rnd x - x\<bar> = \<bar>of_int (round_half_even (x / u)) - x / u\<bar> * u"
    using u by (simp add: abs_mult)
  also have "\<dots> \<le> 1/2 * u"
    using round_half_even_error u by (intro mult_right_mono) auto
  also have "\<dots> = 2 powi (ilog2 \<bar>x\<bar>) / 2 ^ 53"
    by (simp add: u_def power_int_diff)
  also have "\<dots> \<le> \<bar>x\<bar> / 2 ^ 53"
    using ilog2_bounds [of "\<bar>x\<bar>"] False by (intro divide_right_mono) auto
  finally show ?thesis .
qed simp

lemma rnd_dyadic:
  assumes "\<bar>m\<bar> \<le> 2 ^ 53"
  shows "rnd (of_int m / 2 ^ k) = of_int m / 2 ^ k"
proof (cases "m = 0")
  case False
  define x :: rat where "x = of_int m / 2 ^ k"
  define e where "e = ilog2 \<bar>x\<bar> + int k"
  have pos: "0 < \<bar>x\<bar>" using False by (simp add: x_def)
  have m: "\<bar>of_int m :: rat\<bar> = \<bar>x\<bar> * 2 powi int k"
    by (simp add: x_def abs_mult abs_divide)
  have "2 powi (ilog2 \<bar>x\<bar>) * 2 powi int k \<le> \<bar>x\<bar> * 2 powi int k"
    using ilog2_bounds [OF pos] by (intro mult_right_mono) auto
  then have le: "2 powi e \<le> \<bar>of_int m :: rat\<bar>"
    unfolding m e_def by (subst power_int_add) simp_all
  also have "\<dots> \<le> 2 powi 53"
    using assms by (metis of_int_abs of_int_le_iff of_int_numeral of_int_power power_int_numeral)
  finally have "(2::rat) powi e \<le> 2 powi 53" .
  then have e: "e \<le> 53" using power_int_le_imp_le_exp [of "2::rat" e 53] by simp
  have "\<exists>j. of_int m / 2 powi (e - 52) = (of_int j :: rat)"
  proof (cases "e = 53")
    case True
    with le have "(2::rat) powi 53 \<le> \<bar>of_int m\<bar>" by simp
    then have "2 ^ 53 \<le> \<bar>m\<bar>"
      by (metis of_int_abs of_int_le_iff of_int_numeral of_int_power power_int_numeral)
    with assms have "m = 2 ^ 53 \<or> m = - (2 ^ 53)" by linarith
    with True show ?thesis
      by (auto intro: exI [of _ "2 ^ 52"] exI [of _ "- (2 ^ 52)"])
  next
    case False
    with e have "e \<le> 52" by simp
    then obtain j where j: "e - 52 = - int j" by (metis diff_le_0_iff_le nonpos_int_cases)
    then show ?thesis
      by (intro exI [of _ "m * 2 ^ j"]) (simp add: power_int_minus divide_inverse)
  qed
  then obtain j where j: "of_int m / 2 powi (e - 52) = (of_int j :: rat)" ..
  have "x / 2 powi (ilog2 \<bar>x\<bar> - 52) = of_int m / 2 powi (e - 52)"
    by (simp add: x_def e_def power_int_diff power_int_add)
  then have "rnd x = x / 2 powi (ilog2 \<bar>x\<bar> - 52) * 2 powi (ilog2 \<bar>x\<bar> - 52)"
    using pos j by (simp add: rnd_def)
  then show ?thesis by (simp add: x_def)
qed simp

lemma rnd_of_int: "\<bar>n\<bar> \<le> 2 ^ 53 \<Longrightarrow> rnd (of_int n) = of_int n"
  using rnd_dyadic [of n 0] by simp

lemma rnd_one [simp]: "rnd 1 = 1"
  using rnd_of_int [of 1] by simp

lemma rnd_numeral [simp]: "(numeral n :: int) \<le> 2 ^ 53 \<Longrightarrow> rnd (numeral n) = numeral n"
  using rnd_of_int [of "numeral n"] by simp

lemma rnd_half [simp]: "rnd (1 / 2) = 1 / 2"
  using rnd_dyadic [of 1 1] by simp

section \<open>Sign facts of the operations\<close>

lemma of_i64_exact: "\<bar>n\<bar> \<le> 2 ^ 53 \<Longrightarrow> of_i64 n = of_int n"
  by (simp add: of_i64_def rnd_of_int)

lemma of_i64_nonneg: "0 \<le> n \<Longrightarrow> 0 \<le> of_i64 n"
  by (simp add: of_i64_def rnd_nonneg)

lemma dmul_nonneg: "0 \<le> a \<Longrightarrow> 0 \<le> b \<Longrightarrow> 0 \<le> dmul a b"
  by (simp add: dmul_def rnd_nonneg)

lemma ddiv_nonneg: "0 \<le> a \<Longrightarrow> 0 \<le> b \<Longrightarrow> 0 \<le> ddiv a b"
  by (simp add: ddiv_def rnd_nonneg)

lemma to_i64_nonneg: "0 \<le> x \<Longrightarrow> 0 \<le> to_i64 x"
  by (simp add: to_i64_def)

lemma to_i64_eqI_nonneg: "of_int n \<le> x \<Longrightarrow> x < of_int n + 1 \<Longrightarrow> 0 \<le> x \<Longrightarrow> to_i64 x = n"
  by (simp add: to_i64_def floor_unique)

lemma to_i64_eqI_neg: "of_int n - 1 < x \<Longrightarrow> x \<le> of_int n \<Longrightarrow> x < 0 \<Longrightarrow> to_i64 x = n"
  by (simp add: to_i64_def ceiling_unique)

lemma rnd_error_bound:
  assumes "\<bar>x\<bar> \<le> B"
  shows "\<bar>rnd x - x\<bar> \<le> B / 2 ^ 53"
proof -
  have "\<bar>x\<bar> / 2 ^ 53 \<le> B / 2 ^ 53" using assms by (rule divide_right_mono) simp
  with rnd_error [of x] show ?thesis by linarith
qed

end
