(* ===== verification/Core_Types.thy ===== *)
theory Core_Types
  imports Doubles "HOL-Library.Char_ord"
begin

text \<open>
  The vocabulary of the router, from \<open>core/types.h\<close>, \<open>core/order.h\<close>, \<open>core/order.cpp\<close>
  and \<open>core/fixed_point.h\<close>: the enumerations, prices and their conversions, the
  fixed-capacity string \<open>FixedString<N>\<close>, orders, execution reports and the
  \<open>FixedPoint<Scale>\<close> arithmetic.

  Prices and quantities are \<open>int64_t\<close>; they are kept as \<open>int\<close> and every computed value is
  wrapped with \<open>i64\<close>. Identifiers (\<open>uint64_t\<close>, \<open>uint16_t\<close>) are only copied and compared
  and are \<open>nat\<close>. Time points of \<open>steady_clock\<close> are nanosecond counts; an operation that
  reads the clock takes the reading as its argument \<open>now\<close>.

  A \<open>FixedString\<close> is compared, hashed and ordered through its view (lemmas
  \<open>fs_eq_view\<close>, \<open>fs_less_lexord\<close>), so the other theories represent a \<open>Symbol\<close> or a
  \<open>ClientId\<close> by that view, a \<open>string\<close>.
\<close>

type_synonym price = int
type_synonym quantity = int
type_synonym order_id = nat
type_synonym venue_id = nat
type_synonym timestamp = int
type_synonym symbol = string

definition PRICE_SCALE :: int where "PRICE_SCALE = 100000000"
definition INVALID_PRICE :: price where "INVALID_PRICE = 2 ^ 63 - 1"
definition INVALID_ORDER_ID :: order_id where "INVALID_ORDER_ID = 0"

definition to_price :: "double \<Rightarrow> price" where
  "to_price d = to_i64 (dadd (dmul d (of_i64 PRICE_SCALE)) (if d \<ge> 0 then 1/2 else - (1/2)))"

definition to_double :: "price \<Rightarrow> double" where
  "to_double p = ddiv (of_i64 p) (of_i64 PRICE_SCALE)"

datatype side = Buy | Sell

datatype order_type = OT_Limit | OT_Market | OT_IOC | OT_FOK

datatype time_in_force = TIF_GTC | TIF_IOC | TIF_FOK | TIF_GTD | TIF_DAY

datatype order_state =
    New | PendingNew | Accepted | PartiallyFilled | Filled
  | PendingCancel | Canceled | Rejected | Expired | PendingReplace

datatype routing_strategy = BestPrice | LiquiditySweep | SmartIOC | VWAP

datatype venue_status = Connected | Disconnected | Degraded

section \<open>FixedString\<close>

record fixed_string =
  fs_data :: "char list"
  fs_len :: nat

abbreviation NUL :: char where "NUL \<equiv> CHR 0x00"

definition fs_init :: "nat \<Rightarrow> fixed_string" where
  "fs_init N = \<lparr>fs_data = replicate (N + 1) NUL, fs_len = 0\<rparr>"

definition fs_assign :: "nat \<Rightarrow> string \<Rightarrow> fixed_string \<Rightarrow> fixed_string" where
  "fs_assign N sv fs =
     (let copy_len = (if length sv < N then length sv else N);
          copied = take copy_len sv @ drop copy_len (fs_data fs)
      in \<lparr>fs_data = copied[copy_len := NUL], fs_len = copy_len mod 256\<rparr>)"

definition fs_clear :: "fixed_string \<Rightarrow> fixed_string" where
  "fs_clear fs = \<lparr>fs_data = (fs_data fs)[0 := NUL], fs_len = 0\<rparr>"

definition fs_assign_cstr :: "nat \<Rightarrow> string option \<Rightarrow> fixed_string \<Rightarrow> fixed_string" where
  "fs_assign_cstr N s fs =
     (case s of None \<Rightarrow> fs_clear fs
      | Some bytes \<Rightarrow> fs_assign N (takeWhile (\<lambda>c. c \<noteq> NUL) bytes) fs)"

definition fs_view :: "fixed_string \<Rightarrow> string" where
  "fs_view fs = take (fs_len fs) (fs_data fs)"

definition fs_empty :: "fixed_string \<Rightarrow> bool" where
  "fs_empty fs \<longleftrightarrow> fs_len fs = 0"

fun memcmp :: "char list \<Rightarrow> char list \<Rightarrow> nat \<Rightarrow> int" where
  "memcmp (x # xs) (y # ys) (Suc n) =
     (if (of_char x :: nat) < of_char y then - 1
      else if (of_char y :: nat) < of_char x then 1
      else memcmp xs ys n)"
| "memcmp _ _ _ = 0"

definition fs_eq :: "fixed_string \<Rightarrow> fixed_string \<Rightarrow> bool" where
  "fs_eq a b \<longleftrightarrow> fs_len a = fs_len b \<and> memcmp (fs_data a) (fs_data b) (fs_len a) = 0"

definition fs_less :: "fixed_string \<Rightarrow> fixed_string \<Rightarrow> bool" where
  "fs_less a b =
     (let cmp = memcmp (fs_data a) (fs_data b) (min (fs_len a) (fs_len b))
      in cmp < 0 \<or> (cmp = 0 \<and> fs_len a < fs_len b))"

definition fs_wf :: "nat \<Rightarrow> fixed_string \<Rightarrow> bool" where
  "fs_wf N fs \<longleftrightarrow> length (fs_data fs) = N + 1 \<and> fs_len fs \<le> N \<and> fs_data fs ! fs_len fs = NUL"

section \<open>Orders, reports, cancel requests\<close>

record order =
  o_id :: order_id
  o_client_order_id :: order_id
  o_parent_order_id :: order_id
  o_symbol :: symbol
  o_side :: side
  o_type :: order_type
  o_tif :: time_in_force
  o_price :: price
  o_quantity :: quantity
  o_filled :: quantity
  o_remaining :: quantity
  o_avg_fill_price :: price
  o_target_venue :: venue_id
  o_strategy :: routing_strategy
  o_state :: order_state
  o_client_id :: string
  o_create_time :: timestamp
  o_last_update_time :: timestamp
  o_version :: int

definition default_order :: order where
  "default_order =
     \<lparr>o_id = INVALID_ORDER_ID, o_client_order_id = INVALID_ORDER_ID,
      o_parent_order_id = INVALID_ORDER_ID, o_symbol = [], o_side = Buy, o_type = OT_Limit,
      o_tif = TIF_GTC, o_price = INVALID_PRICE, o_quantity = 0, o_filled = 0,
      o_remaining = 0, o_avg_fill_price = 0, o_target_venue = 0, o_strategy = BestPrice,
      o_state = New, o_client_id = [], o_create_time = 0, o_last_update_time = 0,
      o_version = 0\<rparr>"

definition leaves_qty :: "order \<Rightarrow> quantity" where
  "leaves_qty od = i64 (o_quantity od - o_filled od)"

fun terminal_state :: "order_state \<Rightarrow> bool" where
  "terminal_state Filled = True"
| "terminal_state Canceled = True"
| "terminal_state Rejected = True"
| "terminal_state Expired = True"
| "terminal_state _ = False"

fun active_state :: "order_state \<Rightarrow> bool" where
  "active_state New = True"
| "active_state PendingNew = True"
| "active_state Accepted = True"
| "active_state PartiallyFilled = True"
| "active_state PendingCancel = True"
| "active_state PendingReplace = True"
| "active_state _ = False"

definition is_terminal :: "order \<Rightarrow> bool" where "is_terminal od = terminal_state (o_state od)"
definition is_active :: "order \<Rightarrow> bool" where "is_active od = active_state (o_state od)"

record execution_report =
  r_order_id :: order_id
  r_exec_id :: order_id
  r_state :: order_state
  r_last_price :: price
  r_last_quantity :: quantity
  r_avg_price :: price
  r_cum_quantity :: quantity
  r_leaves_quantity :: quantity
  r_venue_id :: venue_id
  r_timestamp :: timestamp
  r_text :: string

record cancel_request =
  c_order_id :: order_id
  c_client_order_id :: order_id
  c_symbol :: symbol
  c_side :: side
  c_timestamp :: timestamp

section \<open>FixedPoint\<close>

text \<open>
  A \<open>FixedPoint<Scale>\<close> is its raw \<open>int64_t\<close>. Products are formed in \<open>__int128\<close> and
  narrowed back. Division by a zero divisor is undefined behaviour and has no value.
\<close>

definition fp_from_double :: "int \<Rightarrow> double \<Rightarrow> int" where
  "fp_from_double scale d =
     to_i64 (dadd (dmul d (of_i64 scale)) (if d \<ge> 0 then 1/2 else - (1/2)))"

definition fp_to_double :: "int \<Rightarrow> int \<Rightarrow> double" where
  "fp_to_double scale a = ddiv (of_i64 a) (of_i64 scale)"

definition fp_add :: "int \<Rightarrow> int \<Rightarrow> int" where "fp_add a b = i64 (a + b)"
definition fp_sub :: "int \<Rightarrow> int \<Rightarrow> int" where "fp_sub a b = i64 (a - b)"
definition fp_neg :: "int \<Rightarrow> int" where "fp_neg a = i64 (- a)"

definition fp_mul :: "int \<Rightarrow> int \<Rightarrow> int \<Rightarrow> int" where
  "fp_mul scale a b = i64 (swrap 128 (a * b) sdiv scale)"

definition fp_div :: "int \<Rightarrow> int \<Rightarrow> int \<Rightarrow> int option" where
  "fp_div scale a b = (if b = 0 then None else Some (i64 (swrap 128 (a * scale) sdiv b)))"

definition price_fixed_scale :: int where "price_fixed_scale = 100000000"
definition fee_rate_scale :: int where "fee_rate_scale = 1000000"

section \<open>FixedString behaves like a truncated string\<close>

lemma fs_init_wf: "fs_wf N (fs_init N)"
  by (simp add: fs_wf_def fs_init_def)

lemma fs_assign_wf:
  assumes "fs_wf N fs" and "N \<le> 255"
  shows "fs_wf N (fs_assign N sv fs)"
  using assms by (auto simp: fs_wf_def fs_assign_def Let_def)

lemma fs_view_assign:
  assumes "fs_wf N fs" and "N \<le> 255"
  shows "fs_view (fs_assign N sv fs) = take N sv"
  using assms by (auto simp: fs_wf_def fs_assign_def fs_view_def Let_def)

lemma fs_clear_wf: "fs_wf N fs \<Longrightarrow> fs_wf N (fs_clear fs)"
  by (simp add: fs_wf_def fs_clear_def)

lemma fs_view_clear: "fs_view (fs_clear fs) = []"
  by (simp add: fs_view_def fs_clear_def)

lemma fs_view_assign_cstr:
  assumes "fs_wf N fs" and "N \<le> 255"
  shows "fs_view (fs_assign_cstr N s fs) =
    (case s of None \<Rightarrow> [] | Some bytes \<Rightarrow> take N (takeWhile (\<lambda>c. c \<noteq> NUL) bytes))"
  using assms by (cases s) (simp_all add: fs_assign_cstr_def fs_view_clear fs_view_assign)

lemma memcmp_eq_0:
  "n \<le> length xs \<Longrightarrow> n \<le> length ys \<Longrightarrow> memcmp xs ys n = 0 \<longleftrightarrow> take n xs = take n ys"
proof (induction xs ys n rule: memcmp.induct)
  case (1 x xs y ys n)
  have "\<not> (of_char x :: nat) < of_char y \<Longrightarrow> \<not> (of_char y :: nat) < of_char x \<Longrightarrow> x = y"
    by (metis linorder_neqE_nat of_char_eq_iff)
  with 1 show ?case by auto
qed auto

lemma fs_eq_view: "fs_wf N a \<Longrightarrow> fs_wf N b \<Longrightarrow> fs_eq a b \<longleftrightarrow> fs_view a = fs_view b"
  unfolding fs_eq_def fs_view_def fs_wf_def
  by (metis (no_types, lifting) le_SucI length_take memcmp_eq_0 min.absorb2 Suc_eq_plus1)

lemma memcmp_lexord:
  "m \<le> length xs \<Longrightarrow> n \<le> length ys \<Longrightarrow>
   (memcmp xs ys (min m n) < 0 \<or> (memcmp xs ys (min m n) = 0 \<and> m < n)) \<longleftrightarrow>
   ord_class.lexordp (map (of_char :: char \<Rightarrow> nat) (take m xs)) (map of_char (take n ys))"
proof (induction xs arbitrary: ys m n)
  case Nil
  then show ?case by (cases n; cases ys) auto
next
  case (Cons x xs)
  show ?case
  proof (cases m)
    case 0
    then show ?thesis using Cons.prems by (cases n; cases ys) auto
  next
    case m: (Suc m')
    show ?thesis
    proof (cases ys)
      case Nil
      with Cons.prems m show ?thesis by simp
    next
      case ys: (Cons y ys')
      then show ?thesis
        using Cons.IH [of m' "n - 1" ys'] Cons.prems m
        by (cases n) (auto simp: nat_neq_iff)
    qed
  qed
qed

lemma fs_less_lexord:
  assumes "fs_wf N a" and "fs_wf N b"
  shows "fs_less a b \<longleftrightarrow>
    ord_class.lexordp (map (of_char :: char \<Rightarrow> nat) (fs_view a)) (map of_char (fs_view b))"
  using memcmp_lexord [of "fs_len a" "fs_data a" "fs_len b" "fs_data b"] assms
  by (simp add: fs_less_def fs_view_def fs_wf_def Let_def)

section \<open>Order predicates\<close>

lemma terminal_iff_not_active: "terminal_state s \<longleftrightarrow> \<not> active_state s"
  by (cases s) auto

lemma is_terminal_iff: "is_terminal od \<longleftrightarrow> \<not> is_active od"
  by (simp add: is_terminal_def is_active_def terminal_iff_not_active)

lemma leaves_qty_nonneg:
  "0 \<le> o_filled od \<Longrightarrow> o_filled od \<le> o_quantity od \<Longrightarrow> in_i64 (o_quantity od) \<Longrightarrow>
   leaves_qty od = o_quantity od - o_filled od"
  by (simp add: leaves_qty_def swrap_id in_srange_def)

section \<open>Prices survive the round trip through double\<close>

lemma to_price_eq_fp: "to_price = fp_from_double PRICE_SCALE"
  by (simp add: to_price_def fp_from_double_def fun_eq_iff)

lemma to_double_eq_fp: "to_double = fp_to_double PRICE_SCALE"
  by (simp add: to_double_def fp_to_double_def fun_eq_iff)

lemma scaled_back_close:
  fixes p s :: int
  assumes p: "\<bar>p\<bar> \<le> 2 ^ 50" and s: "0 < s" and s': "s \<le> 2 ^ 53"
    and d: "d = rnd (of_int p / of_int s)"
  shows "\<bar>dmul d (of_int s) - of_int p\<bar> \<le> 65 / 256"
proof -
  have ps: "\<bar>of_int p :: rat\<bar> \<le> 2 ^ 50"
    using p by (metis of_int_abs of_int_le_iff of_int_numeral of_int_power)
  have "\<bar>d - of_int p / of_int s\<bar> \<le> \<bar>of_int p / of_int s\<bar> / 2 ^ 53"
    unfolding d by (rule rnd_error)
  then have "\<bar>d - of_int p / of_int s\<bar> * of_int s \<le> \<bar>of_int p / of_int s\<bar> / 2 ^ 53 * of_int s"
    using s by (intro mult_right_mono) auto
  also have "\<dots> = \<bar>of_int p\<bar> / 2 ^ 53" using s by (simp add: abs_divide)
  also have "\<dots> \<le> 2 ^ 50 / 2 ^ 53" using ps by (intro divide_right_mono) auto
  also have "\<bar>d - of_int p / of_int s\<bar> * of_int s = \<bar>d * of_int s - of_int p\<bar>"
    using s by (simp add: abs_mult [symmetric] left_diff_distrib abs_mult_pos)
  finally have y: "\<bar>d * of_int s - of_int p\<bar> \<le> 1 / 8" by simp
  then have "\<bar>d * of_int s\<bar> \<le> 2 ^ 50 + 1" using ps by linarith
  from rnd_error_bound [OF this]
  have "\<bar>dmul d (of_int s) - d * of_int s\<bar> \<le> (2 ^ 50 + 1) / 2 ^ 53" by (simp only: dmul_def)
  also have "\<dots> \<le> (33 / 256 :: rat)" by simp
  finally show ?thesis using y by linarith
qed

lemma fp_double_roundtrip:
  assumes p: "\<bar>p\<bar> \<le> 2 ^ 50" and s: "0 < s" and s': "s \<le> 2 ^ 53"
  shows "fp_from_double s (fp_to_double s p) = p"
proof -
  define d where "d = rnd (of_int p / of_int s :: rat)"
  have sc: "of_i64 s = of_int s" using s s' by (simp add: of_i64_exact)
  have pe: "of_i64 p = of_int p" using p by (simp add: of_i64_exact)
  have ps: "\<bar>of_int p :: rat\<bar> \<le> 2 ^ 50"
    using p by (metis of_int_abs of_int_le_iff of_int_numeral of_int_power)
  have close: "\<bar>dmul d (of_int s) - of_int p\<bar> \<le> 65 / 256"
    using scaled_back_close [OF p s s' d_def] .
  have sign: "(0 \<le> d) = (0 \<le> p)"
  proof (cases "0 \<le> p")
    case True
    then show ?thesis using s by (simp add: d_def rnd_nonneg)
  next
    case False
    then have neg: "of_int p / of_int s < (0 :: rat)" using s by (simp add: divide_neg_pos)
    then have "d < 0" using rnd_error [of "of_int p / of_int s"]
      unfolding d_def by (simp add: abs_if split: if_splits) 
    with False show ?thesis by simp
  qed
  define b :: rat where "b = (if 0 \<le> p then 1/2 else - (1/2))"
  have "\<bar>dmul d (of_int s) + b\<bar> \<le> 2 ^ 50 + 1"
    using close ps by (auto simp: b_def abs_if split: if_splits)
  from rnd_error_bound [OF this]
  have r: "\<bar>dadd (dmul d (of_int s)) b - (of_int p + b)\<bar> \<le> 1 / 8 + 1 / 2 ^ 53 + 65 / 256"
    using close by (simp add: dadd_def abs_if split: if_splits)
  have "fp_from_double s (fp_to_double s p) = to_i64 (dadd (dmul d (of_int s)) b)"
    using sign by (simp add: fp_from_double_def fp_to_double_def ddiv_def sc pe d_def b_def)
  also have "\<dots> = p"
  proof (cases "0 \<le> p")
    case True
    then have "of_int p \<le> dadd (dmul d (of_int s)) b" "dadd (dmul d (of_int s)) b < of_int p + 1"
      using r by (auto simp: b_def abs_if split: if_splits)
    moreover have "(0::rat) \<le> of_int p" using True by simp
    ultimately show ?thesis by (intro to_i64_eqI_nonneg) auto
  next
    case False
    then have "of_int p - 1 < dadd (dmul d (of_int s)) b" "dadd (dmul d (of_int s)) b < of_int p"
      using r by (auto simp: b_def abs_if split: if_splits)
    moreover have "of_int p < (0::rat)" using False by simp
    ultimately show ?thesis by (intro to_i64_eqI_neg) auto
  qed
  finally show ?thesis .
qed

section \<open>Fixed-point arithmetic\<close>

lemma i64_product_in_i128: "in_i64 a \<Longrightarrow> in_i64 b \<Longrightarrow> in_srange 128 (a * b)"
proof -
  assume "in_i64 a" and "in_i64 b"
  then have "\<bar>a\<bar> \<le> 2 ^ 63" and "\<bar>b\<bar> \<le> 2 ^ 63" by (auto simp: in_srange_def)
  then have "\<bar>a\<bar> * \<bar>b\<bar> \<le> 2 ^ 63 * 2 ^ 63" by (intro mult_mono) auto
  then show ?thesis by (simp add: abs_mult [symmetric] in_srange_def abs_le_iff)
qed

lemma fp_mul_exact: "in_i64 a \<Longrightarrow> in_i64 b \<Longrightarrow> fp_mul s a b = i64 ((a * b) sdiv s)"
  by (simp add: fp_mul_def swrap_id i64_product_in_i128)

lemma fp_mul_commute: "fp_mul s a b = fp_mul s b a"
  by (simp add: fp_mul_def mult.commute)

lemma fp_sub_add_cancel: "in_i64 a \<Longrightarrow> fp_sub (fp_add a b) b = a"
  by (simp add: fp_sub_def fp_add_def swrap_swrap_diff swrap_id)

section \<open>Properties\<close>

text \<open>
  C31: \<open>FixedString<N>\<close> behaves as a string truncated to \<open>N\<close> bytes: after \<open>assign\<close> its view is the
  prefix of the argument, and its \<open>operator==\<close> and \<open>operator<\<close> compare two such prefixes as
  strings, in lexicographic order of unsigned bytes, whatever the buffers held before.
\<close>

theorem fixed_string_order:
  assumes "fs_wf N a" and "fs_wf N b" and "N \<le> 255"
    and "a' = fs_assign N s a" and "b' = fs_assign N t b"
  shows "fs_view a' = take N s \<and> (fs_eq a' b' \<longleftrightarrow> take N s = take N t) \<and>
    (fs_less a' b' \<longleftrightarrow>
       ord_class.lexordp (map (of_char :: char \<Rightarrow> nat) (take N s)) (map of_char (take N t)))"
proof -
  have "fs_wf N a'" and "fs_wf N b'" using assms by (simp_all add: fs_assign_wf)
  moreover have "fs_view a' = take N s" and "fs_view b' = take N t"
    using assms by (simp_all add: fs_view_assign)
  ultimately show ?thesis by (simp add: fs_eq_view [of N] fs_less_lexord [of N])
qed

theorem fixed_string_order_witness:
  "fs_eq (fs_assign 4 ''AAPLX'' (fs_init 4)) (fs_assign 4 ''AAPLY'' (fs_assign 4 ''ZZ'' (fs_init 4)))"
  using fixed_string_order [of 4 "fs_init 4" "fs_assign 4 ''ZZ'' (fs_init 4)" _ "''AAPLX''" _ "''AAPLY''"]
  by (simp add: fs_init_wf fs_assign_wf)

text \<open>
  a price of magnitude at most \<open>2 ^ 50\<close> survives \<open>to_double\<close> followed by \<open>to_price\<close>, although
  the division and the multiplication each round to a 53-bit mantissa; so does a raw
  \<open>FixedPoint\<close> value of any scale up to \<open>2 ^ 53\<close>.
\<close>

theorem price_double_roundtrip:
  assumes "\<bar>p\<bar> \<le> 2 ^ 50" and "0 < s" and "s \<le> 2 ^ 53"
  shows "to_price (to_double p) = p \<and> fp_from_double s (fp_to_double s p) = p"
  using assms by (simp add: to_price_eq_fp to_double_eq_fp fp_double_roundtrip PRICE_SCALE_def)

theorem price_double_roundtrip_witness:
  "to_price (to_double 15012345678) = 15012345678 \<and>
   fp_from_double fee_rate_scale (fp_to_double fee_rate_scale 15012345678) = 15012345678"
  using price_double_roundtrip [of 15012345678 fee_rate_scale] by (simp add: fee_rate_scale_def)

end
