(* ===== verification/Risk.thy ===== *)
theory Risk
  imports Core_Types
begin

text \<open>
  Pre-trade risk, from \<open>risk/kill_switch\<close>, \<open>risk/rate_limiter\<close> and \<open>risk/risk_manager\<close>
  (\<open>.h\<close> and \<open>.cpp\<close>).

  Each class is a record and each method a function on it. Callbacks of the kill switch
  are numbered; an empty \<open>std::function\<close> is \<open>None\<close>; \<open>ks_activate\<close> returns the calls it
  makes. A method that reads the clock takes the whole second \<open>now_sec\<close>, or the time
  point. Arithmetic on prices, quantities and counters is \<open>i64\<close> or \<open>i32\<close>; the product in
  \<open>wide_mul_div\<close> is formed in \<open>__int128\<close>.

  \<open>risk_inv\<close> is what the manager keeps about the positions: open-order counts and pending
  quantities never become negative. The lemmas characterise the verdict of \<open>check_order\<close>
  branch by branch, bound the rate limiter's admissions per window and relate \<open>on_fill\<close> to
  the position's signed quantity and profit.
\<close>

section \<open>Kill switch\<close>

record kill_switch =
  ks_active :: bool
  ks_reason :: string
  ks_callbacks :: "nat option list"

definition ks_new :: kill_switch where
  "ks_new = \<lparr>ks_active = False, ks_reason = [], ks_callbacks = []\<rparr>"

definition ks_activate :: "string \<Rightarrow> kill_switch \<Rightarrow> (nat \<times> string) list \<times> kill_switch" where
  "ks_activate reason ks =
     (map (\<lambda>cb. (the cb, reason)) (filter (\<lambda>cb. cb \<noteq> None) (ks_callbacks ks)),
      ks\<lparr>ks_reason := reason, ks_active := True\<rparr>)"

definition ks_deactivate :: "kill_switch \<Rightarrow> kill_switch" where
  "ks_deactivate ks = ks\<lparr>ks_active := False\<rparr>"

definition ks_is_active :: "kill_switch \<Rightarrow> bool" where "ks_is_active ks = ks_active ks"

definition ks_get_reason :: "kill_switch \<Rightarrow> string" where "ks_get_reason ks = ks_reason ks"

definition ks_on_activate :: "nat option \<Rightarrow> kill_switch \<Rightarrow> kill_switch" where
  "ks_on_activate cb ks = ks\<lparr>ks_callbacks := ks_callbacks ks @ [cb]\<rparr>"

section \<open>Rate limiter\<close>

record rate_limiter =
  rl_max :: int
  rl_count :: int
  rl_window_start :: int

definition rl_new :: "int \<Rightarrow> int \<Rightarrow> rate_limiter" where
  "rl_new max_per_second now_sec =
     \<lparr>rl_max = max_per_second, rl_count = 0, rl_window_start = now_sec\<rparr>"

definition rl_try_acquire :: "int \<Rightarrow> rate_limiter \<Rightarrow> bool \<times> rate_limiter" where
  "rl_try_acquire now_sec rl =
     (if now_sec > rl_window_start rl
      then (True, rl\<lparr>rl_window_start := now_sec, rl_count := 1\<rparr>)
      else let prev = rl_count rl; rl' = rl\<lparr>rl_count := i32 (prev + 1)\<rparr>
           in if prev \<ge> rl_max rl
              then (False, rl'\<lparr>rl_count := i32 (rl_count rl' - 1)\<rparr>)
              else (True, rl'))"

definition rl_reset :: "int \<Rightarrow> rate_limiter \<Rightarrow> rate_limiter" where
  "rl_reset now_sec rl = rl\<lparr>rl_count := 0, rl_window_start := now_sec\<rparr>"

definition rl_set_max_rate :: "int \<Rightarrow> int \<Rightarrow> rate_limiter \<Rightarrow> rate_limiter" where
  "rl_set_max_rate max_per_second now_sec rl = rl_reset now_sec (rl\<lparr>rl_max := max_per_second\<rparr>)"

section \<open>Risk manager\<close>

record risk_limits =
  lim_max_order_quantity :: quantity
  lim_max_order_notional :: price
  lim_max_position_notional :: price
  lim_max_position_quantity :: quantity
  lim_max_orders_per_second :: int
  lim_max_open_orders :: int
  lim_max_loss :: price
  lim_enabled :: bool

definition default_limits :: risk_limits where
  "default_limits = \<lparr>lim_max_order_quantity = 0, lim_max_order_notional = 0,
     lim_max_position_notional = 0, lim_max_position_quantity = 0,
     lim_max_orders_per_second = 0, lim_max_open_orders = 0, lim_max_loss = 0,
     lim_enabled = True\<rparr>"

record position_info =
  pos_net :: quantity
  pos_avg_entry :: price
  pos_realized :: price
  pos_unrealized :: price
  pos_open_orders :: int
  pos_pending_buy :: quantity
  pos_pending_sell :: quantity

definition default_position :: position_info where
  "default_position = \<lparr>pos_net = 0, pos_avg_entry = 0, pos_realized = 0, pos_unrealized = 0,
     pos_open_orders = 0, pos_pending_buy = 0, pos_pending_sell = 0\<rparr>"

datatype risk_result =
    Passed | FailedMaxOrderQuantity | FailedMaxOrderNotional | FailedMaxPositionNotional
  | FailedMaxPositionQuantity | FailedMaxOrdersPerSecond | FailedMaxOpenOrders | FailedMaxLoss
  | FailedKillSwitch | FailedRateLimit | FailedSymbolNotAllowed

record risk_manager =
  rm_global :: risk_limits
  rm_symbol_limits :: "symbol \<rightharpoonup> risk_limits"
  rm_positions :: "symbol \<rightharpoonup> position_info"
  rm_kill :: kill_switch
  rm_rate :: rate_limiter

definition rm_new :: "int \<Rightarrow> risk_manager" where
  "rm_new now_sec = \<lparr>rm_global = default_limits, rm_symbol_limits = Map.empty,
     rm_positions = Map.empty, rm_kill = ks_new, rm_rate = rl_new 10000 now_sec\<rparr>"

definition wide_mul_div :: "int \<Rightarrow> int \<Rightarrow> int \<Rightarrow> price" where
  "wide_mul_div a b divisor = i64 (swrap 128 (a * b) sdiv divisor)"

text \<open>\<open>positions_[symbol]\<close> default-constructs a missing entry.\<close>

definition get_or_create :: "risk_manager \<Rightarrow> symbol \<Rightarrow> position_info" where
  "get_or_create rm symb =
     (case rm_positions rm symb of None \<Rightarrow> default_position | Some p \<Rightarrow> p)"

definition put_position :: "symbol \<Rightarrow> position_info \<Rightarrow> risk_manager \<Rightarrow> risk_manager" where
  "put_position symb p rm = rm\<lparr>rm_positions := (rm_positions rm)(symb \<mapsto> p)\<rparr>"

definition signed_delta :: "side \<Rightarrow> quantity \<Rightarrow> quantity" where
  "signed_delta s q = (if s = Buy then q else i64 (- q))"

definition projected_quantity :: "order \<Rightarrow> position_info \<Rightarrow> quantity" where
  "projected_quantity od pos =
     (let pending = (if o_side od = Buy then pos_pending_buy pos else pos_pending_sell pos);
          order_delta = signed_delta (o_side od) (o_quantity od)
      in i64 (i64 (pos_net pos + order_delta) + signed_delta (o_side od) pending))"

definition check_limits :: "order \<Rightarrow> risk_limits \<Rightarrow> position_info \<Rightarrow> risk_result" where
  "check_limits od lm pos =
     (if \<not> lim_enabled lm then Passed
      else if lim_max_order_quantity lm > 0 \<and> o_quantity od > lim_max_order_quantity lm
        then FailedMaxOrderQuantity
      else if lim_max_order_notional lm > 0 \<and> o_price od \<noteq> INVALID_PRICE \<and>
              wide_mul_div (o_price od) (o_quantity od) PRICE_SCALE > lim_max_order_notional lm
        then FailedMaxOrderNotional
      else if lim_max_position_quantity lm > 0 \<and>
              i64 \<bar>projected_quantity od pos\<bar> > lim_max_position_quantity lm
        then FailedMaxPositionQuantity
      else if lim_max_position_notional lm > 0 \<and> o_price od \<noteq> INVALID_PRICE \<and>
              wide_mul_div
                (i64 \<bar>i64 (pos_net pos + signed_delta (o_side od) (o_quantity od))\<bar>)
                (o_price od) PRICE_SCALE > lim_max_position_notional lm
        then FailedMaxPositionNotional
      else if lim_max_open_orders lm > 0 \<and> pos_open_orders pos \<ge> lim_max_open_orders lm
        then FailedMaxOpenOrders
      else if lim_max_loss lm > 0 \<and>
              (let total_pnl = i64 (pos_realized pos + pos_unrealized pos)
               in total_pnl < 0 \<and> i64 (- total_pnl) > lim_max_loss lm)
        then FailedMaxLoss
      else Passed)"

definition check_order :: "int \<Rightarrow> order \<Rightarrow> risk_manager \<Rightarrow> risk_result \<times> risk_manager" where
  "check_order now_sec od rm =
     (if ks_is_active (rm_kill rm) then (FailedKillSwitch, rm)
      else
        let (acquired, rm1) =
              (if lim_max_orders_per_second (rm_global rm) > 0
               then let (ok, rl) = rl_try_acquire now_sec (rm_rate rm) in (ok, rm\<lparr>rm_rate := rl\<rparr>)
               else (True, rm))
        in if \<not> acquired then (FailedRateLimit, rm1)
           else
             let pos = get_or_create rm1 (o_symbol od);
                 rm2 = put_position (o_symbol od) pos rm1;
                 result = check_limits od (rm_global rm2) pos
             in if result \<noteq> Passed then (result, rm2)
                else case rm_symbol_limits rm2 (o_symbol od) of
                       None \<Rightarrow> (Passed, rm2)
                     | Some lm \<Rightarrow> (check_limits od lm pos, rm2))"

definition fill_realized :: "side \<Rightarrow> quantity \<Rightarrow> price \<Rightarrow> position_info \<Rightarrow> bool \<Rightarrow> position_info" where
  "fill_realized s qty price pos reducing =
     (if reducing \<and> pos_avg_entry pos \<noteq> 0
      then let close_qty = min (i64 \<bar>signed_delta s qty\<bar>) (i64 \<bar>pos_net pos\<bar>);
               pnl_per_unit = (if pos_net pos > 0 then i64 (price - pos_avg_entry pos)
                               else i64 (pos_avg_entry pos - price))
           in pos\<lparr>pos_realized :=
                i64 (pos_realized pos + wide_mul_div pnl_per_unit close_qty PRICE_SCALE)\<rparr>
      else pos)"

definition fill_entry :: "side \<Rightarrow> quantity \<Rightarrow> price \<Rightarrow> position_info \<Rightarrow> bool \<Rightarrow> position_info" where
  "fill_entry s qty price pos reducing =
     (let signed_qty = signed_delta s qty
      in if \<not> reducing \<or> i64 \<bar>signed_qty\<bar> > i64 \<bar>pos_net pos\<bar>
         then let new_open_qty = i64 \<bar>i64 (pos_net pos + signed_qty)\<bar>
              in if new_open_qty > 0
                 then if i64 \<bar>pos_net pos\<bar> > 0 \<and> \<not> reducing
                      then let existing_abs = i64 \<bar>pos_net pos\<bar>;
                               total = i64 (existing_abs + qty)
                           in pos\<lparr>pos_avg_entry :=
                                i64 (wide_mul_div (pos_avg_entry pos) existing_abs total +
                                     wide_mul_div price qty total)\<rparr>
                      else pos\<lparr>pos_avg_entry := price\<rparr>
                 else pos\<lparr>pos_avg_entry := 0\<rparr>
         else pos)"

definition fill_position :: "side \<Rightarrow> quantity \<Rightarrow> price \<Rightarrow> position_info \<Rightarrow> position_info" where
  "fill_position s qty price pos =
     (let reducing = (pos_net pos > 0 \<and> s = Sell) \<or> (pos_net pos < 0 \<and> s = Buy);
          pos1 = fill_realized s qty price pos reducing;
          pos2 = fill_entry s qty price pos1 reducing;
          pos3 = pos2\<lparr>pos_net := i64 (pos_net pos2 + signed_delta s qty)\<rparr>
      in if s = Buy
         then pos3\<lparr>pos_pending_buy := max 0 (i64 (pos_pending_buy pos3 - qty))\<rparr>
         else pos3\<lparr>pos_pending_sell := max 0 (i64 (pos_pending_sell pos3 - qty))\<rparr>)"

definition on_fill :: "symbol \<Rightarrow> side \<Rightarrow> quantity \<Rightarrow> price \<Rightarrow> risk_manager \<Rightarrow> risk_manager" where
  "on_fill symb s qty price rm =
     put_position symb (fill_position s qty price (get_or_create rm symb)) rm"

definition on_order_accepted :: "order \<Rightarrow> risk_manager \<Rightarrow> risk_manager" where
  "on_order_accepted od rm =
     (let pos = get_or_create rm (o_symbol od);
          pos1 = pos\<lparr>pos_open_orders := i32 (pos_open_orders pos + 1)\<rparr>
      in put_position (o_symbol od)
           (if o_side od = Buy
            then pos1\<lparr>pos_pending_buy := i64 (pos_pending_buy pos1 + o_quantity od)\<rparr>
            else pos1\<lparr>pos_pending_sell := i64 (pos_pending_sell pos1 + o_quantity od)\<rparr>) rm)"

definition release_order :: "order \<Rightarrow> quantity \<Rightarrow> risk_manager \<Rightarrow> risk_manager" where
  "release_order od qty rm =
     (let pos = get_or_create rm (o_symbol od);
          pos1 = pos\<lparr>pos_open_orders := max 0 (i32 (pos_open_orders pos - 1))\<rparr>
      in put_position (o_symbol od)
           (if o_side od = Buy
            then pos1\<lparr>pos_pending_buy := max 0 (i64 (pos_pending_buy pos1 - qty))\<rparr>
            else pos1\<lparr>pos_pending_sell := max 0 (i64 (pos_pending_sell pos1 - qty))\<rparr>) rm)"

definition on_order_canceled :: "order \<Rightarrow> risk_manager \<Rightarrow> risk_manager" where
  "on_order_canceled od rm = release_order od (i64 (o_quantity od - o_filled od)) rm"

definition on_order_rejected :: "order \<Rightarrow> risk_manager \<Rightarrow> risk_manager" where
  "on_order_rejected od rm = release_order od (o_quantity od) rm"

definition set_global_limits :: "int \<Rightarrow> risk_limits \<Rightarrow> risk_manager \<Rightarrow> risk_manager" where
  "set_global_limits now_sec lm rm =
     (let rm1 = rm\<lparr>rm_global := lm\<rparr>
      in if lim_max_orders_per_second lm > 0
         then rm1\<lparr>rm_rate := rl_set_max_rate (lim_max_orders_per_second lm) now_sec (rm_rate rm1)\<rparr>
         else rm1)"

definition set_symbol_limits :: "symbol \<Rightarrow> risk_limits \<Rightarrow> risk_manager \<Rightarrow> risk_manager" where
  "set_symbol_limits symb lm rm = rm\<lparr>rm_symbol_limits := (rm_symbol_limits rm)(symb \<mapsto> lm)\<rparr>"

definition get_position :: "symbol \<Rightarrow> risk_manager \<Rightarrow> position_info" where
  "get_position symb rm =
     (case rm_positions rm symb of Some p \<Rightarrow> p | None \<Rightarrow> default_position)"

definition activate_kill_switch :: "risk_manager \<Rightarrow> (nat \<times> string) list \<times> risk_manager" where
  "activate_kill_switch rm =
     (let (calls, ks) = ks_activate ''Manual kill switch activation'' (rm_kill rm)
      in (calls, rm\<lparr>rm_kill := ks\<rparr>))"

definition deactivate_kill_switch :: "risk_manager \<Rightarrow> risk_manager" where
  "deactivate_kill_switch rm = rm\<lparr>rm_kill := ks_deactivate (rm_kill rm)\<rparr>"

definition is_kill_switch_active :: "risk_manager \<Rightarrow> bool" where
  "is_kill_switch_active rm = ks_is_active (rm_kill rm)"

definition check_rate_limit :: "int \<Rightarrow> risk_manager \<Rightarrow> bool \<times> risk_manager" where
  "check_rate_limit now_sec rm =
     (let (ok, rl) = rl_try_acquire now_sec (rm_rate rm) in (ok, rm\<lparr>rm_rate := rl\<rparr>))"

fun risk_result_to_string :: "risk_result \<Rightarrow> string" where
  "risk_result_to_string Passed = ''Passed''"
| "risk_result_to_string FailedMaxOrderQuantity = ''FailedMaxOrderQuantity''"
| "risk_result_to_string FailedMaxOrderNotional = ''FailedMaxOrderNotional''"
| "risk_result_to_string FailedMaxPositionNotional = ''FailedMaxPositionNotional''"
| "risk_result_to_string FailedMaxPositionQuantity = ''FailedMaxPositionQuantity''"
| "risk_result_to_string FailedMaxOrdersPerSecond = ''FailedMaxOrdersPerSecond''"
| "risk_result_to_string FailedMaxOpenOrders = ''FailedMaxOpenOrders''"
| "risk_result_to_string FailedMaxLoss = ''FailedMaxLoss''"
| "risk_result_to_string FailedKillSwitch = ''FailedKillSwitch''"
| "risk_result_to_string FailedRateLimit = ''FailedRateLimit''"
| "risk_result_to_string FailedSymbolNotAllowed = ''FailedSymbolNotAllowed''"

section \<open>The manager as a transition system\<close>

datatype risk_cmd =
    RC_Check int order | RC_Fill symbol side quantity price | RC_Accept order | RC_Cancel order
  | RC_Reject order | RC_SetGlobal int risk_limits | RC_SetSymbol symbol risk_limits
  | RC_Kill | RC_Unkill | RC_Rate int

fun risk_step :: "risk_cmd \<Rightarrow> risk_manager \<Rightarrow> risk_manager" where
  "risk_step (RC_Check now od) rm = snd (check_order now od rm)"
| "risk_step (RC_Fill symb s qty price) rm = on_fill symb s qty price rm"
| "risk_step (RC_Accept od) rm = on_order_accepted od rm"
| "risk_step (RC_Cancel od) rm = on_order_canceled od rm"
| "risk_step (RC_Reject od) rm = on_order_rejected od rm"
| "risk_step (RC_SetGlobal now lm) rm = set_global_limits now lm rm"
| "risk_step (RC_SetSymbol symb lm) rm = set_symbol_limits symb lm rm"
| "risk_step RC_Kill rm = snd (activate_kill_switch rm)"
| "risk_step RC_Unkill rm = deactivate_kill_switch rm"
| "risk_step (RC_Rate now) rm = snd (check_rate_limit now rm)"

text \<open>An accepted order must not overflow the counters it is added to.\<close>

fun risk_ok :: "risk_cmd \<Rightarrow> risk_manager \<Rightarrow> bool" where
  "risk_ok (RC_Accept od) rm =
     (let p = get_or_create rm (o_symbol od)
      in 0 \<le> o_quantity od \<and> pos_pending_buy p + o_quantity od < 2 ^ 63 \<and>
         pos_pending_sell p + o_quantity od < 2 ^ 63 \<and> pos_open_orders p + 1 < 2 ^ 31)"
| "risk_ok _ rm = True"

definition position_ok :: "position_info \<Rightarrow> bool" where
  "position_ok p \<longleftrightarrow> 0 \<le> pos_open_orders p \<and> pos_open_orders p < 2 ^ 31 \<and>
     0 \<le> pos_pending_buy p \<and> pos_pending_buy p < 2 ^ 63 \<and>
     0 \<le> pos_pending_sell p \<and> pos_pending_sell p < 2 ^ 63"

definition risk_inv :: "risk_manager \<Rightarrow> bool" where
  "risk_inv rm \<longleftrightarrow> (\<forall>symb. position_ok (get_or_create rm symb))"

text \<open>The verdict in exact arithmetic: what a set of limits demands of an order.\<close>

definition exact_delta :: "side \<Rightarrow> int \<Rightarrow> int" where
  "exact_delta s q = (if s = Buy then q else - q)"

definition within_limits :: "order \<Rightarrow> risk_limits \<Rightarrow> position_info \<Rightarrow> bool" where
  "within_limits od lm pos =
     (let pending = (if o_side od = Buy then pos_pending_buy pos else pos_pending_sell pos);
          after = pos_net pos + exact_delta (o_side od) (o_quantity od);
          priced = o_price od \<noteq> INVALID_PRICE
      in lim_enabled lm \<longrightarrow>
         (lim_max_order_quantity lm > 0 \<longrightarrow> o_quantity od \<le> lim_max_order_quantity lm) \<and>
         (lim_max_order_notional lm > 0 \<and> priced \<longrightarrow>
            (o_price od * o_quantity od) sdiv PRICE_SCALE \<le> lim_max_order_notional lm) \<and>
         (lim_max_position_quantity lm > 0 \<longrightarrow>
            \<bar>after + exact_delta (o_side od) pending\<bar> \<le> lim_max_position_quantity lm) \<and>
         (lim_max_position_notional lm > 0 \<and> priced \<longrightarrow>
            (\<bar>after\<bar> * o_price od) sdiv PRICE_SCALE \<le> lim_max_position_notional lm) \<and>
         (lim_max_open_orders lm > 0 \<longrightarrow> pos_open_orders pos < lim_max_open_orders lm) \<and>
         (lim_max_loss lm > 0 \<longrightarrow> - (pos_realized pos + pos_unrealized pos) \<le> lim_max_loss lm))"

text \<open>Magnitudes at which none of the 64-bit computations of \<open>check_limits\<close> overflows.\<close>

definition risk_range :: "order \<Rightarrow> position_info \<Rightarrow> bool" where
  "risk_range od pos \<longleftrightarrow>
     \<bar>o_quantity od\<bar> < 2 ^ 61 \<and> \<bar>pos_net pos\<bar> < 2 ^ 61 \<and>
     \<bar>pos_pending_buy pos\<bar> < 2 ^ 61 \<and> \<bar>pos_pending_sell pos\<bar> < 2 ^ 61 \<and>
     \<bar>pos_realized pos\<bar> < 2 ^ 62 \<and> \<bar>pos_unrealized pos\<bar> < 2 ^ 62 \<and>
     (o_price od \<noteq> INVALID_PRICE \<longrightarrow>
        \<bar>o_price od\<bar> * (\<bar>pos_net pos\<bar> + \<bar>o_quantity od\<bar>) < 2 ^ 63 * PRICE_SCALE)"

fun rl_run :: "int list \<Rightarrow> rate_limiter \<Rightarrow> bool list \<times> rate_limiter" where
  "rl_run [] rl = ([], rl)"
| "rl_run (t # ts) rl =
     (let (ok, rl1) = rl_try_acquire t rl; (oks, rl2) = rl_run ts rl1 in (ok # oks, rl2))"

definition admitted :: "int \<Rightarrow> int list \<Rightarrow> bool list \<Rightarrow> nat" where
  "admitted sec ts oks = length (filter (\<lambda>(t, ok). t = sec \<and> ok) (zip ts oks))"

section \<open>Wide multiplication\<close>

lemma wide_mul_div_exact:
  assumes "0 < d" and "d < 2 ^ 63" and "\<bar>a * b\<bar> < 2 ^ 63 * d"
  shows "wide_mul_div a b d = (a * b) sdiv d"
proof -
  have "\<bar>a * b\<bar> < 2 ^ 63 * 2 ^ 63" using assms by simp
  then have "swrap 128 (a * b) = a * b"
    by (intro swrap_id) (auto simp: in_srange_def)
  moreover have "in_i64 ((a * b) sdiv d)"
  proof -
    have "\<bar>(a * b) sdiv d\<bar> = \<bar>a * b\<bar> div d"
      using assms(1) by (auto simp: signed_divide_int_def abs_mult sgn_if pos_imp_zdiv_nonneg_iff)
    also have "\<dots> < 2 ^ 63"
    proof -
      have "\<bar>a * b\<bar> div d * d \<le> \<bar>a * b\<bar>"
        using assms(1) by (simp add: minus_mod_eq_div_mult [symmetric])
      with assms(3) have "\<bar>a * b\<bar> div d * d < 2 ^ 63 * d" by linarith
      then show ?thesis using assms(1) by (simp only: mult_less_cancel_right_pos)
    qed
    finally show ?thesis by (auto simp: in_srange_def)
  qed
  ultimately show ?thesis by (simp add: wide_mul_div_def swrap_id)
qed

section \<open>The verdict is the exact one\<close>

lemma abs_exact_delta [simp]: "\<bar>exact_delta s q\<bar> = \<bar>q\<bar>"
  by (simp add: exact_delta_def)

lemma signed_delta_exact: "\<bar>q\<bar> < 2 ^ 61 \<Longrightarrow> signed_delta s q = exact_delta s q"
  by (auto simp: signed_delta_def exact_delta_def intro!: i64_small)

lemma after_magnitude: "\<bar>pos_net pos + exact_delta s q\<bar> \<le> \<bar>pos_net pos\<bar> + \<bar>q\<bar>"
  by (metis abs_exact_delta abs_triangle_ineq)

lemma position_after_exact:
  assumes "risk_range od pos"
  shows "i64 (pos_net pos + signed_delta (o_side od) (o_quantity od)) =
     pos_net pos + exact_delta (o_side od) (o_quantity od)"
proof -
  have "\<bar>pos_net pos + exact_delta (o_side od) (o_quantity od)\<bar> < 2 ^ 62"
    using after_magnitude [of pos "o_side od" "o_quantity od"] assms by (simp add: risk_range_def)
  then show ?thesis
    using assms by (simp add: risk_range_def signed_delta_exact i64_small)
qed

lemma projected_exact:
  fixes od :: order and pos :: position_info
  assumes "risk_range od pos"
  defines "pending \<equiv> (if o_side od = Buy then pos_pending_buy pos else pos_pending_sell pos)"
  defines "after \<equiv> pos_net pos + exact_delta (o_side od) (o_quantity od)"
  shows "projected_quantity od pos = after + exact_delta (o_side od) pending"
    and "\<bar>projected_quantity od pos\<bar> < 2 ^ 63"
proof -
  have p: "\<bar>pending\<bar> < 2 ^ 61" using assms(1) by (simp add: risk_range_def pending_def)
  have a: "\<bar>after\<bar> < 2 ^ 62"
    using after_magnitude [of pos "o_side od" "o_quantity od"] assms(1)
    by (simp add: risk_range_def after_def)
  have small: "\<bar>after + exact_delta (o_side od) pending\<bar> < 2 ^ 63"
    using a p abs_triangle_ineq [of after "exact_delta (o_side od) pending"] by simp
  have "projected_quantity od pos =
        i64 (i64 (pos_net pos + signed_delta (o_side od) (o_quantity od)) +
             signed_delta (o_side od) pending)"
    by (simp add: projected_quantity_def pending_def Let_def)
  also have "\<dots> = i64 (after + exact_delta (o_side od) pending)"
    using p by (simp add: position_after_exact [OF assms(1)] signed_delta_exact after_def)
  also have "\<dots> = after + exact_delta (o_side od) pending"
    using small by (intro i64_small) simp
  finally show "projected_quantity od pos = after + exact_delta (o_side od) pending" .
  with small show "\<bar>projected_quantity od pos\<bar> < 2 ^ 63" by simp
qed

lemma order_notional_exact:
  assumes "risk_range od pos" and "o_price od \<noteq> INVALID_PRICE"
  shows "wide_mul_div (o_price od) (o_quantity od) PRICE_SCALE =
         (o_price od * o_quantity od) sdiv PRICE_SCALE"
proof (rule wide_mul_div_exact)
  have "\<bar>o_price od\<bar> * \<bar>o_quantity od\<bar> \<le> \<bar>o_price od\<bar> * (\<bar>pos_net pos\<bar> + \<bar>o_quantity od\<bar>)"
    by (intro mult_left_mono) auto
  then show "\<bar>o_price od * o_quantity od\<bar> < 2 ^ 63 * PRICE_SCALE"
    using assms by (simp add: risk_range_def abs_mult)
qed (simp_all add: PRICE_SCALE_def)

lemma position_notional_exact:
  assumes "risk_range od pos" and "o_price od \<noteq> INVALID_PRICE"
  defines "after \<equiv> pos_net pos + exact_delta (o_side od) (o_quantity od)"
  shows "wide_mul_div (i64 \<bar>after\<bar>) (o_price od) PRICE_SCALE =
         (\<bar>after\<bar> * o_price od) sdiv PRICE_SCALE"
proof -
  have small: "\<bar>after\<bar> \<le> \<bar>pos_net pos\<bar> + \<bar>o_quantity od\<bar>"
    unfolding after_def by (rule after_magnitude)
  then have "i64 \<bar>after\<bar> = \<bar>after\<bar>"
    using assms(1) by (intro swrap_id) (auto simp: risk_range_def i64_range)
  moreover have "\<bar>o_price od\<bar> * \<bar>after\<bar> \<le> \<bar>o_price od\<bar> * (\<bar>pos_net pos\<bar> + \<bar>o_quantity od\<bar>)"
    using small by (intro mult_left_mono) auto
  then have "\<bar>\<bar>after\<bar> * o_price od\<bar> < 2 ^ 63 * PRICE_SCALE"
    using assms(1,2) by (simp add: risk_range_def abs_mult mult.commute)
  ultimately show ?thesis by (simp add: wide_mul_div_exact PRICE_SCALE_def)
qed

lemma loss_exact:
  assumes "risk_range od pos" and "0 < m"
  shows "(let t = i64 (pos_realized pos + pos_unrealized pos) in t < 0 \<and> i64 (- t) > m) \<longleftrightarrow>
         - (pos_realized pos + pos_unrealized pos) > m"
proof -
  define t where "t = pos_realized pos + pos_unrealized pos"
  have "\<bar>t\<bar> < 2 ^ 63"
    using abs_triangle_ineq [of "pos_realized pos" "pos_unrealized pos"] assms(1)
    by (simp add: t_def risk_range_def)
  then have "i64 t = t" and "i64 (- t) = - t" by (simp_all add: i64_small)
  then show ?thesis using assms(2) by (auto simp: t_def [symmetric] Let_def)
qed

lemma verdict_chain:
  "(if \<not> e then Passed else if b1 then FailedMaxOrderQuantity else if b2 then FailedMaxOrderNotional
    else if b3 then FailedMaxPositionQuantity else if b4 then FailedMaxPositionNotional
    else if b5 then FailedMaxOpenOrders else if b6 then FailedMaxLoss else Passed) = Passed \<longleftrightarrow>
   (e \<longrightarrow> \<not> b1 \<and> \<not> b2 \<and> \<not> b3 \<and> \<not> b4 \<and> \<not> b5 \<and> \<not> b6)"
  by simp

lemma check_limits_iff:
  assumes "risk_range od pos"
  shows "check_limits od lm pos = Passed \<longleftrightarrow> within_limits od lm pos"
proof -
  have abs: "i64 \<bar>projected_quantity od pos\<bar> = \<bar>projected_quantity od pos\<bar>"
    using projected_exact(2) [OF assms] by (intro i64_small) simp
  have n: "o_price od \<noteq> INVALID_PRICE \<and>
        wide_mul_div (o_price od) (o_quantity od) PRICE_SCALE > M \<longleftrightarrow>
      o_price od \<noteq> INVALID_PRICE \<and> (o_price od * o_quantity od) sdiv PRICE_SCALE > M" for M
    using order_notional_exact [OF assms] by (cases "o_price od = INVALID_PRICE") simp_all
  have pn: "o_price od \<noteq> INVALID_PRICE \<and>
        wide_mul_div (i64 \<bar>pos_net pos + exact_delta (o_side od) (o_quantity od)\<bar>) (o_price od)
          PRICE_SCALE > M \<longleftrightarrow>
      o_price od \<noteq> INVALID_PRICE \<and>
        (\<bar>pos_net pos + exact_delta (o_side od) (o_quantity od)\<bar> * o_price od) sdiv PRICE_SCALE > M" for M
    using position_notional_exact [OF assms] by (cases "o_price od = INVALID_PRICE") simp_all
  have l: "m > 0 \<and>
        (let t = i64 (pos_realized pos + pos_unrealized pos) in t < 0 \<and> i64 (- t) > m) \<longleftrightarrow>
      m > 0 \<and> - (pos_realized pos + pos_unrealized pos) > m" for m
    using loss_exact [OF assms] by (cases "m > 0") simp_all
  show ?thesis
    unfolding check_limits_def verdict_chain abs position_after_exact [OF assms] n pn l
    unfolding projected_exact(1) [OF assms] within_limits_def Let_def
    by (simp only: imp_conv_disj de_Morgan_conj not_less not_le not_not disj_assoc)
qed

lemma put_position_frame [simp]:
  "rm_global (put_position symb p rm) = rm_global rm"
  "rm_symbol_limits (put_position symb p rm) = rm_symbol_limits rm"
  "rm_kill (put_position symb p rm) = rm_kill rm"
  "rm_rate (put_position symb p rm) = rm_rate rm"
  by (simp_all add: put_position_def)

lemma get_put_position [simp]:
  "get_or_create (put_position symb p rm) symb' = (if symb' = symb then p else get_or_create rm symb')"
  by (simp add: put_position_def get_or_create_def)

lemma get_position_eq: "get_position symb rm = get_or_create rm symb"
  by (simp add: get_position_def get_or_create_def)

lemma get_or_create_rate [simp]: "get_or_create (rm\<lparr>rm_rate := rl\<rparr>) = get_or_create rm"
  by (simp add: get_or_create_def fun_eq_iff)

lemma check_order_verdict:
  "fst (check_order now od rm) =
    (let pos = get_position (o_symbol od) rm; r = check_limits od (rm_global rm) pos
     in if is_kill_switch_active rm then FailedKillSwitch
        else if lim_max_orders_per_second (rm_global rm) > 0 \<and> \<not> fst (rl_try_acquire now (rm_rate rm))
          then FailedRateLimit
        else if r \<noteq> Passed then r
        else case rm_symbol_limits rm (o_symbol od) of
               None \<Rightarrow> Passed | Some lm \<Rightarrow> check_limits od lm pos)"
  by (cases "rl_try_acquire now (rm_rate rm)"; cases "rm_symbol_limits rm (o_symbol od)")
     (simp_all add: check_order_def is_kill_switch_active_def get_position_eq Let_def)

lemma check_order_Passed_iff:
  assumes "risk_range od (get_position (o_symbol od) rm)"
  shows "fst (check_order now od rm) = Passed \<longleftrightarrow>
    \<not> is_kill_switch_active rm \<and>
    (lim_max_orders_per_second (rm_global rm) > 0 \<longrightarrow> fst (rl_try_acquire now (rm_rate rm))) \<and>
    within_limits od (rm_global rm) (get_position (o_symbol od) rm) \<and>
    (\<forall>lm. rm_symbol_limits rm (o_symbol od) = Some lm \<longrightarrow>
       within_limits od lm (get_position (o_symbol od) rm))"
  unfolding check_order_verdict Let_def check_limits_iff [OF assms, symmetric]
  by (cases "rm_symbol_limits rm (o_symbol od)") auto

section \<open>Kill switch: nothing passes until it is released\<close>

lemma kill_switch_blocks: "is_kill_switch_active rm \<Longrightarrow> check_order now od rm = (FailedKillSwitch, rm)"
  by (simp add: check_order_def is_kill_switch_active_def)

lemma check_order_kill [simp]: "rm_kill (snd (check_order now od rm)) = rm_kill rm"
  by (cases "rl_try_acquire now (rm_rate rm)"; cases "rm_symbol_limits rm (o_symbol od)")
     (simp_all add: check_order_def Let_def)

lemma kill_switch_persists:
  "is_kill_switch_active rm \<Longrightarrow> c \<noteq> RC_Unkill \<Longrightarrow> is_kill_switch_active (risk_step c rm)"
  by (cases c)
     (auto simp: is_kill_switch_active_def ks_is_active_def on_fill_def on_order_accepted_def
        on_order_canceled_def on_order_rejected_def release_order_def set_global_limits_def
        set_symbol_limits_def activate_kill_switch_def ks_activate_def check_rate_limit_def Let_def
        split: prod.splits)

lemma kill_switch_persists_run:
  "is_kill_switch_active rm \<Longrightarrow> RC_Unkill \<notin> set cs \<Longrightarrow> is_kill_switch_active (run risk_step cs rm)"
proof (induction cs arbitrary: rm)
  case (Cons c cs)
  from Cons.prems have "is_kill_switch_active (risk_step c rm)"
    by (intro kill_switch_persists) auto
  with Cons show ?case by simp
qed simp

lemma kill_switch_activation: "is_kill_switch_active (snd (activate_kill_switch rm))"
  by (simp add: activate_kill_switch_def is_kill_switch_active_def ks_is_active_def ks_activate_def)

section \<open>Rate limiter: admissions per second\<close>

lemma rl_try_acquire_same_second:
  assumes "0 \<le> rl_count rl" and "rl_count rl < 2 ^ 31 - 1" and "now \<le> rl_window_start rl"
  shows "rl_try_acquire now rl =
    (if rl_count rl < rl_max rl then (True, rl\<lparr>rl_count := rl_count rl + 1\<rparr>) else (False, rl))"
proof -
  have "i32 (rl_count rl + 1) = rl_count rl + 1" and "i32 (rl_count rl) = rl_count rl"
    using assms by (auto intro!: swrap_id simp: i32_range)
  then show ?thesis using assms by (simp add: rl_try_acquire_def Let_def)
qed

lemma admitted_absent: "sec \<notin> set ts \<Longrightarrow> admitted sec ts oks = 0"
  unfolding admitted_def by (auto simp: filter_empty_conv dest: set_zip_leftD)

lemma admitted_Cons:
  "admitted sec (t # ts) (fst (rl_run (t # ts) rl)) =
    (if t = sec \<and> fst (rl_try_acquire t rl) then 1 else 0) +
    admitted sec ts (fst (rl_run ts (snd (rl_try_acquire t rl))))"
  by (auto simp: admitted_def case_prod_unfold Let_def)

text \<open>Within one second, calls are admitted until the counter reaches the maximum.\<close>

lemma admitted_in_window:
  assumes "0 \<le> rl_count rl" and "rl_count rl \<le> max 1 (rl_max rl)" and "rl_max rl < 2 ^ 31 - 1"
    and "sorted ts" and "\<forall>t \<in> set ts. rl_window_start rl \<le> t"
  shows "int (admitted (rl_window_start rl) ts (fst (rl_run ts rl))) + rl_count rl \<le> max 1 (rl_max rl)"
  using assms
proof (induction ts arbitrary: rl)
  case Nil
  then show ?case by (simp add: admitted_def)
next
  case (Cons t ts)
  show ?case
  proof (cases "t = rl_window_start rl")
    case True
    then have step: "rl_try_acquire t rl =
        (if rl_count rl < rl_max rl then (True, rl\<lparr>rl_count := rl_count rl + 1\<rparr>) else (False, rl))"
      using Cons.prems by (intro rl_try_acquire_same_second) auto
    show ?thesis
    proof (cases "rl_count rl < rl_max rl")
      case room: True
      then show ?thesis
        using Cons.IH [of "rl\<lparr>rl_count := rl_count rl + 1\<rparr>"] Cons.prems step True
        by (simp add: admitted_Cons del: rl_run.simps)
    next
      case False
      then show ?thesis
        using Cons.IH [of rl] Cons.prems step True by (simp add: admitted_Cons del: rl_run.simps)
    qed
  next
    case False
    with Cons.prems have "rl_window_start rl \<notin> set (t # ts)" by force
    with Cons.prems show ?thesis by (simp add: admitted_absent del: rl_run.simps)
  qed
qed

lemma admitted_per_second:
  assumes "0 \<le> rl_count rl" and "rl_count rl \<le> max 1 (rl_max rl)" and "rl_max rl < 2 ^ 31 - 1"
    and "sorted ts" and "\<forall>t \<in> set ts. rl_window_start rl \<le> t"
  shows "int (admitted sec ts (fst (rl_run ts rl))) \<le> max 1 (rl_max rl)"
  using assms
proof (induction ts arbitrary: rl)
  case Nil
  then show ?case by (simp add: admitted_def)
next
  case (Cons t ts)
  show ?case
  proof (cases "sec = rl_window_start rl")
    case True
    then show ?thesis using admitted_in_window [OF Cons.prems] Cons.prems(1) by simp
  next
    case sec: False
    show ?thesis
    proof (cases "t = rl_window_start rl")
      case True
      then have "rl_try_acquire t rl =
          (if rl_count rl < rl_max rl then (True, rl\<lparr>rl_count := rl_count rl + 1\<rparr>) else (False, rl))"
        using Cons.prems by (intro rl_try_acquire_same_second) auto
      then show ?thesis
        using Cons.IH [of rl] Cons.IH [of "rl\<lparr>rl_count := rl_count rl + 1\<rparr>"] Cons.prems sec True
        by (auto simp: admitted_Cons simp del: rl_run.simps split: if_splits)
    next
      case False
      define rl' where "rl' = rl\<lparr>rl_window_start := t, rl_count := 1\<rparr>"
      have "rl_try_acquire t rl = (True, rl')"
        using False Cons.prems by (simp add: rl_try_acquire_def rl'_def)
      moreover have "int (admitted t ts (fst (rl_run ts rl'))) + 1 \<le> max 1 (rl_max rl)"
        using admitted_in_window [of rl' ts] Cons.prems by (simp add: rl'_def)
      moreover have "int (admitted sec ts (fst (rl_run ts rl'))) \<le> max 1 (rl_max rl)"
        using Cons.IH [of rl'] Cons.prems by (simp add: rl'_def)
      ultimately show ?thesis by (cases "t = sec") (simp_all add: admitted_Cons del: rl_run.simps)
    qed
  qed
qed

section \<open>Positions\<close>

lemma max0_i64: "0 \<le> max 0 (i64 x) \<and> max 0 (i64 x) < 2 ^ 63"
  using swrap_in_range [of 64 x] by (auto simp: i64_range)

lemma max0_i32: "0 \<le> max 0 (i32 x) \<and> max 0 (i32 x) < 2 ^ 31"
  using swrap_in_range [of 32 x] by (auto simp: i32_range)

lemma fill_frame [simp]:
  "pos_open_orders (fill_realized s q p pos r) = pos_open_orders pos"
  "pos_pending_buy (fill_realized s q p pos r) = pos_pending_buy pos"
  "pos_pending_sell (fill_realized s q p pos r) = pos_pending_sell pos"
  "pos_net (fill_realized s q p pos r) = pos_net pos"
  "pos_open_orders (fill_entry s q p pos r) = pos_open_orders pos"
  "pos_pending_buy (fill_entry s q p pos r) = pos_pending_buy pos"
  "pos_pending_sell (fill_entry s q p pos r) = pos_pending_sell pos"
  "pos_net (fill_entry s q p pos r) = pos_net pos"
  "pos_realized (fill_entry s q p pos r) = pos_realized pos"
  by (simp_all add: fill_realized_def fill_entry_def Let_def)

lemma fill_position_ok: "position_ok pos \<Longrightarrow> position_ok (fill_position s q p pos)"
  using max0_i64 [of "pos_pending_buy pos - q"] max0_i64 [of "pos_pending_sell pos - q"]
  by (simp add: position_ok_def fill_position_def Let_def)

lemma fill_position_open_orders: "pos_open_orders (fill_position s q p pos) = pos_open_orders pos"
  by (simp add: fill_position_def Let_def)

lemma fill_position_net: "pos_net (fill_position s q p pos) = i64 (pos_net pos + signed_delta s q)"
  by (simp add: fill_position_def Let_def)

lemma risk_inv_put: "risk_inv rm \<Longrightarrow> position_ok p \<Longrightarrow> risk_inv (put_position symb p rm)"
  by (simp add: risk_inv_def)

lemma risk_inv_cong: "rm_positions rm' = rm_positions rm \<Longrightarrow> risk_inv rm' = risk_inv rm"
  by (simp add: risk_inv_def get_or_create_def)

lemma release_order_inv: "risk_inv rm \<Longrightarrow> risk_inv (release_order od q rm)"
  unfolding release_order_def Let_def
proof (rule risk_inv_put, assumption)
  let ?p = "get_or_create rm (o_symbol od)"
  assume "risk_inv rm"
  then have "position_ok ?p" by (simp add: risk_inv_def)
  then show "position_ok (if o_side od = Buy
      then ?p\<lparr>pos_open_orders := max 0 (i32 (pos_open_orders ?p - 1)),
         pos_pending_buy := max 0 (i64 (pos_pending_buy (?p\<lparr>pos_open_orders := max 0 (i32 (pos_open_orders ?p - 1))\<rparr>) - q))\<rparr>
      else ?p\<lparr>pos_open_orders := max 0 (i32 (pos_open_orders ?p - 1)),
         pos_pending_sell := max 0 (i64 (pos_pending_sell (?p\<lparr>pos_open_orders := max 0 (i32 (pos_open_orders ?p - 1))\<rparr>) - q))\<rparr>)"
    using max0_i32 [of "pos_open_orders ?p - 1"] max0_i64 [of "pos_pending_buy ?p - q"]
      max0_i64 [of "pos_pending_sell ?p - q"]
    by (simp add: position_ok_def)
qed

lemma accept_order_inv:
  assumes "risk_inv rm" and "risk_ok (RC_Accept od) rm"
  shows "risk_inv (on_order_accepted od rm)"
proof -
  let ?p = "get_or_create rm (o_symbol od)"
  have ok: "position_ok ?p" using assms(1) by (simp add: risk_inv_def)
  have "i32 (pos_open_orders ?p + 1) = pos_open_orders ?p + 1"
    using ok assms(2) by (intro swrap_id) (auto simp: position_ok_def i32_range Let_def)
  moreover have "i64 (pos_pending_buy ?p + o_quantity od) = pos_pending_buy ?p + o_quantity od"
    "i64 (pos_pending_sell ?p + o_quantity od) = pos_pending_sell ?p + o_quantity od"
    using ok assms(2) by (auto intro!: swrap_id simp: position_ok_def i64_range Let_def)
  ultimately show ?thesis
    using assms ok unfolding on_order_accepted_def
    by (auto simp: Let_def position_ok_def intro!: risk_inv_put)
qed

lemma check_order_positions:
  "get_or_create (snd (check_order now od rm)) = get_or_create rm"
  by (cases "rl_try_acquire now (rm_rate rm)"; cases "rm_symbol_limits rm (o_symbol od)")
     (auto simp: check_order_def Let_def fun_eq_iff)

lemma check_order_inv: "risk_inv (snd (check_order now od rm)) = risk_inv rm"
  by (simp add: risk_inv_def check_order_positions)

lemma on_fill_inv: "risk_inv rm \<Longrightarrow> risk_inv (on_fill symb s q p rm)"
  by (simp add: on_fill_def risk_inv_def fill_position_ok)

lemma risk_config_inv:
  "risk_inv (set_global_limits now lm rm) = risk_inv rm"
  "risk_inv (set_symbol_limits symb lm rm) = risk_inv rm"
  "risk_inv (snd (activate_kill_switch rm)) = risk_inv rm"
  "risk_inv (deactivate_kill_switch rm) = risk_inv rm"
  "risk_inv (snd (check_rate_limit now rm)) = risk_inv rm"
  by (rule risk_inv_cong,
      simp add: set_global_limits_def set_symbol_limits_def activate_kill_switch_def
        deactivate_kill_switch_def check_rate_limit_def case_prod_unfold Let_def)+

lemma risk_step_inv [keeps]:
  assumes inv: "risk_inv rm" and ok: "risk_ok c rm"
  shows "risk_inv (risk_step c rm)"
proof (cases c)
  case (RC_Accept od)
  with inv ok accept_order_inv show ?thesis by (simp only: risk_step.simps)
qed (simp_all add: inv check_order_inv on_fill_inv on_order_canceled_def on_order_rejected_def
       release_order_inv risk_config_inv)

lemma risk_inv_new: "risk_inv (rm_new now)"
  by (simp add: risk_inv_def rm_new_def get_or_create_def default_position_def position_ok_def)

interpretation risk: transition_system risk_step "rm_new now" risk_inv risk_ok for now
  by unfold_locales (simp_all add: risk_inv_new risk_step_inv)

section \<open>Fills and profit\<close>

lemma on_fill_position:
  "get_position symb' (on_fill symb s q p rm) =
    (if symb' = symb then fill_position s q p (get_position symb rm) else get_position symb' rm)"
  by (simp add: get_position_eq on_fill_def)

lemma fills_net:
  assumes "\<bar>pos_net (get_position symb rm)\<bar> + (\<Sum>(s, q, p) \<leftarrow> fills. \<bar>q\<bar>) < 2 ^ 61"
  shows "pos_net (get_position symb (fold (\<lambda>(s, q, p). on_fill symb s q p) fills rm)) =
    pos_net (get_position symb rm) + (\<Sum>(s, q, p) \<leftarrow> fills. exact_delta s q)"
  using assms
proof (induction fills arbitrary: rm)
  case (Cons f fills)
  obtain s q p where f: "f = (s, q, p)" by (cases f)
  define n where "n = pos_net (get_position symb rm)"
  have rest: "0 \<le> (\<Sum>(s, q, p) \<leftarrow> fills. \<bar>q\<bar>)"
    by (rule sum_list_nonneg_map) auto
  then have small: "\<bar>n\<bar> + \<bar>q\<bar> < 2 ^ 61" using Cons.prems by (simp add: f n_def)
  have tri: "\<bar>n + exact_delta s q\<bar> \<le> \<bar>n\<bar> + \<bar>q\<bar>" by (metis abs_exact_delta abs_triangle_ineq)
  have step: "pos_net (get_position symb (on_fill symb s q p rm)) = n + exact_delta s q"
  proof -
    have "\<bar>q\<bar> < 2 ^ 61" using small by linarith
    then have "pos_net (get_position symb (on_fill symb s q p rm)) = i64 (n + exact_delta s q)"
      by (simp add: on_fill_position fill_position_net signed_delta_exact n_def)
    then show ?thesis using small tri by (simp add: i64_small)
  qed
  have "\<bar>pos_net (get_position symb (on_fill symb s q p rm))\<bar> + (\<Sum>(s, q, p) \<leftarrow> fills. \<bar>q\<bar>) < 2 ^ 61"
    using Cons.prems tri by (simp add: step f n_def)
  from Cons.IH [OF this] show ?case by (simp add: f step n_def)
qed simp

lemma flat_open:
  assumes "pos_net pos = 0" and "0 < q" and "q < 2 ^ 61"
  shows "pos_net (fill_position s q p pos) = exact_delta s q"
    and "pos_avg_entry (fill_position s q p pos) = p"
    and "pos_realized (fill_position s q p pos) = pos_realized pos"
proof -
  have "signed_delta s q = exact_delta s q" using assms by (simp add: signed_delta_exact)
  moreover have "i64 (exact_delta s q) = exact_delta s q" and "i64 \<bar>exact_delta s q\<bar> = q"
    using assms by (auto intro!: i64_small simp: exact_delta_def)
  moreover have "i64 0 = 0" by (simp add: i64_small)
  ultimately show "pos_net (fill_position s q p pos) = exact_delta s q"
    and "pos_avg_entry (fill_position s q p pos) = p"
    and "pos_realized (fill_position s q p pos) = pos_realized pos"
    using assms
    by (cases s; simp add: fill_position_def fill_realized_def fill_entry_def Let_def exact_delta_def)+
qed

lemma close_long:
  assumes "pos_net pos = q" and "0 < q" and "q < 2 ^ 61" and "pos_avg_entry pos \<noteq> 0"
    and "\<bar>p - pos_avg_entry pos\<bar> < 2 ^ 63" and "\<bar>(p - pos_avg_entry pos) * q\<bar> < 2 ^ 62 * PRICE_SCALE"
    and "\<bar>pos_realized pos\<bar> < 2 ^ 62"
  shows "pos_net (fill_position Sell q p pos) = 0"
    and "pos_realized (fill_position Sell q p pos) =
           pos_realized pos + ((p - pos_avg_entry pos) * q) sdiv PRICE_SCALE"
proof -
  have neg: "signed_delta Sell q = - q"
    using assms(2,3) by (simp add: signed_delta_exact exact_delta_def)
  have q: "i64 q = q" using assms(2,3) by (simp add: i64_small)
  have z: "i64 0 = 0" by (simp add: i64_small)
  show "pos_net (fill_position Sell q p pos) = 0"
    using assms(1) by (simp add: fill_position_net neg z)
  have d: "i64 (p - pos_avg_entry pos) = p - pos_avg_entry pos"
    using assms(5) by (intro i64_small) simp
  have w: "wide_mul_div (p - pos_avg_entry pos) q PRICE_SCALE =
           ((p - pos_avg_entry pos) * q) sdiv PRICE_SCALE"
    using assms(6) by (intro wide_mul_div_exact) (simp_all add: PRICE_SCALE_def)
  have "\<bar>((p - pos_avg_entry pos) * q) sdiv PRICE_SCALE\<bar> \<le> 2 ^ 62"
  proof -
    let ?x = "(p - pos_avg_entry pos) * q"
    have "\<bar>(?x sdiv PRICE_SCALE) * PRICE_SCALE - ?x\<bar> < PRICE_SCALE"
      by (rule sdiv_error) (simp add: PRICE_SCALE_def)
    with assms(6) show ?thesis by (simp add: PRICE_SCALE_def abs_if split: if_splits)
  qed
  then have "i64 (pos_realized pos + ((p - pos_avg_entry pos) * q) sdiv PRICE_SCALE) =
      pos_realized pos + ((p - pos_avg_entry pos) * q) sdiv PRICE_SCALE"
    using assms(7) abs_triangle_ineq [of "pos_realized pos" "((p - pos_avg_entry pos) * q) sdiv PRICE_SCALE"]
    by (intro i64_small) simp
  then show "pos_realized (fill_position Sell q p pos) =
      pos_realized pos + ((p - pos_avg_entry pos) * q) sdiv PRICE_SCALE"
    using assms(1,2,4) by (simp add: fill_position_def fill_realized_def neg q d w Let_def)
qed

section \<open>Open orders are never given back by fills\<close>

fun gateway_cmd :: "risk_cmd \<Rightarrow> bool" where
  "gateway_cmd (RC_Check _ _) = True"
| "gateway_cmd (RC_Accept _) = True"
| "gateway_cmd (RC_Fill _ _ _ _) = True"
| "gateway_cmd _ = False"

fun accepts :: "symbol \<Rightarrow> risk_cmd \<Rightarrow> bool" where
  "accepts symb (RC_Accept od) = (o_symbol od = symb)"
| "accepts symb _ = False"

lemma gateway_step_frame:
  "gateway_cmd c \<Longrightarrow> rm_global (risk_step c rm) = rm_global rm"
  by (cases c; cases "rl_try_acquire 0 (rm_rate rm)")
     (auto simp: on_fill_def on_order_accepted_def check_order_def Let_def split: prod.splits option.splits)

lemma gateway_open_orders:
  assumes "list_all gateway_cmd cs" and "0 \<le> pos_open_orders (get_position symb rm)"
    and "pos_open_orders (get_position symb rm) + int (length (filter (accepts symb) cs)) < 2 ^ 31"
  shows "pos_open_orders (get_position symb (run risk_step cs rm)) =
    pos_open_orders (get_position symb rm) + int (length (filter (accepts symb) cs))"
  using assms
proof (induction cs arbitrary: rm)
  case (Cons c cs)
  have "pos_open_orders (get_position symb (risk_step c rm)) =
    pos_open_orders (get_position symb rm) + (if accepts symb c then 1 else 0)"
  proof (cases c)
    case (RC_Accept od)
    have "i32 (pos_open_orders (get_position symb rm) + 1) = pos_open_orders (get_position symb rm) + 1"
      if "o_symbol od = symb"
      using Cons.prems RC_Accept that by (intro swrap_id) (auto simp: i32_range)
    then show ?thesis
      by (auto simp: RC_Accept get_position_eq on_order_accepted_def Let_def)
  qed (use Cons.prems in \<open>auto simp: get_position_eq check_order_positions on_fill_def
         fill_position_open_orders\<close>)
  then show ?case using Cons.IH [of "risk_step c rm"] Cons.prems by auto
qed simp

section \<open>Properties\<close>

text \<open>Concrete limits, a concrete order and a position, for the witnesses.\<close>

definition sample_limits :: risk_limits where
  "sample_limits = default_limits\<lparr>lim_max_order_quantity := 100, lim_max_position_quantity := 150,
     lim_max_orders_per_second := 2, lim_max_open_orders := 3\<rparr>"

definition sample_order :: order where
  "sample_order = default_order\<lparr>o_id := 7, o_symbol := ''AAPL'', o_quantity := 80,
     o_price := 15000000000\<rparr>"

definition sample_manager :: risk_manager where
  "sample_manager = set_global_limits 0 sample_limits (rm_new 0)"

lemmas sample_risk_defs = sample_manager_def sample_limits_def sample_order_def default_order_def
  default_limits_def rm_new_def rl_new_def ks_new_def set_global_limits_def rl_set_max_rate_def
  rl_reset_def get_position_def default_position_def Let_def

lemma sample_in_range: "risk_range sample_order (get_position (o_symbol sample_order) sample_manager)"
  by (simp add: risk_range_def sample_risk_defs INVALID_PRICE_def PRICE_SCALE_def)



text \<open>
  once the kill switch is active it stays active through any sequence of checks, fills,
  acceptances, cancels, rejects and limit changes that does not release it, and every order
  checked meanwhile is refused with \<open>FailedKillSwitch\<close> and changes nothing.
\<close>

theorem kill_switch_holds:
  assumes "is_kill_switch_active rm" and "RC_Unkill \<notin> set cs"
  shows "check_order now od (run risk_step cs rm) = (FailedKillSwitch, run risk_step cs rm)"
  using assms by (intro kill_switch_blocks kill_switch_persists_run)

theorem kill_switch_holds_witness:
  "fst (check_order 0 sample_order
     (run risk_step [RC_SetGlobal 1 sample_limits, RC_Accept sample_order]
        (snd (activate_kill_switch sample_manager)))) = FailedKillSwitch"
  using kill_switch_holds [OF kill_switch_activation [of sample_manager],
      of "[RC_SetGlobal 1 sample_limits, RC_Accept sample_order]" 0 sample_order]
  by simp



text \<open>
  through every run of the manager's operations from its construction, the open-order count
  and both pending quantities of every symbol stay non-negative and within their machine types,
  provided no acceptance overflows the counter it adds to.
\<close>

theorem risk_counters_ok:
  assumes "legal risk_ok risk_step cs (rm_new now)"
  shows "position_ok (get_position symb (run risk_step cs (rm_new now)))"
  using risk.inv_run [OF assms] by (simp add: risk_inv_def get_position_eq)

theorem risk_counters_ok_witness:
  "position_ok (get_position ''AAPL''
     (run risk_step [RC_Accept sample_order, RC_Fill ''AAPL'' Buy 90 15000000000] (rm_new 0)))"
proof (rule risk_counters_ok)
  show "legal risk_ok risk_step [RC_Accept sample_order, RC_Fill ''AAPL'' Buy 90 15000000000] (rm_new 0)"
    by (simp add: sample_risk_defs get_or_create_def)
qed

text \<open>
  after any sequence of fills the net position of the symbol is the old one plus the bought
  and minus the sold quantities, as long as the total traded stays below \<open>2 ^ 61\<close>.
\<close>

theorem net_position_is_sum_of_fills:
  assumes "\<bar>pos_net (get_position symb rm)\<bar> + (\<Sum>(s, q, p) \<leftarrow> fills. \<bar>q\<bar>) < 2 ^ 61"
  shows "pos_net (get_position symb (fold (\<lambda>(s, q, p). on_fill symb s q p) fills rm)) =
    pos_net (get_position symb rm) + (\<Sum>(s, q, p) \<leftarrow> fills. exact_delta s q)"
  using assms by (rule fills_net)

theorem net_position_is_sum_of_fills_witness:
  "pos_net (get_position ''A'' (fold (\<lambda>(s, q, p). on_fill ''A'' s q p)
     [(Buy, 30, 100), (Sell, 50, 110)] (rm_new 0))) = - 20"
  using net_position_is_sum_of_fills [of "''A''" "rm_new 0" "[(Buy, 30, 100), (Sell, 50, 110)]"]
  by (simp add: rm_new_def get_position_def default_position_def exact_delta_def)

text \<open>
  opening \<open>q\<close> at price \<open>b\<close> from a flat book and selling the whole of it at \<open>p\<close> returns the
  position to flat and adds exactly \<open>(p - b) * q / PRICE_SCALE\<close> (truncated) to the realized
  profit.
\<close>

theorem round_trip_profit:
  assumes "pos_net pos = 0" and "0 < q" and "q < 2 ^ 61" and "b \<noteq> 0"
    and "\<bar>p - b\<bar> < 2 ^ 63" and "\<bar>(p - b) * q\<bar> < 2 ^ 62 * PRICE_SCALE"
    and "\<bar>pos_realized pos\<bar> < 2 ^ 62" and "pos' = fill_position Sell q p (fill_position Buy q b pos)"
  shows "pos_net pos' = 0 \<and>
    pos_realized pos' = pos_realized pos + ((p - b) * q) sdiv PRICE_SCALE"
  using assms flat_open [of pos q Buy b] close_long [of "fill_position Buy q b pos" q p]
  by (simp add: exact_delta_def)

theorem round_trip_profit_witness:
  "pos_realized (fill_position Sell 10 300000000 (fill_position Buy 10 200000000 default_position)) = 10"
  using round_trip_profit [of default_position 10 200000000 300000000 _, OF _ _ _ _ _ _ _ refl]
  by (simp add: default_position_def PRICE_SCALE_def signed_divide_int_def)

text \<open>
  in the calls the gateway makes (checks, acceptances and fills, never a cancel or a reject)
  the open-order count of a symbol is the number of orders ever accepted: fills never give an
  order back, so a positive \<open>max_open_orders\<close> eventually refuses every further order.
\<close>

theorem open_orders_never_released:
  assumes "list_all gateway_cmd cs" and "0 \<le> pos_open_orders (get_position symb rm)"
    and "pos_open_orders (get_position symb rm) + int (length (filter (accepts symb) cs)) < 2 ^ 31"
  shows "pos_open_orders (get_position symb (run risk_step cs rm)) =
    pos_open_orders (get_position symb rm) + int (length (filter (accepts symb) cs))"
  using assms by (rule gateway_open_orders)

theorem open_orders_never_released_witness:
  "pos_open_orders (get_position ''AAPL''
     (run risk_step [RC_Accept sample_order, RC_Fill ''AAPL'' Buy 80 15000000000] (rm_new 0))) = 1"
  using open_orders_never_released
    [of "[RC_Accept sample_order, RC_Fill ''AAPL'' Buy 80 15000000000]" "''AAPL''" "rm_new 0"]
  by (simp add: sample_risk_defs)

end
