(* ===== verification/Book.thy ===== *)
theory Book
  imports Core_Types
begin

text \<open>
  The level-2 book of one venue, from \<open>market_data/book.h\<close> and \<open>market_data/book.cpp\<close>.

  A \<open>BookSide\<close> is an array of \<open>MAX_DEPTH\<close> levels of which the first \<open>depth\<close> are in use.
  The model keeps the array and the counter and performs the same shifts. The lemmas relate
  it to the list of levels in use (\<open>bs_levels\<close>): \<open>insert_sorted\<close> is a sorted insertion that
  drops the worst level of a full side, \<open>remove\<close> deletes the level of a price, and the
  invariant \<open>side_inv\<close> (levels strictly ordered by priority, positive quantities) is kept.
  The direction of a side is the parameter of the locale \<open>price_priority\<close>, interpreted for
  bids and for asks.
\<close>

definition MAX_DEPTH :: nat where "MAX_DEPTH = 20"

record price_level =
  pl_price :: price
  pl_quantity :: quantity
  pl_order_count :: int

definition default_level :: price_level where
  "default_level = \<lparr>pl_price = INVALID_PRICE, pl_quantity = 0, pl_order_count = 0\<rparr>"

definition level_valid :: "price_level \<Rightarrow> bool" where
  "level_valid l \<longleftrightarrow> pl_price l \<noteq> INVALID_PRICE \<and> pl_quantity l > 0"

record book_side =
  bs_array :: "price_level list"
  bs_depth :: nat

definition bs_new :: book_side where
  "bs_new = \<lparr>bs_array = replicate MAX_DEPTH default_level, bs_depth = 0\<rparr>"

definition bs_best :: "book_side \<Rightarrow> price_level" where "bs_best b = bs_array b ! 0"

definition bs_empty :: "book_side \<Rightarrow> bool" where "bs_empty b \<longleftrightarrow> bs_depth b = 0"

text \<open>The priority test of the two insertion loops and of the eviction test.\<close>

definition better :: "bool \<Rightarrow> price \<Rightarrow> price \<Rightarrow> bool" where
  "better is_bid p q = (if is_bid then p > q else p < q)"

fun find_pos :: "bool \<Rightarrow> price \<Rightarrow> price_level list \<Rightarrow> nat \<Rightarrow> nat \<Rightarrow> nat" where
  "find_pos is_bid p (l # ls) pos depth =
     (if pos < depth \<and> better is_bid (pl_price l) p then find_pos is_bid p ls (Suc pos) depth
      else pos)"
| "find_pos is_bid p [] pos depth = pos"

text \<open>\<open>for (i = depth; i > pos; --i) levels[i] = levels[i - 1]\<close>\<close>

fun shift_up :: "nat \<Rightarrow> nat \<Rightarrow> price_level list \<Rightarrow> price_level list" where
  "shift_up i pos ls =
     (if i > pos then shift_up (i - 1) pos (ls[i := ls ! (i - 1)]) else ls)"

text \<open>\<open>for (j = i; j + 1 < depth; ++j) levels[j] = levels[j + 1]\<close>\<close>

function shift_down :: "nat \<Rightarrow> nat \<Rightarrow> price_level list \<Rightarrow> price_level list" where
  "shift_down j depth ls =
     (if j + 1 < depth then shift_down (j + 1) depth (ls[j := ls ! (j + 1)]) else ls)"
  by pat_completeness auto
termination by (relation "measure (\<lambda>(j, depth, ls). depth - j)") auto

declare shift_up.simps [simp del] shift_down.simps [simp del]

definition insert_sorted :: "price_level \<Rightarrow> bool \<Rightarrow> book_side \<Rightarrow> book_side" where
  "insert_sorted level is_bid b =
     (if bs_depth b \<ge> MAX_DEPTH \<and>
         \<not> better is_bid (pl_price level) (pl_price (bs_array b ! (bs_depth b - 1)))
      then b
      else
        let depth = (if bs_depth b \<ge> MAX_DEPTH then bs_depth b - 1 else bs_depth b);
            pos = find_pos is_bid (pl_price level) (bs_array b) 0 depth
        in if pos < depth \<and> pl_price (bs_array b ! pos) = pl_price level
           then \<lparr>bs_array = (bs_array b)[pos := level], bs_depth = depth\<rparr>
           else if depth < MAX_DEPTH
           then \<lparr>bs_array = (shift_up depth pos (bs_array b))[pos := level], bs_depth = depth + 1\<rparr>
           else \<lparr>bs_array = bs_array b, bs_depth = depth\<rparr>)"

text \<open>The first level in use with the given price.\<close>

definition find_price :: "price \<Rightarrow> book_side \<Rightarrow> nat option" where
  "find_price p b = List.find (\<lambda>i. pl_price (bs_array b ! i) = p) [0..<bs_depth b]"

definition bs_remove :: "price \<Rightarrow> book_side \<Rightarrow> book_side" where
  "bs_remove p b =
     (case find_price p b of
        None \<Rightarrow> b
      | Some i \<Rightarrow> \<lparr>bs_array = (shift_down i (bs_depth b) (bs_array b))[bs_depth b - 1 := default_level],
                   bs_depth = bs_depth b - 1\<rparr>)"

definition bs_update :: "price \<Rightarrow> quantity \<Rightarrow> int \<Rightarrow> book_side \<Rightarrow> book_side" where
  "bs_update p qty cnt b =
     (case find_price p b of
        Some i \<Rightarrow>
          if qty > 0
          then b\<lparr>bs_array := (bs_array b)[i := (bs_array b ! i)\<lparr>pl_quantity := qty, pl_order_count := cnt\<rparr>]\<rparr>
          else bs_remove p b
      | None \<Rightarrow>
          if qty > 0
          then let level = \<lparr>pl_price = p, pl_quantity = qty, pl_order_count = cnt\<rparr>
               in if bs_depth b \<ge> 2
                  then insert_sorted level (pl_price (bs_array b ! 0) > pl_price (bs_array b ! 1)) b
                  else if bs_depth b = 1
                  then insert_sorted level
                         (p > pl_price (bs_array b ! 0) \<or> pl_price (bs_array b ! 0) > p) b
                  else \<lparr>bs_array = (bs_array b)[0 := level], bs_depth = 1\<rparr>
          else b)"

definition bs_clear :: "book_side \<Rightarrow> book_side" where
  "bs_clear b = \<lparr>bs_array = map (\<lambda>i. if i < bs_depth b then default_level else bs_array b ! i)
                              [0..<length (bs_array b)], bs_depth = 0\<rparr>"

record order_book =
  ob_symbol :: symbol
  ob_venue :: venue_id
  ob_bids :: book_side
  ob_asks :: book_side
  ob_last_update :: timestamp
  ob_sequence :: nat

definition best_bid :: "order_book \<Rightarrow> price" where
  "best_bid bk = (if bs_empty (ob_bids bk) then INVALID_PRICE else pl_price (bs_best (ob_bids bk)))"

definition best_ask :: "order_book \<Rightarrow> price" where
  "best_ask bk = (if bs_empty (ob_asks bk) then INVALID_PRICE else pl_price (bs_best (ob_asks bk)))"

definition mid_price :: "order_book \<Rightarrow> price" where
  "mid_price bk = (let bb = best_bid bk; ba = best_ask bk
     in if bb = INVALID_PRICE \<or> ba = INVALID_PRICE then INVALID_PRICE else i64 (bb + ba) sdiv 2)"

definition spread :: "order_book \<Rightarrow> price" where
  "spread bk = (let bb = best_bid bk; ba = best_ask bk
     in if bb = INVALID_PRICE \<or> ba = INVALID_PRICE then INVALID_PRICE else i64 (ba - bb))"

text \<open>The accumulation loop: stop at the first level that is not at or better than the price.\<close>

fun sum_while :: "(price \<Rightarrow> bool) \<Rightarrow> price_level list \<Rightarrow> quantity \<Rightarrow> quantity" where
  "sum_while ok [] tot = tot"
| "sum_while ok (l # ls) tot =
     (if ok (pl_price l) then sum_while ok ls (i64 (tot + pl_quantity l)) else tot)"

definition quantity_at_or_better :: "side \<Rightarrow> price \<Rightarrow> order_book \<Rightarrow> quantity" where
  "quantity_at_or_better s p bk =
     (if s = Buy
      then sum_while (\<lambda>q. q \<ge> p) (take (bs_depth (ob_bids bk)) (bs_array (ob_bids bk))) 0
      else sum_while (\<lambda>q. q \<le> p) (take (bs_depth (ob_asks bk)) (bs_array (ob_asks bk))) 0)"

definition is_crossed :: "order_book \<Rightarrow> bool" where
  "is_crossed bk = (let bb = best_bid bk; ba = best_ask bk
     in if bb = INVALID_PRICE \<or> ba = INVALID_PRICE then False else bb \<ge> ba)"

definition ob_clear :: "order_book \<Rightarrow> order_book" where
  "ob_clear bk = bk\<lparr>ob_bids := bs_clear (ob_bids bk), ob_asks := bs_clear (ob_asks bk),
     ob_last_update := 0, ob_sequence := 0\<rparr>"

text \<open>Abstraction: the levels in use, and what a well-formed side is.\<close>

definition bs_levels :: "book_side \<Rightarrow> price_level list" where
  "bs_levels b = take (bs_depth b) (bs_array b)"

definition side_inv :: "bool \<Rightarrow> book_side \<Rightarrow> bool" where
  "side_inv is_bid b \<longleftrightarrow> length (bs_array b) = MAX_DEPTH \<and> bs_depth b \<le> MAX_DEPTH \<and>
     sorted_wrt (better is_bid) (map pl_price (bs_levels b)) \<and>
     (\<forall>l \<in> set (bs_levels b). pl_quantity l > 0)"

text \<open>
  The abstract side: a priority-ordered list of levels, at most \<open>MAX_DEPTH\<close> of them, and
  the map from prices to levels it stands for.
\<close>

fun put_level :: "(price \<Rightarrow> price \<Rightarrow> bool) \<Rightarrow> price_level \<Rightarrow> price_level list \<Rightarrow> price_level list" where
  "put_level pri x [] = [x]"
| "put_level pri x (l # ls) =
     (if pri (pl_price l) (pl_price x) then l # put_level pri x ls
      else if pl_price l = pl_price x then x # ls
      else x # l # ls)"

definition insert_spec :: "bool \<Rightarrow> price_level \<Rightarrow> price_level list \<Rightarrow> price_level list" where
  "insert_spec is_bid x ls = take MAX_DEPTH (put_level (better is_bid) x ls)"

definition level_at :: "price_level list \<Rightarrow> price \<rightharpoonup> price_level" where
  "level_at ls = map_of (map (\<lambda>l. (pl_price l, l)) ls)"

section \<open>Price priority\<close>

text \<open>What the lemmas use of the direction of a side: a strict linear order on prices.\<close>

locale price_priority =
  fixes pri :: "price \<Rightarrow> price \<Rightarrow> bool"
  assumes pri_irrefl: "\<not> pri p p"
    and pri_trans: "pri p q \<Longrightarrow> pri q r \<Longrightarrow> pri p r"
    and pri_total: "p \<noteq> q \<Longrightarrow> pri p q \<or> pri q p"
begin

lemma put_level_set:
  assumes "sorted_wrt pri (map pl_price ls)"
  shows "set (put_level pri x ls) = insert x {l \<in> set ls. pl_price l \<noteq> pl_price x}"
  using assms by (induction ls) (auto dest: pri_trans pri_total simp: pri_irrefl)

lemma put_level_sorted:
  assumes "sorted_wrt pri (map pl_price ls)"
  shows "sorted_wrt pri (map pl_price (put_level pri x ls))"
  using assms by (induction ls) (auto simp: put_level_set pri_irrefl dest: pri_trans pri_total)

lemma put_level_at:
  assumes "sorted_wrt pri (map pl_price ls)"
  shows "level_at (put_level pri x ls) = (level_at ls)(pl_price x \<mapsto> x)"
  using assms
  by (induction ls) (auto simp: level_at_def pri_irrefl fun_upd_twist)

lemma put_level_last:
  "\<forall>l \<in> set ls. pri (pl_price l) (pl_price x) \<Longrightarrow> put_level pri x ls = ls @ [x]"
  by (induction ls) auto

lemma put_level_decomp:
  "put_level pri x ls =
     (let as = takeWhile (\<lambda>l. pri (pl_price l) (pl_price x)) ls;
          bs = dropWhile (\<lambda>l. pri (pl_price l) (pl_price x)) ls
      in as @ x # (if bs \<noteq> [] \<and> pl_price (hd bs) = pl_price x then tl bs else bs))"
  by (induction ls) (auto simp: Let_def)

lemma best_is_head:
  assumes "sorted_wrt pri (map pl_price ls)" and "l \<in> set ls"
  shows "l = hd ls \<or> pri (pl_price (hd ls)) (pl_price l)"
  using assms by (cases ls) auto

lemma sorted_distinct_prices:
  "sorted_wrt pri (map pl_price ls) \<Longrightarrow> distinct (map pl_price ls)"
  by (induction ls) (auto simp: pri_irrefl)

end

interpretation pp: price_priority "better is_bid" for is_bid
  by unfold_locales (auto simp: better_def split: if_splits)

section \<open>The array operations on the levels in use\<close>

lemma find_pos_eq:
  "pos \<le> depth \<Longrightarrow> find_pos is_bid p ls pos depth =
     pos + length (takeWhile (\<lambda>l. better is_bid (pl_price l) p) (take (depth - pos) ls))"
  by (induction is_bid p ls pos depth rule: find_pos.induct) (auto simp: take_Cons' Suc_diff_Suc)

lemma length_shift_up [simp]: "length (shift_up i pos ls) = length ls"
  by (induction i pos ls rule: shift_up.induct) (subst shift_up.simps, simp)

lemma nth_shift_up:
  "i < length ls \<Longrightarrow> k < length ls \<Longrightarrow>
     shift_up i pos ls ! k = (if pos < k \<and> k \<le> i then ls ! (k - 1) else ls ! k)"
proof (induction i pos ls rule: shift_up.induct)
  case (1 i pos ls)
  show ?case
  proof (cases "i > pos")
    case True
    then have "shift_up i pos ls ! k = shift_up (i - 1) pos (ls[i := ls ! (i - 1)]) ! k"
      by (simp add: shift_up.simps [of i])
    also have "\<dots> = (if pos < k \<and> k \<le> i - 1 then ls[i := ls ! (i - 1)] ! (k - 1)
                     else ls[i := ls ! (i - 1)] ! k)"
      using 1 True by simp
    finally show ?thesis using True 1 by (auto simp: nth_list_update)
  next
    case False
    then show ?thesis by (simp add: shift_up.simps [of i])
  qed
qed

lemma length_shift_down [simp]: "length (shift_down j depth ls) = length ls"
  by (induction j depth ls rule: shift_down.induct) (subst shift_down.simps, simp)

lemma nth_shift_down:
  "depth \<le> length ls \<Longrightarrow> k < length ls \<Longrightarrow>
     shift_down j depth ls ! k = (if j \<le> k \<and> k + 1 < depth then ls ! (k + 1) else ls ! k)"
proof (induction j depth ls rule: shift_down.induct)
  case (1 j depth ls)
  show ?case
  proof (cases "j + 1 < depth")
    case True
    then have "shift_down j depth ls ! k = shift_down (j + 1) depth (ls[j := ls ! (j + 1)]) ! k"
      by (simp add: shift_down.simps [of j])
    also have "\<dots> = (if j + 1 \<le> k \<and> k + 1 < depth then ls[j := ls ! (j + 1)] ! (k + 1)
                     else ls[j := ls ! (j + 1)] ! k)"
      using 1 True by simp
    finally show ?thesis using True 1 by (auto simp: nth_list_update)
  next
    case False
    then show ?thesis by (simp add: shift_down.simps [of j])
  qed
qed

lemma take_shift_up_update:
  assumes "pos \<le> depth" and "depth < length ls"
  shows "take (depth + 1) ((shift_up depth pos ls)[pos := x]) =
         take pos ls @ x # drop pos (take depth ls)"
  using assms by (intro nth_equalityI)
    (auto simp: nth_shift_up nth_append nth_list_update nth_Cons' min_def split: if_splits)

lemma take_shift_down:
  assumes "j < depth" and "depth \<le> length ls"
  shows "take (depth - 1) ((shift_down j depth ls)[depth - 1 := d]) =
         take j ls @ drop (j + 1) (take depth ls)"
  using assms by (intro nth_equalityI)
    (auto simp: nth_shift_down nth_append nth_list_update min_def split: if_splits)

section \<open>Sorted insertion\<close>

lemma put_level_pos:
  assumes "pos = length (takeWhile (\<lambda>l. better is_bid (pl_price l) (pl_price x)) ls)"
  shows "put_level (better is_bid) x ls =
    (if pos < length ls \<and> pl_price (ls ! pos) = pl_price x then ls[pos := x]
     else take pos ls @ x # drop pos ls)"
proof -
  have tw: "takeWhile (\<lambda>l. better is_bid (pl_price l) (pl_price x)) ls = take pos ls"
    unfolding assms by (rule takeWhile_eq_take)
  have dw: "dropWhile (\<lambda>l. better is_bid (pl_price l) (pl_price x)) ls = drop pos ls"
    unfolding assms by (rule dropWhile_eq_drop)
  show ?thesis
  proof (cases "pos < length ls")
    case True
    then have "drop pos ls \<noteq> []" and "hd (drop pos ls) = ls ! pos" and "tl (drop pos ls) = drop (Suc pos) ls"
      by (simp_all add: hd_drop_conv_nth drop_Suc tl_drop)
    then show ?thesis
      unfolding pp.put_level_decomp tw dw Let_def using True by (simp add: upd_conv_take_nth_drop)
  next
    case False
    then show ?thesis unfolding pp.put_level_decomp tw dw Let_def by simp
  qed
qed

definition side_wf :: "book_side \<Rightarrow> bool" where
  "side_wf b \<longleftrightarrow> length (bs_array b) = MAX_DEPTH \<and> bs_depth b \<le> MAX_DEPTH"

lemma side_inv_wf: "side_inv is_bid b \<Longrightarrow> side_wf b"
  by (simp add: side_inv_def side_wf_def)

lemma length_levels: "side_wf b \<Longrightarrow> length (bs_levels b) = bs_depth b"
  by (simp add: side_wf_def bs_levels_def)

lemma insert_sorted_room:
  assumes "side_wf b" and "bs_depth b < MAX_DEPTH"
  shows "bs_levels (insert_sorted x is_bid b) = put_level (better is_bid) x (bs_levels b)"
    and "side_wf (insert_sorted x is_bid b)"
proof -
  define pos where "pos = find_pos is_bid (pl_price x) (bs_array b) 0 (bs_depth b)"
  have pos: "pos = length (takeWhile (\<lambda>l. better is_bid (pl_price l) (pl_price x)) (bs_levels b))"
    by (simp add: pos_def find_pos_eq bs_levels_def)
  have le: "pos \<le> bs_depth b"
    unfolding pos using length_takeWhile_le length_levels [OF assms(1)] by metis
  have len: "length (bs_array b) = MAX_DEPTH" using assms by (simp add: side_wf_def)
  show "bs_levels (insert_sorted x is_bid b) = put_level (better is_bid) x (bs_levels b)"
  proof (cases "pos < bs_depth b \<and> pl_price (bs_array b ! pos) = pl_price x")
    case True
    then have "bs_levels (insert_sorted x is_bid b) = (bs_levels b)[pos := x]"
      using assms by (simp add: insert_sorted_def bs_levels_def pos_def [symmetric] take_update_swap)
    then show ?thesis
      unfolding put_level_pos [OF pos] using True len assms by (simp add: bs_levels_def)
  next
    case False
    then have "bs_levels (insert_sorted x is_bid b) =
        take (bs_depth b + 1) ((shift_up (bs_depth b) pos (bs_array b))[pos := x])"
      using assms by (auto simp: insert_sorted_def bs_levels_def pos_def [symmetric] Let_def)
    also have "\<dots> = take pos (bs_array b) @ x # drop pos (bs_levels b)"
      using take_shift_up_update [OF le] assms len by (simp add: bs_levels_def)
    finally show ?thesis
      unfolding put_level_pos [OF pos] using False len assms le by (auto simp: bs_levels_def min_def)
  qed
  show "side_wf (insert_sorted x is_bid b)"
    using assms by (auto simp: insert_sorted_def side_wf_def Let_def)
qed

text \<open>A full side first gives up its worst level, and then has room.\<close>

definition bs_evict :: "book_side \<Rightarrow> book_side" where
  "bs_evict b = b\<lparr>bs_depth := bs_depth b - 1\<rparr>"

lemma insert_sorted_full:
  assumes "side_wf b" and "bs_depth b = MAX_DEPTH"
    and "better is_bid (pl_price x) (pl_price (last (bs_levels b)))"
  shows "insert_sorted x is_bid b = insert_sorted x is_bid (bs_evict b)"
    and "side_wf (bs_evict b)" and "bs_levels (bs_evict b) = butlast (bs_levels b)"
proof -
  have "last (bs_levels b) = bs_array b ! (bs_depth b - 1)"
    using assms by (subst last_conv_nth) (auto simp: bs_levels_def side_wf_def MAX_DEPTH_def)
  then show "insert_sorted x is_bid b = insert_sorted x is_bid (bs_evict b)"
    using assms by (simp add: insert_sorted_def bs_evict_def Let_def MAX_DEPTH_def)
  show "side_wf (bs_evict b)" using assms by (simp add: side_wf_def bs_evict_def)
  show "bs_levels (bs_evict b) = butlast (bs_levels b)"
    using assms by (simp add: bs_levels_def bs_evict_def side_wf_def butlast_conv_take)
qed

lemma insert_sorted_discard:
  assumes "side_wf b" and "bs_depth b = MAX_DEPTH"
    and "\<not> better is_bid (pl_price x) (pl_price (last (bs_levels b)))"
  shows "insert_sorted x is_bid b = b"
proof -
  have "last (bs_levels b) = bs_array b ! (bs_depth b - 1)"
    using assms by (subst last_conv_nth) (auto simp: bs_levels_def side_wf_def MAX_DEPTH_def)
  then show ?thesis using assms by (simp add: insert_sorted_def)
qed

lemma put_level_butlast:
  assumes "ls \<noteq> []" and "better is_bid (pl_price x) (pl_price (last ls))"
    and "pl_price x \<notin> pl_price ` set ls"
  shows "take (length ls) (put_level (better is_bid) x ls) = put_level (better is_bid) x (butlast ls)"
  using assms
proof (induction ls)
  case (Cons l ls)
  then show ?case
    by (cases ls) (auto simp: better_def take_Cons' butlast_conv_take split: if_splits)
qed simp

lemma sorted_last_worst:
  assumes "sorted_wrt (better is_bid) (map pl_price ls)" and "better is_bid (pl_price (last ls)) p"
  shows "\<forall>l \<in> set ls. better is_bid (pl_price l) p"
  using assms
  by (induction ls) (auto simp: better_def split: if_splits dest!: bspec [OF _ last_in_set])

theorem insert_sorted_refines:
  assumes "side_inv is_bid b" and "bs_depth b < MAX_DEPTH \<or> pl_price x \<notin> pl_price ` set (bs_levels b)"
  shows "bs_levels (insert_sorted x is_bid b) = insert_spec is_bid x (bs_levels b)"
proof (cases "bs_depth b < MAX_DEPTH")
  case True
  then show ?thesis
    using insert_sorted_room [OF side_inv_wf [OF assms(1)] True, of x is_bid] length_levels
      insert_sorted_room(2)
    by (metis insert_spec_def length_levels side_wf_def take_all)
next
  case False
  have wf: "side_wf b" by (rule side_inv_wf [OF assms(1)])
  have full: "bs_depth b = MAX_DEPTH" using False wf by (simp add: side_wf_def)
  have ne: "bs_levels b \<noteq> []" using length_levels [OF wf] full by (auto simp: MAX_DEPTH_def)
  have new: "pl_price x \<notin> pl_price ` set (bs_levels b)" using assms(2) False by simp
  show ?thesis
  proof (cases "better is_bid (pl_price x) (pl_price (last (bs_levels b)))")
    case True
    have "bs_depth (bs_evict b) < MAX_DEPTH" by (simp add: bs_evict_def full MAX_DEPTH_def)
    then show ?thesis
      using insert_sorted_full [OF wf full True] insert_sorted_room(1)
        put_level_butlast [OF ne True new] length_levels [OF wf] full
      by (simp add: insert_spec_def)
  next
    case worse: False
    have "better is_bid (pl_price (last (bs_levels b))) (pl_price x)"
      using worse new ne pp.pri_total [of "pl_price x" "pl_price (last (bs_levels b))" is_bid]
      by (metis image_eqI last_in_set)
    then have "put_level (better is_bid) x (bs_levels b) = bs_levels b @ [x]"
      using assms(1) by (intro pp.put_level_last sorted_last_worst) (auto simp: side_inv_def)
    then show ?thesis
      using insert_sorted_discard [OF wf full worse] length_levels [OF wf] full
      by (simp add: insert_spec_def)
  qed
qed

section \<open>Removal and update in place\<close>

lemma find_price_Some:
  assumes "find_price p b = Some i"
  shows "i < bs_depth b" and "pl_price (bs_array b ! i) = p"
  using assms by (auto simp: find_price_def find_Some_iff)

lemma find_price_None:
  assumes "side_wf b"
  shows "find_price p b = None \<longleftrightarrow> p \<notin> pl_price ` set (bs_levels b)"
proof -
  have "set (bs_levels b) = (\<lambda>i. bs_array b ! i) ` {0..<bs_depth b}"
    using assms by (auto simp: bs_levels_def side_wf_def nth_image [symmetric])
  then show ?thesis by (auto simp: find_price_def find_None_iff)
qed

lemma filter_price_neq:
  assumes "distinct (map pl_price ls)" and "i < length ls" and "pl_price (ls ! i) = p"
  shows "filter (\<lambda>l. pl_price l \<noteq> p) ls = take i ls @ drop (i + 1) ls"
proof -
  have ls: "ls = take i ls @ ls ! i # drop (Suc i) ls" using assms(2) by (rule id_take_nth_drop)
  have "distinct (map pl_price (take i ls @ ls ! i # drop (Suc i) ls))"
    using assms(1) ls by metis
  then have "\<forall>l \<in> set (take i ls @ drop (Suc i) ls). pl_price l \<noteq> p"
    using assms(3) by (auto simp: image_iff)
  then have "filter (\<lambda>l. pl_price l \<noteq> p) (take i ls @ ls ! i # drop (Suc i) ls) =
    take i ls @ drop (i + 1) ls"
    using assms(3) by simp
  then show ?thesis using ls by metis
qed

lemma level_at_filter: "level_at (filter (\<lambda>l. pl_price l \<noteq> p) ls) = (level_at ls)(p := None)"
  by (induction ls) (auto simp: level_at_def fun_eq_iff)

lemma level_at_update:
  assumes "distinct (map pl_price ls)" and "i < length ls" and "pl_price (ls ! i) = pl_price x"
  shows "level_at (ls[i := x]) = (level_at ls)(pl_price x \<mapsto> x)"
  using assms
proof (induction ls arbitrary: i)
  case (Cons l ls)
  show ?case
  proof (cases i)
    case 0
    then show ?thesis using Cons.prems by (simp add: level_at_def fun_eq_iff)
  next
    case (Suc j)
    have "pl_price x \<in> pl_price ` set ls"
      using Suc Cons.prems by (metis Suc_less_eq image_eqI length_Cons nth_Cons_Suc nth_mem)
    then have "pl_price l \<noteq> pl_price x" using Cons.prems(1) by auto
    then show ?thesis
      using Suc Cons.IH [of j] Cons.prems by (simp add: level_at_def fun_eq_iff)
  qed
qed simp

lemma side_inv_distinct: "side_inv is_bid b \<Longrightarrow> distinct (map pl_price (bs_levels b))"
  by (auto simp: side_inv_def intro: pp.sorted_distinct_prices)

lemma bs_remove_levels:
  assumes "side_inv is_bid b"
  shows "bs_levels (bs_remove p b) = filter (\<lambda>l. pl_price l \<noteq> p) (bs_levels b)"
    and "side_wf (bs_remove p b)"
proof -
  have wf: "side_wf b" by (rule side_inv_wf [OF assms])
  show "bs_levels (bs_remove p b) = filter (\<lambda>l. pl_price l \<noteq> p) (bs_levels b)"
  proof (cases "find_price p b")
    case None
    then have "filter (\<lambda>l. pl_price l \<noteq> p) (bs_levels b) = bs_levels b"
      using find_price_None [OF wf] by (auto intro!: filter_True)
    then show ?thesis using None by (simp add: bs_remove_def)
  next
    case (Some i)
    note i = find_price_Some [OF Some]
    have "bs_levels (bs_remove p b) = take i (bs_levels b) @ drop (i + 1) (bs_levels b)"
      using take_shift_down [OF i(1), of "bs_array b" default_level] wf i(1)
      by (simp add: Some bs_remove_def bs_levels_def side_wf_def min_def)
    then show ?thesis
      using filter_price_neq [OF side_inv_distinct [OF assms], of i p] i wf
      by (simp add: length_levels) (simp add: bs_levels_def)
  qed
  show "side_wf (bs_remove p b)"
    using wf by (auto simp: bs_remove_def side_wf_def split: option.splits)
qed

lemma sorted_wrt_map_filter:
  "sorted_wrt r (map f xs) \<Longrightarrow> sorted_wrt r (map f (filter P xs))"
  by (induction xs) auto

lemma side_inv_alt:
  "side_inv is_bid b \<longleftrightarrow> side_wf b \<and> sorted_wrt (better is_bid) (map pl_price (bs_levels b)) \<and>
     (\<forall>l \<in> set (bs_levels b). pl_quantity l > 0)"
  by (auto simp: side_inv_def side_wf_def)

lemma bs_remove_inv [keeps]: "side_inv is_bid b \<Longrightarrow> side_inv is_bid (bs_remove p b)"
  using bs_remove_levels [of is_bid b p] by (simp add: side_inv_alt sorted_wrt_map_filter)

lemma bs_evict_inv:
  assumes "side_inv is_bid b" and "bs_depth b = MAX_DEPTH"
  shows "side_inv is_bid (bs_evict b)"
proof -
  have "bs_levels (bs_evict b) = butlast (bs_levels b)"
    using assms by (simp add: bs_levels_def bs_evict_def side_inv_def butlast_conv_take)
  then have l: "bs_levels (bs_evict b) = take (bs_depth b - 1) (bs_levels b)"
    using assms length_levels [OF side_inv_wf [OF assms(1)]] by (simp add: butlast_conv_take)
  show ?thesis
    using assms unfolding side_inv_alt l
    by (auto simp: take_map [symmetric] sorted_wrt_take side_wf_def bs_evict_def dest: in_set_takeD)
qed

lemma insert_room_inv:
  assumes "side_inv is_bid b" and "bs_depth b < MAX_DEPTH" and "pl_quantity x > 0"
  shows "side_inv is_bid (insert_sorted x is_bid b)"
  using assms insert_sorted_room [OF side_inv_wf [OF assms(1)] assms(2), of x is_bid]
  by (auto simp: side_inv_alt pp.put_level_sorted pp.put_level_set)

lemma insert_sorted_inv [keeps]:
  assumes "side_inv is_bid b" and "pl_quantity x > 0"
  shows "side_inv is_bid (insert_sorted x is_bid b)"
proof (cases "bs_depth b < MAX_DEPTH")
  case True
  then show ?thesis using insert_room_inv assms by blast
next
  case False
  have wf: "side_wf b" by (rule side_inv_wf [OF assms(1)])
  have full: "bs_depth b = MAX_DEPTH" using False wf by (simp add: side_wf_def)
  show ?thesis
  proof (cases "better is_bid (pl_price x) (pl_price (last (bs_levels b)))")
    case True
    have "bs_depth (bs_evict b) < MAX_DEPTH" by (simp add: bs_evict_def full MAX_DEPTH_def)
    then show ?thesis
      unfolding insert_sorted_full(1) [OF wf full True]
      by (rule insert_room_inv [OF bs_evict_inv [OF assms(1) full] _ assms(2)])
  qed (simp add: insert_sorted_discard [OF wf full] assms(1))
qed

lemma bs_clear_inv [keeps]: "side_inv is_bid b \<Longrightarrow> side_inv is_bid' (bs_clear b)"
  by (simp add: side_inv_def bs_clear_def bs_levels_def)

lemma bs_new_inv [keeps]: "side_inv is_bid bs_new"
  by (simp add: side_inv_def bs_new_def bs_levels_def)

section \<open>Update\<close>

text \<open>The direction \<open>update\<close> infers from the first two levels is the direction of the side.\<close>

lemma direction_inferred:
  assumes "side_inv is_bid b" and "bs_depth b \<ge> 2"
  shows "(pl_price (bs_array b ! 0) > pl_price (bs_array b ! 1)) = is_bid"
proof -
  have "better is_bid (map pl_price (bs_levels b) ! 0) (map pl_price (bs_levels b) ! 1)"
    using assms length_levels [OF side_inv_wf [OF assms(1)]]
    by (intro sorted_wrt_nth_less [of "better is_bid" "map pl_price (bs_levels b)"])
       (simp_all add: side_inv_def)
  then show ?thesis
    using assms by (auto simp: bs_levels_def better_def side_inv_def split: if_splits)
qed

lemma bs_update_new:
  assumes "side_inv is_bid b" and "is_bid \<or> bs_depth b \<noteq> 1" and "find_price p b = None" and "qty > 0"
  shows "bs_update p qty cnt b =
    insert_sorted \<lparr>pl_price = p, pl_quantity = qty, pl_order_count = cnt\<rparr> is_bid b"
proof -
  consider "bs_depth b = 0" | "bs_depth b = 1" | "bs_depth b \<ge> 2" by linarith
  then show ?thesis
  proof cases
    case 1
    then show ?thesis
      using assms by (cases b; cases "bs_array b")
        (auto simp: bs_update_def insert_sorted_def MAX_DEPTH_def Let_def side_inv_def shift_up.simps)
  next
    case 2
    then have "pl_price (bs_array b ! 0) \<noteq> p"
      using assms(3) by (simp add: find_price_def split: if_splits)
    then have "(p > pl_price (bs_array b ! 0) \<or> pl_price (bs_array b ! 0) > p) = is_bid"
      using 2 assms(2) by auto
    then show ?thesis using 2 assms by (simp add: bs_update_def Let_def)
  next
    case 3
    then show ?thesis using direction_inferred [OF assms(1) 3] assms by (simp add: bs_update_def Let_def)
  qed
qed


lemma bs_update_found:
  assumes "side_inv is_bid b" and "find_price p b = Some i" and "qty > 0"
    and x_def: "x = \<lparr>pl_price = p, pl_quantity = qty, pl_order_count = cnt\<rparr>"
  shows "bs_levels (bs_update p qty cnt b) = (bs_levels b)[i := x]"
    and "side_inv is_bid (bs_update p qty cnt b)"
proof -
  note i = find_price_Some [OF assms(2)]
  have wf: "side_wf b" by (rule side_inv_wf [OF assms(1)])
  have il: "i < length (bs_levels b)" "pl_price (bs_levels b ! i) = p"
    using i by (simp_all add: length_levels [OF wf]) (simp add: bs_levels_def)
  have "(bs_array b ! i)\<lparr>pl_quantity := qty, pl_order_count := cnt\<rparr> = x"
    using i(2) by (simp add: x_def)
  then show l: "bs_levels (bs_update p qty cnt b) = (bs_levels b)[i := x]"
    using assms(2,3) by (simp add: bs_update_def bs_levels_def take_update_swap)
  have "map pl_price ((bs_levels b)[i := x]) = map pl_price (bs_levels b)"
    using il by (simp add: map_update x_def list_update_same_conv)
  moreover have "side_wf (bs_update p qty cnt b)"
    using wf assms(2,3) by (simp add: bs_update_def side_wf_def)
  ultimately show "side_inv is_bid (bs_update p qty cnt b)"
    using assms(1,3) unfolding side_inv_alt l
    by (auto simp: x_def dest!: set_update_subset_insert [THEN subsetD])
qed

lemma bs_update_inv [keeps]:
  assumes "side_inv is_bid b" and "is_bid \<or> bs_depth b \<noteq> 1"
  shows "side_inv is_bid (bs_update p qty cnt b)"
proof (cases "qty > 0")
  case True
  show ?thesis
  proof (cases "find_price p b")
    case None
    then show ?thesis using bs_update_new [OF assms None True] insert_sorted_inv [OF assms(1)] True by simp
  next
    case (Some i)
    then show ?thesis using bs_update_found(2) [OF assms(1) Some True] by simp
  qed
next
  case False
  then show ?thesis
    using assms bs_remove_inv by (cases "find_price p b") (auto simp: bs_update_def)
qed

text \<open>
  On a side with room, \<open>update\<close> is the update of the price-to-level map: a positive quantity
  maps the price to the new level, any other quantity removes it.
\<close>

lemma bs_update_map:
  assumes "side_inv is_bid b" and "is_bid \<or> bs_depth b \<noteq> 1" and "bs_depth b < MAX_DEPTH"
  shows "level_at (bs_levels (bs_update p qty cnt b)) =
    (level_at (bs_levels b))(p :=
       if qty > 0 then Some \<lparr>pl_price = p, pl_quantity = qty, pl_order_count = cnt\<rparr> else None)"
proof (cases "find_price p b")
  case None
  let ?x = "\<lparr>pl_price = p, pl_quantity = qty, pl_order_count = cnt\<rparr>"
  have wf: "side_wf b" and s: "sorted_wrt (better is_bid) (map pl_price (bs_levels b))"
    using assms(1) by (simp_all add: side_inv_alt)
  have "p \<notin> pl_price ` set (bs_levels b)" using None find_price_None [OF wf] by simp
  then have absent: "level_at (bs_levels b) p = None"
    by (auto simp: level_at_def map_of_eq_None_iff image_image)
  show ?thesis
  proof (cases "qty > 0")
    case True
    then show ?thesis
      using bs_update_new [OF assms(1,2) None True] insert_sorted_room(1) [OF wf assms(3)]
        pp.put_level_at [OF s, of ?x] by simp
  next
    case False
    then show ?thesis using None absent by (simp add: bs_update_def fun_upd_idem)
  qed
next
  case (Some i)
  note i = find_price_Some [OF Some]
  show ?thesis
  proof (cases "qty > 0")
    case True
    have "i < length (bs_levels b)" "pl_price (bs_levels b ! i) = p"
      using i length_levels [OF side_inv_wf [OF assms(1)]] by (simp_all, simp add: bs_levels_def)
    then show ?thesis
      using bs_update_found(1) [OF assms(1) Some True] True
        level_at_update [OF side_inv_distinct [OF assms(1)]] by simp
  next
    case False
    then show ?thesis
      using Some bs_remove_levels(1) [OF assms(1)] by (simp add: bs_update_def level_at_filter)
  qed
qed

section \<open>Two orderings that go wrong\<close>

text \<open>
  With one level, \<open>update\<close> always inserts in the direction of bids: on an ask side a second
  price, lower or higher, ends up on the wrong side of the first one.
\<close>

lemma bs_update_one_ask:
  assumes "side_inv False b" and "bs_depth b = 1" and "pl_price (bs_best b) \<noteq> p" and "qty > 0"
  shows "\<not> side_inv False (bs_update p qty cnt b)"
proof -
  have wf: "side_wf b" by (rule side_inv_wf [OF assms(1)])
  obtain l where l: "bs_levels b = [l]"
    using length_levels [OF wf] assms(2) by (auto simp: length_Suc_conv)
  then have best: "l = bs_array b ! 0"
    using assms(2) wf by (cases "bs_array b") (auto simp: bs_levels_def)
  have "find_price p b = None"
    using assms(3) find_price_None [OF wf] l best by (simp add: bs_best_def)
  moreover have "(p > pl_price (bs_array b ! 0) \<or> pl_price (bs_array b ! 0) > p) = True"
    using assms(3) by (auto simp: bs_best_def)
  ultimately have "bs_update p qty cnt b =
      insert_sorted \<lparr>pl_price = p, pl_quantity = qty, pl_order_count = cnt\<rparr> True b"
    using assms(2,4) by (simp add: bs_update_def Let_def)
  moreover have "bs_depth b < MAX_DEPTH" using assms(2) by (simp add: MAX_DEPTH_def)
  ultimately have "bs_levels (bs_update p qty cnt b) =
      put_level (better True) \<lparr>pl_price = p, pl_quantity = qty, pl_order_count = cnt\<rparr> [l]"
    using insert_sorted_room(1) [OF wf] l by simp
  then show ?thesis
    using assms(3) by (auto simp: side_inv_def better_def bs_best_def best)
qed

text \<open>
  On a full side, replacing the level of a known price that is not the worst one costs the
  worst level: one price disappears although nothing was added.
\<close>

lemma insert_known_price_full:
  assumes "side_inv is_bid b" and "bs_depth b = MAX_DEPTH"
    and "pl_price x \<in> pl_price ` set (butlast (bs_levels b))" and "pl_quantity x > 0"
  shows "bs_depth (insert_sorted x is_bid b) = MAX_DEPTH - 1"
    and "pl_price (last (bs_levels b)) \<notin> pl_price ` set (bs_levels (insert_sorted x is_bid b))"
proof -
  have wf: "side_wf b" by (rule side_inv_wf [OF assms(1)])
  have ne: "bs_levels b \<noteq> []" using length_levels [OF wf] assms(2) by (auto simp: MAX_DEPTH_def)
  have sb: "sorted_wrt (better is_bid) (map pl_price (butlast (bs_levels b) @ [last (bs_levels b)]))"
    using assms(1) ne by (simp add: side_inv_def)
  then have bet: "better is_bid (pl_price x) (pl_price (last (bs_levels b)))"
    using assms(3) by (auto simp: sorted_wrt_append)
  note ev = insert_sorted_full [OF wf assms(2) bet]
  have room: "bs_depth (bs_evict b) < MAX_DEPTH" by (simp add: bs_evict_def assms(2) MAX_DEPTH_def)
  have lev: "bs_levels (insert_sorted x is_bid b) = put_level (better is_bid) x (butlast (bs_levels b))"
    using insert_sorted_room(1) [OF ev(2) room] ev by simp
  have srt: "sorted_wrt (better is_bid) (map pl_price (butlast (bs_levels b)))"
    using sb by (simp add: sorted_wrt_append)
  have pset: "pl_price ` set (put_level (better is_bid) x (butlast (bs_levels b))) =
      pl_price ` set (butlast (bs_levels b))"
    using assms(3) by (auto simp: pp.put_level_set [OF srt])
  have "\<not> better is_bid p p" for p by (simp add: better_def)
  then show "pl_price (last (bs_levels b)) \<notin> pl_price ` set (bs_levels (insert_sorted x is_bid b))"
    unfolding lev pset using sb by (auto simp: sorted_wrt_append)
  have "card (pl_price ` set (bs_levels (insert_sorted x is_bid b))) = bs_depth (insert_sorted x is_bid b)"
    using distinct_card [OF side_inv_distinct [OF insert_sorted_inv [OF assms(1,4)]]]
      length_levels [OF side_inv_wf [OF insert_sorted_inv [OF assms(1,4)]]] by simp
  moreover have "card (pl_price ` set (butlast (bs_levels b))) = MAX_DEPTH - 1"
    using distinct_card [OF pp.sorted_distinct_prices [OF srt]] length_levels [OF wf] assms(2) by simp
  ultimately show "bs_depth (insert_sorted x is_bid b) = MAX_DEPTH - 1"
    unfolding lev pset by simp
qed

section \<open>Prices and quantities of a book\<close>

lemma sum_while_exact:
  assumes "0 \<le> acc" and "\<forall>l \<in> set ls. pl_quantity l \<ge> 0"
    and "acc + (\<Sum>l \<leftarrow> ls. pl_quantity l) < 2 ^ 63"
  shows "sum_while ok ls acc = acc + (\<Sum>l \<leftarrow> takeWhile (\<lambda>l. ok (pl_price l)) ls. pl_quantity l)"
  using assms
proof (induction ls arbitrary: acc)
  case (Cons l ls)
  have "0 \<le> (\<Sum>l \<leftarrow> ls. pl_quantity l)" using Cons.prems by (intro sum_list_nonneg_map) auto
  then have "i64 (acc + pl_quantity l) = acc + pl_quantity l" using Cons.prems by (intro i64_small) auto
  then show ?case using Cons.IH [of "acc + pl_quantity l"] Cons.prems by auto
qed simp

lemma takeWhile_at_or_better:
  assumes "sorted_wrt (better is_bid) (map pl_price ls)"
  shows "takeWhile (\<lambda>l. \<not> better is_bid p (pl_price l)) ls = filter (\<lambda>l. \<not> better is_bid p (pl_price l)) ls"
  using assms
proof (induction ls)
  case (Cons l ls)
  show ?case
  proof (cases "better is_bid p (pl_price l)")
    case True
    then have "\<forall>l' \<in> set ls. better is_bid p (pl_price l')"
      using Cons.prems by (auto intro: pp.pri_trans)
    then show ?thesis using True by simp
  qed (use Cons in simp)
qed simp

definition side_of :: "side \<Rightarrow> order_book \<Rightarrow> book_side" where
  "side_of s bk = (if s = Buy then ob_bids bk else ob_asks bk)"

definition book_inv :: "order_book \<Rightarrow> bool" where
  "book_inv bk \<longleftrightarrow> side_inv True (ob_bids bk) \<and> side_inv False (ob_asks bk)"

lemma book_inv_side: "book_inv bk \<Longrightarrow> side_inv (s = Buy) (side_of s bk)"
  by (cases s) (auto simp: book_inv_def side_of_def)

lemma quantity_at_or_better_sum:
  assumes "book_inv bk" and "(\<Sum>l \<leftarrow> bs_levels (side_of s bk). pl_quantity l) < 2 ^ 63"
  shows "quantity_at_or_better s p bk =
    (\<Sum>l \<leftarrow> filter (\<lambda>l. \<not> better (s = Buy) p (pl_price l)) (bs_levels (side_of s bk)). pl_quantity l)"
proof -
  note inv = book_inv_side [OF assms(1), of s]
  have "quantity_at_or_better s p bk =
      sum_while (\<lambda>q. \<not> better (s = Buy) p q) (bs_levels (side_of s bk)) 0"
    by (cases s) (simp_all add: quantity_at_or_better_def side_of_def bs_levels_def better_def not_less)
  also have "\<dots> = (\<Sum>l \<leftarrow> takeWhile (\<lambda>l. \<not> better (s = Buy) p (pl_price l)) (bs_levels (side_of s bk)).
      pl_quantity l)"
    using assms(2) inv sum_while_exact [of 0 "bs_levels (side_of s bk)" "\<lambda>q. \<not> better (s = Buy) p q"]
    by (auto simp: side_inv_def less_imp_le)
  also have "takeWhile (\<lambda>l. \<not> better (s = Buy) p (pl_price l)) (bs_levels (side_of s bk)) =
      filter (\<lambda>l. \<not> better (s = Buy) p (pl_price l)) (bs_levels (side_of s bk))"
    using inv by (intro takeWhile_at_or_better) (simp add: side_inv_def)
  finally show ?thesis .
qed

lemma best_bid_highest:
  assumes "book_inv bk" and "l \<in> set (bs_levels (ob_bids bk))"
  shows "pl_price l \<le> best_bid bk" and "best_bid bk \<in> pl_price ` set (bs_levels (ob_bids bk))"
proof -
  have ne: "bs_levels (ob_bids bk) \<noteq> []" using assms(2) by auto
  have hd: "best_bid bk = pl_price (hd (bs_levels (ob_bids bk)))"
    using ne by (cases "bs_array (ob_bids bk)")
      (auto simp: best_bid_def bs_empty_def bs_best_def bs_levels_def take_Cons' split: if_splits)
  show "pl_price l \<le> best_bid bk"
    using pp.best_is_head [of True "bs_levels (ob_bids bk)" l] assms
    by (auto simp: hd better_def book_inv_def side_inv_def)
  show "best_bid bk \<in> pl_price ` set (bs_levels (ob_bids bk))" using ne by (simp add: hd)
qed

lemma best_ask_lowest:
  assumes "book_inv bk" and "l \<in> set (bs_levels (ob_asks bk))"
  shows "best_ask bk \<le> pl_price l" and "best_ask bk \<in> pl_price ` set (bs_levels (ob_asks bk))"
proof -
  have ne: "bs_levels (ob_asks bk) \<noteq> []" using assms(2) by auto
  have hd: "best_ask bk = pl_price (hd (bs_levels (ob_asks bk)))"
    using ne by (cases "bs_array (ob_asks bk)")
      (auto simp: best_ask_def bs_empty_def bs_best_def bs_levels_def take_Cons' split: if_splits)
  show "best_ask bk \<le> pl_price l"
    using pp.best_is_head [of False "bs_levels (ob_asks bk)" l] assms
    by (auto simp: hd better_def book_inv_def side_inv_def)
  show "best_ask bk \<in> pl_price ` set (bs_levels (ob_asks bk))" using ne by (simp add: hd)
qed

section \<open>A side as a transition system\<close>

datatype side_cmd = SC_Insert price_level | SC_Update price quantity int | SC_Remove price | SC_Clear

fun side_step :: "bool \<Rightarrow> side_cmd \<Rightarrow> book_side \<Rightarrow> book_side" where
  "side_step is_bid (SC_Insert l) b = insert_sorted l is_bid b"
| "side_step is_bid (SC_Update p qty cnt) b = bs_update p qty cnt b"
| "side_step is_bid (SC_Remove p) b = bs_remove p b"
| "side_step is_bid SC_Clear b = bs_clear b"

fun side_ok :: "bool \<Rightarrow> side_cmd \<Rightarrow> book_side \<Rightarrow> bool" where
  "side_ok is_bid (SC_Insert l) b = (pl_quantity l > 0)"
| "side_ok is_bid (SC_Update p qty cnt) b = (is_bid \<or> bs_depth b \<noteq> 1)"
| "side_ok is_bid _ b = True"

lemma side_step_inv: "side_inv is_bid b \<Longrightarrow> side_ok is_bid c b \<Longrightarrow> side_inv is_bid (side_step is_bid c b)"
  by (cases c) (simp_all add: keeps)

interpretation side: transition_system "side_step is_bid" bs_new "side_inv is_bid" "side_ok is_bid"
  for is_bid
  by unfold_locales (simp_all add: bs_new_inv side_step_inv)

section \<open>Properties\<close>

text \<open>Sides and books for the witnesses.\<close>

definition sample_level :: "price \<Rightarrow> quantity \<Rightarrow> price_level" where
  "sample_level p q = \<lparr>pl_price = p, pl_quantity = q, pl_order_count = 1\<rparr>"

definition ladder :: "nat \<Rightarrow> book_side" where
  "ladder n = \<lparr>bs_array = map (\<lambda>i. sample_level (100 - int i) 5) [0..<n] @
     replicate (MAX_DEPTH - n) default_level, bs_depth = n\<rparr>"

lemma ladder_levels: "n \<le> MAX_DEPTH \<Longrightarrow> bs_levels (ladder n) = map (\<lambda>i. sample_level (100 - int i) 5) [0..<n]"
  by (simp add: ladder_def bs_levels_def)

lemma ladder_depth [simp]: "bs_depth (ladder n) = n"
  by (simp add: ladder_def)

lemma ladder_inv: "n \<le> MAX_DEPTH \<Longrightarrow> side_inv True (ladder n)"
  by (auto simp: side_inv_def ladder_levels, simp_all add: ladder_def better_def sample_level_def
      sorted_wrt_map sorted_wrt_upt o_def)

text \<open>
  \<open>insertSorted\<close>, with its eviction test, search loop and shift loop on the fixed array, is
  sorted insertion on the list of levels in use: a level of the same price is replaced, otherwise
  the new level goes to its place by price, and at most \<open>MAX_DEPTH\<close> levels are kept. (The side
  must have room or not hold the price; the full case with a known price is the defect below.)
\<close>

theorem insert_is_sorted_insertion:
  assumes "side_inv is_bid b" and "bs_depth b < MAX_DEPTH \<or> pl_price x \<notin> pl_price ` set (bs_levels b)"
  shows "bs_levels (insert_sorted x is_bid b) = insert_spec is_bid x (bs_levels b)"
  using assms by (rule insert_sorted_refines)

theorem insert_is_sorted_insertion_witness:
  "bs_levels (insert_sorted (sample_level 99 7) True (ladder 2)) = [sample_level 100 5, sample_level 99 7]"
  using insert_is_sorted_insertion [OF ladder_inv, of 2 "sample_level 99 7"]
  by (simp add: ladder_levels MAX_DEPTH_def insert_spec_def better_def sample_level_def
      upt_conv_Cons numeral_2_eq_2)

text \<open>
  whatever sequence of insertions, updates, removals and clears is applied to a new side, its
  levels stay strictly ordered from best to worst, at most \<open>MAX_DEPTH\<close> of them, all with positive
  quantity. The calls excluded are insertions of an empty level and updates of an ask side that
  has exactly one level.
\<close>

theorem side_stays_sorted:
  assumes "legal (side_ok is_bid) (side_step is_bid) cs bs_new"
  shows "side_inv is_bid (run (side_step is_bid) cs bs_new)"
  using assms by (rule side.inv_run)

theorem side_stays_sorted_witness:
  "side_inv True (run (side_step True)
     [SC_Update 100 5 1, SC_Update 101 4 1, SC_Insert (sample_level 99 3), SC_Remove 100, SC_Update 101 0 0]
     bs_new)"
  by (rule side_stays_sorted) (simp add: sample_level_def)



text \<open>
  in a well-formed book \<open>best_bid\<close> is the highest bid and \<open>best_ask\<close> the lowest ask, and
  \<open>quantity_at_or_better\<close>, which stops at the first worse level, is the sum of the quantities of
  all levels at or better than the price.
\<close>

theorem book_queries_exact:
  assumes "book_inv bk" and "b \<in> set (bs_levels (ob_bids bk))" and "a \<in> set (bs_levels (ob_asks bk))"
    and "(\<Sum>l \<leftarrow> bs_levels (side_of s bk). pl_quantity l) < 2 ^ 63"
  shows "pl_price b \<le> best_bid bk \<and> best_bid bk \<in> pl_price ` set (bs_levels (ob_bids bk)) \<and>
    best_ask bk \<le> pl_price a \<and> best_ask bk \<in> pl_price ` set (bs_levels (ob_asks bk)) \<and>
    quantity_at_or_better s p bk =
      (\<Sum>l \<leftarrow> filter (\<lambda>l. \<not> better (s = Buy) p (pl_price l)) (bs_levels (side_of s bk)). pl_quantity l)"
  using assms best_bid_highest best_ask_lowest quantity_at_or_better_sum by blast

theorem book_queries_exact_witness:
  "quantity_at_or_better Buy 99 \<lparr>ob_symbol = ''A'', ob_venue = 1, ob_bids = ladder 3,
     ob_asks = insert_sorted (sample_level 103 9) False bs_new, ob_last_update = 0, ob_sequence = 0\<rparr> = 10"
proof -
  let ?bk = "\<lparr>ob_symbol = ''A'', ob_venue = 1, ob_bids = ladder 3,
     ob_asks = insert_sorted (sample_level 103 9) False bs_new, ob_last_update = 0, ob_sequence = 0\<rparr>"
  have asks: "bs_levels (insert_sorted (sample_level 103 9) False bs_new) = [sample_level 103 9]"
    using insert_sorted_refines [OF bs_new_inv, of "sample_level 103 9" False]
    by (simp add: insert_spec_def bs_new_def bs_levels_def MAX_DEPTH_def)
  have inv: "book_inv ?bk"
    by (simp add: book_inv_def ladder_inv MAX_DEPTH_def insert_sorted_inv bs_new_inv sample_level_def)
  have bids: "bs_levels (ladder 3) = [sample_level 100 5, sample_level 99 5, sample_level 98 5]"
    by (simp add: ladder_levels MAX_DEPTH_def upt_conv_Cons numeral_3_eq_3)
  show ?thesis
    using book_queries_exact [OF inv, of "sample_level 100 5" "sample_level 103 9" Buy 99]
    by (simp add: side_of_def asks bids better_def) (simp add: sample_level_def)
qed

text \<open>
  an ask side with one level is always ordered wrongly by \<open>update\<close> with a second price: the
  code then inserts in bid order, so the higher ask comes first and \<open>best_ask\<close> is not the lowest.
\<close>

theorem second_ask_misordered:
  assumes "side_inv False b" and "bs_depth b = 1" and "pl_price (bs_best b) \<noteq> p" and "qty > 0"
  shows "\<not> side_inv False (bs_update p qty cnt b)"
  using assms by (rule bs_update_one_ask)

theorem second_ask_misordered_witness:
  "\<not> side_inv False (bs_update 101 5 1 (ladder 1))"
  by (rule second_ask_misordered)
     (simp_all add: ladder_def side_inv_def bs_levels_def MAX_DEPTH_def sample_level_def bs_best_def)

text \<open>
  on a full side, \<open>insertSorted\<close> of a level whose price is already there (and is not the worst)
  first evicts the worst level and then only overwrites: the side is left with one level fewer.
\<close>

theorem full_side_loses_level:
  assumes "side_inv is_bid b" and "bs_depth b = MAX_DEPTH"
    and "pl_price x \<in> pl_price ` set (butlast (bs_levels b))" and "pl_quantity x > 0"
  shows "bs_depth (insert_sorted x is_bid b) = MAX_DEPTH - 1 \<and>
    pl_price (last (bs_levels b)) \<notin> pl_price ` set (bs_levels (insert_sorted x is_bid b))"
  using assms insert_known_price_full by blast

theorem full_side_loses_level_witness:
  "bs_depth (insert_sorted (sample_level 100 6) True (ladder MAX_DEPTH)) = 19"
proof -
  have "pl_price (sample_level 100 6) \<in> pl_price ` set (butlast (bs_levels (ladder MAX_DEPTH)))"
    by (auto simp: ladder_levels MAX_DEPTH_def sample_level_def map_butlast [symmetric] image_iff
        intro!: bexI [of _ "sample_level 100 5"])
       (simp add: upt_conv_Cons)
  from full_side_loses_level [OF ladder_inv _ this] show ?thesis
    by (simp add: sample_level_def MAX_DEPTH_def)
qed

end
