(* ===== verification/Aggregator.thy ===== *)
theory Aggregator
  imports Book
begin

text \<open>
  The market-data aggregator, from \<open>market_data/aggregator.h\<close> and \<open>market_data/aggregator.cpp\<close>.

  It keeps the last book each venue sent for each symbol, the registered venues in order of
  registration, and a cache of the national best bid and offer. Locks are not modelled: each
  method runs under the one mutex. Methods that read the clock take \<open>now\<close>; a call of the
  NBBO callback is an element of the returned list. The arrays of an aggregated book, with
  their counters, are the lists of the entries in use; \<open>MAX_DEPTH\<close> and \<open>MAX_VENUES\<close> (the
  size 16 of \<open>venue_breakdown\<close>) are their capacities. \<open>std::sort\<close> is the argument \<open>srt\<close>.
\<close>

section \<open>NBBO\<close>

record nbbo =
  nb_bid :: price
  nb_bid_qty :: quantity
  nb_bid_venue :: venue_id
  nb_ask :: price
  nb_ask_qty :: quantity
  nb_ask_venue :: venue_id
  nb_timestamp :: timestamp

definition default_nbbo :: nbbo where
  "default_nbbo = \<lparr>nb_bid = INVALID_PRICE, nb_bid_qty = 0, nb_bid_venue = 0,
     nb_ask = INVALID_PRICE, nb_ask_qty = 0, nb_ask_venue = 0, nb_timestamp = 0\<rparr>"

definition nbbo_spread :: "nbbo \<Rightarrow> price" where
  "nbbo_spread nb = (if nb_bid nb = INVALID_PRICE \<or> nb_ask nb = INVALID_PRICE then INVALID_PRICE
     else i64 (nb_ask nb - nb_bid nb))"

definition nbbo_mid_price :: "nbbo \<Rightarrow> price" where
  "nbbo_mid_price nb = (if nb_bid nb = INVALID_PRICE \<or> nb_ask nb = INVALID_PRICE then INVALID_PRICE
     else i64 (nb_bid nb + nb_ask nb) sdiv 2)"

definition nbbo_valid :: "nbbo \<Rightarrow> bool" where
  "nbbo_valid nb \<longleftrightarrow> nb_bid nb \<noteq> INVALID_PRICE \<and> nb_ask nb \<noteq> INVALID_PRICE \<and>
     nb_bid nb < nb_ask nb \<and> nb_bid_qty nb > 0 \<and> nb_ask_qty nb > 0"

section \<open>Aggregated book\<close>

record venue_quantity =
  vq_venue :: venue_id
  vq_quantity :: quantity

definition MAX_VENUES :: nat where "MAX_VENUES = 16"

record aggregated_level =
  al_price :: price
  al_total :: quantity
  al_breakdown :: "venue_quantity list"

definition add_venue :: "venue_id \<Rightarrow> quantity \<Rightarrow> aggregated_level \<Rightarrow> aggregated_level" where
  "add_venue v qty l =
     (if length (al_breakdown l) < MAX_VENUES
      then l\<lparr>al_breakdown := al_breakdown l @ [\<lparr>vq_venue = v, vq_quantity = qty\<rparr>],
             al_total := i64 (al_total l + qty)\<rparr>
      else l)"

record aggregated_book =
  ab_symbol :: symbol
  ab_nbbo :: nbbo
  ab_bids :: "aggregated_level list"
  ab_asks :: "aggregated_level list"

section \<open>The aggregator\<close>

record aggregator =
  ag_books :: "venue_id \<rightharpoonup> (symbol \<rightharpoonup> order_book)"
  ag_nbbo :: "symbol \<rightharpoonup> nbbo"
  ag_venues :: "venue_id list"
  ag_callback :: bool

definition ag_new :: aggregator where
  "ag_new = \<lparr>ag_books = Map.empty, ag_nbbo = Map.empty, ag_venues = [], ag_callback = False\<rparr>"

text \<open>\<open>venue_books_[venue_id]\<close> default-constructs a missing entry.\<close>

definition venue_map :: "venue_id \<Rightarrow> aggregator \<Rightarrow> symbol \<rightharpoonup> order_book" where
  "venue_map v ag = (case ag_books ag v of None \<Rightarrow> Map.empty | Some m \<Rightarrow> m)"

definition register_venue :: "venue_id \<Rightarrow> aggregator \<Rightarrow> aggregator" where
  "register_venue v ag =
     (if v \<in> set (ag_venues ag) then ag
      else ag\<lparr>ag_venues := ag_venues ag @ [v], ag_books := (ag_books ag)(v \<mapsto> venue_map v ag)\<rparr>)"

definition get_venue_book :: "venue_id \<Rightarrow> symbol \<Rightarrow> aggregator \<Rightarrow> order_book option" where
  "get_venue_book v symb ag =
     (case ag_books ag v of None \<Rightarrow> None | Some m \<Rightarrow> m symb)"

text \<open>The two halves of the loop body of \<open>recalculate_nbbo\<close>.\<close>

definition nbbo_bid_step :: "venue_id \<Rightarrow> order_book \<Rightarrow> nbbo \<Rightarrow> nbbo" where
  "nbbo_bid_step v book nb =
     (let bb = best_bid book; qty = pl_quantity (bs_best (ob_bids book))
      in if bb \<noteq> INVALID_PRICE
         then if nb_bid nb = INVALID_PRICE \<or> bb > nb_bid nb
              then nb\<lparr>nb_bid := bb, nb_bid_qty := qty, nb_bid_venue := v\<rparr>
              else if bb = nb_bid nb then nb\<lparr>nb_bid_qty := i64 (nb_bid_qty nb + qty)\<rparr>
              else nb
         else nb)"

definition nbbo_ask_step :: "venue_id \<Rightarrow> order_book \<Rightarrow> nbbo \<Rightarrow> nbbo" where
  "nbbo_ask_step v book nb =
     (let ba = best_ask book; qty = pl_quantity (bs_best (ob_asks book))
      in if ba \<noteq> INVALID_PRICE
         then if nb_ask nb = INVALID_PRICE \<or> ba < nb_ask nb
              then nb\<lparr>nb_ask := ba, nb_ask_qty := qty, nb_ask_venue := v\<rparr>
              else if ba = nb_ask nb then nb\<lparr>nb_ask_qty := i64 (nb_ask_qty nb + qty)\<rparr>
              else nb
         else nb)"

definition compute_nbbo :: "timestamp \<Rightarrow> symbol \<Rightarrow> aggregator \<Rightarrow> nbbo" where
  "compute_nbbo now symb ag =
     fold (\<lambda>v nb. case get_venue_book v symb ag of
                    None \<Rightarrow> nb
                  | Some book \<Rightarrow> nbbo_ask_step v book (nbbo_bid_step v book nb))
       (ag_venues ag) (default_nbbo\<lparr>nb_timestamp := now\<rparr>)"

definition get_nbbo :: "symbol \<Rightarrow> aggregator \<Rightarrow> nbbo" where
  "get_nbbo symb ag = (case ag_nbbo ag symb of None \<Rightarrow> default_nbbo | Some nb \<Rightarrow> nb)"

definition recalculate_nbbo :: "timestamp \<Rightarrow> symbol \<Rightarrow> aggregator \<Rightarrow> (symbol \<times> nbbo) list \<times> aggregator" where
  "recalculate_nbbo now symb ag =
     (let nb = compute_nbbo now symb ag;
          old_nbbo = get_nbbo symb ag;
          changed = nb_bid old_nbbo \<noteq> nb_bid nb \<or> nb_ask old_nbbo \<noteq> nb_ask nb \<or>
                    nb_bid_qty old_nbbo \<noteq> nb_bid_qty nb \<or> nb_ask_qty old_nbbo \<noteq> nb_ask_qty nb
      in (if ag_callback ag \<and> changed then [(symb, nb)] else [],
          ag\<lparr>ag_nbbo := (ag_nbbo ag)(symb \<mapsto> nb)\<rparr>))"

definition on_book_update ::
  "timestamp \<Rightarrow> venue_id \<Rightarrow> symbol \<Rightarrow> order_book \<Rightarrow> aggregator \<Rightarrow> (symbol \<times> nbbo) list \<times> aggregator" where
  "on_book_update now v symb book ag =
     recalculate_nbbo now symb
       (ag\<lparr>ag_books := (ag_books ag)(v \<mapsto> (venue_map v ag)(symb \<mapsto> book))\<rparr>)"

definition set_nbbo_callback :: "bool \<Rightarrow> aggregator \<Rightarrow> aggregator" where
  "set_nbbo_callback cb ag = ag\<lparr>ag_callback := cb\<rparr>"

text \<open>
  Time points are nanoseconds of the steady clock and \<open>0\<close> is the default time point;
  \<open>duration_cast\<close> to microseconds truncates.
\<close>

fun is_stale_from :: "timestamp \<Rightarrow> symbol \<Rightarrow> int \<Rightarrow> aggregator \<Rightarrow> venue_id list \<Rightarrow> bool" where
  "is_stale_from now symb max_age ag [] = True"
| "is_stale_from now symb max_age ag (v # vs) =
     (case get_venue_book v symb ag of
        Some book \<Rightarrow>
          if ob_last_update book \<noteq> 0 \<and> (now - ob_last_update book) sdiv 1000 \<le> max_age
          then False else is_stale_from now symb max_age ag vs
      | None \<Rightarrow> is_stale_from now symb max_age ag vs)"

definition is_stale :: "timestamp \<Rightarrow> symbol \<Rightarrow> int \<Rightarrow> aggregator \<Rightarrow> bool" where
  "is_stale now symb max_age ag = is_stale_from now symb max_age ag (ag_venues ag)"

record tagged_level =
  tg_price :: price
  tg_quantity :: quantity
  tg_venue :: venue_id

definition tag_levels :: "venue_id \<Rightarrow> book_side \<Rightarrow> tagged_level list" where
  "tag_levels v b = map (\<lambda>l. \<lparr>tg_price = pl_price l, tg_quantity = pl_quantity l, tg_venue = v\<rparr>)
     (filter level_valid (take (bs_depth b) (bs_array b)))"

definition collect_levels :: "(order_book \<Rightarrow> book_side) \<Rightarrow> symbol \<Rightarrow> aggregator \<Rightarrow> tagged_level list" where
  "collect_levels sd symb ag =
     concat (map (\<lambda>v. case get_venue_book v symb ag of
                         None \<Rightarrow> [] | Some book \<Rightarrow> tag_levels v (sd book)) (ag_venues ag))"

fun merge_levels :: "tagged_level list \<Rightarrow> aggregated_level list \<Rightarrow> aggregated_level list" where
  "merge_levels [] out = out"
| "merge_levels (t # ts) out =
     (if out \<noteq> [] \<and> al_price (last out) = tg_price t
      then merge_levels ts (butlast out @ [add_venue (tg_venue t) (tg_quantity t) (last out)])
      else if length out \<ge> MAX_DEPTH then out
      else merge_levels ts (out @ [add_venue (tg_venue t) (tg_quantity t)
             \<lparr>al_price = tg_price t, al_total = 0, al_breakdown = []\<rparr>]))"

type_synonym sorter = "(tagged_level \<Rightarrow> tagged_level \<Rightarrow> bool) \<Rightarrow> tagged_level list \<Rightarrow> tagged_level list"

definition build_aggregated_book :: "sorter \<Rightarrow> symbol \<Rightarrow> aggregator \<Rightarrow> aggregated_book \<Rightarrow> aggregated_book" where
  "build_aggregated_book srt symb ag out =
     (let all_bids = srt (\<lambda>a b. tg_price a > tg_price b) (collect_levels ob_bids symb ag);
          all_asks = srt (\<lambda>a b. tg_price a < tg_price b) (collect_levels ob_asks symb ag)
      in out\<lparr>ab_bids := merge_levels all_bids [], ab_asks := merge_levels all_asks []\<rparr>)"

definition get_aggregated_book :: "sorter \<Rightarrow> symbol \<Rightarrow> aggregator \<Rightarrow> aggregated_book" where
  "get_aggregated_book srt symb ag =
     build_aggregated_book srt symb ag
       \<lparr>ab_symbol = symb, ab_nbbo = get_nbbo symb ag, ab_bids = [], ab_asks = []\<rparr>"

section \<open>What the NBBO is\<close>

text \<open>
  A quote is a venue with the price and quantity at the top of one side of its book. The
  best of a list of quotes is a price no quote beats, with the total quantity quoted at
  that price and the first venue that quotes it.
\<close>

type_synonym quote = "venue_id \<times> price \<times> quantity"

definition quote_of :: "bool \<Rightarrow> order_book \<Rightarrow> price \<times> quantity" where
  "quote_of is_bid book =
     (if is_bid then (best_bid book, pl_quantity (bs_best (ob_bids book)))
      else (best_ask book, pl_quantity (bs_best (ob_asks book))))"

definition quotes :: "bool \<Rightarrow> symbol \<Rightarrow> aggregator \<Rightarrow> quote list" where
  "quotes is_bid symb ag =
     concat (map (\<lambda>v. case get_venue_book v symb ag of
                         None \<Rightarrow> []
                       | Some book \<Rightarrow> filter (\<lambda>(v, p, q). p \<noteq> INVALID_PRICE) [(v, quote_of is_bid book)])
                 (ag_venues ag))"

definition best_quote :: "bool \<Rightarrow> quote list \<Rightarrow> price \<Rightarrow> quantity \<Rightarrow> venue_id \<Rightarrow> bool" where
  "best_quote is_bid qs bp bq bv \<longleftrightarrow>
     (if qs = [] then bp = INVALID_PRICE \<and> bq = 0 \<and> bv = 0
      else (\<forall>(v, p, q) \<in> set qs. \<not> better is_bid p bp) \<and>
           bq = (\<Sum>(v, p, q) \<leftarrow> filter (\<lambda>(v, p, q). p = bp) qs. q) \<and>
           map_option (\<lambda>(v, p, q). (v, p)) (List.find (\<lambda>(v, p, q). p = bp) qs) = Some (bv, bp))"

fun quote_step :: "bool \<Rightarrow> quote \<Rightarrow> price \<times> quantity \<times> venue_id \<Rightarrow> price \<times> quantity \<times> venue_id" where
  "quote_step is_bid (v, p, q) (bp, bq, bv) =
     (if bp = INVALID_PRICE \<or> better is_bid p bp then (p, q, v)
      else if p = bp then (bp, i64 (bq + q), bv) else (bp, bq, bv))"

lemma find_append:
  "List.find P (xs @ ys) = (case List.find P xs of None \<Rightarrow> List.find P ys | Some x \<Rightarrow> Some x)"
  by (induction xs) auto

lemma quote_fold:
  assumes "\<forall>(v, p, q) \<in> set qs. p \<noteq> INVALID_PRICE \<and> 0 \<le> q"
    and "(\<Sum>(v, p, q) \<leftarrow> qs. q) < 2 ^ 63"
    and "fold (quote_step is_bid) qs (INVALID_PRICE, 0, 0) = (bp, bq, bv)"
  shows "best_quote is_bid qs bp bq bv"
  using assms
proof (induction qs arbitrary: bp bq bv rule: rev_induct)
  case Nil
  then show ?case by (simp add: best_quote_def)
next
  case (snoc x qs)
  obtain v p q where x: "x = (v, p, q)" by (cases x)
  obtain cp cq cv where c: "fold (quote_step is_bid) qs (INVALID_PRICE, 0, 0) = (cp, cq, cv)"
    by (cases "fold (quote_step is_bid) qs (INVALID_PRICE, 0, 0)")
  have p: "p \<noteq> INVALID_PRICE" and q: "0 \<le> q" using snoc.prems(1) x by auto
  have nn: "0 \<le> (\<Sum>(v, p, q) \<leftarrow> qs. q)" using snoc.prems(1) by (intro sum_list_nonneg_map) auto
  have IH: "best_quote is_bid qs cp cq cv"
    using snoc.prems q by (intro snoc.IH [OF _ _ c]) (auto simp: x)
  have step: "quote_step is_bid (v, p, q) (cp, cq, cv) = (bp, bq, bv)"
    using snoc.prems(3) by (simp add: c x)
  show ?case
  proof (cases "qs = []")
    case True
    then show ?thesis
      using IH step p by (auto simp: best_quote_def x better_def)
  next
    case False
    have cqe: "cq = (\<Sum>(v, p, q) \<leftarrow> filter (\<lambda>(v, p, q). p = cp) qs. q)"
      using IH False by (simp add: best_quote_def)
    have len: "cq \<le> (\<Sum>(v, p, q) \<leftarrow> qs. q)"
      unfolding cqe by (rule sum_list_map_filter_le) (use snoc.prems(1) in fastforce)
    have cq0: "0 \<le> cq"
      using IH False snoc.prems(1) by (auto simp: best_quote_def intro!: sum_list_nonneg_map)
    have mem: "\<exists>q. (cv, cp, q) \<in> set qs"
      using IH False by (auto simp: best_quote_def find_Some_iff) (metis nth_mem)
    then have cp: "cp \<noteq> INVALID_PRICE" using snoc.prems(1) by auto
    consider (new) "better is_bid p cp" | (same) "p = cp" | (worse) "better is_bid cp p"
      using pp.pri_total by blast
    then show ?thesis
    proof cases
      case new
      then have b: "bp = p" "bq = q" "bv = v" using step by auto
      have "better is_bid p p'" if "(v', p', q') \<in> set qs" for v' p' q'
      proof -
        have "\<not> better is_bid p' cp" using IH False that by (auto simp: best_quote_def)
        with new show ?thesis by (auto simp: better_def split: if_splits)
      qed
      then have none: "\<forall>(v', p', q') \<in> set qs. better is_bid p p'" by blast
      then have none': "\<forall>(v', p', q') \<in> set qs. p' \<noteq> p" using pp.pri_irrefl by fastforce
      then have "filter (\<lambda>(v, p', q). p' = p) qs = []" and "List.find (\<lambda>(v, p', q). p' = p) qs = None"
        by (auto simp: filter_empty_conv find_None_iff)
      moreover have "\<forall>(v', p', q') \<in> set qs. \<not> better is_bid p' p"
        using none by (auto simp: better_def split: if_splits)
      ultimately show ?thesis by (auto simp: best_quote_def x b find_append better_def)
    next
      case same
      have "i64 (cq + q) = cq + q" using snoc.prems(2) len q cq0 x by (intro i64_small) auto
      then have b: "bp = cp" "bq = cq + q" "bv = cv"
        using step cp same pp.pri_irrefl by auto
      show ?thesis
        using IH False same unfolding best_quote_def
        by (auto simp: x b find_append better_def split: option.splits)
    next
      case worse
      then have b: "bp = cp" "bq = cq" "bv = cv" and ne: "p \<noteq> cp" and nb: "\<not> better is_bid p cp"
        using step cp by (auto simp: better_def split: if_splits)
      show ?thesis
        using IH False ne nb unfolding best_quote_def
        by (auto simp: x b find_append split: option.splits)
    qed
  qed
qed

lemma compute_nbbo_folds:
  fixes symb ag
  defines "bs \<equiv> fold (quote_step True) (quotes True symb ag) (INVALID_PRICE, 0, 0)"
    and "as \<equiv> fold (quote_step False) (quotes False symb ag) (INVALID_PRICE, 0, 0)"
  shows "compute_nbbo now symb ag =
    \<lparr>nb_bid = fst bs, nb_bid_qty = fst (snd bs), nb_bid_venue = snd (snd bs),
     nb_ask = fst as, nb_ask_qty = fst (snd as), nb_ask_venue = snd (snd as), nb_timestamp = now\<rparr>"
proof -
  define st where "st = (\<lambda>b a. \<lparr>nb_bid = fst b, nb_bid_qty = fst (snd b), nb_bid_venue = snd (snd b),
     nb_ask = fst a, nb_ask_qty = fst (snd a), nb_ask_venue = snd (snd a), nb_timestamp = now\<rparr>)"
  define qv where "qv = (\<lambda>is_bid v. case get_venue_book v symb ag of
       None \<Rightarrow> []
     | Some book \<Rightarrow> filter (\<lambda>(v, p, q). p \<noteq> INVALID_PRICE) [(v, quote_of is_bid book)])"
  have bid: "nbbo_bid_step v book (st b a) =
      st (fold (quote_step True) (filter (\<lambda>(v, p, q). p \<noteq> INVALID_PRICE) [(v, quote_of True book)]) b) a"
    for v book b a
    by (cases b) (auto simp: nbbo_bid_step_def st_def quote_of_def better_def Let_def)
  have ask: "nbbo_ask_step v book (st b a) =
      st b (fold (quote_step False) (filter (\<lambda>(v, p, q). p \<noteq> INVALID_PRICE) [(v, quote_of False book)]) a)"
    for v book b a
    by (cases a) (auto simp: nbbo_ask_step_def st_def quote_of_def better_def Let_def)
  have "fold (\<lambda>v nb. case get_venue_book v symb ag of None \<Rightarrow> nb
           | Some book \<Rightarrow> nbbo_ask_step v book (nbbo_bid_step v book nb)) vs (st b a) =
        st (fold (quote_step True) (concat (map (qv True) vs)) b)
           (fold (quote_step False) (concat (map (qv False) vs)) a)" for vs b a
  proof (induction vs arbitrary: b a)
    case (Cons v vs)
    show ?case
    proof (cases "get_venue_book v symb ag")
      case (Some book)
      then have "qv is_bid v = filter (\<lambda>(v, p, q). p \<noteq> INVALID_PRICE) [(v, quote_of is_bid book)]" for is_bid
        by (simp add: qv_def)
      then show ?thesis
        using Cons.IH by (simp only: fold.simps list.map concat.simps fold_append comp_apply Some option.case bid ask)
    qed (use Cons.IH in \<open>simp add: qv_def\<close>)
  qed simp
  from this [of "ag_venues ag" "(INVALID_PRICE, 0, 0)" "(INVALID_PRICE, 0, 0)"]
  have "compute_nbbo now symb ag = st (fold (quote_step True) (concat (map (qv True) (ag_venues ag))) (INVALID_PRICE, 0, 0))
      (fold (quote_step False) (concat (map (qv False) (ag_venues ag))) (INVALID_PRICE, 0, 0))"
    by (simp add: compute_nbbo_def st_def default_nbbo_def)
  moreover have "concat (map (qv is_bid) (ag_venues ag)) = quotes is_bid symb ag" for is_bid
    by (simp only: quotes_def qv_def)
  ultimately show ?thesis by (simp add: st_def bs_def as_def)
qed

lemma compute_nbbo_best:
  assumes "\<forall>(v, p, q) \<in> set (quotes is_bid symb ag). 0 \<le> q"
    and "(\<Sum>(v, p, q) \<leftarrow> quotes is_bid symb ag. q) < 2 ^ 63"
    and "nb = compute_nbbo now symb ag"
  shows "best_quote is_bid (quotes is_bid symb ag)
    (if is_bid then nb_bid nb else nb_ask nb)
    (if is_bid then nb_bid_qty nb else nb_ask_qty nb)
    (if is_bid then nb_bid_venue nb else nb_ask_venue nb)"
proof -
  have "\<forall>(v, p, q) \<in> set (quotes is_bid symb ag). p \<noteq> INVALID_PRICE"
    by (auto simp: quotes_def split: option.splits if_splits)
  then have "\<forall>(v, p, q) \<in> set (quotes is_bid symb ag). p \<noteq> INVALID_PRICE \<and> 0 \<le> q"
    using assms(1) by fastforce
  note fold = quote_fold [OF this assms(2), of is_bid "fst F" "fst (snd F)" "snd (snd F)" for F, simplified]
  show ?thesis
    using fold [OF refl] unfolding assms(3) compute_nbbo_folds by (cases is_bid) simp_all
qed

section \<open>The NBBO cache\<close>

datatype agg_cmd =
    AC_Register venue_id
  | AC_Update timestamp venue_id symbol order_book
  | AC_Callback bool

fun agg_step :: "agg_cmd \<Rightarrow> aggregator \<Rightarrow> aggregator" where
  "agg_step (AC_Register v) ag = register_venue v ag"
| "agg_step (AC_Update now v symb book) ag = snd (on_book_update now v symb book ag)"
| "agg_step (AC_Callback cb) ag = set_nbbo_callback cb ag"

text \<open>A venue is registered before its first book arrives.\<close>

fun agg_ok :: "agg_cmd \<Rightarrow> aggregator \<Rightarrow> bool" where
  "agg_ok (AC_Update now v symb book) ag \<longleftrightarrow> v \<in> set (ag_venues ag)"
| "agg_ok _ ag \<longleftrightarrow> True"

definition agg_inv :: "aggregator \<Rightarrow> bool" where
  "agg_inv ag \<longleftrightarrow> distinct (ag_venues ag) \<and> dom (ag_books ag) \<subseteq> set (ag_venues ag) \<and>
     (\<forall>symb. \<exists>now. get_nbbo symb ag = compute_nbbo now symb ag)"

lemma get_venue_book_map: "get_venue_book v symb ag = venue_map v ag symb"
  by (simp add: get_venue_book_def venue_map_def split: option.splits)

lemma compute_nbbo_cong:
  assumes "ag_venues ag' = ag_venues ag"
    and "\<And>v. get_venue_book v symb ag' = get_venue_book v symb ag"
  shows "compute_nbbo now symb ag' = compute_nbbo now symb ag"
  by (simp add: compute_nbbo_def assms)

lemma compute_nbbo_new_venue:
  assumes "ag_venues ag' = ag_venues ag @ [v]" and "get_venue_book v symb ag = None"
    and "\<And>v. get_venue_book v symb ag' = get_venue_book v symb ag"
  shows "compute_nbbo now symb ag' = compute_nbbo now symb ag"
  by (simp add: compute_nbbo_def assms)

lemma register_venue_inv [keeps]:
  assumes "agg_inv ag" shows "agg_inv (register_venue v ag)"
proof (cases "v \<in> set (ag_venues ag)")
  case False
  let ?ag = "register_venue v ag"
  have new: "ag_books ag v = None" using assms False by (auto simp: agg_inv_def)
  have books: "get_venue_book v' symb ?ag = get_venue_book v' symb ag" for v' symb
    using False new by (simp add: get_venue_book_def register_venue_def venue_map_def)
  have none: "get_venue_book v symb ag = None" for symb using new by (simp add: get_venue_book_def)
  have "compute_nbbo now symb ?ag = compute_nbbo now symb ag" for now symb
    by (rule compute_nbbo_new_venue [OF _ none books]) (simp add: register_venue_def False)
  then show ?thesis
    using assms False by (auto simp: agg_inv_def register_venue_def get_nbbo_def)
qed (simp add: register_venue_def assms)

lemma get_nbbo_update:
  "get_nbbo symb' (snd (on_book_update now v symb book ag)) =
     (if symb' = symb
      then compute_nbbo now symb (snd (on_book_update now v symb book ag))
      else get_nbbo symb' ag)"
  by (auto simp: get_nbbo_def on_book_update_def recalculate_nbbo_def Let_def get_venue_book_def
      intro!: compute_nbbo_cong)

lemma get_venue_book_update:
  "get_venue_book v' symb' (snd (on_book_update now v symb book ag)) =
     (if v' = v \<and> symb' = symb then Some book else get_venue_book v' symb' ag)"
  by (simp add: get_venue_book_def on_book_update_def recalculate_nbbo_def Let_def venue_map_def
      split: option.splits)

lemma on_book_update_inv [keeps]:
  assumes "agg_inv ag" and "v \<in> set (ag_venues ag)"
  shows "agg_inv (snd (on_book_update now v symb book ag))"
proof -
  let ?ag = "snd (on_book_update now v symb book ag)"
  have vs: "ag_venues ?ag = ag_venues ag" by (simp add: on_book_update_def recalculate_nbbo_def Let_def)
  have bk: "dom (ag_books ?ag) = insert v (dom (ag_books ag))"
    by (simp add: on_book_update_def recalculate_nbbo_def Let_def)
  have "\<exists>now. get_nbbo symb' ?ag = compute_nbbo now symb' ?ag" for symb'
  proof (cases "symb' = symb")
    case False
    then have "compute_nbbo t symb' ?ag = compute_nbbo t symb' ag" for t
      by (intro compute_nbbo_cong) (simp_all add: vs get_venue_book_update)
    then show ?thesis using assms(1) False by (simp add: get_nbbo_update agg_inv_def)
  qed (auto simp: get_nbbo_update)
  then show ?thesis using assms by (simp add: agg_inv_def vs bk)
qed

lemma set_nbbo_callback_inv [keeps]: "agg_inv ag \<Longrightarrow> agg_inv (set_nbbo_callback cb ag)"
  by (simp add: agg_inv_def set_nbbo_callback_def compute_nbbo_def get_nbbo_def get_venue_book_def)

lemma ag_new_inv [keeps]: "agg_inv ag_new"
  by (auto simp: agg_inv_def ag_new_def compute_nbbo_def get_nbbo_def default_nbbo_def intro: exI [of _ 0])

lemma agg_step_inv: "agg_inv ag \<Longrightarrow> agg_ok c ag \<Longrightarrow> agg_inv (agg_step c ag)"
  by (cases c) (simp_all add: keeps)

interpretation agg: transition_system agg_step ag_new agg_inv agg_ok
  by unfold_locales (auto intro: agg_step_inv ag_new_inv)

lemma nbbo_always_best:
  assumes "legal agg_ok agg_step cs ag_new" and "ag = run agg_step cs ag_new"
    and "\<forall>(v, p, q) \<in> set (quotes is_bid symb ag). 0 \<le> q"
    and "(\<Sum>(v, p, q) \<leftarrow> quotes is_bid symb ag. q) < 2 ^ 63"
    and "nb = get_nbbo symb ag"
  shows "best_quote is_bid (quotes is_bid symb ag)
    (if is_bid then nb_bid nb else nb_ask nb)
    (if is_bid then nb_bid_qty nb else nb_ask_qty nb)
    (if is_bid then nb_bid_venue nb else nb_ask_venue nb)"
proof -
  have "agg_inv ag" using agg.inv_run assms(1,2) by blast
  then obtain now where "nb = compute_nbbo now symb ag" using assms(5) unfolding agg_inv_def by blast
  then show ?thesis by (rule compute_nbbo_best [OF assms(3,4)])
qed

text \<open>The callback is told of exactly the updates that move a price or a quantity.\<close>

lemma on_book_update_callback:
  "fst (on_book_update now v symb book ag) =
    (let old = get_nbbo symb ag; new = get_nbbo symb (snd (on_book_update now v symb book ag))
     in if ag_callback ag \<and> (nb_bid old, nb_bid_qty old, nb_ask old, nb_ask_qty old) \<noteq>
          (nb_bid new, nb_bid_qty new, nb_ask new, nb_ask_qty new)
        then [(symb, new)] else [])"
  by (auto simp: on_book_update_def recalculate_nbbo_def get_nbbo_def Let_def)

lemma is_stale_iff:
  "is_stale now symb max_age ag \<longleftrightarrow>
    (\<forall>v \<in> set (ag_venues ag). \<forall>book. get_venue_book v symb ag = Some book \<longrightarrow>
       ob_last_update book = 0 \<or> max_age < (now - ob_last_update book) sdiv 1000)"
proof -
  have "is_stale_from now symb max_age ag vs \<longleftrightarrow>
    (\<forall>v \<in> set vs. \<forall>book. get_venue_book v symb ag = Some book \<longrightarrow>
       ob_last_update book = 0 \<or> max_age < (now - ob_last_update book) sdiv 1000)" for vs
    by (induction vs) (auto split: option.splits)
  then show ?thesis by (simp add: is_stale_def)
qed

section \<open>Merging sorted levels\<close>

definition vq_of :: "tagged_level \<Rightarrow> venue_quantity" where
  "vq_of t = \<lparr>vq_venue = tg_venue t, vq_quantity = tg_quantity t\<rparr>"

text \<open>
  The level of price \<open>p\<close> that a list of tagged levels stands for: the first \<open>MAX_VENUES\<close>
  entries with that price and the (wrapped) total of their quantities.
\<close>

definition level_for :: "tagged_level list \<Rightarrow> price \<Rightarrow> aggregated_level" where
  "level_for ts p =
     (let vs = take MAX_VENUES (map vq_of (filter (\<lambda>t. tg_price t = p) ts))
      in \<lparr>al_price = p, al_total = i64 (\<Sum>v \<leftarrow> vs. vq_quantity v), al_breakdown = vs\<rparr>)"

lemma i64_i64_add: "i64 (i64 x + y) = i64 (x + y)"
  by (simp add: swrap_swrap_add)

lemma add_venue_level_for:
  "tg_price t = p \<Longrightarrow> add_venue (tg_venue t) (tg_quantity t) (level_for ts p) = level_for (ts @ [t]) p"
  by (auto simp: add_venue_def level_for_def Let_def vq_of_def i64_i64_add)

lemma add_venue_fresh:
  assumes "tg_price t \<notin> tg_price ` set ts"
  shows "add_venue (tg_venue t) (tg_quantity t) \<lparr>al_price = tg_price t, al_total = 0, al_breakdown = []\<rparr> =
    level_for (ts @ [t]) (tg_price t)"
proof -
  have "level_for ts (tg_price t) = \<lparr>al_price = tg_price t, al_total = 0, al_breakdown = []\<rparr>"
  proof -
    have "filter (\<lambda>ta. tg_price ta = tg_price t) ts = []" using assms by (auto simp: filter_empty_conv image_iff)
    then show ?thesis by (simp add: level_for_def swrap_def)
  qed
  then show ?thesis using add_venue_level_for [OF refl] by metis
qed

lemma level_for_other: "tg_price t \<noteq> p \<Longrightarrow> level_for (ts @ [t]) p = level_for ts p"
  by (simp add: level_for_def)

definition price_sorted :: "bool \<Rightarrow> tagged_level list \<Rightarrow> bool" where
  "price_sorted is_bid ts \<longleftrightarrow> sorted_wrt (\<lambda>a b. \<not> better is_bid (tg_price b) (tg_price a)) ts"

lemma price_sorted_last:
  assumes "price_sorted is_bid (ps @ t # ts)" and "ps \<noteq> []" and "tg_price (last ps) \<noteq> tg_price t"
    and "x \<in> set (t # ts)"
  shows "tg_price x \<notin> tg_price ` set ps"
proof
  assume "tg_price x \<in> tg_price ` set ps"
  then obtain y where y: "y \<in> set ps" "tg_price y = tg_price x" by auto
  obtain qs where ps: "ps = qs @ [last ps]" using assms(2) by (metis append_butlast_last_id)
  have sub: "y = last ps \<or> y \<in> set qs" using y(1) ps by (metis Un_iff empty_iff insert_iff list.set set_append)
  have "sorted_wrt (\<lambda>a b. \<not> better is_bid (tg_price b) (tg_price a)) (qs @ last ps # t # ts)"
    using assms(1) ps by (metis append.assoc append_Cons append_Nil price_sorted_def)
  then have "\<not> better is_bid (tg_price (last ps)) (tg_price y)" and "\<not> better is_bid (tg_price t) (tg_price (last ps))"
    and "\<not> better is_bid (tg_price x) (tg_price t)"
    using assms(4) sub pp.pri_irrefl by (auto simp: sorted_wrt_append)
  then show False using y(2) assms(3) by (auto simp: better_def split: if_splits)
qed

lemma remdups_adj_snoc:
  "remdups_adj (xs @ [x]) = (if xs \<noteq> [] \<and> last xs = x then remdups_adj xs else remdups_adj xs @ [x])"
  by (induction xs rule: remdups_adj.induct) auto

definition merged :: "tagged_level list \<Rightarrow> aggregated_level list" where
  "merged ts = map (level_for ts) (remdups_adj (map tg_price ts))"

lemma merged_snoc_same:
  assumes "ps \<noteq> []" and "tg_price (last ps) = tg_price t" and "distinct (remdups_adj (map tg_price ps))"
  shows "merged (ps @ [t]) = butlast (merged ps) @ [add_venue (tg_venue t) (tg_quantity t) (last (merged ps))]"
proof -
  let ?r = "remdups_adj (map tg_price ps)"
  have ne: "?r \<noteq> []" using assms(1) by simp
  have lst: "last ?r = tg_price t" using assms(1,2) by (simp add: last_map)
  have r: "?r = butlast ?r @ [tg_price t]" using ne lst by (metis append_butlast_last_id)
  have d: "tg_price t \<notin> set (butlast ?r)" using assms(3) r by (metis distinct_append disjoint_insert(2) list.simps(15))
  have "merged (ps @ [t]) = map (level_for (ps @ [t])) ?r"
    using assms(1,2) by (simp add: merged_def remdups_adj_snoc last_map)
  also have "\<dots> = map (level_for (ps @ [t])) (butlast ?r) @ [level_for (ps @ [t]) (tg_price t)]"
    using r by (metis list.simps(8,9) map_append)
  also have "map (level_for (ps @ [t])) (butlast ?r) = map (level_for ps) (butlast ?r)"
    using d by (auto intro!: level_for_other)
  also have "level_for (ps @ [t]) (tg_price t) = add_venue (tg_venue t) (tg_quantity t) (last (merged ps))"
    using ne lst by (simp add: merged_def last_map add_venue_level_for)
  finally show ?thesis by (simp add: merged_def map_butlast)
qed

lemma merged_snoc_new:
  assumes "tg_price t \<notin> tg_price ` set ps"
  shows "merged (ps @ [t]) = merged ps @ [add_venue (tg_venue t) (tg_quantity t)
    \<lparr>al_price = tg_price t, al_total = 0, al_breakdown = []\<rparr>]"
proof -
  have "ps = [] \<or> last (map tg_price ps) \<noteq> tg_price t"
    using assms by (metis last_in_set list.map_disc_iff set_map)
  then have "merged (ps @ [t]) = map (level_for (ps @ [t])) (remdups_adj (map tg_price ps)) @
      [level_for (ps @ [t]) (tg_price t)]"
    by (auto simp: merged_def remdups_adj_snoc)
  moreover have "map (level_for (ps @ [t])) (remdups_adj (map tg_price ps)) = merged ps"
    using assms by (auto simp: merged_def intro!: level_for_other)
  ultimately show ?thesis by (simp add: add_venue_fresh [OF assms])
qed

lemma price_sorted_append: "price_sorted is_bid (xs @ ys) \<Longrightarrow> price_sorted is_bid xs"
  by (simp add: price_sorted_def sorted_wrt_append)

lemma price_sorted_distinct:
  assumes "price_sorted is_bid ts" shows "distinct (remdups_adj (map tg_price ts))"
  using assms
proof (induction ts rule: rev_induct)
  case (snoc t ts)
  show ?case
  proof (cases "ts \<noteq> [] \<and> tg_price (last ts) = tg_price t")
    case True
    then show ?thesis using snoc price_sorted_append by (simp add: remdups_adj_snoc last_map)
  next
    case False
    then have "tg_price t \<notin> tg_price ` set ts"
      using price_sorted_last [of is_bid ts t "[]" t] snoc.prems by (cases "ts = []") auto
    then show ?thesis using snoc price_sorted_append by (simp add: remdups_adj_snoc)
  qed
qed simp

lemma merge_levels_merged:
  assumes "price_sorted is_bid (ps @ ts)" and "length (merged ps) \<le> MAX_DEPTH"
  shows "merge_levels ts (merged ps) = take MAX_DEPTH (merged (ps @ ts))"
  using assms
proof (induction ts arbitrary: ps)
  case (Cons t ts)
  note srt = Cons.prems(1)
  have IH: "length (merged (ps @ [t])) \<le> MAX_DEPTH \<Longrightarrow>
      merge_levels ts (merged (ps @ [t])) = take MAX_DEPTH (merged (ps @ t # ts))"
    using Cons.IH [of "ps @ [t]"] srt by simp
  have dps: "distinct (remdups_adj (map tg_price ps))"
    using price_sorted_distinct price_sorted_append srt by blast
  have ml: "merged ps = [] \<longleftrightarrow> ps = []" by (simp add: merged_def)
  have la: "ps \<noteq> [] \<Longrightarrow> al_price (last (merged ps)) = tg_price (last ps)"
    by (simp add: merged_def last_map level_for_def Let_def)
  show ?case
  proof (cases "ps \<noteq> [] \<and> tg_price (last ps) = tg_price t")
    case True
    have "length (merged (ps @ [t])) = length (merged ps)"
      using True by (simp add: merged_def remdups_adj_snoc last_map)
    then show ?thesis
      using True IH ml la merged_snoc_same [OF _ _ dps] Cons.prems(2) by simp
  next
    case False
    then have new: "x \<in> set (t # ts) \<Longrightarrow> tg_price x \<notin> tg_price ` set ps" for x
      using price_sorted_last [OF srt] by (cases "ps = []") auto
    note sn = merged_snoc_new [OF new [of t]]
    show ?thesis
    proof (cases "length (merged ps) \<ge> MAX_DEPTH")
      case True
      have "take (length (merged ps)) (merged (ps @ t # ts)) = merged ps"
      proof -
        have "\<exists>zs. remdups_adj (map tg_price (ps @ t # ts)) = remdups_adj (map tg_price ps) @ zs"
          using False remdups_adj_append' [of "map tg_price ps" "map tg_price (t # ts)"]
          by (cases "ps = []") (simp_all add: last_map)
        then obtain zs where "remdups_adj (map tg_price (ps @ t # ts)) = remdups_adj (map tg_price ps) @ zs"
          by blast
        moreover have "level_for (ps @ t # ts) p = level_for ps p" if "p \<in> set (map tg_price ps)" for p
        proof -
          have "filter (\<lambda>t. tg_price t = p) (t # ts) = []"
            using new that by (auto simp: filter_empty_conv)
          then show ?thesis by (simp add: level_for_def)
        qed
        ultimately show ?thesis by (simp add: merged_def)
      qed
      then show ?thesis
        using True False Cons.prems(2) ml la by auto
    next
      case len: False
      then have "length (merged (ps @ [t])) \<le> MAX_DEPTH" using sn by simp
      then show ?thesis using False len ml la IH sn by auto
    qed
  qed
qed simp

section \<open>The aggregated book\<close>

definition agg_levels :: "bool \<Rightarrow> aggregated_book \<Rightarrow> aggregated_level list" where
  "agg_levels is_bid abk = (if is_bid then ab_bids abk else ab_asks abk)"

definition side_fn :: "bool \<Rightarrow> order_book \<Rightarrow> book_side" where
  "side_fn is_bid book = (if is_bid then ob_bids book else ob_asks book)"

definition sorted_tags :: "sorter \<Rightarrow> bool \<Rightarrow> symbol \<Rightarrow> aggregator \<Rightarrow> tagged_level list" where
  "sorted_tags srt is_bid symb ag =
     srt (\<lambda>a b. better is_bid (tg_price a) (tg_price b)) (collect_levels (side_fn is_bid) symb ag)"

lemma side_fn_simps [simp]: "side_fn True = ob_bids" "side_fn False = ob_asks"
  by (simp_all add: side_fn_def fun_eq_iff)

lemma strict_weak_better: "strict_weak (\<lambda>a b. better is_bid (f a) (f b))"
  by (cases is_bid) (simp_all add: better_def strict_weak_less strict_weak_greater)

lemma sorted_tags_props:
  assumes "std_sort srt"
  shows "price_sorted is_bid (sorted_tags srt is_bid symb ag)"
    and "mset (sorted_tags srt is_bid symb ag) = mset (collect_levels (side_fn is_bid) symb ag)"
    and "set (sorted_tags srt is_bid symb ag) = set (collect_levels (side_fn is_bid) symb ag)"
  using std_sortD [OF assms strict_weak_better [of is_bid tg_price]]
  by (simp_all add: sorted_tags_def price_sorted_def)

lemma agg_levels_merged:
  assumes "std_sort srt"
  shows "agg_levels is_bid (get_aggregated_book srt symb ag) =
    take MAX_DEPTH (merged (sorted_tags srt is_bid symb ag))"
proof -
  have "agg_levels is_bid (get_aggregated_book srt symb ag) =
      merge_levels (sorted_tags srt is_bid symb ag) []"
    by (cases is_bid) (simp_all add: agg_levels_def get_aggregated_book_def build_aggregated_book_def
        sorted_tags_def better_def Let_def)
  also have "\<dots> = take MAX_DEPTH (merged ([] @ sorted_tags srt is_bid symb ag))"
    using merge_levels_merged [of is_bid "[]"] sorted_tags_props(1) [OF assms] by (simp add: merged_def)
  finally show ?thesis by simp
qed

lemma sorted_wrt_remdups_adj: "sorted_wrt r xs \<Longrightarrow> sorted_wrt r (remdups_adj xs)"
  by (induction xs rule: remdups_adj.induct) auto

lemma weak_to_strict:
  "sorted_wrt (\<lambda>p q. \<not> better is_bid q p) ps \<Longrightarrow> distinct ps \<Longrightarrow> sorted_wrt (better is_bid) ps"
  by (induction ps) (simp_all, metis pp.pri_total)

lemma price_sorted_strict:
  assumes "price_sorted is_bid ts" shows "sorted_wrt (better is_bid) (remdups_adj (map tg_price ts))"
  using assms price_sorted_distinct [OF assms]
  by (intro weak_to_strict sorted_wrt_remdups_adj) (simp_all add: price_sorted_def sorted_wrt_map)

lemma map_al_price_merged: "map al_price (merged ts) = remdups_adj (map tg_price ts)"
  by (simp add: merged_def level_for_def Let_def comp_def)

lemma aggregated_levels_sorted:
  assumes "std_sort srt"
  shows "sorted_wrt (better is_bid) (map al_price (agg_levels is_bid (get_aggregated_book srt symb ag)))"
    and "length (agg_levels is_bid (get_aggregated_book srt symb ag)) \<le> MAX_DEPTH"
  using price_sorted_strict [OF sorted_tags_props(1) [OF assms]]
  by (simp_all add: agg_levels_merged [OF assms] take_map [symmetric] map_al_price_merged sorted_wrt_take)

lemma aggregated_level_is:
  assumes "std_sort srt" and "l \<in> set (agg_levels is_bid (get_aggregated_book srt symb ag))"
  shows "l = level_for (sorted_tags srt is_bid symb ag) (al_price l)"
    and "al_price l \<in> tg_price ` set (collect_levels (side_fn is_bid) symb ag)"
proof -
  have "l \<in> set (merged (sorted_tags srt is_bid symb ag))"
    using assms(2) agg_levels_merged [OF assms(1)] by (metis in_set_takeD)
  then show "l = level_for (sorted_tags srt is_bid symb ag) (al_price l)"
    and "al_price l \<in> tg_price ` set (collect_levels (side_fn is_bid) symb ag)"
    using sorted_tags_props(3) [OF assms(1)] by (auto simp: merged_def level_for_def Let_def)
qed

lemma level_for_total:
  assumes "mset ts = mset us" and "length (filter (\<lambda>t. tg_price t = p) us) \<le> MAX_VENUES"
    and "\<forall>t \<in> set us. 0 \<le> tg_quantity t"
    and "(\<Sum>t \<leftarrow> filter (\<lambda>t. tg_price t = p) us. tg_quantity t) < 2 ^ 63"
  shows "al_total (level_for ts p) = (\<Sum>t \<leftarrow> filter (\<lambda>t. tg_price t = p) us. tg_quantity t)"
    and "mset (al_breakdown (level_for ts p)) = mset (map vq_of (filter (\<lambda>t. tg_price t = p) us))"
proof -
  let ?f = "filter (\<lambda>t. tg_price t = p)"
  have m: "mset (?f ts) = mset (?f us)" using assms(1) by simp
  have len: "length (?f ts) \<le> MAX_VENUES" using assms(2) m by (metis size_mset)
  have sum: "(\<Sum>t \<leftarrow> ?f ts. tg_quantity t) = (\<Sum>t \<leftarrow> ?f us. tg_quantity t)"
    by (rule sum_list_mset_cong [OF m])
  have "0 \<le> (\<Sum>t \<leftarrow> ?f us. tg_quantity t)" using assms(3) by (intro sum_list_nonneg_map) auto
  then have w: "i64 (\<Sum>t \<leftarrow> ?f us. tg_quantity t) = (\<Sum>t \<leftarrow> ?f us. tg_quantity t)"
    using assms(4) by (intro i64_small) simp
  show "al_total (level_for ts p) = (\<Sum>t \<leftarrow> ?f us. tg_quantity t)"
    using len by (simp add: level_for_def Let_def vq_of_def comp_def sum w)
  show "mset (al_breakdown (level_for ts p)) = mset (map vq_of (?f us))"
    using len m by (simp add: level_for_def Let_def)
qed

lemma aggregated_level_total:
  assumes "std_sort srt" and "l \<in> set (agg_levels is_bid (get_aggregated_book srt symb ag))"
    and "us = filter (\<lambda>t. tg_price t = al_price l) (collect_levels (side_fn is_bid) symb ag)"
    and "length us \<le> MAX_VENUES" and "(\<Sum>t \<leftarrow> us. tg_quantity t) < 2 ^ 63"
  shows "al_total l = (\<Sum>t \<leftarrow> us. tg_quantity t)" and "mset (al_breakdown l) = mset (map vq_of us)"
proof -
  have q: "\<forall>t \<in> set (collect_levels (side_fn is_bid) symb ag). 0 \<le> tg_quantity t"
    by (auto simp: collect_levels_def tag_levels_def level_valid_def split: option.splits)
  note lt = level_for_total [OF sorted_tags_props(2) [OF assms(1), of is_bid symb ag] _ q, of "al_price l"]
  show "al_total l = (\<Sum>t \<leftarrow> us. tg_quantity t)" and "mset (al_breakdown l) = mset (map vq_of us)"
    using lt aggregated_level_is(1) [OF assms(1,2)] assms(3-5) by simp_all
qed

text \<open>
  The top of the aggregated book and the NBBO are computed by two different walks over the
  same books; on well-formed books they agree.
\<close>

definition books_ok :: "symbol \<Rightarrow> aggregator \<Rightarrow> bool" where
  "books_ok symb ag \<longleftrightarrow> (\<forall>v \<in> set (ag_venues ag). case get_venue_book v symb ag of
     None \<Rightarrow> True
   | Some book \<Rightarrow> book_inv book \<and>
       INVALID_PRICE \<notin> pl_price ` set (bs_levels (ob_bids book)) \<and>
       INVALID_PRICE \<notin> pl_price ` set (bs_levels (ob_asks book)))"

lemma tag_levels_all:
  assumes "side_inv is_bid b" and "INVALID_PRICE \<notin> pl_price ` set (bs_levels b)"
  shows "tag_levels v b =
    map (\<lambda>l. \<lparr>tg_price = pl_price l, tg_quantity = pl_quantity l, tg_venue = v\<rparr>) (bs_levels b)"
proof -
  have "filter level_valid (bs_levels b) = bs_levels b"
    using assms by (intro filter_True) (auto simp: side_inv_def level_valid_def image_iff)
  then show ?thesis by (simp add: tag_levels_def bs_levels_def)
qed

lemma quote_of_head:
  assumes "side_wf (side_fn is_bid book)" and "bs_levels (side_fn is_bid book) \<noteq> []"
  shows "quote_of is_bid book =
    (pl_price (hd (bs_levels (side_fn is_bid book))), pl_quantity (hd (bs_levels (side_fn is_bid book))))"
proof -
  have "hd (bs_levels b) = bs_best b" and "\<not> bs_empty b" if "bs_levels b \<noteq> []" for b
    using that by (cases "bs_array b"; auto simp: bs_levels_def bs_best_def bs_empty_def take_Cons' split: if_splits)+
  then show ?thesis using assms(2) by (cases is_bid) (simp_all add: quote_of_def best_bid_def best_ask_def)
qed

lemma quote_of_empty: "bs_levels (side_fn is_bid book) = [] \<Longrightarrow> side_wf (side_fn is_bid book) \<Longrightarrow>
    fst (quote_of is_bid book) = INVALID_PRICE"
  by (cases is_bid) (auto simp: quote_of_def best_bid_def best_ask_def bs_empty_def bs_levels_def side_wf_def MAX_DEPTH_def)

text \<open>At a price that no level of a well-formed side beats, the side has its best level or nothing.\<close>

lemma top_filter:
  assumes "sorted_wrt (better is_bid) (map pl_price ls)" and "\<forall>l \<in> set ls. \<not> better is_bid (pl_price l) p"
  shows "filter (\<lambda>l. pl_price l = p) ls = (if ls \<noteq> [] \<and> pl_price (hd ls) = p then [hd ls] else [])"
proof (cases ls)
  case (Cons l ls')
  have "\<forall>l' \<in> set ls'. pl_price l' \<noteq> p"
    using assms unfolding Cons by (auto simp: better_def split: if_splits)
  then have "filter (\<lambda>l. pl_price l = p) ls' = []" by (simp add: filter_empty_conv)
  then show ?thesis by (simp add: Cons)
qed simp

lemma venue_top:
  assumes "side_inv is_bid (side_fn is_bid book)"
    and "INVALID_PRICE \<notin> pl_price ` set (bs_levels (side_fn is_bid book))"
    and "\<forall>t \<in> set (tag_levels v (side_fn is_bid book)). \<not> better is_bid (tg_price t) p"
  shows "map tg_quantity (filter (\<lambda>t. tg_price t = p) (tag_levels v (side_fn is_bid book))) =
    map (\<lambda>(v, p, q). q) (filter (\<lambda>(v, p', q). p' = p)
      (filter (\<lambda>(v, p, q). p \<noteq> INVALID_PRICE) [(v, quote_of is_bid book)]))"
proof -
  let ?ls = "bs_levels (side_fn is_bid book)"
  note wf = side_inv_wf [OF assms(1)]
  note tl = tag_levels_all [OF assms(1,2), of v]
  have "map tg_quantity (filter (\<lambda>t. tg_price t = p) (tag_levels v (side_fn is_bid book))) =
      map pl_quantity (filter (\<lambda>l. pl_price l = p) ?ls)"
    by (simp add: tl filter_map comp_def)
  also have "filter (\<lambda>l. pl_price l = p) ?ls = (if ?ls \<noteq> [] \<and> pl_price (hd ?ls) = p then [hd ?ls] else [])"
    using assms(1,3) by (intro top_filter) (auto simp: side_inv_def tl)
  finally have top: "map tg_quantity (filter (\<lambda>t. tg_price t = p) (tag_levels v (side_fn is_bid book))) =
      map pl_quantity (if ?ls \<noteq> [] \<and> pl_price (hd ?ls) = p then [hd ?ls] else [])" .
  show ?thesis
  proof (cases "?ls = []")
    case True
    then show ?thesis
      using quote_of_empty [OF True wf] by (cases "quote_of is_bid book") (simp add: tl)
  next
    case False
    then have "pl_price (hd ?ls) \<noteq> INVALID_PRICE" using assms(2) by (metis hd_in_set image_eqI)
    then show ?thesis
      using top quote_of_head [OF wf False] False by simp
  qed
qed


lemma quotes_from_levels:
  assumes "books_ok symb ag" and "(v, p, q) \<in> set (quotes is_bid symb ag)"
  shows "p \<in> tg_price ` set (collect_levels (side_fn is_bid) symb ag)" and "0 < q"
proof -
  obtain book where v: "v \<in> set (ag_venues ag)" "get_venue_book v symb ag = Some book"
    and q: "(p, q) = quote_of is_bid book" "p \<noteq> INVALID_PRICE"
    using assms(2) by (auto simp: quotes_def split: option.splits if_splits) metis
  let ?ls = "bs_levels (side_fn is_bid book)"
  have inv: "side_inv is_bid (side_fn is_bid book)" and iv: "INVALID_PRICE \<notin> pl_price ` set ?ls"
    using assms(1) v by (cases is_bid; auto simp: books_ok_def book_inv_def)+
  note wf = side_inv_wf [OF inv]
  have ne: "?ls \<noteq> []" using quote_of_empty [OF _ wf] q by (metis fst_conv)
  then have p: "p = pl_price (hd ?ls)" and "q = pl_quantity (hd ?ls)"
    using quote_of_head [OF wf ne] q by simp_all
  then show "0 < q" using inv ne by (auto simp: side_inv_def)
  from p have "p \<in> tg_price ` set (tag_levels v (side_fn is_bid book))"
    using ne by (simp add: tag_levels_all [OF inv iv] image_image)
  then show "p \<in> tg_price ` set (collect_levels (side_fn is_bid) symb ag)"
    using v by (force simp: collect_levels_def)
qed

lemma length_quotes: "length (quotes is_bid symb ag) \<le> length (ag_venues ag)"
proof -
  have "(\<Sum>v \<leftarrow> vs. length (case get_venue_book v symb ag of None \<Rightarrow> []
      | Some book \<Rightarrow> filter (\<lambda>(v, p, q). p \<noteq> INVALID_PRICE) [(v, quote_of is_bid book)])) \<le> length vs" for vs
    by (induction vs) (auto split: option.splits)
  then show ?thesis by (simp add: quotes_def length_concat comp_def)
qed

lemma levels_below_quotes:
  assumes "books_ok symb ag" and "t \<in> set (collect_levels (side_fn is_bid) symb ag)"
  shows "\<exists>(v, p, q) \<in> set (quotes is_bid symb ag). \<not> better is_bid (tg_price t) p"
proof -
  obtain v book where v: "v \<in> set (ag_venues ag)" "get_venue_book v symb ag = Some book"
    and t: "t \<in> set (tag_levels v (side_fn is_bid book))"
    using assms(2) by (auto simp: collect_levels_def split: option.splits) metis
  let ?ls = "bs_levels (side_fn is_bid book)"
  have inv: "side_inv is_bid (side_fn is_bid book)" and iv: "INVALID_PRICE \<notin> pl_price ` set ?ls"
    using assms(1) v by (cases is_bid; auto simp: books_ok_def book_inv_def)+
  have ne: "?ls \<noteq> []" using t by (auto simp: tag_levels_all [OF inv iv])
  note qh = quote_of_head [OF side_inv_wf [OF inv] ne]
  have "pl_price (hd ?ls) \<noteq> INVALID_PRICE" using iv ne by (metis hd_in_set image_eqI)
  then have "(v, quote_of is_bid book) \<in> set (quotes is_bid symb ag)"
    using v qh by (force simp: quotes_def)
  moreover have "\<not> better is_bid (tg_price t) (pl_price (hd ?ls))"
  proof -
    obtain l where "l \<in> set ?ls" and "tg_price t = pl_price l"
      using t by (auto simp: tag_levels_all [OF inv iv])
    then show ?thesis
      using pp.best_is_head [of is_bid ?ls l] inv by (auto simp: side_inv_def better_def split: if_splits)
  qed
  ultimately show ?thesis using qh by force
qed

lemma quotes_at_top:
  assumes "books_ok symb ag"
    and "\<forall>t \<in> set (collect_levels (side_fn is_bid) symb ag). \<not> better is_bid (tg_price t) p"
  shows "map tg_quantity (filter (\<lambda>t. tg_price t = p) (collect_levels (side_fn is_bid) symb ag)) =
    map (\<lambda>(v, p, q). q) (filter (\<lambda>(v, p', q). p' = p) (quotes is_bid symb ag))"
proof -
  have "map tg_quantity (filter (\<lambda>t. tg_price t = p) (case get_venue_book v symb ag of
          None \<Rightarrow> [] | Some book \<Rightarrow> tag_levels v (side_fn is_bid book))) =
    map (\<lambda>(v, p, q). q) (filter (\<lambda>(v, p', q). p' = p) (case get_venue_book v symb ag of
          None \<Rightarrow> [] | Some book \<Rightarrow> filter (\<lambda>(v, p, q). p \<noteq> INVALID_PRICE) [(v, quote_of is_bid book)]))"
    if v: "v \<in> set (ag_venues ag)" for v
  proof (cases "get_venue_book v symb ag")
    case (Some book)
    have "side_inv is_bid (side_fn is_bid book)"
      and "INVALID_PRICE \<notin> pl_price ` set (bs_levels (side_fn is_bid book))"
      using assms(1) v Some by (cases is_bid; auto simp: books_ok_def book_inv_def)+
    moreover have "\<forall>t \<in> set (tag_levels v (side_fn is_bid book)). \<not> better is_bid (tg_price t) p"
      using assms(2) v Some by (force simp: collect_levels_def)
    ultimately show ?thesis using venue_top by (simp only: Some option.case)
  qed simp
  then show ?thesis
    unfolding collect_levels_def quotes_def filter_concat map_concat map_map comp_def
    by (metis (no_types, lifting) map_eq_conv)
qed

lemma aggregated_top_is_nbbo:
  assumes "std_sort srt" and "books_ok symb ag" and "nb = compute_nbbo now symb ag"
    and "agg_levels is_bid (get_aggregated_book srt symb ag) = l # ls"
    and "length (ag_venues ag) \<le> MAX_VENUES"
    and "(\<Sum>(v, p, q) \<leftarrow> quotes is_bid symb ag. q) < 2 ^ 63"
  shows "al_price l = (if is_bid then nb_bid nb else nb_ask nb)"
    and "al_total l = (if is_bid then nb_bid_qty nb else nb_ask_qty nb)"
proof -
  let ?cl = "collect_levels (side_fn is_bid) symb ag" and ?qs = "quotes is_bid symb ag"
  define bp where "bp = (if is_bid then nb_bid nb else nb_ask nb)"
  define bq where "bq = (if is_bid then nb_bid_qty nb else nb_ask_qty nb)"
  obtain t ts where ts: "sorted_tags srt is_bid symb ag = t # ts" and l: "al_price l = tg_price t"
    using assms(4) agg_levels_merged [OF assms(1)] map_al_price_merged [of "sorted_tags srt is_bid symb ag"]
    by (cases "sorted_tags srt is_bid symb ag")
       (auto simp: merged_def level_for_def Let_def MAX_DEPTH_def remdups_adj_Cons split: list.splits if_splits)
  have top: "\<forall>x \<in> set ?cl. \<not> better is_bid (tg_price x) (tg_price t)" and tcl: "t \<in> set ?cl"
    unfolding sorted_tags_props(3) [OF assms(1), of is_bid symb ag, symmetric] ts
    using sorted_tags_props(1) [OF assms(1), of is_bid symb ag] ts pp.pri_irrefl
    by (auto simp: price_sorted_def)
  have nn: "\<forall>(v, p, q) \<in> set ?qs. 0 \<le> q" using quotes_from_levels(2) [OF assms(2)] by fastforce
  obtain v p q where vpq: "(v, p, q) \<in> set ?qs" "\<not> better is_bid (tg_price t) p"
    using levels_below_quotes [OF assms(2) tcl] by blast
  obtain bv where bq: "best_quote is_bid ?qs bp bq bv"
    using compute_nbbo_best [OF nn assms(6,3)] by (auto simp: bp_def bq_def split: if_splits)
  have ne: "?qs \<noteq> []" using vpq(1) by auto
  then obtain q' where "(bv, bp, q') \<in> set ?qs"
    using bq by (auto simp: best_quote_def find_Some_iff) (metis nth_mem)
  then have "\<not> better is_bid bp (tg_price t)" using quotes_from_levels(1) [OF assms(2)] top by blast
  moreover have "\<not> better is_bid p bp" using bq ne vpq(1) by (auto simp: best_quote_def)
  ultimately have bp: "bp = tg_price t" using vpq(2) by (auto simp: better_def split: if_splits)
  then show "al_price l = (if is_bid then nb_bid nb else nb_ask nb)" by (simp add: l bp_def)
  define us where "us = filter (\<lambda>t. tg_price t = al_price l) ?cl"
  have map: "map tg_quantity us = map (\<lambda>(v, p, q). q) (filter (\<lambda>(v, p', q). p' = bp) ?qs)"
    unfolding us_def l bp by (rule quotes_at_top [OF assms(2) top])
  have "length us \<le> MAX_VENUES"
    using arg_cong [OF map, of length] length_filter_le [of _ ?qs] length_quotes [of is_bid symb ag] assms(5)
    by (metis (no_types, lifting) dual_order.trans length_map)
  moreover have "(\<Sum>(v, p, q) \<leftarrow> filter (\<lambda>(v, p', q). p' = bp) ?qs. q) \<le> (\<Sum>(v, p, q) \<leftarrow> ?qs. q)"
    using nn by (intro sum_list_map_filter_le) auto
  ultimately have "al_total l = (\<Sum>t \<leftarrow> us. tg_quantity t)"
    using assms(4,6) map by (intro aggregated_level_total(1) [OF assms(1) _ us_def]) auto
  then show "al_total l = (if is_bid then nb_bid_qty nb else nb_ask_qty nb)"
    using bq ne map by (simp add: best_quote_def bq_def)
qed

section \<open>Properties\<close>

text \<open>Two venues that quote the same two bids, for the witnesses.\<close>

definition sample_book :: "venue_id \<Rightarrow> order_book" where
  "sample_book v = \<lparr>ob_symbol = ''A'', ob_venue = v, ob_bids = ladder 2, ob_asks = bs_new,
     ob_last_update = 1, ob_sequence = 1\<rparr>"

definition sample_feed :: "agg_cmd list" where
  "sample_feed = [AC_Register 1, AC_Register 2, AC_Update 5 1 ''A'' (sample_book 1), AC_Update 6 2 ''A'' (sample_book 2)]"

definition sample_ag :: aggregator where
  "sample_ag = run agg_step sample_feed ag_new"

lemma sample_feed_legal: "legal agg_ok agg_step sample_feed ag_new"
  by (simp add: sample_feed_def register_venue_def ag_new_def on_book_update_def recalculate_nbbo_def Let_def)

lemma sample_ag_venues: "ag_venues sample_ag = [1, 2]"
  by (simp add: sample_ag_def sample_feed_def register_venue_def ag_new_def on_book_update_def
      recalculate_nbbo_def Let_def)

lemma sample_ag_books: "v = 1 \<or> v = 2 \<Longrightarrow> get_venue_book v ''A'' sample_ag = Some (sample_book v)"
  by (auto simp: sample_ag_def sample_feed_def get_venue_book_update)

lemma sample_quotes: "quotes True ''A'' sample_ag = [(1, 100, 5), (2, 100, 5)]"
  by (simp add: quotes_def sample_ag_venues sample_ag_books quote_of_def best_bid_def bs_empty_def
      bs_best_def sample_book_def ladder_def sample_level_def upt_conv_Cons numeral_2_eq_2 INVALID_PRICE_def)

definition sample_tag :: "price \<Rightarrow> venue_id \<Rightarrow> tagged_level" where
  "sample_tag p v = \<lparr>tg_price = p, tg_quantity = 5, tg_venue = v\<rparr>"

lemma sample_tag_simps [simp]:
  "tg_price (sample_tag p v) = p" "tg_quantity (sample_tag p v) = 5" "tg_venue (sample_tag p v) = v"
  by (simp_all add: sample_tag_def)

lemma sample_tags: "tag_levels v (ob_bids (sample_book v)) = [sample_tag 100 v, sample_tag 99 v]"
  by (simp add: tag_levels_def sample_book_def ladder_def sample_level_def level_valid_def INVALID_PRICE_def
      upt_conv_Cons numeral_2_eq_2 sample_tag_def)

lemma sample_collected:
  "collect_levels ob_bids ''A'' sample_ag = [sample_tag 100 1, sample_tag 99 1, sample_tag 100 2, sample_tag 99 2]"
  by (simp add: collect_levels_def sample_ag_venues sample_ag_books sample_tags)

lemma sample_top:
  "agg_levels True (get_aggregated_book sort_by ''A'' sample_ag) \<noteq> []"
  "al_price (hd (agg_levels True (get_aggregated_book sort_by ''A'' sample_ag))) = 100"
proof -
  have "sort_by (\<lambda>a b. tg_price a > tg_price b) (collect_levels ob_bids ''A'' sample_ag) =
      [sample_tag 100 1, sample_tag 100 2, sample_tag 99 1, sample_tag 99 2]"
    by (simp add: sample_collected sort_by_def)
  then have lv: "agg_levels True (get_aggregated_book sort_by ''A'' sample_ag) =
      merge_levels [sample_tag 100 1, sample_tag 100 2, sample_tag 99 1, sample_tag 99 2] []"
    by (simp add: agg_levels_def get_aggregated_book_def build_aggregated_book_def Let_def)
  show "agg_levels True (get_aggregated_book sort_by ''A'' sample_ag) \<noteq> []"
    and "al_price (hd (agg_levels True (get_aggregated_book sort_by ''A'' sample_ag))) = 100"
    unfolding lv by (simp_all add: MAX_DEPTH_def add_venue_def MAX_VENUES_def)
qed

text \<open>
  C18: after any sequence of venue registrations, book updates (each from a registered venue) and
  callback changes, the cached NBBO of every symbol is the best of the quotes at the top of the
  venues' books: no quote beats its price, its quantity is the total quoted at that price, and its
  venue is the first registered one quoting it; without quotes it is empty.
\<close>

theorem nbbo_is_best_quote:
  assumes "legal agg_ok agg_step cs ag_new" and "ag = run agg_step cs ag_new"
    and "\<forall>(v, p, q) \<in> set (quotes is_bid symb ag). 0 \<le> q"
    and "(\<Sum>(v, p, q) \<leftarrow> quotes is_bid symb ag. q) < 2 ^ 63"
    and "nb = get_nbbo symb ag"
  shows "best_quote is_bid (quotes is_bid symb ag)
    (if is_bid then nb_bid nb else nb_ask nb)
    (if is_bid then nb_bid_qty nb else nb_ask_qty nb)
    (if is_bid then nb_bid_venue nb else nb_ask_venue nb)"
  using assms by (rule nbbo_always_best)

theorem nbbo_is_best_quote_witness:
  "nb_bid_venue (get_nbbo ''A'' sample_ag) = 1 \<and> nb_bid_qty (get_nbbo ''A'' sample_ag) = 10"
proof -
  have "best_quote True [(1, 100, 5), (2, 100, 5)] (nb_bid (get_nbbo ''A'' sample_ag))
      (nb_bid_qty (get_nbbo ''A'' sample_ag)) (nb_bid_venue (get_nbbo ''A'' sample_ag))"
    using nbbo_is_best_quote [OF sample_feed_legal sample_ag_def, of True "''A''" "get_nbbo ''A'' sample_ag"]
    by (simp add: sample_quotes)
  then show ?thesis by (auto simp: best_quote_def better_def split: if_splits)
qed

text \<open>
  C28: the aggregated book of a symbol lists at most \<open>MAX_DEPTH\<close> levels per side, strictly from
  best to worst, and its first level has exactly the price and the total quantity of the NBBO that
  is returned with it.
\<close>

theorem aggregated_book_matches_nbbo:
  assumes "std_sort srt" and "legal agg_ok agg_step cs ag_new" and "ag = run agg_step cs ag_new"
    and "books_ok symb ag" and "length (ag_venues ag) \<le> MAX_VENUES"
    and "(\<Sum>(v, p, q) \<leftarrow> quotes is_bid symb ag. q) < 2 ^ 63"
    and "ab = get_aggregated_book srt symb ag" and "agg_levels is_bid ab = l # ls"
  shows "sorted_wrt (better is_bid) (map al_price (l # ls)) \<and> length (l # ls) \<le> MAX_DEPTH \<and>
    al_price l = (if is_bid then nb_bid (ab_nbbo ab) else nb_ask (ab_nbbo ab)) \<and>
    al_total l = (if is_bid then nb_bid_qty (ab_nbbo ab) else nb_ask_qty (ab_nbbo ab))"
proof -
  have "agg_inv ag" using agg.inv_run assms(2,3) by blast
  then obtain now where nb: "get_nbbo symb ag = compute_nbbo now symb ag" unfolding agg_inv_def by blast
  have "ab_nbbo ab = get_nbbo symb ag"
    by (simp add: assms(7) get_aggregated_book_def build_aggregated_book_def Let_def)
  moreover note aggregated_top_is_nbbo [OF assms(1,4) nb assms(8) [unfolded assms(7)] assms(5,6)]
  moreover note aggregated_levels_sorted [OF assms(1), of is_bid symb ag, folded assms(7), unfolded assms(8)]
  ultimately show ?thesis by simp
qed

theorem aggregated_book_matches_nbbo_witness:
  "\<exists>l ls. agg_levels True (get_aggregated_book sort_by ''A'' sample_ag) = l # ls \<and>
     al_total l = nb_bid_qty (ab_nbbo (get_aggregated_book sort_by ''A'' sample_ag))"
proof -
  obtain l ls where l: "agg_levels True (get_aggregated_book sort_by ''A'' sample_ag) = l # ls"
    using sample_top(1) by (cases "agg_levels True (get_aggregated_book sort_by ''A'' sample_ag)") auto
  have ok: "books_ok ''A'' sample_ag"
  proof -
    have "book_inv (sample_book v)" for v
      by (simp add: sample_book_def book_inv_def ladder_inv bs_new_inv MAX_DEPTH_def)
    moreover have "bs_levels (ladder 2) = [sample_level 100 5, sample_level 99 5]"
      by (simp add: ladder_levels MAX_DEPTH_def upt_conv_Cons numeral_2_eq_2)
    moreover have "bs_levels bs_new = []" by (simp add: bs_levels_def bs_new_def)
    ultimately show ?thesis
      by (auto simp: books_ok_def sample_ag_venues sample_ag_books sample_book_def sample_level_def
          INVALID_PRICE_def)
  qed
  have "al_total l = nb_bid_qty (ab_nbbo (get_aggregated_book sort_by ''A'' sample_ag))"
    using aggregated_book_matches_nbbo [OF std_sort_by sample_feed_legal sample_ag_def ok _ _ refl l]
    by (simp add: sample_ag_venues sample_quotes MAX_VENUES_def)
  with l show ?thesis by blast
qed

text \<open>
  every level of the aggregated book carries the exact total and the full venue breakdown of
  the valid venue levels at its price, as long as no more than \<open>MAX_VENUES\<close> of them share it.
\<close>

theorem aggregated_level_is_total:
  assumes "std_sort srt" and "l \<in> set (agg_levels is_bid (get_aggregated_book srt symb ag))"
    and "us = filter (\<lambda>t. tg_price t = al_price l) (collect_levels (side_fn is_bid) symb ag)"
    and "length us \<le> MAX_VENUES" and "(\<Sum>t \<leftarrow> us. tg_quantity t) < 2 ^ 63"
  shows "al_total l = (\<Sum>t \<leftarrow> us. tg_quantity t) \<and> mset (al_breakdown l) = mset (map vq_of us)"
  using aggregated_level_total [OF assms] by simp

theorem aggregated_level_is_total_witness:
  "\<exists>l. agg_levels True (get_aggregated_book sort_by ''A'' sample_ag) \<noteq> [] \<and>
     l = hd (agg_levels True (get_aggregated_book sort_by ''A'' sample_ag)) \<and> al_total l = 10"
proof -
  let ?ls = "agg_levels True (get_aggregated_book sort_by ''A'' sample_ag)"
  have cl: "collect_levels (side_fn True) ''A'' sample_ag = collect_levels ob_bids ''A'' sample_ag"
    by (simp add: collect_levels_def side_fn_def)
  have "al_total (hd ?ls) = 10"
    using aggregated_level_is_total [OF std_sort_by _ refl, of "hd ?ls" True "''A''" sample_ag] sample_top
    by (simp add: cl sample_collected MAX_VENUES_def)
  with sample_top(1) show ?thesis by blast
qed

end
