(* ===== verification/Strategy.thy ===== *)
theory Strategy
  imports Aggregator "HOL-Library.AList"
begin

text \<open>
  The interface of the routing strategies, from \<open>routing/strategy.h\<close>: slices, decisions
  and venue scores, and the contract every strategy keeps (locale \<open>strategy_contract\<close>): no
  slice without a valid market, positive quantities, and only prices that an available
  venue displays on the opposite side of the book. \<open>bounded_strategy\<close> adds that a decision
  never asks for more than the order has left; it is what makes child orders safe to send.

  The containers the strategies share are here too. A \<open>std::unordered_map\<close> from venues is an
  association list in the order of first insertion; a loop over it runs in the order that
  an argument \<open>iter\<close> gives, of which the lemmas only assume that it permutes the entries.
\<close>

section \<open>Slices, decisions and scores\<close>

record slice =
  sl_venue :: venue_id
  sl_price :: price
  sl_quantity :: quantity
  sl_type :: order_type
  sl_tif :: time_in_force

type_synonym decision = "slice list"

definition decision_valid :: "decision \<Rightarrow> bool" where
  "decision_valid d \<longleftrightarrow> d \<noteq> []"

definition total_quantity :: "decision \<Rightarrow> quantity" where
  "total_quantity d = fold (\<lambda>s tot. i64 (tot + sl_quantity s)) d 0"

record venue_score =
  vs_venue :: venue_id
  vs_latency_us :: double
  vs_fill_rate :: double
  vs_fee_rate :: double
  vs_fee_adjusted_price :: price
  vs_available :: bool

text \<open>The first available score of a venue, as the inner loops of the strategies find it.\<close>

definition find_score :: "venue_score list \<Rightarrow> venue_id \<Rightarrow> venue_score option" where
  "find_score vs v = List.find (\<lambda>s. vs_venue s = v \<and> vs_available s) vs"

text \<open>The side of the aggregated book an order trades against.\<close>

definition route_levels :: "order \<Rightarrow> aggregated_book \<Rightarrow> aggregated_level list" where
  "route_levels od book = (if o_side od = Buy then ab_asks book else ab_bids book)"

definition level_usable :: "aggregated_level \<Rightarrow> bool" where
  "level_usable l \<longleftrightarrow> \<not> (al_price l = INVALID_PRICE \<or> al_total l \<le> 0)"

section \<open>The contract\<close>

definition offered :: "aggregated_level list \<Rightarrow> venue_score list \<Rightarrow> venue_id \<Rightarrow> price \<Rightarrow> bool" where
  "offered levels vs v p \<longleftrightarrow>
     (\<exists>l \<in> set levels. level_usable l \<and> al_price l = p \<and>
        (\<exists>vq \<in> set (al_breakdown l). vq_venue vq = v \<and> 0 < vq_quantity vq)) \<and>
     (\<exists>s \<in> set vs. vs_venue s = v \<and> vs_available s)"

definition slices_sum :: "decision \<Rightarrow> int" where
  "slices_sum d = (\<Sum>s \<leftarrow> d. sl_quantity s)"

lemma slices_sum_simps [simp]: "slices_sum [] = 0" "slices_sum (s # d) = sl_quantity s + slices_sum d"
  by (simp_all add: slices_sum_def)

locale strategy_contract =
  fixes route :: "order \<Rightarrow> nbbo \<Rightarrow> aggregated_book \<Rightarrow> venue_score list \<Rightarrow> decision"
  assumes no_market: "vs = [] \<or> \<not> nbbo_valid nb \<Longrightarrow> route od nb book vs = []"
    and positive: "sl \<in> set (route od nb book vs) \<Longrightarrow> 0 < sl_quantity sl"
    and on_book: "sl \<in> set (route od nb book vs) \<Longrightarrow>
      offered (route_levels od book) vs (sl_venue sl) (sl_price sl)"
begin

lemma slice_venue_available:
  "sl \<in> set (route od nb book vs) \<Longrightarrow> \<exists>s \<in> set vs. vs_venue s = sl_venue sl \<and> vs_available s"
  using on_book by (auto simp: offered_def)

lemma slice_price_valid: "sl \<in> set (route od nb book vs) \<Longrightarrow> sl_price sl \<noteq> INVALID_PRICE"
  by (drule on_book) (auto simp: offered_def level_usable_def)

lemma empty_book: "route_levels od book = [] \<Longrightarrow> route od nb book vs = []"
  using on_book [of _ od nb book vs] by (fastforce simp: offered_def)

lemma slice_le_sum:
  "sl \<in> set (route od nb book vs) \<Longrightarrow> sl_quantity sl \<le> slices_sum (route od nb book vs)"
  unfolding slices_sum_def using positive by (intro member_le_sum_list_map) (auto intro: less_imp_le)

lemma nonneg_sum: "0 \<le> slices_sum (route od nb book vs)"
  unfolding slices_sum_def using positive by (intro sum_list_nonneg_map) (auto intro: less_imp_le)

end

locale bounded_strategy = strategy_contract +
  assumes bounded: "slices_sum (route od nb book vs) \<le> max 0 (leaves_qty od)"
begin

lemma slice_le_leaves:
  assumes "sl \<in> set (route od nb book vs)" shows "sl_quantity sl \<le> leaves_qty od"
  using slice_le_sum [OF assms] bounded [of od nb book vs] positive [OF assms] by linarith

lemma nothing_left: "leaves_qty od \<le> 0 \<Longrightarrow> route od nb book vs = []"
  using slice_le_leaves positive by (metis dual_order.trans leD list.set_intros(1) neq_Nil_conv)

end

lemma total_quantity_exact:
  assumes "\<forall>s \<in> set d. 0 \<le> sl_quantity s" and "slices_sum d < 2 ^ 63"
  shows "total_quantity d = slices_sum d"
proof -
  have "fold (\<lambda>s tot. i64 (tot + sl_quantity s)) d acc = acc + slices_sum d"
    if "0 \<le> acc" "acc + slices_sum d < 2 ^ 63" "\<forall>s \<in> set d. 0 \<le> sl_quantity s" for acc
    using that
  proof (induction d arbitrary: acc)
    case (Cons s d)
    have "0 \<le> slices_sum d" unfolding slices_sum_def using Cons.prems by (intro sum_list_nonneg_map) auto
    then have "i64 (acc + sl_quantity s) = acc + sl_quantity s" using Cons.prems by (intro i64_small) auto
    then show ?case using Cons by auto
  qed simp
  from this [of 0] assms show ?thesis by (simp add: total_quantity_def)
qed

lemma find_score_Some:
  "find_score vs v = Some s \<Longrightarrow> s \<in> set vs \<and> vs_venue s = v \<and> vs_available s"
  by (auto simp: find_score_def find_Some_iff)

lemma find_score_None: "find_score vs v = None \<longleftrightarrow> (\<forall>s \<in> set vs. \<not> (vs_venue s = v \<and> vs_available s))"
  by (auto simp: find_score_def find_None_iff)

section \<open>Maps with an arbitrary iteration order\<close>

definition any_order :: "('a list \<Rightarrow> 'a list) \<Rightarrow> bool" where
  "any_order iter \<longleftrightarrow> (\<forall>xs. mset (iter xs) = mset xs)"

lemma any_order_set: "any_order iter \<Longrightarrow> set (iter xs) = set xs"
  unfolding any_order_def by (metis mset_eq_setD)

lemma any_order_length: "any_order iter \<Longrightarrow> length (iter xs) = length xs"
  unfolding any_order_def by (metis size_mset)

text \<open>\<open>auto &x = m[k]; x = f(x)\<close> on a map whose missing entries are default-constructed as \<open>d\<close>.\<close>

definition upd_default :: "'k \<Rightarrow> 'v \<Rightarrow> ('v \<Rightarrow> 'v) \<Rightarrow> ('k \<times> 'v) list \<Rightarrow> ('k \<times> 'v) list" where
  "upd_default k d f al = AList.update k (f (case map_of al k of None \<Rightarrow> d | Some v \<Rightarrow> v)) al"

lemma map_of_upd_default:
  "map_of (upd_default k d f al) =
     (map_of al)(k \<mapsto> f (case map_of al k of None \<Rightarrow> d | Some v \<Rightarrow> v))"
  by (simp add: upd_default_def update_conv')

lemma keys_upd_default: "fst ` set (upd_default k d f al) = insert k (fst ` set al)"
  by (simp add: upd_default_def dom_update)

lemma distinct_upd_default:
  "distinct (map fst al) \<Longrightarrow> distinct (map fst (upd_default k d f al))"
  by (simp add: upd_default_def distinct_update)

lemma sum_update:
  assumes "distinct (map fst al)"
  shows "(\<Sum>(k, v) \<leftarrow> AList.update k w al. (g v :: int)) =
    (\<Sum>(k, v) \<leftarrow> al. g v) - (case map_of al k of None \<Rightarrow> 0 | Some v \<Rightarrow> g v) + g w"
  using assms by (induction al) (auto split: option.splits simp: map_of_eq_None_iff image_iff)

lemma sum_upd_default:
  assumes "distinct (map fst al)" and "g d = 0"
  shows "(\<Sum>(k, v) \<leftarrow> upd_default k d f al. (g v :: int)) =
    (\<Sum>(k, v) \<leftarrow> al. g v) +
      (let v = (case map_of al k of None \<Rightarrow> d | Some v \<Rightarrow> v) in g (f v) - g v)"
  using assms(2) by (auto simp: upd_default_def sum_update [OF assms(1)] Let_def split: option.splits)

lemma set_upd_default:
  assumes "distinct (map fst al)" and "(k', v') \<in> set (upd_default k d f al)"
  shows "(k' = k \<and> v' = f (case map_of al k of None \<Rightarrow> d | Some v \<Rightarrow> v)) \<or> (k' \<noteq> k \<and> (k', v') \<in> set al)"
proof -
  have "map_of (upd_default k d f al) k' = Some v'"
    using assms by (simp add: distinct_upd_default)
  then show ?thesis by (auto simp: map_of_upd_default split: if_splits dest: map_of_SomeD)
qed

section \<open>A small market for the witnesses\<close>

definition small_nbbo :: nbbo where
  "small_nbbo = \<lparr>nb_bid = 9900, nb_bid_qty = 10, nb_bid_venue = 1,
     nb_ask = 10000, nb_ask_qty = 50, nb_ask_venue = 1, nb_timestamp = 1\<rparr>"

definition small_asks :: "aggregated_level list" where
  "small_asks =
     [\<lparr>al_price = 10000, al_total = 50, al_breakdown = [\<lparr>vq_venue = 1, vq_quantity = 30\<rparr>, \<lparr>vq_venue = 2, vq_quantity = 20\<rparr>]\<rparr>,
      \<lparr>al_price = 10100, al_total = 15, al_breakdown = [\<lparr>vq_venue = 2, vq_quantity = 15\<rparr>]\<rparr>]"

definition small_book :: aggregated_book where
  "small_book = \<lparr>ab_symbol = ''A'', ab_nbbo = small_nbbo, ab_bids = [], ab_asks = small_asks\<rparr>"

definition small_score :: "venue_id \<Rightarrow> venue_score" where
  "small_score v = \<lparr>vs_venue = v, vs_latency_us = 100, vs_fill_rate = 1, vs_fee_rate = 0,
     vs_fee_adjusted_price = 0, vs_available = True\<rparr>"

definition small_scores :: "venue_score list" where
  "small_scores = [small_score 1, small_score 2]"

definition buy_order :: "quantity \<Rightarrow> order" where
  "buy_order q = default_order\<lparr>o_id := 1, o_symbol := ''A'', o_side := Buy, o_price := 10100, o_quantity := q\<rparr>"

lemma small_market [simp]:
  "nbbo_valid small_nbbo" "route_levels (buy_order q) small_book = small_asks"
  "small_scores \<noteq> []" "o_side (buy_order q) = Buy" "o_quantity (buy_order q) = q"
  by (simp_all add: nbbo_valid_def small_nbbo_def INVALID_PRICE_def route_levels_def buy_order_def
      small_book_def small_scores_def)

lemma buy_order_leaves [simp]: "0 \<le> q \<Longrightarrow> q < 1000 \<Longrightarrow> leaves_qty (buy_order q) = q"
  by (simp add: buy_order_def default_order_def leaves_qty_def i64_small)

lemma small_find [simp]:
  "find_score small_scores 1 = Some (small_score 1)" "find_score small_scores 2 = Some (small_score 2)"
  by (simp_all add: find_score_def small_scores_def small_score_def)

lemma small_usable [simp]: "level_usable l" if "l \<in> set small_asks"
  using that by (auto simp: small_asks_def level_usable_def INVALID_PRICE_def)

end
