(* ===== verification/Best_Price.thy ===== *)
theory Best_Price
  imports Strategy
begin

text \<open>
  The best-price strategy, from \<open>routing/best_price.cpp\<close>: the whole order goes to the venue
  whose displayed price is best after fees, with a venue quality as tie-breaker. The two
  nested loops are nested folds; \<open>bp_candidates\<close> lists the offers they consider, and the
  lemmas show that the chosen one is not beaten by any of them.
\<close>

definition fee_adjusted :: "price \<Rightarrow> double \<Rightarrow> side \<Rightarrow> price" where
  "fee_adjusted raw_price fee_rate s =
     (if raw_price = INVALID_PRICE then INVALID_PRICE
      else let raw = to_double raw_price
           in if s = Buy then to_price (dmul raw (dadd 1 fee_rate))
              else to_price (dmul raw (dsub 1 fee_rate)))"

definition compute_venue_quality :: "venue_score \<Rightarrow> double" where
  "compute_venue_quality vs =
     (let baseline = 1000;
          latency_score = ddiv baseline (if vs_latency_us vs > 0 then vs_latency_us vs else baseline)
      in dadd (dmul (rnd (7/10)) (vs_fill_rate vs)) (dmul (rnd (3/10)) latency_score))"

record candidate =
  cd_venue :: venue_id
  cd_fee_adj_price :: price
  cd_raw_price :: price
  cd_quality :: double
  cd_available :: quantity

text \<open>\<open>best.found\<close> is \<open>Some\<close>.\<close>

definition bp_is_better :: "bool \<Rightarrow> price \<Rightarrow> double \<Rightarrow> candidate \<Rightarrow> bool" where
  "bp_is_better is_buy adj quality best =
     (if is_buy then adj < cd_fee_adj_price best \<or> (adj = cd_fee_adj_price best \<and> quality > cd_quality best)
      else adj > cd_fee_adj_price best \<or> (adj = cd_fee_adj_price best \<and> quality > cd_quality best))"

definition bp_visit ::
  "side \<Rightarrow> venue_score list \<Rightarrow> price \<Rightarrow> venue_quantity \<Rightarrow> candidate option \<Rightarrow> candidate option" where
  "bp_visit s vs level_price vq best =
     (if vq_quantity vq \<le> 0 then best
      else case find_score vs (vq_venue vq) of
        None \<Rightarrow> best
      | Some score \<Rightarrow>
          let adj = fee_adjusted level_price (vs_fee_rate score) s;
              quality = compute_venue_quality score;
              is_better = (case best of None \<Rightarrow> True | Some b \<Rightarrow> bp_is_better (s = Buy) adj quality b)
          in if is_better
             then Some \<lparr>cd_venue = vq_venue vq, cd_fee_adj_price = adj, cd_raw_price = level_price,
                        cd_quality = quality, cd_available = vq_quantity vq\<rparr>
             else best)"

definition bp_level :: "side \<Rightarrow> venue_score list \<Rightarrow> aggregated_level \<Rightarrow> candidate option \<Rightarrow> candidate option" where
  "bp_level s vs level best =
     (if level_usable level then fold (bp_visit s vs (al_price level)) (al_breakdown level) best else best)"

definition best_price_route :: "order \<Rightarrow> nbbo \<Rightarrow> aggregated_book \<Rightarrow> venue_score list \<Rightarrow> decision" where
  "best_price_route od nb book vs =
     (if vs = [] \<or> \<not> nbbo_valid nb then []
      else let qty = leaves_qty od
           in if qty \<le> 0 then []
              else case fold (bp_level (o_side od) vs) (route_levels od book) None of
                     None \<Rightarrow> []
                   | Some best \<Rightarrow>
                       [\<lparr>sl_venue = cd_venue best, sl_price = cd_raw_price best, sl_quantity = qty,
                         sl_type = o_type od, sl_tif = o_tif od\<rparr>])"

section \<open>The offers considered\<close>

definition bp_offer :: "side \<Rightarrow> venue_score list \<Rightarrow> price \<Rightarrow> venue_quantity \<Rightarrow> candidate list" where
  "bp_offer s vs level_price vq =
     (if vq_quantity vq \<le> 0 then []
      else case find_score vs (vq_venue vq) of
        None \<Rightarrow> []
      | Some score \<Rightarrow>
          [\<lparr>cd_venue = vq_venue vq, cd_fee_adj_price = fee_adjusted level_price (vs_fee_rate score) s,
            cd_raw_price = level_price, cd_quality = compute_venue_quality score,
            cd_available = vq_quantity vq\<rparr>])"

definition bp_candidates :: "side \<Rightarrow> venue_score list \<Rightarrow> aggregated_level list \<Rightarrow> candidate list" where
  "bp_candidates s vs levels =
     concat (map (\<lambda>l. if level_usable l then concat (map (bp_offer s vs (al_price l)) (al_breakdown l)) else [])
       levels)"

text \<open>\<open>beats s c b\<close>: offer \<open>c\<close> is strictly preferred to \<open>b\<close> for side \<open>s\<close>.\<close>

definition beats :: "side \<Rightarrow> candidate \<Rightarrow> candidate \<Rightarrow> bool" where
  "beats s c b = bp_is_better (s = Buy) (cd_fee_adj_price c) (cd_quality c) b"

definition bp_pick :: "side \<Rightarrow> candidate \<Rightarrow> candidate option \<Rightarrow> candidate option" where
  "bp_pick s c best = (case best of None \<Rightarrow> Some c | Some b \<Rightarrow> if beats s c b then Some c else best)"

lemma bp_visit_pick: "bp_visit s vs p vq best = fold (bp_pick s) (bp_offer s vs p vq) best"
  by (auto simp: bp_visit_def bp_offer_def bp_pick_def beats_def Let_def split: option.splits)

lemma fold_bp_visit:
  "fold (bp_visit s vs p) vqs best = fold (bp_pick s) (concat (map (bp_offer s vs p) vqs)) best"
  by (induction vqs arbitrary: best) (simp_all add: bp_visit_pick)

lemma fold_bp_level:
  "fold (bp_level s vs) levels best = fold (bp_pick s) (bp_candidates s vs levels) best"
  by (induction levels arbitrary: best) (simp_all add: bp_level_def bp_candidates_def fold_bp_visit)

lemma strict_weak_beats: "strict_weak (beats s)"
  by (auto simp: strict_weak_def beats_def bp_is_better_def)

lemma beats_neg_trans: "\<not> beats s x y \<Longrightarrow> \<not> beats s y z \<Longrightarrow> \<not> beats s x z"
  using strict_weak_beats [of s] unfolding strict_weak_def by blast

lemma beats_asym: "beats s x y \<Longrightarrow> \<not> beats s y x"
  using strict_weak_beats [of s] unfolding strict_weak_def by blast

lemma beats_irrefl: "\<not> beats s x x"
  using beats_asym by blast

lemma fold_bp_pick_Some:
  "\<exists>b'. fold (bp_pick s) cs (Some b) = Some b' \<and> b' \<in> insert b (set cs) \<and>
     (\<forall>c \<in> insert b (set cs). \<not> beats s c b')"
proof (induction cs arbitrary: b)
  case Nil
  then show ?case by (simp add: beats_irrefl)
next
  case (Cons c cs)
  show ?case
  proof (cases "beats s c b")
    case True
    obtain b' where b': "fold (bp_pick s) cs (Some c) = Some b'" "b' \<in> insert c (set cs)"
      "\<forall>x \<in> insert c (set cs). \<not> beats s x b'"
      using Cons.IH by blast
    have "\<not> beats s b b'" using beats_neg_trans [OF beats_asym [OF True]] b'(3) by blast
    moreover have "bp_pick s c (Some b) = Some c" using True by (simp add: bp_pick_def)
    ultimately show ?thesis using b' by auto
  next
    case False
    obtain b' where b': "fold (bp_pick s) cs (Some b) = Some b'" "b' \<in> insert b (set cs)"
      "\<forall>x \<in> insert b (set cs). \<not> beats s x b'"
      using Cons.IH by blast
    have "\<not> beats s c b'" using beats_neg_trans [OF False] b'(3) by blast
    moreover have "bp_pick s c (Some b) = Some b" using False by (simp add: bp_pick_def)
    ultimately show ?thesis using b' by auto
  qed
qed

lemma fold_bp_pick:
  assumes "cs \<noteq> []"
  shows "\<exists>b \<in> set cs. fold (bp_pick s) cs None = Some b \<and> (\<forall>c \<in> set cs. \<not> beats s c b)"
proof -
  obtain c cs' where "cs = c # cs'" using assms by (cases cs) auto
  then show ?thesis using fold_bp_pick_Some [of s cs' c] by (auto simp: bp_pick_def)
qed

lemma best_price_route_eq:
  "best_price_route od nb book vs =
    (if vs = [] \<or> \<not> nbbo_valid nb \<or> leaves_qty od \<le> 0 then []
     else case fold (bp_pick (o_side od)) (bp_candidates (o_side od) vs (route_levels od book)) None of
            None \<Rightarrow> []
          | Some best \<Rightarrow>
              [\<lparr>sl_venue = cd_venue best, sl_price = cd_raw_price best, sl_quantity = leaves_qty od,
                sl_type = o_type od, sl_tif = o_tif od\<rparr>])"
  by (simp add: best_price_route_def fold_bp_level Let_def)

lemma bp_candidates_offered:
  assumes "c \<in> set (bp_candidates s vs levels)"
  shows "offered levels vs (cd_venue c) (cd_raw_price c)"
proof -
  obtain l vq where l: "l \<in> set levels" "level_usable l" and vq: "vq \<in> set (al_breakdown l)"
    and c: "c \<in> set (bp_offer s vs (al_price l) vq)"
    using assms by (auto simp: bp_candidates_def split: if_splits)
  have "cd_raw_price c = al_price l" "cd_venue c = vq_venue vq" "0 < vq_quantity vq"
    "\<exists>sc \<in> set vs. vs_venue sc = vq_venue vq \<and> vs_available sc"
    using c by (auto simp: bp_offer_def split: if_splits option.splits dest!: find_score_Some [OF sym])
  then show ?thesis using l vq unfolding offered_def by metis
qed

text \<open>The chosen offer is not beaten, and is chosen whenever there is an offer.\<close>

lemma best_price_optimal:
  assumes "nbbo_valid nb" and "0 < leaves_qty od"
    and "cands = bp_candidates (o_side od) vs (route_levels od book)" and "cands \<noteq> []"
  shows "\<exists>b \<in> set cands. (\<forall>c \<in> set cands. \<not> beats (o_side od) c b) \<and>
    best_price_route od nb book vs =
      [\<lparr>sl_venue = cd_venue b, sl_price = cd_raw_price b, sl_quantity = leaves_qty od,
        sl_type = o_type od, sl_tif = o_tif od\<rparr>]"
proof -
  obtain c where "c \<in> set cands" using assms(4) by (cases cands) auto
  then have "offered (route_levels od book) vs (cd_venue c) (cd_raw_price c)"
    unfolding assms(3) by (rule bp_candidates_offered)
  then have "vs \<noteq> []" by (auto simp: offered_def)
  then show ?thesis
    using fold_bp_pick [OF assms(4), of "o_side od"] assms(1-3) by (force simp: best_price_route_eq)
qed

lemma best_price_none:
  "bp_candidates (o_side od) vs (route_levels od book) = [] \<Longrightarrow> best_price_route od nb book vs = []"
  by (simp add: best_price_route_eq)

lemma best_price_cases:
  obtains "best_price_route od nb book vs = []"
  | c where "c \<in> set (bp_candidates (o_side od) vs (route_levels od book))" "nbbo_valid nb" "vs \<noteq> []"
      "0 < leaves_qty od" "best_price_route od nb book vs =
        [\<lparr>sl_venue = cd_venue c, sl_price = cd_raw_price c, sl_quantity = leaves_qty od,
          sl_type = o_type od, sl_tif = o_tif od\<rparr>]"
proof (cases "vs = [] \<or> \<not> nbbo_valid nb \<or> leaves_qty od \<le> 0 \<or>
    bp_candidates (o_side od) vs (route_levels od book) = []")
  case True
  then show ?thesis using that(1) by (auto simp: best_price_route_eq)
next
  case False
  then show ?thesis using best_price_optimal [of nb od _ vs book] that(2) by force
qed

interpretation best_price: bounded_strategy best_price_route
proof
  show "vs = [] \<or> \<not> nbbo_valid nb \<Longrightarrow> best_price_route od nb book vs = []" for vs nb od book
    by (auto simp: best_price_route_def)
next
  fix sl od nb book vs
  assume "sl \<in> set (best_price_route od nb book vs)"
  then show "0 < sl_quantity sl" and "offered (route_levels od book) vs (sl_venue sl) (sl_price sl)"
    by (cases rule: best_price_cases [of od nb book vs]; auto dest: bp_candidates_offered)+
next
  show "slices_sum (best_price_route od nb book vs) \<le> max 0 (leaves_qty od)" for od nb book vs
    by (cases rule: best_price_cases [of od nb book vs]) auto
qed

section \<open>Properties\<close>

text \<open>
  with a valid market and an order with something left, the best-price strategy sends the
  whole of it to one offer of the opposite side, and no other offer beats that one: none has a
  better fee-adjusted price, nor an equal one with a higher venue quality. The offers are all
  displayed quantities of available venues on usable levels.
\<close>

theorem best_price_unbeaten:
  assumes "nbbo_valid nb" and "0 < leaves_qty od"
    and "cands = bp_candidates (o_side od) vs (route_levels od book)" and "cands \<noteq> []"
  shows "\<exists>b \<in> set cands. (\<forall>c \<in> set cands. \<not> beats (o_side od) c b) \<and>
    best_price_route od nb book vs =
      [\<lparr>sl_venue = cd_venue b, sl_price = cd_raw_price b, sl_quantity = leaves_qty od,
        sl_type = o_type od, sl_tif = o_tif od\<rparr>]"
  using assms by (rule best_price_optimal)

theorem best_price_unbeaten_witness:
  "map sl_quantity (best_price_route (buy_order 40) small_nbbo small_book small_scores) = [40]"
proof -
  have "bp_candidates Buy small_scores small_asks \<noteq> []"
    by (simp add: bp_candidates_def small_asks_def bp_offer_def level_usable_def INVALID_PRICE_def)
  then show ?thesis
    using best_price_unbeaten [of small_nbbo "buy_order 40" _ small_scores small_book, OF _ _ refl] by auto
qed

end
