(* ===== verification/Liquidity_Sweep.thy ===== *)
theory Liquidity_Sweep
  imports Strategy
begin

text \<open>
  The liquidity sweep, from \<open>routing/liquidity_sweep.cpp\<close>: the levels are walked in price
  priority and the quantity taken from a level is split over its venues in proportion to
  what they display, in double arithmetic with clamps; what rounding leaves over goes to the
  venue that displays most. The allocations become at most \<open>MAX_SLICES\<close> slices.

  The main facts: what has been allocated and what remains always add up to the order's
  leaves quantity, so the slices never exceed it; and with the default minimum and no venue
  numbered 0 the slices take everything the levels offer, up to the order.
\<close>

definition MAX_SLICES :: nat where "MAX_SLICES = 10"

definition venue_index :: "venue_score list \<Rightarrow> venue_id \<rightharpoonup> nat" where
  "venue_index vs = fold (\<lambda>(i, s) m. if vs_available s then m(vs_venue s \<mapsto> i) else m)
     (enumerate 0 vs) Map.empty"

record venue_alloc =
  va_venue :: venue_id
  va_worst_price :: price
  va_total_qty :: quantity

type_synonym allocations = "(venue_id \<times> venue_alloc) list"

definition default_alloc :: venue_alloc where
  "default_alloc = \<lparr>va_venue = 0, va_worst_price = 0, va_total_qty = 0\<rparr>"

definition add_alloc :: "venue_id \<Rightarrow> price \<Rightarrow> quantity \<Rightarrow> allocations \<Rightarrow> allocations" where
  "add_alloc v p q = upd_default v default_alloc
     (\<lambda>a. \<lparr>va_venue = v, va_worst_price = p, va_total_qty = i64 (va_total_qty a + q)\<rparr>)"

definition vq_live :: "(venue_id \<rightharpoonup> 'a) \<Rightarrow> venue_quantity \<Rightarrow> bool" where
  "vq_live idx vq \<longleftrightarrow> vq_quantity vq > 0 \<and> idx (vq_venue vq) \<noteq> None"

definition level_available :: "(venue_id \<rightharpoonup> nat) \<Rightarrow> aggregated_level \<Rightarrow> quantity" where
  "level_available idx level =
     fold (\<lambda>vq acc. if vq_live idx vq then i64 (acc + vq_quantity vq) else acc) (al_breakdown level) 0"

definition pro_rata :: "quantity \<Rightarrow> quantity \<Rightarrow> quantity \<Rightarrow> quantity" where
  "pro_rata q available fill = to_i64 (dmul (ddiv (of_i64 q) (of_i64 available)) (of_i64 fill))"

text \<open>The share of a venue: pro rata, clamped to what it displays and to what the level still needs.\<close>

definition venue_share :: "quantity \<Rightarrow> quantity \<Rightarrow> quantity \<Rightarrow> quantity \<Rightarrow> quantity" where
  "venue_share q available fill allocated =
     min (min (if available > 0 then pro_rata q available fill else 0) q) (i64 (fill - allocated))"

text \<open>The test that skips a dust share; a share that completes the level is never dust.\<close>

definition is_dust :: "quantity \<Rightarrow> quantity \<Rightarrow> quantity \<Rightarrow> quantity \<Rightarrow> bool" where
  "is_dust minq share fill allocated \<longleftrightarrow> share < minq \<and> share < i64 (fill - allocated)"

text \<open>The body of the allocation loop of one level; \<open>allocated\<close> is \<open>level_allocated\<close>.\<close>

definition alloc_venue ::
  "(venue_id \<rightharpoonup> nat) \<Rightarrow> quantity \<Rightarrow> price \<Rightarrow> quantity \<Rightarrow> quantity \<Rightarrow> venue_quantity \<Rightarrow>
   allocations \<times> quantity \<Rightarrow> allocations \<times> quantity" where
  "alloc_venue idx minq p available fill vq r =
     (if \<not> vq_live idx vq then r
      else let share = venue_share (vq_quantity vq) available fill (snd r)
           in if is_dust minq share fill (snd r) then r
              else (add_alloc (vq_venue vq) p share (fst r), i64 (snd r + share)))"

fun alloc_level ::
  "(venue_id \<rightharpoonup> nat) \<Rightarrow> quantity \<Rightarrow> price \<Rightarrow> quantity \<Rightarrow> quantity \<Rightarrow> venue_quantity list \<Rightarrow>
   allocations \<times> quantity \<Rightarrow> allocations \<times> quantity" where
  "alloc_level idx minq p available fill [] r = r"
| "alloc_level idx minq p available fill (vq # vqs) r =
     (if snd r < fill
      then alloc_level idx minq p available fill vqs (alloc_venue idx minq p available fill vq r)
      else r)"

definition most_liquid :: "(venue_id \<rightharpoonup> nat) \<Rightarrow> venue_quantity list \<Rightarrow> venue_id \<times> quantity" where
  "most_liquid idx vqs =
     fold (\<lambda>vq best. if vq_quantity vq > snd best \<and> idx (vq_venue vq) \<noteq> None
                     then (vq_venue vq, vq_quantity vq) else best) vqs (0, 0)"

definition alloc_remainder ::
  "(venue_id \<rightharpoonup> nat) \<Rightarrow> price \<Rightarrow> quantity \<Rightarrow> venue_quantity list \<Rightarrow> allocations \<times> quantity \<Rightarrow>
   allocations \<times> quantity" where
  "alloc_remainder idx p fill vqs r =
     (if snd r < fill
      then let remainder = i64 (fill - snd r); best_venue = fst (most_liquid idx vqs)
           in if best_venue \<noteq> 0
              then (add_alloc best_venue p remainder (fst r), i64 (snd r + remainder))
              else r
      else r)"

text \<open>One level: fill as much of \<open>remaining\<close> as it can.\<close>

definition sweep_level ::
  "(venue_id \<rightharpoonup> nat) \<Rightarrow> quantity \<Rightarrow> aggregated_level \<Rightarrow> allocations \<times> quantity \<Rightarrow> allocations \<times> quantity" where
  "sweep_level idx minq level r =
     (let available = level_available idx level
      in if \<not> level_usable level \<or> available \<le> 0 then r
         else let fill = min (snd r) available;
                  r' = alloc_remainder idx (al_price level) fill (al_breakdown level)
                        (alloc_level idx minq (al_price level) available fill (al_breakdown level) (fst r, 0))
              in (fst r', i64 (snd r - snd r')))"

fun sweep_levels ::
  "(venue_id \<rightharpoonup> nat) \<Rightarrow> quantity \<Rightarrow> aggregated_level list \<Rightarrow> allocations \<times> quantity \<Rightarrow>
   allocations \<times> quantity" where
  "sweep_levels idx minq [] r = r"
| "sweep_levels idx minq (level # levels) r =
     (if snd r > 0 then sweep_levels idx minq levels (sweep_level idx minq level r) else r)"

fun collect_slices :: "quantity \<Rightarrow> allocations \<Rightarrow> decision \<Rightarrow> decision" where
  "collect_slices minq [] d = d"
| "collect_slices minq ((v, a) # al) d =
     (if va_total_qty a < minq then collect_slices minq al d
      else if length d \<ge> MAX_SLICES then d
      else collect_slices minq al
             (d @ [\<lparr>sl_venue = va_venue a, sl_price = va_worst_price a, sl_quantity = va_total_qty a,
                    sl_type = OT_Limit, sl_tif = TIF_IOC\<rparr>]))"

type_synonym slice_sorter = "(slice \<Rightarrow> slice \<Rightarrow> bool) \<Rightarrow> slice list \<Rightarrow> slice list"

definition sort_slices :: "slice_sorter \<Rightarrow> side \<Rightarrow> decision \<Rightarrow> decision" where
  "sort_slices srt s d =
     (if s = Buy then srt (\<lambda>a b. sl_price a < sl_price b) d else srt (\<lambda>a b. sl_price a > sl_price b) d)"

definition liquidity_sweep_route ::
  "(allocations \<Rightarrow> allocations) \<Rightarrow> slice_sorter \<Rightarrow> quantity \<Rightarrow>
   order \<Rightarrow> nbbo \<Rightarrow> aggregated_book \<Rightarrow> venue_score list \<Rightarrow> decision" where
  "liquidity_sweep_route iter srt minq od nb book vs =
     (if vs = [] \<or> \<not> nbbo_valid nb then []
      else let remaining = leaves_qty od
           in if remaining \<le> 0 then []
              else let r = sweep_levels (venue_index vs) minq (route_levels od book) ([], remaining)
                   in sort_slices srt (o_side od) (collect_slices minq (iter (fst r)) []))"

section \<open>Allocations\<close>

definition alloc_sum :: "allocations \<Rightarrow> int" where
  "alloc_sum al = (\<Sum>(v, a) \<leftarrow> al. va_total_qty a)"

text \<open>Every allocation is for its own venue, positive, and at a price \<open>ok\<close> for that venue.\<close>

definition alloc_wf :: "(venue_id \<Rightarrow> price \<Rightarrow> bool) \<Rightarrow> allocations \<Rightarrow> bool" where
  "alloc_wf ok al \<longleftrightarrow> distinct (map fst al) \<and>
     (\<forall>(v, a) \<in> set al. va_venue a = v \<and> 0 < va_total_qty a \<and> ok v (va_worst_price a))"

lemma alloc_wf_Nil [simp]: "alloc_wf ok []" "alloc_sum [] = 0"
  by (simp_all add: alloc_wf_def alloc_sum_def)

lemma alloc_sum_nonneg: "alloc_wf ok al \<Longrightarrow> 0 \<le> alloc_sum al"
  unfolding alloc_wf_def alloc_sum_def by (intro sum_list_nonneg_map) (auto intro: less_imp_le)

lemma alloc_le_sum:
  assumes "alloc_wf ok al" and "map_of al v = Some a" shows "va_total_qty a \<le> alloc_sum al"
proof -
  have "(\<lambda>(v, a). va_total_qty a) (v, a) \<le> (\<Sum>x \<leftarrow> al. (\<lambda>(v, a). va_total_qty a) x)"
    using assms by (intro member_le_sum_list_map) (auto simp: alloc_wf_def dest: map_of_SomeD intro: less_imp_le)
  then show ?thesis by (simp add: alloc_sum_def)
qed

lemma add_alloc_props:
  assumes "alloc_wf ok al" and "0 < q" and "alloc_sum al + q < 2 ^ 63" and "ok v p"
  shows "alloc_wf ok (add_alloc v p q al)" and "alloc_sum (add_alloc v p q al) = alloc_sum al + q"
    and "fst ` set (add_alloc v p q al) = insert v (fst ` set al)"
proof -
  define a where "a = (case map_of al v of None \<Rightarrow> default_alloc | Some a \<Rightarrow> a)"
  have a: "0 \<le> va_total_qty a \<and> va_total_qty a \<le> alloc_sum al"
    using assms(1) alloc_le_sum [OF assms(1), of v] alloc_sum_nonneg [OF assms(1)]
    by (auto simp: a_def default_alloc_def alloc_wf_def split: option.splits dest: map_of_SomeD)
  then have tot: "i64 (va_total_qty a + q) = va_total_qty a + q"
    using assms(2,3) by (intro i64_small) simp
  have dist: "distinct (map fst al)" using assms(1) by (simp add: alloc_wf_def)
  show "alloc_sum (add_alloc v p q al) = alloc_sum al + q"
    using tot by (simp add: alloc_sum_def add_alloc_def sum_upd_default [OF dist] default_alloc_def
        a_def [unfolded default_alloc_def, symmetric] Let_def)
  show "alloc_wf ok (add_alloc v p q al)"
    unfolding alloc_wf_def
  proof (intro conjI ballI)
    show "distinct (map fst (add_alloc v p q al))"
      by (simp add: add_alloc_def distinct_upd_default [OF dist])
    fix x assume x: "x \<in> set (add_alloc v p q al)"
    obtain v' a' where v': "x = (v', a')" by (cases x)
    then have "(v', a') \<in> set (upd_default v default_alloc
        (\<lambda>a. \<lparr>va_venue = v, va_worst_price = p, va_total_qty = i64 (va_total_qty a + q)\<rparr>) al)"
      using x by (simp add: add_alloc_def)
    from set_upd_default [OF dist this] a tot assms(1,2,4)
    show "case x of (v, a) \<Rightarrow> va_venue a = v \<and> 0 < va_total_qty a \<and> ok v (va_worst_price a)"
      unfolding v' a_def [symmetric] alloc_wf_def by auto
  qed
  show "fst ` set (add_alloc v p q al) = insert v (fst ` set al)"
    by (simp add: add_alloc_def keys_upd_default)
qed

section \<open>One level\<close>

lemma venue_index_dom:
  "dom (venue_index vs) = {vs_venue s |s. s \<in> set vs \<and> vs_available s}"
proof -
  have "dom (fold (\<lambda>(i, s) m. if vs_available s then m(vs_venue s \<mapsto> i) else m) (enumerate n vs) m) =
      dom m \<union> {vs_venue s |s. s \<in> set vs \<and> vs_available s}" for n m
    by (induction vs arbitrary: n m) auto
  then show ?thesis by (simp add: venue_index_def)
qed

lemma pro_rata_nonneg:
  assumes "0 \<le> q" and "0 < available" and "0 \<le> fill" shows "0 \<le> pro_rata q available fill"
  using assms unfolding pro_rata_def
  by (intro to_i64_nonneg dmul_nonneg ddiv_nonneg of_i64_nonneg) simp_all

lemma venue_share_bounds:
  assumes "0 < q" and "0 \<le> allocated" and "allocated < fill" and "fill < 2 ^ 63" and "0 < available"
  shows "0 \<le> venue_share q available fill allocated"
    and "venue_share q available fill allocated \<le> fill - allocated"
    and "venue_share q available fill allocated \<le> q"
proof -
  have "i64 (fill - allocated) = fill - allocated" using assms(2-4) by (intro i64_small) simp
  then show "0 \<le> venue_share q available fill allocated"
    and "venue_share q available fill allocated \<le> fill - allocated"
    and "venue_share q available fill allocated \<le> q"
    using assms pro_rata_nonneg [of q available fill] by (auto simp: venue_share_def)
qed

text \<open>What the loops over one level keep; \<open>s0\<close> is the sum allocated before the level.\<close>

definition level_inv ::
  "(venue_id \<Rightarrow> price \<Rightarrow> bool) \<Rightarrow> (venue_id \<rightharpoonup> 'a) \<Rightarrow> int \<Rightarrow> quantity \<Rightarrow> allocations \<times> quantity \<Rightarrow> bool" where
  "level_inv ok idx s0 fill r \<longleftrightarrow> alloc_wf ok (fst r) \<and> fst ` set (fst r) \<subseteq> dom idx \<and>
     0 \<le> snd r \<and> snd r \<le> fill \<and> alloc_sum (fst r) = s0 + snd r"

lemma level_inv_add:
  assumes "level_inv ok idx s0 fill r" and "0 < q" and "q \<le> fill - snd r"
    and "0 \<le> s0" and "s0 + fill < 2 ^ 63" and "ok v p" and "idx v \<noteq> None"
  shows "level_inv ok idx s0 fill (add_alloc v p q (fst r), i64 (snd r + q))"
    and "i64 (snd r + q) = snd r + q"
proof -
  show sum: "i64 (snd r + q) = snd r + q"
    using assms(1-5) by (intro i64_small) (simp add: level_inv_def)
  have "alloc_wf ok (fst r)" and "alloc_sum (fst r) + q < 2 ^ 63"
    using assms(1,3-5) by (simp_all add: level_inv_def)
  note add = add_alloc_props [OF this(1) assms(2) this(2) assms(6)]
  show "level_inv ok idx s0 fill (add_alloc v p q (fst r), i64 (snd r + q))"
    using assms(1-3,7) unfolding level_inv_def by (auto simp: sum add)
qed

lemma alloc_venue_inv:
  assumes inv: "level_inv ok idx s0 fill r" and "snd r < fill" and "1 \<le> minq" and "0 < available"
    and "0 \<le> s0" and "s0 + fill < 2 ^ 63" and "vq_live idx vq \<Longrightarrow> ok (vq_venue vq) p"
  shows "level_inv ok idx s0 fill (alloc_venue idx minq p available fill vq r)"
proof (cases "vq_live idx vq \<and> \<not> is_dust minq (venue_share (vq_quantity vq) available fill (snd r)) fill (snd r)")
  case True
  let ?share = "venue_share (vq_quantity vq) available fill (snd r)"
  have nn: "0 \<le> snd r" using inv by (simp add: level_inv_def)
  note b = venue_share_bounds [OF _ nn assms(2) _ assms(4), of "vq_quantity vq"]
  have "i64 (fill - snd r) = fill - snd r" using nn assms(2,5,6) by (intro i64_small) simp
  then have "0 < ?share"
    using True b(1) assms(2,3,5,6) by (auto simp: is_dust_def vq_live_def)
  then have "level_inv ok idx s0 fill (add_alloc (vq_venue vq) p ?share (fst r), i64 (snd r + ?share))"
    using True b(2) assms by (intro level_inv_add) (auto simp: vq_live_def)
  then show ?thesis using True by (simp add: alloc_venue_def Let_def)
qed (auto simp: alloc_venue_def inv)

lemma alloc_level_inv:
  assumes "level_inv ok idx s0 fill r" and "1 \<le> minq" and "0 < available"
    and "0 \<le> s0" and "s0 + fill < 2 ^ 63"
    and "\<And>vq. vq \<in> set vqs \<Longrightarrow> vq_live idx vq \<Longrightarrow> ok (vq_venue vq) p"
  shows "level_inv ok idx s0 fill (alloc_level idx minq p available fill vqs r)"
  using assms(1,6)
proof (induction vqs arbitrary: r)
  case (Cons vq vqs)
  show ?case
  proof (cases "snd r < fill")
    case True
    have "level_inv ok idx s0 fill (alloc_venue idx minq p available fill vq r)"
      using Cons.prems assms(2-5) True by (intro alloc_venue_inv) auto
    then show ?thesis using Cons.IH Cons.prems(2) True by simp
  qed (use Cons.prems in simp)
qed simp

lemma most_liquid_live:
  "(\<exists>vq \<in> set vqs. vq_live idx vq \<and> vq_venue vq = fst (most_liquid idx vqs)) \<or>
    (most_liquid idx vqs = (0, 0) \<and> (\<forall>vq \<in> set vqs. \<not> vq_live idx vq))"
proof -
  have "0 \<le> snd b \<Longrightarrow>
    (let b' = fold (\<lambda>vq best. if vq_quantity vq > snd best \<and> idx (vq_venue vq) \<noteq> None
                     then (vq_venue vq, vq_quantity vq) else best) vqs b
     in (\<exists>vq \<in> set vqs. vq_live idx vq \<and> vq_venue vq = fst b') \<or>
        (b' = b \<and> (\<forall>vq \<in> set vqs. vq_live idx vq \<longrightarrow> vq_quantity vq \<le> snd b)))" for b :: "venue_id \<times> quantity"
  proof (induction vqs arbitrary: b)
    case (Cons vq vqs)
    show ?case
    proof (cases "vq_quantity vq > snd b \<and> idx (vq_venue vq) \<noteq> None")
      case True
      then have "vq_live idx vq" using Cons.prems by (simp add: vq_live_def)
      then show ?thesis
        using Cons.IH [of "(vq_venue vq, vq_quantity vq)"] Cons.prems True by (auto simp: Let_def)
    next
      case False
      then show ?thesis using Cons.IH [of b] Cons.prems by (auto simp: Let_def vq_live_def)
    qed
  qed (simp add: Let_def)
  from this [of "(0, 0)"] show ?thesis
    unfolding most_liquid_def Let_def by (auto simp: vq_live_def)
qed

lemma alloc_remainder_inv:
  assumes "level_inv ok idx s0 fill r" and "0 \<le> s0" and "s0 + fill < 2 ^ 63"
    and "\<And>vq. vq \<in> set vqs \<Longrightarrow> vq_live idx vq \<Longrightarrow> ok (vq_venue vq) p"
  shows "level_inv ok idx s0 fill (alloc_remainder idx p fill vqs r)"
    and "\<exists>vq \<in> set vqs. vq_live idx vq \<Longrightarrow> \<forall>vq \<in> set vqs. vq_live idx vq \<longrightarrow> vq_venue vq \<noteq> 0 \<Longrightarrow>
      snd (alloc_remainder idx p fill vqs r) = fill"
proof -
  have rem: "i64 (fill - snd r) = fill - snd r"
    using assms(1-3) by (intro i64_small) (simp add: level_inv_def)
  have fill: "i64 (snd r + (fill - snd r)) = fill" if "snd r < fill"
    using assms(1-3) that by (intro trans [OF i64_small]) (simp_all add: level_inv_def)
  have add: "level_inv ok idx s0 fill (add_alloc v p (fill - snd r) (fst r), fill)"
    if "snd r < fill" "ok v p" "idx v \<noteq> None" for v
    using level_inv_add(1) [OF assms(1), of "fill - snd r" v p] that assms(2,3) fill by simp
  show "level_inv ok idx s0 fill (alloc_remainder idx p fill vqs r)"
  proof (cases "snd r < fill \<and> fst (most_liquid idx vqs) \<noteq> 0")
    case True
    then obtain vq where vq: "vq \<in> set vqs" "vq_live idx vq" "vq_venue vq = fst (most_liquid idx vqs)"
      using most_liquid_live [of vqs idx] by auto
    then have "ok (fst (most_liquid idx vqs)) p" and "idx (fst (most_liquid idx vqs)) \<noteq> None"
      using assms(4) by (metis, metis vq_live_def)
    from add [OF _ this] show ?thesis using True fill by (simp add: alloc_remainder_def rem Let_def)
  qed (auto simp: alloc_remainder_def Let_def assms(1))
  assume live: "\<exists>vq \<in> set vqs. vq_live idx vq" and nz: "\<forall>vq \<in> set vqs. vq_live idx vq \<longrightarrow> vq_venue vq \<noteq> 0"
  then obtain vq where vq: "vq \<in> set vqs" "vq_live idx vq" "vq_venue vq = fst (most_liquid idx vqs)"
    using most_liquid_live [of vqs idx] by auto
  then have nz: "fst (most_liquid idx vqs) \<noteq> 0" using nz by metis
  show "snd (alloc_remainder idx p fill vqs r) = fill"
    using nz fill assms(1) by (auto simp: alloc_remainder_def rem Let_def level_inv_def)
qed

section \<open>All levels\<close>

text \<open>What the venues in \<open>idx\<close> display at a level, and at a list of levels.\<close>

definition displayed :: "(venue_id \<rightharpoonup> 'a) \<Rightarrow> aggregated_level \<Rightarrow> int" where
  "displayed idx level = (\<Sum>vq \<leftarrow> filter (vq_live idx) (al_breakdown level). vq_quantity vq)"

definition displayed_total :: "(venue_id \<rightharpoonup> 'a) \<Rightarrow> aggregated_level list \<Rightarrow> int" where
  "displayed_total idx levels = (\<Sum>l \<leftarrow> filter level_usable levels. displayed idx l)"

lemma displayed_nonneg: "0 \<le> displayed idx level" "0 \<le> displayed_total idx levels"
proof -
  show *: "0 \<le> displayed idx level" for level
    unfolding displayed_def by (intro sum_list_nonneg_map) (auto simp: vq_live_def)
  show "0 \<le> displayed_total idx levels"
    unfolding displayed_total_def by (intro sum_list_nonneg_map) (simp add: *)
qed

lemma level_available_exact:
  assumes "displayed idx level < 2 ^ 63" shows "level_available idx level = displayed idx level"
proof -
  have "fold (\<lambda>vq acc. if vq_live idx vq then i64 (acc + vq_quantity vq) else acc) vqs acc =
      acc + (\<Sum>vq \<leftarrow> filter (vq_live idx) vqs. vq_quantity vq)"
    if "0 \<le> acc" "acc + (\<Sum>vq \<leftarrow> filter (vq_live idx) vqs. vq_quantity vq) < 2 ^ 63" for vqs acc
    using that
  proof (induction vqs arbitrary: acc)
    case (Cons vq vqs)
    have "0 \<le> (\<Sum>vq \<leftarrow> filter (vq_live idx) vqs. vq_quantity vq)"
      by (intro sum_list_nonneg_map) (auto simp: vq_live_def)
    then have "i64 (acc + vq_quantity vq) = acc + vq_quantity vq" if "vq_live idx vq"
    proof -
      have "0 < vq_quantity vq" using that by (simp add: vq_live_def)
      then show ?thesis
        using Cons.prems that \<open>0 \<le> (\<Sum>vq \<leftarrow> filter (vq_live idx) vqs. vq_quantity vq)\<close>
        by (intro i64_small) simp
    qed
    then show ?case using Cons.IH Cons.prems by (auto simp: vq_live_def)
  qed simp
  from this [of 0] assms show ?thesis by (simp add: level_available_def displayed_def)
qed

lemma level_available_live:
  assumes "0 < level_available idx level" shows "\<exists>vq \<in> set (al_breakdown level). vq_live idx vq"
proof (rule ccontr)
  assume "\<not> ?thesis"
  moreover have "fold (\<lambda>vq acc. if vq_live idx vq then i64 (acc + vq_quantity vq) else acc) vqs acc = acc"
    if "\<forall>vq \<in> set vqs. \<not> vq_live idx vq" for vqs acc
    using that by (induction vqs arbitrary: acc) simp_all
  ultimately have "level_available idx level = 0" by (simp add: level_available_def)
  then show False using assms by simp
qed

text \<open>What the walk keeps: the sum allocated and the remaining quantity add up to \<open>total\<close>.\<close>

definition sweep_inv ::
  "(venue_id \<Rightarrow> price \<Rightarrow> bool) \<Rightarrow> (venue_id \<rightharpoonup> 'a) \<Rightarrow> int \<Rightarrow> allocations \<times> quantity \<Rightarrow> bool" where
  "sweep_inv ok idx tot r \<longleftrightarrow> alloc_wf ok (fst r) \<and> fst ` set (fst r) \<subseteq> dom idx \<and>
     0 \<le> snd r \<and> alloc_sum (fst r) + snd r = tot"

lemma sweep_level_inv:
  assumes "sweep_inv ok idx tot r" and "tot < 2 ^ 63" and "1 \<le> minq"
    and "\<And>vq. level_usable level \<Longrightarrow> vq \<in> set (al_breakdown level) \<Longrightarrow> vq_live idx vq \<Longrightarrow>
      ok (vq_venue vq) (al_price level)"
  shows "sweep_inv ok idx tot (sweep_level idx minq level r)"
    and "displayed idx level < 2 ^ 63 \<Longrightarrow> idx 0 = None \<Longrightarrow>
      snd (sweep_level idx minq level r) =
        snd r - (if level_usable level then min (snd r) (displayed idx level) else 0)"
proof -
  let ?av = "level_available idx level"
  let ?fill = "min (snd r) ?av"
  let ?a = "alloc_level idx minq (al_price level) ?av ?fill (al_breakdown level) (fst r, 0)"
  let ?r = "alloc_remainder idx (al_price level) ?fill (al_breakdown level) ?a"
  have s0: "0 \<le> alloc_sum (fst r)" "0 \<le> snd r"
    using assms(1) alloc_sum_nonneg by (auto simp: sweep_inv_def)
  have res: "level_inv ok idx (alloc_sum (fst r)) ?fill ?r" and
    full: "idx 0 = None \<Longrightarrow> snd ?r = ?fill" if "level_usable level" "0 < ?av"
  proof -
    have bound: "alloc_sum (fst r) + ?fill < 2 ^ 63" using assms(1,2) unfolding sweep_inv_def by linarith
    have "level_inv ok idx (alloc_sum (fst r)) ?fill (fst r, 0)"
      using assms(1) s0 that by (simp add: sweep_inv_def level_inv_def)
    then have a: "level_inv ok idx (alloc_sum (fst r)) ?fill ?a"
      using assms(3,4) that s0 bound by (intro alloc_level_inv) auto
    show "level_inv ok idx (alloc_sum (fst r)) ?fill ?r"
      using assms(4) that s0 bound by (intro alloc_remainder_inv(1) [OF a]) auto
    assume "idx 0 = None"
    then have "\<forall>vq \<in> set (al_breakdown level). vq_live idx vq \<longrightarrow> vq_venue vq \<noteq> 0"
      by (metis vq_live_def)
    then show "snd ?r = ?fill"
      using assms(4) that s0 bound level_available_live [OF that(2)]
      by (intro alloc_remainder_inv(2) [OF a]) auto
  qed
  have i: "i64 (snd r - snd ?r) = snd r - snd ?r" if "level_usable level" "0 < ?av"
    using res [OF that] assms(1,2) s0 by (intro i64_small) (auto simp: level_inv_def sweep_inv_def)
  show "sweep_inv ok idx tot (sweep_level idx minq level r)"
  proof (cases "level_usable level \<and> 0 < ?av")
    case True
    then show ?thesis
      using res i assms(1) by (auto simp: sweep_level_def Let_def sweep_inv_def level_inv_def)
  qed (auto simp: sweep_level_def Let_def assms(1))
  assume "displayed idx level < 2 ^ 63" and z: "idx 0 = None"
  then have av: "?av = displayed idx level" using level_available_exact by blast
  show "snd (sweep_level idx minq level r) =
      snd r - (if level_usable level then min (snd r) (displayed idx level) else 0)"
  proof (cases "level_usable level \<and> 0 < ?av")
    case True
    then show ?thesis using full [OF _ _ z] i av by (simp add: sweep_level_def Let_def)
  next
    case False
    then have "level_usable level \<Longrightarrow> displayed idx level = 0"
      using av displayed_nonneg(1) [of idx level] by simp
    then show ?thesis using False s0 by (auto simp: sweep_level_def Let_def)
  qed
qed

lemma sweep_levels_inv:
  assumes "sweep_inv ok idx tot r" and "tot < 2 ^ 63" and "1 \<le> minq"
    and "\<And>level vq. level \<in> set levels \<Longrightarrow> level_usable level \<Longrightarrow> vq \<in> set (al_breakdown level) \<Longrightarrow>
      vq_live idx vq \<Longrightarrow> ok (vq_venue vq) (al_price level)"
  shows "sweep_inv ok idx tot (sweep_levels idx minq levels r)"
  using assms(1,4)
proof (induction levels arbitrary: r)
  case (Cons level levels)
  then show ?case using sweep_level_inv(1) [OF Cons.prems(1) assms(2,3)] by simp
qed simp

lemma sweep_levels_remaining:
  assumes "sweep_inv ok idx tot r" and "tot < 2 ^ 63" and "1 \<le> minq"
    and "\<And>level vq. level \<in> set levels \<Longrightarrow> level_usable level \<Longrightarrow> vq \<in> set (al_breakdown level) \<Longrightarrow>
      vq_live idx vq \<Longrightarrow> ok (vq_venue vq) (al_price level)"
    and "\<forall>level \<in> set levels. displayed idx level < 2 ^ 63" and "idx 0 = None"
  shows "snd (sweep_levels idx minq levels r) = snd r - min (snd r) (displayed_total idx levels)"
  using assms(1,4,5)
proof (induction levels arbitrary: r)
  case Nil
  then show ?case by (simp add: displayed_total_def sweep_inv_def)
next
  case (Cons level levels)
  note step = sweep_level_inv [OF Cons.prems(1) assms(2,3), of level]
  have nn: "0 \<le> displayed idx level" "0 \<le> displayed_total idx levels" by (rule displayed_nonneg)+
  have tot: "displayed_total idx (level # levels) =
      (if level_usable level then displayed idx level else 0) + displayed_total idx levels"
    by (simp add: displayed_total_def)
  show ?case
  proof (cases "0 < snd r")
    case True
    have "snd (sweep_levels idx minq (level # levels) r) =
      snd (sweep_level idx minq level r) -
        min (snd (sweep_level idx minq level r)) (displayed_total idx levels)"
      using Cons.IH [of "sweep_level idx minq level r"] step(1) Cons.prems(2,3) True by simp
    moreover have "snd (sweep_level idx minq level r) =
        snd r - (if level_usable level then min (snd r) (displayed idx level) else 0)"
      using step(2) Cons.prems(2,3) assms(6) by simp
    ultimately show ?thesis using nn by (simp add: tot min_def split: if_splits)
  next
    case False
    then show ?thesis using Cons.prems(1) nn by (simp add: tot sweep_inv_def)
  qed
qed

section \<open>The decision\<close>

definition slice_of_alloc :: "venue_id \<times> venue_alloc \<Rightarrow> slice" where
  "slice_of_alloc x = \<lparr>sl_venue = va_venue (snd x), sl_price = va_worst_price (snd x),
     sl_quantity = va_total_qty (snd x), sl_type = OT_Limit, sl_tif = TIF_IOC\<rparr>"

lemma collect_slices_eq:
  assumes "length d \<le> MAX_SLICES"
  shows "collect_slices minq al d =
    d @ map slice_of_alloc (take (MAX_SLICES - length d) (filter (\<lambda>(v, a). \<not> va_total_qty a < minq) al))"
  using assms
proof (induction minq al d rule: collect_slices.induct)
  case (2 minq v a al d)
  show ?case
  proof (cases "va_total_qty a < minq \<or> length d \<ge> MAX_SLICES")
    case True
    then show ?thesis using 2 by auto
  next
    case False
    then have "MAX_SLICES - length d = Suc (MAX_SLICES - Suc (length d))" by (intro Suc_diff_Suc [symmetric]) simp
    then show ?thesis using 2(2) False by (simp add: slice_of_alloc_def)
  qed
qed simp

lemma sort_slices_props:
  assumes "std_sort srt"
  shows "mset (sort_slices srt s d) = mset d" and "set (sort_slices srt s d) = set d"
    and "sorted_wrt (\<lambda>a b. if s = Buy then sl_price a \<le> sl_price b else sl_price a \<ge> sl_price b)
      (sort_slices srt s d)"
  using std_sortD [OF assms strict_weak_less [of sl_price], of d]
    std_sortD [OF assms strict_weak_greater [of sl_price], of d]
  by (simp_all add: sort_slices_def not_less)

lemma slices_sum_mset: "mset d = mset d' \<Longrightarrow> slices_sum d = slices_sum d'"
  unfolding slices_sum_def by (rule sum_list_mset_cong)

lemma slices_sum_allocs:
  "slices_sum (map slice_of_alloc al) = alloc_sum al"
  by (induction al) (auto simp: slice_of_alloc_def alloc_sum_def)

lemma alloc_sum_mset: "mset al = mset al' \<Longrightarrow> alloc_sum al = alloc_sum al'"
  unfolding alloc_sum_def by (rule sum_list_mset_cong)

lemma alloc_sum_filter_take:
  assumes "\<forall>(v, a) \<in> set al. 0 < va_total_qty a"
  shows "alloc_sum (take n (filter P al)) \<le> alloc_sum al"
proof -
  have "alloc_sum (take n (filter P al)) \<le> alloc_sum (filter P al)"
    unfolding alloc_sum_def using assms by (intro sum_list_take_le) (auto intro: less_imp_le)
  also have "\<dots> \<le> alloc_sum al"
    unfolding alloc_sum_def using assms by (intro sum_list_map_filter_le) (auto intro: less_imp_le)
  finally show ?thesis .
qed

lemma leaves_qty_small: "leaves_qty od < 2 ^ 63"
  using i64_range [of "leaves_qty od"] swrap_in_range [of 64] by (auto simp: leaves_qty_def)

text \<open>The walk that \<open>route\<close> makes, and the slices it collects.\<close>

lemma sweep_result:
  assumes "r = sweep_levels (venue_index vs) minq (route_levels od book) ([], leaves_qty od)"
    and "0 < leaves_qty od" and "1 \<le> minq"
  shows "sweep_inv (offered (route_levels od book) vs) (venue_index vs) (leaves_qty od) r"
    and "\<forall>level \<in> set (route_levels od book). displayed (venue_index vs) level < 2 ^ 63 \<Longrightarrow>
      \<forall>s \<in> set vs. vs_venue s \<noteq> 0 \<Longrightarrow>
      alloc_sum (fst r) = min (leaves_qty od) (displayed_total (venue_index vs) (route_levels od book))"
proof -
  have init: "sweep_inv (offered (route_levels od book) vs) (venue_index vs) (leaves_qty od) ([], leaves_qty od)"
    using assms(2) by (simp add: sweep_inv_def)
  have ok: "offered (route_levels od book) vs (vq_venue vq) (al_price level)"
    if "level \<in> set (route_levels od book)" "level_usable level" "vq \<in> set (al_breakdown level)"
      "vq_live (venue_index vs) vq" for level vq
  proof -
    have "vq_venue vq \<in> dom (venue_index vs)" using that(4) by (auto simp: vq_live_def)
    then have "\<exists>s \<in> set vs. vs_venue s = vq_venue vq \<and> vs_available s"
      unfolding venue_index_dom by auto
    then show ?thesis using that unfolding offered_def vq_live_def by blast
  qed
  show inv: "sweep_inv (offered (route_levels od book) vs) (venue_index vs) (leaves_qty od) r"
    unfolding assms(1) using ok by (intro sweep_levels_inv [OF init leaves_qty_small assms(3)])
  assume disp: "\<forall>level \<in> set (route_levels od book). displayed (venue_index vs) level < 2 ^ 63"
    and nz: "\<forall>s \<in> set vs. vs_venue s \<noteq> 0"
  have "0 \<notin> dom (venue_index vs)" unfolding venue_index_dom using nz by auto
  then have z: "venue_index vs 0 = None" by auto
  have "snd r = leaves_qty od - min (leaves_qty od) (displayed_total (venue_index vs) (route_levels od book))"
    unfolding assms(1)
    by (subst sweep_levels_remaining [OF init leaves_qty_small assms(3) _ disp z]) (auto intro: ok)
  then show "alloc_sum (fst r) =
      min (leaves_qty od) (displayed_total (venue_index vs) (route_levels od book))"
    using inv by (simp add: sweep_inv_def)
qed

lemma liquidity_sweep_cases:
  assumes "1 \<le> minq" and "std_sort srt" and "any_order iter"
  obtains "liquidity_sweep_route iter srt minq od nb book vs = []"
  | al where "vs \<noteq> []" "nbbo_valid nb" "0 < leaves_qty od"
      "al = fst (sweep_levels (venue_index vs) minq (route_levels od book) ([], leaves_qty od))"
      "alloc_wf (offered (route_levels od book) vs) al" "alloc_sum al \<le> leaves_qty od"
      "fst ` set al \<subseteq> dom (venue_index vs)"
      "mset (liquidity_sweep_route iter srt minq od nb book vs) =
         mset (map slice_of_alloc (take MAX_SLICES (filter (\<lambda>(v, a). \<not> va_total_qty a < minq) (iter al))))"
proof (cases "vs = [] \<or> \<not> nbbo_valid nb \<or> leaves_qty od \<le> 0")
  case True
  then show ?thesis using that(1) by (auto simp: liquidity_sweep_route_def)
next
  case False
  let ?r = "sweep_levels (venue_index vs) minq (route_levels od book) ([], leaves_qty od)"
  have inv: "sweep_inv (offered (route_levels od book) vs) (venue_index vs) (leaves_qty od) ?r"
    using sweep_result(1) [OF refl _ assms(1)] False by simp
  show ?thesis
  proof (rule that(2) [OF _ _ _ refl])
    show "mset (liquidity_sweep_route iter srt minq od nb book vs) =
        mset (map slice_of_alloc (take MAX_SLICES (filter (\<lambda>(v, a). \<not> va_total_qty a < minq) (iter (fst ?r)))))"
      using False by (simp add: liquidity_sweep_route_def Let_def sort_slices_props [OF assms(2)] collect_slices_eq)
  qed (use False inv in \<open>auto simp: sweep_inv_def\<close>)
qed

lemma liquidity_sweep_contract:
  assumes "1 \<le> minq" and "std_sort srt" and "any_order iter"
  shows "bounded_strategy (liquidity_sweep_route iter srt minq)"
proof
  show "vs = [] \<or> \<not> nbbo_valid nb \<Longrightarrow> liquidity_sweep_route iter srt minq od nb book vs = []" for vs nb od book
    by (auto simp: liquidity_sweep_route_def)
next
  fix sl od nb book vs
  assume sl: "sl \<in> set (liquidity_sweep_route iter srt minq od nb book vs)"
  show "0 < sl_quantity sl" and "offered (route_levels od book) vs (sl_venue sl) (sl_price sl)"
  proof (atomize (full), cases rule: liquidity_sweep_cases [OF assms, of od nb book vs])
    case (2 al)
    have "sl \<in> slice_of_alloc ` set (iter al)"
      using sl arg_cong [OF 2(8), of set_mset] by (auto dest: in_set_takeD)
    then obtain v a where "(v, a) \<in> set al" "sl = slice_of_alloc (v, a)"
      using any_order_set [OF assms(3)] by auto
    then show "0 < sl_quantity sl \<and> offered (route_levels od book) vs (sl_venue sl) (sl_price sl)"
      using 2(5) by (auto simp: alloc_wf_def slice_of_alloc_def)
  qed (use sl in simp)
next
  fix od nb book vs
  show "slices_sum (liquidity_sweep_route iter srt minq od nb book vs) \<le> max 0 (leaves_qty od)"
  proof (cases rule: liquidity_sweep_cases [OF assms, of od nb book vs])
    case (2 al)
    have pos: "\<forall>(v, a) \<in> set (iter al). 0 < va_total_qty a"
      using 2(5) any_order_set [OF assms(3)] by (auto simp: alloc_wf_def)
    have "alloc_sum (iter al) = alloc_sum al"
      using assms(3) by (intro alloc_sum_mset) (simp add: any_order_def)
    then show ?thesis
      using slices_sum_mset [OF 2(8)] alloc_sum_filter_take [OF pos] 2(6)
      by (simp add: slices_sum_allocs) (metis (no_types, lifting) max.coboundedI2 order_trans)
  qed simp
qed

interpretation sweep: bounded_strategy "liquidity_sweep_route (\<lambda>al. al) sort_by 1"
  by (rule liquidity_sweep_contract) (simp_all add: std_sort_by any_order_def)

text \<open>
  With the default minimum, no venue numbered 0 and at most \<open>MAX_SLICES\<close> venues, the slices
  take everything the levels display, up to the order.
\<close>

lemma liquidity_sweep_takes_all:
  assumes "std_sort srt" and "any_order iter" and "nbbo_valid nb" and "0 < leaves_qty od"
    and "\<forall>s \<in> set vs. vs_venue s \<noteq> 0" and "card (vs_venue ` set vs) \<le> MAX_SLICES" and "vs \<noteq> []"
    and "\<forall>level \<in> set (route_levels od book). displayed (venue_index vs) level < 2 ^ 63"
  shows "slices_sum (liquidity_sweep_route iter srt 1 od nb book vs) =
    min (leaves_qty od) (displayed_total (venue_index vs) (route_levels od book))"
proof -
  let ?r = "sweep_levels (venue_index vs) 1 (route_levels od book) ([], leaves_qty od)"
  let ?al = "fst ?r"
  note res = sweep_result [where vs = vs and minq = 1 and book = book and od = od, OF refl assms(4)]
  have wf: "alloc_wf (offered (route_levels od book) vs) ?al" and keys: "fst ` set ?al \<subseteq> dom (venue_index vs)"
    using res(1) by (auto simp: sweep_inv_def)
  have "distinct (map fst ?al)" using wf unfolding alloc_wf_def by blast
  from distinct_card [OF this] have "length ?al = card (fst ` set ?al)" by simp
  also have "\<dots> \<le> card (dom (venue_index vs))"
    by (rule card_mono [OF _ keys]) (simp add: venue_index_dom)
  also have "\<dots> \<le> card (vs_venue ` set vs)"
    by (rule card_mono) (auto simp: venue_index_dom)
  finally have len: "length (iter ?al) \<le> MAX_SLICES"
    using assms(2,6) by (simp add: any_order_length)
  have "filter (\<lambda>(v, a). \<not> va_total_qty a < 1) (iter ?al) = iter ?al"
    using wf any_order_set [OF assms(2)] by (intro filter_True) (auto simp: alloc_wf_def)
  then have "liquidity_sweep_route iter srt 1 od nb book vs =
      sort_slices srt (o_side od) (map slice_of_alloc (iter ?al))"
    using assms(3,4,7) len by (simp add: liquidity_sweep_route_def Let_def collect_slices_eq)
  then have "slices_sum (liquidity_sweep_route iter srt 1 od nb book vs) = alloc_sum (iter ?al)"
    using slices_sum_mset [OF sort_slices_props(1) [OF assms(1)]] by (simp add: slices_sum_allocs)
  also have "\<dots> = alloc_sum ?al" using assms(2) by (intro alloc_sum_mset) (simp add: any_order_def)
  finally show ?thesis using res(2) assms(5,8) by simp
qed

section \<open>Properties\<close>

text \<open>
  C22: with the default minimum slice, venues numbered from 1 and at most ten of them, the sweep's
  slices add up to the smaller of the order's leaves quantity and everything the available venues
  display on the usable levels: the pro-rata rounding in floating point loses nothing.
\<close>

theorem sweep_takes_all:
  assumes "std_sort srt" and "any_order iter" and "nbbo_valid nb" and "0 < leaves_qty od"
    and "\<forall>s \<in> set vs. vs_venue s \<noteq> 0" and "card (vs_venue ` set vs) \<le> MAX_SLICES" and "vs \<noteq> []"
    and "\<forall>level \<in> set (route_levels od book). displayed (venue_index vs) level < 2 ^ 63"
  shows "slices_sum (liquidity_sweep_route iter srt 1 od nb book vs) =
    min (leaves_qty od) (displayed_total (venue_index vs) (route_levels od book))"
  using assms by (rule liquidity_sweep_takes_all)

theorem sweep_takes_all_witness:
  "slices_sum (liquidity_sweep_route (\<lambda>al. al) sort_by 1 (buy_order 100) small_nbbo small_book small_scores) = 65 \<and>
   slices_sum (liquidity_sweep_route (\<lambda>al. al) sort_by 1 (buy_order 60) small_nbbo small_book small_scores) = 60"
proof -
  let ?m = "venue_index small_scores"
  have m: "?m = [1 \<mapsto> 0, 2 \<mapsto> 1]"
    by (simp add: venue_index_def small_scores_def small_score_def)
  have d: "displayed_total ?m small_asks = 65" "\<forall>level \<in> set small_asks. displayed ?m level < 2 ^ 63"
    by (simp_all add: m displayed_total_def displayed_def small_asks_def level_usable_def vq_live_def
        INVALID_PRICE_def)
  have v: "\<forall>s \<in> set small_scores. vs_venue s \<noteq> 0" "card (vs_venue ` set small_scores) \<le> MAX_SLICES"
    by (simp_all add: small_scores_def small_score_def MAX_SLICES_def)
  show ?thesis
    using sweep_takes_all [OF std_sort_by, of "\<lambda>al. al" small_nbbo "buy_order 100" small_scores small_book]
      sweep_takes_all [OF std_sort_by, of "\<lambda>al. al" small_nbbo "buy_order 60" small_scores small_book] d v
    by (simp add: any_order_def)
qed

end
