(* ===== verification/Smart_IOC.thy ===== *)
theory Smart_IOC
  imports Liquidity_Sweep
begin

text \<open>
  The smart IOC strategy, from \<open>routing/smart_ioc.cpp\<close>: a price band around the NBBO, then
  either one venue that can fill the whole order inside the band (fill-or-kill) or a greedy
  sweep of the band that prefers fast venues (immediate-or-cancel).

  The allocation map, its lemmas and the conversion to slices are those of
  \<open>Liquidity_Sweep\<close>; the test \<open>total_qty <= 0\<close> of this file is \<open>total_qty < 1\<close> there.
  The lemmas show that no slice leaves the band, that fill-or-kill succeeds exactly when one
  available venue displays enough inside the band, and that the sweep takes everything the
  band displays, up to the order.
\<close>

definition worst_acceptable_price :: "nbbo \<Rightarrow> side \<Rightarrow> int \<Rightarrow> price" where
  "worst_acceptable_price nb s slippage_ticks =
     (if s = Buy
      then if nb_ask nb = INVALID_PRICE then INVALID_PRICE else i64 (nb_ask nb + slippage_ticks)
      else if nb_bid nb = INVALID_PRICE then INVALID_PRICE
           else let worst = i64 (nb_bid nb - slippage_ticks) in if worst > 0 then worst else 1)"

definition latency_quality :: "venue_score \<Rightarrow> double" where
  "latency_quality vs =
     (let baseline = 1000; lat = (if vs_latency_us vs > 0 then vs_latency_us vs else baseline)
      in dadd (dmul (rnd (4/10)) (vs_fill_rate vs)) (dmul (rnd (6/10)) (ddiv baseline lat)))"

text \<open>The test that ends both walks.\<close>

definition out_of_band :: "side \<Rightarrow> price \<Rightarrow> aggregated_level \<Rightarrow> bool" where
  "out_of_band s worst level \<longleftrightarrow>
     (s = Buy \<and> al_price level > worst) \<or> (s \<noteq> Buy \<and> al_price level < worst)"

section \<open>Fill or kill\<close>

record fok_candidate =
  fc_venue :: venue_id
  fc_total_available :: quantity
  fc_worst_price :: price
  fc_quality :: double

definition default_fok :: fok_candidate where
  "default_fok = \<lparr>fc_venue = 0, fc_total_available = 0, fc_worst_price = 0, fc_quality = 0\<rparr>"

type_synonym fok_map = "(venue_id \<times> fok_candidate) list"

definition fok_visit :: "venue_score list \<Rightarrow> price \<Rightarrow> venue_quantity \<Rightarrow> fok_map \<Rightarrow> fok_map" where
  "fok_visit vs level_price vq cands =
     (if vq_quantity vq \<le> 0 then cands
      else case find_score vs (vq_venue vq) of
        None \<Rightarrow> cands
      | Some score \<Rightarrow>
          upd_default (vq_venue vq) default_fok
            (\<lambda>c. \<lparr>fc_venue = vq_venue vq,
                  fc_total_available = i64 (fc_total_available c + vq_quantity vq),
                  fc_worst_price = level_price, fc_quality = latency_quality score\<rparr>) cands)"

fun fok_levels :: "side \<Rightarrow> price \<Rightarrow> venue_score list \<Rightarrow> aggregated_level list \<Rightarrow> fok_map \<Rightarrow> fok_map" where
  "fok_levels s worst vs [] cands = cands"
| "fok_levels s worst vs (level # levels) cands =
     (if \<not> level_usable level then fok_levels s worst vs levels cands
      else if out_of_band s worst level then cands
      else fok_levels s worst vs levels (fold (fok_visit vs (al_price level)) (al_breakdown level) cands))"

definition fok_better :: "quantity \<Rightarrow> venue_id \<times> fok_candidate \<Rightarrow> fok_candidate option \<Rightarrow> fok_candidate option" where
  "fok_better qty x best =
     (if fc_total_available (snd x) < qty then best
      else case best of
        None \<Rightarrow> Some (snd x)
      | Some b \<Rightarrow> if fc_quality (snd x) > fc_quality b then Some (snd x) else best)"

definition try_fok ::
  "(fok_map \<Rightarrow> fok_map) \<Rightarrow> order \<Rightarrow> aggregated_book \<Rightarrow> venue_score list \<Rightarrow> price \<Rightarrow> decision" where
  "try_fok iter od book vs worst =
     (let qty = leaves_qty od;
          candidates = fok_levels (o_side od) worst vs (route_levels od book) []
      in case fold (fok_better qty) (iter candidates) None of
           None \<Rightarrow> []
         | Some best \<Rightarrow>
             [\<lparr>sl_venue = fc_venue best, sl_price = fc_worst_price best, sl_quantity = qty,
               sl_type = OT_Limit, sl_tif = TIF_FOK\<rparr>])"

section \<open>Immediate or cancel\<close>

definition venue_map_of :: "venue_score list \<Rightarrow> venue_id \<rightharpoonup> venue_score" where
  "venue_map_of vs = fold (\<lambda>s m. if vs_available s then m(vs_venue s \<mapsto> s) else m) vs Map.empty"

record level_venue =
  lv_venue :: venue_id
  lv_available :: quantity
  lv_quality :: double

text \<open>The fixed buffer of 16 entries is a list; the loop stops when it is full.\<close>

fun level_venues :: "(venue_id \<rightharpoonup> venue_score) \<Rightarrow> venue_quantity list \<Rightarrow> level_venue list \<Rightarrow> level_venue list" where
  "level_venues m [] buf = buf"
| "level_venues m (vq # vqs) buf =
     (if \<not> length buf < 16 then buf
      else if vq_quantity vq \<le> 0 then level_venues m vqs buf
      else case m (vq_venue vq) of
        None \<Rightarrow> level_venues m vqs buf
      | Some score \<Rightarrow>
          level_venues m vqs (buf @ [\<lparr>lv_venue = vq_venue vq, lv_available = vq_quantity vq,
                                      lv_quality = latency_quality score\<rparr>]))"

fun ioc_alloc :: "price \<Rightarrow> level_venue list \<Rightarrow> allocations \<times> quantity \<Rightarrow> allocations \<times> quantity" where
  "ioc_alloc p [] r = r"
| "ioc_alloc p (lv # lvs) r =
     (if snd r > 0
      then ioc_alloc p lvs
             (add_alloc (lv_venue lv) p (min (snd r) (lv_available lv)) (fst r),
              i64 (snd r - min (snd r) (lv_available lv)))
      else r)"

type_synonym lv_sorter = "(level_venue \<Rightarrow> level_venue \<Rightarrow> bool) \<Rightarrow> level_venue list \<Rightarrow> level_venue list"

fun ioc_levels ::
  "lv_sorter \<Rightarrow> (venue_id \<rightharpoonup> venue_score) \<Rightarrow> side \<Rightarrow> price \<Rightarrow> aggregated_level list \<Rightarrow>
   allocations \<times> quantity \<Rightarrow> allocations \<times> quantity" where
  "ioc_levels lsrt m s worst [] r = r"
| "ioc_levels lsrt m s worst (level # levels) r =
     (if \<not> snd r > 0 then r
      else if \<not> level_usable level then ioc_levels lsrt m s worst levels r
      else if out_of_band s worst level then r
      else ioc_levels lsrt m s worst levels
             (ioc_alloc (al_price level)
               (lsrt (\<lambda>a b. lv_quality a > lv_quality b) (level_venues m (al_breakdown level) [])) r))"

definition sweep_ioc ::
  "(allocations \<Rightarrow> allocations) \<Rightarrow> slice_sorter \<Rightarrow> lv_sorter \<Rightarrow>
   order \<Rightarrow> aggregated_book \<Rightarrow> venue_score list \<Rightarrow> price \<Rightarrow> decision" where
  "sweep_ioc iter srt lsrt od book vs worst =
     (let r = ioc_levels lsrt (venue_map_of vs) (o_side od) worst (route_levels od book) ([], leaves_qty od)
      in sort_slices srt (o_side od) (collect_slices 1 (iter (fst r)) []))"

record ioc_env =
  ie_fok_iter :: "fok_map \<Rightarrow> fok_map"
  ie_iter :: "allocations \<Rightarrow> allocations"
  ie_sort :: slice_sorter
  ie_lv_sort :: lv_sorter

text \<open>\<open>ioc_env\<close> collects the choices the standard library leaves open.\<close>

definition ioc_env_ok :: "ioc_env \<Rightarrow> bool" where
  "ioc_env_ok e \<longleftrightarrow> any_order (ie_fok_iter e) \<and> any_order (ie_iter e) \<and> std_sort (ie_sort e) \<and>
     std_sort (ie_lv_sort e)"

definition smart_ioc_route ::
  "ioc_env \<Rightarrow> int \<Rightarrow> order \<Rightarrow> nbbo \<Rightarrow> aggregated_book \<Rightarrow> venue_score list \<Rightarrow> decision" where
  "smart_ioc_route e slippage_ticks od nb book vs =
     (if vs = [] \<or> \<not> nbbo_valid nb then []
      else if leaves_qty od \<le> 0 then []
      else let worst = worst_acceptable_price nb (o_side od) slippage_ticks
           in if worst = INVALID_PRICE then []
              else if o_tif od = TIF_FOK \<or> o_type od = OT_FOK
              then try_fok (ie_fok_iter e) od book vs worst
              else sweep_ioc (ie_iter e) (ie_sort e) (ie_lv_sort e) od book vs worst)"

section \<open>The band\<close>

text \<open>The usable levels both walks reach before the first usable one outside the band.\<close>

definition band :: "side \<Rightarrow> price \<Rightarrow> aggregated_level list \<Rightarrow> aggregated_level list" where
  "band s worst levels = takeWhile (\<lambda>l. \<not> out_of_band s worst l) (filter level_usable levels)"

lemma band_simps [simp]:
  "band s worst [] = []"
  "band s worst (l # ls) =
     (if \<not> level_usable l then band s worst ls
      else if out_of_band s worst l then [] else l # band s worst ls)"
  by (simp_all add: band_def)

lemma band_set: "l \<in> set (band s worst levels) \<Longrightarrow> l \<in> set levels \<and> level_usable l \<and> \<not> out_of_band s worst l"
  by (auto simp: band_def dest: set_takeWhileD)

text \<open>On sorted levels the band is all usable levels with a price in the band.\<close>

lemma band_sorted:
  assumes "sorted_wrt (better (s \<noteq> Buy)) (map al_price levels)"
  shows "band s worst levels = filter (\<lambda>l. level_usable l \<and> \<not> out_of_band s worst l) levels"
  using assms
proof (induction levels)
  case (Cons l ls)
  show ?case
  proof (cases "level_usable l \<and> out_of_band s worst l")
    case True
    then have "\<forall>l' \<in> set ls. out_of_band s worst l'"
      using Cons.prems by (auto simp: out_of_band_def better_def split: if_splits)
    then show ?thesis using True by (simp add: filter_False)
  qed (use Cons in auto)
qed simp

section \<open>Fill or kill: candidates\<close>

type_synonym visit = "price \<times> venue_quantity"

definition visits :: "aggregated_level list \<Rightarrow> visit list" where
  "visits levels = concat (map (\<lambda>l. map (\<lambda>vq. (al_price l, vq)) (al_breakdown l)) levels)"

definition shown :: "venue_id \<Rightarrow> visit list \<Rightarrow> int" where
  "shown v vis = (\<Sum>(p, vq) \<leftarrow> filter (\<lambda>(p, vq). vq_venue vq = v \<and> 0 < vq_quantity vq) vis. vq_quantity vq)"

lemma fok_levels_fold:
  "fok_levels s worst vs levels cands =
     fold (\<lambda>(p, vq). fok_visit vs p vq) (visits (band s worst levels)) cands"
proof (induction levels arbitrary: cands)
  case (Cons l ls)
  have "fold (fok_visit vs (al_price l)) vqs c = fold (\<lambda>(p, vq). fok_visit vs p vq) (map (\<lambda>vq. (al_price l, vq)) vqs) c"
    for vqs c by (induction vqs arbitrary: c) simp_all
  then show ?case using Cons.IH by (simp add: visits_def)
qed (simp add: visits_def)

text \<open>What the candidate map says of the visits made.\<close>

fun fok_entry :: "venue_score list \<Rightarrow> visit list \<Rightarrow> venue_id \<Rightarrow> fok_candidate option \<Rightarrow> bool" where
  "fok_entry vs vis v None \<longleftrightarrow>
     find_score vs v = None \<or> (\<forall>(p, vq) \<in> set vis. vq_venue vq = v \<longrightarrow> vq_quantity vq \<le> 0)"
| "fok_entry vs vis v (Some c) \<longleftrightarrow>
     fc_venue c = v \<and> find_score vs v \<noteq> None \<and> fc_total_available c = i64 (shown v vis) \<and>
     (\<exists>vq. (fc_worst_price c, vq) \<in> set vis \<and> vq_venue vq = v \<and> 0 < vq_quantity vq)"

definition fok_inv :: "venue_score list \<Rightarrow> visit list \<Rightarrow> fok_map \<Rightarrow> bool" where
  "fok_inv vs vis cands \<longleftrightarrow> distinct (map fst cands) \<and> (\<forall>v. fok_entry vs vis v (map_of cands v))"

lemma shown_snoc:
  "shown v (vis @ [(p, vq)]) =
     shown v vis + (if vq_venue vq = v \<and> 0 < vq_quantity vq then vq_quantity vq else 0)"
  by (simp add: shown_def)

lemma shown_nonneg: "0 \<le> shown v vis"
  unfolding shown_def by (intro sum_list_nonneg_map) auto

lemma shown_zero: "\<forall>(p, vq) \<in> set vis. vq_venue vq = v \<longrightarrow> vq_quantity vq \<le> 0 \<Longrightarrow> shown v vis = 0"
proof -
  assume "\<forall>(p, vq) \<in> set vis. vq_venue vq = v \<longrightarrow> vq_quantity vq \<le> 0"
  then have "filter (\<lambda>(p, vq). vq_venue vq = v \<and> 0 < vq_quantity vq) vis = []"
    by (auto simp: filter_empty_conv)
  then show ?thesis by (simp add: shown_def)
qed

lemma fok_visit_inv:
  assumes "fok_inv vs vis cands"
  shows "fok_inv vs (vis @ [(p, vq)]) (fok_visit vs p vq cands)"
proof (cases "vq_quantity vq \<le> 0 \<or> find_score vs (vq_venue vq) = None")
  case True
  then have "fok_visit vs p vq cands = cands" by (auto simp: fok_visit_def)
  moreover have "fok_entry vs (vis @ [(p, vq)]) v c" if "fok_entry vs vis v c" for v c
    using that True by (cases c) (auto simp: shown_snoc)
  ultimately show ?thesis using assms by (simp add: fok_inv_def)
next
  case False
  let ?v = "vq_venue vq"
  obtain score where score: "find_score vs ?v = Some score" using False by auto
  define old where "old = (case map_of cands ?v of None \<Rightarrow> default_fok | Some c \<Rightarrow> c)"
  define new where "new = \<lparr>fc_venue = ?v, fc_total_available = i64 (fc_total_available old + vq_quantity vq),
    fc_worst_price = p, fc_quality = latency_quality score\<rparr>"
  have fv: "fok_visit vs p vq cands = upd_default ?v default_fok
        (\<lambda>c. \<lparr>fc_venue = ?v, fc_total_available = i64 (fc_total_available c + vq_quantity vq),
              fc_worst_price = p, fc_quality = latency_quality score\<rparr>) cands"
    using False score by (simp add: fok_visit_def)
  have mo: "map_of (fok_visit vs p vq cands) = (map_of cands)(?v \<mapsto> new)"
    by (simp add: fv map_of_upd_default new_def old_def)
  have inv: "fok_entry vs vis v (map_of cands v)" for v using assms by (simp add: fok_inv_def)
  have "fc_total_available old = i64 (shown ?v vis)"
    using inv [of ?v] score shown_zero [of vis ?v]
    by (auto simp: old_def default_fok_def i64_small split: option.splits)
  then have tot: "fc_total_available new = i64 (shown ?v (vis @ [(p, vq)]))"
    using False by (simp add: new_def shown_snoc i64_i64_add)
  have other: "fok_entry vs (vis @ [(p, vq)]) v c" if "fok_entry vs vis v c" "v \<noteq> ?v" for v c
    using that by (cases c) (auto simp: shown_snoc)
  have "fok_entry vs (vis @ [(p, vq)]) ?v (Some new)"
    using tot score False by (auto simp: new_def)
  then have "fok_entry vs (vis @ [(p, vq)]) v (map_of (fok_visit vs p vq cands) v)" for v
    using other [OF inv] by (cases "v = ?v") (simp_all add: mo)
  moreover have "distinct (map fst (fok_visit vs p vq cands))"
    using assms unfolding fv by (intro distinct_upd_default) (simp add: fok_inv_def)
  ultimately show ?thesis by (simp add: fok_inv_def)
qed

lemma fok_fold_inv: "fok_inv vs vis (fold (\<lambda>(p, vq). fok_visit vs p vq) vis [])"
proof (induction vis rule: rev_induct)
  case Nil
  then show ?case by (simp add: fok_inv_def)
next
  case (snoc x vis)
  then show ?case using fok_visit_inv by (cases x) simp
qed

section \<open>Fill or kill: the choice\<close>

lemma fok_better_cases:
  "fok_better qty (v, c) None = (if fc_total_available c < qty then None else Some c)"
  "fok_better qty (v, c) (Some b) =
     Some (if fc_total_available c < qty \<or> \<not> fc_quality c > fc_quality b then b else c)"
  by (simp_all add: fok_better_def)

lemma fok_fold_Some:
  "\<exists>b'. fold (fok_better qty) cs (Some b) = Some b' \<and>
     (b' = b \<or> (\<exists>v. (v, b') \<in> set cs \<and> qty \<le> fc_total_available b'))"
proof (induction cs arbitrary: b)
  case (Cons c cs)
  obtain v d where c: "c = (v, d)" by (cases c)
  show ?case
  proof (cases "fc_total_available d < qty \<or> \<not> fc_quality d > fc_quality b")
    case True
    then show ?thesis using Cons.IH [of b] by (auto simp: c fok_better_cases)
  next
    case False
    then show ?thesis using Cons.IH [of d] by (auto simp: c fok_better_cases not_less)
  qed
qed simp

lemma fok_fold_None:
  "case fold (fok_better qty) cs None of
     None \<Rightarrow> \<forall>(v, c) \<in> set cs. fc_total_available c < qty
   | Some b \<Rightarrow> \<exists>v. (v, b) \<in> set cs \<and> qty \<le> fc_total_available b"
proof (induction cs)
  case (Cons c cs)
  obtain v d where c: "c = (v, d)" by (cases c)
  show ?case
  proof (cases "fc_total_available d < qty")
    case True
    then show ?thesis using Cons by (auto simp: c fok_better_cases split: option.splits)
  next
    case False
    then obtain b' where "fold (fok_better qty) (c # cs) None = Some b'"
      and "b' = d \<or> (\<exists>v. (v, b') \<in> set cs \<and> qty \<le> fc_total_available b')"
      using fok_fold_Some [of qty cs d] by (auto simp: c fok_better_cases)
    then show ?thesis using False c by auto
  qed
qed simp

lemma visits_offered:
  assumes "(p, vq) \<in> set (visits (band s worst levels))" and "0 < vq_quantity vq"
    and "find_score vs (vq_venue vq) \<noteq> None"
  shows "offered (band s worst levels) vs (vq_venue vq) p"
proof -
  obtain sc where "sc \<in> set vs \<and> vs_venue sc = vq_venue vq \<and> vs_available sc"
    using assms(3) find_score_Some by blast
  moreover obtain l where "l \<in> set (band s worst levels)" "p = al_price l" "vq \<in> set (al_breakdown l)"
    using assms(1) by (auto simp: visits_def)
  ultimately show ?thesis using assms(2) band_set unfolding offered_def by blast
qed

text \<open>
  Fill or kill either finds a venue whose displayed quantity (as the code adds it up, in 64
  bits) covers the order and sends it the whole order, or no available venue covers it.
\<close>

lemma try_fok_cases:
  assumes "any_order iter" and "0 < leaves_qty od"
    and "vis = visits (band (o_side od) worst (route_levels od book))"
  obtains
    (none) "try_fok iter od book vs worst = []"
      "\<And>v. find_score vs v \<noteq> None \<Longrightarrow> i64 (shown v vis) < leaves_qty od"
  | (one) sl where "try_fok iter od book vs worst = [sl]" "sl_quantity sl = leaves_qty od"
      "sl_type sl = OT_Limit" "sl_tif sl = TIF_FOK"
      "leaves_qty od \<le> i64 (shown (sl_venue sl) vis)"
      "offered (band (o_side od) worst (route_levels od book)) vs (sl_venue sl) (sl_price sl)"
proof -
  define cands where "cands = fok_levels (o_side od) worst vs (route_levels od book) []"
  have "cands = fold (\<lambda>(p, vq). fok_visit vs p vq) vis []"
    by (simp add: cands_def fok_levels_fold assms(3))
  then have inv: "fok_inv vs vis cands" using fok_fold_inv by simp
  then have entry: "fok_entry vs vis v (map_of cands v)" for v by (simp add: fok_inv_def)
  have set: "set (iter cands) = set cands" by (rule any_order_set [OF assms(1)])
  have mem: "map_of cands v = Some c \<longleftrightarrow> (v, c) \<in> set cands" for v c
    using inv by (simp add: fok_inv_def)
  show ?thesis
  proof (cases "fold (fok_better (leaves_qty od)) (iter cands) None")
    case None
    have less: "(v, c) \<in> set cands \<Longrightarrow> fc_total_available c < leaves_qty od" for v c
      using fok_fold_None [of "iter cands" "leaves_qty od"] None set by auto
    show ?thesis
    proof (rule none)
      show "try_fok iter od book vs worst = []"
        using None by (simp add: try_fok_def cands_def [symmetric])
      fix v assume av: "find_score vs v \<noteq> None"
      show "i64 (shown v vis) < leaves_qty od"
      proof (cases "map_of cands v")
        case None
        then have "\<forall>(p, vq) \<in> set vis. vq_venue vq = v \<longrightarrow> vq_quantity vq \<le> 0"
          using entry [of v] av by simp
        then show ?thesis using assms(2) by (simp add: shown_zero i64_small)
      next
        case (Some c)
        then have "fc_total_available c = i64 (shown v vis)" using entry [of v] by simp
        then show ?thesis using less Some mem by metis
      qed
    qed
  next
    case (Some b)
    obtain v where v: "(v, b) \<in> set cands" "leaves_qty od \<le> fc_total_available b"
      using fok_fold_None [of "iter cands" "leaves_qty od"] Some set by auto
    have "fok_entry vs vis v (Some b)" using entry [of v] v(1) mem by metis
    then obtain vq where b: "fc_venue b = v" "find_score vs v \<noteq> None" "fc_total_available b = i64 (shown v vis)"
      "(fc_worst_price b, vq) \<in> set vis" "vq_venue vq = v" "0 < vq_quantity vq"
      by auto
    show ?thesis
    proof (rule one)
      show "try_fok iter od book vs worst =
          [\<lparr>sl_venue = fc_venue b, sl_price = fc_worst_price b, sl_quantity = leaves_qty od,
            sl_type = OT_Limit, sl_tif = TIF_FOK\<rparr>]"
        using Some by (simp add: try_fok_def cands_def [symmetric])
    qed (use b v visits_offered [of "fc_worst_price b" vq] assms(3) in simp_all)
  qed
qed

section \<open>The sweep\<close>

lemma venue_map_of_dom: "dom (venue_map_of vs) = {vs_venue s |s. s \<in> set vs \<and> vs_available s}"
proof -
  have "dom (fold (\<lambda>s m. if vs_available s then m(vs_venue s \<mapsto> s) else m) vs m) =
      dom m \<union> {vs_venue s |s. s \<in> set vs \<and> vs_available s}" for m
    by (induction vs arbitrary: m) auto
  then show ?thesis by (simp add: venue_map_of_def)
qed

lemma level_venues_eq:
  assumes "length buf + length vqs \<le> 16"
  shows "map (\<lambda>lv. (lv_venue lv, lv_available lv)) (level_venues m vqs buf) =
    map (\<lambda>lv. (lv_venue lv, lv_available lv)) buf @
    map (\<lambda>vq. (vq_venue vq, vq_quantity vq)) (filter (vq_live m) vqs)"
  using assms
  by (induction m vqs buf rule: level_venues.induct) (auto simp: vq_live_def split: option.splits)

lemma level_venues_set:
  assumes "lv \<in> set (level_venues m vqs buf)"
  shows "lv \<in> set buf \<or> (\<exists>vq \<in> set vqs. vq_live m vq \<and> lv_venue lv = vq_venue vq \<and> lv_available lv = vq_quantity vq)"
  using assms
  by (induction m vqs buf rule: level_venues.induct)
     (fastforce simp: vq_live_def split: option.splits if_splits)+

lemma ioc_alloc_inv:
  assumes "sweep_inv ok m tot r" and "tot < 2 ^ 63"
    and "\<And>lv. lv \<in> set lvs \<Longrightarrow> 0 < lv_available lv \<and> ok (lv_venue lv) p \<and> m (lv_venue lv) \<noteq> None"
  shows "sweep_inv ok m tot (ioc_alloc p lvs r) \<and>
    snd (ioc_alloc p lvs r) = snd r - min (snd r) (\<Sum>lv \<leftarrow> lvs. lv_available lv)"
  using assms(1,3)
proof (induction lvs arbitrary: r)
  case Nil
  then show ?case by (simp add: sweep_inv_def)
next
  case (Cons lv lvs)
  have nn: "0 \<le> (\<Sum>lv \<leftarrow> lvs. lv_available lv)"
    using Cons.prems(2) by (intro sum_list_nonneg_map) (auto intro: less_imp_le)
  show ?case
  proof (cases "snd r > 0")
    case True
    define fill where "fill = min (snd r) (lv_available lv)"
    have lv: "0 < lv_available lv" "ok (lv_venue lv) p" "m (lv_venue lv) \<noteq> None" using Cons.prems(2) by auto
    have f: "0 < fill" "fill \<le> snd r" using True lv(1) by (auto simp: fill_def)
    have i: "i64 (snd r - fill) = snd r - fill"
      using f Cons.prems(1) assms(2) alloc_sum_nonneg [of ok "fst r"] by (intro i64_small) (auto simp: sweep_inv_def)
    have wf: "alloc_wf ok (fst r)" and s: "alloc_sum (fst r) + fill < 2 ^ 63"
      using Cons.prems(1) f assms(2) by (auto simp: sweep_inv_def)
    let ?r = "(add_alloc (lv_venue lv) p fill (fst r), i64 (snd r - fill))"
    have "sweep_inv ok m tot ?r"
      using add_alloc_props [OF wf f(1) s lv(2)] Cons.prems(1) f lv(3) by (auto simp: sweep_inv_def i)
    from Cons.IH [OF this] Cons.prems(2) nn show ?thesis
      using True f by (simp add: fill_def [symmetric] i) (auto simp: fill_def)
  next
    case False
    then show ?thesis using Cons.prems nn by (auto simp: sweep_inv_def add_nonneg_nonneg less_imp_le)
  qed
qed

lemma sum_list_map_mset: "mset xs = mset ys \<Longrightarrow> (\<Sum>x \<leftarrow> xs. f x :: int) = (\<Sum>x \<leftarrow> ys. f x)"
  by (rule sum_list_mset_cong)

lemma ioc_levels_inv:
  assumes "sweep_inv ok m tot r" and "tot < 2 ^ 63" and "std_sort lsrt"
    and "\<And>l vq. l \<in> set (band s worst levels) \<Longrightarrow> vq \<in> set (al_breakdown l) \<Longrightarrow> vq_live m vq \<Longrightarrow>
      ok (vq_venue vq) (al_price l)"
  shows "sweep_inv ok m tot (ioc_levels lsrt m s worst levels r)"
    and "\<forall>l \<in> set levels. length (al_breakdown l) \<le> 16 \<Longrightarrow>
      snd (ioc_levels lsrt m s worst levels r) = snd r - min (snd r) (displayed_total m (band s worst levels))"
proof -
  have "sweep_inv ok m tot (ioc_levels lsrt m s worst levels r) \<and>
    ((\<forall>l \<in> set levels. length (al_breakdown l) \<le> 16) \<longrightarrow>
      snd (ioc_levels lsrt m s worst levels r) = snd r - min (snd r) (displayed_total m (band s worst levels)))"
    using assms(1,4)
  proof (induction levels arbitrary: r)
    case Nil
    then show ?case by (simp add: displayed_total_def sweep_inv_def)
  next
    case (Cons l ls)
    show ?case
    proof (cases "0 < snd r \<and> level_usable l \<and> \<not> out_of_band s worst l")
      case True
      define lvs where "lvs = lsrt (\<lambda>a b. lv_quality a > lv_quality b) (level_venues m (al_breakdown l) [])"
      note srt = std_sortD [OF assms(3) strict_weak_greater [of lv_quality], of "level_venues m (al_breakdown l) []",
          folded lvs_def]
      have lv: "0 < lv_available lv \<and> ok (lv_venue lv) (al_price l) \<and> m (lv_venue lv) \<noteq> None"
        if "lv \<in> set lvs" for lv
      proof -
        obtain vq where vq: "vq \<in> set (al_breakdown l)" "vq_live m vq" "lv_venue lv = vq_venue vq"
          "lv_available lv = vq_quantity vq"
          using level_venues_set [of lv m "al_breakdown l" "[]"] \<open>lv \<in> set lvs\<close> srt(2) by auto
        then show ?thesis using Cons.prems(2) [of l vq] True by (auto simp: vq_live_def)
      qed
      note step = ioc_alloc_inv [OF Cons.prems(1) assms(2) lv, of lvs, simplified]
      have IH: "sweep_inv ok m tot (ioc_levels lsrt m s worst ls (ioc_alloc (al_price l) lvs r))"
        "(\<forall>l \<in> set ls. length (al_breakdown l) \<le> 16) \<Longrightarrow>
          snd (ioc_levels lsrt m s worst ls (ioc_alloc (al_price l) lvs r)) =
          snd (ioc_alloc (al_price l) lvs r) -
            min (snd (ioc_alloc (al_price l) lvs r)) (displayed_total m (band s worst ls))"
        using Cons.IH [of "ioc_alloc (al_price l) lvs r"] step Cons.prems(2) True by auto
      have "(\<Sum>lv \<leftarrow> lvs. lv_available lv) = displayed m l" if "length (al_breakdown l) \<le> 16"
      proof -
        have "(\<Sum>lv \<leftarrow> lvs. lv_available lv) = (\<Sum>lv \<leftarrow> level_venues m (al_breakdown l) []. lv_available lv)"
          by (rule sum_list_mset_cong [OF srt(1)])
        also have "map lv_available (level_venues m (al_breakdown l) []) =
            map snd (map (\<lambda>lv. (lv_venue lv, lv_available lv)) (level_venues m (al_breakdown l) []))"
          by (simp add: comp_def)
        also have "\<dots> = map vq_quantity (filter (vq_live m) (al_breakdown l))"
          using level_venues_eq [of "[]" "al_breakdown l" m] that by (simp add: comp_def)
        finally show ?thesis by (simp add: displayed_def)
      qed
      moreover have "displayed_total m (l # band s worst ls) = displayed m l + displayed_total m (band s worst ls)"
        using True by (simp add: displayed_total_def)
      moreover have "0 \<le> displayed m l" "0 \<le> displayed_total m (band s worst ls)" by (rule displayed_nonneg)+
      ultimately show ?thesis
        using IH step True by (auto simp: lvs_def [symmetric])
    next
      case False
      have nn: "0 \<le> displayed_total m (band s worst (l # ls))" by (rule displayed_nonneg)
      have r0: "0 \<le> snd r" using Cons.prems(1) by (simp add: sweep_inv_def)
      show ?thesis
      proof (cases "0 < snd r")
        case True
        show ?thesis
        proof (cases "level_usable l")
          case True
          then show ?thesis using False \<open>0 < snd r\<close> Cons.prems(1) by (simp add: displayed_total_def)
        next
          case unusable: False
          then show ?thesis using Cons.IH [OF Cons.prems(1)] Cons.prems(2) True by simp
        qed
      next
        case empty: False
        then have "min (snd r) (displayed_total m (band s worst (l # ls))) = 0" using r0 nn by linarith
        then show ?thesis using empty Cons.prems(1) by (simp del: band_simps)
      qed
    qed
  qed
  then show "sweep_inv ok m tot (ioc_levels lsrt m s worst levels r)"
    and "\<forall>l \<in> set levels. length (al_breakdown l) \<le> 16 \<Longrightarrow>
      snd (ioc_levels lsrt m s worst levels r) = snd r - min (snd r) (displayed_total m (band s worst levels))"
    by blast+
qed

lemma band_live_offered:
  assumes "l \<in> set (band s worst levels)" and "vq \<in> set (al_breakdown l)" and "vq_live (venue_map_of vs) vq"
  shows "offered (band s worst levels) vs (vq_venue vq) (al_price l)"
proof -
  have "vq_venue vq \<in> dom (venue_map_of vs)" using assms(3) by (auto simp: vq_live_def)
  then have "\<exists>sc \<in> set vs. vs_venue sc = vq_venue vq \<and> vs_available sc"
    unfolding venue_map_of_dom by auto
  then show ?thesis using assms band_set unfolding offered_def vq_live_def by blast
qed

lemma sweep_ioc_result:
  assumes "std_sort lsrt" and "0 < leaves_qty od"
    and "b = band (o_side od) worst (route_levels od book)"
    and "r = ioc_levels lsrt (venue_map_of vs) (o_side od) worst (route_levels od book) ([], leaves_qty od)"
  shows "sweep_inv (offered b vs) (venue_map_of vs) (leaves_qty od) r"
    and "\<forall>l \<in> set (route_levels od book). length (al_breakdown l) \<le> 16 \<Longrightarrow>
      alloc_sum (fst r) = min (leaves_qty od) (displayed_total (venue_map_of vs) b)"
proof -
  have init: "sweep_inv (offered b vs) (venue_map_of vs) (leaves_qty od) ([], leaves_qty od)"
    using assms(2) by (simp add: sweep_inv_def)
  note inv = ioc_levels_inv [OF init leaves_qty_small assms(1), of "o_side od" worst "route_levels od book"]
  show i: "sweep_inv (offered b vs) (venue_map_of vs) (leaves_qty od) r"
    unfolding assms(3,4) by (rule inv(1) [unfolded assms(3)]) (rule band_live_offered)
  assume len: "\<forall>l \<in> set (route_levels od book). length (al_breakdown l) \<le> 16"
  have "snd r = leaves_qty od - min (leaves_qty od) (displayed_total (venue_map_of vs) b)"
    unfolding assms(3,4) by (subst inv(2) [unfolded assms(3), OF _ len]) (auto intro: band_live_offered)
  then show "alloc_sum (fst r) = min (leaves_qty od) (displayed_total (venue_map_of vs) b)"
    using i by (simp add: sweep_inv_def)
qed

text \<open>What every decision of the strategy is made of: slices for available venues inside the band.\<close>

lemma sweep_ioc_slices:
  assumes "any_order iter" and "std_sort srt" and "std_sort lsrt" and "0 < leaves_qty od"
    and "b = band (o_side od) worst (route_levels od book)"
    and "d = sweep_ioc iter srt lsrt od book vs worst"
  shows "\<forall>sl \<in> set d. 0 < sl_quantity sl \<and> offered b vs (sl_venue sl) (sl_price sl)"
    and "slices_sum d \<le> leaves_qty od"
    and "card (vs_venue ` set vs) \<le> MAX_SLICES \<Longrightarrow>
      \<forall>l \<in> set (route_levels od book). length (al_breakdown l) \<le> 16 \<Longrightarrow>
      slices_sum d = min (leaves_qty od) (displayed_total (venue_map_of vs) b)"
proof -
  define al where "al = fst (ioc_levels lsrt (venue_map_of vs) (o_side od) worst (route_levels od book)
    ([], leaves_qty od))"
  note res = sweep_ioc_result [OF assms(3,4,5) refl, where vs = vs, folded al_def]
  have wf: "alloc_wf (offered b vs) al" and keys: "fst ` set al \<subseteq> dom (venue_map_of vs)"
    and le: "alloc_sum al \<le> leaves_qty od"
    using res(1) by (auto simp: sweep_inv_def al_def)
  let ?fs = "filter (\<lambda>(v, a). \<not> va_total_qty a < 1) (iter al)"
  have set: "set (iter al) = set al" by (rule any_order_set [OF assms(1)])
  have pos: "\<forall>(v, a) \<in> set (iter al). 0 < va_total_qty a" using wf by (auto simp: set alloc_wf_def)
  have d: "mset d = mset (map slice_of_alloc (take MAX_SLICES ?fs))"
    by (simp add: assms(6) sweep_ioc_def Let_def al_def [symmetric] sort_slices_props(1) [OF assms(2)]
        collect_slices_eq)
  have isum: "alloc_sum (iter al) = alloc_sum al"
    using assms(1) by (intro alloc_sum_mset) (simp add: any_order_def)
  have "set d \<subseteq> slice_of_alloc ` set al"
    using arg_cong [OF d, of set_mset] set by (auto dest!: in_set_takeD)
  then show "\<forall>sl \<in> set d. 0 < sl_quantity sl \<and> offered b vs (sl_venue sl) (sl_price sl)"
    using wf by (fastforce simp: alloc_wf_def slice_of_alloc_def)
  show "slices_sum d \<le> leaves_qty od"
    using slices_sum_mset [OF d] alloc_sum_filter_take [OF pos, of MAX_SLICES] le isum
    by (simp add: slices_sum_allocs) (meson order_trans)
  assume card: "card (vs_venue ` set vs) \<le> MAX_SLICES"
    and len: "\<forall>l \<in> set (route_levels od book). length (al_breakdown l) \<le> 16"
  have "distinct (map fst al)" using wf unfolding alloc_wf_def by blast
  from distinct_card [OF this] have "length al = card (fst ` set al)" by simp
  also have "\<dots> \<le> card (dom (venue_map_of vs))"
    by (rule card_mono [OF _ keys]) (simp add: venue_map_of_dom)
  also have "\<dots> \<le> card (vs_venue ` set vs)" by (rule card_mono) (auto simp: venue_map_of_dom)
  finally have "length (iter al) \<le> MAX_SLICES" using card assms(1) by (simp add: any_order_length)
  moreover have "?fs = iter al" using pos by (intro filter_True) auto
  ultimately have "slices_sum d = alloc_sum al"
    using slices_sum_mset [OF d] isum by (simp add: slices_sum_allocs)
  then show "slices_sum d = min (leaves_qty od) (displayed_total (venue_map_of vs) b)"
    using res(2) [OF len] by simp
qed

section \<open>The strategy\<close>

text \<open>The price limit of the band, as the slices see it.\<close>

definition within_band :: "side \<Rightarrow> price \<Rightarrow> price \<Rightarrow> bool" where
  "within_band s worst p \<longleftrightarrow> (if s = Buy then p \<le> worst else worst \<le> p)"

lemma offered_band:
  assumes "offered (band s worst levels) vs v p"
  shows "offered levels vs v p" and "within_band s worst p"
  using assms band_set [of _ s worst levels] unfolding offered_def within_band_def out_of_band_def
  by (metis, metis linorder_not_less)

lemma smart_ioc_slice:
  assumes "ioc_env_ok e" and "sl \<in> set (smart_ioc_route e ticks od nb book vs)"
    and "worst = worst_acceptable_price nb (o_side od) ticks"
  shows "0 < sl_quantity sl" and "0 < leaves_qty od"
    and "offered (band (o_side od) worst (route_levels od book)) vs (sl_venue sl) (sl_price sl)"
proof -
  have lv: "0 < leaves_qty od" using assms(2) by (auto simp: smart_ioc_route_def split: if_splits)
  have env: "any_order (ie_fok_iter e)" "any_order (ie_iter e)" "std_sort (ie_sort e)" "std_sort (ie_lv_sort e)"
    using assms(1) by (simp_all add: ioc_env_ok_def)
  consider "sl \<in> set (try_fok (ie_fok_iter e) od book vs worst)"
    | "sl \<in> set (sweep_ioc (ie_iter e) (ie_sort e) (ie_lv_sort e) od book vs worst)"
    using assms(2,3) by (auto simp: smart_ioc_route_def Let_def split: if_splits)
  then have "0 < sl_quantity sl \<and>
      offered (band (o_side od) worst (route_levels od book)) vs (sl_venue sl) (sl_price sl)"
  proof cases
    case 1
    then show ?thesis
      by (cases rule: try_fok_cases [where worst = worst and book = book and vs = vs, OF env(1) lv refl]) (use lv in auto)
  next
    case 2
    then show ?thesis using sweep_ioc_slices(1) [OF env(2-4) lv refl refl] by blast
  qed
  then show "0 < sl_quantity sl" and "0 < leaves_qty od"
    and "offered (band (o_side od) worst (route_levels od book)) vs (sl_venue sl) (sl_price sl)"
    using lv by simp_all
qed

lemma smart_ioc_within_band:
  assumes "ioc_env_ok e" and "sl \<in> set (smart_ioc_route e ticks od nb book vs)"
  shows "within_band (o_side od) (worst_acceptable_price nb (o_side od) ticks) (sl_price sl)"
  using smart_ioc_slice(3) [OF assms refl] by (rule offered_band(2))

lemma smart_ioc_contract:
  assumes "ioc_env_ok e" shows "bounded_strategy (smart_ioc_route e ticks)"
proof
  show "vs = [] \<or> \<not> nbbo_valid nb \<Longrightarrow> smart_ioc_route e ticks od nb book vs = []" for vs nb od book
    by (auto simp: smart_ioc_route_def)
next
  fix sl od nb book vs
  assume sl: "sl \<in> set (smart_ioc_route e ticks od nb book vs)"
  show "0 < sl_quantity sl" by (rule smart_ioc_slice(1) [OF assms sl refl])
  show "offered (route_levels od book) vs (sl_venue sl) (sl_price sl)"
    by (rule offered_band(1) [OF smart_ioc_slice(3) [OF assms sl refl]])
next
  fix od :: order and nb book vs
  have env: "any_order (ie_fok_iter e)" "any_order (ie_iter e)" "std_sort (ie_sort e)" "std_sort (ie_lv_sort e)"
    using assms by (simp_all add: ioc_env_ok_def)
  let ?w = "worst_acceptable_price nb (o_side od) ticks"
  have "slices_sum (try_fok (ie_fok_iter e) od book vs ?w) \<le> leaves_qty od" if "0 < leaves_qty od"
    by (cases rule: try_fok_cases [where worst = ?w and book = book and vs = vs, OF env(1) that refl]) (use that in auto)
  moreover have "slices_sum (sweep_ioc (ie_iter e) (ie_sort e) (ie_lv_sort e) od book vs ?w) \<le> leaves_qty od"
    if "0 < leaves_qty od"
    by (rule sweep_ioc_slices(2) [OF env(2-4) that refl refl])
  ultimately show "slices_sum (smart_ioc_route e ticks od nb book vs) \<le> max 0 (leaves_qty od)"
    by (auto simp: smart_ioc_route_def Let_def max_def)
qed

text \<open>One environment that the standard permits, for the interpretation and the witnesses.\<close>

definition plain_env :: ioc_env where
  "plain_env = \<lparr>ie_fok_iter = (\<lambda>xs. xs), ie_iter = (\<lambda>xs. xs), ie_sort = sort_by, ie_lv_sort = sort_by\<rparr>"

lemma plain_env_ok: "ioc_env_ok plain_env"
  by (simp add: ioc_env_ok_def plain_env_def std_sort_by any_order_def)

interpretation smart_ioc: bounded_strategy "smart_ioc_route plain_env ticks" for ticks
  by (rule smart_ioc_contract [OF plain_env_ok])

text \<open>A fill-or-kill order is routed, whole and to one venue, exactly when some available venue
  displays enough of it inside the band.\<close>

lemma smart_ioc_fok_iff:
  assumes "ioc_env_ok e" and "nbbo_valid nb" and "0 < leaves_qty od" and "o_tif od = TIF_FOK \<or> o_type od = OT_FOK"
    and "worst = worst_acceptable_price nb (o_side od) ticks" and "worst \<noteq> INVALID_PRICE"
    and "vis = visits (band (o_side od) worst (route_levels od book))"
    and "\<forall>v. shown v vis < 2 ^ 63"
  shows "(\<exists>s \<in> set vs. vs_available s \<and> leaves_qty od \<le> shown (vs_venue s) vis) \<longleftrightarrow>
    (\<exists>sl. smart_ioc_route e ticks od nb book vs = [sl] \<and> sl_quantity sl = leaves_qty od \<and>
       leaves_qty od \<le> shown (sl_venue sl) vis)"
    and "smart_ioc_route e ticks od nb book vs = [] \<or>
      (\<exists>sl. smart_ioc_route e ticks od nb book vs = [sl] \<and> sl_quantity sl = leaves_qty od \<and>
         leaves_qty od \<le> shown (sl_venue sl) vis)"
proof -
  have i: "i64 (shown v vis) = shown v vis" for v
    using assms(8) shown_nonneg [of v vis] by (intro i64_small) simp
  have any: "any_order (ie_fok_iter e)" using assms(1) by (simp add: ioc_env_ok_def)
  have rt: "vs \<noteq> [] \<Longrightarrow> smart_ioc_route e ticks od nb book vs = try_fok (ie_fok_iter e) od book vs worst"
    using assms by (auto simp: smart_ioc_route_def Let_def)
  have fs: "find_score vs (vs_venue s) \<noteq> None" if "s \<in> set vs" "vs_available s" for s
    using that find_score_None by blast
  show "(\<exists>s \<in> set vs. vs_available s \<and> leaves_qty od \<le> shown (vs_venue s) vis) \<longleftrightarrow>
    (\<exists>sl. smart_ioc_route e ticks od nb book vs = [sl] \<and> sl_quantity sl = leaves_qty od \<and>
       leaves_qty od \<le> shown (sl_venue sl) vis)"
  proof (cases "vs = []")
    case False
    show ?thesis
    proof (cases rule: try_fok_cases [where vs = vs, OF any assms(3,7)])
      case 1
      then show ?thesis using rt [OF False] fs i by (auto simp: not_le)
    next
      case (2 sl)
      have "\<exists>s \<in> set vs. vs_available s \<and> vs_venue s = sl_venue sl"
        using 2(6) by (auto simp: offered_def)
      then show ?thesis using rt [OF False] 2 i by auto
    qed
  qed (simp add: smart_ioc_route_def)
  show "smart_ioc_route e ticks od nb book vs = [] \<or>
      (\<exists>sl. smart_ioc_route e ticks od nb book vs = [sl] \<and> sl_quantity sl = leaves_qty od \<and>
         leaves_qty od \<le> shown (sl_venue sl) vis)"
  proof (cases "vs = []")
    case False
    show ?thesis
      by (cases rule: try_fok_cases [where vs = vs, OF any assms(3,7)]) (auto simp: rt [OF False] i)
  qed (simp add: smart_ioc_route_def)
qed

section \<open>Properties\<close>

text \<open>
  C23: a fill-or-kill order is routed exactly when some available venue displays the whole of it
  within the price band, and then it is one slice of the full quantity to such a venue; it is
  never split and never sent short.
\<close>

theorem fill_or_kill_exact:
  assumes "ioc_env_ok e" and "nbbo_valid nb" and "0 < leaves_qty od" and "o_tif od = TIF_FOK \<or> o_type od = OT_FOK"
    and "worst = worst_acceptable_price nb (o_side od) ticks" and "worst \<noteq> INVALID_PRICE"
    and "vis = visits (band (o_side od) worst (route_levels od book))"
    and "\<forall>v. shown v vis < 2 ^ 63"
  shows "if \<exists>s \<in> set vs. vs_available s \<and> leaves_qty od \<le> shown (vs_venue s) vis
    then \<exists>sl. smart_ioc_route e ticks od nb book vs = [sl] \<and> sl_quantity sl = leaves_qty od \<and>
      leaves_qty od \<le> shown (sl_venue sl) vis
    else smart_ioc_route e ticks od nb book vs = []"
  using smart_ioc_fok_iff [OF assms, where vs = vs] by (split if_split) blast

text \<open>A fill-or-kill order of \<open>q\<close> shares on the small market, whose band is its first level.\<close>

definition fok_order :: "quantity \<Rightarrow> order" where
  "fok_order q = (buy_order q)\<lparr>o_tif := TIF_FOK\<rparr>"

lemma fok_order_simps [simp]:
  "o_side (fok_order q) = Buy" "o_tif (fok_order q) = TIF_FOK"
  "leaves_qty (fok_order q) = leaves_qty (buy_order q)" "route_levels (fok_order q) small_book = small_asks"
  using small_market(2) [of q] by (simp_all add: fok_order_def leaves_qty_def route_levels_def)

lemma small_worst: "worst_acceptable_price small_nbbo Buy 0 = 10000"
  by (simp add: worst_acceptable_price_def small_nbbo_def INVALID_PRICE_def swrap_def)

lemma small_shown:
  "shown v (visits (band Buy 10000 small_asks)) = (if v = 1 then 30 else if v = 2 then 20 else 0)"
  by (simp add: small_asks_def visits_def level_usable_def out_of_band_def INVALID_PRICE_def shown_def)

lemma small_fok:
  "(\<exists>s \<in> set small_scores. vs_available s \<and> q \<le> shown (vs_venue s) (visits (band Buy 10000 small_asks)))
    \<longleftrightarrow> q \<le> 30"
  "shown v (visits (band Buy 10000 small_asks)) < 2 ^ 63"
  by (auto simp: small_shown small_scores_def small_score_def)

theorem fill_or_kill_exact_witness:
  "length (smart_ioc_route plain_env 0 (fok_order 25) small_nbbo small_book small_scores) = 1 \<and>
   smart_ioc_route plain_env 0 (fok_order 31) small_nbbo small_book small_scores = []"
proof -
  have w: "10000 = worst_acceptable_price small_nbbo (o_side (fok_order q)) 0" for q
    by (simp add: small_worst)
  have lim: "\<forall>v. shown v (visits (band (o_side (fok_order q)) 10000 (route_levels (fok_order q) small_book))) < 2 ^ 63"
    for q using small_fok(2) by simp
  note fok = fill_or_kill_exact [OF plain_env_ok _ _ _ w _ refl lim, where vs = small_scores]
  show ?thesis
    using fok [of 25] fok [of 31] unfolding fok_order_simps small_fok(1)
    by (auto simp: INVALID_PRICE_def)
qed

text \<open>
  whatever the strategy sends, immediate-or-cancel or fill-or-kill, every slice is at a price
  within the slippage band around the national best, and the slices together never ask for more
  than the order has left.
\<close>

theorem smart_ioc_safe:
  assumes "ioc_env_ok e" and "sl \<in> set (smart_ioc_route e ticks od nb book vs)"
  shows "within_band (o_side od) (worst_acceptable_price nb (o_side od) ticks) (sl_price sl) \<and>
    sl_quantity sl \<le> slices_sum (smart_ioc_route e ticks od nb book vs) \<and>
    slices_sum (smart_ioc_route e ticks od nb book vs) \<le> leaves_qty od"
proof -
  note contract = smart_ioc_contract [OF assms(1), of ticks]
  have "0 < sl_quantity sl" and "0 < leaves_qty od"
    using smart_ioc_slice(1,2) [OF assms refl] by simp_all
  then show ?thesis
    using smart_ioc_within_band [OF assms] bounded_strategy.bounded [OF contract, of od nb book vs]
      strategy_contract.slice_le_sum [OF bounded_strategy.axioms(1) [OF contract] assms(2)] by auto
qed

theorem smart_ioc_safe_witness:
  "\<exists>sl. smart_ioc_route plain_env 0 (fok_order 25) small_nbbo small_book small_scores = [sl] \<and>
     sl_price sl \<le> 10000"
proof -
  have w: "10000 = worst_acceptable_price small_nbbo (o_side (fok_order 25)) 0" by (simp add: small_worst)
  have lim: "\<forall>v. shown v (visits (band (o_side (fok_order 25)) 10000 (route_levels (fok_order 25) small_book))) < 2 ^ 63"
    using small_fok(2) by simp
  obtain sl where sl: "smart_ioc_route plain_env 0 (fok_order 25) small_nbbo small_book small_scores = [sl]"
    using smart_ioc_fok_iff(1) [OF plain_env_ok _ _ _ w _ refl lim, where vs = small_scores]
    unfolding fok_order_simps small_fok(1) by (auto simp: INVALID_PRICE_def)
  with smart_ioc_safe [OF plain_env_ok, of sl 0 "fok_order 25" small_nbbo small_book small_scores]
  show ?thesis by (simp add: small_worst within_band_def)
qed

end
