(* ===== verification/VWAP.thy ===== *)
theory VWAP
  imports Best_Price
begin

text \<open>
  The VWAP strategy, from \<open>routing/vwap.h\<close> and \<open>routing/vwap.cpp\<close>: a schedule for one parent
  order, of which each call of \<open>route\<close> sends one slice. Time points are nanoseconds, the
  configured duration is in microseconds, and a method that reads the clock takes \<open>now\<close>.

  The lemmas bound the slices by what the schedule has left, show that rounds of slices and
  full fills complete it, and state how the schedule, kept per strategy object, relates to
  the orders routed through it.
\<close>

record vwap_config =
  vc_duration :: int
  vc_num_slices :: nat
  vc_urgency :: double
  vc_max_participation_rate :: double

definition default_vwap_config :: vwap_config where
  "default_vwap_config = \<lparr>vc_duration = 30 * 60 * 1000000, vc_num_slices = 30, vc_urgency = 1/2,
     vc_max_participation_rate = 1/4\<rparr>"

record vwap =
  vw_config :: vwap_config
  vw_total :: quantity
  vw_filled :: quantity
  vw_start :: timestamp
  vw_end :: timestamp
  vw_slices_sent :: nat

definition vwap_new :: "vwap_config \<Rightarrow> vwap" where
  "vwap_new cfg = \<lparr>vw_config = cfg, vw_total = 0, vw_filled = 0, vw_start = 0, vw_end = 0, vw_slices_sent = 0\<rparr>"

definition vwap_begin :: "quantity \<Rightarrow> timestamp \<Rightarrow> vwap \<Rightarrow> vwap" where
  "vwap_begin tot start_time st =
     st\<lparr>vw_total := tot, vw_filled := 0, vw_slices_sent := 0, vw_start := start_time,
        vw_end := start_time + vc_duration (vw_config st) * 1000\<rparr>"

definition vwap_on_fill :: "quantity \<Rightarrow> vwap \<Rightarrow> vwap" where
  "vwap_on_fill filled_qty st =
     (let f = i64 (vw_filled st + filled_qty)
      in st\<lparr>vw_filled := (if f > vw_total st then vw_total st else f)\<rparr>)"

definition fill_progress :: "vwap \<Rightarrow> double" where
  "fill_progress st = (if vw_total st \<le> 0 then 1 else ddiv (of_i64 (vw_filled st)) (of_i64 (vw_total st)))"

definition time_progress :: "timestamp \<Rightarrow> vwap \<Rightarrow> double" where
  "time_progress now st =
     (if now \<ge> vw_end st then 1
      else if now \<le> vw_start st then 0
      else let elapsed = (now - vw_start st) sdiv 1000; tot = (vw_end st - vw_start st) sdiv 1000
           in if tot \<le> 0 then 1 else ddiv (of_i64 elapsed) (of_i64 tot))"

definition participation_rate :: "timestamp \<Rightarrow> vwap \<Rightarrow> double" where
  "participation_rate now st =
     (let tp = time_progress now st in if tp \<le> 0 then 0 else ddiv (fill_progress st) tp)"

definition is_complete :: "vwap \<Rightarrow> bool" where
  "is_complete st \<longleftrightarrow> vw_filled st \<ge> vw_total st"

definition vwap_accel :: "timestamp \<Rightarrow> vwap \<Rightarrow> double" where
  "vwap_accel now st =
     (let drift = dsub (time_progress now st) (fill_progress st); urgency = vc_urgency (vw_config st)
      in if drift > 0 then min (dadd 1 (dmul (dmul urgency drift) 2)) 3
         else max (dadd 1 (dmul (dsub 1 urgency) drift)) (1/4))"

definition vwap_cap :: "vwap \<Rightarrow> quantity \<Rightarrow> quantity" where
  "vwap_cap st slice_qty =
     (let rate = vc_max_participation_rate (vw_config st)
      in if rate > 0 \<and> rate < 1
         then min slice_qty (max 1 (to_i64 (dmul (of_i64 (vw_total st)) rate)))
         else slice_qty)"

definition compute_slice_quantity :: "timestamp \<Rightarrow> vwap \<Rightarrow> quantity" where
  "compute_slice_quantity now st =
     (if vw_total st \<le> 0 \<or> vc_num_slices (vw_config st) = 0 then 0
      else let remaining = i64 (vw_total st - vw_filled st)
           in if remaining \<le> 0 then 0
              else let base_slice = max 1 (vw_total st sdiv int (vc_num_slices (vw_config st)));
                       slice_qty = to_i64 (dmul (of_i64 base_slice) (vwap_accel now st))
                   in max 1 (min (vwap_cap st slice_qty) remaining))"

section \<open>Venue selection\<close>

record vwap_candidate =
  wc_venue :: venue_id
  wc_price :: price
  wc_quality :: double

text \<open>The fee-adjusted price of \<open>price\<close> for the venue in \<open>score\<close>.\<close>

definition vwap_adjust :: "side \<Rightarrow> venue_score \<Rightarrow> price \<Rightarrow> price" where
  "vwap_adjust s score p =
     (if s = Buy then to_price (dmul (to_double p) (dadd 1 (vs_fee_rate score)))
      else to_price (dmul (to_double p) (dsub 1 (vs_fee_rate score))))"

definition vwap_quality :: "venue_score \<Rightarrow> double" where
  "vwap_quality score =
     (let baseline = 1000; lat = (if vs_latency_us score > 0 then vs_latency_us score else baseline)
      in dadd (dmul (rnd (7/10)) (vs_fill_rate score)) (dmul (rnd (3/10)) (ddiv baseline lat)))"

text \<open>The comparison, as written: the price of the best candidate is adjusted with the fee of
  the venue under consideration.\<close>

definition vwap_is_better :: "side \<Rightarrow> venue_score \<Rightarrow> price \<Rightarrow> vwap_candidate option \<Rightarrow> bool" where
  "vwap_is_better s score level_price best =
     (case best of
        None \<Rightarrow> True
      | Some b \<Rightarrow>
          let adj = vwap_adjust s score level_price; best_adj = vwap_adjust s score (wc_price b)
          in (if s = Buy then adj < best_adj else adj > best_adj) \<or>
             (adj = best_adj \<and> vwap_quality score > wc_quality b))"

definition vwap_visit ::
  "side \<Rightarrow> venue_score list \<Rightarrow> price \<Rightarrow> venue_quantity \<Rightarrow> vwap_candidate option \<Rightarrow> vwap_candidate option" where
  "vwap_visit s vs level_price vq best =
     (if vq_quantity vq \<le> 0 then best
      else case find_score vs (vq_venue vq) of
        None \<Rightarrow> best
      | Some score \<Rightarrow>
          if vwap_is_better s score level_price best
          then Some \<lparr>wc_venue = vq_venue vq, wc_price = level_price, wc_quality = vwap_quality score\<rparr>
          else best)"

fun vwap_select ::
  "double \<Rightarrow> side \<Rightarrow> venue_score list \<Rightarrow> aggregated_level list \<Rightarrow> vwap_candidate option \<Rightarrow>
   vwap_candidate option" where
  "vwap_select urgency s vs [] best = best"
| "vwap_select urgency s vs (level # levels) best =
     (if \<not> level_usable level then vwap_select urgency s vs levels best
      else let best' = fold (vwap_visit s vs (al_price level)) (al_breakdown level) best
           in if best' \<noteq> None \<and> urgency < rnd (8/10) then best'
              else vwap_select urgency s vs levels best')"

definition get_next_slice ::
  "timestamp \<Rightarrow> order \<Rightarrow> nbbo \<Rightarrow> aggregated_book \<Rightarrow> venue_score list \<Rightarrow> vwap \<Rightarrow> decision \<times> vwap" where
  "get_next_slice now od nb book vs st =
     (if is_complete st \<or> vs = [] \<or> \<not> nbbo_valid nb then ([], st)
      else let slice_qty = compute_slice_quantity now st
           in if slice_qty \<le> 0 then ([], st)
              else case vwap_select (vc_urgency (vw_config st)) (o_side od) vs (route_levels od book) None of
                     None \<Rightarrow> ([], st)
                   | Some best \<Rightarrow>
                       ([\<lparr>sl_venue = wc_venue best, sl_price = wc_price best, sl_quantity = slice_qty,
                          sl_type = OT_Limit, sl_tif = TIF_IOC\<rparr>],
                        st\<lparr>vw_slices_sent := nat (u32 (int (vw_slices_sent st) + 1))\<rparr>))"

definition vwap_route ::
  "timestamp \<Rightarrow> order \<Rightarrow> nbbo \<Rightarrow> aggregated_book \<Rightarrow> venue_score list \<Rightarrow> vwap \<Rightarrow> decision \<times> vwap" where
  "vwap_route now od nb book vs st =
     (let st' = (if vw_total st = 0 \<and> leaves_qty od > 0 then vwap_begin (o_quantity od) now st else st)
      in get_next_slice now od nb book vs st')"

section \<open>Slices within the schedule\<close>

definition vwap_inv :: "vwap \<Rightarrow> bool" where
  "vwap_inv st \<longleftrightarrow> 0 \<le> vw_filled st \<and> vw_filled st \<le> vw_total st \<and> vw_total st < 2 ^ 63"

lemma slice_quantity_bounds:
  assumes "vwap_inv st" and "\<not> is_complete st" and "vc_num_slices (vw_config st) \<noteq> 0"
  shows "1 \<le> compute_slice_quantity now st"
    and "compute_slice_quantity now st \<le> vw_total st - vw_filled st"
    and "0 < vc_max_participation_rate (vw_config st) \<Longrightarrow> vc_max_participation_rate (vw_config st) < 1 \<Longrightarrow>
      compute_slice_quantity now st \<le>
        max 1 (to_i64 (dmul (of_i64 (vw_total st)) (vc_max_participation_rate (vw_config st))))"
proof -
  have "i64 (vw_total st - vw_filled st) = vw_total st - vw_filled st"
    using assms(1) by (intro i64_small) (simp add: vwap_inv_def)
  moreover have "0 < vw_total st - vw_filled st" and "0 < vw_total st"
    using assms(1,2) by (auto simp: vwap_inv_def is_complete_def)
  ultimately show "1 \<le> compute_slice_quantity now st"
    and "compute_slice_quantity now st \<le> vw_total st - vw_filled st"
    and "0 < vc_max_participation_rate (vw_config st) \<Longrightarrow> vc_max_participation_rate (vw_config st) < 1 \<Longrightarrow>
      compute_slice_quantity now st \<le>
        max 1 (to_i64 (dmul (of_i64 (vw_total st)) (vc_max_participation_rate (vw_config st))))"
    using assms(3) by (auto simp: compute_slice_quantity_def Let_def vwap_cap_def)
qed

lemma compute_slice_nonneg: "0 \<le> compute_slice_quantity now st"
  by (simp add: compute_slice_quantity_def Let_def le_max_iff_disj)

lemma vwap_on_fill_inv:
  assumes "vwap_inv st" and "0 \<le> q" and "vw_filled st + q < 2 ^ 63"
  shows "vwap_inv (vwap_on_fill q st)" and "vw_filled (vwap_on_fill q st) = min (vw_total st) (vw_filled st + q)"
    and "vw_total (vwap_on_fill q st) = vw_total st" and "vw_config (vwap_on_fill q st) = vw_config st"
proof -
  have "i64 (vw_filled st + q) = vw_filled st + q"
    using assms by (intro i64_small) (simp add: vwap_inv_def)
  then show "vwap_inv (vwap_on_fill q st)" and "vw_filled (vwap_on_fill q st) = min (vw_total st) (vw_filled st + q)"
    and "vw_total (vwap_on_fill q st) = vw_total st" and "vw_config (vwap_on_fill q st) = vw_config st"
    using assms by (auto simp: vwap_on_fill_def vwap_inv_def Let_def)
qed

text \<open>A round: a slice is computed at some time and filled completely.\<close>

definition vwap_round :: "timestamp \<Rightarrow> vwap \<Rightarrow> vwap" where
  "vwap_round now st = vwap_on_fill (compute_slice_quantity now st) st"

lemma vwap_round_progress:
  assumes "vwap_inv st" and "vc_num_slices (vw_config st) \<noteq> 0"
  shows "vwap_inv (vwap_round now st)" and "vw_total (vwap_round now st) = vw_total st"
    and "vw_config (vwap_round now st) = vw_config st"
    and "vw_filled (vwap_round now st) \<ge> min (vw_total st) (vw_filled st + 1)"
proof -
  let ?q = "compute_slice_quantity now st"
  have q: "0 \<le> ?q" "vw_filled st + ?q \<le> vw_total st" "is_complete st \<or> 1 \<le> ?q"
  proof -
    show "0 \<le> ?q" by (rule compute_slice_nonneg)
    show "is_complete st \<or> 1 \<le> ?q" using slice_quantity_bounds(1) assms by blast
    show "vw_filled st + ?q \<le> vw_total st"
    proof (cases "is_complete st")
      case True
      then have "vw_total st = vw_filled st" using assms(1) by (simp add: is_complete_def vwap_inv_def)
      then show ?thesis by (simp add: compute_slice_quantity_def i64_small)
    next
      case False
      then show ?thesis using slice_quantity_bounds(2) [OF assms(1) False assms(2), of now] by simp
    qed
  qed
  have lt: "vw_filled st + ?q < 2 ^ 63" using q(2) assms(1) by (simp add: vwap_inv_def)
  note fill = vwap_on_fill_inv [OF assms(1) q(1) lt, folded vwap_round_def]
  show "vwap_inv (vwap_round now st)" and "vw_total (vwap_round now st) = vw_total st"
    and "vw_config (vwap_round now st) = vw_config st" by (fact fill)+
  show "vw_filled (vwap_round now st) \<ge> min (vw_total st) (vw_filled st + 1)"
    unfolding fill(2) using q(1,3) by (auto simp: is_complete_def)
qed

lemma vwap_completes:
  assumes "vwap_inv st" and "vc_num_slices (vw_config st) \<noteq> 0"
    and "vw_total st - vw_filled st \<le> int (length nows)"
  shows "is_complete (fold vwap_round nows st)"
  using assms
proof (induction nows arbitrary: st)
  case Nil
  then show ?case by (simp add: is_complete_def)
next
  case (Cons now nows)
  note round = vwap_round_progress [OF Cons.prems(1,2), of now]
  have "vw_total (vwap_round now st) - vw_filled (vwap_round now st) \<le> int (length nows)"
    using round(2,4) Cons.prems(3) by (simp add: min_def split: if_splits)
  then show ?case using Cons.IH [of "vwap_round now st"] round Cons.prems(2) by simp
qed

section \<open>The contract\<close>

lemma vwap_visit_offered:
  assumes "vwap_visit s vs p vq best = Some b" and "best \<noteq> Some b"
  shows "wc_venue b = vq_venue vq \<and> wc_price b = p \<and> 0 < vq_quantity vq \<and> find_score vs (vq_venue vq) \<noteq> None"
  using assms by (auto simp: vwap_visit_def split: if_splits option.splits)

lemma vwap_fold_offered:
  assumes "fold (vwap_visit s vs p) vqs best = Some b"
  shows "best = Some b \<or> (wc_price b = p \<and>
    (\<exists>vq \<in> set vqs. wc_venue b = vq_venue vq \<and> 0 < vq_quantity vq \<and> find_score vs (vq_venue vq) \<noteq> None))"
  using assms
proof (induction vqs arbitrary: best)
  case (Cons vq vqs)
  then show ?case using vwap_visit_offered [of s vs p vq best b] by fastforce
qed simp

lemma vwap_select_offered:
  assumes "vwap_select urgency s vs levels best = Some b"
  shows "best = Some b \<or> offered levels vs (wc_venue b) (wc_price b)"
  using assms
proof (induction levels arbitrary: best)
  case (Cons l ls)
  have more: "offered ls vs v p \<Longrightarrow> offered (l # ls) vs v p" for v p by (auto simp: offered_def)
  show ?case
  proof (cases "level_usable l")
    case True
    define best' where "best' = fold (vwap_visit s vs (al_price l)) (al_breakdown l) best"
    have here: "best' = Some b \<Longrightarrow> best = Some b \<or> offered (l # ls) vs (wc_venue b) (wc_price b)"
      using vwap_fold_offered [of s vs "al_price l" "al_breakdown l" best b] True find_score_Some
      unfolding best'_def offered_def by (metis list.set_intros(1) not_None_eq)
    show ?thesis
    proof (cases "best' \<noteq> None \<and> urgency < rnd (8/10)")
      case True
      then have "best' = Some b" using Cons.prems \<open>level_usable l\<close> by (simp add: best'_def Let_def)
      then show ?thesis by (rule here)
    next
      case False
      then have "vwap_select urgency s vs ls best' = Some b"
        using Cons.prems \<open>level_usable l\<close> by (auto simp: best'_def Let_def split: if_splits)
      from Cons.IH [OF this] show ?thesis using here more by blast
    qed
  qed (use Cons more in auto)
qed simp

lemma get_next_slice_cases:
  obtains "get_next_slice now od nb book vs st = ([], st)"
  | b st' where "vs \<noteq> []" "nbbo_valid nb" "\<not> is_complete st" "0 < compute_slice_quantity now st"
      "vwap_select (vc_urgency (vw_config st)) (o_side od) vs (route_levels od book) None = Some b"
      "get_next_slice now od nb book vs st =
        ([\<lparr>sl_venue = wc_venue b, sl_price = wc_price b, sl_quantity = compute_slice_quantity now st,
           sl_type = OT_Limit, sl_tif = TIF_IOC\<rparr>], st')"
proof (cases "is_complete st \<or> vs = [] \<or> \<not> nbbo_valid nb \<or> compute_slice_quantity now st \<le> 0 \<or>
    vwap_select (vc_urgency (vw_config st)) (o_side od) vs (route_levels od book) None = None")
  case True
  then show ?thesis using that(1) by (auto simp: get_next_slice_def Let_def)
next
  case False
  then show ?thesis using that(2) by (auto simp: get_next_slice_def Let_def)
qed

lemma vwap_contract: "strategy_contract (\<lambda>od nb book vs. fst (vwap_route now od nb book vs st))"
proof
  show "vs = [] \<or> \<not> nbbo_valid nb \<Longrightarrow> fst (vwap_route now od nb book vs st) = []" for vs nb od book
    by (auto simp: vwap_route_def get_next_slice_def Let_def)
next
  fix sl od nb book vs
  assume sl: "sl \<in> set (fst (vwap_route now od nb book vs st))"
  define st' where "st' = (if vw_total st = 0 \<and> leaves_qty od > 0 then vwap_begin (o_quantity od) now st else st)"
  have "sl \<in> set (fst (get_next_slice now od nb book vs st'))"
    using sl by (simp add: vwap_route_def st'_def Let_def)
  then show "0 < sl_quantity sl" and "offered (route_levels od book) vs (sl_venue sl) (sl_price sl)"
    by (cases rule: get_next_slice_cases [of now od nb book vs st'];
        auto dest: vwap_select_offered)+
qed

interpretation vwap: strategy_contract "\<lambda>od nb book vs. fst (vwap_route now od nb book vs st)" for now st
  by (rule vwap_contract)

section \<open>One schedule, many orders\<close>

text \<open>
  The schedule belongs to the strategy object. Once it is complete, every later order gets
  an empty decision and nothing in the object changes.
\<close>

lemma vwap_exhausted:
  assumes "vw_total st \<noteq> 0" and "is_complete st"
  shows "vwap_route now od nb book vs st = ([], st)"
  using assms by (simp add: vwap_route_def get_next_slice_def)

text \<open>While it runs, the slices do not depend on the order beyond its side.\<close>

lemma vwap_order_independent:
  assumes "vw_total st \<noteq> 0" and "o_side od = o_side od'"
  shows "vwap_route now od nb book vs st = vwap_route now od' nb book vs st"
proof -
  have "route_levels od book = route_levels od' book" by (simp add: route_levels_def assms(2))
  then show ?thesis using assms by (simp add: vwap_route_def get_next_slice_def Let_def)
qed

section \<open>Fees\<close>

definition with_fees :: "(venue_id \<Rightarrow> double) \<Rightarrow> venue_score list \<Rightarrow> venue_score list" where
  "with_fees f vs = map (\<lambda>s. s\<lparr>vs_fee_rate := f (vs_venue s)\<rparr>) vs"

lemma find_score_with_fees:
  "find_score (with_fees f vs) v = map_option (\<lambda>s. s\<lparr>vs_fee_rate := f (vs_venue s)\<rparr>) (find_score vs v)"
  by (induction vs) (auto simp: find_score_def with_fees_def)

lemma vwap_quality_fee [simp]: "vwap_quality (s\<lparr>vs_fee_rate := r\<rparr>) = vwap_quality s"
  by (simp add: vwap_quality_def)

lemma vwap_fold_fees:
  assumes "\<forall>b. best = Some b \<longrightarrow> wc_price b = p"
  shows "fold (vwap_visit s (with_fees f vs) p) vqs best = fold (vwap_visit s vs p) vqs best"
  using assms
proof (induction vqs arbitrary: best)
  case (Cons vq vqs)
  have better: "vwap_is_better s sc p best \<longleftrightarrow> (case best of None \<Rightarrow> True | Some b \<Rightarrow> vwap_quality sc > wc_quality b)" for sc
    using Cons.prems by (auto simp: vwap_is_better_def Let_def split: option.splits)
  have "vwap_visit s (with_fees f vs) p vq best = vwap_visit s vs p vq best"
    by (auto simp: vwap_visit_def find_score_with_fees better split: option.splits)
  moreover have "\<forall>b. vwap_visit s vs p vq best = Some b \<longrightarrow> wc_price b = p"
    using Cons.prems by (auto simp: vwap_visit_def split: option.splits)
  ultimately show ?case using Cons.IH by simp
qed simp

lemma vwap_select_fees:
  assumes "urgency < rnd (8/10)"
  shows "vwap_select urgency s (with_fees f vs) levels None = vwap_select urgency s vs levels None"
  using assms by (induction levels) (simp_all add: vwap_fold_fees Let_def)

text \<open>
  Below the urgency that makes the walk go on after the first usable level, the choice of
  the venue does not depend on the fees: two venues at one price compare as equal whatever
  they charge.
\<close>

lemma vwap_ignores_fees:
  assumes "vc_urgency (vw_config st) < rnd (8/10)"
  shows "vwap_route now od nb book (with_fees f vs) st = vwap_route now od nb book vs st"
proof -
  have "(with_fees f vs = []) = (vs = [])" by (simp add: with_fees_def)
  then show ?thesis
    using assms by (simp add: vwap_route_def get_next_slice_def vwap_select_fees vwap_begin_def Let_def)
qed

section \<open>Properties\<close>

definition sample_schedule :: vwap where
  "sample_schedule = (vwap_new default_vwap_config)\<lparr>vw_total := 3\<rparr>"

text \<open>
  C29: an incomplete schedule always asks for at least one share and never for more than what is
  left of it, whatever the floating-point acceleration says, so that as many rounds of a slice and
  its full fill as there are shares left complete it, at whatever times they happen.
\<close>

theorem vwap_schedule_completes:
  assumes "vwap_inv st" and "vc_num_slices (vw_config st) \<noteq> 0"
  shows "(\<not> is_complete st \<longrightarrow> 1 \<le> compute_slice_quantity now st \<and>
      compute_slice_quantity now st \<le> vw_total st - vw_filled st) \<and>
    (vw_total st - vw_filled st \<le> int (length nows) \<longrightarrow> is_complete (fold vwap_round nows st))"
  using assms slice_quantity_bounds(1,2) vwap_completes by blast

theorem vwap_schedule_completes_witness:
  "is_complete (fold vwap_round [10, 20, 30] sample_schedule)"
  using vwap_schedule_completes [of sample_schedule 0 "[10, 20, 30]"]
  by (simp add: sample_schedule_def vwap_new_def vwap_inv_def default_vwap_config_def)

text \<open>
  the schedule belongs to the strategy object, not to an order. Once it has started, a route
  call for another order of the same side gets the very same slices, whatever that order's
  quantity, and once it is complete every later order gets none.
\<close>

theorem vwap_schedule_shared:
  assumes "vw_total st \<noteq> 0" and "o_side od = o_side od'"
  shows "vwap_route now od nb book vs st = vwap_route now od' nb book vs st \<and>
    (is_complete st \<longrightarrow> vwap_route now od nb book vs st = ([], st))"
  using vwap_order_independent [OF assms] vwap_exhausted [OF assms(1)] by blast

theorem vwap_schedule_shared_witness:
  "fst (vwap_route 7 (buy_order 900) small_nbbo small_book small_scores (sample_schedule\<lparr>vw_filled := 3\<rparr>)) = [] \<and>
   vwap_route 7 (buy_order 900) small_nbbo small_book small_scores sample_schedule =
     vwap_route 7 (buy_order 1) small_nbbo small_book small_scores sample_schedule"
  using vwap_schedule_shared [of "sample_schedule\<lparr>vw_filled := 3\<rparr>" "buy_order 900" "buy_order 900" 7
      small_nbbo small_book small_scores]
    vwap_schedule_shared [of sample_schedule "buy_order 900" "buy_order 1" 7 small_nbbo small_book small_scores]
  by (simp add: sample_schedule_def vwap_new_def is_complete_def)

text \<open>
  at the default urgency (below 0.8) the VWAP strategy's choice does not depend on the venues'
  fees: replacing all fee rates by any others changes neither the slice nor the schedule, because
  the comparison adjusts both prices with the same venue's fee.
\<close>

theorem vwap_fees_irrelevant:
  assumes "vc_urgency (vw_config st) < rnd (8/10)"
  shows "vwap_route now od nb book (with_fees f vs) st = vwap_route now od nb book vs st"
  using assms by (rule vwap_ignores_fees)

theorem vwap_fees_irrelevant_witness:
  "vwap_route 7 (buy_order 900) small_nbbo small_book (with_fees (\<lambda>v. of_nat v / 2) small_scores) sample_schedule =
   vwap_route 7 (buy_order 900) small_nbbo small_book small_scores sample_schedule"
proof (rule vwap_fees_irrelevant)
  have "\<bar>rnd (8/10 :: rat) - 8/10\<bar> \<le> 1/10"
    by (rule order_trans [OF rnd_error]) simp
  moreover have "8/10 - rnd (8/10 :: rat) \<le> \<bar>rnd (8/10 :: rat) - 8/10\<bar>" by simp
  ultimately have "1/2 < rnd (8/10 :: rat)" by linarith
  then show "vc_urgency (vw_config sample_schedule) < rnd (8/10)"
    by (simp add: sample_schedule_def vwap_new_def default_vwap_config_def)
qed

end
