(* ===== verification/Routing_Engine.thy ===== *)
theory Routing_Engine
  imports Risk Best_Price Liquidity_Sweep Smart_IOC VWAP
begin

text \<open>
  The routing engine, from \<open>routing/engine.h\<close> and \<open>routing/engine.cpp\<close>: validation, the risk
  check, market data, the dispatch to a strategy object and the bookkeeping. The risk manager
  and the aggregator the engine holds references to are components of its state; logging is
  left out. \<open>route_order\<close> returns the decision, the callback it makes and the new state.

  The lemmas state what every routed order has passed, that each call is counted and reported
  exactly once, and that the slices keep the contract of \<open>Strategy\<close>.
\<close>

section \<open>Strategy objects\<close>

datatype strategy_obj =
    S_Best_Price
  | S_Liquidity_Sweep quantity
  | S_Smart_IOC int
  | S_VWAP vwap

fun strategy_type :: "strategy_obj \<Rightarrow> routing_strategy" where
  "strategy_type S_Best_Price = BestPrice"
| "strategy_type (S_Liquidity_Sweep minq) = LiquiditySweep"
| "strategy_type (S_Smart_IOC ticks) = SmartIOC"
| "strategy_type (S_VWAP st) = VWAP"

text \<open>What the standard library leaves open: iteration orders and the order of equal elements.\<close>

record route_env =
  rv_scores :: "(venue_id \<times> venue_score) list \<Rightarrow> (venue_id \<times> venue_score) list"
  rv_allocs :: "allocations \<Rightarrow> allocations"
  rv_slices :: slice_sorter
  rv_ioc :: ioc_env
  rv_tags :: sorter

definition route_env_ok :: "route_env \<Rightarrow> bool" where
  "route_env_ok e \<longleftrightarrow> any_order (rv_scores e) \<and> any_order (rv_allocs e) \<and> std_sort (rv_slices e) \<and>
     ioc_env_ok (rv_ioc e) \<and> std_sort (rv_tags e)"

text \<open>The virtual call \<open>strategy->route(order, nbbo, book, venues)\<close>.\<close>

fun strategy_route ::
  "route_env \<Rightarrow> timestamp \<Rightarrow> strategy_obj \<Rightarrow> order \<Rightarrow> nbbo \<Rightarrow> aggregated_book \<Rightarrow> venue_score list \<Rightarrow>
   decision \<times> strategy_obj" where
  "strategy_route e now S_Best_Price od nb book vs = (best_price_route od nb book vs, S_Best_Price)"
| "strategy_route e now (S_Liquidity_Sweep minq) od nb book vs =
     (liquidity_sweep_route (rv_allocs e) (rv_slices e) minq od nb book vs, S_Liquidity_Sweep minq)"
| "strategy_route e now (S_Smart_IOC ticks) od nb book vs =
     (smart_ioc_route (rv_ioc e) ticks od nb book vs, S_Smart_IOC ticks)"
| "strategy_route e now (S_VWAP st) od nb book vs =
     (let r = vwap_route now od nb book vs st in (fst r, S_VWAP (snd r)))"

section \<open>The engine\<close>

record routing_stats =
  rs_routed :: int
  rs_rejected :: int
  rs_slices :: int

record engine =
  en_market :: aggregator
  en_risk :: risk_manager
  en_strategies :: "routing_strategy \<rightharpoonup> strategy_obj"
  en_scores :: "(venue_id \<times> venue_score) list"
  en_order_cb :: bool
  en_reject_cb :: bool
  en_stats :: routing_stats

datatype engine_event = EE_Order order | EE_Reject order string

definition register_strategy :: "strategy_obj option \<Rightarrow> engine \<Rightarrow> engine" where
  "register_strategy obj en =
     (case obj of
        None \<Rightarrow> en
      | Some s \<Rightarrow> en\<lparr>en_strategies := (en_strategies en)(strategy_type s \<mapsto> s)\<rparr>)"

definition update_venue_score :: "venue_id \<Rightarrow> venue_score \<Rightarrow> engine \<Rightarrow> engine" where
  "update_venue_score v score en =
     en\<lparr>en_scores := AList.update v (score\<lparr>vs_venue := v\<rparr>) (en_scores en)\<rparr>"

definition remove_venue :: "venue_id \<Rightarrow> engine \<Rightarrow> engine" where
  "remove_venue v en = en\<lparr>en_scores := AList.delete v (en_scores en)\<rparr>"

definition get_available_venues :: "route_env \<Rightarrow> engine \<Rightarrow> venue_score list" where
  "get_available_venues e en = filter vs_available (map snd (rv_scores e (en_scores en)))"

definition en_reject :: "order \<Rightarrow> string \<Rightarrow> engine \<Rightarrow> decision \<times> engine_event list \<times> engine" where
  "en_reject od reason en =
     ([], if en_reject_cb en then [EE_Reject od reason] else [],
      en\<lparr>en_stats := (en_stats en)\<lparr>rs_rejected := u64 (rs_rejected (en_stats en) + 1)\<rparr>\<rparr>)"

definition en_accept :: "order \<Rightarrow> decision \<Rightarrow> engine \<Rightarrow> decision \<times> engine_event list \<times> engine" where
  "en_accept od d en =
     (d, if en_order_cb en then [EE_Order od] else [],
      en\<lparr>en_stats := (en_stats en)
           \<lparr>rs_routed := u64 (rs_routed (en_stats en) + 1),
            rs_slices := u64 (rs_slices (en_stats en) + int (length d))\<rparr>\<rparr>)"

text \<open>Step 1: the first reason to refuse an order, if any.\<close>

definition validate_order :: "order \<Rightarrow> string option" where
  "validate_order od =
     (if o_symbol od = [] then Some ''empty symbol''
      else if o_quantity od \<le> 0 then Some ''invalid quantity''
      else if o_type od = OT_Limit \<and> o_price od \<le> 0 then Some ''limit order with non-positive price''
      else None)"

text \<open>Steps 4 and 5: dispatch and bookkeeping.\<close>

definition dispatch_order ::
  "route_env \<Rightarrow> timestamp \<Rightarrow> order \<Rightarrow> nbbo \<Rightarrow> engine \<Rightarrow> decision \<times> engine_event list \<times> engine" where
  "dispatch_order e now od nb en =
     (let book = get_aggregated_book (rv_tags e) (o_symbol od) (en_market en)
      in case en_strategies en (o_strategy od) of
           None \<Rightarrow> en_reject od ''no strategy registered for requested type'' en
         | Some obj \<Rightarrow>
             let venues = get_available_venues e en
             in if venues = [] then en_reject od ''no available venues'' en
                else let r = strategy_route e now obj od nb book venues;
                         en' = en\<lparr>en_strategies := (en_strategies en)(o_strategy od \<mapsto> snd r)\<rparr>
                     in if decision_valid (fst r) then en_accept od (fst r) en'
                        else en_reject od ''strategy returned empty decision'' en')"

definition route_order ::
  "route_env \<Rightarrow> timestamp \<Rightarrow> order \<Rightarrow> engine \<Rightarrow> decision \<times> engine_event list \<times> engine" where
  "route_order e now od en =
     (case validate_order od of
        Some reason \<Rightarrow> en_reject od reason en
      | None \<Rightarrow>
          let c = check_order (now div 1000000000) od (en_risk en);
              en1 = en\<lparr>en_risk := snd c\<rparr>
          in if fst c \<noteq> Passed then en_reject od (risk_result_to_string (fst c)) en1
             else let nb = get_nbbo (o_symbol od) (en_market en1)
                  in if \<not> nbbo_valid nb then en_reject od ''no valid NBBO for symbol'' en1
                     else dispatch_order e now od nb en1)"

section \<open>Bookkeeping\<close>

lemma route_order_cases:
  obtains (rejected) reason en' where "route_order e now od en = en_reject od reason en'"
      "en_stats en' = en_stats en" "en_reject_cb en' = en_reject_cb en" "en_order_cb en' = en_order_cb en"
  | (accepted) obj r en' where
      "validate_order od = None" "fst (check_order (now div 1000000000) od (en_risk en)) = Passed"
      "nbbo_valid (get_nbbo (o_symbol od) (en_market en))"
      "en_strategies en (o_strategy od) = Some obj"
      "r = strategy_route e now obj od (get_nbbo (o_symbol od) (en_market en))
             (get_aggregated_book (rv_tags e) (o_symbol od) (en_market en)) (get_available_venues e en)"
      "fst r \<noteq> []" "route_order e now od en = en_accept od (fst r) en'"
      "en_stats en' = en_stats en" "en_reject_cb en' = en_reject_cb en" "en_order_cb en' = en_order_cb en"
      "en_risk en' = snd (check_order (now div 1000000000) od (en_risk en))" "en_market en' = en_market en"
      "en_scores en' = en_scores en" "en_strategies en' = (en_strategies en)(o_strategy od \<mapsto> snd r)"
proof (cases "validate_order od")
  case (Some reason)
  then show ?thesis using rejected by (simp add: route_order_def)
next
  case None
  define en1 where "en1 = en\<lparr>en_risk := snd (check_order (now div 1000000000) od (en_risk en))\<rparr>"
  have ro: "route_order e now od en =
    (if fst (check_order (now div 1000000000) od (en_risk en)) \<noteq> Passed
     then en_reject od (risk_result_to_string (fst (check_order (now div 1000000000) od (en_risk en)))) en1
     else if \<not> nbbo_valid (get_nbbo (o_symbol od) (en_market en))
     then en_reject od ''no valid NBBO for symbol'' en1
     else dispatch_order e now od (get_nbbo (o_symbol od) (en_market en)) en1)"
    by (simp add: route_order_def None Let_def en1_def)
  show ?thesis
  proof (cases "fst (check_order (now div 1000000000) od (en_risk en)) = Passed \<and>
      nbbo_valid (get_nbbo (o_symbol od) (en_market en))")
    case False
    have st: "en_stats en1 = en_stats en" "en_reject_cb en1 = en_reject_cb en" "en_order_cb en1 = en_order_cb en"
      by (simp_all add: en1_def)
    from False obtain reason where "route_order e now od en = en_reject od reason en1"
      unfolding ro by (metis (full_types))
    then show ?thesis using rejected st by blast
  next
    case passed: True
    then have ro: "route_order e now od en = dispatch_order e now od (get_nbbo (o_symbol od) (en_market en)) en1"
      by (simp add: ro)
    show ?thesis
    proof (cases "en_strategies en (o_strategy od)")
      case None
      then show ?thesis using ro rejected [of _ en1] by (simp add: dispatch_order_def en1_def)
    next
      case (Some obj)
      define r where "r = strategy_route e now obj od (get_nbbo (o_symbol od) (en_market en))
        (get_aggregated_book (rv_tags e) (o_symbol od) (en_market en)) (get_available_venues e en)"
      define en2 where "en2 = en1\<lparr>en_strategies := (en_strategies en)(o_strategy od \<mapsto> snd r)\<rparr>"
      have gav: "get_available_venues e en1 = get_available_venues e en"
        by (simp add: get_available_venues_def en1_def)
      have ro: "route_order e now od en =
        (if get_available_venues e en = [] then en_reject od ''no available venues'' en1
         else if fst r \<noteq> [] then en_accept od (fst r) en2
         else en_reject od ''strategy returned empty decision'' en2)"
        unfolding ro dispatch_order_def gav
        by (simp add: en1_def Some Let_def r_def [symmetric] decision_valid_def) (simp add: en2_def en1_def)
      have st: "en_stats x = en_stats en" "en_reject_cb x = en_reject_cb en" "en_order_cb x = en_order_cb en"
        if "x = en1 \<or> x = en2" for x using that by (auto simp: en1_def en2_def)
      show ?thesis
      proof (cases "get_available_venues e en = []")
        case True
        then show ?thesis using ro rejected [of "''no available venues''" en1] st by simp
      next
        case venues: False
        show ?thesis
        proof (cases "fst r = []")
          case True
          then show ?thesis
            using ro venues rejected [of "''strategy returned empty decision''" en2] st by simp
        next
          case False
          have "en_risk en2 = snd (check_order (now div 1000000000) od (en_risk en))"
            "en_market en2 = en_market en" "en_scores en2 = en_scores en"
            "en_strategies en2 = (en_strategies en)(o_strategy od \<mapsto> snd r)"
            by (simp_all add: en1_def en2_def)
          note en2 = this
          have res: "route_order e now od en = en_accept od (fst r) en2" using ro venues False by simp
          show ?thesis
            by (rule accepted [OF None _ _ Some r_def False res])
               (use passed st en2 in simp_all)
        qed
      qed
    qed
  qed
qed

lemma routed_obtains:
  assumes "route_order e now od en = (d, evs, en')" and "d \<noteq> []"
  obtains obj where "validate_order od = None"
    "fst (check_order (now div 1000000000) od (en_risk en)) = Passed"
    "nbbo_valid (get_nbbo (o_symbol od) (en_market en))"
    "en_strategies en (o_strategy od) = Some obj"
    "d = fst (strategy_route e now obj od (get_nbbo (o_symbol od) (en_market en))
             (get_aggregated_book (rv_tags e) (o_symbol od) (en_market en)) (get_available_venues e en))"
proof (cases rule: route_order_cases [of e now od en])
  case (rejected reason en'')
  then show ?thesis using assms by (simp add: en_reject_def)
next
  case (accepted obj r en'')
  have "d = fst r" using accepted(7) assms(1) by (simp add: en_accept_def)
  then show ?thesis using accepted(1-5) that by blast
qed

text \<open>Each call is counted once, as routed when it returns slices and as rejected otherwise, and
  is reported by exactly one callback, if that callback is set.\<close>

lemma route_order_accounting:
  assumes "route_order e now od en = (d, evs, en')"
  shows "rs_routed (en_stats en') = (if d = [] then rs_routed (en_stats en) else u64 (rs_routed (en_stats en) + 1))"
    and "rs_rejected (en_stats en') = (if d = [] then u64 (rs_rejected (en_stats en) + 1) else rs_rejected (en_stats en))"
    and "rs_slices (en_stats en') = (if d = [] then rs_slices (en_stats en)
      else u64 (rs_slices (en_stats en) + int (length d)))"
    and "d \<noteq> [] \<Longrightarrow> evs = (if en_order_cb en then [EE_Order od] else [])"
    and "d = [] \<Longrightarrow> \<exists>reason. evs = (if en_reject_cb en then [EE_Reject od reason] else [])"
proof -
  have "rs_routed (en_stats en') = (if d = [] then rs_routed (en_stats en) else u64 (rs_routed (en_stats en) + 1)) \<and>
    rs_rejected (en_stats en') = (if d = [] then u64 (rs_rejected (en_stats en) + 1) else rs_rejected (en_stats en)) \<and>
    rs_slices (en_stats en') = (if d = [] then rs_slices (en_stats en)
      else u64 (rs_slices (en_stats en) + int (length d))) \<and>
    (d \<noteq> [] \<longrightarrow> evs = (if en_order_cb en then [EE_Order od] else [])) \<and>
    (d = [] \<longrightarrow> (\<exists>reason. evs = (if en_reject_cb en then [EE_Reject od reason] else [])))"
  proof (cases rule: route_order_cases [of e now od en])
    case (rejected reason en'')
    have "d = []" "evs = (if en_reject_cb en'' then [EE_Reject od reason] else [])"
      "en_stats en' = (en_stats en'')\<lparr>rs_rejected := u64 (rs_rejected (en_stats en'') + 1)\<rparr>"
      using rejected(1) assms by (auto simp: en_reject_def)
    then show ?thesis using rejected(2-4) by auto
  next
    case (accepted obj r en'')
    have "d = fst r" "evs = (if en_order_cb en'' then [EE_Order od] else [])"
      "en_stats en' = (en_stats en'')\<lparr>rs_routed := u64 (rs_routed (en_stats en'') + 1),
            rs_slices := u64 (rs_slices (en_stats en'') + int (length (fst r)))\<rparr>"
      using accepted(7) assms by (auto simp: en_accept_def)
    then show ?thesis using accepted(6,8-10) by simp
  qed
  then show "rs_routed (en_stats en') = (if d = [] then rs_routed (en_stats en) else u64 (rs_routed (en_stats en) + 1))"
    and "rs_rejected (en_stats en') = (if d = [] then u64 (rs_rejected (en_stats en) + 1) else rs_rejected (en_stats en))"
    and "rs_slices (en_stats en') = (if d = [] then rs_slices (en_stats en)
      else u64 (rs_slices (en_stats en) + int (length d)))"
    and "d \<noteq> [] \<Longrightarrow> evs = (if en_order_cb en then [EE_Order od] else [])"
    and "d = [] \<Longrightarrow> \<exists>reason. evs = (if en_reject_cb en then [EE_Reject od reason] else [])"
    by blast+
qed

text \<open>What an order that is routed has passed.\<close>

lemma routed_order_checked:
  assumes "route_order e now od en = (d, evs, en')" and "d \<noteq> []"
  shows "o_symbol od \<noteq> []" and "0 < o_quantity od" and "o_type od = OT_Limit \<Longrightarrow> 0 < o_price od"
    and "\<not> is_kill_switch_active (en_risk en)"
    and "fst (check_order (now div 1000000000) od (en_risk en)) = Passed"
    and "nbbo_valid (get_nbbo (o_symbol od) (en_market en))"
proof -
  obtain obj where r: "validate_order od = None"
    "fst (check_order (now div 1000000000) od (en_risk en)) = Passed"
    "nbbo_valid (get_nbbo (o_symbol od) (en_market en))"
    by (rule routed_obtains [OF assms])
  show "o_symbol od \<noteq> []" and "0 < o_quantity od" and "o_type od = OT_Limit \<Longrightarrow> 0 < o_price od"
    using r(1) by (auto simp: validate_order_def split: if_splits)
  show "fst (check_order (now div 1000000000) od (en_risk en)) = Passed"
    and "nbbo_valid (get_nbbo (o_symbol od) (en_market en))" by (fact r)+
  show "\<not> is_kill_switch_active (en_risk en)"
    using r(2) kill_switch_blocks [of "en_risk en" "now div 1000000000" od] by auto
qed

section \<open>The contract of the slices\<close>

fun obj_ok :: "strategy_obj \<Rightarrow> bool" where
  "obj_ok (S_Liquidity_Sweep minq) \<longleftrightarrow> 1 \<le> minq"
| "obj_ok _ \<longleftrightarrow> True"

fun obj_bounded :: "strategy_obj \<Rightarrow> bool" where
  "obj_bounded (S_VWAP st) \<longleftrightarrow> False"
| "obj_bounded _ \<longleftrightarrow> True"

lemma strategy_obj_bounded:
  assumes "route_env_ok e" and "obj_ok obj" and "obj_bounded obj"
  shows "bounded_strategy (\<lambda>od nb book vs. fst (strategy_route e now obj od nb book vs))"
proof (cases obj)
  case S_Best_Price
  then show ?thesis using best_price.bounded_strategy_axioms by simp
next
  case (S_Liquidity_Sweep minq)
  then show ?thesis
    using assms liquidity_sweep_contract [of minq "rv_slices e" "rv_allocs e"] by (simp add: route_env_ok_def)
next
  case (S_Smart_IOC ticks)
  then show ?thesis using assms smart_ioc_contract [of "rv_ioc e" ticks] by (simp add: route_env_ok_def)
qed (use assms in simp)

lemma strategy_obj_contract:
  assumes "route_env_ok e" and "obj_ok obj"
  shows "strategy_contract (\<lambda>od nb book vs. fst (strategy_route e now obj od nb book vs))"
proof (cases "obj_bounded obj")
  case True
  show ?thesis by (rule bounded_strategy.axioms(1) [OF strategy_obj_bounded [OF assms True]])
next
  case False
  then obtain st where "obj = S_VWAP st" by (cases obj) auto
  then show ?thesis using vwap_contract by (simp add: Let_def)
qed

text \<open>Every slice of a routed order goes, with a positive quantity, to an available venue of the
  engine and at a price that this venue displays on the other side of the book.\<close>

lemma routed_slices_ok:
  assumes "route_env_ok e" and "\<forall>obj \<in> ran (en_strategies en). obj_ok obj"
    and "route_order e now od en = (d, evs, en')" and "sl \<in> set d"
    and "book = get_aggregated_book (rv_tags e) (o_symbol od) (en_market en)"
  shows "0 < sl_quantity sl"
    and "offered (route_levels od book) (get_available_venues e en) (sl_venue sl) (sl_price sl)"
    and "\<exists>s \<in> snd ` set (en_scores en). vs_venue s = sl_venue sl \<and> vs_available s"
proof -
  have ne: "d \<noteq> []" using assms(4) by auto
  obtain obj where obj: "en_strategies en (o_strategy od) = Some obj"
    and d: "d = fst (strategy_route e now obj od (get_nbbo (o_symbol od) (en_market en)) book
      (get_available_venues e en))"
    unfolding assms(5) by (rule routed_obtains [OF assms(3) ne])
  have "obj_ok obj" using assms(2) obj by (auto simp: ran_def)
  note c = strategy_obj_contract [OF assms(1) this, of now]
  show "0 < sl_quantity sl" using strategy_contract.positive [OF c] assms(4) by (simp add: d)
  show off: "offered (route_levels od book) (get_available_venues e en) (sl_venue sl) (sl_price sl)"
    using strategy_contract.on_book [OF c] assms(4) by (simp add: d)
  have "set (rv_scores e (en_scores en)) = set (en_scores en)"
    using assms(1) by (intro any_order_set) (simp add: route_env_ok_def)
  then show "\<exists>s \<in> snd ` set (en_scores en). vs_venue s = sl_venue sl \<and> vs_available s"
    using off by (auto simp: offered_def get_available_venues_def)
qed

text \<open>With any strategy but VWAP, the slices never ask for more than the order has left.\<close>

lemma routed_total_bounded:
  assumes "route_env_ok e" and "\<forall>obj \<in> ran (en_strategies en). obj_ok obj \<and> obj_bounded obj"
    and "route_order e now od en = (d, evs, en')" and "d \<noteq> []"
  shows "0 < total_quantity d" and "total_quantity d \<le> leaves_qty od" and "slices_sum d = total_quantity d"
proof -
  obtain obj where obj: "en_strategies en (o_strategy od) = Some obj"
    and d: "d = fst (strategy_route e now obj od (get_nbbo (o_symbol od) (en_market en))
      (get_aggregated_book (rv_tags e) (o_symbol od) (en_market en)) (get_available_venues e en))"
    by (rule routed_obtains [OF assms(3,4)])
  have "obj_ok obj" "obj_bounded obj" using assms(2) obj by (auto simp: ran_def)
  note c = strategy_obj_bounded [OF assms(1) this, of now]
  note sc = bounded_strategy.axioms(1) [OF c]
  have pos: "\<forall>s \<in> set d. 0 < sl_quantity s" using strategy_contract.positive [OF sc] by (simp add: d)
  have le: "slices_sum d \<le> max 0 (leaves_qty od)" using bounded_strategy.bounded [OF c] by (simp add: d)
  obtain s d' where sd: "d = s # d'" using assms(4) by (cases d) auto
  have "0 \<le> slices_sum d'"
    unfolding slices_sum_def using pos sd by (intro sum_list_nonneg_map) (auto intro: less_imp_le)
  then have sp: "0 < slices_sum d" using pos sd by simp
  have "total_quantity d = slices_sum d"
    using pos le leaves_qty_small [of od] by (intro total_quantity_exact) (auto intro: less_imp_le)
  then show "0 < total_quantity d" and "total_quantity d \<le> leaves_qty od" and "slices_sum d = total_quantity d"
    using sp le by simp_all
qed

section \<open>Limit prices\<close>

text \<open>
  No strategy reads the order's limit price: two orders that differ only in it get the same
  slices, at prices the market gives.
\<close>

lemma price_update [simp]:
  "leaves_qty (od\<lparr>o_price := p\<rparr>) = leaves_qty od" "route_levels (od\<lparr>o_price := p\<rparr>) book = route_levels od book"
  by (simp_all add: leaves_qty_def route_levels_def)

lemma limit_price_ignored:
  "strategy_route e now obj (od\<lparr>o_price := p\<rparr>) nb book vs = strategy_route e now obj od nb book vs"
proof (cases obj)
  case (S_VWAP st)
  have "get_next_slice now (od\<lparr>o_price := p\<rparr>) nb book vs st = get_next_slice now od nb book vs st" for st
    by (simp add: get_next_slice_def Let_def)
  then have "vwap_route now (od\<lparr>o_price := p\<rparr>) nb book vs st = vwap_route now od nb book vs st"
    by (simp add: vwap_route_def)
  then show ?thesis by (simp add: S_VWAP)
qed (simp_all add: best_price_route_def liquidity_sweep_route_def smart_ioc_route_def try_fok_def
    sweep_ioc_def Let_def split: option.split)

section \<open>Properties\<close>

text \<open>An engine with one venue that shows one bid and one ask, for the witnesses.\<close>

definition demo_book :: order_book where
  "demo_book = \<lparr>ob_symbol = ''A'', ob_venue = 1,
     ob_bids = \<lparr>bs_array = [sample_level 9900 10], bs_depth = 1\<rparr>,
     ob_asks = \<lparr>bs_array = [sample_level 10000 50], bs_depth = 1\<rparr>, ob_last_update = 1, ob_sequence = 1\<rparr>"

definition demo_engine :: engine where
  "demo_engine =
     \<lparr>en_market = \<lparr>ag_books = [1 \<mapsto> [''A'' \<mapsto> demo_book]], ag_nbbo = [''A'' \<mapsto> small_nbbo],
        ag_venues = [1], ag_callback = False\<rparr>,
      en_risk = rm_new 0, en_strategies = [BestPrice \<mapsto> S_Best_Price], en_scores = [(1, small_score 1)],
      en_order_cb = True, en_reject_cb = True,
      en_stats = \<lparr>rs_routed = 0, rs_rejected = 0, rs_slices = 0\<rparr>\<rparr>"

definition demo_env :: route_env where
  "demo_env = \<lparr>rv_scores = (\<lambda>xs. xs), rv_allocs = (\<lambda>xs. xs), rv_slices = sort_by, rv_ioc = plain_env,
     rv_tags = sort_by\<rparr>"

lemma demo_env_ok: "route_env_ok demo_env"
  by (simp add: route_env_ok_def demo_env_def any_order_def std_sort_by plain_env_ok)

lemma demo_env_tags [simp]: "rv_tags demo_env = sort_by"
  by (simp add: demo_env_def)

definition demo_slice :: slice where
  "demo_slice = \<lparr>sl_venue = 1, sl_price = 10000, sl_quantity = 40, sl_type = OT_Limit, sl_tif = TIF_GTC\<rparr>"

lemma demo_market: "get_nbbo ''A'' (en_market demo_engine) = small_nbbo"
  "get_aggregated_book sort_by ''A'' (en_market demo_engine) =
     \<lparr>ab_symbol = ''A'', ab_nbbo = small_nbbo,
      ab_bids = [\<lparr>al_price = 9900, al_total = 10, al_breakdown = [\<lparr>vq_venue = 1, vq_quantity = 10\<rparr>]\<rparr>],
      ab_asks = [\<lparr>al_price = 10000, al_total = 50, al_breakdown = [\<lparr>vq_venue = 1, vq_quantity = 50\<rparr>]\<rparr>]\<rparr>"
  by (simp_all add: demo_engine_def get_nbbo_def get_aggregated_book_def build_aggregated_book_def
      collect_levels_def get_venue_book_def demo_book_def tag_levels_def sample_level_def level_valid_def
      INVALID_PRICE_def sort_by_def MAX_DEPTH_def add_venue_def MAX_VENUES_def i64_small Let_def)

lemma demo_check: "fst (check_order 0 (buy_order 40) (en_risk demo_engine)) = Passed"
  by (simp add: demo_engine_def check_order_verdict rm_new_def default_limits_def is_kill_switch_active_def
      ks_is_active_def ks_new_def check_limits_def Let_def)

lemma demo_order [simp]: "o_symbol (buy_order q) = ''A''" "o_price (buy_order q) = 10100"
  "o_type (buy_order q) = OT_Limit" "o_tif (buy_order q) = TIF_GTC" "o_strategy (buy_order q) = BestPrice"
  by (simp_all add: buy_order_def default_order_def)

lemma demo_best_price:
  assumes "o_side od = Buy" and "leaves_qty od = 40" and "o_type od = OT_Limit" and "o_tif od = TIF_GTC"
  shows "best_price_route od small_nbbo (get_aggregated_book sort_by ''A'' (en_market demo_engine)) [small_score 1] =
    [demo_slice]"
proof -
  have "find_score [small_score 1] 1 = Some (small_score 1)" by (simp add: find_score_def small_score_def)
  then show ?thesis
    using assms
    by (simp add: best_price_route_def demo_market route_levels_def bp_level_def bp_visit_def
        level_usable_def INVALID_PRICE_def demo_slice_def Let_def)
qed

lemma demo_routed:
  "fst (route_order demo_env 0 (buy_order 40) demo_engine) = [demo_slice]"
proof -
  define en where "en = demo_engine\<lparr>en_risk := snd (check_order 0 (buy_order 40) (en_risk demo_engine))\<rparr>"
  have en: "en_market en = en_market demo_engine" "en_strategies en BestPrice = Some S_Best_Price"
    "get_available_venues demo_env en = [small_score 1]"
    by (simp_all add: en_def demo_engine_def get_available_venues_def demo_env_def small_score_def)
  have "fst (route_order demo_env 0 (buy_order 40) demo_engine) =
      fst (dispatch_order demo_env 0 (buy_order 40) small_nbbo en)"
    by (simp add: route_order_def validate_order_def demo_check demo_market(1) en_def [symmetric] en(1) Let_def)
  also have "\<dots> = [demo_slice]"
    by (simp add: dispatch_order_def en demo_best_price decision_valid_def en_accept_def Let_def
        del: One_nat_def)
  finally show ?thesis .
qed

text \<open>
  C1: whenever the engine returns slices for an order, the order named a symbol, had a positive
  quantity and, as a limit order, a positive price; the kill switch was off and the risk check
  passed; and every slice has a positive quantity and goes to an available venue of the engine at
  a price and on a usable level that this venue displays on the opposite side of the book.
\<close>

theorem routed_order_is_safe:
  assumes "route_env_ok e" and "\<forall>obj \<in> ran (en_strategies en). obj_ok obj"
    and "route_order e now od en = (d, evs, en')" and "sl \<in> set d"
    and "book = get_aggregated_book (rv_tags e) (o_symbol od) (en_market en)"
  shows "o_symbol od \<noteq> [] \<and> 0 < o_quantity od \<and> (o_type od = OT_Limit \<longrightarrow> 0 < o_price od) \<and>
    \<not> is_kill_switch_active (en_risk en) \<and>
    fst (check_order (now div 1000000000) od (en_risk en)) = Passed \<and>
    0 < sl_quantity sl \<and>
    offered (route_levels od book) (get_available_venues e en) (sl_venue sl) (sl_price sl) \<and>
    (\<exists>s \<in> snd ` set (en_scores en). vs_venue s = sl_venue sl \<and> vs_available s)"
proof -
  have "d \<noteq> []" using assms(4) by auto
  then show ?thesis using routed_order_checked [OF assms(3)] routed_slices_ok [OF assms] by blast
qed

theorem routed_order_is_safe_witness:
  "offered (route_levels (buy_order 40) (get_aggregated_book sort_by ''A'' (en_market demo_engine)))
     (get_available_venues demo_env demo_engine) 1 10000"
proof -
  obtain d evs en' where r: "route_order demo_env 0 (buy_order 40) demo_engine = (d, evs, en')"
    by (cases "route_order demo_env 0 (buy_order 40) demo_engine") auto
  then have "demo_slice \<in> set d" using demo_routed by simp
  moreover have "\<forall>obj \<in> ran (en_strategies demo_engine). obj_ok obj"
    by (simp add: demo_engine_def ran_def split: if_splits)
  ultimately show ?thesis
    using routed_order_is_safe [OF demo_env_ok _ r _ refl, of demo_slice]
    by (simp add: demo_slice_def)
qed

text \<open>
  with the best-price, liquidity-sweep and smart-IOC strategies, the slices of a routed order
  together ask for something and never for more than the order has left; the total computed in
  64 bits by \<open>total_quantity\<close> does not overflow.
\<close>

theorem routed_total_within_leaves:
  assumes "route_env_ok e" and "\<forall>obj \<in> ran (en_strategies en). obj_ok obj \<and> obj_bounded obj"
    and "route_order e now od en = (d, evs, en')" and "d \<noteq> []"
  shows "0 < total_quantity d \<and> total_quantity d \<le> leaves_qty od"
  using routed_total_bounded [OF assms] by blast

theorem routed_total_within_leaves_witness:
  "0 < total_quantity [demo_slice] \<and> total_quantity [demo_slice] \<le> 40"
proof -
  obtain d evs en' where r: "route_order demo_env 0 (buy_order 40) demo_engine = (d, evs, en')"
    by (cases "route_order demo_env 0 (buy_order 40) demo_engine") auto
  then have "d = [demo_slice]" using demo_routed by simp
  moreover have "\<forall>obj \<in> ran (en_strategies demo_engine). obj_ok obj \<and> obj_bounded obj"
    by (simp add: demo_engine_def ran_def split: if_splits)
  ultimately show ?thesis using routed_total_within_leaves [OF demo_env_ok _ r] by simp
qed

text \<open>
  every call of \<open>route_order\<close> is counted exactly once, as routed (with its slices) when it
  returns slices and as rejected otherwise, and makes exactly the one matching callback, if set.
\<close>

theorem every_order_accounted:
  assumes "route_order e now od en = (d, evs, en')"
  shows "rs_routed (en_stats en') = (if d = [] then rs_routed (en_stats en) else u64 (rs_routed (en_stats en) + 1)) \<and>
    rs_rejected (en_stats en') = (if d = [] then u64 (rs_rejected (en_stats en) + 1) else rs_rejected (en_stats en)) \<and>
    rs_slices (en_stats en') = (if d = [] then rs_slices (en_stats en)
      else u64 (rs_slices (en_stats en) + int (length d))) \<and>
    (\<exists>reason. evs = (if d \<noteq> [] then (if en_order_cb en then [EE_Order od] else [])
      else (if en_reject_cb en then [EE_Reject od reason] else [])))"
  using route_order_accounting [OF assms] by (cases "d = []") auto

theorem every_order_accounted_witness:
  "rs_routed (en_stats (snd (snd (route_order demo_env 0 (buy_order 40) demo_engine)))) = 1"
proof -
  obtain d evs en' where r: "route_order demo_env 0 (buy_order 40) demo_engine = (d, evs, en')"
    by (cases "route_order demo_env 0 (buy_order 40) demo_engine") auto
  then have "d \<noteq> []" using demo_routed by simp
  then show ?thesis using every_order_accounted [OF r] r by (simp add: demo_engine_def uwrap_def)
qed

text \<open>
  no strategy looks at the limit price: an order with any other limit gets the very same
  slices, so a buy order can be sent out at prices above its limit.
\<close>

theorem limit_price_not_respected:
  "strategy_route e now obj (od\<lparr>o_price := p\<rparr>) nb book vs = strategy_route e now obj od nb book vs"
  by (rule limit_price_ignored)

theorem limit_price_not_respected_witness:
  "fst (strategy_route demo_env 0 S_Best_Price ((buy_order 40)\<lparr>o_price := 1\<rparr>) small_nbbo
     (get_aggregated_book sort_by ''A'' (en_market demo_engine)) [small_score 1]) = [demo_slice] \<and>
   sl_price demo_slice = 10000"
  using limit_price_not_respected [where e = demo_env and now = 0 and obj = S_Best_Price
      and od = "buy_order 40" and p = 1 and nb = small_nbbo and vs = "[small_score 1]"
      and book = "get_aggregated_book sort_by ''A'' (en_market demo_engine)"]
  by (simp add: demo_best_price del: One_nat_def) (simp add: demo_slice_def)

end
