(* ===== verification/Order_State_Machine.thy ===== *)
theory Order_State_Machine
  imports Core_Types
begin

text \<open>
  The order life cycle, from \<open>state/order_state_machine.h\<close> and
  \<open>state/order_state_machine.cpp\<close>.

  The table is built as the code builds it: ten rows of ten cells filled with
  \<open>INVALID_STATE\<close> (255) and then written by \<open>set\<close> in the order of the source. States and
  events are the codes of their enumerators, since the API takes any \<open>uint8_t\<close> and rejects
  codes outside the table. \<open>life_step\<close> is the abstract life cycle as a relation, one rule
  per phase, and \<open>osm_apply_iff\<close> shows that the table implements exactly it. The lemmas
  below it give absorption of the terminal states, progress, and the fact that an order
  cannot be filled without having been acknowledged.
\<close>

datatype order_event =
    Submit | Acknowledge | PartialFill | Fill | RequestCancel
  | CancelAck | Reject | Expire | RequestReplace | ReplaceAck

definition INVALID_STATE :: nat where "INVALID_STATE = 255"
definition NUM_ORDER_STATES :: nat where "NUM_ORDER_STATES = 10"
definition NUM_ORDER_EVENTS :: nat where "NUM_ORDER_EVENTS = 10"

fun state_code :: "order_state \<Rightarrow> nat" where
  "state_code New = 0"
| "state_code PendingNew = 1"
| "state_code Accepted = 2"
| "state_code PartiallyFilled = 3"
| "state_code Filled = 4"
| "state_code PendingCancel = 5"
| "state_code Canceled = 6"
| "state_code Rejected = 7"
| "state_code Expired = 8"
| "state_code PendingReplace = 9"

fun event_code :: "order_event \<Rightarrow> nat" where
  "event_code Submit = 0"
| "event_code Acknowledge = 1"
| "event_code PartialFill = 2"
| "event_code Fill = 3"
| "event_code RequestCancel = 4"
| "event_code CancelAck = 5"
| "event_code Reject = 6"
| "event_code Expire = 7"
| "event_code RequestReplace = 8"
| "event_code ReplaceAck = 9"

definition all_states :: "order_state list" where
  "all_states = [New, PendingNew, Accepted, PartiallyFilled, Filled,
     PendingCancel, Canceled, Rejected, Expired, PendingReplace]"

definition all_events :: "order_event list" where
  "all_events = [Submit, Acknowledge, PartialFill, Fill, RequestCancel,
     CancelAck, Reject, Expire, RequestReplace, ReplaceAck]"

definition state_of_code :: "nat \<Rightarrow> order_state option" where
  "state_of_code c = (if c < NUM_ORDER_STATES then Some (all_states ! c) else None)"

type_synonym transition_table = "nat list list"

definition tt_set ::
  "order_state \<times> order_event \<times> order_state \<Rightarrow> transition_table \<Rightarrow> transition_table" where
  "tt_set = (\<lambda>(from, event, to) t.
     t[state_code from := (t ! state_code from)[event_code event := state_code to]])"

definition build_transition_table :: transition_table where
  "build_transition_table = fold tt_set
     [(New, Submit, PendingNew),
      (PendingNew, Acknowledge, Accepted),
      (PendingNew, Reject, Rejected),
      (Accepted, PartialFill, PartiallyFilled),
      (Accepted, Fill, Filled),
      (Accepted, RequestCancel, PendingCancel),
      (Accepted, Expire, Expired),
      (Accepted, RequestReplace, PendingReplace),
      (Accepted, Reject, Rejected),
      (PartiallyFilled, PartialFill, PartiallyFilled),
      (PartiallyFilled, Fill, Filled),
      (PartiallyFilled, RequestCancel, PendingCancel),
      (PartiallyFilled, Expire, Expired),
      (PendingCancel, CancelAck, Canceled),
      (PendingCancel, Fill, Filled),
      (PendingCancel, PartialFill, PendingCancel),
      (PendingCancel, Reject, Accepted),
      (PendingReplace, ReplaceAck, Accepted),
      (PendingReplace, Reject, Accepted),
      (PendingReplace, Fill, Filled)]
     (replicate NUM_ORDER_STATES (replicate NUM_ORDER_EVENTS INVALID_STATE))"

definition is_valid_transition :: "nat \<Rightarrow> nat \<Rightarrow> bool" where
  "is_valid_transition fi ei =
     (if fi \<ge> NUM_ORDER_STATES \<or> ei \<ge> NUM_ORDER_EVENTS then False
      else build_transition_table ! fi ! ei \<noteq> INVALID_STATE)"

definition apply_code :: "nat \<Rightarrow> nat \<Rightarrow> nat option" where
  "apply_code fi ei =
     (if fi \<ge> NUM_ORDER_STATES \<or> ei \<ge> NUM_ORDER_EVENTS then None
      else let next_s = build_transition_table ! fi ! ei
           in if next_s = INVALID_STATE then None else Some next_s)"

definition osm_apply :: "order_state \<Rightarrow> order_event \<Rightarrow> order_state option" where
  "osm_apply s e = Option.bind (apply_code (state_code s) (event_code e)) state_of_code"

definition osm_apply_order :: "timestamp \<Rightarrow> order_event \<Rightarrow> order \<Rightarrow> bool \<times> order" where
  "osm_apply_order now e od =
     (case osm_apply (o_state od) e of
        None \<Rightarrow> (False, od)
      | Some s \<Rightarrow> (True, od\<lparr>o_state := s, o_version := u32 (o_version od + 1),
                            o_last_update_time := now\<rparr>))"

definition valid_events :: "nat \<Rightarrow> nat list" where
  "valid_events si =
     (if si \<ge> NUM_ORDER_STATES then []
      else filter (\<lambda>e. build_transition_table ! si ! e \<noteq> INVALID_STATE) [0..<NUM_ORDER_EVENTS])"

definition state_to_string :: "nat \<Rightarrow> string" where
  "state_to_string idx =
     (if idx < NUM_ORDER_STATES
      then [''New'', ''PendingNew'', ''Accepted'', ''PartiallyFilled'', ''Filled'',
            ''PendingCancel'', ''Canceled'', ''Rejected'', ''Expired'', ''PendingReplace''] ! idx
      else ''Unknown'')"

definition event_to_string :: "nat \<Rightarrow> string" where
  "event_to_string idx =
     (if idx < NUM_ORDER_EVENTS
      then [''Submit'', ''Acknowledge'', ''PartialFill'', ''Fill'', ''RequestCancel'',
            ''CancelAck'', ''Reject'', ''Expire'', ''RequestReplace'', ''ReplaceAck''] ! idx
      else ''Unknown'')"

section \<open>The abstract life cycle\<close>

text \<open>
  An order is live on the venue in the states \<open>Accepted\<close>, \<open>PartiallyFilled\<close>,
  \<open>PendingCancel\<close> and \<open>PendingReplace\<close>.
\<close>

definition live :: "order_state \<Rightarrow> bool" where
  "live s \<longleftrightarrow> s \<in> {Accepted, PartiallyFilled, PendingCancel, PendingReplace}"

inductive life_step :: "order_state \<Rightarrow> order_event \<Rightarrow> order_state \<Rightarrow> bool" where
  submit: "life_step New Submit PendingNew"
| ack: "life_step PendingNew Acknowledge Accepted"
| refuse: "s \<in> {PendingNew, Accepted} \<Longrightarrow> life_step s Reject Rejected"
| partial: "s \<in> {Accepted, PartiallyFilled} \<Longrightarrow> life_step s PartialFill PartiallyFilled"
| partial_in_cancel: "life_step PendingCancel PartialFill PendingCancel"
| fill: "live s \<Longrightarrow> life_step s Fill Filled"
| cancel: "s \<in> {Accepted, PartiallyFilled} \<Longrightarrow> life_step s RequestCancel PendingCancel"
| canceled: "life_step PendingCancel CancelAck Canceled"
| expire: "s \<in> {Accepted, PartiallyFilled} \<Longrightarrow> life_step s Expire Expired"
| replace: "life_step Accepted RequestReplace PendingReplace"
| replaced: "life_step PendingReplace ReplaceAck Accepted"
| revert: "s \<in> {PendingCancel, PendingReplace} \<Longrightarrow> life_step s Reject Accepted"

inductive life_run :: "order_state \<Rightarrow> order_event list \<Rightarrow> order_state \<Rightarrow> bool" where
  stop: "life_run s [] s"
| more: "life_step s e t \<Longrightarrow> life_run t es u \<Longrightarrow> life_run s (e # es) u"

fun osm_run :: "order_state \<Rightarrow> order_event list \<Rightarrow> order_state option" where
  "osm_run s [] = Some s"
| "osm_run s (e # es) = (case osm_apply s e of None \<Rightarrow> None | Some t \<Rightarrow> osm_run t es)"

definition osm_step :: "timestamp \<times> order_event \<Rightarrow> order \<Rightarrow> order" where
  "osm_step = (\<lambda>(now, e) od. snd (osm_apply_order now e od))"

inductive_cases life_stepE [elim!]: "life_step s e t"
inductive_simps life_run_Nil [simp]: "life_run s [] t"
inductive_simps life_run_Cons [simp]: "life_run s (e # es) u"

section \<open>The table implements the life cycle\<close>

lemmas table_defs = INVALID_STATE_def NUM_ORDER_STATES_def NUM_ORDER_EVENTS_def

lemma build_transition_table_value:
  "build_transition_table =
    [[1, 255, 255, 255, 255, 255, 255, 255, 255, 255],
     [255, 2, 255, 255, 255, 255, 7, 255, 255, 255],
     [255, 255, 3, 4, 5, 255, 7, 8, 9, 255],
     [255, 255, 3, 4, 5, 255, 255, 8, 255, 255],
     [255, 255, 255, 255, 255, 255, 255, 255, 255, 255],
     [255, 255, 5, 4, 255, 6, 2, 255, 255, 255],
     [255, 255, 255, 255, 255, 255, 255, 255, 255, 255],
     [255, 255, 255, 255, 255, 255, 255, 255, 255, 255],
     [255, 255, 255, 255, 255, 255, 255, 255, 255, 255],
     [255, 255, 255, 4, 255, 255, 2, 255, 255, 2]]"
  by (simp add: build_transition_table_def tt_set_def table_defs replicate_numeral')

lemma table_rows:
  "build_transition_table ! 0 = [1, 255, 255, 255, 255, 255, 255, 255, 255, 255]"
  "build_transition_table ! Suc 0 = [255, 2, 255, 255, 255, 255, 7, 255, 255, 255]"
  "build_transition_table ! 2 = [255, 255, 3, 4, 5, 255, 7, 8, 9, 255]"
  "build_transition_table ! 3 = [255, 255, 3, 4, 5, 255, 255, 8, 255, 255]"
  "build_transition_table ! 4 = replicate 10 255"
  "build_transition_table ! 5 = [255, 255, 5, 4, 255, 6, 2, 255, 255, 255]"
  "build_transition_table ! 6 = replicate 10 255"
  "build_transition_table ! 7 = replicate 10 255"
  "build_transition_table ! 8 = replicate 10 255"
  "build_transition_table ! 9 = [255, 255, 255, 4, 255, 255, 2, 255, 255, 2]"
  by (simp_all add: build_transition_table_value replicate_numeral')

lemma state_code_bound [simp]: "state_code s < NUM_ORDER_STATES"
  by (cases s) (simp_all add: table_defs)

lemma event_code_bound [simp]: "event_code e < NUM_ORDER_EVENTS"
  by (cases e) (simp_all add: table_defs)

lemma state_of_code_code [simp]: "state_of_code (state_code s) = Some s"
  by (cases s) (simp_all add: state_of_code_def all_states_def table_defs)

lemma state_code_inject [simp]: "state_code s = state_code t \<longleftrightarrow> s = t"
  by (metis option.inject state_of_code_code)

lemma osm_apply_table:
  "osm_apply s e = Option.bind
     (let c = build_transition_table ! state_code s ! event_code e
      in if c = INVALID_STATE then None else Some c) state_of_code"
  using state_code_bound [of s] event_code_bound [of e]
  by (simp add: osm_apply_def apply_code_def not_le [symmetric])

lemma osm_apply_eq:
  "osm_apply s e =
    (case (s, e) of
       (New, Submit) \<Rightarrow> Some PendingNew
     | (PendingNew, Acknowledge) \<Rightarrow> Some Accepted
     | (PendingNew, Reject) \<Rightarrow> Some Rejected
     | (Accepted, PartialFill) \<Rightarrow> Some PartiallyFilled
     | (Accepted, Fill) \<Rightarrow> Some Filled
     | (Accepted, RequestCancel) \<Rightarrow> Some PendingCancel
     | (Accepted, Expire) \<Rightarrow> Some Expired
     | (Accepted, RequestReplace) \<Rightarrow> Some PendingReplace
     | (Accepted, Reject) \<Rightarrow> Some Rejected
     | (PartiallyFilled, PartialFill) \<Rightarrow> Some PartiallyFilled
     | (PartiallyFilled, Fill) \<Rightarrow> Some Filled
     | (PartiallyFilled, RequestCancel) \<Rightarrow> Some PendingCancel
     | (PartiallyFilled, Expire) \<Rightarrow> Some Expired
     | (PendingCancel, CancelAck) \<Rightarrow> Some Canceled
     | (PendingCancel, Fill) \<Rightarrow> Some Filled
     | (PendingCancel, PartialFill) \<Rightarrow> Some PendingCancel
     | (PendingCancel, Reject) \<Rightarrow> Some Accepted
     | (PendingReplace, ReplaceAck) \<Rightarrow> Some Accepted
     | (PendingReplace, Reject) \<Rightarrow> Some Accepted
     | (PendingReplace, Fill) \<Rightarrow> Some Filled
     | _ \<Rightarrow> None)"
  by (cases s; cases e)
     (simp_all add: osm_apply_table table_rows replicate_numeral' state_of_code_def all_states_def
        table_defs)

lemma osm_apply_iff: "osm_apply s e = Some t \<longleftrightarrow> life_step s e t"
  by (cases s; cases e) (auto simp: osm_apply_eq live_def intro: life_step.intros)

lemma valid_cell_iff:
  "build_transition_table ! state_code s ! event_code e \<noteq> INVALID_STATE \<longleftrightarrow> (\<exists>t. osm_apply s e = Some t)"
  by (cases s; cases e)
     (simp_all add: osm_apply_table table_rows replicate_numeral' state_of_code_def all_states_def
        table_defs)

lemma is_valid_transition_iff:
  "is_valid_transition (state_code s) (event_code e) \<longleftrightarrow> (\<exists>t. osm_apply s e = Some t)"
  using state_code_bound [of s] event_code_bound [of e]
  by (simp add: is_valid_transition_def valid_cell_iff not_le [symmetric])

lemma valid_events_iff:
  "event_code e \<in> set (valid_events (state_code s)) \<longleftrightarrow> (\<exists>t. osm_apply s e = Some t)"
  using state_code_bound [of s] event_code_bound [of e]
  by (simp add: valid_events_def valid_cell_iff not_le [symmetric])

lemma osm_run_iff: "osm_run s es = Some t \<longleftrightarrow> life_run s es t"
  by (induction es arbitrary: s) (auto split: option.splits simp: osm_apply_iff [symmetric])

section \<open>Consequences\<close>

lemma terminal_absorbs: "terminal_state s \<Longrightarrow> osm_apply s e = None"
  by (cases s; cases e) (simp_all add: osm_apply_eq)

lemma osm_apply_not_New: "osm_apply s e \<noteq> Some New"
  by (cases s; cases e) (simp_all add: osm_apply_eq)

lemma osm_step_terminal: "terminal_state (o_state od) \<Longrightarrow> osm_step c od = od"
  by (cases c) (simp add: osm_step_def osm_apply_order_def terminal_absorbs)

lemma osm_run_terminal: "terminal_state (o_state od) \<Longrightarrow> run osm_step cs od = od"
  by (induction cs) (simp_all add: osm_step_terminal)

text \<open>Every order that is not terminal can still be brought to a terminal state.\<close>

definition escape :: "order_state \<Rightarrow> order_event list" where
  "escape s = (case s of New \<Rightarrow> [Submit, Reject] | PendingNew \<Rightarrow> [Reject]
     | Accepted \<Rightarrow> [Fill] | PartiallyFilled \<Rightarrow> [Fill] | PendingCancel \<Rightarrow> [Fill]
     | PendingReplace \<Rightarrow> [Fill] | _ \<Rightarrow> [])"

lemma escape_terminal: "\<exists>t. osm_run s (escape s) = Some t \<and> terminal_state t"
  by (cases s) (simp_all add: escape_def osm_apply_eq)

lemma terminal_iff_stuck: "terminal_state s \<longleftrightarrow> (\<forall>e. osm_apply s e = None)"
proof
  assume stuck: "\<forall>e. osm_apply s e = None"
  obtain t where "osm_run s (escape s) = Some t" and "terminal_state t"
    using escape_terminal by blast
  with stuck show "terminal_state s" by (cases "escape s") auto
qed (simp add: terminal_absorbs)

text \<open>An order becomes live only through an acknowledgement.\<close>

lemma life_run_live_acked:
  "life_run s es t \<Longrightarrow> s \<in> {New, PendingNew} \<Longrightarrow>
   t = Filled \<or> t = Canceled \<or> t = Expired \<or> live t \<Longrightarrow> Acknowledge \<in> set es"
proof (induction rule: life_run.induct)
  case (stop s)
  then show ?case by (auto simp: live_def)
next
  case (more s e t es u)
  have "e = Acknowledge \<or> t \<in> {New, PendingNew} \<or> t = Rejected"
    using more.hyps(1) more.prems(1) by (auto simp: live_def)
  moreover have "u = Rejected" if "t = Rejected"
    using more.hyps(2) that by (cases es) (auto simp: live_def)
  ultimately show ?case using more.IH more.prems by (auto simp: live_def)
qed

text \<open>The version of an order counts the transitions that were applied.\<close>

fun applied :: "order_state \<Rightarrow> order_event list \<Rightarrow> nat" where
  "applied s [] = 0"
| "applied s (e # es) =
     (case osm_apply s e of None \<Rightarrow> applied s es | Some t \<Rightarrow> Suc (applied t es))"

lemma osm_run_version:
  "in_u32 (o_version od) \<Longrightarrow>
   o_version (run osm_step cs od) = u32 (o_version od + int (applied (o_state od) (map snd cs)))"
proof (induction cs arbitrary: od)
  case Nil
  then show ?case by (simp add: uwrap_id)
next
  case (Cons c cs)
  obtain now e where c: "c = (now, e)" by fastforce
  show ?case
  proof (cases "osm_apply (o_state od) e")
    case None
    then show ?thesis using Cons by (simp add: c osm_step_def osm_apply_order_def)
  next
    case (Some s)
    then show ?thesis
      using Cons.IH [of "osm_step c od"]
      by (simp add: c osm_step_def osm_apply_order_def uwrap_def in_urange_def mod_simps ac_simps)
  qed
qed

lemma state_to_string_inject:
  "state_to_string (state_code s) = state_to_string (state_code t) \<longleftrightarrow> s = t"
  by (cases s; cases t) (simp_all add: state_to_string_def table_defs)

section \<open>Properties\<close>


text \<open>
  a state is terminal exactly when no event leads out of it, and every other state can still
  reach a terminal one; an order in a terminal state is never changed again by any sequence of
  events.
\<close>

theorem terminal_states_absorb:
  "(terminal_state s \<longleftrightarrow> (\<forall>e. osm_apply s e = None)) \<and>
   (\<exists>es t. osm_run s es = Some t \<and> terminal_state t) \<and>
   (terminal_state (o_state od) \<longrightarrow> run osm_step cs od = od)"
  using terminal_iff_stuck [of s] escape_terminal [of s] osm_run_terminal [of od cs] by blast

theorem terminal_states_absorb_witness:
  "run osm_step [(1, Fill), (2, RequestCancel)] (default_order\<lparr>o_state := Canceled\<rparr>) =
     default_order\<lparr>o_state := Canceled\<rparr>"
  using terminal_states_absorb [of Canceled "default_order\<lparr>o_state := Canceled\<rparr>"
      "[(1, Fill), (2, RequestCancel)]"] by simp

text \<open>
  an order that starts as \<open>New\<close> or \<open>PendingNew\<close> cannot become live on the venue, be filled,
  canceled or expire without the \<open>Acknowledge\<close> event having been applied.
\<close>

theorem no_fill_before_acknowledge:
  assumes "osm_run s es = Some t" and "s \<in> {New, PendingNew}"
    and "t = Filled \<or> t = Canceled \<or> t = Expired \<or> live t"
  shows "Acknowledge \<in> set es"
  using assms life_run_live_acked by (metis osm_run_iff)

theorem no_fill_before_acknowledge_witness:
  "osm_run New [Submit, Acknowledge, PartialFill, Fill] = Some Filled \<and>
   Acknowledge \<in> set [Submit, Acknowledge, PartialFill, Fill]"
proof -
  have "osm_run New [Submit, Acknowledge, PartialFill, Fill] = Some Filled"
    by (simp add: osm_apply_eq)
  with no_fill_before_acknowledge [OF this] show ?thesis by blast
qed

end
