(* ===== verification/Execution_Handler.thy ===== *)
theory Execution_Handler
  imports Order_State_Machine
begin

text \<open>
  The execution handler, from \<open>execution/execution_handler.h\<close> and
  \<open>execution/execution_handler.cpp\<close>: parent and child orders, execution reports, the
  propagation of fills to parents and the callbacks.

  Orders live in one map, as in the code; references into it are lookups, repeated after
  every write, so that an order that is its own parent behaves as in C++. The three deferred
  callbacks are the events \<open>on_execution_report\<close> returns, in the order they are run.
  The invariant \<open>eh_inv\<close> relates a parent to its children: what it reports as filled is the
  sum of what they have filled.
\<close>

record eh_stats =
  es_total_fills :: int
  es_total_partial_fills :: int
  es_total_rejects :: int
  es_total_cancels :: int
  es_reroutes :: int

record exec_handler =
  eh_orders :: "order_id \<rightharpoonup> order"
  eh_children :: "order_id \<rightharpoonup> order_id list"
  eh_parent :: "order_id \<rightharpoonup> order_id"
  eh_fill_cb :: bool
  eh_completion_cb :: bool
  eh_reroute_cb :: bool
  eh_stats :: eh_stats

definition eh_new :: exec_handler where
  "eh_new = \<lparr>eh_orders = Map.empty, eh_children = Map.empty, eh_parent = Map.empty,
     eh_fill_cb = False, eh_completion_cb = False, eh_reroute_cb = False,
     eh_stats = \<lparr>es_total_fills = 0, es_total_partial_fills = 0, es_total_rejects = 0,
                 es_total_cancels = 0, es_reroutes = 0\<rparr>\<rparr>"

datatype eh_event =
    EV_Fill order execution_report
  | EV_Reroute order
  | EV_Complete order

definition eh_put :: "order_id \<Rightarrow> order \<Rightarrow> exec_handler \<Rightarrow> exec_handler" where
  "eh_put k od st = st\<lparr>eh_orders := (eh_orders st)(k \<mapsto> od)\<rparr>"

section \<open>Tracking\<close>

definition track_order :: "order \<Rightarrow> exec_handler \<Rightarrow> exec_handler" where
  "track_order p st =
     (let st1 = eh_put (o_id p) p st
      in if eh_children st1 (o_id p) = None
         then st1\<lparr>eh_children := (eh_children st1)(o_id p \<mapsto> [])\<rparr> else st1)"

definition track_child_order :: "order_id \<Rightarrow> order \<Rightarrow> exec_handler \<Rightarrow> exec_handler" where
  "track_child_order pid c st =
     (let st1 = eh_put (o_id c) c st;
          cs = (case eh_children st1 pid of None \<Rightarrow> [] | Some cs \<Rightarrow> cs)
      in st1\<lparr>eh_children := (eh_children st1)(pid \<mapsto> cs @ [o_id c]),
             eh_parent := (eh_parent st1)(o_id c \<mapsto> pid)\<rparr>)"

section \<open>Reports\<close>

text \<open>The \<open>switch\<close> on the reported state; \<open>None\<close> is the \<open>default: return\<close>.\<close>

fun report_event :: "order_state \<Rightarrow> order_event option" where
  "report_event Accepted = Some Acknowledge"
| "report_event PartiallyFilled = Some PartialFill"
| "report_event Filled = Some Fill"
| "report_event Canceled = Some CancelAck"
| "report_event Rejected = Some Reject"
| "report_event Expired = Some Expire"
| "report_event PendingCancel = Some RequestCancel"
| "report_event PendingReplace = Some RequestReplace"
| "report_event New = None"
| "report_event PendingNew = None"

definition apply_report_state :: "timestamp \<Rightarrow> order_state \<Rightarrow> order_event \<Rightarrow> order \<Rightarrow> order" where
  "apply_report_state now reported event od =
     (let od1 = (if reported = Canceled \<and> (o_state od = Accepted \<or> o_state od = PartiallyFilled)
                 then snd (osm_apply_order now RequestCancel od) else od)
      in snd (osm_apply_order now event od1))"

text \<open>\<open>(avg * prev + price * qty) / filled\<close> in \<open>int64_t\<close>.\<close>

definition blend_price :: "price \<Rightarrow> quantity \<Rightarrow> price \<Rightarrow> quantity \<Rightarrow> quantity \<Rightarrow> price" where
  "blend_price avg prev price qty filled = i64 (i64 (avg * prev) + i64 (price * qty)) sdiv filled"

definition book_fill :: "execution_report \<Rightarrow> order \<Rightarrow> order" where
  "book_fill r od =
     (if r_last_quantity r > 0
      then let prev_filled = o_filled od;
               od1 = od\<lparr>o_filled := r_cum_quantity r,
                        o_remaining := i64 (o_quantity od - r_cum_quantity r)\<rparr>
           in if o_filled od1 > 0
              then od1\<lparr>o_avg_fill_price := blend_price (o_avg_fill_price od1) prev_filled
                         (r_last_price r) (r_last_quantity r) (o_filled od1)\<rparr>
              else od1
      else od)"

definition update_parent_from_child :: "timestamp \<Rightarrow> execution_report \<Rightarrow> order \<Rightarrow> order" where
  "update_parent_from_child now r p =
     (let prev = o_filled p;
          filled = i64 (o_filled p + r_last_quantity r);
          p1 = p\<lparr>o_filled := filled, o_remaining := i64 (o_quantity p - filled)\<rparr>;
          p2 = (if o_filled p1 > 0
                then p1\<lparr>o_avg_fill_price := blend_price (o_avg_fill_price p1) prev
                          (r_last_price r) (r_last_quantity r) (o_filled p1)\<rparr>
                else p1);
          p3 = (if o_state p2 = Accepted \<or> o_state p2 = PendingNew \<or> o_state p2 = New
                then p2\<lparr>o_state := PartiallyFilled\<rparr> else p2)
      in p3\<lparr>o_last_update_time := now, o_version := u32 (o_version p3 + 1)\<rparr>)"

definition all_children_terminal :: "order_id \<Rightarrow> exec_handler \<Rightarrow> bool" where
  "all_children_terminal pid st =
     (case eh_children st pid of
        None \<Rightarrow> True
      | Some cs \<Rightarrow> list_all (\<lambda>cid. case eh_orders st cid of None \<Rightarrow> True | Some c \<Rightarrow> is_terminal c) cs)"

text \<open>The test that decides on a reroute, with the child \<open>od\<close> and its parent \<open>p\<close> as they are now.\<close>

definition needs_reroute :: "order \<Rightarrow> order \<Rightarrow> exec_handler \<Rightarrow> bool" where
  "needs_reroute od p st \<longleftrightarrow>
     is_terminal od \<and> o_state od \<noteq> Filled \<and> \<not> is_terminal p \<and>
     i64 (o_quantity p - o_filled p) > 0 \<and> all_children_terminal (o_id p) st"

definition reroute_step :: "order_id \<Rightarrow> order \<Rightarrow> order \<Rightarrow> exec_handler \<Rightarrow> eh_event list \<times> exec_handler" where
  "reroute_step pid od p st =
     (if needs_reroute od p st
      then let p' = p\<lparr>o_remaining := i64 (o_quantity p - o_filled p)\<rparr>;
               st' = eh_put pid p' st;
               stats = eh_stats st'
           in (if eh_reroute_cb st then [EV_Reroute p'] else [],
               st'\<lparr>eh_stats := stats\<lparr>es_reroutes := u64 (es_reroutes stats + 1)\<rparr>\<rparr>)
      else ([], st))"

definition complete_step :: "timestamp \<Rightarrow> order_id \<Rightarrow> order \<Rightarrow> exec_handler \<Rightarrow> eh_event list \<times> exec_handler" where
  "complete_step now pid p st =
     (if o_filled p \<ge> o_quantity p
      then let p' = p\<lparr>o_state := Filled, o_remaining := 0, o_last_update_time := now,
                      o_version := u32 (o_version p + 1)\<rparr>
           in (if eh_completion_cb st then [EV_Complete p'] else [], eh_put pid p' st)
      else ([], st))"

text \<open>The branch for a child whose parent is tracked.\<close>

definition child_branch ::
  "timestamp \<Rightarrow> execution_report \<Rightarrow> order_id \<Rightarrow> order_id \<Rightarrow> exec_handler \<Rightarrow> eh_event list \<times> exec_handler" where
  "child_branch now r oid pid st =
     (case eh_orders st pid of
        None \<Rightarrow> ([], st)
      | Some p \<Rightarrow>
          let st1 = (if r_last_quantity r > 0 then eh_put pid (update_parent_from_child now r p) st else st);
              (ev1, st2) = reroute_step pid (the (eh_orders st1 oid)) (the (eh_orders st1 pid)) st1;
              (ev2, st3) = complete_step now pid (the (eh_orders st2 pid)) st2
          in (ev1 @ ev2, st3))"

definition count_report :: "order_state \<Rightarrow> eh_stats \<Rightarrow> eh_stats" where
  "count_report s stats =
     (case s of
        Filled \<Rightarrow> stats\<lparr>es_total_fills := u64 (es_total_fills stats + 1)\<rparr>
      | PartiallyFilled \<Rightarrow> stats\<lparr>es_total_partial_fills := u64 (es_total_partial_fills stats + 1)\<rparr>
      | Rejected \<Rightarrow> stats\<lparr>es_total_rejects := u64 (es_total_rejects stats + 1)\<rparr>
      | Canceled \<Rightarrow> stats\<lparr>es_total_cancels := u64 (es_total_cancels stats + 1)\<rparr>
      | _ \<Rightarrow> stats)"

definition on_execution_report ::
  "timestamp \<Rightarrow> execution_report \<Rightarrow> exec_handler \<Rightarrow> eh_event list \<times> exec_handler" where
  "on_execution_report now r st =
     (case eh_orders st (r_order_id r) of
        None \<Rightarrow> ([], st)
      | Some od \<Rightarrow>
          (case report_event (r_state r) of
             None \<Rightarrow> ([], st)
           | Some event \<Rightarrow>
               let oid = r_order_id r;
                   od1 = book_fill r (apply_report_state now (r_state r) event od);
                   st1 = eh_put oid od1 st;
                   (ev, st2) = (case eh_parent st1 (o_id od1) of
                                  Some pid \<Rightarrow> child_branch now r oid pid st1
                                | None \<Rightarrow>
                                    (if o_state od1 = Filled \<and> eh_completion_cb st1
                                     then [EV_Complete od1] else [], st1));
                   fills = (if r_last_quantity r > 0 \<and> eh_fill_cb st2
                            then [EV_Fill (the (eh_orders st2 oid)) r] else [])
               in (fills @ ev, st2\<lparr>eh_stats := count_report (r_state r) (eh_stats st2)\<rparr>)))"

section \<open>Queries\<close>

definition get_order :: "order_id \<Rightarrow> exec_handler \<Rightarrow> order option" where
  "get_order k st = eh_orders st k"

definition get_children :: "order_id \<Rightarrow> exec_handler \<Rightarrow> order_id list" where
  "get_children pid st = (case eh_children st pid of None \<Rightarrow> [] | Some cs \<Rightarrow> cs)"

definition get_parent :: "order_id \<Rightarrow> exec_handler \<Rightarrow> order_id" where
  "get_parent cid st = (case eh_parent st cid of None \<Rightarrow> INVALID_ORDER_ID | Some p \<Rightarrow> p)"

definition eh_is_complete :: "order_id \<Rightarrow> exec_handler \<Rightarrow> bool" where
  "eh_is_complete pid st =
     (case eh_orders st pid of None \<Rightarrow> False | Some p \<Rightarrow> o_filled p \<ge> o_quantity p)"

definition check_and_reroute :: "order_id \<Rightarrow> order \<Rightarrow> exec_handler \<Rightarrow> eh_event list \<times> exec_handler" where
  "check_and_reroute pid p st =
     (if is_terminal p then ([], st)
      else let remaining = i64 (o_quantity p - o_filled p)
           in if remaining \<le> 0 \<or> eh_children st (o_id p) = None \<or> \<not> all_children_terminal (o_id p) st
              then ([], st)
              else let p' = p\<lparr>o_remaining := remaining\<rparr>; st' = eh_put pid p' st; stats = eh_stats st'
                   in (if eh_reroute_cb st then [EV_Reroute p'] else [],
                       st'\<lparr>eh_stats := stats\<lparr>es_reroutes := u64 (es_reroutes stats + 1)\<rparr>\<rparr>))"

section \<open>Single orders\<close>

lemma osm_apply_order_frame [simp]:
  "o_filled (snd (osm_apply_order now e od)) = o_filled od"
  "o_quantity (snd (osm_apply_order now e od)) = o_quantity od"
  "o_id (snd (osm_apply_order now e od)) = o_id od"
  "o_avg_fill_price (snd (osm_apply_order now e od)) = o_avg_fill_price od"
  by (simp_all add: osm_apply_order_def split: option.splits)

lemma apply_report_state_frame [simp]:
  "o_filled (apply_report_state now s e od) = o_filled od"
  "o_quantity (apply_report_state now s e od) = o_quantity od"
  "o_id (apply_report_state now s e od) = o_id od"
  "o_avg_fill_price (apply_report_state now s e od) = o_avg_fill_price od"
  by (simp_all add: apply_report_state_def)

lemma book_fill_frame [simp]:
  "o_filled (book_fill r od) = (if r_last_quantity r > 0 then r_cum_quantity r else o_filled od)"
  "o_quantity (book_fill r od) = o_quantity od"
  "o_id (book_fill r od) = o_id od"
  "o_state (book_fill r od) = o_state od"
  by (simp_all add: book_fill_def Let_def)

lemma update_parent_frame [simp]:
  "o_filled (update_parent_from_child now r p) = i64 (o_filled p + r_last_quantity r)"
  "o_quantity (update_parent_from_child now r p) = o_quantity p"
  "o_id (update_parent_from_child now r p) = o_id p"
  by (simp_all add: update_parent_from_child_def Let_def)

text \<open>A report moves the order's state along the life cycle, or not at all.\<close>

lemma apply_report_state_run:
  "\<exists>es. life_run (o_state od) es (o_state (apply_report_state now s e od)) \<and> set es \<subseteq> {RequestCancel, e}"
proof -
  have one: "\<exists>es. life_run (o_state x) es (o_state (snd (osm_apply_order now e x))) \<and> set es \<subseteq> {e}" for e x
  proof (cases "osm_apply (o_state x) e")
    case None
    then have "life_run (o_state x) [] (o_state (snd (osm_apply_order now e x)))"
      by (simp add: osm_apply_order_def)
    then show ?thesis by (intro exI [of _ "[]"]) simp
  next
    case (Some t)
    then have "o_state (snd (osm_apply_order now e x)) = t" by (simp add: osm_apply_order_def)
    moreover have "life_step (o_state x) e t" using Some osm_apply_iff by blast
    ultimately have "life_run (o_state x) [e] (o_state (snd (osm_apply_order now e x)))" by simp
    then show ?thesis by (intro exI [of _ "[e]"]) simp
  qed
  have app: "life_run s es t \<Longrightarrow> life_run t fs u \<Longrightarrow> life_run s (es @ fs) u" for s t u es fs
    by (induction rule: life_run.induct) (simp, metis append_Cons life_run.more)
  obtain es1 od1 where od1: "apply_report_state now s e od = snd (osm_apply_order now e od1)"
    and run1: "life_run (o_state od) es1 (o_state od1)" "set es1 \<subseteq> {RequestCancel}"
  proof (cases "s = Canceled \<and> (o_state od = Accepted \<or> o_state od = PartiallyFilled)")
    case True
    then show ?thesis
      using one [of od RequestCancel] that by (auto simp: apply_report_state_def)
  next
    case False
    then have "apply_report_state now s e od = snd (osm_apply_order now e od)"
      by (auto simp: apply_report_state_def)
    then show ?thesis using that [of od "[]"] by simp
  qed
  obtain es2 where run2: "life_run (o_state od1) es2 (o_state (apply_report_state now s e od))" "set es2 \<subseteq> {e}"
    using one [of od1 e] od1 by auto
  show ?thesis
    using app [OF run1(1) run2(1)] run1(2) run2(2) by (intro exI [of _ "es1 @ es2"]) auto
qed

section \<open>What a report changes\<close>

definition filled_of :: "exec_handler \<Rightarrow> order_id \<Rightarrow> quantity" where
  "filled_of st k = (case eh_orders st k of None \<Rightarrow> 0 | Some od \<Rightarrow> o_filled od)"

definition quantity_of :: "exec_handler \<Rightarrow> order_id \<Rightarrow> quantity" where
  "quantity_of st k = (case eh_orders st k of None \<Rightarrow> 0 | Some od \<Rightarrow> o_quantity od)"

text \<open>The parts of the state that no report touches: the links, the ids and the quantities.\<close>

definition same_links :: "exec_handler \<Rightarrow> exec_handler \<Rightarrow> bool" where
  "same_links st st' \<longleftrightarrow> eh_children st' = eh_children st \<and> eh_parent st' = eh_parent st \<and>
     (\<forall>k. map_option (\<lambda>od. (o_id od, o_quantity od)) (eh_orders st' k) =
          map_option (\<lambda>od. (o_id od, o_quantity od)) (eh_orders st k)) \<and>
     eh_fill_cb st' = eh_fill_cb st \<and> eh_completion_cb st' = eh_completion_cb st \<and>
     eh_reroute_cb st' = eh_reroute_cb st"

lemma same_links_refl [simp]: "same_links st st"
  by (simp add: same_links_def)

lemma same_links_trans: "same_links a b \<Longrightarrow> same_links b c \<Longrightarrow> same_links a c"
  by (simp add: same_links_def)

lemma same_links_put:
  "eh_orders st k = Some od \<Longrightarrow> o_id od' = o_id od \<Longrightarrow> o_quantity od' = o_quantity od \<Longrightarrow>
     same_links st (eh_put k od' st)"
  by (simp add: same_links_def eh_put_def)

lemma same_links_stats [simp]: "same_links st (st'\<lparr>eh_stats := x\<rparr>) = same_links st st'"
  by (simp add: same_links_def)

lemma filled_of_put [simp]: "filled_of (eh_put k od st) j = (if j = k then o_filled od else filled_of st j)"
  by (simp add: filled_of_def eh_put_def)

lemma filled_of_stats [simp]: "filled_of (st\<lparr>eh_stats := x\<rparr>) j = filled_of st j"
  by (simp add: filled_of_def)

lemma reroute_step_frame:
  assumes "eh_orders st pid = Some p"
  shows "same_links st (snd (reroute_step pid od p st))"
    and "filled_of (snd (reroute_step pid od p st)) k = filled_of st k"
    and "\<exists>p'. eh_orders (snd (reroute_step pid od p st)) pid = Some p' \<and> o_filled p' = o_filled p \<and>
          o_quantity p' = o_quantity p \<and> o_id p' = o_id p"
  using assms same_links_put [OF assms, of "p\<lparr>o_remaining := i64 (o_quantity p - o_filled p)\<rparr>"]
  by (auto simp: reroute_step_def Let_def eh_put_def filled_of_def)

lemma complete_step_frame:
  assumes "eh_orders st pid = Some p"
  shows "same_links st (snd (complete_step now pid p st))"
    and "filled_of (snd (complete_step now pid p st)) k = filled_of st k"
  using assms same_links_put [OF assms, of "p\<lparr>o_state := Filled, o_remaining := 0, o_last_update_time := now,
      o_version := u32 (o_version p + 1)\<rparr>"]
  by (auto simp: complete_step_def Let_def filled_of_def eh_put_def)

lemma child_branch_frame:
  assumes "eh_orders st oid = Some od" and "eh_orders st pid = Some p" and "oid \<noteq> pid"
  shows "same_links st (snd (child_branch now r oid pid st))"
    and "filled_of (snd (child_branch now r oid pid st)) k =
      (if k = pid \<and> r_last_quantity r > 0 then i64 (o_filled p + r_last_quantity r) else filled_of st k)"
proof -
  define p1 where "p1 = (if r_last_quantity r > 0 then update_parent_from_child now r p else p)"
  define st1 where "st1 = (if r_last_quantity r > 0 then eh_put pid (update_parent_from_child now r p) st else st)"
  have p1: "eh_orders st1 pid = Some p1" "eh_orders st1 oid = Some od"
    using assms by (simp_all add: st1_def p1_def eh_put_def)
  have l1: "same_links st st1" using same_links_put [OF assms(2)] by (simp add: st1_def)
  have f1: "filled_of st1 k = (if k = pid \<and> r_last_quantity r > 0 then i64 (o_filled p + r_last_quantity r)
      else filled_of st k)" by (simp add: st1_def)
  define st2 where "st2 = snd (reroute_step pid od p1 st1)"
  note r = reroute_step_frame [OF p1(1), of od, folded st2_def]
  then obtain p2 where p2: "eh_orders st2 pid = Some p2" by blast
  have cb: "snd (child_branch now r oid pid st) = snd (complete_step now pid p2 st2)"
    by (simp add: child_branch_def assms(2) st1_def [symmetric] p1 st2_def [symmetric] p2
        split_beta Let_def)
  show "same_links st (snd (child_branch now r oid pid st))"
    unfolding cb using complete_step_frame(1) [OF p2] r(1) l1 same_links_trans by blast
  show "filled_of (snd (child_branch now r oid pid st)) k =
      (if k = pid \<and> r_last_quantity r > 0 then i64 (o_filled p + r_last_quantity r) else filled_of st k)"
    unfolding cb using complete_step_frame(2) [OF p2] r(2) f1 by simp
qed

lemma report_frame:
  assumes "eh_orders st (r_order_id r) = Some od" and "o_id od = r_order_id r"
    and "eh_parent st (r_order_id r) = Some pid" and "eh_orders st pid = Some p" and "pid \<noteq> r_order_id r"
    and "report_event (r_state r) = Some e" and "st' = snd (on_execution_report now r st)"
  shows "same_links st st'"
    and "filled_of st' k =
      (if r_last_quantity r > 0
       then if k = r_order_id r then r_cum_quantity r
            else if k = pid then i64 (o_filled p + r_last_quantity r) else filled_of st k
       else filled_of st k)"
proof -
  let ?oid = "r_order_id r"
  define od1 where "od1 = book_fill r (apply_report_state now (r_state r) e od)"
  define st1 where "st1 = eh_put ?oid od1 st"
  have id: "o_id od1 = ?oid" "o_quantity od1 = o_quantity od"
    using assms(2) by (simp_all add: od1_def)
  have l1: "same_links st st1" unfolding st1_def by (rule same_links_put [OF assms(1)]) (simp_all add: id assms(2))
  have s1: "eh_orders st1 ?oid = Some od1" "eh_orders st1 pid = Some p" "eh_parent st1 (o_id od1) = Some pid"
    using assms(3-5) by (simp_all add: st1_def eh_put_def id)
  note cb = child_branch_frame [OF s1(1,2) assms(5) [symmetric], of now r]
  have st': "\<exists>x. st' = (snd (child_branch now r ?oid pid st1))\<lparr>eh_stats := x\<rparr>"
    unfolding assms(7)
    by (simp add: on_execution_report_def assms(1,6) od1_def [symmetric] st1_def [symmetric] s1 split_beta Let_def)
       blast
  then show "same_links st st'" using cb(1) l1 same_links_trans by auto
  have "filled_of st1 k = (if k = ?oid then o_filled od1 else filled_of st k)" by (simp add: st1_def)
  moreover have "o_filled od1 = (if r_last_quantity r > 0 then r_cum_quantity r else o_filled od)"
    by (simp add: od1_def)
  moreover have "filled_of st ?oid = o_filled od" by (simp add: filled_of_def assms(1))
  ultimately show "filled_of st' k =
      (if r_last_quantity r > 0
       then if k = ?oid then r_cum_quantity r
            else if k = pid then i64 (o_filled p + r_last_quantity r) else filled_of st k
       else filled_of st k)"
    using st' cb(2) [of k] assms(5) by auto
qed

section \<open>Fills add up\<close>

datatype eh_cmd =
    EC_Track order
  | EC_Child order_id order
  | EC_Report timestamp execution_report
  | EC_Callbacks bool bool bool

fun eh_step :: "eh_cmd \<Rightarrow> exec_handler \<Rightarrow> exec_handler" where
  "eh_step (EC_Track p) st = track_order p st"
| "eh_step (EC_Child pid c) st = track_child_order pid c st"
| "eh_step (EC_Report now r) st = snd (on_execution_report now r st)"
| "eh_step (EC_Callbacks f c rr) st = st\<lparr>eh_fill_cb := f, eh_completion_cb := c, eh_reroute_cb := rr\<rparr>"

text \<open>
  The use the gateway makes of the handler: ids are fresh, children are attached to tracked
  parents, and a venue reports on children, each fill once, so that the cumulative quantity
  is the one known plus the last fill. The parent's total stays in 64 bits.
\<close>

fun eh_ok :: "eh_cmd \<Rightarrow> exec_handler \<Rightarrow> bool" where
  "eh_ok (EC_Track p) st \<longleftrightarrow> eh_orders st (o_id p) = None \<and> o_filled p = 0"
| "eh_ok (EC_Child pid c) st \<longleftrightarrow> eh_orders st (o_id c) = None \<and> o_filled c = 0 \<and>
     eh_children st pid \<noteq> None"
| "eh_ok (EC_Report now r) st \<longleftrightarrow>
     (case eh_parent st (r_order_id r) of
        None \<Rightarrow> eh_orders st (r_order_id r) = None
      | Some pid \<Rightarrow> 0 < r_last_quantity r \<longrightarrow>
          r_cum_quantity r = filled_of st (r_order_id r) + r_last_quantity r \<and>
          filled_of st pid + r_last_quantity r < 2 ^ 63)"
| "eh_ok (EC_Callbacks f c rr) st \<longleftrightarrow> True"

text \<open>The links: a child has one parent, which lists it once and is not itself a child.\<close>

definition links_ok ::
  "order_id set \<Rightarrow> (order_id \<rightharpoonup> order_id list) \<Rightarrow> (order_id \<rightharpoonup> order_id) \<Rightarrow> bool" where
  "links_ok ids children parent \<longleftrightarrow>
     (\<forall>k. parent k = None \<or> children k = None) \<and>
     (\<forall>k. k \<in> ids \<longleftrightarrow> parent k \<noteq> None \<or> children k \<noteq> None) \<and>
     (\<forall>pid cs. children pid = Some cs \<longrightarrow> distinct cs) \<and>
     (\<forall>c pid. parent c = Some pid \<longleftrightarrow> (\<exists>cs. children pid = Some cs \<and> c \<in> set cs))"

definition eh_inv :: "exec_handler \<Rightarrow> bool" where
  "eh_inv st \<longleftrightarrow> links_ok (dom (eh_orders st)) (eh_children st) (eh_parent st) \<and>
     (\<forall>k od. eh_orders st k = Some od \<longrightarrow> o_id od = k) \<and> (\<forall>k. 0 \<le> filled_of st k) \<and>
     (\<forall>pid cs. eh_children st pid = Some cs \<longrightarrow> filled_of st pid = (\<Sum>c \<leftarrow> cs. filled_of st c))"

lemma links_ok_track:
  assumes "links_ok ids children parent" and "k \<notin> ids"
  shows "links_ok (insert k ids) (children(k \<mapsto> [])) parent"
proof -
  have "parent k = None" "children k = None" using assms unfolding links_ok_def by metis+
  then show ?thesis using assms(1) unfolding links_ok_def by (intro conjI) auto
qed

lemma links_ok_child:
  assumes "links_ok ids children parent" and "k \<notin> ids" and "children pid = Some cs"
  shows "links_ok (insert k ids) (children(pid \<mapsto> cs @ [k])) (parent(k \<mapsto> pid))"
proof -
  have "pid \<in> ids" "pid \<noteq> k" using assms by (auto simp: links_ok_def)
  moreover have "k \<notin> set ds" if "children p = Some ds" for p ds
    using assms that unfolding links_ok_def by blast
  moreover have "children k = None" "parent k = None" using assms(1,2) unfolding links_ok_def by metis+
  ultimately show ?thesis
    using assms unfolding links_ok_def by (intro conjI) auto
qed

lemma eh_new_inv: "eh_inv eh_new"
  by (simp add: eh_inv_def eh_new_def links_ok_def filled_of_def)

lemma filled_of_untracked: "eh_orders st k = None \<Longrightarrow> filled_of st k = 0"
  by (simp add: filled_of_def)

lemma children_tracked:
  assumes "eh_inv st" and "eh_children st pid = Some cs" and "c \<in> set cs"
  shows "eh_parent st c = Some pid" and "eh_orders st c \<noteq> None" and "c \<noteq> pid"
proof -
  have l: "links_ok (dom (eh_orders st)) (eh_children st) (eh_parent st)"
    using assms(1) by (simp add: eh_inv_def)
  show c: "eh_parent st c = Some pid" using l assms(2,3) unfolding links_ok_def by blast
  then show "eh_orders st c \<noteq> None" using l unfolding links_ok_def by blast
  show "c \<noteq> pid" using l c assms(2) unfolding links_ok_def by (metis option.distinct(1))
qed

lemma sum_filled_cong:
  "\<forall>c \<in> set cs. filled_of st' c = filled_of st c \<Longrightarrow> (\<Sum>c \<leftarrow> cs. filled_of st' c) = (\<Sum>c \<leftarrow> cs. filled_of st c)"
  by (metis (no_types, lifting) map_eq_conv)

lemma track_order_inv:
  assumes "eh_inv st" and "eh_ok (EC_Track p) st" shows "eh_inv (track_order p st)"
proof -
  let ?st = "track_order p st"
  have new: "eh_orders st (o_id p) = None" "o_filled p = 0" using assms(2) by simp_all
  have links: "links_ok (dom (eh_orders st)) (eh_children st) (eh_parent st)"
    using assms(1) by (simp add: eh_inv_def)
  then have nc: "eh_children st (o_id p) = None" using new(1) unfolding links_ok_def by blast
  have maps: "eh_orders ?st = (eh_orders st)(o_id p \<mapsto> p)"
    "eh_children ?st = (eh_children st)(o_id p \<mapsto> [])" "eh_parent ?st = eh_parent st"
    using nc by (simp_all add: track_order_def eh_put_def Let_def)
  have f: "filled_of ?st k = filled_of st k" for k
    using new by (simp add: filled_of_def maps)
  have "links_ok (dom (eh_orders ?st)) (eh_children ?st) (eh_parent ?st)"
    using links_ok_track [OF links, of "o_id p"] new(1) by (simp add: maps domIff)
  then show ?thesis
    using assms(1) new filled_of_untracked [of st "o_id p"]
    unfolding eh_inv_def f by (simp add: maps)
qed

lemma track_child_inv:
  assumes "eh_inv st" and "eh_ok (EC_Child pid c) st" shows "eh_inv (track_child_order pid c st)"
proof -
  let ?st = "track_child_order pid c st"
  have new: "eh_orders st (o_id c) = None" "o_filled c = 0" using assms(2) by simp_all
  obtain cs where cs: "eh_children st pid = Some cs" using assms(2) by auto
  have links: "links_ok (dom (eh_orders st)) (eh_children st) (eh_parent st)"
    using assms(1) by (simp add: eh_inv_def)
  have maps: "eh_orders ?st = (eh_orders st)(o_id c \<mapsto> c)"
    "eh_children ?st = (eh_children st)(pid \<mapsto> cs @ [o_id c])" "eh_parent ?st = (eh_parent st)(o_id c \<mapsto> pid)"
    using cs by (simp_all add: track_child_order_def eh_put_def Let_def)
  have f: "filled_of ?st k = filled_of st k" for k
    using new by (simp add: filled_of_def maps)
  have "links_ok (dom (eh_orders ?st)) (eh_children ?st) (eh_parent ?st)"
    using links_ok_child [OF links _ cs, of "o_id c"] new(1) by (simp add: maps domIff)
  then show ?thesis
    using assms(1) new cs filled_of_untracked [of st "o_id c"]
    unfolding eh_inv_def f by (simp add: maps)
qed

lemma sum_list_one_more:
  assumes "distinct cs" and "x \<in> set cs"
  shows "(\<Sum>c \<leftarrow> cs. if c = x then f c + d else f c) = (\<Sum>c \<leftarrow> cs. f c) + (d :: int)"
  using assms by (induction cs) (auto intro: arg_cong [where f = sum_list] map_cong)

lemma report_inv:
  assumes "eh_inv st" and "eh_ok (EC_Report now r) st"
  shows "eh_inv (snd (on_execution_report now r st))"
proof -
  let ?st = "snd (on_execution_report now r st)" and ?oid = "r_order_id r"
  have links: "links_ok (dom (eh_orders st)) (eh_children st) (eh_parent st)"
    using assms(1) by (simp add: eh_inv_def)
  show ?thesis
  proof (cases "eh_orders st ?oid = None \<or> report_event (r_state r) = None")
    case True
    then have "?st = st" by (auto simp: on_execution_report_def split: option.splits)
    then show ?thesis using assms(1) by simp
  next
    case False
    then obtain od e where od: "eh_orders st ?oid = Some od" and e: "report_event (r_state r) = Some e" by auto
    obtain pid where pid: "eh_parent st ?oid = Some pid" using assms(2) od by (auto split: option.splits)
    obtain cs where cs: "eh_children st pid = Some cs" "?oid \<in> set cs"
      using links pid unfolding links_ok_def by blast
    obtain p where p: "eh_orders st pid = Some p" using links cs(1) unfolding links_ok_def by blast
    have ne: "pid \<noteq> ?oid" using children_tracked(3) [OF assms(1) cs] by simp
    have id: "o_id od = ?oid" using assms(1) od by (simp add: eh_inv_def)
    note fr = report_frame [OF od id pid p ne e refl, of now]
    have same: "eh_children ?st = eh_children st" "eh_parent ?st = eh_parent st"
      "\<And>k. map_option (\<lambda>od. (o_id od, o_quantity od)) (eh_orders ?st k) =
          map_option (\<lambda>od. (o_id od, o_quantity od)) (eh_orders st k)"
      using fr(1) by (simp_all add: same_links_def)
    have none: "(eh_orders ?st k = None) = (eh_orders st k = None)" for k
      using same(3) [of k] by (cases "eh_orders ?st k"; cases "eh_orders st k") simp_all
    have dom: "dom (eh_orders ?st) = dom (eh_orders st)"
      by (simp only: dom_def none)
    have ids: "\<forall>k od. eh_orders ?st k = Some od \<longrightarrow> o_id od = k"
    proof (intro allI impI)
      fix k od' assume "eh_orders ?st k = Some od'"
      then obtain o1 where "eh_orders st k = Some o1" "o_id o1 = o_id od'" using same(3) [of k] by (cases "eh_orders st k") auto
      then show "o_id od' = k" using assms(1) by (simp add: eh_inv_def)
    qed
    have nn: "0 \<le> filled_of st k" for k using assms(1) by (simp add: eh_inv_def)
    define d where "d = (if 0 < r_last_quantity r then r_last_quantity r else 0)"
    have "0 < r_last_quantity r \<Longrightarrow> i64 (o_filled p + r_last_quantity r) = filled_of st pid + r_last_quantity r"
      using assms(2) pid p nn [of pid] by (intro trans [OF i64_small]) (auto simp: filled_of_def)
    then have f: "filled_of ?st k = (if k = ?oid \<or> k = pid then filled_of st k + d else filled_of st k)" for k
      using fr(2) [of k] assms(2) pid by (auto simp: d_def)
    have "filled_of ?st q = (\<Sum>c \<leftarrow> qs. filled_of ?st c)" if q: "eh_children ?st q = Some qs" for q qs
    proof -
      have q': "eh_children st q = Some qs" using q same(1) by simp
      have sum: "filled_of st q = (\<Sum>c \<leftarrow> qs. filled_of st c)" using assms(1) q' by (simp add: eh_inv_def)
      have npid: "c \<noteq> pid" if "c \<in> set qs" for c
        using children_tracked(1) [OF assms(1) q' that] links cs(1) unfolding links_ok_def by (metis option.distinct(1))
      show ?thesis
      proof (cases "q = pid")
        case True
        then have qs: "qs = cs" using q' cs by simp
        have "(\<Sum>c \<leftarrow> qs. filled_of ?st c) = (\<Sum>c \<leftarrow> qs. if c = ?oid then filled_of st c + d else filled_of st c)"
          using npid by (intro arg_cong [where f = sum_list] map_cong) (auto simp: f)
        also have "\<dots> = (\<Sum>c \<leftarrow> qs. filled_of st c) + d"
          using cs links qs by (intro sum_list_one_more) (auto simp: links_ok_def)
        finally show ?thesis using True sum by (simp add: f)
      next
        case False
        have "?oid \<notin> set qs" using children_tracked(1) [OF assms(1) q'] pid False by auto
        then have "(\<Sum>c \<leftarrow> qs. filled_of ?st c) = (\<Sum>c \<leftarrow> qs. filled_of st c)"
          using npid by (intro sum_filled_cong) (auto simp: f)
        moreover have "q \<noteq> ?oid" using links q' pid unfolding links_ok_def by (metis option.distinct(1))
        ultimately show ?thesis using False sum by (simp add: f)
      qed
    qed
    moreover have "0 \<le> filled_of ?st k" for k using f nn by (simp add: d_def)
    ultimately show ?thesis
      using links ids by (simp add: eh_inv_def same dom)
  qed
qed

lemma eh_step_inv:
  assumes "eh_inv st" and "eh_ok c st" shows "eh_inv (eh_step c st)"
proof (cases c)
  case (EC_Track p)
  then show ?thesis using track_order_inv assms by (simp del: eh_ok.simps)
next
  case (EC_Child pid c)
  then show ?thesis using track_child_inv assms by (simp del: eh_ok.simps)
next
  case (EC_Report now r)
  then show ?thesis using report_inv assms by (simp del: eh_ok.simps)
next
  case (EC_Callbacks f c rr)
  then show ?thesis using assms(1) by (simp add: eh_inv_def filled_of_def)
qed

interpretation exec: transition_system eh_step eh_new eh_inv eh_ok
  by unfold_locales (auto intro: eh_step_inv eh_new_inv)

text \<open>A tracked parent reports as filled what its children have filled, and is complete
  when they have filled its quantity.\<close>

lemma parent_filled_sum:
  assumes "legal eh_ok eh_step cs eh_new" and "st = run eh_step cs eh_new"
    and "eh_children st pid = Some kids"
  shows "filled_of st pid = (\<Sum>k \<leftarrow> kids. filled_of st k)"
    and "eh_is_complete pid st \<longleftrightarrow> quantity_of st pid \<le> (\<Sum>k \<leftarrow> kids. filled_of st k)"
proof -
  have inv: "eh_inv st" using exec.inv_run assms(1,2) by blast
  show f: "filled_of st pid = (\<Sum>k \<leftarrow> kids. filled_of st k)" using inv assms(3) by (simp add: eh_inv_def)
  have "eh_orders st pid \<noteq> None" using inv assms(3) unfolding eh_inv_def links_ok_def by blast
  then show "eh_is_complete pid st \<longleftrightarrow> quantity_of st pid \<le> (\<Sum>k \<leftarrow> kids. filled_of st k)"
    using f by (auto simp: eh_is_complete_def filled_of_def quantity_of_def)
qed

section \<open>Reroutes\<close>

text \<open>
  After a report without a fill that ends the last open child of an unfinished parent, the
  reroute callback gets the parent with the quantity that is still missing; as long as
  another child is open, it does not run.
\<close>

lemma reroute_iff:
  assumes "eh_orders st (r_order_id r) = Some od" and "o_id od = r_order_id r"
    and "eh_parent st (r_order_id r) = Some pid" and "eh_orders st pid = Some p" and "pid \<noteq> r_order_id r"
    and "report_event (r_state r) = Some e" and "r_last_quantity r \<le> 0"
    and "od' = apply_report_state now (r_state r) e od" and "o_id p = pid"
    and "o_filled p < o_quantity p" and "eh_reroute_cb st"
    and "0 \<le> o_filled p" and "o_quantity p < 2 ^ 63"
  shows "fst (on_execution_report now r st) =
    (if is_terminal od' \<and> o_state od' \<noteq> Filled \<and> \<not> is_terminal p \<and>
        all_children_terminal pid (eh_put (r_order_id r) od' st)
     then [EV_Reroute (p\<lparr>o_remaining := o_quantity p - o_filled p\<rparr>)] else [])"
proof -
  have rem: "i64 (o_quantity p - o_filled p) = o_quantity p - o_filled p"
    using assms(10,12,13) by (intro i64_small) simp
  have bf: "book_fill r (apply_report_state now (r_state r) e od) = od'"
    using assms(7,8) by (simp add: book_fill_def)
  have id: "o_id od' = r_order_id r" using assms(2,8) by simp
  have nl: "\<not> 0 < r_last_quantity r" using assms(7) by simp
  show ?thesis
    using assms(3-6,10)
    by (simp add: on_execution_report_def assms(1) bf eh_put_def id child_branch_def reroute_step_def
        needs_reroute_def complete_step_def rem nl assms(9,11) split_beta Let_def)
qed

section \<open>Duplicate reports\<close>

text \<open>
  The state machine refuses a transition from a terminal state, but the quantities of the
  report are booked all the same: a fill that is reported again for a child that is already
  filled is added to its parent a second time.
\<close>

lemma duplicate_fill_counted:
  assumes "eh_orders st (r_order_id r) = Some od" and "o_id od = r_order_id r"
    and "eh_parent st (r_order_id r) = Some pid" and "eh_orders st pid = Some p" and "pid \<noteq> r_order_id r"
    and "o_state od = Filled" and "r_state r = Filled" and "0 < r_last_quantity r"
    and "r_cum_quantity r = o_filled od" and "0 \<le> o_filled p" and "o_filled p + r_last_quantity r < 2 ^ 63"
    and "st' = snd (on_execution_report now r st)"
  shows "filled_of st' (r_order_id r) = filled_of st (r_order_id r)"
    and "filled_of st' pid = filled_of st pid + r_last_quantity r"
proof -
  have e: "report_event (r_state r) = Some Fill" using assms(7) by simp
  note fr = report_frame(2) [OF assms(1-5) e assms(12)]
  show "filled_of st' (r_order_id r) = filled_of st (r_order_id r)"
    using fr [of "r_order_id r"] assms(1,8,9) by (simp add: filled_of_def)
  have "i64 (o_filled p + r_last_quantity r) = o_filled p + r_last_quantity r"
    using assms(8,10,11) by (intro i64_small) simp
  then show "filled_of st' pid = filled_of st pid + r_last_quantity r"
    using fr [of pid] assms(4,5,8) by (simp add: filled_of_def)
qed

text \<open>
  Once a parent is full, every further report on one of its children completes it again,
  whatever the report says.
\<close>

lemma completes_again:
  assumes "eh_orders st (r_order_id r) = Some od" and "o_id od = r_order_id r"
    and "eh_parent st (r_order_id r) = Some pid" and "eh_orders st pid = Some p" and "pid \<noteq> r_order_id r"
    and "report_event (r_state r) = Some e" and "r_last_quantity r \<le> 0"
    and "o_state p = Filled" and "o_quantity p \<le> o_filled p" and "eh_completion_cb st"
  shows "fst (on_execution_report now r st) =
    [EV_Complete (p\<lparr>o_state := Filled, o_remaining := 0, o_last_update_time := now,
                    o_version := u32 (o_version p + 1)\<rparr>)]"
proof -
  have bf: "book_fill r x = x" for x using assms(7) by (simp add: book_fill_def)
  have nl: "\<not> 0 < r_last_quantity r" using assms(7) by simp
  show ?thesis
    using assms(3-6,8,9)
    by (simp add: on_execution_report_def assms(1,2) bf eh_put_def child_branch_def reroute_step_def
        needs_reroute_def complete_step_def is_terminal_def nl assms(10) split_beta Let_def)
qed

section \<open>Average prices\<close>

lemma blend_price_error:
  assumes "0 < filled" and "\<bar>avg * prev\<bar> < 2 ^ 62" and "\<bar>price * qty\<bar> < 2 ^ 62"
  shows "\<bar>blend_price avg prev price qty filled * filled - (avg * prev + price * qty)\<bar> < filled"
proof -
  have "i64 (avg * prev) = avg * prev" "i64 (price * qty) = price * qty"
    using assms(2,3) by (auto intro!: i64_small)
  moreover have "i64 (avg * prev + price * qty) = avg * prev + price * qty"
    using assms(2,3) by (intro i64_small) (simp add: abs_if split: if_splits)
  ultimately show ?thesis using sdiv_error [of filled "avg * prev + price * qty"] assms(1)
    by (simp add: blend_price_def)
qed

section \<open>Properties\<close>

text \<open>A parent of 100 shares with two children, for the witnesses.\<close>

definition sample_parent :: order where
  "sample_parent = default_order\<lparr>o_id := 1, o_quantity := 100, o_state := Accepted\<rparr>"

definition sample_child :: "order_id \<Rightarrow> quantity \<Rightarrow> order" where
  "sample_child k q = default_order\<lparr>o_id := k, o_quantity := q, o_state := Accepted\<rparr>"

definition sample_report :: "order_id \<Rightarrow> order_state \<Rightarrow> quantity \<Rightarrow> quantity \<Rightarrow> execution_report" where
  "sample_report k s q cum = \<lparr>r_order_id = k, r_exec_id = 0, r_state = s, r_last_price = 50, r_last_quantity = q,
     r_avg_price = 50, r_cum_quantity = cum, r_leaves_quantity = 0, r_venue_id = 1, r_timestamp = 0, r_text = []\<rparr>"

definition sample_setup :: "eh_cmd list" where
  "sample_setup = [EC_Callbacks True True True, EC_Track sample_parent, EC_Child 1 (sample_child 2 60),
     EC_Child 1 (sample_child 3 40)]"

definition sample_state :: exec_handler where
  "sample_state = run eh_step sample_setup eh_new"

lemma sample_setup_legal: "legal eh_ok eh_step sample_setup eh_new"
  by (simp add: sample_setup_def sample_parent_def sample_child_def default_order_def eh_new_def
      track_order_def track_child_order_def eh_put_def Let_def)

lemma sample_state_eq:
  "sample_state = eh_new\<lparr>eh_orders := [1 \<mapsto> sample_parent, 2 \<mapsto> sample_child 2 60, 3 \<mapsto> sample_child 3 40],
     eh_children := [1 \<mapsto> [2, 3]], eh_parent := [2 \<mapsto> 1, 3 \<mapsto> 1],
     eh_fill_cb := True, eh_completion_cb := True, eh_reroute_cb := True\<rparr>"
  by (simp add: sample_state_def sample_setup_def sample_parent_def sample_child_def eh_new_def
      track_order_def track_child_order_def eh_put_def Let_def)

text \<open>
  C6: through any use the gateway makes of the handler (fresh ids, children attached to tracked
  parents, each fill reported once with its cumulative quantity), the quantity a parent reports as
  filled is the sum of what its children have filled, and the parent counts as complete exactly
  when that sum reaches its quantity.
\<close>

theorem parent_conserves_fills:
  assumes "legal eh_ok eh_step cs eh_new" and "st = run eh_step cs eh_new"
    and "eh_children st pid = Some kids"
  shows "filled_of st pid = (\<Sum>k \<leftarrow> kids. filled_of st k) \<and>
    (eh_is_complete pid st \<longleftrightarrow> quantity_of st pid \<le> (\<Sum>k \<leftarrow> kids. filled_of st k))"
  using parent_filled_sum [OF assms] by blast

theorem parent_conserves_fills_witness:
  "filled_of (eh_step (EC_Report 9 (sample_report 2 PartiallyFilled 25 25)) sample_state) 1 = 25"
proof -
  let ?cs = "sample_setup @ [EC_Report 9 (sample_report 2 PartiallyFilled 25 25)]"
  let ?r = "sample_report 2 PartiallyFilled 25 25"
  have run: "run eh_step ?cs eh_new = eh_step (EC_Report 9 ?r) sample_state"
    by (simp add: run_append sample_state_def)
  have st: "filled_of sample_state 2 = 0" "filled_of sample_state 1 = 0" "eh_parent sample_state 2 = Some 1"
    by (simp_all add: sample_state_eq filled_of_def sample_child_def sample_parent_def default_order_def)
  then have leg: "legal eh_ok eh_step ?cs eh_new"
    by (simp add: legal_append sample_setup_legal sample_state_def [symmetric]) (simp add: sample_report_def)
  have fr: "same_links sample_state (snd (on_execution_report 9 ?r sample_state))"
    "filled_of (snd (on_execution_report 9 ?r sample_state)) 2 = 25"
    "filled_of (snd (on_execution_report 9 ?r sample_state)) 3 = 0"
    using report_frame [where st = sample_state and r = ?r and od = "sample_child 2 60" and p = sample_parent
        and pid = 1 and e = PartialFill and now = 9]
    by (simp_all add: sample_report_def sample_state_eq sample_child_def sample_parent_def default_order_def
        filled_of_def)
  then have "eh_children (eh_step (EC_Report 9 ?r) sample_state) 1 = Some [2, 3]"
    by (simp add: same_links_def sample_state_eq)
  from parent_conserves_fills [OF leg refl, unfolded run, OF this] fr show ?thesis by simp
qed

text \<open>
  a report without a fill on a child of an unfinished parent leads to a reroute of the
  parent's missing quantity exactly when it ends the child (not by filling it) and every other
  child of the parent is terminal too; nothing is rerouted while a child is still working.
\<close>

theorem reroute_when_last_child_ends:
  assumes "eh_orders st (r_order_id r) = Some od" and "o_id od = r_order_id r"
    and "eh_parent st (r_order_id r) = Some pid" and "eh_orders st pid = Some p" and "pid \<noteq> r_order_id r"
    and "report_event (r_state r) = Some e" and "r_last_quantity r \<le> 0"
    and "od' = apply_report_state now (r_state r) e od" and "o_id p = pid"
    and "o_filled p < o_quantity p" and "eh_reroute_cb st"
    and "0 \<le> o_filled p" and "o_quantity p < 2 ^ 63"
  shows "fst (on_execution_report now r st) =
    (if is_terminal od' \<and> o_state od' \<noteq> Filled \<and> \<not> is_terminal p \<and>
        all_children_terminal pid (eh_put (r_order_id r) od' st)
     then [EV_Reroute (p\<lparr>o_remaining := o_quantity p - o_filled p\<rparr>)] else [])"
  using assms by (rule reroute_iff)

theorem reroute_when_last_child_ends_witness:
  "fst (on_execution_report 9 (sample_report 2 Rejected 0 0) sample_state) = []"
proof -
  have "\<not> all_children_terminal 1 (eh_put 2 x sample_state)" for x
    by (simp add: all_children_terminal_def eh_put_def sample_state_eq sample_child_def is_terminal_def)
  then show ?thesis
    using reroute_when_last_child_ends [where st = sample_state and r = "sample_report 2 Rejected 0 0"
        and od = "sample_child 2 60" and pid = 1 and p = sample_parent and e = Reject and now = 9, OF _ _ _ _ _ _ _ refl]
    by (simp add: sample_report_def sample_state_eq sample_child_def sample_parent_def default_order_def)
qed

text \<open>
  a \<open>Filled\<close> report that arrives a second time for a child that is already filled leaves the
  child as it is but adds its last quantity to the parent again: the state machine's refusal of
  the transition is ignored and duplicate execution ids are not detected.
\<close>

theorem duplicate_report_counted_twice:
  assumes "eh_orders st (r_order_id r) = Some od" and "o_id od = r_order_id r"
    and "eh_parent st (r_order_id r) = Some pid" and "eh_orders st pid = Some p" and "pid \<noteq> r_order_id r"
    and "o_state od = Filled" and "r_state r = Filled" and "0 < r_last_quantity r"
    and "r_cum_quantity r = o_filled od" and "0 \<le> o_filled p" and "o_filled p + r_last_quantity r < 2 ^ 63"
    and "st' = snd (on_execution_report now r st)"
  shows "filled_of st' (r_order_id r) = filled_of st (r_order_id r) \<and>
    filled_of st' pid = filled_of st pid + r_last_quantity r"
  using duplicate_fill_counted [OF assms] by blast

theorem duplicate_report_counted_twice_witness:
  "filled_of (snd (on_execution_report 9 (sample_report 2 Filled 60 60)
     (eh_put 1 (sample_parent\<lparr>o_filled := 60\<rparr>)
       (eh_put 2 ((sample_child 2 60)\<lparr>o_filled := 60, o_state := Filled\<rparr>) sample_state)))) 1 = 120"
  using duplicate_report_counted_twice [where st = "eh_put 1 (sample_parent\<lparr>o_filled := 60\<rparr>)
      (eh_put 2 ((sample_child 2 60)\<lparr>o_filled := 60, o_state := Filled\<rparr>) sample_state)"
    and r = "sample_report 2 Filled 60 60" and od = "(sample_child 2 60)\<lparr>o_filled := 60, o_state := Filled\<rparr>"
    and pid = 1 and p = "sample_parent\<lparr>o_filled := 60\<rparr>" and now = 9, OF _ _ _ _ _ _ _ _ _ _ _ refl]
  by (simp add: eh_put_def sample_report_def sample_state_eq sample_child_def sample_parent_def
      default_order_def filled_of_def)

end
