(* ===== verification/Fill_Manager.thy ===== *)
theory Fill_Manager
  imports Core_Types
begin

text \<open>
  The fill store, from \<open>execution/fill_manager.h\<close> and \<open>execution/fill_manager.cpp\<close>: a log
  of fills and two indexes into it, by order and by symbol. The locale \<open>keyed_index\<close> is what
  an index promises; it is interpreted for both. Every query then is a filter of the log, and
  the aggregates are sums over it as long as they stay in 64 bits.
\<close>

record fill_record =
  fl_order_id :: order_id
  fl_exec_id :: order_id
  fl_symbol :: symbol
  fl_side :: side
  fl_price :: price
  fl_quantity :: quantity
  fl_venue_id :: venue_id
  fl_fee :: double
  fl_timestamp :: timestamp

record fill_manager =
  fm_all_fills :: "fill_record list"
  fm_order_fills :: "order_id \<rightharpoonup> nat list"
  fm_symbol_fills :: "symbol \<rightharpoonup> nat list"

definition fm_new :: fill_manager where
  "fm_new = \<lparr>fm_all_fills = [], fm_order_fills = Map.empty, fm_symbol_fills = Map.empty\<rparr>"

text \<open>\<open>index[k].push_back(idx)\<close>\<close>

definition push_index :: "'k \<Rightarrow> nat \<Rightarrow> ('k \<rightharpoonup> nat list) \<Rightarrow> ('k \<rightharpoonup> nat list)" where
  "push_index k i m = m(k \<mapsto> (case m k of None \<Rightarrow> [] | Some is \<Rightarrow> is) @ [i])"

definition record_fill :: "fill_record \<Rightarrow> fill_manager \<Rightarrow> fill_manager" where
  "record_fill f fm =
     (let idx = length (fm_all_fills fm)
      in \<lparr>fm_all_fills = fm_all_fills fm @ [f],
          fm_order_fills = push_index (fl_order_id f) idx (fm_order_fills fm),
          fm_symbol_fills = push_index (fl_symbol f) idx (fm_symbol_fills fm)\<rparr>)"

definition fm_clear :: "fill_manager \<Rightarrow> fill_manager" where
  "fm_clear fm = fm\<lparr>fm_all_fills := [], fm_order_fills := Map.empty, fm_symbol_fills := Map.empty\<rparr>"

text \<open>The loop of the queries: the fills at the indexes found, none if the key is missing.\<close>

definition fills_at :: "nat list option \<Rightarrow> fill_manager \<Rightarrow> fill_record list" where
  "fills_at found fm = (case found of None \<Rightarrow> [] | Some is \<Rightarrow> map (\<lambda>i. fm_all_fills fm ! i) is)"

definition get_fills_for_order :: "order_id \<Rightarrow> fill_manager \<Rightarrow> fill_record list" where
  "get_fills_for_order k fm = fills_at (fm_order_fills fm k) fm"

definition get_fills_for_symbol :: "symbol \<Rightarrow> fill_manager \<Rightarrow> fill_record list" where
  "get_fills_for_symbol k fm = fills_at (fm_symbol_fills fm k) fm"

definition get_all_fills :: "fill_manager \<Rightarrow> fill_record list" where
  "get_all_fills fm = fm_all_fills fm"

definition total_filled_quantity :: "order_id \<Rightarrow> fill_manager \<Rightarrow> quantity" where
  "total_filled_quantity k fm =
     fold (\<lambda>f tot. i64 (tot + fl_quantity f)) (fills_at (fm_order_fills fm k) fm) 0"

text \<open>The accumulation of the two averages, and their last line.\<close>

definition cost_and_qty :: "fill_record list \<Rightarrow> int \<times> quantity" where
  "cost_and_qty fs =
     fold (\<lambda>f (cost, qty). (i64 (cost + i64 (fl_price f * fl_quantity f)), i64 (qty + fl_quantity f))) fs (0, 0)"

definition average_of :: "fill_record list \<Rightarrow> price" where
  "average_of fs =
     (if fs = [] then 0
      else let (total_cost, total_qty) = cost_and_qty fs
           in if total_qty > 0 then total_cost sdiv total_qty else 0)"

definition average_fill_price :: "order_id \<Rightarrow> fill_manager \<Rightarrow> price" where
  "average_fill_price k fm = average_of (fills_at (fm_order_fills fm k) fm)"

definition total_fees :: "order_id \<Rightarrow> fill_manager \<Rightarrow> double" where
  "total_fees k fm = fold (\<lambda>f tot. dadd tot (fl_fee f)) (fills_at (fm_order_fills fm k) fm) 0"

definition fm_vwap :: "symbol \<Rightarrow> fill_manager \<Rightarrow> price" where
  "fm_vwap k fm = average_of (fills_at (fm_symbol_fills fm k) fm)"

section \<open>What an index promises\<close>

locale keyed_index =
  fixes key :: "fill_record \<Rightarrow> 'k" and index :: "fill_manager \<Rightarrow> 'k \<rightharpoonup> nat list"
  assumes index_new: "index fm_new = Map.empty"
    and index_clear: "index (fm_clear fm) = Map.empty"
    and index_record: "index (record_fill f fm) = push_index (key f) (length (fm_all_fills fm)) (index fm)"
begin

definition complete :: "fill_manager \<Rightarrow> bool" where
  "complete fm \<longleftrightarrow> (\<forall>k. case index fm k of
       None \<Rightarrow> k \<notin> key ` set (fm_all_fills fm)
     | Some is \<Rightarrow> is = filter (\<lambda>i. key (fm_all_fills fm ! i) = k) [0..<length (fm_all_fills fm)])"

lemma complete_at:
  assumes "complete fm"
  shows "index fm k = None \<Longrightarrow> k \<notin> key ` set (fm_all_fills fm)"
    and "index fm k = Some is \<Longrightarrow>
      is = filter (\<lambda>i. key (fm_all_fills fm ! i) = k) [0..<length (fm_all_fills fm)]"
  using assms [unfolded complete_def, rule_format, of k] by simp_all

lemma filter_positions:
  "map (\<lambda>i. xs ! i) (filter (\<lambda>i. P (xs ! i)) [0..<length xs]) = filter P xs"
proof (induction xs rule: rev_induct)
  case (snoc x xs)
  have "map (\<lambda>i. (xs @ [x]) ! i) (filter (\<lambda>i. P ((xs @ [x]) ! i)) [0..<length xs]) =
    map (\<lambda>i. xs ! i) (filter (\<lambda>i. P (xs ! i)) [0..<length xs])"
    by (intro map_cong filter_cong) (auto simp: nth_append cong: filter_cong)
  then show ?case using snoc by (simp add: nth_append)
qed simp

lemma lookup_is_filter:
  assumes "complete fm" shows "fills_at (index fm k) fm = filter (\<lambda>f. key f = k) (fm_all_fills fm)"
proof (cases "index fm k")
  case None
  then have "k \<notin> key ` set (fm_all_fills fm)" by (rule complete_at(1) [OF assms])
  then have "filter (\<lambda>f. key f = k) (fm_all_fills fm) = []" by (auto simp: filter_empty_conv)
  then show ?thesis using None by (simp add: fills_at_def)
next
  case (Some ixs)
  then have "ixs = filter (\<lambda>i. key (fm_all_fills fm ! i) = k) [0..<length (fm_all_fills fm)]"
    by (rule complete_at(2) [OF assms])
  then show ?thesis
    using Some filter_positions [of "fm_all_fills fm" "\<lambda>f. key f = k"] by (simp add: fills_at_def)
qed

lemma complete_new: "complete fm_new"
  by (simp add: complete_def index_new fm_new_def [symmetric]) (simp add: fm_new_def)

lemma complete_clear: "complete (fm_clear fm)"
  by (simp add: complete_def index_clear) (simp add: fm_clear_def)

lemma complete_record:
  assumes "complete fm" shows "complete (record_fill f fm)"
proof -
  let ?xs = "fm_all_fills fm"
  have all: "fm_all_fills (record_fill f fm) = ?xs @ [f]" by (simp add: record_fill_def Let_def)
  have old: "filter (\<lambda>i. key ((?xs @ [f]) ! i) = k) [0..<length ?xs] =
      filter (\<lambda>i. key (?xs ! i) = k) [0..<length ?xs]" for k
    by (intro filter_cong) (auto simp: nth_append)
  have none: "filter (\<lambda>i. key (?xs ! i) = k) [0..<length ?xs] = []" if "index fm k = None" for k
  proof -
    have "k \<notin> key ` set ?xs" using complete_at(1) [OF assms that] .
    then have "\<forall>i < length ?xs. key (?xs ! i) \<noteq> k" by (metis image_eqI nth_mem)
    then show ?thesis by (simp add: filter_empty_conv)
  qed
  have some: "is = filter (\<lambda>i. key (?xs ! i) = k) [0..<length ?xs]" if "index fm k = Some is" for k "is"
    using complete_at(2) [OF assms that] .
  have absent: "k \<notin> key ` set ?xs" if "index fm k = None" for k
    using complete_at(1) [OF assms that] .
  show ?thesis
    unfolding complete_def all index_record
    by (auto simp: push_index_def old none absent dest: some split: option.splits)
qed

end

interpretation by_order: keyed_index fl_order_id fm_order_fills
  by unfold_locales (simp_all add: fm_new_def fm_clear_def record_fill_def Let_def)

interpretation by_symbol: keyed_index fl_symbol fm_symbol_fills
  by unfold_locales (simp_all add: fm_new_def fm_clear_def record_fill_def Let_def)

section \<open>The store\<close>

datatype fm_cmd = FC_Record fill_record | FC_Clear

fun fm_step :: "fm_cmd \<Rightarrow> fill_manager \<Rightarrow> fill_manager" where
  "fm_step (FC_Record f) fm = record_fill f fm"
| "fm_step FC_Clear fm = fm_clear fm"

text \<open>The abstract store is the list of fills recorded since the last clear.\<close>

fun log_step :: "fm_cmd \<Rightarrow> fill_record list \<Rightarrow> fill_record list" where
  "log_step (FC_Record f) fs = fs @ [f]"
| "log_step FC_Clear fs = []"

definition fm_inv :: "fill_manager \<Rightarrow> bool" where
  "fm_inv fm \<longleftrightarrow> by_order.complete fm \<and> by_symbol.complete fm"

lemma fm_step_inv: "fm_inv fm \<Longrightarrow> fm_inv (fm_step c fm)"
  by (cases c) (simp_all add: fm_inv_def by_order.complete_record by_symbol.complete_record
      by_order.complete_clear by_symbol.complete_clear)

interpretation fills: transition_system fm_step fm_new fm_inv "\<lambda>_ _. True"
  by unfold_locales (simp_all only: fm_step_inv, simp_all add: fm_inv_def by_order.complete_new by_symbol.complete_new)

lemma fm_run_log: "fm_all_fills (run fm_step cs fm) = run log_step cs (fm_all_fills fm)"
proof (induction cs arbitrary: fm)
  case (Cons c cs)
  have "fm_all_fills (fm_step c fm) = log_step c (fm_all_fills fm)"
    by (cases c) (simp_all add: record_fill_def fm_clear_def Let_def)
  then show ?case using Cons by simp
qed simp

text \<open>Every query answers from the log: the store refines the list of fills.\<close>

lemma fm_queries:
  assumes "fm = run fm_step cs fm_new" and "lg = run log_step cs []"
  shows "get_all_fills fm = lg"
    and "get_fills_for_order k fm = filter (\<lambda>f. fl_order_id f = k) lg"
    and "get_fills_for_symbol s fm = filter (\<lambda>f. fl_symbol f = s) lg"
proof -
  have "fm_inv fm" using fills.inv_run assms(1) by simp
  moreover have all: "fm_all_fills fm = lg" using fm_run_log [of cs fm_new] assms by (simp add: fm_new_def)
  ultimately show "get_all_fills fm = lg"
    and "get_fills_for_order k fm = filter (\<lambda>f. fl_order_id f = k) lg"
    and "get_fills_for_symbol s fm = filter (\<lambda>f. fl_symbol f = s) lg"
    by (simp_all add: get_all_fills_def get_fills_for_order_def get_fills_for_symbol_def fm_inv_def
        by_order.lookup_is_filter by_symbol.lookup_is_filter)
qed

section \<open>Aggregates\<close>

lemma fold_quantity_exact:
  assumes "0 \<le> acc" and "\<forall>f \<in> set fs. 0 \<le> fl_quantity f" and "acc + (\<Sum>f \<leftarrow> fs. fl_quantity f) < 2 ^ 63"
  shows "fold (\<lambda>f tot. i64 (tot + fl_quantity f)) fs acc = acc + (\<Sum>f \<leftarrow> fs. fl_quantity f)"
  using assms
proof (induction fs arbitrary: acc)
  case (Cons f fs)
  have "0 \<le> (\<Sum>f \<leftarrow> fs. fl_quantity f)" using Cons.prems by (intro sum_list_nonneg_map) auto
  then have "i64 (acc + fl_quantity f) = acc + fl_quantity f" using Cons.prems by (intro i64_small) auto
  then show ?case using Cons.IH [of "acc + fl_quantity f"] Cons.prems by simp
qed simp

lemma cost_and_qty_exact:
  assumes "\<forall>f \<in> set fs. 0 \<le> fl_quantity f \<and> 0 \<le> fl_price f"
    and "(\<Sum>f \<leftarrow> fs. fl_price f * fl_quantity f) < 2 ^ 63" and "(\<Sum>f \<leftarrow> fs. fl_quantity f) < 2 ^ 63"
  shows "cost_and_qty fs = (\<Sum>f \<leftarrow> fs. fl_price f * fl_quantity f, \<Sum>f \<leftarrow> fs. fl_quantity f)"
proof -
  have "fold (\<lambda>f (cost, qty). (i64 (cost + i64 (fl_price f * fl_quantity f)), i64 (qty + fl_quantity f))) fs (c, q) =
      (c + (\<Sum>f \<leftarrow> fs. fl_price f * fl_quantity f), q + (\<Sum>f \<leftarrow> fs. fl_quantity f))"
    if "0 \<le> c" "0 \<le> q" "\<forall>f \<in> set fs. 0 \<le> fl_quantity f \<and> 0 \<le> fl_price f"
      "c + (\<Sum>f \<leftarrow> fs. fl_price f * fl_quantity f) < 2 ^ 63" "q + (\<Sum>f \<leftarrow> fs. fl_quantity f) < 2 ^ 63" for c q
    using that
  proof (induction fs arbitrary: c q)
    case (Cons f fs)
    have nn: "0 \<le> (\<Sum>f \<leftarrow> fs. fl_price f * fl_quantity f)" "0 \<le> (\<Sum>f \<leftarrow> fs. fl_quantity f)"
      using Cons.prems by (auto intro!: sum_list_nonneg_map)
    have pq: "0 \<le> fl_price f * fl_quantity f" "0 \<le> fl_quantity f" using Cons.prems by auto
    have "i64 (fl_price f * fl_quantity f) = fl_price f * fl_quantity f"
      and "i64 (c + fl_price f * fl_quantity f) = c + fl_price f * fl_quantity f"
      and "i64 (q + fl_quantity f) = q + fl_quantity f"
      using nn pq Cons.prems by (auto intro!: i64_small)
    then show ?case
      using Cons.IH [of "c + fl_price f * fl_quantity f" "q + fl_quantity f"] Cons.prems pq by simp
  qed simp
  from this [of 0 0] assms show ?thesis by (simp add: cost_and_qty_def)
qed

text \<open>The average is the exact volume-weighted average, truncated.\<close>

lemma average_of_exact:
  assumes "\<forall>f \<in> set fs. 0 \<le> fl_quantity f \<and> 0 \<le> fl_price f"
    and "(\<Sum>f \<leftarrow> fs. fl_price f * fl_quantity f) < 2 ^ 63" and "(\<Sum>f \<leftarrow> fs. fl_quantity f) < 2 ^ 63"
  shows "average_of fs = (\<Sum>f \<leftarrow> fs. fl_price f * fl_quantity f) div (\<Sum>f \<leftarrow> fs. fl_quantity f)"
proof -
  have "0 \<le> (\<Sum>f \<leftarrow> fs. fl_price f * fl_quantity f)" and q: "0 \<le> (\<Sum>f \<leftarrow> fs. fl_quantity f)"
    using assms(1) by (auto intro!: sum_list_nonneg_map)
  then show ?thesis
    using cost_and_qty_exact [OF assms]
    by (auto simp: average_of_def sdiv_nonneg_eq order.order_iff_strict)
qed

text \<open>An average lies between the lowest and the highest price.\<close>

lemma average_of_between:
  assumes "\<forall>f \<in> set fs. 0 \<le> fl_quantity f \<and> lo \<le> fl_price f \<and> fl_price f \<le> hi" and "0 \<le> lo"
    and "(\<Sum>f \<leftarrow> fs. fl_price f * fl_quantity f) < 2 ^ 63" and "(\<Sum>f \<leftarrow> fs. fl_quantity f) < 2 ^ 63"
    and "0 < (\<Sum>f \<leftarrow> fs. fl_quantity f)"
  shows "lo \<le> average_of fs" and "average_of fs \<le> hi"
proof -
  let ?c = "\<Sum>f \<leftarrow> fs. fl_price f * fl_quantity f" and ?q = "\<Sum>f \<leftarrow> fs. fl_quantity f"
  have "lo * ?q \<le> ?c \<and> ?c \<le> hi * ?q"
    using assms(1)
  proof (induction fs)
    case (Cons f fs)
    then have "lo * fl_quantity f \<le> fl_price f * fl_quantity f" "fl_price f * fl_quantity f \<le> hi * fl_quantity f"
      by (auto intro: mult_right_mono)
    then show ?case using Cons by (auto simp: algebra_simps)
  qed simp
  moreover have "average_of fs = ?c div ?q" using assms(1-4) by (intro average_of_exact) auto
  ultimately show "lo \<le> average_of fs" and "average_of fs \<le> hi"
    using assms(5) zdiv_mono1 [of "lo * ?q" ?c ?q] zdiv_mono1 [of ?c "hi * ?q" ?q] by simp_all
qed

lemma fm_aggregates:
  assumes "fm = run fm_step cs fm_new" and "lg = run log_step cs []"
    and "\<forall>f \<in> set lg. 0 \<le> fl_quantity f \<and> 0 \<le> fl_price f"
    and "fs = filter (\<lambda>f. fl_order_id f = k) lg"
    and "(\<Sum>f \<leftarrow> fs. fl_price f * fl_quantity f) < 2 ^ 63" and "(\<Sum>f \<leftarrow> fs. fl_quantity f) < 2 ^ 63"
  shows "total_filled_quantity k fm = (\<Sum>f \<leftarrow> fs. fl_quantity f)"
    and "average_fill_price k fm = (\<Sum>f \<leftarrow> fs. fl_price f * fl_quantity f) div (\<Sum>f \<leftarrow> fs. fl_quantity f)"
proof -
  have at: "fills_at (fm_order_fills fm k) fm = fs"
    using fm_queries(2) [OF assms(1,2), of k] by (simp add: get_fills_for_order_def assms(4))
  show "total_filled_quantity k fm = (\<Sum>f \<leftarrow> fs. fl_quantity f)"
    using fold_quantity_exact [of 0 fs] assms(3,4,6) by (simp add: total_filled_quantity_def at)
  show "average_fill_price k fm = (\<Sum>f \<leftarrow> fs. fl_price f * fl_quantity f) div (\<Sum>f \<leftarrow> fs. fl_quantity f)"
    using average_of_exact [of fs] assms(3-6) by (simp add: average_fill_price_def at)
qed

section \<open>Properties\<close>

definition sample_fill :: "order_id \<Rightarrow> price \<Rightarrow> quantity \<Rightarrow> fill_record" where
  "sample_fill k p q = \<lparr>fl_order_id = k, fl_exec_id = 0, fl_symbol = ''A'', fl_side = Buy, fl_price = p,
     fl_quantity = q, fl_venue_id = 1, fl_fee = 0, fl_timestamp = 0\<rparr>"

text \<open>
  C30: the fill store, with its vector and its two index maps, refines a plain list of fills: after
  any sequence of recordings and clears, \<open>get_all_fills\<close> is the list of fills recorded since the
  last clear and the queries by order and by symbol are the filters of that list, in order.
\<close>

theorem fill_store_refines_log:
  assumes "fm = run fm_step cs fm_new" and "lg = run log_step cs []"
  shows "get_all_fills fm = lg \<and> get_fills_for_order k fm = filter (\<lambda>f. fl_order_id f = k) lg \<and>
    get_fills_for_symbol s fm = filter (\<lambda>f. fl_symbol f = s) lg"
  using fm_queries [OF assms] by blast

theorem fill_store_refines_log_witness:
  "get_fills_for_order 7 (run fm_step [FC_Record (sample_fill 7 1 1), FC_Clear, FC_Record (sample_fill 8 2 2),
     FC_Record (sample_fill 7 3 3)] fm_new) = [sample_fill 7 3 3]"
  using fill_store_refines_log [of _ "[FC_Record (sample_fill 7 1 1), FC_Clear, FC_Record (sample_fill 8 2 2),
     FC_Record (sample_fill 7 3 3)]" _ 7, OF refl refl]
  by (simp add: sample_fill_def)

text \<open>
  as long as the sums stay in 64 bits, the total filled quantity and the average price of an
  order are the exact sum and the exact volume-weighted average (truncated) of its fills, and the
  average lies between any bounds on the fill prices.
\<close>

theorem fill_aggregates_exact:
  assumes "fm = run fm_step cs fm_new" and "lg = run log_step cs []"
    and "\<forall>f \<in> set lg. 0 \<le> fl_quantity f \<and> lo \<le> fl_price f \<and> fl_price f \<le> hi" and "0 \<le> lo"
    and "fs = filter (\<lambda>f. fl_order_id f = k) lg"
    and "(\<Sum>f \<leftarrow> fs. fl_price f * fl_quantity f) < 2 ^ 63" and "(\<Sum>f \<leftarrow> fs. fl_quantity f) < 2 ^ 63"
    and "0 < (\<Sum>f \<leftarrow> fs. fl_quantity f)"
  shows "total_filled_quantity k fm = (\<Sum>f \<leftarrow> fs. fl_quantity f) \<and>
    average_fill_price k fm = (\<Sum>f \<leftarrow> fs. fl_price f * fl_quantity f) div (\<Sum>f \<leftarrow> fs. fl_quantity f) \<and>
    lo \<le> average_fill_price k fm \<and> average_fill_price k fm \<le> hi"
proof -
  have nn: "\<forall>f \<in> set lg. 0 \<le> fl_quantity f \<and> 0 \<le> fl_price f" using assms(3,4) by force
  have "\<forall>f \<in> set fs. 0 \<le> fl_quantity f \<and> lo \<le> fl_price f \<and> fl_price f \<le> hi"
    using assms(3,5) by simp
  moreover have "average_fill_price k fm = average_of fs"
    using fm_queries(2) [OF assms(1,2), of k]
    by (simp add: average_fill_price_def get_fills_for_order_def assms(5))
  ultimately show ?thesis
    using fm_aggregates [OF assms(1,2) nn assms(5-7)] average_of_between [of fs lo hi] assms(4,6-8) by simp
qed

theorem fill_aggregates_exact_witness:
  "average_fill_price 7 (run fm_step [FC_Record (sample_fill 7 100 1), FC_Record (sample_fill 8 140 2),
     FC_Record (sample_fill 7 150 4)] fm_new) = 140"
  using fill_aggregates_exact [of _ "[FC_Record (sample_fill 7 100 1), FC_Record (sample_fill 8 140 2),
     FC_Record (sample_fill 7 150 4)]" _ 100 150 _ 7, OF refl refl _ _ refl]
  by (simp add: sample_fill_def)

end
