(* ===== verification/Venue_Adapter.thy ===== *)
theory Venue_Adapter
  imports Core_Types
begin

text \<open>
  The interface of the venue connections, from \<open>connectors/venue_adapter.h\<close>. A
  \<open>VenueAdapter\<close> is a state \<open>'v\<close> with its virtual functions in a record; reports given to the
  execution callback during a call are returned, in order.

  \<open>report_stream\<close> is the protocol of the reports on one order: an acknowledgement, fills whose
  cumulative quantities add up, one terminal report, then silence. The locale \<open>venue_adapter\<close> is
  what the router relies on: as long as it sends well-formed orders under fresh identifiers,
  everything a venue reports keeps to the protocol.
\<close>

record 'v venue_ops =
  vo_connect :: "'v \<Rightarrow> bool \<times> 'v"
  vo_disconnect :: "'v \<Rightarrow> 'v"
  vo_send :: "timestamp \<Rightarrow> order \<Rightarrow> 'v \<Rightarrow> bool \<times> execution_report list \<times> 'v"
  vo_cancel :: "cancel_request \<Rightarrow> 'v \<Rightarrow> bool \<times> execution_report list \<times> 'v"

section \<open>The protocol of a venue\<close>

text \<open>
  The reports on one order of quantity \<open>Q\<close>: an acknowledgement, then fills whose cumulative
  quantities add up, then one terminal report.
\<close>

datatype stream = Fresh | Open quantity | Closed quantity | Broken

fun stream_step :: "quantity \<Rightarrow> execution_report \<Rightarrow> stream \<Rightarrow> stream" where
  "stream_step Q r Fresh =
     (if r_state r = Accepted \<and> r_last_quantity r = 0 \<and> r_cum_quantity r = 0 \<and> r_leaves_quantity r = Q
      then Open 0 else Broken)"
| "stream_step Q r (Open c) =
     (if 0 < r_last_quantity r \<and> r_cum_quantity r = c + r_last_quantity r \<and>
         r_leaves_quantity r = Q - r_cum_quantity r
      then if r_state r = Filled \<and> r_cum_quantity r = Q then Closed Q
           else if r_state r = PartiallyFilled \<and> r_cum_quantity r < Q then Open (r_cum_quantity r)
           else Broken
      else if r_last_quantity r = 0 \<and> r_cum_quantity r = c \<and> (r_state r = Canceled \<or> r_state r = Rejected)
      then Closed c else Broken)"
| "stream_step Q r (Closed c) = Broken"
| "stream_step Q r Broken = Broken"

definition report_stream :: "quantity \<Rightarrow> execution_report list \<Rightarrow> stream" where
  "report_stream Q rs = fold (stream_step Q) rs Fresh"

definition reports_on :: "order_id \<Rightarrow> execution_report list \<Rightarrow> execution_report list" where
  "reports_on k rs = filter (\<lambda>r. r_order_id r = k) rs"

text \<open>What the stream says of the quantities: the last one is the sum of the fills.\<close>

lemma stream_closed: "fold (stream_step Q) rs (Closed c) = (if rs = [] then Closed c else Broken)"
proof -
  have "fold (stream_step Q) rs Broken = Broken" for rs by (induction rs) auto
  then show ?thesis by (cases rs) auto
qed

lemma stream_broken: "fold (stream_step Q) rs Broken = Broken"
  by (induction rs) auto

lemma stream_step_not_fresh [simp]: "stream_step Q r x \<noteq> Fresh"
  by (cases x) auto

lemma stream_sum:
  assumes "fold (stream_step Q) rs (Open c) = Open d \<or> fold (stream_step Q) rs (Open c) = Closed d"
  shows "d = c + (\<Sum>r \<leftarrow> rs. r_last_quantity r) \<and> c \<le> d \<and> (c \<le> Q \<longrightarrow> d \<le> Q)"
  using assms
proof (induction rs arbitrary: c)
  case (Cons r rs)
  show ?case
  proof (cases "stream_step Q r (Open c)")
    case (Open e)
    then have e: "e = c + r_last_quantity r" "c < e" "e < Q" by (auto split: if_splits)
    have "d = e + (\<Sum>r \<leftarrow> rs. r_last_quantity r) \<and> e \<le> d \<and> (e \<le> Q \<longrightarrow> d \<le> Q)"
      using Cons.prems Open by (intro Cons.IH) (simp del: stream_step.simps)
    with e show ?thesis by auto
  next
    case (Closed e)
    then have "e = c + r_last_quantity r" "c \<le> e" "e \<le> Q \<or> e = c" by (auto split: if_splits)
    moreover have "rs = [] \<and> d = e"
      using Cons.prems Closed by (auto simp: stream_closed simp del: stream_step.simps split: if_splits)
    ultimately show ?thesis by auto
  qed (use Cons.prems in \<open>simp_all add: stream_broken del: stream_step.simps\<close>)
qed simp

lemma reports_on_append: "reports_on k (rs @ rs') = reports_on k rs @ reports_on k rs'"
  by (simp add: reports_on_def)

lemma reports_on_all: "\<forall>r \<in> set rs. r_order_id r = j \<Longrightarrow> reports_on k rs = (if k = j then rs else [])"
  by (induction rs) (auto simp: reports_on_def)

lemma report_stream_append: "report_stream Q (rs @ rs') = fold (stream_step Q) rs' (report_stream Q rs)"
  by (simp add: report_stream_def)

definition conforms :: "execution_report list \<Rightarrow> bool" where
  "conforms rs \<longleftrightarrow> rs = [] \<or>
     0 < r_leaves_quantity (hd rs) \<and> report_stream (r_leaves_quantity (hd rs)) rs \<noteq> Broken"

definition all_conform :: "execution_report list \<Rightarrow> bool" where
  "all_conform rs \<longleftrightarrow> (\<forall>k. conforms (reports_on k rs))"

lemma report_stream_not_fresh [simp]: "rs \<noteq> [] \<Longrightarrow> report_stream Q rs \<noteq> Fresh"
  by (cases rs rule: rev_cases) (simp_all add: report_stream_def)

text \<open>What the protocol says of the last report, given the reports before it.\<close>

lemma conforms_last:
  assumes "conforms (rs @ [r])"
  shows "conforms rs" and "0 \<le> r_last_quantity r"
    and "r_state r \<in> {Accepted, PartiallyFilled, Filled, Canceled, Rejected}"
    and "0 < r_last_quantity r \<Longrightarrow> r_cum_quantity r = (\<Sum>x \<leftarrow> rs. r_last_quantity x) + r_last_quantity r"
proof -
  define Q where "Q = r_leaves_quantity (hd (rs @ [r]))"
  have Q: "0 < Q" and ok: "stream_step Q r (report_stream Q rs) \<noteq> Broken"
    using assms by (auto simp: conforms_def Q_def report_stream_append)
  then have nb: "report_stream Q rs \<noteq> Broken" by auto
  then show "conforms rs" using Q by (cases rs) (auto simp: conforms_def Q_def)
  show "0 \<le> r_last_quantity r" and "r_state r \<in> {Accepted, PartiallyFilled, Filled, Canceled, Rejected}"
    using ok by (cases "report_stream Q rs"; simp split: if_splits)+
  assume pos: "0 < r_last_quantity r"
  then obtain c where c: "report_stream Q rs = Open c" and cum: "r_cum_quantity r = c + r_last_quantity r"
    using ok by (cases "report_stream Q rs") (auto split: if_splits)
  obtain a rs' where rs: "rs = a # rs'" using c by (cases rs) (simp_all add: report_stream_def)
  have "stream_step Q a Fresh = Open 0 \<and> r_last_quantity a = 0"
    using nb by (auto simp: rs report_stream_def stream_broken split: if_splits)
  moreover from this have "fold (stream_step Q) rs' (Open 0) = Open c"
    using c by (simp add: rs report_stream_def del: stream_step.simps)
  ultimately show "r_cum_quantity r = (\<Sum>x \<leftarrow> rs. r_last_quantity x) + r_last_quantity r"
    using stream_sum [of Q rs' 0 c] cum by (simp add: rs)
qed

lemma reports_on_snoc:
  "reports_on k (rs @ [r]) = reports_on k rs @ (if r_order_id r = k then [r] else [])"
  by (simp add: reports_on_def)

lemma all_conform_snoc: "all_conform (rs @ [r]) \<Longrightarrow> conforms (reports_on (r_order_id r) rs @ [r])"
  unfolding all_conform_def by (metis reports_on_snoc)

lemma all_conform_prefix: "all_conform (rs @ rs') \<Longrightarrow> all_conform rs"
proof (induction rs' rule: rev_induct)
  case (snoc r rs')
  have "conforms (reports_on k (rs @ rs'))" for k
  proof -
    have "conforms (reports_on k ((rs @ rs') @ [r]))" using snoc.prems by (simp add: all_conform_def)
    then show ?thesis
      using conforms_last(1) [of "reports_on k (rs @ rs')" r]
      by (cases "r_order_id r = k") (simp_all only: reports_on_snoc if_True if_False append_Nil2 refl)
  qed
  with snoc.IH show ?case by (simp add: all_conform_def)
qed simp

lemma all_conform_last:
  assumes "all_conform (rs @ [r])" and "k = r_order_id r"
  shows "0 \<le> r_last_quantity r" and "r_state r \<in> {Accepted, PartiallyFilled, Filled, Canceled, Rejected}"
    and "0 < r_last_quantity r \<Longrightarrow>
      r_cum_quantity r = (\<Sum>x \<leftarrow> reports_on k rs. r_last_quantity x) + r_last_quantity r"
proof -
  have "conforms (reports_on k rs @ [r])" using all_conform_snoc [OF assms(1)] assms(2) by simp
  note this [THEN conforms_last(2)] this [THEN conforms_last(3)] conforms_last(4) [OF this]
  then show "0 \<le> r_last_quantity r" and "r_state r \<in> {Accepted, PartiallyFilled, Filled, Canceled, Rejected}"
    and "0 < r_last_quantity r \<Longrightarrow>
      r_cum_quantity r = (\<Sum>x \<leftarrow> reports_on k rs. r_last_quantity x) + r_last_quantity r"
    by blast+
qed

section \<open>The contract of a venue\<close>

definition sendable :: "order \<Rightarrow> execution_report list \<Rightarrow> bool" where
  "sendable od rs \<longleftrightarrow> 0 < o_quantity od \<and> o_quantity od < 2 ^ 63 \<and> o_filled od = 0 \<and> reports_on (o_id od) rs = []"

text \<open>The calls of the router, and what a venue does by itself (\<open>VC_Internal\<close>).\<close>

datatype 'v venue_cmd =
    VC_Connect
  | VC_Disconnect
  | VC_Send timestamp order
  | VC_Cancel cancel_request
  | VC_Internal "execution_report list" 'v

fun venue_step :: "'v venue_ops \<Rightarrow> 'v venue_cmd \<Rightarrow> 'v \<times> execution_report list \<Rightarrow> 'v \<times> execution_report list" where
  "venue_step ops VC_Connect (v, rs) = (snd (vo_connect ops v), rs)"
| "venue_step ops VC_Disconnect (v, rs) = (vo_disconnect ops v, rs)"
| "venue_step ops (VC_Send now od) (v, rs) = (let (_, rs', v') = vo_send ops now od v in (v', rs @ rs'))"
| "venue_step ops (VC_Cancel req) (v, rs) = (let (_, rs', v') = vo_cancel ops req v in (v', rs @ rs'))"
| "venue_step ops (VC_Internal rs' v') (v, rs) = (v', rs @ rs')"

fun venue_ok :: "('v \<Rightarrow> execution_report list \<times> 'v \<Rightarrow> bool) \<Rightarrow> 'v venue_cmd \<Rightarrow> 'v \<times> execution_report list \<Rightarrow> bool" where
  "venue_ok internal (VC_Send now od) (v, rs) = sendable od rs"
| "venue_ok internal (VC_Internal rs' v') (v, rs) = internal v (rs', v')"
| "venue_ok internal _ _ = True"

locale venue_adapter =
  fixes ops :: "'v venue_ops"
    and internal :: "'v \<Rightarrow> execution_report list \<times> 'v \<Rightarrow> bool"
    and good :: "'v \<times> execution_report list \<Rightarrow> bool"
    and start :: 'v
  assumes good_start: "good (start, [])"
    and good_connect: "good (v, rs) \<Longrightarrow> good (snd (vo_connect ops v), rs)"
    and good_disconnect: "good (v, rs) \<Longrightarrow> good (vo_disconnect ops v, rs)"
    and good_send: "good (v, rs) \<Longrightarrow> sendable od rs \<Longrightarrow> vo_send ops now od v = (b, rs', v') \<Longrightarrow> good (v', rs @ rs')"
    and good_cancel: "good (v, rs) \<Longrightarrow> vo_cancel ops req v = (b, rs', v') \<Longrightarrow> good (v', rs @ rs')"
    and good_internal: "good (v, rs) \<Longrightarrow> internal v (rs', v') \<Longrightarrow> good (v', rs @ rs')"
    and good_conform: "good (v, rs) \<Longrightarrow> all_conform rs"

sublocale venue_adapter \<subseteq> runs: transition_system "venue_step ops" "(start, [])" good "venue_ok internal"
proof
  show "good (start, [])" by (rule good_start)
  fix s c assume "good s" and "venue_ok internal c s"
  then show "good (venue_step ops c s)"
    by (cases s; cases c)
      (auto intro: good_connect good_disconnect good_send good_cancel good_internal split: prod.split)
qed

context venue_adapter
begin

lemma run_conforms:
  assumes "legal (venue_ok internal) (venue_step ops) cs (start, [])"
  shows "all_conform (snd (run (venue_step ops) cs (start, [])))"
  using good_conform [of "fst (run (venue_step ops) cs (start, []))"] runs.inv_run [OF assms] by simp

end

end
