(* ===== verification/Gateway.thy ===== *)
theory Gateway
  imports Routing_Engine Execution_Handler Fill_Manager Venue_Adapter
begin

text \<open>
  The gateway, from \<open>gateway/gateway.h\<close> and \<open>gateway/gateway.cpp\<close>, which owns the queues, the
  subsystems and the venues and runs the two processing loops.

  The aggregator and the risk manager the gateway owns are the ones the routing engine refers to,
  and are held in the engine's state. A queue is the list of its items with its capacity, which is
  what \<open>MPSC_Queue\<close> shows of the ring (\<open>mpsc_fifo\<close>). One iteration of a drain loop is a command:
  it takes one item and handles it, with the callbacks wired in \<open>initialize\<close>. A venue is any
  \<open>'v venue_ops\<close>; the reports it gives during a call go to the report queue. The events are what
  the environment sees: orders and cancels sent to venues and the observers' notifications.

  The loops of the two threads interleave in any order; inside one item, the steps of the two
  threads are not interleaved.
\<close>

section \<open>State\<close>

record gw_stats =
  gs_submitted :: int
  gs_routed :: int
  gs_completed :: int
  gs_rejected :: int

record 'v gateway =
  gw_running :: bool
  gw_orders :: "order list"
  gw_cancels :: "cancel_request list"
  gw_reports :: "execution_report list"
  gw_engine :: engine
  gw_exec :: exec_handler
  gw_fills :: fill_manager
  gw_venues :: "venue_id \<rightharpoonup> 'v"
  gw_next_id :: nat
  gw_stats :: gw_stats

definition ORDER_CAPACITY :: nat where "ORDER_CAPACITY = 8192"
definition CANCEL_CAPACITY :: nat where "CANCEL_CAPACITY = 4096"
definition REPORT_CAPACITY :: nat where "REPORT_CAPACITY = 8192"

datatype gw_event =
    GE_Sent venue_id order
  | GE_Canceled venue_id cancel_request
  | GE_Fill order execution_report
  | GE_Complete order

abbreviation gw_risk :: "'v gateway \<Rightarrow> risk_manager" where "gw_risk gw \<equiv> en_risk (gw_engine gw)"

definition set_risk :: "risk_manager \<Rightarrow> 'v gateway \<Rightarrow> 'v gateway" where
  "set_risk rm gw = gw\<lparr>gw_engine := (gw_engine gw)\<lparr>en_risk := rm\<rparr>\<rparr>"

definition gw_new :: "engine \<Rightarrow> 'v gateway" where
  "gw_new en = \<lparr>gw_running = False, gw_orders = [], gw_cancels = [], gw_reports = [], gw_engine = en,
     gw_exec = eh_new, gw_fills = fm_new, gw_venues = Map.empty, gw_next_id = 1,
     gw_stats = \<lparr>gs_submitted = 0, gs_routed = 0, gs_completed = 0, gs_rejected = 0\<rparr>\<rparr>"

text \<open>\<open>try_push\<close> of the queues.\<close>

definition push_bounded :: "nat \<Rightarrow> 'a \<Rightarrow> 'a list \<Rightarrow> bool \<times> 'a list" where
  "push_bounded cap x q = (if length q < cap then (True, q @ [x]) else (False, q))"

section \<open>Life cycle and venues\<close>

text \<open>The venues connected by \<open>initialize\<close> in the iteration order \<open>vids\<close>, up to the first failure.\<close>

fun connect_all :: "'v venue_ops \<Rightarrow> venue_id list \<Rightarrow> 'v gateway \<Rightarrow> bool \<times> 'v gateway" where
  "connect_all ops [] gw = (True, gw)"
| "connect_all ops (vid # vids) gw =
     (case gw_venues gw vid of
        None \<Rightarrow> connect_all ops vids gw
      | Some v \<Rightarrow>
          let (ok, v') = vo_connect ops v; gw' = gw\<lparr>gw_venues := (gw_venues gw)(vid \<mapsto> v')\<rparr>
          in if ok then connect_all ops vids gw' else (False, gw'))"

definition gw_initialize :: "'v venue_ops \<Rightarrow> venue_id list \<Rightarrow> 'v gateway \<Rightarrow> bool \<times> 'v gateway" where
  "gw_initialize ops vids gw =
     connect_all ops vids
       (gw\<lparr>gw_exec := (gw_exec gw)\<lparr>eh_fill_cb := True, eh_completion_cb := True, eh_reroute_cb := True\<rparr>\<rparr>)"

definition gw_start :: "'v gateway \<Rightarrow> 'v gateway" where
  "gw_start gw = gw\<lparr>gw_running := True\<rparr>"

definition gw_stop :: "'v venue_ops \<Rightarrow> 'v gateway \<Rightarrow> 'v gateway" where
  "gw_stop ops gw =
     (if gw_running gw
      then gw\<lparr>gw_running := False, gw_venues := (\<lambda>vid. map_option (vo_disconnect ops) (gw_venues gw vid))\<rparr>
      else gw)"

definition add_venue_adapter :: "venue_id \<Rightarrow> 'v \<Rightarrow> 'v gateway \<Rightarrow> 'v gateway" where
  "add_venue_adapter vid v gw =
     gw\<lparr>gw_engine := (gw_engine gw)\<lparr>en_market := register_venue vid (en_market (gw_engine gw))\<rparr>,
        gw_venues := (if gw_venues gw vid = None then (gw_venues gw)(vid \<mapsto> v) else gw_venues gw)\<rparr>"

section \<open>Submission\<close>

definition generate_order_id :: "'v gateway \<Rightarrow> order_id \<times> 'v gateway" where
  "generate_order_id gw = (gw_next_id gw, gw\<lparr>gw_next_id := gw_next_id gw + 1\<rparr>)"

definition submit_order :: "timestamp \<Rightarrow> order \<Rightarrow> 'v gateway \<Rightarrow> bool \<times> 'v gateway" where
  "submit_order now od gw =
     (if \<not> gw_running gw then (False, gw)
      else let (k, gw1) = (if o_id od = INVALID_ORDER_ID then generate_order_id gw else (o_id od, gw));
               od1 = od\<lparr>o_id := k, o_create_time := now\<rparr>;
               (ok, q) = push_bounded ORDER_CAPACITY od1 (gw_orders gw1)
           in if \<not> ok then (False, gw1)
              else (True, gw1\<lparr>gw_orders := q,
                     gw_stats := (gw_stats gw1)\<lparr>gs_submitted := u64 (gs_submitted (gw_stats gw1) + 1)\<rparr>\<rparr>))"

definition gw_cancel_order :: "timestamp \<Rightarrow> cancel_request \<Rightarrow> 'v gateway \<Rightarrow> bool \<times> 'v gateway" where
  "gw_cancel_order now req gw =
     (if \<not> gw_running gw then (False, gw)
      else let (ok, q) = push_bounded CANCEL_CAPACITY (req\<lparr>c_timestamp := now\<rparr>) (gw_cancels gw)
           in (ok, gw\<lparr>gw_cancels := q\<rparr>))"

text \<open>\<open>on_execution_report\<close>: reports from a venue enter the queue; the result of the push is ignored.\<close>

definition gw_push_report :: "execution_report \<Rightarrow> 'v gateway \<Rightarrow> 'v gateway" where
  "gw_push_report r gw = gw\<lparr>gw_reports := snd (push_bounded REPORT_CAPACITY r (gw_reports gw))\<rparr>"

section \<open>Processing one order\<close>

definition make_child :: "timestamp \<Rightarrow> order_id \<Rightarrow> order \<Rightarrow> slice \<Rightarrow> order" where
  "make_child now k od sl =
     snd (osm_apply_order now Submit
       (default_order\<lparr>o_id := k, o_client_order_id := o_client_order_id od, o_parent_order_id := o_id od,
          o_symbol := o_symbol od, o_side := o_side od, o_type := sl_type sl, o_tif := sl_tif sl,
          o_price := sl_price sl, o_quantity := sl_quantity sl, o_remaining := sl_quantity sl,
          o_target_venue := sl_venue sl, o_strategy := o_strategy od, o_client_id := o_client_id od,
          o_state := New, o_create_time := now\<rparr>))"

definition dispatch_child :: "'v venue_ops \<Rightarrow> timestamp \<Rightarrow> order \<Rightarrow> 'v gateway \<Rightarrow> gw_event list \<times> 'v gateway" where
  "dispatch_child ops now child gw =
     (case gw_venues gw (o_target_venue child) of
        None \<Rightarrow> ([], gw)
      | Some v \<Rightarrow>
          let (ok, rs, v') = vo_send ops now child v;
              gw' = gw\<lparr>gw_venues := (gw_venues gw)(o_target_venue child \<mapsto> v')\<rparr>
          in ([GE_Sent (o_target_venue child) child], fold gw_push_report rs gw'))"

definition send_slice :: "'v venue_ops \<Rightarrow> timestamp \<Rightarrow> order \<Rightarrow> slice \<Rightarrow> 'v gateway \<Rightarrow> gw_event list \<times> 'v gateway" where
  "send_slice ops now od sl gw =
     (let (k, gw1) = generate_order_id gw;
          child = make_child now k od sl;
          gw2 = gw1\<lparr>gw_exec := track_child_order (o_id od) child (gw_exec gw1)\<rparr>;
          gw3 = set_risk (on_order_accepted child (gw_risk gw2)) gw2
      in dispatch_child ops now child gw3)"

fun send_slices :: "'v venue_ops \<Rightarrow> timestamp \<Rightarrow> order \<Rightarrow> decision \<Rightarrow> 'v gateway \<Rightarrow> gw_event list \<times> 'v gateway" where
  "send_slices ops now od [] gw = ([], gw)"
| "send_slices ops now od (sl # d) gw =
     (let (ev, gw1) = send_slice ops now od sl gw; (ev', gw2) = send_slices ops now od d gw1
      in (ev @ ev', gw2))"

definition gw_count_rejected :: "'v gateway \<Rightarrow> 'v gateway" where
  "gw_count_rejected gw = gw\<lparr>gw_stats := (gw_stats gw)\<lparr>gs_rejected := u64 (gs_rejected (gw_stats gw) + 1)\<rparr>\<rparr>"

definition process_single_order ::
  "'v venue_ops \<Rightarrow> route_env \<Rightarrow> timestamp \<Rightarrow> order \<Rightarrow> 'v gateway \<Rightarrow> gw_event list \<times> 'v gateway" where
  "process_single_order ops e now order gw =
     (let od = snd (osm_apply_order now Submit order);
          c = check_order (now div 1000000000) od (gw_risk gw);
          gw1 = set_risk (snd c) gw
      in if fst c \<noteq> Passed then ([], gw_count_rejected gw1)
         else let gw2 = gw1\<lparr>gw_exec := track_order od (gw_exec gw1)\<rparr>;
                  (d, ev, en) = route_order e now od (gw_engine gw2);
                  gw3 = gw2\<lparr>gw_engine := en\<rparr>
              in if \<not> decision_valid d then ([], gw_count_rejected gw3)
                 else send_slices ops now od d
                   (gw3\<lparr>gw_stats := (gw_stats gw3)\<lparr>gs_routed := u64 (gs_routed (gw_stats gw3) + 1)\<rparr>\<rparr>))"

section \<open>Cancels\<close>

definition cancel_child :: "'v venue_ops \<Rightarrow> cancel_request \<Rightarrow> order_id \<Rightarrow> 'v gateway \<Rightarrow> gw_event list \<times> 'v gateway" where
  "cancel_child ops req cid gw =
     (case get_order cid (gw_exec gw) of
        None \<Rightarrow> ([], gw)
      | Some child \<Rightarrow>
          if \<not> is_active child then ([], gw)
          else case gw_venues gw (o_target_venue child) of
                 None \<Rightarrow> ([], gw)
               | Some v \<Rightarrow>
                   let creq = req\<lparr>c_order_id := cid\<rparr>;
                       (ok, rs, v') = vo_cancel ops creq v;
                       gw' = gw\<lparr>gw_venues := (gw_venues gw)(o_target_venue child \<mapsto> v')\<rparr>
                   in ([GE_Canceled (o_target_venue child) creq], fold gw_push_report rs gw'))"

fun cancel_children :: "'v venue_ops \<Rightarrow> cancel_request \<Rightarrow> order_id list \<Rightarrow> 'v gateway \<Rightarrow> gw_event list \<times> 'v gateway" where
  "cancel_children ops req [] gw = ([], gw)"
| "cancel_children ops req (cid # cids) gw =
     (let (ev, gw1) = cancel_child ops req cid gw; (ev', gw2) = cancel_children ops req cids gw1
      in (ev @ ev', gw2))"

definition process_cancel :: "'v venue_ops \<Rightarrow> cancel_request \<Rightarrow> 'v gateway \<Rightarrow> gw_event list \<times> 'v gateway" where
  "process_cancel ops req gw =
     (if get_order (c_order_id req) (gw_exec gw) = None then ([], gw)
      else cancel_children ops req (get_children (c_order_id req) (gw_exec gw)) gw)"

section \<open>Callbacks of the execution handler\<close>

definition make_fill :: "order \<Rightarrow> execution_report \<Rightarrow> fill_record" where
  "make_fill od r =
     \<lparr>fl_order_id = r_order_id r, fl_exec_id = r_exec_id r, fl_symbol = o_symbol od, fl_side = o_side od,
      fl_price = r_last_price r, fl_quantity = r_last_quantity r, fl_venue_id = r_venue_id r, fl_fee = 0,
      fl_timestamp = r_timestamp r\<rparr>"

definition reroute_order :: "order \<Rightarrow> order" where
  "reroute_order p = p\<lparr>o_quantity := o_remaining p, o_filled := 0, o_state := New\<rparr>"

fun gw_callback ::
  "'v venue_ops \<Rightarrow> route_env \<Rightarrow> timestamp \<Rightarrow> eh_event \<Rightarrow> 'v gateway \<Rightarrow> gw_event list \<times> 'v gateway" where
  "gw_callback ops e now (EV_Fill od r) gw =
     ([GE_Fill od r],
      set_risk (on_fill (o_symbol od) (o_side od) (r_last_quantity r) (r_last_price r) (gw_risk gw))
        (gw\<lparr>gw_fills := record_fill (make_fill od r) (gw_fills gw)\<rparr>))"
| "gw_callback ops e now (EV_Complete od) gw =
     ([GE_Complete od],
      gw\<lparr>gw_stats := (gw_stats gw)\<lparr>gs_completed := u64 (gs_completed (gw_stats gw) + 1)\<rparr>\<rparr>)"
| "gw_callback ops e now (EV_Reroute p) gw = process_single_order ops e now (reroute_order p) gw"

fun gw_callbacks ::
  "'v venue_ops \<Rightarrow> route_env \<Rightarrow> timestamp \<Rightarrow> eh_event list \<Rightarrow> 'v gateway \<Rightarrow> gw_event list \<times> 'v gateway" where
  "gw_callbacks ops e now [] gw = ([], gw)"
| "gw_callbacks ops e now (v # evs) gw =
     (let (ev, gw1) = gw_callback ops e now v gw; (ev', gw2) = gw_callbacks ops e now evs gw1
      in (ev @ ev', gw2))"

section \<open>The loops\<close>

definition order_loop_step ::
  "'v venue_ops \<Rightarrow> route_env \<Rightarrow> timestamp \<Rightarrow> 'v gateway \<Rightarrow> gw_event list \<times> 'v gateway" where
  "order_loop_step ops e now gw =
     (case gw_orders gw of
        [] \<Rightarrow> ([], gw)
      | od # q \<Rightarrow> process_single_order ops e now od (gw\<lparr>gw_orders := q\<rparr>))"

definition cancel_loop_step :: "'v venue_ops \<Rightarrow> 'v gateway \<Rightarrow> gw_event list \<times> 'v gateway" where
  "cancel_loop_step ops gw =
     (case gw_cancels gw of
        [] \<Rightarrow> ([], gw)
      | req # q \<Rightarrow> process_cancel ops req (gw\<lparr>gw_cancels := q\<rparr>))"

definition exec_loop_step ::
  "'v venue_ops \<Rightarrow> route_env \<Rightarrow> timestamp \<Rightarrow> 'v gateway \<Rightarrow> gw_event list \<times> 'v gateway" where
  "exec_loop_step ops e now gw =
     (case gw_reports gw of
        [] \<Rightarrow> ([], gw)
      | r # q \<Rightarrow>
          let (evs, ex) = on_execution_report now r (gw_exec gw)
          in gw_callbacks ops e now evs (gw\<lparr>gw_reports := q, gw_exec := ex\<rparr>))"

section \<open>What happens to the risk manager\<close>

text \<open>
  Whatever the gateway does, its risk manager sees checks, accepted orders and fills only, and
  the fills are the records added to the fill store, one for one.
\<close>

fun is_fill :: "risk_cmd \<Rightarrow> bool" where
  "is_fill (RC_Fill _ _ _ _) = True"
| "is_fill _ = False"

definition fill_cmd :: "fill_record \<Rightarrow> risk_cmd" where
  "fill_cmd f = RC_Fill (fl_symbol f) (fl_side f) (fl_quantity f) (fl_price f)"

definition fills_of :: "gw_event list \<Rightarrow> fill_record list" where
  "fills_of evs = concat (map (\<lambda>x. case x of GE_Fill od r \<Rightarrow> [make_fill od r] | _ \<Rightarrow> []) evs)"

definition via_risk :: "'v gateway \<Rightarrow> gw_event list \<Rightarrow> 'v gateway \<Rightarrow> bool" where
  "via_risk gw ev gw' \<longleftrightarrow>
     (\<exists>cs. list_all gateway_cmd cs \<and> gw_risk gw' = run risk_step cs (gw_risk gw) \<and>
        gw_fills gw' = run fm_step (map FC_Record (fills_of ev)) (gw_fills gw) \<and>
        filter is_fill cs = map fill_cmd (fills_of ev))"

lemma fills_of_simps [simp]:
  "fills_of [] = []" "fills_of (ev @ ev') = fills_of ev @ fills_of ev'"
  "fills_of (GE_Fill od r # ev) = make_fill od r # fills_of ev" "fills_of (GE_Sent v od # ev) = fills_of ev"
  "fills_of (GE_Complete od # ev) = fills_of ev" "fills_of (GE_Canceled v c # ev) = fills_of ev"
  by (simp_all add: fills_of_def)

lemma via_riskI:
  assumes "list_all gateway_cmd cs" and "gw_risk gw' = run risk_step cs (gw_risk gw)"
    and "gw_fills gw' = run fm_step (map FC_Record (fills_of ev)) (gw_fills gw)"
    and "filter is_fill cs = map fill_cmd (fills_of ev)"
  shows "via_risk gw ev gw'"
  using assms unfolding via_risk_def by blast

lemma via_risk_same: "gw_risk gw' = gw_risk gw \<Longrightarrow> gw_fills gw' = gw_fills gw \<Longrightarrow> fills_of ev = [] \<Longrightarrow> via_risk gw ev gw'"
  by (rule via_riskI [of "[]"]) simp_all

lemma via_risk_trans: "via_risk a ev b \<Longrightarrow> via_risk b ev' c \<Longrightarrow> via_risk a (ev @ ev') c"
proof -
  assume "via_risk a ev b" and "via_risk b ev' c"
  then obtain cs cs' where "list_all gateway_cmd cs" "gw_risk b = run risk_step cs (gw_risk a)"
      "gw_fills b = run fm_step (map FC_Record (fills_of ev)) (gw_fills a)" "filter is_fill cs = map fill_cmd (fills_of ev)"
      "list_all gateway_cmd cs'" "gw_risk c = run risk_step cs' (gw_risk b)"
      "gw_fills c = run fm_step (map FC_Record (fills_of ev')) (gw_fills b)"
      "filter is_fill cs' = map fill_cmd (fills_of ev')"
    unfolding via_risk_def by blast
  then show ?thesis by (intro via_riskI [of "cs @ cs'"]) (simp_all add: run_append)
qed

lemma via_risk_queues [simp]:
  "via_risk (gw\<lparr>gw_orders := q\<rparr>) ev gw' = via_risk gw ev gw'"
  "via_risk (gw\<lparr>gw_reports := rs, gw_exec := ex\<rparr>) ev gw' = via_risk gw ev gw'"
  by (simp_all add: via_risk_def)

lemma set_risk_frame [simp]:
  "gw_risk (set_risk rm gw) = rm" "gw_fills (set_risk rm gw) = gw_fills gw" "gw_exec (set_risk rm gw) = gw_exec gw"
  "gw_orders (set_risk rm gw) = gw_orders gw" "gw_reports (set_risk rm gw) = gw_reports gw"
  "gw_venues (set_risk rm gw) = gw_venues gw" "gw_stats (set_risk rm gw) = gw_stats gw"
  "gw_next_id (set_risk rm gw) = gw_next_id gw" "gw_running (set_risk rm gw) = gw_running gw"
  "en_market (gw_engine (set_risk rm gw)) = en_market (gw_engine gw)"
  by (simp_all add: set_risk_def)

lemma count_rejected_frame [simp]:
  "gw_engine (gw_count_rejected gw) = gw_engine gw" "gw_fills (gw_count_rejected gw) = gw_fills gw"
  "gw_exec (gw_count_rejected gw) = gw_exec gw" "gw_orders (gw_count_rejected gw) = gw_orders gw"
  "gw_next_id (gw_count_rejected gw) = gw_next_id gw"
  by (simp_all add: gw_count_rejected_def)

lemma push_reports_frame [simp]:
  "gw_engine (fold gw_push_report rs gw) = gw_engine gw" "gw_fills (fold gw_push_report rs gw) = gw_fills gw"
  "gw_exec (fold gw_push_report rs gw) = gw_exec gw" "gw_orders (fold gw_push_report rs gw) = gw_orders gw"
  "gw_venues (fold gw_push_report rs gw) = gw_venues gw" "gw_stats (fold gw_push_report rs gw) = gw_stats gw"
  "gw_next_id (fold gw_push_report rs gw) = gw_next_id gw"
  by (induction rs arbitrary: gw) (simp_all add: gw_push_report_def)

text \<open>What dispatching a child leaves alone.\<close>

lemma dispatch_child_frame:
  assumes "dispatch_child ops now child gw = (ev, gw')"
  shows "gw_engine gw' = gw_engine gw" "gw_fills gw' = gw_fills gw" "gw_exec gw' = gw_exec gw"
    "gw_orders gw' = gw_orders gw" "gw_stats gw' = gw_stats gw" "gw_next_id gw' = gw_next_id gw"
    "ev = (if gw_venues gw (o_target_venue child) = None then [] else [GE_Sent (o_target_venue child) child])"
    "(gw_venues gw' k = None) = (gw_venues gw k = None)"
  using assms by (auto simp: dispatch_child_def split: option.splits prod.splits if_splits)

lemma send_slice_frame:
  assumes "send_slice ops now od sl gw = (ev, gw')"
  defines "child \<equiv> make_child now (gw_next_id gw) od sl"
  shows "gw_risk gw' = on_order_accepted child (gw_risk gw)" "gw_fills gw' = gw_fills gw"
    "gw_exec gw' = track_child_order (o_id od) child (gw_exec gw)" "gw_orders gw' = gw_orders gw"
    "gw_stats gw' = gw_stats gw" "gw_next_id gw' = gw_next_id gw + 1"
    "ev = (if gw_venues gw (o_target_venue child) = None then [] else [GE_Sent (o_target_venue child) child])"
    "(gw_venues gw' k = None) = (gw_venues gw k = None)"
proof -
  define gw3 where "gw3 = set_risk (on_order_accepted child (gw_risk gw))
    (gw\<lparr>gw_next_id := gw_next_id gw + 1, gw_exec := track_child_order (o_id od) child (gw_exec gw)\<rparr>)"
  have "dispatch_child ops now child gw3 = (ev, gw')"
    using assms(1) by (simp add: send_slice_def generate_order_id_def Let_def gw3_def child_def)
  note fr = dispatch_child_frame [OF this]
  show "gw_risk gw' = on_order_accepted child (gw_risk gw)" "gw_fills gw' = gw_fills gw"
    "gw_exec gw' = track_child_order (o_id od) child (gw_exec gw)" "gw_orders gw' = gw_orders gw"
    "gw_stats gw' = gw_stats gw" "gw_next_id gw' = gw_next_id gw + 1"
    "ev = (if gw_venues gw (o_target_venue child) = None then [] else [GE_Sent (o_target_venue child) child])"
    "(gw_venues gw' k = None) = (gw_venues gw k = None)"
    using fr by (simp_all add: gw3_def)
qed

lemma send_slice_risk:
  assumes "send_slice ops now od sl gw = (ev, gw')"
  shows "via_risk gw ev gw'"
  using send_slice_frame [OF assms]
  by (intro via_riskI [of "[RC_Accept (make_child now (gw_next_id gw) od sl)]"]) simp_all

lemma send_slices_risk: "send_slices ops now od d gw = (ev, gw') \<Longrightarrow> via_risk gw ev gw'"
proof (induction d arbitrary: gw ev gw')
  case (Cons sl d)
  obtain ev1 gw1 where 1: "send_slice ops now od sl gw = (ev1, gw1)" by fastforce
  obtain ev2 gw2 where 2: "send_slices ops now od d gw1 = (ev2, gw2)" by fastforce
  have "gw2 = gw'" "ev = ev1 @ ev2" using Cons.prems by (simp_all add: 1 2)
  then show ?case using via_risk_trans [OF send_slice_risk [OF 1] Cons.IH [OF 2]] by simp
qed (simp add: via_risk_same)

lemma route_order_risk:
  assumes "route_order e now od en = (d, evs, en')"
  shows "en_risk en' = en_risk en \<or> en_risk en' = risk_step (RC_Check (now div 1000000000) od) (en_risk en)"
    and "en_market en' = en_market en"
  using assms
  by (auto simp: route_order_def en_reject_def en_accept_def dispatch_order_def Let_def
      split: option.splits if_splits)

text \<open>The three ways \<open>process_single_order\<close> goes.\<close>

lemma process_cases:
  assumes "process_single_order ops e now order gw = (ev, gw')"
    and "od = snd (osm_apply_order now Submit order)"
    and "c = check_order (now div 1000000000) od (gw_risk gw)" and "gw1 = set_risk (snd c) gw"
  obtains (refused) "fst c \<noteq> Passed" "ev = []" "gw' = gw_count_rejected gw1"
  | (unrouted) evs en where "fst c = Passed" "route_order e now od (gw_engine gw1) = ([], evs, en)" "ev = []"
      "gw' = gw_count_rejected (gw1\<lparr>gw_exec := track_order od (gw_exec gw1), gw_engine := en\<rparr>)"
  | (routed) d evs en where "fst c = Passed" "route_order e now od (gw_engine gw1) = (d, evs, en)" "d \<noteq> []"
      "send_slices ops now od d (gw1\<lparr>gw_exec := track_order od (gw_exec gw1), gw_engine := en,
         gw_stats := (gw_stats gw1)\<lparr>gs_routed := u64 (gs_routed (gw_stats gw1) + 1)\<rparr>\<rparr>) = (ev, gw')"
proof (cases "fst c = Passed")
  case False
  then show ?thesis using refused assms by (simp add: process_single_order_def Let_def)
next
  case True
  obtain d evs en where r: "route_order e now od (gw_engine gw1) = (d, evs, en)" by (metis prod_cases3)
  show ?thesis
  proof (cases "d = []")
    case d: True
    then show ?thesis using unrouted [of evs en] assms True r
      by (simp add: process_single_order_def Let_def decision_valid_def)
  next
    case False
    then show ?thesis using routed [of d evs en] assms True r
      by (simp add: process_single_order_def Let_def decision_valid_def)
  qed
qed

lemma process_risk:
  assumes "process_single_order ops e now order gw = (ev, gw')"
  shows "via_risk gw ev gw'"
proof -
  define od where "od = snd (osm_apply_order now Submit order)"
  let ?t = "now div 1000000000"
  define gw1 where "gw1 = set_risk (snd (check_order ?t od (gw_risk gw))) gw"
  have check: "via_risk gw [] x" if "gw_risk x = gw_risk gw1" "gw_fills x = gw_fills gw1" for x
    using that by (intro via_riskI [of "[RC_Check ?t od]"]) (simp_all add: gw1_def)
  have route: "via_risk gw [] x" if r: "route_order e now od (gw_engine gw1) = (d, evs, en)"
    and "gw_risk x = en_risk en" "gw_fills x = gw_fills gw1" for x d evs en
  proof -
    have "via_risk gw1 [] x"
      using route_order_risk(1) [OF r]
    proof
      assume "en_risk en = gw_risk gw1"
      then show ?thesis using that by (intro via_risk_same) simp_all
    next
      assume "en_risk en = risk_step (RC_Check ?t od) (gw_risk gw1)"
      then show ?thesis using that by (intro via_riskI [of "[RC_Check ?t od]"]) simp_all
    qed
    then show ?thesis using via_risk_trans [OF check [of gw1]] by fastforce
  qed
  show ?thesis
  proof (cases rule: process_cases [OF assms od_def refl gw1_def, case_names refused unrouted routed])
    case refused
    then show ?thesis using check by simp
  next
    case (unrouted evs en)
    then show ?thesis using route by simp
  next
    case (routed d evs en)
    show ?thesis
      by (rule via_risk_trans [OF route [OF routed(2)] send_slices_risk [OF routed(4)], simplified])
  qed
qed

lemma callback_risk: "gw_callback ops e now v gw = (ev, gw') \<Longrightarrow> via_risk gw ev gw'"
proof (cases v)
  case (EV_Fill od r)
  assume "gw_callback ops e now v gw = (ev, gw')"
  then show ?thesis
    by (intro via_riskI [of "[RC_Fill (o_symbol od) (o_side od) (r_last_quantity r) (r_last_price r)]"])
      (auto simp: EV_Fill fill_cmd_def make_fill_def)
qed (auto intro: via_risk_same process_risk)

lemma callbacks_risk: "gw_callbacks ops e now evs gw = (ev, gw') \<Longrightarrow> via_risk gw ev gw'"
proof (induction evs arbitrary: gw ev gw')
  case (Cons v evs)
  obtain ev1 gw1 where 1: "gw_callback ops e now v gw = (ev1, gw1)" by fastforce
  obtain ev2 gw2 where 2: "gw_callbacks ops e now evs gw1 = (ev2, gw2)" by fastforce
  have "gw2 = gw'" "ev = ev1 @ ev2" using Cons.prems by (simp_all add: 1 2)
  then show ?case using via_risk_trans [OF callback_risk [OF 1] Cons.IH [OF 2]] by simp
qed (simp add: via_risk_same)

lemma cancel_child_frame:
  assumes "cancel_child ops req cid gw = (ev, gw')"
  shows "gw_engine gw' = gw_engine gw" "gw_fills gw' = gw_fills gw" "gw_exec gw' = gw_exec gw"
    "gw_orders gw' = gw_orders gw" "gw_stats gw' = gw_stats gw" "\<forall>x \<in> set ev. \<exists>v c. x = GE_Canceled v c"
  using assms by (auto simp: cancel_child_def Let_def split: option.splits prod.splits if_splits)

lemma cancel_children_frame:
  assumes "cancel_children ops req cids gw = (ev, gw')"
  shows "gw_engine gw' = gw_engine gw \<and> gw_fills gw' = gw_fills gw \<and> gw_exec gw' = gw_exec gw \<and>
    gw_orders gw' = gw_orders gw \<and> gw_stats gw' = gw_stats gw \<and> (\<forall>x \<in> set ev. \<exists>v c. x = GE_Canceled v c)"
  using assms
proof (induction cids arbitrary: gw ev gw')
  case (Cons cid cids)
  obtain ev1 gw1 where 1: "cancel_child ops req cid gw = (ev1, gw1)" by fastforce
  obtain ev2 gw2 where 2: "cancel_children ops req cids gw1 = (ev2, gw2)" by fastforce
  show ?case using Cons.prems cancel_child_frame [OF 1] Cons.IH [OF 2] by (auto simp: 1 2)
qed simp

section \<open>The gateway as a transition system\<close>

text \<open>
  The commands: calls of the public interface, one iteration of each loop, reports that a venue
  gives by itself, and calls on the subsystems that the accessors expose. The trace collects the
  events.
\<close>

datatype 'v gw_cmd =
    GC_Start | GC_Stop | GC_Init "venue_id list"
  | GC_Venue venue_id 'v
  | GC_Submit timestamp order | GC_Cancel timestamp cancel_request
  | GC_Order_Loop timestamp | GC_Cancel_Loop | GC_Exec_Loop timestamp
  | GC_Reports venue_id 'v "execution_report list"
  | GC_Risk risk_cmd | GC_Market agg_cmd | GC_Strategy "strategy_obj option" | GC_Score venue_id venue_score

fun gw_exec_cmd :: "'v venue_ops \<Rightarrow> route_env \<Rightarrow> 'v gw_cmd \<Rightarrow> 'v gateway \<Rightarrow> gw_event list \<times> 'v gateway" where
  "gw_exec_cmd ops e GC_Start gw = ([], gw_start gw)"
| "gw_exec_cmd ops e GC_Stop gw = ([], gw_stop ops gw)"
| "gw_exec_cmd ops e (GC_Init vids) gw = ([], snd (gw_initialize ops vids gw))"
| "gw_exec_cmd ops e (GC_Venue vid v) gw = ([], add_venue_adapter vid v gw)"
| "gw_exec_cmd ops e (GC_Submit now od) gw = ([], snd (submit_order now od gw))"
| "gw_exec_cmd ops e (GC_Cancel now req) gw = ([], snd (gw_cancel_order now req gw))"
| "gw_exec_cmd ops e (GC_Order_Loop now) gw = (if gw_running gw then order_loop_step ops e now gw else ([], gw))"
| "gw_exec_cmd ops e GC_Cancel_Loop gw = (if gw_running gw then cancel_loop_step ops gw else ([], gw))"
| "gw_exec_cmd ops e (GC_Exec_Loop now) gw = (if gw_running gw then exec_loop_step ops e now gw else ([], gw))"
| "gw_exec_cmd ops e (GC_Reports vid v rs) gw =
     ([], fold gw_push_report rs (gw\<lparr>gw_venues := (gw_venues gw)(vid \<mapsto> v)\<rparr>))"
| "gw_exec_cmd ops e (GC_Risk c) gw = ([], set_risk (risk_step c (gw_risk gw)) gw)"
| "gw_exec_cmd ops e (GC_Market c) gw =
     ([], gw\<lparr>gw_engine := (gw_engine gw)\<lparr>en_market := agg_step c (en_market (gw_engine gw))\<rparr>\<rparr>)"
| "gw_exec_cmd ops e (GC_Strategy obj) gw = ([], gw\<lparr>gw_engine := register_strategy obj (gw_engine gw)\<rparr>)"
| "gw_exec_cmd ops e (GC_Score vid s) gw = ([], gw\<lparr>gw_engine := update_venue_score vid s (gw_engine gw)\<rparr>)"

type_synonym 'v gw_sys = "'v gateway \<times> gw_event list"

definition gw_step :: "'v venue_ops \<Rightarrow> route_env \<Rightarrow> 'v gw_cmd \<Rightarrow> 'v gw_sys \<Rightarrow> 'v gw_sys" where
  "gw_step ops e c s = (let (ev, gw') = gw_exec_cmd ops e c (fst s) in (gw', snd s @ ev))"

lemma connect_all_frame [simp]:
  "gw_engine (snd (connect_all ops vids gw)) = gw_engine gw \<and> gw_fills (snd (connect_all ops vids gw)) = gw_fills gw \<and>
   gw_exec (snd (connect_all ops vids gw)) = gw_exec gw \<and> gw_orders (snd (connect_all ops vids gw)) = gw_orders gw \<and>
   gw_stats (snd (connect_all ops vids gw)) = gw_stats gw"
  by (induction vids arbitrary: gw) (auto simp: Let_def split: option.split prod.split)

lemma submit_frame [simp]:
  "gw_engine (snd (submit_order now od gw)) = gw_engine gw" "gw_fills (snd (submit_order now od gw)) = gw_fills gw"
  "gw_exec (snd (submit_order now od gw)) = gw_exec gw"
  by (auto simp: submit_order_def generate_order_id_def Let_def split: prod.split)

text \<open>Every command that is not a direct call on the risk manager.\<close>

lemma order_loop_risk: "order_loop_step ops e now gw = (ev, gw') \<Longrightarrow> via_risk gw ev gw'"
  using process_risk [of ops e now _ "gw\<lparr>gw_orders := _\<rparr>" ev gw']
  by (cases "gw_orders gw") (auto simp: order_loop_step_def via_risk_same)

lemma exec_loop_risk: "exec_loop_step ops e now gw = (ev, gw') \<Longrightarrow> via_risk gw ev gw'"
  using callbacks_risk [of ops e now _ "gw\<lparr>gw_reports := _, gw_exec := _\<rparr>" ev gw']
  by (cases "gw_reports gw") (auto simp: exec_loop_step_def via_risk_same split: prod.splits)

lemma cancel_loop_frame:
  assumes "cancel_loop_step ops gw = (ev, gw')"
  shows "gw_engine gw' = gw_engine gw \<and> gw_fills gw' = gw_fills gw \<and> gw_exec gw' = gw_exec gw \<and>
    gw_orders gw' = gw_orders gw \<and> gw_stats gw' = gw_stats gw \<and> (\<forall>x \<in> set ev. \<exists>v c. x = GE_Canceled v c)"
  using assms
  by (auto simp: cancel_loop_step_def process_cancel_def split: list.splits if_splits dest!: cancel_children_frame)

lemma fills_of_none: "\<forall>x \<in> set ev. \<forall>od r. x \<noteq> GE_Fill od r \<Longrightarrow> fills_of ev = []"
  by (induction ev) (auto simp: fills_of_def split: gw_event.splits)

lemma exec_cmd_risk:
  assumes "gw_exec_cmd ops e c gw = (ev, gw')" and "\<And>rc. c \<noteq> GC_Risk rc"
  shows "via_risk gw ev gw'"
proof (cases c)
  case GC_Cancel_Loop
  then show ?thesis using assms(1) cancel_loop_frame [of ops gw ev gw'] fills_of_none [of ev]
    by (cases "gw_running gw") (auto intro!: via_risk_same)
next
  case (GC_Order_Loop now)
  then show ?thesis using assms(1) by (cases "gw_running gw") (auto intro: order_loop_risk via_risk_same)
next
  case (GC_Exec_Loop now)
  then show ?thesis using assms(1) by (cases "gw_running gw") (auto intro: exec_loop_risk via_risk_same)
qed (use assms in \<open>auto simp: gw_start_def gw_stop_def gw_initialize_def add_venue_adapter_def gw_cancel_order_def
       push_bounded_def register_strategy_def update_venue_score_def Let_def
       intro!: via_risk_same split: option.splits prod.splits\<close>)

section \<open>The kill switch stops every order\<close>

definition sent_orders :: "gw_event list \<Rightarrow> order list" where
  "sent_orders evs = concat (map (\<lambda>x. case x of GE_Sent v od \<Rightarrow> [od] | _ \<Rightarrow> []) evs)"

lemma sent_orders_simps [simp]:
  "sent_orders [] = []" "sent_orders (ev @ ev') = sent_orders ev @ sent_orders ev'"
  "sent_orders (GE_Fill od r # ev) = sent_orders ev" "sent_orders (GE_Sent v od # ev) = od # sent_orders ev"
  "sent_orders (GE_Complete od # ev) = sent_orders ev" "sent_orders (GE_Canceled v c # ev) = sent_orders ev"
  by (simp_all add: sent_orders_def)

lemma sent_orders_none: "\<forall>x \<in> set ev. \<forall>v od. x \<noteq> GE_Sent v od \<Longrightarrow> sent_orders ev = []"
  by (induction ev) (auto simp: sent_orders_def split: gw_event.splits)

lemma via_risk_kill: "via_risk gw ev gw' \<Longrightarrow> is_kill_switch_active (gw_risk gw) \<Longrightarrow> is_kill_switch_active (gw_risk gw')"
proof -
  assume "via_risk gw ev gw'" and kill: "is_kill_switch_active (gw_risk gw)"
  then obtain cs where "list_all gateway_cmd cs" and "gw_risk gw' = run risk_step cs (gw_risk gw)"
    by (auto simp: via_risk_def)
  moreover from this(1) have "RC_Unkill \<notin> set cs" by (auto simp: list_all_iff)
  ultimately show ?thesis using kill_switch_persists_run [OF kill] by simp
qed

lemma process_kill:
  assumes "is_kill_switch_active (gw_risk gw)" and "process_single_order ops e now order gw = (ev, gw')"
  shows "ev = []"
  using assms by (cases rule: process_cases [OF assms(2) refl refl refl]) (simp_all add: kill_switch_blocks)

lemma callback_kill:
  assumes "is_kill_switch_active (gw_risk gw)" and "gw_callback ops e now v gw = (ev, gw')"
  shows "sent_orders ev = []"
proof (cases v)
  case (EV_Reroute p)
  then have "ev = []" using process_kill [OF assms(1), of ops e now "reroute_order p"] assms(2) by simp
  then show ?thesis by simp
qed (use assms(2) in auto)

lemma callbacks_kill:
  assumes "is_kill_switch_active (gw_risk gw)" and "gw_callbacks ops e now evs gw = (ev, gw')"
  shows "sent_orders ev = []"
  using assms
proof (induction evs arbitrary: gw ev gw')
  case (Cons v evs)
  obtain ev1 gw1 where 1: "gw_callback ops e now v gw = (ev1, gw1)" by fastforce
  obtain ev2 gw2 where 2: "gw_callbacks ops e now evs gw1 = (ev2, gw2)" by fastforce
  from Cons.IH [OF via_risk_kill [OF callback_risk [OF 1] Cons.prems(1)] 2] callback_kill [OF Cons.prems(1) 1]
  show ?case using Cons.prems(2) by (auto simp: 1 2)
qed simp

lemma order_loop_kill:
  assumes "is_kill_switch_active (gw_risk gw)" and "order_loop_step ops e now gw = (ev, gw')"
  shows "ev = []"
proof (cases "gw_orders gw")
  case (Cons od q)
  have "process_single_order ops e now od (gw\<lparr>gw_orders := q\<rparr>) = (ev, gw')"
    using assms(2) by (simp add: order_loop_step_def Cons)
  then show ?thesis by (rule process_kill [rotated]) (use assms(1) in simp)
qed (use assms(2) in \<open>simp add: order_loop_step_def\<close>)

lemma exec_cmd_kill:
  assumes kill: "is_kill_switch_active (gw_risk gw)" and c: "gw_exec_cmd ops e c gw = (ev, gw')" "c \<noteq> GC_Risk RC_Unkill"
  shows "sent_orders ev = []" and "is_kill_switch_active (gw_risk gw')"
proof -
  show "is_kill_switch_active (gw_risk gw')"
  proof (cases "\<exists>rc. c = GC_Risk rc")
    case True
    then obtain rc where rc: "c = GC_Risk rc" by blast
    then show ?thesis using kill_switch_persists [OF kill, of rc] c by auto
  next
    case False
    then show ?thesis using via_risk_kill [OF exec_cmd_risk [OF c(1)] kill] by blast
  qed
  show "sent_orders ev = []"
  proof (cases c)
    case (GC_Order_Loop now)
    then have "ev = []" using c(1) order_loop_kill [OF kill] by (cases "gw_running gw") auto
    then show ?thesis by simp
  next
    case GC_Cancel_Loop
    then show ?thesis using c(1) cancel_loop_frame [of ops gw ev gw']
      by (cases "gw_running gw") (auto intro: sent_orders_none)
  next
    case (GC_Exec_Loop now)
    then show ?thesis
      using c(1) kill callbacks_kill [of "gw\<lparr>gw_reports := tl (gw_reports gw), gw_exec := _\<rparr>" ops e now _ ev gw']
      by (auto simp: exec_loop_step_def split: list.splits if_splits prod.splits)
  qed (use c(1) in auto)
qed

lemma run_kill:
  assumes "is_kill_switch_active (gw_risk gw)" and "GC_Risk RC_Unkill \<notin> set cs"
    and "run (gw_step ops e) cs (gw, tr) = (gw', tr')"
  shows "sent_orders tr' = sent_orders tr \<and> is_kill_switch_active (gw_risk gw')"
  using assms
proof (induction cs arbitrary: gw tr)
  case (Cons c cs)
  obtain ev gw1 where 1: "gw_exec_cmd ops e c gw = (ev, gw1)" by fastforce
  have "c \<noteq> GC_Risk RC_Unkill" using Cons.prems(2) by auto
  note k = exec_cmd_kill [OF Cons.prems(1) 1 this]
  have "run (gw_step ops e) cs (gw1, tr @ ev) = (gw', tr')" using Cons.prems(3)
    unfolding run.simps gw_step_def [of ops e c] by (simp add: 1)
  from Cons.IH [OF k(2) _ this] Cons.prems(2) k(1) show ?case by simp
qed simp

section \<open>Positions and fills agree\<close>

definition net_of :: "symbol \<Rightarrow> fill_record list \<Rightarrow> int" where
  "net_of symb fs = (\<Sum>f \<leftarrow> filter (\<lambda>f. fl_symbol f = symb) fs. exact_delta (fl_side f) (fl_quantity f))"

lemma net_of_simps [simp]:
  "net_of symb [] = 0" "net_of symb (fs @ fs') = net_of symb fs + net_of symb fs'"
  "net_of symb (f # fs) = (if fl_symbol f = symb then exact_delta (fl_side f) (fl_quantity f) else 0) + net_of symb fs"
  by (simp_all add: net_of_def)

lemma i64_add_signed: "i64 (i64 x + signed_delta s q) = i64 (x + exact_delta s q)"
proof -
  have "i64 (i64 x + i64 y) = i64 (x + y)" for y
    using swrap_swrap_add [of 64 x "i64 y"] swrap_swrap_add [of 64 y x] by (simp add: add.commute)
  moreover have "signed_delta s q = q \<or> signed_delta s q = i64 (- q)" and "exact_delta Buy q = q" "exact_delta Sell q = - q"
    by (simp_all add: signed_delta_def exact_delta_def)
  ultimately show ?thesis using swrap_swrap_add [of 64 x q]
    by (cases s) (simp_all add: signed_delta_def exact_delta_def)
qed

text \<open>Only fills move a net position.\<close>

lemma risk_step_net:
  assumes "\<not> is_fill c"
  shows "pos_net (get_position symb (risk_step c rm)) = pos_net (get_position symb rm)"
proof (cases c)
  case (RC_Check now od)
  then show ?thesis by (simp add: get_position_eq check_order_positions)
next
  case (RC_Accept od)
  then show ?thesis by (simp add: get_position_eq on_order_accepted_def Let_def)
next
  case (RC_Cancel od)
  then show ?thesis by (simp add: get_position_eq on_order_canceled_def release_order_def Let_def)
next
  case (RC_Reject od)
  then show ?thesis by (simp add: get_position_eq on_order_rejected_def release_order_def Let_def)
qed (use assms in \<open>simp_all add: get_position_def set_global_limits_def set_symbol_limits_def
       activate_kill_switch_def deactivate_kill_switch_def check_rate_limit_def Let_def split: prod.split\<close>)

lemma risk_run_net:
  assumes "filter is_fill cs = map fill_cmd fs" and "pos_net (get_position symb rm) = i64 x"
  shows "pos_net (get_position symb (run risk_step cs rm)) = i64 (x + net_of symb fs)"
  using assms
proof (induction cs arbitrary: fs rm x)
  case (Cons c cs)
  show ?case
  proof (cases "is_fill c")
    case True
    then obtain f fs' where fs: "fs = f # fs'" "c = fill_cmd f" "filter is_fill cs = map fill_cmd fs'"
      using Cons.prems(1) by (cases fs) auto
    have "pos_net (get_position symb (risk_step c rm)) =
        i64 (x + (if fl_symbol f = symb then exact_delta (fl_side f) (fl_quantity f) else 0))"
      using Cons.prems(2) by (auto simp: fs(2) fill_cmd_def on_fill_position fill_position_net i64_add_signed)
    from Cons.IH [OF fs(3) this] show ?thesis by (simp add: fs(1) add.assoc)
  next
    case False
    with Cons.prems show ?thesis by (simp add: Cons.IH risk_step_net)
  qed
qed simp

definition ledger_inv :: "'v gw_sys \<Rightarrow> bool" where
  "ledger_inv s \<longleftrightarrow> gw_fills (fst s) = run fm_step (map FC_Record (fills_of (snd s))) fm_new \<and>
     (\<forall>symb. pos_net (get_position symb (gw_risk (fst s))) = i64 (net_of symb (fills_of (snd s))))"

fun ledger_ok :: "'v gw_cmd \<Rightarrow> 'v gw_sys \<Rightarrow> bool" where
  "ledger_ok (GC_Risk rc) s = (\<not> is_fill rc)"
| "ledger_ok _ s = True"

lemma ledger_step:
  assumes inv: "ledger_inv s" and ok: "ledger_ok c s"
  shows "ledger_inv (gw_step ops e c s)"
proof -
  obtain gw tr where s: "s = (gw, tr)" by (cases s)
  obtain ev gw' where c: "gw_exec_cmd ops e c gw = (ev, gw')" by fastforce
  have fills: "gw_fills gw = run fm_step (map FC_Record (fills_of tr)) fm_new"
    and net: "pos_net (get_position symb (gw_risk gw)) = i64 (net_of symb (fills_of tr))" for symb
    using inv by (simp_all add: ledger_inv_def s)
  show ?thesis
  proof (cases "\<exists>rc. c = GC_Risk rc")
    case True
    then obtain rc where "c = GC_Risk rc" by blast
    with ok c fills net show ?thesis by (auto simp: ledger_inv_def gw_step_def s risk_step_net)
  next
    case False
    then obtain cs where "gw_risk gw' = run risk_step cs (gw_risk gw)"
        "gw_fills gw' = run fm_step (map FC_Record (fills_of ev)) (gw_fills gw)"
        "filter is_fill cs = map fill_cmd (fills_of ev)"
      using exec_cmd_risk [OF c] unfolding via_risk_def by blast
    then show ?thesis using fills risk_run_net [OF _ net] by (simp add: ledger_inv_def gw_step_def s c run_append)
  qed
qed

definition gw_begin :: "engine \<Rightarrow> int \<Rightarrow> 'v gateway" where
  "gw_begin en t = gw_new (en\<lparr>en_risk := rm_new t\<rparr>)"

lemma ledger_begin: "ledger_inv (gw_begin en t, [])"
  by (simp add: ledger_inv_def gw_begin_def gw_new_def get_position_def rm_new_def default_position_def i64_small)

interpretation ledger: transition_system "gw_step ops e" "(gw_begin en t, [])" ledger_inv ledger_ok
  for ops :: "'v venue_ops" and e en t
  by unfold_locales (simp_all add: ledger_begin ledger_step)

section \<open>The children of an order\<close>

lemma submit_new [simp]: "osm_apply New Submit = Some PendingNew"
  by code_simp

lemma make_child_facts [simp]:
  "o_id (make_child now k od sl) = k" "o_parent_order_id (make_child now k od sl) = o_id od"
  "o_symbol (make_child now k od sl) = o_symbol od" "o_side (make_child now k od sl) = o_side od"
  "o_price (make_child now k od sl) = sl_price sl" "o_quantity (make_child now k od sl) = sl_quantity sl"
  "o_filled (make_child now k od sl) = 0" "o_target_venue (make_child now k od sl) = sl_venue sl"
  "o_state (make_child now k od sl) = PendingNew"
  by (simp_all add: make_child_def osm_apply_order_def default_order_def)

text \<open>The children created for a decision, with consecutive fresh identifiers.\<close>

fun children_of :: "timestamp \<Rightarrow> nat \<Rightarrow> order \<Rightarrow> decision \<Rightarrow> order list" where
  "children_of now k od [] = []"
| "children_of now k od (sl # d) = make_child now k od sl # children_of now (k + 1) od d"

lemma children_of_ids: "map o_id (children_of now k od d) = [k..<k + length d]"
  by (induction d arbitrary: k) (simp_all add: upt_rec)

lemma children_of_obtain:
  "c \<in> set (children_of now k od d) \<Longrightarrow> \<exists>j. \<exists>sl \<in> set d. c = make_child now j od sl"
proof (induction d arbitrary: k)
  case (Cons sl d)
  then show ?case using Cons.IH [of "k + 1"] unfolding children_of.simps list.set by blast
qed simp

lemma children_of_member:
  assumes "c \<in> set (children_of now k od d)"
  shows "o_parent_order_id c = o_id od" and "o_symbol c = o_symbol od" and "o_side c = o_side od"
    and "o_filled c = 0" and "o_state c = PendingNew"
    and "\<exists>sl \<in> set d. o_quantity c = sl_quantity sl \<and> o_price c = sl_price sl \<and> o_target_venue c = sl_venue sl"
  using children_of_obtain [OF assms] by auto

lemma children_of_quantity: "(\<Sum>c \<leftarrow> children_of now k od d. o_quantity c) = slices_sum d"
  by (induction d arbitrary: k) simp_all

lemma send_slices_frame:
  assumes "send_slices ops now od d gw = (ev, gw')"
  shows "sent_orders ev = filter (\<lambda>c. gw_venues gw (o_target_venue c) \<noteq> None) (children_of now (gw_next_id gw) od d) \<and>
    fills_of ev = [] \<and> gw_next_id gw' = gw_next_id gw + length d \<and> gw_orders gw' = gw_orders gw \<and>
    gw_stats gw' = gw_stats gw \<and>
    gw_exec gw' = fold (track_child_order (o_id od)) (children_of now (gw_next_id gw) od d) (gw_exec gw)"
  using assms
proof (induction d arbitrary: gw ev gw')
  case (Cons sl d)
  obtain ev1 gw1 where 1: "send_slice ops now od sl gw = (ev1, gw1)" by fastforce
  obtain ev2 gw2 where 2: "send_slices ops now od d gw1 = (ev2, gw2)" by fastforce
  note fr = send_slice_frame [OF 1]
  have "filter (\<lambda>c. gw_venues gw1 (o_target_venue c) \<noteq> None) cs = filter (\<lambda>c. gw_venues gw (o_target_venue c) \<noteq> None) cs" for cs
    by (intro filter_cong refl) (simp add: fr(8))
  with Cons.IH [OF 2] Cons.prems fr show ?case by (auto simp: 1 2)
qed simp

lemma distinct_sublist_map: "distinct (map f xs) \<Longrightarrow> distinct (map f (filter P xs))"
  by (induction xs) auto

lemma sum_list_filter_le:
  assumes "\<And>x. x \<in> set xs \<Longrightarrow> (0::int) \<le> f x"
  shows "(\<Sum>x \<leftarrow> filter P xs. f x) \<le> (\<Sum>x \<leftarrow> xs. f x)"
  using assms by (induction xs) (simp_all add: add_mono add_increasing)

lemma submit_frame_order [simp]:
  "leaves_qty (snd (osm_apply_order now ev od)) = leaves_qty od"
  "o_symbol (snd (osm_apply_order now ev od)) = o_symbol od" "o_side (snd (osm_apply_order now ev od)) = o_side od"
  by (simp_all add: leaves_qty_def osm_apply_order_def split: option.split)

lemma process_children:
  assumes "route_env_ok e" and "\<forall>obj \<in> ran (en_strategies (gw_engine gw)). obj_ok obj \<and> obj_bounded obj"
    and "process_single_order ops e now order gw = (ev, gw')" and "sent_orders ev \<noteq> []"
  shows "\<not> is_kill_switch_active (gw_risk gw)" and "o_symbol order \<noteq> []" and "0 < o_quantity order"
    and "c \<in> set (sent_orders ev) \<Longrightarrow> o_parent_order_id c = o_id order \<and> o_symbol c = o_symbol order \<and>
      o_side c = o_side order \<and> o_state c = PendingNew \<and> o_filled c = 0 \<and> 0 < o_quantity c \<and>
      gw_venues gw (o_target_venue c) \<noteq> None \<and> gw_next_id gw \<le> o_id c \<and> o_id c < gw_next_id gw'"
    and "distinct (map o_id (sent_orders ev))"
    and "(\<Sum>c \<leftarrow> sent_orders ev. o_quantity c) \<le> leaves_qty order"
proof -
  define od where "od = snd (osm_apply_order now Submit order)"
  let ?c = "check_order (now div 1000000000) od (gw_risk gw)"
  define gw1 where "gw1 = set_risk (snd ?c) gw"
  have od: "o_id od = o_id order" "o_symbol od = o_symbol order" "o_side od = o_side order"
    "o_quantity od = o_quantity order" "leaves_qty od = leaves_qty order" by (simp_all add: od_def)
  have "\<not> is_kill_switch_active (gw_risk gw) \<and> o_symbol order \<noteq> [] \<and> 0 < o_quantity order \<and>
    (\<forall>c \<in> set (sent_orders ev). o_parent_order_id c = o_id order \<and> o_symbol c = o_symbol order \<and>
      o_side c = o_side order \<and> o_state c = PendingNew \<and> o_filled c = 0 \<and> 0 < o_quantity c \<and>
      gw_venues gw (o_target_venue c) \<noteq> None \<and> gw_next_id gw \<le> o_id c \<and> o_id c < gw_next_id gw') \<and>
    distinct (map o_id (sent_orders ev)) \<and> (\<Sum>c \<leftarrow> sent_orders ev. o_quantity c) \<le> leaves_qty order"
  proof (cases rule: process_cases [OF assms(3) od_def refl gw1_def, case_names refused unrouted routed])
    case (routed d evs en)
    let ?cs = "children_of now (gw_next_id gw) od d"
    have strat: "\<forall>obj \<in> ran (en_strategies (gw_engine gw1)). obj_ok obj \<and> obj_bounded obj"
      using assms(2) by (simp add: gw1_def set_risk_def)
    have env: "sl \<in> set d \<Longrightarrow> 0 < sl_quantity sl" for sl
      using routed_slices_ok(1) [OF assms(1) _ routed(2) _ refl] strat by blast
    note tot = routed_total_bounded [OF assms(1) strat routed(2,3)]
    have ev: "sent_orders ev = filter (\<lambda>c. gw_venues gw (o_target_venue c) \<noteq> None) ?cs"
      and nid: "gw_next_id gw' = gw_next_id gw + length d"
      using send_slices_frame [OF routed(4)] by (simp_all add: gw1_def)
    have pos: "0 < o_quantity c" if "c \<in> set ?cs" for c
      using children_of_member(6) [OF that] env by auto
    have ids: "gw_next_id gw \<le> o_id c \<and> o_id c < gw_next_id gw + length d" if "c \<in> set ?cs" for c
    proof -
      have "o_id c \<in> set (map o_id ?cs)" using that by simp
      then show ?thesis unfolding children_of_ids by simp
    qed
    have "\<not> is_kill_switch_active (gw_risk gw)" using routed(1) kill_switch_blocks by force
    moreover have "o_symbol order \<noteq> []" and "0 < o_quantity order"
      using routed_order_checked(1,2) [OF routed(2,3)] od by simp_all
    moreover have "distinct (map o_id (sent_orders ev))"
      unfolding ev by (rule distinct_sublist_map) (simp add: children_of_ids)
    moreover have "(\<Sum>c \<leftarrow> sent_orders ev. o_quantity c) \<le> (\<Sum>c \<leftarrow> ?cs. o_quantity c)"
      unfolding ev by (rule sum_list_filter_le) (use pos in fastforce)
    then have "(\<Sum>c \<leftarrow> sent_orders ev. o_quantity c) \<le> leaves_qty order"
      using tot by (simp add: children_of_quantity od)
    ultimately show ?thesis using children_of_member(1-5) pos ids nid od by (auto simp: ev)
  qed (use assms(4) in simp_all)
  then show "\<not> is_kill_switch_active (gw_risk gw)" and "o_symbol order \<noteq> []" and "0 < o_quantity order"
    and "c \<in> set (sent_orders ev) \<Longrightarrow> o_parent_order_id c = o_id order \<and> o_symbol c = o_symbol order \<and>
      o_side c = o_side order \<and> o_state c = PendingNew \<and> o_filled c = 0 \<and> 0 < o_quantity c \<and>
      gw_venues gw (o_target_venue c) \<noteq> None \<and> gw_next_id gw \<le> o_id c \<and> o_id c < gw_next_id gw'"
    and "distinct (map o_id (sent_orders ev))"
    and "(\<Sum>c \<leftarrow> sent_orders ev. o_quantity c) \<le> leaves_qty order"
    by blast+
qed

section \<open>Two risk checks per order\<close>

text \<open>
  The risk check runs in the gateway and again in the engine, and each takes an admission of the
  rate limiter. With a limit of one order per second, the second check refuses every order.
\<close>

lemma second_acquire_fails:
  assumes "rl_max rl = 1" and "0 \<le> rl_count rl" and "fst (rl_try_acquire t rl)"
  shows "\<not> fst (rl_try_acquire t (snd (rl_try_acquire t rl)))"
proof (cases "rl_window_start rl < t")
  case True
  then show ?thesis using assms(1) by (simp add: rl_try_acquire_def Let_def)
next
  case False
  then have "rl_count rl = 0" using assms by (auto simp: rl_try_acquire_def Let_def split: if_splits)
  moreover have "i32 1 = 1" by (rule swrap_id) (simp_all add: i32_range)
  ultimately show ?thesis using assms(1) False by (simp add: rl_try_acquire_def Let_def)
qed

lemma check_order_rate:
  assumes "lim_max_orders_per_second (rm_global rm) > 0" and "fst (check_order t od rm) = Passed"
  shows "fst (rl_try_acquire t (rm_rate rm))"
    and "rm_rate (snd (check_order t od rm)) = snd (rl_try_acquire t (rm_rate rm))"
    and "rm_global (snd (check_order t od rm)) = rm_global rm"
proof -
  have k: "\<not> ks_is_active (rm_kill rm)" using assms(2) by (auto simp: check_order_def)
  obtain b rl where rl: "rl_try_acquire t (rm_rate rm) = (b, rl)" by fastforce
  have b: "b" using assms k rl by (auto simp: check_order_def Let_def split: if_splits)
  then show "fst (rl_try_acquire t (rm_rate rm))" by (simp add: rl)
  show "rm_rate (snd (check_order t od rm)) = snd (rl_try_acquire t (rm_rate rm))"
    and "rm_global (snd (check_order t od rm)) = rm_global rm"
    using assms(1) k b by (cases "rm_symbol_limits rm (o_symbol od)"; simp add: check_order_def rl Let_def put_position_def)+
qed

lemma second_check_fails:
  assumes "lim_max_orders_per_second (rm_global rm) > 0" and "rl_max (rm_rate rm) = 1" and "0 \<le> rl_count (rm_rate rm)"
    and "fst (check_order t od rm) = Passed"
  shows "fst (check_order t od' (snd (check_order t od rm))) \<noteq> Passed"
  using check_order_rate [OF assms(1,4)] second_acquire_fails [OF assms(2,3)] assms(1) check_order_rate(1)
  by metis

lemma process_rate_one:
  assumes "lim_max_orders_per_second (rm_global (gw_risk gw)) > 0" and "rl_max (rm_rate (gw_risk gw)) = 1"
    and "0 \<le> rl_count (rm_rate (gw_risk gw))" and "process_single_order ops e now order gw = (ev, gw')"
  shows "ev = []"
proof (cases rule: process_cases [OF assms(4) refl refl refl, case_names refused unrouted routed])
  case (routed d evs en)
  then show ?thesis
    using second_check_fails [OF assms(1-3) routed(1)] routed_order_checked(5) [OF routed(2,3)] by simp
qed simp_all

section \<open>Reroutes\<close>

lemma track_child_filled:
  "filled_of (track_child_order pid c ex) k = (if k = o_id c then o_filled c else filled_of ex k)"
  "get_children pid (track_child_order pid c ex) = get_children pid ex @ [o_id c]"
  by (simp_all add: track_child_order_def eh_put_def filled_of_def get_children_def Let_def split: option.split)

lemma track_children_filled:
  assumes "k \<notin> o_id ` set cs"
  shows "filled_of (fold (track_child_order pid) cs ex) k = filled_of ex k \<and>
    get_children pid (fold (track_child_order pid) cs ex) = get_children pid ex @ map o_id cs"
  using assms by (induction cs arbitrary: ex) (simp_all add: track_child_filled)

lemma track_order_filled:
  "filled_of (track_order p ex) k = (if k = o_id p then o_filled p else filled_of ex k)"
  "get_children k (track_order p ex) = get_children k ex"
  by (simp_all add: track_order_def eh_put_def filled_of_def get_children_def Let_def split: option.split)

lemma reroute_order_frame [simp]: "o_id (reroute_order p) = o_id p" "o_filled (reroute_order p) = 0"
  by (simp_all add: reroute_order_def)

lemma reroute_exec:
  assumes "process_single_order ops e now (reroute_order p) gw = (ev, gw')"
    and "fst (check_order (now div 1000000000) (snd (osm_apply_order now Submit (reroute_order p))) (gw_risk gw)) = Passed"
    and "o_id p < gw_next_id gw" and "k < gw_next_id gw"
  shows "filled_of (gw_exec gw') k = (if k = o_id p then 0 else filled_of (gw_exec gw) k)"
    and "\<exists>new. get_children (o_id p) (gw_exec gw') = get_children (o_id p) (gw_exec gw) @ new"
proof -
  let ?od = "snd (osm_apply_order now Submit (reroute_order p))"
  have od: "o_id ?od = o_id p" "o_filled ?od = 0" by simp_all
  have "filled_of (gw_exec gw') k = (if k = o_id p then 0 else filled_of (gw_exec gw) k) \<and>
    (\<exists>new. get_children (o_id p) (gw_exec gw') = get_children (o_id p) (gw_exec gw) @ new)"
  proof (cases rule: process_cases [OF assms(1) refl refl refl, case_names refused unrouted routed])
    case refused
    then show ?thesis using assms(2) by simp
  next
    case (unrouted evs en)
    then show ?thesis by (simp add: track_order_filled od)
  next
    case (routed d evs en)
    have "k \<notin> o_id ` set (children_of now (gw_next_id gw) ?od d)"
    proof -
      have "o_id ` set (children_of now (gw_next_id gw) ?od d) = set [gw_next_id gw..<gw_next_id gw + length d]"
        using arg_cong [OF children_of_ids [of now "gw_next_id gw" ?od d], of set] by simp
      with assms(4) show ?thesis by simp
    qed
    note fr = track_children_filled [OF this, of "o_id p"]
    have "gw_exec gw' = fold (track_child_order (o_id p)) (children_of now (gw_next_id gw) ?od d)
        (track_order ?od (gw_exec gw))"
      using send_slices_frame [OF routed(4)] od(1) by simp
    with fr show ?thesis by (simp add: track_order_filled od)
  qed
  then show "filled_of (gw_exec gw') k = (if k = o_id p then 0 else filled_of (gw_exec gw) k)"
    and "\<exists>new. get_children (o_id p) (gw_exec gw') = get_children (o_id p) (gw_exec gw) @ new" by blast+
qed

section \<open>Every submitted order is processed once\<close>

text \<open>
  The counters balance: what was submitted, plus the reroutes, is what was routed or rejected or
  still waits in the queue (modulo \<open>2 ^ 64\<close>, as the counters are).
\<close>

definition balance :: "'v gateway \<Rightarrow> int" where
  "balance gw = gs_routed (gw_stats gw) + gs_rejected (gw_stats gw) + int (length (gw_orders gw)) -
     gs_submitted (gw_stats gw) - es_reroutes (eh_stats (gw_exec gw))"

definition shifts :: "int \<Rightarrow> 'v gateway \<Rightarrow> 'v gateway \<Rightarrow> bool" where
  "shifts d gw gw' \<longleftrightarrow> balance gw' mod 2 ^ 64 = (balance gw + d) mod 2 ^ 64 \<and>
     eh_reroute_cb (gw_exec gw') = eh_reroute_cb (gw_exec gw)"

lemma shifts_trans: "shifts d a b \<Longrightarrow> shifts d' b c \<Longrightarrow> shifts (d + d') a c"
  unfolding shifts_def by (metis add.assoc mod_add_left_eq)

lemma shifts_same:
  assumes "gw_stats gw' = gw_stats gw" and "length (gw_orders gw') = length (gw_orders gw)"
    and "eh_stats (gw_exec gw') = eh_stats (gw_exec gw)" and "eh_reroute_cb (gw_exec gw') = eh_reroute_cb (gw_exec gw)"
  shows "shifts 0 gw gw'"
  using assms by (simp add: shifts_def balance_def)

lemma shifts_refl [simp]: "shifts 0 gw gw"
  by (simp add: shifts_same)

lemma track_stats [simp]:
  "eh_stats (track_order p ex) = eh_stats ex" "eh_reroute_cb (track_order p ex) = eh_reroute_cb ex"
  "eh_stats (track_child_order pid c ex) = eh_stats ex"
  "eh_reroute_cb (track_child_order pid c ex) = eh_reroute_cb ex"
  by (simp_all add: track_order_def track_child_order_def eh_put_def Let_def)

lemma track_children_stats [simp]:
  "eh_stats (fold (track_child_order pid) cs ex) = eh_stats ex"
  "eh_reroute_cb (fold (track_child_order pid) cs ex) = eh_reroute_cb ex"
  by (induction cs arbitrary: ex) simp_all

lemma shiftsI:
  "balance gw' = balance gw + d + k * 2 ^ 64 \<Longrightarrow> eh_reroute_cb (gw_exec gw') = eh_reroute_cb (gw_exec gw) \<Longrightarrow>
   shifts d gw gw'"
  by (simp add: shifts_def)

lemma u64_cases: obtains k where "u64 x = x + k * 2 ^ 64"
proof
  show "u64 x = x + (- (x div 2 ^ 64)) * 2 ^ 64" by (simp add: uwrap_def minus_div_mult_eq_mod [symmetric])
qed

lemma shifts_rejected:
  assumes "length (gw_orders gw1) = length (gw_orders gw)" and "gw_stats gw1 = gw_stats gw"
    and "eh_stats (gw_exec gw1) = eh_stats (gw_exec gw)" and "eh_reroute_cb (gw_exec gw1) = eh_reroute_cb (gw_exec gw)"
  shows "shifts 1 gw (gw_count_rejected gw1)"
proof -
  obtain k where "u64 (gs_rejected (gw_stats gw) + 1) = gs_rejected (gw_stats gw) + 1 + k * 2 ^ 64" by (rule u64_cases)
  then show ?thesis using assms by (intro shiftsI [of _ _ _ k]) (simp_all add: balance_def gw_count_rejected_def)
qed

lemma process_shifts:
  assumes "process_single_order ops e now order gw = (ev, gw')"
  shows "shifts 1 gw gw'"
proof (cases rule: process_cases [OF assms refl refl refl, case_names refused unrouted routed])
  case refused
  then show ?thesis by (simp add: shifts_rejected)
next
  case (unrouted evs en)
  then show ?thesis by (simp add: shifts_rejected)
next
  case (routed d evs en)
  obtain k where "u64 (gs_routed (gw_stats gw) + 1) = gs_routed (gw_stats gw) + 1 + k * 2 ^ 64" by (rule u64_cases)
  then show ?thesis using send_slices_frame [OF routed(4)]
    by (intro shiftsI [of _ _ _ k]) (simp_all add: balance_def)
qed

definition reroutes_of :: "eh_event list \<Rightarrow> int" where
  "reroutes_of evs = int (length (filter (\<lambda>x. case x of EV_Reroute p \<Rightarrow> True | _ \<Rightarrow> False) evs))"

lemma reroutes_of_simps [simp]:
  "reroutes_of [] = 0" "reroutes_of (ev @ ev') = reroutes_of ev + reroutes_of ev'"
  "reroutes_of (EV_Fill od r # ev) = reroutes_of ev" "reroutes_of (EV_Complete od # ev) = reroutes_of ev"
  "reroutes_of (EV_Reroute od # ev) = reroutes_of ev + 1"
  by (simp_all add: reroutes_of_def)

lemma callback_shifts:
  assumes "gw_callback ops e now v gw = (ev, gw')"
  shows "shifts (reroutes_of [v]) gw gw'"
proof (cases v)
  case (EV_Reroute p)
  then show ?thesis using assms process_shifts by fastforce
next
  case (EV_Complete od)
  then show ?thesis using assms by (auto simp: shifts_def balance_def)
qed (use assms in \<open>auto intro: shifts_same\<close>)

lemma callbacks_shifts:
  assumes "gw_callbacks ops e now evs gw = (ev, gw')"
  shows "shifts (reroutes_of evs) gw gw'"
  using assms
proof (induction evs arbitrary: gw ev gw')
  case (Cons v evs)
  obtain ev1 gw1 where 1: "gw_callback ops e now v gw = (ev1, gw1)" by fastforce
  obtain ev2 gw2 where 2: "gw_callbacks ops e now evs gw1 = (ev2, gw2)" by fastforce
  have "gw2 = gw'" using Cons.prems by (simp add: 1 2)
  then show ?case
    using shifts_trans [OF callback_shifts [OF 1] Cons.IH [OF 2]] reroutes_of_simps(2) [of "[v]" evs] by simp
qed (simp add: shifts_same)

text \<open>The handler counts the reroutes it asks for.\<close>

lemma child_branch_reroutes:
  assumes "eh_reroute_cb st" and "child_branch now r oid pid st = (ev, st')"
  shows "\<exists>k. es_reroutes (eh_stats st') = es_reroutes (eh_stats st) + reroutes_of ev + k * 2 ^ 64"
    and "eh_reroute_cb st'"
proof -
  obtain k where "u64 (es_reroutes (eh_stats st) + 1) = es_reroutes (eh_stats st) + 1 + k * 2 ^ 64" by (rule u64_cases)
  then show "\<exists>k. es_reroutes (eh_stats st') = es_reroutes (eh_stats st) + reroutes_of ev + k * 2 ^ 64"
    and "eh_reroute_cb st'"
    using assms by (auto simp: child_branch_def reroute_step_def complete_step_def eh_put_def Let_def
      split: option.splits if_splits intro: exI [of _ 0] exI [of _ k])
qed

lemma report_reroutes:
  assumes "eh_reroute_cb st" and "on_execution_report now r st = (ev, st')"
  shows "\<exists>k. es_reroutes (eh_stats st') = es_reroutes (eh_stats st) + reroutes_of ev + k * 2 ^ 64"
    and "eh_reroute_cb st'"
proof -
  have stats: "es_reroutes (count_report s x) = es_reroutes x" for s x by (cases s) (simp_all add: count_report_def)
  have "(\<exists>k. es_reroutes (eh_stats st') = es_reroutes (eh_stats st) + reroutes_of ev + k * 2 ^ 64) \<and> eh_reroute_cb st'"
  proof (cases "eh_orders st (r_order_id r) = None \<or> report_event (r_state r) = None")
    case True
    then have "ev = [] \<and> st' = st" using assms(2) by (auto simp: on_execution_report_def split: option.splits)
    then show ?thesis using assms(1) by (auto intro: exI [of _ 0])
  next
    case False
    then obtain od event where od: "eh_orders st (r_order_id r) = Some od" "report_event (r_state r) = Some event" by auto
    define od1 where "od1 = book_fill r (apply_report_state now (r_state r) event od)"
    define st1 where "st1 = eh_put (r_order_id r) od1 st"
    have st1: "eh_stats st1 = eh_stats st" "eh_reroute_cb st1" using assms(1) by (simp_all add: st1_def eh_put_def)
    note def = on_execution_report_def od od1_def [symmetric] st1_def [symmetric] Let_def
    show ?thesis
    proof (cases "eh_parent st1 (o_id od1)")
      case None
      then have "reroutes_of ev = 0" and "st' = st1\<lparr>eh_stats := count_report (r_state r) (eh_stats st1)\<rparr>"
        using assms(2) None by (auto simp: def split: if_splits)
      then show ?thesis by (auto simp: stats st1 intro: exI [of _ 0])
    next
      case (Some pid)
      obtain ev2 st2 where cb: "child_branch now r (r_order_id r) pid st1 = (ev2, st2)" by fastforce
      have "reroutes_of ev = reroutes_of ev2" and "st' = st2\<lparr>eh_stats := count_report (r_state r) (eh_stats st2)\<rparr>"
        using assms(2) by (auto simp: def Some cb split: if_splits)
      then show ?thesis using child_branch_reroutes [OF st1(2) cb] by (simp add: stats st1(1))
    qed
  qed
  then show "\<exists>k. es_reroutes (eh_stats st') = es_reroutes (eh_stats st) + reroutes_of ev + k * 2 ^ 64"
    and "eh_reroute_cb st'" by blast+
qed

lemma exec_loop_shifts:
  assumes "eh_reroute_cb (gw_exec gw)" and "exec_loop_step ops e now gw = (ev, gw')"
  shows "shifts 0 gw gw'"
proof (cases "gw_reports gw")
  case (Cons r q)
  obtain evs ex where r: "on_execution_report now r (gw_exec gw) = (evs, ex)" by fastforce
  let ?gw = "gw\<lparr>gw_reports := q, gw_exec := ex\<rparr>"
  obtain k where "es_reroutes (eh_stats ex) = es_reroutes (eh_stats (gw_exec gw)) + reroutes_of evs + k * 2 ^ 64"
    and "eh_reroute_cb ex" using report_reroutes [OF assms(1) r] by blast
  then have "shifts (- reroutes_of evs) gw ?gw"
    using assms(1) by (intro shiftsI [of _ _ _ "- k"]) (simp_all add: balance_def)
  moreover have "gw_callbacks ops e now evs ?gw = (ev, gw')"
    using assms(2) by (simp add: exec_loop_step_def Cons r)
  ultimately show ?thesis using shifts_trans callbacks_shifts by fastforce
qed (use assms(2) in \<open>simp add: exec_loop_step_def shifts_same\<close>)

lemma order_loop_shifts:
  assumes "order_loop_step ops e now gw = (ev, gw')"
  shows "shifts 0 gw gw'"
proof (cases "gw_orders gw")
  case (Cons od q)
  have "shifts (- 1) gw (gw\<lparr>gw_orders := q\<rparr>)" by (intro shiftsI [of _ _ _ 0]) (simp_all add: balance_def Cons)
  moreover have "process_single_order ops e now od (gw\<lparr>gw_orders := q\<rparr>) = (ev, gw')"
    using assms by (simp add: order_loop_step_def Cons)
  ultimately show ?thesis using shifts_trans process_shifts by fastforce
qed (use assms in \<open>simp add: order_loop_step_def shifts_same\<close>)

lemma submit_shifts: "shifts 0 gw (snd (submit_order now od gw))"
proof (cases "gw_running gw \<and> length (gw_orders gw) < ORDER_CAPACITY")
  case True
  obtain k where "u64 (gs_submitted (gw_stats gw) + 1) = gs_submitted (gw_stats gw) + 1 + k * 2 ^ 64" by (rule u64_cases)
  with True show ?thesis
    by (intro shiftsI [of _ _ _ "- k"])
      (simp_all add: submit_order_def push_bounded_def generate_order_id_def Let_def balance_def)
next
  case False
  then show ?thesis
    by (intro shifts_same) (auto simp: submit_order_def push_bounded_def generate_order_id_def Let_def)
qed

text \<open>The gateway as \<open>initialize\<close> leaves it, before any order.\<close>

definition acc_inv :: "'v gw_sys \<Rightarrow> bool" where
  "acc_inv s \<longleftrightarrow> balance (fst s) mod 2 ^ 64 = 0 \<and> eh_reroute_cb (gw_exec (fst s))"

lemma init_shifts: "eh_reroute_cb (gw_exec gw) \<Longrightarrow> shifts 0 gw (snd (gw_initialize ops vids gw))"
  using connect_all_frame [of ops vids "gw\<lparr>gw_exec := (gw_exec gw)\<lparr>eh_fill_cb := True, eh_completion_cb := True,
    eh_reroute_cb := True\<rparr>\<rparr>"]
  by (intro shifts_same) (simp_all add: gw_initialize_def)

lemma acc_step:
  assumes "acc_inv s"
  shows "acc_inv (gw_step ops e c s)"
proof -
  obtain gw tr where s: "s = (gw, tr)" by (cases s)
  obtain ev gw' where c: "gw_exec_cmd ops e c gw = (ev, gw')" by fastforce
  have cb: "eh_reroute_cb (gw_exec gw)" using assms by (simp add: acc_inv_def s)
  have "shifts 0 gw gw'"
  proof (cases c)
    case (GC_Init vids)
    then show ?thesis using c init_shifts [OF cb] by auto
  next
    case (GC_Submit now od)
    then show ?thesis using c submit_shifts by auto
  next
    case (GC_Order_Loop now)
    then show ?thesis using c by (cases "gw_running gw") (auto intro: order_loop_shifts shifts_same)
  next
    case GC_Cancel_Loop
    then show ?thesis using c cancel_loop_frame [of ops gw ev gw'] by (cases "gw_running gw") (auto intro: shifts_same)
  next
    case (GC_Exec_Loop now)
    then show ?thesis using c by (cases "gw_running gw") (auto intro: exec_loop_shifts [OF cb] shifts_same)
  next
    case GC_Stop
    then show ?thesis using c by (cases "gw_running gw") (auto simp: gw_stop_def intro: shifts_same)
  next
    case (GC_Cancel now req)
    then have "gw' = (if gw_running gw \<and> length (gw_cancels gw) < CANCEL_CAPACITY
        then gw\<lparr>gw_cancels := gw_cancels gw @ [req\<lparr>c_timestamp := now\<rparr>]\<rparr> else gw)"
      using c by (auto simp: gw_cancel_order_def push_bounded_def)
    then show ?thesis by (auto intro: shifts_same)
  qed (use c in \<open>auto simp: gw_start_def add_venue_adapter_def intro!: shifts_same\<close>)
  then show ?thesis using assms by (simp add: acc_inv_def gw_step_def s c shifts_def)
qed

interpretation accounts: transition_system "gw_step ops e" "gw_step ops e (GC_Init vids) (gw_begin en t, [])" acc_inv "\<lambda>_ _. True"
  for ops :: "'v venue_ops" and e vids en t
proof
  note fr = connect_all_frame [of ops vids "(gw_begin en t)\<lparr>gw_exec := (gw_exec (gw_begin en t))\<lparr>eh_fill_cb := True,
    eh_completion_cb := True, eh_reroute_cb := True\<rparr>\<rparr>"]
  then show "acc_inv (gw_step ops e (GC_Init vids) (gw_begin en t, []))"
    by (simp add: acc_inv_def gw_step_def gw_initialize_def balance_def) (simp add: gw_begin_def gw_new_def eh_new_def)
qed (rule acc_step)

section \<open>Reports from a venue to the parents\<close>

text \<open>
  What the contract of the venues gives the execution handler: reports that keep to the venue
  protocol, delivered in order to the children they are about, are what \<open>eh_ok\<close> asks for, and
  afterwards every child has exactly the fills that were reported on it.
\<close>

lemma report_on_child:
  assumes inv: "eh_inv st" and par: "eh_parent st (r_order_id r) = Some pid"
    and ev: "report_event (r_state r) \<noteq> None" and st': "st' = snd (on_execution_report now r st)"
    and ok: "eh_ok (EC_Report now r) st" and nn: "0 \<le> r_last_quantity r"
  shows "eh_parent st' = eh_parent st" and "eh_children st' = eh_children st"
    and "filled_of st' k = (if k = r_order_id r \<or> k = pid then filled_of st k + r_last_quantity r else filled_of st k)"
proof -
  have links: "links_ok (dom (eh_orders st)) (eh_children st) (eh_parent st)" using inv by (simp add: eh_inv_def)
  then obtain cs where cs: "eh_children st pid = Some cs" "r_order_id r \<in> set cs"
    using par unfolding links_ok_def by blast
  obtain od where od: "eh_orders st (r_order_id r) = Some od" using links par unfolding links_ok_def by blast
  obtain p where p: "eh_orders st pid = Some p" using links cs(1) unfolding links_ok_def by blast
  obtain e where e: "report_event (r_state r) = Some e" using ev by auto
  have ne: "pid \<noteq> r_order_id r" using children_tracked(3) [OF inv cs] by simp
  have id: "o_id od = r_order_id r" using inv od by (simp add: eh_inv_def)
  note fr = report_frame [OF od id par p ne e st']
  show "eh_parent st' = eh_parent st" and "eh_children st' = eh_children st" using fr(1) by (simp_all add: same_links_def)
  have "0 \<le> filled_of st pid" using inv by (simp add: eh_inv_def)
  then have "0 < r_last_quantity r \<Longrightarrow> i64 (o_filled p + r_last_quantity r) = filled_of st pid + r_last_quantity r"
    using ok par p by (intro trans [OF i64_small]) (auto simp: filled_of_def)
  then show "filled_of st' k = (if k = r_order_id r \<or> k = pid then filled_of st k + r_last_quantity r else filled_of st k)"
    using fr(2) [of k] ok par nn by (auto simp: order.order_iff_strict)
qed

definition fills_on :: "order_id \<Rightarrow> execution_report list \<Rightarrow> quantity" where
  "fills_on k rs = (\<Sum>r \<leftarrow> reports_on k rs. r_last_quantity r)"

lemma feed_handler:
  assumes "all_conform (seen @ rs)" and "eh_inv st"
    and "\<forall>r \<in> set rs. eh_parent st (r_order_id r) \<noteq> None"
    and "\<forall>k. eh_parent st k \<noteq> None \<longrightarrow> k \<in> r_order_id ` set rs \<longrightarrow> filled_of st k = fills_on k seen"
    and "\<forall>pid. filled_of st pid + (\<Sum>r \<leftarrow> rs. r_last_quantity r) < 2 ^ 63"
  shows "legal eh_ok eh_step (map (EC_Report now) rs) st \<and>
    eh_children (run eh_step (map (EC_Report now) rs) st) = eh_children st \<and>
    (\<forall>k. eh_parent st k \<noteq> None \<longrightarrow>
       filled_of (run eh_step (map (EC_Report now) rs) st) k = filled_of st k + fills_on k rs)"
  using assms
proof (induction rs arbitrary: seen st)
  case (Cons r rs)
  obtain pid where par: "eh_parent st (r_order_id r) = Some pid" using Cons.prems(3) by auto
  have conf: "all_conform (seen @ [r])" using Cons.prems(1) all_conform_prefix [of "seen @ [r]" rs] by simp
  note last = all_conform_last [OF conf refl]
  have nns: "0 \<le> (\<Sum>r \<leftarrow> rs. r_last_quantity r)"
  proof -
    have "0 \<le> r_last_quantity x" if x: "x \<in> set rs" for x
    proof -
      obtain ys zs where "rs = ys @ x # zs" using x by (auto dest: split_list)
      then have "all_conform ((seen @ r # ys) @ [x])"
        using Cons.prems(1) all_conform_prefix [of "seen @ r # ys @ [x]" zs] by simp
      from all_conform_last(1) [OF this refl] show ?thesis .
    qed
    then show ?thesis by (intro sum_list_nonneg_map) auto
  qed
  have "filled_of st (r_order_id r) = fills_on (r_order_id r) seen"
    using Cons.prems(4) [rule_format, of "r_order_id r"] par by simp
  then have ok: "eh_ok (EC_Report now r) st"
    using Cons.prems(5) [rule_format, of pid] par last(3) nns by (simp add: fills_on_def)
  let ?st = "snd (on_execution_report now r st)"
  have "report_event (r_state r) \<noteq> None" using last(2) by auto
  note fr = report_on_child [OF Cons.prems(2) par this refl ok last(1)]
  have inv: "eh_inv ?st" by (rule report_inv [OF Cons.prems(2) ok])
  have nochild: "eh_parent st pid = None"
    using Cons.prems(2) par unfolding eh_inv_def links_ok_def by (metis option.distinct(1))
  have f: "filled_of ?st k = filled_of st k + fills_on k [r]" if "eh_parent st k \<noteq> None" for k
    using fr(3) [of k] that nochild by (auto simp: fills_on_def reports_on_def)
  have "legal eh_ok eh_step (map (EC_Report now) rs) ?st \<and>
    eh_children (run eh_step (map (EC_Report now) rs) ?st) = eh_children ?st \<and>
    (\<forall>k. eh_parent ?st k \<noteq> None \<longrightarrow>
       filled_of (run eh_step (map (EC_Report now) rs) ?st) k = filled_of ?st k + fills_on k rs)"
  proof (rule Cons.IH [of "seen @ [r]"])
    show "all_conform ((seen @ [r]) @ rs)" using Cons.prems(1) by simp
    show "\<forall>r' \<in> set rs. eh_parent ?st (r_order_id r') \<noteq> None" using Cons.prems(3) fr(1) by simp
    show "\<forall>k. eh_parent ?st k \<noteq> None \<longrightarrow> k \<in> r_order_id ` set rs \<longrightarrow> filled_of ?st k = fills_on k (seen @ [r])"
      using Cons.prems(4) f fr(1) by (auto simp: fills_on_def reports_on_append)
    show "\<forall>p. filled_of ?st p + (\<Sum>r \<leftarrow> rs. r_last_quantity r) < 2 ^ 63"
      using Cons.prems(5) fr(3) last(1) by (auto simp: add.assoc) (smt (verit))
  qed (rule inv)
  moreover have "fills_on k (r # rs) = fills_on k [r] + fills_on k rs" for k
    by (simp add: fills_on_def reports_on_def)
  ultimately show ?case using ok f fr(1,2) by simp
qed (simp add: fills_on_def reports_on_def)

text \<open>Inside the contract: any run of a venue feeds the handler.\<close>

context venue_adapter
begin

lemma run_feeds_handler:
  assumes "legal (venue_ok internal) (venue_step ops) cs (start, [])"
    and "run (venue_step ops) cs (start, []) = (v, rs)"
    and "eh_inv st" and "\<forall>r \<in> set rs. eh_parent st (r_order_id r) \<noteq> None \<and> filled_of st (r_order_id r) = 0"
    and "\<forall>pid. filled_of st pid + (\<Sum>r \<leftarrow> rs. r_last_quantity r) < 2 ^ 63"
  shows "legal eh_ok eh_step (map (EC_Report now) rs) st \<and>
    eh_children (run eh_step (map (EC_Report now) rs) st) = eh_children st \<and>
    (\<forall>k. eh_parent st k \<noteq> None \<longrightarrow>
       filled_of (run eh_step (map (EC_Report now) rs) st) k = filled_of st k + fills_on k rs)"
proof (rule feed_handler [of "[]"])
  show "all_conform ([] @ rs)" using run_conforms [OF assms(1)] assms(2) by simp
qed (use assms(3-5) in \<open>auto simp: fills_on_def reports_on_def\<close>)

end

section \<open>Properties\<close>

text \<open>A silent venue, a gateway with one venue that shows an ask, and one without market data.\<close>

definition mute_ops :: "unit venue_ops" where
  "mute_ops = \<lparr>vo_connect = (\<lambda>v. (True, v)), vo_disconnect = (\<lambda>v. v), vo_send = (\<lambda>now od v. (True, [], v)),
     vo_cancel = (\<lambda>req v. (True, [], v))\<rparr>"

definition empty_engine :: engine where
  "empty_engine = demo_engine\<lparr>en_market := \<lparr>ag_books = Map.empty, ag_nbbo = Map.empty, ag_venues = [], ag_callback = False\<rparr>\<rparr>"

definition demo_fill :: "order_state \<Rightarrow> quantity \<Rightarrow> execution_report" where
  "demo_fill s q = \<lparr>r_order_id = 1, r_exec_id = 5, r_state = s, r_last_price = 10000,
     r_last_quantity = q, r_avg_price = 0, r_cum_quantity = q, r_leaves_quantity = 40 - q, r_venue_id = 1,
     r_timestamp = 3, r_text = []\<rparr>"

definition demo_cmds :: "unit gw_cmd list" where
  "demo_cmds = [GC_Init [], GC_Start, GC_Submit 2 (buy_order 40), GC_Order_Loop 3,
     GC_Reports 1 () [demo_fill PartiallyFilled 25], GC_Exec_Loop 4]"

lemma demo_run_fills:
  "map fl_quantity (fills_of (snd (run (gw_step mute_ops demo_env) demo_cmds (gw_begin empty_engine 0, [])))) = [25]"
  by code_simp

definition demo_gateway :: "unit gateway" where
  "demo_gateway = (gw_new demo_engine)\<lparr>gw_running := True, gw_venues := [1 \<mapsto> ()], gw_next_id := 100\<rparr>"

definition demo_order :: order where
  "demo_order = snd (osm_apply_order 0 Submit (buy_order 40))"

lemma demo_order_facts [simp]:
  "o_symbol demo_order = ''A''" "o_side demo_order = Buy" "o_quantity demo_order = 40" "o_price demo_order = 10100"
  "o_type demo_order = OT_Limit" "o_tif demo_order = TIF_GTC" "o_strategy demo_order = BestPrice"
  "leaves_qty demo_order = 40" "o_id demo_order = 1"
  by (simp_all add: demo_order_def buy_order_def default_order_def osm_apply_order_def leaves_qty_def i64_small)

definition demo_risk :: risk_manager where
  "demo_risk = snd (check_order 0 demo_order (en_risk demo_engine))"

lemma demo_checks:
  "fst (check_order 0 demo_order (en_risk demo_engine)) = Passed"
  "fst (check_order 0 demo_order demo_risk) = Passed"
  by (simp_all add: demo_risk_def demo_engine_def rm_new_def default_limits_def check_order_def
      ks_is_active_def ks_new_def check_limits_def put_position_def get_or_create_def Let_def)

lemma demo_route:
  "fst (route_order demo_env 0 demo_order (demo_engine\<lparr>en_risk := demo_risk\<rparr>)) = [demo_slice]"
proof -
  define en where "en = demo_engine\<lparr>en_risk := snd (check_order 0 demo_order demo_risk)\<rparr>"
  have en: "en_market en = en_market demo_engine" "en_strategies en BestPrice = Some S_Best_Price"
    "get_available_venues demo_env en = [small_score 1]"
    by (simp_all add: en_def demo_engine_def get_available_venues_def demo_env_def small_score_def)
  have "fst (route_order demo_env 0 demo_order (demo_engine\<lparr>en_risk := demo_risk\<rparr>)) =
      fst (dispatch_order demo_env 0 demo_order small_nbbo en)"
    by (simp add: route_order_def validate_order_def demo_checks demo_market(1) en_def [symmetric] en(1) Let_def)
  also have "\<dots> = [demo_slice]"
    by (simp add: dispatch_order_def en demo_best_price decision_valid_def en_accept_def Let_def
        del: One_nat_def)
  finally show ?thesis .
qed

lemma demo_process:
  "sent_orders (fst (process_single_order mute_ops demo_env 0 (buy_order 40) demo_gateway)) =
     [make_child 0 100 demo_order demo_slice]"
proof -
  obtain evs en where r: "route_order demo_env 0 demo_order (demo_engine\<lparr>en_risk := demo_risk\<rparr>) = ([demo_slice], evs, en)"
    using demo_route by (metis prod.exhaust fst_conv)
  have e: "gw_engine demo_gateway = demo_engine" by (simp add: demo_gateway_def gw_new_def)
  show ?thesis
    by (simp add: process_single_order_def demo_order_def [symmetric] e demo_checks demo_risk_def [symmetric]
        set_risk_def r decision_valid_def send_slice_def generate_order_id_def dispatch_child_def Let_def
        del: One_nat_def)
      (simp add: demo_gateway_def gw_new_def demo_slice_def mute_ops_def)
qed

text \<open>
  C3: the kill switch stops everything: from a state in which it is active, through any sequence of
  submissions, loop iterations, venue reports, reroutes, market data and risk configuration that
  does not release it, the gateway sends no order to any venue, and the switch stays active.
\<close>

theorem gateway_kill_switch:
  assumes "is_kill_switch_active (gw_risk gw)" and "GC_Risk RC_Unkill \<notin> set cs"
    and "run (gw_step ops e) cs (gw, []) = (gw', tr)"
  shows "sent_orders tr = [] \<and> is_kill_switch_active (gw_risk gw')"
  using run_kill [OF assms] by simp

theorem gateway_kill_switch_witness:
  "sent_orders (snd (run (gw_step mute_ops demo_env)
     [GC_Submit 0 (buy_order 40), GC_Order_Loop 0]
     (set_risk (snd (activate_kill_switch (rm_new 0))) demo_gateway, []))) = []"
proof -
  let ?gw = "set_risk (snd (activate_kill_switch (rm_new 0))) demo_gateway"
  obtain gw' tr where "run (gw_step mute_ops demo_env) [GC_Submit 0 (buy_order 40), GC_Order_Loop 0] (?gw, []) = (gw', tr)"
    by fastforce
  from gateway_kill_switch [OF _ _ this] this kill_switch_activation show ?thesis by simp
qed

text \<open>
  C8: positions and fills agree: through any use of the gateway in which nobody books fills past it,
  the fill store holds exactly the fills the observers were told of, in order, and the net
  position of every symbol is the (64-bit) sum of the signed quantities of its fills in the store.
\<close>

theorem positions_match_fills:
  assumes "legal ledger_ok (gw_step ops e) cs (gw_begin en t, [])"
    and "run (gw_step ops e) cs (gw_begin en t, []) = (gw, tr)"
  shows "get_all_fills (gw_fills gw) = fills_of tr \<and>
    pos_net (get_position symb (gw_risk gw)) =
      i64 (\<Sum>f \<leftarrow> get_fills_for_symbol symb (gw_fills gw). exact_delta (fl_side f) (fl_quantity f))"
proof -
  have inv: "gw_fills gw = run fm_step (map FC_Record (fills_of tr)) fm_new"
    and net: "pos_net (get_position symb (gw_risk gw)) = i64 (net_of symb (fills_of tr))"
    using ledger.inv_run [OF assms(1)] assms(2) by (simp_all add: ledger_inv_def)
  have "run log_step (map FC_Record fs) lg = lg @ fs" for fs lg
    by (induction fs arbitrary: lg) simp_all
  with fm_queries(1,3) [OF inv refl] net show ?thesis by (simp add: net_of_def)
qed

theorem positions_match_fills_witness:
  "\<exists>gw f. get_all_fills (gw_fills (gw :: unit gateway)) = [f] \<and> fl_quantity f = 25 \<and>
     pos_net (get_position ''A'' (gw_risk gw)) =
       i64 (\<Sum>f \<leftarrow> get_fills_for_symbol ''A'' (gw_fills gw). exact_delta (fl_side f) (fl_quantity f))"
proof -
  obtain gw tr where r: "run (gw_step mute_ops demo_env) demo_cmds (gw_begin empty_engine 0, []) = (gw, tr)"
    by fastforce
  then obtain f where f: "fills_of tr = [f]" "fl_quantity f = 25" using demo_run_fills by auto
  have "legal ledger_ok (gw_step mute_ops demo_env) demo_cmds (gw_begin empty_engine 0, [])"
    by (simp add: demo_cmds_def)
  from positions_match_fills [OF this r, of "''A''"] f show ?thesis by auto
qed



text \<open>
  the rate limiter is charged twice per order, once by the gateway and once by the engine: with a
  limit of one order per second, within a second, no order is ever routed, whatever it is and
  however long the pause before it.
\<close>

theorem rate_limit_charged_twice:
  assumes "lim_max_orders_per_second (rm_global (gw_risk gw)) > 0" and "rl_max (rm_rate (gw_risk gw)) = 1"
    and "0 \<le> rl_count (rm_rate (gw_risk gw))" and "process_single_order ops e now order gw = (ev, gw')"
  shows "ev = []"
  by (rule process_rate_one [OF assms])

theorem rate_limit_charged_twice_witness:
  "let rm = set_global_limits 0 (default_limits\<lparr>lim_max_orders_per_second := 1\<rparr>) (rm_new 0)
   in fst (process_single_order mute_ops demo_env 0 (buy_order 40) (set_risk rm demo_gateway)) = [] \<and>
      fst (process_single_order mute_ops demo_env 0 (buy_order 40) demo_gateway) \<noteq> []"
proof -
  define rm where "rm = set_global_limits 0 (default_limits\<lparr>lim_max_orders_per_second := 1\<rparr>) (rm_new 0)"
  obtain ev gw' where p: "process_single_order mute_ops demo_env 0 (buy_order 40) (set_risk rm demo_gateway) = (ev, gw')"
    by fastforce
  have "ev = []"
    by (rule rate_limit_charged_twice [OF _ _ _ p])
      (simp_all add: rm_def set_global_limits_def rm_new_def rl_set_max_rate_def rl_reset_def)
  moreover have "fst (process_single_order mute_ops demo_env 0 (buy_order 40) demo_gateway) \<noteq> []"
    using demo_process by fastforce
  ultimately show ?thesis using p by (simp add: rm_def)
qed

text \<open>
  a reroute forgets the fills of its parent: when the callback passes its risk check, the parent is
  tracked again with nothing filled, while its earlier children keep their fills and stay its
  children, so from then on the parent no longer reports the sum of what its children filled.
\<close>

theorem reroute_forgets_fills:
  assumes "gw_callback ops e now (EV_Reroute p) gw = (ev, gw')"
    and "fst (check_order (now div 1000000000) (snd (osm_apply_order now Submit (reroute_order p))) (gw_risk gw)) = Passed"
    and "o_id p < gw_next_id gw"
  shows "filled_of (gw_exec gw') (o_id p) = 0 \<and>
    (\<forall>k. k < gw_next_id gw \<longrightarrow> k \<noteq> o_id p \<longrightarrow> filled_of (gw_exec gw') k = filled_of (gw_exec gw) k) \<and>
    (\<exists>new. get_children (o_id p) (gw_exec gw') = get_children (o_id p) (gw_exec gw) @ new)"
proof -
  have p: "process_single_order ops e now (reroute_order p) gw = (ev, gw')" using assms(1) by simp
  show ?thesis using reroute_exec [OF p assms(2,3)] assms(3) by simp
qed

theorem reroute_forgets_fills_witness:
  "let p = (buy_order 40)\<lparr>o_filled := 25, o_remaining := 15\<rparr>;
       ex = track_child_order 1 ((buy_order 40)\<lparr>o_id := 2, o_filled := 25\<rparr>) (track_order p eh_new);
       gw' = snd (gw_callback mute_ops demo_env 0 (EV_Reroute p) (demo_gateway\<lparr>gw_exec := ex\<rparr>))
   in filled_of ex 1 = 25 \<and> filled_of (gw_exec gw') 1 = 0 \<and> filled_of (gw_exec gw') 2 = 25"
proof -
  define p where "p = (buy_order 40)\<lparr>o_filled := 25, o_remaining := 15\<rparr>"
  define ex where "ex = track_child_order 1 ((buy_order 40)\<lparr>o_id := 2, o_filled := 25\<rparr>) (track_order p eh_new)"
  define gw where "gw = demo_gateway\<lparr>gw_exec := ex\<rparr>"
  obtain ev gw' where c: "gw_callback mute_ops demo_env 0 (EV_Reroute p) gw = (ev, gw')" by fastforce
  have "gw_risk gw = rm_new 0" by (simp add: gw_def demo_gateway_def gw_new_def demo_engine_def)
  then have check: "fst (check_order (0 div 1000000000) (snd (osm_apply_order 0 Submit (reroute_order p))) (gw_risk gw)) = Passed"
    by (simp add: rm_new_def default_limits_def check_order_def ks_is_active_def ks_new_def check_limits_def
        put_position_def Let_def)
  have ids: "o_id p = 1" "gw_next_id gw = 100" by (simp_all add: p_def gw_def buy_order_def demo_gateway_def)
  have "filled_of ex 1 = 25" "filled_of ex 2 = 25"
    by (simp_all add: ex_def p_def buy_order_def track_child_filled track_order_filled)
  moreover have "gw_exec gw = ex" by (simp add: gw_def)
  ultimately have "filled_of ex 1 = 25 \<and> filled_of (gw_exec gw') 1 = 0 \<and> filled_of (gw_exec gw') 2 = 25"
    using reroute_forgets_fills [OF c check] ids by simp
  then have "filled_of ex 1 = 25 \<and>
      filled_of (gw_exec (snd (gw_callback mute_ops demo_env 0 (EV_Reroute p) gw))) 1 = 0 \<and>
      filled_of (gw_exec (snd (gw_callback mute_ops demo_env 0 (EV_Reroute p) gw))) 2 = 25"
    unfolding c by simp
  then show ?thesis unfolding Let_def gw_def ex_def p_def .
qed

text \<open>
  no submitted order is lost or handled twice: after \<open>initialize\<close>, through any commands, the orders
  submitted and the reroutes asked for are together exactly those counted as routed, those counted
  as rejected and those still in the queue (the counters being 64 bits wide).
\<close>

theorem submitted_orders_accounted:
  assumes "run (gw_step ops e) cs (gw_step ops e (GC_Init vids) (gw_begin en t, [])) = (gw, tr)"
  shows "(gs_submitted (gw_stats gw) + es_reroutes (eh_stats (gw_exec gw))) mod 2 ^ 64 =
    (gs_routed (gw_stats gw) + gs_rejected (gw_stats gw) + int (length (gw_orders gw))) mod 2 ^ 64"
proof -
  have "balance gw mod 2 ^ 64 = 0"
    using accounts.inv_run [of ops e cs vids en t] assms by (simp add: acc_inv_def)
  then have "2 ^ 64 dvd balance gw" by (simp only: dvd_eq_mod_eq_0)
  then have "2 ^ 64 dvd - balance gw" by (simp only: dvd_minus_iff)
  moreover have "- balance gw = gs_submitted (gw_stats gw) + es_reroutes (eh_stats (gw_exec gw)) -
      (gs_routed (gw_stats gw) + gs_rejected (gw_stats gw) + int (length (gw_orders gw)))"
    by (simp add: balance_def)
  ultimately show ?thesis by (simp only: mod_eq_dvd_iff)
qed

theorem submitted_orders_accounted_witness:
  "\<exists>gw. fst (run (gw_step mute_ops demo_env) [GC_Start, GC_Submit 0 (buy_order 40)]
       (gw_step mute_ops demo_env (GC_Init []) (gw_begin demo_engine 0, []))) = gw \<and>
     length (gw_orders gw) = 1 \<and>
     (gs_submitted (gw_stats gw) + es_reroutes (eh_stats (gw_exec gw))) mod 2 ^ 64 =
     (gs_routed (gw_stats gw) + gs_rejected (gw_stats gw) + int (length (gw_orders gw))) mod 2 ^ 64"
proof -
  obtain gw tr where r: "run (gw_step mute_ops demo_env) [GC_Start, GC_Submit 0 (buy_order 40)]
       (gw_step mute_ops demo_env (GC_Init []) (gw_begin demo_engine 0, [])) = (gw, tr)" by fastforce
  then have "length (gw_orders gw) = 1"
    by (auto simp: gw_step_def gw_initialize_def gw_begin_def gw_new_def gw_start_def submit_order_def
        push_bounded_def ORDER_CAPACITY_def buy_order_def INVALID_ORDER_ID_def)
  with submitted_orders_accounted [OF r] r show ?thesis by simp
qed

end
