(* ===== verification/Simulated_Exchange.thy ===== *)
theory Simulated_Exchange
  imports Venue_Adapter
begin

text \<open>
  The simulated exchange, from \<open>connectors/simulated_exchange.h\<close> and
  \<open>connectors/simulated_exchange.cpp\<close>, with the part of \<open>connectors/venue_adapter.h\<close> it inherits.

  Reports given to the execution callback are the returned lists. The Mersenne twister is the
  argument \<open>g\<close>: the \<open>n\<close>-th draw from the unit interval and from the partial-fill interval, with
  the number of draws taken so far in the state; no lemma assumes anything about \<open>g\<close>. The
  clock is read once per call (\<open>now\<close>, nanoseconds).

  The lemmas show what a venue owes its clients: \<open>report_stream\<close> is the protocol (one
  acknowledgement, fills whose cumulative quantity adds up and never exceeds the order, one
  terminal report and silence after it), and every order sent to the exchange gets such a stream.
\<close>

section \<open>State\<close>

record sim_config =
  xc_venue :: venue_id
  xc_name :: string
  xc_latency :: int
  xc_jitter :: int
  xc_fill_prob :: double
  xc_partial_prob :: double
  xc_reject_prob :: double
  xc_fee_rate :: double

record sim_stats =
  xt_received :: int
  xt_filled :: int
  xt_partial :: int
  xt_rejected :: int
  xt_canceled :: int

record internal_order =
  io_order :: order
  io_received :: timestamp
  io_pending_cancel :: bool

record sim_exchange =
  xs_config :: sim_config
  xs_connected :: bool
  xs_active :: "order_id \<rightharpoonup> internal_order"
  xs_pending :: "order_id list"
  xs_bid :: price
  xs_ask :: price
  xs_draws :: nat
  xs_stats :: sim_stats
  xs_next_exec :: int
  xs_total_latency :: int
  xs_samples :: int

definition sx_new :: "sim_config \<Rightarrow> sim_exchange" where
  "sx_new cfg = \<lparr>xs_config = cfg, xs_connected = False, xs_active = Map.empty, xs_pending = [],
     xs_bid = INVALID_PRICE, xs_ask = INVALID_PRICE, xs_draws = 0,
     xs_stats = \<lparr>xt_received = 0, xt_filled = 0, xt_partial = 0, xt_rejected = 0, xt_canceled = 0\<rparr>,
     xs_next_exec = 1, xs_total_latency = 0, xs_samples = 0\<rparr>"

record sim_rng =
  rg_unit :: "nat \<Rightarrow> double"
  rg_part :: "nat \<Rightarrow> double"

section \<open>Connection and metadata\<close>

definition sx_connect :: "sim_exchange \<Rightarrow> bool \<times> sim_exchange" where
  "sx_connect st = (if xs_connected st then (False, st) else (True, st\<lparr>xs_connected := True\<rparr>))"

definition sx_disconnect :: "sim_exchange \<Rightarrow> sim_exchange" where
  "sx_disconnect st = st\<lparr>xs_connected := False\<rparr>"

definition sx_status :: "sim_exchange \<Rightarrow> venue_status" where
  "sx_status st = (if xs_connected st then Connected else Disconnected)"

definition sx_avg_latency :: "sim_exchange \<Rightarrow> int" where
  "sx_avg_latency st =
     (if xs_samples st = 0 then xc_latency (xs_config st) else xs_total_latency st sdiv xs_samples st)"

definition sx_set_market_price :: "price \<Rightarrow> price \<Rightarrow> sim_exchange \<Rightarrow> sim_exchange" where
  "sx_set_market_price bid ask st = st\<lparr>xs_bid := bid, xs_ask := ask\<rparr>"

section \<open>Orders\<close>

definition sx_report ::
  "timestamp \<Rightarrow> order \<Rightarrow> order_state \<Rightarrow> quantity \<Rightarrow> quantity \<Rightarrow> string \<Rightarrow> sim_exchange \<Rightarrow> execution_report" where
  "sx_report now od s cum leaves txt st =
     \<lparr>r_order_id = o_id od, r_exec_id = nat (xs_next_exec st), r_state = s, r_last_price = 0,
      r_last_quantity = 0, r_avg_price = (if s = Accepted then 0 else o_avg_fill_price od),
      r_cum_quantity = cum, r_leaves_quantity = leaves, r_venue_id = xc_venue (xs_config st),
      r_timestamp = now, r_text = txt\<rparr>"

definition sx_send_order :: "timestamp \<Rightarrow> order \<Rightarrow> sim_exchange \<Rightarrow> bool \<times> execution_report list \<times> sim_exchange" where
  "sx_send_order now od st =
     (if \<not> xs_connected st then (False, [], st)
      else if xs_active st (o_id od) \<noteq> None then (False, [], st)
      else let io = \<lparr>io_order = od, io_received = now, io_pending_cancel = False\<rparr>
           in (True, [sx_report now od Accepted 0 (o_quantity od) [] st],
               st\<lparr>xs_active := (xs_active st)(o_id od \<mapsto> io), xs_pending := xs_pending st @ [o_id od],
                  xs_stats := (xs_stats st)\<lparr>xt_received := u64 (xt_received (xs_stats st) + 1)\<rparr>,
                  xs_next_exec := u64 (xs_next_exec st + 1)\<rparr>))"

definition sx_cancel_order :: "cancel_request \<Rightarrow> sim_exchange \<Rightarrow> bool \<times> sim_exchange" where
  "sx_cancel_order req st =
     (if \<not> xs_connected st then (False, st)
      else case xs_active st (c_order_id req) of
             None \<Rightarrow> (False, st)
           | Some io \<Rightarrow>
               (True, st\<lparr>xs_active := (xs_active st)(c_order_id req \<mapsto> io\<lparr>io_pending_cancel := True\<rparr>)\<rparr>))"

section \<open>Report generators\<close>

definition fill_average :: "order \<Rightarrow> price \<Rightarrow> quantity \<Rightarrow> quantity \<Rightarrow> price" where
  "fill_average od p q filled =
     to_i64 (ddiv (dadd (dmul (of_i64 (o_avg_fill_price od)) (of_i64 (o_filled od)))
                        (dmul (of_i64 p) (of_i64 q))) (of_i64 filled))"

definition generate_fill ::
  "timestamp \<Rightarrow> internal_order \<Rightarrow> price \<Rightarrow> quantity \<Rightarrow> sim_exchange \<Rightarrow>
   execution_report \<times> internal_order \<times> sim_exchange" where
  "generate_fill now io p q st =
     (let od = io_order io;
          filled = i64 (o_filled od + q);
          remaining = i64 (o_quantity od - filled);
          od' = od\<lparr>o_filled := filled,
                   o_avg_fill_price := (if filled > 0 then fill_average od p q filled else o_avg_fill_price od)\<rparr>;
          full = (remaining = 0);
          stats = xs_stats st
      in (\<lparr>r_order_id = o_id od, r_exec_id = nat (xs_next_exec st),
           r_state = (if full then Filled else PartiallyFilled), r_last_price = p, r_last_quantity = q,
           r_avg_price = o_avg_fill_price od', r_cum_quantity = filled, r_leaves_quantity = remaining,
           r_venue_id = xc_venue (xs_config st), r_timestamp = now, r_text = []\<rparr>,
          io\<lparr>io_order := od'\<rparr>,
          st\<lparr>xs_stats := (if full then stats\<lparr>xt_filled := u64 (xt_filled stats + 1)\<rparr>
                          else stats\<lparr>xt_partial := u64 (xt_partial stats + 1)\<rparr>),
             xs_next_exec := u64 (xs_next_exec st + 1),
             xs_total_latency := i64 (xs_total_latency st + (now - io_received io) sdiv 1000),
             xs_samples := u64 (xs_samples st + 1)\<rparr>))"

definition generate_reject :: "timestamp \<Rightarrow> order \<Rightarrow> string \<Rightarrow> sim_exchange \<Rightarrow> execution_report \<times> sim_exchange" where
  "generate_reject now od reason st =
     (sx_report now od Rejected (o_filled od) 0 reason st,
      st\<lparr>xs_stats := (xs_stats st)\<lparr>xt_rejected := u64 (xt_rejected (xs_stats st) + 1)\<rparr>,
         xs_next_exec := u64 (xs_next_exec st + 1)\<rparr>)"

definition generate_cancel_ack :: "timestamp \<Rightarrow> order \<Rightarrow> sim_exchange \<Rightarrow> execution_report \<times> sim_exchange" where
  "generate_cancel_ack now od st =
     (sx_report now od Canceled (o_filled od) 0 [] st,
      st\<lparr>xs_stats := (xs_stats st)\<lparr>xt_canceled := u64 (xt_canceled (xs_stats st) + 1)\<rparr>,
         xs_next_exec := u64 (xs_next_exec st + 1)\<rparr>)"

section \<open>Matching\<close>

definition draw :: "(nat \<Rightarrow> double) \<Rightarrow> sim_exchange \<Rightarrow> double \<times> sim_exchange" where
  "draw f st = (f (xs_draws st), st\<lparr>xs_draws := xs_draws st + 1\<rparr>)"

text \<open>The price an order can trade at now, if any.\<close>

definition executable_price :: "order \<Rightarrow> sim_exchange \<Rightarrow> price option" where
  "executable_price od st =
     (if o_type od = OT_Market
      then if o_side od = Buy \<and> xs_ask st \<noteq> INVALID_PRICE then Some (xs_ask st)
           else if o_side od = Sell \<and> xs_bid st \<noteq> INVALID_PRICE then Some (xs_bid st)
           else None
      else if o_side od = Buy \<and> xs_ask st \<noteq> INVALID_PRICE \<and> o_price od \<ge> xs_ask st then Some (xs_ask st)
      else if o_side od = Sell \<and> xs_bid st \<noteq> INVALID_PRICE \<and> o_price od \<le> xs_bid st then Some (xs_bid st)
      else None)"

definition is_ioc :: "order \<Rightarrow> bool" where
  "is_ioc od \<longleftrightarrow> o_type od = OT_IOC \<or> o_tif od = TIF_IOC"

definition is_fok :: "order \<Rightarrow> bool" where
  "is_fok od \<longleftrightarrow> o_type od = OT_FOK \<or> o_tif od = TIF_FOK"

definition requeue :: "order \<Rightarrow> sim_exchange \<Rightarrow> sim_exchange" where
  "requeue od st = st\<lparr>xs_pending := xs_pending st @ [o_id od]\<rparr>"

text \<open>What happens to an order that cannot trade in this cycle: the result says whether it stays
  active, with the reports, the order and the state.\<close>

definition no_match ::
  "timestamp \<Rightarrow> string \<Rightarrow> internal_order \<Rightarrow> sim_exchange \<Rightarrow>
   bool \<times> execution_report list \<times> internal_order \<times> sim_exchange" where
  "no_match now reason io st =
     (let od = io_order io
      in if is_fok od then (let (r, st') = generate_reject now od reason st in (False, [r], io, st'))
         else if is_ioc od then (let (r, st') = generate_cancel_ack now od st in (False, [r], io, st'))
         else (True, [], io, requeue od st))"

definition clamp :: "int \<Rightarrow> int \<Rightarrow> int \<Rightarrow> int" where
  "clamp v lo hi = (if v < lo then lo else if hi < v then hi else v)"

text \<open>The executable order: all of it, or a random part.\<close>

definition match_fill ::
  "sim_rng \<Rightarrow> timestamp \<Rightarrow> price \<Rightarrow> internal_order \<Rightarrow> sim_exchange \<Rightarrow>
   bool \<times> execution_report list \<times> internal_order \<times> sim_exchange" where
  "match_fill g now p io st =
     (let od = io_order io; remaining = i64 (o_quantity od - o_filled od)
      in if is_fok od
         then (let (r, io', st') = generate_fill now io p remaining st in (False, [r], io', st'))
         else let (u, st1) = draw (rg_unit g) st
              in if u < xc_partial_prob (xs_config st) \<and> remaining > 1
                 then let (pct, st2) = draw (rg_part g) st1;
                          q = clamp (to_i64 (dmul (of_i64 remaining) pct)) 1 (remaining - 1);
                          (r, io', st3) = generate_fill now io p q st2
                      in if is_ioc od
                         then (let (c, st4) = generate_cancel_ack now (io_order io') st3
                               in (False, [r, c], io', st4))
                         else (True, [r], io', requeue od st3)
                 else (let (r, io', st') = generate_fill now io p remaining st1 in (False, [r], io', st')))"

definition try_match ::
  "sim_rng \<Rightarrow> timestamp \<Rightarrow> internal_order \<Rightarrow> sim_exchange \<Rightarrow>
   bool \<times> execution_report list \<times> internal_order \<times> sim_exchange" where
  "try_match g now io st =
     (let od = io_order io; (u, st1) = draw (rg_unit g) st
      in if u < xc_reject_prob (xs_config st)
         then (let (r, st') = generate_reject now od ''Exchange rejected order'' st1 in (False, [r], io, st'))
         else case executable_price od st1 of
                None \<Rightarrow> no_match now ''FOK order not fully executable'' io st1
              | Some p \<Rightarrow>
                  let (v, st2) = draw (rg_unit g) st1
                  in if v > xc_fill_prob (xs_config st)
                     then no_match now ''FOK fill probability miss'' io st2
                     else match_fill g now p io st2)"

text \<open>One iteration of \<open>process_matching\<close>, for the order at the front of the queue.\<close>

definition match_one :: "sim_rng \<Rightarrow> timestamp \<Rightarrow> order_id \<Rightarrow> sim_exchange \<Rightarrow> execution_report list \<times> sim_exchange" where
  "match_one g now k st =
     (case xs_active st k of
        None \<Rightarrow> ([], st)
      | Some io \<Rightarrow>
          if io_pending_cancel io
          then (let (r, st') = generate_cancel_ack now (io_order io) st
                in ([r], st'\<lparr>xs_active := (xs_active st')(k := None)\<rparr>))
          else (let (keep, rs, io', st') = try_match g now io st
                in (rs, st'\<lparr>xs_active := (xs_active st')(k := (if keep then Some io' else None))\<rparr>)))"

fun match_loop :: "sim_rng \<Rightarrow> timestamp \<Rightarrow> nat \<Rightarrow> sim_exchange \<Rightarrow> execution_report list \<times> sim_exchange" where
  "match_loop g now 0 st = ([], st)"
| "match_loop g now (Suc n) st =
     (case xs_pending st of
        [] \<Rightarrow> ([], st)
      | k # ks \<Rightarrow>
          let (rs, st1) = match_one g now k (st\<lparr>xs_pending := ks\<rparr>);
              (rs', st2) = match_loop g now n st1
          in (rs @ rs', st2))"

definition process_matching :: "sim_rng \<Rightarrow> timestamp \<Rightarrow> sim_exchange \<Rightarrow> execution_report list \<times> sim_exchange" where
  "process_matching g now st = match_loop g now (length (xs_pending st)) st"

section \<open>One order\<close>

definition io_ok :: "order_id \<Rightarrow> internal_order \<Rightarrow> bool" where
  "io_ok k io \<longleftrightarrow> o_id (io_order io) = k \<and> 0 \<le> o_filled (io_order io) \<and>
     o_filled (io_order io) < o_quantity (io_order io) \<and> o_quantity (io_order io) < 2 ^ 63"

text \<open>The parts of the exchange that matching one order leaves alone.\<close>

definition sx_frame :: "sim_exchange \<Rightarrow> sim_exchange \<Rightarrow> bool" where
  "sx_frame st st' \<longleftrightarrow> xs_active st' = xs_active st \<and> xs_pending st' = xs_pending st \<and>
     xs_connected st' = xs_connected st \<and> xs_config st' = xs_config st \<and>
     xs_bid st' = xs_bid st \<and> xs_ask st' = xs_ask st"

lemma draw_frame: "draw f st = (u, st') \<Longrightarrow> sx_frame st st'"
  by (auto simp: draw_def sx_frame_def)

lemma generate_fill_stream:
  assumes io: "io_ok k io" and q: "0 < q" "o_filled (io_order io) + q \<le> o_quantity (io_order io)"
    and fill: "generate_fill now io p q st = (r, io', st')"
  defines "Q \<equiv> o_quantity (io_order io)" and "f \<equiv> o_filled (io_order io) + q"
  shows "r_order_id r = k" and "o_filled (io_order io') = f" and "o_quantity (io_order io') = Q"
    and "o_id (io_order io') = k" and "sx_frame st st'"
    and "stream_step Q r (Open (o_filled (io_order io))) = (if f = Q then Closed Q else Open f)"
    and "r_last_price r = p" and "r_state r = (if f = Q then Filled else PartiallyFilled)" and "r_last_quantity r = q"
proof -
  have f: "i64 (o_filled (io_order io) + q) = f" and Q: "i64 (o_quantity (io_order io) - f) = Q - f"
    using io q by (auto intro!: i64_small simp: io_ok_def Q_def f_def)
  have r: "r_order_id r = o_id (io_order io)" "r_last_price r = p" "r_last_quantity r = q" "r_cum_quantity r = f"
    "r_leaves_quantity r = Q - f" "r_state r = (if f = Q then Filled else PartiallyFilled)"
    using fill by (auto simp: generate_fill_def Let_def f Q)
  have i: "o_filled (io_order io') = f" "o_quantity (io_order io') = Q" "o_id (io_order io') = o_id (io_order io)"
    using fill by (auto simp: generate_fill_def Let_def f Q_def)
  show "sx_frame st st'" using fill by (auto simp: generate_fill_def Let_def sx_frame_def)
  show "stream_step Q r (Open (o_filled (io_order io))) = (if f = Q then Closed Q else Open f)"
    using q by (simp add: r) (simp add: f_def Q_def)
  show "r_order_id r = k" and "o_filled (io_order io') = f" and "o_quantity (io_order io') = Q"
    and "o_id (io_order io') = k" and "r_last_price r = p"
    and "r_state r = (if f = Q then Filled else PartiallyFilled)" and "r_last_quantity r = q"
    using r i io by (simp_all add: io_ok_def)
qed

lemma terminal_report_stream:
  assumes "io_ok k io" and "s = Canceled \<or> s = Rejected"
  shows "stream_step Q (sx_report now (io_order io) s (o_filled (io_order io)) 0 txt st) (Open (o_filled (io_order io))) =
      Closed (o_filled (io_order io))"
    and "r_order_id (sx_report now (io_order io) s (o_filled (io_order io)) 0 txt st) = k"
  using assms by (auto simp: sx_report_def io_ok_def)

text \<open>The result of matching an order of quantity \<open>Q\<close>: its reports continue its stream, it stays
  active (and queued again) exactly when the stream stays open.\<close>

definition match_ok ::
  "order_id \<Rightarrow> internal_order \<Rightarrow> sim_exchange \<Rightarrow> bool \<times> execution_report list \<times> internal_order \<times> sim_exchange \<Rightarrow> bool" where
  "match_ok k io st res \<longleftrightarrow>
     (let (keep, rs, io', st') = res; Q = o_quantity (io_order io)
      in (\<forall>r \<in> set rs. r_order_id r = k) \<and>
         o_quantity (io_order io') = Q \<and>
         (if keep
          then io_ok k io' \<and> fold (stream_step Q) rs (Open (o_filled (io_order io))) = Open (o_filled (io_order io')) \<and>
               sx_frame (st\<lparr>xs_pending := xs_pending st @ [k]\<rparr>) st'
          else (\<exists>c. fold (stream_step Q) rs (Open (o_filled (io_order io))) = Closed c) \<and> sx_frame st st'))"

lemma match_ok_keep:
  assumes "\<forall>r \<in> set rs. r_order_id r = k" and "io_ok k io'" and "o_quantity (io_order io') = o_quantity (io_order io)"
    and "fold (stream_step (o_quantity (io_order io))) rs (Open (o_filled (io_order io))) = Open (o_filled (io_order io'))"
    and "sx_frame (st\<lparr>xs_pending := xs_pending st @ [k]\<rparr>) st'"
  shows "match_ok k io st (True, rs, io', st')"
  using assms by (simp add: match_ok_def)

lemma match_ok_end:
  assumes "\<forall>r \<in> set rs. r_order_id r = k" and "o_quantity (io_order io') = o_quantity (io_order io)"
    and "fold (stream_step (o_quantity (io_order io))) rs (Open (o_filled (io_order io))) = Closed c"
    and "sx_frame st st'"
  shows "match_ok k io st (False, rs, io', st')"
  using assms by (auto simp: match_ok_def)

lemma match_ok_frame:
  assumes "match_ok k io st1 res" and "sx_frame st st1"
  shows "match_ok k io st res"
proof -
  obtain keep rs io' st' where res: "res = (keep, rs, io', st')" by (cases res)
  show ?thesis
    using assms by (cases keep) (simp_all add: res match_ok_def sx_frame_def)
qed

lemma requeue_frame:
  "sx_frame st st' \<Longrightarrow> o_id od = k \<Longrightarrow> sx_frame (st\<lparr>xs_pending := xs_pending st @ [k]\<rparr>) (requeue od st')"
  by (simp add: sx_frame_def requeue_def)

lemma generate_end_frame:
  "generate_reject now od txt st = (r, st') \<Longrightarrow> sx_frame st st'"
  "generate_cancel_ack now od st = (r, st') \<Longrightarrow> sx_frame st st'"
  by (auto simp: generate_reject_def generate_cancel_ack_def sx_frame_def)

lemma reject_ok:
  assumes io: "io_ok k io" and g: "generate_reject now (io_order io) txt st = (r, st')"
  shows "match_ok k io st (False, [r], io, st')"
proof (rule match_ok_end)
  have r: "r = sx_report now (io_order io) Rejected (o_filled (io_order io)) 0 txt st"
    using g by (simp add: generate_reject_def)
  show "\<forall>r \<in> set [r]. r_order_id r = k"
    and "fold (stream_step (o_quantity (io_order io))) [r] (Open (o_filled (io_order io))) = Closed (o_filled (io_order io))"
    using terminal_report_stream [OF io] by (simp_all add: r del: stream_step.simps)
qed (use generate_end_frame(1) [OF g] in simp_all)

lemma cancel_ok:
  assumes io: "io_ok k io" and g: "generate_cancel_ack now (io_order io) st = (r, st')"
  shows "match_ok k io st (False, [r], io, st')"
proof (rule match_ok_end)
  have r: "r = sx_report now (io_order io) Canceled (o_filled (io_order io)) 0 [] st"
    using g by (simp add: generate_cancel_ack_def)
  show "\<forall>r \<in> set [r]. r_order_id r = k"
    and "fold (stream_step (o_quantity (io_order io))) [r] (Open (o_filled (io_order io))) = Closed (o_filled (io_order io))"
    using terminal_report_stream [OF io] by (simp_all add: r del: stream_step.simps)
qed (use generate_end_frame(2) [OF g] in simp_all)

lemma no_match_ok:
  assumes "io_ok k io"
  shows "match_ok k io st (no_match now reason io st)"
proof -
  have "match_ok k io st (True, [], io, requeue (io_order io) st)"
    using assms by (intro match_ok_keep requeue_frame) (auto simp: io_ok_def sx_frame_def)
  then show ?thesis
    using reject_ok [OF assms] cancel_ok [OF assms] by (auto simp: no_match_def Let_def split: prod.split)
qed

lemma full_fill_ok:
  assumes io: "io_ok k io"
    and g: "generate_fill now io p (i64 (o_quantity (io_order io) - o_filled (io_order io))) st = (r, io', st')"
  shows "match_ok k io st (False, [r], io', st')"
proof -
  have rem: "i64 (o_quantity (io_order io) - o_filled (io_order io)) = o_quantity (io_order io) - o_filled (io_order io)"
    using io by (intro i64_small) (auto simp: io_ok_def)
  have pos: "0 < o_quantity (io_order io) - o_filled (io_order io)" using io by (simp add: io_ok_def)
  note fill = generate_fill_stream [OF io pos _ g [unfolded rem]]
  show ?thesis
    by (rule match_ok_end) (use fill in \<open>simp_all del: stream_step.simps\<close>)
qed

lemma clamp_bounds: "lo \<le> hi \<Longrightarrow> lo \<le> clamp v lo hi \<and> clamp v lo hi \<le> hi"
  by (simp add: clamp_def)

lemma match_fill_ok:
  assumes io: "io_ok k io"
  shows "match_ok k io st (match_fill g now p io st)"
proof -
  let ?Q = "o_quantity (io_order io)" and ?f = "o_filled (io_order io)"
  have rem: "i64 (?Q - ?f) = ?Q - ?f" using io by (intro i64_small) (auto simp: io_ok_def)
  obtain u st1 where d: "draw (rg_unit g) st = (u, st1)" by fastforce
  obtain pct st2 where d2: "draw (rg_part g) st1 = (pct, st2)" by fastforce
  define q where "q = clamp (to_i64 (dmul (of_i64 (?Q - ?f)) pct)) 1 (?Q - ?f - 1)"
  obtain r io' st3 where fl: "generate_fill now io p q st2 = (r, io', st3)" by (cases "generate_fill now io p q st2") auto
  obtain c st4 where cn: "generate_cancel_ack now (io_order io') st3 = (c, st4)" by fastforce
  obtain r0 io0 st0 where f0: "generate_fill now io p (i64 (?Q - ?f)) st = (r0, io0, st0)"
    by (cases "generate_fill now io p (i64 (?Q - ?f)) st") auto
  obtain r1 io1 st5 where f1: "generate_fill now io p (i64 (?Q - ?f)) st1 = (r1, io1, st5)"
    by (cases "generate_fill now io p (i64 (?Q - ?f)) st1") auto
  note fr1 = draw_frame [OF d] and fr2 = draw_frame [OF d2]
  have part: "match_ok k io st2 (if is_ioc (io_order io) then (False, [r, c], io', st4)
      else (True, [r], io', requeue (io_order io) st3))" if "?Q - ?f > 1"
  proof -
    have "1 \<le> q \<and> q \<le> ?Q - ?f - 1" unfolding q_def using that by (intro clamp_bounds) simp
    then have q: "0 < q" "?f + q < ?Q" by simp_all
    note fill = generate_fill_stream [OF io q(1) less_imp_le [OF q(2)] fl]
    have io': "io_ok k io'" using fill(2-4) io q by (simp add: io_ok_def)
    have step: "stream_step ?Q r (Open ?f) = Open (?f + q)" using fill(6) q by simp
    have c: "c = sx_report now (io_order io') Canceled (o_filled (io_order io')) 0 [] st3"
      using cn by (simp add: generate_cancel_ack_def)
    have "match_ok k io st2 (False, [r, c], io', st4)"
    proof (rule match_ok_end)
      show "fold (stream_step ?Q) [r, c] (Open ?f) = Closed (?f + q)"
        using terminal_report_stream(1) [OF io'] fill(2)
        by (simp add: step c del: stream_step.simps)
      show "\<forall>x \<in> set [r, c]. r_order_id x = k"
        using fill(1) cn io' by (auto simp: generate_cancel_ack_def sx_report_def io_ok_def)
      show "sx_frame st2 st4" using fill(5) generate_end_frame(2) [OF cn] by (simp add: sx_frame_def)
    qed (use fill(3) in simp)
    moreover have "match_ok k io st2 (True, [r], io', requeue (io_order io) st3)"
      using io' fill step io by (intro match_ok_keep requeue_frame) (simp_all add: io_ok_def del: stream_step.simps)
    ultimately show ?thesis by simp
  qed
  have part': "match_ok k io st (if is_ioc (io_order io) then (False, [r, c], io', st4)
      else (True, [r], io', requeue (io_order io) st3))" if "?Q - ?f > 1"
    using match_ok_frame [OF match_ok_frame [OF part [OF that] fr2] fr1] .
  have full: "match_ok k io st (False, [r1], io1, st5)"
    by (rule match_ok_frame [OF full_fill_ok [OF io f1] fr1])
  show ?thesis
    using full_fill_ok [OF io f0] full part' f0 f1 fl cn
    by (auto simp: match_fill_def Let_def d d2 rem q_def [symmetric] split: if_splits)
qed

lemma try_match_ok:
  assumes io: "io_ok k io"
  shows "match_ok k io st (try_match g now io st)"
proof -
  obtain u st1 where d: "draw (rg_unit g) st = (u, st1)" by fastforce
  obtain v st2 where d2: "draw (rg_unit g) st1 = (v, st2)" by fastforce
  obtain r st' where rj: "generate_reject now (io_order io) ''Exchange rejected order'' st1 = (r, st')" by fastforce
  note fr1 = draw_frame [OF d] and fr2 = draw_frame [OF d2]
  have 1: "match_ok k io st (no_match now reason io st1)" for reason
    by (rule match_ok_frame [OF no_match_ok [OF io] fr1])
  have 2: "match_ok k io st (no_match now reason io st2)" for reason
    by (rule match_ok_frame [OF match_ok_frame [OF no_match_ok [OF io] fr2] fr1])
  have 3: "match_ok k io st (match_fill g now p io st2)" for p
    by (rule match_ok_frame [OF match_ok_frame [OF match_fill_ok [OF io] fr2] fr1])
  have 4: "match_ok k io st (False, [r], io, st')"
    by (rule match_ok_frame [OF reject_ok [OF io rj] fr1])
  show ?thesis
    using 1 2 3 4 by (simp add: try_match_def Let_def d d2 rj split: option.split)
qed

section \<open>The exchange as a transition system\<close>

text \<open>
  The commands are the public operations; the log, which the code does not keep, collects the
  reports given to the callback. A client may send an order with a positive quantity and no fills,
  under an identifier that is active (the exchange refuses it) or that it never used here.
\<close>

datatype sx_cmd = SX_Connect | SX_Disconnect | SX_Market price price
  | SX_Send timestamp order | SX_Cancel cancel_request | SX_Match timestamp

type_synonym sx_sys = "sim_exchange \<times> execution_report list"

fun sx_step :: "sim_rng \<Rightarrow> sx_cmd \<Rightarrow> sx_sys \<Rightarrow> sx_sys" where
  "sx_step g SX_Connect (st, rlog) = (snd (sx_connect st), rlog)"
| "sx_step g SX_Disconnect (st, rlog) = (sx_disconnect st, rlog)"
| "sx_step g (SX_Market bid ask) (st, rlog) = (sx_set_market_price bid ask st, rlog)"
| "sx_step g (SX_Send now od) (st, rlog) = (let (_, rs, st') = sx_send_order now od st in (st', rlog @ rs))"
| "sx_step g (SX_Cancel req) (st, rlog) = (snd (sx_cancel_order req st), rlog)"
| "sx_step g (SX_Match now) (st, rlog) = (let (rs, st') = process_matching g now st in (st', rlog @ rs))"

fun sx_ok :: "sx_cmd \<Rightarrow> sx_sys \<Rightarrow> bool" where
  "sx_ok (SX_Send now od) (st, rlog) =
     (0 < o_quantity od \<and> o_quantity od < 2 ^ 63 \<and> o_filled od = 0 \<and>
      (xs_active st (o_id od) \<noteq> None \<or> reports_on (o_id od) rlog = []))"
| "sx_ok _ _ = True"

text \<open>An order is active exactly while its stream is open, and its quantities are those of the stream.\<close>

definition order_inv :: "order_id \<Rightarrow> internal_order option \<Rightarrow> execution_report list \<Rightarrow> bool" where
  "order_inv k x rs \<longleftrightarrow>
     (case x of
        Some io \<Rightarrow> io_ok k io \<and> rs \<noteq> [] \<and> r_leaves_quantity (hd rs) = o_quantity (io_order io) \<and>
                   report_stream (o_quantity (io_order io)) rs = Open (o_filled (io_order io))
      | None \<Rightarrow> rs = [] \<or> 0 < r_leaves_quantity (hd rs) \<and> (\<exists>c. report_stream (r_leaves_quantity (hd rs)) rs = Closed c))"

definition sx_inv :: "sx_sys \<Rightarrow> bool" where
  "sx_inv s \<longleftrightarrow> (\<forall>k. order_inv k (xs_active (fst s) k) (reports_on k (snd s))) \<and>
     distinct (xs_pending (fst s)) \<and>
     (\<forall>k. k \<in> set (xs_pending (fst s)) \<longleftrightarrow> xs_active (fst s) k \<noteq> None)"

text \<open>The change of one order: its reports continue its stream.\<close>

lemma sx_inv_change:
  assumes inv: "sx_inv (st, rlog)" and act: "xs_active st k = Some io"
    and new: "xs_active st' = (xs_active st)(k := x)" "distinct (xs_pending st')"
      "\<And>j. j \<in> set (xs_pending st') \<longleftrightarrow> xs_active st' j \<noteq> None"
    and rs: "\<forall>r \<in> set rs. r_order_id r = k"
    and x: "case x of
        Some io' \<Rightarrow> io_ok k io' \<and> o_quantity (io_order io') = o_quantity (io_order io) \<and>
          fold (stream_step (o_quantity (io_order io))) rs (Open (o_filled (io_order io))) = Open (o_filled (io_order io'))
      | None \<Rightarrow> \<exists>c. fold (stream_step (o_quantity (io_order io))) rs (Open (o_filled (io_order io))) = Closed c"
  shows "sx_inv (st', rlog @ rs)"
proof -
  have old: "order_inv j (xs_active st j) (reports_on j rlog)" for j using inv by (simp add: sx_inv_def)
  note k = old [of k, unfolded act order_inv_def, simplified]
  have "order_inv j (xs_active st' j) (reports_on j (rlog @ rs))" for j
  proof (cases "j = k")
    case True
    with k x show ?thesis
      by (cases x) (auto simp: order_inv_def io_ok_def new(1) reports_on_append reports_on_all [OF rs] report_stream_append hd_append)
  next
    case False
    then show ?thesis using old [of j] by (simp add: new(1) reports_on_append reports_on_all [OF rs])
  qed
  with new(2,3) show ?thesis by (simp add: sx_inv_def)
qed

lemma match_one_inv:
  assumes inv: "sx_inv (st, rlog)" and pend: "xs_pending st = k # ks"
    and one: "match_one g now k (st\<lparr>xs_pending := ks\<rparr>) = (rs, st1)"
  shows "sx_inv (st1, rlog @ rs)"
proof -
  let ?st = "st\<lparr>xs_pending := ks\<rparr>"
  have dist: "distinct ks" "k \<notin> set ks" and mem: "\<And>j. (j = k \<or> j \<in> set ks) \<longleftrightarrow> xs_active st j \<noteq> None"
    using inv pend by (auto simp: sx_inv_def)
  obtain io where act: "xs_active st k = Some io" using mem [of k] by auto
  have io: "io_ok k io" using inv act by (auto simp: sx_inv_def order_inv_def split: option.splits)
  show ?thesis
  proof (cases "io_pending_cancel io")
    case True
    obtain r st' where c: "generate_cancel_ack now (io_order io) ?st = (r, st')" by fastforce
    have st1: "st1 = st'\<lparr>xs_active := (xs_active st')(k := None)\<rparr>" and rs: "rs = [r]"
      using one act c True by (simp_all add: match_one_def)
    from cancel_ok [OF io c] have "sx_frame ?st st'" and "r_order_id r = k"
      and "\<exists>d. stream_step (o_quantity (io_order io)) r (Open (o_filled (io_order io))) = Closed d"
      by (simp_all add: match_ok_def del: stream_step.simps)
    with dist mem show ?thesis
      by (intro sx_inv_change [OF inv act, where x = None]) (auto simp: st1 rs sx_frame_def)
  next
    case False
    obtain keep rs' io' st' where m: "try_match g now io ?st = (keep, rs', io', st')" by (metis prod_cases4)
    have st1: "st1 = st'\<lparr>xs_active := (xs_active st')(k := (if keep then Some io' else None))\<rparr>" and rs: "rs = rs'"
      using one act m False by (simp_all add: match_one_def)
    note ok = try_match_ok [OF io, of ?st g now, unfolded m match_ok_def Let_def prod.case]
    show ?thesis
    proof (cases keep)
      case True
      then show ?thesis
        using ok dist mem
        by (intro sx_inv_change [OF inv act, where x = "Some io'"]) (auto simp: st1 rs sx_frame_def act)
    next
      case False
      then show ?thesis
        using ok dist mem
        by (intro sx_inv_change [OF inv act, where x = None]) (auto simp: st1 rs sx_frame_def)
    qed
  qed
qed

lemma match_loop_inv: "sx_inv (st, rlog) \<Longrightarrow> match_loop g now n st = (rs, st') \<Longrightarrow> sx_inv (st', rlog @ rs)"
proof (induction n arbitrary: st rlog rs st')
  case (Suc n)
  show ?case
  proof (cases "xs_pending st")
    case (Cons k ks)
    obtain rs1 st1 where 1: "match_one g now k (st\<lparr>xs_pending := ks\<rparr>) = (rs1, st1)" by fastforce
    obtain rs2 st2 where 2: "match_loop g now n st1 = (rs2, st2)" by fastforce
    from Suc.IH [OF match_one_inv [OF Suc.prems(1) Cons 1] 2] Suc.prems(2) show ?thesis
      by (simp add: Cons 1 2)
  qed (use Suc.prems in simp)
qed simp

lemma sx_send_inv:
  assumes "sx_inv (st, rlog)" and "sx_ok (SX_Send now od) (st, rlog)"
    and send: "sx_send_order now od st = (b, rs, st')"
  shows "sx_inv (st', rlog @ rs)"
proof (cases "xs_connected st \<and> xs_active st (o_id od) = None")
  case True
  define r where "r = sx_report now od Accepted 0 (o_quantity od) [] st"
  have rs: "rs = [r]"
    and act: "xs_active st' = (xs_active st)(o_id od \<mapsto> \<lparr>io_order = od, io_received = now, io_pending_cancel = False\<rparr>)"
    and pend: "xs_pending st' = xs_pending st @ [o_id od]"
    using send True by (auto simp: sx_send_order_def r_def)
  have "\<forall>r \<in> set [r]. r_order_id r = o_id od" by (simp add: r_def sx_report_def)
  note on = reports_on_all [OF this]
  have "order_inv k (xs_active st' k) (reports_on k (rlog @ rs))" for k
  proof (cases "k = o_id od")
    case True
    with assms(2) \<open>xs_connected st \<and> xs_active st (o_id od) = None\<close> show ?thesis
      by (simp add: order_inv_def act rs reports_on_append on io_ok_def report_stream_def)
        (simp add: r_def sx_report_def)
  next
    case False
    with assms(1) show ?thesis by (simp add: sx_inv_def act rs reports_on_append on)
  qed
  then show ?thesis using assms(1) True by (auto simp: sx_inv_def act pend)
next
  case False
  then have "rs = [] \<and> st' = st" using send by (auto simp: sx_send_order_def split: if_splits)
  with assms(1) show ?thesis by simp
qed

lemma sx_step_inv:
  assumes inv: "sx_inv s" and ok: "sx_ok c s"
  shows "sx_inv (sx_step g c s)"
proof -
  obtain st rlog where s: "s = (st, rlog)" by (cases s)
  show ?thesis
  proof (cases c)
    case (SX_Send now od)
    obtain b rs st' where "sx_send_order now od st = (b, rs, st')" by (cases "sx_send_order now od st") auto
    then show ?thesis using sx_send_inv [of st rlog now od b rs st'] inv ok by (simp add: s SX_Send)
  next
    case (SX_Match now)
    obtain rs st' where "process_matching g now st = (rs, st')" by fastforce
    then show ?thesis using match_loop_inv [of st rlog g now "length (xs_pending st)" rs st'] inv
      by (simp add: s SX_Match process_matching_def)
  next
    case (SX_Cancel req)
    then show ?thesis using inv
      by (auto simp: s sx_cancel_order_def sx_inv_def order_inv_def io_ok_def split: option.splits)
  qed (use inv in \<open>auto simp: s sx_connect_def sx_disconnect_def sx_set_market_price_def sx_inv_def\<close>)
qed

lemma sx_inv_new: "sx_inv (sx_new cfg, [])"
  by (simp add: sx_inv_def sx_new_def order_inv_def reports_on_def)

interpretation venue: transition_system "sx_step g" "(sx_new cfg, [])" sx_inv sx_ok
  for g :: sim_rng and cfg :: sim_config
  by unfold_locales (simp_all add: sx_inv_new sx_step_inv)

text \<open>The exchange as a venue adapter: its own steps are matching cycles and changes of the market.\<close>

definition sx_ops :: "sim_exchange venue_ops" where
  "sx_ops = \<lparr>vo_connect = sx_connect, vo_disconnect = sx_disconnect, vo_send = sx_send_order,
     vo_cancel = (\<lambda>req st. let (b, st') = sx_cancel_order req st in (b, [], st'))\<rparr>"

definition sx_internal :: "sim_exchange \<Rightarrow> execution_report list \<times> sim_exchange \<Rightarrow> bool" where
  "sx_internal st r \<longleftrightarrow> (\<exists>g now. process_matching g now st = r) \<or>
     (\<exists>bid ask. r = ([], sx_set_market_price bid ask st))"

lemma sx_inv_conforms: "sx_inv (st, rlog) \<Longrightarrow> all_conform rlog"
  unfolding all_conform_def
proof
  fix k assume "sx_inv (st, rlog)"
  then have "order_inv k (xs_active st k) (reports_on k rlog)" by (simp add: sx_inv_def)
  then show "conforms (reports_on k rlog)"
    by (auto simp: order_inv_def conforms_def io_ok_def split: option.splits)
qed

interpretation sim: venue_adapter sx_ops sx_internal sx_inv "sx_new cfg" for cfg :: sim_config
proof
  show "sx_inv (sx_new cfg, [])" by (rule sx_inv_new)
  fix st :: sim_exchange and rs rs' :: "execution_report list" and st' b od now req
  assume inv: "sx_inv (st, rs)"
  show "all_conform rs" using inv by (rule sx_inv_conforms)
  show "sx_inv (snd (vo_connect sx_ops st), rs)" and "sx_inv (vo_disconnect sx_ops st, rs)"
    using sx_step_inv [OF inv, of SX_Connect undefined] sx_step_inv [OF inv, of SX_Disconnect undefined]
    by (simp_all add: sx_ops_def)
  show "sx_inv (st', rs @ rs')" if "sendable od rs" and "vo_send sx_ops now od st = (b, rs', st')"
    using sx_send_inv [OF inv, of now od b rs' st'] that by (simp add: sendable_def sx_ops_def)
  show "sx_inv (st', rs @ rs')" if "vo_cancel sx_ops req st = (b, rs', st')"
    using sx_step_inv [OF inv, of "SX_Cancel req" undefined] that by (auto simp: sx_ops_def split: prod.splits)
  show "sx_inv (st', rs @ rs')" if "sx_internal st (rs', st')"
    using that match_loop_inv [OF inv, of _ _ "length (xs_pending st)" rs' st'] inv
    by (auto simp: sx_internal_def process_matching_def sx_set_market_price_def sx_inv_def)
qed

section \<open>Prices and times in force\<close>

text \<open>What matching looks at in an order, apart from its quantities; a fill leaves it alone.\<close>

definition terms_of :: "order \<Rightarrow> side \<times> order_type \<times> time_in_force \<times> price" where
  "terms_of od = (o_side od, o_type od, o_tif od, o_price od)"

lemma terms_cong:
  assumes "terms_of od = terms_of od'"
  shows "is_ioc od = is_ioc od'" and "is_fok od = is_fok od'" and "executable_price od st = executable_price od' st"
  using assms by (simp_all add: terms_of_def is_ioc_def is_fok_def executable_price_def)

lemma executable_price_frame: "sx_frame st st' \<Longrightarrow> executable_price od st' = executable_price od st"
  by (simp add: sx_frame_def executable_price_def)

text \<open>One result of matching: only orders that may wait stay active, fills are at the market
  price, and a fill-or-kill order is filled by one complete fill.\<close>

definition match_terms ::
  "internal_order \<Rightarrow> sim_exchange \<Rightarrow> bool \<times> execution_report list \<times> internal_order \<times> sim_exchange \<Rightarrow> bool" where
  "match_terms io st res \<longleftrightarrow>
     (let (keep, rs, io', st') = res; od = io_order io
      in (keep \<longrightarrow> \<not> is_ioc od \<and> \<not> is_fok od) \<and> terms_of (io_order io') = terms_of od \<and>
         (\<forall>r \<in> set rs. 0 < r_last_quantity r \<longrightarrow>
            executable_price od st = Some (r_last_price r) \<and> (is_fok od \<longrightarrow> r_state r = Filled)))"

lemma match_terms_frame: "sx_frame st st' \<Longrightarrow> match_terms io st' res = match_terms io st res"
  by (cases res) (simp add: match_terms_def executable_price_frame)

lemma fill_terms:
  "generate_fill now io p q st = (r, io', st') \<Longrightarrow>
   r_last_price r = p \<and> terms_of (io_order io') = terms_of (io_order io)"
  by (auto simp: generate_fill_def Let_def terms_of_def)

lemma end_terms:
  "generate_reject now od txt st = (r, st') \<Longrightarrow> r_last_quantity r = 0"
  "generate_cancel_ack now od st = (r, st') \<Longrightarrow> r_last_quantity r = 0"
  by (auto simp: generate_reject_def generate_cancel_ack_def sx_report_def)

lemma no_match_terms: "match_terms io st (no_match now reason io st')"
  by (auto simp: no_match_def Let_def match_terms_def end_terms split: prod.split)

lemma match_fill_terms:
  assumes io: "io_ok k io" and p: "executable_price (io_order io) st = Some p"
  shows "match_terms io st (match_fill g now p io st')"
proof -
  have rem: "i64 (o_quantity (io_order io) - o_filled (io_order io)) = o_quantity (io_order io) - o_filled (io_order io)"
    "i64 (o_filled (io_order io) + (o_quantity (io_order io) - o_filled (io_order io))) = o_quantity (io_order io)"
    using io by (auto intro!: i64_small simp: io_ok_def)
  have "r_state r = Filled"
    if "generate_fill now io p (o_quantity (io_order io) - o_filled (io_order io)) s = (r, io', s')" for r io' s s'
    using that rem(2) by (auto simp: generate_fill_def Let_def i64_small)
  then show ?thesis
    unfolding match_fill_def
    by (auto simp: Let_def match_terms_def rem p fill_terms end_terms split: prod.split dest: fill_terms)
qed

lemma try_match_terms:
  assumes "io_ok k io"
  shows "match_terms io st (try_match g now io st)"
proof -
  obtain u st1 where d: "draw (rg_unit g) st = (u, st1)" by fastforce
  obtain v st2 where d2: "draw (rg_unit g) st1 = (v, st2)" by fastforce
  note fr = draw_frame [OF d]
  have "match_terms io st (match_fill g now p io st2)" if "executable_price (io_order io) st1 = Some p" for p
    using match_fill_terms [OF assms, of st p] that by (simp add: executable_price_frame [OF fr])
  moreover have "match_terms io st (False, [r], io, st')"
    if "generate_reject now (io_order io) why st1 = (r, st')" for why r st'
    using end_terms(1) [OF that] by (simp add: match_terms_def)
  ultimately show ?thesis
    by (auto simp: try_match_def Let_def d d2 no_match_terms split: option.split prod.split)
qed

text \<open>A report is fair for the orders of a state: a fill is at a price the order can trade at.\<close>

definition fair :: "sim_exchange \<Rightarrow> execution_report \<Rightarrow> bool" where
  "fair st r \<longleftrightarrow> (0 < r_last_quantity r \<longrightarrow>
     (case xs_active st (r_order_id r) of
        None \<Rightarrow> False
      | Some io \<Rightarrow> executable_price (io_order io) st = Some (r_last_price r) \<and>
                   (is_fok (io_order io) \<longrightarrow> r_state r = Filled)))"

definition may_wait :: "internal_order option \<Rightarrow> bool" where
  "may_wait x \<longleftrightarrow> (case x of None \<Rightarrow> True | Some io \<Rightarrow> \<not> is_ioc (io_order io) \<and> \<not> is_fok (io_order io))"

lemma match_one_terms:
  assumes inv: "sx_inv (st, rlog)" and pend: "xs_pending st = k # ks"
    and one: "match_one g now k (st\<lparr>xs_pending := ks\<rparr>) = (rs, st1)"
  shows "(\<forall>r \<in> set rs. fair st r) \<and> xs_bid st1 = xs_bid st \<and> xs_ask st1 = xs_ask st \<and>
     (\<exists>x. xs_active st1 = (xs_active st)(k := x) \<and> may_wait x \<and> (xs_pending st1 = ks \<or> xs_pending st1 = ks @ [k]) \<and>
       (\<forall>io'. x = Some io' \<longrightarrow> (\<exists>io. xs_active st k = Some io \<and> terms_of (io_order io') = terms_of (io_order io))))"
proof -
  let ?st = "st\<lparr>xs_pending := ks\<rparr>"
  obtain io where act: "xs_active st k = Some io" using inv pend by (auto simp: sx_inv_def)
  have io: "io_ok k io" using inv act by (auto simp: sx_inv_def order_inv_def split: option.splits)
  have ex: "executable_price od ?st = executable_price od st" for od by (simp add: executable_price_def)
  show ?thesis
  proof (cases "io_pending_cancel io")
    case True
    obtain r st' where c: "generate_cancel_ack now (io_order io) ?st = (r, st')" by fastforce
    have st1: "st1 = st'\<lparr>xs_active := (xs_active st')(k := None)\<rparr>" and rs: "rs = [r]"
      using one act c True by (simp_all add: match_one_def)
    then show ?thesis using end_terms(2) [OF c] generate_end_frame(2) [OF c]
      by (simp add: st1 rs fair_def sx_frame_def) (auto simp: may_wait_def)
  next
    case False
    obtain keep rs' io' st' where m: "try_match g now io ?st = (keep, rs', io', st')" by (metis prod_cases4)
    have st1: "st1 = st'\<lparr>xs_active := (xs_active st')(k := (if keep then Some io' else None))\<rparr>" and rs: "rs = rs'"
      using one act m False by (simp_all add: match_one_def)
    note ok = try_match_ok [OF io, of ?st g now, unfolded m match_ok_def Let_def prod.case]
    note tm = try_match_terms [OF io, of ?st g now, unfolded m match_terms_def Let_def prod.case ex]
    have "fair st r" if "r \<in> set rs" for r
      using ok tm that act unfolding fair_def rs by simp
    note fair = this
    have fr: "xs_active st' = xs_active st" "xs_bid st1 = xs_bid st" "xs_ask st1 = xs_ask st"
        "xs_pending st1 = ks \<or> xs_pending st1 = ks @ [k]"
      using ok by (cases keep; simp add: st1 sx_frame_def)+
    have w: "may_wait (if keep then Some io' else None)"
      using tm terms_cong(1,2) [of "io_order io'" "io_order io"] by (simp add: may_wait_def)
    have t: "terms_of (io_order io') = terms_of (io_order io)" using tm by blast
    define x where "x = (if keep then Some io' else None)"
    have "xs_active st1 = (xs_active st)(k := x)" by (simp add: st1 fr(1) x_def)
    moreover have "\<exists>io0. xs_active st k = Some io0 \<and> terms_of (io_order y) = terms_of (io_order io0)"
      if "x = Some y" for y using that act t by (simp add: x_def split: if_splits)
    ultimately show ?thesis using fair fr(2-4) w unfolding x_def [symmetric] by blast
  qed
qed

definition terms_kept :: "sim_exchange \<Rightarrow> sim_exchange \<Rightarrow> bool" where
  "terms_kept st st' \<longleftrightarrow> xs_bid st' = xs_bid st \<and> xs_ask st' = xs_ask st \<and>
     (\<forall>k io'. xs_active st' k = Some io' \<longrightarrow>
        (\<exists>io. xs_active st k = Some io \<and> terms_of (io_order io') = terms_of (io_order io)))"

lemma terms_kept_trans: "terms_kept a b \<Longrightarrow> terms_kept b c \<Longrightarrow> terms_kept a c"
  unfolding terms_kept_def by metis

lemma fair_kept: "terms_kept st st' \<Longrightarrow> fair st' r \<Longrightarrow> fair st r"
proof -
  assume kept: "terms_kept st st'" and fair: "fair st' r"
  have ex: "executable_price od st' = executable_price od st" for od
    using kept by (simp add: terms_kept_def executable_price_def)
  show "fair st r"
  proof (cases "0 < r_last_quantity r")
    case True
    then obtain io' where io': "xs_active st' (r_order_id r) = Some io'"
      and "executable_price (io_order io') st = Some (r_last_price r) \<and> (is_fok (io_order io') \<longrightarrow> r_state r = Filled)"
      using fair ex by (auto simp: fair_def split: option.splits)
    moreover obtain io where "xs_active st (r_order_id r) = Some io" and "terms_of (io_order io') = terms_of (io_order io)"
      using kept io'(1) unfolding terms_kept_def by blast
    ultimately show ?thesis
      using terms_cong(2,3) [of "io_order io'" "io_order io"] by (simp add: fair_def)
  qed (simp add: fair_def)
qed

lemma match_loop_terms:
  assumes "sx_inv (st, rlog)" and "n \<le> length (xs_pending st)"
    and "\<forall>k \<in> set (drop n (xs_pending st)). may_wait (xs_active st k)"
    and "match_loop g now n st = (rs, st')"
  shows "(\<forall>r \<in> set rs. fair st r) \<and> terms_kept st st' \<and> (\<forall>k. may_wait (xs_active st' k))"
  using assms
proof (induction n arbitrary: st rlog rs st')
  case 0
  have "may_wait (xs_active st k)" for k
  proof (cases "xs_active st k")
    case (Some io)
    then have "k \<in> set (xs_pending st)" using 0(1) by (auto simp: sx_inv_def)
    with 0(3) show ?thesis by simp
  qed (simp add: may_wait_def)
  with 0(4) show ?case by (simp add: terms_kept_def)
next
  case (Suc n)
  from Suc.prems(2) obtain k ks where pend: "xs_pending st = k # ks" by (cases "xs_pending st") auto
  obtain rs1 st1 where 1: "match_one g now k (st\<lparr>xs_pending := ks\<rparr>) = (rs1, st1)" by fastforce
  obtain rs2 st2 where 2: "match_loop g now n st1 = (rs2, st2)" by fastforce
  note one = match_one_terms [OF Suc.prems(1) pend 1]
  then obtain x where x: "xs_active st1 = (xs_active st)(k := x)" "may_wait x"
      "xs_pending st1 = ks \<or> xs_pending st1 = ks @ [k]"
      "\<forall>io'. x = Some io' \<longrightarrow> (\<exists>io. xs_active st k = Some io \<and> terms_of (io_order io') = terms_of (io_order io))"
    by auto
  have kept: "terms_kept st st1" using one x by (auto simp: terms_kept_def)
  have "k \<notin> set ks" using Suc.prems(1) pend by (simp add: sx_inv_def)
  have "(\<forall>r \<in> set rs2. fair st1 r) \<and> terms_kept st1 st2 \<and> (\<forall>j. may_wait (xs_active st2 j))"
  proof (rule Suc.IH [OF match_one_inv [OF Suc.prems(1) pend 1] _ _ 2])
    show "n \<le> length (xs_pending st1)" using Suc.prems(2) pend x(3) by auto
    show "\<forall>j \<in> set (drop n (xs_pending st1)). may_wait (xs_active st1 j)"
      using Suc.prems(2,3) pend x(1-3) by auto
  qed
  with one kept Suc.prems(4) show ?case
    by (auto simp: pend 1 2 intro: fair_kept terms_kept_trans)
qed

section \<open>Properties\<close>

lemma stream_from_ack:
  assumes "report_stream Q (ack # rs) = Open c \<or> report_stream Q (ack # rs) = Closed c" and "0 < Q"
  shows "c = (\<Sum>r \<leftarrow> rs. r_last_quantity r) \<and> c \<le> Q"
proof -
  have fr: "stream_step Q ack Fresh = Open 0 \<or> stream_step Q ack Fresh = Broken" by auto
  have "fold (stream_step Q) rs (Open 0) = Open c \<or> fold (stream_step Q) rs (Open 0) = Closed c"
    using assms(1) fr by (auto simp: report_stream_def stream_broken simp del: stream_step.simps)
  from stream_sum [OF this] assms(2) show ?thesis by simp
qed

definition example_config :: sim_config where
  "example_config = \<lparr>xc_venue = 1, xc_name = ''Sim'', xc_latency = 50, xc_jitter = 10, xc_fill_prob = 9/10,
     xc_partial_prob = 3/10, xc_reject_prob = 1/100, xc_fee_rate = 1/1000\<rparr>"

text \<open>Draws that split the first order at its first match.\<close>

definition example_rng :: sim_rng where
  "example_rng = \<lparr>rg_unit = (\<lambda>n. if n < 3 then 1/4 else 1/2), rg_part = (\<lambda>n. 1/2)\<rparr>"

definition example_order :: order where
  "example_order = default_order\<lparr>o_id := 7, o_price := 100, o_quantity := 10\<rparr>"

definition example_cmds :: "sx_cmd list" where
  "example_cmds = [SX_Connect, SX_Market 90 95, SX_Send 5 example_order]"

lemma legal_match [simp]: "legal sx_ok (sx_step g) [SX_Match now] s" "legal sx_ok (sx_step g) [] s"
  by (cases s; simp)+

lemma example_legal:
  "legal sx_ok (sx_step g) example_cmds (sx_new cfg, [])"
  "legal sx_ok (sx_step g) (example_cmds @ [SX_Match now]) (sx_new cfg, [])"
  by (simp_all add: legal_append example_cmds_def sx_new_def sx_connect_def sx_set_market_price_def sx_send_order_def
      example_order_def default_order_def reports_on_def del: legal.simps(1) sx_step.simps(6))

lemma example_ack:
  "map r_order_id (snd (run (sx_step example_rng) example_cmds (sx_new example_config, []))) = [7]"
  by code_simp

lemma example_fill:
  "map (\<lambda>r. (r_state r, r_last_price r, r_last_quantity r))
     (fst (process_matching example_rng 6 (fst (run (sx_step example_rng) example_cmds (sx_new example_config, []))))) =
   [(PartiallyFilled, 95, 5)]"
  by code_simp

text \<open>
  C9: The reports of the exchange conform to the venue protocol. In any run with clients that do not
  reuse identifiers, the reports on an order are an acknowledgement of its quantity \<open>Q\<close>, then fills
  whose cumulative and leaves quantities add up exactly and never exceed \<open>Q\<close>, and at most one
  terminal report, after which nothing follows; the stream is open exactly while the order is
  active at the exchange. This holds for every configuration and every sequence of random draws.
\<close>

theorem venue_reports_conform:
  assumes "legal sx_ok (sx_step g) cs (sx_new cfg, [])"
    and "run (sx_step g) cs (sx_new cfg, []) = (st, rlog)"
    and "reports_on k rlog = ack # rs"
  shows "let Q = r_leaves_quantity ack; c = (\<Sum>r \<leftarrow> rs. r_last_quantity r)
         in 0 < Q \<and> c \<le> Q \<and>
            report_stream Q (ack # rs) = (if xs_active st k \<noteq> None then Open c else Closed c)"
proof -
  have "order_inv k (xs_active st k) (ack # rs)"
    using venue.inv_run [OF assms(1)] assms(2,3) by (simp add: sx_inv_def) metis
  then show ?thesis
    using stream_from_ack [of "r_leaves_quantity ack" ack rs]
    by (auto simp: order_inv_def io_ok_def Let_def split: option.splits)
qed

theorem venue_reports_conform_witness:
  "\<exists>ack rs. let s = run (sx_step example_rng) (example_cmds @ [SX_Match 6]) (sx_new example_config, []);
       Q = r_leaves_quantity ack; c = (\<Sum>r \<leftarrow> rs. r_last_quantity r)
     in reports_on 7 (snd s) = ack # rs \<and> 0 < Q \<and> c \<le> Q \<and>
        report_stream Q (ack # rs) = (if xs_active (fst s) 7 \<noteq> None then Open c else Closed c)"
proof -
  let ?s0 = "run (sx_step example_rng) example_cmds (sx_new example_config, [])"
  obtain st rlog where s: "run (sx_step example_rng) (example_cmds @ [SX_Match 6]) (sx_new example_config, []) = (st, rlog)"
    by fastforce
  then have "rlog = snd ?s0 @ fst (process_matching example_rng 6 (fst ?s0))"
    by (cases ?s0) (auto simp: run_append split: prod.splits)
  moreover obtain a where "snd ?s0 = [a]" and "r_order_id a = 7" using example_ack by auto
  ultimately obtain rs where "reports_on 7 rlog = a # rs" by (auto simp: reports_on_def)
  from venue_reports_conform [OF example_legal(2) s this] this show ?thesis
    by (intro exI [of _ a] exI [of _ rs]) (simp add: s Let_def)
qed

text \<open>
  C10: Every trade is one the order allows. In any run, each fill of a matching cycle is on an active
  order, at the market price of its side, never beyond the limit of an order that is not a market
  order; a fill-or-kill order is only ever filled completely; and when the cycle ends, no
  immediate-or-cancel or fill-or-kill order is left at the exchange.
\<close>

theorem venue_trades_fairly:
  assumes "legal sx_ok (sx_step g) cs (sx_new cfg, [])"
    and "run (sx_step g) cs (sx_new cfg, []) = (st, rlog)"
    and "process_matching g now st = (rs, st')"
  shows "(\<forall>r \<in> set rs. r_last_quantity r > 0 \<longrightarrow>
            (\<exists>io. xs_active st (r_order_id r) = Some io \<and>
               (let od = io_order io; p = r_last_price r
                in p = (if o_side od = Buy then xs_ask st else xs_bid st) \<and>
                   (o_type od \<noteq> OT_Market \<longrightarrow> (if o_side od = Buy then p \<le> o_price od else o_price od \<le> p)) \<and>
                   (is_fok od \<longrightarrow> r_state r = Filled)))) \<and>
         (\<forall>k io. xs_active st' k = Some io \<longrightarrow> \<not> is_ioc (io_order io) \<and> \<not> is_fok (io_order io))"
proof -
  have inv: "sx_inv (st, rlog)" using venue.inv_run [OF assms(1)] by (simp add: assms(2))
  note main = match_loop_terms [OF inv, of "length (xs_pending st)" g now rs st', simplified, folded process_matching_def]
  have ex: "p = (if o_side od = Buy then xs_ask st else xs_bid st) \<and>
      (o_type od \<noteq> OT_Market \<longrightarrow> (if o_side od = Buy then p \<le> o_price od else o_price od \<le> p))"
    if "executable_price od st = Some p" for od p
    using that by (cases "o_side od") (auto simp: executable_price_def split: if_splits)
  show ?thesis
  proof (intro conjI allI impI ballI)
    fix r assume "r \<in> set rs" and "0 < r_last_quantity r"
    then obtain io where "xs_active st (r_order_id r) = Some io"
      and "executable_price (io_order io) st = Some (r_last_price r)" and "is_fok (io_order io) \<longrightarrow> r_state r = Filled"
      using main assms(3) by (fastforce simp: fair_def split: option.splits)
    then show "\<exists>io. xs_active st (r_order_id r) = Some io \<and>
               (let od = io_order io; p = r_last_price r
                in p = (if o_side od = Buy then xs_ask st else xs_bid st) \<and>
                   (o_type od \<noteq> OT_Market \<longrightarrow> (if o_side od = Buy then p \<le> o_price od else o_price od \<le> p)) \<and>
                   (is_fok od \<longrightarrow> r_state r = Filled))"
      using ex [of "io_order io" "r_last_price r"] unfolding Let_def by blast
  next
    fix k io assume "xs_active st' k = Some io"
    moreover have "may_wait (xs_active st' k)" using main assms(3) by blast
    ultimately show "\<not> is_ioc (io_order io)" and "\<not> is_fok (io_order io)" by (simp_all add: may_wait_def)
  qed
qed

theorem venue_trades_fairly_witness:
  "let st = fst (run (sx_step example_rng) example_cmds (sx_new example_config, []));
       (rs, st') = process_matching example_rng 6 st
   in (\<exists>r \<in> set rs. r_last_quantity r = 5 \<and> r_last_price r = 95 \<and>
         (\<exists>io. xs_active st (r_order_id r) = Some io \<and> (o_side (io_order io) = Buy \<longrightarrow> xs_ask st = 95))) \<and>
      (\<forall>k io. xs_active st' k = Some io \<longrightarrow> \<not> is_ioc (io_order io) \<and> \<not> is_fok (io_order io))"
proof -
  let ?s0 = "run (sx_step example_rng) example_cmds (sx_new example_config, [])"
  obtain st rlog where s: "?s0 = (st, rlog)" by fastforce
  obtain rs st' where m: "process_matching example_rng 6 st = (rs, st')" by fastforce
  obtain r where r: "rs = [r]" "r_last_price r = 95" "r_last_quantity r = 5" using example_fill by (auto simp: s m)
  from venue_trades_fairly [OF example_legal(1) s m] show ?thesis by (auto simp: s m r Let_def)
qed

end
