(* ===== verification/Text_Conversion.thy ===== *)
theory Text_Conversion
  imports Doubles
begin

text \<open>
  Numbers as text: the standard library's conversions that the FIX code calls.

  \<open>std::to_string\<close> is \<open>nat_str\<close> and \<open>int_str\<close>; \<open>stoi\<close>, \<open>stoll\<close>, \<open>stoull\<close> and \<open>stod\<close> skip
  white space, read an optional sign and the longest prefix of digits, ignore what follows it, and
  raise \<open>invalid_argument\<close> or \<open>out_of_range\<close>. \<open>stod\<close> covers decimal numerals with a fraction
  and an exponent; hexadecimal numerals, infinities, NaN and values below the normal range give
  \<open>Not_Covered\<close>, about which nothing is claimed. \<open>double_str\<close> is \<open>operator<<\<close> with the stream's
  default precision of six digits. \<open>getline\<close> with a delimiter is \<open>split_on\<close>, \<open>std::string::find\<close>
  is \<open>find_sub\<close>.

  The lemmas give the round trips of the integers and what \<open>find_sub\<close> and \<open>split_on\<close> return on
  texts built by joining fields.
\<close>

datatype cpp_error = Invalid_Argument | Out_Of_Range | Not_Covered

type_synonym 'a res = "cpp_error + 'a"

definition bind_res :: "'a res \<Rightarrow> ('a \<Rightarrow> 'b res) \<Rightarrow> 'b res" where
  "bind_res x f = (case x of Inl e \<Rightarrow> Inl e | Inr a \<Rightarrow> f a)"

lemma bind_res_simps [simp]: "bind_res (Inl e) f = Inl e" "bind_res (Inr a) f = f a"
  by (simp_all add: bind_res_def)

section \<open>Printing integers\<close>

definition is_digit :: "char \<Rightarrow> bool" where
  "is_digit c \<longleftrightarrow> 48 \<le> (of_char c :: nat) \<and> (of_char c :: nat) \<le> 57"

definition digit_of :: "char \<Rightarrow> int" where
  "digit_of c = int (of_char c) - 48"

definition digit_char :: "int \<Rightarrow> char" where
  "digit_char d = char_of (nat (48 + d))"

function dec_str :: "int \<Rightarrow> string" where
  "dec_str n = (if n < 10 then [digit_char n] else dec_str (n div 10) @ [digit_char (n mod 10)])"
  by auto

termination dec_str
  by (relation "measure nat") auto

declare dec_str.simps [simp del]

definition nat_str :: "nat \<Rightarrow> string" where
  "nat_str n = dec_str (int n)"

definition int_str :: "int \<Rightarrow> string" where
  "int_str i = (if i < 0 then CHR ''-'' # dec_str (- i) else dec_str i)"

definition digits_val :: "string \<Rightarrow> int" where
  "digits_val ds = foldl (\<lambda>a c. 10 * a + digit_of c) 0 ds"

section \<open>Reading integers\<close>

definition is_space :: "char \<Rightarrow> bool" where
  "is_space c \<longleftrightarrow> (of_char c :: nat) = 32 \<or> 9 \<le> (of_char c :: nat) \<and> (of_char c :: nat) \<le> 13"

fun read_sign :: "string \<Rightarrow> bool \<times> string" where
  "read_sign (c # s) =
     (if c = CHR ''-'' then (True, s) else if c = CHR ''+'' then (False, s) else (False, c # s))"
| "read_sign [] = (False, [])"

definition read_int :: "string \<Rightarrow> int res" where
  "read_int s =
     (let (neg, t) = read_sign (dropWhile is_space s); ds = takeWhile is_digit t
      in if ds = [] then Inl Invalid_Argument
         else Inr (if neg then - digits_val ds else digits_val ds))"

definition stoi :: "string \<Rightarrow> int res" where
  "stoi s = bind_res (read_int s) (\<lambda>v. if in_i32 v then Inr v else Inl Out_Of_Range)"

definition stoll :: "string \<Rightarrow> int res" where
  "stoll s = bind_res (read_int s) (\<lambda>v. if in_i64 v then Inr v else Inl Out_Of_Range)"

definition stoull :: "string \<Rightarrow> nat res" where
  "stoull s = bind_res (read_int s) (\<lambda>v. if \<bar>v\<bar> < 2 ^ 64 then Inr (nat (u64 v)) else Inl Out_Of_Range)"

section \<open>Reading doubles\<close>

definition lower :: "char \<Rightarrow> char" where
  "lower c = (if 65 \<le> (of_char c :: nat) \<and> (of_char c :: nat) \<le> 90 then char_of (of_char c + 32 :: nat) else c)"

definition special_double :: "string \<Rightarrow> bool" where
  "special_double t \<longleftrightarrow>
     map lower (take 3 t) = ''inf'' \<or> map lower (take 3 t) = ''nan'' \<or> map lower (take 2 t) = ''0x''"

fun read_fraction :: "string \<Rightarrow> string \<times> string" where
  "read_fraction (c # s) =
     (if c = CHR ''.'' then (takeWhile is_digit s, dropWhile is_digit s) else ([], c # s))"
| "read_fraction [] = ([], [])"

fun read_exponent :: "string \<Rightarrow> int" where
  "read_exponent (c # s) =
     (if lower c = CHR ''e''
      then let (neg, t) = read_sign s; e = digits_val (takeWhile is_digit t)
           in if neg then - e else e
      else 0)"
| "read_exponent [] = 0"

definition stod :: "string \<Rightarrow> double res" where
  "stod s =
     (let (neg, t) = read_sign (dropWhile is_space s);
          whole = takeWhile is_digit t;
          (frac, v) = read_fraction (dropWhile is_digit t)
      in if special_double t then Inl Not_Covered
         else if whole @ frac = [] then Inl Invalid_Argument
         else let x = rat_of_int (digits_val (whole @ frac)) * 10 powi (read_exponent v - int (length frac));
                  y = rnd x
              in if x \<noteq> 0 \<and> x < 2 powi - 1022 then Inl Not_Covered
                 else if 2 ^ 1024 \<le> y then Inl Out_Of_Range
                 else Inr (if neg then - y else y))"

section \<open>Printing doubles\<close>

definition ilog10 :: "rat \<Rightarrow> int" where
  "ilog10 x = (let (n, d) = quotient_of x;
                   k = int (length (dec_str n)) - int (length (dec_str d))
               in if 10 powi k \<le> x then k else k - 1)"

text \<open>The six significant decimal digits and the decimal exponent of a positive number.\<close>

definition six_digits :: "rat \<Rightarrow> int \<times> int" where
  "six_digits x =
     (let e = ilog10 x; m = round_half_even (x / 10 powi (e - 5))
      in if m = 1000000 then (100000, e + 1) else (m, e))"

definition strip_zeros :: "string \<Rightarrow> string" where
  "strip_zeros s = rev (dropWhile (\<lambda>c. c = CHR ''0'') (rev s))"

definition with_fraction :: "string \<Rightarrow> string \<Rightarrow> string" where
  "with_fraction w f = (if strip_zeros f = [] then w else w @ CHR ''.'' # strip_zeros f)"

definition exponent_str :: "int \<Rightarrow> string" where
  "exponent_str e =
     CHR ''e'' # (if e < 0 then CHR ''-'' else CHR ''+'') #
     (if \<bar>e\<bar> < 10 then CHR ''0'' # dec_str \<bar>e\<bar> else dec_str \<bar>e\<bar>)"

definition positive_double_str :: "rat \<Rightarrow> string" where
  "positive_double_str x =
     (let (m, e) = six_digits x; ds = dec_str m
      in if e < - 4 \<or> 6 \<le> e then with_fraction (take 1 ds) (drop 1 ds) @ exponent_str e
         else if e < 0 then with_fraction ''0'' (replicate (nat (- e - 1)) CHR ''0'' @ ds)
         else with_fraction (take (nat e + 1) ds) (drop (nat e + 1) ds))"

definition double_str :: "double \<Rightarrow> string" where
  "double_str x =
     (if x = 0 then ''0'' else if x < 0 then CHR ''-'' # positive_double_str (- x) else positive_double_str x)"

section \<open>Splitting and searching\<close>

function split_on :: "char \<Rightarrow> string \<Rightarrow> string list" where
  "split_on d [] = []"
| "split_on d (c # s) =
     takeWhile (\<lambda>x. x \<noteq> d) (c # s) # split_on d (drop 1 (dropWhile (\<lambda>x. x \<noteq> d) (c # s)))"
  by pat_completeness auto

termination split_on
  by (relation "measure (\<lambda>(d, s). length s)")
    (auto intro: le_less_trans [OF _ lessI] le_trans [OF diff_le_self] length_dropWhile_le)

fun find_sub :: "string \<Rightarrow> string \<Rightarrow> nat option" where
  "find_sub p [] = (if p = [] then Some 0 else None)"
| "find_sub p (c # s) = (if take (length p) (c # s) = p then Some 0 else map_option Suc (find_sub p s))"

fun join_on :: "char \<Rightarrow> string list \<Rightarrow> string" where
  "join_on d [] = []"
| "join_on d [s] = s"
| "join_on d (s # ss) = s @ d # join_on d ss"

section \<open>Integers survive printing\<close>

lemma digit_char_simps [simp]:
  assumes "0 \<le> d" and "d < 10"
  shows "is_digit (digit_char d)" "digit_of (digit_char d) = d"
  using assms by (simp_all add: is_digit_def digit_of_def digit_char_def nat_add_distrib)

lemma digits_val_append: "digits_val (ds @ es) = digits_val ds * 10 ^ length es + digits_val es"
proof (induction es rule: rev_induct)
  case (snoc e es)
  then show ?case by (simp add: digits_val_def algebra_simps)
qed (simp add: digits_val_def)

lemma digits_val_simps [simp]: "digits_val [] = 0" "digits_val [c] = digit_of c"
  by (simp_all add: digits_val_def)

lemma dec_str_digits: "0 \<le> n \<Longrightarrow> list_all is_digit (dec_str n)"
  by (induction n rule: dec_str.induct) (subst dec_str.simps, simp)

lemma dec_str_not_Nil [simp]: "dec_str n \<noteq> []"
  by (subst dec_str.simps) simp

lemma digits_val_dec_str [simp]: "0 \<le> n \<Longrightarrow> digits_val (dec_str n) = n"
  by (induction n rule: dec_str.induct) (subst dec_str.simps, simp add: digits_val_append)

lemma nat_str_digits: "list_all is_digit (nat_str n)"
  by (simp add: nat_str_def dec_str_digits)

lemma nat_str_simps [simp]: "nat_str n \<noteq> []" "digits_val (nat_str n) = int n"
  by (simp_all add: nat_str_def)

lemma nat_str_inject: "nat_str m = nat_str n \<longleftrightarrow> m = n"
  by (metis nat_str_simps(2) of_nat_eq_iff)

lemma int_str_cases:
  obtains n where "i = int n" and "int_str i = nat_str n"
  | n where "i = - int n" and "0 < n" and "int_str i = CHR ''-'' # nat_str n"
proof (cases "i < 0")
  case True
  then show thesis by (intro that(2) [of "nat (- i)"]) (simp_all add: int_str_def nat_str_def)
next
  case False
  then show thesis by (intro that(1) [of "nat i"]) (simp_all add: int_str_def nat_str_def)
qed

lemma digit_not_special:
  assumes "is_digit c"
  shows "\<not> is_space c" "c \<noteq> CHR ''-''" "c \<noteq> CHR ''+''" "c \<noteq> CHR ''.''" "c \<noteq> CHR ''=''" "c \<noteq> CHR ''|''" "c \<noteq> CHR 0x01"
  using assms by (auto simp: is_digit_def is_space_def)

lemma takeWhile_digits:
  assumes "list_all is_digit ds" and "s = [] \<or> \<not> is_digit (hd s)"
  shows "takeWhile is_digit (ds @ s) = ds" "dropWhile is_digit (ds @ s) = s"
  using assms by (induction ds; cases s; auto)+

lemma digits_start:
  assumes "list_all is_digit ds" and "ds \<noteq> []"
  shows "dropWhile is_space (ds @ s) = ds @ s" "read_sign (ds @ s) = (False, ds @ s)"
  using assms by (cases ds; auto simp: digit_not_special)+

lemma read_int_nat_str:
  assumes "s = [] \<or> \<not> is_digit (hd s)"
  shows "read_int (nat_str n @ s) = Inr (int n)"
  using takeWhile_digits [OF nat_str_digits assms] digits_start [OF nat_str_digits nat_str_simps(1)]
  by (simp add: read_int_def Let_def)

lemma read_int_int_str:
  assumes "s = [] \<or> \<not> is_digit (hd s)"
  shows "read_int (int_str i @ s) = Inr i"
  using takeWhile_digits [OF nat_str_digits assms] read_int_nat_str [OF assms]
  by (cases i rule: int_str_cases) (simp_all add: read_int_def is_space_def)

lemma stoi_int_str: "in_i32 i \<Longrightarrow> stoi (int_str i) = Inr i"
  using read_int_int_str [of "[]" i] by (simp add: stoi_def)

lemma stoll_int_str: "in_i64 i \<Longrightarrow> stoll (int_str i) = Inr i"
  using read_int_int_str [of "[]" i] by (simp add: stoll_def)

lemma stoull_nat_str: "n < 2 ^ 64 \<Longrightarrow> stoull (nat_str n) = Inr n"
  using read_int_nat_str [of "[]" n] by (simp add: stoull_def uwrap_def)

lemma int_str_not_Nil [simp]: "int_str i \<noteq> []"
  by (simp add: int_str_def)

lemma int_str_inject: "int_str i = int_str j \<longleftrightarrow> i = j"
  by (metis append_Nil2 read_int_int_str sum.inject(2))

lemma int_str_chars: "c \<in> set (int_str i) \<Longrightarrow> is_digit c \<or> c = CHR ''-''"
  using nat_str_digits by (cases i rule: int_str_cases) (auto simp: list_all_iff)

section \<open>Joined fields\<close>

lemma until_delimiter [simp]:
  assumes "d \<notin> set s"
  shows "takeWhile (\<lambda>x. x \<noteq> d) (s @ d # t) = s" "dropWhile (\<lambda>x. x \<noteq> d) (s @ d # t) = d # t"
    "takeWhile (\<lambda>x. x \<noteq> d) s = s" "dropWhile (\<lambda>x. x \<noteq> d) s = []"
  using assms by (induction s) auto

lemma split_on_nonempty:
  "s \<noteq> [] \<Longrightarrow> split_on d s = takeWhile (\<lambda>x. x \<noteq> d) s # split_on d (drop 1 (dropWhile (\<lambda>x. x \<noteq> d) s))"
  by (cases s) simp_all

lemma split_on_single: "s \<noteq> [] \<Longrightarrow> d \<notin> set s \<Longrightarrow> split_on d s = [s]"
  by (simp add: split_on_nonempty)

lemma split_on_cons: "s \<noteq> [] \<Longrightarrow> d \<notin> set s \<Longrightarrow> split_on d (s @ d # t) = s # split_on d t"
  by (simp add: split_on_nonempty)

lemma split_join:
  assumes "\<forall>s \<in> set ss. s \<noteq> [] \<and> d \<notin> set s"
  shows "split_on d (join_on d ss) = ss"
  using assms by (induction d ss rule: join_on.induct) (simp_all add: split_on_single split_on_cons del: split_on.simps(2))

end
