(* ===== verification/FIX_Adapter.thy ===== *)
theory FIX_Adapter
  imports Text_Conversion Venue_Adapter
begin

text \<open>
  The FIX adapter, from \<open>connectors/fix_adapter.h\<close> and \<open>connectors/fix_adapter.cpp\<close>: a venue that
  translates orders and cancels to FIX messages and incoming execution reports back.

  A \<open>FixMessage\<close> is its type with the map from tags to values. The iteration order of the
  \<open>unordered_map\<close> is the argument \<open>ts\<close> of \<open>fm_serialize\<close>, any enumeration of the tags. Conversions that
  throw return an error; an exception inside \<open>process_incoming\<close> leaves it with the reports already
  delivered and the rest of the queue in place.
\<close>

section \<open>Messages\<close>

datatype fix_type = FT_NewOrderSingle | FT_OrderCancelRequest | FT_ExecutionReport | FT_Heartbeat | FT_Logon | FT_Logout

record fix_message =
  fm_type :: fix_type
  fm_fields :: "int \<rightharpoonup> string"

definition TAG_MSG_TYPE :: int where "TAG_MSG_TYPE = 35"
definition TAG_CL_ORD_ID :: int where "TAG_CL_ORD_ID = 11"
definition TAG_ORDER_ID :: int where "TAG_ORDER_ID = 37"
definition TAG_EXEC_ID :: int where "TAG_EXEC_ID = 17"
definition TAG_ORD_STATUS :: int where "TAG_ORD_STATUS = 39"
definition TAG_SYMBOL :: int where "TAG_SYMBOL = 55"
definition TAG_SIDE :: int where "TAG_SIDE = 54"
definition TAG_ORDER_QTY :: int where "TAG_ORDER_QTY = 38"
definition TAG_PRICE :: int where "TAG_PRICE = 44"
definition TAG_LAST_PX :: int where "TAG_LAST_PX = 31"
definition TAG_LAST_QTY :: int where "TAG_LAST_QTY = 32"
definition TAG_LEAVES_QTY :: int where "TAG_LEAVES_QTY = 151"
definition TAG_CUM_QTY :: int where "TAG_CUM_QTY = 14"
definition TAG_AVG_PX :: int where "TAG_AVG_PX = 6"
definition TAG_TEXT :: int where "TAG_TEXT = 58"
definition TAG_ORD_TYPE :: int where "TAG_ORD_TYPE = 40"
definition TAG_TIME_IN_FORCE :: int where "TAG_TIME_IN_FORCE = 59"
definition TAG_SENDER_COMP_ID :: int where "TAG_SENDER_COMP_ID = 49"
definition TAG_TARGET_COMP_ID :: int where "TAG_TARGET_COMP_ID = 56"
definition TAG_MSG_SEQ_NUM :: int where "TAG_MSG_SEQ_NUM = 34"
definition TAG_ORIG_CL_ORD_ID :: int where "TAG_ORIG_CL_ORD_ID = 41"

lemmas fix_tags =
  TAG_MSG_TYPE_def TAG_CL_ORD_ID_def TAG_ORDER_ID_def TAG_EXEC_ID_def TAG_ORD_STATUS_def TAG_SYMBOL_def
  TAG_SIDE_def TAG_ORDER_QTY_def TAG_PRICE_def TAG_LAST_PX_def TAG_LAST_QTY_def TAG_LEAVES_QTY_def
  TAG_CUM_QTY_def TAG_AVG_PX_def TAG_TEXT_def TAG_ORD_TYPE_def TAG_TIME_IN_FORCE_def
  TAG_SENDER_COMP_ID_def TAG_TARGET_COMP_ID_def TAG_MSG_SEQ_NUM_def TAG_ORIG_CL_ORD_ID_def

section \<open>Enumerations\<close>

fun side_to_fix :: "side \<Rightarrow> char" where
  "side_to_fix Buy = CHR ''1''"
| "side_to_fix Sell = CHR ''2''"

definition side_from_fix :: "string \<Rightarrow> side" where
  "side_from_fix v = (if v = ''1'' then Buy else Sell)"

fun ord_type_to_fix :: "order_type \<Rightarrow> char" where
  "ord_type_to_fix OT_Market = CHR ''1''"
| "ord_type_to_fix OT_Limit = CHR ''2''"
| "ord_type_to_fix OT_IOC = CHR ''2''"
| "ord_type_to_fix OT_FOK = CHR ''2''"

definition ord_type_from_fix :: "string \<Rightarrow> string \<Rightarrow> order_type" where
  "ord_type_from_fix v tif =
     (if v = ''1'' then OT_Market else if tif = ''3'' then OT_IOC else if tif = ''4'' then OT_FOK else OT_Limit)"

definition tif_to_fix :: "time_in_force \<Rightarrow> order_type \<Rightarrow> char" where
  "tif_to_fix tif ty =
     (if ty = OT_IOC then CHR ''3'' else if ty = OT_FOK then CHR ''4''
      else case tif of TIF_DAY \<Rightarrow> CHR ''0'' | TIF_GTC \<Rightarrow> CHR ''1'' | TIF_IOC \<Rightarrow> CHR ''3''
             | TIF_FOK \<Rightarrow> CHR ''4'' | TIF_GTD \<Rightarrow> CHR ''6'')"

definition tif_from_fix :: "string \<Rightarrow> time_in_force" where
  "tif_from_fix v =
     (if v = ''0'' then TIF_DAY else if v = ''1'' then TIF_GTC else if v = ''3'' then TIF_IOC
      else if v = ''4'' then TIF_FOK else if v = ''6'' then TIF_GTD else TIF_GTC)"

fun ord_status_to_fix :: "order_state \<Rightarrow> string" where
  "ord_status_to_fix New = ''0''"
| "ord_status_to_fix PendingNew = ''A''"
| "ord_status_to_fix Accepted = ''0''"
| "ord_status_to_fix PartiallyFilled = ''1''"
| "ord_status_to_fix Filled = ''2''"
| "ord_status_to_fix PendingCancel = ''6''"
| "ord_status_to_fix Canceled = ''4''"
| "ord_status_to_fix Rejected = ''8''"
| "ord_status_to_fix Expired = ''C''"
| "ord_status_to_fix PendingReplace = ''E''"

definition ord_status_from_fix :: "string \<Rightarrow> order_state" where
  "ord_status_from_fix v =
     (if v = ''0'' then Accepted else if v = ''A'' then PendingNew else if v = ''1'' then PartiallyFilled
      else if v = ''2'' then Filled else if v = ''4'' then Canceled else if v = ''6'' then PendingCancel
      else if v = ''8'' then Rejected else if v = ''C'' then Expired else if v = ''E'' then PendingReplace
      else New)"

section \<open>Prices, quantities and identifiers as text\<close>

text \<open>\<open>%08\<close> pads a number with zeros to eight characters, after the sign.\<close>

definition pad8 :: "int \<Rightarrow> string" where
  "pad8 i =
     (if i < 0 then CHR ''-'' # replicate (7 - length (dec_str (- i))) CHR ''0'' @ dec_str (- i)
      else replicate (8 - length (dec_str i)) CHR ''0'' @ dec_str i)"

fun trim_zeros :: "string \<Rightarrow> string" where
  "trim_zeros s =
     (if 1 < length s \<and> s ! (length s - 1) = CHR ''0'' \<and> s ! (length s - 2) \<noteq> CHR ''.''
      then trim_zeros (take (length s - 1) s) else s)"

declare trim_zeros.simps [simp del]

definition price_to_str :: "price \<Rightarrow> string" where
  "price_to_str p =
     (let negative = p < 0; abs_p = (if negative then i64 (- p) else p);
          whole = abs_p sdiv PRICE_SCALE; frac = abs_p smod PRICE_SCALE
      in trim_zeros ((if negative then ''-'' else []) @ int_str whole @ ''.'' @ pad8 frac))"

definition price_from_str :: "string \<Rightarrow> price res" where
  "price_from_str s = (if s = [] then Inr 0 else bind_res (stod s) (\<lambda>d. Inr (to_price d)))"

definition qty_to_str :: "quantity \<Rightarrow> string" where
  "qty_to_str q = int_str q"

definition qty_from_str :: "string \<Rightarrow> quantity res" where
  "qty_from_str s = (if s = [] then Inr 0 else stoll s)"

definition id_to_str :: "order_id \<Rightarrow> string" where
  "id_to_str k = nat_str k"

definition id_from_str :: "string \<Rightarrow> order_id res" where
  "id_from_str s = (if s = [] then Inr INVALID_ORDER_ID else stoull s)"

section \<open>Serialization\<close>

definition fm_serialize :: "int list \<Rightarrow> fix_message \<Rightarrow> string" where
  "fm_serialize ts m = join_on CHR ''|'' (map (\<lambda>t. int_str t @ CHR ''='' # the (fm_fields m t)) ts)"

fun parse_fields :: "string list \<Rightarrow> (int \<rightharpoonup> string) \<Rightarrow> (int \<rightharpoonup> string) res" where
  "parse_fields [] f = Inr f"
| "parse_fields (tok # toks) f =
     (if CHR ''='' \<notin> set tok then parse_fields toks f
      else bind_res (stoi (takeWhile (\<lambda>c. c \<noteq> CHR ''='') tok))
             (\<lambda>tag. parse_fields toks (f(tag \<mapsto> drop 1 (dropWhile (\<lambda>c. c \<noteq> CHR ''='') tok)))))"

definition fix_type_of :: "string option \<Rightarrow> fix_type" where
  "fix_type_of v =
     (if v = Some ''D'' then FT_NewOrderSingle else if v = Some ''F'' then FT_OrderCancelRequest
      else if v = Some ''8'' then FT_ExecutionReport else if v = Some ''0'' then FT_Heartbeat
      else if v = Some ''A'' then FT_Logon else if v = Some ''5'' then FT_Logout else FT_Heartbeat)"

definition fm_deserialize :: "string \<Rightarrow> fix_message res" where
  "fm_deserialize raw =
     bind_res (parse_fields (split_on CHR ''|'' raw) Map.empty)
       (\<lambda>f. Inr \<lparr>fm_type = fix_type_of (f TAG_MSG_TYPE), fm_fields = f\<rparr>)"

section \<open>The adapter\<close>

record fix_config =
  fc_venue :: venue_id
  fc_name :: string
  fc_sender :: string
  fc_target :: string
  fc_latency :: int

record fix_adapter =
  fa_config :: fix_config
  fa_connected :: bool
  fa_incoming :: "fix_message list"
  fa_sent :: "fix_message list"
  fa_active :: "order_id \<rightharpoonup> order"
  fa_seq :: int

definition fa_new :: "fix_config \<Rightarrow> fix_adapter" where
  "fa_new cfg = \<lparr>fa_config = cfg, fa_connected = False, fa_incoming = [], fa_sent = [],
     fa_active = Map.empty, fa_seq = 0\<rparr>"

text \<open>Stamping a message with the next sequence number and adding it to the log.\<close>

definition fa_emit :: "fix_message \<Rightarrow> fix_adapter \<Rightarrow> fix_adapter" where
  "fa_emit m fa =
     (let n = u32 (fa_seq fa + 1)
      in fa\<lparr>fa_seq := n,
            fa_sent := fa_sent fa @ [m\<lparr>fm_fields := (fm_fields m)(TAG_MSG_SEQ_NUM \<mapsto> int_str n)\<rparr>]\<rparr>)"

definition fa_session :: "fix_type \<Rightarrow> string \<Rightarrow> fix_adapter \<Rightarrow> fix_message" where
  "fa_session ty v fa =
     \<lparr>fm_type = ty, fm_fields = [TAG_MSG_TYPE \<mapsto> v, TAG_SENDER_COMP_ID \<mapsto> fc_sender (fa_config fa),
        TAG_TARGET_COMP_ID \<mapsto> fc_target (fa_config fa)]\<rparr>"

definition fa_connect :: "fix_adapter \<Rightarrow> bool \<times> fix_adapter" where
  "fa_connect fa =
     (if fa_connected fa then (False, fa)
      else (True, fa_emit (fa_session FT_Logon ''A'' fa) (fa\<lparr>fa_connected := True\<rparr>)))"

definition fa_disconnect :: "fix_adapter \<Rightarrow> fix_adapter" where
  "fa_disconnect fa =
     (if fa_connected fa then fa_emit (fa_session FT_Logout ''5'' fa) fa else fa)\<lparr>fa_connected := False\<rparr>"

definition fa_status :: "fix_adapter \<Rightarrow> venue_status" where
  "fa_status fa = (if fa_connected fa then Connected else Disconnected)"

definition fa_avg_latency :: "fix_adapter \<Rightarrow> int" where
  "fa_avg_latency fa = fc_latency (fa_config fa)"

definition order_to_fix :: "fix_config \<Rightarrow> order \<Rightarrow> fix_message" where
  "order_to_fix cfg od =
     (let f = [TAG_MSG_TYPE \<mapsto> ''D'', TAG_CL_ORD_ID \<mapsto> id_to_str (o_client_order_id od),
               TAG_SYMBOL \<mapsto> o_symbol od, TAG_SIDE \<mapsto> [side_to_fix (o_side od)],
               TAG_ORDER_QTY \<mapsto> qty_to_str (o_quantity od), TAG_ORD_TYPE \<mapsto> [ord_type_to_fix (o_type od)],
               TAG_TIME_IN_FORCE \<mapsto> [tif_to_fix (o_tif od) (o_type od)],
               TAG_SENDER_COMP_ID \<mapsto> fc_sender cfg, TAG_TARGET_COMP_ID \<mapsto> fc_target cfg]
      in \<lparr>fm_type = FT_NewOrderSingle,
          fm_fields = (if o_type od \<noteq> OT_Market \<and> o_price od \<noteq> INVALID_PRICE
                       then f(TAG_PRICE \<mapsto> price_to_str (o_price od)) else f)\<rparr>)"

definition cancel_to_fix :: "fix_config \<Rightarrow> cancel_request \<Rightarrow> fix_message" where
  "cancel_to_fix cfg req =
     \<lparr>fm_type = FT_OrderCancelRequest,
      fm_fields = [TAG_MSG_TYPE \<mapsto> ''F'', TAG_CL_ORD_ID \<mapsto> id_to_str (c_client_order_id req),
        TAG_ORIG_CL_ORD_ID \<mapsto> id_to_str (c_order_id req), TAG_SYMBOL \<mapsto> c_symbol req,
        TAG_SIDE \<mapsto> [side_to_fix (c_side req)], TAG_SENDER_COMP_ID \<mapsto> fc_sender cfg,
        TAG_TARGET_COMP_ID \<mapsto> fc_target cfg]\<rparr>"

definition fa_send_order :: "order \<Rightarrow> fix_adapter \<Rightarrow> bool \<times> fix_adapter" where
  "fa_send_order od fa =
     (if \<not> fa_connected fa then (False, fa)
      else let fa1 = fa\<lparr>fa_active := (if fa_active fa (o_id od) = None then (fa_active fa)(o_id od \<mapsto> od)
                                     else fa_active fa)\<rparr>
           in (True, fa_emit (order_to_fix (fa_config fa) od) fa1))"

definition fa_cancel_order :: "cancel_request \<Rightarrow> fix_adapter \<Rightarrow> bool \<times> fix_adapter" where
  "fa_cancel_order req fa =
     (if \<not> fa_connected fa then (False, fa)
      else if fa_active fa (c_order_id req) = None then (False, fa)
      else (True, fa_emit (cancel_to_fix (fa_config fa) req) fa))"

section \<open>Incoming messages\<close>

definition get_field :: "fix_message \<Rightarrow> int \<Rightarrow> string" where
  "get_field m tag = (case fm_fields m tag of Some v \<Rightarrow> v | None \<Rightarrow> [])"

definition exec_from_fix :: "timestamp \<Rightarrow> fix_message \<Rightarrow> execution_report res" where
  "exec_from_fix now m =
     bind_res (if get_field m TAG_ORDER_ID = [] then id_from_str (get_field m TAG_CL_ORD_ID)
               else id_from_str (get_field m TAG_ORDER_ID)) (\<lambda>k.
     bind_res (id_from_str (get_field m TAG_EXEC_ID)) (\<lambda>x.
     bind_res (price_from_str (get_field m TAG_LAST_PX)) (\<lambda>lp.
     bind_res (qty_from_str (get_field m TAG_LAST_QTY)) (\<lambda>lq.
     bind_res (price_from_str (get_field m TAG_AVG_PX)) (\<lambda>ap.
     bind_res (qty_from_str (get_field m TAG_CUM_QTY)) (\<lambda>cq.
     bind_res (qty_from_str (get_field m TAG_LEAVES_QTY)) (\<lambda>lv.
       Inr \<lparr>r_order_id = k, r_exec_id = x, r_state = ord_status_from_fix (get_field m TAG_ORD_STATUS),
            r_last_price = lp, r_last_quantity = lq, r_avg_price = ap, r_cum_quantity = cq,
            r_leaves_quantity = lv, r_venue_id = 0, r_timestamp = now,
            r_text = take 64 (get_field m TAG_TEXT)\<rparr>)))))))"

definition track_report :: "execution_report \<Rightarrow> fix_adapter \<Rightarrow> fix_adapter" where
  "track_report r fa =
     (case fa_active fa (r_order_id r) of
        None \<Rightarrow> fa
      | Some od \<Rightarrow>
          fa\<lparr>fa_active := (fa_active fa)(r_order_id r :=
               (if terminal_state (r_state r) then None
                else Some (od\<lparr>o_filled := r_cum_quantity r, o_remaining := r_leaves_quantity r,
                              o_avg_fill_price := r_avg_price r\<rparr>)))\<rparr>)"

fun process_queue ::
  "timestamp \<Rightarrow> fix_message list \<Rightarrow> fix_adapter \<Rightarrow> execution_report list \<times> cpp_error option \<times> fix_adapter" where
  "process_queue now [] fa = ([], None, fa\<lparr>fa_incoming := []\<rparr>)"
| "process_queue now (m # q) fa =
     (if fm_type m \<noteq> FT_ExecutionReport then process_queue now q fa
      else case exec_from_fix now m of
             Inl e \<Rightarrow> ([], Some e, fa\<lparr>fa_incoming := q\<rparr>)
           | Inr r0 \<Rightarrow>
               let r = r0\<lparr>r_venue_id := fc_venue (fa_config fa)\<rparr>;
                   (rs, e, fa') = process_queue now q (track_report r fa)
               in (r # rs, e, fa'))"

definition process_incoming :: "timestamp \<Rightarrow> fix_adapter \<Rightarrow> execution_report list \<times> cpp_error option \<times> fix_adapter" where
  "process_incoming now fa = process_queue now (fa_incoming fa) fa"

definition inject_message :: "fix_message \<Rightarrow> fix_adapter \<Rightarrow> fix_adapter" where
  "inject_message m fa = fa\<lparr>fa_incoming := fa_incoming fa @ [m]\<rparr>"

section \<open>Prices survive printing and reading\<close>

lemma length_dec_str: "n < 10 ^ k \<Longrightarrow> 0 < k \<Longrightarrow> length (dec_str n) \<le> k"
proof (induction k arbitrary: n)
  case (Suc k)
  show ?case
  proof (cases "n < 10")
    case False
    with Suc.prems have "n div 10 < 10 ^ k" "0 < k" by (cases k; simp)+
    from Suc.IH [OF this] show ?thesis using False by (subst dec_str.simps) simp
  qed (subst dec_str.simps, simp)
qed simp

lemma digits_val_zeros [simp]: "digits_val (replicate k CHR ''0'' @ ds) = digits_val ds"
  "digits_val (ds @ replicate k CHR ''0'') = digits_val ds * 10 ^ k"
proof -
  have "digits_val (replicate k CHR ''0'') = 0"
    by (induction k) (simp_all add: digits_val_def digit_of_def flip: replicate_append_same)
  then show "digits_val (replicate k CHR ''0'' @ ds) = digits_val ds"
    "digits_val (ds @ replicate k CHR ''0'') = digits_val ds * 10 ^ k"
    by (simp_all add: digits_val_append)
qed

lemma pad8_digits:
  assumes "0 \<le> f" and "f < 10 ^ 8"
  shows "length (pad8 f) = 8" "list_all is_digit (pad8 f)" "digits_val (pad8 f) = f"
proof -
  have "length (dec_str f) \<le> 8" using assms by (intro length_dec_str) simp_all
  moreover have "is_digit CHR ''0''" by (simp add: is_digit_def)
  ultimately show "length (pad8 f) = 8" "list_all is_digit (pad8 f)" "digits_val (pad8 f) = f"
    using assms dec_str_digits [of f] by (auto simp: pad8_def list_all_iff)
qed

lemma trim_zeros_snoc:
  "trim_zeros (s @ [c]) =
     (if s \<noteq> [] \<and> c = CHR ''0'' \<and> last s \<noteq> CHR ''.'' then trim_zeros s else s @ [c])"
  by (subst trim_zeros.simps) (auto simp: nth_append last_conv_nth)

lemma trim_zeros_fraction:
  assumes "list_all is_digit ds" and "ds \<noteq> []"
  shows "\<exists>ds' k. ds = ds' @ replicate k CHR ''0'' \<and> ds' \<noteq> [] \<and> trim_zeros (w @ CHR ''.'' # ds) = w @ CHR ''.'' # ds'"
  using assms
proof (induction ds rule: rev_induct)
  case (snoc c es)
  note step = trim_zeros_snoc [of "w @ CHR ''.'' # es" c, simplified]
  show ?case
  proof (cases "es \<noteq> [] \<and> c = CHR ''0''")
    case True
    then have "last es \<noteq> CHR ''.''" using snoc.prems by (simp add: list_all_iff digit_not_special)
    moreover obtain ds' k where "es = ds' @ replicate k CHR ''0''" "ds' \<noteq> []"
      "trim_zeros (w @ CHR ''.'' # es) = w @ CHR ''.'' # ds'"
      using snoc True by auto
    ultimately show ?thesis using True step by (intro exI [of _ ds'] exI [of _ "Suc k"]) (simp add: replicate_append_same)
  next
    case False
    then show ?thesis using step by (intro exI [of _ "es @ [c]"] exI [of _ 0]) auto
  qed
qed simp

lemma round_half_even_minus: "round_half_even (- y) = - round_half_even y"
proof (cases "y = of_int \<lfloor>y\<rfloor>")
  case True
  then obtain k where "y = of_int k" by blast
  then show ?thesis using round_half_even_of_int [of k] round_half_even_of_int [of "- k"] by simp
next
  case False
  then have "\<lfloor>- y\<rfloor> = - \<lfloor>y\<rfloor> - 1" by linarith
  then show ?thesis by (auto simp: round_half_even_def Let_def)
qed

lemma rnd_minus: "rnd (- x) = - rnd x"
  by (simp add: rnd_def Let_def round_half_even_minus)

lemma stod_decimal:
  assumes w: "list_all is_digit w" "w \<noteq> []" and f: "list_all is_digit f"
    and x: "x = rat_of_int (digits_val (w @ f)) / 10 ^ length f" and range: "x = 0 \<or> 1 / 10 ^ 8 \<le> x" "x \<le> 2 ^ 63"
  shows "stod (w @ CHR ''.'' # f) = Inr (rnd x)" "stod (CHR ''-'' # w @ CHR ''.'' # f) = Inr (- rnd x)"
proof -
  have nd: "\<not> is_digit CHR ''.''" by (simp add: is_digit_def)
  have fd: "takeWhile is_digit f = f" "dropWhile is_digit f = []"
    using f by (simp_all add: list_all_iff takeWhile_eq_all_conv dropWhile_eq_Nil_conv)
  have up: "takeWhile is_digit (w @ CHR ''.'' # f) = w" "dropWhile is_digit (w @ CHR ''.'' # f) = CHR ''.'' # f"
    using takeWhile_digits [OF w(1), of "CHR ''.'' # f"] nd by simp_all
  have "lower c = c" if "c \<in> set (w @ CHR ''.'' # f)" for c
    using that w(1) f by (auto simp: list_all_iff lower_def is_digit_def)
  then have low: "map lower (take n (w @ CHR ''.'' # f)) = take n (w @ CHR ''.'' # f)" for n
    by (intro map_idI) (meson in_set_takeD)
  have ns: "\<not> special_double (w @ CHR ''.'' # f)"
  proof
    assume "special_double (w @ CHR ''.'' # f)"
    then have "\<exists>c \<in> set (w @ CHR ''.'' # f). c \<in> {CHR ''n'', CHR ''x''}"
      unfolding special_double_def low
      by (metis in_set_takeD insertI1 insertI2 list.set_intros(1) list.set_intros(2))
    then show False using w(1) f by (auto simp: list_all_iff is_digit_def)
  qed
  have "(1 / 2 :: rat) ^ 1022 \<le> (1 / 2) ^ 27" by (rule power_decreasing) simp_all
  also have "(1 / 2 :: rat) ^ 27 < 1 / 10 ^ 8" by (simp add: power_one_over)
  finally have sm: "digits_val (w @ f) = 0 \<or> \<not> x < 2 powi - 1022"
    using range(1) unfolding power_int_def by (cases "x = 0") (simp_all add: x [symmetric], simp add: x)
  have "\<bar>rnd x - x\<bar> \<le> \<bar>x\<bar> / 2 ^ 53" by (rule rnd_error)
  moreover have "0 \<le> x" using range(1) by auto
  ultimately have "rnd x \<le> 2 ^ 64" using range(2) by (simp add: abs_if split: if_splits)
  then have big: "\<not> 2 ^ 1024 \<le> rnd x" by simp
  have pow: "rat_of_int (digits_val (w @ f)) * 10 powi (0 - int (length f)) = x"
    by (simp add: x power_int_def field_simps)
  note [simp] = digits_start [OF w]
  show "stod (w @ CHR ''.'' # f) = Inr (rnd x)" "stod (CHR ''-'' # w @ CHR ''.'' # f) = Inr (- rnd x)"
    using ns sm big w(2) pow by (simp_all add: stod_def Let_def up fd is_space_def)
qed

lemma price_text_roundtrip:
  assumes "\<bar>p\<bar> \<le> 2 ^ 50"
  shows "price_from_str (price_to_str p) = Inr p"
proof -
  define a where "a = \<bar>p\<bar>"
  define w where "w = nat_str (nat (a div 100000000))"
  define f where "f = a mod 100000000"
  have a: "0 \<le> a" "a \<le> 2 ^ 50" using assms by (simp_all add: a_def)
  have f: "0 \<le> f" "f < 10 ^ 8" by (simp_all add: f_def)
  note pf = pad8_digits [OF f]
  have "sgn a = (if a = 0 then 0 else 1)" using a by (simp add: sgn_if)
  then have "int_str (a sdiv PRICE_SCALE) = w" "pad8 (a smod PRICE_SCALE) = pad8 f"
    using a by (simp_all add: PRICE_SCALE_def sdiv_nonneg_eq w_def f_def int_str_def nat_str_def signed_modulo_int_def
        pos_imp_zdiv_neg_iff pos_imp_zdiv_nonneg_iff)
  moreover have "(if p < 0 then i64 (- p) else p) = a" using a by (simp add: a_def wrap_simps)
  ultimately have str: "price_to_str p = trim_zeros ((if p < 0 then ''-'' else []) @ w @ CHR ''.'' # pad8 f)"
    by (simp add: price_to_str_def Let_def)
  obtain ds k where ds: "pad8 f = ds @ replicate k CHR ''0''" "ds \<noteq> []"
    and tr: "trim_zeros (((if p < 0 then ''-'' else []) @ w) @ CHR ''.'' # pad8 f) =
      ((if p < 0 then ''-'' else []) @ w) @ CHR ''.'' # ds"
    using trim_zeros_fraction [OF pf(2), of "(if p < 0 then ''-'' else []) @ w"] pf(1)
    by (metis list.size(3) zero_neq_numeral)
  have wd: "list_all is_digit w" "w \<noteq> []" by (simp_all add: w_def nat_str_digits)
  have dd: "list_all is_digit ds" using pf(2) ds(1) by simp
  have len: "length ds + k = 8" using pf(1) ds(1) by simp
  have "digits_val (w @ ds) * 10 ^ k = digits_val (w @ pad8 f)" by (simp add: ds(1) flip: append_assoc)
  also have "\<dots> = a" using pf a by (simp add: digits_val_append w_def f_def pos_imp_zdiv_nonneg_iff)
  finally have val: "rat_of_int a = rat_of_int (digits_val (w @ ds)) * 10 ^ k"
    by (metis of_int_mult of_int_numeral of_int_power)
  define x where "x = rat_of_int a / 10 ^ 8"
  have x: "x = rat_of_int (digits_val (w @ ds)) / 10 ^ length ds"
    using len by (simp add: x_def val field_simps flip: power_add)
  have r: "x = 0 \<or> 1 / 10 ^ 8 \<le> x" "x \<le> 2 ^ 63"
  proof -
    have "rat_of_int a \<le> rat_of_int (2 ^ 50)" using a(2) of_int_le_iff by blast
    then show "x \<le> 2 ^ 63" by (simp add: x_def)
    show "x = 0 \<or> 1 / 10 ^ 8 \<le> x" using a(1) by (cases "a = 0") (simp_all add: x_def divide_right_mono)
  qed
  note rd = stod_decimal [OF wd dd x r]
  have "stod (price_to_str p) = Inr (if p < 0 then - rnd x else rnd x)"
    using rd by (simp add: str tr [simplified])
  also have "(if p < 0 then - rnd x else rnd x) = to_double p"
    using assms a by (simp add: to_double_def ddiv_def of_i64_exact PRICE_SCALE_def x_def a_def flip: rnd_minus)
  finally have "stod (price_to_str p) = Inr (to_double p)" .
  moreover have "price_to_str p \<noteq> []" by (simp add: str tr [simplified])
  ultimately show ?thesis
    using assms by (simp add: price_from_str_def to_price_eq_fp to_double_eq_fp fp_double_roundtrip PRICE_SCALE_def)
qed

section \<open>Messages survive serialization\<close>

lemma parse_field:
  assumes "in_i32 t"
  shows "parse_fields ((int_str t @ CHR ''='' # v) # toks) f = parse_fields toks (f(t \<mapsto> v))"
proof -
  have "CHR ''='' \<notin> set (int_str t)" using int_str_chars [of "CHR ''=''" t] by (auto simp: is_digit_def)
  then show ?thesis using stoi_int_str [OF assms] by simp
qed

lemma parse_fields_map:
  assumes "\<forall>t \<in> set ts. in_i32 t"
  shows "parse_fields (map (\<lambda>t. int_str t @ CHR ''='' # the (g t)) ts) f =
    Inr (\<lambda>t. if t \<in> set ts then Some (the (g t)) else f t)"
  using assms by (induction ts arbitrary: f) (auto simp: parse_field fun_eq_iff simp del: parse_fields.simps(2))

lemma split_serialized:
  assumes "\<forall>t \<in> set ts. CHR ''|'' \<notin> set (the (fm_fields m t))"
  shows "split_on CHR ''|'' (fm_serialize ts m) = map (\<lambda>t. int_str t @ CHR ''='' # the (fm_fields m t)) ts"
proof -
  have "CHR ''|'' \<notin> set (int_str t)" for t using int_str_chars [of "CHR ''|''" t] by (auto simp: is_digit_def)
  then show ?thesis using assms unfolding fm_serialize_def by (intro split_join) auto
qed

lemma deserialize_serialize:
  assumes "set ts = dom (fm_fields m)" and "\<forall>t \<in> dom (fm_fields m). in_i32 t"
    and "\<forall>v \<in> ran (fm_fields m). CHR ''|'' \<notin> set v"
    and "fm_type m = fix_type_of (fm_fields m TAG_MSG_TYPE)"
  shows "fm_deserialize (fm_serialize ts m) = Inr m"
proof -
  have "CHR ''|'' \<notin> set (the (fm_fields m t))" if "t \<in> set ts" for t
    using assms(1,3) that by (auto simp: ran_def)
  moreover have "(\<lambda>t. if t \<in> set ts then Some (the (fm_fields m t)) else None) = fm_fields m"
    using assms(1) by (auto simp: fun_eq_iff)
  ultimately show ?thesis
    using assms by (simp add: fm_deserialize_def split_serialized parse_fields_map)
qed

section \<open>Reports survive translation\<close>

text \<open>An execution report written with the adapter's own conversions.\<close>

definition report_fields :: "execution_report \<Rightarrow> (int \<rightharpoonup> string)" where
  "report_fields r =
     [TAG_MSG_TYPE \<mapsto> ''8'', TAG_ORDER_ID \<mapsto> id_to_str (r_order_id r), TAG_EXEC_ID \<mapsto> id_to_str (r_exec_id r),
      TAG_ORD_STATUS \<mapsto> ord_status_to_fix (r_state r), TAG_LAST_PX \<mapsto> price_to_str (r_last_price r),
      TAG_LAST_QTY \<mapsto> qty_to_str (r_last_quantity r), TAG_AVG_PX \<mapsto> price_to_str (r_avg_price r),
      TAG_CUM_QTY \<mapsto> qty_to_str (r_cum_quantity r), TAG_LEAVES_QTY \<mapsto> qty_to_str (r_leaves_quantity r),
      TAG_TEXT \<mapsto> r_text r]"

definition report_msg :: "execution_report \<Rightarrow> fix_message" where
  "report_msg r = \<lparr>fm_type = FT_ExecutionReport, fm_fields = report_fields r\<rparr>"

definition expressible :: "execution_report \<Rightarrow> bool" where
  "expressible r \<longleftrightarrow> r_order_id r < 2 ^ 64 \<and> r_exec_id r < 2 ^ 64 \<and> r_state r \<noteq> New \<and>
     \<bar>r_last_price r\<bar> \<le> 2 ^ 50 \<and> \<bar>r_avg_price r\<bar> \<le> 2 ^ 50 \<and>
     in_i64 (r_last_quantity r) \<and> in_i64 (r_cum_quantity r) \<and> in_i64 (r_leaves_quantity r) \<and>
     length (r_text r) \<le> 64 \<and> CHR ''|'' \<notin> set (r_text r)"

lemma status_roundtrip: "s \<noteq> New \<Longrightarrow> ord_status_from_fix (ord_status_to_fix s) = s"
  by (cases s) (simp_all add: ord_status_from_fix_def)

lemma tif_roundtrip: "tif_from_fix [tif_to_fix tif ty] =
  (if ty = OT_IOC then TIF_IOC else if ty = OT_FOK then TIF_FOK else tif)"
  by (cases tif) (simp_all add: tif_from_fix_def tif_to_fix_def)

lemma ord_type_roundtrip:
  "ord_type_from_fix [ord_type_to_fix ty] [tif_to_fix tif ty] =
     (if ty = OT_Limit \<and> tif = TIF_IOC then OT_IOC else if ty = OT_Limit \<and> tif = TIF_FOK then OT_FOK else ty)"
  by (cases ty; cases tif) (simp_all add: ord_type_from_fix_def tif_to_fix_def)

lemma side_roundtrip: "side_from_fix [side_to_fix s] = s"
  by (cases s) (simp_all add: side_from_fix_def)

lemma id_roundtrip: "k < 2 ^ 64 \<Longrightarrow> id_from_str (id_to_str k) = Inr k"
  by (simp add: id_from_str_def id_to_str_def stoull_nat_str)

lemma qty_roundtrip: "in_i64 q \<Longrightarrow> qty_from_str (qty_to_str q) = Inr q"
  by (simp add: qty_from_str_def qty_to_str_def stoll_int_str)

lemma get_report_field:
  "get_field (report_msg r) TAG_ORDER_ID = id_to_str (r_order_id r)"
  "get_field (report_msg r) TAG_EXEC_ID = id_to_str (r_exec_id r)"
  "get_field (report_msg r) TAG_ORD_STATUS = ord_status_to_fix (r_state r)"
  "get_field (report_msg r) TAG_LAST_PX = price_to_str (r_last_price r)"
  "get_field (report_msg r) TAG_LAST_QTY = qty_to_str (r_last_quantity r)"
  "get_field (report_msg r) TAG_AVG_PX = price_to_str (r_avg_price r)"
  "get_field (report_msg r) TAG_CUM_QTY = qty_to_str (r_cum_quantity r)"
  "get_field (report_msg r) TAG_LEAVES_QTY = qty_to_str (r_leaves_quantity r)"
  "get_field (report_msg r) TAG_TEXT = r_text r"
  by (simp_all add: get_field_def report_msg_def report_fields_def fix_tags)

lemma exec_from_report:
  assumes "expressible r"
  shows "exec_from_fix now (report_msg r) = Inr (r\<lparr>r_venue_id := 0, r_timestamp := now\<rparr>)"
  using assms
  by (simp add: exec_from_fix_def get_report_field expressible_def id_roundtrip qty_roundtrip
      price_text_roundtrip status_roundtrip) (simp add: id_to_str_def)

section \<open>Incoming messages are all delivered\<close>

definition stamp :: "fix_adapter \<Rightarrow> timestamp \<Rightarrow> execution_report \<Rightarrow> execution_report" where
  "stamp fa now r = r\<lparr>r_venue_id := fc_venue (fa_config fa), r_timestamp := now\<rparr>"

text \<open>The report a message stands for, and the messages that make the adapter throw.\<close>

definition report_of :: "fix_config \<Rightarrow> timestamp \<Rightarrow> fix_message \<Rightarrow> execution_report option" where
  "report_of cfg now m =
     (if fm_type m \<noteq> FT_ExecutionReport then None
      else case exec_from_fix now m of Inl e \<Rightarrow> None | Inr r \<Rightarrow> Some (r\<lparr>r_venue_id := fc_venue cfg\<rparr>))"

definition malformed :: "timestamp \<Rightarrow> fix_message \<Rightarrow> bool" where
  "malformed now m \<longleftrightarrow> fm_type m = FT_ExecutionReport \<and> (\<exists>e. exec_from_fix now m = Inl e)"

fun process_calls :: "nat \<Rightarrow> timestamp \<Rightarrow> fix_adapter \<Rightarrow> execution_report list \<times> fix_adapter" where
  "process_calls 0 now fa = ([], fa)"
| "process_calls (Suc n) now fa =
     (let (rs, e, fa1) = process_incoming now fa; (rs', fa2) = process_calls n now fa1 in (rs @ rs', fa2))"

lemma track_report_frame [simp]:
  "fa_config (track_report r fa) = fa_config fa" "fa_connected (track_report r fa) = fa_connected fa"
  "fa_sent (track_report r fa) = fa_sent fa" "fa_seq (track_report r fa) = fa_seq fa"
  by (simp_all add: track_report_def split: option.split)

text \<open>A call handles the messages up to the first malformed one and leaves the queue behind it.\<close>

lemma process_queue_result:
  assumes "process_queue now q fa = (rs, e, fa')"
  shows "\<exists>q1 q2. q = q1 @ q2 \<and> (\<forall>m \<in> set q1. \<not> malformed now m) \<and>
    rs = List.map_filter (report_of (fa_config fa) now) q1 \<and>
    fa_config fa' = fa_config fa \<and> fa_active fa' = fa_active (fold track_report rs fa) \<and>
    (case q2 of [] \<Rightarrow> e = None \<and> fa_incoming fa' = []
     | m # q3 \<Rightarrow> malformed now m \<and> e \<noteq> None \<and> fa_incoming fa' = q3)"
  using assms
proof (induction q arbitrary: fa rs)
  case Nil
  then show ?case by (auto simp: List.map_filter_simps)
next
  case (Cons m q)
  show ?case
  proof (cases "malformed now m")
    case True
    then show ?thesis
      using Cons.prems by (intro exI [of _ "[]"] exI [of _ "m # q"]) (auto simp: malformed_def List.map_filter_simps)
  next
    case ok: False
    define fa1 where "fa1 = (case report_of (fa_config fa) now m of None \<Rightarrow> fa | Some r \<Rightarrow> track_report r fa)"
    obtain rs1 where rest: "process_queue now q fa1 = (rs1, e, fa')"
      and rs: "rs = (case report_of (fa_config fa) now m of None \<Rightarrow> rs1 | Some r \<Rightarrow> r # rs1)"
      using Cons.prems ok
      by (auto simp: malformed_def report_of_def fa1_def Let_def split: sum.splits if_splits prod.splits)
    have cfg: "fa_config fa1 = fa_config fa" by (simp add: fa1_def split: option.split)
    from Cons.IH [OF rest] obtain q1 q2 where
      "q = q1 @ q2 \<and> (\<forall>m \<in> set q1. \<not> malformed now m) \<and>
        rs1 = List.map_filter (report_of (fa_config fa) now) q1 \<and>
        fa_config fa' = fa_config fa \<and> fa_active fa' = fa_active (fold track_report rs1 fa1) \<and>
        (case q2 of [] \<Rightarrow> e = None \<and> fa_incoming fa' = []
         | m # q3 \<Rightarrow> malformed now m \<and> e \<noteq> None \<and> fa_incoming fa' = q3)"
      unfolding cfg by blast
    then show ?thesis
      using ok rs by (intro exI [of _ "m # q1"] exI [of _ q2])
        (auto simp: fa1_def List.map_filter_simps split: option.splits)
  qed
qed

lemma map_filter_malformed: "malformed now m \<Longrightarrow> report_of cfg now m = None"
  by (auto simp: malformed_def report_of_def)

lemma map_filter_append: "List.map_filter f (xs @ ys) = List.map_filter f xs @ List.map_filter f ys"
  by (simp add: List.map_filter_def)

text \<open>Enough calls empty the queue and deliver every report in it, in order.\<close>

lemma process_calls_drain:
  assumes "length (filter (malformed now) (fa_incoming fa)) < n"
    and "process_calls n now fa = (rs, fa')"
  shows "rs = List.map_filter (report_of (fa_config fa) now) (fa_incoming fa) \<and> fa_incoming fa' = []"
  using assms
proof (induction n arbitrary: fa rs)
  case (Suc n)
  obtain rs1 e fa1 where one: "process_incoming now fa = (rs1, e, fa1)" by (metis prod_cases3)
  obtain rs2 where rest: "process_calls n now fa1 = (rs2, fa')" and rs: "rs = rs1 @ rs2"
    using Suc.prems(2) one by (auto split: prod.splits)
  have empty: "rs2 = [] \<and> fa_incoming fa' = []" if "fa_incoming fa1 = []"
  proof -
    have "process_calls k now fa2 = (rs2, fa') \<Longrightarrow> fa_incoming fa2 = [] \<Longrightarrow> rs2 = [] \<and> fa_incoming fa' = []" for k fa2 rs2
      by (induction k arbitrary: fa2 rs2) (auto simp: process_incoming_def)
    with rest that show ?thesis by blast
  qed
  obtain q1 q2 where q: "fa_incoming fa = q1 @ q2" "\<forall>m \<in> set q1. \<not> malformed now m"
      "rs1 = List.map_filter (report_of (fa_config fa) now) q1" "fa_config fa1 = fa_config fa"
      "case q2 of [] \<Rightarrow> e = None \<and> fa_incoming fa1 = []
         | m # q3 \<Rightarrow> malformed now m \<and> e \<noteq> None \<and> fa_incoming fa1 = q3"
    using process_queue_result [OF one [unfolded process_incoming_def]] by blast
  show ?case
  proof (cases q2)
    case Nil
    then show ?thesis using q rs empty by simp
  next
    case (Cons m q3)
    moreover from this have "rs2 = List.map_filter (report_of (fa_config fa) now) q3 \<and> fa_incoming fa' = []"
      using Suc.IH [OF _ rest] Suc.prems(1) q by simp
    ultimately show ?thesis
      using q rs by (simp add: map_filter_append map_filter_malformed List.map_filter_simps)
  qed
qed simp

section \<open>The session\<close>

datatype fa_cmd =
    FA_Connect
  | FA_Disconnect
  | FA_Send order
  | FA_Cancel cancel_request
  | FA_Inject fix_message
  | FA_Process timestamp

fun fa_step :: "fa_cmd \<Rightarrow> fix_adapter \<Rightarrow> fix_adapter" where
  "fa_step FA_Connect fa = snd (fa_connect fa)"
| "fa_step FA_Disconnect fa = fa_disconnect fa"
| "fa_step (FA_Send od) fa = snd (fa_send_order od fa)"
| "fa_step (FA_Cancel req) fa = snd (fa_cancel_order req fa)"
| "fa_step (FA_Inject m) fa = inject_message m fa"
| "fa_step (FA_Process now) fa = snd (snd (process_incoming now fa))"

text \<open>What a counterparty accepts: a logon, then orders and cancels, then a logout, again and again.\<close>

fun session_step :: "fix_type \<Rightarrow> bool option \<Rightarrow> bool option" where
  "session_step FT_Logon (Some up) = (if up then None else Some True)"
| "session_step FT_Logout (Some up) = (if up then Some False else None)"
| "session_step FT_NewOrderSingle (Some up) = (if up then Some True else None)"
| "session_step FT_OrderCancelRequest (Some up) = (if up then Some True else None)"
| "session_step _ _ = None"

definition session_of :: "fix_message list \<Rightarrow> bool option" where
  "session_of ms = fold session_step (map fm_type ms) (Some False)"

definition numbered :: "fix_message list \<Rightarrow> bool" where
  "numbered ms \<longleftrightarrow> (\<forall>i < length ms. fm_fields (ms ! i) TAG_MSG_SEQ_NUM = Some (int_str (u32 (int i + 1))))"

definition typed :: "fix_message \<Rightarrow> bool" where
  "typed m \<longleftrightarrow> fm_type m = fix_type_of (fm_fields m TAG_MSG_TYPE)"

text \<open>The tracked order was sent: its message, but for the number, is in the log.\<close>

definition was_sent :: "order \<Rightarrow> fix_adapter \<Rightarrow> bool" where
  "was_sent od fa \<longleftrightarrow> (\<exists>m \<in> set (fa_sent fa). fm_type m = FT_NewOrderSingle \<and>
     (fm_fields m)(TAG_MSG_SEQ_NUM := None) = fm_fields (order_to_fix (fa_config fa) od))"

definition fa_inv :: "fix_adapter \<Rightarrow> bool" where
  "fa_inv fa \<longleftrightarrow> session_of (fa_sent fa) = Some (fa_connected fa) \<and> numbered (fa_sent fa) \<and>
     fa_seq fa = u32 (int (length (fa_sent fa))) \<and> (\<forall>m \<in> set (fa_sent fa). typed m) \<and>
     (\<forall>k od. fa_active fa k = Some od \<longrightarrow> o_id od = k \<and> was_sent od fa)"

lemma u32_Suc: "u32 (u32 x + 1) = u32 (x + 1)"
  by (simp add: uwrap_def mod_simps)

lemma fa_emit_simps [simp]:
  "fa_config (fa_emit m fa) = fa_config fa" "fa_connected (fa_emit m fa) = fa_connected fa"
  "fa_active (fa_emit m fa) = fa_active fa" "fa_incoming (fa_emit m fa) = fa_incoming fa"
  by (simp_all add: fa_emit_def Let_def)

text \<open>Emitting one message that the session allows.\<close>

lemma fa_emit_inv:
  assumes "fa_seq fa = u32 (int (length (fa_sent fa)))" and "numbered (fa_sent fa)"
    and "session_of (fa_sent fa) = Some up" and "session_step (fm_type m) (Some up) = Some (fa_connected fa)"
    and "\<forall>m \<in> set (fa_sent fa). typed m" and "typed m"
    and "\<And>k od. fa_active fa k = Some od \<Longrightarrow>
      o_id od = k \<and> (was_sent od fa \<or> fm_type m = FT_NewOrderSingle \<and> m = order_to_fix (fa_config fa) od)"
  shows "fa_inv (fa_emit m fa)"
proof -
  define m' where "m' = m\<lparr>fm_fields := (fm_fields m)(TAG_MSG_SEQ_NUM \<mapsto> int_str (u32 (int (length (fa_sent fa)) + 1)))\<rparr>"
  have sent: "fa_sent (fa_emit m fa) = fa_sent fa @ [m']" and seq: "fa_seq (fa_emit m fa) = u32 (int (length (fa_sent fa)) + 1)"
    using assms(1) by (simp_all add: fa_emit_def Let_def m'_def u32_Suc)
  have fields: "fm_type m' = fm_type m" "fm_fields m' TAG_MSG_SEQ_NUM = Some (int_str (u32 (int (length (fa_sent fa)) + 1)))"
    "fm_fields m' TAG_MSG_TYPE = fm_fields m TAG_MSG_TYPE"
    by (simp_all add: m'_def fix_tags)
  have "numbered (fa_sent fa @ [m'])"
    using assms(2) fields(2) by (auto simp: numbered_def nth_append less_Suc_eq)
  moreover have "was_sent od (fa_emit m fa)" if "was_sent od fa \<or> fm_type m = FT_NewOrderSingle \<and> m = order_to_fix (fa_config fa) od" for od
    using that
  proof
    assume "fm_type m = FT_NewOrderSingle \<and> m = order_to_fix (fa_config fa) od"
    moreover from this have "(fm_fields m')(TAG_MSG_SEQ_NUM := None) = fm_fields (order_to_fix (fa_config fa) od)"
      by (auto simp: m'_def order_to_fix_def Let_def fix_tags fun_eq_iff)
    ultimately show ?thesis unfolding was_sent_def sent fa_emit_simps
      using fields(1) by (metis in_set_conv_decomp)
  qed (auto simp: was_sent_def sent)
  ultimately show ?thesis
    using assms fields by (simp add: fa_inv_def sent seq session_of_def typed_def add.commute)
qed

lemma order_to_fix_fills [simp]:
  "order_to_fix cfg (od\<lparr>o_filled := a, o_remaining := b, o_avg_fill_price := c\<rparr>) = order_to_fix cfg od"
  by (simp add: order_to_fix_def Let_def)

lemma track_report_inv: "fa_inv fa \<Longrightarrow> fa_inv (track_report r fa)"
  unfolding track_report_def fa_inv_def was_sent_def
  by (auto split: option.split)

lemma fa_inv_incoming [simp]: "fa_inv (fa\<lparr>fa_incoming := q\<rparr>) \<longleftrightarrow> fa_inv fa"
  by (simp add: fa_inv_def was_sent_def)

lemma process_queue_inv: "fa_inv fa \<Longrightarrow> fa_inv (snd (snd (process_queue now q fa)))"
proof (induction q arbitrary: fa)
  case (Cons m q)
  have "fa_inv (snd (snd (process_queue now q (track_report r fa))))" for r
    by (rule Cons.IH [OF track_report_inv [OF Cons.prems]])
  then show ?case
    using Cons.IH [OF Cons.prems] Cons.prems by (auto simp: Let_def split_beta split: sum.split)
qed simp

lemma fa_emit_connected: "(fa_emit m fa)\<lparr>fa_connected := b\<rparr> = fa_emit m (fa\<lparr>fa_connected := b\<rparr>)"
  by (cases fa) (simp add: fa_emit_def Let_def)

lemma typed_simps [simp]:
  "typed (fa_session FT_Logon ''A'' fa)" "typed (fa_session FT_Logout ''5'' fa)"
  "typed (order_to_fix cfg od)" "typed (cancel_to_fix cfg req)"
  by (simp_all add: typed_def fa_session_def order_to_fix_def cancel_to_fix_def fix_type_of_def Let_def fix_tags)

lemma emitted_types [simp]:
  "fm_type (fa_session ty v fa) = ty" "fm_type (order_to_fix cfg od) = FT_NewOrderSingle"
  "fm_type (cancel_to_fix cfg req) = FT_OrderCancelRequest"
  by (simp_all add: fa_session_def order_to_fix_def cancel_to_fix_def Let_def)

lemma fa_step_inv [keeps]:
  assumes "fa_inv fa"
  shows "fa_inv (fa_step c fa)"
proof (cases c)
  case FA_Connect
  have "fa_inv (fa_emit (fa_session FT_Logon ''A'' fa) (fa\<lparr>fa_connected := True\<rparr>))" if "\<not> fa_connected fa"
    using assms that by (intro fa_emit_inv [where up = False]) (auto simp: fa_inv_def was_sent_def)
  then show ?thesis using assms by (simp add: FA_Connect fa_connect_def)
next
  case FA_Disconnect
  have "fa_inv ((fa_emit (fa_session FT_Logout ''5'' fa) fa)\<lparr>fa_connected := False\<rparr>)" if "fa_connected fa"
  proof -
    have "fa_inv (fa_emit (fa_session FT_Logout ''5'' fa) (fa\<lparr>fa_connected := False\<rparr>))"
      using assms that by (intro fa_emit_inv [where up = True]) (auto simp: fa_inv_def was_sent_def)
    then show ?thesis by (simp add: fa_emit_connected)
  qed
  moreover have "fa_disconnect fa = fa" if "\<not> fa_connected fa"
    using that by (cases fa) (simp add: fa_disconnect_def)
  ultimately show ?thesis
    using assms by (cases "fa_connected fa") (simp add: FA_Disconnect fa_disconnect_def, metis FA_Disconnect fa_step.simps(2))
next
  case (FA_Send od)
  define act where "act = (if fa_active fa (o_id od) = None then (fa_active fa)(o_id od \<mapsto> od) else fa_active fa)"
  have "fa_inv (fa_emit (order_to_fix (fa_config fa) od) (fa\<lparr>fa_active := act\<rparr>))" if "fa_connected fa"
    using assms that
    by (intro fa_emit_inv [where up = True]) (auto simp: fa_inv_def was_sent_def act_def split: if_splits)
  then show ?thesis using assms unfolding act_def by (simp add: FA_Send fa_send_order_def Let_def)
next
  case (FA_Cancel req)
  have "fa_inv (fa_emit (cancel_to_fix (fa_config fa) req) fa)" if "fa_connected fa"
    using assms that by (intro fa_emit_inv [where up = True]) (auto simp: fa_inv_def)
  then show ?thesis using assms by (auto simp: FA_Cancel fa_cancel_order_def)
next
  case (FA_Inject m)
  then show ?thesis using assms by (simp add: inject_message_def fa_inv_def was_sent_def)
next
  case (FA_Process now)
  then show ?thesis using assms by (simp add: process_incoming_def process_queue_inv)
qed

interpretation fix_session: transition_system fa_step "fa_new cfg" fa_inv "\<lambda>_ _. True" for cfg
  by unfold_locales (simp_all add: keeps, simp add: fa_inv_def fa_new_def session_of_def numbered_def uwrap_def)

section \<open>Properties\<close>

lemma trim_zeros_subset: "set (trim_zeros s) \<subseteq> set s"
proof (induction s rule: trim_zeros.induct)
  case (1 s)
  then show ?case by (subst trim_zeros.simps) (auto dest: in_set_takeD)
qed

lemma pad8_chars: "c \<in> set (pad8 i) \<Longrightarrow> is_digit c \<or> c = CHR ''-''"
  using dec_str_digits [of i] dec_str_digits [of "- i"]
  by (cases "i < 0") (auto simp: pad8_def list_all_iff is_digit_def)

lemma price_to_str_chars: "c \<in> set (price_to_str p) \<Longrightarrow> is_digit c \<or> c = CHR ''-'' \<or> c = CHR ''.''"
  unfolding price_to_str_def Let_def
  by (drule trim_zeros_subset [THEN subsetD]) (auto dest: int_str_chars pad8_chars split: if_splits)

lemma report_values:
  assumes "expressible r" and "v \<in> ran (report_fields r)"
  shows "CHR ''|'' \<notin> set v"
proof -
  have "CHR ''|'' \<notin> set (nat_str n)" for n using nat_str_digits [of n] by (auto simp: list_all_iff is_digit_def)
  moreover have "CHR ''|'' \<notin> set (int_str q)" for q using int_str_chars [of "CHR ''|''" q] by (auto simp: is_digit_def)
  moreover have "CHR ''|'' \<notin> set (price_to_str p)" for p
    using price_to_str_chars [of "CHR ''|''" p] by (auto simp: is_digit_def)
  moreover have "CHR ''|'' \<notin> set (ord_status_to_fix st)" for st by (cases st) simp_all
  ultimately show ?thesis
    using assms unfolding expressible_def report_fields_def ran_def id_to_str_def qty_to_str_def
    by (auto split: if_splits)
qed

lemma report_tags: "dom (report_fields r) = {35, 37, 17, 39, 31, 32, 6, 14, 151, 58}"
  by (auto simp: report_fields_def fix_tags)

lemma report_of_msg: "expressible r \<Longrightarrow> report_of (fa_config fa) now (report_msg r) = Some (stamp fa now r)"
  by (simp add: report_of_def exec_from_report stamp_def) (simp add: report_msg_def)

lemma map_filter_reports:
  "\<forall>r \<in> set rs. expressible r \<Longrightarrow>
   List.map_filter (report_of (fa_config fa) now) (map report_msg rs) = map (stamp fa now) rs"
  by (induction rs) (simp_all add: List.map_filter_simps report_of_msg)

lemma fa_emit_sent: "map fm_type (fa_sent (fa_emit m fa)) = map fm_type (fa_sent fa) @ [fm_type m]"
  by (simp add: fa_emit_def Let_def)

text \<open>
  A FIX message survives serialization: in whatever order the map enumerates its tags, the text reads
  back as the same message, provided no value contains the delimiter and the message type agrees
  with tag 35. Values may contain \<open>=\<close> or be empty.
\<close>

theorem fix_message_roundtrip:
  assumes "set ts = dom (fm_fields m)" and "\<forall>t \<in> dom (fm_fields m). in_i32 t"
    and "\<forall>v \<in> ran (fm_fields m). CHR ''|'' \<notin> set v"
    and "fm_type m = fix_type_of (fm_fields m TAG_MSG_TYPE)"
  shows "fm_deserialize (fm_serialize ts m) = Inr m"
  by (rule deserialize_serialize [OF assms])

theorem fix_message_roundtrip_witness:
  "fm_serialize [55, 58, 35] \<lparr>fm_type = FT_NewOrderSingle, fm_fields = [35 \<mapsto> ''D'', 55 \<mapsto> ''A=B'', 58 \<mapsto> []]\<rparr> =
     ''55=A=B|58=|35=D'' \<and>
   fm_deserialize ''55=A=B|58=|35=D'' =
     Inr \<lparr>fm_type = FT_NewOrderSingle, fm_fields = [35 \<mapsto> ''D'', 55 \<mapsto> ''A=B'', 58 \<mapsto> []]\<rparr>"
proof -
  let ?m = "\<lparr>fm_type = FT_NewOrderSingle, fm_fields = [35 \<mapsto> ''D'', 55 \<mapsto> ''A=B'', 58 \<mapsto> []]\<rparr>"
  have "fm_serialize [55, 58, 35] ?m = ''55=A=B|58=|35=D''"
    by code_simp
  moreover have "fm_deserialize (fm_serialize [55, 58, 35] ?m) = Inr ?m"
    by (rule fix_message_roundtrip) (auto simp: ran_def i32_range fix_type_of_def fix_tags split: if_splits)
  ultimately show ?thesis by simp
qed

text \<open>
  Execution reports arrive exactly. Reports written with the adapter's own conversions (prices up to
  \<open>2 ^ 50\<close>, that is about eleven million, with all eight decimals) read back as the same messages,
  and processing them delivers exactly these reports, in order, stamped with the venue and the time.
\<close>

theorem fix_report_exact:
  assumes "\<forall>r \<in> set rs. expressible r" and "\<forall>r \<in> set rs. set (ts r) = dom (report_fields r)"
    and "process_incoming now (fa\<lparr>fa_incoming := map report_msg rs\<rparr>) = (out, e, fa')"
  shows "(\<forall>r \<in> set rs. fm_deserialize (fm_serialize (ts r) (report_msg r)) = Inr (report_msg r)) \<and>
         out = map (stamp fa now) rs \<and> e = None \<and> fa_incoming fa' = []"
proof -
  have "fm_deserialize (fm_serialize (ts r) (report_msg r)) = Inr (report_msg r)" if "r \<in> set rs" for r
  proof (rule deserialize_serialize)
    show "\<forall>v \<in> ran (fm_fields (report_msg r)). CHR ''|'' \<notin> set v"
      using assms(1) that report_values by (auto simp: report_msg_def)
    show "fm_type (report_msg r) = fix_type_of (fm_fields (report_msg r) TAG_MSG_TYPE)"
      by (simp add: report_msg_def report_fields_def fix_type_of_def fix_tags)
  qed (use assms(2) that in \<open>simp_all add: report_msg_def report_tags i32_range\<close>)
  moreover have "\<not> malformed now (report_msg r)" if "r \<in> set rs" for r
    using exec_from_report [of r now] assms(1) that by (simp add: malformed_def)
  then have "out = map (stamp fa now) rs \<and> e = None \<and> fa_incoming fa' = []"
    using process_queue_result [OF assms(3) [unfolded process_incoming_def]] map_filter_reports [OF assms(1), of fa now]
    by (fastforce simp: map_eq_append_conv split: list.splits)
  ultimately show ?thesis by blast
qed

definition sample_report :: execution_report where
  "sample_report = \<lparr>r_order_id = 7, r_exec_id = 9, r_state = Filled, r_last_price = 5012345000000,
     r_last_quantity = 100, r_avg_price = 5012345000000, r_cum_quantity = 100, r_leaves_quantity = 0,
     r_venue_id = 0, r_timestamp = 0, r_text = []\<rparr>"

definition sample_config :: fix_config where
  "sample_config = \<lparr>fc_venue = 2, fc_name = ''FixVenue'', fc_sender = ''SOR_CLIENT'', fc_target = ''EXCHANGE'',
     fc_latency = 100\<rparr>"

lemma sample_expressible: "expressible sample_report"
  by (simp add: expressible_def sample_report_def i64_range)

theorem fix_report_exact_witness:
  "\<exists>fa'. process_incoming 5 ((fa_new sample_config)\<lparr>fa_incoming := [report_msg sample_report]\<rparr>) =
     ([sample_report\<lparr>r_venue_id := 2, r_timestamp := 5\<rparr>], None, fa') \<and> fa_incoming fa' = []"
proof -
  obtain out e fa' where res:
    "process_incoming 5 ((fa_new sample_config)\<lparr>fa_incoming := map report_msg [sample_report]\<rparr>) = (out, e, fa')"
    by (metis prod_cases3)
  have "\<forall>r \<in> set [sample_report]. expressible r" by (simp add: sample_expressible)
  moreover have "\<forall>r \<in> set [sample_report]. set [35, 37, 17, 39, 31, 32, 6, 14, 151, 58] = dom (report_fields r)"
    by (auto simp: report_tags)
  ultimately show ?thesis
    using fix_report_exact [OF _ _ res, of "\<lambda>_. [35, 37, 17, 39, 31, 32, 6, 14, 151, 58]"] res
    by (simp add: stamp_def fa_new_def sample_config_def)
qed

text \<open>
  An exception loses no other report. A malformed report makes \<open>process_incoming\<close> throw, but the rest
  of the queue stays: with one more call than there are malformed messages the queue is empty, and
  the reports delivered by these calls are those of all well-formed messages, in order.
\<close>

theorem fix_incoming_complete:
  assumes "length (filter (malformed now) (fa_incoming fa)) < n" and "process_calls n now fa = (rs, fa')"
  shows "rs = List.map_filter (report_of (fa_config fa) now) (fa_incoming fa) \<and> fa_incoming fa' = []"
  by (rule process_calls_drain [OF assms])

theorem fix_incoming_complete_witness:
  "let bad = \<lparr>fm_type = FT_ExecutionReport, fm_fields = [TAG_ORDER_ID \<mapsto> ''x'']\<rparr>;
       fa = (fa_new sample_config)\<lparr>fa_incoming := [bad, report_msg sample_report]\<rparr>
   in fst (process_calls 2 5 fa) = [sample_report\<lparr>r_venue_id := 2, r_timestamp := 5\<rparr>] \<and>
      fa_incoming (snd (process_calls 2 5 fa)) = []"
proof -
  define bad where "bad = \<lparr>fm_type = FT_ExecutionReport, fm_fields = [TAG_ORDER_ID \<mapsto> ''x'']\<rparr>"
  define fa where "fa = (fa_new sample_config)\<lparr>fa_incoming := [bad, report_msg sample_report]\<rparr>"
  have "malformed 5 bad"
    by (simp add: malformed_def bad_def exec_from_fix_def get_field_def id_from_str_def stoull_def read_int_def
        is_space_def is_digit_def)
  moreover have "\<not> malformed 5 (report_msg sample_report)"
    using exec_from_report [OF sample_expressible, of 5] by (simp add: malformed_def)
  ultimately have "length (filter (malformed 5) (fa_incoming fa)) < 2" by (simp add: fa_def)
  moreover obtain rs fa' where calls: "process_calls 2 5 fa = (rs, fa')" by fastforce
  ultimately have "rs = List.map_filter (report_of (fa_config fa) 5) (fa_incoming fa) \<and> fa_incoming fa' = []"
    by (rule fix_incoming_complete)
  moreover have "report_of (fa_config fa) 5 (report_msg sample_report) = Some (sample_report\<lparr>r_venue_id := 2, r_timestamp := 5\<rparr>)"
    using report_of_msg [OF sample_expressible, of fa 5] by (simp add: stamp_def fa_def fa_new_def sample_config_def)
  ultimately show ?thesis
    using calls map_filter_malformed [OF \<open>malformed 5 bad\<close>]
    by (simp add: fa_def bad_def [symmetric] List.map_filter_simps)
qed

text \<open>
  C14: The adapter keeps a legal FIX session. Through any sequence of calls, its outgoing messages are
  sessions of a logon, then orders and cancels, then a logout, the last one open exactly while the
  adapter is connected; they are numbered 1, 2, 3, ... without gap; each carries the type it has in
  tag 35; and every order the adapter still tracks was sent.
\<close>

theorem fix_session_well_formed:
  assumes "fa = run fa_step cs (fa_new cfg)"
  shows "session_of (fa_sent fa) = Some (fa_connected fa) \<and>
         (\<forall>i < length (fa_sent fa). fm_fields (fa_sent fa ! i) TAG_MSG_SEQ_NUM = Some (int_str (u32 (int i + 1)))) \<and>
         (\<forall>m \<in> set (fa_sent fa). fm_type m = fix_type_of (fm_fields m TAG_MSG_TYPE)) \<and>
         (\<forall>k od. fa_active fa k = Some od \<longrightarrow> o_id od = k \<and> was_sent od fa)"
  using fix_session.inv_run [of cs cfg] assms by (simp add: fa_inv_def numbered_def typed_def)

theorem fix_session_well_formed_witness:
  "let od = default_order\<lparr>o_id := 7, o_symbol := ''AAPL'', o_quantity := 100, o_price := 15025000000\<rparr>;
       fa = run fa_step [FA_Send od, FA_Connect, FA_Connect, FA_Send od, FA_Disconnect] (fa_new sample_config)
   in map fm_type (fa_sent fa) = [FT_Logon, FT_NewOrderSingle, FT_Logout] \<and>
      fm_fields (fa_sent fa ! 1) TAG_MSG_SEQ_NUM = Some (int_str 2) \<and> was_sent od fa"
proof -
  define od where "od = default_order\<lparr>o_id := 7, o_symbol := ''AAPL'', o_quantity := 100, o_price := 15025000000\<rparr>"
  define fa where "fa = run fa_step [FA_Send od, FA_Connect, FA_Connect, FA_Send od, FA_Disconnect] (fa_new sample_config)"
  have types: "map fm_type (fa_sent fa) = [FT_Logon, FT_NewOrderSingle, FT_Logout]" and "fa_active fa 7 = Some od"
    by (simp_all add: fa_def fa_new_def fa_send_order_def fa_connect_def fa_disconnect_def fa_emit_sent)
      (simp_all add: od_def)
  moreover have "length (fa_sent fa) = 3" using arg_cong [OF types, of length] by simp
  ultimately show ?thesis
    using fix_session_well_formed [OF fa_def]
    unfolding Let_def od_def [symmetric] fa_def [symmetric] by (simp add: uwrap_def)
qed

end
