(* ===== verification/FIX_Gateway.thy ===== *)
theory FIX_Gateway
  imports Gateway FIX_Adapter
begin

text \<open>
  The FIX gateway, from \<open>gateway/fix_gateway.h\<close> and \<open>gateway/fix_gateway.cpp\<close>: it parses raw FIX text into
  orders and cancels for the gateway and writes fills as execution reports.

  A \<open>fix_gateway\<close> is the gateway it refers to, whether a send callback is set, and who owns the one
  fill callback of the execution handler: the FIX gateway takes it in its constructor, the
  gateway takes it (back) in \<open>initialize\<close>. Texts given to the send callback are returned.
\<close>

section \<open>Reading a tag\<close>

abbreviation SOH :: char where "SOH \<equiv> CHR 0x01"

definition get_tag_at :: "char \<Rightarrow> string \<Rightarrow> string \<Rightarrow> string option" where
  "get_tag_at delim msg tag =
     (let key = tag @ ''=''; search = delim # key;
          pos = (if take (length key) msg = key then Some (length key)
                 else map_option (\<lambda>i. i + length search) (find_sub search msg))
      in map_option (\<lambda>p. takeWhile (\<lambda>c. c \<noteq> delim) (drop p msg)) pos)"

definition get_tag :: "string \<Rightarrow> string \<Rightarrow> string" where
  "get_tag msg tag =
     (case get_tag_at SOH msg tag of Some v \<Rightarrow> v
      | None \<Rightarrow> (case get_tag_at CHR ''|'' msg tag of Some v \<Rightarrow> v | None \<Rightarrow> []))"

section \<open>Inbound messages\<close>

definition symbol_of :: "string \<Rightarrow> symbol" where
  "symbol_of s = fs_view (fs_assign 16 s (fs_init 16))"

definition client_of :: "string \<Rightarrow> string" where
  "client_of s = fs_view (fs_assign 32 s (fs_init 32))"

definition side_of_tag :: "string \<Rightarrow> side" where
  "side_of_tag s = (if s = ''2'' then Sell else Buy)"

definition tif_of_tag :: "string \<Rightarrow> time_in_force" where
  "tif_of_tag s =
     (if s = ''0'' then TIF_DAY else if s = ''1'' then TIF_GTC else if s = ''3'' then TIF_IOC
      else if s = ''4'' then TIF_FOK else o_tif default_order)"

definition optional :: "(string \<Rightarrow> 'a res) \<Rightarrow> 'a \<Rightarrow> string \<Rightarrow> 'a res" where
  "optional f d s = (if s = [] then Inr d else f s)"

definition parse_new_order :: "string \<Rightarrow> order res" where
  "parse_new_order raw =
     bind_res (optional stoull INVALID_ORDER_ID (get_tag raw ''11'')) (\<lambda>cl.
     bind_res (optional stoll 0 (get_tag raw ''38'')) (\<lambda>q.
     bind_res (optional (\<lambda>s. bind_res (stod s) (\<lambda>d. Inr (to_price d))) INVALID_PRICE (get_tag raw ''44'')) (\<lambda>p.
       Inr (default_order\<lparr>o_client_order_id := cl, o_symbol := symbol_of (get_tag raw ''55''),
              o_side := side_of_tag (get_tag raw ''54''), o_quantity := q, o_remaining := q, o_price := p,
              o_type := (if get_tag raw ''40'' = ''1'' then OT_Market else OT_Limit),
              o_tif := tif_of_tag (get_tag raw ''59''), o_client_id := client_of (get_tag raw ''109'')\<rparr>))))"

definition parse_cancel :: "string \<Rightarrow> cancel_request res" where
  "parse_cancel raw =
     bind_res (optional stoull INVALID_ORDER_ID (get_tag raw ''41'')) (\<lambda>k.
     bind_res (optional stoull INVALID_ORDER_ID (get_tag raw ''11'')) (\<lambda>cl.
       Inr \<lparr>c_order_id = k, c_client_order_id = cl, c_symbol = symbol_of (get_tag raw ''55''),
            c_side = side_of_tag (get_tag raw ''54''), c_timestamp = 0\<rparr>))"

definition on_fix_message :: "timestamp \<Rightarrow> string \<Rightarrow> 'v gateway \<Rightarrow> 'v gateway res" where
  "on_fix_message now raw gw =
     (let msg_type = get_tag raw ''35''
      in if msg_type = ''D'' then bind_res (parse_new_order raw) (\<lambda>od. Inr (snd (submit_order now od gw)))
         else if msg_type = ''F'' then bind_res (parse_cancel raw) (\<lambda>req. Inr (snd (gw_cancel_order now req gw)))
         else Inr gw)"

section \<open>Outbound reports\<close>

fun report_status :: "order_state \<Rightarrow> string" where
  "report_status New = ''A''"
| "report_status Accepted = ''0''"
| "report_status PartiallyFilled = ''1''"
| "report_status Filled = ''2''"
| "report_status Canceled = ''4''"
| "report_status Rejected = ''8''"
| "report_status Expired = ''C''"
| "report_status PendingCancel = ''6''"
| "report_status PendingNew = ''A''"
| "report_status PendingReplace = ''E''"

definition c_str :: "string \<Rightarrow> string" where
  "c_str s = takeWhile (\<lambda>c. c \<noteq> NUL) s"

definition put_tag :: "string \<Rightarrow> string \<Rightarrow> string" where
  "put_tag tag v = tag @ CHR ''='' # v @ [SOH]"

definition build_execution_report :: "order \<Rightarrow> execution_report \<Rightarrow> string" where
  "build_execution_report od r =
     put_tag ''35'' ''8'' @ put_tag ''11'' (nat_str (o_client_order_id od)) @ put_tag ''37'' (nat_str (o_id od)) @
     put_tag ''17'' (nat_str (r_exec_id r)) @ put_tag ''55'' (c_str (o_symbol od)) @
     put_tag ''54'' (if o_side od = Buy then ''1'' else ''2'') @ put_tag ''39'' (report_status (r_state r)) @
     put_tag ''31'' (double_str (to_double (r_last_price r))) @ put_tag ''32'' (int_str (r_last_quantity r)) @
     put_tag ''14'' (int_str (r_cum_quantity r)) @ put_tag ''6'' (double_str (to_double (r_avg_price r))) @
     put_tag ''151'' (int_str (r_leaves_quantity r)) @
     (if r_text r = [] then [] else put_tag ''58'' (c_str (r_text r)))"

section \<open>The fill callback\<close>

record 'v fix_gateway =
  fg_gateway :: "'v gateway"
  fg_send_set :: bool
  fg_owns_fills :: bool

definition fg_new :: "'v gateway \<Rightarrow> 'v fix_gateway" where
  "fg_new gw = \<lparr>fg_gateway = gw\<lparr>gw_exec := (gw_exec gw)\<lparr>eh_fill_cb := True\<rparr>\<rparr>, fg_send_set = False, fg_owns_fills = True\<rparr>"

definition set_send_callback :: "'v fix_gateway \<Rightarrow> 'v fix_gateway" where
  "set_send_callback fg = fg\<lparr>fg_send_set := True\<rparr>"

fun fg_callback ::
  "'v venue_ops \<Rightarrow> route_env \<Rightarrow> timestamp \<Rightarrow> bool \<Rightarrow> eh_event \<Rightarrow> 'v gateway \<Rightarrow> string list \<times> gw_event list \<times> 'v gateway" where
  "fg_callback ops e now send (EV_Fill od r) gw = ((if send then [build_execution_report od r] else []), [], gw)"
| "fg_callback ops e now send v gw = ([], gw_callback ops e now v gw)"

fun fg_callbacks ::
  "'v venue_ops \<Rightarrow> route_env \<Rightarrow> timestamp \<Rightarrow> bool \<Rightarrow> eh_event list \<Rightarrow> 'v gateway \<Rightarrow>
   string list \<times> gw_event list \<times> 'v gateway" where
  "fg_callbacks ops e now send [] gw = ([], [], gw)"
| "fg_callbacks ops e now send (v # evs) gw =
     (let (out, ev, gw1) = fg_callback ops e now send v gw; (out', ev', gw2) = fg_callbacks ops e now send evs gw1
      in (out @ out', ev @ ev', gw2))"

definition fg_exec_loop_step ::
  "'v venue_ops \<Rightarrow> route_env \<Rightarrow> timestamp \<Rightarrow> bool \<Rightarrow> 'v gateway \<Rightarrow> string list \<times> gw_event list \<times> 'v gateway" where
  "fg_exec_loop_step ops e now send gw =
     (case gw_reports gw of
        [] \<Rightarrow> ([], [], gw)
      | r # q \<Rightarrow>
          let (evs, ex) = on_execution_report now r (gw_exec gw)
          in fg_callbacks ops e now send evs (gw\<lparr>gw_reports := q, gw_exec := ex\<rparr>))"

text \<open>The gateway with the FIX gateway attached: every command of the gateway, and FIX messages.\<close>

datatype 'v fg_cmd = FG_Gateway "'v gw_cmd" | FG_Message timestamp string | FG_Set_Send

type_synonym 'v fg_sys = "'v fix_gateway \<times> string list"

fun fg_exec ::
  "'v venue_ops \<Rightarrow> route_env \<Rightarrow> 'v fg_cmd \<Rightarrow> 'v fix_gateway \<Rightarrow> string list \<times> 'v fix_gateway" where
  "fg_exec ops e (FG_Message now raw) fg =
     ([], case on_fix_message now raw (fg_gateway fg) of Inl err \<Rightarrow> fg | Inr gw \<Rightarrow> fg\<lparr>fg_gateway := gw\<rparr>)"
| "fg_exec ops e FG_Set_Send fg = ([], set_send_callback fg)"
| "fg_exec ops e (FG_Gateway c) fg =
     (case c of
        GC_Exec_Loop now \<Rightarrow>
          if fg_owns_fills fg \<and> gw_running (fg_gateway fg)
          then let (out, ev, gw) = fg_exec_loop_step ops e now (fg_send_set fg) (fg_gateway fg)
               in (out, fg\<lparr>fg_gateway := gw\<rparr>)
          else ([], fg\<lparr>fg_gateway := snd (gw_exec_cmd ops e c (fg_gateway fg))\<rparr>)
      | GC_Init vids \<Rightarrow>
          ([], fg\<lparr>fg_gateway := snd (gw_exec_cmd ops e c (fg_gateway fg)), fg_owns_fills := False\<rparr>)
      | _ \<Rightarrow> ([], fg\<lparr>fg_gateway := snd (gw_exec_cmd ops e c (fg_gateway fg))\<rparr>))"

definition fg_step :: "'v venue_ops \<Rightarrow> route_env \<Rightarrow> 'v fg_cmd \<Rightarrow> 'v fg_sys \<Rightarrow> 'v fg_sys" where
  "fg_step ops e c s = (let (out, fg) = fg_exec ops e c (fst s) in (fg, snd s @ out))"

section \<open>Finding a tag in a joined text\<close>

lemma find_sub_none: "d \<notin> set s \<Longrightarrow> find_sub (d # key) s = None"
  by (induction s) auto

lemma find_sub_skip:
  assumes "d \<notin> set s"
  shows "find_sub (d # key) (s @ d # rest) =
    (if take (length key) rest = key then Some (length s)
     else map_option (\<lambda>i. i + length s + 1) (find_sub (d # key) rest))"
  using assms by (induction s) (auto simp: option.map_comp comp_def)

definition starts :: "string \<Rightarrow> string \<Rightarrow> bool" where
  "starts key s \<longleftrightarrow> take (length key) s = key"

lemma starts_append [simp]: "starts key (key @ s)"
  by (simp add: starts_def)

lemma starts_obtain: "starts key s \<Longrightarrow> \<exists>r. s = key @ r"
  unfolding starts_def by (metis append_take_drop_id)

lemma starts_field:
  assumes "d \<notin> set key"
  shows "starts key (s @ d # t) \<longleftrightarrow> starts key s"
proof (cases "length key \<le> length s")
  case False
  have "\<not> starts key (s @ d # t)"
  proof
    assume "starts key (s @ d # t)"
    then obtain r where "s @ d # t = key @ r" using starts_obtain by blast
    then show False using False assms by (auto simp: append_eq_append_conv2 Cons_eq_append_conv)
  qed
  moreover have "\<not> starts key s" using False by (metis starts_def length_take min.absorb_iff2 nat_le_linear)
  ultimately show ?thesis by simp
qed (simp add: starts_def)

text \<open>The first of the fields that begins with the key, without it.\<close>

definition first_match :: "string \<Rightarrow> string list \<Rightarrow> string option" where
  "first_match key ss =
     (case filter (starts key) ss of [] \<Rightarrow> None | s # _ \<Rightarrow> Some (drop (length key) s))"

lemma join_cons: "join_on d (s # ss) = (if ss = [] then s else s @ d # join_on d ss)"
  by (cases ss) simp_all

lemma starts_join: "d \<notin> set key \<Longrightarrow> starts key (join_on d (s # ss)) \<longleftrightarrow> starts key s"
  by (simp add: join_cons starts_field)

lemma value_in_join:
  assumes "d \<notin> set s" and "starts key s"
  shows "takeWhile (\<lambda>c. c \<noteq> d) (drop (length key) (join_on d (s # ss))) = drop (length key) s"
proof -
  obtain r where "s = key @ r" using starts_obtain [OF assms(2)] by blast
  with assms(1) show ?thesis by (simp add: join_cons)
qed

lemma find_in_join:
  assumes "d \<notin> set key" and "\<forall>s \<in> set (s # ss). d \<notin> set s"
  shows "map_option (\<lambda>i. takeWhile (\<lambda>c. c \<noteq> d) (drop (i + length (d # key)) (join_on d (s # ss))))
      (find_sub (d # key) (join_on d (s # ss))) = first_match key ss"
  using assms(2)
proof (induction ss arbitrary: s)
  case Nil
  then show ?case by (simp add: find_sub_none first_match_def)
next
  case (Cons a ss)
  have join: "join_on d (s # a # ss) = s @ d # join_on d (a # ss)" by (simp add: join_cons)
  show ?case
  proof (cases "starts key a")
    case True
    then have "take (length key) (join_on d (a # ss)) = key"
      using starts_join [OF assms(1), of a ss] by (simp add: starts_def)
    with True Cons.prems show ?thesis
      by (simp add: join find_sub_skip first_match_def value_in_join)
  next
    case False
    then have "take (length key) (join_on d (a # ss)) \<noteq> key"
      using starts_join [OF assms(1), of a ss] by (simp add: starts_def)
    with False Cons show ?thesis
      by (simp add: join find_sub_skip first_match_def option.map_comp comp_def)
  qed
qed

text \<open>Reading with the delimiter the text is joined by.\<close>

lemma get_tag_at_join:
  assumes "d \<notin> set tag" and "d \<noteq> CHR ''=''" and "\<forall>s \<in> set (s # ss). d \<notin> set s" and "\<not> starts (tag @ ''='') s"
  shows "get_tag_at d (join_on d (s # ss)) tag = first_match (tag @ ''='') ss"
proof -
  have key: "d \<notin> set (tag @ ''='')" using assms(1,2) by simp
  have "take (length (tag @ ''='')) (join_on d (s # ss)) \<noteq> tag @ ''=''"
    using starts_join [OF key] assms(4) by (simp add: starts_def)
  then show ?thesis
    using find_in_join [OF key assms(3)] unfolding get_tag_at_def Let_def
    by (simp add: option.map_comp comp_def del: join_on.simps)
qed

text \<open>Reading with a delimiter that does not occur.\<close>

lemma get_tag_at_none:
  assumes "d \<notin> set msg" and "\<not> starts (tag @ ''='') msg"
  shows "get_tag_at d msg tag = None"
  using assms by (simp add: get_tag_at_def Let_def starts_def find_sub_none)

lemma get_tag_at_first:
  assumes "d \<notin> set v"
  shows "get_tag_at d (tag @ CHR ''='' # v) tag = Some v"
  using assms by (simp add: get_tag_at_def)

section \<open>Reading a serialized message\<close>

definition clean :: "string \<Rightarrow> bool" where
  "clean s \<longleftrightarrow> CHR ''|'' \<notin> set s \<and> SOH \<notin> set s"

definition clean_msg :: "fix_message \<Rightarrow> bool" where
  "clean_msg m \<longleftrightarrow> (\<forall>v \<in> ran (fm_fields m). clean v)"

definition field_str :: "fix_message \<Rightarrow> int \<Rightarrow> string" where
  "field_str m t = int_str t @ CHR ''='' # the (fm_fields m t)"

lemma int_str_clean: "c \<in> {CHR ''|'', SOH, CHR ''=''} \<Longrightarrow> c \<notin> set (int_str t)"
  using int_str_chars [of c t] by (auto simp: is_digit_def)

lemma starts_tag: "starts (int_str t @ ''='') (int_str u @ CHR ''='' # v) \<longleftrightarrow> u = t"
proof
  assume "starts (int_str t @ ''='') (int_str u @ CHR ''='' # v)"
  then obtain r where "int_str u @ CHR ''='' # v = int_str t @ CHR ''='' # r"
    using starts_obtain [of "int_str t @ ''=''"] by fastforce
  then have "takeWhile (\<lambda>c. c \<noteq> CHR ''='') (int_str u @ CHR ''='' # v) =
      takeWhile (\<lambda>c. c \<noteq> CHR ''='') (int_str t @ CHR ''='' # r)" by simp
  then show "u = t" by (simp add: int_str_clean int_str_inject)
qed (metis append.assoc append_Cons append_Nil starts_append)

lemma first_match_field:
  "first_match (int_str t @ ''='') (map (field_str m) ts) = (if t \<in> set ts then Some (the (fm_fields m t)) else None)"
  by (induction ts) (auto simp: first_match_def field_str_def starts_tag)

lemma clean_field:
  assumes "clean_msg m" and "set ts = dom (fm_fields m)" and "t \<in> set ts"
  shows "clean (the (fm_fields m t))" "clean (field_str m t)"
proof -
  show "clean (the (fm_fields m t))" using assms by (auto simp: clean_msg_def ran_def)
  then show "clean (field_str m t)" by (simp add: clean_def field_str_def int_str_clean)
qed

lemma serialize_fields: "fm_serialize ts m = join_on CHR ''|'' (map (field_str m) ts)"
  unfolding fm_serialize_def field_str_def [abs_def] ..

lemma clean_join: "\<forall>s \<in> set ss. SOH \<notin> set s \<Longrightarrow> SOH \<notin> set (join_on CHR ''|'' ss)"
  by (induction "CHR ''|''" ss rule: join_on.induct) auto

text \<open>Every tag but the first one of the text is read as it was written.\<close>

lemma get_tag_serialized:
  assumes "clean_msg m" and "set ts = dom (fm_fields m)" and "ts \<noteq> []" and "t \<noteq> hd ts"
  shows "get_tag (fm_serialize ts m) (int_str t) = (case fm_fields m t of Some v \<Rightarrow> v | None \<Rightarrow> [])"
proof -
  obtain h ts' where ts: "ts = h # ts'" using assms(3) by (cases ts) auto
  have msg: "fm_serialize ts m = join_on CHR ''|'' (field_str m h # map (field_str m) ts')"
    by (simp add: serialize_fields ts del: join_on.simps)
  have parts: "\<forall>s \<in> set (field_str m h # map (field_str m) ts'). clean s"
    using clean_field(2) [OF assms(1,2)] by (auto simp: ts)
  then have "SOH \<notin> set (fm_serialize ts m)" unfolding msg by (intro clean_join) (auto simp: clean_def)
  moreover have first: "\<not> starts (int_str t @ ''='') (field_str m h)"
    using assms(4) by (simp add: field_str_def starts_tag ts)
  then have "\<not> starts (int_str t @ ''='') (fm_serialize ts m)"
    unfolding msg by (subst starts_join) (simp_all add: int_str_clean)
  ultimately have soh: "get_tag_at SOH (fm_serialize ts m) (int_str t) = None" by (rule get_tag_at_none)
  have "get_tag_at CHR ''|'' (fm_serialize ts m) (int_str t) = first_match (int_str t @ ''='') (map (field_str m) ts')"
    unfolding msg using parts first by (intro get_tag_at_join) (auto simp: int_str_clean clean_def)
  also have "\<dots> = (if t \<in> set ts' then Some (the (fm_fields m t)) else None)" by (rule first_match_field)
  also have "\<dots> = fm_fields m t" using assms(2,4) by (auto simp: ts domIff)
  finally show ?thesis by (simp add: get_tag_def soh split: option.split)
qed

text \<open>The first tag of the text swallows all that follows.\<close>

lemma get_tag_first:
  assumes "clean_msg m" and "set (h # ts) = dom (fm_fields m)" and "ts \<noteq> []"
  shows "get_tag (fm_serialize (h # ts) m) (int_str h) = the (fm_fields m h) @ CHR ''|'' # fm_serialize ts m"
proof -
  have msg: "fm_serialize (h # ts) m = int_str h @ CHR ''='' # the (fm_fields m h) @ CHR ''|'' # fm_serialize ts m"
    using assms(3) by (simp add: fm_serialize_def join_cons)
  have "SOH \<notin> set (fm_serialize ts m)"
    using clean_field(2) [OF assms(1,2)] unfolding serialize_fields
    by (intro clean_join) (auto simp: clean_def)
  moreover have "SOH \<notin> set (the (fm_fields m h))"
    using clean_field(1) [OF assms(1,2), of h] by (simp add: clean_def)
  ultimately show ?thesis
    unfolding msg get_tag_def by (subst get_tag_at_first) auto
qed

section \<open>Orders from the adapter\<close>

text \<open>The order a FIX gateway makes of an order the adapter sent.\<close>

definition received_order :: "order \<Rightarrow> order" where
  "received_order od =
     default_order\<lparr>o_client_order_id := o_client_order_id od, o_symbol := o_symbol od, o_side := o_side od,
       o_quantity := o_quantity od, o_remaining := o_quantity od,
       o_price := (if o_type od = OT_Market then INVALID_PRICE else o_price od),
       o_type := (if o_type od = OT_Market then OT_Market else OT_Limit),
       o_tif := (if o_type od = OT_IOC then TIF_IOC else if o_type od = OT_FOK then TIF_FOK
                 else if o_tif od = TIF_GTD then TIF_GTC else o_tif od), o_client_id := []\<rparr>"

definition sendable_as_fix :: "fix_config \<Rightarrow> order \<Rightarrow> bool" where
  "sendable_as_fix cfg od \<longleftrightarrow> o_client_order_id od < 2 ^ 64 \<and> in_i64 (o_quantity od) \<and>
     (o_price od = INVALID_PRICE \<or> \<bar>o_price od\<bar> \<le> 2 ^ 50) \<and> length (o_symbol od) \<le> 16 \<and>
     clean (o_symbol od) \<and> clean (fc_sender cfg) \<and> clean (fc_target cfg)"

definition sent_order :: "fix_config \<Rightarrow> order \<Rightarrow> int \<Rightarrow> fix_message" where
  "sent_order cfg od n =
     (order_to_fix cfg od)\<lparr>fm_fields := (fm_fields (order_to_fix cfg od))(TAG_MSG_SEQ_NUM \<mapsto> int_str n)\<rparr>"

lemma text_clean:
  "clean (nat_str n)" "clean (int_str i)" "clean (price_to_str p)" "clean [side_to_fix s]"
  "clean [ord_type_to_fix ty]" "clean [tif_to_fix tif ty]" "clean ''D''"
proof -
  show "clean (nat_str n)" using nat_str_digits [of n] by (auto simp: clean_def list_all_iff is_digit_def)
  show "clean (int_str i)" by (simp add: clean_def int_str_clean)
  show "clean (price_to_str p)"
    using price_to_str_chars [of SOH p] price_to_str_chars [of "CHR ''|''" p] by (auto simp: clean_def is_digit_def)
  show "clean [side_to_fix s]" by (cases s) (simp_all add: clean_def)
  show "clean [ord_type_to_fix ty]" by (cases ty) (simp_all add: clean_def)
  show "clean [tif_to_fix tif ty]" by (cases tif) (simp_all add: clean_def tif_to_fix_def)
qed (simp add: clean_def)

lemma clean_update: "clean v \<Longrightarrow> \<forall>x \<in> ran f. clean x \<Longrightarrow> \<forall>x \<in> ran (f(t \<mapsto> v)). clean x"
  by (auto simp: ran_def)

lemma sent_order_clean:
  assumes "sendable_as_fix cfg od"
  shows "clean_msg (sent_order cfg od n)"
proof -
  have c: "clean (o_symbol od)" "clean (fc_sender cfg)" "clean (fc_target cfg)"
    using assms by (simp_all add: sendable_as_fix_def)
  have "\<forall>v \<in> ran (fm_fields (order_to_fix cfg od)). clean v"
    unfolding order_to_fix_def Let_def id_to_str_def qty_to_str_def fix_message.simps
    by (split if_split, intro conjI impI clean_update text_clean c) simp_all
  then show ?thesis unfolding clean_msg_def sent_order_def by (auto simp: ran_def text_clean)
qed

lemma sent_order_fields:
  "fm_fields (sent_order cfg od n) 35 = Some ''D''"
  "fm_fields (sent_order cfg od n) 11 = Some (nat_str (o_client_order_id od))"
  "fm_fields (sent_order cfg od n) 55 = Some (o_symbol od)"
  "fm_fields (sent_order cfg od n) 54 = Some [side_to_fix (o_side od)]"
  "fm_fields (sent_order cfg od n) 38 = Some (int_str (o_quantity od))"
  "fm_fields (sent_order cfg od n) 40 = Some [ord_type_to_fix (o_type od)]"
  "fm_fields (sent_order cfg od n) 59 = Some [tif_to_fix (o_tif od) (o_type od)]"
  "fm_fields (sent_order cfg od n) 109 = None"
  "fm_fields (sent_order cfg od n) 44 =
     (if o_type od \<noteq> OT_Market \<and> o_price od \<noteq> INVALID_PRICE then Some (price_to_str (o_price od)) else None)"
  by (simp_all add: sent_order_def order_to_fix_def Let_def fix_tags id_to_str_def qty_to_str_def)

lemma tag_strings:
  "int_str 35 = ''35''" "int_str 11 = ''11''" "int_str 55 = ''55''" "int_str 54 = ''54''" "int_str 38 = ''38''"
  "int_str 40 = ''40''" "int_str 59 = ''59''" "int_str 109 = ''109''" "int_str 44 = ''44''"
  by code_simp+

lemma parse_price:
  assumes "\<bar>p\<bar> \<le> 2 ^ 50"
  shows "bind_res (stod (price_to_str p)) (\<lambda>d. Inr (to_price d)) = Inr p" "price_to_str p \<noteq> []"
proof -
  show ne: "price_to_str p \<noteq> []"
  proof
    assume "price_to_str p = []"
    moreover have "trim_zeros s \<noteq> []" if "s \<noteq> []" for s
      using that by (induction s rule: trim_zeros.induct) (subst trim_zeros.simps, auto)
    ultimately show False by (auto simp: price_to_str_def Let_def split: if_splits)
  qed
  show "bind_res (stod (price_to_str p)) (\<lambda>d. Inr (to_price d)) = Inr p"
    using price_text_roundtrip [OF assms] ne by (simp add: price_from_str_def)
qed

lemma parse_sent_order:
  assumes ok: "sendable_as_fix cfg od" and ts: "set ts = dom (fm_fields (sent_order cfg od n))"
    and first: "hd ts \<in> {34, 49, 56}"
  shows "get_tag (fm_serialize ts (sent_order cfg od n)) ''35'' = ''D''"
    and "parse_new_order (fm_serialize ts (sent_order cfg od n)) = Inr (received_order od)"
proof -
  have "ts \<noteq> []" using ts sent_order_fields(1) [of cfg od n] by auto
  note g = get_tag_serialized [OF sent_order_clean [OF ok] ts this]
  have [simp]: "symbol_of (o_symbol od) = o_symbol od"
    using ok by (simp add: symbol_of_def fs_view_assign fs_init_wf sendable_as_fix_def)
  have [simp]: "client_of [] = []" by (simp add: client_of_def fs_view_assign fs_init_wf)
  have [simp]: "stoull (nat_str (o_client_order_id od)) = Inr (o_client_order_id od)"
    "stoll (int_str (o_quantity od)) = Inr (o_quantity od)"
    using ok by (simp_all add: sendable_as_fix_def stoull_nat_str stoll_int_str)
  have [simp]: "side_of_tag [side_to_fix (o_side od)] = o_side od"
    by (cases "o_side od") (simp_all add: side_of_tag_def)
  have type: "([ord_type_to_fix (o_type od)] = ''1'') = (o_type od = OT_Market)"
    by (cases "o_type od") simp_all
  have tif: "tif_of_tag [tif_to_fix (o_tif od) (o_type od)] =
      (if o_type od = OT_IOC then TIF_IOC else if o_type od = OT_FOK then TIF_FOK
       else if o_tif od = TIF_GTD then TIF_GTC else o_tif od)"
    by (cases "o_tif od") (simp_all add: tif_of_tag_def tif_to_fix_def default_order_def)
  have val: "get_tag (fm_serialize ts (sent_order cfg od n)) (int_str t) =
      (case fm_fields (sent_order cfg od n) t of Some v \<Rightarrow> v | None \<Rightarrow> [])"
    if "t \<notin> {34, 49, 56}" for t using that first by (intro g) auto
  note tags = val [of 35] val [of 11] val [of 55] val [of 54] val [of 38] val [of 40] val [of 59] val [of 109] val [of 44]
  note tags = tags [unfolded tag_strings sent_order_fields, simplified]
  show "get_tag (fm_serialize ts (sent_order cfg od n)) ''35'' = ''D''" by (rule tags(1))
  have price: "optional (\<lambda>s. bind_res (stod s) (\<lambda>d. Inr (to_price d))) INVALID_PRICE
      (get_tag (fm_serialize ts (sent_order cfg od n)) ''44'') =
      Inr (if o_type od = OT_Market then INVALID_PRICE else o_price od)"
  proof (cases "o_type od = OT_Market \<or> o_price od = INVALID_PRICE")
    case True
    then show ?thesis unfolding tags by (auto simp: optional_def)
  next
    case False
    then have "\<bar>o_price od\<bar> \<le> 2 ^ 50" using ok by (auto simp: sendable_as_fix_def)
    from parse_price [OF this] False show ?thesis unfolding tags by (simp add: optional_def)
  qed
  show "parse_new_order (fm_serialize ts (sent_order cfg od n)) = Inr (received_order od)"
    unfolding parse_new_order_def price unfolding tags type tif optional_def received_order_def
    by (cases "o_type od = OT_Market") simp_all
qed

section \<open>Who is told of a fill\<close>

definition quiet :: "'v gateway \<Rightarrow> 'v gateway \<Rightarrow> bool" where
  "quiet gw gw' \<longleftrightarrow> gw_fills gw' = gw_fills gw \<and>
     (\<forall>symb. pos_net (get_position symb (gw_risk gw')) = pos_net (get_position symb (gw_risk gw)))"

lemma quiet_trans: "quiet a b \<Longrightarrow> quiet b c \<Longrightarrow> quiet a c"
  by (simp add: quiet_def)

lemma quiet_same: "gw_fills gw' = gw_fills gw \<Longrightarrow> gw_risk gw' = gw_risk gw \<Longrightarrow> quiet gw gw'"
  by (simp add: quiet_def)

lemma quiet_via_risk:
  assumes "via_risk gw ev gw'" and "fills_of ev = []"
  shows "quiet gw gw'"
proof -
  obtain cs where "gw_risk gw' = run risk_step cs (gw_risk gw)" "filter is_fill cs = []" "gw_fills gw' = gw_fills gw"
    using assms unfolding via_risk_def by auto
  moreover have "pos_net (get_position symb (run risk_step cs rm)) = pos_net (get_position symb rm)"
    if "filter is_fill cs = []" for symb cs rm
    using that by (induction cs arbitrary: rm) (auto simp: risk_step_net split: if_splits)
  ultimately show ?thesis by (simp add: quiet_def)
qed

lemma send_slices_events: "send_slices ops now od d gw = (ev, gw') \<Longrightarrow> \<forall>x \<in> set ev. \<exists>v c. x = GE_Sent v c"
proof (induction d arbitrary: gw ev gw')
  case (Cons sl d)
  obtain ev1 gw1 where 1: "send_slice ops now od sl gw = (ev1, gw1)" by fastforce
  obtain ev2 gw2 where 2: "send_slices ops now od d gw1 = (ev2, gw2)" by fastforce
  show ?case using Cons.prems send_slice_frame(7) [OF 1] Cons.IH [OF 2] by (auto simp: 1 2 split: if_splits)
qed simp

lemma process_quiet:
  assumes "process_single_order ops e now order gw = (ev, gw')"
  shows "quiet gw gw'" "fills_of ev = []"
proof -
  have "\<forall>x \<in> set ev. \<exists>v c. x = GE_Sent v c"
    by (cases rule: process_cases [OF assms refl refl refl]) (use send_slices_events in \<open>fastforce+\<close>)
  then show "fills_of ev = []" by (intro fills_of_none) auto
  then show "quiet gw gw'" using process_risk [OF assms] by (intro quiet_via_risk)
qed

lemma fg_callbacks_quiet: "fg_callbacks ops e now send evs gw = (out, ev, gw') \<Longrightarrow> quiet gw gw'"
proof (induction evs arbitrary: gw out ev gw')
  case (Cons v evs)
  obtain out1 ev1 gw1 where 1: "fg_callback ops e now send v gw = (out1, ev1, gw1)" by (metis prod_cases3)
  obtain out2 ev2 gw2 where 2: "fg_callbacks ops e now send evs gw1 = (out2, ev2, gw2)" by (metis prod_cases3)
  have "quiet gw gw1" using 1 by (cases v) (auto intro: quiet_same process_quiet)
  then show ?case using quiet_trans [OF _ Cons.IH [OF 2]] Cons.prems by (simp add: 1 2)
qed (simp add: quiet_same)

lemma order_loop_quiet: "order_loop_step ops e now gw = (ev, gw') \<Longrightarrow> quiet gw gw'"
  using process_quiet(1) [of ops e now _ "gw\<lparr>gw_orders := _\<rparr>" ev gw']
  by (cases "gw_orders gw") (auto simp: order_loop_step_def quiet_def)

lemma fg_exec_loop_quiet: "fg_exec_loop_step ops e now send gw = (out, ev, gw') \<Longrightarrow> quiet gw gw'"
  using fg_callbacks_quiet [of ops e now send _ "gw\<lparr>gw_reports := _, gw_exec := _\<rparr>" out ev gw']
  by (cases "gw_reports gw") (auto simp: fg_exec_loop_step_def quiet_def split: prod.splits)

lemma exec_cmd_quiet:
  assumes "\<And>now. c \<noteq> GC_Exec_Loop now" and "\<And>rc. c = GC_Risk rc \<Longrightarrow> \<not> is_fill rc"
  shows "quiet gw (snd (gw_exec_cmd ops e c gw))"
proof (cases c)
  case (GC_Order_Loop now)
  then show ?thesis using order_loop_quiet [of ops e now gw]
    by (cases "order_loop_step ops e now gw") (simp add: quiet_same)
next
  case GC_Cancel_Loop
  then show ?thesis using cancel_loop_frame [of ops gw]
    by (cases "cancel_loop_step ops gw") (auto intro: quiet_same)
next
  case (GC_Risk rc)
  then show ?thesis using assms(2) by (simp add: quiet_def risk_step_net)
next
  case (GC_Exec_Loop now)
  then show ?thesis using assms(1) by blast
qed (auto simp: gw_start_def gw_stop_def gw_initialize_def add_venue_adapter_def gw_cancel_order_def
       push_bounded_def register_strategy_def update_venue_score_def Let_def
       intro!: quiet_same split: option.splits prod.splits)

lemma fix_message_quiet: "on_fix_message now raw gw = Inr gw' \<Longrightarrow> quiet gw gw'"
  by (auto simp: on_fix_message_def Let_def bind_res_def gw_cancel_order_def push_bounded_def
      intro!: quiet_same split: if_splits sum.splits)

text \<open>No initialization, and nobody books fills past the gateway.\<close>

fun plain_cmd :: "'v fg_cmd \<Rightarrow> bool" where
  "plain_cmd (FG_Gateway (GC_Init vids)) = False"
| "plain_cmd (FG_Gateway (GC_Risk rc)) = (\<not> is_fill rc)"
| "plain_cmd _ = True"

lemma plain_step:
  assumes "plain_cmd c" and "fg_owns_fills (fst s)"
  shows "fg_owns_fills (fst (fg_step ops e c s)) \<and> quiet (fg_gateway (fst s)) (fg_gateway (fst (fg_step ops e c s)))"
proof (cases c)
  case (FG_Gateway gc)
  show ?thesis
  proof (cases "\<exists>now. gc = GC_Exec_Loop now")
    case True
    then obtain now where now: "gc = GC_Exec_Loop now" by blast
    then show ?thesis
      using assms(2) fg_exec_loop_quiet [of ops e now "fg_send_set (fst s)" "fg_gateway (fst s)"]
      by (auto simp: FG_Gateway fg_step_def Let_def quiet_same split: prod.splits)
  next
    case False
    then have "quiet (fg_gateway (fst s)) (snd (gw_exec_cmd ops e gc (fg_gateway (fst s))))"
      using assms(1) by (intro exec_cmd_quiet) (auto simp: FG_Gateway)
    then show ?thesis using assms False by (cases gc) (simp_all add: FG_Gateway fg_step_def)
  qed
next
  case (FG_Message now raw)
  then show ?thesis using assms fix_message_quiet [of now raw "fg_gateway (fst s)"]
    by (auto simp: fg_step_def quiet_same split: sum.split)
qed (use assms in \<open>simp add: fg_step_def set_send_callback_def quiet_same\<close>)

lemma plain_run:
  "list_all plain_cmd cs \<Longrightarrow> fg_owns_fills (fst s) \<Longrightarrow>
   quiet (fg_gateway (fst s)) (fg_gateway (fst (run (fg_step ops e) cs s)))"
proof (induction cs arbitrary: s)
  case (Cons c cs)
  then show ?case
    using plain_step [of c s ops e] Cons.IH [of "fg_step ops e c s"] quiet_trans by fastforce
qed (simp add: quiet_same)

lemma disowned_step:
  assumes "\<not> fg_owns_fills (fst s)"
  shows "\<not> fg_owns_fills (fst (fg_step ops e c s)) \<and> snd (fg_step ops e c s) = snd s"
proof (cases c)
  case (FG_Gateway gc)
  then show ?thesis using assms by (cases gc) (simp_all add: fg_step_def)
qed (use assms in \<open>auto simp: fg_step_def set_send_callback_def split: sum.split\<close>)

lemma disowned_run:
  "\<not> fg_owns_fills (fst s) \<Longrightarrow> snd (run (fg_step ops e) cs s) = snd s"
proof (induction cs arbitrary: s)
  case (Cons c cs)
  then show ?case using disowned_step [of s ops e c] by simp
qed simp

section \<open>Prices in the reports\<close>

lemma dec_str_bounds: "0 < n \<Longrightarrow> 10 ^ (length (dec_str n) - 1) \<le> n \<and> n < 10 ^ length (dec_str n)"
proof (induction n rule: dec_str.induct)
  case (1 n)
  show ?case
  proof (cases "n < 10")
    case False
    then have IH: "10 ^ (length (dec_str (n div 10)) - 1) \<le> n div 10 \<and> n div 10 < 10 ^ length (dec_str (n div 10))"
      using 1 by simp
    obtain k where k: "length (dec_str (n div 10)) = Suc k" by (metis dec_str_not_Nil length_0_conv not0_implies_Suc)
    have "length (dec_str n) = Suc (Suc k)" using False by (subst dec_str.simps) (simp add: k)
    moreover have "10 ^ k \<le> n div 10" "n div 10 < 10 * 10 ^ k" using IH by (simp_all add: k)
    then have "10 * 10 ^ k \<le> n" "n < 100 * 10 ^ k"
      using div_mult_mod_eq [of n 10] pos_mod_bound [of 10 n] pos_mod_sign [of 10 n] by linarith+
    ultimately show ?thesis by simp
  qed (use 1 in \<open>subst (1 2) dec_str.simps, simp\<close>)
qed

lemma ilog10_unique:
  assumes x: "10 powi k \<le> x" "x < 10 powi (k + 1)"
  shows "ilog10 x = k"
proof -
  obtain n d where q: "quotient_of x = (n, d)" by fastforce
  have d: "0 < d" and xnd: "x = of_int n / of_int d"
    using quotient_of_denom_pos [OF q] quotient_of_div [OF q] by simp_all
  have "0 < x" using x(1) by (metis less_le_trans zero_less_numeral zero_less_power_int)
  then have n: "0 < n" using d by (simp add: xnd zero_less_divide_iff)
  define a b where "a = int (length (dec_str n))" and "b = int (length (dec_str d))"
  have pw: "(of_int (10 ^ j) :: rat) = 10 powi int j" for j by simp
  have lower: "10 powi (a - 1) \<le> (of_int n :: rat)" "10 powi (b - 1) \<le> (of_int d :: rat)"
    and upper: "(of_int n :: rat) < 10 powi a" "(of_int d :: rat) < 10 powi b"
  proof -
    have len: "0 < length (dec_str m)" for m by simp
    show "10 powi (a - 1) \<le> (of_int n :: rat)" "(of_int n :: rat) < 10 powi a"
      using dec_str_bounds [OF n] len [of n] unfolding a_def
      by (metis of_int_le_iff pw of_nat_1 of_nat_diff Suc_leI One_nat_def, metis of_int_less_iff pw)
    show "10 powi (b - 1) \<le> (of_int d :: rat)" "(of_int d :: rat) < 10 powi b"
      using dec_str_bounds [OF d] len [of d] unfolding b_def
      by (metis of_int_le_iff pw of_nat_1 of_nat_diff Suc_leI One_nat_def, metis of_int_less_iff pw)
  qed
  have dpos: "(0 :: rat) < of_int d" using d by simp
  have "x * of_int d = of_int n" using d by (simp add: xnd)
  have "10 powi (a - b - 1) * 10 powi b = (10 powi (a - 1) :: rat)" "10 powi (a - b + 1) * 10 powi (b - 1) = (10 powi a :: rat)"
    by (simp_all flip: power_int_add)
  have "10 powi (a - b - 1) * of_int d \<le> (10 powi (a - b - 1) * 10 powi b :: rat)"
    using upper(2) by (intro mult_left_mono) simp_all
  also have "\<dots> \<le> x * of_int d"
    using lower(1) \<open>10 powi (a - b - 1) * 10 powi b = (10 powi (a - 1) :: rat)\<close> \<open>x * of_int d = of_int n\<close> by simp
  finally have lo: "10 powi (a - b - 1) \<le> x" using dpos by simp
  have "x * of_int d < 10 powi (a - b + 1) * 10 powi (b - 1)"
    using upper(1) \<open>10 powi (a - b + 1) * 10 powi (b - 1) = (10 powi a :: rat)\<close> \<open>x * of_int d = of_int n\<close> by simp
  also have "\<dots> \<le> 10 powi (a - b + 1) * of_int d" using lower(2) by (intro mult_left_mono) simp_all
  finally have hi: "x < 10 powi (a - b + 1)" using dpos by simp
  have mono: "i < j" if "(10 powi i :: rat) < 10 powi j" for i j
    using that by (metis linorder_not_le one_le_numeral power_int_increasing)
  have "k < a - b + 1" "a - b - 1 < k + 1" using mono x lo hi by (meson le_less_trans)+
  moreover have "10 powi (a - b) \<le> x \<longleftrightarrow> a - b = k"
  proof
    assume "10 powi (a - b) \<le> x"
    then have "a - b < k + 1" using x(2) mono by (meson le_less_trans)
    with \<open>k < a - b + 1\<close> show "a - b = k" by simp
  qed (use x(1) in simp)
  ultimately show ?thesis by (auto simp: ilog10_def q a_def b_def Let_def)
qed

lemma double_str_tenths:
  assumes n: "100001 \<le> n" "n < 1000000" and y: "\<bar>10 * y - of_int n\<bar> < 1 / 2"
  shows "double_str y = with_fraction (take 5 (dec_str n)) (drop 5 (dec_str n))"
proof -
  have nb: "(100001 :: rat) \<le> of_int n" "(of_int n :: rat) < 1000000"
    using n by (metis of_int_le_iff of_int_numeral, metis of_int_less_iff of_int_numeral)
  have "n \<le> 999999" using n(2) by simp
  then have n': "(of_int n :: rat) \<le> 999999" by (metis of_int_le_iff of_int_numeral)
  have yb: "10000 \<le> y" "y < 100000" using y nb n' unfolding abs_less_iff by linarith+
  have "ilog10 y = 4" using yb by (intro ilog10_unique) (simp_all add: power_int_def)
  moreover have "y / 10 powi - 1 = 10 * y" by (simp add: power_int_def)
  moreover have "round_half_even (10 * y) = n"
  proof -
    have "\<bar>of_int (round_half_even (10 * y)) - 10 * y\<bar> \<le> 1 / 2" by (rule round_half_even_error)
    with y have "(of_int (round_half_even (10 * y)) :: rat) < of_int (n + 1)"
      and "(of_int n :: rat) < of_int (round_half_even (10 * y) + 1)"
      unfolding abs_le_iff abs_less_iff of_int_add of_int_1 by linarith+
    then show ?thesis by (simp only: of_int_less_iff)
  qed
  ultimately have "six_digits y = (n, 4)" using n by (simp add: six_digits_def Let_def mult.commute)
  then show ?thesis using yb by (simp add: double_str_def positive_double_str_def Let_def)
qed

lemma price_text_tenths:
  assumes n: "100001 \<le> n" "n < 1000000" and p: "\<bar>10 * p - n * 100000000\<bar> \<le> 49000000"
  shows "double_str (to_double p) = with_fraction (take 5 (dec_str n)) (drop 5 (dec_str n))"
proof (rule double_str_tenths [OF n])
  have pb: "0 \<le> p" "p \<le> 10 ^ 13" using p n by simp_all
  define x :: rat where "x = of_int p / 100000000"
  have "to_double p = rnd x" using pb by (simp add: to_double_def ddiv_def of_i64_exact PRICE_SCALE_def x_def)
  moreover have "\<bar>rnd x - x\<bar> \<le> 100000 / 2 ^ 53"
  proof (rule rnd_error_bound)
    have "(of_int p :: rat) \<le> 10 ^ 13" using pb(2) by (metis of_int_le_iff of_int_numeral of_int_power)
    then show "\<bar>x\<bar> \<le> 100000" using pb(1) by (simp add: x_def)
  qed
  moreover have "\<bar>10 * x - of_int n\<bar> \<le> 49 / 100"
  proof -
    have "\<bar>of_int (10 * p - n * 100000000) :: rat\<bar> \<le> 49000000"
      using p by (metis of_int_abs of_int_le_iff of_int_numeral)
    then show ?thesis by (simp add: x_def abs_le_iff field_simps)
  qed
  moreover have "(100000 / 2 ^ 53 :: rat) \<le> 1 / 1000" by simp
  ultimately show "\<bar>10 * to_double p - of_int n\<bar> < 1 / 2"
    unfolding abs_le_iff abs_less_iff by (auto intro: less_le_trans)
qed

lemma dec_str_codes: "c \<in> set (dec_str n) \<Longrightarrow> (of_char c :: nat) < 58"
proof (induction n rule: dec_str.induct)
  case (1 n)
  have "(of_char (digit_char d) :: nat) < 58" if "d < 10" for d
    using that by (simp add: digit_char_def)
  then show ?case using 1 by (cases "n < 10") (auto simp: dec_str.simps [of n])
qed

lemma dec_str_pipe: "CHR ''|'' \<notin> set (dec_str n)"
  using dec_str_codes [of "CHR ''|''" n] by auto

lemma nat_str_pipe: "CHR ''|'' \<notin> set (nat_str n)"
  by (simp add: nat_str_def dec_str_pipe)

lemma with_fraction_pipe:
  assumes "CHR ''|'' \<notin> set w" and "CHR ''|'' \<notin> set f"
  shows "CHR ''|'' \<notin> set (with_fraction w f)"
proof -
  have "set (strip_zeros f) \<subseteq> set f" by (auto simp: strip_zeros_def dest: set_dropWhileD)
  then show ?thesis using assms by (auto simp: with_fraction_def)
qed

lemma double_str_pipe: "CHR ''|'' \<notin> set (double_str x)"
proof -
  have tk: "CHR ''|'' \<notin> set (with_fraction (take i (dec_str n)) (drop i (dec_str n)))" for i n
    by (intro with_fraction_pipe) (meson dec_str_pipe in_set_takeD in_set_dropD)+
  have rp: "CHR ''|'' \<notin> set (with_fraction ''0'' (replicate i CHR ''0'' @ dec_str n))" for i n
    by (intro with_fraction_pipe) (simp_all add: dec_str_pipe)
  have "CHR ''|'' \<notin> set (positive_double_str y)" for y
    unfolding positive_double_str_def Let_def exponent_str_def
    by (simp add: tk rp dec_str_pipe tk [of "Suc 0"] split: prod.split)
  then show ?thesis by (simp add: double_str_def)
qed

lemma put_tag_pipe: "CHR ''|'' \<notin> set tag \<Longrightarrow> CHR ''|'' \<notin> set v \<Longrightarrow> CHR ''|'' \<notin> set (put_tag tag v)"
  by (simp add: put_tag_def)

lemma c_str_pipe: "CHR ''|'' \<notin> set s \<Longrightarrow> CHR ''|'' \<notin> set (c_str s)"
  by (auto simp: c_str_def dest: set_takeWhileD)

text \<open>A report is its first field and a rest without pipes.\<close>

lemma report_shape:
  assumes "CHR ''|'' \<notin> set (o_symbol od)" and "CHR ''|'' \<notin> set (r_text r)"
  shows "\<exists>rest. build_execution_report od r = ''35'' @ CHR ''='' # ''8'' @ SOH # rest \<and> CHR ''|'' \<notin> set rest"
proof -
  have st: "CHR ''|'' \<notin> set (report_status (r_state r))" by (cases "r_state r") simp_all
  have it: "CHR ''|'' \<notin> set (int_str i)" for i by (simp add: int_str_clean)
  have "build_execution_report od r = ''35'' @ CHR ''='' # ''8'' @ SOH # drop 5 (build_execution_report od r)"
    by (simp add: build_execution_report_def put_tag_def)
  moreover have "CHR ''|'' \<notin> set (build_execution_report od r)"
    unfolding build_execution_report_def set_append Un_iff
    using st assms by (simp add: put_tag_pipe nat_str_pipe it double_str_pipe c_str_pipe)
  ultimately show ?thesis by (metis in_set_dropD)
qed

section \<open>Properties\<close>

definition sample_order :: order where
  "sample_order = default_order\<lparr>o_id := 7, o_client_order_id := 42, o_symbol := ''AAPL'', o_side := Sell, o_quantity := 100,
     o_type := OT_IOC, o_price := 15025000000\<rparr>"

definition sample_adapter :: fix_adapter where
  "sample_adapter = snd (fa_connect (fa_new sample_config))"

lemma sample_sendable: "sendable_as_fix (fa_config sample_adapter) sample_order" "fa_connected sample_adapter"
  by (simp_all add: sendable_as_fix_def sample_adapter_def fa_connect_def fa_new_def sample_config_def sample_order_def
      default_order_def clean_def i64_range)

lemma sent_by_adapter:
  assumes "fa_connected fa"
  shows "fst (fa_send_order od fa) \<and> last (fa_sent (snd (fa_send_order od fa))) = sent_order (fa_config fa) od (u32 (fa_seq fa + 1))"
  using assms by (simp add: fa_send_order_def fa_emit_def sent_order_def Let_def)

lemma sample_fields:
  "fm_fields (last (fa_sent (snd (fa_send_order sample_order sample_adapter)))) =
     [35 \<mapsto> ''D'', 11 \<mapsto> nat_str 42, 55 \<mapsto> ''AAPL'', 54 \<mapsto> ''2'', 38 \<mapsto> int_str 100, 40 \<mapsto> ''2'', 59 \<mapsto> ''3'',
      49 \<mapsto> ''SOR_CLIENT'', 56 \<mapsto> ''EXCHANGE'', 44 \<mapsto> price_to_str 15025000000, 34 \<mapsto> int_str 2]"
  by (simp add: sent_by_adapter sample_sendable sent_order_def order_to_fix_def Let_def sample_order_def
      default_order_def fix_tags tif_to_fix_def id_to_str_def qty_to_str_def INVALID_PRICE_def)
    (simp add: sample_adapter_def fa_connect_def fa_new_def fa_emit_def Let_def sample_config_def uwrap_def)



text \<open>
  A pipe-delimited message that begins with its message type is dropped. The gateway accepts the
  pipe as a delimiter, but looks for the end of the first field with the other delimiter first, so
  that field swallows the rest of the text: the same message in another tag order is
  silently ignored, and the order is lost.
\<close>

theorem fix_type_first_is_lost:
  assumes "fa_connected fa" and "sendable_as_fix (fa_config fa) od"
    and "m = last (fa_sent (snd (fa_send_order od fa)))"
    and "set ts = dom (fm_fields m)" and "hd ts = 35"
  shows "on_fix_message now (fm_serialize ts m) gw = Inr gw"
proof -
  have m: "m = sent_order (fa_config fa) od (u32 (fa_seq fa + 1))"
    using sent_by_adapter [OF assms(1)] assms(3) by simp
  have "35 \<in> set ts" using assms(4) sent_order_fields(1) by (auto simp: m)
  then obtain h ts' where ts: "ts = h # ts'" by (cases ts) auto
  have "11 \<in> set ts" using assms(4) sent_order_fields(2) by (auto simp: m)
  then have "ts' \<noteq> []" using assms(5) by (auto simp: ts)
  note swallowed = get_tag_first [OF sent_order_clean [OF assms(2)] assms(4) [unfolded m ts] this, folded m ts]
  have "get_tag (fm_serialize ts m) ''35'' = ''D'' @ CHR ''|'' # fm_serialize ts' m"
    using swallowed assms(5) by (simp add: ts tag_strings(1) sent_order_fields(1) m)
  then show ?thesis by (simp add: on_fix_message_def)
qed

theorem fix_type_first_is_lost_witness:
  "on_fix_message 5 (fm_serialize [35, 49, 11, 55, 54, 38, 40, 59, 56, 44, 34]
      (last (fa_sent (snd (fa_send_order sample_order sample_adapter))))) demo_gateway = Inr demo_gateway"
proof -
  have "set [35, 49, 11, 55, 54, 38, 40, 59, 56, 44, 34] =
      dom (fm_fields (last (fa_sent (snd (fa_send_order sample_order sample_adapter)))))"
    by (auto simp: sample_fields split: if_splits)
  moreover have "hd [35, 49, 11, 55, 54, 38, 40, 59, 56, 44, 34 :: int] = 35" by simp
  ultimately show ?thesis using fix_type_first_is_lost [OF sample_sendable(2,1) refl] by blast
qed

text \<open>
  Fills are either recorded or reported, never both. The FIX gateway and \<open>initialize\<close> take the same
  fill callback from each other. Until the gateway is initialized again, no use of a gateway with a
  FIX gateway attached records a fill or moves a net position, whatever its venues report; and once
  it is initialized, the FIX gateway never sends an execution report again.
\<close>

theorem fix_fills_recorded_or_reported:
  assumes "list_all plain_cmd cs" and "run (fg_step ops e) cs (fg_new gw, []) = (fg, outs)"
  shows "get_all_fills (gw_fills (fg_gateway fg)) = get_all_fills (gw_fills gw) \<and>
         pos_net (get_position symb (gw_risk (fg_gateway fg))) = pos_net (get_position symb (gw_risk gw)) \<and>
         snd (run (fg_step ops e) (FG_Gateway (GC_Init vids) # cs') (fg, outs)) = outs"
proof -
  have "quiet gw (fg_gateway fg)"
    using plain_run [OF assms(1), of "(fg_new gw, [])" ops e] assms(2) by (simp add: fg_new_def quiet_def)
  moreover have "\<not> fg_owns_fills (fst (fg_step ops e (FG_Gateway (GC_Init vids)) (fg, outs)))"
    and "snd (fg_step ops e (FG_Gateway (GC_Init vids)) (fg, outs)) = outs"
    by (simp_all add: fg_step_def)
  then have "snd (run (fg_step ops e) (FG_Gateway (GC_Init vids) # cs') (fg, outs)) = outs"
    by (simp add: disowned_run)
  ultimately show ?thesis by (simp add: quiet_def)
qed

definition fill_cmds :: "unit fg_cmd list" where
  "fill_cmds = map FG_Gateway [GC_Start, GC_Submit 2 (buy_order 40), GC_Order_Loop 3,
     GC_Reports 1 () [demo_fill PartiallyFilled 25], GC_Exec_Loop 4]"

theorem fix_fills_recorded_or_reported_witness:
  "\<exists>fg outs. run (fg_step mute_ops demo_env) fill_cmds (fg_new (gw_begin empty_engine 0), []) = (fg, outs) \<and>
     filled_of (gw_exec (fg_gateway fg)) 1 = 25 \<and> get_all_fills (gw_fills (fg_gateway fg)) = [] \<and>
     snd (run (fg_step mute_ops demo_env) (FG_Gateway (GC_Init []) # fill_cmds) (fg, outs)) = outs"
proof -
  obtain fg outs where r: "run (fg_step mute_ops demo_env) fill_cmds (fg_new (gw_begin empty_engine 0), []) = (fg, outs)"
    by fastforce
  have "filled_of (gw_exec (fg_gateway (fst (run (fg_step mute_ops demo_env) fill_cmds
      (fg_new (gw_begin empty_engine 0), []))))) 1 = 25"
    by code_simp
  moreover have "list_all plain_cmd fill_cmds" by (simp add: fill_cmds_def)
  moreover have "get_all_fills (gw_fills (gw_begin empty_engine 0)) = []"
    by (simp add: gw_begin_def gw_new_def get_all_fills_def fm_new_def)
  ultimately show ?thesis
    using fix_fills_recorded_or_reported [OF _ r] r by auto
qed

text \<open>
  Reports round prices to six digits. Between 10000 and 100000, all prices at most 4.9 cents
  from the same tenth are written as that tenth, so that the reports of different fills are the same text.
\<close>

theorem fix_report_price_rounded:
  assumes "100001 \<le> n" and "n < 1000000"
    and "\<bar>10 * p - n * 100000000\<bar> \<le> 49000000" and "\<bar>10 * p' - n * 100000000\<bar> \<le> 49000000"
  shows "build_execution_report od (r\<lparr>r_last_price := p\<rparr>) = build_execution_report od (r\<lparr>r_last_price := p'\<rparr>)"
  using price_text_tenths [OF assms(1,2,3)] price_text_tenths [OF assms(1,2,4)] by (simp add: build_execution_report_def)

theorem fix_report_price_rounded_witness:
  "build_execution_report od (r\<lparr>r_last_price := 5012342000000\<rparr>) =
   build_execution_report od (r\<lparr>r_last_price := 5012336000000\<rparr>)"
  using fix_report_price_rounded [of 501234 5012342000000 5012336000000] by simp

text \<open>
  The two FIX components do not understand each other. Whatever fill it reports, the text of a FIX
  gateway is for the adapter a heartbeat, because the adapter splits at pipes only; given to the adapter,
  it delivers no report.
\<close>

theorem fix_report_not_understood:
  assumes "CHR ''|'' \<notin> set (o_symbol od)" and "CHR ''|'' \<notin> set (r_text r)"
  shows "\<exists>m. fm_deserialize (build_execution_report od r) = Inr m \<and> fm_type m = FT_Heartbeat \<and>
             process_incoming now (fa\<lparr>fa_incoming := [m]\<rparr>) = ([], None, fa\<lparr>fa_incoming := []\<rparr>)"
proof -
  let ?s = "build_execution_report od r"
  obtain rest where rest: "?s = ''35'' @ CHR ''='' # ''8'' @ SOH # rest" and "CHR ''|'' \<notin> set rest"
    using report_shape [OF assms] by blast
  then have split: "split_on CHR ''|'' ?s = [?s]" by (intro split_on_single) simp_all
  have "stoi ''35'' = Inr 35" using stoi_int_str [of 35] by (simp add: tag_strings i32_range)
  then have "fm_deserialize ?s = Inr \<lparr>fm_type = FT_Heartbeat, fm_fields = [35 \<mapsto> ''8'' @ SOH # rest]\<rparr>"
    unfolding fm_deserialize_def split unfolding rest by (simp add: fix_type_of_def TAG_MSG_TYPE_def)
  then show ?thesis by (simp add: process_incoming_def)
qed

theorem fix_report_not_understood_witness:
  "\<exists>m. fm_deserialize (build_execution_report sample_order sample_report) = Inr m \<and> fm_type m = FT_Heartbeat \<and>
     process_incoming 5 (sample_adapter\<lparr>fa_incoming := [m]\<rparr>) = ([], None, sample_adapter\<lparr>fa_incoming := []\<rparr>)"
  by (rule fix_report_not_understood) (simp_all add: sample_order_def sample_report_def default_order_def)

end
