(* ===== verification/Message_Codec.thy ===== *)
theory Message_Codec
  imports Prelude "HOL-Library.Word"
begin

text \<open>
  The wire protocol of the flight simulator, from \<open>src/luft/src/core/net/protocol.h\<close> and
  \<open>message_codec.h\<close>, \<open>message_codec.cpp\<close>: framing, the receive buffer and the payloads.

  A byte is an \<open>8 word\<close>. What \<open>memcpy\<close> of an integer writes depends on the byte order of the host,
  the argument \<open>h\<close>; \<open>htonl\<close> and the others are defined from it, as on a real host. A double is its
  64-bit pattern, since this code only copies it. A message type is the raw 16-bit
  value, which the enumeration keeps for unknown types too. \<open>encode\<close> is \<open>None\<close> where the code writes
  past its buffer, because the total is truncated to 32 bits.
\<close>

type_synonym byte = "8 word"

datatype host = Little_Endian | Big_Endian

section \<open>Integers in memory\<close>

fun le_bytes :: "nat \<Rightarrow> nat \<Rightarrow> byte list" where
  "le_bytes 0 x = []"
| "le_bytes (Suc n) x = word_of_nat x # le_bytes n (x div 256)"

fun le_val :: "byte list \<Rightarrow> nat" where
  "le_val [] = 0"
| "le_val (b # bs) = unat b + 256 * le_val bs"

definition mem_of :: "host \<Rightarrow> nat \<Rightarrow> 'a::len word \<Rightarrow> byte list" where
  "mem_of h n w = (if h = Little_Endian then le_bytes n (unat w) else rev (le_bytes n (unat w)))"

definition of_mem :: "host \<Rightarrow> byte list \<Rightarrow> 'a::len word" where
  "of_mem h bs = word_of_nat (le_val (if h = Little_Endian then bs else rev bs))"

definition byte_swap :: "nat \<Rightarrow> 'a::len word \<Rightarrow> 'a word" where
  "byte_swap n w = word_of_nat (le_val (rev (le_bytes n (unat w))))"

definition hton :: "host \<Rightarrow> nat \<Rightarrow> 'a::len word \<Rightarrow> 'a word" where
  "hton h n w = (if h = Little_Endian then byte_swap n w else w)"

section \<open>The protocol\<close>

type_synonym message_type = "16 word"

definition MT_Telemetry :: message_type where "MT_Telemetry = 1"
definition MT_ControlInput :: message_type where "MT_ControlInput = 2"
definition MT_SimCommand :: message_type where "MT_SimCommand = 3"
definition MT_ConfigUpdate :: message_type where "MT_ConfigUpdate = 4"
definition MT_Ack :: message_type where "MT_Ack = 16"
definition MT_Nack :: message_type where "MT_Nack = 17"

datatype sim_command = SC_Start | SC_Pause | SC_Resume | SC_Reset | SC_Stop

record header =
  hd_length :: "32 word"
  hd_type :: message_type
  hd_sequence :: "16 word"

definition kHeaderSize :: nat where "kHeaderSize = 8"
definition kMaxMessageSize :: nat where "kMaxMessageSize = 65536"

definition pack_header :: "host \<Rightarrow> header \<Rightarrow> byte list" where
  "pack_header h hdr =
     mem_of h 4 (hton h 4 (hd_length hdr)) @ mem_of h 2 (hton h 2 (hd_type hdr)) @
     mem_of h 2 (hton h 2 (hd_sequence hdr))"

definition unpack_header :: "host \<Rightarrow> byte list \<Rightarrow> header" where
  "unpack_header h src =
     \<lparr>hd_length = hton h 4 (of_mem h (take 4 src)), hd_type = hton h 2 (of_mem h (take 2 (drop 4 src))),
      hd_sequence = hton h 2 (of_mem h (take 2 (drop 6 src)))\<rparr>"

section \<open>The codec\<close>

record framed_message =
  fr_type :: message_type
  fr_sequence :: "16 word"
  fr_payload :: "byte list"

record codec =
  cd_recv :: "byte list"
  cd_messages :: "framed_message list"

definition codec_new :: codec where
  "codec_new = \<lparr>cd_recv = [], cd_messages = []\<rparr>"

definition frame_at_front :: "host \<Rightarrow> nat \<Rightarrow> byte list \<Rightarrow> framed_message" where
  "frame_at_front h n buf =
     (let hdr = unpack_header h buf
      in \<lparr>fr_type = hd_type hdr, fr_sequence = hd_sequence hdr,
          fr_payload = take (n - kHeaderSize) (drop kHeaderSize buf)\<rparr>)"

function try_parse :: "host \<Rightarrow> codec \<Rightarrow> codec" where
  "try_parse h cd =
     (if length (cd_recv cd) < kHeaderSize then cd
      else let n = unat (hd_length (unpack_header h (cd_recv cd)))
           in if n < kHeaderSize \<or> kMaxMessageSize < n then cd\<lparr>cd_recv := []\<rparr>
              else if length (cd_recv cd) < n then cd
              else try_parse h (cd\<lparr>cd_recv := drop n (cd_recv cd),
                                   cd_messages := cd_messages cd @ [frame_at_front h n (cd_recv cd)]\<rparr>))"
  by auto

termination try_parse
  by (relation "measure (\<lambda>(h, cd). length (cd_recv cd))") (auto simp: kHeaderSize_def)

declare try_parse.simps [simp del]

definition feed :: "host \<Rightarrow> byte list \<Rightarrow> codec \<Rightarrow> codec" where
  "feed h bs cd = try_parse h (cd\<lparr>cd_recv := cd_recv cd @ bs\<rparr>)"

definition has_message :: "codec \<Rightarrow> bool" where
  "has_message cd \<longleftrightarrow> cd_messages cd \<noteq> []"

definition pop_message :: "codec \<Rightarrow> framed_message \<times> codec" where
  "pop_message cd = (hd (cd_messages cd), cd\<lparr>cd_messages := tl (cd_messages cd)\<rparr>)"

definition encode :: "host \<Rightarrow> message_type \<Rightarrow> 16 word \<Rightarrow> byte list \<Rightarrow> byte list option" where
  "encode h ty sq payload =
     (let total = word_of_nat (kHeaderSize + length payload) :: 32 word
      in if unat total < kHeaderSize + length payload then None
         else Some (pack_header h \<lparr>hd_length = total, hd_type = ty, hd_sequence = sq\<rparr> @ payload))"

section \<open>Payloads\<close>

type_synonym double_bits = "64 word"

datatype sim_state = SS_Uninitialized | SS_Initialized | SS_Running | SS_Paused | SS_Stopped | SS_Error

fun sim_state_byte :: "sim_state \<Rightarrow> byte" where
  "sim_state_byte SS_Uninitialized = 0"
| "sim_state_byte SS_Initialized = 1"
| "sim_state_byte SS_Running = 2"
| "sim_state_byte SS_Paused = 3"
| "sim_state_byte SS_Stopped = 4"
| "sim_state_byte SS_Error = 5"

record vec3 =
  v_x :: double_bits
  v_y :: double_bits
  v_z :: double_bits

record quaternion =
  q_w :: double_bits
  q_x :: double_bits
  q_y :: double_bits
  q_z :: double_bits

record aircraft_state =
  as_position :: vec3
  as_velocity_body :: vec3
  as_orientation :: quaternion
  as_angular_velocity :: vec3
  as_thrust_current :: double_bits
  as_fuel_mass :: double_bits
  as_airspeed :: double_bits
  as_alpha :: double_bits
  as_beta :: double_bits
  as_altitude_msl :: double_bits
  as_dynamic_pressure :: double_bits

record control_input =
  ci_elevator :: double_bits
  ci_aileron :: double_bits
  ci_rudder :: double_bits
  ci_throttle :: double_bits
  ci_flaps :: double_bits
  ci_trim :: double_bits

definition write_double :: "host \<Rightarrow> double_bits \<Rightarrow> byte list" where
  "write_double h d = mem_of h 8 d"

definition read_double :: "host \<Rightarrow> byte list \<Rightarrow> double_bits \<times> byte list" where
  "read_double h ptr = (of_mem h (take 8 ptr), drop 8 ptr)"

definition serialize_telemetry :: "host \<Rightarrow> aircraft_state \<Rightarrow> sim_state \<Rightarrow> byte list" where
  "serialize_telemetry h st ss =
     (let p = as_position st; v = as_velocity_body st; q = as_orientation st; w = as_angular_velocity st
      in concat (map (write_double h)
           [v_x p, v_y p, v_z p, v_x v, v_y v, v_z v, q_w q, q_x q, q_y q, q_z q, v_x w, v_y w, v_z w,
            as_airspeed st, as_alpha st, as_beta st, as_altitude_msl st, as_thrust_current st, as_fuel_mass st]) @
         [sim_state_byte ss])"

definition deserialize_control_input :: "host \<Rightarrow> byte list \<Rightarrow> control_input option" where
  "deserialize_control_input h data =
     (if length data < 48 then None
      else let (e, d1) = read_double h data; (a, d2) = read_double h d1; (r, d3) = read_double h d2;
               (t, d4) = read_double h d3; (f, d5) = read_double h d4; (m, d6) = read_double h d5
           in Some \<lparr>ci_elevator = e, ci_aileron = a, ci_rudder = r, ci_throttle = t, ci_flaps = f, ci_trim = m\<rparr>)"

definition deserialize_sim_command :: "byte list \<Rightarrow> sim_command option" where
  "deserialize_sim_command data =
     (if length data < 1 then None
      else let raw = unat (data ! 0)
           in if raw < 1 \<or> 5 < raw then None
              else Some ([SC_Start, SC_Pause, SC_Resume, SC_Reset, SC_Stop] ! (raw - 1)))"

section \<open>Bytes of integers\<close>

lemma length_le_bytes [simp]: "length (le_bytes n x) = n"
  by (induction n arbitrary: x) auto

lemma le_val_le_bytes: "x < 256 ^ n \<Longrightarrow> le_val (le_bytes n x) = x"
proof (induction n arbitrary: x)
  case (Suc n)
  then have "le_val (le_bytes n (x div 256)) = x div 256" by (intro Suc.IH) (simp add: less_mult_imp_div_less mult.commute)
  moreover have "unat (word_of_nat x :: byte) = x mod 256" by (simp add: unat_of_nat)
  ultimately show ?case by simp
qed simp

lemma le_val_bound: "le_val bs < 256 ^ length bs"
proof (induction bs)
  case (Cons b bs)
  have "unat b < 256" using unsigned_less [of b, where ?'a = nat] by simp
  with Cons show ?case by simp
qed simp

lemma le_bytes_le_val: "le_bytes (length bs) (le_val bs) = bs"
proof (induction bs)
  case (Cons b bs)
  have b: "unat b < 256" using unsigned_less [of b, where ?'a = nat] by simp
  have "(word_of_nat (256 * le_val bs) :: byte) = 0"
    by (simp add: word_of_nat_eq_0_iff del: of_nat_mult)
  then have "word_of_nat (unat b + 256 * le_val bs) = b" by simp
  then show ?case using Cons b by simp
qed simp

lemma bytes_of_word:
  fixes w :: "'a::len word"
  assumes "LENGTH('a) = 8 * n"
  shows "le_val (le_bytes n (unat w)) = unat w"
    and "length bs = n \<Longrightarrow> unat (word_of_nat (le_val bs) :: 'a word) = le_val bs"
proof -
  have p: "(256::nat) ^ n = 2 ^ LENGTH('a)" by (simp add: assms power_mult)
  show "le_val (le_bytes n (unat w)) = unat w" using unsigned_less [of w, where ?'a = nat] p by (simp add: le_val_le_bytes)
  show "unat (word_of_nat (le_val bs) :: 'a word) = le_val bs" if "length bs = n"
    using le_val_bound [of bs] that p by (simp add: unsigned_of_nat take_bit_eq_mod)
qed

lemma le_bytes_le_val': "length bs = n \<Longrightarrow> le_bytes n (le_val bs) = bs"
  using le_bytes_le_val by blast

text \<open>Network order: the most significant byte first, on every host.\<close>

lemma mem_of_hton:
  fixes w :: "'a::len word"
  assumes "LENGTH('a) = 8 * n"
  shows "mem_of h n (hton h n w) = rev (le_bytes n (unat w))"
  using bytes_of_word(2) [OF assms, of "rev (le_bytes n (unat w))"]
  by (simp add: mem_of_def hton_def byte_swap_def le_bytes_le_val')

lemma hton_of_mem:
  fixes w :: "'a::len word"
  assumes "LENGTH('a) = 8 * n"
  shows "hton h n (of_mem h (rev (le_bytes n (unat w)))) = w"
  using bytes_of_word(2) [OF assms, of "rev (le_bytes n (unat w))"] bytes_of_word(1) [OF assms, of w]
  by (simp add: of_mem_def hton_def byte_swap_def le_bytes_le_val')

lemma of_mem_mem_of:
  fixes w :: "'a::len word"
  assumes "LENGTH('a) = 8 * n"
  shows "of_mem h (mem_of h n w) = w"
  using bytes_of_word(1) [OF assms, of w] by (simp add: of_mem_def mem_of_def)

lemma length_mem_of [simp]: "length (mem_of h n w) = n"
  by (simp add: mem_of_def)

lemma length_pack_header [simp]: "length (pack_header h hdr) = 8"
  by (simp add: pack_header_def)

lemma unpack_pack_header: "unpack_header h (pack_header h hdr @ rest) = hdr"
  by (simp add: unpack_header_def pack_header_def mem_of_hton hton_of_mem)

section \<open>Frames\<close>

text \<open>A frame the protocol admits, and its bytes.\<close>

definition frame_ok :: "framed_message \<Rightarrow> bool" where
  "frame_ok f \<longleftrightarrow> length (fr_payload f) + kHeaderSize \<le> kMaxMessageSize"

definition wire :: "host \<Rightarrow> framed_message \<Rightarrow> byte list" where
  "wire h f = pack_header h \<lparr>hd_length = word_of_nat (kHeaderSize + length (fr_payload f)), hd_type = fr_type f,
     hd_sequence = fr_sequence f\<rparr> @ fr_payload f"

lemma unat_small: "n < 2 ^ 32 \<Longrightarrow> unat (word_of_nat n :: 32 word) = n"
  by (simp add: unsigned_of_nat take_bit_eq_mod)

lemma frame_length:
  "frame_ok f \<Longrightarrow> unat (word_of_nat (kHeaderSize + length (fr_payload f)) :: 32 word) = kHeaderSize + length (fr_payload f)"
  by (rule unat_small) (simp add: frame_ok_def kMaxMessageSize_def)

lemma encode_wire: "frame_ok f \<Longrightarrow> encode h (fr_type f) (fr_sequence f) (fr_payload f) = Some (wire h f)"
  by (simp add: encode_def wire_def Let_def frame_length del: of_nat_add)

lemma length_wire: "length (wire h f) = kHeaderSize + length (fr_payload f)"
  by (simp add: wire_def kHeaderSize_def)

lemma header_wire: "frame_ok f \<Longrightarrow> unat (hd_length (unpack_header h (wire h f @ rest))) = length (wire h f)"
  by (simp add: length_wire frame_length del: of_nat_add) (simp add: wire_def unpack_pack_header frame_length del: of_nat_add)

lemma frame_wire: "frame_at_front h (length (wire h f)) (wire h f @ rest) = f"
  by (cases f) (simp add: frame_at_front_def Let_def wire_def unpack_pack_header kHeaderSize_def)

text \<open>The header depends on the first eight bytes only.\<close>

lemma unpack_header_prefix: "8 \<le> length buf \<Longrightarrow> unpack_header h (buf @ rest) = unpack_header h buf"
  by (simp add: unpack_header_def)

text \<open>Parsing a complete frame, an incomplete one, and an invalid length.\<close>

lemma parse_frame:
  assumes "frame_ok f" and "cd_recv cd = wire h f @ rest"
  shows "try_parse h cd = try_parse h (cd\<lparr>cd_recv := rest, cd_messages := cd_messages cd @ [f]\<rparr>)"
  using assms header_wire [of f h rest] frame_wire [of h f rest] length_wire [of h f]
  by (subst try_parse.simps) (simp add: Let_def frame_ok_def kHeaderSize_def kMaxMessageSize_def)

lemma parse_incomplete:
  assumes "frame_ok f" and "wire h f = cd_recv cd @ rest" and "rest \<noteq> []"
  shows "try_parse h cd = cd"
proof (cases "8 \<le> length (cd_recv cd)")
  case True
  have "unat (hd_length (unpack_header h (cd_recv cd))) = length (wire h f)"
    using header_wire [OF assms(1), of h "[]"] unpack_header_prefix [OF True, of h rest] assms(2) by simp
  moreover have "length (cd_recv cd) < length (wire h f)" using assms(2,3) by simp
  ultimately show ?thesis
    using assms(1) length_wire [of h f] True
    by (subst try_parse.simps) (simp add: Let_def frame_ok_def kHeaderSize_def kMaxMessageSize_def)
qed (subst try_parse.simps, simp add: kHeaderSize_def)

lemma parse_short: "length (cd_recv cd) < 8 \<Longrightarrow> try_parse h cd = cd"
  by (subst try_parse.simps) (simp add: kHeaderSize_def)

text \<open>A buffer that is a prefix of a stream of frames.\<close>

lemma parse_stream:
  assumes "\<forall>f \<in> set fs. frame_ok f" and "cd_recv cd @ rest = concat (map (wire h) fs)"
  shows "\<exists>k \<le> length fs. cd_messages (try_parse h cd) = cd_messages cd @ take k fs \<and>
    cd_recv (try_parse h cd) @ rest = concat (map (wire h) (drop k fs)) \<and>
    (k < length fs \<longrightarrow> length (cd_recv (try_parse h cd)) < length (wire h (fs ! k)))"
  using assms
proof (induction fs arbitrary: cd)
  case Nil
  then show ?case by (simp add: parse_short)
next
  case (Cons f fs)
  have ok: "frame_ok f" and oks: "\<forall>f \<in> set fs. frame_ok f" using Cons.prems(1) by simp_all
  have stream: "cd_recv cd @ rest = wire h f @ concat (map (wire h) fs)" using Cons.prems(2) by simp
  show ?case
  proof (cases "length (wire h f) \<le> length (cd_recv cd)")
    case True
    then obtain buf where buf: "cd_recv cd = wire h f @ buf" and rest: "buf @ rest = concat (map (wire h) fs)"
      using stream by (metis append_eq_append_conv_if append_take_drop_id)
    define cd1 where "cd1 = cd\<lparr>cd_recv := buf, cd_messages := cd_messages cd @ [f]\<rparr>"
    have "try_parse h cd = try_parse h cd1" unfolding cd1_def by (rule parse_frame [OF ok buf])
    moreover obtain k where "k \<le> length fs" "cd_messages (try_parse h cd1) = cd_messages cd1 @ take k fs"
      "cd_recv (try_parse h cd1) @ rest = concat (map (wire h) (drop k fs))"
      "k < length fs \<longrightarrow> length (cd_recv (try_parse h cd1)) < length (wire h (fs ! k))"
      using Cons.IH [OF oks, of cd1] rest by (auto simp: cd1_def)
    ultimately show ?thesis by (intro exI [of _ "Suc k"]) (simp add: cd1_def)
  next
    case False
    define r where "r = drop (length (cd_recv cd)) (wire h f)"
    have "take (length (cd_recv cd)) (wire h f) = cd_recv cd"
      using stream False by (metis append_eq_append_conv_if nat_le_linear take_all)
    then have r: "wire h f = cd_recv cd @ r" unfolding r_def by (metis append_take_drop_id)
    moreover have "r \<noteq> []" using False by (simp add: r_def)
    ultimately have "try_parse h cd = cd" using parse_incomplete [OF ok] by blast
    then show ?thesis using False Cons.prems(2) by (intro exI [of _ 0]) simp
  qed
qed

section \<open>Chunks\<close>

lemma feed_chunks:
  assumes "\<forall>f \<in> set fs. frame_ok f" and "cd_recv cd @ concat chunks @ rest = concat (map (wire h) fs)"
    and "fs \<noteq> [] \<Longrightarrow> length (cd_recv cd) < length (wire h (hd fs))"
  shows "\<exists>k \<le> length fs. cd_messages (fold (feed h) chunks cd) = cd_messages cd @ take k fs \<and>
    cd_recv (fold (feed h) chunks cd) @ rest = concat (map (wire h) (drop k fs)) \<and>
    (k < length fs \<longrightarrow> length (cd_recv (fold (feed h) chunks cd)) < length (wire h (fs ! k)))"
  using assms
proof (induction chunks arbitrary: cd fs)
  case Nil
  then show ?case by (intro exI [of _ 0]) (auto simp: hd_conv_nth)
next
  case (Cons c chunks)
  define cd1 where "cd1 = feed h c cd"
  obtain k where k: "k \<le> length fs" "cd_messages cd1 = cd_messages cd @ take k fs"
    "cd_recv cd1 @ concat chunks @ rest = concat (map (wire h) (drop k fs))"
    "k < length fs \<longrightarrow> length (cd_recv cd1) < length (wire h (fs ! k))"
    using parse_stream [OF Cons.prems(1), of "cd\<lparr>cd_recv := cd_recv cd @ c\<rparr>" "concat chunks @ rest" h] Cons.prems(2)
    by (auto simp: cd1_def feed_def)
  have "\<forall>f \<in> set (drop k fs). frame_ok f" using Cons.prems(1) by (meson in_set_dropD)
  moreover have "length (cd_recv cd1) < length (wire h (hd (drop k fs)))" if "drop k fs \<noteq> []"
    using that k(1,4) by (simp add: hd_drop_conv_nth)
  ultimately obtain j where j: "j \<le> length (drop k fs)"
    "cd_messages (fold (feed h) chunks cd1) = cd_messages cd1 @ take j (drop k fs)"
    "cd_recv (fold (feed h) chunks cd1) @ rest = concat (map (wire h) (drop j (drop k fs)))"
    "j < length (drop k fs) \<longrightarrow> length (cd_recv (fold (feed h) chunks cd1)) < length (wire h (drop k fs ! j))"
    using Cons.IH [OF _ k(3)] by blast
  have "take k fs @ take j (drop k fs) = take (k + j) fs" by (simp add: take_add)
  moreover have "k + j \<le> length fs" using j(1) k(1) by simp
  moreover have "drop k fs ! j = fs ! (k + j)" using k(1) by simp
  ultimately show ?case
    using j k(2) by (intro exI [of _ "k + j"]) (simp add: cd1_def add.commute)
qed

section \<open>Bounds\<close>

definition codec_inv :: "codec \<Rightarrow> bool" where
  "codec_inv cd \<longleftrightarrow> length (cd_recv cd) < kMaxMessageSize \<and> (\<forall>f \<in> set (cd_messages cd). frame_ok f)"

lemma try_parse_inv: "\<forall>f \<in> set (cd_messages cd). frame_ok f \<Longrightarrow> codec_inv (try_parse h cd)"
proof (induction h cd rule: try_parse.induct)
  case (1 h cd)
  define n where "n = unat (hd_length (unpack_header h (cd_recv cd)))"
  consider "length (cd_recv cd) < kHeaderSize"
    | "\<not> length (cd_recv cd) < kHeaderSize" "n < kHeaderSize \<or> kMaxMessageSize < n"
    | "\<not> length (cd_recv cd) < kHeaderSize" "\<not> (n < kHeaderSize \<or> kMaxMessageSize < n)" "length (cd_recv cd) < n"
    | "\<not> length (cd_recv cd) < kHeaderSize" "\<not> (n < kHeaderSize \<or> kMaxMessageSize < n)" "\<not> length (cd_recv cd) < n"
    by blast
  then show ?case
  proof cases
    case 4
    have "frame_ok (frame_at_front h n (cd_recv cd))"
      using 4 by (simp add: frame_ok_def frame_at_front_def Let_def)
    then have "codec_inv (try_parse h (cd\<lparr>cd_recv := drop n (cd_recv cd),
        cd_messages := cd_messages cd @ [frame_at_front h n (cd_recv cd)]\<rparr>))"
      using 1 4 by (simp add: n_def)
    then show ?thesis using 4 by (subst try_parse.simps) (simp add: n_def Let_def)
  qed (use 1 in \<open>subst try_parse.simps, simp add: codec_inv_def n_def Let_def kHeaderSize_def kMaxMessageSize_def\<close>)+
qed

datatype codec_cmd = CC_Feed "byte list" | CC_Pop

fun codec_step :: "host \<Rightarrow> codec_cmd \<Rightarrow> codec \<Rightarrow> codec" where
  "codec_step h (CC_Feed bs) cd = feed h bs cd"
| "codec_step h CC_Pop cd = (if has_message cd then snd (pop_message cd) else cd)"

lemma codec_step_inv [keeps]:
  assumes "codec_inv cd"
  shows "codec_inv (codec_step h c cd)"
proof (cases c)
  case (CC_Feed bs)
  have "codec_inv (try_parse h (cd\<lparr>cd_recv := cd_recv cd @ bs\<rparr>))"
    using assms by (intro try_parse_inv) (simp add: codec_inv_def)
  then show ?thesis by (simp add: CC_Feed feed_def)
next
  case CC_Pop
  then show ?thesis
    using assms by (cases "cd_messages cd") (simp_all add: codec_inv_def has_message_def pop_message_def)
qed

interpretation codec: transition_system "codec_step h" codec_new codec_inv "\<lambda>_ _. True" for h
  by unfold_locales (simp_all add: keeps, simp add: codec_inv_def codec_new_def kMaxMessageSize_def)

section \<open>Payloads\<close>

lemma length_write_double [simp]: "length (write_double h d) = 8"
  by (simp add: write_double_def)

lemma of_mem_write_double [simp]: "of_mem h (write_double h d) = d"
  unfolding write_double_def by (rule of_mem_mem_of) simp

lemma write_double_of_mem: "length bs = 8 \<Longrightarrow> write_double h (of_mem h bs) = bs"
  using bytes_of_word(2) [where 'a = 64, of 8 bs] bytes_of_word(2) [where 'a = 64, of 8 "rev bs"]
  by (simp add: write_double_def mem_of_def of_mem_def le_bytes_le_val')

fun doubles_at :: "host \<Rightarrow> nat \<Rightarrow> byte list \<Rightarrow> double_bits list" where
  "doubles_at h 0 bs = []"
| "doubles_at h (Suc n) bs = fst (read_double h bs) # doubles_at h n (snd (read_double h bs))"

lemma doubles_at_concat: "doubles_at h (length ds) (concat (map (write_double h) ds) @ bs) = ds"
  by (induction ds) (simp_all add: read_double_def)

lemma concat_doubles_at: "length bs = 8 * n \<Longrightarrow> concat (map (write_double h) (doubles_at h n bs)) = bs"
  by (induction n arbitrary: bs) (simp_all add: read_double_def write_double_of_mem)

lemma doubles_at_take: "8 * n \<le> length bs \<Longrightarrow> doubles_at h n (take (8 * n) bs) = doubles_at h n bs"
  by (induction n arbitrary: bs) (simp_all add: read_double_def drop_take min_def)

definition control_doubles :: "control_input \<Rightarrow> double_bits list" where
  "control_doubles ci = [ci_elevator ci, ci_aileron ci, ci_rudder ci, ci_throttle ci, ci_flaps ci, ci_trim ci]"

lemma control_doubles_eq:
  "control_doubles (\<lparr>ci_elevator = a, ci_aileron = b, ci_rudder = c, ci_throttle = d, ci_flaps = e, ci_trim = f\<rparr>) = [a, b, c, d, e, f]"
  by (simp add: control_doubles_def)

lemma deserialize_control:
  "deserialize_control_input h data = Some ci \<longleftrightarrow> 48 \<le> length data \<and> doubles_at h 6 data = control_doubles ci"
  by (cases ci) (auto simp: deserialize_control_input_def Let_def control_doubles_def read_double_def numeral_eq_Suc)

lemma deserialize_no_command [simp]: "deserialize_sim_command [] = None"
  by (simp add: deserialize_sim_command_def)

lemma deserialize_command:
  "deserialize_sim_command (b # bs) =
     (if b = 1 then Some SC_Start else if b = 2 then Some SC_Pause else if b = 3 then Some SC_Resume
      else if b = 4 then Some SC_Reset else if b = 5 then Some SC_Stop else None)"
proof -
  consider "unat b = 1" | "unat b = 2" | "unat b = 3" | "unat b = 4" | "unat b = 5" | "unat b < 1 \<or> 5 < unat b"
    by linarith
  then show ?thesis
    by cases (auto simp: deserialize_sim_command_def word_unat_eq_iff Let_def)
qed

section \<open>Properties\<close>

text \<open>
  C15: Messages survive any fragmentation. When the bytes received so far, in whatever chunks they
  came, are the beginning of a sequence of encoded messages, the codec has delivered exactly the
  messages that are complete, in order, and holds the bytes of the next one; once the whole
  sequence has arrived, all messages are there and the buffer is empty.
\<close>

theorem codec_stream_exact:
  assumes "\<forall>f \<in> set fs. frame_ok f \<and> encode h (fr_type f) (fr_sequence f) (fr_payload f) = Some (wire h f)"
    and "concat chunks @ rest = concat (map (wire h) fs)" and "cd = fold (feed h) chunks codec_new"
  shows "(\<exists>k \<le> length fs. cd_messages cd = take k fs \<and> concat (map (wire h) (take k fs)) @ cd_recv cd = concat chunks \<and>
           (k < length fs \<longrightarrow> length (cd_recv cd) < length (wire h (fs ! k)))) \<and>
         (rest = [] \<longrightarrow> cd_messages cd = fs \<and> cd_recv cd = [])"
proof -
  have ok: "\<forall>f \<in> set fs. frame_ok f" using assms(1) by blast
  obtain k where k: "k \<le> length fs" "cd_messages cd = take k fs"
    "cd_recv cd @ rest = concat (map (wire h) (drop k fs))"
    "k < length fs \<longrightarrow> length (cd_recv cd) < length (wire h (fs ! k))"
    using feed_chunks [OF ok, of codec_new chunks rest h] assms(2,3)
    by (auto simp: codec_new_def length_wire kHeaderSize_def)
  have "concat (map (wire h) (take k fs)) @ cd_recv cd @ rest = concat chunks @ rest"
    unfolding k(3) assms(2) by (metis append_take_drop_id concat_append map_append)
  then have "concat (map (wire h) (take k fs)) @ cd_recv cd = concat chunks" by simp
  moreover have "cd_messages cd = fs \<and> cd_recv cd = []" if "rest = []"
  proof (cases "k < length fs")
    case True
    then have "wire h (fs ! k) @ concat (map (wire h) (drop (Suc k) fs)) = cd_recv cd"
      using k(3) that by (simp flip: Cons_nth_drop_Suc)
    then have "length (wire h (fs ! k)) \<le> length (cd_recv cd)" by (metis le_add1 length_append)
    with k(4) True show ?thesis by simp
  qed (use k that in simp)
  ultimately show ?thesis using k by blast
qed

theorem codec_stream_exact_witness:
  "\<exists>w1 w2. encode Little_Endian MT_SimCommand 42 [3] = Some w1 \<and> encode Little_Endian MT_Ack 7 [] = Some w2 \<and>
     cd_messages (fold (feed Little_Endian) [take 5 w1, drop 5 w1 @ take 3 w2, drop 3 w2] codec_new) =
       [\<lparr>fr_type = MT_SimCommand, fr_sequence = 42, fr_payload = [3]\<rparr>, \<lparr>fr_type = MT_Ack, fr_sequence = 7, fr_payload = []\<rparr>]"
proof -
  let ?f = "\<lparr>fr_type = MT_SimCommand, fr_sequence = 42, fr_payload = [3]\<rparr>"
  let ?g = "\<lparr>fr_type = MT_Ack, fr_sequence = 7, fr_payload = []\<rparr>"
  have ok: "frame_ok ?f" "frame_ok ?g" by (simp_all add: frame_ok_def kHeaderSize_def kMaxMessageSize_def)
  have enc: "encode Little_Endian MT_SimCommand 42 [3] = Some (wire Little_Endian ?f)"
    "encode Little_Endian MT_Ack 7 [] = Some (wire Little_Endian ?g)"
    using encode_wire [OF ok(1)] encode_wire [OF ok(2)] by simp_all
  have "concat [take 5 (wire Little_Endian ?f), drop 5 (wire Little_Endian ?f) @ take 3 (wire Little_Endian ?g),
      drop 3 (wire Little_Endian ?g)] @ [] = concat (map (wire Little_Endian) [?f, ?g])" by simp
  from codec_stream_exact [OF _ this refl] ok enc show ?thesis by (intro exI conjI) (assumption | simp)+
qed

text \<open>
  The codec stays bounded. Whatever bytes arrive and whenever messages are taken, the receive
  buffer is shorter than the maximal message after each call, and no delivered message exceeds it.
\<close>

theorem codec_bounded:
  "length (cd_recv (run (codec_step h) cs codec_new)) < kMaxMessageSize \<and>
   list_all (\<lambda>f. length (fr_payload f) + kHeaderSize \<le> kMaxMessageSize) (cd_messages (run (codec_step h) cs codec_new))"
  using codec.inv_run [of h cs] by (simp add: codec_inv_def frame_ok_def list_all_iff)

text \<open>
  A bad length loses what follows in the same read. Behind a header whose length is out of range the
  codec drops the complete messages that arrived in the same chunk, although it delivers them when they
  arrive in the next chunk.
\<close>

theorem codec_bad_length_drops_rest:
  assumes "cd_recv cd = []" and "8 \<le> length bad" and "n = unat (hd_length (unpack_header h bad))"
    and "n < kHeaderSize \<or> kMaxMessageSize < n" and "\<forall>f \<in> set fs. frame_ok f"
  shows "feed h (bad @ concat (map (wire h) fs)) cd = cd \<and>
         cd_messages (feed h (concat (map (wire h) fs)) (feed h bad cd)) = cd_messages cd @ fs"
proof -
  have drop: "try_parse h (cd\<lparr>cd_recv := bad @ bs\<rparr>) = cd" for bs
    using assms(1-4) unpack_header_prefix [OF assms(2), of h bs]
    by (subst try_parse.simps) (cases cd, auto simp: Let_def kHeaderSize_def)
  have "feed h bad cd = cd" using drop [of "[]"] assms(1) by (simp add: feed_def)
  moreover have "feed h (bad @ concat (map (wire h) fs)) cd = cd" using drop assms(1) by (simp add: feed_def)
  moreover have "cd_messages (feed h (concat (map (wire h) fs)) cd) = cd_messages cd @ fs"
  proof -
    have "fs \<noteq> [] \<Longrightarrow> length (cd_recv cd) < length (wire h (hd fs))" by (simp add: assms(1) length_wire kHeaderSize_def)
    then obtain k where k: "k \<le> length fs" "cd_messages (feed h (concat (map (wire h) fs)) cd) = cd_messages cd @ take k fs"
      "cd_recv (feed h (concat (map (wire h) fs)) cd) = concat (map (wire h) (drop k fs))"
      "k < length fs \<longrightarrow> length (cd_recv (feed h (concat (map (wire h) fs)) cd)) < length (wire h (fs ! k))"
      using feed_chunks [OF assms(5), of cd "[concat (map (wire h) fs)]" "[]" h] assms(1) by auto
    have "\<not> k < length fs"
    proof
      assume "k < length fs"
      moreover from this have "length (wire h (fs ! k)) \<le> length (concat (map (wire h) (drop k fs)))"
        by (simp flip: Cons_nth_drop_Suc)
      ultimately show False using k(3,4) by simp
    qed
    then show ?thesis using k by simp
  qed
  ultimately show ?thesis by simp
qed

theorem codec_bad_length_drops_rest_witness:
  "let f = \<lparr>fr_type = MT_Ack, fr_sequence = 7, fr_payload = []\<rparr>
   in cd_messages (feed Big_Endian (replicate 8 0 @ wire Big_Endian f) codec_new) = [] \<and>
      cd_messages (feed Big_Endian (wire Big_Endian f) (feed Big_Endian (replicate 8 0) codec_new)) = [f]"
proof -
  let ?f = "\<lparr>fr_type = MT_Ack, fr_sequence = 7, fr_payload = []\<rparr>"
  have "unat (hd_length (unpack_header Big_Endian (replicate 8 0))) = 0"
    by (simp add: unpack_header_def hton_def of_mem_def numeral_eq_Suc)
  then show ?thesis
    using codec_bad_length_drops_rest [OF _ _ refl, of codec_new "replicate 8 0" Big_Endian "[?f]"]
    by (simp add: codec_new_def frame_ok_def kHeaderSize_def kMaxMessageSize_def Let_def)
qed

text \<open>
  Payloads are read exactly. Telemetry is 153 bytes, from which the nineteen doubles and the state
  read back as they were; a control input is accepted exactly when the payload begins with the
  representation of its six doubles; a command exactly when the first byte is its code.
\<close>

theorem payloads_exact:
  "length (serialize_telemetry h st ss) = 153 \<and>
   doubles_at h 19 (serialize_telemetry h st ss) =
     [v_x (as_position st), v_y (as_position st), v_z (as_position st),
      v_x (as_velocity_body st), v_y (as_velocity_body st), v_z (as_velocity_body st),
      q_w (as_orientation st), q_x (as_orientation st), q_y (as_orientation st), q_z (as_orientation st),
      v_x (as_angular_velocity st), v_y (as_angular_velocity st), v_z (as_angular_velocity st),
      as_airspeed st, as_alpha st, as_beta st, as_altitude_msl st, as_thrust_current st, as_fuel_mass st] \<and>
   last (serialize_telemetry h st ss) = sim_state_byte ss \<and>
   (deserialize_control_input h data = Some ci \<longleftrightarrow>
      (\<exists>more. data = concat (map (write_double h) (control_doubles ci)) @ more)) \<and>
   (deserialize_sim_command data = Some cmd \<longleftrightarrow>
      (\<exists>more. data = (case cmd of SC_Start \<Rightarrow> 1 | SC_Pause \<Rightarrow> 2 | SC_Resume \<Rightarrow> 3 | SC_Reset \<Rightarrow> 4 | SC_Stop \<Rightarrow> 5) # more))"
proof -
  let ?p = "as_position st" and ?v = "as_velocity_body st" and ?q = "as_orientation st" and ?w = "as_angular_velocity st"
  define ds where "ds = [v_x ?p, v_y ?p, v_z ?p, v_x ?v, v_y ?v, v_z ?v, q_w ?q, q_x ?q, q_y ?q, q_z ?q, v_x ?w, v_y ?w, v_z ?w,
      as_airspeed st, as_alpha st, as_beta st, as_altitude_msl st, as_thrust_current st, as_fuel_mass st]"
  have n: "length ds = 19" by (simp add: ds_def)
  have tel: "serialize_telemetry h st ss = concat (map (write_double h) ds) @ [sim_state_byte ss]"
    by (simp add: serialize_telemetry_def ds_def Let_def)
  have len: "length (concat (map (write_double h) xs)) = 8 * length xs" for xs by (induction xs) simp_all
  have "doubles_at h 19 (serialize_telemetry h st ss) = ds"
    using doubles_at_concat [of h ds "[sim_state_byte ss]"] n by (simp add: tel)
  moreover have "length (serialize_telemetry h st ss) = 153" by (simp add: tel len n)
  moreover have "deserialize_control_input h data = Some ci \<longleftrightarrow>
      (\<exists>more. data = concat (map (write_double h) (control_doubles ci)) @ more)"
  proof
    assume "deserialize_control_input h data = Some ci"
    then have "48 \<le> length data" and d: "doubles_at h 6 data = control_doubles ci" by (simp_all add: deserialize_control)
    then have "concat (map (write_double h) (control_doubles ci)) = take 48 data"
      using concat_doubles_at [of "take 48 data" 6 h] doubles_at_take [of 6 data h] by simp
    then show "\<exists>more. data = concat (map (write_double h) (control_doubles ci)) @ more" by (metis append_take_drop_id)
  next
    assume "\<exists>more. data = concat (map (write_double h) (control_doubles ci)) @ more"
    then obtain more where data: "data = concat (map (write_double h) (control_doubles ci)) @ more" by blast
    have "length (control_doubles ci) = 6" by (simp add: control_doubles_def)
    then show "deserialize_control_input h data = Some ci"
      using doubles_at_concat [of h "control_doubles ci" more] len [of "control_doubles ci"]
      by (simp add: deserialize_control data)
  qed
  moreover have "deserialize_sim_command data = Some cmd \<longleftrightarrow>
      (\<exists>more. data = (case cmd of SC_Start \<Rightarrow> 1 | SC_Pause \<Rightarrow> 2 | SC_Resume \<Rightarrow> 3 | SC_Reset \<Rightarrow> 4 | SC_Stop \<Rightarrow> 5) # more)"
    by (cases data; cases cmd) (auto simp: deserialize_command)
  ultimately show ?thesis unfolding ds_def by (simp add: tel)
qed

end
