(* ===== verification/Network_Service.thy ===== *)
theory Network_Service
  imports Message_Codec
begin

text \<open>
  The network service of the flight simulator, from \<open>src/luft/src/core/net/network_service.h\<close> and
  \<open>network_service.cpp\<close>: telemetry goes out to its clients, commands come in.

  The kernel is the environment: what \<open>recv\<close>, \<open>send\<close> and \<open>accept\<close> return during a call is an argument of
  the call (a list, used up call by call, with \<open>EAGAIN\<close> at its end), a \<open>send\<close> that succeeds takes at
  least one and at most the remaining bytes. What the service does to the outside (bytes sent,
  callbacks, closed descriptors) is the returned list of events. The two lists of clients are
  association lists in the order of the code's vectors; the lock around them makes each use one step.
\<close>

section \<open>State\<close>

record client =
  cl_codec :: codec
  cl_send_buf :: "byte list"
  cl_offset :: nat

record network_service =
  ns_open :: bool
  ns_running :: bool
  ns_telemetry :: "(int \<times> client) list"
  ns_command :: "(int \<times> client) list"
  ns_frame :: "byte list"
  ns_pending :: bool
  ns_seq :: "16 word"
  ns_command_cb :: bool
  ns_control_cb :: bool

definition kMaxClients :: nat where "kMaxClients = 8"

definition client_new :: client where
  "client_new = \<lparr>cl_codec = codec_new, cl_send_buf = [], cl_offset = 0\<rparr>"

definition ns_new :: network_service where
  "ns_new = \<lparr>ns_open = False, ns_running = False, ns_telemetry = [], ns_command = [], ns_frame = [],
     ns_pending = False, ns_seq = 0, ns_command_cb = False, ns_control_cb = False\<rparr>"

datatype net_event =
    NE_Sent int "byte list"
  | NE_Command sim_command
  | NE_Control control_input
  | NE_Closed int

datatype recv_result = RR_Data "byte list" | RR_Closed | RR_Again | RR_Error

datatype send_result = SR_Sent nat | SR_Full | SR_Error

text \<open>A connection the listener accepts, with the result of adding it to the poll set.\<close>

type_synonym accepted = "int \<times> bool"

datatype poll_event =
    PE_Telemetry_Listener "accepted list"
  | PE_Command_Listener "accepted list"
  | PE_Client int bool bool "recv_result list"

datatype listener_kind = LK_Telemetry | LK_Command

section \<open>Life cycle\<close>

text \<open>\<open>start\<close>, by which of its five steps succeed (poll set, and bind and add of each listener).\<close>

definition ns_close_all :: "network_service \<Rightarrow> net_event list" where
  "ns_close_all ns = map (\<lambda>(fd, ci). NE_Closed fd) (ns_telemetry ns @ ns_command ns)"

definition ns_stop :: "network_service \<Rightarrow> net_event list \<times> network_service" where
  "ns_stop ns = (ns_close_all ns, ns\<lparr>ns_running := False, ns_telemetry := [], ns_command := [], ns_open := False\<rparr>)"

definition ns_start :: "bool \<Rightarrow> bool \<Rightarrow> bool \<Rightarrow> bool \<Rightarrow> bool \<Rightarrow> network_service \<Rightarrow> bool \<times> net_event list \<times> network_service" where
  "ns_start epoll_ok tbind tadd cbind cadd ns =
     (if \<not> epoll_ok then (False, [], ns\<lparr>ns_open := False\<rparr>)
      else let ns1 = ns\<lparr>ns_open := True\<rparr>
           in if \<not> tbind \<or> \<not> tadd \<or> \<not> cbind \<or> \<not> cadd then (False, ns_stop ns1)
              else (True, [], ns1\<lparr>ns_running := True\<rparr>))"

section \<open>Clients\<close>

definition remove_from :: "int \<Rightarrow> (int \<times> client) list \<Rightarrow> bool \<times> (int \<times> client) list" where
  "remove_from fd cs =
     (case dropWhile (\<lambda>p. fst p \<noteq> fd) cs of
        [] \<Rightarrow> (False, cs)
      | _ # rest \<Rightarrow> (True, takeWhile (\<lambda>p. fst p \<noteq> fd) cs @ rest))"

definition remove_client :: "int \<Rightarrow> network_service \<Rightarrow> net_event list \<times> network_service" where
  "remove_client fd ns =
     (let (found, ts) = remove_from fd (ns_telemetry ns)
      in if found then ([NE_Closed fd], ns\<lparr>ns_telemetry := ts\<rparr>)
         else let (found', cs) = remove_from fd (ns_command ns)
              in ((if found' then [NE_Closed fd] else []), ns\<lparr>ns_command := cs\<rparr>))"

text \<open>\<open>accept_clients\<close>: a failed \<open>epoll_add\<close> or a full list closes the connection and ends the call.\<close>

fun accept_clients :: "listener_kind \<Rightarrow> accepted list \<Rightarrow> network_service \<Rightarrow> net_event list \<times> network_service" where
  "accept_clients kind [] ns = ([], ns)"
| "accept_clients kind ((fd, added) # socks) ns =
     (let clients = (if kind = LK_Telemetry then ns_telemetry ns else ns_command ns)
      in if \<not> added \<or> length clients \<ge> kMaxClients then ([NE_Closed fd], ns)
         else accept_clients kind socks
           (if kind = LK_Telemetry then ns\<lparr>ns_telemetry := clients @ [(fd, client_new)]\<rparr>
            else ns\<lparr>ns_command := clients @ [(fd, client_new)]\<rparr>))"

section \<open>Commands\<close>

definition deliver :: "host \<Rightarrow> bool \<Rightarrow> bool \<Rightarrow> framed_message \<Rightarrow> net_event list" where
  "deliver h cmd_cb ctl_cb msg =
     (if fr_type msg = MT_SimCommand
      then (case deserialize_sim_command (fr_payload msg) of
              None \<Rightarrow> [] | Some cmd \<Rightarrow> if cmd_cb then [NE_Command cmd] else [])
      else if fr_type msg = MT_ControlInput
      then (case deserialize_control_input h (fr_payload msg) of
              None \<Rightarrow> [] | Some input \<Rightarrow> if ctl_cb then [NE_Control input] else [])
      else [])"

function dispatch_messages :: "host \<Rightarrow> bool \<Rightarrow> bool \<Rightarrow> codec \<Rightarrow> net_event list \<times> codec" where
  "dispatch_messages h cmd_cb ctl_cb cd =
     (if \<not> has_message cd then ([], cd)
      else let (msg, cd1) = pop_message cd; (ev, cd2) = dispatch_messages h cmd_cb ctl_cb cd1
           in (deliver h cmd_cb ctl_cb msg @ ev, cd2))"
  by auto

termination dispatch_messages
  by (relation "measure (\<lambda>(h, a, b, cd). length (cd_messages cd))") (auto simp: has_message_def pop_message_def)

declare dispatch_messages.simps [simp del]

text \<open>The read loop: it ends with \<open>EAGAIN\<close> (\<open>True\<close>) or with the end or an error of the connection.\<close>

fun read_loop :: "host \<Rightarrow> recv_result list \<Rightarrow> codec \<Rightarrow> bool \<times> codec" where
  "read_loop h [] cd = (True, cd)"
| "read_loop h (RR_Data bs # rs) cd = read_loop h rs (feed h bs cd)"
| "read_loop h (RR_Again # rs) cd = (True, cd)"
| "read_loop h (RR_Closed # rs) cd = (False, cd)"
| "read_loop h (RR_Error # rs) cd = (False, cd)"

fun set_client :: "int \<Rightarrow> client \<Rightarrow> (int \<times> client) list \<Rightarrow> (int \<times> client) list" where
  "set_client fd ci [] = []"
| "set_client fd ci ((k, c) # cs) = (if k = fd then (k, ci) # cs else (k, c) # set_client fd ci cs)"

definition handle_readable :: "host \<Rightarrow> int \<Rightarrow> recv_result list \<Rightarrow> network_service \<Rightarrow> net_event list \<times> network_service" where
  "handle_readable h fd rs ns =
     (case map_of (ns_command ns) fd of
        Some ci \<Rightarrow>
          let (more, cd) = read_loop h rs (cl_codec ci)
          in if \<not> more then remove_client fd (ns\<lparr>ns_command := set_client fd (ci\<lparr>cl_codec := cd\<rparr>) (ns_command ns)\<rparr>)
             else let (ev, cd') = dispatch_messages h (ns_command_cb ns) (ns_control_cb ns) cd
                  in (ev, ns\<lparr>ns_command := set_client fd (ci\<lparr>cl_codec := cd'\<rparr>) (ns_command ns)\<rparr>)
      | None \<Rightarrow>
          (case map_of (ns_telemetry ns) fd of
             None \<Rightarrow> ([], ns)
           | Some ci \<Rightarrow>
               let (more, cd) = read_loop h rs (cl_codec ci);
                   ns1 = ns\<lparr>ns_telemetry := set_client fd (ci\<lparr>cl_codec := cd\<rparr>) (ns_telemetry ns)\<rparr>
               in if \<not> more then remove_client fd ns1 else ([], ns1)))"

section \<open>Telemetry\<close>

definition publish_telemetry :: "host \<Rightarrow> aircraft_state \<Rightarrow> sim_state \<Rightarrow> network_service \<Rightarrow> network_service option" where
  "publish_telemetry h st ss ns =
     (case encode h MT_Telemetry (ns_seq ns) (serialize_telemetry h st ss) of
        None \<Rightarrow> None
      | Some frame \<Rightarrow> Some (ns\<lparr>ns_seq := ns_seq ns + 1, ns_frame := frame, ns_pending := True\<rparr>))"

definition enqueue :: "byte list \<Rightarrow> client \<Rightarrow> client" where
  "enqueue frame ci = ci\<lparr>cl_send_buf := cl_send_buf ci @ frame\<rparr>"

definition reclaim :: "client \<Rightarrow> client" where
  "reclaim ci = (if cl_offset ci \<ge> length (cl_send_buf ci) then ci\<lparr>cl_send_buf := [], cl_offset := 0\<rparr> else ci)"

fun flush_send_queue :: "send_result list \<Rightarrow> client \<Rightarrow> byte list \<times> client" where
  "flush_send_queue [] ci = ([], reclaim ci)"
| "flush_send_queue (r # rs) ci =
     (let remaining = length (cl_send_buf ci) - cl_offset ci
      in if remaining = 0 then ([], reclaim ci)
         else case r of
           SR_Sent n \<Rightarrow>
             let k = max 1 (min n remaining);
                 (bs, ci') = flush_send_queue rs (ci\<lparr>cl_offset := cl_offset ci + k\<rparr>)
             in (take k (drop (cl_offset ci) (cl_send_buf ci)) @ bs, ci')
         | SR_Full \<Rightarrow> ([], reclaim ci)
         | SR_Error \<Rightarrow> ([], ci\<lparr>cl_send_buf := [], cl_offset := 0\<rparr>))"

fun flush_all :: "(int \<Rightarrow> send_result list) \<Rightarrow> (int \<times> client) list \<Rightarrow> net_event list \<times> (int \<times> client) list" where
  "flush_all sends [] = ([], [])"
| "flush_all sends ((fd, ci) # cs) =
     (let (bs, ci') = flush_send_queue (sends fd) ci; (ev, cs') = flush_all sends cs
      in (NE_Sent fd bs # ev, (fd, ci') # cs'))"

section \<open>The event loop\<close>

fun handle_event :: "host \<Rightarrow> poll_event \<Rightarrow> network_service \<Rightarrow> net_event list \<times> network_service" where
  "handle_event h (PE_Telemetry_Listener socks) ns = accept_clients LK_Telemetry socks ns"
| "handle_event h (PE_Command_Listener socks) ns = accept_clients LK_Command socks ns"
| "handle_event h (PE_Client fd hangup readable rs) ns =
     (if hangup then remove_client fd ns
      else if readable then handle_readable h fd rs ns
      else ([], ns))"

fun handle_events :: "host \<Rightarrow> poll_event list \<Rightarrow> network_service \<Rightarrow> net_event list \<times> network_service" where
  "handle_events h [] ns = ([], ns)"
| "handle_events h (pe # pes) ns =
     (let (ev, ns1) = handle_event h pe ns; (ev', ns2) = handle_events h pes ns1 in (ev @ ev', ns2))"

definition drain_outbound :: "network_service \<Rightarrow> network_service" where
  "drain_outbound ns =
     (if ns_pending ns
      then ns\<lparr>ns_frame := [], ns_pending := False,
              ns_telemetry := map (\<lambda>(fd, ci). (fd, enqueue (ns_frame ns) ci)) (ns_telemetry ns)\<rparr>
      else ns)"

text \<open>One call of \<open>poll\<close>; \<open>None\<close> for the events is a failed \<open>epoll_wait\<close>.\<close>

definition poll ::
  "host \<Rightarrow> (int \<Rightarrow> send_result list) \<Rightarrow> poll_event list option \<Rightarrow> network_service \<Rightarrow> net_event list \<times> network_service" where
  "poll h sends pes ns =
     (if \<not> ns_open ns then ([], ns)
      else let ns1 = drain_outbound ns;
               (ev, ts) = flush_all sends (ns_telemetry ns1);
               ns2 = ns1\<lparr>ns_telemetry := ts\<rparr>
           in case pes of
                None \<Rightarrow> (ev, ns2)
              | Some pes \<Rightarrow> (let (ev', ns3) = handle_events h pes ns2 in (ev @ ev', ns3)))"

section \<open>Commands are delivered in order\<close>

lemma dispatch_all:
  "dispatch_messages h a b cd = (concat (map (deliver h a b) (cd_messages cd)), cd\<lparr>cd_messages := []\<rparr>)"
proof (induction h a b cd rule: dispatch_messages.induct)
  case (1 h a b cd)
  then show ?case
    by (cases "cd_messages cd") (subst dispatch_messages.simps, cases cd, simp add: has_message_def pop_message_def Let_def)+
qed

lemma read_chunks: "read_loop h (map RR_Data chunks @ rs) cd = read_loop h rs (fold (feed h) chunks cd)"
  by (induction chunks arbitrary: cd) simp_all

lemma set_client_same: "map_of cs fd = Some ci \<Longrightarrow> map_of (set_client fd ci' cs) fd = Some ci'"
  by (induction cs) (auto split: if_splits)

section \<open>What one client is sent\<close>

definition backlog :: "client \<Rightarrow> byte list" where
  "backlog ci = drop (cl_offset ci) (cl_send_buf ci)"

lemma reclaim_backlog [simp]: "backlog (reclaim ci) = backlog ci"
  by (simp add: reclaim_def backlog_def)

lemma enqueue_backlog: "cl_offset ci \<le> length (cl_send_buf ci) \<Longrightarrow> backlog (enqueue frame ci) = backlog ci @ frame"
  by (simp add: enqueue_def backlog_def)

lemma reclaim_offset: "cl_offset ci \<le> length (cl_send_buf ci) \<Longrightarrow> cl_offset (reclaim ci) \<le> length (cl_send_buf (reclaim ci))"
  by (simp add: reclaim_def)

lemma flush_exact:
  assumes "flush_send_queue rs ci = (bs, ci')" and "cl_offset ci \<le> length (cl_send_buf ci)" and "SR_Error \<notin> set rs"
  shows "bs @ backlog ci' = backlog ci \<and> cl_offset ci' \<le> length (cl_send_buf ci') \<and> cl_codec ci' = cl_codec ci"
  using assms
proof (induction rs arbitrary: ci bs)
  case Nil
  then show ?case by (auto simp: reclaim_offset) (simp add: reclaim_def)
next
  case (Cons r rs)
  define remaining where "remaining = length (cl_send_buf ci) - cl_offset ci"
  show ?case
  proof (cases "remaining = 0 \<or> r = SR_Full")
    case True
    then show ?thesis
      using Cons.prems by (auto simp: remaining_def reclaim_offset split: if_splits) (auto simp: reclaim_def)
  next
    case False
    then obtain n where r: "r = SR_Sent n" using Cons.prems(3) by (cases r) auto
    define k where "k = max 1 (min n remaining)"
    obtain bs1 where rest: "flush_send_queue rs (ci\<lparr>cl_offset := cl_offset ci + k\<rparr>) = (bs1, ci')"
      and bs: "bs = take k (backlog ci) @ bs1"
      using Cons.prems(1) False by (auto simp: r Let_def remaining_def k_def backlog_def split: prod.splits)
    have "cl_offset ci + k \<le> length (cl_send_buf ci)" using False by (auto simp: k_def remaining_def)
    then have "bs1 @ backlog ci' = drop k (backlog ci) \<and> cl_offset ci' \<le> length (cl_send_buf ci') \<and> cl_codec ci' = cl_codec ci"
      using Cons.IH [OF rest] Cons.prems(3) by (simp add: backlog_def add.commute)
    then show ?thesis by (simp add: bs)
  qed
qed

section \<open>The service keeps its clients bounded\<close>

datatype ns_cmd =
    NC_Start bool bool bool bool bool
  | NC_Stop
  | NC_Callbacks
  | NC_Publish aircraft_state sim_state
  | NC_Poll "int \<Rightarrow> send_result list" "poll_event list option"

type_synonym ns_sys = "network_service \<times> net_event list"

fun ns_exec :: "host \<Rightarrow> ns_cmd \<Rightarrow> network_service \<Rightarrow> net_event list \<times> network_service" where
  "ns_exec h (NC_Start a b c d e) ns = snd (ns_start a b c d e ns)"
| "ns_exec h NC_Stop ns = ns_stop ns"
| "ns_exec h NC_Callbacks ns = ([], ns\<lparr>ns_command_cb := True, ns_control_cb := True\<rparr>)"
| "ns_exec h (NC_Publish st ss) ns = ([], case publish_telemetry h st ss ns of None \<Rightarrow> ns | Some ns' \<Rightarrow> ns')"
| "ns_exec h (NC_Poll sends pes) ns = poll h sends pes ns"

definition ns_step :: "host \<Rightarrow> ns_cmd \<Rightarrow> ns_sys \<Rightarrow> ns_sys" where
  "ns_step h c s = (let (ev, ns) = ns_exec h c (fst s) in (ns, snd s @ ev))"

definition clients_ok :: "(int \<times> client) list \<Rightarrow> bool" where
  "clients_ok cs \<longleftrightarrow> length cs \<le> kMaxClients \<and>
     (\<forall>(fd, ci) \<in> set cs. codec_inv (cl_codec ci))"

definition ns_inv :: "network_service \<Rightarrow> bool" where
  "ns_inv ns \<longleftrightarrow> clients_ok (ns_telemetry ns) \<and> clients_ok (ns_command ns)"

lemma codec_inv_new: "codec_inv codec_new"
  by (simp add: codec_inv_def codec_new_def kMaxMessageSize_def)

lemma read_loop_inv: "codec_inv cd \<Longrightarrow> codec_inv (snd (read_loop h rs cd))"
proof (induction h rs cd rule: read_loop.induct)
  case (2 h bs rs cd)
  then show ?case using codec_step_inv [of cd h "CC_Feed bs"] by simp
qed simp_all

lemma remove_from_ok:
  assumes "clients_ok cs"
  shows "clients_ok (snd (remove_from fd cs))"
proof (cases "dropWhile (\<lambda>p. fst p \<noteq> fd) cs")
  case (Cons p rest)
  then obtain before where before: "takeWhile (\<lambda>p. fst p \<noteq> fd) cs = before" "cs = before @ p # rest"
    by (metis takeWhile_dropWhile_id)
  have "snd (remove_from fd cs) = before @ rest" by (simp add: remove_from_def Cons before(1))
  moreover have "clients_ok (before @ rest)" using assms unfolding before(2) by (auto simp: clients_ok_def)
  ultimately show ?thesis by simp
next
  case Nil
  show ?thesis unfolding remove_from_def Nil using assms by simp
qed

lemma remove_client_inv [keeps]: "ns_inv ns \<Longrightarrow> ns_inv (snd (remove_client fd ns))"
  using remove_from_ok [of "ns_telemetry ns" fd] remove_from_ok [of "ns_command ns" fd]
  by (auto simp: remove_client_def ns_inv_def split: prod.split)

lemma length_set_client [simp]: "length (set_client fd ci cs) = length cs"
  by (induction cs) auto

lemma set_client_set: "p \<in> set (set_client fd ci cs) \<Longrightarrow> p \<in> set cs \<or> snd p = ci"
  by (induction cs) (auto split: if_splits)

lemma set_client_ok: "clients_ok cs \<Longrightarrow> codec_inv (cl_codec ci) \<Longrightarrow> clients_ok (set_client fd ci cs)"
  using set_client_set unfolding clients_ok_def by fastforce

lemma client_codec: "clients_ok cs \<Longrightarrow> map_of cs fd = Some ci \<Longrightarrow> codec_inv (cl_codec ci)"
  by (drule map_of_SomeD) (auto simp: clients_ok_def)

lemma accept_inv [keeps]: "ns_inv ns \<Longrightarrow> ns_inv (snd (accept_clients kind socks ns))"
proof (induction kind socks ns rule: accept_clients.induct)
  case (2 kind fd added socks ns)
  have "clients_ok (cs @ [(fd, client_new)])" if "clients_ok cs" "length cs < kMaxClients" for cs
    using that by (auto simp: clients_ok_def client_new_def codec_inv_new)
  then show ?case using 2 by (cases kind) (auto simp: Let_def ns_inv_def)
qed simp

lemma dispatch_inv: "codec_inv cd \<Longrightarrow> codec_inv (snd (dispatch_messages h a b cd))"
  by (simp add: dispatch_all codec_inv_def)

lemma handle_readable_inv [keeps]:
  assumes "ns_inv ns"
  shows "ns_inv (snd (handle_readable h fd rs ns))"
proof (cases "map_of (ns_command ns) fd")
  case (Some ci)
  obtain more cd where r: "read_loop h rs (cl_codec ci) = (more, cd)" by fastforce
  have cd: "codec_inv cd"
    using read_loop_inv [of "cl_codec ci" h rs] client_codec [OF _ Some] assms r by (simp add: ns_inv_def)
  have "ns_inv (ns\<lparr>ns_command := set_client fd (ci\<lparr>cl_codec := cd'\<rparr>) (ns_command ns)\<rparr>)" if "codec_inv cd'" for cd'
    using assms that by (simp add: ns_inv_def set_client_ok)
  then show ?thesis
    using cd dispatch_inv [of cd h] by (simp add: handle_readable_def Some r Let_def keeps split_beta)
next
  case None
  show ?thesis
  proof (cases "map_of (ns_telemetry ns) fd")
    case (Some ci)
    obtain more cd where r: "read_loop h rs (cl_codec ci) = (more, cd)" by fastforce
    have "codec_inv cd"
      using read_loop_inv [of "cl_codec ci" h rs] client_codec [OF _ Some] assms r by (simp add: ns_inv_def)
    then have "ns_inv (ns\<lparr>ns_telemetry := set_client fd (ci\<lparr>cl_codec := cd\<rparr>) (ns_telemetry ns)\<rparr>)"
      using assms by (simp add: ns_inv_def set_client_ok)
    then show ?thesis by (simp add: handle_readable_def None Some r Let_def keeps)
  qed (use assms None in \<open>simp add: handle_readable_def\<close>)
qed

lemma handle_event_inv [keeps]: "ns_inv ns \<Longrightarrow> ns_inv (snd (handle_event h pe ns))"
  by (cases pe) (simp_all add: keeps)

lemma handle_events_inv [keeps]: "ns_inv ns \<Longrightarrow> ns_inv (snd (handle_events h pes ns))"
proof (induction pes arbitrary: ns)
  case (Cons pe pes)
  then show ?case using handle_event_inv [of ns h pe] by (simp add: split_beta Let_def)
qed simp

lemma flush_codec: "cl_codec (snd (flush_send_queue rs ci)) = cl_codec ci"
proof (induction rs arbitrary: ci)
  case (Cons r rs)
  then show ?case by (cases r) (simp_all add: Let_def split_beta reclaim_def)
qed (simp add: reclaim_def)

lemma flush_all_ok: "clients_ok cs \<Longrightarrow> clients_ok (snd (flush_all sends cs))"
proof -
  have "length (snd (flush_all sends cs)) = length cs \<and>
      (\<forall>p \<in> set (snd (flush_all sends cs)). \<exists>q \<in> set cs. cl_codec (snd p) = cl_codec (snd q))"
  proof (induction cs)
    case (Cons p cs)
    then show ?case using flush_codec [of "sends (fst p)" "snd p"] by (cases p) (auto simp: Let_def split_beta)
  qed simp
  then show "clients_ok cs \<Longrightarrow> clients_ok (snd (flush_all sends cs))"
    unfolding clients_ok_def by fastforce
qed

lemma drain_inv: "ns_inv ns \<Longrightarrow> ns_inv (drain_outbound ns)"
  by (auto simp: drain_outbound_def ns_inv_def clients_ok_def enqueue_def)

lemma poll_inv [keeps]: "ns_inv ns \<Longrightarrow> ns_inv (snd (poll h sends pes ns))"
proof -
  assume inv: "ns_inv ns"
  have "ns_inv ((drain_outbound ns)\<lparr>ns_telemetry := snd (flush_all sends (ns_telemetry (drain_outbound ns)))\<rparr>)"
    using drain_inv [OF inv] flush_all_ok by (simp add: ns_inv_def)
  then show ?thesis using inv by (simp add: poll_def Let_def split_beta keeps split: option.split)
qed

lemma ns_step_inv [keeps]: "ns_inv (fst s) \<Longrightarrow> ns_inv (fst (ns_step h c s))"
proof (cases c)
  case (NC_Publish st ss)
  assume "ns_inv (fst s)"
  then show ?thesis by (auto simp: NC_Publish ns_step_def publish_telemetry_def ns_inv_def split: option.split)
next
  case (NC_Poll sends pes)
  assume "ns_inv (fst s)"
  then show ?thesis by (simp add: NC_Poll ns_step_def split_beta Let_def keeps)
qed (auto simp: ns_step_def ns_start_def ns_stop_def ns_inv_def clients_ok_def Let_def split_beta)

interpretation service: transition_system "ns_step h" "(ns_new, [])" "\<lambda>s. ns_inv (fst s)" "\<lambda>_ _. True" for h
  by unfold_locales (simp_all add: keeps, simp add: ns_new_def ns_inv_def clients_ok_def)

section \<open>What a telemetry client is sent\<close>

definition sent_to :: "int \<Rightarrow> net_event list \<Rightarrow> byte list" where
  "sent_to fd tr = concat (map (\<lambda>e. case e of NE_Sent k bs \<Rightarrow> if k = fd then bs else [] | _ \<Rightarrow> []) tr)"

text \<open>The client is registered once under its descriptor.\<close>

definition sole :: "int \<Rightarrow> client \<Rightarrow> (int \<times> client) list \<Rightarrow> bool" where
  "sole fd ci cs \<longleftrightarrow> filter (\<lambda>p. fst p = fd) cs = [(fd, ci)]"

fun mentions :: "int \<Rightarrow> poll_event \<Rightarrow> bool" where
  "mentions fd (PE_Telemetry_Listener socks) = (fd \<in> fst ` set socks)"
| "mentions fd (PE_Command_Listener socks) = (fd \<in> fst ` set socks)"
| "mentions fd (PE_Client k hangup readable rs) = (k = fd)"

fun undisturbed :: "int \<Rightarrow> ns_cmd \<Rightarrow> bool" where
  "undisturbed fd (NC_Publish st ss) = True"
| "undisturbed fd (NC_Poll sends pes) =
     (SR_Error \<notin> set (sends fd) \<and> (case pes of None \<Rightarrow> True | Some pes \<Rightarrow> \<not> list_ex (mentions fd) pes))"
| "undisturbed fd NC_Callbacks = True"
| "undisturbed fd _ = False"

definition telemetry_frame :: "host \<Rightarrow> 16 word \<Rightarrow> aircraft_state \<Rightarrow> sim_state \<Rightarrow> framed_message" where
  "telemetry_frame h sq st ss = \<lparr>fr_type = MT_Telemetry, fr_sequence = sq, fr_payload = serialize_telemetry h st ss\<rparr>"

text \<open>The frames that go out: at each poll the latest state published since the last one.\<close>

fun frames_out :: "host \<Rightarrow> ns_cmd list \<Rightarrow> 16 word \<Rightarrow> framed_message option \<Rightarrow> framed_message list" where
  "frames_out h [] sq p = []"
| "frames_out h (NC_Publish st ss # cs) sq p = frames_out h cs (sq + 1) (Some (telemetry_frame h sq st ss))"
| "frames_out h (NC_Poll sends pes # cs) sq p = (case p of None \<Rightarrow> [] | Some f \<Rightarrow> [f]) @ frames_out h cs sq None"
| "frames_out h (_ # cs) sq p = frames_out h cs sq p"

lemma sole_remove: "k \<noteq> fd \<Longrightarrow> sole fd ci (snd (remove_from k cs)) = sole fd ci cs"
proof (cases "dropWhile (\<lambda>p. fst p \<noteq> k) cs")
  case (Cons p rest)
  assume "k \<noteq> fd"
  moreover have "fst p = k" using Cons hd_dropWhile [of "\<lambda>p. fst p \<noteq> k" cs] by simp
  moreover have "cs = takeWhile (\<lambda>p. fst p \<noteq> k) cs @ p # rest" using Cons by (metis takeWhile_dropWhile_id)
  then have "filter (\<lambda>p. fst p = fd) cs = filter (\<lambda>p. fst p = fd) (takeWhile (\<lambda>p. fst p \<noteq> k) cs @ p # rest)" by simp
  ultimately show ?thesis by (simp add: sole_def remove_from_def Cons)
next
  case Nil
  show ?thesis unfolding remove_from_def Nil by simp
qed

lemma sole_set: "k \<noteq> fd \<Longrightarrow> sole fd ci (set_client k ci' cs) = sole fd ci cs"
proof -
  assume "k \<noteq> fd"
  then have "filter (\<lambda>p. fst p = fd) (set_client k ci' cs) = filter (\<lambda>p. fst p = fd) cs" by (induction cs) auto
  then show ?thesis by (simp add: sole_def)
qed

lemma sole_accept: "fd \<notin> fst ` set socks \<Longrightarrow>
  sole fd ci (ns_telemetry (snd (accept_clients kind socks ns))) = sole fd ci (ns_telemetry ns)"
proof (induction kind socks ns rule: accept_clients.induct)
  case (2 kind k added socks ns)
  then show ?case by (auto simp: Let_def sole_def)
qed simp

lemma sole_remove_client: "k \<noteq> fd \<Longrightarrow>
  sole fd ci (ns_telemetry (snd (remove_client k ns))) = sole fd ci (ns_telemetry ns)"
  using sole_remove [of k fd ci "ns_telemetry ns"] by (auto simp: remove_client_def split: prod.split)

lemma sole_readable: "k \<noteq> fd \<Longrightarrow>
  sole fd ci (ns_telemetry (snd (handle_readable h k rs ns))) = sole fd ci (ns_telemetry ns)"
  by (auto simp: handle_readable_def Let_def sole_remove_client sole_set split: option.split prod.split)

lemma sole_event: "\<not> mentions fd pe \<Longrightarrow>
  sole fd ci (ns_telemetry (snd (handle_event h pe ns))) = sole fd ci (ns_telemetry ns)"
  by (cases pe) (simp_all add: sole_accept sole_remove_client sole_readable)

lemma sole_events: "\<not> list_ex (mentions fd) pes \<Longrightarrow>
  sole fd ci (ns_telemetry (snd (handle_events h pes ns))) = sole fd ci (ns_telemetry ns)"
proof (induction pes arbitrary: ns)
  case (Cons pe pes)
  then show ?case using sole_event [of fd pe ci h ns] by (simp add: split_beta Let_def)
qed simp

text \<open>Handling events changes neither the publishing side nor what was sent.\<close>

definition same_output :: "network_service \<Rightarrow> network_service \<Rightarrow> bool" where
  "same_output ns ns' \<longleftrightarrow> ns_open ns' = ns_open ns \<and> ns_frame ns' = ns_frame ns \<and> ns_pending ns' = ns_pending ns \<and>
     ns_seq ns' = ns_seq ns"

lemma sent_to_append [simp]: "sent_to fd (a @ b) = sent_to fd a @ sent_to fd b" "sent_to fd [] = []"
  by (simp_all add: sent_to_def)

lemma sent_to_none: "(\<And>k bs. NE_Sent k bs \<notin> set ev) \<Longrightarrow> sent_to fd ev = []"
  unfolding sent_to_def by (induction ev) (auto split: net_event.split)

lemma remove_client_output:
  "same_output ns (snd (remove_client k ns))" "sent_to fd (fst (remove_client k ns)) = []"
  by (auto simp: remove_client_def same_output_def sent_to_def split: prod.split)

lemma accept_output:
  "same_output ns (snd (accept_clients kind socks ns)) \<and> sent_to fd (fst (accept_clients kind socks ns)) = []"
  by (induction kind socks ns rule: accept_clients.induct) (auto simp: Let_def same_output_def sent_to_def)

lemma dispatch_output: "sent_to fd (fst (dispatch_messages h a b cd)) = []"
  by (rule sent_to_none) (auto simp: dispatch_all deliver_def split: if_splits option.splits)

lemma readable_output:
  "same_output ns (snd (handle_readable h k rs ns)) \<and> sent_to fd (fst (handle_readable h k rs ns)) = []"
proof -
  have rm: "same_output ns (snd (remove_client k ns'))" if "same_output ns ns'" for ns'
    using that remove_client_output(1) [of ns' k] by (simp add: same_output_def)
  have upd: "same_output ns (ns\<lparr>ns_command := cs\<rparr>)" "same_output ns (ns\<lparr>ns_telemetry := cs\<rparr>)" "same_output ns ns" for cs
    by (simp_all add: same_output_def)
  show ?thesis
    using dispatch_output [of fd h "ns_command_cb ns" "ns_control_cb ns"]
    by (auto simp: handle_readable_def Let_def split_beta rm upd remove_client_output(2) split: option.split)
qed

lemma events_output:
  "same_output ns (snd (handle_events h pes ns)) \<and> sent_to fd (fst (handle_events h pes ns)) = []"
proof (induction pes arbitrary: ns)
  case (Cons pe pes)
  have "same_output ns (snd (handle_event h pe ns)) \<and> sent_to fd (fst (handle_event h pe ns)) = []"
    by (cases pe) (simp_all add: accept_output readable_output remove_client_output, simp add: same_output_def)
  then show ?case using Cons [of "snd (handle_event h pe ns)"] by (simp add: split_beta Let_def same_output_def)
qed (simp add: same_output_def)

lemma sent_to_Cons [simp]: "sent_to fd (NE_Sent k bs # ev) = (if k = fd then bs else []) @ sent_to fd ev"
  by (simp add: sent_to_def)

lemma flush_all_absent:
  "filter (\<lambda>p. fst p = fd) cs = [] \<Longrightarrow>
    filter (\<lambda>p. fst p = fd) (snd (flush_all sends cs)) = [] \<and> sent_to fd (fst (flush_all sends cs)) = []"
proof (induction cs)
  case (Cons p cs)
  then show ?case by (cases p) (simp add: split_beta Let_def split: if_splits)
qed simp

lemma flush_all_sole:
  assumes "sole fd ci cs" and "SR_Error \<notin> set (sends fd)" and "cl_offset ci \<le> length (cl_send_buf ci)"
  shows "\<exists>ci'. sole fd ci' (snd (flush_all sends cs)) \<and> cl_offset ci' \<le> length (cl_send_buf ci') \<and>
    sent_to fd (fst (flush_all sends cs)) @ backlog ci' = backlog ci"
  using assms(1)
proof (induction cs)
  case (Cons p cs)
  obtain k c where p: "p = (k, c)" by fastforce
  show ?case
  proof (cases "k = fd")
    case True
    then have c: "c = ci" and rest: "filter (\<lambda>p. fst p = fd) cs = []" using Cons.prems by (simp_all add: sole_def p)
    have keep: "filter (\<lambda>p. fst p = fd) (snd (flush_all sends cs)) = [] \<and> sent_to fd (fst (flush_all sends cs)) = []"
      using rest by (rule flush_all_absent)
    obtain bs ci' where fl: "flush_send_queue (sends fd) ci = (bs, ci')" by fastforce
    show ?thesis
      using flush_exact [OF fl assms(3,2)] keep
      by (intro exI [of _ ci']) (simp add: p True c fl split_beta Let_def sole_def)
  next
    case False
    then have "sole fd ci cs" using Cons.prems by (simp add: sole_def p)
    from Cons.IH [OF this] False show ?thesis
      by (auto simp: p split_beta Let_def sole_def)
  qed
qed (simp add: sole_def)

text \<open>
  The link between the service and what a client has been sent: bytes sent and backlog are the
  frames drained so far, and the pending frame is the last one published.
\<close>

definition linked :: "host \<Rightarrow> int \<Rightarrow> framed_message option \<Rightarrow> byte list \<Rightarrow> network_service \<Rightarrow> bool" where
  "linked h fd p queued ns \<longleftrightarrow> ns_open ns \<and> (ns_pending ns = (p \<noteq> None)) \<and>
     (\<forall>f. p = Some f \<longrightarrow> ns_frame ns = wire h f) \<and>
     (\<exists>ci. sole fd ci (ns_telemetry ns) \<and> cl_offset ci \<le> length (cl_send_buf ci) \<and> backlog ci = queued)"

lemma telemetry_payload_length: "length (serialize_telemetry h st ss) = 153"
  by (simp add: serialize_telemetry_def Let_def)

lemma publish_frame:
  "publish_telemetry h st ss ns = Some (ns\<lparr>ns_seq := ns_seq ns + 1,
     ns_frame := wire h (telemetry_frame h (ns_seq ns) st ss), ns_pending := True\<rparr>)"
proof -
  have "frame_ok (telemetry_frame h (ns_seq ns) st ss)"
    by (simp add: frame_ok_def telemetry_frame_def telemetry_payload_length kHeaderSize_def kMaxMessageSize_def)
  from encode_wire [OF this] show ?thesis by (simp add: publish_telemetry_def telemetry_frame_def)
qed

lemma poll_linked:
  assumes l: "linked h fd p queued ns" and quiet: "undisturbed fd (NC_Poll sends pes)"
    and res: "poll h sends pes ns = (ev, ns')"
  shows "\<exists>queued'. linked h fd None queued' ns' \<and> ns_seq ns' = ns_seq ns \<and>
    sent_to fd ev @ queued' = queued @ (case p of None \<Rightarrow> [] | Some f \<Rightarrow> wire h f)"
proof -
  obtain ci where ci: "sole fd ci (ns_telemetry ns)" "cl_offset ci \<le> length (cl_send_buf ci)" "backlog ci = queued"
    using l by (auto simp: linked_def)
  define out where "out = (case p of None \<Rightarrow> [] | Some f \<Rightarrow> wire h f)"
  define ns1 where "ns1 = drain_outbound ns"
  have "\<exists>ci1. sole fd ci1 (ns_telemetry ns1) \<and> cl_offset ci1 \<le> length (cl_send_buf ci1) \<and> backlog ci1 = queued @ out"
  proof (cases p)
    case None
    then show ?thesis using l ci by (auto simp: ns1_def drain_outbound_def linked_def out_def)
  next
    case (Some f)
    have "filter (\<lambda>p. fst p = fd) (map (\<lambda>(k, c). (k, enqueue x c)) cs) =
        map (\<lambda>(k, c). (k, enqueue x c)) (filter (\<lambda>p. fst p = fd) cs)" for x cs
      by (induction cs) auto
    then show ?thesis
      using l ci Some enqueue_backlog [OF ci(2), of "wire h f"]
      by (intro exI [of _ "enqueue (wire h f) ci"])
        (simp add: ns1_def drain_outbound_def linked_def sole_def out_def, simp add: enqueue_def)
  qed
  then obtain ci1 where ci1: "sole fd ci1 (ns_telemetry ns1)" "cl_offset ci1 \<le> length (cl_send_buf ci1)"
    "backlog ci1 = queued @ out" by blast
  obtain ev1 ts where fl: "flush_all sends (ns_telemetry ns1) = (ev1, ts)" by fastforce
  obtain ci2 where ci2: "sole fd ci2 ts" "cl_offset ci2 \<le> length (cl_send_buf ci2)" "sent_to fd ev1 @ backlog ci2 = queued @ out"
    using flush_all_sole [OF ci1(1) _ ci1(2), of sends] quiet fl ci1(3) by auto
  define ns2 where "ns2 = ns1\<lparr>ns_telemetry := ts\<rparr>"
  have l2: "linked h fd None (backlog ci2) ns2 \<and> ns_seq ns2 = ns_seq ns"
    using l ci2 by (auto simp: linked_def ns2_def ns1_def drain_outbound_def)
  show ?thesis
  proof (cases pes)
    case None
    then have "ev = ev1" "ns' = ns2" using res l fl by (simp_all add: poll_def ns1_def ns2_def linked_def)
    then show ?thesis using l2 ci2 by (auto simp: out_def)
  next
    case (Some evs)
    obtain ev3 ns3 where he: "handle_events h evs ns2 = (ev3, ns3)" by fastforce
    then have "ev = ev1 @ ev3" "ns' = ns3" using res l fl Some by (simp_all add: poll_def ns1_def ns2_def linked_def)
    moreover have "same_output ns2 ns3" "sent_to fd ev3 = []" using events_output [of ns2 h evs fd] he by simp_all
    moreover have "sole fd ci2 (ns_telemetry ns3)"
      using sole_events [of fd evs ci2 h ns2] quiet Some ci2(1) he by (simp add: ns2_def)
    ultimately show ?thesis using l2 ci2 by (auto simp: out_def linked_def same_output_def)
  qed
qed

lemma run_linked:
  assumes "linked h fd p queued ns" and "list_all (undisturbed fd) cs" and "run (ns_step h) cs (ns, tr) = (ns', tr')"
  shows "\<exists>queued' p'. linked h fd p' queued' ns' \<and>
    sent_to fd tr' @ queued' =
      sent_to fd tr @ queued @ concat (map (wire h) (frames_out h cs (ns_seq ns) p))"
  using assms
proof (induction cs arbitrary: p queued ns tr)
  case Nil
  then show ?case by auto
next
  case (Cons c cs)
  obtain ev ns1 where ex: "ns_exec h c ns = (ev, ns1)" by fastforce
  have "ns_step h c (ns, tr) = (ns1, tr @ ev)" by (simp add: ns_step_def ex)
  then have rest: "list_all (undisturbed fd) cs" "run (ns_step h) cs (ns1, tr @ ev) = (ns', tr')"
    using Cons.prems(2,3) by simp_all
  show ?case
  proof (cases c)
    case (NC_Publish st ss)
    have "linked h fd (Some (telemetry_frame h (ns_seq ns) st ss)) queued ns1 \<and> ns_seq ns1 = ns_seq ns + 1 \<and> ev = []"
      using Cons.prems(1) ex by (auto simp: NC_Publish publish_frame linked_def)
    with Cons.IH [OF _ rest] show ?thesis by (fastforce simp: NC_Publish)
  next
    case (NC_Poll sends pes)
    then have "undisturbed fd (NC_Poll sends pes)" "poll h sends pes ns = (ev, ns1)" using Cons.prems(2) ex by simp_all
    from poll_linked [OF Cons.prems(1) this] obtain q1 where
      q1: "linked h fd None q1 ns1" "ns_seq ns1 = ns_seq ns"
        "sent_to fd ev @ q1 = queued @ (case p of None \<Rightarrow> [] | Some f \<Rightarrow> wire h f)" by blast
    from Cons.IH [OF q1(1) rest] obtain q2 p2 where
      "linked h fd p2 q2 ns'" "sent_to fd tr' @ q2 =
        sent_to fd (tr @ ev) @ q1 @ concat (map (wire h) (frames_out h cs (ns_seq ns1) None))" by blast
    moreover have "sent_to fd (tr @ ev) @ q1 = sent_to fd tr @ queued @ (case p of None \<Rightarrow> [] | Some f \<Rightarrow> wire h f)"
      using q1(3) by simp
    ultimately have "linked h fd p2 q2 ns'" and
      "sent_to fd tr' @ q2 = (sent_to fd tr @ queued @ (case p of None \<Rightarrow> [] | Some f \<Rightarrow> wire h f)) @
        concat (map (wire h) (frames_out h cs (ns_seq ns) None))"
      unfolding q1(2) by (simp_all flip: append_assoc)
    then show ?thesis by (intro exI [of _ q2] exI [of _ p2]) (cases p; simp add: NC_Poll)
  next
    case NC_Callbacks
    have "linked h fd p queued ns1 \<and> ns_seq ns1 = ns_seq ns \<and> ev = []"
      using Cons.prems(1) ex by (auto simp: NC_Callbacks linked_def)
    with Cons.IH [OF _ rest] show ?thesis by (fastforce simp: NC_Callbacks)
  qed (use Cons.prems(2) in simp_all)
qed

lemma frames_out_ok:
  "(\<And>f. p = Some f \<Longrightarrow> frame_ok f) \<Longrightarrow> \<forall>f \<in> set (frames_out h cs sq p). frame_ok f"
proof (induction h cs sq p rule: frames_out.induct)
  case (2 h st ss cs sq p)
  have "frame_ok (telemetry_frame h sq st ss)"
    by (simp add: frame_ok_def telemetry_frame_def telemetry_payload_length kHeaderSize_def kMaxMessageSize_def)
  with 2 show ?case by simp
qed (auto split: option.splits)

lemma remove_from_none: "map_of cs fd = None \<Longrightarrow> remove_from fd cs = (False, cs)"
proof -
  assume "map_of cs fd = None"
  then have "dropWhile (\<lambda>p. fst p \<noteq> fd) cs = []" by (induction cs) (auto split: if_splits)
  then show ?thesis unfolding remove_from_def by (simp only: list.case)
qed

lemma remove_from_some: "map_of cs fd = Some c \<Longrightarrow> fst (remove_from fd cs)"
proof -
  assume "map_of cs fd = Some c"
  then have "dropWhile (\<lambda>p. fst p \<noteq> fd) cs \<noteq> []" by (induction cs) (auto split: if_splits)
  then show ?thesis unfolding remove_from_def by (cases "dropWhile (\<lambda>p. fst p \<noteq> fd) cs") simp_all
qed

section \<open>What a command client's bytes become\<close>

lemma readable_batch:
  assumes "map_of (ns_command ns) fd = Some ci" and "cd_messages (cl_codec ci) = []" and "\<forall>f \<in> set fs. frame_ok f"
    and "cd_recv (cl_codec ci) @ concat chunks @ rest = concat (map (wire h) fs)"
    and "fs \<noteq> [] \<Longrightarrow> length (cd_recv (cl_codec ci)) < length (wire h (hd fs))"
  obtains k ci' where "k \<le> length fs"
    and "handle_readable h fd (map RR_Data chunks) ns =
      (concat (map (deliver h (ns_command_cb ns) (ns_control_cb ns)) (take k fs)),
       ns\<lparr>ns_command := set_client fd ci' (ns_command ns)\<rparr>)"
    and "cd_messages (cl_codec ci') = []" and "cd_recv (cl_codec ci') @ rest = concat (map (wire h) (drop k fs))"
    and "drop k fs \<noteq> [] \<Longrightarrow> length (cd_recv (cl_codec ci')) < length (wire h (hd (drop k fs)))"
proof -
  define cd where "cd = fold (feed h) chunks (cl_codec ci)"
  obtain k where k: "k \<le> length fs" "cd_messages cd = take k fs" "cd_recv cd @ rest = concat (map (wire h) (drop k fs))"
    "k < length fs \<longrightarrow> length (cd_recv cd) < length (wire h (fs ! k))"
    using feed_chunks [OF assms(3-5)] assms(2) by (auto simp: cd_def)
  have "read_loop h (map RR_Data chunks) (cl_codec ci) = (True, cd)"
    using read_chunks [of h chunks "[]"] by (simp add: cd_def)
  then show ?thesis
    using k assms(1)
    by (intro that [of k "ci\<lparr>cl_codec := cd\<lparr>cd_messages := []\<rparr>\<rparr>"])
      (simp_all add: handle_readable_def dispatch_all hd_drop_conv_nth)
qed

lemma batches_in_order:
  assumes "map_of (ns_command ns) fd = Some ci" and "cd_messages (cl_codec ci) = []" and "\<forall>f \<in> set fs. frame_ok f"
    and "cd_recv (cl_codec ci) @ concat (concat batches) = concat (map (wire h) fs)"
    and "fs \<noteq> [] \<Longrightarrow> length (cd_recv (cl_codec ci)) < length (wire h (hd fs))"
  shows "fst (handle_events h (map (\<lambda>chunks. PE_Client fd False True (map RR_Data chunks)) batches) ns) =
    concat (map (deliver h (ns_command_cb ns) (ns_control_cb ns)) fs)"
  using assms
proof (induction batches arbitrary: ns ci fs)
  case Nil
  have "fs = []"
  proof (rule ccontr)
    assume "fs \<noteq> []"
    then have "length (wire h (hd fs)) \<le> length (concat (map (wire h) fs))" by (cases fs) simp_all
    then show False using Nil.prems(4,5) \<open>fs \<noteq> []\<close> by simp
  qed
  then show ?case by simp
next
  case (Cons chunks batches)
  obtain k ci' where k: "k \<le> length fs"
    "handle_readable h fd (map RR_Data chunks) ns =
      (concat (map (deliver h (ns_command_cb ns) (ns_control_cb ns)) (take k fs)),
       ns\<lparr>ns_command := set_client fd ci' (ns_command ns)\<rparr>)"
    "cd_messages (cl_codec ci') = []" "cd_recv (cl_codec ci') @ concat (concat batches) = concat (map (wire h) (drop k fs))"
    "drop k fs \<noteq> [] \<Longrightarrow> length (cd_recv (cl_codec ci')) < length (wire h (hd (drop k fs)))"
    using readable_batch [OF Cons.prems(1-3), of chunks "concat (concat batches)" h] Cons.prems(4,5) by (auto simp: )
  define ns1 where "ns1 = ns\<lparr>ns_command := set_client fd ci' (ns_command ns)\<rparr>"
  have "map_of (ns_command ns1) fd = Some ci'" using set_client_same [OF Cons.prems(1)] by (simp add: ns1_def)
  moreover have "\<forall>f \<in> set (drop k fs). frame_ok f" using Cons.prems(3) by (meson in_set_dropD)
  ultimately have "fst (handle_events h (map (\<lambda>chunks. PE_Client fd False True (map RR_Data chunks)) batches) ns1) =
      concat (map (deliver h (ns_command_cb ns) (ns_control_cb ns)) (drop k fs))"
    using Cons.IH [of ns1 ci' "drop k fs"] k(3-5) by (simp add: ns1_def)
  moreover have "concat (map d (take k fs)) @ concat (map d (drop k fs)) = concat (map d fs)"
    for d :: "framed_message \<Rightarrow> net_event list"
    by (metis append_take_drop_id concat_append map_append)
  ultimately show ?case by (simp add: k(2) split_beta Let_def flip: ns1_def)
qed

section \<open>Properties\<close>

text \<open>
  C16: Telemetry reaches its clients. A client that has just been accepted and is not disturbed (its
  connection neither ends nor fails) is sent, over any sequence of publications and polls and
  however the kernel splits the sends, exactly the frames of the states that were the latest one
  at a poll, in order and numbered; what is not sent yet is its backlog. A receiver that feeds
  the bytes to a codec in any chunks has a prefix of these messages, all of them once nothing is waiting.
\<close>

theorem telemetry_reaches_client:
  assumes "ns_open ns" and "\<not> ns_pending ns" and "sole fd client_new (ns_telemetry ns)"
    and "list_all (undisturbed fd) cs" and "run (ns_step h) cs (ns, []) = (ns', tr)"
    and "concat chunks = sent_to fd tr"
  shows "\<exists>ci k. sole fd ci (ns_telemetry ns') \<and>
    sent_to fd tr @ backlog ci = concat (map (wire h) (frames_out h cs (ns_seq ns) None)) \<and>
    cd_messages (fold (feed h) chunks codec_new) = take k (frames_out h cs (ns_seq ns) None) \<and>
    (backlog ci = [] \<longrightarrow> k = length (frames_out h cs (ns_seq ns) None))"
proof -
  define fs where "fs = frames_out h cs (ns_seq ns) None"
  have "linked h fd None [] ns"
    using assms(1-3) by (auto simp: linked_def client_new_def backlog_def)
  from run_linked [OF this assms(4,5)] obtain ci where
    ci: "sole fd ci (ns_telemetry ns')" "sent_to fd tr @ backlog ci = concat (map (wire h) fs)"
    by (auto simp: linked_def fs_def)
  have ok: "\<forall>f \<in> set fs. frame_ok f" using frames_out_ok [of None h cs] by (simp add: fs_def)
  obtain k where k: "k \<le> length fs" "cd_messages (fold (feed h) chunks codec_new) = take k fs"
    "cd_recv (fold (feed h) chunks codec_new) @ backlog ci = concat (map (wire h) (drop k fs))"
    "k < length fs \<longrightarrow> length (cd_recv (fold (feed h) chunks codec_new)) < length (wire h (fs ! k))"
    using feed_chunks [OF ok, of codec_new chunks "backlog ci" h] ci(2) assms(6)
    by (auto simp: codec_new_def length_wire kHeaderSize_def)
  have "k = length fs" if "backlog ci = []"
  proof (rule ccontr)
    assume "k \<noteq> length fs"
    then have "k < length fs" using k(1) by simp
    moreover from this have "length (wire h (fs ! k)) \<le> length (concat (map (wire h) (drop k fs)))"
      by (simp flip: Cons_nth_drop_Suc)
    ultimately show False using k(3,4) that by simp
  qed
  then show ?thesis using ci k(2) unfolding fs_def by blast
qed

theorem telemetry_reaches_client_witness:
  "let z = \<lparr>v_x = 0, v_y = 0, v_z = 0\<rparr>;
       st = \<lparr>as_position = z, as_velocity_body = z, as_orientation = \<lparr>q_w = 0, q_x = 0, q_y = 0, q_z = 0\<rparr>,
             as_angular_velocity = z, as_thrust_current = 0, as_fuel_mass = 0, as_airspeed = 0, as_alpha = 0,
             as_beta = 0, as_altitude_msl = 0, as_dynamic_pressure = 0\<rparr>;
       ns = ns_new\<lparr>ns_open := True, ns_telemetry := [(4, client_new), (5, client_new)]\<rparr>;
       cs = [NC_Publish st SS_Running, NC_Publish st SS_Paused, NC_Poll (\<lambda>fd. [SR_Sent 100, SR_Full]) None];
       s = run (ns_step Little_Endian) cs (ns, [])
   in \<exists>ci. sole 5 ci (ns_telemetry (fst s)) \<and>
        sent_to 5 (snd s) @ backlog ci = wire Little_Endian (telemetry_frame Little_Endian 1 st SS_Paused)"
  unfolding Let_def
proof -
  let ?z = "\<lparr>v_x = 0, v_y = 0, v_z = 0\<rparr>"
  let ?st = "\<lparr>as_position = ?z, as_velocity_body = ?z, as_orientation = \<lparr>q_w = 0, q_x = 0, q_y = 0, q_z = 0\<rparr>,
             as_angular_velocity = ?z, as_thrust_current = 0, as_fuel_mass = 0, as_airspeed = 0, as_alpha = 0,
             as_beta = 0, as_altitude_msl = 0, as_dynamic_pressure = 0\<rparr>"
  let ?ns = "ns_new\<lparr>ns_open := True, ns_telemetry := [(4, client_new), (5, client_new)]\<rparr>"
  let ?cs = "[NC_Publish ?st SS_Running, NC_Publish ?st SS_Paused, NC_Poll (\<lambda>fd. [SR_Sent 100, SR_Full]) None]"
  obtain ns' tr where s: "run (ns_step Little_Endian) ?cs (?ns, []) = (ns', tr)" by fastforce
  have "concat [sent_to 5 tr] = sent_to 5 tr" by simp
  from telemetry_reaches_client [OF _ _ _ _ s this] show
    "\<exists>ci. sole 5 ci (ns_telemetry (fst (run (ns_step Little_Endian) ?cs (?ns, [])))) \<and>
       sent_to 5 (snd (run (ns_step Little_Endian) ?cs (?ns, []))) @ backlog ci =
         wire Little_Endian (telemetry_frame Little_Endian 1 ?st SS_Paused)"
    unfolding s by (auto simp: ns_new_def sole_def)
qed



text \<open>
  The service stays bounded. In every run from the start there are at most eight clients of each kind,
  and every receive buffer is shorter than the maximal message.
\<close>

theorem service_bounded:
  "length (ns_telemetry (fst (run (ns_step h) cs (ns_new, [])))) \<le> kMaxClients \<and>
   length (ns_command (fst (run (ns_step h) cs (ns_new, [])))) \<le> kMaxClients \<and>
   list_all (\<lambda>(fd, ci). length (cd_recv (cl_codec ci)) < kMaxMessageSize)
     (ns_telemetry (fst (run (ns_step h) cs (ns_new, []))) @ ns_command (fst (run (ns_step h) cs (ns_new, []))))"
  using service.inv_run [of h cs] by (auto simp: ns_inv_def clients_ok_def codec_inv_def list_all_iff)

text \<open>
  A command sent just before the connection closes is lost. When a read finds data and then the end of the
  connection, the complete messages among the data are decoded but never delivered.
\<close>

theorem command_lost_on_close:
  assumes "map_of (ns_command ns) fd = Some client_new" and "map_of (ns_telemetry ns) fd = None" and "frame_ok f"
  shows "fst (handle_readable h fd [RR_Data (wire h f), RR_Closed] ns) = [NE_Closed fd] \<and>
    fst (handle_events h [PE_Client fd False True [RR_Data (wire h f)], PE_Client fd False True [RR_Closed]] ns) =
      deliver h (ns_command_cb ns) (ns_control_cb ns) f @ [NE_Closed fd]"
proof -
  have find: "fst (remove_client fd ns1) = [NE_Closed fd]"
    if "map_of (ns_command ns1) fd = Some c" "map_of (ns_telemetry ns1) fd = None" for ns1 c
    using that by (simp add: remove_client_def remove_from_none remove_from_some split_beta Let_def)
  have upd: "map_of (set_client fd c (ns_command ns)) fd = Some c" for c
    by (rule set_client_same [OF assms(1)])
  obtain k ci' where k: "k \<le> length [f]"
    "handle_readable h fd (map RR_Data [wire h f]) ns =
      (concat (map (deliver h (ns_command_cb ns) (ns_control_cb ns)) (take k [f])),
       ns\<lparr>ns_command := set_client fd ci' (ns_command ns)\<rparr>)"
    "cd_recv (cl_codec ci') @ [] = concat (map (wire h) (drop k [f]))"
    "drop k [f] \<noteq> [] \<Longrightarrow> length (cd_recv (cl_codec ci')) < length (wire h (hd (drop k [f])))"
    by (rule readable_batch [OF assms(1), of "[f]" "[wire h f]" "[]" h])
      (use assms(3) in \<open>simp_all add: client_new_def codec_new_def length_wire kHeaderSize_def\<close>)
  then have "k = 1" by (cases k) auto
  then show ?thesis
    using k(2) find upd upd [THEN set_client_same] assms(1,2) by (simp add: handle_readable_def Let_def split_beta)
qed

theorem command_lost_on_close_witness:
  "let f = \<lparr>fr_type = MT_SimCommand, fr_sequence = 1, fr_payload = [5]\<rparr>;
       ns = ns_new\<lparr>ns_open := True, ns_command := [(7, client_new)], ns_command_cb := True\<rparr>
   in fst (handle_readable Big_Endian 7 [RR_Data (wire Big_Endian f), RR_Closed] ns) = [NE_Closed 7] \<and>
      fst (handle_events Big_Endian [PE_Client 7 False True [RR_Data (wire Big_Endian f)], PE_Client 7 False True [RR_Closed]] ns) =
        [NE_Command SC_Stop, NE_Closed 7]"
  using command_lost_on_close [of "ns_new\<lparr>ns_open := True, ns_command := [(7, client_new)], ns_command_cb := True\<rparr>" 7
    "\<lparr>fr_type = MT_SimCommand, fr_sequence = 1, fr_payload = [5]\<rparr>" Big_Endian]
  by (simp add: ns_new_def deliver_def deserialize_command frame_ok_def kHeaderSize_def kMaxMessageSize_def MT_SimCommand_def)

end
