(* ===== verification/Memory_Pool.thy ===== *)
theory Memory_Pool
  imports Prelude "HOL-Library.Word"
begin

unbundle bit_operations_syntax

text \<open>
  The object pool of \<open>core/memory_pool.h\<close>: a Treiber stack of free slots whose head is one
  64-bit word, a 32-bit slot index below a 32-bit tag that every successful exchange
  increments.

  The free list lives inside the free slots: \<open>mp_next ! i\<close> is what the first four bytes of
  slot \<open>i\<close> hold. While a slot is allocated those bytes belong to the client, who may
  overwrite them (\<open>client_write\<close>). A slot is named by its index; \<open>slot_ptr\<close> and
  \<open>slot_index\<close> are the identity on it. \<open>allocate\<close> and \<open>deallocate\<close> are the passes of the
  retry loops whose exchange succeeds, which is the effect the calls have.

  \<open>pool_inv\<close> ties the linked list to the set of slots that are handed out; it is kept by
  every legal use of the pool (\<open>pool\<close> interprets \<open>transition_system\<close>).
\<close>

record pool =
  mp_next :: "32 word list"
  mp_head :: "64 word"
  mp_available :: "64 word"

definition pack :: "32 word \<Rightarrow> 32 word \<Rightarrow> 64 word" where
  "pack index tag = push_bit 32 (ucast tag) OR ucast index"

definition index_of :: "64 word \<Rightarrow> 32 word" where
  "index_of packed = ucast (packed AND 0xFFFFFFFF)"

definition tag_of :: "64 word \<Rightarrow> 32 word" where
  "tag_of packed = ucast (drop_bit 32 packed)"

definition pool_new :: "nat \<Rightarrow> pool" where
  "pool_new N = \<lparr>mp_next = map (\<lambda>i. of_nat i + 1) [0..<N], mp_head = pack 0 0,
     mp_available = of_nat N\<rparr>"

definition allocate :: "nat \<Rightarrow> pool \<Rightarrow> nat option \<times> pool" where
  "allocate N p =
     (let old_head = mp_head p; idx = index_of old_head
      in if unat idx \<ge> N then (None, p)
         else let tag = tag_of old_head; nxt = mp_next p ! unat idx
              in (Some (unat idx), p\<lparr>mp_head := pack nxt (tag + 1),
                                     mp_available := mp_available p - 1\<rparr>))"

definition deallocate :: "nat \<Rightarrow> pool \<Rightarrow> pool" where
  "deallocate idx p =
     (let old_head = mp_head p
      in p\<lparr>mp_next := (mp_next p)[idx := index_of old_head],
           mp_head := pack (of_nat idx) (tag_of old_head + 1),
           mp_available := mp_available p + 1\<rparr>)"

definition available :: "pool \<Rightarrow> 64 word" where
  "available p = mp_available p"

definition client_write :: "nat \<Rightarrow> 32 word \<Rightarrow> pool \<Rightarrow> pool" where
  "client_write idx v p = p\<lparr>mp_next := (mp_next p)[idx := v]\<rparr>"

text \<open>
  The pool with its clients: \<open>ps_out\<close> lists the slots handed out. Returning or writing a
  slot that is not handed out is undefined behaviour and not a step.
\<close>

record pool_sys =
  ps_pool :: pool
  ps_out :: "nat list"

datatype pool_cmd = PC_Allocate | PC_Deallocate nat | PC_Write nat "32 word"

fun pool_step :: "nat \<Rightarrow> pool_cmd \<Rightarrow> pool_sys \<Rightarrow> pool_sys" where
  "pool_step N PC_Allocate s =
     (case allocate N (ps_pool s) of
        (None, p) \<Rightarrow> s\<lparr>ps_pool := p\<rparr>
      | (Some i, p) \<Rightarrow> s\<lparr>ps_pool := p, ps_out := i # ps_out s\<rparr>)"
| "pool_step N (PC_Deallocate i) s =
     (if i \<in> set (ps_out s)
      then s\<lparr>ps_pool := deallocate i (ps_pool s), ps_out := remove1 i (ps_out s)\<rparr> else s)"
| "pool_step N (PC_Write i v) s =
     (if i \<in> set (ps_out s) then s\<lparr>ps_pool := client_write i v (ps_pool s)\<rparr> else s)"

definition pool_sys_new :: "nat \<Rightarrow> pool_sys" where
  "pool_sys_new N = \<lparr>ps_pool = pool_new N, ps_out = []\<rparr>"

text \<open>\<open>chain nx i fl\<close>: following the links from index \<open>i\<close> visits the slots \<open>fl\<close> and then
  leaves the pool.\<close>

fun chain :: "nat \<Rightarrow> 32 word list \<Rightarrow> 32 word \<Rightarrow> nat list \<Rightarrow> bool" where
  "chain N nx i [] = (N \<le> unat i)"
| "chain N nx i (x # xs) = (unat i = x \<and> x < N \<and> chain N nx (nx ! x) xs)"

definition pool_inv :: "nat \<Rightarrow> pool_sys \<Rightarrow> bool" where
  "pool_inv N s \<longleftrightarrow>
     (\<exists>fl. chain N (mp_next (ps_pool s)) (index_of (mp_head (ps_pool s))) fl \<and>
        distinct (fl @ ps_out s) \<and> set (fl @ ps_out s) = {..<N} \<and>
        mp_available (ps_pool s) = of_nat (length fl) \<and> length (mp_next (ps_pool s)) = N)"

section \<open>Packing\<close>

lemma low_mask: "(0xFFFFFFFF :: 64 word) = mask 32"
  by (simp add: mask_eq_exp_minus_1)

lemma index_of_pack [simp]: "index_of (pack i t) = i"
  unfolding index_of_def pack_def low_mask
  by (rule bit_word_eqI) (simp add: bit_simps)

lemma tag_of_pack [simp]: "tag_of (pack i t) = t"
  by (rule bit_word_eqI) (auto simp: tag_of_def pack_def bit_simps dest: bit_imp_le_length)

lemma pack_inject: "pack i t = pack j u \<longleftrightarrow> i = j \<and> t = u"
  by (metis index_of_pack tag_of_pack)

section \<open>The free list\<close>

lemma chain_write: "chain N nx i fl \<Longrightarrow> j \<notin> set fl \<Longrightarrow> chain N (nx[j := v]) i fl"
  by (induction fl arbitrary: i) auto

lemma unat_of_nat_slot: "N < 2 ^ 32 \<Longrightarrow> i \<le> N \<Longrightarrow> unat (of_nat i :: 32 word) = i"
  by (simp add: unat_of_nat)

lemma chain_new:
  assumes "N < 2 ^ 32" and "i \<le> N"
  shows "chain N (map (\<lambda>i. of_nat i + 1) [0..<N]) (of_nat i) [i..<N]"
  using assms(2)
proof (induction "N - i" arbitrary: i)
  case 0
  then show ?case using assms(1) by (simp add: unat_of_nat_slot)
next
  case (Suc n)
  then have i: "i < N" by simp
  have "chain N (map (\<lambda>i. of_nat i + 1) [0..<N]) (of_nat (Suc i)) [Suc i..<N]"
    using Suc i by (intro Suc.hyps) auto
  moreover have "map (\<lambda>i. of_nat i + 1 :: 32 word) [0..<N] ! i = of_nat (Suc i)"
    using i by (simp add: add.commute)
  ultimately show ?case
    unfolding upt_conv_Cons [OF i] chain.simps
    using i assms(1) unat_of_nat_slot [of N i] by (simp add: add.commute)
qed

lemma pool_inv_new: "N < 2 ^ 32 \<Longrightarrow> pool_inv N (pool_sys_new N)"
  using chain_new [of N 0]
  by (auto simp: pool_inv_def pool_sys_new_def pool_new_def intro!: exI [of _ "[0..<N]"])

lemma allocate_None_iff:
  "pool_inv N s \<Longrightarrow> fst (allocate N (ps_pool s)) = None \<longleftrightarrow> set (ps_out s) = {..<N}"
  unfolding pool_inv_def
proof (elim exE conjE)
  fix fl
  assume c: "chain N (mp_next (ps_pool s)) (index_of (mp_head (ps_pool s))) fl"
    and d: "distinct (fl @ ps_out s)" and u: "set (fl @ ps_out s) = {..<N}"
  from c have "fst (allocate N (ps_pool s)) = None \<longleftrightarrow> fl = []"
    by (cases fl) (auto simp: allocate_def Let_def)
  also have "\<dots> \<longleftrightarrow> set (ps_out s) = {..<N}"
    using d u by (cases fl) auto
  finally show ?thesis .
qed

lemma pool_step_inv [keeps]:
  assumes N: "N < 2 ^ 32" and inv: "pool_inv N s"
  shows "pool_inv N (pool_step N c s)"
proof -
  from inv obtain fl where
    ch: "chain N (mp_next (ps_pool s)) (index_of (mp_head (ps_pool s))) fl"
    and d: "distinct (fl @ ps_out s)" and u: "set (fl @ ps_out s) = {..<N}"
    and av: "mp_available (ps_pool s) = of_nat (length fl)"
    and len: "length (mp_next (ps_pool s)) = N"
    by (auto simp: pool_inv_def)
  show ?thesis
  proof (cases c)
    case PC_Allocate
    show ?thesis
    proof (cases fl)
      case Nil
      with ch inv PC_Allocate show ?thesis by (simp add: allocate_def)
    next
      case (Cons i fl')
      with ch PC_Allocate d u av len show ?thesis
        by (auto simp: pool_inv_def allocate_def Let_def intro!: exI [of _ fl'])
    qed
  next
    case (PC_Deallocate i)
    show ?thesis
    proof (cases "i \<in> set (ps_out s)")
      case True
      with u have i: "i < N" by auto
      from True d have fresh: "i \<notin> set fl" by auto
      have "chain N ((mp_next (ps_pool s))[i := index_of (mp_head (ps_pool s))]) (of_nat i) (i # fl)"
        using i len N chain_write [OF ch fresh] by (simp add: unat_of_nat_slot)
      moreover have "distinct ((i # fl) @ remove1 i (ps_out s))"
        and "set ((i # fl) @ remove1 i (ps_out s)) = {..<N}"
        using d u True by auto
      ultimately show ?thesis
        using PC_Deallocate True av len
        by (auto simp: pool_inv_def deallocate_def Let_def add.commute intro!: exI [of _ "i # fl"]
            simp del: chain.simps)
    qed (use inv PC_Deallocate in simp)
  next
    case (PC_Write i v)
    show ?thesis
    proof (cases "i \<in> set (ps_out s)")
      case True
      with d have "i \<notin> set fl" by auto
      with chain_write [OF ch] d u av len PC_Write True show ?thesis
        by (auto simp: pool_inv_def client_write_def intro!: exI [of _ fl])
    qed (use inv PC_Write in simp)
  qed
qed

text \<open>The default instance \<open>MemoryPool<T, 4096>\<close>.\<close>

interpretation pool4096: transition_system "pool_step 4096" "pool_sys_new 4096" "pool_inv 4096"
  "\<lambda>_ _. True"
  by unfold_locales (simp_all add: pool_inv_new pool_step_inv)

lemma pool_inv_run: "N < 2 ^ 32 \<Longrightarrow> pool_inv N (run (pool_step N) cs (pool_sys_new N))"
proof -
  assume N: "N < 2 ^ 32"
  have "transition_system (pool_step N) (pool_sys_new N) (pool_inv N) (\<lambda>_ _. True)"
    using N by unfold_locales (simp_all add: pool_inv_new pool_step_inv)
  from transition_system.inv_run [OF this] show ?thesis by simp
qed

lemma pool_inv_available:
  assumes "N < 2 ^ 32" and "pool_inv N s"
  shows "unat (available (ps_pool s)) = N - length (ps_out s)"
proof -
  from assms(2) obtain fl where d: "distinct (fl @ ps_out s)" and u: "set (fl @ ps_out s) = {..<N}"
    and av: "mp_available (ps_pool s) = of_nat (length fl)"
    by (auto simp: pool_inv_def)
  have "length (fl @ ps_out s) = N"
    using distinct_card [OF d] u by simp
  with av assms(1) show ?thesis by (simp add: available_def unat_of_nat)
qed

lemma pool_inv_fresh:
  assumes "pool_inv N s" and "allocate N (ps_pool s) = (Some i, p)"
  shows "i < N \<and> i \<notin> set (ps_out s)"
  using assms by (auto simp: pool_inv_def allocate_def Let_def split: if_splits)
    (metis chain.elims(2) list.set_intros(1) disjoint_iff not_le)

section \<open>Properties\<close>



end
