(* ===== verification/Queue_Spec.thy ===== *)
theory Queue_Spec
  imports Prelude
begin

text \<open>
  The contract of the bounded queues of \<open>core/spsc_queue.h\<close> and \<open>core/mpsc_queue.h\<close>, as
  a locale over their two operations. \<open>try_push\<close> returns false and changes nothing when
  the queue holds its usable capacity, \<open>try_pop\<close> returns no item exactly when the queue is
  empty. From these laws the locale derives that no sequence of operations loses,
  duplicates or reorders an item.

  The second half is the arithmetic of indices in a ring of \<open>N\<close> slots, shared by the
  implementations.
\<close>

datatype 'a queue_op = Push 'a | Pop

locale bounded_queue =
  fixes try_push :: "'a \<Rightarrow> 'q \<Rightarrow> bool \<times> 'q"
    and try_pop :: "'q \<Rightarrow> 'a option \<times> 'q"
    and items :: "'q \<Rightarrow> 'a list"
    and invar :: "'q \<Rightarrow> bool"
    and cap :: nat
    and start :: 'q
  assumes invar_start: "invar start"
    and items_start: "items start = []"
    and invar_push: "invar q \<Longrightarrow> invar (snd (try_push x q))"
    and invar_pop: "invar q \<Longrightarrow> invar (snd (try_pop q))"
    and push_room: "invar q \<Longrightarrow> length (items q) < cap \<Longrightarrow>
      fst (try_push x q) \<and> items (snd (try_push x q)) = items q @ [x]"
    and push_full: "invar q \<Longrightarrow> cap \<le> length (items q) \<Longrightarrow> try_push x q = (False, q)"
    and pop_head: "invar q \<Longrightarrow> items q = x # xs \<Longrightarrow>
      fst (try_pop q) = Some x \<and> items (snd (try_pop q)) = xs"
    and pop_empty: "invar q \<Longrightarrow> items q = [] \<Longrightarrow> try_pop q = (None, q)"
begin

text \<open>Running a sequence of operations: the accepted items, the delivered items, the end state.\<close>

fun run_ops :: "'a queue_op list \<Rightarrow> 'q \<Rightarrow> 'a list \<times> 'a list \<times> 'q" where
  "run_ops [] q = ([], [], q)"
| "run_ops (Push x # ops) q =
     (let (ok, q') = try_push x q; (acc, del, e) = run_ops ops q'
      in (if ok then x # acc else acc, del, e))"
| "run_ops (Pop # ops) q =
     (let (r, q') = try_pop q; (acc, del, e) = run_ops ops q'
      in (acc, case r of None \<Rightarrow> del | Some x \<Rightarrow> x # del, e))"

lemma push_items:
  "invar q \<Longrightarrow> items (snd (try_push x q)) = items q @ (if fst (try_push x q) then [x] else [])"
  using push_room [of q x] push_full [of q x] by (cases "length (items q) < cap") auto

lemma pop_items:
  "invar q \<Longrightarrow> items q = (case fst (try_pop q) of None \<Rightarrow> [] | Some x \<Rightarrow> [x]) @ items (snd (try_pop q))"
  using pop_empty [of q] pop_head [of q] by (cases "items q") auto

lemma push_within_cap:
  "invar q \<Longrightarrow> length (items q) \<le> cap \<Longrightarrow> length (items (snd (try_push x q))) \<le> cap"
  using push_room [of q x] push_full [of q x] by (cases "length (items q) < cap") auto

lemma push_then_pop:
  "invar q \<Longrightarrow> items q = [] \<Longrightarrow> 0 < cap \<Longrightarrow> fst (try_pop (snd (try_push x q))) = Some x"
  using push_room [of q x] invar_push [of q x] pop_head [of "snd (try_push x q)" x "[]"] by simp

text \<open>Conservation: what was delivered, followed by what is still queued, is what was queued at
  the start followed by what was accepted.\<close>

lemma run_ops_conserves:
  "invar q \<Longrightarrow> run_ops ops q = (acc, del, e) \<Longrightarrow> invar e \<and> del @ items e = items q @ acc"
proof (induction ops arbitrary: q acc del e)
  case Nil
  then show ?case by simp
next
  case (Cons op ops)
  show ?case
  proof (cases op)
    case (Push x)
    obtain ok q' where p: "try_push x q = (ok, q')" by fastforce
    obtain acc' del' e' where r: "run_ops ops q' = (acc', del', e')" by (metis prod_cases3)
    have "invar q'" and "items q' = items q @ (if ok then [x] else [])"
      using Cons.prems(1) invar_push [of q x] push_items [of q x] by (simp_all add: p)
    with Cons.IH [OF _ r] Cons.prems(2) show ?thesis by (auto simp: Push p r)
  next
    case Pop
    obtain v q' where p: "try_pop q = (v, q')" by fastforce
    obtain acc' del' e' where r: "run_ops ops q' = (acc', del', e')" by (metis prod_cases3)
    have "invar q'" and "items q = (case v of None \<Rightarrow> [] | Some x \<Rightarrow> [x]) @ items q'"
      using Cons.prems(1) invar_pop [of q] pop_items [of q] by (simp_all add: p)
    with Cons.IH [OF _ r] Cons.prems(2) show ?thesis
      by (auto simp: Pop p r split: option.splits)
  qed
qed

lemma run_ops_fifo: "run_ops ops start = (acc, del, e) \<Longrightarrow> del @ items e = acc"
  using run_ops_conserves [OF invar_start] by (simp add: items_start)

end

section \<open>Indices in a ring\<close>

definition ring_count :: "nat \<Rightarrow> nat \<Rightarrow> nat \<Rightarrow> nat" where
  "ring_count N h t = (t + N - h) mod N"

definition ring_items :: "nat \<Rightarrow> 'a list \<Rightarrow> nat \<Rightarrow> nat \<Rightarrow> 'a list" where
  "ring_items N buf h t = map (\<lambda>i. buf ! ((h + i) mod N)) [0..<ring_count N h t]"

lemma mod_less_twice: "a < 2 * N \<Longrightarrow> a mod N = (if a < N then a else a - (N::nat))"
  by (auto simp: mod_if le_mod_geq)

lemma ring_count_eq: "h < N \<Longrightarrow> t < N \<Longrightarrow> ring_count N h t = (if h \<le> t then t - h else t + N - h)"
  by (auto simp: ring_count_def mod_less_twice)

lemma ring_next: "t < N \<Longrightarrow> Suc t mod N = (if Suc t = N then 0 else Suc t)"
  by (auto simp: mod_less_twice)

lemma ring_slot: "h < N \<Longrightarrow> i < (N::nat) \<Longrightarrow> (h + i) mod N = (if h + i < N then h + i else h + i - N)"
  by (rule mod_less_twice) simp

lemma ring_count_less: "0 < N \<Longrightarrow> ring_count N h t < N"
  by (simp add: ring_count_def)

lemma ring_items_empty_iff:
  assumes "h < N" and "t < N"
  shows "ring_items N buf h t = [] \<longleftrightarrow> h = t"
  using assms by (auto simp: ring_items_def ring_count_eq split: if_splits)

lemma length_ring_items: "length (ring_items N buf h t) = ring_count N h t"
  by (simp add: ring_items_def)

lemma ring_full_iff:
  assumes "h < N" and "t < N"
  shows "Suc t mod N = h \<longleftrightarrow> ring_count N h t = N - 1"
  using assms by (auto simp: ring_next ring_count_eq)

lemma ring_items_push:
  assumes "h < N" and "t < N" and "length buf = N" and room: "Suc t mod N \<noteq> h"
  shows "ring_items N (buf[t := x]) h (Suc t mod N) = ring_items N buf h t @ [x]"
proof -
  define n where "n = ring_count N h t"
  have n: "ring_count N h (Suc t mod N) = Suc n" and nN: "Suc n < N"
    using assms by (auto simp: n_def ring_next ring_count_eq split: if_splits)
  have at_t: "(h + n) mod N = t"
    using assms nN by (auto simp: n_def ring_slot ring_count_eq split: if_splits)
  have "(h + i) mod N \<noteq> t" if "i < n" for i
    using assms(1,2) that nN at_t by (auto simp: ring_slot split: if_splits)
  then have "map (\<lambda>i. buf[t := x] ! ((h + i) mod N)) [0..<n] = map (\<lambda>i. buf ! ((h + i) mod N)) [0..<n]"
    by (intro map_cong refl) (metis atLeastLessThan_iff nth_list_update_neq set_upt)+
  then show ?thesis
    using assms at_t by (simp add: ring_items_def n n_def [symmetric])
qed

lemma ring_items_pop:
  assumes "h < N" and "t < N" and "h \<noteq> t"
  shows "ring_items N buf h t = buf ! h # ring_items N buf (Suc h mod N) t"
proof -
  define n where "n = ring_count N (Suc h mod N) t"
  have n: "ring_count N h t = Suc n"
    using assms by (auto simp: n_def ring_next ring_count_eq)
  have "(Suc h mod N + i) mod N = (h + Suc i) mod N" for i
    by (metis add_Suc_shift mod_add_left_eq)
  then have "map (\<lambda>i. buf ! ((h + i) mod N)) (map Suc [0..<n])
      = map (\<lambda>i. buf ! ((Suc h mod N + i) mod N)) [0..<n]"
    by simp
  then show ?thesis
    using assms by (simp add: ring_items_def n n_def [symmetric] upt_conv_Cons map_Suc_upt [symmetric]
        del: upt_Suc)
qed

lemma ring_items_write_outside:
  assumes "h < N" and "t < N" and "length buf = N"
  shows "ring_items N (buf[t := x]) h t = ring_items N buf h t"
proof -
  have "(h + i) mod N \<noteq> t" if "i < ring_count N h t" for i
    using assms that by (auto simp: ring_slot ring_count_eq split: if_splits)
  then show ?thesis
    unfolding ring_items_def by (intro map_cong refl) (metis atLeastLessThan_iff nth_list_update_neq set_upt)+
qed

end
