(* ===== verification/SPSC_Queue.thy ===== *)
theory SPSC_Queue
  imports Queue_Spec "HOL-Library.Word"
begin

unbundle bit_operations_syntax

text \<open>
  The single-producer single-consumer ring of \<open>core/spsc_queue.h\<close>.

  \<open>Capacity\<close> is \<open>2 ^ k\<close> with \<open>k < 64\<close> (the header's static assertions); indices are
  \<open>size_t\<close>, 64-bit words, and move by \<open>(i + 1) & MASK\<close>. The first part treats the two
  operations as atomic and shows that the class implements \<open>bounded_queue\<close> with usable
  capacity \<open>Capacity - 1\<close>.

  The second part is the concurrent behaviour: producer and consumer are two threads
  whose loads, stores and buffer accesses interleave freely (\<open>spsc_step\<close>, over a
  sequentially consistent memory; the acquire and release orders of the code are what
  makes the C++ program behave so for these accesses). \<open>spsc_inv\<close> is kept by every step,
  so in each reachable state the delivered items followed by the queued ones are the
  published ones, and the two threads never touch the same buffer slot at the same time.
\<close>

record 'a spsc =
  sp_head :: "64 word"
  sp_tail :: "64 word"
  sp_buf :: "'a list"

definition spsc_capacity :: "nat \<Rightarrow> 64 word" where
  "spsc_capacity k = 2 ^ k"

definition spsc_mask :: "nat \<Rightarrow> 64 word" where
  "spsc_mask k = spsc_capacity k - 1"

definition spsc_new :: "nat \<Rightarrow> 'a \<Rightarrow> 'a spsc" where
  "spsc_new k d = \<lparr>sp_head = 0, sp_tail = 0, sp_buf = replicate (2 ^ k) d\<rparr>"

definition spsc_try_push :: "nat \<Rightarrow> 'a \<Rightarrow> 'a spsc \<Rightarrow> bool \<times> 'a spsc" where
  "spsc_try_push k item q =
     (let t = sp_tail q; next_t = (t + 1) AND spsc_mask k
      in if next_t = sp_head q then (False, q)
         else (True, q\<lparr>sp_buf := (sp_buf q)[unat t := item], sp_tail := next_t\<rparr>))"

definition spsc_try_pop :: "nat \<Rightarrow> 'a spsc \<Rightarrow> 'a option \<times> 'a spsc" where
  "spsc_try_pop k q =
     (let h = sp_head q
      in if h = sp_tail q then (None, q)
         else (Some (sp_buf q ! unat h), q\<lparr>sp_head := (h + 1) AND spsc_mask k\<rparr>))"

definition spsc_is_empty :: "'a spsc \<Rightarrow> bool" where
  "spsc_is_empty q \<longleftrightarrow> sp_head q = sp_tail q"

definition spsc_size :: "nat \<Rightarrow> 'a spsc \<Rightarrow> 64 word" where
  "spsc_size k q = (sp_tail q - sp_head q + spsc_capacity k) AND spsc_mask k"

text \<open>The interleaved threads: program counters and the values they carry.\<close>

datatype 'a producer_pc = PIdle | PLoaded 'a "64 word" | PRoom 'a "64 word" | PWritten 'a "64 word"
datatype 'a consumer_pc = CIdle | CLoaded "64 word" | CReady "64 word" | CGot "64 word" 'a

record 'a spsc_sys =
  ss_queue :: "'a spsc"
  ss_prod :: "'a producer_pc"
  ss_cons :: "'a consumer_pc"
  ss_published :: "'a list"
  ss_delivered :: "'a list"

definition spsc_sys_new :: "nat \<Rightarrow> 'a \<Rightarrow> 'a spsc_sys" where
  "spsc_sys_new k d = \<lparr>ss_queue = spsc_new k d, ss_prod = PIdle, ss_cons = CIdle,
     ss_published = [], ss_delivered = []\<rparr>"

inductive spsc_step :: "nat \<Rightarrow> 'a spsc_sys \<Rightarrow> 'a spsc_sys \<Rightarrow> bool" for k where
  push_load_tail: "ss_prod s = PIdle \<Longrightarrow>
    spsc_step k s (s\<lparr>ss_prod := PLoaded x (sp_tail (ss_queue s))\<rparr>)"
| push_full: "ss_prod s = PLoaded x t \<Longrightarrow> (t + 1) AND spsc_mask k = sp_head (ss_queue s) \<Longrightarrow>
    spsc_step k s (s\<lparr>ss_prod := PIdle\<rparr>)"
| push_room: "ss_prod s = PLoaded x t \<Longrightarrow> (t + 1) AND spsc_mask k \<noteq> sp_head (ss_queue s) \<Longrightarrow>
    spsc_step k s (s\<lparr>ss_prod := PRoom x t\<rparr>)"
| push_write: "ss_prod s = PRoom x t \<Longrightarrow>
    spsc_step k s (s\<lparr>ss_prod := PWritten x t,
      ss_queue := (ss_queue s)\<lparr>sp_buf := (sp_buf (ss_queue s))[unat t := x]\<rparr>\<rparr>)"
| push_publish: "ss_prod s = PWritten x t \<Longrightarrow>
    spsc_step k s (s\<lparr>ss_prod := PIdle,
      ss_queue := (ss_queue s)\<lparr>sp_tail := (t + 1) AND spsc_mask k\<rparr>,
      ss_published := ss_published s @ [x]\<rparr>)"
| pop_load_head: "ss_cons s = CIdle \<Longrightarrow>
    spsc_step k s (s\<lparr>ss_cons := CLoaded (sp_head (ss_queue s))\<rparr>)"
| pop_empty: "ss_cons s = CLoaded h \<Longrightarrow> h = sp_tail (ss_queue s) \<Longrightarrow>
    spsc_step k s (s\<lparr>ss_cons := CIdle\<rparr>)"
| pop_ready: "ss_cons s = CLoaded h \<Longrightarrow> h \<noteq> sp_tail (ss_queue s) \<Longrightarrow>
    spsc_step k s (s\<lparr>ss_cons := CReady h\<rparr>)"
| pop_read: "ss_cons s = CReady h \<Longrightarrow>
    spsc_step k s (s\<lparr>ss_cons := CGot h (sp_buf (ss_queue s) ! unat h)\<rparr>)"
| pop_publish: "ss_cons s = CGot h x \<Longrightarrow>
    spsc_step k s (s\<lparr>ss_cons := CIdle,
      ss_queue := (ss_queue s)\<lparr>sp_head := (h + 1) AND spsc_mask k\<rparr>,
      ss_delivered := ss_delivered s @ [x]\<rparr>)"

inductive spsc_reach :: "nat \<Rightarrow> 'a \<Rightarrow> 'a spsc_sys \<Rightarrow> bool" for k d where
  start: "spsc_reach k d (spsc_sys_new k d)"
| step: "spsc_reach k d s \<Longrightarrow> spsc_step k s t \<Longrightarrow> spsc_reach k d t"

definition spsc_items :: "nat \<Rightarrow> 'a spsc \<Rightarrow> 'a list" where
  "spsc_items k q = ring_items (2 ^ k) (sp_buf q) (unat (sp_head q)) (unat (sp_tail q))"

definition spsc_wf :: "nat \<Rightarrow> 'a spsc \<Rightarrow> bool" where
  "spsc_wf k q \<longleftrightarrow> length (sp_buf q) = 2 ^ k \<and>
     unat (sp_head q) < 2 ^ k \<and> unat (sp_tail q) < 2 ^ k"

definition spsc_inv :: "nat \<Rightarrow> 'a spsc_sys \<Rightarrow> bool" where
  "spsc_inv k s \<longleftrightarrow>
     (let q = ss_queue s; room = (sp_tail q + 1) AND spsc_mask k \<noteq> sp_head q;
          avail = sp_head q \<noteq> sp_tail q
      in spsc_wf k q \<and>
         ss_published s = ss_delivered s @ spsc_items k q \<and>
         (case ss_prod s of PIdle \<Rightarrow> True | PLoaded x t \<Rightarrow> t = sp_tail q
          | PRoom x t \<Rightarrow> t = sp_tail q \<and> room
          | PWritten x t \<Rightarrow> t = sp_tail q \<and> room \<and> sp_buf q ! unat t = x) \<and>
         (case ss_cons s of CIdle \<Rightarrow> True | CLoaded h \<Rightarrow> h = sp_head q
          | CReady h \<Rightarrow> h = sp_head q \<and> avail
          | CGot h x \<Rightarrow> h = sp_head q \<and> avail \<and> sp_buf q ! unat h = x))"

section \<open>Masked indices\<close>

lemma spsc_mask_eq: "spsc_mask k = mask k"
  by (simp add: spsc_mask_def spsc_capacity_def mask_eq_exp_minus_1)

text \<open>The static assertion of the header: a capacity \<open>2 ^ k\<close> has no bit in common with its
  predecessor.\<close>

lemma spsc_capacity_assertion: "spsc_capacity k AND (spsc_capacity k - 1) = 0"
  by (rule bit_word_eqI)
     (simp add: spsc_capacity_def bit_simps mask_eq_exp_minus_1 [symmetric])

lemma unat_masked: "unat (w AND spsc_mask k) = unat w mod 2 ^ k"
proof -
  have "unat (take_bit k w) = take_bit k (unat w)" by (rule unsigned_take_bit_eq)
  then show ?thesis
    by (simp only: spsc_mask_eq take_bit_eq_mask [symmetric] take_bit_eq_mod [of k "unat w"])
qed

lemma unat_next:
  assumes "k < 64" and "unat t < 2 ^ k"
  shows "unat ((t + 1) AND spsc_mask k) = Suc (unat t) mod 2 ^ k"
proof -
  have "(2::nat) ^ k \<le> 2 ^ 63" using assms(1) by (intro power_increasing) auto
  with assms(2) have "Suc (unat t) < 2 ^ 64" by simp
  then have "unat (t + 1) = Suc (unat t)"
    by (simp add: unat_word_ariths)
  then show ?thesis by (simp add: unat_masked)
qed

lemma room_iff:
  assumes "k < 64" and "unat t < 2 ^ k"
  shows "(t + 1) AND spsc_mask k \<noteq> h \<longleftrightarrow> Suc (unat t) mod 2 ^ k \<noteq> unat h"
  using unat_next [OF assms] by (metis word_unat_eq_iff)

section \<open>The atomic operations implement the contract\<close>

lemma spsc_new_wf: "spsc_wf k (spsc_new k d)"
  by (simp add: spsc_wf_def spsc_new_def)

lemma spsc_items_new: "spsc_items k (spsc_new k d) = []"
  by (simp add: spsc_items_def spsc_new_def ring_items_empty_iff)

lemma spsc_push_items:
  assumes "k < 64" and "spsc_wf k q" and "(sp_tail q + 1) AND spsc_mask k \<noteq> sp_head q"
  shows "spsc_items k (q\<lparr>sp_buf := (sp_buf q)[unat (sp_tail q) := x],
           sp_tail := (sp_tail q + 1) AND spsc_mask k\<rparr>) = spsc_items k q @ [x]"
  using assms by (simp add: spsc_items_def spsc_wf_def unat_next room_iff ring_items_push)

lemma spsc_pop_items:
  assumes "k < 64" and "spsc_wf k q" and "sp_head q \<noteq> sp_tail q"
  shows "spsc_items k q = sp_buf q ! unat (sp_head q) #
           spsc_items k (q\<lparr>sp_head := (sp_head q + 1) AND spsc_mask k\<rparr>)"
  using assms by (simp add: spsc_items_def spsc_wf_def unat_next ring_items_pop word_unat_eq_iff)

lemma spsc_wf_push:
  "k < 64 \<Longrightarrow> spsc_wf k q \<Longrightarrow>
   spsc_wf k (q\<lparr>sp_buf := (sp_buf q)[i := x], sp_tail := (sp_tail q + 1) AND spsc_mask k\<rparr>)"
  by (simp add: spsc_wf_def unat_next)

lemma spsc_wf_pop:
  "k < 64 \<Longrightarrow> spsc_wf k q \<Longrightarrow> spsc_wf k (q\<lparr>sp_head := (sp_head q + 1) AND spsc_mask k\<rparr>)"
  by (simp add: spsc_wf_def unat_next)

lemma spsc_full_iff:
  assumes "k < 64" and "spsc_wf k q"
  shows "(sp_tail q + 1) AND spsc_mask k = sp_head q \<longleftrightarrow> length (spsc_items k q) = 2 ^ k - 1"
  using assms ring_full_iff [of "unat (sp_head q)" "2 ^ k" "unat (sp_tail q)"] room_iff
  by (auto simp: spsc_items_def spsc_wf_def length_ring_items)

lemma spsc_empty_iff: "spsc_wf k q \<Longrightarrow> sp_head q = sp_tail q \<longleftrightarrow> spsc_items k q = []"
  by (simp add: spsc_items_def spsc_wf_def ring_items_empty_iff word_unat_eq_iff)

lemma spsc_length_bound: "spsc_wf k q \<Longrightarrow> length (spsc_items k q) \<le> 2 ^ k - 1"
  using ring_count_less [of "2 ^ k" "unat (sp_head q)" "unat (sp_tail q)"]
  by (simp add: spsc_items_def length_ring_items)

lemma spsc_bounded_queue:
  assumes k: "k < 64"
  shows "bounded_queue (spsc_try_push k) (spsc_try_pop k) (spsc_items k) (spsc_wf k)
           (2 ^ k - 1) (spsc_new k d)"
proof (unfold_locales, goal_cases)
  case (5 q x)
  then have "(sp_tail q + 1) AND spsc_mask k \<noteq> sp_head q" using spsc_full_iff [OF k 5(1)] by simp
  with k 5 show ?case by (simp add: spsc_try_push_def Let_def spsc_push_items)
next
  case (6 q x)
  then have "(sp_tail q + 1) AND spsc_mask k = sp_head q"
    using spsc_full_iff [OF k] spsc_length_bound [of k q] by (metis le_antisym)
  then show ?case by (simp add: spsc_try_push_def)
next
  case (7 q x xs)
  then have ne: "sp_head q \<noteq> sp_tail q" using spsc_empty_iff by force
  with spsc_pop_items [OF k 7(1) ne] 7(2) show ?case by (simp add: spsc_try_pop_def Let_def)
next
  case (8 q)
  then show ?case using spsc_empty_iff [of k q] by (simp add: spsc_try_pop_def Let_def)
qed (auto simp: k spsc_new_wf spsc_items_new spsc_try_push_def spsc_try_pop_def Let_def
      intro: spsc_wf_push spsc_wf_pop)

text \<open>The default instance \<open>SPSCQueue<T, 8192>\<close>.\<close>

interpretation spsc_q: bounded_queue "spsc_try_push 13" "spsc_try_pop 13" "spsc_items 13"
  "spsc_wf 13" "2 ^ 13 - 1" "spsc_new 13 d" for d
  by (rule spsc_bounded_queue) simp

lemma spsc_size_items:
  assumes "k < 64" and "spsc_wf k q"
  shows "unat (spsc_size k q) = length (spsc_items k q)"
proof -
  have le: "(2::nat) ^ k \<le> 2 ^ 63" using assms(1) by (intro power_increasing) auto
  have eq: "sp_tail q - sp_head q + spsc_capacity k =
            of_nat (unat (sp_tail q) + 2 ^ k - unat (sp_head q))"
    using assms(2) by (simp add: spsc_wf_def spsc_capacity_def of_nat_diff)
  have "unat (sp_tail q - sp_head q + spsc_capacity k) =
        unat (sp_tail q) + 2 ^ k - unat (sp_head q)"
    unfolding eq unat_of_nat using assms(2) le by (intro mod_less) (auto simp: spsc_wf_def)
  then show ?thesis
    by (simp add: spsc_size_def unat_masked spsc_items_def length_ring_items ring_count_def)
qed

section \<open>The concurrent queue\<close>

text \<open>Advancing one index cannot make the ring full or empty behind the other thread's back.\<close>

lemma room_after_pop:
  assumes "k < 64" and "spsc_wf k q" and "(sp_tail q + 1) AND spsc_mask k \<noteq> sp_head q"
    and "sp_head q \<noteq> sp_tail q"
  shows "(sp_tail q + 1) AND spsc_mask k \<noteq> (sp_head q + 1) AND spsc_mask k"
proof -
  have "unat (sp_head q) \<noteq> unat (sp_tail q)" using assms(4) by (simp add: word_unat_eq_iff)
  then have "Suc (unat (sp_tail q)) mod 2 ^ k \<noteq> Suc (unat (sp_head q)) mod 2 ^ k"
    using assms(2) by (auto simp: spsc_wf_def ring_next split: if_splits)
  moreover have "unat (sp_head q) < 2 ^ k" and "unat (sp_tail q) < 2 ^ k"
    using assms(2) by (auto simp: spsc_wf_def)
  ultimately show ?thesis
    using unat_next [OF assms(1), of "sp_head q"] unat_next [OF assms(1), of "sp_tail q"] by auto
qed

lemma spsc_items_write:
  "spsc_wf k q \<Longrightarrow>
   spsc_items k (q\<lparr>sp_buf := (sp_buf q)[unat (sp_tail q) := x]\<rparr>) = spsc_items k q"
  by (simp add: spsc_items_def spsc_wf_def ring_items_write_outside)

lemma spsc_items_publish:
  assumes "k < 64" and "spsc_wf k q" and "(sp_tail q + 1) AND spsc_mask k \<noteq> sp_head q"
    and "sp_buf q ! unat (sp_tail q) = x"
  shows "spsc_items k (q\<lparr>sp_tail := (sp_tail q + 1) AND spsc_mask k\<rparr>) = spsc_items k q @ [x]"
  using spsc_push_items [OF assms(1-3), of x] assms(4) by (metis list_update_id spsc.surjective spsc.update_convs(3))

lemma spsc_inv_start: "spsc_inv k (spsc_sys_new k d)"
  by (simp add: spsc_inv_def spsc_sys_new_def spsc_new_wf spsc_items_new Let_def)

lemma spsc_wf_tail:
  "k < 64 \<Longrightarrow> spsc_wf k q \<Longrightarrow> spsc_wf k (q\<lparr>sp_tail := (sp_tail q + 1) AND spsc_mask k\<rparr>)"
  by (simp add: spsc_wf_def unat_next)

lemma spsc_step_inv:
  assumes k: "k < 64" and step: "spsc_step k s t" and inv: "spsc_inv k s"
  shows "spsc_inv k t"
  using step
proof (cases rule: spsc_step.cases)
  case (push_write x t')
  with inv have wf: "spsc_wf k (ss_queue s)" and t: "t' = sp_tail (ss_queue s)"
    and room: "(sp_tail (ss_queue s) + 1) AND spsc_mask k \<noteq> sp_head (ss_queue s)"
    by (auto simp: spsc_inv_def Let_def)
  from wf have "spsc_wf k ((ss_queue s)\<lparr>sp_buf := (sp_buf (ss_queue s))[unat t' := x]\<rparr>)"
    and "unat t' < length (sp_buf (ss_queue s))"
    by (simp_all add: spsc_wf_def t)
  then show ?thesis
    using inv push_write wf t room
    by (auto simp: spsc_inv_def Let_def spsc_items_write word_unat_eq_iff split: consumer_pc.splits)
next
  case (push_publish x t')
  with inv have wf: "spsc_wf k (ss_queue s)" and t: "t' = sp_tail (ss_queue s)"
    and room: "(sp_tail (ss_queue s) + 1) AND spsc_mask k \<noteq> sp_head (ss_queue s)"
    and x: "sp_buf (ss_queue s) ! unat (sp_tail (ss_queue s)) = x"
    by (auto simp: spsc_inv_def Let_def)
  show ?thesis
    using inv push_publish room spsc_wf_tail [OF k wf] spsc_items_publish [OF k wf room x]
    by (auto simp: spsc_inv_def Let_def t split: consumer_pc.splits)
next
  case (pop_publish h x)
  with inv have wf: "spsc_wf k (ss_queue s)" and h: "h = sp_head (ss_queue s)"
    and avail: "sp_head (ss_queue s) \<noteq> sp_tail (ss_queue s)"
    and x: "sp_buf (ss_queue s) ! unat (sp_head (ss_queue s)) = x"
    by (auto simp: spsc_inv_def Let_def)
  show ?thesis
    using inv pop_publish h x spsc_wf_pop [OF k wf] spsc_pop_items [OF k wf avail]
      room_after_pop [OF k wf _ avail]
    by (auto simp: spsc_inv_def Let_def split: producer_pc.splits)
qed (use inv in \<open>auto simp: spsc_inv_def Let_def\<close>)

lemma spsc_reach_inv: "k < 64 \<Longrightarrow> spsc_reach k d s \<Longrightarrow> spsc_inv k s"
proof (rotate_tac, induction rule: spsc_reach.induct)
  case start
  show ?case by (rule spsc_inv_start)
next
  case (step s t)
  then show ?case using spsc_step_inv by blast
qed

section \<open>Properties\<close>

text \<open>
  C24: any sequence of pushes and pops on an \<open>SPSCQueue\<close> of capacity \<open>2 ^ k\<close> delivers the accepted
  items in order: what was popped followed by what is still queued is exactly what the accepted
  pushes inserted, and \<open>size\<close> is the number of queued items, which never exceeds \<open>2 ^ k - 1\<close>.
\<close>

theorem spsc_fifo:
  assumes "k < 64"
    and "bounded_queue.run_ops (spsc_try_push k) (spsc_try_pop k) ops (spsc_new k d) = (acc, del, e)"
  shows "del @ spsc_items k e = acc \<and> unat (spsc_size k e) = length acc - length del \<and>
    length acc - length del \<le> 2 ^ k - 1 \<and> (spsc_is_empty e \<longleftrightarrow> acc = del)"
proof -
  note q = spsc_bounded_queue [OF assms(1)]
  have wf: "spsc_wf k e" and eq: "del @ spsc_items k e = acc"
    using bounded_queue.run_ops_conserves [OF q spsc_new_wf assms(2)] by (simp_all add: spsc_items_new)
  then have "length (spsc_items k e) = length acc - length del" by auto
  moreover have "spsc_is_empty e \<longleftrightarrow> acc = del"
    using eq spsc_empty_iff [OF wf] by (auto simp: spsc_is_empty_def)
  ultimately show ?thesis
    using eq spsc_size_items [OF assms(1) wf] spsc_length_bound [OF wf] by simp
qed

theorem spsc_fifo_witness:
  "[4] @ spsc_items 2 \<lparr>sp_head = 1, sp_tail = 2, sp_buf = [4, 6, 0, 0]\<rparr> = [4, 6::nat]"
proof -
  note steps = bounded_queue.run_ops.simps [OF spsc_bounded_queue [of 2 "0 :: nat"]]
  have "bounded_queue.run_ops (spsc_try_push 2) (spsc_try_pop 2) [Push 4, Pop, Pop, Push (6::nat)]
      (spsc_new 2 0) = ([4, 6], [4], \<lparr>sp_head = 1, sp_tail = 2, sp_buf = [4, 6, 0, 0]\<rparr>)"
    by (simp add: steps spsc_try_push_def spsc_try_pop_def spsc_new_def spsc_mask_def
        spsc_capacity_def replicate_numeral')
  from spsc_fifo [OF _ this] show ?thesis by simp
qed

text \<open>
  with the producer's and the consumer's loads, stores and buffer accesses interleaved in any
  way, in every reachable state the items delivered so far followed by the queued ones are the
  items published so far, in order; and the slot that the producer is about to write is never the
  slot that the consumer is about to read.
\<close>

theorem spsc_concurrent_safe:
  assumes "k < 64" and "spsc_reach k d s"
  shows "ss_published s = ss_delivered s @ spsc_items k (ss_queue s) \<and>
    \<not> (\<exists>x t. ss_prod s = PRoom x t \<and> (ss_cons s = CReady t \<or> (\<exists>y. ss_cons s = CGot t y)))"
proof
  have inv: "spsc_inv k s" using assms by (rule spsc_reach_inv)
  then show "ss_published s = ss_delivered s @ spsc_items k (ss_queue s)"
    by (simp add: spsc_inv_def Let_def)
  show "\<not> (\<exists>x t. ss_prod s = PRoom x t \<and> (ss_cons s = CReady t \<or> (\<exists>y. ss_cons s = CGot t y)))"
    using inv by (auto simp: spsc_inv_def Let_def)
qed

theorem spsc_concurrent_safe_witness:
  "ss_published ((spsc_sys_new 2 0)\<lparr>ss_prod := PRoom (5::nat) 0\<rparr>) = [] \<and>
   \<not> (\<exists>x t. PRoom (5::nat) 0 = PRoom x t \<and> (CIdle = CReady t \<or> (\<exists>y. CIdle = CGot t (y::nat))))"
proof -
  let ?s = "spsc_sys_new 2 (0::nat)"
  have "spsc_step 2 ?s (?s\<lparr>ss_prod := PLoaded 5 (sp_tail (ss_queue ?s))\<rparr>)"
    by (rule push_load_tail) (simp add: spsc_sys_new_def)
  then have 1: "spsc_reach 2 0 (?s\<lparr>ss_prod := PLoaded 5 0\<rparr>)"
    by (intro spsc_reach.step [OF spsc_reach.start]) (simp add: spsc_sys_new_def spsc_new_def)
  have "spsc_step 2 (?s\<lparr>ss_prod := PLoaded 5 0\<rparr>)
      ((?s\<lparr>ss_prod := PLoaded 5 0\<rparr>)\<lparr>ss_prod := PRoom 5 0\<rparr>)"
    by (rule push_room)
      (simp_all add: spsc_sys_new_def spsc_new_def spsc_mask_def spsc_capacity_def)
  then have "spsc_reach 2 0 (?s\<lparr>ss_prod := PRoom 5 0\<rparr>)"
    by (intro spsc_reach.step [OF 1]) simp
  from spsc_concurrent_safe [OF _ this] show ?thesis by (simp add: spsc_sys_new_def)
qed

end
