(* ===== verification/MPSC_Queue.thy ===== *)
theory MPSC_Queue
  imports Queue_Spec
begin

text \<open>
  The multi-producer single-consumer ring of \<open>core/mpsc_queue.h\<close>.

  \<open>Capacity\<close> is \<open>2 ^ k\<close>. Every cell has a sequence number; the two cursors and the sequence
  numbers count pushes since construction and are natural numbers (\<open>size_t\<close>, which \<open>2 ^ 63\<close>
  pushes would be needed to overflow). \<open>pos & MASK\<close> is \<open>pos mod 2 ^ k\<close>. The first part treats the
  operations as atomic; the retry loop of \<open>try_push_impl\<close> is a partial function, of which the
  lemmas show that it returns. It implements \<open>bounded_queue\<close> when \<open>k > 0\<close>.

  In the second part any number of producers (threads named by \<open>'t\<close>) and the consumer interleave
  their loads, exchanges and stores, over sequentially consistent memory. \<open>mpsc_inv\<close> is kept by
  every step. With capacity 1 the protocol breaks: a published cell looks free to the next push.
\<close>

record 'a mpsc =
  mq_seq :: "nat list"
  mq_data :: "'a list"
  mq_wpos :: nat
  mq_rpos :: nat

definition mpsc_new :: "nat \<Rightarrow> 'a \<Rightarrow> 'a mpsc" where
  "mpsc_new k d = \<lparr>mq_seq = [0..<2 ^ k], mq_data = replicate (2 ^ k) d, mq_wpos = 0, mq_rpos = 0\<rparr>"

text \<open>The loop of \<open>try_push_impl\<close>, from a cursor \<open>pos\<close> that was read before. The sign of \<open>diff\<close> is
  the order of \<open>seq\<close> and \<open>pos\<close>.\<close>

partial_function (option) mpsc_push_from ::
  "nat \<Rightarrow> 'a \<Rightarrow> nat \<Rightarrow> 'a mpsc \<Rightarrow> (bool \<times> 'a mpsc) option" where
  "mpsc_push_from k item pos q =
     (let i = pos mod 2 ^ k; s = mq_seq q ! i
      in if s = pos
         then if mq_wpos q = pos
              then Some (True, q\<lparr>mq_wpos := pos + 1, mq_data := (mq_data q)[i := item],
                                 mq_seq := (mq_seq q)[i := pos + 1]\<rparr>)
              else mpsc_push_from k item (mq_wpos q) q
         else if s < pos then Some (False, q)
         else mpsc_push_from k item (mq_wpos q) q)"

definition mpsc_try_push :: "nat \<Rightarrow> 'a \<Rightarrow> 'a mpsc \<Rightarrow> (bool \<times> 'a mpsc) option" where
  "mpsc_try_push k item q = mpsc_push_from k item (mq_wpos q) q"

definition mpsc_try_pop :: "nat \<Rightarrow> 'a mpsc \<Rightarrow> 'a option \<times> 'a mpsc" where
  "mpsc_try_pop k q =
     (let pos = mq_rpos q; i = pos mod 2 ^ k
      in if mq_seq q ! i \<noteq> pos + 1 then (None, q)
         else (Some (mq_data q ! i), q\<lparr>mq_seq := (mq_seq q)[i := pos + 2 ^ k], mq_rpos := pos + 1\<rparr>))"

definition mpsc_is_empty :: "nat \<Rightarrow> 'a mpsc \<Rightarrow> bool" where
  "mpsc_is_empty k q \<longleftrightarrow> mq_seq q ! (mq_rpos q mod 2 ^ k) \<noteq> mq_rpos q + 1"

definition mpsc_size :: "'a mpsc \<Rightarrow> nat" where
  "mpsc_size q = (if mq_wpos q \<ge> mq_rpos q then mq_wpos q - mq_rpos q else 0)"

section \<open>Cells and positions\<close>

text \<open>Two positions less than a lap apart share no cell.\<close>

lemma same_cell:
  fixes p q N :: nat
  assumes "p mod N = q mod N" and "p \<le> q" and "q < p + N"
  shows "p = q"
proof -
  have "N dvd q - p" using assms(1,2) by (metis mod_eq_dvd_iff_nat)
  then show ?thesis using assms(2,3) by (auto dest: dvd_imp_le)
qed

lemma other_cell:
  fixes p q N :: nat
  assumes "p \<noteq> q" and "p < q + N" and "q < p + N"
  shows "p mod N \<noteq> q mod N"
  using assms same_cell [of p N q] same_cell [of q N p] by (metis le_cases)

section \<open>Atomic operations\<close>

text \<open>A cell before the write cursor is published, the others are free for the next lap.\<close>

definition mpsc_wf :: "nat \<Rightarrow> 'a mpsc \<Rightarrow> bool" where
  "mpsc_wf k q \<longleftrightarrow> 0 < k \<and> length (mq_seq q) = 2 ^ k \<and> length (mq_data q) = 2 ^ k \<and>
     mq_rpos q \<le> mq_wpos q \<and> mq_wpos q \<le> mq_rpos q + 2 ^ k \<and>
     (\<forall>p. mq_rpos q \<le> p \<and> p < mq_wpos q \<longrightarrow> mq_seq q ! (p mod 2 ^ k) = p + 1) \<and>
     (\<forall>p. mq_wpos q \<le> p \<and> p < mq_rpos q + 2 ^ k \<longrightarrow> mq_seq q ! (p mod 2 ^ k) = p)"

definition mpsc_items :: "nat \<Rightarrow> 'a mpsc \<Rightarrow> 'a list" where
  "mpsc_items k q = map (\<lambda>p. mq_data q ! (p mod 2 ^ k)) [mq_rpos q..<mq_wpos q]"

lemma mpsc_items_length: "length (mpsc_items k q) = mq_wpos q - mq_rpos q"
  by (simp add: mpsc_items_def)

lemma mpsc_new_wf: "0 < k \<Longrightarrow> mpsc_wf k (mpsc_new k d)"
  by (auto simp: mpsc_wf_def mpsc_new_def)

lemma mpsc_items_new: "mpsc_items k (mpsc_new k d) = []"
  by (simp add: mpsc_items_def mpsc_new_def)

lemma mpsc_push_room:
  fixes q :: "'a mpsc" and x :: 'a and k :: nat
  assumes wf: "mpsc_wf k q" and room: "mq_wpos q < mq_rpos q + 2 ^ k"
  defines "q' \<equiv> q\<lparr>mq_wpos := mq_wpos q + 1, mq_data := (mq_data q)[mq_wpos q mod 2 ^ k := x],
                  mq_seq := (mq_seq q)[mq_wpos q mod 2 ^ k := mq_wpos q + 1]\<rparr>"
  shows "mpsc_try_push k x q = Some (True, q')" and "mpsc_wf k q'"
    and "mpsc_items k q' = mpsc_items k q @ [x]"
proof -
  let ?N = "2 ^ k :: nat" and ?W = "mq_wpos q" and ?R = "mq_rpos q"
  have free: "mq_seq q ! (?W mod ?N) = ?W" and le: "?R \<le> ?W" and len: "length (mq_seq q) = ?N" "length (mq_data q) = ?N"
    using wf room by (simp_all add: mpsc_wf_def)
  show "mpsc_try_push k x q = Some (True, q')"
    unfolding mpsc_try_push_def by (subst mpsc_push_from.simps) (simp add: free q'_def Let_def)
  have other: "p mod ?N \<noteq> ?W mod ?N" if "?R \<le> p" "p < ?R + ?N" "p \<noteq> ?W" for p
    using that room le by (intro other_cell) auto
  have cell: "?W mod ?N < ?N" by simp
  show "mpsc_wf k q'"
    unfolding mpsc_wf_def
  proof (intro conjI allI impI)
    fix p assume p: "mq_rpos q' \<le> p \<and> p < mq_wpos q'"
    show "mq_seq q' ! (p mod ?N) = p + 1"
    proof (cases "p = ?W")
      case False
      then have "p mod ?N \<noteq> ?W mod ?N" using p room by (intro other) (auto simp: q'_def)
      then show ?thesis using wf p False by (auto simp: q'_def mpsc_wf_def)
    qed (simp add: q'_def len)
  next
    fix p assume p: "mq_wpos q' \<le> p \<and> p < mq_rpos q' + ?N"
    then have "p mod ?N \<noteq> ?W mod ?N" using le by (intro other) (auto simp: q'_def)
    then show "mq_seq q' ! (p mod ?N) = p" using wf p by (auto simp: q'_def mpsc_wf_def)
  qed (use wf room in \<open>auto simp: q'_def mpsc_wf_def\<close>)
  have "map (\<lambda>p. (mq_data q)[?W mod ?N := x] ! (p mod ?N)) [?R..<?W] =
        map (\<lambda>p. mq_data q ! (p mod ?N)) [?R..<?W]"
    using room other by (intro map_cong refl) (metis (no_types, lifting) atLeastLessThan_iff less_trans nat_neq_iff nth_list_update_neq set_upt)
  then show "mpsc_items k q' = mpsc_items k q @ [x]"
    using le len cell by (simp add: mpsc_items_def q'_def)
qed

lemma mpsc_push_full:
  assumes wf: "mpsc_wf k q" and full: "mq_wpos q = mq_rpos q + 2 ^ k"
  shows "mpsc_try_push k x q = Some (False, q)"
proof -
  have k: "0 < k" using wf by (simp add: mpsc_wf_def)
  have "mq_seq q ! (mq_wpos q mod 2 ^ k) = mq_rpos q + 1"
    using wf full by (simp add: mpsc_wf_def)
  moreover have "(1::nat) < 2 ^ k" by (rule one_less_power) (use k in simp_all)
  ultimately show ?thesis
    unfolding mpsc_try_push_def by (subst mpsc_push_from.simps) (simp add: full Let_def)
qed

lemma mpsc_pop_some:
  assumes wf: "mpsc_wf k q" and ne: "mq_rpos q < mq_wpos q"
  defines "q' \<equiv> q\<lparr>mq_seq := (mq_seq q)[mq_rpos q mod 2 ^ k := mq_rpos q + 2 ^ k], mq_rpos := mq_rpos q + 1\<rparr>"
  shows "mpsc_try_pop k q = (Some (mq_data q ! (mq_rpos q mod 2 ^ k)), q')" and "mpsc_wf k q'"
    and "mpsc_items k q = mq_data q ! (mq_rpos q mod 2 ^ k) # mpsc_items k q'"
proof -
  let ?N = "2 ^ k :: nat" and ?W = "mq_wpos q" and ?R = "mq_rpos q"
  have pub: "mq_seq q ! (?R mod ?N) = ?R + 1" using wf ne by (simp add: mpsc_wf_def)
  then show "mpsc_try_pop k q = (Some (mq_data q ! (mq_rpos q mod 2 ^ k)), q')"
    by (simp add: mpsc_try_pop_def q'_def Let_def)
  have len: "length (mq_seq q) = ?N" "?W \<le> ?R + ?N" using wf by (simp_all add: mpsc_wf_def)
  have other: "p mod ?N \<noteq> ?R mod ?N" if "?R < p" "p < ?R + ?N" for p
    using that by (intro other_cell) auto
  show "mpsc_wf k q'"
    unfolding mpsc_wf_def
  proof (intro conjI allI impI)
    fix p assume p: "mq_rpos q' \<le> p \<and> p < mq_wpos q'"
    then have "p mod ?N \<noteq> ?R mod ?N" using len by (intro other) (auto simp: q'_def)
    then show "mq_seq q' ! (p mod ?N) = p + 1" using wf p by (auto simp: q'_def mpsc_wf_def)
  next
    fix p assume p: "mq_wpos q' \<le> p \<and> p < mq_rpos q' + ?N"
    show "mq_seq q' ! (p mod ?N) = p"
    proof (cases "p = ?R + ?N")
      case False
      then have "p mod ?N \<noteq> ?R mod ?N" using p ne by (intro other) (auto simp: q'_def)
      then show ?thesis using wf p False by (auto simp: q'_def mpsc_wf_def)
    qed (simp add: q'_def len)
  qed (use wf ne in \<open>auto simp: q'_def mpsc_wf_def\<close>)
  show "mpsc_items k q = mq_data q ! (mq_rpos q mod 2 ^ k) # mpsc_items k q'"
    using ne by (simp add: mpsc_items_def q'_def upt_conv_Cons)
qed

lemma mpsc_pop_none:
  assumes wf: "mpsc_wf k q" and e: "mq_rpos q = mq_wpos q"
  shows "mpsc_try_pop k q = (None, q)" and "mpsc_is_empty k q"
proof -
  have "mq_seq q ! (mq_rpos q mod 2 ^ k) = mq_rpos q" using wf e by (simp add: mpsc_wf_def)
  then show "mpsc_try_pop k q = (None, q)" and "mpsc_is_empty k q"
    by (simp_all add: mpsc_try_pop_def mpsc_is_empty_def Let_def)
qed

lemma mpsc_try_push_returns: "mpsc_wf k q \<Longrightarrow> \<exists>r. mpsc_try_push k x q = Some r"
  using mpsc_push_room(1) [of k q x] mpsc_push_full [of k q x]
  by (metis le_neq_implies_less mpsc_wf_def)

lemma mpsc_bounded_queue:
  assumes k: "0 < k"
  shows "bounded_queue (\<lambda>x q. the (mpsc_try_push k x q)) (mpsc_try_pop k) (mpsc_items k) (mpsc_wf k)
           (2 ^ k) (mpsc_new k d)"
proof (unfold_locales, goal_cases)
  case (3 q x)
  then show ?case using mpsc_push_room [of k q x] mpsc_push_full [of k q x]
    by (cases "mq_wpos q < mq_rpos q + 2 ^ k") (auto simp: mpsc_wf_def)
next
  case (4 q)
  then show ?case using mpsc_pop_some [of k q] mpsc_pop_none [of k q]
    by (cases "mq_rpos q < mq_wpos q") (auto simp: mpsc_wf_def)
next
  case (5 q x)
  then have "mq_wpos q < mq_rpos q + 2 ^ k" by (auto simp: mpsc_items_length)
  then show ?case using mpsc_push_room [OF 5(1), of x] by simp
next
  case (6 q x)
  then have "mq_wpos q = mq_rpos q + 2 ^ k" by (auto simp: mpsc_items_length mpsc_wf_def)
  then show ?case using mpsc_push_full [OF 6(1), of x] by simp
next
  case (7 q x xs)
  then have "0 < length (mpsc_items k q)" by simp
  then have "mq_rpos q < mq_wpos q" by (simp add: mpsc_items_length)
  then show ?case using mpsc_pop_some [OF 7(1)] 7(2) by simp
next
  case (8 q)
  then have "mq_rpos q = mq_wpos q" by (auto simp: mpsc_items_def mpsc_wf_def)
  then show ?case using mpsc_pop_none [OF 8(1)] by simp
qed (simp_all add: k mpsc_new_wf mpsc_items_new)

text \<open>The default instance \<open>MPSCQueue<T, 8192>\<close>.\<close>

interpretation mpsc_q: bounded_queue "\<lambda>x q. the (mpsc_try_push 13 x q)" "mpsc_try_pop 13"
  "mpsc_items 13" "mpsc_wf 13" "2 ^ 13" "mpsc_new 13 d" for d
  by (rule mpsc_bounded_queue) simp

text \<open>With one cell the second push overwrites the first item, and the first is never delivered.\<close>

lemma mpsc_capacity_one:
  "mpsc_try_push 0 x (mpsc_new 0 d) = Some (True, \<lparr>mq_seq = [1], mq_data = [x], mq_wpos = 1, mq_rpos = 0\<rparr>)"
  "mpsc_try_push 0 y \<lparr>mq_seq = [1], mq_data = [x], mq_wpos = 1, mq_rpos = 0\<rparr> =
     Some (True, \<lparr>mq_seq = [2], mq_data = [y], mq_wpos = 2, mq_rpos = 0\<rparr>)"
  "mpsc_try_pop 0 \<lparr>mq_seq = [2], mq_data = [y], mq_wpos = 2, mq_rpos = 0\<rparr> =
     (None, \<lparr>mq_seq = [2], mq_data = [y], mq_wpos = 2, mq_rpos = 0\<rparr>)"
  unfolding mpsc_try_push_def
  by (subst mpsc_push_from.simps, simp add: mpsc_new_def Let_def)+ (simp add: mpsc_try_pop_def)

section \<open>The concurrent queue\<close>

text \<open>What a producer and the consumer are about to do, with the values they carry.\<close>

datatype 'a mpsc_prod =
    MIdle
  | MLoaded 'a nat
  | MFree 'a nat
  | MClaimed 'a nat
  | MWritten 'a nat

datatype 'a mpsc_cons = KIdle | KReady | KGot 'a | KReleased 'a

record ('t, 'a) mpsc_sys =
  ms_queue :: "'a mpsc"
  ms_prod :: "'t \<Rightarrow> 'a mpsc_prod"
  ms_cons :: "'a mpsc_cons"
  ms_claimed :: "'a list"
  ms_delivered :: "'a list"

definition mpsc_sys_new :: "nat \<Rightarrow> 'a \<Rightarrow> ('t, 'a) mpsc_sys" where
  "mpsc_sys_new k d = \<lparr>ms_queue = mpsc_new k d, ms_prod = (\<lambda>t. MIdle), ms_cons = KIdle,
     ms_claimed = [], ms_delivered = []\<rparr>"

text \<open>
  \<open>m_claim\<close> is the successful exchange on the write cursor and fixes the item's place in the queue;
  \<open>m_lost\<close> is a failed one, which on \<open>compare_exchange_weak\<close> may also be spurious.
\<close>

inductive mpsc_step :: "nat \<Rightarrow> ('t, 'a) mpsc_sys \<Rightarrow> ('t, 'a) mpsc_sys \<Rightarrow> bool" for k where
  m_load: "ms_prod s t = MIdle \<Longrightarrow>
    mpsc_step k s (s\<lparr>ms_prod := (ms_prod s)(t := MLoaded x (mq_wpos (ms_queue s)))\<rparr>)"
| m_free: "ms_prod s t = MLoaded x p \<Longrightarrow> mq_seq (ms_queue s) ! (p mod 2 ^ k) = p \<Longrightarrow>
    mpsc_step k s (s\<lparr>ms_prod := (ms_prod s)(t := MFree x p)\<rparr>)"
| m_full: "ms_prod s t = MLoaded x p \<Longrightarrow> mq_seq (ms_queue s) ! (p mod 2 ^ k) < p \<Longrightarrow>
    mpsc_step k s (s\<lparr>ms_prod := (ms_prod s)(t := MIdle)\<rparr>)"
| m_retry: "ms_prod s t = MLoaded x p \<Longrightarrow> mq_seq (ms_queue s) ! (p mod 2 ^ k) > p \<Longrightarrow>
    mpsc_step k s (s\<lparr>ms_prod := (ms_prod s)(t := MLoaded x (mq_wpos (ms_queue s)))\<rparr>)"
| m_claim: "ms_prod s t = MFree x p \<Longrightarrow> mq_wpos (ms_queue s) = p \<Longrightarrow>
    mpsc_step k s (s\<lparr>ms_prod := (ms_prod s)(t := MClaimed x p),
      ms_queue := (ms_queue s)\<lparr>mq_wpos := p + 1\<rparr>, ms_claimed := ms_claimed s @ [x]\<rparr>)"
| m_lost: "ms_prod s t = MFree x p \<Longrightarrow>
    mpsc_step k s (s\<lparr>ms_prod := (ms_prod s)(t := MLoaded x (mq_wpos (ms_queue s)))\<rparr>)"
| m_write: "ms_prod s t = MClaimed x p \<Longrightarrow>
    mpsc_step k s (s\<lparr>ms_prod := (ms_prod s)(t := MWritten x p),
      ms_queue := (ms_queue s)\<lparr>mq_data := (mq_data (ms_queue s))[p mod 2 ^ k := x]\<rparr>\<rparr>)"
| m_publish: "ms_prod s t = MWritten x p \<Longrightarrow>
    mpsc_step k s (s\<lparr>ms_prod := (ms_prod s)(t := MIdle),
      ms_queue := (ms_queue s)\<lparr>mq_seq := (mq_seq (ms_queue s))[p mod 2 ^ k := p + 1]\<rparr>\<rparr>)"
| k_look: "ms_cons s = KIdle \<Longrightarrow> r = mq_rpos (ms_queue s) \<Longrightarrow> mq_seq (ms_queue s) ! (r mod 2 ^ k) = r + 1 \<Longrightarrow>
    mpsc_step k s (s\<lparr>ms_cons := KReady\<rparr>)"
| k_read: "ms_cons s = KReady \<Longrightarrow> r = mq_rpos (ms_queue s) \<Longrightarrow>
    mpsc_step k s (s\<lparr>ms_cons := KGot (mq_data (ms_queue s) ! (r mod 2 ^ k))\<rparr>)"
| k_release: "ms_cons s = KGot x \<Longrightarrow> r = mq_rpos (ms_queue s) \<Longrightarrow>
    mpsc_step k s (s\<lparr>ms_cons := KReleased x,
      ms_queue := (ms_queue s)\<lparr>mq_seq := (mq_seq (ms_queue s))[r mod 2 ^ k := r + 2 ^ k]\<rparr>\<rparr>)"
| k_advance: "ms_cons s = KReleased x \<Longrightarrow>
    mpsc_step k s (s\<lparr>ms_cons := KIdle,
      ms_queue := (ms_queue s)\<lparr>mq_rpos := mq_rpos (ms_queue s) + 1\<rparr>, ms_delivered := ms_delivered s @ [x]\<rparr>)"

inductive mpsc_reach :: "nat \<Rightarrow> 'a \<Rightarrow> ('t, 'a) mpsc_sys \<Rightarrow> bool" for k d where
  start: "mpsc_reach k d (mpsc_sys_new k d)"
| step: "mpsc_reach k d s \<Longrightarrow> mpsc_step k s s' \<Longrightarrow> mpsc_reach k d s'"

text \<open>The first position that is not released: past the read cursor between the consumer's two
  stores.\<close>

definition ms_low :: "('t, 'a) mpsc_sys \<Rightarrow> nat" where
  "ms_low s = mq_rpos (ms_queue s) + (case ms_cons s of KReleased x \<Rightarrow> 1 | _ \<Rightarrow> 0)"

fun owned :: "'a mpsc_prod \<Rightarrow> nat option" where
  "owned (MClaimed x p) = Some p"
| "owned (MWritten x p) = Some p"
| "owned _ = None"

text \<open>\<open>N\<close> cells, released up to \<open>R\<close>, claimed up to \<open>W\<close>: a claimed cell is published with its
  item or still to be published; the cells behind are free.\<close>

definition cells_ok :: "nat \<Rightarrow> nat \<Rightarrow> 'a list \<Rightarrow> nat list \<Rightarrow> 'a list \<Rightarrow> bool" where
  "cells_ok N R lg sq dt \<longleftrightarrow> (\<forall>p. R \<le> p \<and> p < R + N \<longrightarrow>
     sq ! (p mod N) = p \<or> (p < length lg \<and> sq ! (p mod N) = p + 1 \<and> dt ! (p mod N) = lg ! p))"

fun prod_ok :: "nat \<Rightarrow> nat \<Rightarrow> 'a list \<Rightarrow> nat list \<Rightarrow> 'a list \<Rightarrow> 'a mpsc_prod \<Rightarrow> bool" where
  "prod_ok N R lg sq dt MIdle \<longleftrightarrow> True"
| "prod_ok N R lg sq dt (MLoaded x p) \<longleftrightarrow> p \<le> length lg"
| "prod_ok N R lg sq dt (MFree x p) \<longleftrightarrow> p \<le> length lg \<and> p < R + N"
| "prod_ok N R lg sq dt (MClaimed x p) \<longleftrightarrow>
     R \<le> p \<and> p < length lg \<and> lg ! p = x \<and> sq ! (p mod N) = p"
| "prod_ok N R lg sq dt (MWritten x p) \<longleftrightarrow>
     R \<le> p \<and> p < length lg \<and> lg ! p = x \<and> sq ! (p mod N) = p \<and> dt ! (p mod N) = x"

fun cons_ok :: "nat \<Rightarrow> nat \<Rightarrow> 'a list \<Rightarrow> nat list \<Rightarrow> 'a mpsc_cons \<Rightarrow> bool" where
  "cons_ok N r lg sq KIdle \<longleftrightarrow> True"
| "cons_ok N r lg sq KReady \<longleftrightarrow> r < length lg \<and> sq ! (r mod N) = r + 1"
| "cons_ok N r lg sq (KGot x) \<longleftrightarrow> r < length lg \<and> sq ! (r mod N) = r + 1 \<and> x = lg ! r"
| "cons_ok N r lg sq (KReleased x) \<longleftrightarrow> r < length lg \<and> x = lg ! r"

definition mpsc_inv :: "nat \<Rightarrow> ('t, 'a) mpsc_sys \<Rightarrow> bool" where
  "mpsc_inv k s \<longleftrightarrow>
     (let q = ms_queue s; R = ms_low s; lg = ms_claimed s; N = 2 ^ k
      in length (mq_seq q) = N \<and> length (mq_data q) = N \<and>
         mq_wpos q = length lg \<and> R \<le> length lg \<and> length lg \<le> R + N \<and>
         ms_delivered s = take (mq_rpos q) lg \<and>
         cells_ok N R lg (mq_seq q) (mq_data q) \<and>
         (\<forall>t. prod_ok N R lg (mq_seq q) (mq_data q) (ms_prod s t)) \<and>
         (\<forall>t t' p. owned (ms_prod s t) = Some p \<and> owned (ms_prod s t') = Some p \<longrightarrow> t = t') \<and>
         cons_ok N (mq_rpos q) lg (mq_seq q) (ms_cons s))"


lemma cells_okD:
  "cells_ok N R lg sq dt \<Longrightarrow> R \<le> p \<Longrightarrow> p < R + N \<Longrightarrow>
     sq ! (p mod N) = p \<or> (p < length lg \<and> sq ! (p mod N) = p + 1 \<and> dt ! (p mod N) = lg ! p)"
  unfolding cells_ok_def by blast

lemma cells_ok_claim: "cells_ok N R lg sq dt \<Longrightarrow> cells_ok N R (lg @ [x]) sq dt"
  unfolding cells_ok_def by (auto simp: nth_append)

lemma prod_ok_claim: "prod_ok N R lg sq dt pc \<Longrightarrow> prod_ok N R (lg @ [x]) sq dt pc"
  by (cases pc) (auto simp: nth_append)

lemma cons_ok_claim: "cons_ok N r lg sq pc \<Longrightarrow> cons_ok N r (lg @ [x]) sq pc"
  by (cases pc) (auto simp: nth_append)

text \<open>Writing the item of a claimed, unpublished cell.\<close>

lemma cells_ok_write:
  assumes "cells_ok N R lg sq dt" and "R \<le> p" and "p < R + N" and "sq ! (p mod N) = p"
  shows "cells_ok N R lg sq (dt[p mod N := x])"
  unfolding cells_ok_def
proof (intro allI impI)
  fix q assume q: "R \<le> q \<and> q < R + N"
  show "sq ! (q mod N) = q \<or> (q < length lg \<and> sq ! (q mod N) = q + 1 \<and> dt[p mod N := x] ! (q mod N) = lg ! q)"
  proof (cases "q = p")
    case False
    then have "q mod N \<noteq> p mod N" using q assms(2,3) by (intro other_cell) auto
    then show ?thesis using cells_okD [OF assms(1)] q by simp
  qed (use assms(4) in simp)
qed

lemma prod_ok_write:
  assumes "prod_ok N R lg sq dt pc" and "owned pc \<noteq> Some p" and "R \<le> p" and "p < R + N" and "length lg \<le> R + N"
  shows "prod_ok N R lg sq (dt[p mod N := x]) pc"
proof (cases pc)
  case (MWritten y q)
  then have "q mod N \<noteq> p mod N" using assms by (intro other_cell) auto
  then show ?thesis using assms(1) MWritten by simp
qed (use assms(1) in auto)

text \<open>Publishing a cell.\<close>

lemma cells_ok_publish:
  assumes "cells_ok N R lg sq dt" and "R \<le> p" and "p < R + N" and "p < length lg" and "dt ! (p mod N) = lg ! p"
    and "length sq = N"
  shows "cells_ok N R lg (sq[p mod N := p + 1]) dt"
  unfolding cells_ok_def
proof (intro allI impI)
  fix q assume q: "R \<le> q \<and> q < R + N"
  show "sq[p mod N := p + 1] ! (q mod N) = q \<or>
    (q < length lg \<and> sq[p mod N := p + 1] ! (q mod N) = q + 1 \<and> dt ! (q mod N) = lg ! q)"
  proof (cases "q = p")
    case False
    then have "q mod N \<noteq> p mod N" using q assms(2,3) by (intro other_cell) auto
    then show ?thesis using cells_okD [OF assms(1)] q by simp
  next
    case True
    have "0 < N" using assms(2,3) by simp
    then show ?thesis using True assms by simp
  qed
qed

lemma prod_ok_publish:
  assumes "prod_ok N R lg sq dt pc" and "owned pc \<noteq> Some p" and "R \<le> p" and "p < R + N" and "length lg \<le> R + N"
  shows "prod_ok N R lg (sq[p mod N := n]) dt pc"
proof (cases "owned pc")
  case None
  then show ?thesis using assms(1) by (cases pc) auto
next
  case (Some q)
  then have "R \<le> q" "q < R + N" using assms by (cases pc; simp)+
  then have "q mod N \<noteq> p mod N" using assms Some by (intro other_cell) auto
  then show ?thesis using assms(1) Some by (cases pc) auto
qed

lemma cons_ok_publish:
  assumes "cons_ok N r lg sq pc" and "sq ! (p mod N) = p" and "p < r + N" and "r \<le> p"
  shows "cons_ok N r lg (sq[p mod N := n]) pc"
proof (cases "r = p")
  case False
  then have "r mod N \<noteq> p mod N" using assms by (intro other_cell) auto
  then show ?thesis using assms(1) by (cases pc) auto
qed (use assms in \<open>cases pc; auto\<close>)

text \<open>Releasing the cell at the read cursor.\<close>

lemma cells_ok_release:
  assumes "cells_ok N R lg sq dt" and "0 < N" and "length sq = N"
  shows "cells_ok N (R + 1) lg (sq[R mod N := R + N]) dt"
  unfolding cells_ok_def
proof (intro allI impI)
  fix q assume q: "R + 1 \<le> q \<and> q < R + 1 + N"
  show "sq[R mod N := R + N] ! (q mod N) = q \<or>
    (q < length lg \<and> sq[R mod N := R + N] ! (q mod N) = q + 1 \<and> dt ! (q mod N) = lg ! q)"
  proof (cases "q = R + N")
    case False
    then have "q mod N \<noteq> R mod N" using q by (intro other_cell) auto
    then show ?thesis using cells_okD [OF assms(1), of q] q False by simp
  qed (use assms in simp)
qed

lemma prod_ok_release:
  assumes "prod_ok N R lg sq dt pc" and "sq ! (R mod N) = R + 1" and "length lg \<le> R + N"
  shows "prod_ok N (R + 1) lg (sq[R mod N := R + N]) dt pc"
proof (cases "owned pc")
  case None
  then show ?thesis using assms(1) by (cases pc) auto
next
  case (Some q)
  then have q: "R \<le> q" "q < R + N" "sq ! (q mod N) = q" using assms by (cases pc; simp)+
  then have "q \<noteq> R" using assms(2) by auto
  then have "q mod N \<noteq> R mod N" using q by (intro other_cell) auto
  then show ?thesis using assms(1) Some \<open>q \<noteq> R\<close> by (cases pc) auto
qed

text \<open>A position that was read from the write cursor and whose cell is free is within the lap.\<close>

lemma free_in_lap:
  assumes "cells_ok N R lg sq dt" and "1 < N" and "p \<le> length lg" and "length lg \<le> R + N"
    and "sq ! (p mod N) = p"
  shows "p < R + N"
proof (rule ccontr)
  assume "\<not> p < R + N"
  then have p: "p = R + N" using assms(3,4) by simp
  then have "sq ! (p mod N) = R \<or> sq ! (p mod N) = R + 1"
    using cells_okD [OF assms(1), of R] assms(2) by auto
  with p assms(2,5) show False by auto
qed

text \<open>A push that gives up has seen a full queue.\<close>

lemma full_is_full:
  assumes "cells_ok N R lg sq dt" and "0 < N" and "p \<le> length lg" and "length lg \<le> R + N"
    and "sq ! (p mod N) < p"
  shows "length lg = R + N"
proof (cases "R \<le> p")
  case True
  then show ?thesis using cells_okD [OF assms(1), of p] assms(3-5) by (cases "p < R + N") auto
next
  case False
  define a where "a = R - p + N - 1"
  define j where "j = a div N"
  have "j * N + a mod N = a" by (simp add: j_def)
  moreover have "a mod N < N" using assms(2) by simp
  moreover have "a + 1 = R - p + N" using assms(2) by (simp add: a_def)
  ultimately have "R - p \<le> j * N" and "j * N < R - p + N" by linarith+
  then have "R \<le> p + j * N" and "p + j * N < R + N" using False by auto
  then have "p + j * N \<le> sq ! (p mod N)"
    using cells_okD [OF assms(1), of "p + j * N"] by auto
  then show ?thesis using assms(5) by simp
qed

lemma mpsc_inv_start: "0 < k \<Longrightarrow> mpsc_inv k (mpsc_sys_new k d)"
  by (simp add: mpsc_inv_def mpsc_sys_new_def ms_low_def mpsc_new_def cells_ok_def Let_def)

lemma mpsc_step_inv:
  assumes k: "0 < k" and step: "mpsc_step k s s'" and inv: "mpsc_inv k s"
  shows "mpsc_inv k s'"
proof -
  let ?q = "ms_queue s" and ?N = "2 ^ k :: nat" and ?lg = "ms_claimed s"
  define R where "R = ms_low s"
  have N1: "1 < ?N" by (rule one_less_power) (use k in simp_all)
  have N: "1 < ?N" "0 < ?N" using N1 by simp_all
  have len: "length (mq_seq ?q) = ?N" "length (mq_data ?q) = ?N" "mq_wpos ?q = length ?lg"
    "R \<le> length ?lg" "length ?lg \<le> R + ?N" "ms_delivered s = take (mq_rpos ?q) ?lg"
    and cells: "cells_ok ?N R ?lg (mq_seq ?q) (mq_data ?q)"
    and prod: "\<And>t. prod_ok ?N R ?lg (mq_seq ?q) (mq_data ?q) (ms_prod s t)"
    and own: "\<And>t t' p. owned (ms_prod s t) = Some p \<Longrightarrow> owned (ms_prod s t') = Some p \<Longrightarrow> t = t'"
    and cons: "cons_ok ?N (mq_rpos ?q) ?lg (mq_seq ?q) (ms_cons s)"
    using inv unfolding mpsc_inv_def Let_def R_def by blast+
  note parts = len cells prod cons
  from step show ?thesis
  proof cases
    case (m_load t x)
    then show ?thesis using parts own unfolding mpsc_inv_def Let_def by (auto simp: ms_low_def R_def)
  next
    case (m_free t x p)
    have "p \<le> length ?lg" using prod [of t] m_free by simp
    then have "p < R + ?N" using free_in_lap [OF cells N(1)] len m_free by simp
    then show ?thesis using m_free parts own \<open>p \<le> length ?lg\<close>
      unfolding mpsc_inv_def Let_def by (auto simp: ms_low_def R_def)
  next
    case (m_full t x p)
    then show ?thesis using parts own unfolding mpsc_inv_def Let_def by (auto simp: ms_low_def R_def)
  next
    case (m_retry t x p)
    then show ?thesis using parts own unfolding mpsc_inv_def Let_def by (auto simp: ms_low_def R_def)
  next
    case (m_lost t x p)
    then show ?thesis using parts own unfolding mpsc_inv_def Let_def by (auto simp: ms_low_def R_def)
  next
    case (m_claim t x p)
    then have p: "p = length ?lg" "p < R + ?N" using prod [of t] len by auto
    have free: "mq_seq ?q ! (p mod ?N) = p" using cells_okD [OF cells, of p] p len by auto
    have notown: "owned (ms_prod s t') \<noteq> Some p" for t'
      using prod [of t'] p by (cases "ms_prod s t'") auto
    have "ms_delivered s = take (mq_rpos ?q) (?lg @ [x])"
      using len cons by (cases "ms_cons s") (auto simp: R_def ms_low_def)
    then show ?thesis
      using m_claim p free len cells_ok_claim [OF cells, of x] prod_ok_claim [OF prod, of x]
        cons_ok_claim [OF cons, of x] own notown
      unfolding mpsc_inv_def Let_def by (auto simp: ms_low_def R_def nth_append)
  next
    case (m_write t x p)
    then have p: "R \<le> p" "p < length ?lg" "?lg ! p = x" "mq_seq ?q ! (p mod ?N) = p"
      using prod [of t] by auto
    have pR: "p < R + ?N" using p len by simp
    have others: "prod_ok ?N R ?lg (mq_seq ?q) ((mq_data ?q)[p mod ?N := x]) (ms_prod s t')" if "t' \<noteq> t" for t'
    proof (rule prod_ok_write [OF prod _ p(1) pR len(5)])
      show "owned (ms_prod s t') \<noteq> Some p" using own [of t p t'] m_write that by auto
    qed
    show ?thesis
      using m_write p len cells_ok_write [OF cells p(1) pR p(4), of x] others own cons N
      unfolding mpsc_inv_def Let_def by (auto simp: ms_low_def R_def)
  next
    case (m_publish t x p)
    then have p: "R \<le> p" "p < length ?lg" "mq_data ?q ! (p mod ?N) = ?lg ! p" "mq_seq ?q ! (p mod ?N) = p"
      using prod [of t] by auto
    have pR: "p < R + ?N" using p len by simp
    have others: "prod_ok ?N R ?lg ((mq_seq ?q)[p mod ?N := p + 1]) (mq_data ?q) (ms_prod s t')" if "t' \<noteq> t" for t'
    proof (rule prod_ok_publish [OF prod _ p(1) pR len(5)])
      show "owned (ms_prod s t') \<noteq> Some p" using own [of t p t'] m_publish that by auto
    qed
    have c: "cons_ok ?N (mq_rpos ?q) ?lg ((mq_seq ?q)[p mod ?N := p + 1]) (ms_cons s)"
    proof (cases "ms_cons s")
      case (KReleased y)
      then show ?thesis using cons by simp
    qed (use cons_ok_publish [OF cons p(4)] p(1) pR in \<open>auto simp: R_def ms_low_def\<close>)
    show ?thesis
      using m_publish len cells_ok_publish [OF cells p(1) pR p(2,3) len(1)] others own c
      unfolding mpsc_inv_def Let_def by (auto simp: ms_low_def R_def)
  next
    case (k_look r)
    have "R = r" using k_look by (simp add: R_def ms_low_def)
    then have "r < length ?lg" using cells_okD [OF cells, of r] k_look N by auto
    then show ?thesis using k_look parts own unfolding mpsc_inv_def Let_def by (auto simp: ms_low_def R_def)
  next
    case (k_read r)
    then have r: "R = r" "r < length ?lg" "mq_seq ?q ! (r mod ?N) = r + 1" using cons by (auto simp: R_def ms_low_def)
    then have "mq_data ?q ! (r mod ?N) = ?lg ! r" using cells_okD [OF cells, of r] N by auto
    then show ?thesis using k_read r parts own unfolding mpsc_inv_def Let_def by (auto simp: ms_low_def R_def)
  next
    case (k_release x r)
    then have r: "R = r" "r < length ?lg" "mq_seq ?q ! (r mod ?N) = r + 1" "x = ?lg ! r"
      using cons by (auto simp: R_def ms_low_def)
    have pr: "prod_ok ?N (r + 1) ?lg ((mq_seq ?q)[r mod ?N := r + ?N]) (mq_data ?q) (ms_prod s t)" for t
      using prod_ok_release [of ?N r ?lg "mq_seq ?q" "mq_data ?q"] prod r len by simp
    have "cells_ok ?N (r + 1) ?lg ((mq_seq ?q)[r mod ?N := r + ?N]) (mq_data ?q)"
      using cells_ok_release [OF cells N(2) len(1)] r by simp
    then show ?thesis
      using k_release r len pr own unfolding mpsc_inv_def Let_def by (auto simp: ms_low_def)
  next
    case (k_advance x)
    then have r: "R = mq_rpos ?q + 1" "mq_rpos ?q < length ?lg" "x = ?lg ! mq_rpos ?q"
      using cons by (auto simp: R_def ms_low_def)
    then show ?thesis
      using k_advance parts own unfolding mpsc_inv_def Let_def
      by (auto simp: ms_low_def R_def take_Suc_conv_app_nth)
  qed
qed

lemma mpsc_reach_inv: "0 < k \<Longrightarrow> mpsc_reach k d s \<Longrightarrow> mpsc_inv k s"
proof (rotate_tac, induction rule: mpsc_reach.induct)
  case start
  then show ?case by (rule mpsc_inv_start)
next
  case (step s s')
  then show ?case using mpsc_step_inv by blast
qed

section \<open>Properties\<close>

text \<open>
  with at least two cells, \<open>try_push\<close> always returns, and any sequence of pushes and pops delivers
  the accepted items in order: what was popped followed by what is still queued is what the
  accepted pushes inserted; the queue holds up to its full capacity \<open>2 ^ k\<close> and \<open>size\<close> is exact.
\<close>

theorem mpsc_fifo:
  assumes "0 < k"
    and "bounded_queue.run_ops (\<lambda>x q. the (mpsc_try_push k x q)) (mpsc_try_pop k) ops (mpsc_new k d) = (acc, del, e)"
  shows "(\<exists>r. mpsc_try_push k x e = Some r) \<and> del @ mpsc_items k e = acc \<and>
    mpsc_size e = length acc - length del \<and> length acc - length del \<le> 2 ^ k"
proof -
  note q = mpsc_bounded_queue [OF assms(1), of d]
  have wf: "mpsc_wf k e" and eq: "del @ mpsc_items k e = acc"
    using bounded_queue.run_ops_conserves [OF q mpsc_new_wf [OF assms(1)] assms(2)] by (simp_all add: mpsc_items_new)
  then have "length acc - length del = mq_wpos e - mq_rpos e" by (auto simp: mpsc_items_length)
  then show ?thesis
    using eq wf mpsc_try_push_returns [OF wf] by (auto simp: mpsc_size_def mpsc_wf_def)
qed

theorem mpsc_fifo_witness:
  "[4] @ mpsc_items 2 \<lparr>mq_seq = [4, 2, 2, 3], mq_data = [4, 6, 0, 0], mq_wpos = 2, mq_rpos = 1\<rparr> = [4, 6::nat]"
proof -
  note steps = bounded_queue.run_ops.simps [OF mpsc_bounded_queue [of 2 "0 :: nat"]]
  have 1: "mpsc_try_push 2 4 (mpsc_new 2 (0::nat)) =
      Some (True, \<lparr>mq_seq = [1, 1, 2, 3], mq_data = [4, 0, 0, 0], mq_wpos = 1, mq_rpos = 0\<rparr>)"
    unfolding mpsc_try_push_def
    by (subst mpsc_push_from.simps) (simp add: mpsc_new_def Let_def upt_conv_Cons replicate_numeral')
  have 2: "mpsc_try_push 2 6 \<lparr>mq_seq = [4, 1, 2, 3], mq_data = [4, 0, 0, 0], mq_wpos = 1, mq_rpos = 1\<rparr> =
      Some (True, \<lparr>mq_seq = [4, 2, 2, 3], mq_data = [4, 6, 0, 0::nat], mq_wpos = 2, mq_rpos = 1\<rparr>)"
    unfolding mpsc_try_push_def
    by (subst mpsc_push_from.simps) (simp add: Let_def)
  have "bounded_queue.run_ops (\<lambda>x q. the (mpsc_try_push 2 x q)) (mpsc_try_pop 2) [Push 4, Pop, Pop, Push (6::nat)]
      (mpsc_new 2 0) = ([4, 6], [4], \<lparr>mq_seq = [4, 2, 2, 3], mq_data = [4, 6, 0, 0], mq_wpos = 2, mq_rpos = 1\<rparr>)"
    using 2 by (simp add: steps 1 mpsc_try_pop_def Let_def)
  from mpsc_fifo [OF _ this] show ?thesis by simp
qed

text \<open>
  under every interleaving of any number of producers and the consumer, the delivered items are a
  prefix of the items in the order of the successful exchanges (so none is lost, duplicated,
  overwritten or reordered), no two producers own the same cell, and a push gives up only when the
  queue is full.
\<close>

theorem mpsc_concurrent_safe:
  assumes "0 < k" and "mpsc_reach k d s"
  shows "ms_delivered s = take (mq_rpos (ms_queue s)) (ms_claimed s) \<and>
    length (ms_claimed s) \<le> ms_low s + 2 ^ k \<and>
    (\<forall>t t' p. owned (ms_prod s t) = Some p \<and> owned (ms_prod s t') = Some p \<longrightarrow> t = t') \<and>
    (\<forall>t x p. ms_prod s t = MLoaded x p \<and> mq_seq (ms_queue s) ! (p mod 2 ^ k) < p \<longrightarrow>
       length (ms_claimed s) = ms_low s + 2 ^ k)"
proof -
  have inv: "mpsc_inv k s" using assms by (rule mpsc_reach_inv)
  have "length (ms_claimed s) = ms_low s + 2 ^ k"
    if "ms_prod s t = MLoaded x p" "mq_seq (ms_queue s) ! (p mod 2 ^ k) < p" for t x p
  proof (rule full_is_full)
    show "cells_ok (2 ^ k) (ms_low s) (ms_claimed s) (mq_seq (ms_queue s)) (mq_data (ms_queue s))"
      and "length (ms_claimed s) \<le> ms_low s + 2 ^ k"
      using inv by (simp_all add: mpsc_inv_def Let_def)
    have "prod_ok (2 ^ k) (ms_low s) (ms_claimed s) (mq_seq (ms_queue s)) (mq_data (ms_queue s)) (ms_prod s t)"
      using inv by (simp add: mpsc_inv_def Let_def)
    then show "p \<le> length (ms_claimed s)" using that by simp
  qed (use that in simp_all)
  then show ?thesis using inv unfolding mpsc_inv_def Let_def by blast
qed

theorem mpsc_concurrent_safe_witness:
  "ms_delivered ((mpsc_sys_new 1 0)\<lparr>ms_prod := (\<lambda>t. MIdle)(True := MLoaded (5::nat) 0)\<rparr>) = [] \<and>
   mpsc_reach 1 0 ((mpsc_sys_new 1 0)\<lparr>ms_prod := (\<lambda>t. MIdle)(True := MLoaded (5::nat) 0)\<rparr>)"
proof -
  let ?s = "mpsc_sys_new 1 0 :: (bool, nat) mpsc_sys"
  have "mpsc_step 1 ?s (?s\<lparr>ms_prod := (ms_prod ?s)(True := MLoaded 5 (mq_wpos (ms_queue ?s)))\<rparr>)"
    by (rule m_load) (simp add: mpsc_sys_new_def)
  then have "mpsc_reach 1 0 (?s\<lparr>ms_prod := (\<lambda>t. MIdle)(True := MLoaded 5 0)\<rparr>)"
    by (intro mpsc_reach.step [OF mpsc_reach.start]) (simp add: mpsc_sys_new_def mpsc_new_def)
  from mpsc_concurrent_safe [OF _ this] this show ?thesis by (simp add: mpsc_sys_new_def mpsc_new_def)
qed

end
