(* ===== verification/MPMC_Queue.thy ===== *)
theory MPMC_Queue
  imports MPSC_Queue "HOL-Library.Word"
begin

text \<open>
  The multi-producer multi-consumer ring of the concurrency runtime, \<open>src/cunk\<close>:
  \<open>include/concurrency/queue/MPMCQueue.h\<close> with \<open>Common.h\<close>, which implements \<open>IQueue.h\<close>.

  The capacity is a power of two computed on 64-bit words; \<open>pos & mask_\<close> is \<open>pos mod pq_cap\<close>. Sequence
  numbers and cursors count operations since construction, as in \<open>MPSC_Queue\<close>. Run one at a
  time, the operations are those of that queue, which gives the contract \<open>bounded_queue\<close>. In the
  second part any number of producers and consumers interleave their loads, exchanges and stores
  over sequentially consistent memory.
\<close>

unbundle bit_operations_syntax

section \<open>The capacity\<close>

definition next_power_of_two :: "64 word \<Rightarrow> 64 word" where
  "next_power_of_two v0 =
     (let v = v0 - 1; v = v OR drop_bit 1 v; v = v OR drop_bit 2 v; v = v OR drop_bit 4 v;
          v = v OR drop_bit 8 v; v = v OR drop_bit 16 v; v = v OR drop_bit 32 v
      in v + 1)"

definition smeared :: "64 word \<Rightarrow> nat \<Rightarrow> 64 word \<Rightarrow> bool" where
  "smeared x m y \<longleftrightarrow> (\<forall>i. bit y i \<longleftrightarrow> (\<exists>j < m. bit x (i + j)))"

lemma smeared_start: "smeared x 1 x"
  by (simp add: smeared_def)

lemma smeared_step: "smeared x m y \<Longrightarrow> n = m + m \<Longrightarrow> smeared x n (y OR drop_bit m y)"
proof -
  assume s: "smeared x m y" and n: "n = m + m"
  have "(\<exists>j < m + m. bit x (i + j)) \<longleftrightarrow> (\<exists>j < m. bit x (i + j)) \<or> (\<exists>j < m. bit x (i + m + j))" for i
  proof
    assume "\<exists>j < m + m. bit x (i + j)"
    then obtain j where j: "j < m + m" "bit x (i + j)" by blast
    show "(\<exists>j < m. bit x (i + j)) \<or> (\<exists>j < m. bit x (i + m + j))"
    proof (cases "j < m")
      case False
      then have "j - m < m" "bit x (i + m + (j - m))" using j by simp_all
      then show ?thesis by blast
    qed (use j in blast)
  next
    assume "(\<exists>j < m. bit x (i + j)) \<or> (\<exists>j < m. bit x (i + m + j))"
    then show "\<exists>j < m + m. bit x (i + j)"
    proof
      assume "\<exists>j < m. bit x (i + m + j)"
      then obtain j where "j < m" "bit x (i + (m + j))" by (auto simp: add.assoc)
      then show ?thesis by (intro exI [of _ "m + j"]) simp
    qed (use trans_less_add1 in blast)
  qed
  then show ?thesis using s unfolding smeared_def n by (simp add: bit_or_iff bit_drop_bit_eq add.commute add.left_commute)
qed

lemma bit_unat: "bit x i \<longleftrightarrow> odd (unat x div 2 ^ i)" for x :: "64 word"
proof -
  have "bit x i \<longleftrightarrow> bit (unat x) i" by (simp add: bit_unsigned_iff)
  then show ?thesis by (simp add: bit_iff_odd)
qed

lemma smeared_mask:
  assumes "smeared x 64 y" and "2 ^ n \<le> unat x" and "unat x < 2 ^ Suc n" and "n < 64"
  shows "y = mask (Suc n)"
proof -
  have small: "\<not> bit x i" if "Suc n \<le> i" for i
  proof -
    have "unat x < 2 ^ i" using assms(3) that by (meson less_le_trans one_le_numeral power_increasing)
    then have "unat x div 2 ^ i = 0" by simp
    then show ?thesis by (simp add: bit_unat)
  qed
  have top: "bit x n"
  proof -
    have "unat x div 2 ^ n = 1" using assms(2,3) by (simp add: div_nat_eqI)
    then show ?thesis by (simp add: bit_unat)
  qed
  show ?thesis
  proof (rule bit_word_eqI)
    fix i assume i: "i < LENGTH(64)"
    show "bit y i \<longleftrightarrow> bit (mask (Suc n) :: 64 word) i"
    proof (cases "i < Suc n")
      case True
      then have "n - i < 64" "bit x (i + (n - i))" using assms(4) top by simp_all
      then have "bit y i" using assms(1) unfolding smeared_def by blast
      then show ?thesis using True i by (simp add: bit_mask_iff)
    next
      case False
      then have "\<not> bit y i" using assms(1) small unfolding smeared_def by (meson leI le_add1 le_trans)
      then show ?thesis using False by (simp add: bit_mask_iff)
    qed
  qed
qed

lemma next_power_of_two_exact:
  assumes "2 ^ n < unat v" and "unat v \<le> 2 ^ Suc n" and "n < 63"
  shows "unat (next_power_of_two v) = 2 ^ Suc n"
proof -
  have "v \<noteq> 0" using assms(1) by auto
  then have x: "unat (v - 1) = unat v - 1" by (simp add: unat_minus_one)
  define y where "y = next_power_of_two v - 1"
  have "smeared (v - 1) 64 (let v = v - 1; v = v OR drop_bit 1 v; v = v OR drop_bit 2 v; v = v OR drop_bit 4 v;
      v = v OR drop_bit 8 v; v = v OR drop_bit 16 v in v OR drop_bit 32 v)"
    unfolding Let_def by (rule smeared_step, rule smeared_step, rule smeared_step, rule smeared_step,
      rule smeared_step, rule smeared_step, rule smeared_start) simp_all
  then have "smeared (v - 1) 64 y" by (simp only: y_def next_power_of_two_def Let_def add_diff_cancel_right')
  then have "y = mask (Suc n)" by (rule smeared_mask) (use assms x in simp_all)
  then have "next_power_of_two v = mask (Suc n) + 1" by (simp add: y_def algebra_simps)
  also have "\<dots> = word_of_nat (2 ^ Suc n)" by (simp add: mask_eq_exp_minus_1)
  finally have "unat (next_power_of_two v) = 2 ^ Suc n mod 2 ^ 64"
    by (simp only: unsigned_of_nat take_bit_eq_mod) simp
  moreover have "(2::nat) ^ Suc n < 2 ^ 64" by (rule power_strict_increasing) (use assms(3) in simp_all)
  ultimately show ?thesis by simp
qed

text \<open>\<open>is_power_of_two\<close>.\<close>

definition is_power_of_two :: "64 word \<Rightarrow> bool" where
  "is_power_of_two v \<longleftrightarrow> v \<noteq> 0 \<and> v AND (v - 1) = 0"

section \<open>Operations\<close>

record 'a mpmc =
  pq_cap :: nat
  pq_seq :: "nat list"
  pq_data :: "'a list"
  pq_head :: nat
  pq_tail :: nat

definition mpmc_new :: "64 word \<Rightarrow> 'a \<Rightarrow> 'a mpmc" where
  "mpmc_new min_capacity d =
     (let n = unat (next_power_of_two (if min_capacity < 2 then 2 else min_capacity))
      in \<lparr>pq_cap = n, pq_seq = [0..<n], pq_data = replicate n d, pq_head = 0, pq_tail = 0\<rparr>)"

partial_function (option) mpmc_push_from :: "'a \<Rightarrow> nat \<Rightarrow> 'a mpmc \<Rightarrow> (bool \<times> 'a mpmc) option" where
  "mpmc_push_from item pos q =
     (let i = pos mod pq_cap q; s = pq_seq q ! i
      in if s = pos
         then if pq_head q = pos
              then Some (True, q\<lparr>pq_head := pos + 1, pq_data := (pq_data q)[i := item],
                                 pq_seq := (pq_seq q)[i := pos + 1]\<rparr>)
              else mpmc_push_from item (pq_head q) q
         else if s < pos then Some (False, q)
         else mpmc_push_from item (pq_head q) q)"

definition mpmc_try_push :: "'a \<Rightarrow> 'a mpmc \<Rightarrow> (bool \<times> 'a mpmc) option" where
  "mpmc_try_push item q = mpmc_push_from item (pq_head q) q"

partial_function (option) mpmc_pop_from :: "nat \<Rightarrow> 'a mpmc \<Rightarrow> ('a option \<times> 'a mpmc) option" where
  "mpmc_pop_from pos q =
     (let i = pos mod pq_cap q; s = pq_seq q ! i
      in if s = pos + 1
         then if pq_tail q = pos
              then Some (Some (pq_data q ! i), q\<lparr>pq_tail := pos + 1, pq_seq := (pq_seq q)[i := pos + pq_cap q]\<rparr>)
              else mpmc_pop_from (pq_tail q) q
         else if s < pos + 1 then Some (None, q)
         else mpmc_pop_from (pq_tail q) q)"

definition mpmc_try_pop :: "'a mpmc \<Rightarrow> ('a option \<times> 'a mpmc) option" where
  "mpmc_try_pop q = mpmc_pop_from (pq_tail q) q"

definition mpmc_size_approx :: "'a mpmc \<Rightarrow> nat" where
  "mpmc_size_approx q = (if pq_head q \<ge> pq_tail q then pq_head q - pq_tail q else 0)"

definition mpmc_empty :: "'a mpmc \<Rightarrow> bool" where
  "mpmc_empty q \<longleftrightarrow> mpmc_size_approx q = 0"

section \<open>One operation at a time\<close>

definition as_mpsc :: "'a mpmc \<Rightarrow> 'a mpsc" where
  "as_mpsc q = \<lparr>mq_seq = pq_seq q, mq_data = pq_data q, mq_wpos = pq_head q, mq_rpos = pq_tail q\<rparr>"

definition mpmc_wf :: "nat \<Rightarrow> 'a mpmc \<Rightarrow> bool" where
  "mpmc_wf k q \<longleftrightarrow> pq_cap q = 2 ^ k \<and> mpsc_wf k (as_mpsc q)"

definition mpmc_items :: "nat \<Rightarrow> 'a mpmc \<Rightarrow> 'a list" where
  "mpmc_items k q = mpsc_items k (as_mpsc q)"

lemma mpmc_push_room:
  fixes q :: "'a mpmc" and x :: 'a
  assumes wf: "mpmc_wf k q" and room: "pq_head q < pq_tail q + 2 ^ k"
  defines "q' \<equiv> q\<lparr>pq_head := pq_head q + 1, pq_data := (pq_data q)[pq_head q mod 2 ^ k := x],
                  pq_seq := (pq_seq q)[pq_head q mod 2 ^ k := pq_head q + 1]\<rparr>"
  shows "mpmc_try_push x q = Some (True, q')" and "mpmc_wf k q'" and "mpmc_items k q' = mpmc_items k q @ [x]"
proof -
  have wf': "mpsc_wf k (as_mpsc q)" and cap: "pq_cap q = 2 ^ k" using wf by (simp_all add: mpmc_wf_def)
  have "pq_seq q ! (pq_head q mod 2 ^ k) = pq_head q" using wf' room by (simp add: mpsc_wf_def as_mpsc_def)
  then show "mpmc_try_push x q = Some (True, q')"
    unfolding mpmc_try_push_def by (subst mpmc_push_from.simps) (simp add: q'_def cap Let_def)
  show "mpmc_wf k q'" and "mpmc_items k q' = mpmc_items k q @ [x]"
    using mpsc_push_room(2,3) [OF wf', of x] room
    by (simp_all add: mpmc_wf_def mpmc_items_def as_mpsc_def q'_def cap)
qed

lemma mpmc_push_full:
  assumes wf: "mpmc_wf k q" and full: "pq_head q = pq_tail q + 2 ^ k"
  shows "mpmc_try_push x q = Some (False, q)"
proof -
  have wf': "mpsc_wf k (as_mpsc q)" and cap: "pq_cap q = 2 ^ k" using wf by (simp_all add: mpmc_wf_def)
  have "pq_seq q ! (pq_head q mod 2 ^ k) = pq_tail q + 1" using wf' full by (simp add: mpsc_wf_def as_mpsc_def)
  moreover have "(1::nat) < 2 ^ k" by (rule one_less_power) (use wf' in \<open>simp_all add: mpsc_wf_def\<close>)
  ultimately show ?thesis
    unfolding mpmc_try_push_def by (subst mpmc_push_from.simps) (simp add: cap full Let_def)
qed

lemma mpmc_pop_some:
  assumes wf: "mpmc_wf k q" and ne: "pq_tail q < pq_head q"
  defines "q' \<equiv> q\<lparr>pq_tail := pq_tail q + 1, pq_seq := (pq_seq q)[pq_tail q mod 2 ^ k := pq_tail q + 2 ^ k]\<rparr>"
  shows "mpmc_try_pop q = Some (Some (pq_data q ! (pq_tail q mod 2 ^ k)), q')" and "mpmc_wf k q'"
    and "mpmc_items k q = pq_data q ! (pq_tail q mod 2 ^ k) # mpmc_items k q'"
proof -
  have wf': "mpsc_wf k (as_mpsc q)" and cap: "pq_cap q = 2 ^ k" using wf by (simp_all add: mpmc_wf_def)
  have "pq_seq q ! (pq_tail q mod 2 ^ k) = pq_tail q + 1" using wf' ne by (simp add: mpsc_wf_def as_mpsc_def)
  then show "mpmc_try_pop q = Some (Some (pq_data q ! (pq_tail q mod 2 ^ k)), q')"
    unfolding mpmc_try_pop_def by (subst mpmc_pop_from.simps) (simp add: q'_def cap Let_def)
  show "mpmc_wf k q'" and "mpmc_items k q = pq_data q ! (pq_tail q mod 2 ^ k) # mpmc_items k q'"
    using mpsc_pop_some(2,3) [OF wf'] ne
    by (simp_all add: mpmc_wf_def mpmc_items_def as_mpsc_def q'_def cap)
qed

lemma mpmc_pop_none:
  assumes wf: "mpmc_wf k q" and e: "pq_tail q = pq_head q"
  shows "mpmc_try_pop q = Some (None, q)"
proof -
  have wf': "mpsc_wf k (as_mpsc q)" and cap: "pq_cap q = 2 ^ k" using wf by (simp_all add: mpmc_wf_def)
  have "pq_seq q ! (pq_tail q mod 2 ^ k) = pq_tail q" using wf' e by (simp add: mpsc_wf_def as_mpsc_def)
  then show ?thesis unfolding mpmc_try_pop_def by (subst mpmc_pop_from.simps) (simp add: cap Let_def)
qed

lemma mpmc_items_length: "length (mpmc_items k q) = pq_head q - pq_tail q"
  by (simp add: mpmc_items_def mpsc_items_length) (simp add: as_mpsc_def)

lemma mpmc_bounds: "mpmc_wf k q \<Longrightarrow> pq_tail q \<le> pq_head q \<and> pq_head q \<le> pq_tail q + 2 ^ k"
  by (simp add: mpmc_wf_def mpsc_wf_def as_mpsc_def)

lemma mpmc_new_wf:
  assumes "0 < k" and "unat (next_power_of_two (if c < 2 then 2 else c)) = 2 ^ k"
  shows "mpmc_wf k (mpmc_new c d)" and "mpmc_items k (mpmc_new c d) = []"
  using mpsc_new_wf [OF assms(1), of d] mpsc_items_new [of k d]
  by (simp_all add: mpmc_wf_def mpmc_items_def mpmc_new_def mpsc_new_def as_mpsc_def assms(2) Let_def)

lemma mpmc_bounded_queue:
  assumes k: "0 < k" "unat (next_power_of_two (if c < 2 then 2 else c)) = 2 ^ k"
  shows "bounded_queue (\<lambda>x q. the (mpmc_try_push x q)) (\<lambda>q. the (mpmc_try_pop q)) (mpmc_items k) (mpmc_wf k)
           (2 ^ k) (mpmc_new c d)"
proof (unfold_locales, goal_cases)
  case (3 q x)
  then show ?case using mpmc_push_room [of k q x] mpmc_push_full [of k q x] mpmc_bounds [of k q]
    by (cases "pq_head q < pq_tail q + 2 ^ k") auto
next
  case (4 q)
  then show ?case using mpmc_pop_some [of k q] mpmc_pop_none [of k q] mpmc_bounds [of k q]
    by (cases "pq_tail q < pq_head q") auto
next
  case (5 q x)
  then have "pq_head q < pq_tail q + 2 ^ k" by (auto simp: mpmc_items_length)
  then show ?case using mpmc_push_room [OF 5(1), of x] by simp
next
  case (6 q x)
  then have "pq_head q = pq_tail q + 2 ^ k" using mpmc_bounds [of k q] by (auto simp: mpmc_items_length)
  then show ?case using mpmc_push_full [OF 6(1), of x] by simp
next
  case (7 q x xs)
  then have "0 < length (mpmc_items k q)" by simp
  then have "pq_tail q < pq_head q" by (simp add: mpmc_items_length)
  then show ?case using mpmc_pop_some [OF 7(1)] 7(2) by simp
next
  case (8 q)
  then have "length (mpmc_items k q) = 0" by simp
  then have "pq_tail q = pq_head q" using mpmc_bounds [OF 8(1)] by (simp add: mpmc_items_length)
  then show ?case using mpmc_pop_none [OF 8(1)] by simp
qed (simp_all add: mpmc_new_wf [OF k])

text \<open>The default queues of the thread pool (1024 per worker) and of the event loop (4096).\<close>

interpretation worker_q: bounded_queue "\<lambda>x q. the (mpmc_try_push x q)" "\<lambda>q. the (mpmc_try_pop q)"
  "mpmc_items 10" "mpmc_wf 10" "2 ^ 10" "mpmc_new 1024 d" for d
proof (rule mpmc_bounded_queue)
  show "unat (next_power_of_two (if 1024 < (2 :: 64 word) then 2 else 1024)) = 2 ^ 10" by code_simp
qed simp

interpretation event_q: bounded_queue "\<lambda>x q. the (mpmc_try_push x q)" "\<lambda>q. the (mpmc_try_pop q)"
  "mpmc_items 12" "mpmc_wf 12" "2 ^ 12" "mpmc_new 4096 d" for d
proof (rule mpmc_bounded_queue)
  show "unat (next_power_of_two (if 4096 < (2 :: 64 word) then 2 else 4096)) = 2 ^ 12" by code_simp
qed simp

section \<open>The concurrent queue\<close>

text \<open>What a producer and a consumer are about to do, with the values they carry.\<close>

datatype 'a mpmc_prod =
    QP_Idle
  | QP_Loaded 'a nat
  | QP_Free 'a nat
  | QP_Claimed 'a nat
  | QP_Written 'a nat

datatype 'a mpmc_cons =
    QC_Idle
  | QC_Loaded nat
  | QC_Ready nat
  | QC_Claimed nat
  | QC_Got 'a nat

record ('t, 'a) mpmc_sys =
  ps_queue :: "'a mpmc"
  ps_prod :: "'t \<Rightarrow> 'a mpmc_prod"
  ps_cons :: "'t \<Rightarrow> 'a mpmc_cons"
  ps_claimed :: "'a list"
  ps_returned :: "(nat \<times> 'a) list"

definition mpmc_sys_new :: "64 word \<Rightarrow> 'a \<Rightarrow> ('t, 'a) mpmc_sys" where
  "mpmc_sys_new c d = \<lparr>ps_queue = mpmc_new c d, ps_prod = (\<lambda>t. QP_Idle), ps_cons = (\<lambda>t. QC_Idle),
     ps_claimed = [], ps_returned = []\<rparr>"

text \<open>
  The successful exchanges \<open>p_claim\<close> and \<open>c_claim\<close> fix the place of an item and who takes it;
  \<open>p_lost\<close> and \<open>c_lost\<close> are failed exchanges, spurious ones included. \<open>ps_claimed\<close> lists the items in
  the order of the exchanges, \<open>ps_returned\<close> what \<open>try_pop\<close> has returned, with the positions.
\<close>

inductive mpmc_step :: "('t, 'a) mpmc_sys \<Rightarrow> ('t, 'a) mpmc_sys \<Rightarrow> bool" where
  p_load: "ps_prod s t = QP_Idle \<Longrightarrow>
    mpmc_step s (s\<lparr>ps_prod := (ps_prod s)(t := QP_Loaded x (pq_head (ps_queue s)))\<rparr>)"
| p_free: "ps_prod s t = QP_Loaded x p \<Longrightarrow> pq_seq (ps_queue s) ! (p mod pq_cap (ps_queue s)) = p \<Longrightarrow>
    mpmc_step s (s\<lparr>ps_prod := (ps_prod s)(t := QP_Free x p)\<rparr>)"
| p_full: "ps_prod s t = QP_Loaded x p \<Longrightarrow> pq_seq (ps_queue s) ! (p mod pq_cap (ps_queue s)) < p \<Longrightarrow>
    mpmc_step s (s\<lparr>ps_prod := (ps_prod s)(t := QP_Idle)\<rparr>)"
| p_retry: "ps_prod s t = QP_Loaded x p \<Longrightarrow> pq_seq (ps_queue s) ! (p mod pq_cap (ps_queue s)) > p \<Longrightarrow>
    mpmc_step s (s\<lparr>ps_prod := (ps_prod s)(t := QP_Loaded x (pq_head (ps_queue s)))\<rparr>)"
| p_claim: "ps_prod s t = QP_Free x p \<Longrightarrow> pq_head (ps_queue s) = p \<Longrightarrow>
    mpmc_step s (s\<lparr>ps_prod := (ps_prod s)(t := QP_Claimed x p),
      ps_queue := (ps_queue s)\<lparr>pq_head := p + 1\<rparr>, ps_claimed := ps_claimed s @ [x]\<rparr>)"
| p_lost: "ps_prod s t = QP_Free x p \<Longrightarrow>
    mpmc_step s (s\<lparr>ps_prod := (ps_prod s)(t := QP_Loaded x (pq_head (ps_queue s)))\<rparr>)"
| p_write: "ps_prod s t = QP_Claimed x p \<Longrightarrow> i = p mod pq_cap (ps_queue s) \<Longrightarrow>
    mpmc_step s (s\<lparr>ps_prod := (ps_prod s)(t := QP_Written x p),
      ps_queue := (ps_queue s)\<lparr>pq_data := (pq_data (ps_queue s))[i := x]\<rparr>\<rparr>)"
| p_publish: "ps_prod s t = QP_Written x p \<Longrightarrow> i = p mod pq_cap (ps_queue s) \<Longrightarrow>
    mpmc_step s (s\<lparr>ps_prod := (ps_prod s)(t := QP_Idle),
      ps_queue := (ps_queue s)\<lparr>pq_seq := (pq_seq (ps_queue s))[i := p + 1]\<rparr>\<rparr>)"
| c_load: "ps_cons s t = QC_Idle \<Longrightarrow>
    mpmc_step s (s\<lparr>ps_cons := (ps_cons s)(t := QC_Loaded (pq_tail (ps_queue s)))\<rparr>)"
| c_ready: "ps_cons s t = QC_Loaded p \<Longrightarrow> pq_seq (ps_queue s) ! (p mod pq_cap (ps_queue s)) = p + 1 \<Longrightarrow>
    mpmc_step s (s\<lparr>ps_cons := (ps_cons s)(t := QC_Ready p)\<rparr>)"
| c_empty: "ps_cons s t = QC_Loaded p \<Longrightarrow> pq_seq (ps_queue s) ! (p mod pq_cap (ps_queue s)) < p + 1 \<Longrightarrow>
    mpmc_step s (s\<lparr>ps_cons := (ps_cons s)(t := QC_Idle)\<rparr>)"
| c_retry: "ps_cons s t = QC_Loaded p \<Longrightarrow> pq_seq (ps_queue s) ! (p mod pq_cap (ps_queue s)) > p + 1 \<Longrightarrow>
    mpmc_step s (s\<lparr>ps_cons := (ps_cons s)(t := QC_Loaded (pq_tail (ps_queue s)))\<rparr>)"
| c_claim: "ps_cons s t = QC_Ready p \<Longrightarrow> pq_tail (ps_queue s) = p \<Longrightarrow>
    mpmc_step s (s\<lparr>ps_cons := (ps_cons s)(t := QC_Claimed p),
      ps_queue := (ps_queue s)\<lparr>pq_tail := p + 1\<rparr>\<rparr>)"
| c_lost: "ps_cons s t = QC_Ready p \<Longrightarrow>
    mpmc_step s (s\<lparr>ps_cons := (ps_cons s)(t := QC_Loaded (pq_tail (ps_queue s)))\<rparr>)"
| c_read: "ps_cons s t = QC_Claimed p \<Longrightarrow> x = pq_data (ps_queue s) ! (p mod pq_cap (ps_queue s)) \<Longrightarrow>
    mpmc_step s (s\<lparr>ps_cons := (ps_cons s)(t := QC_Got x p)\<rparr>)"
| c_release: "ps_cons s t = QC_Got x p \<Longrightarrow> i = p mod pq_cap (ps_queue s) \<Longrightarrow>
    mpmc_step s (s\<lparr>ps_cons := (ps_cons s)(t := QC_Idle),
      ps_queue := (ps_queue s)\<lparr>pq_seq := (pq_seq (ps_queue s))[i := p + pq_cap (ps_queue s)]\<rparr>,
      ps_returned := ps_returned s @ [(p, x)]\<rparr>)"

inductive mpmc_reach :: "64 word \<Rightarrow> 'a \<Rightarrow> ('t, 'a) mpmc_sys \<Rightarrow> bool" for c d where
  start: "mpmc_reach c d (mpmc_sys_new c d)"
| step: "mpmc_reach c d s \<Longrightarrow> mpmc_step s s' \<Longrightarrow> mpmc_reach c d s'"

section \<open>The invariant\<close>

text \<open>The position a thread has claimed and not yet published or released.\<close>

fun pushing :: "'a mpmc_prod \<Rightarrow> nat option" where
  "pushing (QP_Claimed x p) = Some p"
| "pushing (QP_Written x p) = Some p"
| "pushing _ = None"

fun popping :: "'a mpmc_cons \<Rightarrow> nat option" where
  "popping (QC_Claimed p) = Some p"
| "popping (QC_Got x p) = Some p"
| "popping _ = None"

definition holders :: "('b \<Rightarrow> nat option) \<Rightarrow> ('t \<Rightarrow> 'b) \<Rightarrow> nat set" where
  "holders f m = {p. \<exists>t. f (m t) = Some p}"

definition one_each :: "('b \<Rightarrow> nat option) \<Rightarrow> ('t \<Rightarrow> 'b) \<Rightarrow> bool" where
  "one_each f m \<longleftrightarrow> (\<forall>t t' p. f (m t) = Some p \<and> f (m t') = Some p \<longrightarrow> t = t')"

text \<open>
  The slot of position \<open>p\<close>, with sequence number \<open>s\<close> and datum \<open>d\<close>: still to be published (free, or held
  by a producer), or published and not yet released (waiting, or held by a consumer).
\<close>

definition slot_ok :: "nat \<Rightarrow> nat \<Rightarrow> nat \<Rightarrow> 'a list \<Rightarrow> nat set \<Rightarrow> nat set \<Rightarrow> nat \<Rightarrow> nat \<Rightarrow> 'a \<Rightarrow> bool" where
  "slot_ok N H T lg P C p s d \<longleftrightarrow> H \<le> p + N \<and> p < T + N \<and>
     (s = p \<and> T \<le> p \<and> (p < H \<longrightarrow> p \<in> P) \<or> s = p + 1 \<and> p < H \<and> d = lg ! p \<and> (p < T \<longrightarrow> p \<in> C))"

definition slots_ok :: "nat \<Rightarrow> nat \<Rightarrow> nat \<Rightarrow> 'a list \<Rightarrow> nat set \<Rightarrow> nat set \<Rightarrow> nat list \<Rightarrow> 'a list \<Rightarrow> bool" where
  "slots_ok N H T lg P C sq dt \<longleftrightarrow> length sq = N \<and> length dt = N \<and>
     (\<forall>c < N. \<exists>p. p mod N = c \<and> slot_ok N H T lg P C p (sq ! c) (dt ! c))"

fun producer_ok :: "nat \<Rightarrow> nat \<Rightarrow> nat \<Rightarrow> 'a list \<Rightarrow> nat list \<Rightarrow> 'a list \<Rightarrow> 'a mpmc_prod \<Rightarrow> bool" where
  "producer_ok N H T lg sq dt QP_Idle \<longleftrightarrow> True"
| "producer_ok N H T lg sq dt (QP_Loaded x p) \<longleftrightarrow> p \<le> H"
| "producer_ok N H T lg sq dt (QP_Free x p) \<longleftrightarrow> p \<le> sq ! (p mod N)"
| "producer_ok N H T lg sq dt (QP_Claimed x p) \<longleftrightarrow> T \<le> p \<and> p < H \<and> lg ! p = x \<and> sq ! (p mod N) = p"
| "producer_ok N H T lg sq dt (QP_Written x p) \<longleftrightarrow>
     T \<le> p \<and> p < H \<and> lg ! p = x \<and> sq ! (p mod N) = p \<and> dt ! (p mod N) = x"

fun consumer_ok :: "nat \<Rightarrow> nat \<Rightarrow> 'a list \<Rightarrow> nat list \<Rightarrow> 'a mpmc_cons \<Rightarrow> bool" where
  "consumer_ok N T lg sq QC_Idle \<longleftrightarrow> True"
| "consumer_ok N T lg sq (QC_Loaded p) \<longleftrightarrow> p \<le> T"
| "consumer_ok N T lg sq (QC_Ready p) \<longleftrightarrow> p < sq ! (p mod N)"
| "consumer_ok N T lg sq (QC_Claimed p) \<longleftrightarrow> p < T \<and> sq ! (p mod N) = p + 1"
| "consumer_ok N T lg sq (QC_Got x p) \<longleftrightarrow> p < T \<and> sq ! (p mod N) = p + 1 \<and> x = lg ! p"

definition returned_ok :: "nat \<Rightarrow> 'a list \<Rightarrow> nat set \<Rightarrow> (nat \<times> 'a) list \<Rightarrow> bool" where
  "returned_ok T lg C rs \<longleftrightarrow> distinct (map fst rs) \<and> (\<forall>(p, x) \<in> set rs. x = lg ! p) \<and>
     fst ` set rs \<inter> C = {} \<and> fst ` set rs \<union> C = {..<T}"

definition mpmc_inv :: "nat \<Rightarrow> ('t, 'a) mpmc_sys \<Rightarrow> bool" where
  "mpmc_inv N s \<longleftrightarrow>
     (let q = ps_queue s; H = pq_head q; T = pq_tail q; lg = ps_claimed s;
          P = holders pushing (ps_prod s); C = holders popping (ps_cons s)
      in pq_cap q = N \<and> 1 < N \<and> H = length lg \<and> T \<le> H \<and>
         slots_ok N H T lg P C (pq_seq q) (pq_data q) \<and>
         (\<forall>t. producer_ok N H T lg (pq_seq q) (pq_data q) (ps_prod s t)) \<and>
         (\<forall>t. consumer_ok N T lg (pq_seq q) (ps_cons s t)) \<and>
         one_each pushing (ps_prod s) \<and> one_each popping (ps_cons s) \<and>
         returned_ok T lg C (ps_returned s))"

lemma holders_upd:
  "one_each f m \<Longrightarrow> holders f (m(t := x)) =
     (holders f m - (case f (m t) of None \<Rightarrow> {} | Some p \<Rightarrow> {p})) \<union> (case f x of None \<Rightarrow> {} | Some p \<Rightarrow> {p})"
proof (rule set_eqI)
  fix p assume "one_each f m"
  then have "(\<exists>u. u \<noteq> t \<and> f (m u) = Some p) \<longleftrightarrow> p \<in> holders f m \<and> f (m t) \<noteq> Some p"
    unfolding one_each_def holders_def mem_Collect_eq by metis
  moreover have "p \<in> holders f (m(t := x)) \<longleftrightarrow> f x = Some p \<or> (\<exists>u. u \<noteq> t \<and> f (m u) = Some p)"
    unfolding holders_def by auto
  ultimately show "p \<in> holders f (m(t := x)) \<longleftrightarrow>
    p \<in> (holders f m - (case f (m t) of None \<Rightarrow> {} | Some p \<Rightarrow> {p})) \<union> (case f x of None \<Rightarrow> {} | Some p \<Rightarrow> {p})"
    by (cases "f (m t)"; cases "f x") auto
qed

lemma one_each_upd:
  "one_each f m \<Longrightarrow> (\<And>p. f x = Some p \<Longrightarrow> f (m t) = Some p \<or> p \<notin> holders f m) \<Longrightarrow> one_each f (m(t := x))"
  unfolding one_each_def holders_def by (auto split: if_splits)

lemma not_next: "(1::nat) < N \<Longrightarrow> p mod N = q mod N \<Longrightarrow> p \<noteq> q + 1"
proof
  assume "1 < N" "p mod N = q mod N" "p = q + 1"
  then have "N dvd (q + 1) - q" by (metis le_add1 mod_eq_dvd_iff_nat)
  then show False using \<open>1 < N\<close> by simp
qed

lemma slot_at:
  assumes "slots_ok N H T lg P C sq dt" and "0 < N"
  obtains q where "q mod N = p mod N" and "slot_ok N H T lg P C q (sq ! (p mod N)) (dt ! (p mod N))"
  using assms unfolding slots_ok_def by (meson mod_less_divisor)

text \<open>Changing one slot, while the others stay as they are.\<close>

lemma slots_change:
  assumes "slots_ok N H T lg P C sq dt" and "0 < N"
    and "\<And>q s d. q mod N \<noteq> p mod N \<Longrightarrow> slot_ok N H T lg P C q s d \<Longrightarrow> slot_ok N H' T' lg' P' C' q s d"
    and "p' mod N = p mod N" and "slot_ok N H' T' lg' P' C' p' s' d'"
  shows "slots_ok N H' T' lg' P' C' (sq[p mod N := s']) (dt[p mod N := d'])"
  unfolding slots_ok_def
proof (intro conjI allI impI)
  fix c assume c: "c < N"
  show "\<exists>q. q mod N = c \<and> slot_ok N H' T' lg' P' C' q (sq[p mod N := s'] ! c) (dt[p mod N := d'] ! c)"
  proof (cases "c = p mod N")
    case True
    then show ?thesis using assms(1,4,5) c by (intro exI [of _ p']) (simp add: slots_ok_def)
  next
    case False
    obtain q where "q mod N = c" "slot_ok N H T lg P C q (sq ! c) (dt ! c)"
      using assms(1) c unfolding slots_ok_def by blast
    then show ?thesis using assms(3) [of q] False by auto
  qed
qed (use assms(1) in \<open>simp_all add: slots_ok_def\<close>)

text \<open>The slot at the cursor whose sequence number has been seen to be ready.\<close>

lemma slot_to_push:
  assumes "slots_ok N H T lg P C sq dt" and "1 < N" and "T \<le> H" and "H \<le> sq ! (H mod N)"
  shows "sq ! (H mod N) = H \<and> H < T + N \<and> slot_ok N H T lg P C H H (dt ! (H mod N))"
proof -
  obtain q where q: "q mod N = H mod N" "slot_ok N H T lg P C q (sq ! (H mod N)) (dt ! (H mod N))"
    using slot_at [OF assms(1), of H] assms(2) by auto
  have "sq ! (H mod N) \<noteq> q + 1"
  proof
    assume s: "sq ! (H mod N) = q + 1"
    then have "q < H" using q(2) by (auto simp: slot_ok_def)
    then have "H = q + 1" using s assms(4) by simp
    then show False using not_next [OF assms(2), of H q] q(1) by simp
  qed
  then have s: "sq ! (H mod N) = q" "T \<le> q" "q < T + N" using q(2) by (auto simp: slot_ok_def)
  then have "q = H" using same_cell [of H N q] q(1) assms(3,4) by simp
  with s q(2) show ?thesis by simp
qed

lemma slot_to_pop:
  assumes "slots_ok N H T lg P C sq dt" and "1 < N" and "T < sq ! (T mod N)"
  shows "sq ! (T mod N) = T + 1 \<and> T < H \<and> dt ! (T mod N) = lg ! T \<and> H \<le> T + N"
proof -
  obtain q where q: "q mod N = T mod N" "slot_ok N H T lg P C q (sq ! (T mod N)) (dt ! (T mod N))"
    using slot_at [OF assms(1), of T] assms(2) by auto
  then have "T \<le> q" "q < T + N" using assms(3) by (auto simp: slot_ok_def)
  then have "q = T" using same_cell [of T N q] q(1) by simp
  then show ?thesis using q(2) assms(3) by (auto simp: slot_ok_def)
qed

lemma slot_held:
  assumes "slots_ok N H T lg P C sq dt" and "1 < N" and "sq ! (p mod N) = p + 1"
  shows "p < H \<and> dt ! (p mod N) = lg ! p \<and> H \<le> p + N \<and> p < T + N"
proof -
  obtain q where q: "q mod N = p mod N" "slot_ok N H T lg P C q (sq ! (p mod N)) (dt ! (p mod N))"
    using slot_at [OF assms(1), of p] assms(2) by auto
  have "sq ! (p mod N) \<noteq> q" using not_next [OF assms(2), of q p] q(1) assms(3) by auto
  then have "q = p" using q(2) assms(3) by (auto simp: slot_ok_def)
  then show ?thesis using q(2) assms(3) by (auto simp: slot_ok_def)
qed

text \<open>Two held positions with the sequence numbers of their states do not share a slot.\<close>

lemma producer_ok_change:
  assumes "producer_ok N H T lg sq dt pc" and "pushing pc \<noteq> Some p" and "1 < N" and "length sq = N"
    and "sq ! (p mod N) = p \<or> sq ! (p mod N) = p + 1" and "sq ! (p mod N) \<le> n"
    and "H \<le> H'" and "T' = T" and "\<And>i. i < H \<Longrightarrow> lg' ! i = lg ! i"
  shows "producer_ok N H' T' lg' (sq[p mod N := n]) (dt[p mod N := d]) pc"
proof (cases "pushing pc")
  case None
  have "r \<le> sq[p mod N := n] ! (r mod N)" if "r \<le> sq ! (r mod N)" for r
    using that assms(3,4,6) by (cases "r mod N = p mod N") auto
  then show ?thesis using assms(1,7) None by (cases pc) auto
next
  case (Some r)
  then have r: "sq ! (r mod N) = r" "r \<noteq> p" using assms(1,2) by (cases pc; simp)+
  then have "r mod N \<noteq> p mod N" using not_next [OF assms(3), of r p] assms(5) by auto
  then show ?thesis using assms(1,7-9) Some by (cases pc) auto
qed

lemma consumer_ok_change:
  assumes "consumer_ok N T lg sq pc" and "popping pc \<noteq> Some p" and "1 < N" and "length sq = N"
    and "sq ! (p mod N) = p \<or> sq ! (p mod N) = p + 1" and "sq ! (p mod N) \<le> n" and "T \<le> T'"
  shows "consumer_ok N T' lg (sq[p mod N := n]) pc"
proof (cases "popping pc")
  case None
  have "r < sq[p mod N := n] ! (r mod N)" if "r < sq ! (r mod N)" for r
    using that assms(3,4,6) by (cases "r mod N = p mod N") auto
  then show ?thesis using assms(1,7) None by (cases pc) auto
next
  case (Some r)
  then have r: "sq ! (r mod N) = r + 1" "r \<noteq> p" using assms(1,2) by (cases pc; simp)+
  then have "r mod N \<noteq> p mod N" using not_next [OF assms(3), of p r] assms(5) by auto
  then show ?thesis using assms(1,7) Some by (cases pc) auto
qed

lemma holders_same: "f x = f (m t) \<Longrightarrow> holders f (m(t := x)) = holders f m"
proof -
  assume "f x = f (m t)"
  then have "f ((m(t := x)) u) = f (m u)" for u by simp
  then show ?thesis by (simp only: holders_def)
qed

lemma slot_unpublished:
  assumes "slots_ok N H T lg P C sq dt" and "1 < N" and "sq ! (p mod N) = p"
  shows "slot_ok N H T lg P C p p d"
proof -
  obtain q where q: "q mod N = p mod N" "slot_ok N H T lg P C q p (dt ! (p mod N))"
    using slot_at [OF assms(1), of p] assms(2,3) by auto
  then have "p \<noteq> q + 1" using not_next [OF assms(2), of p q] by simp
  with q(2) have "q = p" by (auto simp: slot_ok_def)
  with q(2) show ?thesis by (auto simp: slot_ok_def)
qed

lemma slots_claim_push:
  assumes "slots_ok N (length lg) T lg P C sq dt" and "1 < N" and "T \<le> length lg" and "length lg \<le> sq ! (length lg mod N)"
  shows "slots_ok N (length lg + 1) T (lg @ [x]) (insert (length lg) P) C sq dt"
proof -
  let ?H = "length lg"
  note here = slot_to_push [OF assms]
  have "slots_ok N (?H + 1) T (lg @ [x]) (insert ?H P) C (sq[?H mod N := sq ! (?H mod N)]) (dt[?H mod N := dt ! (?H mod N)])"
  proof (rule slots_change [OF assms(1)])
    fix q s d assume q: "q mod N \<noteq> ?H mod N" "slot_ok N ?H T lg P C q s d"
    then have "?H \<noteq> q + N" "q \<noteq> ?H" by auto
    with q(2) show "slot_ok N (?H + 1) T (lg @ [x]) (insert ?H P) C q s d" by (auto simp: slot_ok_def nth_append)
  next
    show "slot_ok N (?H + 1) T (lg @ [x]) (insert ?H P) C ?H (sq ! (?H mod N)) (dt ! (?H mod N))"
      using here assms(2,3) by (simp add: slot_ok_def)
  qed (use assms(2) in simp_all)
  then show ?thesis by simp
qed

lemma slots_write:
  assumes "slots_ok N H T lg P C sq dt" and "1 < N" and "sq ! (p mod N) = p"
  shows "slots_ok N H T lg P C sq (dt[p mod N := x])"
proof -
  have "slots_ok N H T lg P C (sq[p mod N := p]) (dt[p mod N := x])"
    by (rule slots_change [OF assms(1)]) (use assms(2) slot_unpublished [OF assms] in simp_all)
  then show ?thesis using assms(3) by (metis list_update_id)
qed

lemma slots_publish:
  assumes "slots_ok N H T lg P C sq dt" and "1 < N" and "sq ! (p mod N) = p" and "T \<le> p" and "p < H" and "dt ! (p mod N) = lg ! p"
  shows "slots_ok N H T lg (P - {p}) C (sq[p mod N := p + 1]) dt"
proof -
  have "slots_ok N H T lg (P - {p}) C (sq[p mod N := p + 1]) (dt[p mod N := dt ! (p mod N)])"
  proof (rule slots_change [OF assms(1)])
    fix q s d assume "q mod N \<noteq> p mod N" "slot_ok N H T lg P C q s d"
    then show "slot_ok N H T lg (P - {p}) C q s d" by (auto simp: slot_ok_def)
  next
    show "slot_ok N H T lg (P - {p}) C p (p + 1) (dt ! (p mod N))"
      using slot_unpublished [OF assms(1-3), of "dt ! (p mod N)"] assms(4-6) by (auto simp: slot_ok_def)
  qed (use assms(2) in simp_all)
  then show ?thesis by simp
qed

lemma slots_claim_pop:
  assumes "slots_ok N H T lg P C sq dt" and "1 < N" and "T < sq ! (T mod N)"
  shows "slots_ok N H (T + 1) lg P (insert T C) sq dt"
proof -
  note here = slot_to_pop [OF assms]
  have "slots_ok N H (T + 1) lg P (insert T C) (sq[T mod N := sq ! (T mod N)]) (dt[T mod N := dt ! (T mod N)])"
  proof (rule slots_change [OF assms(1)])
    fix q s d assume q: "q mod N \<noteq> T mod N" "slot_ok N H T lg P C q s d"
    then have "q \<noteq> T" by auto
    with q(2) show "slot_ok N H (T + 1) lg P (insert T C) q s d" by (auto simp: slot_ok_def)
  next
    show "slot_ok N H (T + 1) lg P (insert T C) T (sq ! (T mod N)) (dt ! (T mod N))"
      using here by (simp add: slot_ok_def)
  qed (use assms(2) in simp_all)
  then show ?thesis by simp
qed

lemma slots_release:
  assumes "slots_ok N H T lg P C sq dt" and "1 < N" and "sq ! (p mod N) = p + 1" and "p < T" and "T \<le> H"
  shows "slots_ok N H T lg P (C - {p}) (sq[p mod N := p + N]) dt"
proof -
  note here = slot_held [OF assms(1-3)]
  have "slots_ok N H T lg P (C - {p}) (sq[p mod N := p + N]) (dt[p mod N := dt ! (p mod N)])"
  proof (rule slots_change [OF assms(1)])
    fix q s d assume "q mod N \<noteq> p mod N" "slot_ok N H T lg P C q s d"
    then show "slot_ok N H T lg P (C - {p}) q s d" by (auto simp: slot_ok_def)
  next
    show "slot_ok N H T lg P (C - {p}) (p + N) (p + N) (dt ! (p mod N))"
      using here assms(4,5) by (simp add: slot_ok_def)
  qed (use assms(2) in simp_all)
  then show ?thesis by simp
qed

lemma returned_claim_pop: "returned_ok T lg C rs \<Longrightarrow> returned_ok (T + 1) lg (insert T C) rs"
  unfolding returned_ok_def by (auto simp: lessThan_Suc)

lemma returned_claim_push: "returned_ok T lg C rs \<Longrightarrow> T \<le> length lg \<Longrightarrow> returned_ok T (lg @ [x]) C rs"
  unfolding returned_ok_def
proof (elim conjE, intro conjI ballI)
  fix r assume "fst ` set rs \<union> C = {..<T}" "T \<le> length lg" "\<forall>(p, x) \<in> set rs. x = lg ! p" "r \<in> set rs"
  moreover from this have "fst r < T" by blast
  ultimately show "case r of (p, y) \<Rightarrow> y = (lg @ [x]) ! p" by (cases r) (auto simp: nth_append)
qed

lemma returned_release: "returned_ok T lg C rs \<Longrightarrow> p \<in> C \<Longrightarrow> returned_ok T lg (C - {p}) (rs @ [(p, lg ! p)])"
  unfolding returned_ok_def by auto

text \<open>Steps that claim and release nothing.\<close>

lemma quiet_producer:
  assumes "mpmc_inv N s" and "pushing (ps_prod s t) = None" and "pushing x = None"
    and "producer_ok N (pq_head (ps_queue s)) (pq_tail (ps_queue s)) (ps_claimed s) (pq_seq (ps_queue s)) (pq_data (ps_queue s)) x"
  shows "mpmc_inv N (s\<lparr>ps_prod := (ps_prod s)(t := x)\<rparr>)"
proof -
  have one: "one_each pushing (ps_prod s)" using assms(1) by (simp add: mpmc_inv_def Let_def)
  show ?thesis
    using assms holders_upd [OF one, of t x] one_each_upd [OF one, of x t]
    by (auto simp: mpmc_inv_def Let_def)
qed

lemma quiet_consumer:
  assumes "mpmc_inv N s" and "popping (ps_cons s t) = None" and "popping x = None"
    and "consumer_ok N (pq_tail (ps_queue s)) (ps_claimed s) (pq_seq (ps_queue s)) x"
  shows "mpmc_inv N (s\<lparr>ps_cons := (ps_cons s)(t := x)\<rparr>)"
proof -
  have one: "one_each popping (ps_cons s)" using assms(1) by (simp add: mpmc_inv_def Let_def)
  show ?thesis
    using assms holders_upd [OF one, of t x] one_each_upd [OF one, of x t]
    by (auto simp: mpmc_inv_def Let_def)
qed

lemma mpmc_step_inv:
  assumes inv: "mpmc_inv N s" and step: "mpmc_step s s'"
  shows "mpmc_inv N s'"
proof -
  define q where "q = ps_queue s"
  let ?H = "pq_head q" and ?T = "pq_tail q" and ?lg = "ps_claimed s"
  define P where "P = holders pushing (ps_prod s)"
  define C where "C = holders popping (ps_cons s)"
  have N: "pq_cap q = N" "1 < N" "?H = length ?lg" "?T \<le> ?H"
    and slots: "slots_ok N ?H ?T ?lg P C (pq_seq q) (pq_data q)"
    and prod: "\<And>t. producer_ok N ?H ?T ?lg (pq_seq q) (pq_data q) (ps_prod s t)"
    and cons: "\<And>t. consumer_ok N ?T ?lg (pq_seq q) (ps_cons s t)"
    and one: "one_each pushing (ps_prod s)" "one_each popping (ps_cons s)"
    and ret: "returned_ok ?T ?lg C (ps_returned s)"
    using inv unfolding mpmc_inv_def Let_def q_def P_def C_def by blast+
  note slot_lists = slots [unfolded slots_ok_def]
  from step show ?thesis
  proof cases
    case (p_load t x)
    show ?thesis unfolding p_load(1)
      by (rule quiet_producer [OF inv]) (use p_load N in \<open>simp_all add: q_def\<close>)
  next
    case (p_free t x p)
    show ?thesis unfolding p_free(1)
      by (rule quiet_producer [OF inv]) (use p_free N in \<open>simp_all add: q_def\<close>)
  next
    case (p_full t x p)
    show ?thesis unfolding p_full(1)
      by (rule quiet_producer [OF inv]) (use p_full N in \<open>simp_all add: q_def\<close>)
  next
    case (p_retry t x p)
    show ?thesis unfolding p_retry(1)
      by (rule quiet_producer [OF inv]) (use p_retry N in \<open>simp_all add: q_def\<close>)
  next
    case (p_lost t x p)
    show ?thesis unfolding p_lost(1)
      by (rule quiet_producer [OF inv]) (use p_lost N in \<open>simp_all add: q_def\<close>)
  next
    case (c_load t)
    show ?thesis unfolding c_load(1)
      by (rule quiet_consumer [OF inv]) (use c_load N in \<open>simp_all add: q_def\<close>)
  next
    case (c_ready t p)
    show ?thesis unfolding c_ready(1)
      by (rule quiet_consumer [OF inv]) (use c_ready N in \<open>simp_all add: q_def\<close>)
  next
    case (c_empty t p)
    show ?thesis unfolding c_empty(1)
      by (rule quiet_consumer [OF inv]) (use c_empty N in \<open>simp_all add: q_def\<close>)
  next
    case (c_retry t p)
    show ?thesis unfolding c_retry(1)
      by (rule quiet_consumer [OF inv]) (use c_retry N in \<open>simp_all add: q_def\<close>)
  next
    case (c_lost t p)
    show ?thesis unfolding c_lost(1)
      by (rule quiet_consumer [OF inv]) (use c_lost N in \<open>simp_all add: q_def\<close>)
  next
    case (p_claim t x p)
    have p: "p = length ?lg" "p \<le> pq_seq q ! (p mod N)" using p_claim prod [of t] N by (simp_all add: q_def)
    note slot = slot_to_push [OF slots N(2,4)]
    have seq: "pq_seq q ! (p mod N) = p" using slot p N by simp
    have others: "producer_ok N (p + 1) ?T (?lg @ [x]) (pq_seq q) (pq_data q) (ps_prod s u)" for u
    proof -
      have "pushing (ps_prod s u) \<noteq> Some p" using prod [of u] p N by (cases "ps_prod s u") auto
      from producer_ok_change [OF prod this N(2) _ _ _ _ refl, of p "p + 1" "?lg @ [x]" "pq_data q ! (p mod N)"] seq p N slot_lists
      show ?thesis by (metis (no_types, lifting) le_add1 le_refl list_update_id nth_append)
    qed
    have "holders pushing ((ps_prod s)(t := QP_Claimed x p)) = insert p P"
      using holders_upd [OF one(1), of t "QP_Claimed x p"] p_claim by (simp add: P_def)
    moreover have "p \<notin> P"
    proof
      assume "p \<in> P"
      then obtain u where "pushing (ps_prod s u) = Some p" by (auto simp: P_def holders_def)
      then show False using prod [of u] p N by (cases "ps_prod s u") auto
    qed
    then have "one_each pushing ((ps_prod s)(t := QP_Claimed x p))"
      by (intro one_each_upd [OF one(1)]) (simp add: P_def)
    moreover have "consumer_ok N ?T (?lg @ [x]) (pq_seq q) (ps_cons s u)" for u
      using cons [of u] N by (cases "ps_cons s u") (auto simp: nth_append)
    ultimately show ?thesis
      using p_claim p N others one(2) returned_claim_push [OF ret] seq slot
        slots_claim_push [OF slots [unfolded N(3)] N(2), of x]
      by (simp add: mpmc_inv_def Let_def nth_append flip: q_def C_def)
  next
    case (p_write t x p i)
    have p: "?T \<le> p" "p < ?H" "?lg ! p = x" "pq_seq q ! (p mod N) = p" using p_write prod [of t] by simp_all
    have "producer_ok N ?H ?T ?lg (pq_seq q) ((pq_data q)[p mod N := x]) (ps_prod s u)" if "u \<noteq> t" for u
    proof -
      have "pushing (ps_prod s u) \<noteq> Some p" using one(1) p_write that unfolding one_each_def by (metis pushing.simps(1))
      from producer_ok_change [OF prod this N(2), of p ?H ?T ?lg x] p(4) slot_lists show ?thesis
        by (metis le_refl list_update_id)
    qed
    moreover have "holders pushing ((ps_prod s)(t := QP_Written x p)) = P"
      using p_write by (simp add: P_def holders_same)
    moreover have "one_each pushing ((ps_prod s)(t := QP_Written x p))"
      by (intro one_each_upd [OF one(1)]) (use p_write in simp)
    ultimately show ?thesis
      using p_write p N slots_write [OF slots N(2) p(4), of x] cons one(2) ret slot_lists
      by (simp add: mpmc_inv_def Let_def flip: q_def C_def P_def)
  next
    case (p_publish t x p i)
    have p: "?T \<le> p" "p < ?H" "?lg ! p = x" "pq_seq q ! (p mod N) = p" "pq_data q ! (p mod N) = x"
      using p_publish prod [of t] by simp_all
    have "producer_ok N ?H ?T ?lg ((pq_seq q)[p mod N := p + 1]) (pq_data q) (ps_prod s u)" if "u \<noteq> t" for u
    proof -
      have "pushing (ps_prod s u) \<noteq> Some p" using one(1) p_publish that unfolding one_each_def by (metis pushing.simps(2))
      from producer_ok_change [OF prod this N(2), of "p + 1" ?H ?T ?lg "pq_data q ! (p mod N)"] p(4) slot_lists show ?thesis
        by simp
    qed
    moreover have "holders pushing ((ps_prod s)(t := QP_Idle)) = P - {p}"
      using holders_upd [OF one(1), of t QP_Idle] p_publish by (simp add: P_def)
    moreover have "one_each pushing ((ps_prod s)(t := QP_Idle))"
      by (intro one_each_upd [OF one(1)]) simp
    moreover have "consumer_ok N ?T ?lg ((pq_seq q)[p mod N := p + 1]) (ps_cons s u)" for u
    proof -
      have "popping (ps_cons s u) \<noteq> Some p" using cons [of u] p by (cases "ps_cons s u") auto
      from consumer_ok_change [OF cons this N(2), of "p + 1" ?T] p(4) slot_lists show ?thesis by simp
    qed
    ultimately show ?thesis
      using p_publish p N slots_publish [OF slots N(2) p(4,1,2)] one(2) ret
      by (simp add: mpmc_inv_def Let_def flip: q_def C_def P_def)
  next
    case (c_claim t p)
    have p: "p = ?T" "p < pq_seq q ! (p mod N)" using c_claim cons [of t] by (simp_all add: q_def)
    note slot = slot_to_pop [OF slots N(2)]
    have seq: "pq_seq q ! (p mod N) = p + 1" "p < ?H" using slot p by simp_all
    have prods: "producer_ok N ?H (p + 1) ?lg (pq_seq q) (pq_data q) (ps_prod s u)" for u
    proof (cases "pushing (ps_prod s u)")
      case (Some r)
      then have "?T \<le> r" "pq_seq q ! (r mod N) = r" using prod [of u] by (cases "ps_prod s u"; simp)+
      then have "p + 1 \<le> r" using seq p by (cases "r = p") auto
      then show ?thesis using prod [of u] Some by (cases "ps_prod s u") auto
    qed (use prod [of u] in \<open>cases "ps_prod s u"; simp\<close>)
    have "consumer_ok N (p + 1) ?lg (pq_seq q) (ps_cons s u)" for u
      using cons [of u] p by (cases "ps_cons s u") auto
    moreover have "holders popping ((ps_cons s)(t := QC_Claimed p)) = insert p C"
      using holders_upd [OF one(2), of t "QC_Claimed p"] c_claim by (simp add: C_def)
    moreover have "p \<notin> C"
    proof
      assume "p \<in> C"
      then obtain u where "popping (ps_cons s u) = Some p" by (auto simp: C_def holders_def)
      then show False using cons [of u] p by (cases "ps_cons s u") auto
    qed
    then have "one_each popping ((ps_cons s)(t := QC_Claimed p))"
      by (intro one_each_upd [OF one(2)]) (simp add: C_def)
    ultimately show ?thesis
      using c_claim p N prods one(1) returned_claim_pop [OF ret] seq slots_claim_pop [OF slots N(2)]
      by (simp add: mpmc_inv_def Let_def flip: q_def P_def)
  next
    case (c_read t p x)
    have p: "p < ?T" "pq_seq q ! (p mod N) = p + 1" using c_read cons [of t] by simp_all
    have "x = ?lg ! p" using slot_held [OF slots N(2) p(2)] c_read N by (simp add: q_def)
    moreover have "holders popping ((ps_cons s)(t := QC_Got x p)) = C"
      using c_read by (simp add: C_def holders_same)
    moreover have "one_each popping ((ps_cons s)(t := QC_Got x p))"
      by (intro one_each_upd [OF one(2)]) (use c_read in simp)
    ultimately show ?thesis
      using c_read p N slots prod cons one(1) ret
      by (simp add: mpmc_inv_def Let_def flip: q_def P_def)
  next
    case (c_release t x p i)
    have p: "p < ?T" "pq_seq q ! (p mod N) = p + 1" "x = ?lg ! p" using c_release cons [of t] by simp_all
    have "consumer_ok N ?T ?lg ((pq_seq q)[p mod N := p + N]) (ps_cons s u)" if "u \<noteq> t" for u
    proof -
      have "popping (ps_cons s u) \<noteq> Some p" using one(2) c_release that unfolding one_each_def by (metis popping.simps(2))
      from consumer_ok_change [OF cons this N(2), of "p + N" ?T] p(2) N(2) slot_lists show ?thesis by simp
    qed
    moreover have "producer_ok N ?H ?T ?lg ((pq_seq q)[p mod N := p + N]) (pq_data q) (ps_prod s u)" for u
    proof -
      have "pushing (ps_prod s u) \<noteq> Some p" using prod [of u] p by (cases "ps_prod s u") auto
      from producer_ok_change [OF prod this N(2), of "p + N" ?H ?T ?lg "pq_data q ! (p mod N)"] p(2) N(2) slot_lists
      show ?thesis by simp
    qed
    moreover have "holders popping ((ps_cons s)(t := QC_Idle)) = C - {p}"
      using holders_upd [OF one(2), of t QC_Idle] c_release by (simp add: C_def)
    moreover have "one_each popping ((ps_cons s)(t := QC_Idle))"
      by (intro one_each_upd [OF one(2)]) simp
    moreover have "p \<in> C" using c_release by (auto simp: C_def holders_def intro: exI [of _ t])
    ultimately show ?thesis
      using c_release p N slots_release [OF slots N(2) p(2,1) N(4)] one(1) returned_release [OF ret]
      by (simp add: mpmc_inv_def Let_def flip: q_def P_def)
  qed
qed

section \<open>The capacity is the least power of two\<close>

lemma between_powers: "2 \<le> m \<Longrightarrow> \<exists>n. 2 ^ n < m \<and> m \<le> 2 ^ Suc n" for m :: nat
proof (induction m rule: less_induct)
  case (less m)
  show ?case
  proof (cases "m = 2")
    case False
    then have "m - 1 < m" "2 \<le> m - 1" using less.prems by simp_all
    from less.IH [OF this] obtain n where n: "2 ^ n < m - 1" "m - 1 \<le> 2 ^ Suc n" by blast
    show ?thesis
    proof (cases "m \<le> 2 ^ Suc n")
      case True
      then show ?thesis using n by (intro exI [of _ n]) simp
    next
      case False
      then have "2 ^ Suc n < m" "m \<le> 2 ^ Suc (Suc n)" using n by simp_all
      then show ?thesis by blast
    qed
  qed (auto intro: exI [of _ 0])
qed

lemma mask_and_power: "(mask n + 1) AND mask n = (0 :: 64 word)"
proof -
  have "(mask n + 1 :: 64 word) = 2 ^ n" by (simp add: mask_eq_exp_minus_1)
  moreover have "(2 ^ n :: 64 word) AND mask n = 0" by (rule bit_word_eqI) (auto simp: bit_simps)
  ultimately show ?thesis by simp
qed

lemma capacity_power:
  assumes "2 \<le> unat v" and "unat v \<le> 2 ^ 63"
  obtains k where "0 < k" and "unat (next_power_of_two v) = 2 ^ k" and "unat v \<le> 2 ^ k" and "2 ^ k < 2 * unat v"
proof -
  obtain n where n: "2 ^ n < unat v" "unat v \<le> 2 ^ Suc n" using between_powers assms(1) by blast
  have "(2::nat) ^ n < 2 ^ 63" using n(1) assms(2) by simp
  then have "n < 63" by (rule power_less_imp_less_exp [rotated]) simp
  with n show ?thesis using next_power_of_two_exact [OF n] by (intro that [of "Suc n"]) simp_all
qed

lemma constructor_capacity:
  assumes "unat c \<le> 2 ^ 63"
  obtains k where "0 < k" and "unat (next_power_of_two (if c < 2 then 2 else c)) = 2 ^ k"
proof (cases "c < 2")
  case True
  have "unat (next_power_of_two 2) = 2 ^ 1" by code_simp
  then show ?thesis using True by (intro that [of 1]) simp_all
next
  case False
  then have "2 \<le> unat c" by (simp add: word_less_nat_alt)
  then obtain k where "0 < k" "unat (next_power_of_two c) = 2 ^ k" using capacity_power [OF _ assms] by blast
  then show ?thesis using False by (intro that [of k]) simp_all
qed

lemma mpmc_inv_start:
  assumes "0 < k" and "unat (next_power_of_two (if c < 2 then 2 else c)) = 2 ^ k"
  shows "mpmc_inv (2 ^ k) (mpmc_sys_new c d)"
proof -
  have N: "(1::nat) < 2 ^ k" by (rule one_less_power) (use assms(1) in simp_all)
  have slots: "slots_ok N 0 0 [] {} {} [0..<N] (replicate N d)" for N
    unfolding slots_ok_def by (intro conjI allI impI) (simp_all add: slot_ok_def)
  have q: "mpmc_new c d = \<lparr>pq_cap = 2 ^ k, pq_seq = [0..<2 ^ k], pq_data = replicate (2 ^ k) d, pq_head = 0, pq_tail = 0\<rparr>"
    unfolding mpmc_new_def assms(2) Let_def ..
  show ?thesis
    using N slots [of "2 ^ k"]
    by (simp add: mpmc_inv_def mpmc_sys_new_def q Let_def holders_def one_each_def returned_ok_def)
qed

lemma mpmc_reach_inv:
  assumes "mpmc_reach c d s" and "0 < k" and "unat (next_power_of_two (if c < 2 then 2 else c)) = 2 ^ k"
  shows "mpmc_inv (2 ^ k) s"
  using assms(1) by induction (rule mpmc_inv_start [OF assms(2,3)], rule mpmc_step_inv)

lemma earlier_lap:
  assumes "q mod N = p mod N" and "q < p"
  shows "q + N \<le> (p::nat)"
proof (rule ccontr)
  assume "\<not> q + N \<le> p"
  then show False using same_cell [of q N p] assms by simp
qed

section \<open>Properties\<close>

text \<open>
  C33: The queue is safe for many producers and consumers. Under every interleaving, every position that
  consumers have claimed has been returned exactly once, with the item of the push that claimed it,
  or is just being taken by one consumer; threads that are writing or reading hold different slots;
  at most \<open>N\<close> items are in the queue, where \<open>N\<close> is the least power of two that holds the
  requested capacity; a push gives up only when the queue is full or a consumer is just
  taking the item in the slot it needs, a pop only when it is empty or a producer is just writing the next item.
\<close>

theorem mpmc_concurrent_safe:
  assumes "unat c \<le> 2 ^ 63" and "mpmc_reach c d s"
    and "q = ps_queue s" and "N = unat (next_power_of_two (if c < 2 then 2 else c))"
  shows "distinct (map fst (ps_returned s)) \<and> (\<forall>(p, x) \<in> set (ps_returned s). x = ps_claimed s ! p) \<and>
    fst ` set (ps_returned s) \<union> {p. \<exists>t. popping (ps_cons s t) = Some p} = {..<pq_tail q} \<and>
    fst ` set (ps_returned s) \<inter> {p. \<exists>t. popping (ps_cons s t) = Some p} = {} \<and>
    length (ps_claimed s) = pq_head q \<and> pq_tail q \<le> pq_head q \<and> pq_head q \<le> pq_tail q + N \<and>
    (\<forall>t u p r. pushing (ps_prod s t) = Some p \<and> pushing (ps_prod s u) = Some r \<and> t \<noteq> u \<longrightarrow> p mod N \<noteq> r mod N) \<and>
    (\<forall>t u p r. popping (ps_cons s t) = Some p \<and> popping (ps_cons s u) = Some r \<and> t \<noteq> u \<longrightarrow> p mod N \<noteq> r mod N) \<and>
    (\<forall>t u p r. pushing (ps_prod s t) = Some p \<and> popping (ps_cons s u) = Some r \<longrightarrow> p mod N \<noteq> r mod N) \<and>
    (\<forall>t x p. ps_prod s t = QP_Loaded x p \<and> pq_seq q ! (p mod N) < p \<longrightarrow>
       pq_head q = pq_tail q + N \<or> (\<exists>u. popping (ps_cons s u) = Some (pq_head q - N))) \<and>
    (\<forall>t p. ps_cons s t = QC_Loaded p \<and> pq_seq q ! (p mod N) < p + 1 \<longrightarrow>
       pq_tail q = pq_head q \<or> (\<exists>u. pushing (ps_prod s u) = Some (pq_tail q)))"
proof -
  obtain k where k: "0 < k" "N = 2 ^ k" using constructor_capacity [OF assms(1)] assms(4) by metis
  let ?H = "pq_head q" and ?T = "pq_tail q"
  define P where "P = holders pushing (ps_prod s)"
  define C where "C = holders popping (ps_cons s)"
  have inv: "mpmc_inv N s" using mpmc_reach_inv [OF assms(2) k(1)] assms(4) k(2) by simp
  have N: "1 < N" "?H = length (ps_claimed s)" "?T \<le> ?H"
    and slots: "slots_ok N ?H ?T (ps_claimed s) P C (pq_seq q) (pq_data q)"
    and prod: "\<And>t. producer_ok N ?H ?T (ps_claimed s) (pq_seq q) (pq_data q) (ps_prod s t)"
    and cons: "\<And>t. consumer_ok N ?T (ps_claimed s) (pq_seq q) (ps_cons s t)"
    and one: "one_each pushing (ps_prod s)" "one_each popping (ps_cons s)"
    and ret: "returned_ok ?T (ps_claimed s) C (ps_returned s)"
    using inv unfolding mpmc_inv_def Let_def assms(3) P_def C_def by blast+
  have pseq: "pq_seq q ! (p mod N) = p" if "pushing (ps_prod s t) = Some p" for t p
    using prod [of t] that by (cases "ps_prod s t") auto
  have cseq: "pq_seq q ! (p mod N) = p + 1" if "popping (ps_cons s t) = Some p" for t p
    using cons [of t] that by (cases "ps_cons s t") auto
  have C: "{p. \<exists>t. popping (ps_cons s t) = Some p} = C" by (simp add: C_def holders_def)
  have room: "?H \<le> ?T + N"
  proof -
    obtain r where r: "r mod N = ?T mod N" "slot_ok N ?H ?T (ps_claimed s) P C r (pq_seq q ! (?T mod N)) (pq_data q ! (?T mod N))"
      using slot_at [OF slots, of ?T] N(1) by auto
    then have "r < ?T + N" "?H \<le> r + N" by (auto simp: slot_ok_def)
    moreover have "\<not> ?T < r" using earlier_lap [of ?T N r] r(1) \<open>r < ?T + N\<close> by auto
    ultimately show ?thesis by simp
  qed
  have full: "?H = ?T + N \<or> (\<exists>u. popping (ps_cons s u) = Some (?H - N))"
    if "ps_prod s t = QP_Loaded x p" "pq_seq q ! (p mod N) < p" for t x p
  proof -
    obtain r where r: "r mod N = p mod N" "slot_ok N ?H ?T (ps_claimed s) P C r (pq_seq q ! (p mod N)) (pq_data q ! (p mod N))"
      using slot_at [OF slots, of p] N(1) by auto
    have "r < p" using r(2) that(2) by (auto simp: slot_ok_def)
    then have "r + N \<le> p" using earlier_lap [OF r(1)] by simp
    moreover have "p \<le> ?H" using prod [of t] that(1) by simp
    ultimately have H: "?H = r + N" using r(2) by (auto simp: slot_ok_def)
    show ?thesis
    proof (cases "?T \<le> r")
      case False
      then have "r \<in> C" using r(2) by (auto simp: slot_ok_def)
      then show ?thesis using H by (auto simp: C_def holders_def)
    qed (use H room in simp)
  qed
  have empty: "?T = ?H \<or> (\<exists>u. pushing (ps_prod s u) = Some ?T)"
    if "ps_cons s t = QC_Loaded p" "pq_seq q ! (p mod N) < p + 1" for t p
  proof -
    obtain r where r: "r mod N = p mod N" "slot_ok N ?H ?T (ps_claimed s) P C r (pq_seq q ! (p mod N)) (pq_data q ! (p mod N))"
      using slot_at [OF slots, of p] N(1) by auto
    have p: "p \<le> ?T" using cons [of t] that(1) by simp
    show ?thesis
    proof (cases "pq_seq q ! (p mod N) = r \<and> ?T \<le> r")
      case True
      then have "r = ?T" using that(2) p by simp
      then show ?thesis using r(2) True N(3) by (auto simp: slot_ok_def P_def holders_def)
    next
      case False
      then have "r < p" "?H \<le> r + N" using r(2) that(2) by (auto simp: slot_ok_def)
      then show ?thesis using earlier_lap [OF r(1)] p N(3) by simp
    qed
  qed
  have push_push: "\<forall>t u p r. pushing (ps_prod s t) = Some p \<and> pushing (ps_prod s u) = Some r \<and> t \<noteq> u \<longrightarrow> p mod N \<noteq> r mod N"
    using pseq one(1) unfolding one_each_def by metis
  have pop_pop: "\<forall>t u p r. popping (ps_cons s t) = Some p \<and> popping (ps_cons s u) = Some r \<and> t \<noteq> u \<longrightarrow> p mod N \<noteq> r mod N"
    using cseq one(2) unfolding one_each_def by (metis add_right_cancel)
  have push_pop: "\<forall>t u p r. pushing (ps_prod s t) = Some p \<and> popping (ps_cons s u) = Some r \<longrightarrow> p mod N \<noteq> r mod N"
    using pseq cseq not_next [OF N(1)] by metis
  have "distinct (map fst (ps_returned s))" "\<forall>(p, x) \<in> set (ps_returned s). x = ps_claimed s ! p"
    "fst ` set (ps_returned s) \<union> C = {..<?T}" "fst ` set (ps_returned s) \<inter> C = {}" "length (ps_claimed s) = ?H"
    using ret N(2) unfolding returned_ok_def by simp_all
  moreover have "\<forall>t x p. ps_prod s t = QP_Loaded x p \<and> pq_seq q ! (p mod N) < p \<longrightarrow>
      ?H = ?T + N \<or> (\<exists>u. popping (ps_cons s u) = Some (?H - N))"
    using full by blast
  moreover have "\<forall>t p. ps_cons s t = QC_Loaded p \<and> pq_seq q ! (p mod N) < p + 1 \<longrightarrow>
      ?T = ?H \<or> (\<exists>u. pushing (ps_prod s u) = Some ?T)"
    using empty by blast
  ultimately show ?thesis
    unfolding C using N(3) room push_push pop_pop push_pop by (intro conjI) assumption+
qed

text \<open>A producer pushes and another thread pops the item.\<close>

lemma mpmc_example:
  "\<exists>s :: (bool, nat) mpmc_sys. mpmc_reach 2 0 s \<and> ps_returned s = [(0, 5)] \<and> pq_head (ps_queue s) = 1"
proof -
  have cap: "unat (next_power_of_two 2) = 2" by code_simp
  let ?start = "mpmc_sys_new 2 0 :: (bool, nat) mpmc_sys"
  let ?q = "\<lambda>sq dt h t. \<lparr>pq_cap = 2, pq_seq = sq, pq_data = dt, pq_head = h, pq_tail = t\<rparr> :: nat mpmc"
  let ?st = "\<lambda>q p c lg rs. \<lparr>ps_queue = q, ps_prod = (\<lambda>_. QP_Idle)(True := p), ps_cons = (\<lambda>_. QC_Idle)(False := c),
    ps_claimed = lg, ps_returned = rs\<rparr> :: (bool, nat) mpmc_sys"
  have "?start = ?st (?q [0, 1] [0, 0] 0 0) QP_Idle QC_Idle [] []"
    by (auto simp: mpmc_sys_new_def mpmc_new_def cap upt_conv_Cons numeral_2_eq_2)
  then have "mpmc_reach 2 0 (?st (?q [0, 1] [0, 0] 0 0) QP_Idle QC_Idle [] [])" by (metis mpmc_reach.start)
  from mpmc_reach.step [OF this p_load [of _ True 5]] have "mpmc_reach 2 0 (?st (?q [0, 1] [0, 0] 0 0) (QP_Loaded 5 0) QC_Idle [] [])" by simp
  from mpmc_reach.step [OF this p_free [of _ True 5 0]] have "mpmc_reach 2 0 (?st (?q [0, 1] [0, 0] 0 0) (QP_Free 5 0) QC_Idle [] [])" by simp
  from mpmc_reach.step [OF this p_claim [of _ True 5 0]] have "mpmc_reach 2 0 (?st (?q [0, 1] [0, 0] 1 0) (QP_Claimed 5 0) QC_Idle [5] [])" by simp
  from mpmc_reach.step [OF this p_write [of _ True 5 0 0]] have "mpmc_reach 2 0 (?st (?q [0, 1] [5, 0] 1 0) (QP_Written 5 0) QC_Idle [5] [])" by simp
  from mpmc_reach.step [OF this p_publish [of _ True 5 0 0]] have "mpmc_reach 2 0 (?st (?q [1, 1] [5, 0] 1 0) QP_Idle QC_Idle [5] [])" by simp
  from mpmc_reach.step [OF this c_load [of _ False]] have "mpmc_reach 2 0 (?st (?q [1, 1] [5, 0] 1 0) QP_Idle (QC_Loaded 0) [5] [])" by simp
  from mpmc_reach.step [OF this c_ready [of _ False 0]] have "mpmc_reach 2 0 (?st (?q [1, 1] [5, 0] 1 0) QP_Idle (QC_Ready 0) [5] [])" by simp
  from mpmc_reach.step [OF this c_claim [of _ False 0]] have "mpmc_reach 2 0 (?st (?q [1, 1] [5, 0] 1 1) QP_Idle (QC_Claimed 0) [5] [])" by simp
  from mpmc_reach.step [OF this c_read [of _ False 0 5]] have "mpmc_reach 2 0 (?st (?q [1, 1] [5, 0] 1 1) QP_Idle (QC_Got 5 0) [5] [])" by simp
  from mpmc_reach.step [OF this c_release [of _ False 5 0 0]] have "mpmc_reach 2 0 (?st (?q [2, 1] [5, 0] 1 1) QP_Idle QC_Idle [5] [(0, 5)])" by (simp add: numeral_2_eq_2)
  then show ?thesis by (intro exI conjI) (assumption | simp)+
qed

theorem mpmc_concurrent_safe_witness:
  "\<exists>s :: (bool, nat) mpmc_sys. mpmc_reach 2 0 s \<and> ps_returned s = [(0, 5)] \<and> ps_claimed s = [5]"
proof -
  obtain s :: "(bool, nat) mpmc_sys" where s: "mpmc_reach 2 0 s" "ps_returned s = [(0, 5)]" "pq_head (ps_queue s) = 1"
    using mpmc_example by blast
  have "length (ps_claimed s) = 1 \<and> ps_claimed s ! 0 = 5"
    using mpmc_concurrent_safe [OF _ s(1) refl refl] s(2,3) by simp
  then have "ps_claimed s = [5]" by (cases "ps_claimed s") auto
  with s show ?thesis by blast
qed

text \<open>
  The capacity is the least power of two that is at least the requested one, for all requests up to
  \<open>2 ^ 63\<close>, and the bitwise test for powers of two accepts it.
\<close>

theorem next_power_of_two_least:
  assumes "2 \<le> unat v" and "unat v \<le> 2 ^ 63"
  shows "unat v \<le> unat (next_power_of_two v) \<and> is_power_of_two (next_power_of_two v) \<and>
    (\<forall>n. unat v \<le> 2 ^ n \<longrightarrow> unat (next_power_of_two v) \<le> 2 ^ n)"
proof -
  obtain k where k: "unat (next_power_of_two v) = 2 ^ k" "unat v \<le> 2 ^ k" "2 ^ k < 2 * unat v"
    using capacity_power [OF assms] by metis
  have "(2::nat) ^ k < 2 ^ 64" using unsigned_less [of "next_power_of_two v", where ?'a = nat] k(1) by simp
  then have "k < 64" by (rule power_less_imp_less_exp [rotated]) simp
  have "next_power_of_two v = word_of_nat (2 ^ k)" by (simp flip: k(1))
  then have "next_power_of_two v = mask k + 1" by (simp add: mask_eq_exp_minus_1)
  moreover have "next_power_of_two v \<noteq> 0" using k(1) by auto
  ultimately have "is_power_of_two (next_power_of_two v)"
    using mask_and_power [of k] by (simp add: is_power_of_two_def)
  moreover have "(2::nat) ^ k \<le> 2 ^ n" if "unat v \<le> 2 ^ n" for n
  proof (rule ccontr)
    assume "\<not> (2::nat) ^ k \<le> 2 ^ n"
    then have "n < k" by (meson not_le one_le_numeral power_increasing)
    then have "(2::nat) ^ Suc n \<le> 2 ^ k" by (intro power_increasing) simp_all
    then show False using k(3) that by simp
  qed
  ultimately show ?thesis using k by simp
qed

theorem next_power_of_two_least_witness:
  "unat (next_power_of_two 1000) = 1024 \<and> is_power_of_two (next_power_of_two 1000)"
proof -
  have "unat (next_power_of_two 1000) = 1024" by code_simp
  then show ?thesis using next_power_of_two_least [of 1000] by simp
qed
end
