(* ===== verification/Backpressure.thy ===== *)
theory Backpressure
  imports MPMC_Queue
begin

text \<open>
  Pushing into a queue that may be full: \<open>BackpressuredQueue\<close> of the concurrency runtime, from
  \<open>src/cunk/include/concurrency/backpressure/BackpressurePolicy.h\<close>.

  The queue behind it is any one that implements \<open>IQueue.h\<close>: \<open>tp\<close> is its \<open>try_push\<close>, which takes the item
  by value, so that every attempt leaves the caller with the moved-from item \<open>mv x\<close>, also when it
  fails. What \<open>mv\<close> is depends on the type: the identity for numbers, the empty function for
  \<open>std::function\<close> in the usual library. Between the attempts other threads change the queue: \<open>env i\<close> is what
  they do before attempt \<open>i\<close>; \<open>clock j\<close> is the \<open>j\<close>-th reading of the clock in microseconds.
\<close>

section \<open>The policy\<close>

datatype backpressure_strategy = BP_Drop | BP_Block | BP_Reject

record backpressure_config =
  bp_strategy :: backpressure_strategy
  bp_block_timeout :: int
  bp_spin_count :: nat

definition bp_default :: backpressure_config where
  "bp_default = \<lparr>bp_strategy = BP_Reject, bp_block_timeout = 1000, bp_spin_count = 64\<rparr>"

fun bp_spin :: "('a \<Rightarrow> 'q \<Rightarrow> bool \<times> 'q) \<Rightarrow> (nat \<Rightarrow> 'q \<Rightarrow> 'q) \<Rightarrow> ('a \<Rightarrow> 'a) \<Rightarrow> nat \<Rightarrow> nat \<Rightarrow> 'a \<Rightarrow> 'q \<Rightarrow>
    bool \<times> nat \<times> 'a \<times> 'q" where
  "bp_spin tp env mv 0 i x q = (False, i, x, q)"
| "bp_spin tp env mv (Suc n) i x q =
     (let (ok, q') = tp x (env i q)
      in if ok then (True, i + 1, mv x, q') else bp_spin tp env mv n (i + 1) (mv x) q')"

partial_function (option) bp_wait :: "('a \<Rightarrow> 'q \<Rightarrow> bool \<times> 'q) \<Rightarrow> (nat \<Rightarrow> 'q \<Rightarrow> 'q) \<Rightarrow> ('a \<Rightarrow> 'a) \<Rightarrow> (nat \<Rightarrow> int) \<Rightarrow> int \<Rightarrow>
    nat \<Rightarrow> nat \<Rightarrow> 'a \<Rightarrow> 'q \<Rightarrow> (bool \<times> 'q) option" where
  "bp_wait tp env mv clock deadline j i x q =
     (if clock j < deadline
      then let (ok, q') = tp x (env i q)
           in if ok then Some (True, q') else bp_wait tp env mv clock deadline (j + 1) (i + 1) (mv x) q'
      else Some (False, q))"

partial_function (option) bp_forever :: "('a \<Rightarrow> 'q \<Rightarrow> bool \<times> 'q) \<Rightarrow> (nat \<Rightarrow> 'q \<Rightarrow> 'q) \<Rightarrow> ('a \<Rightarrow> 'a) \<Rightarrow> nat \<Rightarrow> 'a \<Rightarrow> 'q \<Rightarrow>
    (bool \<times> 'q) option" where
  "bp_forever tp env mv i x q =
     (let (ok, q') = tp x (env i q)
      in if ok then Some (True, q') else bp_forever tp env mv (i + 1) (mv x) q')"

definition try_push_blocking :: "('a \<Rightarrow> 'q \<Rightarrow> bool \<times> 'q) \<Rightarrow> (nat \<Rightarrow> 'q \<Rightarrow> 'q) \<Rightarrow> ('a \<Rightarrow> 'a) \<Rightarrow> (nat \<Rightarrow> int) \<Rightarrow>
    backpressure_config \<Rightarrow> 'a \<Rightarrow> 'q \<Rightarrow> (bool \<times> 'q) option" where
  "try_push_blocking tp env mv clock cfg x q =
     (let (ok, q1) = tp x (env 0 q)
      in if ok then Some (True, q1)
         else let (ok, i, y, q2) = bp_spin tp env mv (bp_spin_count cfg) 1 (mv x) q1
              in if ok then Some (True, q2)
                 else if 0 < bp_block_timeout cfg
                 then bp_wait tp env mv clock (clock 0 + bp_block_timeout cfg) 1 i y q2
                 else bp_forever tp env mv i y q2)"

definition bp_push :: "('a \<Rightarrow> 'q \<Rightarrow> bool \<times> 'q) \<Rightarrow> (nat \<Rightarrow> 'q \<Rightarrow> 'q) \<Rightarrow> ('a \<Rightarrow> 'a) \<Rightarrow> (nat \<Rightarrow> int) \<Rightarrow>
    backpressure_config \<Rightarrow> 'a \<Rightarrow> 'q \<Rightarrow> (bool \<times> 'q) option" where
  "bp_push tp env mv clock cfg x q =
     (if bp_strategy cfg = BP_Block then try_push_blocking tp env mv clock cfg x q
      else Some (tp x (env 0 q)))"

section \<open>The attempts\<close>

text \<open>The queue before attempt \<open>i\<close> of a push whose earlier attempts failed, and that attempt.\<close>

fun bp_state :: "('a \<Rightarrow> 'q \<Rightarrow> bool \<times> 'q) \<Rightarrow> (nat \<Rightarrow> 'q \<Rightarrow> 'q) \<Rightarrow> ('a \<Rightarrow> 'a) \<Rightarrow> 'a \<Rightarrow> 'q \<Rightarrow> nat \<Rightarrow> 'q" where
  "bp_state tp env mv x q 0 = q"
| "bp_state tp env mv x q (Suc i) = snd (tp ((mv ^^ i) x) (env i (bp_state tp env mv x q i)))"

definition bp_attempt :: "('a \<Rightarrow> 'q \<Rightarrow> bool \<times> 'q) \<Rightarrow> (nat \<Rightarrow> 'q \<Rightarrow> 'q) \<Rightarrow> ('a \<Rightarrow> 'a) \<Rightarrow> 'a \<Rightarrow> 'q \<Rightarrow> nat \<Rightarrow> bool \<times> 'q" where
  "bp_attempt tp env mv x q i = tp ((mv ^^ i) x) (env i (bp_state tp env mv x q i))"

lemma bp_state_Suc: "bp_state tp env mv x q (Suc i) = snd (bp_attempt tp env mv x q i)"
  by (simp add: bp_attempt_def)

declare bp_state.simps(2) [simp del]

lemma funpow_Suc_item: "(mv ^^ Suc i) x = mv ((mv ^^ i) x)"
  by simp

definition all_fail :: "('a \<Rightarrow> 'q \<Rightarrow> bool \<times> 'q) \<Rightarrow> (nat \<Rightarrow> 'q \<Rightarrow> 'q) \<Rightarrow> ('a \<Rightarrow> 'a) \<Rightarrow> 'a \<Rightarrow> 'q \<Rightarrow> nat \<Rightarrow> nat \<Rightarrow> bool" where
  "all_fail tp env mv x q i m \<longleftrightarrow> (\<forall>l. i \<le> l \<and> l < m \<longrightarrow> \<not> fst (bp_attempt tp env mv x q l))"

lemma all_fail_refl [simp]: "all_fail tp env mv x q i i"
  by (auto simp: all_fail_def)

text \<open>The outcome of the attempts from \<open>i\<close> on: the first success, or failures only.\<close>

definition outcome :: "('a \<Rightarrow> 'q \<Rightarrow> bool \<times> 'q) \<Rightarrow> (nat \<Rightarrow> 'q \<Rightarrow> 'q) \<Rightarrow> ('a \<Rightarrow> 'a) \<Rightarrow> 'a \<Rightarrow> 'q \<Rightarrow> nat \<Rightarrow> nat \<Rightarrow> bool \<times> 'q \<Rightarrow> bool" where
  "outcome tp env mv x q i m res \<longleftrightarrow> i \<le> m \<and> all_fail tp env mv x q i m \<and>
     (if fst res then bp_attempt tp env mv x q m = res else snd res = bp_state tp env mv x q m)"

lemma outcome_later:
  assumes "\<not> fst (bp_attempt tp env mv x q i)" and "outcome tp env mv x q (Suc i) m res"
  shows "outcome tp env mv x q i m res"
proof -
  have "\<not> fst (bp_attempt tp env mv x q l)" if "i \<le> l" "l < m" for l
    using assms that unfolding outcome_def all_fail_def by (cases "l = i") auto
  with assms(2) show ?thesis unfolding outcome_def all_fail_def by simp
qed

lemma outcome_joined:
  "all_fail tp env mv x q i j \<Longrightarrow> i \<le> j \<Longrightarrow> outcome tp env mv x q j m res \<Longrightarrow> outcome tp env mv x q i m res"
  unfolding outcome_def all_fail_def by (auto simp: not_le) (metis not_le)+

lemma bp_spin_outcome:
  assumes "bp_spin tp env mv n i ((mv ^^ i) x) (bp_state tp env mv x q i) = (ok, i', y, q')"
  shows "(if ok then (\<exists>m < i + n. outcome tp env mv x q i m (True, q'))
          else i' = i + n \<and> y = (mv ^^ i') x \<and> outcome tp env mv x q i i' (False, q'))"
  using assms
proof (induction n arbitrary: i)
  case (Suc n)
  obtain b q1 where a: "bp_attempt tp env mv x q i = (b, q1)" by fastforce
  then have tp: "tp ((mv ^^ i) x) (env i (bp_state tp env mv x q i)) = (b, q1)" by (simp add: bp_attempt_def)
  show ?case
  proof (cases b)
    case True
    then have "outcome tp env mv x q i i (True, q')" "ok"
      using Suc.prems a by (auto simp: tp outcome_def all_fail_def)
    then show ?thesis by (auto intro!: exI [of _ i])
  next
    case False
    then have "bp_spin tp env mv n (Suc i) ((mv ^^ Suc i) x) (bp_state tp env mv x q (Suc i)) = (ok, i', y, q')"
      using Suc.prems a by (simp add: tp bp_state_Suc)
    from Suc.IH [OF this] outcome_later [of tp env mv x q i] a False show ?thesis
      by (cases ok) auto
  qed
qed (auto simp: outcome_def all_fail_def)

lemma bp_wait_induct [consumes 1, case_names body]:
  assumes "bp_wait tp env mv clock dl j i y r = Some res"
    and "\<And>rec tp env mv clock dl j i y r res.
      (\<And>tp env mv clock dl j i y r res. rec tp env mv clock dl j i y r = Some res \<Longrightarrow> P tp env mv clock dl j i y r res) \<Longrightarrow>
      (if clock j < dl
       then let (ok, q') = tp y (env i r) in if ok then Some (True, q') else rec tp env mv clock dl (j + 1) (i + 1) (mv y) q'
       else Some (False, r)) = Some res \<Longrightarrow> P tp env mv clock dl j i y r res"
  shows "P tp env mv clock dl j i y r res"
  by (rule bp_wait.raw_induct [of P "((((((((tp, env), mv), clock), dl), j), i), y), r)" res, unfolded case_prod_conv,
        OF _ assms(1)]) (rule assms(2))

lemma bp_forever_induct [consumes 1, case_names body]:
  assumes "bp_forever tp env mv i y r = Some res"
    and "\<And>rec tp env mv i y r res.
      (\<And>tp env mv i y r res. rec tp env mv i y r = Some res \<Longrightarrow> P tp env mv i y r res) \<Longrightarrow>
      (let (ok, q') = tp y (env i r) in if ok then Some (True, q') else rec tp env mv (i + 1) (mv y) q') = Some res \<Longrightarrow>
      P tp env mv i y r res"
  shows "P tp env mv i y r res"
  by (rule bp_forever.raw_induct [of P "(((((tp, env), mv), i), y), r)" res, unfolded case_prod_conv, OF _ assms(1)])
    (rule assms(2))

lemma bp_wait_outcome:
  "bp_wait tp env mv clock dl j i y r = Some res \<Longrightarrow>
     (\<forall>x q. y = (mv ^^ i) x \<longrightarrow> r = bp_state tp env mv x q i \<longrightarrow> (\<exists>m. outcome tp env mv x q i m res))"
proof (induction rule: bp_wait_induct)
  case (body rec tp env mv clock dl j i y r res)
  show ?case
  proof (intro allI impI)
    fix x q assume y: "y = (mv ^^ i) x" "r = bp_state tp env mv x q i"
    obtain b q1 where a: "bp_attempt tp env mv x q i = (b, q1)" by fastforce
    then have tp: "tp y (env i r) = (b, q1)" by (simp add: bp_attempt_def y)
    show "\<exists>m. outcome tp env mv x q i m res"
    proof (cases "clock j < dl \<and> \<not> b")
      case True
      then have "rec tp env mv clock dl (j + 1) (i + 1) (mv y) q1 = Some res" using body(2) tp by simp
      from body(1) [OF this, rule_format, of x q] obtain m where "outcome tp env mv x q (Suc i) m res"
        using a by (auto simp: y bp_state_Suc)
      with outcome_later [OF _ this] a True show ?thesis by auto
    next
      case False
      then have "res = (if clock j < dl then (True, q1) else (False, r)) \<and> (clock j < dl \<longrightarrow> b)"
        using body(2) by (auto simp: tp split: if_splits)
      then have "outcome tp env mv x q i i res" using a by (simp add: outcome_def y)
      then show ?thesis by blast
    qed
  qed
qed

lemma bp_forever_outcome:
  "bp_forever tp env mv i y r = Some res \<Longrightarrow>
     (\<forall>x q. y = (mv ^^ i) x \<longrightarrow> r = bp_state tp env mv x q i \<longrightarrow> (\<exists>m. fst res \<and> outcome tp env mv x q i m res))"
proof (induction rule: bp_forever_induct)
  case (body rec tp env mv i y r res)
  show ?case
  proof (intro allI impI)
    fix x q assume y: "y = (mv ^^ i) x" "r = bp_state tp env mv x q i"
    obtain b q1 where a: "bp_attempt tp env mv x q i = (b, q1)" by fastforce
    then have tp: "tp y (env i r) = (b, q1)" by (simp add: bp_attempt_def y)
    show "\<exists>m. fst res \<and> outcome tp env mv x q i m res"
    proof (cases b)
      case False
      then have "rec tp env mv (i + 1) (mv y) q1 = Some res" using body(2) tp by simp
      from body(1) [OF this, rule_format, of x q] obtain m where "fst res" "outcome tp env mv x q (Suc i) m res"
        using a by (auto simp: y bp_state_Suc)
      with outcome_later [OF _ this(2)] a False show ?thesis by auto
    next
      case True
      then have "res = (True, q1)" using body(2) by (simp add: tp)
      then have "fst res \<and> outcome tp env mv x q i i res" using a True by (simp add: outcome_def)
      then show ?thesis by blast
    qed
  qed
qed

text \<open>A push is a sequence of attempts: the item of attempt \<open>i\<close> has been moved from \<open>i\<close> times.\<close>

lemma bp_push_outcome:
  assumes "bp_push tp env mv clock cfg x q = Some res"
  shows "\<exists>m. outcome tp env mv x q 0 (if fst res then m else Suc m) res \<and> (bp_strategy cfg \<noteq> BP_Block \<longrightarrow> m = 0)"
proof -
  obtain b q1 where a: "bp_attempt tp env mv x q 0 = (b, q1)" by fastforce
  then have tp: "tp x (env 0 q) = (b, q1)" by (simp add: bp_attempt_def)
  have one: ?thesis if "res = (b, q1)"
    using a that by (intro exI [of _ 0]) (auto simp: outcome_def all_fail_def bp_state_Suc)
  show ?thesis
  proof (cases "b \<or> bp_strategy cfg \<noteq> BP_Block")
    case True
    then have "res = (b, q1)" using assms tp by (auto simp: bp_push_def try_push_blocking_def split: if_splits)
    then show ?thesis by (rule one)
  next
    case False
    then have first: "all_fail tp env mv x q 0 1" using a by (auto simp: all_fail_def)
    have s1: "bp_state tp env mv x q 1 = q1" using a by (simp add: bp_state_Suc)
    obtain ok i y q2 where sp: "bp_spin tp env mv (bp_spin_count cfg) 1 (mv x) q1 = (ok, i, y, q2)" by (metis prod_cases4)
    have sp_out: "if ok then (\<exists>m < 1 + bp_spin_count cfg. outcome tp env mv x q 1 m (True, q2))
        else i = 1 + bp_spin_count cfg \<and> y = (mv ^^ i) x \<and> outcome tp env mv x q 1 i (False, q2)"
      using bp_spin_outcome [of tp env mv "bp_spin_count cfg" 1 x q] sp s1 by simp
    have "\<exists>m. outcome tp env mv x q 1 m res"
    proof (cases ok)
      case True
      then show ?thesis using sp_out assms False tp sp by (auto simp: bp_push_def try_push_blocking_def)
    next
      case nok: False
      then have y: "y = (mv ^^ i) x" "q2 = bp_state tp env mv x q i" "all_fail tp env mv x q 1 i" "1 \<le> i"
        using sp_out by (auto simp: outcome_def)
      have "bp_wait tp env mv clock (clock 0 + bp_block_timeout cfg) 1 i y q2 = Some res \<or> bp_forever tp env mv i y q2 = Some res"
        using assms False tp sp nok by (auto simp: bp_push_def try_push_blocking_def split: if_splits)
      then have "\<exists>m. outcome tp env mv x q i m res"
        using bp_wait_outcome [rule_format, OF _ y(1,2)] bp_forever_outcome [rule_format, OF _ y(1,2)] by blast
      then show ?thesis using outcome_joined [OF y(3,4)] by blast
    qed
    then obtain m where m: "outcome tp env mv x q 1 m res" by blast
    then have out: "outcome tp env mv x q 0 m res" "1 \<le> m"
      using outcome_joined [OF first _ m] m by (simp_all add: outcome_def)
    show ?thesis
    proof (cases "fst res")
      case True
      then show ?thesis using out False by auto
    next
      case nres: False
      then show ?thesis using out False by (intro exI [of _ "m - 1"]) simp
    qed
  qed
qed

section \<open>Pushing into the ring\<close>

text \<open>\<open>try_push\<close> of the ring, which always returns.\<close>

abbreviation ring_push :: "'a \<Rightarrow> 'a mpmc \<Rightarrow> bool \<times> 'a mpmc" where
  "ring_push \<equiv> \<lambda>x q. the (mpmc_try_push x q)"

lemma ring_push_cases:
  assumes "mpmc_wf k q" and "ring_push x q = (ok, q')"
  shows "mpmc_wf k q' \<and> (if ok then length (mpmc_items k q) < 2 ^ k \<and> mpmc_items k q' = mpmc_items k q @ [x]
                          else length (mpmc_items k q) = 2 ^ k \<and> q' = q)"
  using assms mpmc_push_room [OF assms(1), of x] mpmc_push_full [OF assms(1), of x] mpmc_bounds [OF assms(1)]
  by (cases "pq_head q < pq_tail q + 2 ^ k") (auto simp: mpmc_items_length)

lemma bp_state_wf:
  assumes "mpmc_wf k q" and "\<And>i q. mpmc_wf k q \<Longrightarrow> mpmc_wf k (env i q)"
  shows "mpmc_wf k (bp_state ring_push env mv x q i)"
proof (induction i)
  case (Suc i)
  show ?case
    using ring_push_cases [OF assms(2) [OF Suc], of "(mv ^^ i) x" i] unfolding bp_state.simps by (metis prod.collapse)
qed (use assms(1) in simp)

lemma bp_wait_returns:
  "dl \<le> clock (j + n) \<Longrightarrow> \<exists>r. bp_wait tp env mv clock dl j i y q = Some r"
proof (induction n arbitrary: j i y q)
  case 0
  then show ?case by (subst bp_wait.simps) auto
next
  case (Suc n)
  then show ?case by (subst bp_wait.simps) (auto simp: split_beta Let_def)
qed

lemma bp_forever_returns:
  "fst (bp_attempt tp env mv x q (i + n)) \<Longrightarrow> \<exists>r. bp_forever tp env mv i ((mv ^^ i) x) (bp_state tp env mv x q i) = Some r"
proof (induction n arbitrary: i)
  case 0
  then show ?case by (subst bp_forever.simps) (auto simp: split_beta Let_def bp_attempt_def)
next
  case (Suc n)
  have "\<exists>r. bp_forever tp env mv (Suc i) ((mv ^^ Suc i) x) (bp_state tp env mv x q (Suc i)) = Some r"
    using Suc.IH [of "Suc i"] Suc.prems by simp
  then show ?case
    by (subst bp_forever.simps) (auto simp: split_beta Let_def bp_state_Suc bp_attempt_def)
qed

lemma backpressure_push_bounds:
  assumes "mpmc_wf k q" and "\<And>i q. mpmc_wf k q \<Longrightarrow> mpmc_wf k (env i q)"
    and "bp_push ring_push env mv clock cfg x q = Some (ok, q')"
  shows "mpmc_wf k q' \<and>
    (ok \<longrightarrow> (\<exists>m q0. mpmc_items k q' = mpmc_items k q0 @ [(mv ^^ m) x] \<and> (m = 0 \<longrightarrow> q0 = env 0 q) \<and>
       (0 < m \<longrightarrow> bp_strategy cfg = BP_Block \<and> length (mpmc_items k (env 0 q)) = 2 ^ k))) \<and>
    (\<not> ok \<longrightarrow> length (mpmc_items k q') = 2 ^ k)"
proof -
  obtain m where m: "outcome ring_push env mv x q 0 (if ok then m else Suc m) (ok, q')"
    "bp_strategy cfg \<noteq> BP_Block \<longrightarrow> m = 0"
    using bp_push_outcome [OF assms(3)] by auto
  define q0 where "q0 = env m (bp_state ring_push env mv x q m)"
  have wf: "mpmc_wf k q0" unfolding q0_def by (rule assms(2), rule bp_state_wf [OF assms(1,2)])
  have at: "bp_attempt ring_push env mv x q m = (ok, q')"
  proof (cases ok)
    case False
    then have "\<not> fst (bp_attempt ring_push env mv x q m)" "q' = snd (bp_attempt ring_push env mv x q m)"
      using m(1) by (simp_all add: outcome_def all_fail_def bp_state_Suc)
    then show ?thesis using False by (simp add: prod_eq_iff)
  qed (use m(1) in \<open>simp add: outcome_def\<close>)
  then have last: "mpmc_wf k q' \<and> (if ok then length (mpmc_items k q0) < 2 ^ k \<and> mpmc_items k q' = mpmc_items k q0 @ [(mv ^^ m) x]
      else length (mpmc_items k q0) = 2 ^ k \<and> q' = q0)"
    by (intro ring_push_cases [OF wf]) (simp add: bp_attempt_def q0_def)
  have "length (mpmc_items k (env 0 q)) = 2 ^ k" if "0 < m" "ok"
  proof -
    have "\<not> fst (bp_attempt ring_push env mv x q 0)" using m(1) that by (simp add: outcome_def all_fail_def)
    then obtain q1 where "ring_push x (env 0 q) = (False, q1)" by (simp add: bp_attempt_def prod_eq_iff)
    from ring_push_cases [OF assms(2) [OF assms(1)] this] show ?thesis by simp
  qed
  moreover have "q0 = env 0 q" if "m = 0" using that by (simp add: q0_def)
  moreover have "bp_strategy cfg = BP_Block" if "0 < m" using m(2) that by auto
  ultimately have "\<exists>m q0. mpmc_items k q' = mpmc_items k q0 @ [(mv ^^ m) x] \<and> (m = 0 \<longrightarrow> q0 = env 0 q) \<and>
       (0 < m \<longrightarrow> bp_strategy cfg = BP_Block \<and> length (mpmc_items k (env 0 q)) = 2 ^ k)" if "ok"
    using last that by (intro exI [of _ m] exI [of _ q0]) simp
  then show ?thesis using last by simp
qed

section \<open>Properties\<close>

text \<open>
  What a push enqueues. A push that reports success has appended one item behind the others, a push that reports
  failure found the queue full at its last attempt and changed nothing; without waiting the item is the one given.
  But if the first of several attempts failed, the item appended is the one that
  was given after having been moved from once for every failed attempt.
\<close>

theorem backpressure_push_exact:
  assumes "mpmc_wf k q" and "\<And>i q. mpmc_wf k q \<Longrightarrow> mpmc_wf k (env i q)"
    and "bp_push ring_push env mv clock cfg x q = Some (ok, q')"
  shows "mpmc_wf k q' \<and>
    (ok \<longrightarrow> (\<exists>m q0. mpmc_items k q' = mpmc_items k q0 @ [(mv ^^ m) x] \<and> (m = 0 \<longrightarrow> q0 = env 0 q) \<and>
       (0 < m \<longrightarrow> bp_strategy cfg = BP_Block \<and> length (mpmc_items k (env 0 q)) = 2 ^ k))) \<and>
    (\<not> ok \<longrightarrow> length (mpmc_items k q') = 2 ^ k)"
  by (rule backpressure_push_bounds [OF assms])

text \<open>A full ring of two cells, of which another thread takes an item before the second attempt.\<close>

definition full_ring :: "nat option mpmc" where
  "full_ring = \<lparr>pq_cap = 2, pq_seq = [1, 2], pq_data = [Some 7, Some 8], pq_head = 2, pq_tail = 0\<rparr>"

definition popper :: "nat \<Rightarrow> 'a mpmc \<Rightarrow> 'a mpmc" where
  "popper i q = (if i = 1 then snd (the (mpmc_try_pop q)) else q)"

lemma full_ring_wf: "mpmc_wf 1 full_ring" and full_ring_items: "mpmc_items 1 full_ring = [Some 7, Some 8]"
proof -
  show "mpmc_wf 1 full_ring" by (auto simp: mpmc_wf_def mpsc_wf_def as_mpsc_def full_ring_def dest!: less_2_cases)
  show "mpmc_items 1 full_ring = [Some 7, Some 8]"
    by (simp add: mpmc_items_def mpsc_items_def as_mpsc_def full_ring_def numeral_2_eq_2)
qed

lemma popper_wf: "mpmc_wf k q \<Longrightarrow> mpmc_wf k (popper i q)"
  using mpmc_pop_some [of k q] mpmc_pop_none [of k q] mpmc_bounds [of k q]
  by (cases "pq_tail q < pq_head q") (auto simp: popper_def)

lemma full_ring_push:
  "bp_push ring_push popper (\<lambda>_. None) (\<lambda>j. 0) (bp_default\<lparr>bp_strategy := BP_Block\<rparr>) (Some (9 :: nat)) full_ring =
     Some (True, \<lparr>pq_cap = 2, pq_seq = [3, 2], pq_data = [None, Some 8], pq_head = 3, pq_tail = 1\<rparr>)"
proof -
  let ?popped = "full_ring\<lparr>pq_tail := 1, pq_seq := [2, 2]\<rparr>"
  have "mpmc_try_push (Some (9 :: nat)) full_ring = Some (False, full_ring)"
    by (rule mpmc_push_full [OF full_ring_wf]) (simp add: full_ring_def)
  moreover have "mpmc_try_pop full_ring = Some (Some (Some 7), ?popped)" and wf: "mpmc_wf 1 ?popped"
    using mpmc_pop_some [OF full_ring_wf] by (simp_all add: full_ring_def numeral_2_eq_2)
  moreover have "mpmc_try_push None ?popped =
      Some (True, \<lparr>pq_cap = 2, pq_seq = [3, 2], pq_data = [None, Some 8], pq_head = 3, pq_tail = 1\<rparr>)"
    using mpmc_push_room(1) [OF wf, of None] by (simp add: full_ring_def)
  ultimately show ?thesis
    by (simp add: bp_push_def try_push_blocking_def bp_default_def popper_def numeral_eq_Suc)
qed

theorem backpressure_push_exact_witness:
  "\<exists>q' m q0. bp_push ring_push popper (\<lambda>_. None) (\<lambda>j. 0) (bp_default\<lparr>bp_strategy := BP_Block\<rparr>) (Some (9 :: nat)) full_ring = Some (True, q') \<and>
     mpmc_items 1 q' = mpmc_items 1 q0 @ [((\<lambda>_. None) ^^ m) (Some (9 :: nat))]"
  using backpressure_push_exact [OF full_ring_wf _ full_ring_push] popper_wf full_ring_push by blast

text \<open>
  A blocked push of a function enqueues nothing to call. With items that are empty after a move, as
  \<open>std::function\<close> is in the usual library, a blocking push that finds the queue full at first and succeeds later
  reports success but has appended an empty item; the one given is in no queue.
\<close>

theorem blocked_push_loses_item:
  assumes "mpmc_wf k q" and "\<And>i q. mpmc_wf k q \<Longrightarrow> mpmc_wf k (env i q)" and "\<And>y. mv y = None"
    and "bp_push ring_push env mv clock cfg x q = Some (True, q')" and "length (mpmc_items k (env 0 q)) = 2 ^ k"
  shows "\<exists>q0. mpmc_items k q' = mpmc_items k q0 @ [None]"
proof -
  obtain m q0 where m: "mpmc_items k q' = mpmc_items k q0 @ [(mv ^^ m) x]" "m = 0 \<longrightarrow> q0 = env 0 q"
    using backpressure_push_bounds [OF assms(1,2,4)] by blast
  have "mpmc_wf k q'" using backpressure_push_bounds [OF assms(1,2,4)] by blast
  then have "length (mpmc_items k q') \<le> 2 ^ k" using mpmc_bounds by (fastforce simp: mpmc_items_length)
  then have "m \<noteq> 0" using m assms(5) by auto
  then obtain n where "m = Suc n" by (cases m) auto
  then show ?thesis using m(1) assms(3) by auto
qed

theorem blocked_push_loses_item_witness:
  "\<exists>q' q0. bp_push ring_push popper (\<lambda>_. None) (\<lambda>j. 0) (bp_default\<lparr>bp_strategy := BP_Block\<rparr>) (Some (9 :: nat)) full_ring = Some (True, q') \<and>
     mpmc_items 1 q' = mpmc_items 1 q0 @ [None]"
proof -
  have "length (mpmc_items 1 (popper 0 full_ring)) = 2 ^ 1" by (simp add: popper_def full_ring_items [unfolded One_nat_def])
  from blocked_push_loses_item [OF full_ring_wf _ refl full_ring_push this] popper_wf full_ring_push show ?thesis by blast
qed

text \<open>
  A push returns. With a timeout it returns as soon as some reading of the clock has reached the deadline; with a
  timeout of zero, as soon as some attempt succeeds.
\<close>

theorem backpressure_push_returns:
  assumes "0 < bp_block_timeout cfg \<and> clock 0 + bp_block_timeout cfg \<le> clock (Suc n) \<or>
           bp_block_timeout cfg \<le> 0 \<and> fst (bp_attempt tp env mv x q (bp_spin_count cfg + Suc n))"
  shows "\<exists>r. bp_push tp env mv clock cfg x q = Some r"
proof -
  obtain b q1 where a: "bp_attempt tp env mv x q 0 = (b, q1)" by fastforce
  then have tp: "tp x (env 0 q) = (b, q1)" by (simp add: bp_attempt_def)
  obtain ok i y q2 where sp: "bp_spin tp env mv (bp_spin_count cfg) 1 (mv x) q1 = (ok, i, y, q2)" by (metis prod_cases4)
  have s1: "bp_state tp env mv x q 1 = q1" using a by (simp add: bp_state_Suc)
  have out: "\<not> ok \<Longrightarrow> i = 1 + bp_spin_count cfg \<and> y = (mv ^^ i) x \<and> q2 = bp_state tp env mv x q i"
    using bp_spin_outcome [of tp env mv "bp_spin_count cfg" 1 x q ok i y q2] sp s1 by (simp add: outcome_def)
  have "\<exists>r. bp_wait tp env mv clock (clock 0 + bp_block_timeout cfg) 1 i y q2 = Some r" if "0 < bp_block_timeout cfg"
    using bp_wait_returns [of "clock 0 + bp_block_timeout cfg" clock 1 n] assms that by simp
  moreover have "\<exists>r. bp_forever tp env mv i y q2 = Some r" if "\<not> 0 < bp_block_timeout cfg" "\<not> ok"
    using bp_forever_returns [of tp env mv x q i n] out assms that by simp
  ultimately show ?thesis
    by (auto simp: bp_push_def try_push_blocking_def tp sp [unfolded One_nat_def])
qed

theorem backpressure_push_returns_witness:
  "\<exists>r. bp_push ring_push (\<lambda>i q. q) (\<lambda>_. None) (\<lambda>j. 250 * int j) (bp_default\<lparr>bp_strategy := BP_Block\<rparr>) (Some (9 :: nat)) full_ring = Some r"
  by (rule backpressure_push_returns [where n = 3]) (simp add: bp_default_def)

end
