(* ===== verification/Thread_Pool.thy ===== *)
theory Thread_Pool
  imports MPMC_Queue "HOL-Library.Multiset"
begin

text \<open>
  The thread pool of the concurrency runtime, from \<open>src/cunk/include/concurrency/executor/ThreadPoolExecutor.h\<close>
  and \<open>src/cunk/src/executor/ThreadPoolExecutor.cpp\<close>.

  A \<open>std::function<void()>\<close> is an option: \<open>None\<close> is the empty function, calling which throws. \<open>mv\<close> gives what a
  move leaves behind, in the usual library \<open>None\<close>. The queues are bounded lists, which
  \<open>MPMC_Queue\<close> shows the rings to be (interpretation \<open>worker_q\<close>). The threads interleave: a step of a worker is
  one test of the stop flag, one \<open>try_pop\<close> or the run of one task; a submission is two steps, the test
  of the stop flag and the rest, so that a shutdown can come between them. Sleeping changes nothing, and
  exceptions of tasks are swallowed; the counters \<open>task_count\<close> are never read.
\<close>

section \<open>State\<close>

datatype 'k worker_status =
    WS_Top
  | WS_Scan nat
  | WS_Run "'k option" "'k worker_status"
  | WS_Drain
  | WS_Drain_Global
  | WS_Exited

record pool_config =
  pc_num_threads :: nat
  pc_worker_queue_size :: "64 word"
  pc_global_queue_size :: "64 word"

definition pool_default :: pool_config where
  "pool_default = \<lparr>pc_num_threads = 0, pc_worker_queue_size = 1024, pc_global_queue_size = 4096\<rparr>"

text \<open>The last four fields record what happened: the tasks put in a worker queue, in the global queue, and
  dropped, and the functions run.\<close>

record 'k tpool =
  tp_queues :: "'k option list list"
  tp_global :: "'k option list"
  tp_wcap :: nat
  tp_gcap :: nat
  tp_stop :: bool
  tp_next :: "64 word"
  tp_status :: "'k worker_status list"
  tp_flight :: "'k list"
  tp_placed :: "'k list"
  tp_spilled :: "'k list"
  tp_dropped :: "'k list"
  tp_ran :: "'k option list"

text \<open>The capacity of a queue; \<open>hw\<close> is \<open>hardware_concurrency\<close>.\<close>

definition queue_capacity :: "64 word \<Rightarrow> nat" where
  "queue_capacity c = pq_cap (mpmc_new c ())"

definition tpool_new :: "nat \<Rightarrow> pool_config \<Rightarrow> 'k tpool" where
  "tpool_new hw cfg =
     (let n = (if pc_num_threads cfg \<noteq> 0 then pc_num_threads cfg else if hw \<noteq> 0 then hw else 4)
      in \<lparr>tp_queues = replicate n [], tp_global = [], tp_wcap = queue_capacity (pc_worker_queue_size cfg),
          tp_gcap = queue_capacity (pc_global_queue_size cfg), tp_stop = False, tp_next = 0,
          tp_status = replicate n WS_Top, tp_flight = [], tp_placed = [], tp_spilled = [], tp_dropped = [], tp_ran = []\<rparr>)"

section \<open>Submission\<close>

definition submit_begin :: "'k \<Rightarrow> 'k tpool \<Rightarrow> 'k tpool" where
  "submit_begin k s = (if tp_stop s then s else s\<lparr>tp_flight := tp_flight s @ [k]\<rparr>)"

definition submit_rest :: "('k option \<Rightarrow> 'k option) \<Rightarrow> 'k \<Rightarrow> 'k tpool \<Rightarrow> 'k tpool" where
  "submit_rest mv k s =
     (let idx = unat (tp_next s) mod length (tp_queues s); q = tp_queues s ! idx; s1 = s\<lparr>tp_next := tp_next s + 1\<rparr>
      in if length q < tp_wcap s then s1\<lparr>tp_queues := (tp_queues s)[idx := q @ [Some k]], tp_placed := tp_placed s @ [k]\<rparr>
         else if length (tp_global s) < tp_gcap s
         then s1\<lparr>tp_global := tp_global s @ [mv (Some k)], tp_spilled := tp_spilled s @ [k]\<rparr>
         else s1\<lparr>tp_dropped := tp_dropped s @ [k]\<rparr>)"

definition submit_finish :: "('k option \<Rightarrow> 'k option) \<Rightarrow> nat \<Rightarrow> 'k tpool \<Rightarrow> 'k tpool" where
  "submit_finish mv i s =
     (if i < length (tp_flight s)
      then submit_rest mv (tp_flight s ! i) (s\<lparr>tp_flight := take i (tp_flight s) @ drop (Suc i) (tp_flight s)\<rparr>)
      else s)"

definition pending_tasks :: "'k tpool \<Rightarrow> nat" where
  "pending_tasks s = length (tp_global s) + sum_list (map length (tp_queues s))"

section \<open>Workers\<close>

definition set_status :: "nat \<Rightarrow> 'k worker_status \<Rightarrow> 'k tpool \<Rightarrow> 'k tpool" where
  "set_status w st s = s\<lparr>tp_status := (tp_status s)[w := st]\<rparr>"

text \<open>\<open>try_pop\<close> on a worker queue or the global queue, then on to running the task or to the next status.\<close>

definition take_from :: "nat \<Rightarrow> nat \<Rightarrow> 'k worker_status \<Rightarrow> 'k worker_status \<Rightarrow> 'k tpool \<Rightarrow> 'k tpool" where
  "take_from w v ret none s =
     (case tp_queues s ! v of
        [] \<Rightarrow> set_status w none s
      | t # q \<Rightarrow> set_status w (WS_Run t ret) (s\<lparr>tp_queues := (tp_queues s)[v := q]\<rparr>))"

definition take_global :: "nat \<Rightarrow> 'k worker_status \<Rightarrow> 'k worker_status \<Rightarrow> 'k tpool \<Rightarrow> 'k tpool" where
  "take_global w ret none s =
     (case tp_global s of
        [] \<Rightarrow> set_status w none s
      | t # q \<Rightarrow> set_status w (WS_Run t ret) (s\<lparr>tp_global := q\<rparr>))"

definition worker_step :: "nat \<Rightarrow> 'k tpool \<Rightarrow> 'k tpool" where
  "worker_step w s =
     (case tp_status s ! w of
        WS_Top \<Rightarrow> set_status w (if tp_stop s then WS_Drain else WS_Scan 0) s
      | WS_Scan i \<Rightarrow>
          (if i < length (tp_queues s) then take_from w ((w + i) mod length (tp_queues s)) WS_Top (WS_Scan (Suc i)) s
           else take_global w WS_Top WS_Top s)
      | WS_Run t ret \<Rightarrow> set_status w ret (s\<lparr>tp_ran := tp_ran s @ [t]\<rparr>)
      | WS_Drain \<Rightarrow> take_from w w WS_Drain WS_Drain_Global s
      | WS_Drain_Global \<Rightarrow> take_global w WS_Drain_Global WS_Exited s
      | WS_Exited \<Rightarrow> s)"

datatype 'k tpool_cmd = TC_Begin 'k | TC_Finish nat | TC_Stop | TC_Worker nat

fun tpool_step :: "('k option \<Rightarrow> 'k option) \<Rightarrow> 'k tpool_cmd \<Rightarrow> 'k tpool \<Rightarrow> 'k tpool" where
  "tpool_step mv (TC_Begin k) s = submit_begin k s"
| "tpool_step mv (TC_Finish i) s = submit_finish mv i s"
| "tpool_step mv TC_Stop s = s\<lparr>tp_stop := True\<rparr>"
| "tpool_step mv (TC_Worker w) s = (if w < length (tp_status s) then worker_step w s else s)"

section \<open>No task is lost but the spilled ones\<close>

fun in_hand :: "'k worker_status \<Rightarrow> 'k option list" where
  "in_hand (WS_Run t ret) = [t]"
| "in_hand _ = []"

text \<open>A worker returns to its loop, never into another run.\<close>

fun status_ok :: "'k worker_status \<Rightarrow> bool" where
  "status_ok (WS_Run t ret) \<longleftrightarrow> ret \<in> {WS_Top, WS_Drain, WS_Drain_Global}"
| "status_ok _ \<longleftrightarrow> True"

definition conserved :: "('k option \<Rightarrow> 'k option) \<Rightarrow> 'k tpool \<Rightarrow> bool" where
  "conserved mv s \<longleftrightarrow>
     mset (map Some (tp_placed s)) + mset (map (\<lambda>k. mv (Some k)) (tp_spilled s)) =
       mset (concat (tp_queues s)) + mset (tp_global s) + mset (concat (map in_hand (tp_status s))) + mset (tp_ran s)"

definition tpool_inv :: "('k option \<Rightarrow> 'k option) \<Rightarrow> 'k tpool \<Rightarrow> bool" where
  "tpool_inv mv s \<longleftrightarrow> tp_queues s \<noteq> [] \<and> length (tp_status s) = length (tp_queues s) \<and>
     list_all status_ok (tp_status s) \<and> conserved mv s \<and>
     list_all (\<lambda>q. length q \<le> tp_wcap s) (tp_queues s) \<and> length (tp_global s) \<le> tp_gcap s"

lemma mset_concat_update:
  "i < length xs \<Longrightarrow> mset (concat (xs[i := y])) + mset (xs ! i) = mset (concat xs) + mset y"
proof (induction xs arbitrary: i)
  case (Cons x xs)
  then show ?case by (cases i) (simp_all add: ac_simps)
qed simp

lemma in_hand_update:
  "w < length st \<Longrightarrow> mset (concat (map in_hand (st[w := x]))) + mset (in_hand (st ! w)) =
     mset (concat (map in_hand st)) + mset (in_hand x)"
  using mset_concat_update [of w "map in_hand st" "in_hand x"] by (simp add: map_update)

lemma list_all_update: "list_all P xs \<Longrightarrow> P x \<Longrightarrow> list_all P (xs[i := x])"
  by (auto simp: list_all_iff dest!: set_update_subset_insert [THEN subsetD])

lemma set_status_inv:
  assumes "tpool_inv mv s" and "w < length (tp_status s)" and "in_hand (tp_status s ! w) = in_hand x" and "status_ok x"
  shows "tpool_inv mv (set_status w x s)"
  using assms in_hand_update [OF assms(2), of x] by (simp add: tpool_inv_def set_status_def conserved_def list_all_update)

lemma take_from_inv:
  assumes inv: "tpool_inv mv s" and "w < length (tp_status s)" and "in_hand (tp_status s ! w) = []"
    and "v < length (tp_queues s)" and "ret \<in> {WS_Top, WS_Drain, WS_Drain_Global}" and "status_ok none" and "in_hand none = []"
  shows "tpool_inv mv (take_from w v ret none s)"
proof (cases "tp_queues s ! v")
  case Nil
  then show ?thesis using assms set_status_inv [OF inv assms(2), of none] by (simp add: take_from_def)
next
  case (Cons t q)
  have "mset (concat ((tp_queues s)[v := q])) + {#t#} = mset (concat (tp_queues s))"
    using mset_concat_update [OF assms(4), of q] Cons by simp
  moreover have "mset (concat (map in_hand ((tp_status s)[w := WS_Run t ret]))) = mset (concat (map in_hand (tp_status s))) + {#t#}"
    using in_hand_update [OF assms(2), of "WS_Run t ret"] assms(3) by simp
  moreover have "length (tp_queues s ! v) \<le> tp_wcap s" using inv assms(4) by (simp add: tpool_inv_def list_all_length)
  ultimately show ?thesis
    using inv assms(5) Cons
    by (simp add: take_from_def tpool_inv_def set_status_def conserved_def list_all_update flip: add.assoc)
qed

lemma take_global_inv:
  assumes inv: "tpool_inv mv s" and "w < length (tp_status s)" and "in_hand (tp_status s ! w) = []"
    and "ret \<in> {WS_Top, WS_Drain, WS_Drain_Global}" and "status_ok none" and "in_hand none = []"
  shows "tpool_inv mv (take_global w ret none s)"
proof (cases "tp_global s")
  case Nil
  then show ?thesis using assms set_status_inv [OF inv assms(2), of none] by (simp add: take_global_def)
next
  case (Cons t q)
  have "mset (concat (map in_hand ((tp_status s)[w := WS_Run t ret]))) = mset (concat (map in_hand (tp_status s))) + {#t#}"
    using in_hand_update [OF assms(2), of "WS_Run t ret"] assms(3) by simp
  then show ?thesis
    using inv assms(4) Cons
    by (auto simp: take_global_def tpool_inv_def set_status_def conserved_def list_all_update)
qed

lemma worker_step_inv:
  assumes inv: "tpool_inv mv s" and w: "w < length (tp_status s)"
  shows "tpool_inv mv (worker_step w s)"
proof -
  have n: "0 < length (tp_queues s)" "length (tp_status s) = length (tp_queues s)" using inv by (simp_all add: tpool_inv_def)
  have ok: "status_ok (tp_status s ! w)" using inv w by (simp add: tpool_inv_def list_all_length)
  show ?thesis
  proof (cases "tp_status s ! w")
    case (WS_Run t ret)
    have "in_hand ret = []" "status_ok ret" using ok WS_Run by auto
    then have "mset (concat (map in_hand ((tp_status s)[w := ret]))) + {#t#} = mset (concat (map in_hand (tp_status s)))"
      using in_hand_update [OF w, of ret] WS_Run by simp
    then show ?thesis
      using inv \<open>status_ok ret\<close>
      by (auto simp: worker_step_def WS_Run tpool_inv_def set_status_def conserved_def list_all_update)
  next
    case (WS_Scan i)
    have "(w + i) mod length (tp_queues s) < length (tp_queues s)" using n by simp
    then show ?thesis
      using take_from_inv [OF inv w, of _ WS_Top] take_global_inv [OF inv w, of WS_Top WS_Top]
      by (simp add: worker_step_def WS_Scan)
  next
    case WS_Drain
    then show ?thesis using take_from_inv [OF inv w, of w WS_Drain WS_Drain_Global] n w by (simp add: worker_step_def)
  next
    case WS_Drain_Global
    then show ?thesis using take_global_inv [OF inv w, of WS_Drain_Global WS_Exited] by (simp add: worker_step_def)
  qed (use inv w set_status_inv [OF inv w] in \<open>simp_all add: worker_step_def\<close>)
qed

lemma submit_rest_inv:
  assumes inv: "tpool_inv mv s"
  shows "tpool_inv mv (submit_rest mv k s)"
proof -
  define idx where "idx = unat (tp_next s) mod length (tp_queues s)"
  have idx: "idx < length (tp_queues s)" using inv by (simp add: tpool_inv_def idx_def)
  have "mset (concat ((tp_queues s)[idx := tp_queues s ! idx @ [Some k]])) = mset (concat (tp_queues s)) + {#Some k#}"
    using mset_concat_update [OF idx, of "tp_queues s ! idx @ [Some k]"] by simp
  then show ?thesis
    using inv by (simp add: submit_rest_def Let_def tpool_inv_def conserved_def list_all_update flip: idx_def)
qed

lemma tpool_step_inv: "tpool_inv mv s \<Longrightarrow> tpool_inv mv (tpool_step mv c s)"
proof (cases c)
  case (TC_Finish i)
  assume "tpool_inv mv s"
  then have "tpool_inv mv (s\<lparr>tp_flight := fl\<rparr>)" for fl by (simp add: tpool_inv_def conserved_def)
  then show ?thesis using \<open>tpool_inv mv s\<close> by (simp add: TC_Finish submit_finish_def submit_rest_inv)
qed (simp_all add: submit_begin_def worker_step_inv, simp_all add: tpool_inv_def conserved_def)

lemma tpool_new_inv: "tpool_inv mv (tpool_new hw cfg)"
  by (auto simp: tpool_inv_def tpool_new_def conserved_def Let_def list_all_iff)

interpretation pool_run: transition_system "tpool_step mv" "tpool_new hw cfg" "tpool_inv mv" "\<lambda>_ _. True" for mv hw cfg
  by unfold_locales (simp_all add: tpool_new_inv tpool_step_inv)


section \<open>Shutdown\<close>

fun draining :: "'k worker_status \<Rightarrow> bool" where
  "draining (WS_Run t ret) \<longleftrightarrow> draining ret"
| "draining st \<longleftrightarrow> st \<in> {WS_Drain, WS_Drain_Global, WS_Exited}"

text \<open>The worker has seen its own queue empty.\<close>

fun own_done :: "'k worker_status \<Rightarrow> bool" where
  "own_done (WS_Run t ret) \<longleftrightarrow> own_done ret"
| "own_done st \<longleftrightarrow> st \<in> {WS_Drain_Global, WS_Exited}"

definition shut_inv :: "'k tpool \<Rightarrow> bool" where
  "shut_inv s \<longleftrightarrow> (tp_stop s \<longrightarrow> tp_flight s = []) \<and>
     (\<forall>w < length (tp_status s). (draining (tp_status s ! w) \<longrightarrow> tp_stop s) \<and>
        (own_done (tp_status s ! w) \<longrightarrow> tp_queues s ! w = []) \<and> (tp_status s ! w = WS_Exited \<longrightarrow> tp_global s = []))"

lemma own_done_draining: "own_done st \<Longrightarrow> draining st"
  by (induction st) auto

fun pool_ok :: "'k tpool_cmd \<Rightarrow> 'k tpool \<Rightarrow> bool" where
  "pool_ok TC_Stop s \<longleftrightarrow> tp_flight s = []"
| "pool_ok _ s \<longleftrightarrow> True"

lemma shut_inv_status:
  assumes "shut_inv s" and "draining x \<longrightarrow> tp_stop s" and "own_done x \<longrightarrow> tp_queues s ! w = []"
    and "x = WS_Exited \<longrightarrow> tp_global s = []"
  shows "shut_inv (set_status w x s)"
  unfolding shut_inv_def
proof (intro conjI allI impI)
  fix v assume v: "v < length (tp_status (set_status w x s))"
  have old: "(draining (tp_status s ! v) \<longrightarrow> tp_stop s) \<and> (own_done (tp_status s ! v) \<longrightarrow> tp_queues s ! v = []) \<and>
      (tp_status s ! v = WS_Exited \<longrightarrow> tp_global s = [])"
    using assms(1) v by (simp add: shut_inv_def set_status_def)
  have st: "tp_status (set_status w x s) ! v = (if v = w then x else tp_status s ! v)"
    using v by (simp add: set_status_def nth_list_update)
  show "tp_stop (set_status w x s)" if "draining (tp_status (set_status w x s) ! v)"
    using that old assms(2) st by (auto simp: set_status_def split: if_splits)
  show "tp_queues (set_status w x s) ! v = []" if "own_done (tp_status (set_status w x s) ! v)"
    using that old assms(3) st by (auto simp: set_status_def split: if_splits)
  show "tp_global (set_status w x s) = []" if "tp_status (set_status w x s) ! v = WS_Exited"
    using that old assms(4) st by (auto simp: set_status_def split: if_splits)
qed (use assms(1) in \<open>simp add: shut_inv_def set_status_def\<close>)

lemma worker_step_shut:
  assumes inv: "tpool_inv mv s" "shut_inv s" and w: "w < length (tp_status s)"
  shows "shut_inv (worker_step w s)"
proof -
  have n: "length (tp_status s) = length (tp_queues s)" and ok: "status_ok (tp_status s ! w)"
    using inv(1) w by (simp_all add: tpool_inv_def list_all_length)
  have at: "(draining (tp_status s ! w) \<longrightarrow> tp_stop s) \<and> (own_done (tp_status s ! w) \<longrightarrow> tp_queues s ! w = [])"
    using inv(2) w by (simp add: shut_inv_def)
  have pop: "shut_inv (s\<lparr>tp_queues := (tp_queues s)[v := q]\<rparr>)" if "tp_queues s ! v = t # q" for v t q
  proof -
    have "\<not> own_done (tp_status s ! v)" if "v < length (tp_status s)"
      using inv(2) that \<open>tp_queues s ! v = t # q\<close> by (auto simp: shut_inv_def)
    moreover have "(tp_queues s)[v := q] ! u = []" if "tp_queues s ! u = []" "u \<noteq> v" for u using that by simp
    ultimately have "\<forall>u < length (tp_status s). own_done (tp_status s ! u) \<longrightarrow> (tp_queues s)[v := q] ! u = []"
      using inv(2) unfolding shut_inv_def by metis
    then show ?thesis using inv(2) by (simp add: shut_inv_def)
  qed
  have popg: "shut_inv (s\<lparr>tp_global := q\<rparr>)" if "tp_global s = t # q" for t q
    using inv(2) that by (auto simp: shut_inv_def)
  show ?thesis
  proof (cases "tp_status s ! w")
    case WS_Top
    then show ?thesis using inv(2) by (simp add: worker_step_def shut_inv_status)
  next
    case (WS_Scan i)
    then show ?thesis
      using inv(2) pop popg
      by (auto simp: worker_step_def take_from_def take_global_def intro!: shut_inv_status split: list.split)
  next
    case (WS_Run t ret)
    have "shut_inv (s\<lparr>tp_ran := tp_ran s @ [t]\<rparr>)" using inv(2) by (simp add: shut_inv_def)
    then show ?thesis using WS_Run at ok by (auto simp: worker_step_def intro!: shut_inv_status)
  next
    case WS_Drain
    then show ?thesis
      using inv(2) at pop by (auto simp: worker_step_def take_from_def intro!: shut_inv_status split: list.split)
  next
    case WS_Drain_Global
    then show ?thesis
      using inv(2) at popg by (auto simp: worker_step_def take_global_def intro!: shut_inv_status split: list.split)
  qed (use inv in \<open>simp add: worker_step_def\<close>)
qed

lemma running_no_drain: "shut_inv s \<Longrightarrow> \<not> tp_stop s \<Longrightarrow> w < length (tp_status s) \<Longrightarrow>
  \<not> own_done (tp_status s ! w) \<and> tp_status s ! w \<noteq> WS_Exited"
  unfolding shut_inv_def using own_done_draining by fastforce

lemma tpool_step_shut:
  assumes inv: "tpool_inv mv s" "shut_inv s" and ok: "pool_ok c s"
  shows "shut_inv (tpool_step mv c s)"
proof (cases c)
  case (TC_Finish i)
  show ?thesis
  proof (cases "tp_stop s \<or> length (tp_flight s) \<le> i")
    case True
    then show ?thesis using inv(2) by (auto simp: TC_Finish submit_finish_def shut_inv_def)
  next
    case False
    have "draining (tp_status s ! w) = False" if "w < length (tp_status s)" for w
      using inv(2) False that by (auto simp: shut_inv_def)
    then show ?thesis
      using False running_no_drain [OF inv(2)]
      by (auto simp: TC_Finish submit_finish_def submit_rest_def shut_inv_def Let_def)
  qed
next
  case (TC_Worker w)
  then show ?thesis using worker_step_shut [OF inv] inv(2) by simp
qed (use inv(2) ok in \<open>auto simp: submit_begin_def shut_inv_def\<close>)

lemma tpool_new_shut: "shut_inv (tpool_new hw cfg)"
  by (auto simp: shut_inv_def tpool_new_def Let_def)

interpretation pool_shut: transition_system "tpool_step mv" "tpool_new hw cfg" "\<lambda>s. tpool_inv mv s \<and> shut_inv s" pool_ok
  for mv hw cfg
  by unfold_locales (simp_all add: tpool_new_inv tpool_new_shut tpool_step_inv tpool_step_shut)

text \<open>After the stop flag is set, every step of a worker that has not exited brings the end nearer.\<close>

fun status_weight :: "nat \<Rightarrow> 'k worker_status \<Rightarrow> nat" where
  "status_weight n WS_Exited = 0"
| "status_weight n WS_Drain_Global = 1"
| "status_weight n WS_Drain = 2"
| "status_weight n WS_Top = 3"
| "status_weight n (WS_Scan i) = 4 + (n - i)"
| "status_weight n (WS_Run t ret) = status_weight n ret + 1"

definition steps_left :: "'k tpool \<Rightarrow> nat" where
  "steps_left s = 2 * pending_tasks s + sum_list (map (status_weight (length (tp_queues s))) (tp_status s))"

lemma sum_list_update_at: "i < length xs \<Longrightarrow> sum_list (xs[i := y]) + xs ! i = sum_list xs + (y :: nat)"
proof (induction xs arbitrary: i)
  case (Cons x xs)
  then show ?case by (cases i) (simp_all add: ac_simps)
qed simp

lemma steps_left_status:
  "w < length (tp_status s) \<Longrightarrow> steps_left (set_status w x s) + status_weight (length (tp_queues s)) (tp_status s ! w) =
     steps_left s + status_weight (length (tp_queues s)) x"
  using sum_list_update_at [of w "map (status_weight (length (tp_queues s))) (tp_status s)" "status_weight (length (tp_queues s)) x"]
  by (simp add: steps_left_def set_status_def pending_tasks_def map_update)

lemma steps_left_queue:
  assumes "v < length (tp_queues s)" and "tp_queues s ! v = t # q"
  shows "steps_left (s\<lparr>tp_queues := (tp_queues s)[v := q]\<rparr>) + 2 = steps_left s"
  using sum_list_update_at [of v "map length (tp_queues s)" "length q"] assms
  by (simp add: steps_left_def pending_tasks_def map_update)

lemma worker_step_nearer:
  assumes inv: "tpool_inv mv s" and stop: "tp_stop s" and w: "w < length (tp_status s)" "tp_status s ! w \<noteq> WS_Exited"
  shows "steps_left (worker_step w s) < steps_left s"
proof -
  let ?n = "length (tp_queues s)" and ?st = "tp_status s ! w"
  have n: "0 < ?n" "w < ?n" and ok: "status_ok ?st" using inv w(1) by (simp_all add: tpool_inv_def list_all_length)
  have status: "steps_left (set_status w x s) < steps_left s" if "status_weight ?n x < status_weight ?n ?st" for x
    using steps_left_status [OF w(1), of x] that by simp
  have own: "steps_left (take_from w v ret none s) < steps_left s"
    if "v < ?n" "status_weight ?n ret \<le> status_weight ?n ?st" "status_weight ?n none < status_weight ?n ?st" for v ret none
  proof (cases "tp_queues s ! v")
    case (Cons t q)
    show ?thesis
      using steps_left_queue [OF that(1) Cons] that(2) Cons w(1)
        steps_left_status [of w "s\<lparr>tp_queues := (tp_queues s)[v := q]\<rparr>" "WS_Run t ret"]
      by (simp add: take_from_def)
  qed (use status that in \<open>simp add: take_from_def\<close>)
  have global: "steps_left (take_global w ret none s) < steps_left s"
    if "status_weight ?n ret \<le> status_weight ?n ?st" "status_weight ?n none < status_weight ?n ?st" for ret none
  proof (cases "tp_global s")
    case (Cons t q)
    have "steps_left (s\<lparr>tp_global := q\<rparr>) + 2 = steps_left s" by (simp add: steps_left_def pending_tasks_def Cons)
    then show ?thesis
      using that(1) Cons w(1) steps_left_status [of w "s\<lparr>tp_global := q\<rparr>" "WS_Run t ret"] by (simp add: take_global_def)
  qed (use status that in \<open>simp add: take_global_def\<close>)
  show ?thesis
  proof (cases ?st)
    case (WS_Run t ret)
    have "steps_left (s\<lparr>tp_ran := r\<rparr>) = steps_left s" for r by (simp add: steps_left_def pending_tasks_def)
    then show ?thesis
      using steps_left_status [of w "s\<lparr>tp_ran := tp_ran s @ [t]\<rparr>" ret] w(1) by (simp add: worker_step_def WS_Run)
  next
    case (WS_Scan i)
    then show ?thesis using own [of "(w + i) mod ?n" WS_Top "WS_Scan (Suc i)"] global [of WS_Top WS_Top] n
      by (simp add: worker_step_def)
  qed (use w(2) stop status own global n in \<open>simp_all add: worker_step_def\<close>)
qed

lemma worker_step_other:
  "u \<noteq> w \<Longrightarrow> tp_status (worker_step u s) ! w = tp_status s ! w"
  "length (tp_status (worker_step u s)) = length (tp_status s)"
  "tp_stop (worker_step u s) = tp_stop s" "tp_flight (worker_step u s) = tp_flight s"
  "tp_placed (worker_step u s) = tp_placed s" "tp_spilled (worker_step u s) = tp_spilled s"
  by (auto simp: worker_step_def take_from_def take_global_def set_status_def split: worker_status.split list.split)


lemma exited_empty:
  assumes "tpool_inv mv s" and "shut_inv s" and "list_all (\<lambda>st. st = WS_Exited) (tp_status s)"
  shows "concat (tp_queues s) = [] \<and> tp_global s = [] \<and> pending_tasks s = 0"
proof -
  have "tp_queues s ! w = []" if "w < length (tp_queues s)" for w
    using assms that by (simp add: shut_inv_def tpool_inv_def list_all_length)
  then have q: "q = []" if "q \<in> set (tp_queues s)" for q using that by (metis in_set_conv_nth)
  have "0 < length (tp_status s)" using assms(1) by (simp add: tpool_inv_def)
  then have g: "tp_global s = []" using assms(2,3) unfolding shut_inv_def list_all_length by blast
  then show ?thesis using q by (auto simp: pending_tasks_def)
qed

text \<open>A round of the workers.\<close>

definition round_cmds :: "nat \<Rightarrow> 'k tpool_cmd list" where
  "round_cmds n = map TC_Worker [0..<n]"

lemma exited_weight: "status_weight n st = 0 \<longleftrightarrow> st = WS_Exited"
  by (cases st) auto

lemma workers_run:
  assumes "tpool_inv mv s \<and> shut_inv s" and "tp_stop s"
  shows "let s' = run (tpool_step mv) (map TC_Worker ws) s
     in (tpool_inv mv s' \<and> shut_inv s') \<and> tp_stop s' \<and> length (tp_status s') = length (tp_status s) \<and>
        tp_placed s' = tp_placed s \<and> tp_spilled s' = tp_spilled s \<and> steps_left s' \<le> steps_left s \<and>
        ((\<exists>w \<in> set ws. w < length (tp_status s) \<and> tp_status s ! w \<noteq> WS_Exited) \<longrightarrow> steps_left s' < steps_left s)"
  using assms
proof (induction ws arbitrary: s)
  case (Cons u ws)
  define s1 where "s1 = tpool_step mv (TC_Worker u) s"
  have inv1: "tpool_inv mv s1 \<and> shut_inv s1"
    using tpool_step_inv [of mv s "TC_Worker u"] tpool_step_shut [of mv s "TC_Worker u"] Cons.prems(1) by (simp add: s1_def)
  have same: "tp_stop s1" "length (tp_status s1) = length (tp_status s)" "tp_placed s1 = tp_placed s" "tp_spilled s1 = tp_spilled s"
    "w \<noteq> u \<Longrightarrow> tp_status s1 ! w = tp_status s ! w" for w
    using Cons.prems(2) worker_step_other [where s = s] by (simp_all add: s1_def)
  have stay: "worker_step u s = s" if "tp_status s ! u = WS_Exited" using that by (simp add: worker_step_def)
  have strict: "steps_left s1 < steps_left s" if "u < length (tp_status s) \<and> tp_status s ! u \<noteq> WS_Exited"
    using worker_step_nearer [of mv s u] Cons.prems that by (simp add: s1_def)
  have near: "steps_left s1 \<le> steps_left s"
    using strict stay by (cases "u < length (tp_status s) \<and> tp_status s ! u \<noteq> WS_Exited") (auto simp: s1_def)
  show ?case
    using Cons.IH [OF inv1 same(1)] same near strict
    by (simp add: Let_def del: tpool_step.simps flip: s1_def) (metis le_less_trans less_le_trans)
qed simp

lemma rounds_finish:
  assumes "tpool_inv mv s \<and> shut_inv s" and "tp_stop s" and "steps_left s \<le> m" and "n = length (tp_status s)"
  shows "let s' = run (tpool_step mv) (concat (replicate m (round_cmds n))) s
     in (tpool_inv mv s' \<and> shut_inv s') \<and> length (tp_status s') = n \<and> tp_placed s' = tp_placed s \<and> tp_spilled s' = tp_spilled s \<and>
        list_all (\<lambda>st. st = WS_Exited) (tp_status s')"
  using assms
proof (induction m arbitrary: s)
  case 0
  then show ?case
    by (auto simp: steps_left_def exited_weight list_all_iff)
next
  case (Suc m)
  define s1 where "s1 = run (tpool_step mv) (round_cmds n) s"
  note r = workers_run [OF Suc.prems(1,2), of "[0..<n]", unfolded Let_def, folded round_cmds_def, folded s1_def]
  have "steps_left s1 \<le> m"
  proof (cases "list_all (\<lambda>st. st = WS_Exited) (tp_status s)")
    case True
    have pending: "pending_tasks s = 0" using exited_empty [of mv s] Suc.prems(1) True by blast
    have "steps_left s = 0" using True pending by (auto simp: steps_left_def list_all_iff)
    then show ?thesis using r by simp
  next
    case False
    then have "\<exists>w \<in> set [0..<n]. w < length (tp_status s) \<and> tp_status s ! w \<noteq> WS_Exited"
      using Suc.prems(4) by (auto simp: list_all_length)
    then show ?thesis using r Suc.prems(3) by simp
  qed
  moreover have "n = length (tp_status s1)" using r Suc.prems(4) by simp
  ultimately have "let s' = run (tpool_step mv) (concat (replicate m (round_cmds n))) s1
     in (tpool_inv mv s' \<and> shut_inv s') \<and> length (tp_status s') = n \<and> tp_placed s' = tp_placed s1 \<and> tp_spilled s' = tp_spilled s1 \<and>
        list_all (\<lambda>st. st = WS_Exited) (tp_status s')"
    using Suc.IH [of s1] r by blast
  then show ?case using r by (simp add: run_append flip: s1_def)
qed

lemma all_exited:
  assumes "tpool_inv mv s" and "shut_inv s" and "list_all (\<lambda>st. st = WS_Exited) (tp_status s)"
  shows "pending_tasks s = 0 \<and>
    mset (tp_ran s) = mset (map Some (tp_placed s)) + mset (map (\<lambda>k. mv (Some k)) (tp_spilled s))"
proof -
  have "concat (map in_hand (tp_status s)) = []" using assms(3) by (auto simp: list_all_iff)
  then show ?thesis using assms(1) exited_empty [OF assms] by (simp add: tpool_inv_def conserved_def)
qed

section \<open>Properties\<close>

text \<open>
  Every accepted task is accounted for. In every interleaving, the functions that were run, are in the hands of a
  worker or wait in a queue are exactly the tasks put in a worker queue and what was moved into the global queue,
  each as often as it was put there; and no queue exceeds its capacity.
\<close>

theorem pool_conserves_tasks:
  assumes "s = run (tpool_step mv) cs (tpool_new hw cfg)"
  shows "mset (tp_ran s) + mset (concat (map in_hand (tp_status s))) + mset (concat (tp_queues s)) + mset (tp_global s) =
      mset (map Some (tp_placed s)) + mset (map (\<lambda>k. mv (Some k)) (tp_spilled s)) \<and>
    list_all (\<lambda>q. length q \<le> tp_wcap s) (tp_queues s) \<and> length (tp_global s) \<le> tp_gcap s"
  using pool_run.inv_run [of mv cs hw cfg] assms by (simp add: tpool_inv_def conserved_def ac_simps)

definition tiny_pool :: pool_config where
  "tiny_pool = \<lparr>pc_num_threads = 1, pc_worker_queue_size = 2, pc_global_queue_size = 2\<rparr>"

lemma tiny_new: "tpool_new hw tiny_pool = \<lparr>tp_queues = [[]], tp_global = [], tp_wcap = 2, tp_gcap = 2, tp_stop = False, tp_next = 0,
    tp_status = [WS_Top], tp_flight = [], tp_placed = [], tp_spilled = [], tp_dropped = [], tp_ran = []\<rparr>"
proof -
  have "unat (next_power_of_two 2) = 2" by code_simp
  then show ?thesis by (simp add: tpool_new_def tiny_pool_def queue_capacity_def mpmc_new_def)
qed

text \<open>Three submissions, of which the third finds the worker queue full.\<close>

definition three_tasks :: "nat tpool_cmd list" where
  "three_tasks = [TC_Begin 1, TC_Begin 2, TC_Begin 3, TC_Finish 0, TC_Finish 0, TC_Finish 0]"

lemma three_tasks_run:
  "run (tpool_step (\<lambda>_. None)) three_tasks (tpool_new hw tiny_pool) =
     \<lparr>tp_queues = [[Some 1, Some 2]], tp_global = [None], tp_wcap = 2, tp_gcap = 2, tp_stop = False, tp_next = 3,
      tp_status = [WS_Top], tp_flight = [], tp_placed = [1, 2], tp_spilled = [3], tp_dropped = [], tp_ran = []\<rparr>"
  by (simp add: three_tasks_def tiny_new submit_begin_def submit_finish_def submit_rest_def Let_def)

theorem pool_conserves_tasks_witness:
  "mset (concat (tp_queues (run (tpool_step (\<lambda>_. None)) three_tasks (tpool_new 1 tiny_pool)))) + {#None#} =
     {#Some 1, Some 2, None#}"
  using pool_conserves_tasks [OF refl, of "\<lambda>_. None" three_tasks 1 tiny_pool] by (simp add: three_tasks_run)

text \<open>
  A task that overflows never runs. \<open>submit\<close> moves the task into the failed push of the worker queue and then
  pushes what is left into the global queue. With \<open>std::function\<close> that is the empty function: in no interleaving
  does a task run more often than it was put in a worker queue, so a task that only went to the global
  queue never runs, although neither \<open>submit\<close> nor the worker reports an error.
\<close>

theorem overflow_tasks_never_run:
  assumes "s = run (tpool_step (\<lambda>_. None)) cs (tpool_new hw cfg)" and "k \<in> set (tp_spilled s)" and "k \<notin> set (tp_placed s)"
  shows "Some k \<notin> set (tp_ran s) \<and> Some k \<notin> set (concat (tp_queues s)) \<and> Some k \<notin> set (tp_global s)"
proof -
  have "mset (map Some (tp_placed s)) + mset (map (\<lambda>k. None) (tp_spilled s)) =
      mset (concat (tp_queues s)) + mset (tp_global s) + mset (concat (map in_hand (tp_status s))) + mset (tp_ran s)"
    using pool_run.inv_run [of "\<lambda>_. None" cs hw cfg] assms(1) by (simp add: tpool_inv_def conserved_def)
  from arg_cong [OF this, of set_mset] have "set (concat (tp_queues s)) \<union> set (tp_global s) \<union> set (tp_ran s)
      \<subseteq> Some ` set (tp_placed s) \<union> {None}"
    by (auto simp: set_eq_iff)
  then show ?thesis using assms(3) by auto
qed

theorem overflow_tasks_never_run_witness:
  "Some 3 \<notin> set (tp_ran (run (tpool_step (\<lambda>_. None))
     (three_tasks @ TC_Stop # concat (replicate 13 (round_cmds 1))) (tpool_new 1 tiny_pool)))"
proof -
  let ?cs = "three_tasks @ TC_Stop # concat (replicate 13 (round_cmds 1))"
  let ?s1 = "run (tpool_step (\<lambda>_. None)) (three_tasks @ [TC_Stop]) (tpool_new 1 tiny_pool)"
  have r: "run (tpool_step (\<lambda>_. None)) ?cs (tpool_new 1 tiny_pool) =
      run (tpool_step (\<lambda>_. None)) (map TC_Worker (concat (replicate 13 [0]))) ?s1"
    by (simp add: run_append round_cmds_def map_concat)
  have s1: "tp_stop ?s1" "tp_spilled ?s1 = [3]" "tp_placed ?s1 = [1, 2]" by (simp_all add: run_append three_tasks_run)
  have "legal pool_ok (tpool_step (\<lambda>_. None)) (three_tasks @ [TC_Stop]) (tpool_new 1 tiny_pool)"
    unfolding legal_append three_tasks_run by (simp add: three_tasks_def)
  from pool_shut.inv_run [OF this] have "tpool_inv (\<lambda>_. None) ?s1 \<and> shut_inv ?s1" .
  from workers_run [OF this s1(1)] have
    "tp_spilled (run (tpool_step (\<lambda>_. None)) ?cs (tpool_new 1 tiny_pool)) = [3]"
    "tp_placed (run (tpool_step (\<lambda>_. None)) ?cs (tpool_new 1 tiny_pool)) = [1, 2]"
    unfolding r Let_def s1 by blast+
  then show ?thesis using overflow_tasks_never_run [OF refl, of 3 ?cs 1 tiny_pool] by simp
qed

text \<open>
  C34: Shutdown finishes and runs everything. If no submission is half way when the stop flag is set, then after
  \<open>steps_left\<close> rounds of the workers all have exited, every queue is empty, and the functions run are exactly those
  that were put in the queues. Whatever the interleaving, once all workers have exited nothing is left.
\<close>

theorem shutdown_runs_everything:
  assumes "legal pool_ok (tpool_step mv) (cs @ [TC_Stop] @ ds) (tpool_new hw cfg)"
    and "s = run (tpool_step mv) (cs @ [TC_Stop] @ ds) (tpool_new hw cfg)"
    and "s' = run (tpool_step mv) (concat (replicate (steps_left s) (round_cmds (length (tp_status s))))) s"
  shows "list_all (\<lambda>st. st = WS_Exited) (tp_status s') \<and> pending_tasks s' = 0 \<and>
    mset (tp_ran s') = mset (map Some (tp_placed s)) + mset (map (\<lambda>k. mv (Some k)) (tp_spilled s)) \<and>
    (list_all (\<lambda>st. st = WS_Exited) (tp_status s) \<longrightarrow> pending_tasks s = 0)"
proof -
  have inv: "tpool_inv mv s \<and> shut_inv s" using pool_shut.inv_run [OF assms(1)] assms(2) by simp
  have stopped: "tp_stop (tpool_step mv c u)" if "tp_stop u" for c u
    using that by (cases c) (auto simp: submit_begin_def submit_finish_def submit_rest_def Let_def worker_step_other)
  have "tp_stop (run (tpool_step mv) ds u)" if "tp_stop u" for u
    using that stopped by (induction ds arbitrary: u) simp_all
  then have "tp_stop s" using assms(2) by (simp add: run_append)
  note r = rounds_finish [OF inv this order.refl refl, unfolded Let_def, folded assms(3)]
  then show ?thesis using all_exited [of mv s'] all_exited [of mv s] inv by simp
qed

theorem shutdown_runs_everything_witness:
  "\<exists>m. mset (tp_ran (run (tpool_step (\<lambda>_. None)) (concat (replicate m (round_cmds 1)))
     (run (tpool_step (\<lambda>_. None)) (three_tasks @ [TC_Stop] @ []) (tpool_new 1 tiny_pool)))) = {#Some 1, Some 2, None#}"
proof -
  let ?s = "run (tpool_step (\<lambda>_. None)) (three_tasks @ [TC_Stop] @ []) (tpool_new 1 tiny_pool)"
  have "legal pool_ok (tpool_step (\<lambda>_. None)) (three_tasks @ [TC_Stop] @ []) (tpool_new 1 tiny_pool)"
    unfolding legal_append three_tasks_run by (simp add: three_tasks_def)
  moreover have "tp_placed ?s = [1, 2]" "tp_spilled ?s = [3]" "length (tp_status ?s) = 1"
    by (simp_all add: run_append three_tasks_run)
  ultimately show ?thesis
    using shutdown_runs_everything [OF _ refl refl, of "\<lambda>_. None" three_tasks "[]" 1 tiny_pool]
    by (intro exI [of _ "steps_left ?s"]) simp
qed

text \<open>
  A submission that is overtaken by the shutdown is lost. When the workers have exited between its test of the
  stop flag and its push, the task goes into a queue, and no step of any worker takes it out again.
\<close>

theorem overtaken_submission_lost:
  assumes "list_all (\<lambda>st. st = WS_Exited) (tp_status s)" and "i < length (tp_flight s)" and "k = tp_flight s ! i"
    and "s' = run (tpool_step mv) (map TC_Worker ws) (submit_finish mv i s)"
    and "length (tp_queues s ! (unat (tp_next s) mod length (tp_queues s))) < tp_wcap s" and "tp_queues s \<noteq> []"
  shows "Some k \<in> set (concat (tp_queues s')) \<and> tp_ran s' = tp_ran s"
proof -
  let ?s1 = "submit_finish mv i s" and ?idx = "unat (tp_next s) mod length (tp_queues s)"
  have "run (tpool_step mv) (map TC_Worker ws) u = u" if "list_all (\<lambda>st. st = WS_Exited) (tp_status u)" for u
    using that by (induction ws) (auto simp: worker_step_def list_all_length)
  then have s': "s' = ?s1"
    using assms by (simp add: submit_finish_def submit_rest_def Let_def)
  have "Some k \<in> set (tp_queues ?s1 ! ?idx)" "?idx < length (tp_queues ?s1)" "tp_ran ?s1 = tp_ran s"
    using assms by (simp_all add: submit_finish_def submit_rest_def Let_def)
  then show ?thesis unfolding s' by (auto intro: nth_mem)
qed

theorem overtaken_submission_lost_witness:
  "let s = run (tpool_step (\<lambda>_. None)) [TC_Begin 1, TC_Stop, TC_Worker 0, TC_Worker 0, TC_Worker 0] (tpool_new 1 tiny_pool)
   in list_all (\<lambda>st. st = WS_Exited) (tp_status s) \<and>
      Some (1 :: nat) \<in> set (concat (tp_queues (run (tpool_step (\<lambda>_. None)) (map TC_Worker [0]) (submit_finish (\<lambda>_. None) 0 s))))"
proof -
  define s where "s = run (tpool_step (\<lambda>_. None)) [TC_Begin (1 :: nat), TC_Stop, TC_Worker 0, TC_Worker 0, TC_Worker 0] (tpool_new 1 tiny_pool)"
  have s: "tp_status s = [WS_Exited]" "tp_flight s = [1]" "tp_queues s = [[]]" "tp_wcap s = 2"
    by (simp_all add: s_def tiny_new submit_begin_def worker_step_def set_status_def take_from_def take_global_def)
  then have "Some 1 \<in> set (concat (tp_queues (run (tpool_step (\<lambda>_. None)) (map TC_Worker [0]) (submit_finish (\<lambda>_. None) 0 s))))"
    using overtaken_submission_lost [OF _ _ refl refl, of s 0 "\<lambda>_. None" "[0]"] by simp
  then show ?thesis unfolding Let_def s_def [symmetric] using s(1) by simp
qed

end
