(* ===== verification/Event_Loop.thy ===== *)
theory Event_Loop
  imports MPMC_Queue
begin

text \<open>
  The event loop of the concurrency runtime, from \<open>src/cunk/include/concurrency/event/Event.h\<close>,
  \<open>EventLoop.h\<close> and \<open>src/cunk/src/event/EventLoop.cpp\<close>.

  An event is its type and its content \<open>'e\<close>, a handler an abstract \<open>'h\<close>. The queue is a bounded list, which
  \<open>MPMC_Queue\<close> shows the ring to be (interpretation \<open>event_q\<close>). A step is one operation of any thread, one test of the
  loop condition, one \<open>try_pop\<close> with the snapshot of its handlers, or one call of a handler; what a handler does
  itself (register, unregister, dispatch, stop) are further commands between the calls. A registration takes its id and
  stores the handler in one step; the pop and the copy of the handlers are one step, as they touch different parts. Waiting
  changes nothing and exceptions of handlers are swallowed. The counter of handler ids does not overflow.
\<close>

section \<open>Event types\<close>

text \<open>The types that have an id, in the order of their first use.\<close>

type_synonym 'ty type_registry = "'ty list"

fun first_use :: "'ty \<Rightarrow> 'ty list \<Rightarrow> nat" where
  "first_use ty [] = 0"
| "first_use ty (t # ts) = (if t = ty then 0 else Suc (first_use ty ts))"

definition event_type_id :: "'ty \<Rightarrow> 'ty type_registry \<Rightarrow> nat \<times> 'ty type_registry" where
  "event_type_id ty reg = (first_use ty reg, if ty \<in> set reg then reg else reg @ [ty])"

section \<open>State\<close>

type_synonym 'e event = "nat \<times> 'e"
type_synonym 'h handler_entry = "nat \<times> nat \<times> 'h"

text \<open>The thread of the loop: outside (with what called it, if it is processing one event), at the test of the
  loop, before the pop, or calling handlers. The flag says whether the loop is \<open>run_for\<close>.\<close>

datatype loop_mode = LM_Once | LM_Run | LM_Run_For

datatype ('e, 'h) loop_status =
    LS_Outside
  | LS_Test loop_mode
  | LS_Pop loop_mode
  | LS_Calling loop_mode "'e event" "'h handler_entry list"

record ('e, 'h) event_loop =
  el_cap :: nat
  el_queue :: "'e event list"
  el_handlers :: "'h handler_entry list"
  el_next_id :: nat
  el_running :: bool
  el_stop :: bool
  el_status :: "('e, 'h) loop_status"
  el_accepted :: "'e event list"
  el_taken :: "'e event list"
  el_called :: "('h handler_entry \<times> 'e event) list"

definition el_default_queue_size :: "64 word" where
  "el_default_queue_size = 4096"

definition event_loop_new :: "64 word \<Rightarrow> ('e, 'h) event_loop" where
  "event_loop_new qsize = \<lparr>el_cap = pq_cap (mpmc_new qsize ()), el_queue = [], el_handlers = [], el_next_id = 1,
     el_running = False, el_stop = False, el_status = LS_Outside, el_accepted = [], el_taken = [], el_called = []\<rparr>"

section \<open>Operations\<close>

definition on_impl :: "nat \<Rightarrow> 'h \<Rightarrow> ('e, 'h) event_loop \<Rightarrow> nat \<times> ('e, 'h) event_loop" where
  "on_impl ty h el =
     (el_next_id el, el\<lparr>el_next_id := el_next_id el + 1, el_handlers := el_handlers el @ [(el_next_id el, ty, h)]\<rparr>)"

definition off :: "nat \<Rightarrow> ('e, 'h) event_loop \<Rightarrow> ('e, 'h) event_loop" where
  "off i el = el\<lparr>el_handlers := filter (\<lambda>en. fst en \<noteq> i) (el_handlers el)\<rparr>"

text \<open>The result of \<open>try_push\<close> is ignored; a null event is not queued.\<close>

definition dispatch :: "'e event option \<Rightarrow> ('e, 'h) event_loop \<Rightarrow> ('e, 'h) event_loop" where
  "dispatch ev el =
     (case ev of None \<Rightarrow> el
      | Some e \<Rightarrow>
          if length (el_queue el) < el_cap el
          then el\<lparr>el_queue := el_queue el @ [e], el_accepted := el_accepted el @ [e]\<rparr> else el)"

definition stop :: "('e, 'h) event_loop \<Rightarrow> ('e, 'h) event_loop" where
  "stop el = el\<lparr>el_stop := True\<rparr>"

definition run_begin :: "loop_mode \<Rightarrow> ('e, 'h) event_loop \<Rightarrow> ('e, 'h) event_loop" where
  "run_begin m el =
     (case el_status el of
        LS_Outside \<Rightarrow>
          (if m = LM_Once then el\<lparr>el_status := LS_Pop m\<rparr>
           else el\<lparr>el_running := True, el_stop := False, el_status := LS_Test m\<rparr>)
      | _ \<Rightarrow> el)"

text \<open>The handlers an event is for, as \<open>process_one\<close> copies them.\<close>

definition matched :: "'e event \<Rightarrow> ('e, 'h) event_loop \<Rightarrow> 'h handler_entry list" where
  "matched e el = filter (\<lambda>en. fst (snd en) = fst e) (el_handlers el)"

text \<open>Leaving \<open>process_one\<close>.\<close>

definition after_event :: "loop_mode \<Rightarrow> ('e, 'h) loop_status" where
  "after_event m = (if m = LM_Once then LS_Outside else LS_Test m)"

text \<open>The next step of the loop's thread; \<open>expired\<close> is the test of the deadline of \<open>run_for\<close>.\<close>

definition loop_step :: "bool \<Rightarrow> ('e, 'h) event_loop \<Rightarrow> ('e, 'h) event_loop" where
  "loop_step expired el =
     (case el_status el of
        LS_Outside \<Rightarrow> el
      | LS_Test m \<Rightarrow>
          (if el_stop el \<or> (m = LM_Run_For \<and> expired) then el\<lparr>el_running := False, el_status := LS_Outside\<rparr>
           else el\<lparr>el_status := LS_Pop m\<rparr>)
      | LS_Pop m \<Rightarrow>
          (case el_queue el of
             [] \<Rightarrow> el\<lparr>el_status := after_event m\<rparr>
           | e # q \<Rightarrow> el\<lparr>el_queue := q, el_taken := el_taken el @ [e], el_status := LS_Calling m e (matched e el)\<rparr>)
      | LS_Calling m e [] \<Rightarrow> el\<lparr>el_status := after_event m\<rparr>
      | LS_Calling m e (h # hs) \<Rightarrow> el\<lparr>el_called := el_called el @ [(h, e)], el_status := LS_Calling m e hs\<rparr>)"

datatype ('e, 'h) loop_cmd =
    EL_On nat 'h
  | EL_Off nat
  | EL_Dispatch "'e event option"
  | EL_Stop
  | EL_Run loop_mode
  | EL_Step bool

fun el_step :: "('e, 'h) loop_cmd \<Rightarrow> ('e, 'h) event_loop \<Rightarrow> ('e, 'h) event_loop" where
  "el_step (EL_On ty h) el = snd (on_impl ty h el)"
| "el_step (EL_Off i) el = off i el"
| "el_step (EL_Dispatch ev) el = dispatch ev el"
| "el_step EL_Stop el = stop el"
| "el_step (EL_Run m) el = run_begin m el"
| "el_step (EL_Step expired) el = loop_step expired el"

section \<open>Invariants\<close>

text \<open>The handlers still to be called for the current event.\<close>

fun calls_left :: "('e, 'h) loop_status \<Rightarrow> ('h handler_entry \<times> 'e event) list" where
  "calls_left (LS_Calling m e hs) = map (\<lambda>h. (h, e)) hs"
| "calls_left _ = []"

definition el_inv :: "('e, 'h) event_loop \<Rightarrow> bool" where
  "el_inv el \<longleftrightarrow> el_accepted el = el_taken el @ el_queue el \<and> length (el_queue el) \<le> el_cap el \<and>
     sorted_wrt (<) (map fst (el_handlers el)) \<and> (\<forall>en \<in> set (el_handlers el). fst en < el_next_id el) \<and>
     (\<forall>(h, e) \<in> set (el_called el @ calls_left (el_status el)). fst (snd h) = fst e \<and> fst h < el_next_id el) \<and>
     (el_running el \<longleftrightarrow> (case el_status el of LS_Outside \<Rightarrow> False | LS_Test m \<Rightarrow> m \<noteq> LM_Once | LS_Pop m \<Rightarrow> m \<noteq> LM_Once
        | LS_Calling m e hs \<Rightarrow> m \<noteq> LM_Once)) \<and> el_status el \<noteq> LS_Test LM_Once"

lemma el_step_inv: "el_inv el \<Longrightarrow> el_inv (el_step c el)"
proof (cases c)
  case (EL_On ty h)
  assume "el_inv el"
  then show ?thesis by (auto simp: EL_On on_impl_def el_inv_def sorted_wrt_append less_Suc_eq)
next
  case (EL_Off i)
  assume "el_inv el"
  then show ?thesis by (auto simp: EL_Off off_def el_inv_def sorted_wrt_map sorted_wrt_filter)
next
  case (EL_Step x)
  assume inv: "el_inv el"
  show ?thesis
  proof (cases "el_status el")
    case (LS_Pop m)
    then show ?thesis
      using inv by (cases "el_queue el"; cases m)
        (auto simp: EL_Step loop_step_def el_inv_def after_event_def matched_def)
  next
    case (LS_Calling m e hs)
    then show ?thesis
      using inv by (cases hs; cases m) (auto simp: EL_Step loop_step_def el_inv_def after_event_def)
  qed (use inv in \<open>auto simp: EL_Step loop_step_def el_inv_def\<close>)
next
  case (EL_Run m)
  assume "el_inv el"
  then show ?thesis by (cases "el_status el") (auto simp: EL_Run run_begin_def el_inv_def)
qed (auto simp: dispatch_def stop_def el_inv_def split: option.split)

lemma el_new_inv: "el_inv (event_loop_new qsize)"
  by (simp add: event_loop_new_def el_inv_def)

interpretation ev_loop: transition_system el_step "event_loop_new qsize" el_inv "\<lambda>_ _. True" for qsize
  by unfold_locales (simp_all add: el_new_inv el_step_inv)

section \<open>Type ids\<close>

lemma first_use_less: "ty \<in> set reg \<Longrightarrow> first_use ty reg < length reg \<and> reg ! first_use ty reg = ty"
  by (induction reg) auto

lemma first_use_append: "ty \<in> set reg \<Longrightarrow> first_use ty (reg @ later) = first_use ty reg"
  by (induction reg) auto

lemma first_use_new: "ty \<notin> set reg \<Longrightarrow> first_use ty (reg @ [ty]) = length reg \<and> first_use ty reg = length reg"
  by (induction reg) auto

text \<open>The id of a type stays what it was when it was first asked for.\<close>

lemma type_id_stable:
  "fst (event_type_id ty (snd (event_type_id ty reg) @ later)) = fst (event_type_id ty reg)"
proof (cases "ty \<in> set reg")
  case False
  have "first_use ty ((reg @ [ty]) @ later) = first_use ty (reg @ [ty])" by (rule first_use_append) simp
  then show ?thesis using False first_use_new [OF False] by (simp add: event_type_id_def)
qed (simp add: event_type_id_def first_use_append)

lemma type_ids_distinct:
  "ty \<in> set reg \<Longrightarrow> ty' \<in> set reg \<Longrightarrow> fst (event_type_id ty reg) = fst (event_type_id ty' reg) \<longleftrightarrow> ty = ty'"
  unfolding event_type_id_def fst_conv by (metis first_use_less)

section \<open>What is called\<close>

lemma matched_handlers: "el_handlers el' = el_handlers el \<Longrightarrow> matched e el' = matched e el"
  by (simp add: matched_def)

definition calls_for :: "('e, 'h) event_loop \<Rightarrow> 'e event list \<Rightarrow> ('h handler_entry \<times> 'e event) list" where
  "calls_for el es = concat (map (\<lambda>e. map (\<lambda>h. (h, e)) (matched e el)) es)"

fun fixed_handlers :: "('e, 'h) loop_cmd \<Rightarrow> bool" where
  "fixed_handlers (EL_On ty h) = False"
| "fixed_handlers (EL_Off i) = False"
| "fixed_handlers _ = True"

definition called_ok :: "('e, 'h) event_loop \<Rightarrow> ('e, 'h) event_loop \<Rightarrow> bool" where
  "called_ok el0 el \<longleftrightarrow> el_handlers el = el_handlers el0 \<and>
     (\<exists>es. el_taken el = el_taken el0 @ es \<and>
        el_called el @ calls_left (el_status el) = el_called el0 @ calls_left (el_status el0) @ calls_for el0 es)"

lemma called_ok_step:
  assumes "called_ok el0 el" and "fixed_handlers c"
  shows "called_ok el0 (el_step c el)"
proof -
  obtain es where h: "el_handlers el = el_handlers el0" and es: "el_taken el = el_taken el0 @ es"
    "el_called el @ calls_left (el_status el) = el_called el0 @ calls_left (el_status el0) @ calls_for el0 es"
    using assms(1) by (auto simp: called_ok_def)
  show ?thesis
  proof (cases c)
    case (EL_Step x)
    show ?thesis
    proof (cases "el_status el")
      case (LS_Pop m)
      show ?thesis
      proof (cases "el_queue el")
        case (Cons e q)
        have "el_called el = el_called el0 @ calls_left (el_status el0) @ calls_for el0 es" using es(2) LS_Pop by simp
        then show ?thesis
          using h es(1) by (auto simp: EL_Step loop_step_def LS_Pop Cons called_ok_def calls_for_def matched_handlers [OF h])
      next
        case Nil
        then show ?thesis
          using h es LS_Pop by (auto simp: EL_Step loop_step_def called_ok_def after_event_def)
      qed
    next
      case (LS_Calling m e hs)
      then show ?thesis
        using h es by (cases hs) (auto simp: EL_Step loop_step_def called_ok_def after_event_def)
    qed (use h es in \<open>auto simp: EL_Step loop_step_def called_ok_def\<close>)
  next
    case (EL_Run m)
    show ?thesis
      using h es by (cases "el_status el") (auto simp: EL_Run run_begin_def called_ok_def)
  qed (use assms(2) h es in \<open>auto simp: dispatch_def stop_def called_ok_def split: option.split\<close>)
qed

lemma called_ok_run: "called_ok el0 el \<Longrightarrow> list_all fixed_handlers cs \<Longrightarrow> called_ok el0 (run el_step cs el)"
  by (induction cs arbitrary: el) (simp_all add: called_ok_step)

lemma running_run:
  assumes "el_status el \<in> {LS_Test LM_Run, LS_Pop LM_Run} \<or> (\<exists>e hs. el_status el = LS_Calling LM_Run e hs)"
    and "\<not> el_stop el" and "el_running el" and "EL_Stop \<notin> set cs"
  shows "el_running (run el_step cs el)"
  using assms
proof (induction cs arbitrary: el)
  case (Cons c cs)
  have "(el_status (el_step c el) \<in> {LS_Test LM_Run, LS_Pop LM_Run} \<or> (\<exists>e hs. el_status (el_step c el) = LS_Calling LM_Run e hs)) \<and>
    \<not> el_stop (el_step c el) \<and> el_running (el_step c el)"
  proof (cases c)
    case (EL_Step x)
    then show ?thesis
      using Cons.prems(1-3)
      by (auto simp: loop_step_def after_event_def split: list.splits)
  next
    case (EL_Run m)
    then show ?thesis using Cons.prems(1-3) by (auto simp: run_begin_def)
  qed (use Cons.prems in \<open>auto simp: on_impl_def off_def dispatch_def split: option.split\<close>)
  then show ?case using Cons.IH [of "el_step c el"] Cons.prems(4) by simp
qed simp

section \<open>Properties\<close>

text \<open>
  Events are handled in order, by their handlers. Whatever threads dispatch and however the calls are interleaved,
  the events taken followed by those in the queue are the accepted ones in order; every call made or still to be made
  is of a handler that was registered for the type of its event; the registered handlers have distinct ids; and the loop is marked running exactly while a call of \<open>run\<close> or \<open>run_for\<close> is active.
\<close>

theorem events_in_order:
  assumes "el = run el_step cs (event_loop_new qsize)"
  shows "el_accepted el = el_taken el @ el_queue el \<and> length (el_queue el) \<le> el_cap el \<and>
    distinct (map fst (el_handlers el)) \<and>
    (\<forall>(h, e) \<in> set (el_called el @ calls_left (el_status el)). fst (snd h) = fst e \<and> fst h < el_next_id el) \<and>
    (el_status el = LS_Outside \<longrightarrow> \<not> el_running el)"
  using ev_loop.inv_run [of cs qsize] assms by (auto simp: el_inv_def strict_sorted_iff)

definition loop_demo :: "(char, string) loop_cmd list" where
  "loop_demo = [EL_On 0 ''a'', EL_On 1 ''b'', EL_On 0 ''c'', EL_Dispatch (Some (0, CHR ''x'')), EL_Dispatch None,
     EL_Dispatch (Some (1, CHR ''y'')), EL_Run LM_Once, EL_Step False, EL_Step False, EL_Off 3, EL_Step False]"

lemma event_loop_2: "event_loop_new 2 = \<lparr>el_cap = 2, el_queue = [], el_handlers = [], el_next_id = 1,
     el_running = False, el_stop = False, el_status = LS_Outside, el_accepted = [], el_taken = [], el_called = []\<rparr>"
proof -
  have "unat (next_power_of_two 2) = 2" by code_simp
  then show ?thesis by (simp add: event_loop_new_def mpmc_new_def)
qed

theorem events_in_order_witness:
  "let el = run el_step loop_demo (event_loop_new 2)
   in el_taken el = [(0, CHR ''x'')] \<and> el_queue el = [(1, CHR ''y'')] \<and> el_accepted el = el_taken el @ el_queue el"
proof -
  have "el_taken (run el_step loop_demo (event_loop_new 2)) = [(0, CHR ''x'')] \<and>
      el_queue (run el_step loop_demo (event_loop_new 2)) = [(1, CHR ''y'')]"
    by (simp add: loop_demo_def event_loop_2 on_impl_def dispatch_def run_begin_def loop_step_def matched_def off_def)
  then show ?thesis using events_in_order [OF refl, of loop_demo 2] by (simp add: Let_def)
qed



text \<open>
  A stop that comes before the run is lost. \<open>run\<close> clears the stop flag: after a call of \<open>stop\<close> and then \<open>run\<close>, the
  loop runs as if it had not been stopped, until another call of \<open>stop\<close>.
\<close>

theorem stop_before_run_lost:
  assumes "el_status el = LS_Outside" and "EL_Stop \<notin> set cs"
  shows "run el_step [EL_Stop, EL_Run LM_Run] el = run el_step [EL_Run LM_Run] el \<and>
    el_running (run el_step (EL_Stop # EL_Run LM_Run # cs) el)"
proof -
  have "run el_step [EL_Stop, EL_Run LM_Run] el = run el_step [EL_Run LM_Run] el"
    using assms(1) by (simp add: stop_def run_begin_def)
  moreover have "el_running (run el_step cs (run_begin LM_Run (stop el)))"
    by (rule running_run) (use assms in \<open>simp_all add: stop_def run_begin_def\<close>)
  ultimately show ?thesis by simp
qed

theorem stop_before_run_lost_witness:
  "el_running (run el_step (EL_Stop # EL_Run LM_Run # [EL_Step False, EL_Dispatch (Some (0, ())), EL_Step False, EL_Step False, EL_Step False])
     (event_loop_new 2 :: (unit, unit) event_loop))"
  by (rule stop_before_run_lost [THEN conjunct2]) (simp_all add: event_loop_2)

text \<open>
  A removed handler can still be called. When a handler, or another thread, removes a handler that is to be called
  later for the same event, the call is made all the same, although the handler is no longer registered.
\<close>

theorem removed_handler_still_called:
  assumes "el_status el = LS_Calling m e (h1 # h2 # hs)"
    and "el' = run el_step [EL_Step x, EL_Off (fst h2), EL_Step y] el"
  shows "el_called el' = el_called el @ [(h1, e), (h2, e)] \<and> h2 \<notin> set (el_handlers el')"
  using assms by (auto simp: loop_step_def off_def)

theorem removed_handler_still_called_witness:
  "let el = run el_step (take 8 loop_demo) (event_loop_new 2); el' = run el_step [EL_Step False, EL_Off 3, EL_Step False] el
   in el_called el' = [((1, 0, ''a''), (0, CHR ''x'')), ((3, 0, ''c''), (0, CHR ''x''))] \<and> (3, 0, ''c'') \<notin> set (el_handlers el')"
proof -
  let ?el = "run el_step (take 8 loop_demo) (event_loop_new 2)"
  have "el_status ?el = LS_Calling LM_Once (0, CHR ''x'') ((1, 0, ''a'') # (3, 0, ''c'') # [])" "el_called ?el = []"
    by (simp_all add: loop_demo_def event_loop_2 on_impl_def dispatch_def run_begin_def loop_step_def matched_def)
  note st = this
  from removed_handler_still_called [OF st(1) refl, of False False] st(2) show ?thesis
    by (simp only: Let_def fst_conv append_Nil simp_thms)
qed

end
