(* ===== verification/Scheduler.thy ===== *)
theory Scheduler
  imports Prelude
begin

text \<open>
  The timer scheduler of the concurrency runtime, from \<open>src/cunk/include/concurrency/scheduler/Scheduler.h\<close> and
  \<open>src/cunk/src/scheduler/Scheduler.cpp\<close>.

  The heap is a list of tasks; \<open>sel\<close> gives the position of its top, of which only \<open>sel_ok\<close> is assumed
  (which of several earliest tasks is the top is left to the library). Clock readings, delays and deadlines are counts
  of the clock's ticks; ids count the tasks scheduled. The scheduler's thread moves from one
  acquisition of the lock to the next, and between the test of a wait and its blocking, where it
  still holds the lock; the operations of other threads come in between, as the lock allows. The sleep reads its
  deadline through a reference to the top of the heap at every call of the condition variable: a push
  that reallocates the heap (\<open>realloc\<close>, left to the library) makes that reference dangle, and then the value read is
  arbitrary (\<open>stale\<close>). A running task may itself schedule or cancel: those are operations before its end.
\<close>

section \<open>State\<close>

record 'k sched_task =
  sk_id :: nat
  sk_deadline :: int
  sk_interval :: int
  sk_task :: 'k
  sk_cancelled :: bool

text \<open>The thread: not started; at the test of the loop; before the lock; in the wait for a task (before
  blocking, blocked, notified); in the sleep (the same); running a task, with the clock reading that
  made it due; ended.\<close>

datatype 'k sched_status =
    SS_Off
  | SS_Test
  | SS_Lock
  | SS_Will_Wait
  | SS_Waiting
  | SS_Wait_Woken
  | SS_Will_Sleep
  | SS_Sleeping int
  | SS_Sleep_Woken
  | SS_Run "'k sched_task" int
  | SS_Exited

text \<open>The last two fields record what was scheduled and what was run, with the clock reading.\<close>

record 'k scheduler =
  sc_queue :: "'k sched_task list"
  sc_running :: bool
  sc_next_id :: nat
  sc_status :: "'k sched_status"
  sc_ref_valid :: bool
  sc_scheduled :: "'k sched_task list"
  sc_ran :: "('k sched_task \<times> int) list"

definition sched_new :: "'k scheduler" where
  "sched_new = \<lparr>sc_queue = [], sc_running = False, sc_next_id = 1, sc_status = SS_Off, sc_ref_valid = False,
     sc_scheduled = [], sc_ran = []\<rparr>"

section \<open>Operations\<close>

text \<open>Waking the thread, if it is blocked.\<close>

fun woken :: "'k sched_status \<Rightarrow> 'k sched_status" where
  "woken SS_Waiting = SS_Wait_Woken"
| "woken (SS_Sleeping d) = SS_Sleep_Woken"
| "woken st = st"

definition sched_notify :: "'k scheduler \<Rightarrow> 'k scheduler" where
  "sched_notify s = s\<lparr>sc_status := woken (sc_status s)\<rparr>"

definition sched_push :: "bool \<Rightarrow> 'k sched_task \<Rightarrow> 'k scheduler \<Rightarrow> 'k scheduler" where
  "sched_push realloc t s =
     s\<lparr>sc_queue := sc_queue s @ [t], sc_ref_valid := sc_ref_valid s \<and> \<not> realloc\<rparr>"

definition schedule_periodic :: "int \<Rightarrow> int \<Rightarrow> int \<Rightarrow> 'k \<Rightarrow> bool \<Rightarrow> 'k scheduler \<Rightarrow> nat \<times> 'k scheduler" where
  "schedule_periodic now initial_delay interval k realloc s =
     (let i = sc_next_id s;
          t = \<lparr>sk_id = i, sk_deadline = i64 (now + initial_delay), sk_interval = interval, sk_task = k, sk_cancelled = False\<rparr>
      in (i, sched_notify (sched_push realloc t (s\<lparr>sc_next_id := i + 1, sc_scheduled := sc_scheduled s @ [t]\<rparr>))))"

definition schedule_once :: "int \<Rightarrow> int \<Rightarrow> 'k \<Rightarrow> bool \<Rightarrow> 'k scheduler \<Rightarrow> nat \<times> 'k scheduler" where
  "schedule_once now delay k realloc s =
     (let i = sc_next_id s;
          t = \<lparr>sk_id = i, sk_deadline = i64 (now + delay), sk_interval = 0, sk_task = k, sk_cancelled = False\<rparr>
      in (i, sched_notify (sched_push realloc t (s\<lparr>sc_next_id := i + 1, sc_scheduled := sc_scheduled s @ [t]\<rparr>))))"

definition sched_cancel :: "nat \<Rightarrow> 'k scheduler \<Rightarrow> bool \<times> 'k scheduler" where
  "sched_cancel i s = (False, s)"

definition sched_start :: "'k scheduler \<Rightarrow> 'k scheduler" where
  "sched_start s = (if sc_running s then s else s\<lparr>sc_running := True, sc_status := SS_Test\<rparr>)"

text \<open>\<open>shutdown\<close> up to the join, which returns once the thread has ended.\<close>

definition sched_shutdown :: "'k scheduler \<Rightarrow> 'k scheduler" where
  "sched_shutdown s = sched_notify (s\<lparr>sc_running := False\<rparr>)"

definition sched_joined :: "'k scheduler \<Rightarrow> bool" where
  "sched_joined s \<longleftrightarrow> (case sc_status s of SS_Off \<Rightarrow> True | SS_Exited \<Rightarrow> True | _ \<Rightarrow> False)"

definition pending_count :: "'k scheduler \<Rightarrow> nat" where
  "pending_count s = length (sc_queue s)"

section \<open>The thread\<close>

definition heap_pop :: "nat \<Rightarrow> 'k sched_task list \<Rightarrow> 'k sched_task list" where
  "heap_pop i q = take i q @ drop (Suc i) q"

text \<open>One pass of the loop under the lock, up to running the task or blocking.\<close>

definition locked_pass :: "('k sched_task list \<Rightarrow> nat) \<Rightarrow> int \<Rightarrow> 'k scheduler \<Rightarrow> 'k scheduler" where
  "locked_pass sel now s =
     (if sc_queue s = [] then s\<lparr>sc_status := if sc_running s then SS_Will_Wait else SS_Test\<rparr>
      else
        let i = sel (sc_queue s); t = sc_queue s ! i
        in if sk_deadline t \<le> now
           then let q = heap_pop i (sc_queue s)
                in if sk_cancelled t then s\<lparr>sc_queue := q, sc_status := SS_Test\<rparr>
                   else s\<lparr>sc_queue := (if 0 < sk_interval t
                            then q @ [t\<lparr>sk_deadline := i64 (sk_deadline t + sk_interval t), sk_cancelled := False\<rparr>] else q),
                          sc_status := SS_Run t now\<rparr>
           else s\<lparr>sc_ref_valid := True, sc_status := if sc_running s then SS_Will_Sleep else SS_Test\<rparr>)"

definition top_deadline :: "('k sched_task list \<Rightarrow> nat) \<Rightarrow> int \<Rightarrow> 'k scheduler \<Rightarrow> int" where
  "top_deadline sel stale s = (if sc_ref_valid s then sk_deadline (sc_queue s ! sel (sc_queue s)) else stale)"

definition sched_loop_step :: "('k sched_task list \<Rightarrow> nat) \<Rightarrow> int \<Rightarrow> int \<Rightarrow> 'k scheduler \<Rightarrow> 'k scheduler" where
  "sched_loop_step sel now stale s =
     (case sc_status s of
        SS_Off \<Rightarrow> s
      | SS_Test \<Rightarrow> s\<lparr>sc_status := if sc_running s then SS_Lock else SS_Exited\<rparr>
      | SS_Lock \<Rightarrow> locked_pass sel now s
      | SS_Will_Wait \<Rightarrow> s\<lparr>sc_status := SS_Waiting\<rparr>
      | SS_Waiting \<Rightarrow> s
      | SS_Wait_Woken \<Rightarrow> s\<lparr>sc_status := if \<not> sc_running s \<or> sc_queue s \<noteq> [] then SS_Test else SS_Will_Wait\<rparr>
      | SS_Will_Sleep \<Rightarrow> s\<lparr>sc_status := SS_Sleeping (top_deadline sel stale s)\<rparr>
      | SS_Sleeping d \<Rightarrow> (if d \<le> now then s\<lparr>sc_status := SS_Test\<rparr> else s)
      | SS_Sleep_Woken \<Rightarrow> s\<lparr>sc_status := if sc_running s then SS_Will_Sleep else SS_Test\<rparr>
      | SS_Run t n \<Rightarrow> s\<lparr>sc_ran := sc_ran s @ [(t, n)], sc_status := SS_Test\<rparr>
      | SS_Exited \<Rightarrow> s)"

text \<open>The commands of all threads; \<open>SC_Spurious\<close> is a wake-up without a notification.\<close>

datatype 'k sched_cmd =
    SC_Once int int 'k bool
  | SC_Periodic int int int 'k bool
  | SC_Cancel nat
  | SC_Start
  | SC_Shutdown
  | SC_Spurious
  | SC_Step int int

fun sched_step :: "('k sched_task list \<Rightarrow> nat) \<Rightarrow> 'k sched_cmd \<Rightarrow> 'k scheduler \<Rightarrow> 'k scheduler" where
  "sched_step sel (SC_Once now delay k r) s = snd (schedule_once now delay k r s)"
| "sched_step sel (SC_Periodic now delay interval k r) s = snd (schedule_periodic now delay interval k r s)"
| "sched_step sel (SC_Cancel i) s = snd (sched_cancel i s)"
| "sched_step sel SC_Start s = sched_start s"
| "sched_step sel SC_Shutdown s = sched_shutdown s"
| "sched_step sel SC_Spurious s = sched_notify s"
| "sched_step sel (SC_Step now stale) s = sched_loop_step sel now stale s"

text \<open>Scheduling needs the lock; the managing thread starts only after a shutdown has returned; clock readings and
  durations are small enough for their sums.\<close>

definition lock_free :: "'k scheduler \<Rightarrow> bool" where
  "lock_free s \<longleftrightarrow> (case sc_status s of SS_Will_Wait \<Rightarrow> False | SS_Will_Sleep \<Rightarrow> False | _ \<Rightarrow> True)"

definition clock_ok :: "int \<Rightarrow> bool" where
  "clock_ok now \<longleftrightarrow> 0 \<le> now \<and> now < 2 ^ 62"

definition span_ok :: "int \<Rightarrow> bool" where
  "span_ok d \<longleftrightarrow> \<bar>d\<bar> \<le> 2 ^ 61"

fun sched_ok :: "'k sched_cmd \<Rightarrow> 'k scheduler \<Rightarrow> bool" where
  "sched_ok (SC_Once now delay k r) s \<longleftrightarrow> lock_free s \<and> clock_ok now \<and> span_ok delay"
| "sched_ok (SC_Periodic now delay interval k r) s \<longleftrightarrow> lock_free s \<and> clock_ok now \<and> span_ok delay \<and> span_ok interval"
| "sched_ok SC_Start s \<longleftrightarrow> sc_running s \<or> sched_joined s"
| "sched_ok (SC_Step now stale) s \<longleftrightarrow> clock_ok now"
| "sched_ok _ s \<longleftrightarrow> True"

section \<open>The top of the heap\<close>

definition sel_ok :: "('k sched_task list \<Rightarrow> nat) \<Rightarrow> bool" where
  "sel_ok sel \<longleftrightarrow> (\<forall>q. q \<noteq> [] \<longrightarrow> sel q < length q \<and> (\<forall>t \<in> set q. sk_deadline (q ! sel q) \<le> sk_deadline t))"

lemma sel_okD: "sel_ok sel \<Longrightarrow> q \<noteq> [] \<Longrightarrow> sel q < length q \<and> (\<forall>t \<in> set q. sk_deadline (q ! sel q) \<le> sk_deadline t)"
  by (simp add: sel_ok_def)

text \<open>The position of the first of the earliest.\<close>

fun first_top :: "'k sched_task list \<Rightarrow> nat" where
  "first_top (t # q) = (if q = [] \<or> sk_deadline t \<le> sk_deadline (q ! first_top q) then 0 else Suc (first_top q))"
| "first_top [] = 0"

lemma first_top_ok: "sel_ok first_top"
proof -
  have "q \<noteq> [] \<Longrightarrow> first_top q < length q \<and> (\<forall>t \<in> set q. sk_deadline (q ! first_top q) \<le> sk_deadline t)" for q :: "'k sched_task list"
  proof (induction q)
    case (Cons t q)
    then show ?case by (cases "q = []") (auto intro: order_trans)
  qed simp
  then show ?thesis unfolding sel_ok_def by blast
qed

lemma heap_pop_split:
  assumes "i < length q"
  obtains as bs where "q = as @ q ! i # bs" "heap_pop i q = as @ bs"
  using id_take_nth_drop [OF assms] by (auto simp: heap_pop_def)

section \<open>What is run, and when\<close>

text \<open>The \<open>j\<close>-th occurrence of a task that was scheduled.\<close>

definition occurrence :: "'k sched_task \<Rightarrow> nat \<Rightarrow> 'k sched_task" where
  "occurrence t j = t\<lparr>sk_deadline := sk_deadline t + int j * sk_interval t\<rparr>"

fun being_run :: "'k sched_status \<Rightarrow> ('k sched_task \<times> int) list" where
  "being_run (SS_Run t n) = [(t, n)]"
| "being_run _ = []"

definition runs_of :: "nat \<Rightarrow> 'k scheduler \<Rightarrow> 'k sched_task list" where
  "runs_of i s = filter (\<lambda>t. sk_id t = i) (map fst (sc_ran s @ being_run (sc_status s)))"

definition queued_of :: "nat \<Rightarrow> 'k scheduler \<Rightarrow> 'k sched_task list" where
  "queued_of i s = filter (\<lambda>t. sk_id t = i) (sc_queue s)"

definition accounted :: "'k sched_task \<Rightarrow> 'k sched_task list \<Rightarrow> 'k sched_task list \<Rightarrow> bool" where
  "accounted t rs qs \<longleftrightarrow> rs = map (occurrence t) [0..<length rs] \<and>
     qs = (if 0 < sk_interval t \<or> rs = [] then [occurrence t (length rs)] else []) \<and>
     (sk_interval t \<le> 0 \<longrightarrow> length rs \<le> 1)"

definition task_ok :: "'k sched_task \<Rightarrow> bool" where
  "task_ok t \<longleftrightarrow> - (2 ^ 61) \<le> sk_deadline t \<and> \<bar>sk_interval t\<bar> \<le> 2 ^ 61 \<and> \<not> sk_cancelled t"

fun asleep :: "'k sched_status \<Rightarrow> bool" where
  "asleep SS_Will_Sleep \<longleftrightarrow> True"
| "asleep (SS_Sleeping d) \<longleftrightarrow> True"
| "asleep SS_Sleep_Woken \<longleftrightarrow> True"
| "asleep _ \<longleftrightarrow> False"

definition sched_accounts :: "'k scheduler \<Rightarrow> bool" where
  "sched_accounts s \<longleftrightarrow>
     (\<forall>t \<in> set (sc_scheduled s). sk_id t < sc_next_id s \<and> accounted t (runs_of (sk_id t) s) (queued_of (sk_id t) s)) \<and>
     sk_id ` (set (sc_queue s) \<union> fst ` set (sc_ran s @ being_run (sc_status s))) \<subseteq> sk_id ` set (sc_scheduled s)"

definition sched_inv :: "'k scheduler \<Rightarrow> bool" where
  "sched_inv s \<longleftrightarrow> sched_accounts s \<and> (\<forall>t \<in> set (sc_queue s). task_ok t) \<and>
     (\<forall>(t, n) \<in> set (sc_ran s @ being_run (sc_status s)). sk_deadline t \<le> n) \<and>
     (asleep (sc_status s) \<longrightarrow> sc_queue s \<noteq> []) \<and>
     (\<forall>d. sc_status s = SS_Sleeping d \<and> sc_ref_valid s \<longrightarrow> (\<forall>t \<in> set (sc_queue s). d \<le> sk_deadline t))"

lemma being_run_woken [simp]: "being_run (woken st) = being_run st"
  by (cases st) simp_all

lemma occurrence_simps [simp]:
  "sk_id (occurrence t j) = sk_id t" "sk_interval (occurrence t j) = sk_interval t" "occurrence t 0 = t"
  "sk_cancelled (occurrence t j) = sk_cancelled t"
  by (simp_all add: occurrence_def)

lemma accounted_new: "accounted t [] [t]"
  by (simp add: accounted_def)

text \<open>An occurrence is run, and the next one queued if the task is periodic.\<close>

lemma accounted_run:
  assumes "accounted t rs [x]"
  shows "accounted t (rs @ [x]) (if 0 < sk_interval t then [x\<lparr>sk_deadline := sk_deadline x + sk_interval t\<rparr>] else [])"
proof -
  have x: "x = occurrence t (length rs)" "0 < sk_interval t \<or> rs = []"
    using assms by (auto simp: accounted_def split: if_splits)
  have "x\<lparr>sk_deadline := sk_deadline x + sk_interval t\<rparr> = occurrence t (Suc (length rs))"
    by (simp add: x occurrence_def algebra_simps)
  moreover have "rs @ [x] = map (occurrence t) [0..<Suc (length rs)]"
    using assms by (simp add: accounted_def x(1))
  ultimately show ?thesis using x(2) by (auto simp: accounted_def)
qed

lemma accounted_unique:
  assumes "accounted t rs qs" and "x \<in> set qs"
  shows "qs = [x]" and "x = occurrence t (length rs)"
  using assms by (auto simp: accounted_def split: if_splits)

lemma new_task_inv:
  assumes inv: "sched_inv s" and "lock_free s" and t: "sk_id t = sc_next_id s" "task_ok t"
  shows "sched_inv (sched_notify (sched_push r t (s\<lparr>sc_next_id := sc_next_id s + 1, sc_scheduled := sc_scheduled s @ [t]\<rparr>)))"
    (is "sched_inv ?s")
proof -
  have acc: "sched_accounts s" using inv by (simp add: sched_inv_def)
  have runs: "runs_of i ?s = runs_of i s" for i by (simp add: runs_of_def sched_notify_def sched_push_def)
  have queued: "queued_of i ?s = queued_of i s @ (if i = sk_id t then [t] else [])" for i
    by (simp add: queued_of_def sched_notify_def sched_push_def)
  have ids: "sk_id x < sc_next_id s" if "x \<in> set (sc_queue s) \<union> fst ` set (sc_ran s @ being_run (sc_status s))" for x
    using acc that unfolding sched_accounts_def by (metis (no_types, lifting) image_eqI image_iff subsetD)
  have "runs_of (sk_id t) s = []" "queued_of (sk_id t) s = []"
    using ids t(1) by (fastforce simp: runs_of_def queued_of_def filter_empty_conv)+
  then have "sched_accounts ?s"
    using acc t(1) unfolding sched_accounts_def runs queued
    by (auto simp: accounted_new sched_notify_def sched_push_def)
  moreover have "\<not> (\<exists>d. sc_status ?s = SS_Sleeping d)"
    by (cases "sc_status s") (simp_all add: sched_notify_def sched_push_def)
  ultimately show ?thesis
    using inv t(2) by (auto simp: sched_inv_def sched_notify_def sched_push_def)
qed

text \<open>Changing the state of the thread and the flags only.\<close>

lemma status_inv:
  assumes "sched_inv s" and "being_run st = being_run (sc_status s)" and "asleep st \<longrightarrow> sc_queue s \<noteq> []"
    and "\<forall>d. st = SS_Sleeping d \<and> rv \<longrightarrow> (\<forall>t \<in> set (sc_queue s). d \<le> sk_deadline t)"
  shows "sched_inv (s\<lparr>sc_running := ru, sc_ref_valid := rv, sc_status := st\<rparr>)" and "sched_inv (s\<lparr>sc_ref_valid := rv, sc_status := st\<rparr>)"
  using assms by (simp_all add: sched_inv_def sched_accounts_def runs_of_def queued_of_def)

lemma due_task_inv:
  assumes inv: "sched_inv s" and st: "sc_status s = SS_Lock" and sel: "i < length (sc_queue s)"
    and t: "t = sc_queue s ! i" "sk_deadline t \<le> now" "clock_ok now"
  shows "sched_inv (s\<lparr>sc_queue := (if 0 < sk_interval t
            then heap_pop i (sc_queue s) @ [t\<lparr>sk_deadline := i64 (sk_deadline t + sk_interval t), sk_cancelled := False\<rparr>]
            else heap_pop i (sc_queue s)), sc_status := SS_Run t now\<rparr>)" (is "sched_inv ?s")
proof -
  obtain as bs where q: "sc_queue s = as @ t # bs" "heap_pop i (sc_queue s) = as @ bs"
    using heap_pop_split [OF sel] t(1) by metis
  have pop: "heap_pop i (as @ t # bs) = as @ bs" using q by simp
  have acc: "sched_accounts s" using inv by (simp add: sched_inv_def)
  have tok: "task_ok t" using inv q(1) by (simp add: sched_inv_def)
  define n where "n = t\<lparr>sk_deadline := sk_deadline t + sk_interval t\<rparr>"
  have n: "t\<lparr>sk_deadline := i64 (sk_deadline t + sk_interval t), sk_cancelled := False\<rparr> = n"
  proof -
    have "\<bar>sk_deadline t + sk_interval t\<bar> < 9223372036854775808" using tok t(2,3) by (simp add: task_ok_def clock_ok_def abs_le_iff abs_less_iff)
    then show ?thesis using tok by (simp add: n_def task_ok_def wrap_simps)
  qed
  have "sk_id t \<in> sk_id ` set (sc_scheduled s)" using acc q(1) by (auto simp: sched_accounts_def)
  then obtain t0 where t0: "t0 \<in> set (sc_scheduled s)" "sk_id t0 = sk_id t" by auto
  have a0: "accounted t0 (runs_of (sk_id t) s) (queued_of (sk_id t) s)" using acc t0 by (auto simp: sched_accounts_def)
  have one: "queued_of (sk_id t) s = [t]" and occ: "t = occurrence t0 (length (runs_of (sk_id t) s))"
    using accounted_unique [OF a0, of t] q(1) by (simp_all add: queued_of_def)
  have rest: "filter (\<lambda>x. sk_id x = sk_id t) (as @ bs) = []"
    using one by (auto simp: queued_of_def q(1) Cons_eq_append_conv append_eq_Cons_conv)
  have iv: "sk_interval t0 = sk_interval t" using occ by (metis occurrence_simps(2))
  have runs: "runs_of j ?s = runs_of j s @ (if j = sk_id t then [t] else [])" for j
    by (simp add: runs_of_def st)
  have queued: "queued_of j ?s = (if j = sk_id t then if 0 < sk_interval t then [n] else [] else queued_of j s)" for j
    using rest by (simp add: queued_of_def n q(1) pop n_def)
  have "accounted x (runs_of (sk_id x) ?s) (queued_of (sk_id x) ?s)" if x: "x \<in> set (sc_scheduled s)" for x
  proof (cases "sk_id x = sk_id t")
    case True
    have ax: "accounted x (runs_of (sk_id t) s) [t]" using acc x True one by (auto simp: sched_accounts_def)
    have "sk_interval x = sk_interval t" using accounted_unique(2) [OF ax, of t] by (metis list.set_intros(1) occurrence_simps(2))
    then show ?thesis using accounted_run [OF ax] unfolding runs queued True by (cases "0 < sk_interval t") (simp_all add: n_def)
  next
    case False
    then show ?thesis using acc x unfolding runs queued by (auto simp: sched_accounts_def)
  qed
  moreover have "sk_id ` (set (sc_queue ?s) \<union> fst ` set (sc_ran ?s @ being_run (sc_status ?s))) \<subseteq> sk_id ` set (sc_scheduled ?s)"
    using acc t0 unfolding sched_accounts_def n by (auto simp: n_def st q(1) pop)
  ultimately have "sched_accounts ?s" using acc by (simp add: sched_accounts_def)
  moreover have "task_ok n" if "0 < sk_interval t" using tok that by (simp add: task_ok_def n_def)
  ultimately show ?thesis using inv t(2) unfolding sched_inv_def n by (auto simp: st q(1) pop)
qed

lemma top_deadline_least:
  assumes "sel_ok sel" and "sc_queue s \<noteq> []" and "sc_ref_valid s"
  shows "\<forall>t \<in> set (sc_queue s). top_deadline sel stale s \<le> sk_deadline t"
  using sel_okD [OF assms(1,2)] assms(3) by (simp add: top_deadline_def)

lemma locked_pass_inv:
  assumes inv: "sched_inv s" and st: "sc_status s = SS_Lock" and sel: "sel_ok sel" and now: "clock_ok now"
  shows "sched_inv (locked_pass sel now s)"
proof (cases "sc_queue s = []")
  case True
  then show ?thesis
    using status_inv(2) [OF inv, of "if sc_running s then SS_Will_Wait else SS_Test" "sc_ref_valid s"] st
    by (cases "sc_running s") (simp_all add: locked_pass_def)
next
  case False
  let ?t = "sc_queue s ! sel (sc_queue s)"
  have i: "sel (sc_queue s) < length (sc_queue s)" using sel_okD [OF sel False] by simp
  then have "\<not> sk_cancelled ?t" using inv by (simp add: sched_inv_def task_ok_def)
  then show ?thesis
    using False due_task_inv [OF inv st i refl _ now]
      status_inv(2) [OF inv, of "if sc_running s then SS_Will_Sleep else SS_Test" True] st
    by (cases "sc_running s") (simp_all add: locked_pass_def Let_def ac_simps)
qed

lemma sched_loop_step_inv:
  assumes inv: "sched_inv s" and sel: "sel_ok sel" and now: "clock_ok now"
  shows "sched_inv (sched_loop_step sel now stale s)"
proof -
  have st: "sched_inv (s\<lparr>sc_status := st\<rparr>)"
    if "being_run st = being_run (sc_status s)" "asleep st \<longrightarrow> sc_queue s \<noteq> []"
      "\<forall>d. st = SS_Sleeping d \<and> sc_ref_valid s \<longrightarrow> (\<forall>t \<in> set (sc_queue s). d \<le> sk_deadline t)" for st
    using status_inv(2) [OF inv that] by simp
  have awake: "asleep (sc_status s) \<longrightarrow> sc_queue s \<noteq> []" using inv by (simp add: sched_inv_def)
  show ?thesis
  proof (cases "sc_status s")
    case SS_Lock
    then show ?thesis using locked_pass_inv [OF inv SS_Lock sel now] by (simp add: sched_loop_step_def)
  next
    case SS_Will_Sleep
    then show ?thesis
      using st [of "SS_Sleeping (top_deadline sel stale s)"] awake top_deadline_least [OF sel, of s stale]
      by (simp add: sched_loop_step_def)
  next
    case (SS_Run t n)
    then show ?thesis
      using inv by (simp add: sched_loop_step_def sched_inv_def sched_accounts_def runs_of_def queued_of_def)
  next
    case SS_Sleep_Woken
    then show ?thesis using st awake by (simp add: sched_loop_step_def)
  qed (use inv st in \<open>simp_all add: sched_loop_step_def\<close>)
qed

lemma sched_step_inv:
  assumes inv: "sched_inv s" and ok: "sched_ok c s" and sel: "sel_ok sel"
  shows "sched_inv (sched_step sel c s)"
proof -
  have woken: "sched_inv (sched_notify (s\<lparr>sc_running := ru\<rparr>))" for ru
    using status_inv(1) [OF inv, of "woken (sc_status s)" "sc_ref_valid s" ru] inv
    by (cases "sc_status s") (simp_all add: sched_notify_def sched_inv_def)
  have fits: "i64 (now + d) = now + d \<and> - (2 ^ 61) \<le> now + d" if "clock_ok now" "span_ok d" for now d
    using that by (simp add: clock_ok_def span_ok_def abs_le_iff i64_small abs_less_iff)
  show ?thesis
  proof (cases c)
    case (SC_Once now d k r)
    then show ?thesis
      using new_task_inv [OF inv] ok fits [of now d] by (simp add: schedule_once_def Let_def task_ok_def)
  next
    case (SC_Periodic now d iv k r)
    then show ?thesis
      using new_task_inv [OF inv] ok fits [of now d] by (simp add: schedule_periodic_def Let_def task_ok_def span_ok_def)
  next
    case SC_Start
    have "being_run SS_Test = being_run (sc_status s)" if "\<not> sc_running s"
      using ok that by (auto simp: SC_Start sched_joined_def split: sched_status.splits)
    then show ?thesis
      using inv status_inv(1) [OF inv, of SS_Test "sc_ref_valid s" True] by (simp add: SC_Start sched_start_def)
  next
    case SC_Spurious
    then show ?thesis using woken [of "sc_running s"] by simp
  next
    case (SC_Step now stale)
    then show ?thesis using sched_loop_step_inv [OF inv sel] ok by simp
  qed (use inv woken in \<open>simp_all add: sched_cancel_def sched_shutdown_def\<close>)
qed

lemma sched_new_inv: "sched_inv sched_new"
  by (simp add: sched_inv_def sched_new_def sched_accounts_def)

text \<open>The scheduler with any choice of the library among equal deadlines.\<close>

definition sched_run :: "('k sched_task list \<Rightarrow> nat) \<Rightarrow> 'k sched_cmd list \<Rightarrow> 'k scheduler" where
  "sched_run sel cs = run (sched_step sel) cs sched_new"

lemma sched_system:
  assumes "sel_ok sel"
  shows "transition_system (sched_step sel) sched_new sched_inv sched_ok"
  by unfold_locales (use sched_new_inv sched_step_inv assms in blast)+

interpretation first_sched: transition_system "sched_step first_top" sched_new sched_inv sched_ok
  by (rule sched_system [OF first_top_ok])

section \<open>Catching up and shutting down\<close>

text \<open>The runs that are due at a clock reading.\<close>

definition due_runs :: "int \<Rightarrow> 'k sched_task \<Rightarrow> nat" where
  "due_runs now t = (if sk_deadline t \<le> now then (if 0 < sk_interval t then nat ((now - sk_deadline t) div sk_interval t) + 1 else 1) else 0)"

definition all_due :: "int \<Rightarrow> 'k scheduler \<Rightarrow> nat" where
  "all_due now s = sum_list (map (due_runs now) (sc_queue s))"

lemma due_runs_next:
  assumes "sk_deadline t \<le> now" and "0 < sk_interval t" and "n = t\<lparr>sk_deadline := sk_deadline t + sk_interval t, sk_cancelled := c\<rparr>"
  shows "Suc (due_runs now n) = due_runs now t"
proof -
  let ?x = "now - sk_deadline t" and ?v = "sk_interval t"
  have "(?x - ?v + ?v) div ?v = (?x - ?v) div ?v + 1" by (rule div_add_self2) (use assms(2) in simp)
  then have "(?x - ?v) div ?v = ?x div ?v - 1" by simp
  moreover have "0 \<le> ?x div ?v" using assms(1,2) by (simp add: pos_imp_zdiv_nonneg_iff)
  moreover have "1 \<le> ?x div ?v" if "?v \<le> ?x" using that assms(2) by (metis div_self less_irrefl zdiv_mono1)
  moreover have "?x div ?v = 0" if "\<not> ?v \<le> ?x" using that assms(1) by simp
  ultimately have "?v \<le> ?x \<Longrightarrow> Suc (nat ((?x - ?v) div ?v)) = nat (?x div ?v)" by linarith
  moreover have "due_runs now n = (if ?v \<le> ?x then nat ((?x - ?v) div ?v) + 1 else 0)"
    using assms(2) by (simp add: due_runs_def assms(3) algebra_simps)
  moreover have "due_runs now t = nat (?x div ?v) + 1" using assms(1,2) by (simp add: due_runs_def)
  ultimately show ?thesis using \<open>\<not> ?v \<le> ?x \<Longrightarrow> ?x div ?v = 0\<close> by simp
qed

text \<open>One round of the loop runs one due task.\<close>

lemma catch_up_round:
  assumes inv: "sched_inv s" and sel: "sel_ok sel" and now: "clock_ok now"
    and s: "sc_status s = SS_Test" "sc_running s" "0 < all_due now s"
  shows "let s' = run (sched_step sel) (replicate 3 (SC_Step now stale)) s
     in sched_inv s' \<and> sc_status s' = SS_Test \<and> sc_running s' \<and> all_due now s = Suc (all_due now s') \<and>
        length (sc_ran s') = Suc (length (sc_ran s))"
proof -
  let ?i = "sel (sc_queue s)" and ?t = "sc_queue s ! sel (sc_queue s)"
  have "\<exists>x \<in> set (sc_queue s). 0 < due_runs now x"
  proof (rule ccontr)
    assume "\<not> (\<exists>x \<in> set (sc_queue s). 0 < due_runs now x)"
    then have "sum_list (map (due_runs now) (sc_queue s)) = 0" by (simp add: sum_list_eq_0_iff)
    then show False using s(3) unfolding all_due_def by linarith
  qed
  then obtain x where x: "x \<in> set (sc_queue s)" "0 < due_runs now x" by blast
  then have ne: "sc_queue s \<noteq> []" by auto
  then have i: "?i < length (sc_queue s)" and least: "sk_deadline ?t \<le> sk_deadline x" using sel_okD [OF sel] x(1) by auto
  then have due: "sk_deadline ?t \<le> now" using x(2) by (simp add: due_runs_def split: if_splits)
  have tok: "task_ok ?t" using inv i by (simp add: sched_inv_def)
  obtain as bs where q: "sc_queue s = as @ ?t # bs" "heap_pop ?i (sc_queue s) = as @ bs"
    using heap_pop_split [OF i] .
  define n where "n = ?t\<lparr>sk_deadline := sk_deadline ?t + sk_interval ?t, sk_cancelled := False\<rparr>"
  have n: "?t\<lparr>sk_deadline := i64 (sk_deadline ?t + sk_interval ?t), sk_cancelled := False\<rparr> = n"
    using tok due now by (simp add: n_def task_ok_def clock_ok_def i64_small abs_le_iff abs_less_iff)
  have cs: "replicate 3 (SC_Step now stale) = [SC_Step now stale, SC_Step now stale, SC_Step now stale]"
    by (simp add: numeral_3_eq_3)
  let ?s3 = "s\<lparr>sc_queue := (if 0 < sk_interval ?t then as @ bs @ [n] else as @ bs), sc_ran := sc_ran s @ [(?t, now)], sc_status := SS_Test\<rparr>"
  have r: "run (sched_step sel) (replicate 3 (SC_Step now stale)) s = ?s3"
    unfolding cs using s(1,2) ne due tok q(2) n
    by (simp add: sched_loop_step_def locked_pass_def Let_def task_ok_def)
  have "sched_inv (run (sched_step sel) (replicate 3 (SC_Step now stale)) s)"
    unfolding cs by (simp del: sched_step.simps) (intro sched_step_inv inv sel; use now in simp)
  moreover have "all_due now s = due_runs now ?t + sum_list (map (due_runs now) (as @ bs))"
    unfolding all_due_def by (subst q(1)) simp
  moreover have "0 < sk_interval ?t \<Longrightarrow> Suc (due_runs now n) = due_runs now ?t" using due_runs_next [OF due _ n_def] .
  moreover have "\<not> 0 < sk_interval ?t \<Longrightarrow> due_runs now ?t = 1" using due by (simp add: due_runs_def)
  ultimately show ?thesis unfolding Let_def r using s(2) by (simp add: all_due_def)
qed

lemma catch_up_rounds:
  assumes "sched_inv s" and sel: "sel_ok sel" and now: "clock_ok now"
    and "sc_status s = SS_Test" "sc_running s" "all_due now s = m"
  shows "let s' = run (sched_step sel) (replicate (3 * m) (SC_Step now stale)) s
     in sched_inv s' \<and> sc_status s' = SS_Test \<and> sc_running s' \<and> all_due now s' = 0 \<and> length (sc_ran s') = length (sc_ran s) + m"
  using assms(1,4-)
proof (induction m arbitrary: s)
  case (Suc m)
  define s1 where "s1 = run (sched_step sel) (replicate 3 (SC_Step now stale)) s"
  have r: "run (sched_step sel) (replicate (3 * Suc m) (SC_Step now stale)) s =
      run (sched_step sel) (replicate (3 * m) (SC_Step now stale)) s1"
    unfolding s1_def mult_Suc_right replicate_add run_append ..
  have "sched_inv s1 \<and> sc_status s1 = SS_Test \<and> sc_running s1 \<and> all_due now s = Suc (all_due now s1) \<and>
        length (sc_ran s1) = Suc (length (sc_ran s))"
    using catch_up_round [OF Suc.prems(1) sel now Suc.prems(2,3), of stale] Suc.prems(4) by (simp add: s1_def Let_def)
  then show ?case using Suc.IH [of s1] Suc.prems(4) unfolding r by (simp add: Let_def)
qed simp

text \<open>How many steps a thread that is to stop still takes, and how many runs it may still begin or finish.\<close>

fun stop_in :: "'k sched_status \<Rightarrow> nat" where
  "stop_in SS_Off = 0"
| "stop_in SS_Exited = 0"
| "stop_in SS_Test = 1"
| "stop_in SS_Lock = 3"
| "stop_in SS_Will_Wait = 4"
| "stop_in SS_Will_Sleep = 4"
| "stop_in SS_Waiting = 4"
| "stop_in (SS_Sleeping d) = 4"
| "stop_in _ = 2"

fun may_run :: "'k sched_status \<Rightarrow> nat" where
  "may_run SS_Lock = 1"
| "may_run (SS_Run t n) = 1"
| "may_run _ = 0"

lemma stopping_step:
  fixes s :: "'k scheduler" and sel :: "'k sched_task list \<Rightarrow> nat" and now stale :: int
  assumes "\<not> sc_running s" and "stop_in (sc_status s) \<le> Suc k" and "k \<le> 2"
  defines "s' \<equiv> sched_loop_step sel now stale s"
  shows "\<not> sc_running s' \<and> stop_in (sc_status s') \<le> k \<and>
    length (sc_ran s') + may_run (sc_status s') \<le> length (sc_ran s) + may_run (sc_status s)"
proof (cases "sc_status s")
  case SS_Lock
  then show ?thesis using assms(1-3) by (simp add: s'_def sched_loop_step_def locked_pass_def Let_def)
qed (use assms(1-3) in \<open>simp_all add: s'_def sched_loop_step_def\<close>)

section \<open>Properties\<close>


text \<open>A periodic task, cancelled at once, and a one-shot task that is due earlier.\<close>

definition two_timers :: "string sched_cmd list" where
  "two_timers = [SC_Start, SC_Periodic 0 10 5 ''tick'' True, SC_Cancel 1, SC_Once 1 3 ''once'' False] @ replicate 9 (SC_Step 16 0)"

lemma two_timers_run:
  "sc_ran (run (sched_step first_top) two_timers sched_new) =
     [(\<lparr>sk_id = 2, sk_deadline = 4, sk_interval = 0, sk_task = ''once'', sk_cancelled = False\<rparr>, 16),
      (\<lparr>sk_id = 1, sk_deadline = 10, sk_interval = 5, sk_task = ''tick'', sk_cancelled = False\<rparr>, 16),
      (\<lparr>sk_id = 1, sk_deadline = 15, sk_interval = 5, sk_task = ''tick'', sk_cancelled = False\<rparr>, 16)]"
  "legal sched_ok (sched_step first_top) two_timers sched_new"
  by code_simp+


text \<open>
  The sleep ends no later than the next deadline. While the thread is blocked in its sleep and the heap has not been reallocated
  since the sleep began, no task in the heap is due before the end of the sleep, also those scheduled meanwhile.
\<close>

theorem sleep_covers_deadlines:
  assumes "sel_ok sel" and "legal sched_ok (sched_step sel) cs sched_new" and "s = run (sched_step sel) cs sched_new"
    and "sc_status s = SS_Sleeping d" and "sc_ref_valid s"
  shows "\<forall>t \<in> set (sc_queue s). d \<le> sk_deadline t"
  using transition_system.inv_run [OF sched_system [OF assms(1)] assms(2)] assms(3-5) by (simp add: sched_inv_def)

text \<open>A task scheduled into the sleep shortens it.\<close>

definition woken_sleep :: "string sched_cmd list" where
  "woken_sleep = [SC_Once 0 90 ''late'' True, SC_Start, SC_Step 1 0, SC_Step 1 0, SC_Step 1 0, SC_Once 2 5 ''soon'' False,
     SC_Step 3 0, SC_Step 3 0]"

lemma woken_sleep_run:
  "sc_status (run (sched_step first_top) woken_sleep sched_new) = SS_Sleeping 7"
  "sc_ref_valid (run (sched_step first_top) woken_sleep sched_new)"
  "legal sched_ok (sched_step first_top) woken_sleep sched_new"
  "map sk_deadline (sc_queue (run (sched_step first_top) woken_sleep sched_new)) = [90, 7]"
  by code_simp+

theorem sleep_covers_deadlines_witness:
  "\<forall>t \<in> set (sc_queue (run (sched_step first_top) woken_sleep sched_new)). 7 \<le> sk_deadline t"
  by (rule sleep_covers_deadlines [OF first_top_ok woken_sleep_run(3) refl woken_sleep_run(1,2)])

text \<open>
  C36: The scheduler catches up. From the test of its loop, with the clock at \<open>now\<close>, the thread runs exactly the
  \<open>all_due now s\<close> runs that are due, in three steps each, and then waits or goes to sleep with nothing due in the heap.
\<close>

theorem scheduler_catches_up:
  assumes "sel_ok sel" and "legal sched_ok (sched_step sel) cs sched_new" and "s = run (sched_step sel) cs sched_new"
    and "sc_status s = SS_Test" and "sc_running s" and "clock_ok now"
    and "s' = run (sched_step sel) (replicate (3 * all_due now s + 2) (SC_Step now stale)) s"
  shows "(sc_status s' = SS_Will_Wait \<or> sc_status s' = SS_Will_Sleep) \<and> (\<forall>t \<in> set (sc_queue s'). now < sk_deadline t) \<and>
    length (sc_ran s') = length (sc_ran s) + all_due now s"
proof -
  have inv: "sched_inv s" using transition_system.inv_run [OF sched_system [OF assms(1)] assms(2)] assms(3) by simp
  define s1 where "s1 = run (sched_step sel) (replicate (3 * all_due now s) (SC_Step now stale)) s"
  have s1: "sc_status s1 = SS_Test" "sc_running s1" "all_due now s1 = 0" "length (sc_ran s1) = length (sc_ran s) + all_due now s"
    using catch_up_rounds [OF inv assms(1,6,4,5) refl, of stale] by (simp_all add: s1_def Let_def)
  have none: "\<forall>t \<in> set (sc_queue s1). due_runs now t = 0" using s1(3) unfolding all_due_def by (simp add: sum_list_eq_0_iff)
  have later: "now < sk_deadline t" if "t \<in> set (sc_queue s1)" for t
    using none [rule_format, OF that] by (simp add: due_runs_def split: if_splits)
  have s': "s' = run (sched_step sel) [SC_Step now stale, SC_Step now stale] s1"
    unfolding assms(7) s1_def replicate_add run_append by (simp add: numeral_2_eq_2)
  have "now < sk_deadline (sc_queue s1 ! sel (sc_queue s1))" if "sc_queue s1 \<noteq> []"
    using sel_okD [OF assms(1) that] by (intro later) simp
  then have "s' = s1\<lparr>sc_status := SS_Will_Wait\<rparr> \<or> s' = s1\<lparr>sc_ref_valid := True, sc_status := SS_Will_Sleep\<rparr>"
    unfolding s' using s1(1,2) by (cases "sc_queue s1 = []") (simp_all add: sched_loop_step_def locked_pass_def Let_def)
  then show ?thesis using s1(4) later by auto
qed

theorem scheduler_catches_up_witness:
  "let s = run (sched_step first_top) (take 4 two_timers) sched_new
   in all_due 16 s = 3 \<and> length (sc_ran (run (sched_step first_top) (replicate (3 * all_due 16 s + 2) (SC_Step 16 0)) s)) = 3"
proof -
  let ?s = "run (sched_step first_top) (take 4 two_timers) sched_new"
  have leg: "legal sched_ok (sched_step first_top) (take 4 two_timers) sched_new"
    by code_simp
  have s: "sc_status ?s = SS_Test" "sc_running ?s" "all_due 16 ?s = 3" "sc_ran ?s = []"
    by code_simp+
  have "length (sc_ran (run (sched_step first_top) (replicate (3 * all_due 16 ?s + 2) (SC_Step 16 0)) ?s)) = length (sc_ran ?s) + all_due 16 ?s"
    using scheduler_catches_up [OF first_top_ok leg refl s(1,2) _ refl, of 16 0] by (simp only: clock_ok_def) simp
  then show ?thesis unfolding Let_def using s(3,4) by (simp only: list.size add_0_left)
qed

text \<open>
  Shutdown can hang. \<open>shutdown\<close> clears the flag and notifies without taking the lock. When it does so between
  the test of the wait and the blocking, the notification is lost: whatever steps the thread takes, it stays blocked, so
  the join never returns, unless another task is scheduled or a spurious wake-up occurs.
\<close>

theorem shutdown_can_hang:
  assumes "sc_status s = SS_Will_Wait" and "s' = run (sched_step sel) (SC_Shutdown # map (\<lambda>(n, g). SC_Step n g) steps) s"
  shows "\<not> sched_joined s' \<and> \<not> sc_running s' \<and> sc_ran s' = sc_ran s"
proof -
  have "sc_status (run (sched_step sel) (map (\<lambda>(n, g). SC_Step n g) steps) u) \<in> {SS_Will_Wait, SS_Waiting} \<and>
      sc_running (run (sched_step sel) (map (\<lambda>(n, g). SC_Step n g) steps) u) = sc_running u \<and>
      sc_ran (run (sched_step sel) (map (\<lambda>(n, g). SC_Step n g) steps) u) = sc_ran u"
    if "sc_status u \<in> {SS_Will_Wait, SS_Waiting}" for u
    using that
  proof (induction steps arbitrary: u)
    case (Cons p steps)
    obtain n g where p: "p = (n, g)" by fastforce
    have "sc_status (sched_loop_step sel n g u) \<in> {SS_Will_Wait, SS_Waiting}" "sc_running (sched_loop_step sel n g u) = sc_running u"
      "sc_ran (sched_loop_step sel n g u) = sc_ran u"
      using Cons.prems by (auto simp: sched_loop_step_def)
    with Cons.IH [of "sched_loop_step sel n g u"] show ?case by (simp add: p)
  qed simp
  note keep = this [of "sched_shutdown s"]
  have "sc_status (sched_shutdown s) \<in> {SS_Will_Wait, SS_Waiting}" "\<not> sc_running (sched_shutdown s)" "sc_ran (sched_shutdown s) = sc_ran s"
    using assms(1) by (simp_all add: sched_shutdown_def sched_notify_def)
  then have "sc_status s' \<in> {SS_Will_Wait, SS_Waiting} \<and> \<not> sc_running s' \<and> sc_ran s' = sc_ran s"
    using keep unfolding assms(2) run.simps sched_step.simps by metis
  then show ?thesis by (auto simp: sched_joined_def)
qed

theorem shutdown_can_hang_witness:
  "\<not> sched_joined (run (sched_step first_top)
     (SC_Shutdown # map (\<lambda>(n, g). SC_Step n g) (replicate 20 (5, 0)))
     (run (sched_step first_top) [SC_Start, SC_Step 1 0, SC_Step 1 0] (sched_new :: string scheduler)))"
proof -
  have "sc_status (run (sched_step first_top) [SC_Start, SC_Step 1 0, SC_Step 1 0] (sched_new :: string scheduler)) = SS_Will_Wait"
    by (simp add: sched_new_def sched_start_def sched_loop_step_def locked_pass_def)
  from shutdown_can_hang [OF this refl, of first_top "replicate 20 (5, 0)"] show ?thesis by blast
qed

text \<open>
  Otherwise shutdown returns. If the thread does not hold the lock between a test and its blocking when \<open>shutdown\<close>
  is called, it has ended after three more steps, whatever the clock says, having run at most one more task.
\<close>

theorem shutdown_returns:
  assumes "lock_free s"
    and "s' = run (sched_step sel) [SC_Shutdown, SC_Step n1 g1, SC_Step n2 g2, SC_Step n3 g3] s"
  shows "sched_joined s' \<and> length (sc_ran s') \<le> Suc (length (sc_ran s))"
proof -
  define s1 where "s1 = sched_shutdown s"
  have s1: "\<not> sc_running s1 \<and> stop_in (sc_status s1) \<le> 3 \<and> sc_ran s1 = sc_ran s"
    using assms(1) by (cases "sc_status s") (simp_all add: s1_def lock_free_def sched_shutdown_def sched_notify_def)
  define s2 where "s2 = sched_loop_step sel n1 g1 s1"
  define s3 where "s3 = sched_loop_step sel n2 g2 s2"
  note st = stopping_step [of s1 2 sel n1 g1, folded s2_def] stopping_step [of s2 1 sel n2 g2, folded s3_def]
    stopping_step [of s3 0 sel n3 g3]
  have s': "s' = sched_loop_step sel n3 g3 s3" unfolding assms(2) by (simp add: s1_def s2_def s3_def)
  have "may_run (sc_status s1) \<le> 1" by (cases "sc_status s1") simp_all
  then have "stop_in (sc_status s') = 0" "length (sc_ran s') + may_run (sc_status s') \<le> Suc (length (sc_ran s))"
    using s1 st unfolding s' by auto
  then show ?thesis by (cases "sc_status s'") (simp_all add: sched_joined_def)
qed

theorem shutdown_returns_witness:
  "sched_joined (run (sched_step first_top) [SC_Shutdown, SC_Step 4 0, SC_Step 4 0, SC_Step 4 0]
     (run (sched_step first_top) woken_sleep sched_new))"
proof -
  have "lock_free (run (sched_step first_top) woken_sleep sched_new)" by (simp add: lock_free_def woken_sleep_run)
  from shutdown_returns [OF this refl] show ?thesis by blast
qed

end
