(* ===== verification/Lexer.thy ===== *)
theory Lexer
  imports Text_Conversion
begin

text \<open>
  The lexer of the Kaleidoscope compiler, \<open>src/kaleidoscope/src/Lexer.cpp\<close> with \<open>include/Lexer.h\<close>.

  Standard input is a string; \<open>getchar\<close> at its end gives EOF, which is \<open>None\<close>, again and again. The static and
  global variables are a record. Character classes are those of the C locale, and \<open>strtod\<close> is that
  of \<open>Text_Conversion\<close> on digits and points (within the range of a double).
\<close>

section \<open>State and tokens\<close>

definition tok_eof :: int where "tok_eof = - 1"
definition tok_def :: int where "tok_def = - 2"
definition tok_extern :: int where "tok_extern = - 3"
definition tok_identifier :: int where "tok_identifier = - 4"
definition tok_number :: int where "tok_number = - 5"

lemmas tok_defs = tok_eof_def tok_def_def tok_extern_def tok_identifier_def tok_number_def

record lexer =
  lx_last :: "char option"
  lx_input :: string
  lx_ident :: string
  lx_num :: double

definition lexer_start :: "string \<Rightarrow> lexer" where
  "lexer_start txt = \<lparr>lx_last = Some CHR '' '', lx_input = txt, lx_ident = [], lx_num = 0\<rparr>"

definition is_alpha :: "char \<Rightarrow> bool" where
  "is_alpha c \<longleftrightarrow> 65 \<le> (of_char c :: nat) \<and> (of_char c :: nat) \<le> 90 \<or> 97 \<le> (of_char c :: nat) \<and> (of_char c :: nat) \<le> 122"

definition is_alnum :: "char \<Rightarrow> bool" where
  "is_alnum c \<longleftrightarrow> is_alpha c \<or> is_digit c"

definition number_char :: "char \<Rightarrow> bool" where
  "number_char c \<longleftrightarrow> is_digit c \<or> c = CHR ''.''"

definition line_end :: "char \<Rightarrow> bool" where
  "line_end c \<longleftrightarrow> (of_char c :: nat) = 10 \<or> (of_char c :: nat) = 13"

definition strtod_num :: "string \<Rightarrow> double" where
  "strtod_num s = (let whole = takeWhile is_digit s; frac = fst (read_fraction (dropWhile is_digit s))
                   in rnd (rat_of_int (digits_val (whole @ frac)) / 10 ^ length frac))"

section \<open>The loops of \<open>gettok\<close>\<close>

fun get_char :: "string \<Rightarrow> char option \<times> string" where
  "get_char [] = (None, [])"
| "get_char (c # cs) = (Some c, cs)"

fun skip_space :: "char option \<Rightarrow> string \<Rightarrow> char option \<times> string" where
  "skip_space None inp = (None, inp)"
| "skip_space (Some c) [] = (if is_space c then (None, []) else (Some c, []))"
| "skip_space (Some c) (d # inp) = (if is_space c then skip_space (Some d) inp else (Some c, d # inp))"

fun read_ident :: "string \<Rightarrow> string \<Rightarrow> string \<times> char option \<times> string" where
  "read_ident w [] = (w, None, [])"
| "read_ident w (c # inp) = (if is_alnum c then read_ident (w @ [c]) inp else (w, Some c, inp))"

fun read_number :: "string \<Rightarrow> char \<Rightarrow> string \<Rightarrow> string \<times> char option \<times> string" where
  "read_number w l [] = (w @ [l], None, [])"
| "read_number w l (c # inp) = (if number_char c then read_number (w @ [l]) c inp else (w @ [l], Some c, inp))"

fun skip_comment :: "string \<Rightarrow> char option \<times> string" where
  "skip_comment [] = (None, [])"
| "skip_comment (c # inp) = (if line_end c then (Some c, inp) else skip_comment inp)"

lemma skip_space_shorter: "skip_space l inp = (l', inp') \<Longrightarrow> length inp' \<le> length inp"
  by (induction l inp rule: skip_space.induct) (auto split: if_splits)

lemma skip_comment_shorter: "skip_comment inp = (Some c, inp') \<Longrightarrow> length inp' < length inp"
  by (induction inp rule: skip_comment.induct) (auto split: if_splits)

function gettok :: "lexer \<Rightarrow> int \<times> lexer" where
  "gettok s =
     (case skip_space (lx_last s) (lx_input s) of
        (None, inp) \<Rightarrow> (tok_eof, s\<lparr>lx_last := None, lx_input := inp\<rparr>)
      | (Some c, inp) \<Rightarrow>
          if is_alpha c then
            (case read_ident [c] inp of (w, l, inp') \<Rightarrow>
               (if w = ''def'' then tok_def else if w = ''extern'' then tok_extern else tok_identifier,
                s\<lparr>lx_last := l, lx_input := inp', lx_ident := w\<rparr>))
          else if is_digit c \<or> c = CHR ''.'' then
            (case read_number [] c inp of (w, l, inp') \<Rightarrow>
               (tok_number, s\<lparr>lx_last := l, lx_input := inp', lx_num := strtod_num w\<rparr>))
          else if c = CHR ''#'' then
            (case skip_comment inp of
               (Some d, inp') \<Rightarrow> gettok (s\<lparr>lx_last := Some d, lx_input := inp'\<rparr>)
             | (None, inp') \<Rightarrow> (tok_eof, s\<lparr>lx_last := None, lx_input := inp'\<rparr>))
          else (of_char c, s\<lparr>lx_last := fst (get_char inp), lx_input := snd (get_char inp)\<rparr>))"
  by auto
termination
  by (relation "measure (\<lambda>s. length (lx_input s))")
    (auto dest!: skip_comment_shorter [OF sym] skip_space_shorter [OF sym])

section \<open>What a call reads\<close>

text \<open>The characters not yet consumed.\<close>

definition pending :: "lexer \<Rightarrow> string" where
  "pending s = (case lx_last s of None \<Rightarrow> [] | Some c \<Rightarrow> c # lx_input s)"

definition lx_ok :: "lexer \<Rightarrow> bool" where
  "lx_ok s \<longleftrightarrow> (lx_last s = None \<longrightarrow> lx_input s = [])"

definition put_pending :: "string \<Rightarrow> lexer \<Rightarrow> lexer" where
  "put_pending cs s = s\<lparr>lx_last := fst (get_char cs), lx_input := snd (get_char cs)\<rparr>"

lemma pending_put [simp]: "pending (put_pending cs s) = cs" and lx_ok_put [simp]: "lx_ok (put_pending cs s)"
  by (cases cs; simp add: pending_def put_pending_def lx_ok_def)+

lemma put_pending_simps [simp]:
  "lx_ident (put_pending cs s) = lx_ident s" "lx_num (put_pending cs s) = lx_num s"
  "put_pending cs (put_pending ds s) = put_pending cs s"
  "put_pending cs (put_pending ds s\<lparr>lx_ident := w\<rparr>) = put_pending cs (s\<lparr>lx_ident := w\<rparr>)"
  "put_pending cs (put_pending ds s\<lparr>lx_num := n\<rparr>) = put_pending cs (s\<lparr>lx_num := n\<rparr>)"
  by (simp_all add: put_pending_def)

lemma skip_space_eq:
  "(l = None \<longrightarrow> inp = []) \<Longrightarrow>
     skip_space l inp = get_char (dropWhile is_space (case l of None \<Rightarrow> [] | Some c \<Rightarrow> c # inp))"
  by (induction l inp rule: skip_space.induct) auto

lemma read_ident_eq: "read_ident w inp = (w @ takeWhile is_alnum inp, get_char (dropWhile is_alnum inp))"
  by (induction w inp rule: read_ident.induct) auto

lemma read_number_eq: "read_number w l inp = (w @ l # takeWhile number_char inp, get_char (dropWhile number_char inp))"
  by (induction w l inp rule: read_number.induct) auto

lemma skip_comment_eq: "skip_comment inp = get_char (dropWhile (\<lambda>c. \<not> line_end c) inp)"
  by (induction inp) auto

declare gettok.simps [simp del]

lemma put_pending_folds:
  "(case get_char cs of (l, inp) \<Rightarrow> (t, s\<lparr>lx_last := l, lx_input := inp, lx_ident := w\<rparr>)) = (t, put_pending cs (s\<lparr>lx_ident := w\<rparr>))"
  "(case get_char cs of (l, inp) \<Rightarrow> (t, s\<lparr>lx_last := l, lx_input := inp, lx_num := n\<rparr>)) = (t, put_pending cs (s\<lparr>lx_num := n\<rparr>))"
  "s\<lparr>lx_last := fst (get_char cs), lx_input := snd (get_char cs)\<rparr> = put_pending cs s"
  "s\<lparr>lx_last := None, lx_input := []\<rparr> = put_pending [] s" "s\<lparr>lx_last := Some c, lx_input := cs\<rparr> = put_pending (c # cs) s"
  "(case get_char cs of (None, inp) \<Rightarrow> (t, s\<lparr>lx_last := None, lx_input := inp\<rparr>)
      | (Some d, inp) \<Rightarrow> f (s\<lparr>lx_last := Some d, lx_input := inp\<rparr>)) =
     (case cs of [] \<Rightarrow> (t, put_pending [] s) | d # ds \<Rightarrow> f (put_pending (d # ds) s))"
  by (cases cs; cases s; simp add: put_pending_def)+

lemma gettok_cases:
  assumes "lx_ok s"
  shows "gettok s = (case dropWhile is_space (pending s) of
      [] \<Rightarrow> (tok_eof, put_pending [] s)
    | c # cs \<Rightarrow>
        if is_alpha c then
          let w = c # takeWhile is_alnum cs
          in (if w = ''def'' then tok_def else if w = ''extern'' then tok_extern else tok_identifier,
              put_pending (dropWhile is_alnum cs) (s\<lparr>lx_ident := w\<rparr>))
        else if number_char c then
          (tok_number, put_pending (dropWhile number_char cs) (s\<lparr>lx_num := strtod_num (c # takeWhile number_char cs)\<rparr>))
        else if c = CHR ''#'' then
          (case dropWhile (\<lambda>c. \<not> line_end c) cs of
             [] \<Rightarrow> (tok_eof, put_pending [] s)
           | d # ds \<Rightarrow> gettok (put_pending (d # ds) s))
        else (of_char c, put_pending cs s))"
proof -
  have "skip_space (lx_last s) (lx_input s) = get_char (dropWhile is_space (pending s))"
    using assms by (simp add: lx_ok_def pending_def skip_space_eq)
  note g = gettok.simps [of s, unfolded this]
  show ?thesis
  proof (cases "dropWhile is_space (pending s)")
    case (Cons c cs)
    show ?thesis unfolding g
      by (simp add: Cons read_ident_eq read_number_eq skip_comment_eq number_char_def Let_def put_pending_folds)
  next
    case Nil
    show ?thesis unfolding g Nil by (simp add: put_pending_folds)
  qed
qed

section \<open>Lexemes\<close>

datatype lexeme = LX_Def | LX_Extern | LX_Ident string | LX_Number string | LX_Char char

fun lexeme_text :: "lexeme \<Rightarrow> string" where
  "lexeme_text LX_Def = ''def''"
| "lexeme_text LX_Extern = ''extern''"
| "lexeme_text (LX_Ident w) = w"
| "lexeme_text (LX_Number w) = w"
| "lexeme_text (LX_Char c) = [c]"

fun lexeme_ok :: "lexeme \<Rightarrow> bool" where
  "lexeme_ok (LX_Ident w) \<longleftrightarrow> w \<noteq> [] \<and> is_alpha (hd w) \<and> list_all is_alnum w \<and> w \<noteq> ''def'' \<and> w \<noteq> ''extern''"
| "lexeme_ok (LX_Number w) \<longleftrightarrow> w \<noteq> [] \<and> list_all number_char w"
| "lexeme_ok (LX_Char c) \<longleftrightarrow> \<not> is_space c \<and> \<not> is_alpha c \<and> \<not> number_char c \<and> c \<noteq> CHR ''#''"
| "lexeme_ok _ \<longleftrightarrow> True"

fun token_of :: "lexeme \<Rightarrow> int" where
  "token_of LX_Def = tok_def"
| "token_of LX_Extern = tok_extern"
| "token_of (LX_Ident w) = tok_identifier"
| "token_of (LX_Number w) = tok_number"
| "token_of (LX_Char c) = of_char c"

text \<open>The characters that would have been read as part of the lexeme.\<close>

fun glued :: "lexeme \<Rightarrow> char \<Rightarrow> bool" where
  "glued (LX_Number w) c \<longleftrightarrow> number_char c"
| "glued (LX_Char d) c \<longleftrightarrow> False"
| "glued _ c \<longleftrightarrow> is_alnum c"

definition ends_before :: "lexeme \<Rightarrow> string \<Rightarrow> bool" where
  "ends_before lx rest \<longleftrightarrow> (case rest of [] \<Rightarrow> True | c # cs \<Rightarrow> \<not> glued lx c)"

text \<open>The globals after the token.\<close>

fun globals_after :: "lexeme \<Rightarrow> lexer \<Rightarrow> lexer" where
  "globals_after (LX_Number w) s = s\<lparr>lx_num := strtod_num w\<rparr>"
| "globals_after (LX_Char c) s = s"
| "globals_after lx s = s\<lparr>lx_ident := lexeme_text lx\<rparr>"

text \<open>White space and comments.\<close>

inductive blank :: "string \<Rightarrow> bool" where
  blank_nil: "blank []"
| blank_space: "is_space c \<Longrightarrow> blank cs \<Longrightarrow> blank (c # cs)"
| blank_comment: "list_all (\<lambda>c. \<not> line_end c) xs \<Longrightarrow> line_end e \<Longrightarrow> blank cs \<Longrightarrow> blank (CHR ''#'' # xs @ e # cs)"

lemma line_end_space: "line_end c \<Longrightarrow> is_space c"
  by (auto simp: line_end_def is_space_def)

lemma class_disjoint:
  "is_alnum c \<Longrightarrow> \<not> is_space c" "number_char c \<Longrightarrow> \<not> is_space c" "number_char c \<Longrightarrow> \<not> is_alpha c"
  "\<not> is_space CHR ''#''" "\<not> is_alpha CHR ''#''" "\<not> number_char CHR ''#''" "is_alpha c \<Longrightarrow> is_alnum c"
  by (auto simp: is_alnum_def is_alpha_def is_digit_def is_space_def number_char_def)

lemma takeWhile_word: "list_all P w \<Longrightarrow> (case rest of [] \<Rightarrow> True | c # cs \<Rightarrow> \<not> P c) \<Longrightarrow> takeWhile P (w @ rest) = w \<and> dropWhile P (w @ rest) = rest"
  by (induction w) (auto split: list.splits)

lemma gettok_lexeme:
  assumes "lx_ok s" and "pending s = lexeme_text lx @ rest" and "lexeme_ok lx" and "ends_before lx rest"
  shows "gettok s = (token_of lx, put_pending rest (globals_after lx s))"
proof (cases lx)
  case (LX_Ident w)
  then obtain c cs where w: "w = c # cs" using assms(3) by (cases w) auto
  have tw: "takeWhile is_alnum (cs @ rest) = cs \<and> dropWhile is_alnum (cs @ rest) = rest"
    by (rule takeWhile_word) (use assms(3,4) LX_Ident w in \<open>auto simp: ends_before_def split: list.splits\<close>)
  have "is_alpha c" "\<not> is_space c" using assms(3) LX_Ident w class_disjoint by auto
  then show ?thesis using assms(2,3) LX_Ident w tw by (auto simp: gettok_cases [OF assms(1)] Let_def)
next
  case (LX_Number w)
  then obtain c cs where w: "w = c # cs" using assms(3) by (cases w) auto
  have tw: "takeWhile number_char (cs @ rest) = cs \<and> dropWhile number_char (cs @ rest) = rest"
    by (rule takeWhile_word) (use assms(3,4) LX_Number w in \<open>auto simp: ends_before_def split: list.splits\<close>)
  have "number_char c" "\<not> is_alpha c" "\<not> is_space c" using assms(3) LX_Number w class_disjoint by auto
  then show ?thesis using assms(2) LX_Number w tw by (simp add: gettok_cases [OF assms(1)] Let_def)
next
  case (LX_Char c)
  then show ?thesis using assms(2,3) by (simp add: gettok_cases [OF assms(1)])
next
  case LX_Def
  have "takeWhile is_alnum (''ef'' @ rest) = ''ef'' \<and> dropWhile is_alnum (''ef'' @ rest) = rest"
    by (rule takeWhile_word)
      (use assms(4) LX_Def in \<open>auto simp: ends_before_def is_alnum_def is_alpha_def split: list.splits\<close>)
  then show ?thesis using assms(2) LX_Def
    by (simp add: gettok_cases [OF assms(1)] is_alpha_def is_space_def Let_def)
next
  case LX_Extern
  have "takeWhile is_alnum (''xtern'' @ rest) = ''xtern'' \<and> dropWhile is_alnum (''xtern'' @ rest) = rest"
    by (rule takeWhile_word)
      (use assms(4) LX_Extern in \<open>auto simp: ends_before_def is_alnum_def is_alpha_def split: list.splits\<close>)
  then show ?thesis using assms(2) LX_Extern
    by (simp add: gettok_cases [OF assms(1)] is_alpha_def is_space_def Let_def)
qed

text \<open>What comes before the lexeme does not matter.\<close>

lemma gettok_space:
  assumes "lx_ok s" and "pending s = c # cs" and "is_space c"
  shows "gettok s = gettok (put_pending cs s)"
proof -
  have "(case ys of [] \<Rightarrow> (tok_eof, put_pending [] (put_pending cs s)) | d # ds \<Rightarrow> gettok (put_pending (d # ds) (put_pending cs s))) =
    (case ys of [] \<Rightarrow> (tok_eof, put_pending [] s) | d # ds \<Rightarrow> gettok (put_pending (d # ds) s))" for ys
    by (cases ys) simp_all
  note same = this
  define ds where "ds = dropWhile is_space cs"
  have d: "dropWhile is_space (pending s) = ds" "dropWhile is_space (pending (put_pending cs s)) = ds"
    using assms(2,3) by (simp_all add: ds_def)
  note g = gettok_cases [OF assms(1), unfolded d(1)] gettok_cases [OF lx_ok_put, of cs s, unfolded d(2)]
  show ?thesis by (cases ds) (simp_all add: g Let_def same)
qed

lemma gettok_comment:
  assumes "lx_ok s" and "pending s = CHR ''#'' # xs @ e # cs" and "list_all (\<lambda>c. \<not> line_end c) xs" and "line_end e"
  shows "gettok s = gettok (put_pending (e # cs) s)"
proof -
  have "dropWhile (\<lambda>c. \<not> line_end c) (xs @ e # cs) = e # cs" using assms(3,4) by (induction xs) auto
  then show ?thesis using assms(1,2) by (simp add: gettok_cases [OF assms(1)] class_disjoint)
qed

lemma gettok_blank: "blank gap \<Longrightarrow> lx_ok s \<Longrightarrow> pending s = gap @ cs \<Longrightarrow> gettok s = gettok (put_pending cs s)"
proof (induction gap arbitrary: s rule: blank.induct)
  case blank_nil
  have "s = put_pending cs s" using blank_nil by (cases s; cases "lx_last s") (auto simp: put_pending_def pending_def lx_ok_def)
  then show ?case by simp
next
  case (blank_space c gap)
  then show ?case using gettok_space [of s c "gap @ cs"] blank_space.IH [of "put_pending (gap @ cs) s"] by simp
next
  case (blank_comment xs e gap)
  have "gettok s = gettok (put_pending (e # gap @ cs) s)"
    by (rule gettok_comment) (use blank_comment in simp_all)
  also have "\<dots> = gettok (put_pending (gap @ cs) s)"
    using gettok_space [of "put_pending (e # gap @ cs) s" e "gap @ cs"] line_end_space blank_comment(2) by simp
  finally show ?case using blank_comment.IH [of "put_pending (gap @ cs) s"] by simp
qed

lemma blank_spaces: "list_all is_space xs \<Longrightarrow> blank xs"
  by (induction xs) (auto intro: blank.intros)

lemma blank_append: "blank a \<Longrightarrow> blank b \<Longrightarrow> blank (a @ b)"
  by (induction a rule: blank.induct) (auto intro: blank.intros)

lemma globals_after_put: "put_pending cs (globals_after lx (put_pending ds s)) = put_pending cs (globals_after lx s)"
  by (cases lx) simp_all

text \<open>The outcomes of a call.\<close>

definition reads_lexeme :: "lexer \<Rightarrow> int \<Rightarrow> lexer \<Rightarrow> string \<Rightarrow> lexeme \<Rightarrow> bool" where
  "reads_lexeme s t s' gap lx \<longleftrightarrow> lexeme_ok lx \<and> ends_before lx (pending s') \<and>
     pending s = gap @ lexeme_text lx @ pending s' \<and> t = token_of lx \<and> s' = put_pending (pending s') (globals_after lx s)"

definition reads_end :: "lexer \<Rightarrow> int \<Rightarrow> lexer \<Rightarrow> string \<Rightarrow> bool" where
  "reads_end s t s' gap \<longleftrightarrow> t = tok_eof \<and> s' = put_pending [] s \<and>
     (\<exists>xs. list_all (\<lambda>c. \<not> line_end c) xs \<and> (pending s = gap \<or> pending s = gap @ CHR ''#'' # xs))"

lemma ends_before_dropWhile: "(\<And>c. glued lx c \<Longrightarrow> P c) \<Longrightarrow> ends_before lx (dropWhile P cs)"
  by (auto simp: ends_before_def split: list.split) (metis hd_dropWhile list.distinct(1) list.sel(1))

lemma gettok_reads:
  assumes "lx_ok s" and "gettok s = (t, s')"
  shows "\<exists>gap. blank gap \<and> (reads_end s t s' gap \<or> (\<exists>lx. reads_lexeme s t s' gap lx))"
  using assms
proof (induction "length (pending s)" arbitrary: s rule: less_induct)
  case less
  define gap where "gap = takeWhile is_space (pending s)"
  have gap: "blank gap" unfolding gap_def by (rule blank_spaces) (auto simp: list_all_iff dest: set_takeWhileD)
  have split: "pending s = gap @ dropWhile is_space (pending s)" by (simp add: gap_def)
  note g = gettok_cases [OF less.prems(1), unfolded less.prems(2)]
  show ?case
  proof (cases "dropWhile is_space (pending s)")
    case Nil
    have "t = tok_eof" "s' = put_pending [] s" using g unfolding Nil by simp_all
    moreover have "pending s = gap" using split unfolding Nil by simp
    ultimately have "reads_end s t s' gap" unfolding reads_end_def by (intro conjI exI [of _ "[]"]) simp_all
    then show ?thesis using gap by blast
  next
    case (Cons c cs)
    have "\<not> is_space c" using Cons by (metis hd_dropWhile list.distinct(1) list.sel(1))
    consider (word) "is_alpha c" | (num) "\<not> is_alpha c" "number_char c" | (comment) "c = CHR ''#''"
      | (other) "\<not> is_alpha c" "\<not> number_char c" "c \<noteq> CHR ''#''" by blast
    then show ?thesis
    proof cases
      case word
      define w where "w = c # takeWhile is_alnum cs"
      define lx where "lx = (if w = ''def'' then LX_Def else if w = ''extern'' then LX_Extern else LX_Ident w)"
      have w: "lexeme_text lx = w" "lexeme_ok lx" "\<And>d. glued lx d \<longleftrightarrow> is_alnum d"
        using word class_disjoint(7) by (auto simp: lx_def w_def list_all_iff dest: set_takeWhileD)
      have r: "t = token_of lx" "s' = put_pending (dropWhile is_alnum cs) (globals_after lx s)"
        using g word unfolding Cons by (auto simp: Let_def lx_def w_def)
      have "ends_before lx (dropWhile is_alnum cs)" by (rule ends_before_dropWhile) (simp add: w(3))
      then have "reads_lexeme s t s' gap lx"
        unfolding reads_lexeme_def r(2) using w(1,2) r(1) split Cons by (simp add: w_def)
      then show ?thesis using gap by blast
    next
      case num
      define w where "w = c # takeWhile number_char cs"
      have r: "t = token_of (LX_Number w)" "s' = put_pending (dropWhile number_char cs) (globals_after (LX_Number w) s)"
        using g num unfolding Cons by (auto simp: Let_def w_def)
      have "lexeme_ok (LX_Number w)" using num by (auto simp: w_def list_all_iff dest: set_takeWhileD)
      moreover have "ends_before (LX_Number w) (dropWhile number_char cs)" by (rule ends_before_dropWhile) simp
      ultimately have "reads_lexeme s t s' gap (LX_Number w)"
        unfolding reads_lexeme_def r(2) using r(1) split Cons by (simp add: w_def)
      then show ?thesis using gap by blast
    next
      case other
      have r: "t = of_char c" "s' = put_pending cs s" using g other unfolding Cons by simp_all
      have "reads_lexeme s t s' gap (LX_Char c)"
        unfolding reads_lexeme_def r using other \<open>\<not> is_space c\<close> split Cons by (simp add: ends_before_def split: list.split)
      then show ?thesis using gap by blast
    next
      case comment
      define xs where "xs = takeWhile (\<lambda>c. \<not> line_end c) cs"
      have xs: "list_all (\<lambda>c. \<not> line_end c) xs" by (auto simp: xs_def list_all_iff dest: set_takeWhileD)
      show ?thesis
      proof (cases "dropWhile (\<lambda>c. \<not> line_end c) cs")
        case Nil
        then have "xs = cs" by (metis append_Nil2 takeWhile_dropWhile_id xs_def)
        then have "reads_end s t s' gap"
          using g Nil comment xs split unfolding Cons by (auto simp: reads_end_def class_disjoint)
        then show ?thesis using gap by blast
      next
        case nl: (Cons d ds)
        have d: "line_end d" using nl by (metis (lifting) hd_dropWhile list.distinct(1) list.sel(1))
        have cs: "cs = xs @ d # ds" using takeWhile_dropWhile_id [of "\<lambda>c. \<not> line_end c" cs] nl by (simp add: xs_def)
        have "gettok (put_pending (d # ds) s) = (t, s')" using g comment nl unfolding Cons by (simp add: class_disjoint)
        then have next_call: "gettok (put_pending ds s) = (t, s')"
          using gettok_space [of "put_pending (d # ds) s" d ds] line_end_space [OF d] by simp
        have p: "pending s = gap @ CHR ''#'' # xs @ d # ds" using split [unfolded Cons cs comment] .
        then have "length (pending (put_pending ds s)) < length (pending s)" by simp
        from less.hyps [OF this _ next_call] obtain gap' where
          gap': "blank gap'" "reads_end (put_pending ds s) t s' gap' \<or> (\<exists>lx. reads_lexeme (put_pending ds s) t s' gap' lx)"
          by auto
        let ?gap = "gap @ CHR ''#'' # xs @ d # gap'"
        have b: "blank ?gap" using gap xs d gap'(1) by (intro blank_append blank_comment)
        show ?thesis using gap'(2)
        proof
          assume "reads_end (put_pending ds s) t s' gap'"
          then have "reads_end s t s' ?gap" using p by (auto simp: reads_end_def)
          then show ?thesis using b by blast
        next
          assume "\<exists>lx. reads_lexeme (put_pending ds s) t s' gap' lx"
          then obtain lx where "reads_lexeme s t s' ?gap lx" using p by (auto simp: reads_lexeme_def globals_after_put)
          then show ?thesis using b by blast
        qed
      qed
    qed
  qed
qed

section \<open>Properties\<close>

text \<open>What the parser sees of a token: its code, and the name or the number that goes with it.\<close>

definition observed :: "int \<Rightarrow> lexer \<Rightarrow> int \<times> string \<times> double" where
  "observed t s = (t, if t = tok_identifier then lx_ident s else [], if t = tok_number then lx_num s else 0)"

fun gettoks :: "nat \<Rightarrow> lexer \<Rightarrow> (int \<times> string \<times> double) list" where
  "gettoks 0 s = []"
| "gettoks (Suc n) s = (case gettok s of (t, s') \<Rightarrow> observed t s' # gettoks n s')"

fun lexeme_view :: "lexeme \<Rightarrow> int \<times> string \<times> double" where
  "lexeme_view (LX_Ident w) = (tok_identifier, w, 0)"
| "lexeme_view (LX_Number w) = (tok_number, [], strtod_num w)"
| "lexeme_view lx = (token_of lx, [], 0)"

text \<open>A program text: lexemes, each followed by a gap; between two lexemes that would run together it must not be empty.\<close>

fun program_text :: "(lexeme \<times> string) list \<Rightarrow> string" where
  "program_text [] = []"
| "program_text ((lx, gap) # items) = lexeme_text lx @ gap @ program_text items"

fun separated :: "(lexeme \<times> string) list \<Rightarrow> bool" where
  "separated [] \<longleftrightarrow> True"
| "separated ((lx, gap) # items) \<longleftrightarrow>
     lexeme_ok lx \<and> blank gap \<and> ends_before lx (gap @ program_text items) \<and> separated items"

lemma char_no_token: "(of_char c :: int) \<noteq> tok_identifier" "(of_char c :: int) \<noteq> tok_number" "(of_char c :: int) \<noteq> tok_eof"
proof -
  have "(0 :: int) \<le> of_char c" by (simp add: of_char_def)
  then show "(of_char c :: int) \<noteq> tok_identifier" "(of_char c :: int) \<noteq> tok_number" "(of_char c :: int) \<noteq> tok_eof"
    by (auto simp: tok_defs)
qed

lemma observed_view: "observed (token_of lx) (put_pending cs (globals_after lx s)) = lexeme_view lx"
  by (cases lx) (simp_all add: observed_def char_no_token, simp_all add: tok_defs)

lemma gettoks_program:
  "lx_ok s \<Longrightarrow> blank gap \<Longrightarrow> pending s = gap @ program_text items \<Longrightarrow> separated items \<Longrightarrow>
     gettoks (Suc (length items)) s = map (lexeme_view \<circ> fst) items @ [(tok_eof, [], 0)]"
proof (induction items arbitrary: gap s)
  case Nil
  have "gettok s = gettok (put_pending [] s)" by (rule gettok_blank [OF Nil.prems(2,1)]) (use Nil.prems(3) in simp)
  also have "\<dots> = (tok_eof, put_pending [] s)" using gettok_cases [OF lx_ok_put, of "[]" s] by simp
  finally show ?case by (simp add: observed_def tok_defs)
next
  case (Cons item items)
  obtain lx gap' where item: "item = (lx, gap')" by fastforce
  let ?rest = "gap' @ program_text items"
  have "gettok s = gettok (put_pending (lexeme_text lx @ ?rest) s)"
    by (rule gettok_blank [OF Cons.prems(2,1)]) (use Cons.prems(3) item in simp)
  also have "\<dots> = (token_of lx, put_pending ?rest (globals_after lx (put_pending (lexeme_text lx @ ?rest) s)))"
    by (rule gettok_lexeme) (use Cons.prems(4) item in simp_all)
  finally have "gettok s = (token_of lx, put_pending ?rest (globals_after lx s))" by (simp add: globals_after_put)
  moreover have "gettoks (Suc (length items)) (put_pending ?rest (globals_after lx s)) =
      map (lexeme_view \<circ> fst) items @ [(tok_eof, [], 0)]"
    by (rule Cons.IH [of _ gap']) (use Cons.prems(4) item in simp_all)
  ultimately show ?case by (simp add: observed_view item del: gettoks.simps(2)) (simp add: observed_view)
qed

text \<open>
  C40: A program is read back as written. Lexemes printed with white space or comments between them wherever two of them would run
  together are read as exactly their tokens, names and numbers, in order, and then the end.
\<close>

theorem lexer_reads_program:
  assumes "blank gap" and "separated items"
  shows "gettoks (Suc (length items)) (lexer_start (gap @ program_text items)) =
    map (lexeme_view \<circ> fst) items @ [(tok_eof, [], 0)]"
proof (rule gettoks_program [of _ "CHR '' '' # gap"])
  show "blank (CHR '' '' # gap)" using assms(1) by (intro blank_space) (simp_all add: is_space_def)
qed (use assms(2) in \<open>simp_all add: lexer_start_def lx_ok_def pending_def\<close>)

definition demo_items :: "(lexeme \<times> string) list" where
  "demo_items = [(LX_Def, '' ''), (LX_Ident ''f'', []), (LX_Char CHR ''('', []), (LX_Ident ''x1'', []), (LX_Char CHR '')'', '' ''),
     (LX_Ident ''x1'', []), (LX_Char CHR ''+'', []), (LX_Number ''1.5'', []), (LX_Extern, '' '')]"

lemma demo_separated: "separated demo_items"
  by (auto simp: demo_items_def ends_before_def is_alnum_def is_alpha_def is_digit_def number_char_def is_space_def
      intro!: blank.intros)

theorem lexer_reads_program_witness:
  "map fst (gettoks 10 (lexer_start (program_text demo_items))) = [- 2, - 4, 40, - 4, 41, - 4, 43, - 5, - 3, - 1]"
proof -
  have "gettoks (Suc (length demo_items)) (lexer_start ([] @ program_text demo_items)) =
      map (lexeme_view \<circ> fst) demo_items @ [(tok_eof, [], 0)]"
    by (rule lexer_reads_program [OF blank_nil demo_separated])
  moreover have "length demo_items = 9" by (simp add: demo_items_def)
  ultimately have r: "gettoks 10 (lexer_start (program_text demo_items)) = map (lexeme_view \<circ> fst) demo_items @ [(tok_eof, [], 0)]"
    by (simp add: numeral_eq_Suc)
  show ?thesis unfolding r by (simp add: demo_items_def tok_defs)
qed

text \<open>
  Every call reads the longest next lexeme. Whatever the input, a call skips white space and comments and then either reports the end
  of the input or reads one lexeme, as far as it goes; it returns its token, sets only the global that goes with it and
  leaves exactly the rest of the input.
\<close>

theorem gettok_longest_lexeme:
  assumes "lx_ok s" and "gettok s = (t, s')"
  shows "\<exists>gap. blank gap \<and> (reads_end s t s' gap \<or> (\<exists>lx. reads_lexeme s t s' gap lx))"
  by (rule gettok_reads [OF assms])

theorem gettok_longest_lexeme_witness:
  "\<exists>gap. blank gap \<and> (reads_end (lexer_start ''#x'') (fst (gettok (lexer_start ''#x''))) (snd (gettok (lexer_start ''#x''))) gap \<or>
     (\<exists>lx. reads_lexeme (lexer_start ''#x'') (fst (gettok (lexer_start ''#x''))) (snd (gettok (lexer_start ''#x''))) gap lx))"
  by (rule gettok_longest_lexeme) (simp_all add: lexer_start_def lx_ok_def)

text \<open>A number with several points is one token, of which \<open>strtod\<close> reads the first part.\<close>

lemma second_point_ignored:
  assumes "list_all is_digit ds" and "list_all is_digit fs"
  shows "strtod_num (ds @ CHR ''.'' # fs @ CHR ''.'' # rest) = strtod_num (ds @ CHR ''.'' # fs)"
proof -
  have p: "\<not> is_digit CHR ''.''" by (simp add: is_digit_def)
  have "takeWhile is_digit (xs @ CHR ''.'' # ys) = xs" "dropWhile is_digit (xs @ CHR ''.'' # ys) = CHR ''.'' # ys"
    if "list_all is_digit xs" for xs ys
    using that p by (induction xs) simp_all
  note w = this
  have fs: "takeWhile is_digit fs = fs" using assms(2) by (induction fs) simp_all
  show ?thesis by (simp add: strtod_num_def w assms fs p)
qed

end
