(* ===== verification/Feed_Handler.thy ===== *)
theory Feed_Handler
  imports Aggregator "HOL-Library.Word"
begin

text \<open>
  The simulated market data feed, from \<open>market_data/feed_handler.h\<close> and \<open>.cpp\<close>, and the monitor of
  feeds, from \<open>market_data/feed_quality_monitor.h\<close> and \<open>.cpp\<close>.

  The pseudo-random generator works on 64-bit words. A tick returns the state and the book the subscriber is
  called with, if there is one. \<open>app/main.cpp\<close> subscribes the aggregator to one feed per venue: \<open>market_step\<close>.
\<close>

unbundle bit_operations_syntax

section \<open>The generator\<close>

definition xorshift :: "64 word \<Rightarrow> 64 word" where
  "xorshift x0 = (let x1 = x0 XOR push_bit 13 x0; x2 = x1 XOR drop_bit 7 x1 in x2 XOR push_bit 17 x2)"

section \<open>State\<close>

record feed_config =
  fd_symbol :: symbol
  fd_venue :: venue_id
  fd_initial_mid :: price
  fd_tick :: price
  fd_max_depth :: int
  fd_base_qty :: quantity
  fd_volatility :: double
  fd_seed :: "64 word"

record sim_feed =
  fh_config :: feed_config
  fh_book :: order_book
  fh_running :: bool
  fh_mid :: price
  fh_sequence :: nat
  fh_rng :: "64 word"
  fh_callback :: bool

definition feed_new :: "feed_config \<Rightarrow> sim_feed" where
  "feed_new cfg = \<lparr>fh_config = cfg,
     fh_book = \<lparr>ob_symbol = fd_symbol cfg, ob_venue = fd_venue cfg, ob_bids = bs_new, ob_asks = bs_new,
                ob_last_update = 0, ob_sequence = 0\<rparr>,
     fh_running = False, fh_mid = fd_initial_mid cfg, fh_sequence = 0, fh_rng = fd_seed cfg, fh_callback = False\<rparr>"

definition set_book_callback :: "sim_feed \<Rightarrow> sim_feed" where "set_book_callback s = s\<lparr>fh_callback := True\<rparr>"

definition feed_start :: "sim_feed \<Rightarrow> sim_feed" where "feed_start s = s\<lparr>fh_running := True\<rparr>"

definition feed_stop :: "sim_feed \<Rightarrow> sim_feed" where "feed_stop s = s\<lparr>fh_running := False\<rparr>"

section \<open>A tick\<close>

text \<open>\<open>next_random\<close>: the value drawn, which is also the next state of the generator.\<close>

definition next_random :: "64 word \<Rightarrow> 64 word" where "next_random = xorshift"

definition max_step_ticks :: "feed_config \<Rightarrow> price \<Rightarrow> int" where
  "max_step_ticks cfg mid = max 1 (to_i64 (ddiv (dmul (fd_volatility cfg) (to_double mid)) (to_double (fd_tick cfg))))"

definition random_walk :: "sim_feed \<Rightarrow> price \<times> 64 word" where
  "random_walk s =
     (let r = next_random (fh_rng s); m = max_step_ticks (fh_config s) (fh_mid s);
          step = i64 (uint r mod u64 (i64 (2 * m + 1)) - m)
      in (i64 (fh_mid s + i64 (step * fd_tick (fh_config s))), r))"

text \<open>The quantity and the number of orders of a level.\<close>

definition level_quantity :: "feed_config \<Rightarrow> 64 word \<Rightarrow> quantity" where
  "level_quantity cfg r =
     (let qty = i64 (fd_base_qty cfg sdiv 2 + uint r mod u64 (i64 (i64 (fd_base_qty cfg * 3) sdiv 2 + 1)))
      in if qty \<le> 0 then 1 else qty)"

definition level_orders :: "64 word \<Rightarrow> int" where
  "level_orders r = 1 + uint r mod 10"

fun bid_levels :: "feed_config \<Rightarrow> price \<Rightarrow> nat \<Rightarrow> nat \<Rightarrow> 64 word \<Rightarrow> book_side \<Rightarrow> book_side \<times> 64 word" where
  "bid_levels cfg best i 0 rng b = (b, rng)"
| "bid_levels cfg best i (Suc n) rng b =
     (let price = i64 (best - i64 (int i * fd_tick cfg))
      in if price \<le> 0 then (b, rng)
         else let r = next_random rng; r' = next_random r
              in bid_levels cfg best (Suc i) n r'
                   (insert_sorted \<lparr>pl_price = price, pl_quantity = level_quantity cfg r, pl_order_count = level_orders r'\<rparr> True b))"

fun ask_levels :: "feed_config \<Rightarrow> price \<Rightarrow> nat \<Rightarrow> nat \<Rightarrow> 64 word \<Rightarrow> book_side \<Rightarrow> book_side \<times> 64 word" where
  "ask_levels cfg best i 0 rng b = (b, rng)"
| "ask_levels cfg best i (Suc n) rng b =
     (let price = i64 (best + i64 (int i * fd_tick cfg)); r = next_random rng; r' = next_random r
      in ask_levels cfg best (Suc i) n r'
           (insert_sorted \<lparr>pl_price = price, pl_quantity = level_quantity cfg r, pl_order_count = level_orders r'\<rparr> False b))"

definition rebuild_book :: "sim_feed \<Rightarrow> sim_feed" where
  "rebuild_book s =
     (let cfg = fh_config s; r = next_random (fh_rng s); spread_ticks = 2 + uint r mod 3;
          half0 = i64 (spread_ticks div 2 * fd_tick cfg);
          half = (if half0 < fd_tick cfg then fd_tick cfg else half0);
          bid = i64 (fh_mid s - half); ask0 = i64 (fh_mid s + half);
          ask = (if ask0 \<le> bid then i64 (bid + fd_tick cfg) else ask0);
          depth = nat (min (fd_max_depth cfg) (int MAX_DEPTH));
          (bids, r1) = bid_levels cfg bid 0 depth r (bs_clear (ob_bids (fh_book s)));
          (asks, r2) = ask_levels cfg ask 0 depth r1 (bs_clear (ob_asks (fh_book s)))
      in s\<lparr>fh_book := (fh_book s)\<lparr>ob_bids := bids, ob_asks := asks\<rparr>, fh_rng := r2\<rparr>)"

definition generate_tick :: "timestamp \<Rightarrow> sim_feed \<Rightarrow> (venue_id \<times> symbol \<times> order_book) list \<times> sim_feed" where
  "generate_tick now s =
     (if \<not> fh_running s then ([], s)
      else
        let (m, r) = random_walk s;
            mid = (if m < fd_tick (fh_config s) then fd_tick (fh_config s) else m);
            s1 = rebuild_book (s\<lparr>fh_mid := mid, fh_rng := r\<rparr>);
            n = fh_sequence s + 1;
            s2 = s1\<lparr>fh_sequence := n, fh_book := (fh_book s1)\<lparr>ob_last_update := now, ob_sequence := n\<rparr>\<rparr>
        in (if fh_callback s then [(fd_venue (fh_config s), fd_symbol (fh_config s), fh_book s2)] else [], s2))"

section \<open>The generator never stops\<close>

lemma xor_push_nonzero:
  fixes x :: "64 word"
  assumes "x XOR push_bit n x = 0" and "0 < n"
  shows "x = 0"
proof -
  have eq: "bit x i \<longleftrightarrow> bit (push_bit n x) i" for i
    using arg_cong [OF assms(1), of "\<lambda>y. bit y i"] by (simp add: bit_xor_iff)
  have "\<not> bit x i" for i
  proof (induction i rule: less_induct)
    case (less i)
    then show ?case using eq [of i] assms(2) by (auto simp: bit_push_bit_iff)
  qed
  then show ?thesis by (simp add: bit_eq_iff)
qed

lemma xor_drop_nonzero:
  fixes x :: "64 word"
  assumes "x XOR drop_bit n x = 0" and "0 < n"
  shows "x = 0"
proof -
  have eq: "bit x i \<longleftrightarrow> bit x (n + i)" for i
    using arg_cong [OF assms(1), of "\<lambda>y. bit y i"] by (simp add: bit_xor_iff bit_drop_bit_eq)
  have "\<not> bit x i" for i
  proof (induction "64 - i" arbitrary: i rule: less_induct)
    case less
    show ?case
    proof (cases "i < 64")
      case True
      then have "64 - (n + i) < 64 - i" using assms(2) by simp
      from less [OF this] show ?thesis using eq by simp
    next
      case False
      then show ?thesis using bit_imp_le_length [of x i] by auto
    qed
  qed
  then show ?thesis by (simp add: bit_eq_iff)
qed

lemma xorshift_nonzero: "x \<noteq> 0 \<Longrightarrow> xorshift x \<noteq> 0"
proof (rule notI)
  assume x: "x \<noteq> 0" and z: "xorshift x = 0"
  define x1 x2 where "x1 = x XOR push_bit 13 x" and "x2 = x1 XOR drop_bit 7 x1"
  have "x2 XOR push_bit 17 x2 = 0" using z by (simp only: xorshift_def Let_def x1_def x2_def)
  then have "x2 = 0" by (rule xor_push_nonzero) simp
  then have "x1 = 0" unfolding x2_def by (rule xor_drop_nonzero) simp
  then have "x = 0" unfolding x1_def by (rule xor_push_nonzero) simp
  then show False using x by simp
qed

lemma xorshift_zero: "xorshift 0 = 0"
  by (simp add: xorshift_def)

section \<open>The books\<close>

definition feed_config_ok :: "feed_config \<Rightarrow> bool" where
  "feed_config_ok cfg \<longleftrightarrow> 0 < fd_tick cfg \<and> fd_tick cfg \<le> 2 ^ 40 \<and> 0 \<le> fd_base_qty cfg \<and> fd_base_qty cfg \<le> 2 ^ 40"

definition quantity_ok :: "feed_config \<Rightarrow> price_level \<Rightarrow> bool" where
  "quantity_ok cfg l \<longleftrightarrow> 0 < pl_quantity l \<and> fd_base_qty cfg div 2 \<le> pl_quantity l \<and> pl_quantity l \<le> 2 * fd_base_qty cfg + 1"

lemma level_quantity_range:
  assumes "feed_config_ok cfg"
  shows "quantity_ok cfg \<lparr>pl_price = p, pl_quantity = level_quantity cfg r, pl_order_count = c\<rparr>"
proof -
  let ?b = "fd_base_qty cfg" and ?n = "u64 (i64 (i64 (fd_base_qty cfg * 3) sdiv 2 + 1))"
  have b: "0 \<le> ?b" "?b \<le> 1099511627776" using assms by (simp_all add: feed_config_ok_def)
  then have n: "?n = ?b * 3 div 2 + 1" by (simp add: i64_small sdiv_nonneg_eq) (intro uwrap_id, simp add: in_urange_def)
  define m where "m = uint r mod (?b * 3 div 2 + 1)"
  have m: "0 \<le> m" "m \<le> ?b * 3 div 2"
    using b pos_mod_bound [of "?b * 3 div 2 + 1" "uint r"] by (simp_all add: m_def)
  have half: "?b sdiv 2 = ?b div 2" using b by (simp add: sdiv_nonneg_eq)
  have "i64 (?b div 2 + m) = ?b div 2 + m" by (rule i64_small) (use b m in simp)
  then have "level_quantity cfg r = (if ?b div 2 + m \<le> 0 then 1 else ?b div 2 + m)"
    unfolding level_quantity_def n half m_def [symmetric] Let_def by simp
  then show ?thesis using b m by (simp add: quantity_ok_def) linarith
qed

text \<open>A level that every level of the side beats goes to the end.\<close>

lemma append_worse:
  assumes "side_inv d b" and "bs_depth b < MAX_DEPTH" and "\<forall>l \<in> set (bs_levels b). better d (pl_price l) (pl_price x)"
    and "0 < pl_quantity x"
  shows "side_inv d (insert_sorted x d b)" and "bs_levels (insert_sorted x d b) = bs_levels b @ [x]"
  using insert_room_inv [OF assms(1,2,4)] insert_sorted_room(1) [OF side_inv_wf [OF assms(1)] assms(2), of x d]
    pp.put_level_last [OF assms(3)] by simp_all

definition rungs :: "bool \<Rightarrow> price \<Rightarrow> price \<Rightarrow> nat \<Rightarrow> price list" where
  "rungs d best tick k = map (\<lambda>j. if d then best - int j * tick else best + int j * tick) [0..<k]"

lemma rungs_Suc: "rungs d best tick (Suc k) = rungs d best tick k @ [if d then best - int k * tick else best + int k * tick]"
  by (simp add: rungs_def)

lemma rungs_worse: "0 < tick \<Longrightarrow> p \<in> set (rungs d best tick k) \<Longrightarrow> better d p (if d then best - int k * tick else best + int k * tick)"
  by (auto simp: rungs_def better_def)

lemma add_rung:
  assumes "side_inv d b" and "map pl_price (bs_levels b) = rungs d best tick i" and "i < MAX_DEPTH" and "0 < tick"
    and "\<forall>l \<in> set (bs_levels b). quantity_ok cfg l" and "quantity_ok cfg x"
    and "pl_price x = (if d then best - int i * tick else best + int i * tick)"
  shows "side_inv d (insert_sorted x d b) \<and> map pl_price (bs_levels (insert_sorted x d b)) = rungs d best tick (Suc i) \<and>
    (\<forall>l \<in> set (bs_levels (insert_sorted x d b)). quantity_ok cfg l)"
proof -
  have "length (bs_levels b) = i" using arg_cong [OF assms(2), of length] by (simp add: rungs_def)
  then have "bs_depth b < MAX_DEPTH" using assms(1,3) length_levels [OF side_inv_wf [OF assms(1)]] by simp
  moreover have "\<forall>l \<in> set (bs_levels b). better d (pl_price l) (pl_price x)"
  proof
    fix l assume "l \<in> set (bs_levels b)"
    then have "pl_price l \<in> set (rungs d best tick i)" unfolding assms(2) [symmetric] by simp
    then show "better d (pl_price l) (pl_price x)" unfolding assms(7) by (rule rungs_worse [OF assms(4)])
  qed
  moreover have "0 < pl_quantity x" using assms(6) by (simp add: quantity_ok_def)
  ultimately show ?thesis using append_worse [OF assms(1)] assms(2,5,6,7) by (simp add: rungs_Suc)
qed

lemma rung_in_range:
  assumes "\<bar>best\<bar> \<le> 2 ^ 61" and "0 < tick" and "tick \<le> 2 ^ 40" and "i < 20"
  shows "i64 (int i * tick) = int i * tick" and "i64 (best - int i * tick) = best - int i * tick"
    and "i64 (best + int i * tick) = best + int i * tick"
proof -
  have "int i * tick \<le> 20 * 2 ^ 40" by (rule mult_mono) (use assms in simp_all)
  moreover have "0 \<le> int i * tick" using assms(2) by simp
  ultimately have "\<bar>int i * tick\<bar> < 9223372036854775808" "\<bar>best - int i * tick\<bar> < 9223372036854775808"
    "\<bar>best + int i * tick\<bar> < 9223372036854775808" using assms(1) by (simp_all add: abs_le_iff abs_less_iff)
  then show "i64 (int i * tick) = int i * tick" "i64 (best - int i * tick) = best - int i * tick"
    "i64 (best + int i * tick) = best + int i * tick" by (simp_all add: i64_small)
qed

definition side_is :: "feed_config \<Rightarrow> bool \<Rightarrow> price \<Rightarrow> nat \<Rightarrow> book_side \<Rightarrow> bool" where
  "side_is cfg d best k b \<longleftrightarrow> side_inv d b \<and> map pl_price (bs_levels b) = rungs d best (fd_tick cfg) k \<and>
     (\<forall>l \<in> set (bs_levels b). quantity_ok cfg l)"

lemma bid_levels_rungs:
  assumes cfg: "feed_config_ok cfg" and best: "\<bar>best\<bar> \<le> 2 ^ 61"
  shows "side_is cfg True best i b \<Longrightarrow> i + n \<le> MAX_DEPTH \<Longrightarrow>
    \<exists>k \<ge> i. k \<le> i + n \<and> side_is cfg True best k (fst (bid_levels cfg best i n rng b)) \<and>
      (\<forall>j. i \<le> j \<and> j < k \<longrightarrow> 0 < best - int j * fd_tick cfg) \<and> (k < i + n \<longrightarrow> best - int k * fd_tick cfg \<le> 0)"
proof (induction n arbitrary: i rng b)
  case (Suc n)
  have tick: "0 < fd_tick cfg" "fd_tick cfg \<le> 2 ^ 40" using cfg by (simp_all add: feed_config_ok_def)
  have i: "i < 20" "i < MAX_DEPTH" using Suc.prems(2) by (simp_all add: MAX_DEPTH_def)
  note r = rung_in_range [OF best tick i(1)]
  show ?case
  proof (cases "best - int i * fd_tick cfg \<le> 0")
    case True
    then show ?thesis using Suc.prems(1) by (intro exI [of _ i]) (simp add: r)
  next
    case False
    let ?b = "insert_sorted \<lparr>pl_price = best - int i * fd_tick cfg, pl_quantity = level_quantity cfg (next_random rng),
      pl_order_count = level_orders (next_random (next_random rng))\<rparr> True b"
    have "side_is cfg True best (Suc i) ?b"
      unfolding side_is_def by (rule add_rung [OF _ _ i(2) tick(1) _ level_quantity_range [OF cfg]])
        (use Suc.prems(1) in \<open>simp_all add: side_is_def\<close>)
    from Suc.IH [OF this, of "next_random (next_random rng)"] Suc.prems(2) obtain k where
      k: "Suc i \<le> k" "k \<le> Suc i + n" "side_is cfg True best k (fst (bid_levels cfg best (Suc i) n (next_random (next_random rng)) ?b))"
        "\<forall>j. Suc i \<le> j \<and> j < k \<longrightarrow> 0 < best - int j * fd_tick cfg" "k < Suc i + n \<longrightarrow> best - int k * fd_tick cfg \<le> 0"
      by auto
    have "\<forall>j. i \<le> j \<and> j < k \<longrightarrow> 0 < best - int j * fd_tick cfg"
      using k(4) False by (metis Suc_leI le_neq_implies_less not_le)
    then show ?thesis using k False by (intro exI [of _ k]) (simp add: r Let_def)
  qed
qed auto

lemma ask_levels_rungs:
  assumes cfg: "feed_config_ok cfg" and best: "\<bar>best\<bar> \<le> 2 ^ 61"
  shows "side_is cfg False best i b \<Longrightarrow> i + n \<le> MAX_DEPTH \<Longrightarrow> side_is cfg False best (i + n) (fst (ask_levels cfg best i n rng b))"
proof (induction n arbitrary: i rng b)
  case (Suc n)
  have tick: "0 < fd_tick cfg" "fd_tick cfg \<le> 2 ^ 40" using cfg by (simp_all add: feed_config_ok_def)
  have i: "i < 20" "i < MAX_DEPTH" using Suc.prems(2) by (simp_all add: MAX_DEPTH_def)
  let ?b = "insert_sorted \<lparr>pl_price = best + int i * fd_tick cfg, pl_quantity = level_quantity cfg (next_random rng),
      pl_order_count = level_orders (next_random (next_random rng))\<rparr> False b"
  have "side_is cfg False best (Suc i) ?b"
    unfolding side_is_def by (rule add_rung [OF _ _ i(2) tick(1) _ level_quantity_range [OF cfg]])
      (use Suc.prems(1) in \<open>simp_all add: side_is_def\<close>)
  from Suc.IH [OF this, of "next_random (next_random rng)"] Suc.prems(2) show ?case
    by (simp add: rung_in_range [OF best tick i(1)] Let_def)
qed simp

text \<open>The book around a mid price: two ladders, half a spread away from it.\<close>

definition book_around :: "feed_config \<Rightarrow> price \<Rightarrow> order_book \<Rightarrow> bool" where
  "book_around cfg mid bk \<longleftrightarrow> (\<exists>h k. (h = 1 \<or> h = 2) \<and>
     (let bid = mid - h * fd_tick cfg; depth = nat (min (fd_max_depth cfg) 20)
      in side_is cfg True bid k (ob_bids bk) \<and> side_is cfg False (mid + h * fd_tick cfg) depth (ob_asks bk) \<and>
         k \<le> depth \<and> (\<forall>j < k. 0 < bid - int j * fd_tick cfg) \<and> (k < depth \<longrightarrow> bid - int k * fd_tick cfg \<le> 0)))"

lemma cleared_side: "side_wf b \<Longrightarrow> side_is cfg d best 0 (bs_clear b)"
  by (simp add: side_is_def side_inv_def side_wf_def bs_clear_def bs_levels_def rungs_def)

lemma rebuild_book_around:
  assumes cfg: "feed_config_ok (fh_config s)" and mid: "0 \<le> fh_mid s" "fh_mid s \<le> 2 ^ 60"
    and wf: "side_wf (ob_bids (fh_book s))" "side_wf (ob_asks (fh_book s))"
  shows "book_around (fh_config s) (fh_mid s) (fh_book (rebuild_book s))"
proof -
  let ?c = "fh_config s" and ?r = "next_random (fh_rng s)" and ?depth = "nat (min (fd_max_depth (fh_config s)) 20)"
  have tick: "0 < fd_tick ?c" "fd_tick ?c \<le> 1099511627776" using cfg by (simp_all add: feed_config_ok_def)
  define h where "h = (2 + uint ?r mod 3) div 2"
  have h: "h = 1 \<or> h = 2"
    using pos_mod_bound [of 3 "uint ?r"] pos_mod_sign [of 3 "uint ?r"] unfolding h_def by linarith
  define bid ask where "bid = fh_mid s - h * fd_tick ?c" and "ask = fh_mid s + h * fd_tick ?c"
  have ht: "i64 (h * fd_tick ?c) = h * fd_tick ?c" "\<not> h * fd_tick ?c < fd_tick ?c"
    "i64 (fh_mid s - h * fd_tick ?c) = bid" "i64 (fh_mid s + h * fd_tick ?c) = ask" "\<not> ask \<le> bid"
    using h tick mid by (auto simp: bid_def ask_def intro!: i64_small)
  have big: "\<bar>bid\<bar> \<le> 2 ^ 61" "\<bar>ask\<bar> \<le> 2 ^ 61" using h tick mid by (auto simp: bid_def ask_def)
  define p where "p = bid_levels ?c bid 0 ?depth ?r (bs_clear (ob_bids (fh_book s)))"
  define q where "q = ask_levels ?c ask 0 ?depth (snd p) (bs_clear (ob_asks (fh_book s)))"
  have d: "0 + ?depth \<le> MAX_DEPTH" by (simp add: MAX_DEPTH_def)
  have b: "ob_bids (fh_book (rebuild_book s)) = fst p" "ob_asks (fh_book (rebuild_book s)) = fst q"
    unfolding rebuild_book_def Let_def h_def [symmetric] p_def q_def
    by (simp_all add: ht MAX_DEPTH_def split_beta)
  obtain k where "k \<le> ?depth" "side_is ?c True bid k (fst p)" "\<forall>j. j < k \<longrightarrow> 0 < bid - int j * fd_tick ?c"
    "k < ?depth \<longrightarrow> bid - int k * fd_tick ?c \<le> 0"
    using bid_levels_rungs [OF cfg big(1) cleared_side [OF wf(1)] d, of ?r] by (auto simp: p_def)
  moreover have "side_is ?c False ask ?depth (fst q)"
    using ask_levels_rungs [OF cfg big(2) cleared_side [OF wf(2)] d, of "snd p"] by (simp add: q_def)
  ultimately show ?thesis using h unfolding book_around_def b Let_def bid_def ask_def by blast
qed

lemma around_prices:
  assumes "feed_config_ok cfg" and "book_around cfg mid bk"
  shows "side_inv True (ob_bids bk)" and "side_inv False (ob_asks bk)"
    and "\<forall>l \<in> set (bs_levels (ob_bids bk)). 0 < pl_price l \<and> pl_price l < mid \<and> quantity_ok cfg l"
    and "\<forall>l \<in> set (bs_levels (ob_asks bk)). mid < pl_price l \<and> quantity_ok cfg l"
proof -
  have tick: "0 < fd_tick cfg" using assms(1) by (simp add: feed_config_ok_def)
  obtain h k where h: "h = 1 \<or> h = 2" and b: "side_is cfg True (mid - h * fd_tick cfg) k (ob_bids bk)"
    "\<forall>j < k. 0 < mid - h * fd_tick cfg - int j * fd_tick cfg"
    "side_is cfg False (mid + h * fd_tick cfg) (nat (min (fd_max_depth cfg) 20)) (ob_asks bk)"
    using assms(2) unfolding book_around_def Let_def by blast
  show "side_inv True (ob_bids bk)" "side_inv False (ob_asks bk)" using b by (simp_all add: side_is_def)
  show "\<forall>l \<in> set (bs_levels (ob_bids bk)). 0 < pl_price l \<and> pl_price l < mid \<and> quantity_ok cfg l"
  proof
    fix l assume l: "l \<in> set (bs_levels (ob_bids bk))"
    have mp: "map pl_price (bs_levels (ob_bids bk)) = rungs True (mid - h * fd_tick cfg) (fd_tick cfg) k"
      using b(1) by (simp add: side_is_def)
    have "pl_price l \<in> set (rungs True (mid - h * fd_tick cfg) (fd_tick cfg) k)" using l unfolding mp [symmetric] by simp
    then obtain j where "j < k" "pl_price l = mid - h * fd_tick cfg - int j * fd_tick cfg" by (auto simp: rungs_def)
    moreover have "0 < h * fd_tick cfg" "0 \<le> int j * fd_tick cfg" using h tick by auto
    ultimately show "0 < pl_price l \<and> pl_price l < mid \<and> quantity_ok cfg l" using b(1,2) l by (simp add: side_is_def)
  qed
  show "\<forall>l \<in> set (bs_levels (ob_asks bk)). mid < pl_price l \<and> quantity_ok cfg l"
  proof
    fix l assume l: "l \<in> set (bs_levels (ob_asks bk))"
    have mp: "map pl_price (bs_levels (ob_asks bk)) = rungs False (mid + h * fd_tick cfg) (fd_tick cfg) (nat (min (fd_max_depth cfg) 20))"
      using b(3) by (simp add: side_is_def)
    have "pl_price l \<in> set (rungs False (mid + h * fd_tick cfg) (fd_tick cfg) (nat (min (fd_max_depth cfg) 20)))"
      using l unfolding mp [symmetric] by simp
    then obtain j where "pl_price l = mid + h * fd_tick cfg + int j * fd_tick cfg" by (auto simp: rungs_def)
    moreover have "0 < h * fd_tick cfg" "0 \<le> int j * fd_tick cfg" using h tick by auto
    ultimately show "mid < pl_price l \<and> quantity_ok cfg l" using b(3) l by (simp add: side_is_def)
  qed
qed

section \<open>Runs of a feed\<close>

datatype feed_cmd = FC_Subscribe | FC_Start | FC_Stop | FC_Tick timestamp

fun feed_step :: "feed_cmd \<Rightarrow> sim_feed \<Rightarrow> sim_feed" where
  "feed_step FC_Subscribe s = set_book_callback s"
| "feed_step FC_Start s = feed_start s"
| "feed_step FC_Stop s = feed_stop s"
| "feed_step (FC_Tick now) s = snd (generate_tick now s)"

text \<open>The random walk stays below \<open>2 ^ 60\<close>.\<close>

fun feed_ok :: "feed_cmd \<Rightarrow> sim_feed \<Rightarrow> bool" where
  "feed_ok (FC_Tick now) s \<longleftrightarrow> fst (random_walk s) \<le> 2 ^ 60"
| "feed_ok _ s \<longleftrightarrow> True"

definition feed_inv :: "feed_config \<Rightarrow> sim_feed \<Rightarrow> bool" where
  "feed_inv cfg s \<longleftrightarrow> fh_config s = cfg \<and> side_wf (ob_bids (fh_book s)) \<and> side_wf (ob_asks (fh_book s)) \<and>
     ob_sequence (fh_book s) = fh_sequence s \<and> ob_symbol (fh_book s) = fd_symbol cfg \<and> ob_venue (fh_book s) = fd_venue cfg \<and>
     (0 < fh_sequence s \<longrightarrow> fd_tick cfg \<le> fh_mid s \<and> book_around cfg (fh_mid s) (fh_book s))"

lemma rebuild_book_frame:
  "fh_config (rebuild_book s) = fh_config s" "fh_mid (rebuild_book s) = fh_mid s" "fh_sequence (rebuild_book s) = fh_sequence s"
  "ob_symbol (fh_book (rebuild_book s)) = ob_symbol (fh_book s)" "ob_venue (fh_book (rebuild_book s)) = ob_venue (fh_book s)"
  "fh_running (rebuild_book s) = fh_running s" "fh_callback (rebuild_book s) = fh_callback s"
  by (simp_all add: rebuild_book_def Let_def split_beta)

lemma book_around_frame:
  "book_around cfg mid (bk\<lparr>ob_last_update := t, ob_sequence := n\<rparr>) = book_around cfg mid bk"
  by (simp add: book_around_def)

lemma feed_tick_inv:
  assumes cfg: "feed_config_ok cfg" and inv: "feed_inv cfg s" and ok: "fst (random_walk s) \<le> 2 ^ 60" and run: "fh_running s"
  shows "feed_inv cfg (snd (generate_tick now s))" and "fh_sequence (snd (generate_tick now s)) = fh_sequence s + 1"
    and "fst (generate_tick now s) =
      (if fh_callback s then [(fd_venue cfg, fd_symbol cfg, fh_book (snd (generate_tick now s)))] else [])"
proof -
  obtain m r where w: "random_walk s = (m, r)" by fastforce
  define mid where "mid = (if m < fd_tick cfg then fd_tick cfg else m)"
  define s0 where "s0 = s\<lparr>fh_mid := mid, fh_rng := r\<rparr>"
  have c: "fh_config s = cfg" using inv by (simp add: feed_inv_def)
  have "0 \<le> mid" "mid \<le> 2 ^ 60" "fd_tick cfg \<le> mid" using cfg ok w by (auto simp: mid_def feed_config_ok_def)
  then have around: "book_around cfg mid (fh_book (rebuild_book s0))"
    using rebuild_book_around [of s0] inv cfg by (simp add: s0_def feed_inv_def)
  define s' where "s' = (rebuild_book s0)\<lparr>fh_sequence := fh_sequence s + 1,
      fh_book := (fh_book (rebuild_book s0))\<lparr>ob_last_update := now, ob_sequence := fh_sequence s + 1\<rparr>\<rparr>"
  have g: "generate_tick now s = (if fh_callback s then [(fd_venue cfg, fd_symbol cfg, fh_book s')] else [], s')"
    unfolding generate_tick_def w s'_def s0_def mid_def using run by (simp add: Let_def c)
  have "side_wf (ob_bids (fh_book (rebuild_book s0)))" "side_wf (ob_asks (fh_book (rebuild_book s0)))"
    using around_prices(1,2) [OF cfg around] by (auto intro: side_inv_wf)
  then show "feed_inv cfg (snd (generate_tick now s))" "fh_sequence (snd (generate_tick now s)) = fh_sequence s + 1"
    "fst (generate_tick now s) =
      (if fh_callback s then [(fd_venue cfg, fd_symbol cfg, fh_book (snd (generate_tick now s)))] else [])"
    unfolding g snd_conv fst_conv
    using around inv \<open>fd_tick cfg \<le> mid\<close>
    by (simp_all add: feed_inv_def s'_def rebuild_book_frame book_around_frame s0_def)
qed

lemma feed_step_inv:
  assumes "feed_config_ok cfg" and "feed_inv cfg s" and "feed_ok c s"
  shows "feed_inv cfg (feed_step c s)"
proof (cases c)
  case (FC_Tick now)
  show ?thesis
  proof (cases "fh_running s")
    case True
    then show ?thesis using feed_tick_inv(1) [OF assms(1,2) _ True] assms(3) FC_Tick by simp
  qed (use assms(2) FC_Tick in \<open>simp add: generate_tick_def\<close>)
qed (use assms(2) in \<open>simp_all add: feed_inv_def set_book_callback_def feed_start_def feed_stop_def\<close>)

lemma feed_new_inv: "feed_inv cfg (feed_new cfg)"
  by (simp add: feed_inv_def feed_new_def side_wf_def bs_new_def)

lemma feed_system:
  assumes "feed_config_ok cfg"
  shows "transition_system feed_step (feed_new cfg) (feed_inv cfg) feed_ok"
  by unfold_locales (use feed_new_inv feed_step_inv [OF assms] in blast)+

text \<open>The configuration of the feeds in \<open>app/main.cpp\<close>; every venue gets the same seed.\<close>

definition main_feed :: "symbol \<Rightarrow> price \<Rightarrow> venue_id \<Rightarrow> feed_config" where
  "main_feed symb base_mid v = \<lparr>fd_symbol = symb, fd_venue = v, fd_initial_mid = base_mid, fd_tick = 1000000, fd_max_depth = 10,
     fd_base_qty = 100, fd_volatility = rnd (1 / 10000), fd_seed = 0xDEADBEEF12345678\<rparr>"

lemma main_feed_ok: "feed_config_ok (main_feed symb mid v)"
  by (simp add: feed_config_ok_def main_feed_def)

interpretation feed_run: transition_system feed_step "feed_new (main_feed symb mid v)" "feed_inv (main_feed symb mid v)" feed_ok
  for symb mid v
  by (rule feed_system [OF main_feed_ok])

section \<open>Feeds and the aggregator\<close>

text \<open>Every feed is subscribed to by the aggregator, which reads its own clock.\<close>

type_synonym 'f market = "('f \<Rightarrow> sim_feed) \<times> aggregator"

datatype 'f market_cmd = MK_Feed 'f timestamp feed_cmd

fun feed_events :: "feed_cmd \<Rightarrow> sim_feed \<Rightarrow> (venue_id \<times> symbol \<times> order_book) list" where
  "feed_events (FC_Tick now) s = fst (generate_tick now s)"
| "feed_events _ s = []"

fun market_step :: "'f market_cmd \<Rightarrow> 'f market \<Rightarrow> 'f market" where
  "market_step (MK_Feed f now c) (fs, ag) =
     (fs(f := feed_step c (fs f)),
      foldl (\<lambda>ag (v, symb, bk). snd (on_book_update now v symb bk ag)) ag (feed_events c (fs f)))"

fun market_ok :: "'f market_cmd \<Rightarrow> 'f market \<Rightarrow> bool" where
  "market_ok (MK_Feed f now c) (fs, ag) \<longleftrightarrow> feed_ok c (fs f)"

definition market_new :: "('f \<Rightarrow> feed_config) \<Rightarrow> venue_id list \<Rightarrow> 'f market" where
  "market_new cfgs vs = (\<lambda>f. feed_new (cfgs f), foldl (\<lambda>ag v. register_venue v ag) ag_new vs)"

text \<open>The books the aggregator holds: sorted, not crossed, with positive prices and bounded positive quantities.\<close>

definition venue_book_ok :: "order_book \<Rightarrow> bool" where
  "venue_book_ok bk \<longleftrightarrow> side_inv True (ob_bids bk) \<and> side_inv False (ob_asks bk) \<and>
     (\<forall>b \<in> set (bs_levels (ob_bids bk)). \<forall>a \<in> set (bs_levels (ob_asks bk)). pl_price b < pl_price a) \<and>
     (\<forall>l \<in> set (bs_levels (ob_bids bk)) \<union> set (bs_levels (ob_asks bk)). 0 < pl_price l \<and> 0 < pl_quantity l \<and> pl_quantity l \<le> 2 ^ 42)"

lemma around_venue_ok:
  assumes "feed_config_ok cfg" and "book_around cfg mid bk" and "0 \<le> mid"
  shows "venue_book_ok bk"
proof -
  have "quantity_ok cfg l \<Longrightarrow> 0 < pl_quantity l \<and> pl_quantity l \<le> 2 ^ 42" for l
    using assms(1) by (auto simp: quantity_ok_def feed_config_ok_def)
  then show ?thesis
    using around_prices [OF assms(1,2)] assms(3) unfolding venue_book_ok_def by (fastforce intro: less_trans)
qed

definition market_inv :: "('f \<Rightarrow> feed_config) \<Rightarrow> venue_id list \<Rightarrow> 'f market \<Rightarrow> bool" where
  "market_inv cfgs vs m \<longleftrightarrow> (\<forall>f. feed_inv (cfgs f) (fst m f)) \<and> agg_inv (snd m) \<and> set (ag_venues (snd m)) = set vs \<and>
     (\<forall>v symb bk. get_venue_book v symb (snd m) = Some bk \<longrightarrow> venue_book_ok bk)"

lemma get_venue_book_after:
  "get_venue_book v' symb' (snd (on_book_update now v symb bk ag)) =
     (if v' = v \<and> symb' = symb then Some bk else get_venue_book v' symb' ag)"
  by (simp add: on_book_update_def recalculate_nbbo_def get_venue_book_def venue_map_def Let_def split: option.splits)

lemma ag_venues_after: "ag_venues (snd (on_book_update now v symb bk ag)) = ag_venues ag"
  by (simp add: on_book_update_def recalculate_nbbo_def Let_def)

lemma market_step_inv:
  assumes cfgs: "\<forall>f. feed_config_ok (cfgs f) \<and> fd_venue (cfgs f) \<in> set vs" and inv: "market_inv cfgs vs m" and ok: "market_ok c m"
  shows "market_inv cfgs vs (market_step c m)"
proof -
  obtain fs ag f now fc where m: "m = (fs, ag)" "c = MK_Feed f now fc" by (cases m; cases c) auto
  have feeds: "feed_inv (cfgs g) (fs g)" for g using inv m by (simp add: market_inv_def)
  have feed: "feed_inv (cfgs f) (feed_step fc (fs f))"
    using feed_step_inv [OF _ feeds] cfgs ok m by simp
  show ?thesis
  proof (cases "feed_events fc (fs f) = []")
    case True
    then show ?thesis using inv feed m by (simp add: market_inv_def)
  next
    case False
    then obtain t where t: "fc = FC_Tick t" "fh_running (fs f)"
      by (cases fc) (auto simp: generate_tick_def split: if_splits)
    let ?s = "snd (generate_tick t (fs f))"
    note tick = feed_tick_inv [OF conjunct1 [OF spec [OF cfgs]] feeds _ t(2), of t]
    have w: "fst (random_walk (fs f)) \<le> 2 ^ 60" using ok m t by simp
    have ev: "feed_events fc (fs f) = [(fd_venue (cfgs f), fd_symbol (cfgs f), fh_book ?s)]"
      using False tick(3) [OF w] t(1) by (simp split: if_splits)
    have "0 < fh_sequence ?s" using tick(2) [OF w] by simp
    then have "book_around (cfgs f) (fh_mid ?s) (fh_book ?s)" "fd_tick (cfgs f) \<le> fh_mid ?s"
      using tick(1) [OF w] by (simp_all add: feed_inv_def)
    then have bk: "venue_book_ok (fh_book ?s)"
      using around_venue_ok [of "cfgs f"] cfgs by (fastforce simp: feed_config_ok_def)
    have "fd_venue (cfgs f) \<in> set (ag_venues ag)" using inv m cfgs by (simp add: market_inv_def)
    then have "agg_inv (snd (on_book_update now (fd_venue (cfgs f)) (fd_symbol (cfgs f)) (fh_book ?s) ag))"
      using inv m agg_step_inv [of ag "AC_Update now (fd_venue (cfgs f)) (fd_symbol (cfgs f)) (fh_book ?s)"]
      by (simp add: market_inv_def)
    then show ?thesis
      using inv feed bk unfolding m market_step.simps ev market_inv_def
      by (auto simp: get_venue_book_after ag_venues_after)
  qed
qed

lemma registered:
  "set (ag_venues (foldl (\<lambda>ag v. register_venue v ag) ag vs)) = set (ag_venues ag) \<union> set vs \<and>
   (agg_inv ag \<longrightarrow> agg_inv (foldl (\<lambda>ag v. register_venue v ag) ag vs)) \<and>
   ((\<forall>v symb. get_venue_book v symb ag = None) \<longrightarrow>
     (\<forall>v symb. get_venue_book v symb (foldl (\<lambda>ag v. register_venue v ag) ag vs) = None))"
proof (induction vs arbitrary: ag)
  case (Cons v vs)
  have "set (ag_venues (register_venue v ag)) = insert v (set (ag_venues ag))" by (auto simp: register_venue_def)
  moreover have "agg_inv ag \<Longrightarrow> agg_inv (register_venue v ag)" using agg_step_inv [of ag "AC_Register v"] by simp
  moreover have "(\<forall>v symb. get_venue_book v symb ag = None) \<Longrightarrow> (\<forall>v' symb. get_venue_book v' symb (register_venue v ag) = None)"
    by (auto simp: register_venue_def get_venue_book_def venue_map_def fun_eq_iff split: option.splits)
  ultimately show ?case using Cons.IH [of "register_venue v ag"] by auto
qed auto

lemma market_new_inv: "market_inv cfgs vs (market_new cfgs vs)"
proof -
  have "agg_inv ag_new" "\<forall>v symb. get_venue_book v symb ag_new = None" "ag_venues ag_new = []"
    by (simp_all add: ag_new_inv) (simp_all add: ag_new_def get_venue_book_def)
  then show ?thesis using registered [where ag = ag_new and vs = vs] by (simp add: market_inv_def market_new_def feed_new_inv)
qed

lemma market_system:
  assumes "\<forall>f. feed_config_ok (cfgs f) \<and> fd_venue (cfgs f) \<in> set vs"
  shows "transition_system market_step (market_new cfgs vs) (market_inv cfgs vs) market_ok"
  by unfold_locales (use market_new_inv market_step_inv [OF assms] in blast)+

section \<open>The monitor\<close>

record feed_stats =
  fq_messages :: nat
  fq_quotes :: nat
  fq_trades :: nat
  fq_parse_errors :: nat
  fq_gaps :: nat
  fq_reconnections :: nat
  fq_last :: int

text \<open>\<open>fq_last\<close> is the clock reading, in nanoseconds since its epoch, of the last message; 0 stands for none. The
  counters do not overflow.\<close>

record feed_monitor =
  fq_threshold :: int
  fq_counts :: feed_stats

definition no_stats :: feed_stats where
  "no_stats = \<lparr>fq_messages = 0, fq_quotes = 0, fq_trades = 0, fq_parse_errors = 0, fq_gaps = 0, fq_reconnections = 0, fq_last = 0\<rparr>"

definition monitor_new :: "int \<Rightarrow> feed_monitor" where
  "monitor_new threshold_ms = \<lparr>fq_threshold = threshold_ms, fq_counts = no_stats\<rparr>"

datatype monitor_cmd =
    MO_Message int
  | MO_Quote
  | MO_Trade
  | MO_Parse_Error
  | MO_Reconnection
  | MO_Gap
  | MO_Reset

definition on_message_received :: "int \<Rightarrow> feed_stats \<Rightarrow> feed_stats" where
  "on_message_received now c = c\<lparr>fq_messages := fq_messages c + 1, fq_last := now\<rparr>"

fun monitor_count :: "monitor_cmd \<Rightarrow> feed_stats \<Rightarrow> feed_stats" where
  "monitor_count (MO_Message now) c = on_message_received now c"
| "monitor_count MO_Quote c = c\<lparr>fq_quotes := fq_quotes c + 1\<rparr>"
| "monitor_count MO_Trade c = c\<lparr>fq_trades := fq_trades c + 1\<rparr>"
| "monitor_count MO_Parse_Error c = c\<lparr>fq_parse_errors := fq_parse_errors c + 1\<rparr>"
| "monitor_count MO_Reconnection c = c\<lparr>fq_reconnections := fq_reconnections c + 1\<rparr>"
| "monitor_count MO_Gap c = c\<lparr>fq_gaps := fq_gaps c + 1\<rparr>"
| "monitor_count MO_Reset c = no_stats"

definition monitor_step :: "monitor_cmd \<Rightarrow> feed_monitor \<Rightarrow> feed_monitor" where
  "monitor_step c m = m\<lparr>fq_counts := monitor_count c (fq_counts m)\<rparr>"

text \<open>A difference in nanoseconds is compared with a threshold in milliseconds.\<close>

definition monitor_is_stale :: "int \<Rightarrow> feed_monitor \<Rightarrow> bool" where
  "monitor_is_stale now m \<longleftrightarrow>
     (if fq_last (fq_counts m) = 0 then True else now - fq_last (fq_counts m) > fq_threshold m * 1000000)"

definition monitor_stats :: "feed_monitor \<Rightarrow> feed_stats" where
  "monitor_stats m = fq_counts m"

text \<open>The events since the last reset, and the times of their messages.\<close>

definition since_reset :: "monitor_cmd list \<Rightarrow> monitor_cmd list" where
  "since_reset cs = rev (takeWhile (\<lambda>c. c \<noteq> MO_Reset) (rev cs))"

definition message_times :: "monitor_cmd list \<Rightarrow> int list" where
  "message_times cs = concat (map (\<lambda>c. case c of MO_Message t \<Rightarrow> [t] | _ \<Rightarrow> []) cs)"

definition tally :: "monitor_cmd list \<Rightarrow> feed_stats" where
  "tally cs = \<lparr>fq_messages = length (message_times cs), fq_quotes = count_list cs MO_Quote, fq_trades = count_list cs MO_Trade,
     fq_parse_errors = count_list cs MO_Parse_Error, fq_gaps = count_list cs MO_Gap,
     fq_reconnections = count_list cs MO_Reconnection, fq_last = (if message_times cs = [] then 0 else last (message_times cs))\<rparr>"

lemma count_list_snoc: "count_list (xs @ [x]) y = count_list xs y + (if x = y then 1 else 0)"
  by (induction xs) simp_all

lemma tally_snoc: "c \<noteq> MO_Reset \<Longrightarrow> monitor_count c (tally cs) = tally (cs @ [c])"
  by (cases c) (simp_all add: tally_def message_times_def count_list_snoc on_message_received_def)

lemma since_reset_snoc: "since_reset (cs @ [c]) = (if c = MO_Reset then [] else since_reset cs @ [c])"
  by (simp add: since_reset_def)

lemma monitor_run: "run monitor_step cs (monitor_new th) = \<lparr>fq_threshold = th, fq_counts = tally (since_reset cs)\<rparr>"
proof (induction cs rule: rev_induct)
  case Nil
  show ?case by (simp add: monitor_new_def tally_def no_stats_def since_reset_def message_times_def)
next
  case (snoc c cs)
  have "tally [] = no_stats" by (simp add: tally_def no_stats_def message_times_def)
  then show ?case using snoc by (cases "c = MO_Reset") (simp_all add: run_append monitor_step_def tally_snoc since_reset_snoc)
qed

section \<open>Bounds for the examples\<close>

text \<open>Without volatility the mid price moves by one tick at most.\<close>

lemma calm_walk:
  assumes "fd_volatility (fh_config s) = 0" and "0 \<le> fh_mid s" "fh_mid s \<le> 2 ^ 59" and "feed_config_ok (fh_config s)"
  shows "fst (random_walk s) \<le> 2 ^ 60"
proof -
  let ?t = "fd_tick (fh_config s)" and ?r = "uint (next_random (fh_rng s))"
  have t: "0 < ?t" "?t \<le> 1099511627776" using assms(4) by (simp_all add: feed_config_ok_def)
  have "max_step_ticks (fh_config s) (fh_mid s) = 1"
    by (simp add: max_step_ticks_def assms(1) dmul_def ddiv_def to_i64_def)
  then have w: "fst (random_walk s) = i64 (fh_mid s + i64 (i64 (?r mod 3 - 1) * ?t))"
    by (simp add: random_walk_def Let_def i64_small uwrap_id in_urange_def)
  have "?r mod 3 = 0 \<or> ?r mod 3 = 1 \<or> ?r mod 3 = 2" using pos_mod_bound [of 3 ?r] pos_mod_sign [of 3 ?r] by linarith
  then show ?thesis unfolding w using t assms(2,3) by (auto simp: i64_small)
qed

definition calm_feed :: "bool \<Rightarrow> feed_config" where
  "calm_feed b = \<lparr>fd_symbol = ''X'', fd_venue = (if b then 1 else 2), fd_initial_mid = 1000, fd_tick = 10, fd_max_depth = 3,
     fd_base_qty = 100, fd_volatility = 0, fd_seed = 5\<rparr>"

lemma calm_feed_ok: "feed_config_ok (calm_feed b)"
  by (simp add: feed_config_ok_def calm_feed_def)

lemma calm_first_tick: "feed_ok (FC_Tick t) (feed_start (feed_new (calm_feed b)))"
  using calm_walk [of "feed_start (feed_new (calm_feed b))"] calm_feed_ok [of b]
  by (simp add: feed_start_def feed_new_def calm_feed_def)

section \<open>Properties\<close>

text \<open>
  The simulated feed makes proper books. After any starts, stops, subscriptions and ticks in which the random walk stays in
  range, the book of a feed that has ticked is two ladders of equally spaced prices one or two ticks away from the mid
  price: both sides are sorted and within the fixed arrays, all quantities are within the configured range, no
  bid reaches an ask, bids are positive and cut off only where they would not be, and its sequence number counts the ticks.
\<close>

theorem feed_books_valid:
  assumes "feed_config_ok cfg" and "legal feed_ok feed_step cs (feed_new cfg)" and "s = run feed_step cs (feed_new cfg)"
    and "0 < fh_sequence s"
  shows "book_around cfg (fh_mid s) (fh_book s) \<and> venue_book_ok (fh_book s) \<and>
    ob_sequence (fh_book s) = fh_sequence s \<and> fd_tick cfg \<le> fh_mid s"
proof -
  have "feed_inv cfg s" using transition_system.inv_run [OF feed_system [OF assms(1)] assms(2)] assms(3) by simp
  then show ?thesis
    using assms(1,4) around_venue_ok [OF assms(1), of "fh_mid s" "fh_book s"] by (simp add: feed_inv_def feed_config_ok_def)
qed

theorem feed_books_valid_witness:
  "let s = run feed_step [FC_Start, FC_Tick 7] (feed_new (calm_feed True))
   in book_around (calm_feed True) (fh_mid s) (fh_book s) \<and> venue_book_ok (fh_book s)"
proof -
  let ?s0 = "feed_start (feed_new (calm_feed True))"
  have leg: "legal feed_ok feed_step [FC_Start, FC_Tick 7] (feed_new (calm_feed True))"
    using calm_first_tick [of 7 True] by simp
  have "feed_inv (calm_feed True) ?s0" using feed_step_inv [OF calm_feed_ok feed_new_inv, of FC_Start True] by simp
  from feed_tick_inv(2) [OF calm_feed_ok this, of 7] calm_first_tick [of 7 True]
  have "fh_sequence (run feed_step [FC_Start, FC_Tick 7] (feed_new (calm_feed True))) = fh_sequence ?s0 + 1"
    by (simp add: feed_start_def)
  then show ?thesis using feed_books_valid [OF calm_feed_ok leg refl] by (simp add: Let_def del: run.simps)
qed

text \<open>
  C19: A simulated market has a correct NBBO. With the aggregator subscribed to any number of feeds on registered venues, after any
  interleaving of their ticks the NBBO is the best of the quotes the venues show, with their summed quantity, without
  any assumption on the books; and no venue's book is crossed.
\<close>

theorem simulated_market_nbbo:
  assumes "\<forall>f. feed_config_ok (cfgs f) \<and> fd_venue (cfgs f) \<in> set vs" and "length vs \<le> 2 ^ 20"
    and "legal market_ok market_step cs (market_new cfgs vs)" and "(fs, ag) = run market_step cs (market_new cfgs vs)"
    and "nb = get_nbbo symb ag"
  shows "best_quote is_bid (quotes is_bid symb ag)
      (if is_bid then nb_bid nb else nb_ask nb)
      (if is_bid then nb_bid_qty nb else nb_ask_qty nb)
      (if is_bid then nb_bid_venue nb else nb_ask_venue nb) \<and>
    (\<forall>v bk. get_venue_book v symb ag = Some bk \<longrightarrow> \<not> is_crossed bk)"
proof -
  have "market_inv cfgs vs (fs, ag)" using transition_system.inv_run [OF market_system [OF assms(1)] assms(3)] assms(4) by simp
  then have ag: "agg_inv ag" "set (ag_venues ag) = set vs" and bk: "\<And>v bk. get_venue_book v symb ag = Some bk \<Longrightarrow> venue_book_ok bk"
    by (auto simp: market_inv_def)
  have top: "\<exists>l \<in> set (bs_levels (side_fn d b)). quote_of d b = (pl_price l, pl_quantity l)"
    if "venue_book_ok b" "fst (quote_of d b) \<noteq> INVALID_PRICE" for b d
  proof -
    have wf: "side_wf (side_fn d b)" using that(1) by (cases d) (auto simp: venue_book_ok_def intro: side_inv_wf)
    then have "bs_levels (side_fn d b) \<noteq> []" using quote_of_empty that(2) by blast
    then show ?thesis using quote_of_head [OF wf] hd_in_set by blast
  qed
  have q: "0 \<le> q \<and> q \<le> 2 ^ 42" if shown: "(v, p, q) \<in> set (quotes is_bid symb ag)" for v p q
  proof -
    obtain b where b: "get_venue_book v symb ag = Some b" "(p, q) = quote_of is_bid b" "p \<noteq> INVALID_PRICE"
      using shown by (auto simp: quotes_def split: option.splits if_splits) metis
    then obtain l where "l \<in> set (bs_levels (side_fn is_bid b))" "q = pl_quantity l"
      using top [OF bk [OF b(1)], of is_bid] by (metis fst_conv snd_conv)
    then show ?thesis using bk [OF b(1)] by (cases is_bid) (auto simp: venue_book_ok_def intro: less_imp_le)
  qed
  have "length (quotes is_bid symb ag) \<le> length (ag_venues ag)" by (rule length_quotes)
  also have "\<dots> = card (set vs)" using ag by (simp add: agg_inv_def flip: distinct_card)
  also have "\<dots> \<le> 2 ^ 20" using assms(2) card_length [of vs] by simp
  finally have len: "int (length (quotes is_bid symb ag)) \<le> 2 ^ 20" by simp
  have "(\<Sum>(v, p, q) \<leftarrow> quotes is_bid symb ag. q) \<le> (\<Sum>x \<leftarrow> quotes is_bid symb ag. 2 ^ 42)"
    by (rule sum_list_mono) (use q in auto)
  also have "\<dots> = int (length (quotes is_bid symb ag)) * 2 ^ 42" by (simp add: sum_list_triv)
  also have "\<dots> < 2 ^ 63" using len by simp
  finally have sum: "(\<Sum>(v, p, q) \<leftarrow> quotes is_bid symb ag. q) < 2 ^ 63" .
  obtain now where "nb = compute_nbbo now symb ag" using ag(1) assms(5) unfolding agg_inv_def by blast
  then have "best_quote is_bid (quotes is_bid symb ag)
      (if is_bid then nb_bid nb else nb_ask nb)
      (if is_bid then nb_bid_qty nb else nb_ask_qty nb)
      (if is_bid then nb_bid_venue nb else nb_ask_venue nb)"
    by (rule compute_nbbo_best [rotated 2]) (use q sum in auto)
  moreover have "\<not> is_crossed b" if b: "get_venue_book v symb ag = Some b" for v b
  proof (cases "best_bid b = INVALID_PRICE \<or> best_ask b = INVALID_PRICE")
    case False
    then obtain l l' where ll: "l \<in> set (bs_levels (ob_bids b))" "best_bid b = pl_price l"
      "l' \<in> set (bs_levels (ob_asks b))" "best_ask b = pl_price l'"
      using top [OF bk [OF b], of True] top [OF bk [OF b], of False] by (auto simp: quote_of_def)
    have "pl_price l < pl_price l'" using bk [OF b] ll(1,3) unfolding venue_book_ok_def by blast
    then show ?thesis using ll(2,4) by (simp add: is_crossed_def Let_def)
  qed (auto simp: is_crossed_def)
  ultimately show ?thesis by blast
qed

theorem simulated_market_nbbo_witness:
  "let ag = snd (run market_step [MK_Feed True 1 FC_Subscribe, MK_Feed True 1 FC_Start, MK_Feed True 2 (FC_Tick 2)] (market_new calm_feed [1, 2]))
   in best_quote True (quotes True ''X'' ag) (nb_bid (get_nbbo ''X'' ag)) (nb_bid_qty (get_nbbo ''X'' ag)) (nb_bid_venue (get_nbbo ''X'' ag))"
proof -
  let ?cs = "[MK_Feed True 1 FC_Subscribe, MK_Feed True 1 FC_Start, MK_Feed True 2 (FC_Tick 2)]"
  have "feed_ok (FC_Tick 2) (feed_start (set_book_callback (feed_new (calm_feed True))))"
    using calm_walk [of "feed_start (set_book_callback (feed_new (calm_feed True)))"] calm_feed_ok [of True]
    by (simp add: feed_start_def set_book_callback_def feed_new_def calm_feed_def)
  then have leg: "legal market_ok market_step ?cs (market_new calm_feed [1, 2])"
    by (simp add: market_new_def)
  have cfgs: "\<forall>f. feed_config_ok (calm_feed f) \<and> fd_venue (calm_feed f) \<in> set [1, 2]"
    by (simp add: calm_feed_ok) (simp add: calm_feed_def)
  show ?thesis
    using simulated_market_nbbo [OF cfgs _ leg prod.collapse refl, where symb = "''X''" and is_bid = True] by (simp add: Let_def del: run.simps)
qed

text \<open>
  The monitor counts what happened since the last reset and calls a feed stale exactly when no message has
  arrived since then or the last one is older than the threshold.
\<close>

theorem monitor_exact:
  assumes "m = run monitor_step cs (monitor_new threshold_ms)" and "0 \<notin> set (message_times cs)"
  shows "monitor_stats m = tally (since_reset cs) \<and>
    (monitor_is_stale now m \<longleftrightarrow> message_times (since_reset cs) = [] \<or>
       now - last (message_times (since_reset cs)) > threshold_ms * 1000000)"
proof -
  have "set (since_reset cs) \<subseteq> set cs" by (auto simp: since_reset_def dest: set_takeWhileD)
  then have "set (message_times (since_reset cs)) \<subseteq> set (message_times cs)" by (fastforce simp: message_times_def)
  then have "message_times (since_reset cs) \<noteq> [] \<Longrightarrow> last (message_times (since_reset cs)) \<noteq> 0"
    using assms(2) last_in_set by fastforce
  then show ?thesis unfolding assms(1) monitor_run by (auto simp: monitor_stats_def monitor_is_stale_def tally_def)
qed

theorem monitor_exact_witness:
  "monitor_is_stale 9000000000 (run monitor_step [MO_Message 1, MO_Reset, MO_Quote, MO_Message 2000000000] (monitor_new 5000))"
  using monitor_exact [OF refl, where cs = "[MO_Message 1, MO_Reset, MO_Quote, MO_Message 2000000000]" and now = 9000000000 and threshold_ms = 5000]
  by (simp add: message_times_def since_reset_def del: run.simps)

text \<open>The generator of a feed with a seed other than 0 never reaches 0, where it would stay for ever.\<close>

lemma generator_alive: "x \<noteq> 0 \<Longrightarrow> (xorshift ^^ n) x \<noteq> 0"
  by (induction n) (simp_all add: xorshift_nonzero)

lemma generator_dead: "(xorshift ^^ n) 0 = 0"
  by (induction n) (simp_all add: xorshift_zero)

end
