(* ===== verification/Replay_Engine.thy ===== *)
theory Replay_Engine
  imports Text_Conversion Feed_Handler
begin

text \<open>
  The replay of recorded market data, from \<open>market_data/replay_engine.h\<close> and \<open>.cpp\<close>.

  A file that cannot be opened is \<open>None\<close>. Prices outside the range of the text conversions give
  \<open>Not_Covered\<close>. Binary files hold the memory of the ticks as it is, so the functions on them take the
  conversion between a tick and its bytes as an argument. \<open>start\<close> is a loop in the calling thread; other
  threads may stop, pause and resume it between any two of its steps.
\<close>

section \<open>Ticks\<close>

record tick_level =
  tl_price :: price
  tl_qty :: quantity

text \<open>The two arrays have \<open>MAX_DEPTH\<close> elements; times are nanoseconds since the epoch of the clock.\<close>

record md_tick =
  mt_symbol :: symbol
  mt_venue :: venue_id
  mt_time :: timestamp
  mt_bid :: price
  mt_bid_qty :: quantity
  mt_ask :: price
  mt_ask_qty :: quantity
  mt_bid_levels :: "tick_level list"
  mt_ask_levels :: "tick_level list"
  mt_bid_depth :: nat
  mt_ask_depth :: nat

definition no_level :: tick_level where
  "no_level = \<lparr>tl_price = INVALID_PRICE, tl_qty = 0\<rparr>"

definition empty_tick :: md_tick where
  "empty_tick = \<lparr>mt_symbol = [], mt_venue = 0, mt_time = 0, mt_bid = INVALID_PRICE, mt_bid_qty = 0,
     mt_ask = INVALID_PRICE, mt_ask_qty = 0, mt_bid_levels = replicate MAX_DEPTH no_level,
     mt_ask_levels = replicate MAX_DEPTH no_level, mt_bid_depth = 0, mt_ask_depth = 0\<rparr>"

text \<open>Where the thread that called \<open>start\<close> is.\<close>

datatype replay_status = RL_Idle | RL_Test | RL_Pause | RL_Check | RL_Emit

record replay_engine =
  re_ticks :: "md_tick list"
  re_pos :: nat
  re_callback :: bool
  re_running :: bool
  re_paused :: bool
  re_speed :: double
  re_status :: replay_status

definition replay_new :: replay_engine where
  "replay_new = \<lparr>re_ticks = [], re_pos = 0, re_callback = False, re_running = False, re_paused = False, re_speed = 1,
     re_status = RL_Idle\<rparr>"

section \<open>Text files\<close>

text \<open>\<open>strtoll\<close>, \<open>strtoul\<close> and \<open>strtod\<close>, which do not fail: they return 0 for no number and the extreme
  value for one out of range.\<close>

definition strtoll :: "string \<Rightarrow> int" where
  "strtoll s = (case read_int s of Inl _ \<Rightarrow> 0 | Inr v \<Rightarrow> max (- (2 ^ 63)) (min (2 ^ 63 - 1) v))"

definition strtoul :: "string \<Rightarrow> int" where
  "strtoul s = (case read_int s of Inl _ \<Rightarrow> 0 | Inr v \<Rightarrow> if \<bar>v\<bar> < 2 ^ 64 then u64 v else 2 ^ 64 - 1)"

definition strtod :: "string \<Rightarrow> double res" where
  "strtod s = (case stod s of Inr x \<Rightarrow> Inr x | Inl Invalid_Argument \<Rightarrow> Inr 0 | Inl _ \<Rightarrow> Inl Not_Covered)"

definition is_blank :: "char \<Rightarrow> bool" where
  "is_blank c \<longleftrightarrow> c = CHR '' '' \<or> c = CHR 0x09"

definition trim :: "string \<Rightarrow> string" where
  "trim s = rev (dropWhile is_blank (rev (dropWhile is_blank s)))"

definition csv_price :: "string \<Rightarrow> price res" where
  "csv_price s = bind_res (strtod s) (\<lambda>d. Inr (to_price d))"

definition csv_level :: "string list \<Rightarrow> nat \<Rightarrow> md_tick \<Rightarrow> md_tick res" where
  "csv_level cols i tick =
     (let base = 7 + i * 4 in
      bind_res (csv_price (cols ! base)) (\<lambda>bid.
      bind_res (csv_price (cols ! (base + 2))) (\<lambda>ask.
        Inr (tick\<lparr>mt_bid_levels := (mt_bid_levels tick)[i := \<lparr>tl_price = bid, tl_qty = strtoll (cols ! (base + 1))\<rparr>],
                  mt_ask_levels := (mt_ask_levels tick)[i := \<lparr>tl_price = ask, tl_qty = strtoll (cols ! (base + 3))\<rparr>]\<rparr>))))"

fun csv_levels :: "string list \<Rightarrow> nat \<Rightarrow> md_tick \<Rightarrow> md_tick res" where
  "csv_levels cols 0 tick = Inr tick"
| "csv_levels cols (Suc n) tick = bind_res (csv_levels cols n tick) (csv_level cols n)"

definition csv_fields :: "string \<Rightarrow> string list" where
  "csv_fields line = map trim (split_on (CHR '','') line)"

text \<open>A line that is skipped gives no tick.\<close>

definition csv_line :: "string \<Rightarrow> md_tick option res" where
  "csv_line line =
     (if line = [] \<or> hd line = CHR ''#'' then Inr None
      else
        let cols = csv_fields line in
        if length cols < 7 then Inr None
        else
          bind_res (csv_price (cols ! 3)) (\<lambda>bid.
          bind_res (csv_price (cols ! 5)) (\<lambda>ask.
            let n = min ((length cols - 7) div 4) MAX_DEPTH;
                tick = empty_tick\<lparr>mt_symbol := fs_view (fs_assign 16 (cols ! 1) (fs_init 16)),
                  mt_venue := nat (uwrap 16 (strtoul (cols ! 2))), mt_time := i64 (strtoll (cols ! 0) * 1000),
                  mt_bid := bid, mt_bid_qty := strtoll (cols ! 4), mt_ask := ask, mt_ask_qty := strtoll (cols ! 6)\<rparr>
            in bind_res (csv_levels cols n tick) (\<lambda>tick. Inr (Some (tick\<lparr>mt_bid_depth := n, mt_ask_depth := n\<rparr>))))))"

fun csv_lines :: "string list \<Rightarrow> md_tick list res" where
  "csv_lines [] = Inr []"
| "csv_lines (line # rest) =
     bind_res (csv_line line) (\<lambda>t. bind_res (csv_lines rest) (\<lambda>ts.
       Inr (case t of None \<Rightarrow> ts | Some tick \<Rightarrow> tick # ts)))"

definition has_header :: "string \<Rightarrow> bool" where
  "has_header line \<longleftrightarrow> line \<noteq> [] \<and> \<not> is_digit (hd line) \<and> hd line \<noteq> CHR ''-''"

definition load_from_csv :: "string option \<Rightarrow> replay_engine \<Rightarrow> (bool \<times> replay_engine) res" where
  "load_from_csv file e =
     (case file of
        None \<Rightarrow> Inr (False, e)
      | Some content \<Rightarrow>
          (case split_on (CHR 0x0A) content of
             [] \<Rightarrow> Inr (False, e)
           | line # rest \<Rightarrow>
               bind_res (csv_lines (if has_header line then rest else line # rest)) (\<lambda>ts.
                 let ticks = re_ticks e @ ts in Inr (ticks \<noteq> [], e\<lparr>re_ticks := ticks\<rparr>))))"

section \<open>Binary files\<close>

text \<open>The bytes of a 64-bit integer, in the order of the host.\<close>

definition int_image :: "(nat \<Rightarrow> char list) \<Rightarrow> (char list \<Rightarrow> nat) \<Rightarrow> bool" where
  "int_image put get \<longleftrightarrow> (\<forall>n < 2 ^ 64. length (put n) = 8 \<and> get (put n) = n)"

text \<open>The image of a tick in memory: \<open>sz\<close> bytes.\<close>

definition tick_image :: "nat \<Rightarrow> (md_tick \<Rightarrow> char list) \<Rightarrow> (char list \<Rightarrow> md_tick) \<Rightarrow> bool" where
  "tick_image sz enc dec \<longleftrightarrow> (\<forall>t. length (enc t) = sz \<and> dec (enc t) = t)"

text \<open>\<open>read\<close> overwrites the memory of the ticks with the bytes that the file has, even if they are too few.\<close>

fun ticks_of :: "nat \<Rightarrow> (char list \<Rightarrow> md_tick) \<Rightarrow> nat \<Rightarrow> char list \<Rightarrow> md_tick list" where
  "ticks_of sz dec 0 bs = []"
| "ticks_of sz dec (Suc n) bs = dec (take sz bs) # ticks_of sz dec n (drop sz bs)"

definition load_from_binary ::
  "nat \<Rightarrow> (md_tick \<Rightarrow> char list) \<Rightarrow> (char list \<Rightarrow> md_tick) \<Rightarrow> (char list \<Rightarrow> nat) \<Rightarrow> char list option \<Rightarrow> replay_engine \<Rightarrow> bool \<times> replay_engine"
where
  "load_from_binary sz enc dec get file e =
     (case file of
        None \<Rightarrow> (False, e)
      | Some bytes \<Rightarrow>
          if length bytes < 8 \<or> get (take 8 bytes) = 0 then (False, e)
          else if get (take 8 bytes) > 100000000 then (False, e)
          else
            let count = get (take 8 bytes);
                resized = take count (re_ticks e) @ replicate (count - length (re_ticks e)) empty_tick;
                got = take (count * sz) (drop 8 bytes);
                memory = got @ drop (length got) (concat (map enc resized))
            in (length got = count * sz, e\<lparr>re_ticks := ticks_of sz dec count memory\<rparr>))"

text \<open>The bytes of the file, and whether every write succeeded; a file that cannot be created is left alone.\<close>

definition save_to_binary :: "(md_tick \<Rightarrow> char list) \<Rightarrow> (nat \<Rightarrow> char list) \<Rightarrow> bool \<Rightarrow> replay_engine \<Rightarrow> bool \<times> char list option" where
  "save_to_binary enc put opened e =
     (if \<not> opened then (False, None)
      else (True, Some (put (length (re_ticks e)) @ concat (map enc (re_ticks e)))))"

section \<open>Adding and generating ticks\<close>

definition add_tick :: "md_tick \<Rightarrow> replay_engine \<Rightarrow> replay_engine" where
  "add_tick tick e = e\<lparr>re_ticks := re_ticks e @ [tick]\<rparr>"

definition synthetic_tick_size :: price where
  "synthetic_tick_size = to_price (rnd (1 / 100))"

text \<open>One pass of the loop: the tick and the values of \<open>rng\<close>, \<open>mid\<close> and \<open>ts\<close> after it. The interval is in microseconds.\<close>

definition synthetic_tick ::
  "symbol \<Rightarrow> venue_id \<Rightarrow> int \<Rightarrow> 64 word \<times> price \<times> timestamp \<Rightarrow> md_tick \<times> 64 word \<times> price \<times> timestamp"
where
  "synthetic_tick symb venue interval = (\<lambda>(rng, mid, ts).
     let r1 = xorshift rng; r2 = xorshift r1; r3 = xorshift r2; r4 = xorshift r3;
         step = i64 (uint r1 mod 3 - 1);
         mid0 = i64 (mid + i64 (step * synthetic_tick_size));
         mid1 = (if mid0 < synthetic_tick_size then synthetic_tick_size else mid0);
         half_spread = i64 ((1 + uint r2 mod 2) * synthetic_tick_size);
         bid0 = i64 (mid1 - half_spread);
         tick = empty_tick\<lparr>mt_symbol := symb, mt_venue := venue, mt_time := ts, mt_bid := bid0, mt_ask := i64 (mid1 + half_spread),
           mt_bid_qty := 50 + uint r3 mod 200, mt_ask_qty := 50 + uint r4 mod 200\<rparr>
     in (if bid0 \<le> 0 then tick\<lparr>mt_bid := synthetic_tick_size\<rparr> else tick, r4, mid1, i64 (ts + interval * 1000)))"

fun synthetic_ticks :: "symbol \<Rightarrow> venue_id \<Rightarrow> int \<Rightarrow> nat \<Rightarrow> 64 word \<times> price \<times> timestamp \<Rightarrow> md_tick list" where
  "synthetic_ticks symb venue interval 0 s = []"
| "synthetic_ticks symb venue interval (Suc n) s =
     (let (tick, s') = synthetic_tick symb venue interval s in tick # synthetic_ticks symb venue interval n s')"

definition generate_synthetic :: "symbol \<Rightarrow> venue_id \<Rightarrow> price \<Rightarrow> nat \<Rightarrow> int \<Rightarrow> replay_engine \<Rightarrow> replay_engine" where
  "generate_synthetic symb venue start_mid num_ticks interval e =
     e\<lparr>re_ticks := re_ticks e @ synthetic_ticks symb venue interval num_ticks
        (word_of_int start_mid XOR 0xBEEFCAFE12345678, start_mid, 1000000 * 1000)\<rparr>"

section \<open>Replay\<close>

text \<open>The time slept before a tick, in microseconds.\<close>

definition tick_delay :: "double \<Rightarrow> md_tick \<Rightarrow> md_tick \<Rightarrow> int" where
  "tick_delay speed prev cur =
     (let delta = i64 (mt_time cur - mt_time prev)
      in if 0 < speed \<and> 0 < delta then max 0 (to_i64 (ddiv (of_i64 (delta sdiv 1000)) speed)) else 0)"

definition replay_start :: "bool \<Rightarrow> replay_engine \<Rightarrow> replay_engine" where
  "replay_start cb e = e\<lparr>re_callback := cb, re_running := True, re_paused := False, re_status := RL_Test\<rparr>"

definition replay_exit :: "replay_engine \<Rightarrow> replay_engine" where
  "replay_exit e = e\<lparr>re_running := False, re_status := RL_Idle\<rparr>"

text \<open>What the thread does that others see: it sleeps for some microseconds or calls the callback with a tick.\<close>

datatype replay_event = RE_Sleep int | RE_Tick md_tick

text \<open>The callback with the tick at the position, which then advances.\<close>

definition replay_emit :: "replay_engine \<Rightarrow> replay_event list \<times> replay_engine" where
  "replay_emit e = (if re_callback e then [RE_Tick (re_ticks e ! re_pos e)] else [], e\<lparr>re_pos := re_pos e + 1\<rparr>)"

text \<open>The sleep before the tick at the position, if there is one.\<close>

definition sleep_before :: "double \<Rightarrow> md_tick list \<Rightarrow> nat \<Rightarrow> replay_event list" where
  "sleep_before speed ticks pos =
     (let us = if 0 < pos then tick_delay speed (ticks ! (pos - 1)) (ticks ! pos) else 0
      in if 0 < us then [RE_Sleep us] else [])"

definition replay_loop :: "replay_engine \<Rightarrow> replay_event list \<times> replay_engine" where
  "replay_loop e =
     (case re_status e of
        RL_Idle \<Rightarrow> ([], e)
      | RL_Test \<Rightarrow> ([], if re_running e \<and> re_pos e < length (re_ticks e) then e\<lparr>re_status := RL_Pause\<rparr> else replay_exit e)
      | RL_Pause \<Rightarrow> ([], if re_paused e \<and> re_running e then e else e\<lparr>re_status := RL_Check\<rparr>)
      | RL_Check \<Rightarrow>
          if \<not> re_running e then ([], replay_exit e)
          else (sleep_before (re_speed e) (re_ticks e) (re_pos e), e\<lparr>re_status := RL_Emit\<rparr>)
      | RL_Emit \<Rightarrow> (case replay_emit e of (out, e') \<Rightarrow> (out, e'\<lparr>re_status := RL_Test\<rparr>)))"

definition replay_stop :: "replay_engine \<Rightarrow> replay_engine" where
  "replay_stop e = e\<lparr>re_running := False, re_paused := False\<rparr>"

definition replay_pause :: "replay_engine \<Rightarrow> replay_engine" where "replay_pause e = e\<lparr>re_paused := True\<rparr>"

definition replay_resume :: "replay_engine \<Rightarrow> replay_engine" where "replay_resume e = e\<lparr>re_paused := False\<rparr>"

definition replay_reset :: "replay_engine \<Rightarrow> replay_engine" where
  "replay_reset e = (replay_stop e)\<lparr>re_pos := 0\<rparr>"

definition replay_single_step :: "replay_engine \<Rightarrow> bool \<times> replay_event list \<times> replay_engine" where
  "replay_single_step e =
     (if re_pos e \<ge> length (re_ticks e) then (False, [], e)
      else let (out, e') = replay_emit e in (re_pos e' < length (re_ticks e'), out, e'))"

definition set_speed_multiplier :: "double \<Rightarrow> replay_engine \<Rightarrow> replay_engine" where
  "set_speed_multiplier m e = e\<lparr>re_speed := m\<rparr>"

datatype replay_cmd =
    RC_Start bool
  | RC_Loop
  | RC_Stop
  | RC_Pause
  | RC_Resume
  | RC_Reset
  | RC_Step
  | RC_Add md_tick
  | RC_Speed double

fun replay_cmd_step :: "replay_cmd \<Rightarrow> replay_engine \<Rightarrow> replay_event list \<times> replay_engine" where
  "replay_cmd_step (RC_Start cb) e = ([], replay_start cb e)"
| "replay_cmd_step RC_Loop e = replay_loop e"
| "replay_cmd_step RC_Stop e = ([], replay_stop e)"
| "replay_cmd_step RC_Pause e = ([], replay_pause e)"
| "replay_cmd_step RC_Resume e = ([], replay_resume e)"
| "replay_cmd_step RC_Reset e = ([], replay_reset e)"
| "replay_cmd_step RC_Step e = snd (replay_single_step e)"
| "replay_cmd_step (RC_Add t) e = ([], add_tick t e)"
| "replay_cmd_step (RC_Speed m) e = ([], set_speed_multiplier m e)"

text \<open>Only the atomic flags may be touched while the replay runs.\<close>

fun replay_ok :: "replay_cmd \<Rightarrow> replay_engine \<Rightarrow> bool" where
  "replay_ok RC_Loop e \<longleftrightarrow> True"
| "replay_ok RC_Stop e \<longleftrightarrow> True"
| "replay_ok RC_Pause e \<longleftrightarrow> True"
| "replay_ok RC_Resume e \<longleftrightarrow> True"
| "replay_ok _ e \<longleftrightarrow> re_status e = RL_Idle"

fun replay_step :: "replay_cmd \<Rightarrow> replay_event list \<times> replay_engine \<Rightarrow> replay_event list \<times> replay_engine" where
  "replay_step c (out, e) = (case replay_cmd_step c e of (o', e') \<Rightarrow> (out @ o', e'))"

fun replay_legal :: "replay_cmd \<Rightarrow> replay_event list \<times> replay_engine \<Rightarrow> bool" where
  "replay_legal c (out, e) \<longleftrightarrow> replay_ok c e"

section \<open>Numbers read from text\<close>

fun padded :: "nat \<Rightarrow> int \<Rightarrow> string" where
  "padded 0 f = []"
| "padded (Suc n) f = padded n (f div 10) @ [digit_char (f mod 10)]"

lemma padded_digits: "list_all is_digit (padded n f)"
  by (induction n arbitrary: f) simp_all

lemma length_padded [simp]: "length (padded n f) = n"
  by (induction n arbitrary: f) simp_all

lemma digits_val_padded: "0 \<le> f \<Longrightarrow> f < 10 ^ n \<Longrightarrow> digits_val (padded n f) = f"
proof (induction n arbitrary: f)
  case (Suc n)
  have "f < 10 * 10 ^ n" using Suc.prems(2) by simp
  then have "f div 10 < 10 ^ n" by linarith
  then show ?case using Suc by (simp add: digits_val_append)
qed simp

text \<open>A price written as a decimal numeral with eight places.\<close>

definition price_text :: "price \<Rightarrow> string" where
  "price_text p = dec_str (p div 100000000) @ CHR ''.'' # padded 8 (p mod 100000000)"

lemma takeWhile_all_digits: "list_all is_digit ds \<Longrightarrow> takeWhile is_digit ds = ds \<and> dropWhile is_digit ds = []"
  by (induction ds) auto

lemma price_text_chars:
  assumes "0 \<le> p" and "c \<in> set (price_text p)"
  shows "is_digit c \<or> c = CHR ''.''"
proof -
  have "0 \<le> p div 100000000" using assms(1) by simp
  from dec_str_digits [OF this] padded_digits [of 8 "p mod 100000000"] show ?thesis
    using assms(2) unfolding price_text_def list_all_iff by auto
qed

lemma lower_plain: "is_digit c \<or> c = CHR ''.'' \<Longrightarrow> lower c = c"
  by (auto simp: lower_def is_digit_def)

lemma price_text_not_special:
  assumes "0 \<le> p"
  shows "\<not> special_double (price_text p)"
proof -
  have same: "map lower (take n (price_text p)) = take n (price_text p)" for n
    by (rule map_idI) (use price_text_chars [OF assms] lower_plain in_set_takeD in metis)
  have no: "CHR ''x'' \<notin> set (price_text p)" "CHR ''i'' \<notin> set (price_text p)" "CHR ''a'' \<notin> set (price_text p)"
    using price_text_chars [OF assms, of "CHR ''x''"] price_text_chars [OF assms, of "CHR ''i''"]
      price_text_chars [OF assms, of "CHR ''a''"] by (auto simp: is_digit_def)
  have "take n (price_text p) = s \<Longrightarrow> set s \<subseteq> set (price_text p)" for n s
    using set_take_subset by fastforce
  then show ?thesis unfolding special_double_def same using no by fastforce
qed

lemma stod_fixed:
  assumes "list_all is_digit w" and "w \<noteq> []" and "list_all is_digit f" and "\<not> special_double (w @ CHR ''.'' # f)"
    and "x = rat_of_int (digits_val (w @ f)) * 10 powi - int (length f)"
    and "\<not> (x \<noteq> 0 \<and> x < 2 powi - 1022)" and "\<not> 2 ^ 1024 \<le> rnd x"
  shows "stod (w @ CHR ''.'' # f) = Inr (rnd x)"
proof -
  have "takeWhile is_digit (w @ CHR ''.'' # f) = w" "dropWhile is_digit (w @ CHR ''.'' # f) = CHR ''.'' # f"
    using takeWhile_digits [OF assms(1), of "CHR ''.'' # f"] by (simp_all add: is_digit_def)
  moreover have "takeWhile is_digit f = f" "dropWhile is_digit f = []"
    using takeWhile_all_digits [OF assms(3)] by blast+
  ultimately show ?thesis
    using assms(2,4-7) unfolding stod_def digits_start [OF assms(1,2)] by (auto simp only: split Let_def read_fraction.simps
      read_exponent.simps fst_conv snd_conv if_True if_False append_is_Nil_conv refl diff_0 simp_thms)
qed

lemma price_quotient:
  assumes "0 \<le> p" and "p \<le> 2 ^ 50" and "x = of_int p / (100000000 :: rat)"
  shows "\<not> (x \<noteq> 0 \<and> x < 2 powi - 1022)" and "\<not> 2 ^ 1024 \<le> rnd x"
proof -
  have "\<not> x < 2 powi - 1022" if "x \<noteq> 0"
  proof -
  from that have "1 \<le> p" using assms(1,3) by (cases "p = 0") auto
  then have "1 \<le> (of_int p :: rat)" by simp
  then have "(1 / 100000000 :: rat) \<le> x" by (simp add: assms(3) divide_right_mono)
  moreover have "(2 powi - 1022 :: rat) \<le> 1 / 100000000"
  proof -
    have "(2::rat) ^ 27 \<le> 2 ^ 1022" by (rule power_increasing) simp_all
    then have "(100000000::rat) \<le> 2 ^ 1022" by (rule order_trans [rotated]) simp
    then have "inverse (2 ^ 1022) \<le> inverse (100000000::rat)" by (rule le_imp_inverse_le) simp
    moreover have "(2 powi - 1022 :: rat) = inverse (2 ^ 1022)" by (simp only: power_int_minus power_int_numeral)
    ultimately show ?thesis by (simp only: inverse_eq_divide)
  qed
  ultimately show ?thesis by (metis not_le order_trans)
  qed
  then show "\<not> (x \<noteq> 0 \<and> x < 2 powi - 1022)" by blast
next
  have "(of_int p :: rat) \<le> 2 ^ 50" using assms(2) by (metis of_int_le_iff of_int_numeral of_int_power)
  then have x: "\<bar>x\<bar> \<le> 2 ^ 50" using assms(1,3) by simp
  then have "rnd x \<le> 2 ^ 50 / 2 ^ 53 + 2 ^ 50" using rnd_error_bound [OF x] by linarith
  also have "\<dots> \<le> (2::rat) ^ 51" by simp
  also have "\<dots> < 2 ^ 1024" by (rule power_strict_increasing) simp_all
  finally show "\<not> 2 ^ 1024 \<le> rnd x" by (simp only: not_le)
qed

lemma stod_price_text:
  assumes "0 \<le> p" and "p \<le> 2 ^ 50"
  shows "stod (price_text p) = Inr (to_double p)"
proof -
  define w f where "w = dec_str (p div 100000000)" and "f = padded 8 (p mod 100000000)"
  have t: "price_text p = w @ CHR ''.'' # f" by (simp add: price_text_def w_def f_def)
  have w: "list_all is_digit w" "w \<noteq> []" "list_all is_digit f"
    using assms(1) by (simp_all add: w_def f_def dec_str_digits padded_digits)
  have v: "digits_val (w @ f) = p" "length f = 8" using assms(1) by (simp_all add: w_def f_def digits_val_append digits_val_padded)
  have x: "of_int p / (100000000 :: rat) = rat_of_int (digits_val (w @ f)) * 10 powi - int (length f)"
    unfolding v by (simp add: power_int_minus)
  have "to_double p = rnd (of_int p / 100000000)"
    using assms by (simp add: to_double_def ddiv_def of_i64_exact PRICE_SCALE_def)
  then show ?thesis
    using stod_fixed [OF w price_text_not_special [OF assms(1), unfolded t] x price_quotient [OF assms refl]]
    unfolding t by simp
qed

lemma csv_price_text: "0 \<le> p \<Longrightarrow> p \<le> 2 ^ 50 \<Longrightarrow> csv_price (price_text p) = Inr p"
  using fp_double_roundtrip [of p PRICE_SCALE]
  by (simp add: csv_price_def strtod_def stod_price_text to_price_eq_fp to_double_eq_fp PRICE_SCALE_def)

lemma strtoll_int_str: "in_i64 i \<Longrightarrow> strtoll (int_str i) = i"
  using read_int_int_str [of "[]" i] by (simp add: strtoll_def in_srange_def)

lemma strtoul_nat_str: "n < 2 ^ 64 \<Longrightarrow> strtoul (nat_str n) = int n"
  using read_int_nat_str [of "[]" n] by (simp add: strtoul_def uwrap_id in_urange_def)

text \<open>At normal speed the time slept is the time between the ticks.\<close>

lemma tick_delay_real_time:
  assumes "mt_time prev \<le> mt_time cur" and "mt_time cur - mt_time prev \<le> 2 ^ 53"
  shows "tick_delay 1 prev cur = (mt_time cur - mt_time prev) div 1000"
proof -
  let ?d = "mt_time cur - mt_time prev"
  have i: "i64 ?d = ?d" using assms by (simp add: i64_small abs_less_iff)
  have q: "?d sdiv 1000 = ?d div 1000" "0 \<le> ?d div 1000" "?d div 1000 \<le> 2 ^ 53"
    using assms by (simp_all add: sdiv_nonneg_eq)
  have "to_i64 (ddiv (of_i64 (?d div 1000)) 1) = ?d div 1000"
    using q(2,3) by (simp add: ddiv_def of_i64_exact rnd_of_int to_i64_def)
  then show ?thesis using assms q unfolding tick_delay_def Let_def i q(1) by simp
qed

section \<open>Text files in the documented format\<close>

lemma trim_Nil [simp]: "trim [] = []"
  by (simp add: trim_def)

lemma trim_start: "\<not> is_blank c \<Longrightarrow> \<exists>t. trim (c # s) = c # t"
  by (auto simp: trim_def dropWhile_append intro: exI [of _ "rev (dropWhile is_blank (rev s))"])

definition level_columns :: "md_tick \<Rightarrow> nat \<Rightarrow> string list" where
  "level_columns t i =
     [price_text (tl_price (mt_bid_levels t ! i)), int_str (tl_qty (mt_bid_levels t ! i)),
      price_text (tl_price (mt_ask_levels t ! i)), int_str (tl_qty (mt_ask_levels t ! i))]"

definition csv_columns :: "md_tick \<Rightarrow> string list" where
  "csv_columns t =
     [int_str (mt_time t div 1000), mt_symbol t, nat_str (mt_venue t), price_text (mt_bid t), int_str (mt_bid_qty t),
      price_text (mt_ask t), int_str (mt_ask_qty t)] @ concat (map (level_columns t) [0..<mt_bid_depth t])"

definition price_in_range :: "price \<Rightarrow> bool" where
  "price_in_range p \<longleftrightarrow> 0 \<le> p \<and> p \<le> 2 ^ 50"

definition level_in_range :: "tick_level \<Rightarrow> bool" where
  "level_in_range l \<longleftrightarrow> price_in_range (tl_price l) \<and> in_i64 (tl_qty l)"

text \<open>The ticks that the format can express.\<close>

definition csv_tick :: "md_tick \<Rightarrow> bool" where
  "csv_tick t \<longleftrightarrow> mt_symbol t \<noteq> [] \<and> length (mt_symbol t) \<le> 16 \<and> mt_venue t < 2 ^ 16 \<and> 1000 dvd mt_time t \<and> in_i64 (mt_time t) \<and>
     price_in_range (mt_bid t) \<and> price_in_range (mt_ask t) \<and> in_i64 (mt_bid_qty t) \<and> in_i64 (mt_ask_qty t) \<and>
     mt_ask_depth t = mt_bid_depth t \<and> mt_bid_depth t \<le> MAX_DEPTH \<and>
     (\<exists>bids asks. length bids = mt_bid_depth t \<and> length asks = mt_bid_depth t \<and>
        list_all level_in_range bids \<and> list_all level_in_range asks \<and>
        mt_bid_levels t = bids @ replicate (MAX_DEPTH - mt_bid_depth t) no_level \<and>
        mt_ask_levels t = asks @ replicate (MAX_DEPTH - mt_bid_depth t) no_level)"

text \<open>A line with the columns of a tick, with any blanks around them.\<close>

definition csv_row :: "string \<Rightarrow> md_tick \<Rightarrow> bool" where
  "csv_row line t \<longleftrightarrow> (\<exists>fs. line = join_on (CHR '','') fs \<and> list_all (\<lambda>f. CHR '','' \<notin> set f) fs \<and> map trim fs = csv_columns t)"

lemma columns_nonempty: "csv_tick t \<Longrightarrow> f \<in> set (csv_columns t) \<Longrightarrow> f \<noteq> []"
proof -
  assume "csv_tick t" and f: "f \<in> set (csv_columns t)"
  then have "mt_symbol t \<noteq> []" by (simp add: csv_tick_def)
  then show "f \<noteq> []" using f
    by (auto simp: csv_columns_def level_columns_def price_text_def int_str_not_Nil [symmetric] nat_str_simps(1) [symmetric]
      simp del: int_str_not_Nil nat_str_simps(1))
qed

lemma row_fields:
  assumes "csv_tick t" and "csv_row line t"
  shows "csv_fields line = csv_columns t" and "line \<noteq> []" and "hd line \<noteq> CHR ''#''"
proof -
  obtain fs where fs: "line = join_on (CHR '','') fs" "list_all (\<lambda>f. CHR '','' \<notin> set f) fs" "map trim fs = csv_columns t"
    using assms(2) by (auto simp: csv_row_def)
  have ne: "f \<noteq> []" if "f \<in> set fs" for f
  proof
    assume "f = []"
    then have "[] \<in> set (map trim fs)" using that by force
    then show False using columns_nonempty [OF assms(1)] fs(3) by metis
  qed
  then have "split_on (CHR '','') line = fs" using split_join [of fs] fs(1,2) by (simp add: list_all_iff)
  then show "csv_fields line = csv_columns t" using fs(3) by (simp add: csv_fields_def)
  obtain f rest where f: "fs = f # rest" "trim f = int_str (mt_time t div 1000)"
    using fs(3) by (cases fs) (auto simp: csv_columns_def)
  obtain c f' where c: "f = c # f'" using ne f(1) by (cases f) auto
  have l: "line = c # drop 1 line" using fs(1) f(1) c by (cases rest) auto
  then show "line \<noteq> []" by auto
  show "hd line \<noteq> CHR ''#''"
  proof
    assume "hd line = CHR ''#''"
    then have "c = CHR ''#''" using l by (metis list.sel(1))
    then obtain t' where "trim f = CHR ''#'' # t'" using trim_start [of "CHR ''#''" f'] c by (auto simp: is_blank_def)
    then have "CHR ''#'' \<in> set (int_str (mt_time t div 1000))" using f(2) by simp
    then show False using int_str_chars [of "CHR ''#''"] by (auto simp: is_digit_def)
  qed
qed

lemma length_level_columns: "length (concat (map (level_columns t) [0..<n])) = 4 * n"
  by (induction n) (simp_all add: level_columns_def)

lemma nth_level_columns: "i < n \<Longrightarrow> k < 4 \<Longrightarrow> concat (map (level_columns t) [0..<n]) ! (4 * i + k) = level_columns t i ! k"
proof (induction n)
  case (Suc n)
  then show ?case
    by (cases "i < n") (simp_all add: nth_append length_level_columns less_Suc_eq)
qed simp

lemma csv_column:
  assumes "i < mt_bid_depth t" and "k < 4"
  shows "csv_columns t ! (7 + i * 4 + k) = level_columns t i ! k"
  using nth_level_columns [OF assms, of t] by (simp add: csv_columns_def add.commute mult.commute)

lemma update_next:
  assumes "i < length xs" and "length ys = length xs"
  shows "(take i xs @ drop i ys)[i := xs ! i] = take (Suc i) xs @ drop (Suc i) ys"
  using assms by (simp add: list_update_append take_Suc_conv_app_nth flip: Cons_nth_drop_Suc)

lemma level_eta: "\<lparr>tl_price = tl_price l, tl_qty = tl_qty l\<rparr> = l"
  by (cases l) simp

lemma csv_levels_columns:
  assumes t: "csv_tick t" and base: "mt_bid_levels b = replicate MAX_DEPTH no_level" "mt_ask_levels b = replicate MAX_DEPTH no_level"
  shows "n \<le> mt_bid_depth t \<Longrightarrow> csv_levels (csv_columns t) n b =
    Inr (b\<lparr>mt_bid_levels := take n (mt_bid_levels t) @ drop n (replicate MAX_DEPTH no_level),
           mt_ask_levels := take n (mt_ask_levels t) @ drop n (replicate MAX_DEPTH no_level)\<rparr>)"
proof (induction n)
  case 0
  then show ?case using base by (cases b) simp
next
  case (Suc n)
  then have n: "n < mt_bid_depth t" "n < MAX_DEPTH" using t by (auto simp: csv_tick_def)
  have len: "length (mt_bid_levels t) = MAX_DEPTH" "length (mt_ask_levels t) = MAX_DEPTH"
    using t by (auto simp: csv_tick_def)
  have lv: "level_in_range (mt_bid_levels t ! n)" "level_in_range (mt_ask_levels t ! n)"
    using t n(1) by (auto simp: csv_tick_def nth_append list_all_length)
  note col = csv_column [OF n(1), of 0] csv_column [OF n(1), of 1] csv_column [OF n(1), of 2] csv_column [OF n(1), of 3]
  have upd: "(take n xs @ replicate (MAX_DEPTH - n) no_level)[n := xs ! n] = take (Suc n) xs @ replicate (MAX_DEPTH - Suc n) no_level"
    if "length xs = MAX_DEPTH" for xs
    using update_next [of n xs "replicate MAX_DEPTH no_level"] that n(2) by simp
  have "csv_level (csv_columns t) n (b\<lparr>mt_bid_levels := bs, mt_ask_levels := as\<rparr>) =
      Inr (b\<lparr>mt_bid_levels := bs[n := mt_bid_levels t ! n], mt_ask_levels := as[n := mt_ask_levels t ! n]\<rparr>)" for bs as
    using col lv
    by (simp add: csv_level_def level_columns_def Let_def csv_price_text strtoll_int_str level_in_range_def price_in_range_def level_eta)
  then show ?case using Suc n by (simp add: upd len)
qed

lemma tick_levels:
  assumes "csv_tick t"
  shows "take (mt_bid_depth t) (mt_bid_levels t) @ drop (mt_bid_depth t) (replicate MAX_DEPTH no_level) = mt_bid_levels t"
    and "take (mt_bid_depth t) (mt_ask_levels t) @ drop (mt_bid_depth t) (replicate MAX_DEPTH no_level) = mt_ask_levels t"
  using assms by (auto simp: csv_tick_def)

lemma csv_line_row:
  assumes t: "csv_tick t" and row: "csv_row line t"
  shows "csv_line line = Inr (Some t)"
proof -
  let ?c = "csv_columns t"
  note f = row_fields [OF t row]
  have len: "length ?c = 7 + 4 * mt_bid_depth t" by (simp add: csv_columns_def length_level_columns)
  have n: "min ((length ?c - 7) div 4) MAX_DEPTH = mt_bid_depth t" using t by (simp add: len csv_tick_def)
  have cols: "?c ! 0 = int_str (mt_time t div 1000)" "?c ! 1 = mt_symbol t" "?c ! 2 = nat_str (mt_venue t)"
    "?c ! 3 = price_text (mt_bid t)" "?c ! 4 = int_str (mt_bid_qty t)" "?c ! 5 = price_text (mt_ask t)" "?c ! 6 = int_str (mt_ask_qty t)"
    by (simp_all add: csv_columns_def numeral_eq_Suc)
  have time: "i64 (strtoll (int_str (mt_time t div 1000)) * 1000) = mt_time t"
  proof -
    have "in_i64 (mt_time t div 1000)" using t by (auto simp: csv_tick_def in_srange_def elim!: dvdE)
    then show ?thesis using t by (simp add: strtoll_int_str csv_tick_def swrap_id)
  qed
  have venue: "nat (uwrap 16 (strtoul (nat_str (mt_venue t)))) = mt_venue t"
    using t by (simp add: csv_tick_def strtoul_nat_str uwrap_id in_urange_def)
  have symb: "fs_view (fs_assign 16 (mt_symbol t) (fs_init 16)) = mt_symbol t"
    using t by (simp add: csv_tick_def fs_view_assign fs_init_wf)
  have prices: "csv_price (price_text (mt_bid t)) = Inr (mt_bid t)" "csv_price (price_text (mt_ask t)) = Inr (mt_ask t)"
    "strtoll (int_str (mt_bid_qty t)) = mt_bid_qty t" "strtoll (int_str (mt_ask_qty t)) = mt_ask_qty t"
    using t by (simp_all add: csv_tick_def price_in_range_def csv_price_text strtoll_int_str)
  define b where "b = empty_tick\<lparr>mt_symbol := mt_symbol t, mt_venue := mt_venue t, mt_time := mt_time t,
      mt_bid := mt_bid t, mt_bid_qty := mt_bid_qty t, mt_ask := mt_ask t, mt_ask_qty := mt_ask_qty t\<rparr>"
  have "csv_levels ?c (mt_bid_depth t) b = Inr (b\<lparr>mt_bid_levels := mt_bid_levels t, mt_ask_levels := mt_ask_levels t\<rparr>)"
    using csv_levels_columns [OF t, of b "mt_bid_depth t"] tick_levels [OF t] by (simp add: b_def empty_tick_def)
  moreover have "b\<lparr>mt_bid_levels := mt_bid_levels t, mt_ask_levels := mt_ask_levels t, mt_bid_depth := mt_bid_depth t,
      mt_ask_depth := mt_bid_depth t\<rparr> = t"
    using t by (cases t) (simp add: b_def empty_tick_def csv_tick_def)
  ultimately show ?thesis
    using f len unfolding csv_line_def f(1) Let_def n by (simp add: cols time venue symb prices del: One_nat_def flip: b_def)
qed

lemma csv_lines_rows:
  assumes "list_all2 csv_row (filter (\<lambda>l. l \<noteq> [] \<and> hd l \<noteq> CHR ''#'') ls) ts" and "list_all csv_tick ts"
  shows "csv_lines ls = Inr ts"
  using assms
proof (induction ls arbitrary: ts)
  case (Cons l ls)
  show ?case
  proof (cases "l = [] \<or> hd l = CHR ''#''")
    case True
    then have "csv_line l = Inr None" by (simp add: csv_line_def)
    then show ?thesis using Cons True by auto
  next
    case False
    then obtain t us where t: "ts = t # us" "csv_row l t" "list_all2 csv_row (filter (\<lambda>l. l \<noteq> [] \<and> hd l \<noteq> CHR ''#'') ls) us"
      using Cons.prems(1) by (auto simp: list_all2_Cons1)
    then show ?thesis using Cons.IH [OF t(3)] Cons.prems(2) csv_line_row [OF _ t(2)] by simp
  qed
qed simp

lemma split_lines: "list_all (\<lambda>l. d \<notin> set l) ls \<Longrightarrow> split_on d (concat (map (\<lambda>l. l @ [d]) ls)) = ls"
proof (induction ls)
  case (Cons l ls)
  then show ?case by (cases "l = []") (simp_all add: split_on_cons del: split_on.simps(2), simp)
qed simp

section \<open>Binary files hold the ticks\<close>

lemma ticks_of_images:
  assumes "list_all (\<lambda>t. length (enc t) = sz \<and> dec (enc t) = t) ts"
  shows "ticks_of sz dec (length ts) (concat (map enc ts) @ rest) = ts"
  using assms by (induction ts) auto

lemma length_images:
  assumes "list_all (\<lambda>t. length (enc t) = sz) ts"
  shows "length (concat (map enc ts)) = length ts * sz"
  using assms by (induction ts) auto

lemma length_ticks_of [simp]: "length (ticks_of sz dec n bs) = n"
  by (induction n arbitrary: bs) auto

lemma ticks_of_prefix:
  assumes "list_all (\<lambda>t. length (enc t) = sz \<and> dec (enc t) = t) ts" and "length ts \<le> n"
  shows "take (length ts) (ticks_of sz dec n (concat (map enc ts) @ rest)) = ts"
  using assms
proof (induction ts arbitrary: n)
  case (Cons t ts)
  then show ?case by (cases n) auto
qed simp

section \<open>Generated ticks\<close>

lemma synthetic_tick_size_eq: "synthetic_tick_size = 1000000"
  using fp_double_roundtrip [of 1000000 PRICE_SCALE]
  by (simp add: synthetic_tick_size_def to_price_eq_fp fp_to_double_def ddiv_def of_i64_exact PRICE_SCALE_def)

definition synthetic_ok :: "symbol \<Rightarrow> venue_id \<Rightarrow> timestamp \<Rightarrow> md_tick \<Rightarrow> bool" where
  "synthetic_ok symb venue ts t \<longleftrightarrow> mt_symbol t = symb \<and> mt_venue t = venue \<and> mt_time t = ts \<and>
     0 < mt_bid t \<and> mt_bid t < mt_ask t \<and> 1000000 \<le> mt_ask t - mt_bid t \<and> mt_ask t - mt_bid t \<le> 4000000 \<and>
     50 \<le> mt_bid_qty t \<and> mt_bid_qty t < 250 \<and> 50 \<le> mt_ask_qty t \<and> mt_ask_qty t < 250"

lemma synthetic_tick_ok:
  assumes "- (2 ^ 62) \<le> mid" and "mid \<le> 2 ^ 62" and "synthetic_tick symb venue interval (rng, mid, ts) = (t, rng', mid', ts')"
  shows "synthetic_ok symb venue ts t" and "0 < mid'" and "mid' \<le> max mid 0 + 1000000" and "ts' = i64 (ts + interval * 1000)"
proof -
  let ?r1 = "uint (xorshift rng) mod 3" and ?r2 = "uint (xorshift (xorshift rng)) mod 2"
  have r: "0 \<le> ?r1" "?r1 \<le> 2" "0 \<le> ?r2" "?r2 \<le> 1"
    using pos_mod_bound [of 3 "uint (xorshift rng)"] pos_mod_bound [of 2 "uint (xorshift (xorshift rng))"] by simp_all
  define m where "m = mid + (?r1 - 1) * 1000000"
  have "i64 (?r1 - 1) = ?r1 - 1" "i64 ((?r1 - 1) * 1000000) = (?r1 - 1) * 1000000" using r by (simp_all add: i64_small abs_le_iff abs_less_iff)
  moreover have "i64 m = m" using r assms(1,2) by (simp add: i64_small m_def abs_less_iff)
  ultimately have m: "i64 (mid + i64 (i64 (?r1 - 1) * 1000000)) = m" by (simp add: m_def)
  define m1 where "m1 = (if m < 1000000 then 1000000 else m)"
  have m1: "1000000 \<le> m1" "m1 \<le> 2 ^ 62 + 1000000" "m1 \<le> max mid 0 + 1000000" using r assms(2) by (auto simp: m1_def m_def)
  define h where "h = (1 + ?r2) * 1000000"
  have h: "i64 h = h" "1000000 \<le> h" "h \<le> 2000000" using r by (simp_all add: h_def i64_small abs_less_iff)
  have ba: "i64 (m1 - h) = m1 - h" "i64 (m1 + h) = m1 + h" using m1 h by (simp_all add: i64_small abs_less_iff)
  have q: "50 \<le> 50 + x mod 200 \<and> 50 + x mod 200 < (250::int)" for x using pos_mod_bound [of 200 x] by simp
  have "t = (let t0 = empty_tick\<lparr>mt_symbol := symb, mt_venue := venue, mt_time := ts, mt_bid := m1 - h, mt_ask := m1 + h,
           mt_bid_qty := 50 + uint (xorshift (xorshift (xorshift rng))) mod 200,
           mt_ask_qty := 50 + uint (xorshift (xorshift (xorshift (xorshift rng)))) mod 200\<rparr>
         in if m1 - h \<le> 0 then t0\<lparr>mt_bid := 1000000\<rparr> else t0) \<and> mid' = m1 \<and> ts' = i64 (ts + interval * 1000)"
    using assms(3) unfolding synthetic_tick_def Let_def split synthetic_tick_size_eq m m1_def [symmetric] h_def [symmetric] h(1) ba
    by (auto split: if_splits)
  then show "synthetic_ok symb venue ts t" "0 < mid'" "mid' \<le> max mid 0 + 1000000" "ts' = i64 (ts + interval * 1000)"
    using m1 h q by (auto simp: synthetic_ok_def Let_def)
qed

lemma synthetic_ticks_ok:
  assumes "0 \<le> interval" and "interval \<le> 2 ^ 30"
  shows "- (2 ^ 62) \<le> mid \<Longrightarrow> max mid 0 + int n * 1000000 \<le> 2 ^ 62 \<Longrightarrow> 0 \<le> ts \<Longrightarrow> ts + int n * (interval * 1000) < 2 ^ 63 \<Longrightarrow>
    list_all2 (synthetic_ok symb venue) (map (\<lambda>k. ts + int k * (interval * 1000)) [0..<n]) (synthetic_ticks symb venue interval n (rng, mid, ts))"
proof (induction n arbitrary: rng mid ts)
  case (Suc n)
  obtain t rng' mid' ts' where s: "synthetic_tick symb venue interval (rng, mid, ts) = (t, rng', mid', ts')"
    by (metis prod_cases4)
  have mid: "mid \<le> 2 ^ 62" using Suc.prems(2) by simp
  note ok = synthetic_tick_ok [OF Suc.prems(1) mid s]
  have nn: "0 \<le> int n * (interval * 1000)" using assms(1) by simp
  have ts: "int (Suc n) * (interval * 1000) = interval * 1000 + int n * (interval * 1000)" by (simp add: algebra_simps)
  have "ts + interval * 1000 < 2 ^ 63" using Suc.prems(4) nn ts by linarith
  then have "ts' = ts + interval * 1000"
    unfolding ok(4) by (intro i64_small) (use Suc.prems(3) assms(1) in \<open>simp add: abs_less_iff\<close>)
  then have rest: "list_all2 (synthetic_ok symb venue) (map (\<lambda>k. (ts + interval * 1000) + int k * (interval * 1000)) [0..<n])
      (synthetic_ticks symb venue interval n (rng', mid', ts'))"
    using Suc.IH [of mid' ts' rng'] Suc.prems ok(2,3) assms(1) ts by simp
  have "map (\<lambda>k. ts + int k * (interval * 1000)) [0..<Suc n] =
      ts # map (\<lambda>k. (ts + interval * 1000) + int k * (interval * 1000)) [0..<n]"
    unfolding upt_conv_Cons [OF zero_less_Suc] map_Suc_upt [symmetric] by (simp add: algebra_simps comp_def)
  then show ?case using rest ok(1) s by simp
qed simp

section \<open>Runs of the replay\<close>

definition ticks_in :: "replay_event list \<Rightarrow> md_tick list" where
  "ticks_in evs = concat (map (\<lambda>ev. case ev of RE_Tick t \<Rightarrow> [t] | RE_Sleep us \<Rightarrow> []) evs)"

lemma ticks_in_simps [simp]:
  "ticks_in [] = []" "ticks_in (RE_Tick t # evs) = t # ticks_in evs" "ticks_in (RE_Sleep us # evs) = ticks_in evs"
  "ticks_in (evs @ evs') = ticks_in evs @ ticks_in evs'"
  by (simp_all add: ticks_in_def)

lemma ticks_in_sleep [simp]: "ticks_in (sleep_before speed ticks pos) = []"
  by (simp add: sleep_before_def Let_def)

definition replay_inv :: "replay_engine \<Rightarrow> bool" where
  "replay_inv e \<longleftrightarrow> re_pos e \<le> length (re_ticks e) \<and>
     (re_status e \<in> {RL_Pause, RL_Check, RL_Emit} \<longrightarrow> re_pos e < length (re_ticks e))"

lemmas replay_ops = replay_start_def replay_loop_def replay_exit_def replay_emit_def replay_stop_def replay_pause_def
  replay_resume_def replay_reset_def replay_single_step_def add_tick_def set_speed_multiplier_def

lemma replay_step_inv:
  assumes "replay_inv e" and "replay_ok c e" and "replay_cmd_step c e = (o', e')"
  shows "replay_inv e'"
proof (cases c)
  case RC_Loop
  then show ?thesis using assms by (cases "re_status e") (auto simp: replay_inv_def replay_ops split: if_splits)
qed (use assms in \<open>auto simp: replay_inv_def replay_ops split: if_splits\<close>)

interpretation replay: transition_system replay_step "([], replay_new)" "\<lambda>(evs, e). replay_inv e" replay_legal
proof
  show "case ([], replay_new) of (evs, e) \<Rightarrow> replay_inv e" by (simp add: replay_inv_def replay_new_def)
next
  fix s c
  assume "case s of (evs, e) \<Rightarrow> replay_inv e" and "replay_legal c s"
  then show "case replay_step c s of (evs, e) \<Rightarrow> replay_inv e"
    using replay_step_inv by (cases s) (auto split: prod.splits)
qed

text \<open>What a step delivers: the ticks between the two positions.\<close>

definition advances :: "replay_engine \<Rightarrow> md_tick list \<Rightarrow> replay_engine \<Rightarrow> bool" where
  "advances e out e' \<longleftrightarrow> out = drop (re_pos e) (take (re_pos e') (re_ticks e')) \<and> re_pos e \<le> re_pos e' \<and>
     re_pos e' \<le> length (re_ticks e') \<and> re_pos e \<le> length (re_ticks e) \<and> (\<exists>new. re_ticks e' = re_ticks e @ new)"

lemma advances_refl: "replay_inv e \<Longrightarrow> advances e [] e"
  by (simp add: advances_def replay_inv_def)

lemma drop_take_join:
  assumes "a \<le> b" and "b \<le> c" and "b \<le> length xs"
  shows "drop a (take b xs) @ drop b (take c xs) = drop a (take c xs)"
proof -
  have "take c xs = take b xs @ drop b (take c xs)"
    using append_take_drop_id [of b "take c xs"] assms(2) by (simp add: min_absorb1)
  then have "drop a (take c xs) = drop a (take b xs @ drop b (take c xs))" by simp
  then show ?thesis using assms by simp
qed

lemma advances_trans:
  assumes "advances e1 o1 e2" and "advances e2 o2 e3"
  shows "advances e1 (o1 @ o2) e3"
proof -
  obtain n1 n2 where n: "re_ticks e2 = re_ticks e1 @ n1" "re_ticks e3 = re_ticks e2 @ n2" using assms by (auto simp: advances_def)
  have p: "re_pos e1 \<le> re_pos e2" "re_pos e2 \<le> re_pos e3" "re_pos e2 \<le> length (re_ticks e2)" using assms by (simp_all add: advances_def)
  have "o1 = drop (re_pos e1) (take (re_pos e2) (re_ticks e3))" using assms(1) n(2) p(3) by (simp add: advances_def)
  moreover have "o2 = drop (re_pos e2) (take (re_pos e3) (re_ticks e3))" using assms(2) by (simp add: advances_def)
  moreover have "re_pos e2 \<le> length (re_ticks e3)" using n(2) p(3) by simp
  ultimately have "o1 @ o2 = drop (re_pos e1) (take (re_pos e3) (re_ticks e3))" using drop_take_join [OF p(1,2)] by simp
  then show ?thesis using assms p n unfolding advances_def by (metis append.assoc le_trans)
qed

lemma replay_step_advances:
  assumes inv: "replay_inv e" and ok: "replay_ok c e" and s: "replay_cmd_step c e = (o', e')"
    and cb: "re_callback e" and c: "c \<noteq> RC_Reset" "c \<noteq> RC_Start False"
  shows "advances e (ticks_in o') e' \<and> re_callback e'"
proof -
  have one: "drop n (take (Suc n) xs) = [xs ! n]" if "n < length xs" for n and xs :: "md_tick list"
    using that by (simp add: take_Suc_conv_app_nth)
  show ?thesis
  proof (cases c)
    case (RC_Start b)
    then show ?thesis using assms by (cases b) (auto simp: advances_def replay_inv_def replay_ops)
  next
    case RC_Loop
    then show ?thesis using assms one
      by (cases "re_status e") (auto simp: advances_def replay_inv_def replay_ops split: if_splits)
  next
    case RC_Step
    then show ?thesis using assms one by (auto simp: advances_def replay_inv_def replay_ops split: if_splits)
  qed (use assms in \<open>auto simp: advances_def replay_inv_def replay_ops\<close>)
qed

lemma replay_run_advances:
  assumes "replay_inv e" and "re_callback e" and "legal replay_legal replay_step cs (evs, e)"
    and "RC_Reset \<notin> set cs" and "RC_Start False \<notin> set cs" and "run replay_step cs (evs, e) = (evs', e')"
  shows "\<exists>new. evs' = evs @ new \<and> advances e (ticks_in new) e' \<and> replay_inv e' \<and> re_callback e'"
  using assms
proof (induction cs arbitrary: evs e)
  case Nil
  then show ?case using advances_refl by simp
next
  case (Cons c cs)
  obtain o1 e1 where s: "replay_cmd_step c e = (o1, e1)" by fastforce
  have ok: "replay_ok c e" using Cons.prems(3) by simp
  have c: "c \<noteq> RC_Reset" "c \<noteq> RC_Start False" using Cons.prems(4,5) by auto
  have a: "advances e (ticks_in o1) e1" "re_callback e1"
    using replay_step_advances [OF Cons.prems(1) ok s Cons.prems(2) c] by auto
  obtain new where "evs' = (evs @ o1) @ new" "advances e1 (ticks_in new) e'" "replay_inv e'" "re_callback e'"
    using Cons.IH [OF replay_step_inv [OF Cons.prems(1) ok s] a(2), of "evs @ o1"] Cons.prems s by auto
  then show ?case using advances_trans [OF a(1)] by (intro exI [of _ "o1 @ new"]) simp
qed

text \<open>An upper bound of the steps that the loop needs to end, when it is not paused.\<close>

fun replay_rank :: "replay_engine \<Rightarrow> nat" where
  "replay_rank e = 4 * (length (re_ticks e) - re_pos e) + 1 -
     (case re_status e of RL_Idle \<Rightarrow> 0 | RL_Test \<Rightarrow> 0 | RL_Pause \<Rightarrow> 1 | RL_Check \<Rightarrow> 2 | RL_Emit \<Rightarrow> 3)"

text \<open>A loop that has not been stopped is at work or has delivered everything.\<close>

definition unstopped :: "replay_engine \<Rightarrow> bool" where
  "unstopped e \<longleftrightarrow> replay_inv e \<and> (if re_status e = RL_Idle then re_pos e = length (re_ticks e) else re_running e)"

lemma unstopped_step:
  assumes "unstopped e" and "c \<in> {RC_Loop, RC_Pause, RC_Resume}" and "replay_cmd_step c e = (o', e')"
  shows "unstopped e'" and "re_ticks e' = re_ticks e"
proof -
  have "unstopped e' \<and> re_ticks e' = re_ticks e"
    using assms by (cases "re_status e") (auto simp: unstopped_def replay_inv_def replay_ops split: if_splits)
  then show "unstopped e'" "re_ticks e' = re_ticks e" by simp_all
qed

lemma unstopped_run:
  "unstopped e \<Longrightarrow> set cs \<subseteq> {RC_Loop, RC_Pause, RC_Resume} \<Longrightarrow> run replay_step cs (evs, e) = (evs', e') \<Longrightarrow>
   unstopped e' \<and> re_ticks e' = re_ticks e"
proof (induction cs arbitrary: evs e)
  case (Cons c cs)
  obtain o1 e1 where s: "replay_cmd_step c e = (o1, e1)" by fastforce
  then show ?case using Cons.IH [of e1 "evs @ o1"] unstopped_step [OF Cons.prems(1) _ s] Cons.prems(2,3) by auto
qed simp

lemma loop_decreases:
  assumes "unstopped e" and "\<not> re_paused e" and "replay_loop e = (o', e')" and "re_status e \<noteq> RL_Idle"
  shows "replay_rank e' < replay_rank e \<or> re_status e' = RL_Idle" and "\<not> re_paused e'"
proof -
  have "(replay_rank e' < replay_rank e \<or> re_status e' = RL_Idle) \<and> \<not> re_paused e'"
    using assms by (cases "re_status e") (auto simp: unstopped_def replay_inv_def replay_ops split: if_splits)
  then show "replay_rank e' < replay_rank e \<or> re_status e' = RL_Idle" "\<not> re_paused e'" by simp_all
qed

lemma loop_finishes:
  "unstopped e \<Longrightarrow> \<not> re_paused e \<Longrightarrow> re_status e = RL_Idle \<or> replay_rank e \<le> n \<Longrightarrow>
   run replay_step (replicate n RC_Loop) (evs, e) = (evs', e') \<Longrightarrow> re_status e' = RL_Idle"
proof (induction n arbitrary: evs e)
  case 0
  have "0 < replay_rank e" if "re_status e \<noteq> RL_Idle"
    using 0(1) that by (cases "re_status e") (auto simp: unstopped_def replay_inv_def)
  then show ?case using 0 by (cases "re_status e = RL_Idle") (auto simp del: replay_rank.simps)
next
  case (Suc n)
  obtain o1 e1 where s: "replay_loop e = (o1, e1)" by fastforce
  have u: "unstopped e1" using unstopped_step(1) [OF Suc.prems(1), of RC_Loop o1 e1] s by simp
  have r: "run replay_step (replicate n RC_Loop) (evs @ o1, e1) = (evs', e')" using Suc.prems(4) s by simp
  show ?case
  proof (cases "re_status e = RL_Idle")
    case True
    then have "e1 = e" using s by (simp add: replay_loop_def)
    then show ?thesis using Suc.IH [OF u _ _ r] Suc.prems(2) True by simp
  next
    case False
    then show ?thesis
      using Suc.IH [OF u loop_decreases(2) [OF Suc.prems(1,2) s False] _ r] loop_decreases(1) [OF Suc.prems(1,2) s False] Suc.prems(3)
      by linarith
  qed
qed

text \<open>After a stop a tick can be delivered only if the loop was about to.\<close>

lemma stopped_step:
  assumes "\<not> re_running e" and "c \<in> {RC_Loop, RC_Stop, RC_Pause, RC_Resume}" and "replay_cmd_step c e = (o', e')"
  shows "\<not> re_running e' \<and>
    length (ticks_in o') + (if re_status e' = RL_Emit then 1 else 0) \<le> (if re_status e = RL_Emit then 1 else 0)"
  using assms by (cases "re_status e") (auto simp: replay_ops split: if_splits)

lemma stopped_run:
  "\<not> re_running e \<Longrightarrow> set cs \<subseteq> {RC_Loop, RC_Stop, RC_Pause, RC_Resume} \<Longrightarrow> run replay_step cs (evs, e) = (evs', e') \<Longrightarrow>
   length (ticks_in evs') \<le> length (ticks_in evs) + (if re_status e = RL_Emit then 1 else 0)"
proof (induction cs arbitrary: evs e)
  case (Cons c cs)
  obtain o1 e1 where s: "replay_cmd_step c e = (o1, e1)" by fastforce
  have c: "c \<in> {RC_Loop, RC_Stop, RC_Pause, RC_Resume}" using Cons.prems(2) by simp
  note st = stopped_step [OF Cons.prems(1) c s]
  have "run replay_step cs (evs @ o1, e1) = (evs', e')" using Cons.prems(3) s by simp
  then show ?case using Cons.IH [OF conjunct1 [OF st] _ \<open>run replay_step cs (evs @ o1, e1) = (evs', e')\<close>] Cons.prems(2) st
    by simp
qed simp

section \<open>Images for the examples\<close>

text \<open>A little-endian host, and ticks of which only the venue differs, one byte each.\<close>

fun little_endian :: "nat \<Rightarrow> nat \<Rightarrow> char list" where
  "little_endian 0 n = []"
| "little_endian (Suc k) n = char_of (n mod 256) # little_endian k (n div 256)"

fun from_little_endian :: "char list \<Rightarrow> nat" where
  "from_little_endian [] = 0"
| "from_little_endian (c # cs) = of_char c + 256 * from_little_endian cs"

lemma little_endian_image: "int_image (little_endian 8) from_little_endian"
proof -
  have "length (little_endian k n) = k \<and> from_little_endian (little_endian k n) = n mod 256 ^ k" for k n
    by (induction k arbitrary: n) (simp_all add: mod_mult2_eq)
  then show ?thesis by (simp add: int_image_def)
qed

definition venue_tick :: "nat \<Rightarrow> md_tick" where "venue_tick v = empty_tick\<lparr>mt_venue := v\<rparr>"

lemma venue_tick_venue [simp]: "mt_venue (venue_tick v) = v"
  by (simp add: venue_tick_def)

section \<open>Properties\<close>

text \<open>
  C20: A text file in the documented format is loaded exactly. If the lines of a file, after a header if there is one and
  leaving out empty lines and comments, hold the columns of some ticks, with blanks around them, prices as decimal
  numerals with eight places and up to 20 levels of depth, then \<open>load_from_csv\<close> appends precisely these ticks, and the
  prices are the same integers again after the conversion to \<open>double\<close> and back.
\<close>

theorem csv_load_exact:
  assumes "all_lines \<noteq> []" and "list_all (\<lambda>l. CHR 0x0A \<notin> set l) all_lines"
    and "ls = (if has_header (hd all_lines) then tl all_lines else all_lines)"
    and "list_all2 csv_row (filter (\<lambda>l. l \<noteq> [] \<and> hd l \<noteq> CHR ''#'') ls) ts" and "list_all csv_tick ts"
  shows "load_from_csv (Some (concat (map (\<lambda>l. l @ [CHR 0x0A]) all_lines))) e =
    Inr (re_ticks e @ ts \<noteq> [], e\<lparr>re_ticks := re_ticks e @ ts\<rparr>)"
proof -
  obtain l rest where l: "all_lines = l # rest" using assms(1) by (cases all_lines) auto
  have "csv_lines ls = Inr ts" using assms(4,5) by (rule csv_lines_rows)
  then show ?thesis
    using split_lines [OF assms(2)] assms(3) unfolding load_from_csv_def l by (auto simp: Let_def split: if_splits)
qed

definition csv_example :: md_tick where
  "csv_example = empty_tick\<lparr>mt_symbol := ''AAPL'', mt_venue := 3, mt_time := 5000, mt_bid := 15025000000, mt_bid_qty := 10,
     mt_ask := 15026000001, mt_ask_qty := 20\<rparr>"

theorem csv_load_exact_witness:
  "\<exists>content e. load_from_csv (Some content) replay_new = Inr (True, e) \<and> re_ticks e = [csv_example]"
proof -
  let ?fs = "['' 5'', ''AAPL'', ''3 '', ''150.25000000'', ''10'', ''150.26000001'', '' 20'']"
  have t: "csv_tick csv_example"
    by (simp add: csv_tick_def csv_example_def price_in_range_def empty_tick_def in_srange_def)
  have "map trim ?fs = csv_columns csv_example" by code_simp
  then have "csv_row (join_on (CHR '','') ?fs) csv_example" unfolding csv_row_def by (intro exI [of _ ?fs]) simp
  moreover have "has_header ''time''" "list_all (\<lambda>l. CHR 0x0A \<notin> set l) [''time'', ''# one'', join_on (CHR '','') ?fs]" by code_simp+
  ultimately have "load_from_csv (Some (concat (map (\<lambda>l. l @ [CHR 0x0A]) [''time'', ''# one'', join_on (CHR '','') ?fs]))) replay_new =
      Inr (True, replay_new\<lparr>re_ticks := re_ticks replay_new @ [csv_example]\<rparr>)"
    using csv_load_exact [OF _ _ refl, where all_lines = "[''time'', ''# one'', join_on (CHR '','') ?fs]" and ts = "[csv_example]" and e = replay_new] t
    by simp
  then show ?thesis by (intro exI conjI) (assumption, simp add: replay_new_def)
qed

text \<open>
  A binary file gives back the ticks that were saved, whatever the engine held before; a file that has been cut off is
  refused, but only after the ticks of the engine have been replaced by those that the file still has and by others. An
  engine without ticks saves a file that cannot be loaded.
\<close>

theorem binary_files_exact:
  assumes "int_image put get" and "list_all (\<lambda>t. length (enc t) = sz \<and> dec (enc t) = t) (re_ticks e)"
    and "list_all (\<lambda>t. length (enc t) = sz) (empty_tick # re_ticks e')" and "length (re_ticks e) \<le> 100000000" and "0 < sz"
    and "save_to_binary enc put True e = (ok, Some bytes)"
  shows "ok \<and> load_from_binary sz enc dec get (Some bytes) e' =
      (if re_ticks e = [] then (False, e') else (True, e'\<lparr>re_ticks := re_ticks e\<rparr>)) \<and>
    (re_ticks e \<noteq> [] \<and> 8 \<le> k \<and> k < length bytes \<longrightarrow>
       (\<exists>ts. load_from_binary sz enc dec get (Some (take k bytes)) e' = (False, e'\<lparr>re_ticks := ts\<rparr>) \<and>
          length ts = length (re_ticks e) \<and> take ((k - 8) div sz) ts = take ((k - 8) div sz) (re_ticks e)))"
proof -
  let ?ts = "re_ticks e" and ?img = "\<lambda>ts. concat (map enc ts)"
  let ?old = "take (length ?ts) (re_ticks e') @ replicate (length ?ts - length (re_ticks e')) empty_tick"
  have small: "length ?ts < 2 ^ 64" using assms(4) by simp
  have put: "length (put (length ?ts)) = 8" "get (put (length ?ts)) = length ?ts"
    using assms(1) small by (auto simp: int_image_def)
  have b: "ok" "bytes = put (length ?ts) @ ?img ?ts" using assms(6) by (auto simp: save_to_binary_def)
  have len: "length (?img ?ts) = length ?ts * sz" using assms(2) by (intro length_images) (auto simp: list_all_iff)
  have old: "length (?img ?old) = length ?ts * sz"
  proof -
    have "list_all (\<lambda>t. length (enc t) = sz) ?old" using assms(3) unfolding list_all_iff by (metis Un_iff in_set_replicate
      in_set_takeD list.set_intros(1,2) set_append)
    moreover have "length ?old = length ?ts" by simp
    ultimately show ?thesis using length_images by metis
  qed
  have load: "load_from_binary sz enc dec get (Some (put (length ?ts) @ got)) e' =
      (length got = length ?ts * sz, e'\<lparr>re_ticks := ticks_of sz dec (length ?ts) (got @ drop (length got) (?img ?old))\<rparr>)"
    if "?ts \<noteq> []" "length got \<le> length ?ts * sz" for got
    using that put assms(4) by (simp add: load_from_binary_def Let_def)
  have whole: "load_from_binary sz enc dec get (Some bytes) e' = (if ?ts = [] then (False, e') else (True, e'\<lparr>re_ticks := ?ts\<rparr>))"
  proof (cases "?ts = []")
    case True
    then show ?thesis using put by (simp add: b(2) load_from_binary_def)
  next
    case False
    then show ?thesis using load [OF False, of "?img ?ts"] len ticks_of_images [OF assms(2), of "[]"] old by (simp add: b(2))
  qed
  have cut: "\<exists>ts. load_from_binary sz enc dec get (Some (take k bytes)) e' = (False, e'\<lparr>re_ticks := ts\<rparr>) \<and>
      length ts = length ?ts \<and> take ((k - 8) div sz) ts = take ((k - 8) div sz) ?ts"
    if "?ts \<noteq> []" "8 \<le> k" "k < length bytes"
  proof -
    let ?got = "take (k - 8) (?img ?ts)" and ?m = "(k - 8) div sz"
    have k: "take k bytes = put (length ?ts) @ ?got" using that(2) put(1) by (simp add: b(2))
    have got: "length ?got = k - 8" "k - 8 < length ?ts * sz" using that(2,3) put(1) len by (simp_all add: b(2))
    have m: "?m \<le> length ?ts" using got(2) by (metis div_le_mono less_imp_le nonzero_mult_div_cancel_right assms(5) less_numeral_extra(3))
    have "take (?m * sz) ?got = ?img (take ?m ?ts)"
    proof -
      have "length (?img (take ?m ?ts)) = ?m * sz"
        using length_images [of enc sz "take ?m ?ts"] assms(2) m by (auto simp: list_all_iff dest: in_set_takeD)
      moreover have "?img ?ts = ?img (take ?m ?ts) @ ?img (drop ?m ?ts)" by (metis append_take_drop_id concat_append map_append)
      ultimately show ?thesis by (simp add: min_absorb1)
    qed
    then have eq: "?got @ r = ?img (take ?m ?ts) @ (drop (?m * sz) ?got @ r)" for r
      by (metis append.assoc append_take_drop_id)
    have "list_all (\<lambda>t. length (enc t) = sz \<and> dec (enc t) = t) (take ?m ?ts)"
      using assms(2) by (auto simp: list_all_iff dest: in_set_takeD)
    then have pre: "take ?m (ticks_of sz dec (length ?ts) (?img (take ?m ?ts) @ r)) = take ?m ?ts" for r
      using ticks_of_prefix [of enc sz dec "take ?m ?ts" "length ?ts" r] m by (simp add: min_absorb2)
    have "take ?m (ticks_of sz dec (length ?ts) (?got @ r)) = take ?m ?ts" for r
      unfolding eq by (rule pre)
    moreover have "length ?got \<noteq> length ?ts * sz" "length ?got \<le> length ?ts * sz" using got by simp_all
    ultimately show ?thesis using load [OF that(1), of ?got] unfolding k by auto
  qed
  show ?thesis using b(1) whole cut by blast
qed

theorem binary_files_exact_witness:
  "\<exists>bytes. save_to_binary (\<lambda>t. [char_of (mt_venue t)]) (little_endian 8) True (replay_new\<lparr>re_ticks := [venue_tick 7, venue_tick 9]\<rparr>) = (True, Some bytes) \<and>
     load_from_binary 1 (\<lambda>t. [char_of (mt_venue t)]) (\<lambda>bs. venue_tick (of_char (hd bs))) from_little_endian (Some bytes) replay_new =
       (True, replay_new\<lparr>re_ticks := [venue_tick 7, venue_tick 9]\<rparr>)"
proof -
  let ?e = "replay_new\<lparr>re_ticks := [venue_tick 7, venue_tick 9]\<rparr>" and ?enc = "\<lambda>t. [char_of (mt_venue t) :: char]"
  obtain bytes where s: "save_to_binary ?enc (little_endian 8) True ?e = (True, Some bytes)" by (simp add: save_to_binary_def)
  show ?thesis
    using binary_files_exact [OF little_endian_image _ _ _ _ s, of 1 "\<lambda>bs. venue_tick (of_char (hd bs))" replay_new 0] s
    by (simp add: replay_new_def)
qed

text \<open>
  C21: A replay delivers the ticks in order. From any reachable state with a callback, whatever the thread of the replay and
  those that stop, pause and resume it do, in any interleaving, and also single steps, added ticks and further starts, the
  callback receives exactly the ticks from the position reached before to the one reached now, each once, until a reset. After a stop at most one
  more tick is delivered.
\<close>

theorem replay_in_order:
  assumes "legal replay_legal replay_step (cs @ ds) ([], replay_new)" and "run replay_step cs ([], replay_new) = (evs, e)"
    and "re_callback e" and "RC_Reset \<notin> set ds" and "RC_Start False \<notin> set ds" and "run replay_step ds (evs, e) = (evs', e')"
  shows "ticks_in evs' = ticks_in evs @ drop (re_pos e) (take (re_pos e') (re_ticks e')) \<and>
    re_pos e \<le> re_pos e' \<and> re_pos e' \<le> length (re_ticks e') \<and>
    (hd (ds @ [RC_Loop]) = RC_Stop \<and> list_all (\<lambda>d. d \<in> {RC_Loop, RC_Stop, RC_Pause, RC_Resume}) ds \<longrightarrow> re_pos e' \<le> re_pos e + 1)"
proof -
  have leg: "legal replay_legal replay_step cs ([], replay_new)" "legal replay_legal replay_step ds (evs, e)"
    using assms(1,2) by (simp_all add: legal_append)
  have inv: "replay_inv e" using replay.inv_run [OF leg(1)] assms(2) by simp
  obtain new where new: "evs' = evs @ new" "advances e (ticks_in new) e'"
    using replay_run_advances [OF inv assms(3) leg(2) assms(4-6)] by blast
  have "re_pos e' \<le> re_pos e + 1"
    if stop: "hd (ds @ [RC_Loop]) = RC_Stop" "list_all (\<lambda>d. d \<in> {RC_Loop, RC_Stop, RC_Pause, RC_Resume}) ds"
  proof -
    obtain ds' where ds: "ds = RC_Stop # ds'" using stop(1) by (cases ds) auto
    have "run replay_step ds' (evs, replay_stop e) = (evs', e')" using assms(6) ds by simp
    moreover have "set ds' \<subseteq> {RC_Loop, RC_Stop, RC_Pause, RC_Resume}" using stop(2) ds by (auto simp: list_all_iff)
    ultimately have "length (ticks_in evs') \<le> length (ticks_in evs) + 1"
      using stopped_run [of "replay_stop e" ds' evs evs' e'] by (simp add: replay_stop_def split: if_splits)
    then show ?thesis using new by (simp add: advances_def)
  qed
  then show ?thesis using new by (simp add: advances_def)
qed

theorem replay_in_order_witness:
  "ticks_in (fst (run replay_step [RC_Add (venue_tick 1), RC_Add (venue_tick 2), RC_Start True, RC_Loop, RC_Loop, RC_Pause, RC_Loop, RC_Loop, RC_Stop, RC_Loop, RC_Loop]
     ([], replay_new))) = [venue_tick 1]"
proof -
  let ?cs = "[RC_Add (venue_tick 1), RC_Add (venue_tick 2), RC_Start True, RC_Loop, RC_Loop, RC_Pause, RC_Loop]"
    and ?ds = "[RC_Loop, RC_Stop, RC_Loop, RC_Loop]"
  note ops = replay_ops replay_new_def sleep_before_def Let_def
  have leg: "legal replay_legal replay_step (?cs @ ?ds) ([], replay_new)" by (simp add: ops)
  obtain evs e where r: "run replay_step ?cs ([], replay_new) = (evs, e)" by fastforce
  then have e: "re_callback e" "ticks_in evs = []" "re_pos e = 0" by (auto simp: ops)
  obtain evs' e' where r': "run replay_step ?ds (evs, e) = (evs', e')" by fastforce
  have "re_pos e' = 1" "re_ticks e' = [venue_tick 1, venue_tick 2]" using r r' by (auto simp: ops)
  then have "ticks_in evs' = [venue_tick 1]" using replay_in_order [OF leg r e(1) _ _ r'] e by simp
  moreover have "run replay_step (?cs @ ?ds) ([], replay_new) = (evs', e')" unfolding run_append r r' ..
  ultimately show ?thesis by (simp del: run.simps)
qed

text \<open>
  A replay that is not stopped ends and delivers everything: however it was paused and resumed, when it is resumed for good
  a bounded number of steps of its thread delivers all remaining ticks and returns.
\<close>

theorem replay_completes:
  assumes "legal replay_legal replay_step cs ([], replay_new)" and "run replay_step cs ([], replay_new) = (evs, e)"
    and "re_status e = RL_Idle" and "set ds \<subseteq> {RC_Loop, RC_Pause, RC_Resume}" and "4 * length (re_ticks e) + 1 \<le> n"
    and "run replay_step (RC_Start True # ds @ RC_Resume # replicate n RC_Loop) (evs, e) = (evs', e')"
  shows "ticks_in evs' = ticks_in evs @ drop (re_pos e) (re_ticks e) \<and> re_status e' = RL_Idle \<and> re_pos e' = length (re_ticks e)"
proof -
  have inv: "replay_inv e" using replay.inv_run [OF assms(1)] assms(2) by simp
  define s where "s = replay_start True e"
  have s: "unstopped s" "re_callback s" "re_ticks s = re_ticks e" "re_pos s = re_pos e" "replay_inv s"
    using inv by (auto simp: s_def unstopped_def replay_inv_def replay_start_def)
  let ?rest = "ds @ RC_Resume # replicate n RC_Loop"
  have run: "run replay_step ?rest (evs, s) = (evs', e')" using assms(6) by (simp add: s_def)
  have only: "set ?rest \<subseteq> {RC_Loop, RC_Pause, RC_Resume}" using assms(4) by auto
  have legal_only: "set xs \<subseteq> {RC_Loop, RC_Pause, RC_Resume} \<Longrightarrow> legal replay_legal replay_step xs st" for xs st
    by (induction xs arbitrary: st) (auto split: prod.splits)
  obtain m em where m: "run replay_step ds (evs, s) = (m, em)" by fastforce
  have um: "unstopped em" "re_ticks em = re_ticks s" using unstopped_run [OF s(1) assms(4) m] by simp_all
  let ?r = "replay_resume em"
  have "unstopped ?r" "\<not> re_paused ?r" "replay_rank ?r \<le> n"
    using um s(3) assms(5) by (auto simp: unstopped_def replay_inv_def replay_resume_def)
  moreover have "run replay_step (replicate n RC_Loop) (m, ?r) = (evs', e')"
    using run m by (simp add: run_append)
  ultimately have idle: "re_status e' = RL_Idle" using loop_finishes by blast
  have u: "unstopped e'" "re_ticks e' = re_ticks e" using unstopped_run [OF s(1) only run] s(3) by simp_all
  obtain new where "evs' = evs @ new" "advances s (ticks_in new) e'"
    using replay_run_advances [OF s(5,2) legal_only [OF only] _ _ run] only by auto
  then show ?thesis using idle u s(3,4) by (simp add: unstopped_def advances_def)
qed

theorem replay_completes_witness:
  "ticks_in (fst (run replay_step ([RC_Add (venue_tick 1), RC_Add (venue_tick 2)] @ RC_Start True # [RC_Pause, RC_Loop] @ RC_Resume # replicate 9 RC_Loop)
     ([], replay_new))) = [venue_tick 1, venue_tick 2]"
proof -
  let ?cs = "[RC_Add (venue_tick 1), RC_Add (venue_tick 2)]"
  let ?e = "replay_new\<lparr>re_ticks := [venue_tick 1, venue_tick 2]\<rparr>"
  have r: "run replay_step ?cs ([], replay_new) = ([], ?e)" by (simp add: add_tick_def replay_new_def)
  obtain evs' e' where r': "run replay_step (RC_Start True # [RC_Pause, RC_Loop] @ RC_Resume # replicate 9 RC_Loop) ([], ?e) = (evs', e')"
    by fastforce
  have "ticks_in evs' = [venue_tick 1, venue_tick 2]"
    using replay_completes [OF _ r _ _ _ r'] by (simp add: replay_new_def add_tick_def)
  then show ?thesis unfolding run_append r r' by simp
qed

text \<open>
  Generated ticks are valid quotes: \<open>generate_synthetic\<close> appends as many ticks as asked for, at equal intervals from the first second
  on, for the symbol and the venue, each with a positive bid below its ask, a spread of one to four ticks and quantities from 50 to 249.
\<close>

theorem synthetic_ticks_valid:
  assumes "0 \<le> interval" and "interval \<le> 2 ^ 30" and "- (2 ^ 62) \<le> mid" and "mid \<le> 2 ^ 61" and "n \<le> 2 ^ 22"
    and "e' = generate_synthetic symb venue mid n interval e"
  shows "\<exists>new. re_ticks e' = re_ticks e @ new \<and>
    list_all2 (synthetic_ok symb venue) (map (\<lambda>k. 1000000000 + int k * (interval * 1000)) [0..<n]) new"
proof -
  have "int n * (interval * 1000) \<le> 2 ^ 22 * (2 ^ 30 * 1000)" by (rule mult_mono) (use assms in auto)
  then have "1000000000 + int n * (interval * 1000) < 2 ^ 63" by simp
  moreover have "max mid 0 + int n * 1000000 \<le> 2 ^ 62" using assms(4,5) by simp
  ultimately show ?thesis
    using synthetic_ticks_ok [OF assms(1,2,3)] unfolding assms(6) generate_synthetic_def by (intro exI) (auto intro!: synthetic_ticks_ok assms)
qed

theorem synthetic_ticks_valid_witness:
  "\<exists>new. re_ticks (generate_synthetic ''X'' 1 0 2 500 replay_new) = re_ticks replay_new @ new \<and>
    list_all2 (synthetic_ok ''X'' 1) (map (\<lambda>k. 1000000000 + int k * (500 * 1000)) [0..<2]) new"
  using synthetic_ticks_valid [OF _ _ _ _ _ refl, where symb = "''X''" and venue = 1 and mid = 0 and n = 2 and interval = 500 and e = replay_new]
  by simp

end
