(* ===== verification/Async_Task.thy ===== *)
theory Async_Task
  imports Prelude
begin

text \<open>
  Asynchronous results with continuations: \<open>Promise\<close> and \<open>AsyncTask\<close> of the concurrency runtime, from
  \<open>src/cunk/include/concurrency/async/AsyncTask.h\<close>.

  Shared states are numbered in the order of their creation and a promise and its task are both the number of
  their state. \<open>'v\<close> holds the values of all result types, \<open>'e\<close> the exceptions; \<open>mv v\<close> is what a moved-from \<open>v\<close>
  becomes. The specialisations for \<open>void\<close> differ from the template only in that there is no value to be
  missing: such a state has its (only) value from the start.

  The locked part of an operation is one step. A continuation is called after the lock has been released, so it is
  kept in \<open>tk_calls\<close> until the thread that has it runs it; other threads act in between. Reading a value that is not
  there is undefined behaviour and sets \<open>tk_undefined\<close>.
\<close>

section \<open>State\<close>

type_synonym ('e, 'v) func = "'v \<Rightarrow> 'e + 'v"

record ('e, 'v) shared_state =
  ss_value :: "'v option"
  ss_exception :: "'e option"
  ss_ready :: bool
  ss_continuation :: "(('e, 'v) func \<times> nat) option"

record ('e, 'v) task_store =
  tk_states :: "('e, 'v) shared_state list"
  tk_calls :: "(nat \<times> ('e, 'v) func \<times> nat) list"
  tk_undefined :: bool

definition shared_new :: "'v option \<Rightarrow> ('e, 'v) shared_state" where
  "shared_new init = \<lparr>ss_value = init, ss_exception = None, ss_ready = False, ss_continuation = None\<rparr>"

definition store_new :: "('e, 'v) task_store" where
  "store_new = \<lparr>tk_states = [], tk_calls = [], tk_undefined = False\<rparr>"

definition put_state :: "nat \<Rightarrow> ('e, 'v) shared_state \<Rightarrow> ('e, 'v) task_store \<Rightarrow> ('e, 'v) task_store" where
  "put_state i sh s = s\<lparr>tk_states := (tk_states s)[i := sh]\<rparr>"

section \<open>Operations\<close>

definition make_promise :: "'v option \<Rightarrow> ('e, 'v) task_store \<Rightarrow> ('e, 'v) task_store" where
  "make_promise init s = s\<lparr>tk_states := tk_states s @ [shared_new init]\<rparr>"

definition set_value :: "nat \<Rightarrow> 'v \<Rightarrow> ('e, 'v) task_store \<Rightarrow> ('e, 'v) task_store" where
  "set_value i v s =
     (let sh = tk_states s ! i;
          s1 = put_state i (sh\<lparr>ss_value := Some v, ss_ready := True, ss_continuation := None\<rparr>) s
      in case ss_continuation sh of
           None \<Rightarrow> s1
         | Some (f, n) \<Rightarrow> s1\<lparr>tk_calls := tk_calls s1 @ [(i, f, n)]\<rparr>)"

definition set_exception :: "nat \<Rightarrow> 'e \<Rightarrow> ('e, 'v) task_store \<Rightarrow> ('e, 'v) task_store" where
  "set_exception i e s = put_state i ((tk_states s ! i)\<lparr>ss_exception := Some e, ss_ready := True\<rparr>) s"

definition is_ready :: "nat \<Rightarrow> ('e, 'v) task_store \<Rightarrow> bool" where
  "is_ready i s \<longleftrightarrow> ss_ready (tk_states s ! i)"

text \<open>\<open>then\<close>: the new state, with \<open>init\<close> the value it starts with, and the continuation called now or stored.\<close>

definition then_task :: "nat \<Rightarrow> ('e, 'v) func \<Rightarrow> 'v option \<Rightarrow> ('e, 'v) task_store \<Rightarrow> ('e, 'v) task_store" where
  "then_task i f init s =
     (let n = length (tk_states s); s1 = make_promise init s; sh = tk_states s ! i
      in if ss_ready sh then s1\<lparr>tk_calls := tk_calls s1 @ [(i, f, n)]\<rparr>
         else put_state i (sh\<lparr>ss_continuation := Some (f, n)\<rparr>) s1)"

text \<open>\<open>std::move(*value)\<close>.\<close>

definition take_value :: "('v \<Rightarrow> 'v) \<Rightarrow> nat \<Rightarrow> ('e, 'v) task_store \<Rightarrow> 'v option \<times> ('e, 'v) task_store" where
  "take_value mv i s =
     (case ss_value (tk_states s ! i) of
        None \<Rightarrow> (None, s\<lparr>tk_undefined := True\<rparr>)
      | Some v \<Rightarrow> (Some v, put_state i ((tk_states s ! i)\<lparr>ss_value := Some (mv v)\<rparr>) s))"

text \<open>Calling a continuation: what it returns or throws goes to its own promise.\<close>

definition run_call :: "('v \<Rightarrow> 'v) \<Rightarrow> nat \<Rightarrow> ('e, 'v) task_store \<Rightarrow> ('e, 'v) task_store" where
  "run_call mv k s =
     (if k < length (tk_calls s)
      then
        let (i, f, n) = tk_calls s ! k;
            (v, s1) = take_value mv i (s\<lparr>tk_calls := take k (tk_calls s) @ drop (Suc k) (tk_calls s)\<rparr>)
        in (case v of
              None \<Rightarrow> s1
            | Some x \<Rightarrow> (case f x of Inl e \<Rightarrow> set_exception n e s1 | Inr y \<Rightarrow> set_value n y s1))
      else s)"

text \<open>\<open>get\<close>: no result means that the caller blocks.\<close>

definition task_get :: "('v \<Rightarrow> 'v) \<Rightarrow> nat \<Rightarrow> ('e, 'v) task_store \<Rightarrow> ('e + 'v) option \<times> ('e, 'v) task_store" where
  "task_get mv i s =
     (if \<not> ss_ready (tk_states s ! i) then (None, s)
      else case ss_exception (tk_states s ! i) of
             Some e \<Rightarrow> (Some (Inl e), s)
           | None \<Rightarrow> (case take_value mv i s of (v, s1) \<Rightarrow> (map_option Inr v, s1)))"

section \<open>Runs\<close>

datatype ('e, 'v) async_cmd =
    AC_Promise "'v option"
  | AC_Then nat "('e, 'v) func" "'v option"
  | AC_Set nat 'v
  | AC_Fail nat 'e
  | AC_Run nat
  | AC_Get nat

text \<open>
  What has been asked for so far: where each state comes from (a promise, or a task and the function chained to it), what
  the producers have set, which tasks have been consumed by \<open>then\<close> or \<open>get\<close>, and what \<open>get\<close> returned.
\<close>

record ('e, 'v) async_history =
  ah_origins :: "(nat \<times> ('e, 'v) func) option list"
  ah_given :: "nat \<Rightarrow> ('e + 'v) option"
  ah_used :: "nat set"
  ah_results :: "(nat \<times> ('e + 'v)) list"

definition history_new :: "('e, 'v) async_history" where
  "history_new = \<lparr>ah_origins = [], ah_given = Map.empty, ah_used = {}, ah_results = []\<rparr>"

fun async_step :: "('v \<Rightarrow> 'v) \<Rightarrow> ('e, 'v) async_cmd \<Rightarrow> ('e, 'v) task_store \<times> ('e, 'v) async_history \<Rightarrow>
    ('e, 'v) task_store \<times> ('e, 'v) async_history" where
  "async_step mv (AC_Promise init) (s, h) = (make_promise init s, h\<lparr>ah_origins := ah_origins h @ [None]\<rparr>)"
| "async_step mv (AC_Then i f init) (s, h) =
     (then_task i f init s, h\<lparr>ah_origins := ah_origins h @ [Some (i, f)], ah_used := insert i (ah_used h)\<rparr>)"
| "async_step mv (AC_Set i v) (s, h) = (set_value i v s, h\<lparr>ah_given := (ah_given h)(i \<mapsto> Inr v)\<rparr>)"
| "async_step mv (AC_Fail i e) (s, h) = (set_exception i e s, h\<lparr>ah_given := (ah_given h)(i \<mapsto> Inl e)\<rparr>)"
| "async_step mv (AC_Run k) (s, h) = (run_call mv k s, h)"
| "async_step mv (AC_Get i) (s, h) =
     (case task_get mv i s of
        (None, s') \<Rightarrow> (s', h)
      | (Some r, s') \<Rightarrow> (s', h\<lparr>ah_used := insert i (ah_used h), ah_results := ah_results h @ [(i, r)]\<rparr>))"

text \<open>
  A producer sets its promise once; a task has one consumer, which chains to it or gets its result; nothing is chained
  to a task that has failed already.
\<close>

fun async_ok :: "('e, 'v) async_cmd \<Rightarrow> ('e, 'v) task_store \<times> ('e, 'v) async_history \<Rightarrow> bool" where
  "async_ok (AC_Promise init) (s, h) \<longleftrightarrow> True"
| "async_ok (AC_Then i f init) (s, h) \<longleftrightarrow>
     i < length (tk_states s) \<and> i \<notin> ah_used h \<and> ss_exception (tk_states s ! i) = None"
| "async_ok (AC_Set i v) (s, h) \<longleftrightarrow> i < length (tk_states s) \<and> ah_origins h ! i = None \<and> ah_given h i = None"
| "async_ok (AC_Fail i e) (s, h) \<longleftrightarrow> i < length (tk_states s) \<and> ah_origins h ! i = None \<and> ah_given h i = None"
| "async_ok (AC_Run k) (s, h) \<longleftrightarrow> True"
| "async_ok (AC_Get i) (s, h) \<longleftrightarrow> i < length (tk_states s) \<and> i \<notin> ah_used h"

section \<open>What a task is expected to deliver\<close>

text \<open>
  The outcome of a promise is what its producer has set; that of a chained task is the outcome of the function on the value it is
  chained to. An exception is not passed on.
\<close>

function task_outcome :: "(nat \<times> ('e, 'v) func) option list \<Rightarrow> (nat \<Rightarrow> ('e + 'v) option) \<Rightarrow> nat \<Rightarrow> ('e + 'v) option" where
  "task_outcome og gv k =
     (case og ! k of
        None \<Rightarrow> gv k
      | Some (i, f) \<Rightarrow>
          if i < k then (case task_outcome og gv i of Some (Inr v) \<Rightarrow> Some (f v) | _ \<Rightarrow> None) else None)"
  by pat_completeness auto

termination task_outcome
  by (relation "measure (\<lambda>(og, gv, k). k)") auto

declare task_outcome.simps [simp del]

lemma outcome_root: "og ! k = None \<Longrightarrow> task_outcome og gv k = gv k"
  by (simp add: task_outcome.simps)

lemma outcome_chained:
  "og ! k = Some (i, f) \<Longrightarrow> i < k \<Longrightarrow>
   task_outcome og gv k = (case task_outcome og gv i of Some (Inr v) \<Rightarrow> Some (f v) | _ \<Rightarrow> None)"
  by (subst task_outcome.simps) simp

lemma outcome_mono: "gv \<subseteq>\<^sub>m gv' \<Longrightarrow> task_outcome og gv k = Some r \<Longrightarrow> task_outcome og gv' k = Some r"
proof (induction k arbitrary: r rule: less_induct)
  case (less k)
  show ?case
  proof (cases "og ! k")
    case None
    then show ?thesis using less.prems by (simp add: outcome_root map_le_def) (metis domI)
  next
    case (Some p)
    obtain i f where p: "p = (i, f)" by fastforce
    have i: "i < k"
    proof (rule ccontr)
      assume "\<not> i < k"
      then show False using less.prems(2) Some p by (simp add: task_outcome.simps [of og gv k])
    qed
    then obtain v where v: "task_outcome og gv i = Some (Inr v)" "r = f v"
      using less.prems(2) Some p by (auto simp: outcome_chained split: option.splits sum.splits)
    then show ?thesis using less.IH [OF i less.prems(1) v(1)] Some p i by (simp add: outcome_chained)
  qed
qed

lemma outcome_append: "k < length og \<Longrightarrow> task_outcome (og @ og') gv k = task_outcome og gv k"
proof (induction k rule: less_induct)
  case (less k)
  then show ?case by (simp add: task_outcome.simps [of _ gv k] nth_append split: option.splits)
qed

section \<open>The invariant\<close>

abbreviation state_at :: "nat \<Rightarrow> ('e, 'v) task_store \<Rightarrow> ('e, 'v) shared_state" where
  "state_at k s \<equiv> tk_states s ! k"

abbreviation expected :: "nat \<Rightarrow> ('e, 'v) async_history \<Rightarrow> ('e + 'v) option" where
  "expected k h \<equiv> task_outcome (ah_origins h) (ah_given h) k"

definition delivers :: "nat \<Rightarrow> ('e, 'v) task_store \<Rightarrow> ('e, 'v) async_history \<Rightarrow> bool" where
  "delivers k s h \<longleftrightarrow>
     (if ss_ready (state_at k s)
      then (case expected k h of
              None \<Rightarrow> False
            | Some (Inl e) \<Rightarrow> ss_exception (state_at k s) = Some e
            | Some (Inr v) \<Rightarrow> ss_exception (state_at k s) = None \<and> (k \<notin> ah_used h \<longrightarrow> ss_value (state_at k s) = Some v))
      else ss_exception (state_at k s) = None)"

text \<open>A chained task: its call is waiting for the value, or pending, or done, or lost because of an exception.\<close>

definition chained_ok :: "nat \<Rightarrow> nat \<Rightarrow> ('e, 'v) func \<Rightarrow> ('e, 'v) task_store \<Rightarrow> ('e, 'v) async_history \<Rightarrow> bool" where
  "chained_ok k i f s h \<longleftrightarrow> i < k \<and> i \<in> ah_used h \<and>
     (\<not> ss_ready (state_at i s) \<longrightarrow> ss_continuation (state_at i s) = Some (f, k)) \<and>
     (ss_ready (state_at k s) \<longrightarrow> ss_ready (state_at i s)) \<and>
     ((i, f, k) \<in> set (tk_calls s) \<longrightarrow> ss_ready (state_at i s) \<and> \<not> ss_ready (state_at k s) \<and>
        (\<exists>v. ss_value (state_at i s) = Some v \<and> expected i h = Some (Inr v))) \<and>
     (ss_ready (state_at i s) \<and> \<not> ss_ready (state_at k s) \<and> ss_exception (state_at i s) = None \<longrightarrow> (i, f, k) \<in> set (tk_calls s))"

definition state_ok :: "nat \<Rightarrow> ('e, 'v) task_store \<Rightarrow> ('e, 'v) async_history \<Rightarrow> bool" where
  "state_ok k s h \<longleftrightarrow> delivers k s h \<and>
     (case ah_origins h ! k of
        None \<Rightarrow> ss_ready (state_at k s) \<longleftrightarrow> ah_given h k \<noteq> None
      | Some (i, f) \<Rightarrow> chained_ok k i f s h)"

definition calls_ok :: "('e, 'v) task_store \<Rightarrow> ('e, 'v) async_history \<Rightarrow> bool" where
  "calls_ok s h \<longleftrightarrow> \<not> tk_undefined s \<and> length (ah_origins h) = length (tk_states s) \<and>
     distinct (map (snd \<circ> snd) (tk_calls s)) \<and>
     (\<forall>i f k. (i, f, k) \<in> set (tk_calls s) \<longrightarrow> k < length (tk_states s) \<and> ah_origins h ! k = Some (i, f)) \<and>
     (\<forall>i f k. i < length (tk_states s) \<and> ss_continuation (state_at i s) = Some (f, k) \<longrightarrow>
        k < length (tk_states s) \<and> ah_origins h ! k = Some (i, f))"

definition history_ok :: "('e, 'v) async_history \<Rightarrow> bool" where
  "history_ok h \<longleftrightarrow>
     (\<forall>k k' i f f'. k < length (ah_origins h) \<and> k' < length (ah_origins h) \<and>
        ah_origins h ! k = Some (i, f) \<and> ah_origins h ! k' = Some (i, f') \<longrightarrow> k = k') \<and>
     (\<forall>k. ah_given h k \<noteq> None \<longrightarrow> k < length (ah_origins h)) \<and>
     (\<forall>i r. (i, r) \<in> set (ah_results h) \<longrightarrow> i < length (ah_origins h) \<and> expected i h = Some r)"

definition async_inv :: "('e, 'v) task_store \<times> ('e, 'v) async_history \<Rightarrow> bool" where
  "async_inv = (\<lambda>(s, h). calls_ok s h \<and> history_ok h \<and> (\<forall>k < length (tk_states s). state_ok k s h))"

text \<open>The state just before task \<open>j\<close> gets its outcome \<open>r\<close>.\<close>

definition about_to_settle :: "nat \<Rightarrow> 'e + 'v \<Rightarrow> ('e, 'v) task_store \<Rightarrow> ('e, 'v) async_history \<Rightarrow> bool" where
  "about_to_settle j r s h \<longleftrightarrow> calls_ok s h \<and> history_ok h \<and> j < length (tk_states s) \<and>
     (\<forall>k < length (tk_states s). k \<noteq> j \<longrightarrow> state_ok k s h) \<and>
     \<not> ss_ready (state_at j s) \<and> ss_exception (state_at j s) = None \<and> expected j h = Some r \<and>
     j \<notin> snd ` snd ` set (tk_calls s) \<and>
     (case ah_origins h ! j of
        None \<Rightarrow> ah_given h j \<noteq> None
      | Some (i, f) \<Rightarrow> i < j \<and> i \<in> ah_used h \<and> ss_ready (state_at i s))"

definition settle :: "nat \<Rightarrow> 'e + 'v \<Rightarrow> ('e, 'v) task_store \<Rightarrow> ('e, 'v) task_store" where
  "settle j r s = (case r of Inl e \<Rightarrow> set_exception j e s | Inr v \<Rightarrow> set_value j v s)"

lemma put_state_simps [simp]:
  "tk_states (put_state i sh s) = (tk_states s)[i := sh]" "tk_calls (put_state i sh s) = tk_calls s"
  "tk_undefined (put_state i sh s) = tk_undefined s"
  by (simp_all add: put_state_def)

lemma delivers_cong: "state_at k s' = state_at k s \<Longrightarrow> delivers k s' h = delivers k s h"
  by (simp only: delivers_def)

lemma chained_cong:
  assumes "state_at i s' = state_at i s" and "state_at k s' = state_at k s" and "(i, f, k) \<in> set (tk_calls s') \<longleftrightarrow> (i, f, k) \<in> set (tk_calls s)"
  shows "chained_ok k i f s' h = chained_ok k i f s h"
  by (simp only: chained_ok_def assms)

lemma state_ok_split:
  "state_ok k s h \<longleftrightarrow> delivers k s h \<and>
     (ah_origins h ! k = None \<longrightarrow> (ss_ready (state_at k s) \<longleftrightarrow> ah_given h k \<noteq> None)) \<and>
     (\<forall>i f. ah_origins h ! k = Some (i, f) \<longrightarrow> chained_ok k i f s h)"
  by (auto simp: state_ok_def split: option.splits)

lemma settle_exception:
  assumes "about_to_settle j (Inl e) s h"
  shows "async_inv (set_exception j e s, h)"
proof -
  let ?s = "set_exception j e s"
  have a: "calls_ok s h" "history_ok h" "j < length (tk_states s)" "\<not> ss_ready (state_at j s)" "expected j h = Some (Inl e)"
    "j \<notin> snd ` snd ` set (tk_calls s)"
    using assms by (simp_all add: about_to_settle_def)
  have st: "tk_states ?s = (tk_states s)[j := (state_at j s)\<lparr>ss_exception := Some e, ss_ready := True\<rparr>]" "tk_calls ?s = tk_calls s"
    "tk_undefined ?s = tk_undefined s"
    by (simp_all add: set_exception_def)
  have calls: "calls_ok ?s h" using a(1,3) unfolding calls_ok_def st by (auto simp: nth_list_update)
  have "state_ok k ?s h" if k: "k < length (tk_states s)" for k
  proof (cases "k = j")
    case True
    then show ?thesis using assms a(3,5,6)
      by (auto simp: state_ok_def delivers_def chained_ok_def about_to_settle_def st nth_list_update image_iff split: option.splits)
  next
    case False
    then have ok: "state_ok k s h" "state_at k ?s = state_at k s" using assms k by (simp_all add: about_to_settle_def st)
    have "chained_ok k i f ?s h" if c: "chained_ok k i f s h" for i f
    proof (cases "i = j")
      case True
      then have "\<not> ss_ready (state_at k s)" "(i, f, k) \<notin> set (tk_calls s)" using c a(4) by (auto simp: chained_ok_def)
      then show ?thesis using c True ok(2) a(3) by (simp add: chained_ok_def st)
    next
      case other: False
      then have "state_at i ?s = state_at i s" by (simp add: st)
      from chained_cong [OF this ok(2)] show ?thesis using c st(2) by simp
    qed
    then show ?thesis using ok delivers_cong [OF ok(2)] unfolding state_ok_split by simp
  qed
  then show ?thesis using calls a(2) by (simp add: async_inv_def st)
qed

lemma settle_value:
  assumes "about_to_settle j (Inr v) s h"
  shows "async_inv (set_value j v s, h)"
proof -
  let ?s = "set_value j v s"
  define c where "c = (case ss_continuation (state_at j s) of None \<Rightarrow> [] | Some (f, n) \<Rightarrow> [(j, f, n)])"
  have a: "calls_ok s h" "history_ok h" "j < length (tk_states s)" "\<not> ss_ready (state_at j s)" "expected j h = Some (Inr v)"
    "j \<notin> snd ` snd ` set (tk_calls s)" "ss_exception (state_at j s) = None"
    using assms by (simp_all add: about_to_settle_def)
  have st: "tk_states ?s = (tk_states s)[j := (state_at j s)\<lparr>ss_value := Some v, ss_ready := True, ss_continuation := None\<rparr>]"
    "tk_calls ?s = tk_calls s @ c" "tk_undefined ?s = tk_undefined s"
    by (auto simp: set_value_def c_def Let_def split: option.splits)
  have c: "c = [] \<or> (\<exists>f n. c = [(j, f, n)] \<and> ss_continuation (state_at j s) = Some (f, n) \<and> n < length (tk_states s) \<and>
      ah_origins h ! n = Some (j, f))"
    using a(1,3) by (auto simp: c_def calls_ok_def split: option.splits)
  have not_self: "k \<noteq> j" if "ah_origins h ! k = Some (j, f)" for k f
  proof
    assume "k = j"
    then have "j < j" using assms that by (simp add: about_to_settle_def)
    then show False by simp
  qed
  have child: "\<not> ss_ready (state_at k s) \<and> (j, f, k) \<notin> set (tk_calls s) \<and> c = [(j, f, k)]"
    if "k < length (tk_states s)" "ah_origins h ! k = Some (j, f)" for k f
  proof -
    have "k \<noteq> j" by (rule not_self [OF that(2)])
    then have "chained_ok k j f s h" using assms that by (auto simp: about_to_settle_def state_ok_def)
    then show ?thesis using a(4) by (auto simp: chained_ok_def c_def)
  qed
  have old_call: "ss_ready (state_at i s)" if "(i, f, k) \<in> set (tk_calls s)" for i f k
  proof -
    have o: "k < length (tk_states s)" "ah_origins h ! k = Some (i, f)" using a(1) that by (auto simp: calls_ok_def)
    have "k \<noteq> j" using a(6) that by force
    then have "chained_ok k i f s h" using assms o by (auto simp: about_to_settle_def state_ok_def)
    then show ?thesis using that by (simp add: chained_ok_def)
  qed
  have new_call: "n \<notin> snd ` snd ` set (tk_calls s)" if "c = [(j, f, n)]" for f n
  proof
    assume "n \<in> snd ` snd ` set (tk_calls s)"
    then obtain i g where ig: "(i, g, n) \<in> set (tk_calls s)" by force
    then have "ah_origins h ! n = Some (i, g)" using a(1) by (auto simp: calls_ok_def)
    moreover have "ah_origins h ! n = Some (j, f)" using c that by auto
    ultimately show False using old_call [OF ig] a(4) by simp
  qed
  have dist: "distinct (map (snd \<circ> snd) (tk_calls s @ c))"
  proof -
    have "set (map (snd \<circ> snd) (tk_calls s)) = snd ` snd ` set (tk_calls s)" by (simp add: image_comp)
    moreover have "distinct (map (snd \<circ> snd) (tk_calls s))" using a(1) by (simp only: calls_ok_def)
    ultimately show ?thesis using c new_call by (auto, force)
  qed
  have calls: "calls_ok ?s h"
  proof -
    have "ss_continuation (state_at i s) = Some (f, k)" if "ss_continuation (state_at i ?s) = Some (f, k)" for i f k
      using that a(3) by (cases "i = j") (simp_all add: st)
    moreover have "k < length (tk_states s) \<and> ah_origins h ! k = Some (i, f)" if "(i, f, k) \<in> set c" for i f k using c that by auto
    moreover have "length (tk_states ?s) = length (tk_states s)" by (simp add: st)
    ultimately show ?thesis using a(1) dist unfolding calls_ok_def st(2,3) by (metis Un_iff set_append)
  qed
  have "state_ok k ?s h" if k: "k < length (tk_states s)" for k
  proof (cases "k = j")
    case True
    have "(i, f, j) \<notin> set c" for i f
    proof
      assume "(i, f, j) \<in> set c"
      then have "ah_origins h ! j = Some (j, f)" using c by auto
      then show False using not_self by blast
    qed
    then show ?thesis using assms a True
      by (auto simp: state_ok_def delivers_def chained_ok_def about_to_settle_def st nth_list_update image_iff split: option.splits)
  next
    case False
    then have ok: "state_ok k s h" using assms k by (simp add: about_to_settle_def)
    have same: "state_at k ?s = state_at k s" using False by (simp add: st)
    show ?thesis
    proof (cases "\<exists>f. ah_origins h ! k = Some (j, f)")
      case True
      then obtain f where f: "ah_origins h ! k = Some (j, f)" by blast
      have "chained_ok k j f ?s h" using ok f False a(3,5) child [OF k f] by (auto simp: state_ok_split chained_ok_def st)
      then show ?thesis using ok f delivers_cong [OF same] unfolding state_ok_split by simp
    next
      case no: False
      then have "i \<noteq> j \<and> (i, f, k) \<notin> set c" if "ah_origins h ! k = Some (i, f)" for i f using c that by auto
      then have "chained_ok k i f ?s h = chained_ok k i f s h" if "ah_origins h ! k = Some (i, f)" for i f
        using that chained_cong [OF _ same, of i f h] by (simp add: st)
      then show ?thesis using ok delivers_cong [OF same] same unfolding state_ok_split by auto
    qed
  qed
  then show ?thesis using calls a(2) by (simp add: async_inv_def st)
qed

lemma settle_inv: "about_to_settle j r s h \<Longrightarrow> async_inv (settle j r s, h)"
  using settle_exception settle_value by (cases r) (auto simp: settle_def)

section \<open>Every operation keeps the invariant\<close>

lemma async_inv_new: "async_inv (store_new, history_new)"
  by (simp add: async_inv_def store_new_def history_new_def calls_ok_def history_ok_def)

text \<open>More has been asked for: nothing that was expected changes.\<close>

lemma expected_grows:
  assumes "ah_given h \<subseteq>\<^sub>m ah_given h'" and "ah_origins h' = ah_origins h @ new" and "k < length (ah_origins h)"
    and "expected k h = Some r"
  shows "expected k h' = Some r"
  using outcome_mono [OF assms(1,4)] assms(2,3) by (simp add: outcome_append)

lemma delivers_grows:
  assumes "delivers k s h" and "\<And>r. expected k h = Some r \<Longrightarrow> expected k h' = Some r" and "ah_used h \<subseteq> ah_used h'"
    and "ss_ready (state_at k s') = ss_ready (state_at k s)" and "ss_exception (state_at k s') = ss_exception (state_at k s)"
    and "k \<notin> ah_used h' \<Longrightarrow> ss_value (state_at k s') = ss_value (state_at k s)"
  shows "delivers k s' h'"
proof (cases "expected k h")
  case None
  then show ?thesis using assms(1,4,5) by (simp add: delivers_def split: if_splits)
next
  case (Some r)
  then show ?thesis using assms(1,3-6) assms(2) [OF Some] by (cases r) (auto simp: delivers_def split: if_splits)
qed

lemma chained_grows:
  assumes "chained_ok k i f s h" and "\<And>r. expected i h = Some r \<Longrightarrow> expected i h' = Some r" and "ah_used h \<subseteq> ah_used h'"
    and "state_at i s' = state_at i s" and "ss_ready (state_at k s') = ss_ready (state_at k s)"
    and "(i, f, k) \<in> set (tk_calls s') \<longleftrightarrow> (i, f, k) \<in> set (tk_calls s)"
  shows "chained_ok k i f s' h'"
  using assms(1,2,3) unfolding chained_ok_def assms(4,5,6) by blast

lemma chained_lt: "async_inv (s, h) \<Longrightarrow> k < length (tk_states s) \<Longrightarrow> ah_origins h ! k = Some (i, f) \<Longrightarrow> chained_ok k i f s h"
  by (auto simp: async_inv_def state_ok_split)

lemma history_extend:
  assumes "history_ok h" and new: "\<And>i f k g. x = Some (i, f) \<Longrightarrow> k < length (ah_origins h) \<Longrightarrow> ah_origins h ! k \<noteq> Some (i, g)"
  shows "history_ok (h\<lparr>ah_origins := ah_origins h @ [x], ah_used := u\<rparr>)"
proof -
  let ?n = "length (ah_origins h)" and ?og = "ah_origins h @ [x]"
  have at: "?og ! k = (if k = ?n then x else ah_origins h ! k)" if "k < Suc ?n" for k using that by (simp add: nth_append)
  have "k = k'" if k: "k < Suc ?n" "k' < Suc ?n" "?og ! k = Some (i, f)" "?og ! k' = Some (i, f')" for k k' i f f'
  proof (cases "k = ?n \<or> k' = ?n")
    case True
    then show ?thesis using k at [OF k(1)] at [OF k(2)] new by (metis less_SucE)
  next
    case False
    then show ?thesis using k at [OF k(1)] at [OF k(2)] assms(1) unfolding history_ok_def by (metis less_SucE)
  qed
  moreover have "k < Suc ?n" if "ah_given h k \<noteq> None" for k using that assms(1) by (auto simp: history_ok_def less_SucI)
  moreover have "i < Suc ?n \<and> task_outcome ?og (ah_given h) i = Some r" if "(i, r) \<in> set (ah_results h)" for i r
    using that assms(1) by (auto simp: history_ok_def outcome_append less_SucI)
  ultimately show ?thesis by (simp add: history_ok_def)
qed

lemma promise_inv:
  assumes "async_inv (s, h)"
  shows "async_inv (make_promise init s, h\<lparr>ah_origins := ah_origins h @ [None]\<rparr>)"
proof -
  let ?s = "make_promise init s" and ?h = "h\<lparr>ah_origins := ah_origins h @ [None]\<rparr>" and ?n = "length (tk_states s)"
  have a: "calls_ok s h" "history_ok h" "\<And>k. k < ?n \<Longrightarrow> state_ok k s h" "length (ah_origins h) = ?n"
    using assms by (auto simp: async_inv_def calls_ok_def)
  have st: "tk_states ?s = tk_states s @ [shared_new init]" "tk_calls ?s = tk_calls s" "tk_undefined ?s = tk_undefined s"
    by (simp_all add: make_promise_def)
  have ex: "expected k ?h = expected k h" if "k < ?n" for k using that a(4) by (simp add: outcome_append)
  have "calls_ok ?s ?h" using a(1) by (fastforce simp: calls_ok_def st nth_append shared_new_def)
  moreover have "history_ok ?h" using a(2,4) ex by (fastforce simp: history_ok_def nth_append less_Suc_eq)
  moreover have "state_ok k ?s ?h" if "k < ?n" for k
  proof -
    have same: "state_at k ?s = state_at k s" "ah_origins ?h ! k = ah_origins h ! k" using that a(4) by (simp_all add: st nth_append)
    have "delivers k ?s ?h"
      by (rule delivers_grows [of k s h]) (use a(3) [OF that] ex [OF that] same in \<open>simp_all add: state_ok_split\<close>)
    moreover have "chained_ok k i f ?s ?h" if o: "ah_origins h ! k = Some (i, f)" for i f
    proof -
      have c: "chained_ok k i f s h" using chained_lt [OF assms \<open>k < ?n\<close> o] .
      then have "i < ?n" using \<open>k < ?n\<close> by (simp add: chained_ok_def)
      then show ?thesis by (intro chained_grows [OF c]) (use ex same in \<open>simp_all add: st nth_append\<close>)
    qed
    ultimately show ?thesis using a(3) [OF that] same by (auto simp: state_ok_split)
  qed
  moreover have "state_ok ?n ?s ?h"
    using a(2,4) by (auto simp: state_ok_split delivers_def st shared_new_def nth_append history_ok_def)
  ultimately show ?thesis by (auto simp: async_inv_def st less_Suc_eq)
qed

lemma set_settles:
  assumes "async_inv (s, h)" and "i < length (tk_states s)" and "ah_origins h ! i = None" and "ah_given h i = None"
  shows "about_to_settle i r s (h\<lparr>ah_given := (ah_given h)(i \<mapsto> r)\<rparr>)"
proof -
  let ?h = "h\<lparr>ah_given := (ah_given h)(i \<mapsto> r)\<rparr>" and ?n = "length (tk_states s)"
  have a: "calls_ok s h" "history_ok h" "\<And>k. k < ?n \<Longrightarrow> state_ok k s h" "length (ah_origins h) = ?n"
    using assms by (auto simp: async_inv_def calls_ok_def)
  have "ah_given h \<subseteq>\<^sub>m ah_given ?h" using assms(4) by (auto simp: map_le_def)
  then have ex: "expected k h = Some r' \<Longrightarrow> expected k ?h = Some r'" for k r' using outcome_mono [of "ah_given h" "ah_given ?h"] by simp
  have nr: "\<not> ss_ready (state_at i s)" "ss_exception (state_at i s) = None"
    using a(3) [OF assms(2)] assms(3,4) by (auto simp: state_ok_split delivers_def)
  have "i \<notin> snd ` snd ` set (tk_calls s)" using a(1) assms(3) by (auto simp: calls_ok_def)
  moreover have "state_ok k s ?h" if k: "k < ?n" "k \<noteq> i" for k
  proof -
    have "delivers k s ?h" by (rule delivers_grows [of k s h]) (use a(3) [OF k(1)] ex in \<open>simp_all add: state_ok_split\<close>)
    moreover have "chained_ok k j f s ?h" if "ah_origins h ! k = Some (j, f)" for j f
      by (rule chained_grows [OF chained_lt [OF assms(1) k(1) that]]) (use ex in simp_all)
    ultimately show ?thesis using a(3) [OF k(1)] k(2) by (simp add: state_ok_split)
  qed
  moreover have "calls_ok s ?h" using a(1) by (simp add: calls_ok_def)
  moreover have "history_ok ?h" using a(2,4) ex assms(2) by (auto simp: history_ok_def)
  ultimately show ?thesis using assms(2,3) nr by (simp add: about_to_settle_def outcome_root)
qed

lemma then_inv:
  assumes inv: "async_inv (s, h)" and i: "i < length (tk_states s)" "i \<notin> ah_used h" "ss_exception (state_at i s) = None"
  shows "async_inv (then_task i f init s, h\<lparr>ah_origins := ah_origins h @ [Some (i, f)], ah_used := insert i (ah_used h)\<rparr>)"
proof -
  let ?s = "then_task i f init s" and ?h = "h\<lparr>ah_origins := ah_origins h @ [Some (i, f)], ah_used := insert i (ah_used h)\<rparr>"
    and ?n = "length (tk_states s)"
  have a: "calls_ok s h" "history_ok h" "\<And>k. k < ?n \<Longrightarrow> state_ok k s h" "length (ah_origins h) = ?n"
    using inv by (auto simp: async_inv_def calls_ok_def)
  define sh where "sh = (if ss_ready (state_at i s) then state_at i s else (state_at i s)\<lparr>ss_continuation := Some (f, ?n)\<rparr>)"
  define c where "c = (if ss_ready (state_at i s) then [(i, f, ?n)] else [])"
  have st: "tk_states ?s = (tk_states s)[i := sh] @ [shared_new init]" "tk_calls ?s = tk_calls s @ c" "tk_undefined ?s = tk_undefined s"
    using i(1) by (auto simp: then_task_def make_promise_def Let_def sh_def c_def list_update_append)
  have at: "state_at k ?s = (if k = i then sh else state_at k s)" if "k < ?n" for k
    using that by (simp add: st nth_append)
  have atn: "state_at ?n ?s = shared_new init" by (simp add: st nth_append)
  have sh: "ss_ready sh = ss_ready (state_at i s)" "ss_exception sh = ss_exception (state_at i s)" "ss_value sh = ss_value (state_at i s)"
    by (simp_all add: sh_def)
  have ex: "expected k ?h = expected k h" if "k < ?n" for k using that a(4) by (simp add: outcome_append)
  have lt: "k < ?n" if "(j, g, k) \<in> set (tk_calls s)" for j g k using that a(1) by (auto simp: calls_ok_def)
  have parent: "j \<noteq> i" "j < ?n" if "k < ?n" "ah_origins h ! k = Some (j, g)" for k j g
    using chained_lt [OF inv that] i(2) that(1) by (auto simp: chained_ok_def)
  have "(j, g, ?n) \<notin> set (tk_calls s)" for j g using lt by blast
  then have dist: "distinct (map (snd \<circ> snd) (tk_calls s @ c))"
    using a(1,4) by (auto simp: calls_ok_def c_def)
  have "calls_ok ?s ?h"
  proof -
    have og: "ah_origins ?h ! ?n = Some (i, f)" "k < ?n \<Longrightarrow> ah_origins ?h ! k = ah_origins h ! k" for k
      using a(4) by (simp_all add: nth_append)
    have len: "length (tk_states ?s) = Suc ?n" "length (ah_origins ?h) = Suc ?n" using a(4) by (simp_all add: st)
    have "k < Suc ?n \<and> ah_origins ?h ! k = Some (j, g)" if "(j, g, k) \<in> set (tk_calls s @ c)" for j g k
    proof (cases "(j, g, k) \<in> set (tk_calls s)")
      case True
      then have "k < ?n" "ah_origins h ! k = Some (j, g)" using a(1) by (auto simp: calls_ok_def)
      then show ?thesis using og(2) by simp
    next
      case False
      then have "(j, g, k) = (i, f, ?n)" using that by (auto simp: c_def split: if_splits)
      then show ?thesis using og(1) by simp
    qed
    moreover have "k < Suc ?n \<and> ah_origins ?h ! k = Some (j, g)"
      if "j < Suc ?n" "ss_continuation (state_at j ?s) = Some (g, k)" for j g k
    proof (cases "j < ?n \<and> ss_continuation (state_at j s) = Some (g, k)")
      case True
      then have "k < ?n" "ah_origins h ! k = Some (j, g)" using a(1) by (auto simp: calls_ok_def)
      then show ?thesis using og(2) by simp
    next
      case False
      then have "j = i \<and> g = f \<and> k = ?n"
        using that at [of j] atn by (cases "j = ?n") (auto simp: shared_new_def sh_def split: if_splits)
      then show ?thesis using og(1) by simp
    qed
    moreover have "\<not> tk_undefined s" using a(1) by (simp add: calls_ok_def)
    ultimately show ?thesis using dist unfolding calls_ok_def st(2,3) len by blast
  qed
  moreover have "history_ok ?h"
    by (rule history_extend [OF a(2)]) (use parent a(4) in auto)
  moreover have "state_ok k ?s ?h" if k: "k < ?n" for k
  proof -
    have "delivers k ?s ?h"
    proof (rule delivers_grows [of k s h])
      show "delivers k s h" using a(3) [OF k] by (simp add: state_ok_split)
    qed (use ex [OF k] at [OF k] sh in auto)
    moreover have "chained_ok k j g ?s ?h" if o: "ah_origins h ! k = Some (j, g)" for j g
    proof -
      have p: "j \<noteq> i" "j < ?n" using parent [OF k o] by simp_all
      have c: "chained_ok k j g s h" by (rule chained_lt [OF inv k o])
      have "ss_ready (state_at k ?s) = ss_ready (state_at k s)" using at [OF k] sh by simp
      moreover have "(j, g, k) \<in> set (tk_calls ?s) \<longleftrightarrow> (j, g, k) \<in> set (tk_calls s)" using p by (simp add: st(2) c_def)
      moreover have "state_at j ?s = state_at j s" using at [OF p(2)] p(1) by simp
      ultimately show ?thesis by (intro chained_grows [OF c]) (simp_all only: ex [OF p(2)], auto)
    qed
    ultimately show ?thesis using a(3) [OF k] at [OF k] sh a(4) k by (auto simp: state_ok_split nth_append)
  qed
  moreover have "state_ok ?n ?s ?h"
  proof -
    have "delivers ?n ?s ?h" by (simp add: delivers_def atn shared_new_def)
    moreover have "chained_ok ?n i f ?s ?h"
    proof -
      have ready: "\<exists>v. ss_value sh = Some v \<and> expected i ?h = Some (Inr v)" if "ss_ready (state_at i s)"
        using a(3) [OF i(1)] that i(2,3) ex [OF i(1)] sh(3) by (auto simp: state_ok_split delivers_def split: option.splits sum.splits)
      have "(i, f, ?n) \<in> set (tk_calls ?s) \<longleftrightarrow> ss_ready (state_at i s)" using lt by (auto simp: st(2) c_def)
      then show ?thesis unfolding chained_ok_def at [OF i(1)] atn using i(1) ready by (auto simp: shared_new_def sh_def)
    qed
    ultimately show ?thesis using a(4) by (simp add: state_ok_split nth_append)
  qed
  ultimately show ?thesis by (auto simp: async_inv_def st less_Suc_eq)
qed

lemma drop_nth:
  assumes "k < length xs" and "distinct (map g xs)"
  shows "set (take k xs @ drop (Suc k) xs) = set xs - {xs ! k}" and "distinct (map g (take k xs @ drop (Suc k) xs))"
    and "g (xs ! k) \<notin> g ` set (take k xs @ drop (Suc k) xs)"
proof -
  have xs: "xs = take k xs @ xs ! k # drop (Suc k) xs" using assms(1) by (rule id_take_nth_drop)
  define as bs x where "as = take k xs" and "bs = drop (Suc k) xs" and "x = xs ! k"
  have eq: "xs = as @ x # bs" using xs by (simp add: as_def bs_def x_def)
  have d: "distinct (map g (as @ x # bs))" using assms(2) eq by simp
  have "set (as @ bs) = set (as @ x # bs) - {x}" "distinct (map g (as @ bs))" "g x \<notin> g ` set (as @ bs)"
    using d by (auto simp: image_iff)
  then show "set (take k xs @ drop (Suc k) xs) = set xs - {xs ! k}" "distinct (map g (take k xs @ drop (Suc k) xs))"
    "g (xs ! k) \<notin> g ` set (take k xs @ drop (Suc k) xs)"
    unfolding as_def [symmetric] bs_def [symmetric] x_def [symmetric] eq [symmetric] by simp_all
qed

lemma run_call_settles:
  assumes inv: "async_inv (s, h)" and m: "m < length (tk_calls s)" and call: "tk_calls s ! m = (i, f, n)"
  shows "\<exists>v s1. take_value mv i (s\<lparr>tk_calls := take m (tk_calls s) @ drop (Suc m) (tk_calls s)\<rparr>) = (Some v, s1) \<and>
    about_to_settle n (f v) s1 h \<and> length (tk_states s1) = length (tk_states s) \<and>
    (\<forall>k < length (tk_states s). ss_ready (state_at k s1) = ss_ready (state_at k s)) \<and> \<not> ss_ready (state_at n s)"
proof -
  let ?n = "length (tk_states s)" and ?calls = "take m (tk_calls s) @ drop (Suc m) (tk_calls s)"
  have a: "calls_ok s h" "history_ok h" "\<And>k. k < ?n \<Longrightarrow> state_ok k s h" "length (ah_origins h) = ?n"
    using inv by (auto simp: async_inv_def calls_ok_def)
  have mem: "(i, f, n) \<in> set (tk_calls s)" using m call by (metis nth_mem)
  have n: "n < ?n" "ah_origins h ! n = Some (i, f)" using a(1) mem by (auto simp: calls_ok_def)
  have cn: "chained_ok n i f s h" by (rule chained_lt [OF inv n])
  obtain v where v: "ss_value (state_at i s) = Some v" "expected i h = Some (Inr v)" "ss_ready (state_at i s)" "\<not> ss_ready (state_at n s)"
    "i < n" "i \<in> ah_used h"
    using cn mem by (auto simp: chained_ok_def)
  define s1 where "s1 = put_state i ((state_at i s)\<lparr>ss_value := Some (mv v)\<rparr>) (s\<lparr>tk_calls := ?calls\<rparr>)"
  have st: "tk_states s1 = (tk_states s)[i := (state_at i s)\<lparr>ss_value := Some (mv v)\<rparr>]" "tk_calls s1 = ?calls" "tk_undefined s1 = tk_undefined s"
    by (simp_all add: s1_def)
  have dist: "distinct (map (snd \<circ> snd) (tk_calls s))" using a(1) by (simp only: calls_ok_def)
  have rest: "set ?calls = set (tk_calls s) - {(i, f, n)}" "distinct (map (snd \<circ> snd) ?calls)" "n \<notin> snd ` snd ` set ?calls"
    using drop_nth [OF m dist] call by (simp_all add: image_comp)
  have at: "ss_ready (state_at k s1) = ss_ready (state_at k s)" "ss_exception (state_at k s1) = ss_exception (state_at k s)"
    "ss_continuation (state_at k s1) = ss_continuation (state_at k s)" "k \<noteq> i \<Longrightarrow> state_at k s1 = state_at k s" if "k < ?n" for k
    using that v(5) n(1) by (cases "k = i"; simp add: st)+
  have "calls_ok s1 h"
  proof -
    have "ss_continuation (state_at j s) = Some (g, k)" if "j < ?n" "ss_continuation (state_at j s1) = Some (g, k)" for j g k
      using that at(3) by simp
    moreover have "length (tk_states s1) = ?n" by (simp add: st)
    ultimately show ?thesis using a(1) rest(1,2) unfolding calls_ok_def st(2,3) by (metis Diff_iff)
  qed
  moreover have "state_ok k s1 h" if k: "k < ?n" "k \<noteq> n" for k
  proof -
    have "delivers k s1 h"
    proof (rule delivers_grows [of k s h])
      show "delivers k s h" using a(3) [OF k(1)] by (simp add: state_ok_split)
      show "ss_value (state_at k s1) = ss_value (state_at k s)" if "k \<notin> ah_used h" using at(4) [OF k(1)] v(6) that by metis
    qed (use at [OF k(1)] in simp_all)
    moreover have "chained_ok k j g s1 h" if o: "ah_origins h ! k = Some (j, g)" for j g
    proof (intro chained_grows [OF chained_lt [OF inv k(1) o]])
      have "j \<noteq> i" using a(2) n o k a(4) unfolding history_ok_def by metis
      moreover have "j < ?n" using chained_lt [OF inv k(1) o] k(1) by (simp add: chained_ok_def)
      ultimately show "state_at j s1 = state_at j s" using at(4) by blast
      show "(j, g, k) \<in> set (tk_calls s1) \<longleftrightarrow> (j, g, k) \<in> set (tk_calls s)" using k(2) by (simp only: st(2) rest(1)) blast
    qed (use at [OF k(1)] in simp_all)
    ultimately show ?thesis using a(3) [OF k(1)] at(1) [OF k(1)] by (simp add: state_ok_split)
  qed
  moreover have "ss_exception (state_at n s) = None" using a(3) [OF n(1)] v(4) by (simp add: state_ok_split delivers_def)
  moreover have "expected n h = Some (f v)" using outcome_chained [OF n(2) v(5)] v(2) by simp
  ultimately have "about_to_settle n (f v) s1 h"
    using a(2) n v at rest(3) unfolding about_to_settle_def by (simp add: st)
  moreover have "take_value mv i (s\<lparr>tk_calls := ?calls\<rparr>) = (Some v, s1)" using v(1) by (simp add: take_value_def s1_def)
  moreover have "length (tk_states s1) = ?n" by (simp add: st)
  ultimately show ?thesis using at(1) v(4) by blast
qed

lemma run_call_step:
  assumes "async_inv (s, h)" and "m < length (tk_calls s)" and "tk_calls s ! m = (i, f, n)"
  shows "\<exists>r s1. run_call mv m s = settle n r s1 \<and> about_to_settle n r s1 h \<and> length (tk_states s1) = length (tk_states s) \<and>
    (\<forall>k < length (tk_states s). ss_ready (state_at k s1) = ss_ready (state_at k s)) \<and> \<not> ss_ready (state_at n s)"
proof -
  obtain v s1 where "take_value mv i (s\<lparr>tk_calls := take m (tk_calls s) @ drop (Suc m) (tk_calls s)\<rparr>) = (Some v, s1)"
    "about_to_settle n (f v) s1 h" "length (tk_states s1) = length (tk_states s)"
    "\<forall>k < length (tk_states s). ss_ready (state_at k s1) = ss_ready (state_at k s)" "\<not> ss_ready (state_at n s)"
    using run_call_settles [OF assms, of mv] by blast
  then show ?thesis using assms(2,3) by (intro exI [of _ "f v"] exI [of _ s1]) (simp add: run_call_def settle_def split: sum.splits)
qed

lemma run_inv:
  assumes "async_inv (s, h)"
  shows "async_inv (run_call mv m s, h)"
proof (cases "m < length (tk_calls s)")
  case True
  obtain i f n where "tk_calls s ! m = (i, f, n)" by (metis prod_cases3)
  then show ?thesis using run_call_step [OF assms True, of i f n mv] settle_inv by fastforce
qed (use assms in \<open>simp add: run_call_def\<close>)

lemma ready_outcome:
  assumes "async_inv (s, h)" and "i < length (tk_states s)" and "i \<notin> ah_used h" and "ss_ready (state_at i s)"
  shows "(\<exists>e. ss_exception (state_at i s) = Some e \<and> expected i h = Some (Inl e)) \<or>
    (\<exists>v. ss_exception (state_at i s) = None \<and> ss_value (state_at i s) = Some v \<and> expected i h = Some (Inr v))"
proof -
  have "delivers i s h" using assms(1,2) by (simp add: async_inv_def state_ok_split)
  then show ?thesis using assms(3,4) by (auto simp: delivers_def split: option.splits sum.splits)
qed

lemma get_inv:
  assumes inv: "async_inv (s, h)" and i: "i < length (tk_states s)" "i \<notin> ah_used h" and g: "task_get mv i s = (Some r, s1)"
  shows "async_inv (s1, h\<lparr>ah_used := insert i (ah_used h), ah_results := ah_results h @ [(i, r)]\<rparr>)"
proof -
  let ?n = "length (tk_states s)" and ?h = "h\<lparr>ah_used := insert i (ah_used h), ah_results := ah_results h @ [(i, r)]\<rparr>"
  have a: "calls_ok s h" "history_ok h" "\<And>k. k < ?n \<Longrightarrow> state_ok k s h" "length (ah_origins h) = ?n"
    using inv by (auto simp: async_inv_def calls_ok_def)
  have ready: "ss_ready (state_at i s)" using g by (auto simp: task_get_def split: if_splits)
  have "expected i h = Some r \<and> (s1 = s \<or> (\<exists>v. s1 = put_state i ((state_at i s)\<lparr>ss_value := Some v\<rparr>) s))"
    using ready_outcome [OF inv i ready] g ready by (auto simp: task_get_def take_value_def)
  then have r: "expected i h = Some r" and s1: "s1 = s \<or> (\<exists>v. s1 = put_state i ((state_at i s)\<lparr>ss_value := Some v\<rparr>) s)" by simp_all
  have st: "length (tk_states s1) = ?n" "tk_calls s1 = tk_calls s" "tk_undefined s1 = tk_undefined s" using s1 by auto
  have at: "ss_ready (state_at k s1) = ss_ready (state_at k s)" "ss_exception (state_at k s1) = ss_exception (state_at k s)"
    "ss_continuation (state_at k s1) = ss_continuation (state_at k s)" "k \<noteq> i \<Longrightarrow> state_at k s1 = state_at k s" if "k < ?n" for k
    using s1 i(1) that by (cases "k = i"; auto)+
  have "calls_ok s1 ?h"
    using a(1) unfolding calls_ok_def st by (auto simp: at(3))
  moreover have "history_ok ?h" using a(2,4) r i(1) by (auto simp: history_ok_def)
  moreover have "state_ok k s1 ?h" if k: "k < ?n" for k
  proof -
    have "delivers k s1 ?h"
    proof (rule delivers_grows [of k s h])
      show "delivers k s h" using a(3) [OF k] by (simp add: state_ok_split)
      show "ss_value (state_at k s1) = ss_value (state_at k s)" if "k \<notin> ah_used ?h" using at(4) [OF k] that by simp
    qed (use at [OF k] in auto)
    moreover have "chained_ok k j f s1 ?h" if o: "ah_origins h ! k = Some (j, f)" for j f
    proof (intro chained_grows [OF chained_lt [OF inv k o]])
      have c: "chained_ok k j f s h" by (rule chained_lt [OF inv k o])
      then have "j \<noteq> i" "j < ?n" using i(2) k by (auto simp: chained_ok_def)
      then show "state_at j s1 = state_at j s" using at(4) by blast
    qed (use at [OF k] st in auto)
    ultimately show ?thesis using a(3) [OF k] at(1) [OF k] by (simp add: state_ok_split)
  qed
  ultimately show ?thesis using st(1) by (simp add: async_inv_def)
qed

lemma async_step_inv:
  assumes "async_inv sh" and "async_ok c sh"
  shows "async_inv (async_step mv c sh)"
proof -
  obtain s h where sh: "sh = (s, h)" by fastforce
  note inv = assms(1) [unfolded sh] and ok = assms(2) [unfolded sh]
  show ?thesis
  proof (cases c)
    case (AC_Promise init)
    then show ?thesis using promise_inv [OF inv] sh by simp
  next
    case (AC_Then i f init)
    then show ?thesis using then_inv [OF inv] ok sh by simp
  next
    case (AC_Set i v)
    then show ?thesis using settle_value [OF set_settles [OF inv]] ok sh by simp
  next
    case (AC_Fail i e)
    then show ?thesis using settle_exception [OF set_settles [OF inv]] ok sh by simp
  next
    case (AC_Run k)
    then show ?thesis using run_inv [OF inv] sh by simp
  next
    case (AC_Get i)
    show ?thesis
    proof (cases "task_get mv i s")
      case (Pair r s1)
      show ?thesis
      proof (cases r)
        case None
        have "s1 = s"
          using Pair None ready_outcome [OF inv, of i] ok AC_Get
          by (cases "ss_ready (state_at i s)") (auto simp: task_get_def take_value_def)
        then show ?thesis using inv Pair None AC_Get sh by simp
      next
        case (Some x)
        then show ?thesis using get_inv [OF inv _ _ Pair [unfolded Some]] ok Pair AC_Get sh by simp
      qed
    qed
  qed
qed

interpretation async: transition_system "async_step mv" "(store_new, history_new)" async_inv async_ok
  for mv :: "'v \<Rightarrow> 'v"
  by unfold_locales (use async_inv_new async_step_inv in blast)+

section \<open>Running all continuations\<close>

definition unready :: "('e, 'v) task_store \<Rightarrow> nat set" where
  "unready s = {k. k < length (tk_states s) \<and> \<not> ss_ready (state_at k s)}"

lemma settle_ready:
  assumes "j < length (tk_states s)"
  shows "length (tk_states (settle j r s)) = length (tk_states s)"
    and "unready (settle j r s) = unready s - {j}"
proof -
  have "\<exists>sh. tk_states (settle j r s) = (tk_states s)[j := sh] \<and> ss_ready sh"
  proof (cases r)
    case (Inl e)
    then show ?thesis
      by (intro exI [of _ "(state_at j s)\<lparr>ss_exception := Some e, ss_ready := True\<rparr>"]) (simp add: settle_def set_exception_def)
  next
    case (Inr v)
    then show ?thesis
      by (intro exI [of _ "(state_at j s)\<lparr>ss_value := Some v, ss_ready := True, ss_continuation := None\<rparr>"])
        (auto simp: settle_def set_value_def Let_def split: option.splits)
  qed
  then obtain sh where "tk_states (settle j r s) = (tk_states s)[j := sh]" "ss_ready sh" by blast
  then show "length (tk_states (settle j r s)) = length (tk_states s)" "unready (settle j r s) = unready s - {j}"
    using assms by (auto simp: unready_def nth_list_update)
qed

lemma run_call_unready:
  assumes "async_inv (s, h)" and "tk_calls s \<noteq> []"
  shows "card (unready (run_call mv 0 s)) < card (unready s)" and "length (tk_states (run_call mv 0 s)) = length (tk_states s)"
proof -
  obtain i f n where c: "tk_calls s ! 0 = (i, f, n)" by (metis prod_cases3)
  obtain r s1 where s1: "run_call mv 0 s = settle n r s1" "about_to_settle n r s1 h" "length (tk_states s1) = length (tk_states s)"
    "\<forall>k < length (tk_states s). ss_ready (state_at k s1) = ss_ready (state_at k s)" "\<not> ss_ready (state_at n s)"
    using run_call_step [OF assms(1) _ c, of mv] assms(2) by auto
  have n: "n < length (tk_states s1)" using s1(2) by (simp add: about_to_settle_def)
  have "unready s1 = unready s" using s1(3,4) by (auto simp: unready_def)
  moreover have "n \<in> unready s" using n s1(3,5) by (simp add: unready_def)
  moreover have "finite (unready s)" by (simp add: unready_def)
  ultimately show "card (unready (run_call mv 0 s)) < card (unready s)"
    unfolding s1(1) settle_ready(2) [OF n] by (metis card_Diff1_less)
  show "length (tk_states (run_call mv 0 s)) = length (tk_states s)" unfolding s1(1) settle_ready(1) [OF n] s1(3) ..
qed

lemma length_run_calls:
  "async_inv (s, h) \<Longrightarrow> run (async_step mv) (replicate n (AC_Run 0)) (s, h) = (s', h') \<Longrightarrow>
   length (tk_states s') = length (tk_states s)"
proof (induction n arbitrary: s)
  case (Suc n)
  have "length (tk_states (run_call mv 0 s)) = length (tk_states s)"
    using run_call_unready(2) [OF Suc.prems(1)] by (cases "tk_calls s = []") (simp_all add: run_call_def)
  then show ?case using Suc.IH [OF run_inv [OF Suc.prems(1), of mv 0]] Suc.prems(2) by simp
qed simp

lemma run_all_calls:
  "async_inv (s, h) \<Longrightarrow> card (unready s) \<le> n \<Longrightarrow> run (async_step mv) (replicate n (AC_Run 0)) (s, h) = (s', h') \<Longrightarrow>
   tk_calls s' = [] \<and> h' = h \<and> length (tk_states s') = length (tk_states s) \<and> async_inv (s', h)"
proof (induction n arbitrary: s)
  case 0
  have "tk_calls s = []"
  proof (rule ccontr)
    assume "tk_calls s \<noteq> []"
    from run_call_unready(1) [OF 0(1) this] show False using 0(2) by simp
  qed
  then show ?case using 0 by simp
next
  case (Suc n)
  have inv: "async_inv (run_call mv 0 s, h)" by (rule run_inv [OF Suc.prems(1)])
  have r: "run (async_step mv) (replicate n (AC_Run 0)) (run_call mv 0 s, h) = (s', h')" using Suc.prems(3) by simp
  show ?case
  proof (cases "tk_calls s = []")
    case True
    then have same: "run_call mv 0 s = s" by (simp add: run_call_def)
    have "run (async_step mv) (replicate m (AC_Run 0)) (s, h) = (s, h)" for m by (induction m) (simp_all add: same)
    then have "(s', h') = (s, h)" using Suc.prems(3) by metis
    then show ?thesis using Suc.prems(1) True by simp
  next
    case False
    have "card (unready (run_call mv 0 s)) \<le> n" using run_call_unready(1) [OF Suc.prems(1) False, of mv] Suc.prems(2) by simp
    from Suc.IH [OF inv this r] show ?thesis using run_call_unready(2) [OF Suc.prems(1) False, of mv] by simp
  qed
qed

lemma unready_bound: "card (unready s) \<le> length (tk_states s)"
  using card_mono [of "{..< length (tk_states s)}" "unready s"] by (auto simp: unready_def)

lemma ready_expected: "async_inv (s, h) \<Longrightarrow> k < length (tk_states s) \<Longrightarrow> ss_ready (state_at k s) \<Longrightarrow> expected k h \<noteq> None"
proof -
  assume "async_inv (s, h)" and "k < length (tk_states s)" and "ss_ready (state_at k s)"
  then have "delivers k s h" by (simp add: async_inv_def state_ok_split)
  then show ?thesis using \<open>ss_ready (state_at k s)\<close> by (cases "expected k h") (simp_all add: delivers_def)
qed

lemma expected_ready:
  assumes inv: "async_inv (s, h)" and calls: "tk_calls s = []"
  shows "k < length (tk_states s) \<Longrightarrow> expected k h = Some r \<Longrightarrow> ss_ready (state_at k s)"
proof (induction k arbitrary: r rule: less_induct)
  case (less k)
  have ok: "state_ok k s h" using inv less.prems(1) by (simp add: async_inv_def)
  show ?case
  proof (cases "ah_origins h ! k")
    case None
    then show ?thesis using ok less.prems(2) by (simp add: state_ok_split outcome_root)
  next
    case (Some p)
    obtain i f where p: "p = (i, f)" by fastforce
    have c: "chained_ok k i f s h" using chained_lt [OF inv less.prems(1)] Some p by simp
    then have i: "i < k" by (simp add: chained_ok_def)
    then obtain v where v: "expected i h = Some (Inr v)"
      using less.prems(2) Some p by (auto simp: outcome_chained split: option.splits sum.splits)
    have r: "ss_ready (state_at i s)" using less.IH [OF i _ v] i less.prems(1) by simp
    have "delivers i s h" using inv i less.prems(1) by (simp add: async_inv_def state_ok_split)
    then have "ss_exception (state_at i s) = None" using r v by (simp add: delivers_def)
    then show ?thesis using c r calls by (auto simp: chained_ok_def)
  qed
qed

lemma history_grows_step:
  "async_ok c (s, h) \<Longrightarrow> async_step mv c (s, h) = (s', h') \<Longrightarrow>
   (\<exists>new. ah_origins h' = ah_origins h @ new) \<and> ah_given h \<subseteq>\<^sub>m ah_given h'"
  by (cases c) (auto simp: map_le_def split: prod.splits option.splits)

lemma history_grows:
  "legal async_ok (async_step mv) cs (s, h) \<Longrightarrow> run (async_step mv) cs (s, h) = (s', h') \<Longrightarrow> async_inv (s, h) \<Longrightarrow>
   (\<exists>new. ah_origins h' = ah_origins h @ new) \<and> ah_given h \<subseteq>\<^sub>m ah_given h' \<and> async_inv (s', h')"
proof (induction cs arbitrary: s h)
  case (Cons c cs)
  obtain s1 h1 where c: "async_step mv c (s, h) = (s1, h1)" by fastforce
  have ok: "async_ok c (s, h)" "legal async_ok (async_step mv) cs (s1, h1)" using Cons.prems(1) c by simp_all
  have i1: "async_inv (s1, h1)" using async_step_inv [OF Cons.prems(3) ok(1), of mv] c by simp
  have r1: "run (async_step mv) cs (s1, h1) = (s', h')" using Cons.prems(2) c by simp
  show ?case using Cons.IH [OF ok(2) r1 i1] history_grows_step [OF ok(1) c] by (metis append.assoc map_le_trans)
qed auto

section \<open>Properties\<close>


definition async_example :: "(nat, nat) async_cmd list" where
  "async_example = [AC_Promise None, AC_Then 0 (\<lambda>v. Inr (v + 1)) None, AC_Set 0 5, AC_Then 1 (\<lambda>v. Inl v) None]"


text \<open>
  C38: An exception ends a chain: a task that is chained to another before that fails is never ready, whatever happens
  afterwards, so a \<open>get\<close> of it, or of any task chained to it in turn, blocks for ever.
\<close>

theorem failure_stalls_chain:
  assumes "legal async_ok (async_step mv) (cs @ ds) (store_new, history_new)"
    and "run (async_step mv) cs (store_new, history_new) = (s, h)" and "run (async_step mv) ds (s, h) = (s', h')"
    and "expected i h = Some (Inl e)" and "k < length (tk_states s)" and "ah_origins h ! k = Some (i, f)"
  shows "\<not> is_ready k s' \<and> task_get mv k s' = (None, s') \<and>
    list_all (\<lambda>j. \<forall>g. ah_origins h' ! j = Some (k, g) \<longrightarrow> \<not> is_ready j s') [0..<length (tk_states s')]"
proof -
  have leg: "legal async_ok (async_step mv) cs (store_new, history_new)" "legal async_ok (async_step mv) ds (s, h)"
    using assms(1,2) by (simp_all add: legal_append)
  have inv: "async_inv (s, h)" using async.inv_run [OF leg(1)] assms(2) by simp
  obtain new where h': "ah_origins h' = ah_origins h @ new" "ah_given h \<subseteq>\<^sub>m ah_given h'" and inv': "async_inv (s', h')"
    using history_grows [OF leg(2) assms(3) inv] by blast
  have len: "length (ah_origins h) = length (tk_states s)" "length (ah_origins h') = length (tk_states s')"
    using inv inv' by (simp_all add: async_inv_def calls_ok_def)
  have k: "k < length (tk_states s')" "ah_origins h' ! k = Some (i, f)" using assms(5,6) len h'(1) by (auto simp: nth_append)
  have i: "i < k" using chained_lt [OF inv assms(5,6)] by (simp add: chained_ok_def)
  have "expected i h' = Some (Inl e)" using expected_grows [OF h'(2,1) _ assms(4)] i assms(5) len(1) by simp
  then have no: "expected k h' = None" using outcome_chained [OF k(2) i] by simp
  then have "\<not> is_ready k s'" using ready_expected [OF inv' k(1)] by (auto simp: is_ready_def)
  moreover have "\<not> is_ready j s'" if "j < length (tk_states s')" "ah_origins h' ! j = Some (k, g)" for j g
  proof -
    have "k < j" using chained_lt [OF inv' that] by (simp add: chained_ok_def)
    then have "expected j h' = None" using outcome_chained [OF that(2)] no by simp
    then show ?thesis using ready_expected [OF inv' that(1)] by (auto simp: is_ready_def)
  qed
  ultimately show ?thesis by (auto simp: list_all_iff task_get_def is_ready_def)
qed

theorem failure_stalls_chain_witness:
  "fst (task_get id 1 (fst (run (async_step id) [AC_Promise None, AC_Then 0 (\<lambda>v. Inr (v + 1)) None, AC_Fail 0 (3::nat), AC_Run 0]
     (store_new :: (nat, nat) task_store, history_new)))) = None"
proof -
  let ?cs = "[AC_Promise None, AC_Then 0 (\<lambda>v. Inr (v + 1)) None, AC_Fail 0 3] :: (nat, nat) async_cmd list"
  note ops = store_new_def history_new_def make_promise_def shared_new_def then_task_def set_exception_def put_state_def run_call_def
  have leg: "legal async_ok (async_step id) (?cs @ [AC_Run 0]) (store_new, history_new)" by (simp add: ops)
  obtain s h where r: "run (async_step id) ?cs (store_new, history_new) = (s, h)" by fastforce
  obtain s' h' where r': "run (async_step id) [AC_Run 0] (s, h) = (s', h')" by fastforce
  have "expected 0 h = Some (Inl 3)" "1 < length (tk_states s)" "ah_origins h ! 1 = Some (0, \<lambda>v. Inr (v + 1))"
    using r by (auto simp: ops task_outcome.simps)
  from failure_stalls_chain [OF leg r r' this] have "task_get id 1 s' = (None, s')" by blast
  moreover have "run (async_step id) (?cs @ [AC_Run 0]) (store_new, history_new) = (s', h')" unfolding run_append r r' ..
  ultimately show ?thesis by (simp del: run.simps async_step.simps)
qed

text \<open>
  Chaining to a task that has failed already reads a value that is not there; with a task without a value the continuation is
  called as if there had been no exception, which is lost.
\<close>

theorem chaining_to_failed_task:
  "tk_undefined (fst (run (async_step mv) [AC_Promise None, AC_Fail 0 e, AC_Then 0 f None, AC_Run 0] (store_new, history_new)))"
  "f u = Inr v \<Longrightarrow> fst (task_get mv 1 (fst (run (async_step mv) [AC_Promise (Some u), AC_Fail 0 e, AC_Then 0 f None, AC_Run 0]
     (store_new, history_new)))) = Some (Inr v)"
  by (simp_all add: store_new_def history_new_def make_promise_def shared_new_def then_task_def set_exception_def set_value_def
    put_state_def run_call_def take_value_def task_get_def)

text \<open>A second \<open>then\<close> on a task that is not ready replaces the first continuation.\<close>

theorem second_then_replaces:
  "tk_calls (set_value 0 v (then_task 0 g None (then_task 0 f None (make_promise None store_new)))) = [(0, g, 2)]"
  by (simp add: store_new_def make_promise_def shared_new_def then_task_def set_value_def put_state_def numeral_eq_Suc)

end
