(* ===== verification/Task_Storage.thy ===== *)
theory Task_Storage
  imports Prelude
begin

text \<open>
  The one-shot callable of the concurrency runtime with its small buffer: \<open>Task\<close>, from
  \<open>src/cunk/include/concurrency/executor/Task.h\<close>.

  What a task stores is an object that lives in its buffer or on the heap. Objects are numbered in the order
  of their construction; \<open>cs_alive\<close> are those whose destructor has not run, \<open>cs_callable\<close> says which of the callables given to
  tasks an object holds. Using an object that is not alive is undefined behaviour and sets \<open>cs_undefined\<close>. Callables are
  opaque: a call is an entry of \<open>cs_called\<close> with whether it threw.
\<close>

section \<open>State\<close>

datatype storage = SB_Garbage | SB_Object nat | SB_Pointer nat

text \<open>The two tables of functions.\<close>

datatype task_ops = OP_Inline | OP_Heap

record stored_task =
  st_ops :: "task_ops option"
  st_storage :: storage

record callable_store =
  cs_next :: nat
  cs_alive :: "nat set"
  cs_callable :: "nat \<Rightarrow> nat"
  cs_called :: "(nat \<times> bool) list"
  cs_undefined :: bool

definition callables_new :: callable_store where
  "callables_new = \<lparr>cs_next = 0, cs_alive = {}, cs_callable = (\<lambda>x. 0), cs_called = [], cs_undefined = False\<rparr>"

section \<open>Objects\<close>

definition construct_object :: "nat \<Rightarrow> callable_store \<Rightarrow> nat \<times> callable_store" where
  "construct_object c w =
     (cs_next w, w\<lparr>cs_next := cs_next w + 1, cs_alive := insert (cs_next w) (cs_alive w), cs_callable := (cs_callable w)(cs_next w := c)\<rparr>)"

definition use_object :: "nat \<Rightarrow> callable_store \<Rightarrow> callable_store" where
  "use_object x w = (if x \<in> cs_alive w then w else w\<lparr>cs_undefined := True\<rparr>)"

definition destroy_object :: "nat \<Rightarrow> callable_store \<Rightarrow> callable_store" where
  "destroy_object x w = (let w1 = use_object x w in w1\<lparr>cs_alive := cs_alive w1 - {x}\<rparr>)"

fun object_in :: "task_ops \<Rightarrow> storage \<Rightarrow> nat option" where
  "object_in OP_Inline (SB_Object x) = Some x"
| "object_in OP_Heap (SB_Pointer x) = Some x"
| "object_in _ _ = None"

definition on_object :: "task_ops \<Rightarrow> storage \<Rightarrow> (nat \<Rightarrow> callable_store \<Rightarrow> callable_store) \<Rightarrow> callable_store \<Rightarrow> callable_store" where
  "on_object ops st f w = (case object_in ops st of None \<Rightarrow> w\<lparr>cs_undefined := True\<rparr> | Some x \<Rightarrow> f x w)"

section \<open>The functions of the two tables\<close>

text \<open>\<open>invoke\<close>: when the callable throws, the exception leaves before the object is destroyed.\<close>

definition ops_invoke :: "task_ops \<Rightarrow> bool \<Rightarrow> storage \<Rightarrow> callable_store \<Rightarrow> callable_store" where
  "ops_invoke ops throws st w =
     on_object ops st (\<lambda>x w.
       let w1 = use_object x w; w2 = w1\<lparr>cs_called := cs_called w1 @ [(cs_callable w1 x, throws)]\<rparr>
       in if throws then w2 else destroy_object x w2) w"

definition ops_destroy :: "task_ops \<Rightarrow> storage \<Rightarrow> callable_store \<Rightarrow> callable_store" where
  "ops_destroy ops st w = on_object ops st destroy_object w"

text \<open>\<open>move\<close>: the new content of the destination.\<close>

definition ops_move :: "task_ops \<Rightarrow> storage \<Rightarrow> callable_store \<Rightarrow> storage \<times> callable_store" where
  "ops_move ops src w =
     (case ops of
        OP_Inline \<Rightarrow>
          (case object_in OP_Inline src of
             None \<Rightarrow> (SB_Garbage, w\<lparr>cs_undefined := True\<rparr>)
           | Some x \<Rightarrow>
               let (y, w1) = construct_object (cs_callable w x) (use_object x w) in (SB_Object y, destroy_object x w1))
      | OP_Heap \<Rightarrow> (src, w))"

section \<open>Tasks\<close>

definition task_empty :: stored_task where
  "task_empty = \<lparr>st_ops = None, st_storage = SB_Garbage\<rparr>"

text \<open>Construction from a callable, which fits into the buffer or not.\<close>

definition task_construct :: "bool \<Rightarrow> nat \<Rightarrow> callable_store \<Rightarrow> stored_task \<times> callable_store" where
  "task_construct small c w =
     (let (x, w1) = construct_object c w
      in (if small then \<lparr>st_ops = Some OP_Inline, st_storage = SB_Object x\<rparr>
          else \<lparr>st_ops = Some OP_Heap, st_storage = SB_Pointer x\<rparr>, w1))"

definition task_take :: "stored_task \<Rightarrow> stored_task \<Rightarrow> callable_store \<Rightarrow> stored_task \<times> stored_task \<times> callable_store" where
  "task_take dst src w =
     (case st_ops src of
        None \<Rightarrow> (dst, src, w)
      | Some ops \<Rightarrow>
          let (st, w1) = ops_move ops (st_storage src) w
          in (\<lparr>st_ops = Some ops, st_storage = st\<rparr>, src\<lparr>st_ops := None\<rparr>, w1))"

definition task_destroy :: "stored_task \<Rightarrow> callable_store \<Rightarrow> stored_task \<times> callable_store" where
  "task_destroy t w =
     (case st_ops t of
        None \<Rightarrow> (t, w)
      | Some ops \<Rightarrow> (t\<lparr>st_ops := None\<rparr>, ops_destroy ops (st_storage t) w))"

definition task_move_construct :: "stored_task \<Rightarrow> callable_store \<Rightarrow> stored_task \<times> stored_task \<times> callable_store" where
  "task_move_construct src w = task_take task_empty src w"

definition task_move_assign :: "stored_task \<Rightarrow> stored_task \<Rightarrow> callable_store \<Rightarrow> stored_task \<times> stored_task \<times> callable_store" where
  "task_move_assign dst src w = (let (dst1, w1) = task_destroy dst w in task_take dst1 src w1)"

definition task_invoke :: "bool \<Rightarrow> stored_task \<Rightarrow> callable_store \<Rightarrow> stored_task \<times> callable_store" where
  "task_invoke throws t w =
     (case st_ops t of
        None \<Rightarrow> (t, w)
      | Some ops \<Rightarrow> (if throws then t else t\<lparr>st_ops := None\<rparr>, ops_invoke ops throws (st_storage t) w))"

definition task_bool :: "stored_task \<Rightarrow> bool" where
  "task_bool t \<longleftrightarrow> st_ops t \<noteq> None"

section \<open>Runs\<close>

text \<open>The tasks that exist, by name; a callable is numbered by the construction it is given to.\<close>

record task_world =
  tw_tasks :: "nat \<Rightarrow> stored_task option"
  tw_given :: nat
  tw_store :: callable_store

datatype task_cmd =
    TC_Empty nat
  | TC_Construct nat bool
  | TC_Move nat nat
  | TC_Assign nat nat
  | TC_Invoke nat bool
  | TC_Destroy nat

definition world_new :: task_world where
  "world_new = \<lparr>tw_tasks = Map.empty, tw_given = 0, tw_store = callables_new\<rparr>"

fun task_step :: "task_cmd \<Rightarrow> task_world \<Rightarrow> task_world" where
  "task_step (TC_Empty i) w = w\<lparr>tw_tasks := (tw_tasks w)(i \<mapsto> task_empty)\<rparr>"
| "task_step (TC_Construct i small) w =
     (let (t, s) = task_construct small (tw_given w) (tw_store w)
      in w\<lparr>tw_tasks := (tw_tasks w)(i \<mapsto> t), tw_given := tw_given w + 1, tw_store := s\<rparr>)"
| "task_step (TC_Move i j) w =
     (let (t, t', s) = task_move_construct (the (tw_tasks w j)) (tw_store w)
      in w\<lparr>tw_tasks := (tw_tasks w)(i \<mapsto> t, j \<mapsto> t'), tw_store := s\<rparr>)"
| "task_step (TC_Assign i j) w =
     (if i = j then w
      else let (t, t', s) = task_move_assign (the (tw_tasks w i)) (the (tw_tasks w j)) (tw_store w)
           in w\<lparr>tw_tasks := (tw_tasks w)(i \<mapsto> t, j \<mapsto> t'), tw_store := s\<rparr>)"
| "task_step (TC_Invoke i throws) w =
     (let (t, s) = task_invoke throws (the (tw_tasks w i)) (tw_store w)
      in w\<lparr>tw_tasks := (tw_tasks w)(i \<mapsto> t), tw_store := s\<rparr>)"
| "task_step (TC_Destroy i) w =
     w\<lparr>tw_tasks := (tw_tasks w)(i := None), tw_store := snd (task_destroy (the (tw_tasks w i)) (tw_store w))\<rparr>"

fun task_legal :: "task_cmd \<Rightarrow> task_world \<Rightarrow> bool" where
  "task_legal (TC_Empty i) w \<longleftrightarrow> tw_tasks w i = None"
| "task_legal (TC_Construct i small) w \<longleftrightarrow> tw_tasks w i = None"
| "task_legal (TC_Move i j) w \<longleftrightarrow> tw_tasks w i = None \<and> tw_tasks w j \<noteq> None"
| "task_legal (TC_Assign i j) w \<longleftrightarrow> tw_tasks w i \<noteq> None \<and> tw_tasks w j \<noteq> None"
| "task_legal (TC_Invoke i throws) w \<longleftrightarrow> tw_tasks w i \<noteq> None"
| "task_legal (TC_Destroy i) w \<longleftrightarrow> tw_tasks w i \<noteq> None"

section \<open>Ownership\<close>

text \<open>The object of a task, if it holds one.\<close>

definition held_object :: "stored_task option \<Rightarrow> nat option" where
  "held_object t = (case t of None \<Rightarrow> None | Some t \<Rightarrow> (case st_ops t of None \<Rightarrow> None | Some ops \<Rightarrow> object_in ops (st_storage t)))"

definition well_stored :: "stored_task option \<Rightarrow> bool" where
  "well_stored t \<longleftrightarrow> (case t of None \<Rightarrow> True | Some t \<Rightarrow> st_ops t \<noteq> None \<longrightarrow> held_object (Some t) \<noteq> None)"

text \<open>How often a callable has returned.\<close>

definition returns :: "nat \<Rightarrow> callable_store \<Rightarrow> nat" where
  "returns c s = count_list (cs_called s) (c, False)"

text \<open>
  Every object that is alive belongs to one task, no two hold the same callable, and a callable that has
  returned is held by none.
\<close>

definition ownership :: "(nat \<Rightarrow> nat option) \<Rightarrow> nat \<Rightarrow> callable_store \<Rightarrow> bool" where
  "ownership own given s \<longleftrightarrow> \<not> cs_undefined s \<and> cs_alive s = ran own \<and>
     (\<forall>i j x. own i = Some x \<and> own j = Some x \<longrightarrow> i = j) \<and>
     (\<forall>x \<in> cs_alive s. x < cs_next s \<and> cs_callable s x < given \<and> returns (cs_callable s x) s = 0) \<and>
     (\<forall>x \<in> cs_alive s. \<forall>y \<in> cs_alive s. cs_callable s x = cs_callable s y \<longrightarrow> x = y) \<and>
     (\<forall>c. returns c s \<le> 1) \<and> (\<forall>c \<ge> given. returns c s = 0)"

definition world_inv :: "task_world \<Rightarrow> bool" where
  "world_inv w \<longleftrightarrow> (\<forall>i. well_stored (tw_tasks w i)) \<and> ownership (\<lambda>i. held_object (tw_tasks w i)) (tw_given w) (tw_store w)"

lemma owned_alive: "ownership own given s \<Longrightarrow> own i = Some x \<Longrightarrow> x \<in> cs_alive s"
  by (auto simp: ownership_def ran_def)

lemma ran_drop:
  assumes "\<forall>i j x. own i = Some x \<and> own j = Some x \<longrightarrow> i = j" and "own i = Some x"
  shows "ran (own(i := None)) = ran own - {x}"
proof
  show "ran (own(i := None)) \<subseteq> ran own - {x}" using assms by (auto simp: ran_def split: if_splits)
  show "ran own - {x} \<subseteq> ran (own(i := None))"
  proof
    fix y assume "y \<in> ran own - {x}"
    then obtain a where "own a = Some y" "y \<noteq> x" by (auto simp: ran_def)
    then have "(own(i := None)) a = Some y" using assms(2) by auto
    then show "y \<in> ran (own(i := None))" by (rule ranI)
  qed
qed

lemma ownership_new:
  assumes "ownership own given s" and "own i = None"
  shows "ownership (own(i \<mapsto> cs_next s)) (given + 1) (snd (construct_object given s))"
proof -
  have "cs_next s \<notin> ran own" using assms(1) by (auto simp: ownership_def)
  moreover have "ran (own(i \<mapsto> cs_next s)) = insert (cs_next s) (ran own)" using assms(2) by simp
  ultimately show ?thesis
    using assms(1) unfolding ownership_def
    by (auto simp: construct_object_def returns_def ran_def less_Suc_eq split: if_splits)
qed

lemma ownership_drop:
  assumes "ownership own given s" and "own i = Some x"
  shows "ownership (own(i := None)) given (destroy_object x s)"
proof -
  have "ran (own(i := None)) = ran own - {x}" using assms by (intro ran_drop) (auto simp: ownership_def)
  then show ?thesis using assms owned_alive [OF assms]
    by (auto simp: ownership_def destroy_object_def use_object_def Let_def returns_def split: if_splits)
qed

lemma ownership_hand_over:
  assumes "ownership own given s" and "own j = Some x" and "own i = None"
  shows "ownership (own(i \<mapsto> x, j := None)) given s"
proof -
  have "i \<noteq> j" using assms by auto
  have "ran ((own(i \<mapsto> x))(j := None)) = ran own"
  proof -
    have "ran (own(j := None)) = ran own - {x}" using assms by (intro ran_drop) (auto simp: ownership_def)
    then have "ran ((own(j := None))(i \<mapsto> x)) = insert x (ran own - {x})" using assms(3) \<open>i \<noteq> j\<close> by simp
    moreover have "(own(j := None))(i \<mapsto> x) = (own(i \<mapsto> x))(j := None)" using \<open>i \<noteq> j\<close> by (simp add: fun_upd_twist)
    ultimately show ?thesis using assms(2) by (auto intro: ranI)
  qed
  then show ?thesis using assms by (auto simp: ownership_def split: if_splits)
qed

lemma ownership_move:
  assumes "ownership own given s" and "own j = Some x" and "own i = None"
  shows "ownership (own(i \<mapsto> cs_next s, j := None)) given (destroy_object x (snd (construct_object (cs_callable s x) (use_object x s))))"
proof -
  have ij: "i \<noteq> j" and x: "x \<in> cs_alive s" using assms owned_alive [OF assms(1,2)] by auto
  have fresh: "cs_next s \<notin> cs_alive s" "x \<noteq> cs_next s" using assms(1) x by (auto simp: ownership_def)
  have "ran (own(i \<mapsto> cs_next s, j := None)) = insert (cs_next s) (ran own) - {x}"
  proof -
    have "ran (own(j := None)) = ran own - {x}" using assms by (intro ran_drop) (auto simp: ownership_def)
    then have "ran ((own(j := None))(i \<mapsto> cs_next s)) = insert (cs_next s) (ran own - {x})" using assms(3) ij by simp
    moreover have "(own(j := None))(i \<mapsto> cs_next s) = (own(i \<mapsto> cs_next s))(j := None)" using ij by (simp add: fun_upd_twist)
    ultimately show ?thesis using fresh(2) by auto
  qed
  then have alive: "insert (cs_next s) (cs_alive s) - {x} = ran (own(i \<mapsto> cs_next s, j := None))"
    using assms(1) by (simp add: ownership_def)
  define s' where "s' = destroy_object x (snd (construct_object (cs_callable s x) (use_object x s)))"
  have s': "cs_undefined s' = cs_undefined s" "cs_alive s' = insert (cs_next s) (cs_alive s) - {x}" "cs_next s' = cs_next s + 1"
    "cs_callable s' = (cs_callable s)(cs_next s := cs_callable s x)" "cs_called s' = cs_called s"
    using x fresh by (auto simp: s'_def destroy_object_def use_object_def construct_object_def Let_def)
  have returns: "returns c s' = returns c s" for c by (simp add: returns_def s'(5))
  note old = assms(1) [unfolded ownership_def]
  have "a = b" if "(own(i \<mapsto> cs_next s, j := None)) a = Some z" "(own(i \<mapsto> cs_next s, j := None)) b = Some z" for a b z
  proof -
    have "own c \<noteq> Some (cs_next s)" for c using fresh(1) owned_alive [OF assms(1)] by blast
    then show ?thesis using that old by (metis fun_upd_apply option.distinct(1) option.inject)
  qed
  moreover have "y < cs_next s' \<and> cs_callable s' y < given \<and> returns (cs_callable s' y) s' = 0" if "y \<in> cs_alive s'" for y
    using that x old by (cases "y = cs_next s") (auto simp: s' returns less_SucI)
  moreover have "y = z" if "y \<in> cs_alive s'" "z \<in> cs_alive s'" "cs_callable s' y = cs_callable s' z" for y z
    using that x fresh old unfolding s' by (metis Diff_iff fun_upd_apply insert_iff singletonI)
  ultimately show ?thesis using old alive unfolding ownership_def s'_def [symmetric] s'(1,2) returns by (metis s'(2))
qed

lemma returns_snoc: "returns c (s\<lparr>cs_called := cs_called s @ [(d, b)]\<rparr>) = returns c s + (if d = c \<and> \<not> b then 1 else 0)"
  by (simp add: returns_def)

lemma ownership_throw:
  assumes "ownership own given s" and "own i = Some x"
  shows "ownership own given (s\<lparr>cs_called := cs_called s @ [(cs_callable s x, True)]\<rparr>)"
  using assms by (simp add: ownership_def returns_snoc)

lemma ownership_return:
  assumes "ownership own given s" and "own i = Some x"
  shows "ownership (own(i := None)) given (destroy_object x (s\<lparr>cs_called := cs_called s @ [(cs_callable s x, False)]\<rparr>))"
proof -
  have x: "x \<in> cs_alive s" by (rule owned_alive [OF assms])
  have "ran (own(i := None)) = ran own - {x}" using assms by (intro ran_drop) (auto simp: ownership_def)
  then show ?thesis using assms x
    by (auto simp: ownership_def destroy_object_def use_object_def Let_def returns_def split: if_splits) (metis not_le)
qed

section \<open>Every operation keeps the invariant\<close>

lemma held_simps [simp]:
  "held_object None = None" "held_object (Some \<lparr>st_ops = None, st_storage = b\<rparr>) = None"
  "held_object (Some \<lparr>st_ops = Some ops, st_storage = b\<rparr>) = object_in ops b"
  by (simp_all add: held_object_def)

lemma owned_cases:
  assumes "well_stored (Some t)"
  obtains (none) "st_ops t = None" "held_object (Some t) = None"
  | (buffer) x where "t = \<lparr>st_ops = Some OP_Inline, st_storage = SB_Object x\<rparr>" "held_object (Some t) = Some x"
  | (heap) x where "t = \<lparr>st_ops = Some OP_Heap, st_storage = SB_Pointer x\<rparr>" "held_object (Some t) = Some x"
proof (cases "st_ops t")
  case None
  then show thesis by (intro none) (simp_all add: held_object_def)
next
  case (Some ops)
  obtain b where t: "t = \<lparr>st_ops = Some ops, st_storage = b\<rparr>" using Some by (cases t) simp
  have "object_in ops b \<noteq> None" using assms t by (auto simp: well_stored_def)
  then show thesis using buffer heap t by (cases ops; cases b) auto
qed

lemma world_invI:
  assumes "\<And>k. well_stored (ts' k)" and "ownership own given s" and "(\<lambda>k. held_object (ts' k)) = own"
  shows "world_inv \<lparr>tw_tasks = ts', tw_given = given, tw_store = s\<rparr>"
  using assms by (simp add: world_inv_def)

definition releases :: "stored_task \<Rightarrow> (nat \<Rightarrow> nat option) \<Rightarrow> nat \<Rightarrow> nat \<Rightarrow> callable_store \<Rightarrow> bool" where
  "releases t own given i s \<longleftrightarrow> own i = None \<and> ownership own given s \<and> st_ops t = None"

lemma destroy_releases:
  assumes "well_stored (Some t)" and "ownership own given s" and "own i = held_object (Some t)"
  shows "releases (fst (task_destroy t s)) (own(i := None)) given i (snd (task_destroy t s))"
  using assms(1)
proof (cases rule: owned_cases)
  case none
  then show ?thesis using assms by (simp add: releases_def task_destroy_def) (metis fun_upd_triv)
qed (use assms in \<open>simp_all add: releases_def task_destroy_def ops_destroy_def on_object_def ownership_drop\<close>)

lemma invoke_ownership:
  assumes "well_stored (Some t)" and "ownership own given s" and "own i = held_object (Some t)" and "task_invoke throws t s = (t', s')"
  shows "well_stored (Some t') \<and> ownership (own(i := held_object (Some t'))) given s'"
  using assms(1)
proof (cases rule: owned_cases)
  case none
  then show ?thesis using assms by (simp add: task_invoke_def) (metis fun_upd_triv)
next
  case (buffer x)
  then have x: "own i = Some x" "x \<in> cs_alive s" using assms(3) owned_alive [OF assms(2)] by auto
  show ?thesis
    using assms(4) buffer x ownership_throw [OF assms(2) x(1)] ownership_return [OF assms(2) x(1)] fun_upd_triv [of own i]
    by (cases throws) (auto simp: task_invoke_def ops_invoke_def on_object_def use_object_def Let_def well_stored_def)
next
  case (heap x)
  then have x: "own i = Some x" "x \<in> cs_alive s" using assms(3) owned_alive [OF assms(2)] by auto
  show ?thesis
    using assms(4) heap x ownership_throw [OF assms(2) x(1)] ownership_return [OF assms(2) x(1)] fun_upd_triv [of own i]
    by (cases throws) (auto simp: task_invoke_def ops_invoke_def on_object_def use_object_def Let_def well_stored_def)
qed

lemma take_ownership:
  assumes "well_stored (Some src)" and "ownership own given s" and "own j = held_object (Some src)" and "own i = None" and "i \<noteq> j"
    and "st_ops dst = None" and "task_take dst src s = (t, t', s')"
  shows "well_stored (Some t) \<and> well_stored (Some t') \<and> ownership (own(i := held_object (Some t), j := held_object (Some t'))) given s'"
  using assms(1)
proof (cases rule: owned_cases)
  case none
  then have "t = dst" "t' = src" "s' = s" using assms(7) by (simp_all add: task_take_def)
  then show ?thesis using assms none by (auto simp: well_stored_def held_object_def fun_upd_idem)
next
  case (buffer x)
  then have x: "own j = Some x" "x \<in> cs_alive s" using assms(3) owned_alive [OF assms(2)] by auto
  then show ?thesis
    using assms(7) buffer ownership_move [OF assms(2) x(1) assms(4)]
    by (auto simp: task_take_def ops_move_def well_stored_def construct_object_def use_object_def)
next
  case (heap x)
  then have x: "own j = Some x" using assms(3) by simp
  then show ?thesis
    using assms(7) heap ownership_hand_over [OF assms(2) x assms(4)]
    by (auto simp: task_take_def ops_move_def well_stored_def)
qed

lemma task_step_inv:
  assumes inv: "world_inv w" and ok: "task_legal c w"
  shows "world_inv (task_step c w)"
proof -
  obtain ts given s where w: "w = \<lparr>tw_tasks = ts, tw_given = given, tw_store = s\<rparr>" by (cases w) auto
  let ?own = "\<lambda>k. held_object (ts k)"
  have ws: "well_stored (ts k)" for k using inv by (simp add: world_inv_def w)
  have own: "ownership ?own given s" using inv by (simp add: world_inv_def w)
  show ?thesis
  proof (cases c)
    case (TC_Empty i)
    then have "?own i = None" using ok by (simp add: w)
    then show ?thesis using TC_Empty ws own unfolding w
      by (auto intro!: world_invI [OF _ own] simp: well_stored_def task_empty_def)
  next
    case (TC_Construct i small)
    then have i: "?own i = None" using ok by (simp add: w)
    obtain t s' where t: "task_construct small given s = (t, s')" by fastforce
    then have "held_object (Some t) = Some (cs_next s)" "well_stored (Some t)" "s' = snd (construct_object given s)"
      by (auto simp: task_construct_def construct_object_def well_stored_def split: if_splits)
    moreover have "ownership (?own(i \<mapsto> cs_next s)) (Suc given) (snd (construct_object given s))" using ownership_new [OF own i] by simp
    ultimately show ?thesis using TC_Construct ws t unfolding w by (auto intro!: world_invI)
  next
    case (TC_Move i j)
    then obtain src where j: "ts j = Some src" and i: "ts i = None" using ok by (auto simp: w)
    then have ij: "i \<noteq> j" by auto
    obtain t t' s' where t: "task_take task_empty src s = (t, t', s')" by (metis prod_cases3)
    have "well_stored (Some t) \<and> well_stored (Some t') \<and> ownership (?own(i := held_object (Some t), j := held_object (Some t'))) given s'"
      by (rule take_ownership [OF _ own _ _ ij _ t]) (use ws [of j] i j in \<open>simp_all add: task_empty_def\<close>)
    then show ?thesis using TC_Move ws i j t unfolding w
      by (auto intro!: world_invI simp: task_move_construct_def)
  next
    case (TC_Assign i j)
    then obtain dst src where j: "ts j = Some src" and i: "ts i = Some dst" using ok by (auto simp: w)
    show ?thesis
    proof (cases "i = j")
      case True
      then show ?thesis using TC_Assign inv by simp
    next
      case False
      obtain dst1 s1 where d: "task_destroy dst s = (dst1, s1)" by fastforce
      have rel: "releases dst1 (?own(i := None)) given i s1"
        using destroy_releases [of dst ?own given s i] ws [of i] own i d by simp
      obtain t t' s' where t: "task_take dst1 src s1 = (t, t', s')" by (metis prod_cases3)
      have "well_stored (Some t) \<and> well_stored (Some t') \<and> ownership ((?own(i := None))(i := held_object (Some t), j := held_object (Some t'))) given s'"
        by (rule take_ownership [OF _ _ _ _ False _ t]) (use rel ws [of j] i j False in \<open>simp_all add: releases_def\<close>)
      then show ?thesis using TC_Assign ws i j t d False unfolding w
        by (auto intro!: world_invI simp: task_move_assign_def)
    qed
  next
    case (TC_Invoke i throws)
    then obtain t where i: "ts i = Some t" using ok by (auto simp: w)
    obtain t' s' where t: "task_invoke throws t s = (t', s')" by fastforce
    have "well_stored (Some t') \<and> ownership (?own(i := held_object (Some t'))) given s'"
      by (rule invoke_ownership [OF _ own _ t]) (use ws [of i] i in simp_all)
    then show ?thesis using TC_Invoke ws i t unfolding w by (auto intro!: world_invI)
  next
    case (TC_Destroy i)
    then obtain t where i: "ts i = Some t" using ok by (auto simp: w)
    have "releases (fst (task_destroy t s)) (?own(i := None)) given i (snd (task_destroy t s))"
      using destroy_releases [of t ?own given s i] ws [of i] own i by simp
    then show ?thesis using TC_Destroy ws i unfolding w by (auto intro!: world_invI simp: releases_def well_stored_def [of None])
  qed
qed

interpretation tasks: transition_system task_step world_new world_inv task_legal
proof
  show "world_inv world_new" by (simp add: world_inv_def world_new_def callables_new_def ownership_def well_stored_def returns_def ran_def)
qed (rule task_step_inv)

section \<open>Properties\<close>

text \<open>
  A task owns its callable and calls it to its end at most once. In any sequence of constructions, moves, calls and destructions of
  tasks, with callables in the buffer or on the heap that return or throw, no object is used after its destruction, the
  objects alive are those held by the tasks, each by one, and a callable that has returned is held by no task; when all tasks have been
  destroyed no object is left.
\<close>

theorem tasks_own_callables:
  assumes "legal task_legal task_step cs world_new" and "w = run task_step cs world_new"
  shows "\<not> cs_undefined (tw_store w) \<and> returns c (tw_store w) \<le> 1 \<and>
    (\<forall>x. x \<in> cs_alive (tw_store w) \<longleftrightarrow> (\<exists>!i. held_object (tw_tasks w i) = Some x)) \<and>
    (\<forall>x \<in> cs_alive (tw_store w). returns (cs_callable (tw_store w) x) (tw_store w) = 0) \<and>
    (tw_tasks w = Map.empty \<longrightarrow> cs_alive (tw_store w) = {})"
proof -
  have "world_inv w" using tasks.inv_run [OF assms(1)] assms(2) by simp
  then have own: "ownership (\<lambda>i. held_object (tw_tasks w i)) (tw_given w) (tw_store w)" by (simp add: world_inv_def)
  then have "x \<in> cs_alive (tw_store w) \<longleftrightarrow> (\<exists>!i. held_object (tw_tasks w i) = Some x)" for x
    unfolding ownership_def ran_def by blast
  moreover have "tw_tasks w = Map.empty \<Longrightarrow> cs_alive (tw_store w) = {}"
    using own by (simp add: ownership_def ran_def)
  ultimately show ?thesis using own unfolding ownership_def by blast
qed

theorem tasks_own_callables_witness:
  "cs_alive (tw_store (run task_step [TC_Construct 0 True, TC_Invoke 0 True, TC_Move 1 0, TC_Construct 2 False, TC_Assign 2 1, TC_Invoke 2 False,
     TC_Destroy 0, TC_Destroy 1, TC_Destroy 2] world_new)) = {}"
proof -
  let ?cs = "[TC_Construct 0 True, TC_Invoke 0 True, TC_Move 1 0, TC_Construct 2 False, TC_Assign 2 1, TC_Invoke 2 False,
     TC_Destroy 0, TC_Destroy 1, TC_Destroy 2]"
  note ops = world_new_def callables_new_def task_construct_def construct_object_def task_invoke_def ops_invoke_def on_object_def
    use_object_def destroy_object_def task_move_construct_def task_move_assign_def task_take_def ops_move_def task_destroy_def ops_destroy_def
    task_empty_def
  have leg: "legal task_legal task_step ?cs world_new" by (simp add: ops Let_def)
  have "tw_tasks (run task_step ?cs world_new) = Map.empty" by (simp add: ops Let_def fun_eq_iff)
  then show ?thesis using tasks_own_callables [OF leg refl] by blast
qed

text \<open>A task whose callable throws is not empty afterwards: the next call runs the callable again.\<close>

lemma throwing_task_runs_again:
  "cs_called (tw_store (run task_step [TC_Construct 0 small, TC_Invoke 0 True, TC_Invoke 0 True, TC_Invoke 0 False, TC_Invoke 0 False] world_new)) =
     [(0, True), (0, True), (0, False)]"
  by (cases small) (simp_all add: world_new_def callables_new_def task_construct_def construct_object_def task_invoke_def ops_invoke_def
    on_object_def use_object_def destroy_object_def Let_def)

end
