(* ===== verification/Runtime_Metrics.thy ===== *)
theory Runtime_Metrics
  imports Text_Conversion
begin

text \<open>
  The metrics of the concurrency runtime: counters, gauges, latency trackers and their registry, from
  \<open>src/cunk/include/concurrency/metrics/Metrics.h\<close>.

  All values are atomics. The methods of counters and gauges are single atomic operations; recording a latency
  takes several, which threads interleave: \<open>tracker_step\<close> is one atomic operation of one call of \<open>record\<close>, and a weak compare-and-exchange
  may fail for no reason.
\<close>

section \<open>Latency trackers\<close>

record latency_tracker =
  lt_count :: int
  lt_min :: int
  lt_max :: int
  lt_sum :: int

definition INT64_MAX :: int where "INT64_MAX = 2 ^ 63 - 1"

definition tracker_new :: latency_tracker where
  "tracker_new = \<lparr>lt_count = 0, lt_min = INT64_MAX, lt_max = 0, lt_sum = 0\<rparr>"

text \<open>Where a call of \<open>record\<close> is; the two loops hold the value they have read.\<close>

datatype record_pc = RP_Count | RP_Sum | RP_Load_Min | RP_Min int | RP_Load_Max | RP_Max int | RP_Done

definition record_step :: "bool \<Rightarrow> int \<Rightarrow> record_pc \<Rightarrow> latency_tracker \<Rightarrow> record_pc \<times> latency_tracker" where
  "record_step spurious ns pc l =
     (case pc of
        RP_Count \<Rightarrow> (RP_Sum, l\<lparr>lt_count := u64 (lt_count l + 1)\<rparr>)
      | RP_Sum \<Rightarrow> (RP_Load_Min, l\<lparr>lt_sum := i64 (lt_sum l + ns)\<rparr>)
      | RP_Load_Min \<Rightarrow> (RP_Min (lt_min l), l)
      | RP_Min cur \<Rightarrow>
          if ns < cur then
            if lt_min l = cur \<and> \<not> spurious then (RP_Load_Max, l\<lparr>lt_min := ns\<rparr>) else (RP_Min (lt_min l), l)
          else (RP_Load_Max, l)
      | RP_Load_Max \<Rightarrow> (RP_Max (lt_max l), l)
      | RP_Max cur \<Rightarrow>
          if ns > cur then
            if lt_max l = cur \<and> \<not> spurious then (RP_Done, l\<lparr>lt_max := ns\<rparr>) else (RP_Max (lt_max l), l)
          else (RP_Done, l)
      | RP_Done \<Rightarrow> (RP_Done, l))"

definition tracker_reset :: "latency_tracker \<Rightarrow> latency_tracker" where
  "tracker_reset l = l\<lparr>lt_count := 0, lt_min := INT64_MAX, lt_max := 0, lt_sum := 0\<rparr>"

definition avg_ns :: "latency_tracker \<Rightarrow> double" where
  "avg_ns l = (if lt_count l > 0 then ddiv (of_i64 (lt_sum l)) (rnd (of_int (lt_count l))) else 0)"

text \<open>A call of \<open>record\<close> that no other thread disturbs.\<close>

definition latency_record :: "int \<Rightarrow> latency_tracker \<Rightarrow> latency_tracker" where
  "latency_record ns l = snd ((\<lambda>(pc, l). record_step False ns pc l) ((\<lambda>(pc, l). record_step False ns pc l)
     ((\<lambda>(pc, l). record_step False ns pc l) ((\<lambda>(pc, l). record_step False ns pc l)
     ((\<lambda>(pc, l). record_step False ns pc l) (record_step False ns RP_Count l))))))"

text \<open>Calls of \<open>record\<close> with their samples, in the order in which they begin.\<close>

record tracker_run =
  tr_tracker :: latency_tracker
  tr_calls :: "(int \<times> record_pc) list"

datatype tracker_cmd = TR_Record int | TR_Step nat bool

fun tracker_step :: "tracker_cmd \<Rightarrow> tracker_run \<Rightarrow> tracker_run" where
  "tracker_step (TR_Record ns) s = s\<lparr>tr_calls := tr_calls s @ [(ns, RP_Count)]\<rparr>"
| "tracker_step (TR_Step i spurious) s =
     (if i < length (tr_calls s)
      then let (ns, pc) = tr_calls s ! i; (pc', l) = record_step spurious ns pc (tr_tracker s)
           in s\<lparr>tr_tracker := l, tr_calls := (tr_calls s)[i := (ns, pc')]\<rparr>
      else s)"

fun tracker_ok :: "tracker_cmd \<Rightarrow> tracker_run \<Rightarrow> bool" where
  "tracker_ok (TR_Record ns) s \<longleftrightarrow> in_i64 ns"
| "tracker_ok (TR_Step i spurious) s \<longleftrightarrow> True"

definition tracker_run_new :: tracker_run where
  "tracker_run_new = \<lparr>tr_tracker = tracker_new, tr_calls = []\<rparr>"

section \<open>The registry\<close>

record metrics_registry =
  mr_counters :: "string \<rightharpoonup> int"
  mr_gauges :: "string \<rightharpoonup> int"
  mr_latencies :: "string \<rightharpoonup> latency_tracker"

definition registry_new :: metrics_registry where
  "registry_new = \<lparr>mr_counters = Map.empty, mr_gauges = Map.empty, mr_latencies = Map.empty\<rparr>"

text \<open>\<open>try_emplace\<close>.\<close>

definition emplace :: "string \<Rightarrow> 'a \<Rightarrow> (string \<rightharpoonup> 'a) \<Rightarrow> (string \<rightharpoonup> 'a)" where
  "emplace k v m = (if m k = None then m(k \<mapsto> v) else m)"

definition on_counter :: "string \<Rightarrow> (int \<Rightarrow> int) \<Rightarrow> metrics_registry \<Rightarrow> metrics_registry" where
  "on_counter k f r = (let m = emplace k 0 (mr_counters r) in r\<lparr>mr_counters := m(k \<mapsto> f (the (m k)))\<rparr>)"

definition on_gauge :: "string \<Rightarrow> (int \<Rightarrow> int) \<Rightarrow> metrics_registry \<Rightarrow> metrics_registry" where
  "on_gauge k f r = (let m = emplace k 0 (mr_gauges r) in r\<lparr>mr_gauges := m(k \<mapsto> f (the (m k)))\<rparr>)"

definition on_latency :: "string \<Rightarrow> (latency_tracker \<Rightarrow> latency_tracker) \<Rightarrow> metrics_registry \<Rightarrow> metrics_registry" where
  "on_latency k f r = (let m = emplace k tracker_new (mr_latencies r) in r\<lparr>mr_latencies := m(k \<mapsto> f (the (m k)))\<rparr>)"

definition counter_increment :: "int \<Rightarrow> int \<Rightarrow> int" where "counter_increment n v = u64 (v + n)"

definition counter_reset :: "int \<Rightarrow> int" where "counter_reset v = 0"

definition gauge_set :: "int \<Rightarrow> int \<Rightarrow> int" where "gauge_set n v = n"

definition gauge_increment :: "int \<Rightarrow> int \<Rightarrow> int" where "gauge_increment n v = i64 (v + n)"

definition gauge_decrement :: "int \<Rightarrow> int \<Rightarrow> int" where "gauge_decrement n v = i64 (v - n)"

datatype metric_cmd =
    MT_Count string int
  | MT_Count_Reset string
  | MT_Set string int
  | MT_Up string int
  | MT_Down string int
  | MT_Latency string int
  | MT_Latency_Reset string

fun registry_step :: "metric_cmd \<Rightarrow> metrics_registry \<Rightarrow> metrics_registry" where
  "registry_step (MT_Count k n) r = on_counter k (counter_increment n) r"
| "registry_step (MT_Count_Reset k) r = on_counter k counter_reset r"
| "registry_step (MT_Set k n) r = on_gauge k (gauge_set n) r"
| "registry_step (MT_Up k n) r = on_gauge k (gauge_increment n) r"
| "registry_step (MT_Down k n) r = on_gauge k (gauge_decrement n) r"
| "registry_step (MT_Latency k n) r = on_latency k (latency_record n) r"
| "registry_step (MT_Latency_Reset k) r = on_latency k tracker_reset r"

text \<open>What a sink is called with. The three lists of names are the iteration orders of the maps.\<close>

datatype sink_call = SC_Counter string int | SC_Gauge string int | SC_Latency string latency_tracker

definition report :: "string list \<Rightarrow> string list \<Rightarrow> string list \<Rightarrow> metrics_registry \<Rightarrow> sink_call list" where
  "report cs gs ls r =
     map (\<lambda>k. SC_Counter k (the (mr_counters r k))) cs @ map (\<lambda>k. SC_Gauge k (the (mr_gauges r k))) gs @
     map (\<lambda>k. SC_Latency k (the (mr_latencies r k))) ls"

definition dump_latency :: "string \<Rightarrow> latency_tracker \<Rightarrow> (string \<times> string) list" where
  "dump_latency k l =
     [(k @ ''.count'', int_str (lt_count l)), (k @ ''.avg_ns'', int_str (to_i64 (avg_ns l))),
      (k @ ''.min_ns'', int_str (lt_min l)), (k @ ''.max_ns'', int_str (lt_max l))]"

definition dump :: "string list \<Rightarrow> string list \<Rightarrow> string list \<Rightarrow> metrics_registry \<Rightarrow> (string \<times> string) list" where
  "dump cs gs ls r =
     map (\<lambda>k. (k, int_str (the (mr_counters r k)))) cs @ map (\<lambda>k. (k, int_str (the (mr_gauges r k)))) gs @
     concat (map (\<lambda>k. dump_latency k (the (mr_latencies r k))) ls)"

section \<open>Recording is a fold\<close>

lemma latency_record_eq:
  "latency_record ns l = l\<lparr>lt_count := u64 (lt_count l + 1), lt_sum := i64 (lt_sum l + ns), lt_min := min ns (lt_min l), lt_max := max ns (lt_max l)\<rparr>"
  by (cases l) (auto simp: latency_record_def record_step_def min_def max_def)

fun progress :: "record_pc \<Rightarrow> nat" where
  "progress RP_Count = 0"
| "progress RP_Sum = 1"
| "progress RP_Load_Min = 2"
| "progress (RP_Min cur) = 3"
| "progress RP_Load_Max = 4"
| "progress (RP_Max cur) = 5"
| "progress RP_Done = 6"

definition past :: "nat \<Rightarrow> (int \<times> record_pc) list \<Rightarrow> int list" where
  "past n calls = map fst (filter (\<lambda>c. n < progress (snd c)) calls)"

definition call_ok :: "latency_tracker \<Rightarrow> int \<times> record_pc \<Rightarrow> bool" where
  "call_ok l c \<longleftrightarrow> in_i64 (fst c) \<and> (3 < progress (snd c) \<longrightarrow> lt_min l \<le> fst c) \<and> (5 < progress (snd c) \<longrightarrow> fst c \<le> lt_max l) \<and>
     (\<forall>cur. snd c = RP_Min cur \<longrightarrow> lt_min l \<le> cur) \<and> (\<forall>cur. snd c = RP_Max cur \<longrightarrow> cur \<le> lt_max l)"

definition tracker_inv :: "tracker_run \<Rightarrow> bool" where
  "tracker_inv s \<longleftrightarrow> (let l = tr_tracker s; calls = tr_calls s in
     lt_count l = u64 (int (length (past 0 calls))) \<and> lt_sum l = i64 (sum_list (past 1 calls)) \<and>
     lt_min l \<in> insert INT64_MAX (fst ` set calls) \<and> lt_min l \<le> INT64_MAX \<and>
     lt_max l \<in> insert 0 (fst ` set calls) \<and> 0 \<le> lt_max l \<and> list_all (call_ok l) calls)"

lemma past_update:
  assumes "i < length calls" and "calls ! i = (ns, pc)" and "progress pc \<le> progress pc'"
  shows "length (past n (calls[i := (ns, pc')])) = length (past n calls) + (if progress pc \<le> n \<and> n < progress pc' then 1 else 0)"
    and "sum_list (past n (calls[i := (ns, pc')])) = sum_list (past n calls) + (if progress pc \<le> n \<and> n < progress pc' then ns else 0)"
proof -
  have "calls = take i calls @ (ns, pc) # drop (Suc i) calls" using id_take_nth_drop [OF assms(1)] assms(2) by simp
  then obtain as bs where c: "calls = as @ (ns, pc) # bs" "i = length as" using assms(1) by (metis length_take min.absorb2 less_imp_le)
  show "length (past n (calls[i := (ns, pc')])) = length (past n calls) + (if progress pc \<le> n \<and> n < progress pc' then 1 else 0)"
    "sum_list (past n (calls[i := (ns, pc')])) = sum_list (past n calls) + (if progress pc \<le> n \<and> n < progress pc' then ns else 0)"
    using assms(3) by (auto simp: c past_def)
qed

lemma uwrap_uwrap_add: "uwrap w (uwrap w x + y) = uwrap w (x + y)"
  by (simp add: uwrap_def mod_simps)

text \<open>One atomic operation: what it changes, and that it only lowers the minimum to a sample and raises the maximum to one.\<close>

lemma record_step_cases:
  assumes "record_step spurious ns pc l = (pc', l')" and "call_ok l (ns, pc)"
  shows "progress pc \<le> progress pc' \<and>
    lt_count l' = (if progress pc \<le> 0 \<and> 0 < progress pc' then u64 (lt_count l + 1) else lt_count l) \<and>
    lt_sum l' = (if progress pc \<le> 1 \<and> 1 < progress pc' then i64 (lt_sum l + ns) else lt_sum l) \<and>
    (lt_min l' = lt_min l \<or> lt_min l' = ns) \<and> lt_min l' \<le> lt_min l \<and>
    (lt_max l' = lt_max l \<or> lt_max l' = ns) \<and> lt_max l \<le> lt_max l' \<and> call_ok l' (ns, pc')"
  using assms by (cases pc) (auto simp: record_step_def call_ok_def split: if_splits)

lemma call_ok_mono: "call_ok l c \<Longrightarrow> lt_min l' \<le> lt_min l \<Longrightarrow> lt_max l \<le> lt_max l' \<Longrightarrow> call_ok l' c"
  by (fastforce simp: call_ok_def)

lemma tracker_step_inv:
  assumes inv: "tracker_inv s" and ok: "tracker_ok c s"
  shows "tracker_inv (tracker_step c s)"
proof (cases c)
  case (TR_Record ns)
  then show ?thesis using inv ok by (auto simp: tracker_inv_def Let_def past_def call_ok_def)
next
  case (TR_Step i spurious)
  show ?thesis
  proof (cases "i < length (tr_calls s)")
    case False
    then show ?thesis using TR_Step inv by simp
  next
    case True
    obtain ns pc where c: "tr_calls s ! i = (ns, pc)" by fastforce
    obtain pc' l' where st: "record_step spurious ns pc (tr_tracker s) = (pc', l')" by fastforce
    let ?calls = "(tr_calls s)[i := (ns, pc')]"
    have mem: "(ns, pc) \<in> set (tr_calls s)" using True c by (metis nth_mem)
    then have "call_ok (tr_tracker s) (ns, pc)" using inv by (auto simp: tracker_inv_def Let_def list_all_iff)
    note e = record_step_cases [OF st this]
    note p = past_update [OF True c conjunct1 [OF e]]
    have "fst ` set ?calls = fst ` set (tr_calls s)"
    proof -
      have "map fst ?calls = map fst (tr_calls s)" using True c by (simp add: map_update list_update_same_conv)
      then show ?thesis by (metis set_map)
    qed
    moreover have "ns \<in> fst ` set (tr_calls s)" using mem by force
    moreover have "list_all (call_ok l') ?calls"
      unfolding list_all_iff
    proof
      fix c' assume "c' \<in> set ?calls"
      then have "c' = (ns, pc') \<or> c' \<in> set (tr_calls s)" using set_update_subset_insert by fastforce
      then show "call_ok l' c'"
        using e call_ok_mono [of "tr_tracker s" c' l'] inv by (auto simp: tracker_inv_def Let_def list_all_iff)
    qed
    moreover have "lt_count l' = u64 (int (length (past 0 ?calls)))"
      using inv e p(1) [of 0] uwrap_uwrap_add [of 64 "int (length (past 0 (tr_calls s)))" 1]
      by (auto simp: tracker_inv_def Let_def add.commute)
    moreover have "lt_sum l' = i64 (sum_list (past 1 ?calls))"
      using inv e p(2) [of 1] swrap_swrap_add [of 64 "sum_list (past 1 (tr_calls s))" ns]
      by (auto simp: tracker_inv_def Let_def)
    moreover have "lt_min (tr_tracker s) \<in> insert INT64_MAX (fst ` set (tr_calls s))" "lt_min (tr_tracker s) \<le> INT64_MAX"
      "lt_max (tr_tracker s) \<in> insert 0 (fst ` set (tr_calls s))" "0 \<le> lt_max (tr_tracker s)"
      using inv unfolding tracker_inv_def Let_def by blast+
    ultimately have "lt_min l' \<in> insert INT64_MAX (fst ` set ?calls)" "lt_min l' \<le> INT64_MAX" "lt_max l' \<in> insert 0 (fst ` set ?calls)"
      "0 \<le> lt_max l'" "list_all (call_ok l') ?calls" "lt_count l' = u64 (int (length (past 0 ?calls)))"
      "lt_sum l' = i64 (sum_list (past 1 ?calls))"
      using e by (metis insertI2, linarith, metis insertI2, linarith, simp_all)
    then show ?thesis using TR_Step True c st unfolding tracker_inv_def Let_def by simp
  qed
qed

lemma tracker_new_inv: "tracker_inv tracker_run_new"
  by (simp add: tracker_inv_def tracker_run_new_def tracker_new_def past_def uwrap_def swrap_def INT64_MAX_def)

interpretation tracker: transition_system tracker_step tracker_run_new tracker_inv tracker_ok
  by unfold_locales (rule tracker_new_inv, rule tracker_step_inv)

lemma Min_Max_insert:
  fixes x m :: int
  assumes "finite S"
  shows "Min (insert (min x m) S) = Min (insert m (insert x S))" "Max (insert (max x m) S) = Max (insert m (insert x S))"
  using assms by (cases "S = {}"; simp add: min.assoc min.commute min.left_commute max.assoc max.commute max.left_commute)+

lemma fold_latency_record:
  "fold latency_record xs l = l\<lparr>lt_count := (if xs = [] then lt_count l else u64 (lt_count l + int (length xs))),
     lt_sum := (if xs = [] then lt_sum l else i64 (lt_sum l + sum_list xs)),
     lt_min := Min (insert (lt_min l) (set xs)), lt_max := Max (insert (lt_max l) (set xs))\<rparr>"
proof (induction xs arbitrary: l)
  case (Cons x xs)
  have "Min (insert (min x (lt_min l)) (set xs)) = Min (insert (lt_min l) (set (x # xs)))"
    "Max (insert (max x (lt_max l)) (set xs)) = Max (insert (lt_max l) (set (x # xs)))"
    by (simp_all only: Min_Max_insert [OF finite_set] list.set)
  then show ?case
    using Cons by (cases "xs = []") (simp_all add: latency_record_eq uwrap_uwrap_add swrap_swrap_add add.assoc)
qed simp

section \<open>What the registry holds\<close>

text \<open>The events of one counter, gauge or tracker.\<close>

fun count_event :: "string \<Rightarrow> metric_cmd \<Rightarrow> (int \<Rightarrow> int) option" where
  "count_event k (MT_Count k' n) = (if k' = k then Some (counter_increment n) else None)"
| "count_event k (MT_Count_Reset k') = (if k' = k then Some counter_reset else None)"
| "count_event k _ = None"

fun gauge_event :: "string \<Rightarrow> metric_cmd \<Rightarrow> (int \<Rightarrow> int) option" where
  "gauge_event k (MT_Set k' n) = (if k' = k then Some (gauge_set n) else None)"
| "gauge_event k (MT_Up k' n) = (if k' = k then Some (gauge_increment n) else None)"
| "gauge_event k (MT_Down k' n) = (if k' = k then Some (gauge_decrement n) else None)"
| "gauge_event k _ = None"

fun latency_event :: "string \<Rightarrow> metric_cmd \<Rightarrow> (latency_tracker \<Rightarrow> latency_tracker) option" where
  "latency_event k (MT_Latency k' n) = (if k' = k then Some (latency_record n) else None)"
| "latency_event k (MT_Latency_Reset k') = (if k' = k then Some tracker_reset else None)"
| "latency_event k _ = None"

definition replayed :: "'a \<Rightarrow> (metric_cmd \<Rightarrow> ('a \<Rightarrow> 'a) option) \<Rightarrow> metric_cmd list \<Rightarrow> 'a option" where
  "replayed init event cs = (let fs = List.map_filter event cs in if fs = [] then None else Some (fold (\<lambda>f. f) fs init))"

lemma replayed_snoc:
  "replayed init event (cs @ [c]) =
     (case event c of None \<Rightarrow> replayed init event cs
      | Some f \<Rightarrow> Some (f (case replayed init event cs of None \<Rightarrow> init | Some v \<Rightarrow> v)))"
  by (auto simp: replayed_def List.map_filter_def Let_def split: option.splits)

lemma registry_replayed:
  "mr_counters (run registry_step cs registry_new) k = replayed 0 (count_event k) cs \<and>
   mr_gauges (run registry_step cs registry_new) k = replayed 0 (gauge_event k) cs \<and>
   mr_latencies (run registry_step cs registry_new) k = replayed tracker_new (latency_event k) cs"
proof (induction cs rule: rev_induct)
  case Nil
  show ?case by (simp add: registry_new_def replayed_def List.map_filter_def)
next
  case (snoc c cs)
  then show ?case
    by (cases c) (auto simp: run_append replayed_snoc on_counter_def on_gauge_def on_latency_def emplace_def Let_def split: option.splits)
qed

section \<open>Properties\<close>

text \<open>
  Latencies recorded by any number of threads at once are all accounted for: however the atomic operations of the calls of \<open>record\<close>
  interleave and whichever exchanges fail, when all calls have returned the tracker is the one that recording the samples one after another
  gives: their number, their sum, the least and the greatest.
\<close>

theorem latencies_linearize:
  assumes "legal tracker_ok tracker_step cs tracker_run_new" and "s = run tracker_step cs tracker_run_new"
    and "list_all (\<lambda>c. snd c = RP_Done) (tr_calls s)"
  shows "tr_tracker s = fold latency_record (map fst (tr_calls s)) tracker_new"
proof -
  let ?l = "tr_tracker s" and ?xs = "map fst (tr_calls s)"
  have inv: "tracker_inv s" using tracker.inv_run [OF assms(1)] assms(2) by simp
  have past: "past n (tr_calls s) = ?xs" if "n < 6" for n
  proof -
    have "filter (\<lambda>c. n < progress (snd c)) (tr_calls s) = tr_calls s" by (rule filter_True) (use assms(3) that in \<open>auto simp: list_all_iff\<close>)
    then show ?thesis by (simp add: past_def)
  qed
  have ok: "lt_min ?l \<le> x \<and> x \<le> lt_max ?l \<and> in_i64 x" if x: "x \<in> set ?xs" for x
  proof -
    obtain c where c: "c \<in> set (tr_calls s)" "x = fst c" using x by auto
    then have "call_ok ?l c" "snd c = RP_Done" using inv assms(3) by (auto simp: tracker_inv_def Let_def list_all_iff)
    then show ?thesis using c(2) by (simp add: call_ok_def)
  qed
  have "lt_min ?l = Min (insert INT64_MAX (set ?xs))"
    by (rule Min_eqI [symmetric]) (use inv ok in \<open>auto simp: tracker_inv_def Let_def\<close>)
  moreover have "lt_max ?l = Max (insert 0 (set ?xs))"
    by (rule Max_eqI [symmetric]) (use inv ok in \<open>auto simp: tracker_inv_def Let_def\<close>)
  moreover have "lt_count ?l = u64 (int (length ?xs))" "lt_sum ?l = i64 (sum_list ?xs)"
    using inv past [of 0] past [of 1] by (simp_all add: tracker_inv_def Let_def)
  ultimately show ?thesis
    by (cases ?l; cases "?xs = []") (simp_all add: fold_latency_record tracker_new_def uwrap_def swrap_def)
qed

theorem latencies_linearize_witness:
  "tr_tracker (run tracker_step ([TR_Record 7, TR_Record 3] @ concat (replicate 9 [TR_Step 0 False, TR_Step 1 False])) tracker_run_new) =
     \<lparr>lt_count = 2, lt_min = 3, lt_max = 7, lt_sum = 10\<rparr>"
proof -
  let ?cs = "[TR_Record 7, TR_Record 3] @ concat (replicate 9 [TR_Step 0 False, TR_Step 1 False])"
  have leg: "legal tracker_ok tracker_step ?cs tracker_run_new" by code_simp
  have fin: "list_all (\<lambda>c. snd c = RP_Done) (tr_calls (run tracker_step ?cs tracker_run_new))" by code_simp
  have "map fst (tr_calls (run tracker_step ?cs tracker_run_new)) = [7, 3]" by code_simp
  then show ?thesis using latencies_linearize [OF leg refl fin] by (simp add: latency_record_eq tracker_new_def INT64_MAX_def uwrap_def swrap_def del: run.simps)
qed

text \<open>
  A dump of the registry shows exactly the metrics that were named, each with the effect of the operations on it in order.
\<close>

theorem registry_dump_exact:
  assumes "r = run registry_step cs registry_new" and "k \<in> set names" and "mr_counters r k \<noteq> None"
  shows "\<exists>v. replayed 0 (count_event k) cs = Some v \<and> (k, int_str v) \<in> set (dump names gs ls r)"
proof -
  have "(k, int_str (the (mr_counters r k))) \<in> set (dump names gs ls r)"
    using imageI [OF assms(2), of "\<lambda>k. (k, int_str (the (mr_counters r k)))"] by (simp add: dump_def)
  then show ?thesis using assms(1,3) registry_replayed [of cs k] by auto
qed

theorem registry_dump_exact_witness:
  "(''jobs'', ''5'') \<in> set (dump [''jobs''] [] [] (run registry_step [MT_Count ''jobs'' 2, MT_Up ''jobs'' 9, MT_Count ''jobs'' 3] registry_new))"
proof -
  let ?cs = "[MT_Count ''jobs'' 2, MT_Up ''jobs'' 9, MT_Count ''jobs'' 3]"
  have "mr_counters (run registry_step ?cs registry_new) ''jobs'' \<noteq> None"
    by (simp add: on_counter_def on_gauge_def emplace_def registry_new_def Let_def)
  from registry_dump_exact [OF refl _ this, of "[''jobs'']" "[]" "[]"]
  obtain v where v: "replayed 0 (count_event ''jobs'') ?cs = Some v" "(''jobs'', int_str v) \<in> set (dump [''jobs''] [] [] (run registry_step ?cs registry_new))"
    by auto
  have "map_option int_str (replayed 0 (count_event ''jobs'') ?cs) = Some ''5''" by code_simp
  then show ?thesis using v by simp
qed

text \<open>A tracker without samples shows the largest integer as its least latency.\<close>

lemma empty_tracker_dump: "(''x.min_ns'', ''9223372036854775807'') \<in> set (dump_latency ''x'' tracker_new)"
  by code_simp

end
