(* ===== verification/API_Gateway.thy ===== *)
theory API_Gateway
  imports FIX_Gateway
begin

text \<open>
  Clients of the gateway that send requests as JSON: \<open>gateway/api_gateway.h\<close> and \<open>.cpp\<close>, the transport that receives the
  requests and publishes events, \<open>gateway/zmq_transport.h\<close> and \<open>.cpp\<close>, and their connection in \<open>app/main.cpp\<close>.

  The JSON library is the record \<open>json_lib\<close> of the functions the code uses, of which nothing is assumed but where a lemma
  says so; \<open>Inl w\<close> is an exception of the library with the message \<open>w\<close>. What the sockets return is the argument of the
  steps of the transport.
\<close>

section \<open>The library\<close>

datatype json_out =
    JO_String string | JO_Int int | JO_Double double | JO_Bool bool | JO_Ids "order_id list" | JO_Object "(string \<times> json_out) list"

type_synonym reply = "(string \<times> json_out) list"

record 'j json_lib =
  jl_parse :: "string \<Rightarrow> string + 'j"
  jl_contains :: "'j \<Rightarrow> string \<Rightarrow> bool"
  jl_string :: "'j \<Rightarrow> string \<Rightarrow> string + string"
  jl_int64 :: "'j \<Rightarrow> string \<Rightarrow> string + int"
  jl_uint64 :: "'j \<Rightarrow> string \<Rightarrow> string + nat"
  jl_double :: "'j \<Rightarrow> string \<Rightarrow> string + double"
  jl_is_float :: "'j \<Rightarrow> string \<Rightarrow> bool"
  jl_value :: "'j \<Rightarrow> string \<Rightarrow> string \<Rightarrow> string + string"
  jl_dump :: "reply \<Rightarrow> string + string"

section \<open>Reading a request\<close>

datatype api_error = AE_Json string | AE_Missing string

type_synonym 'a parsed = "api_error + 'a"

definition bind_parsed :: "'a parsed \<Rightarrow> ('a \<Rightarrow> 'b parsed) \<Rightarrow> 'b parsed" where
  "bind_parsed x f = (case x of Inl e \<Rightarrow> Inl e | Inr a \<Rightarrow> f a)"

lemma bind_parsed_simps [simp]: "bind_parsed (Inl e) f = Inl e" "bind_parsed (Inr a) f = f a"
  by (simp_all add: bind_parsed_def)

definition got :: "string + 'a \<Rightarrow> 'a parsed" where
  "got x = (case x of Inl w \<Rightarrow> Inl (AE_Json w) | Inr a \<Rightarrow> Inr a)"

definition required :: "'j json_lib \<Rightarrow> ('j \<Rightarrow> string \<Rightarrow> string + 'a) \<Rightarrow> 'j \<Rightarrow> string \<Rightarrow> 'a parsed" where
  "required lib get req k = (if jl_contains lib req k then got (get req k) else Inl (AE_Missing k))"

definition if_present :: "'j json_lib \<Rightarrow> ('j \<Rightarrow> string \<Rightarrow> string + 'a) \<Rightarrow> 'j \<Rightarrow> string \<Rightarrow> ('a \<Rightarrow> 'b) \<Rightarrow> 'b \<Rightarrow> 'b parsed" where
  "if_present lib get req k f d = (if jl_contains lib req k then bind_parsed (got (get req k)) (\<lambda>a. Inr (f a)) else Inr d)"

definition side_of_name :: "string \<Rightarrow> side" where
  "side_of_name s = (if s = ''sell'' then Sell else Buy)"

definition type_of_name :: "order_type \<Rightarrow> string \<Rightarrow> order_type" where
  "type_of_name d t =
     (if t = ''market'' then OT_Market else if t = ''limit'' then OT_Limit else if t = ''ioc'' then OT_IOC
      else if t = ''fok'' then OT_FOK else d)"

definition tif_of_name :: "time_in_force \<Rightarrow> string \<Rightarrow> time_in_force" where
  "tif_of_name d t =
     (if t = ''gtc'' then TIF_GTC else if t = ''ioc'' then TIF_IOC else if t = ''fok'' then TIF_FOK
      else if t = ''day'' then TIF_DAY else if t = ''gtd'' then TIF_GTD else d)"

definition strategy_of_name :: "routing_strategy \<Rightarrow> string \<Rightarrow> routing_strategy" where
  "strategy_of_name d t =
     (if t = ''best_price'' then BestPrice else if t = ''sweep'' then LiquiditySweep else if t = ''smart_ioc'' then SmartIOC
      else if t = ''vwap'' then VWAP else d)"

text \<open>A price with a fraction is in currency units, one without is taken as it is.\<close>

definition price_field :: "'j json_lib \<Rightarrow> 'j \<Rightarrow> price parsed" where
  "price_field lib req =
     (if jl_contains lib req ''price''
      then if jl_is_float lib req ''price'' then bind_parsed (got (jl_double lib req ''price'')) (\<lambda>d. Inr (to_price d))
           else got (jl_int64 lib req ''price'')
      else Inr (o_price default_order))"

definition new_order_request :: "'j json_lib \<Rightarrow> 'j \<Rightarrow> order parsed" where
  "new_order_request lib req =
     bind_parsed (required lib (jl_string lib) req ''symbol'') (\<lambda>symb.
     bind_parsed (required lib (jl_string lib) req ''side'') (\<lambda>sd.
     bind_parsed (required lib (jl_int64 lib) req ''quantity'') (\<lambda>q.
     bind_parsed (price_field lib req) (\<lambda>p.
     bind_parsed (if_present lib (jl_string lib) req ''order_type'' (type_of_name (o_type default_order)) (o_type default_order)) (\<lambda>ty.
     bind_parsed (if_present lib (jl_string lib) req ''time_in_force'' (tif_of_name (o_tif default_order)) (o_tif default_order)) (\<lambda>tif.
     bind_parsed (if_present lib (jl_string lib) req ''strategy'' (strategy_of_name (o_strategy default_order)) (o_strategy default_order)) (\<lambda>st.
     bind_parsed (if_present lib (jl_string lib) req ''client_id'' client_of (o_client_id default_order)) (\<lambda>cl.
     bind_parsed (if_present lib (jl_uint64 lib) req ''client_order_id'' (\<lambda>k. k) (o_client_order_id default_order)) (\<lambda>k.
       Inr (default_order\<lparr>o_client_order_id := k, o_symbol := symbol_of symb, o_side := side_of_name sd, o_type := ty, o_tif := tif,
              o_price := p, o_quantity := q, o_remaining := q, o_strategy := st, o_client_id := cl\<rparr>))))))))))"

definition cancel_order_request :: "'j json_lib \<Rightarrow> 'j \<Rightarrow> cancel_request parsed" where
  "cancel_order_request lib req =
     bind_parsed (required lib (jl_uint64 lib) req ''order_id'') (\<lambda>k.
     bind_parsed (if_present lib (jl_uint64 lib) req ''client_order_id'' (\<lambda>k. k) INVALID_ORDER_ID) (\<lambda>cl.
     bind_parsed (if_present lib (jl_string lib) req ''symbol'' symbol_of []) (\<lambda>symb.
     bind_parsed (if_present lib (jl_string lib) req ''side'' side_of_name Buy) (\<lambda>sd.
       Inr \<lparr>c_order_id = k, c_client_order_id = cl, c_symbol = symb, c_side = sd, c_timestamp = 0\<rparr>))))"

section \<open>Answers\<close>

definition error_reply :: "string \<Rightarrow> reply" where
  "error_reply msg = [(''status'', JO_String ''error''), (''message'', JO_String msg)]"

definition json_error_reply :: "string \<Rightarrow> reply" where
  "json_error_reply w = error_reply (''JSON parse error: '' @ w)"

text \<open>An answer that is written inside the \<open>try\<close> block, whose exceptions are answered in turn.\<close>

definition dump_in_try :: "'j json_lib \<Rightarrow> reply \<Rightarrow> string + string" where
  "dump_in_try lib r = (case jl_dump lib r of Inr t \<Rightarrow> Inr t | Inl w \<Rightarrow> jl_dump lib (json_error_reply w))"

definition answer_error :: "'j json_lib \<Rightarrow> api_error \<Rightarrow> string + string" where
  "answer_error lib e =
     (case e of
        AE_Json w \<Rightarrow> jl_dump lib (json_error_reply w)
      | AE_Missing k \<Rightarrow> dump_in_try lib (error_reply (''missing required field: '' @ k)))"

definition handle_new_order :: "'j json_lib \<Rightarrow> timestamp \<Rightarrow> string \<Rightarrow> 'v gateway \<Rightarrow> (string + string) \<times> 'v gateway" where
  "handle_new_order lib now body gw =
     (case bind_parsed (got (jl_parse lib body)) (new_order_request lib) of
        Inl e \<Rightarrow> (answer_error lib e, gw)
      | Inr od \<Rightarrow>
          let (ok, gw1) = submit_order now od gw
          in (jl_dump lib (if ok then [(''status'', JO_String ''ok''), (''accepted'', JO_Bool True)]
                           else error_reply ''order submission failed (queue full or gateway not running)''), gw1))"

definition handle_cancel_order :: "'j json_lib \<Rightarrow> timestamp \<Rightarrow> string \<Rightarrow> 'v gateway \<Rightarrow> (string + string) \<times> 'v gateway" where
  "handle_cancel_order lib now body gw =
     (case bind_parsed (got (jl_parse lib body)) (cancel_order_request lib) of
        Inl e \<Rightarrow> (answer_error lib e, gw)
      | Inr req \<Rightarrow>
          let (ok, gw1) = gw_cancel_order now req gw
          in (jl_dump lib (if ok then [(''status'', JO_String ''ok''), (''message'', JO_String ''cancel request submitted'')]
                           else error_reply ''cancel request failed (queue full or gateway not running)''), gw1))"

fun state_name :: "order_state \<Rightarrow> string" where
  "state_name New = ''new''"
| "state_name PendingNew = ''pending_new''"
| "state_name Accepted = ''accepted''"
| "state_name PartiallyFilled = ''partially_filled''"
| "state_name Filled = ''filled''"
| "state_name PendingCancel = ''pending_cancel''"
| "state_name Canceled = ''canceled''"
| "state_name Rejected = ''rejected''"
| "state_name Expired = ''expired''"
| "state_name PendingReplace = ''pending_replace''"

definition side_name :: "side \<Rightarrow> string" where
  "side_name s = (if s = Buy then ''buy'' else ''sell'')"

definition order_fields :: "order \<Rightarrow> order_id list \<Rightarrow> reply" where
  "order_fields od kids =
     [(''order_id'', JO_Int (int (o_id od))), (''client_order_id'', JO_Int (int (o_client_order_id od))),
      (''parent_order_id'', JO_Int (int (o_parent_order_id od))), (''symbol'', JO_String (o_symbol od)),
      (''side'', JO_String (side_name (o_side od))), (''state'', JO_String (state_name (o_state od))),
      (''price'', JO_Double (to_double (o_price od))), (''quantity'', JO_Int (o_quantity od)),
      (''filled_quantity'', JO_Int (o_filled od)), (''remaining_quantity'', JO_Int (o_remaining od)),
      (''avg_fill_price'', JO_Double (to_double (o_avg_fill_price od))), (''venue'', JO_Int (int (o_target_venue od))),
      (''version'', JO_Int (o_version od))] @
     (if kids = [] then [] else [(''children'', JO_Ids kids)])"

definition handle_query_order :: "'j json_lib \<Rightarrow> string \<Rightarrow> 'v gateway \<Rightarrow> string + string" where
  "handle_query_order lib body gw =
     (case bind_parsed (got (jl_parse lib body)) (\<lambda>req. required lib (jl_uint64 lib) req ''order_id'') of
        Inl e \<Rightarrow> answer_error lib e
      | Inr k \<Rightarrow>
          (case get_order k (gw_exec gw) of
             None \<Rightarrow> dump_in_try lib (error_reply ''order not found'')
           | Some od \<Rightarrow>
               jl_dump lib [(''status'', JO_String ''ok''), (''order'', JO_Object (order_fields od (get_children k (gw_exec gw))))]))"

definition handle_status :: "'j json_lib \<Rightarrow> 'v gateway \<Rightarrow> string + string" where
  "handle_status lib gw =
     (let s = gw_stats gw; x = eh_stats (gw_exec gw) in
      jl_dump lib
        [(''status'', JO_String ''ok''), (''running'', JO_Bool (gw_running gw)),
         (''gateway_stats'', JO_Object
           [(''orders_submitted'', JO_Int (gs_submitted s)), (''orders_routed'', JO_Int (gs_routed s)),
            (''orders_completed'', JO_Int (gs_completed s)), (''orders_rejected'', JO_Int (gs_rejected s))]),
         (''execution_stats'', JO_Object
           [(''total_fills'', JO_Int (es_total_fills x)), (''total_partial_fills'', JO_Int (es_total_partial_fills x)),
            (''total_rejects'', JO_Int (es_total_rejects x)), (''total_cancels'', JO_Int (es_total_cancels x)),
            (''reroutes'', JO_Int (es_reroutes x))]),
         (''risk_kill_switch_active'', JO_Bool (is_kill_switch_active (gw_risk gw)))])"

section \<open>Requests by action\<close>

definition api_error_answer :: "'j json_lib \<Rightarrow> string \<Rightarrow> string + string" where
  "api_error_answer lib w = jl_dump lib (error_reply w)"

text \<open>The request handler: an exception inside is answered with its message; one in writing that answer leaves it.\<close>

definition handle_request :: "'j json_lib \<Rightarrow> timestamp \<Rightarrow> string \<Rightarrow> 'v gateway \<Rightarrow> (string + string) \<times> 'v gateway" where
  "handle_request lib now body gw =
     (case (case jl_parse lib body of Inl w \<Rightarrow> Inl w | Inr req \<Rightarrow> jl_value lib req ''action'' ''status'') of
        Inl w \<Rightarrow> (api_error_answer lib w, gw)
      | Inr action \<Rightarrow>
          if action \<in> {''new_order'', ''cancel_order'', ''query_order'', ''status''}
          then
            let (r, gw1) =
                  (if action = ''new_order'' then handle_new_order lib now body gw
                   else if action = ''cancel_order'' then handle_cancel_order lib now body gw
                   else if action = ''query_order'' then (handle_query_order lib body gw, gw)
                   else (handle_status lib gw, gw))
            in (case r of Inr t \<Rightarrow> (Inr t, gw1) | Inl w \<Rightarrow> (api_error_answer lib w, gw1))
          else (api_error_answer lib (''unknown action: '' @ action), gw))"

section \<open>The transport\<close>

text \<open>The counters do not overflow.\<close>

record zmq_transport =
  zt_running :: bool
  zt_sockets :: bool
  zt_received :: nat
  zt_handled :: nat
  zt_md_published :: nat
  zt_exec_published :: nat
  zt_errors :: nat

definition zmq_new :: zmq_transport where
  "zmq_new = \<lparr>zt_running = False, zt_sockets = False, zt_received = 0, zt_handled = 0, zt_md_published = 0, zt_exec_published = 0,
     zt_errors = 0\<rparr>"

text \<open>
  \<open>bound\<close>: whether the sockets could be created and bound. \<open>zt_sockets\<close>: the publishing sockets of a transport that has
  started; what a failed start leaves open is not used, as the transport does not run.
\<close>

definition zmq_start :: "bool \<Rightarrow> zmq_transport \<Rightarrow> bool \<times> zmq_transport" where
  "zmq_start bound z =
     (if zt_running z then (False, z)
      else if bound then (True, z\<lparr>zt_running := True, zt_sockets := True\<rparr>) else (False, z))"

definition zmq_stop :: "zmq_transport \<Rightarrow> zmq_transport" where
  "zmq_stop z = (if zt_running z then z\<lparr>zt_running := False, zt_sockets := False\<rparr> else z)"

text \<open>Publishing: what is sent, if sending succeeds.\<close>

definition publish_market_data :: "bool \<Rightarrow> string \<Rightarrow> string \<Rightarrow> zmq_transport \<Rightarrow> (string \<times> string) list \<times> zmq_transport" where
  "publish_market_data sent topic payload z =
     (if \<not> zt_sockets z \<or> \<not> zt_running z then ([], z)
      else if sent then ([(topic, payload)], z\<lparr>zt_md_published := zt_md_published z + 1\<rparr>)
      else ([], z\<lparr>zt_errors := zt_errors z + 1\<rparr>))"

definition publish_execution_event :: "bool \<Rightarrow> string \<Rightarrow> string \<Rightarrow> zmq_transport \<Rightarrow> (string \<times> string) list \<times> zmq_transport" where
  "publish_execution_event sent topic payload z =
     (if \<not> zt_sockets z \<or> \<not> zt_running z then ([], z)
      else if sent then ([(topic, payload)], z\<lparr>zt_exec_published := zt_exec_published z + 1\<rparr>)
      else ([], z\<lparr>zt_errors := zt_errors z + 1\<rparr>))"

datatype zmq_recv_result = RV_Timeout | RV_Message string | RV_Error

text \<open>
  One pass of the request loop, with the time at which the handler runs, the result of \<open>recv\<close> and whether \<open>send\<close> succeeds.
  Their exceptions are not caught: they end the program, \<open>None\<close>.
\<close>

definition request_step ::
  "(timestamp \<Rightarrow> string \<Rightarrow> 'g \<Rightarrow> (string + string) \<times> 'g) option \<Rightarrow> timestamp \<times> zmq_recv_result \<times> bool \<Rightarrow> zmq_transport \<times> 'g \<Rightarrow>
   (string list \<times> zmq_transport \<times> 'g) option" where
  "request_step handler = (\<lambda>(now, rv, sent) (z, g).
     case rv of
       RV_Error \<Rightarrow> None
     | RV_Timeout \<Rightarrow> Some ([], z, g)
     | RV_Message body \<Rightarrow>
         let z1 = z\<lparr>zt_received := zt_received z + 1\<rparr>;
             (response, z2, g1) =
               (case handler of
                  None \<Rightarrow> (''{\"status\":\"error\",\"message\":\"no handler configured\"}'', z1, g)
                | Some h \<Rightarrow>
                    (case h now body g of
                       (Inr t, g1) \<Rightarrow> (t, z1, g1)
                     | (Inl w, g1) \<Rightarrow>
                         (''{\"status\":\"error\",\"message\":\"internal error\"}'', z1\<lparr>zt_errors := zt_errors z1 + 1\<rparr>, g1)))
         in if sent then Some ([response], z2\<lparr>zt_handled := zt_handled z2 + 1\<rparr>, g1) else None)"

fun request_loop ::
  "(timestamp \<Rightarrow> string \<Rightarrow> 'g \<Rightarrow> (string + string) \<times> 'g) option \<Rightarrow> (timestamp \<times> zmq_recv_result \<times> bool) list \<Rightarrow> zmq_transport \<times> 'g \<Rightarrow>
   (string list \<times> zmq_transport \<times> 'g) option" where
  "request_loop handler [] (z, g) = Some ([], z, g)"
| "request_loop handler (x # xs) (z, g) =
     (if \<not> zt_running z then Some ([], z, g)
      else case request_step handler x (z, g) of
             None \<Rightarrow> None
           | Some (out, z1, g1) \<Rightarrow>
               (case request_loop handler xs (z1, g1) of
                  None \<Rightarrow> None
                | Some (out', z2, g2) \<Rightarrow> Some (out @ out', z2, g2)))"

section \<open>Published events\<close>

definition nbbo_payload :: "symbol \<Rightarrow> nbbo \<Rightarrow> reply" where
  "nbbo_payload symb nb =
     [(''symbol'', JO_String symb), (''best_bid'', JO_Double (to_double (nb_bid nb))), (''best_ask'', JO_Double (to_double (nb_ask nb))),
      (''best_bid_qty'', JO_Int (nb_bid_qty nb)), (''best_ask_qty'', JO_Int (nb_ask_qty nb)),
      (''bid_venue'', JO_Int (int (nb_bid_venue nb))), (''ask_venue'', JO_Int (int (nb_ask_venue nb))),
      (''spread'', JO_Double (to_double (nbbo_spread nb)))]"

definition fill_payload :: "order \<Rightarrow> execution_report \<Rightarrow> reply" where
  "fill_payload od r =
     [(''event'', JO_String ''fill''), (''order_id'', JO_Int (int (o_id od))), (''symbol'', JO_String (o_symbol od)),
      (''last_price'', JO_Double (to_double (r_last_price r))), (''last_quantity'', JO_Int (r_last_quantity r)),
      (''cum_quantity'', JO_Int (r_cum_quantity r)), (''leaves_quantity'', JO_Int (r_leaves_quantity r)),
      (''venue_id'', JO_Int (int (r_venue_id r)))]"

definition completion_payload :: "order \<Rightarrow> reply" where
  "completion_payload od =
     [(''event'', JO_String ''complete''), (''order_id'', JO_Int (int (o_id od))), (''symbol'', JO_String (o_symbol od)),
      (''filled_quantity'', JO_Int (o_filled od)), (''avg_fill_price'', JO_Double (to_double (o_avg_fill_price od)))]"

text \<open>The observers that publish them, when the API is enabled; an exception of \<open>dump\<close> leaves the observer.\<close>

definition publish_nbbo ::
  "'j json_lib \<Rightarrow> bool \<Rightarrow> bool \<Rightarrow> symbol \<Rightarrow> nbbo \<Rightarrow> zmq_transport \<Rightarrow> string + (string \<times> string) list \<times> zmq_transport" where
  "publish_nbbo lib enabled sent symb nb z =
     (if \<not> enabled then Inr ([], z)
      else case jl_dump lib (nbbo_payload symb nb) of Inl w \<Rightarrow> Inl w | Inr t \<Rightarrow> Inr (publish_market_data sent symb t z))"

definition publish_fill ::
  "'j json_lib \<Rightarrow> bool \<Rightarrow> bool \<Rightarrow> order \<Rightarrow> execution_report \<Rightarrow> zmq_transport \<Rightarrow> string + (string \<times> string) list \<times> zmq_transport" where
  "publish_fill lib enabled sent od r z =
     (if \<not> enabled then Inr ([], z)
      else case jl_dump lib (fill_payload od r) of Inl w \<Rightarrow> Inl w | Inr t \<Rightarrow> Inr (publish_execution_event sent ''FILL'' t z))"

definition publish_completion ::
  "'j json_lib \<Rightarrow> bool \<Rightarrow> bool \<Rightarrow> order \<Rightarrow> zmq_transport \<Rightarrow> string + (string \<times> string) list \<times> zmq_transport" where
  "publish_completion lib enabled sent od z =
     (if \<not> enabled then Inr ([], z)
      else case jl_dump lib (completion_payload od) of Inl w \<Rightarrow> Inl w | Inr t \<Rightarrow> Inr (publish_execution_event sent ''COMPLETE'' t z))"

section \<open>Requests are submissions and cancels\<close>

fun api_cmd :: "'v gw_cmd \<Rightarrow> bool" where
  "api_cmd (GC_Submit now od) \<longleftrightarrow> o_id od = INVALID_ORDER_ID"
| "api_cmd (GC_Cancel now req) \<longleftrightarrow> True"
| "api_cmd _ \<longleftrightarrow> False"

text \<open>What a request does to the gateway is at most one command.\<close>

definition by_commands :: "'v venue_ops \<Rightarrow> route_env \<Rightarrow> nat \<Rightarrow> 'v gateway \<Rightarrow> 'v gateway \<Rightarrow> bool" where
  "by_commands ops e n gw gw' \<longleftrightarrow>
     (\<exists>cs. list_all api_cmd cs \<and> length cs \<le> n \<and> (\<forall>evs. run (gw_step ops e) cs (gw, evs) = (gw', evs)))"

lemma by_no_command: "by_commands ops e n gw gw"
  unfolding by_commands_def by (intro exI [of _ "[]"]) simp

lemma by_commands_trans:
  assumes "by_commands ops e m gw gw1" and "by_commands ops e n gw1 gw2"
  shows "by_commands ops e (m + n) gw gw2"
proof -
  obtain cs ds where c: "list_all api_cmd cs" "length cs \<le> m" "\<forall>evs. run (gw_step ops e) cs (gw, evs) = (gw1, evs)"
    "list_all api_cmd ds" "length ds \<le> n" "\<forall>evs. run (gw_step ops e) ds (gw1, evs) = (gw2, evs)"
    using assms by (auto simp: by_commands_def)
  then show ?thesis unfolding by_commands_def by (intro exI [of _ "cs @ ds"]) (simp add: run_append)
qed

lemma by_one_command:
  assumes "api_cmd c" and "gw_exec_cmd ops e c gw = ([], gw')"
  shows "by_commands ops e 1 gw gw'"
  unfolding by_commands_def using assms by (intro exI [of _ "[c]"]) (simp add: gw_step_def)

lemma new_order_no_id: "new_order_request lib req = Inr od \<Longrightarrow> o_id od = INVALID_ORDER_ID"
  by (auto simp: new_order_request_def bind_parsed_def default_order_def split: sum.splits)

lemma new_order_command: "handle_new_order lib now body gw = (r, gw') \<Longrightarrow> by_commands ops e 1 gw gw'"
proof -
  assume h: "handle_new_order lib now body gw = (r, gw')"
  show ?thesis
  proof (cases "bind_parsed (got (jl_parse lib body)) (new_order_request lib)")
    case (Inl x)
    then show ?thesis using h by_no_command by (auto simp: handle_new_order_def)
  next
    case (Inr od)
    then have "o_id od = INVALID_ORDER_ID" using new_order_no_id by (auto simp: bind_parsed_def split: sum.splits)
    moreover have "gw' = snd (submit_order now od gw)" using h Inr by (auto simp: handle_new_order_def split: prod.splits)
    ultimately show ?thesis by (intro by_one_command [of "GC_Submit now od"]) simp_all
  qed
qed

lemma cancel_command: "handle_cancel_order lib now body gw = (r, gw') \<Longrightarrow> by_commands ops e 1 gw gw'"
proof -
  assume h: "handle_cancel_order lib now body gw = (r, gw')"
  show ?thesis
  proof (cases "bind_parsed (got (jl_parse lib body)) (cancel_order_request lib)")
    case (Inl x)
    then show ?thesis using h by_no_command by (auto simp: handle_cancel_order_def)
  next
    case (Inr req)
    then have "gw' = snd (gw_cancel_order now req gw)" using h by (auto simp: handle_cancel_order_def split: prod.splits)
    then show ?thesis by (intro by_one_command [of "GC_Cancel now req"]) simp_all
  qed
qed

lemma request_command: "handle_request lib now body gw = (r, gw') \<Longrightarrow> by_commands ops e 1 gw gw'"
  using new_order_command [of lib now body gw _ gw'] cancel_command [of lib now body gw _ gw'] by_no_command
  by (auto simp: handle_request_def Let_def split: sum.splits prod.splits if_splits)

definition messages_in :: "(timestamp \<times> zmq_recv_result \<times> bool) list \<Rightarrow> nat" where
  "messages_in xs = length (filter (\<lambda>(now, rv, sent). \<exists>body. rv = RV_Message body) xs)"

lemma request_loop_answers:
  "zt_running z \<Longrightarrow> list_all (\<lambda>(now, rv, sent). rv \<noteq> RV_Error \<and> sent) xs \<Longrightarrow>
   \<exists>out z' gw'. request_loop (Some (handle_request lib)) xs (z, gw) = Some (out, z', gw') \<and> length out = messages_in xs \<and>
     zt_received z' = zt_received z + messages_in xs \<and> zt_handled z' = zt_handled z + messages_in xs \<and>
     by_commands ops e (messages_in xs) gw gw'"
proof (induction xs arbitrary: z gw)
  case Nil
  then show ?case by (simp add: messages_in_def by_no_command)
next
  case (Cons x xs)
  obtain now rv sent where x: "x = (now, rv, sent)" by (cases x) auto
  then have ok: "rv \<noteq> RV_Error" "sent" using Cons.prems(2) by simp_all
  show ?case
  proof (cases rv)
    case (RV_Message body)
    obtain r gw1 where h: "handle_request lib now body gw = (r, gw1)" by fastforce
    obtain t z1 where st: "request_step (Some (handle_request lib)) x (z, gw) = Some ([t], z1, gw1)" "zt_running z1"
      "zt_received z1 = zt_received z + 1" "zt_handled z1 = zt_handled z + 1"
      using x ok RV_Message h Cons.prems(1) by (cases r) (auto simp: request_step_def Let_def)
    obtain out z' gw' where rest: "request_loop (Some (handle_request lib)) xs (z1, gw1) = Some (out, z', gw')"
      "length out = messages_in xs" "zt_received z' = zt_received z1 + messages_in xs" "zt_handled z' = zt_handled z1 + messages_in xs"
      "by_commands ops e (messages_in xs) gw1 gw'"
      using Cons.IH [OF st(2), of gw1] Cons.prems(2) by auto
    have m: "messages_in (x # xs) = 1 + messages_in xs" using x RV_Message by (simp add: messages_in_def)
    show ?thesis
      unfolding m using st rest by_commands_trans [OF request_command [OF h] rest(5)] Cons.prems(1) by simp
  next
    case RV_Timeout
    then have "request_step (Some (handle_request lib)) x (z, gw) = Some ([], z, gw)" "messages_in (x # xs) = messages_in xs"
      using x by (simp_all add: request_step_def messages_in_def)
    then show ?thesis using Cons.IH [OF Cons.prems(1), of gw] Cons.prems by auto
  qed (use ok in simp)
qed

section \<open>A client that writes an order\<close>

datatype json_field = JF_String string | JF_Int int | JF_Float double

text \<open>The library reads a text as an object with these fields.\<close>

definition reads_as :: "'j json_lib \<Rightarrow> string \<Rightarrow> (string \<times> json_field) list \<Rightarrow> bool" where
  "reads_as lib body fs \<longleftrightarrow> (\<exists>req. jl_parse lib body = Inr req \<and>
     (\<forall>k. jl_contains lib req k \<longleftrightarrow> map_of fs k \<noteq> None) \<and>
     (\<forall>k v. map_of fs k = Some v \<longrightarrow>
        (case v of
           JF_String s \<Rightarrow> jl_string lib req k = Inr s \<and> (\<forall>d. jl_value lib req k d = Inr s)
         | JF_Int i \<Rightarrow> \<not> jl_is_float lib req k \<and> (in_i64 i \<longrightarrow> jl_int64 lib req k = Inr i) \<and>
             (in_u64 i \<longrightarrow> jl_uint64 lib req k = Inr (nat i))
         | JF_Float d \<Rightarrow> jl_is_float lib req k \<and> jl_double lib req k = Inr d)))"

fun type_name :: "order_type \<Rightarrow> string" where
  "type_name OT_Limit = ''limit''"
| "type_name OT_Market = ''market''"
| "type_name OT_IOC = ''ioc''"
| "type_name OT_FOK = ''fok''"

fun tif_name :: "time_in_force \<Rightarrow> string" where
  "tif_name TIF_GTC = ''gtc''"
| "tif_name TIF_IOC = ''ioc''"
| "tif_name TIF_FOK = ''fok''"
| "tif_name TIF_GTD = ''gtd''"
| "tif_name TIF_DAY = ''day''"

fun strategy_name :: "routing_strategy \<Rightarrow> string" where
  "strategy_name BestPrice = ''best_price''"
| "strategy_name LiquiditySweep = ''sweep''"
| "strategy_name SmartIOC = ''smart_ioc''"
| "strategy_name VWAP = ''vwap''"

definition order_request :: "order \<Rightarrow> (string \<times> json_field) list" where
  "order_request od =
     [(''action'', JF_String ''new_order''), (''symbol'', JF_String (o_symbol od)), (''side'', JF_String (side_name (o_side od))),
      (''quantity'', JF_Int (o_quantity od)), (''price'', JF_Float (to_double (o_price od))),
      (''order_type'', JF_String (type_name (o_type od))), (''time_in_force'', JF_String (tif_name (o_tif od))),
      (''strategy'', JF_String (strategy_name (o_strategy od))), (''client_id'', JF_String (o_client_id od)),
      (''client_order_id'', JF_Int (int (o_client_order_id od)))]"

text \<open>A new order as a client describes it.\<close>

definition client_order :: "order \<Rightarrow> bool" where
  "client_order od \<longleftrightarrow> length (o_symbol od) \<le> 16 \<and> length (o_client_id od) \<le> 32 \<and> in_i64 (o_quantity od) \<and>
     \<bar>o_price od\<bar> \<le> 2 ^ 50 \<and> o_client_order_id od < 2 ^ 64 \<and>
     od = default_order\<lparr>o_client_order_id := o_client_order_id od, o_symbol := o_symbol od, o_side := o_side od, o_type := o_type od,
       o_tif := o_tif od, o_price := o_price od, o_quantity := o_quantity od, o_remaining := o_quantity od, o_strategy := o_strategy od,
       o_client_id := o_client_id od\<rparr>"

lemma names_read_back [simp]:
  "side_of_name (side_name s) = s" "type_of_name d (type_name ty) = ty" "tif_of_name d' (tif_name tif) = tif"
  "strategy_of_name d'' (strategy_name st) = st"
proof -
  show "side_of_name (side_name s) = s" by (cases s) (simp_all add: side_of_name_def side_name_def)
  show "type_of_name d (type_name ty) = ty" by (cases ty) (simp_all add: type_of_name_def)
  show "tif_of_name d' (tif_name tif) = tif" by (cases tif) (simp_all add: tif_of_name_def)
  show "strategy_of_name d'' (strategy_name st) = st" by (cases st) (simp_all add: strategy_of_name_def)
qed

lemma order_request_read:
  assumes "client_order od" and "reads_as lib body (order_request od)"
  shows "bind_parsed (got (jl_parse lib body)) (new_order_request lib) = Inr od"
proof -
  obtain req where p: "jl_parse lib body = Inr req" and c: "\<And>k. jl_contains lib req k \<longleftrightarrow> map_of (order_request od) k \<noteq> None"
    and v: "\<And>k v. map_of (order_request od) k = Some v \<Longrightarrow>
        (case v of
           JF_String s \<Rightarrow> jl_string lib req k = Inr s \<and> (\<forall>d. jl_value lib req k d = Inr s)
         | JF_Int i \<Rightarrow> \<not> jl_is_float lib req k \<and> (in_i64 i \<longrightarrow> jl_int64 lib req k = Inr i) \<and>
             (in_u64 i \<longrightarrow> jl_uint64 lib req k = Inr (nat i))
         | JF_Float d \<Rightarrow> jl_is_float lib req k \<and> jl_double lib req k = Inr d)"
    using assms(2) unfolding reads_as_def by blast
  have od: "length (o_symbol od) \<le> 16" "length (o_client_id od) \<le> 32" "in_i64 (o_quantity od)" "\<bar>o_price od\<bar> \<le> 2 ^ 50"
    "in_u64 (int (o_client_order_id od))"
    using assms(1) by (simp_all add: client_order_def in_urange_def)
  have fields:
    "jl_string lib req ''symbol'' = Inr (o_symbol od)" "jl_string lib req ''side'' = Inr (side_name (o_side od))"
    "jl_int64 lib req ''quantity'' = Inr (o_quantity od)" "jl_is_float lib req ''price''"
    "jl_double lib req ''price'' = Inr (to_double (o_price od))" "jl_string lib req ''order_type'' = Inr (type_name (o_type od))"
    "jl_string lib req ''time_in_force'' = Inr (tif_name (o_tif od))" "jl_string lib req ''strategy'' = Inr (strategy_name (o_strategy od))"
    "jl_string lib req ''client_id'' = Inr (o_client_id od)" "jl_uint64 lib req ''client_order_id'' = Inr (o_client_order_id od)"
    using v [of "''symbol''"] v [of "''side''"] v [of "''quantity''"] v [of "''price''"] v [of "''order_type''"] v [of "''time_in_force''"]
      v [of "''strategy''"] v [of "''client_id''"] v [of "''client_order_id''"] od(3,5)
    by (simp_all add: order_request_def)
  have there: "jl_contains lib req k" if "k \<in> {''symbol'', ''side'', ''quantity'', ''price'', ''order_type'', ''time_in_force'', ''strategy'',
      ''client_id'', ''client_order_id''}" for k
    using c [of k] that by (auto simp: order_request_def)
  have "to_price (to_double (o_price od)) = o_price od"
    using fp_double_roundtrip [OF od(4), of PRICE_SCALE] by (simp add: to_price_eq_fp to_double_eq_fp PRICE_SCALE_def)
  moreover have "symbol_of (o_symbol od) = o_symbol od" "client_of (o_client_id od) = o_client_id od"
    using od(1,2) by (simp_all add: symbol_of_def client_of_def fs_view_assign fs_init_wf)
  moreover have "od = default_order\<lparr>o_client_order_id := o_client_order_id od, o_symbol := o_symbol od, o_side := o_side od, o_type := o_type od,
       o_tif := o_tif od, o_price := o_price od, o_quantity := o_quantity od, o_remaining := o_quantity od, o_strategy := o_strategy od,
       o_client_id := o_client_id od\<rparr>"
    using assms(1) by (simp only: client_order_def)
  ultimately show ?thesis
    by (simp add: p got_def new_order_request_def required_def if_present_def price_field_def there fields)
qed


lemma order_request_action: "reads_as lib body (order_request od) \<Longrightarrow>
    (case jl_parse lib body of Inl w \<Rightarrow> Inl w | Inr req \<Rightarrow> jl_value lib req ''action'' ''status'') = Inr ''new_order''"
proof -
  assume "reads_as lib body (order_request od)"
  moreover have "map_of (order_request od) ''action'' = Some (JF_String ''new_order'')" by (simp add: order_request_def)
  ultimately show ?thesis unfolding reads_as_def by fastforce
qed

lemma client_order_no_id: "client_order od \<Longrightarrow> o_id od = INVALID_ORDER_ID"
  unfolding client_order_def by (elim conjE) (erule ssubst, simp add: default_order_def)

section \<open>A small library\<close>

definition text_of_fields :: "reply \<Rightarrow> string" where
  "text_of_fields r = concat (map (\<lambda>(k, v). k @ (case v of JO_String s \<Rightarrow> ''='' @ s @ '';'' | _ \<Rightarrow> '';'')) r)"

text \<open>It knows the texts of a table, and replies that end in an error cannot be written when \<open>broken\<close>.\<close>

definition table_lib :: "bool \<Rightarrow> (string \<times> (string \<times> json_field) list) list \<Rightarrow> (string \<times> json_field) list json_lib" where
  "table_lib broken tab =
     \<lparr>jl_parse = (\<lambda>body. case map_of tab body of None \<Rightarrow> Inl ''syntax error'' | Some fs \<Rightarrow> Inr fs),
      jl_contains = (\<lambda>fs k. map_of fs k \<noteq> None),
      jl_string = (\<lambda>fs k. case map_of fs k of Some (JF_String s) \<Rightarrow> Inr s | _ \<Rightarrow> Inl ''type must be string''),
      jl_int64 = (\<lambda>fs k. case map_of fs k of Some (JF_Int i) \<Rightarrow> Inr i | _ \<Rightarrow> Inl ''type must be number''),
      jl_uint64 = (\<lambda>fs k. case map_of fs k of Some (JF_Int i) \<Rightarrow> Inr (nat i) | _ \<Rightarrow> Inl ''type must be number''),
      jl_double = (\<lambda>fs k. case map_of fs k of Some (JF_Float d) \<Rightarrow> Inr d | _ \<Rightarrow> Inl ''type must be number''),
      jl_is_float = (\<lambda>fs k. case map_of fs k of Some (JF_Float d) \<Rightarrow> True | _ \<Rightarrow> False),
      jl_value = (\<lambda>fs k d. case map_of fs k of None \<Rightarrow> Inr d | Some (JF_String s) \<Rightarrow> Inr s | _ \<Rightarrow> Inl ''type must be string''),
      jl_dump = (\<lambda>r. if broken \<and> map_of r ''status'' = Some (JO_String ''error'') then Inl ''invalid UTF-8''
                    else Inr (text_of_fields r))\<rparr>"

lemma table_lib_reads: "map_of tab body = Some fs \<Longrightarrow> reads_as (table_lib broken tab) body fs"
  unfolding reads_as_def by (intro exI [of _ fs]) (auto simp: table_lib_def split: json_field.split)

section \<open>Properties\<close>

text \<open>
  C13: every request has exactly one reply. While receiving and sending succeed, the loop of the transport answers
  every message with one reply, whatever the messages, the JSON library and the outcome of the handlers, counts all of them as
  received and handled, and what the messages do to the gateway is at most one submission of a new order or one cancel for each.
\<close>

theorem api_requests_answered:
  assumes "zt_running z" and "list_all (\<lambda>(now, rv, sent). rv \<noteq> RV_Error \<and> sent) xs"
  shows "\<exists>out z' gw' cs. request_loop (Some (handle_request lib)) xs (z, gw) = Some (out, z', gw') \<and>
    length out = messages_in xs \<and>
    zt_received z' = zt_received z + messages_in xs \<and> zt_handled z' = zt_handled z + messages_in xs \<and>
    list_all api_cmd cs \<and> length cs \<le> messages_in xs \<and> (\<forall>evs. run (gw_step ops e) cs (gw, evs) = (gw', evs))"
  using request_loop_answers [OF assms, of lib gw ops e] unfolding by_commands_def by blast

definition demo_requests :: "(timestamp \<times> zmq_recv_result \<times> bool) list" where
  "demo_requests = [(5, RV_Message ''nonsense'', True), (6, RV_Timeout, True), (7, RV_Message ''cancel'', True)]"

definition demo_lib :: "bool \<Rightarrow> (string \<times> json_field) list json_lib" where
  "demo_lib broken = table_lib broken [(''cancel'', [(''action'', JF_String ''cancel_order''), (''order_id'', JF_Int 3)])]"

theorem api_requests_answered_witness:
  "\<exists>z' gw'. request_loop (Some (handle_request (demo_lib True))) demo_requests (zmq_new\<lparr>zt_running := True\<rparr>, demo_gateway) =
     Some ([''{\"status\":\"error\",\"message\":\"internal error\"}'', ''status=ok;message=cancel request submitted;''], z', gw') \<and>
     zt_handled z' = 2 \<and> zt_errors z' = 1 \<and> map c_order_id (gw_cancels gw') = [3]"
proof -
  obtain out z' gw' where r: "request_loop (Some (handle_request (demo_lib True))) demo_requests
      (zmq_new\<lparr>zt_running := True\<rparr>, demo_gateway) = Some (out, z', gw')" "zt_handled z' = zt_handled zmq_new + messages_in demo_requests"
    using api_requests_answered [of "zmq_new\<lparr>zt_running := True\<rparr>" demo_requests "demo_lib True" demo_gateway mute_ops demo_env]
    by (auto simp: demo_requests_def zmq_new_def)
  moreover have "map_option (\<lambda>(out, z, gw). (out, zt_errors z, map c_order_id (gw_cancels gw)))
      (request_loop (Some (handle_request (demo_lib True))) demo_requests (zmq_new\<lparr>zt_running := True\<rparr>, demo_gateway)) =
    Some ([''{\"status\":\"error\",\"message\":\"internal error\"}'', ''status=ok;message=cancel request submitted;''], 1, [3])"
    by code_simp
  ultimately show ?thesis by (simp add: zmq_new_def demo_requests_def messages_in_def)
qed


definition demo_client_order :: order where
  "demo_client_order = default_order\<lparr>o_client_order_id := 9, o_symbol := ''ACME'', o_side := Sell, o_tif := TIF_FOK,
     o_price := 1234567, o_quantity := 40, o_remaining := 40, o_strategy := SmartIOC, o_client_id := ''desk''\<rparr>"


text \<open>A running transport publishes every change of the NBBO, and every fill, as one message.\<close>

lemma events_published:
  assumes "zt_running z" and "zt_sockets z"
  shows "jl_dump lib (nbbo_payload symb nb) = Inr t \<Longrightarrow>
      publish_nbbo lib True True symb nb z = Inr ([(symb, t)], z\<lparr>zt_md_published := zt_md_published z + 1\<rparr>)"
    and "jl_dump lib (fill_payload od r) = Inr t \<Longrightarrow>
      publish_fill lib True True od r z = Inr ([(''FILL'', t)], z\<lparr>zt_exec_published := zt_exec_published z + 1\<rparr>)"
    and "jl_dump lib (completion_payload od) = Inr t \<Longrightarrow>
      publish_completion lib True True od z = Inr ([(''COMPLETE'', t)], z\<lparr>zt_exec_published := zt_exec_published z + 1\<rparr>)"
  using assms by (simp_all add: publish_nbbo_def publish_fill_def publish_completion_def publish_market_data_def publish_execution_event_def)

lemma stopped_publishes_nothing:
  "publish_market_data sent topic t (zmq_stop z) = ([], zmq_stop z)"
  "publish_execution_event sent topic t (zmq_stop z) = ([], zmq_stop z)"
  by (simp_all add: publish_market_data_def publish_execution_event_def zmq_stop_def)

end
