(* ===== verification/Spec2Isabelle.thy ===== *)
theory Spec2Isabelle
  imports Gateway Simulated_Exchange FIX_Gateway Network_Service Memory_Pool SPSC_Queue MPSC_Queue Backpressure Thread_Pool Event_Loop Scheduler Lexer Replay_Engine Async_Task Task_Storage Runtime_Metrics API_Gateway
begin

text \<open>
  A verification library for the smart order router of the repository (\<open>src/sor\<close>): it receives
  orders, checks them against risk limits, splits them over trading venues by a routing strategy
  on consolidated market data, and follows the child orders through execution reports. It also
  covers the network protocol of the flight simulator (\<open>src/luft\<close>), the concurrency runtime (\<open>src/cunk\<close>)
  and the lexer of the Kaleidoscope compiler (\<open>src/kaleidoscope\<close>).

  \<^bold>\<open>Parts of the program and the theories that model them\<close>

  \<^item> \<open>Prelude\<close>: two's complement arithmetic, truncating division, the contract of \<open>std::sort\<close>,
    the locale \<open>transition_system\<close>. \<open>Doubles\<close>: IEEE binary64 arithmetic as rounding of rationals.
  \<^item> \<open>Core_Types\<close>: \<open>core/types.h\<close>, \<open>core/order.h\<close>, \<open>core/order.cpp\<close>, \<open>core/fixed_point.h\<close>.
  \<^item> \<open>Queue_Spec\<close>, \<open>SPSC_Queue\<close>, \<open>MPSC_Queue\<close>: the contract of the bounded queues,
    \<open>core/spsc_queue.h\<close> and \<open>core/mpsc_queue.h\<close>.
    \<open>Memory_Pool\<close>: \<open>core/memory_pool.h\<close>.
  \<^item> \<open>Order_State_Machine\<close>: \<open>state/order_state_machine.h\<close> and \<open>.cpp\<close>.
  \<^item> \<open>Risk\<close>: \<open>risk/kill_switch\<close>, \<open>risk/rate_limiter\<close>, \<open>risk/risk_manager\<close>.
  \<^item> \<open>Book\<close>, \<open>Aggregator\<close>: \<open>market_data/book\<close> and \<open>market_data/aggregator\<close>.
  \<^item> \<open>Feed_Handler\<close>: \<open>market_data/feed_handler\<close>, its subscription in \<open>app/main.cpp\<close>, and
    \<open>market_data/feed_quality_monitor\<close>. \<open>Replay_Engine\<close>: \<open>market_data/replay_engine\<close>, recorded and generated ticks.
  \<^item> \<open>Strategy\<close>: \<open>routing/strategy.h\<close> with the contract of the strategies; \<open>Best_Price\<close>,
    \<open>Liquidity_Sweep\<close>, \<open>Smart_IOC\<close>, \<open>VWAP\<close>: the files of the same names under \<open>routing/\<close>;
    \<open>Routing_Engine\<close>: \<open>routing/engine\<close>.
  \<^item> \<open>Execution_Handler\<close>, \<open>Fill_Manager\<close>: the files of the same names under \<open>execution/\<close>.
  \<^item> \<open>Venue_Adapter\<close>, \<open>Simulated_Exchange\<close>: the interface of the venues with its contract, from
    \<open>connectors/venue_adapter.h\<close>, and \<open>connectors/simulated_exchange\<close>, which keeps it.
  \<^item> \<open>Gateway\<close>: \<open>gateway/gateway\<close>, which owns and connects all of these.
  \<^item> \<open>Text_Conversion\<close>: the conversions of the standard library between numbers and text that the code
    uses, with its exceptions; \<open>FIX_Adapter\<close>: \<open>connectors/fix_adapter\<close>, a venue reached by FIX
    messages; \<open>FIX_Gateway\<close>: \<open>gateway/fix_gateway\<close>, FIX clients of the gateway.
  \<^item> \<open>API_Gateway\<close>: \<open>gateway/api_gateway\<close> and \<open>gateway/zmq_transport\<close>, clients that send JSON, with the
    handler of their requests and the published events of \<open>app/main.cpp\<close>.
  \<^item> \<open>Message_Codec\<close>: \<open>core/net/protocol.h\<close> and \<open>core/net/message_codec\<close> of the flight simulator, framing
    and payloads; \<open>Network_Service\<close>: its \<open>core/net/network_service\<close>, which publishes telemetry to
    clients and takes commands from others.
  \<^item> \<open>MPMC_Queue\<close>, \<open>Backpressure\<close>, \<open>Thread_Pool\<close>, \<open>Event_Loop\<close>, \<open>Scheduler\<close>: \<open>queue/MPMCQueue.h\<close>,
    \<open>backpressure/BackpressurePolicy.h\<close>, \<open>executor/ThreadPoolExecutor\<close>, \<open>event/EventLoop\<close> and \<open>scheduler/Scheduler\<close>
    of the concurrency runtime; \<open>Async_Task\<close>: its \<open>async/AsyncTask.h\<close>, promises, tasks and continuations;
    \<open>Task_Storage\<close>: \<open>executor/Task.h\<close>; \<open>Runtime_Metrics\<close>: \<open>metrics/Metrics.h\<close>.
  \<^item> \<open>Lexer\<close>: \<open>src/Lexer.cpp\<close> of the compiler.

  \<^bold>\<open>How they interact\<close>

  The engine owns its strategies and venue scores and refers to the risk manager and the
  aggregator; \<open>route_order\<close> validates, asks \<open>check_order\<close>, reads the NBBO and the aggregated book
  and calls one strategy. Venue books reach the aggregator by \<open>on_book_update\<close>, those of the simulated
  feeds at each of their ticks. Execution reports
  drive the order state machine in the execution handler, which keeps parents and children, and
  fills go to the fill manager and the risk manager. The gateway takes orders from its queue
  through the risk check, the engine and the venues, and reports from the venues through the
  execution handler and its callbacks; a reroute sends a parent through the same path again.
  The FIX adapter writes orders as the messages that the FIX gateway reads; the FIX gateway submits
  them to the gateway and answers the fills of its execution handler with reports. JSON requests become
  submissions and cancels of the gateway, one reply each. In the flight
  simulator each client of the network service has a codec: bytes read are fed to it and its
  messages dispatched; states published become frames in the send queues of the clients. The
  workers of the thread pool and the event loop take their work from rings of \<open>MPMC_Queue\<close>, of which
  \<open>Backpressure\<close> decides what a push into a full one does; the scheduler has a heap of its own.

  \<^bold>\<open>Conventions\<close>

  Classes and structs are records, enumerations are datatypes, machine integers are \<open>int\<close> with
  \<open>i64\<close>, \<open>i32\<close>, \<open>u64\<close>, \<open>u32\<close> written wherever the code computes a new value of that type (words
  in the two lock-free structures), \<open>double\<close> is a rational that every operation rounds. Methods
  that read the clock take the time as an argument. Callbacks are events in the returned list.
  What the standard library leaves open (the order of equal elements in \<open>std::sort\<close>, the iteration
  order of unordered maps) is an argument, of which the lemmas assume only \<open>std_sort\<close> or
  \<open>any_order\<close>; the witnesses instantiate them by insertion sort and the identity. The random
  generator of the exchange is an argument of which nothing is assumed. The bounded queues of the
  gateway are lists with a capacity, which \<open>MPSC_Queue\<close> shows the ring to be. Exceptions are values
  of a sum type. The byte order of the host and the results of \<open>recv\<close>, \<open>send\<close>, \<open>accept\<close> and
  \<open>epoll_wait\<close> are arguments of the network theories, where bytes and integers are words; the JSON library is a
  record of functions, and what a lemma relies on is a hypothesis of it.

  \<^bold>\<open>What the lemmas show\<close>

  \<^item> Locales: \<open>transition_system\<close> (interpreted for the pool, risk manager, book side, aggregator, feeds, replay,
    execution handler, fill store, exchange, gateway, FIX session, codec, network service, thread pool, event loop,
    scheduler, asynchronous tasks, task storage and latency trackers) lifts step invariants to runs;
    \<open>bounded_queue\<close> (all three rings) gives conservation and order of items; \<open>venue_adapter\<close> (the
    simulated exchange) gives the execution handler what it relies on; \<open>price_priority\<close> (both book directions);
    \<open>strategy_contract\<close> and \<open>bounded_strategy\<close> (the four strategies); \<open>keyed_index\<close> (the two
    indexes of the fill store).
  \<^item> Refinement of abstract specifications: sorted insertion, map update, the life cycle of an
    order, the log of fills, the FIFO queue.
  \<^item> Invariants of runs: sorted books, the NBBO, counters of the risk manager, conservation of
    fills between parents and children, the free list of the pool.
  \<^item> Exactness and bounds: risk verdicts in exact arithmetic, liquidity sweeps, fill-or-kill,
    price bands, rate limits, averages.
  \<^item> Composition: the reports of the exchange are what the handler needs to keep parents and
    children in agreement; positions and fill store agree; the children of an order stay within
    it; the kill switch stops every order; every submitted order is accounted for.
  \<^item> Round trips: FIX messages, reports and whole orders between adapter and gateway; orders sent as JSON; framed
    messages under any fragmentation; text and binary files of recorded ticks; telemetry and commands through the network service; programs through the lexer.
  \<^item> Interleavings: the three queues under their producers and consumers; the workers of the pool, which lose no task
    put in their queues and end after a shutdown; the event loop; the replay under its controls; the scheduler, which runs tasks when they are due.
  \<^item> Behaviour that differs from what the code means to do is stated as it is, in theorems about
    the second ask level, full sides, open orders, limit prices, duplicate reports, VWAP, reroutes,
    the rate limiter, rejections after a fill, FIX fields and prices, the shared fill callback,
    discarded buffers of the codec, commands lost when a connection closes, items and tasks lost to a second push after a
    move, shutdowns that are not noticed, exceptions that end a chain of continuations and cancellations without effect.

  \<^bold>\<open>Bounds\<close>

  No definition needs fuel: every loop is a recursion on a list or a bounded index, but for the
  retry loops of the multi-producer queues and the waiting loops of the blocking push, partial functions that are shown to
  return. Hypotheses of
  the form \<open>x < 2 ^ 63\<close> or \<open>risk_range\<close> say that no 64-bit computation overflows; they hold for
  prices and quantities of real markets (prices are scaled by \<open>10 ^ 8\<close>). Doubles model the normal
  range: no infinities, NaNs or subnormals, which the modelled computations do not reach.

  \<^bold>\<open>Not modelled\<close>

  Locks (each method is one atomic step; in the gateway, the handling of one queued item),
  logging, metrics of the router, configuration files, user interfaces; sockets, ZeroMQ and HTTP themselves; the
  retries of the compare-and-exchange loops of the memory pool; memory orders weaker than
  sequential consistency in the queues. Not covered: the live market data providers of the router, the
  simulation of the flight simulator (floating-point physics), and \<open>src/nash\<close>.
\<close>

section \<open>Properties that span components\<close>

text \<open>
  C7: the simulated exchange and the execution handler fit together: whatever legal calls and
  matching cycles the exchange goes through, its reports, delivered in order to a handler that
  tracks the orders as children, leave every child with exactly the fills reported on it and
  every parent with the sum of the fills of its children.
\<close>

theorem exchange_feeds_handler:
  assumes "legal (venue_ok sx_internal) (venue_step sx_ops) cs (sx_new cfg, [])"
    and "run (venue_step sx_ops) cs (sx_new cfg, []) = (st, rs)"
    and "legal eh_ok eh_step hs eh_new" and "ex = run eh_step hs eh_new"
    and "\<forall>r \<in> set rs. eh_parent ex (r_order_id r) \<noteq> None \<and> filled_of ex (r_order_id r) = 0"
    and "\<forall>pid. filled_of ex pid + (\<Sum>r \<leftarrow> rs. r_last_quantity r) < 2 ^ 63"
    and "ex' = run eh_step (map (EC_Report now) rs) ex"
  shows "(\<forall>k. eh_parent ex k \<noteq> None \<longrightarrow> filled_of ex' k = filled_of ex k + fills_on k rs) \<and>
    (\<forall>pid kids. eh_children ex pid = Some kids \<longrightarrow> filled_of ex' pid = (\<Sum>k \<leftarrow> kids. filled_of ex' k))"
proof -
  have inv: "eh_inv ex" using exec.inv_run [OF assms(3)] assms(4) by simp
  note feed = venue_adapter.run_feeds_handler [OF sim.venue_adapter_axioms assms(1,2) inv assms(5,6),
    of now, folded assms(7)]
  then have "eh_inv ex'" using exec.inv_run_from [OF inv] assms(7) by blast
  with feed show ?thesis by (simp add: eh_inv_def)
qed

text \<open>A handler with a parent and the order of the example exchange as its child.\<close>

definition example_setup :: "eh_cmd list" where
  "example_setup = [EC_Track (default_order\<lparr>o_id := 1, o_quantity := 10\<rparr>), EC_Child 1 example_order]"

lemma example_setup_facts:
  "legal eh_ok eh_step example_setup eh_new" "eh_parent (run eh_step example_setup eh_new) = [7 \<mapsto> 1]"
  "eh_children (run eh_step example_setup eh_new) = [1 \<mapsto> [7]]" "filled_of (run eh_step example_setup eh_new) k = 0"
  by (simp_all add: example_setup_def example_order_def default_order_def eh_new_def track_order_def
      track_child_order_def eh_put_def filled_of_def Let_def)

theorem exchange_feeds_handler_witness:
  "\<exists>rs. let ex' = run eh_step (map (EC_Report 9) rs) (run eh_step example_setup eh_new)
     in map r_state rs = [Accepted, PartiallyFilled] \<and> filled_of ex' 7 = 5 \<and> filled_of ex' 1 = 5"
proof -
  let ?s0 = "run (sx_step example_rng) example_cmds (sx_new example_config, [])"
  let ?ex = "run eh_step example_setup eh_new"
  obtain a where a: "snd ?s0 = [a]" "r_order_id a = 7" "r_state a = Accepted" "r_last_quantity a = 0"
    by (auto simp: example_cmds_def sx_new_def sx_connect_def sx_set_market_price_def sx_send_order_def
        sx_report_def example_order_def)
  obtain rs st' where m: "process_matching example_rng 6 (fst ?s0) = (rs, st')" by fastforce
  obtain f where f: "rs = [f]" "r_state f = PartiallyFilled" "r_last_quantity f = 5"
    using example_fill by (auto simp: m)
  define cs where "cs = [VC_Connect, VC_Internal [] (sx_set_market_price 90 95 (snd (sx_connect (sx_new example_config)))),
    VC_Send 5 example_order, VC_Internal rs st']"
  have s0: "run (venue_step sx_ops) (take 3 cs) (sx_new example_config, []) = ?s0"
    by (simp add: cs_def example_cmds_def sx_ops_def split: prod.split)
  have "sx_internal (snd (sx_connect (sx_new example_config)))
      ([], sx_set_market_price 90 95 (snd (sx_connect (sx_new example_config))))"
    unfolding sx_internal_def by blast
  then have "legal (venue_ok sx_internal) (venue_step sx_ops) (take 3 cs) (sx_new example_config, [])"
    by (simp add: cs_def sx_ops_def sendable_def example_order_def default_order_def reports_on_def)
  moreover have "venue_ok sx_internal (VC_Internal rs st') ?s0"
    using m by (cases ?s0) (auto simp: sx_internal_def)
  moreover have cs: "cs = take 3 cs @ [VC_Internal rs st']" by (simp add: cs_def)
  ultimately have leg: "legal (venue_ok sx_internal) (venue_step sx_ops) cs (sx_new example_config, [])"
    using s0 legal_append [of "venue_ok sx_internal" "venue_step sx_ops" "take 3 cs" "[VC_Internal rs st']"] by simp
  have r: "run (venue_step sx_ops) cs (sx_new example_config, []) = (st', [a, f])"
    using run_append [of "venue_step sx_ops" "take 3 cs" "[VC_Internal rs st']"] cs s0 a(1) f(1)
    by (cases ?s0) simp
  have idf: "r_order_id f = 7"
  proof -
    have "all_conform [a, f]" using sim.run_conforms [OF leg] r by simp
    then show ?thesis
      using f(3) a(2) by (auto simp: all_conform_def conforms_def reports_on_def report_stream_def dest: spec [of _ "r_order_id f"] split: if_splits)
  qed
  have "(\<forall>k. eh_parent ?ex k \<noteq> None \<longrightarrow>
      filled_of (run eh_step (map (EC_Report 9) [a, f]) ?ex) k = filled_of ?ex k + fills_on k [a, f]) \<and>
    (\<forall>pid kids. eh_children ?ex pid = Some kids \<longrightarrow>
      filled_of (run eh_step (map (EC_Report 9) [a, f]) ?ex) pid =
        (\<Sum>k \<leftarrow> kids. filled_of (run eh_step (map (EC_Report 9) [a, f]) ?ex) k))"
    by (rule exchange_feeds_handler [OF leg r example_setup_facts(1) refl _ _ refl])
      (simp_all add: example_setup_facts a idf f(3))
  moreover have "fills_on 7 [a, f] = 5" by (simp add: fills_on_def reports_on_def a idf f(3))
  ultimately have "filled_of (run eh_step (map (EC_Report 9) [a, f]) ?ex) 7 = 5"
    and "filled_of (run eh_step (map (EC_Report 9) [a, f]) ?ex) 1 = 5"
    by (simp_all add: example_setup_facts del: eh_step.simps run.simps)
  then show ?thesis unfolding Let_def using a(3) f(2) by (intro exI [of _ "[a, f]"]) simp
qed

text \<open>
  C32: an order that the exchange rejects after a partial fill is lost to the router: the random
  rejection of a matching cycle also hits orders that rest with fills, the exchange then drops the
  order with a \<open>Rejected\<close> report, but the router's state machine has no such transition, so the child
  stays \<open>PartiallyFilled\<close> and the parent is neither rerouted nor completed.
\<close>

theorem reject_after_fill_stalls_parent:
  assumes "rg_unit g (xs_draws st) < xc_reject_prob (xs_config st)" and "try_match g now io st = (keep, rs, io', st')"
    and "k = o_id (io_order io)" and "eh_orders ex k = Some od" and "o_id od = k" and "o_state od = PartiallyFilled"
    and "eh_parent ex k = Some pid" and "eh_orders ex pid = Some p" and "pid \<noteq> k" and "o_filled p < o_quantity p"
  shows "\<exists>r. rs = [r] \<and> \<not> keep \<and> r_state r = Rejected \<and>
    fst (on_execution_report now r ex) = [] \<and>
    map_option o_state (eh_orders (snd (on_execution_report now r ex)) k) = Some PartiallyFilled"
proof -
  define r where "r = sx_report now (io_order io) Rejected (o_filled (io_order io)) 0 ''Exchange rejected order'' (snd (draw (rg_unit g) st))"
  have rs: "rs = [r]" "\<not> keep"
    using assms(1,2) by (auto simp: try_match_def draw_def generate_reject_def r_def Let_def)
  have r: "r_order_id r = k" "r_state r = Rejected" "r_last_quantity r = 0"
    by (simp_all add: r_def sx_report_def assms(3))
  have "osm_apply PartiallyFilled Reject = None" by code_simp
  then have od: "book_fill r (apply_report_state now Rejected Reject od) = od"
    using assms(6) by (simp add: book_fill_def r apply_report_state_def osm_apply_order_def)
  have "fst (on_execution_report now r ex) = [] \<and>
      eh_orders (snd (on_execution_report now r ex)) k = Some od"
    using assms(4-10)
    by (simp add: on_execution_report_def r od eh_put_def child_branch_def reroute_step_def needs_reroute_def
        is_terminal_def complete_step_def Let_def)
  with rs r assms(6) show ?thesis by (intro exI [of _ r]) simp
qed

theorem reject_after_fill_stalls_parent_witness:
  "let part = example_order\<lparr>o_filled := 5, o_state := PartiallyFilled\<rparr>;
       io = \<lparr>io_order = part, io_received = 0, io_pending_cancel = False\<rparr>;
       ex = eh_put 7 part (run eh_step example_setup eh_new);
       (keep, rs, _) = try_match \<lparr>rg_unit = (\<lambda>n. 0), rg_part = (\<lambda>n. 0)\<rparr> 9 io (sx_new example_config)
   in \<not> keep \<and> (\<exists>r. rs = [r] \<and> r_state r = Rejected \<and> fst (on_execution_report 9 r ex) = [])"
proof -
  define part where "part = example_order\<lparr>o_filled := 5, o_state := PartiallyFilled\<rparr>"
  define io where "io = \<lparr>io_order = part, io_received = 0, io_pending_cancel = False\<rparr>"
  define ex where "ex = eh_put 7 part (run eh_step example_setup eh_new)"
  let ?g = "\<lparr>rg_unit = (\<lambda>n. 0), rg_part = (\<lambda>n. 0)\<rparr>"
  obtain keep rs io' st' where m: "try_match ?g 9 io (sx_new example_config) = (keep, rs, io', st')"
    by (metis prod_cases4)
  have "rg_unit ?g (xs_draws (sx_new example_config)) < xc_reject_prob (xs_config (sx_new example_config))"
    by (simp add: sx_new_def example_config_def)
  moreover have "eh_orders ex 7 = Some part" "eh_parent ex 7 = Some 1" "o_id (io_order io) = 7" "o_id part = 7"
    "o_state part = PartiallyFilled" "eh_orders ex 1 = Some (default_order\<lparr>o_id := 1, o_quantity := 10\<rparr>)"
    by (simp_all add: ex_def eh_put_def example_setup_facts io_def part_def example_order_def)
      (simp add: example_setup_def example_order_def default_order_def eh_new_def track_order_def
        track_child_order_def eh_put_def Let_def)
  ultimately show ?thesis
    using reject_after_fill_stalls_parent [OF _ m, where k = 7 and ex = ex and od = part and pid = 1
        and p = "default_order\<lparr>o_id := 1, o_quantity := 10\<rparr>"]
    by (auto simp: part_def [symmetric] io_def [symmetric] ex_def [symmetric] m default_order_def)
qed

end
